(* ===== verification/Prelude.thy ===== *)
theory Prelude
  imports Main
begin

text \<open>
  The shared vocabulary of the development: Go's error values and \<open>errors.Is\<close>, the
  environment an operation sees (its context and its clock), the state monad in which the
  stateful operations are written, a small total-correctness logic over that monad, and the
  list and option lemmas that several components use.
\<close>

section \<open>Collections of rules\<close>

named_theorems go_run \<open>equations that run a stateful operation on a state\<close>
named_theorems go_spec \<open>total-correctness rules of stateful operations\<close>

section \<open>Errors\<close>

text \<open>
  The sentinel errors of \<open>error.go\<close> and \<open>http_authorizer.go\<close>, the ones of the Go library
  that the code compares against (\<open>errors\<close>, \<open>io\<close>, \<open>io/fs\<close>, \<open>os\<close>, \<open>context\<close>), and the
  three ways the code builds other errors: a fresh message (\<open>errors.New\<close>, or \<open>fmt.Errorf\<close>
  without a wrapped error), a message around an error (\<open>fmt.Errorf\<close> with \<^verbatim>\<open>%w\<close>), and
  \<open>errors.Join\<close>.
\<close>

datatype error =
    ErrStageExpired
  | ErrStageClosed
  | ErrStageConflict
  | ErrStageFormat
  | ErrOffsetMismatch
  | ErrIncompatibleStore
  | ErrUnimplemented
  | ErrNotExist
  | ErrAlreadyExists
  | ErrInvalidDigest
  | ErrDigestMismatch
  | ErrUnauthenticated
  | ErrForbidden
  | ErrUnsupported
  | EOF
  | ErrUnexpectedEOF
  | FsErrNotExist
  | FsErrExist
  | OsErrClosed
  | ContextCanceled
  | ContextDeadlineExceeded
  | ErrorString string
  | Wrapped string error
  | Joined "error list"

text \<open>
  \<open>errors.Is\<close>: the error itself, or one it wraps. The code only asks for sentinels, so the
  comparison of whole values is the comparison of identities that Go makes.
\<close>

fun errors_Is :: "error \<Rightarrow> error \<Rightarrow> bool" where
  "errors_Is (Wrapped msg e) t = (Wrapped msg e = t \<or> errors_Is e t)"
| "errors_Is (Joined es) t = (Joined es = t \<or> (\<exists>e \<in> set es. errors_Is e t))"
| "errors_Is e t = (e = t)"

text \<open>\<open>errors.Join\<close> drops nil errors and is nil when nothing is left.\<close>

definition errors_Join :: "error option list \<Rightarrow> error option" where
  "errors_Join es =
     (let xs = [e. Some e \<leftarrow> es] in if xs = [] then None else Some (Joined xs))"

lemma errors_Is_refl [simp]: "errors_Is e e"
  by (cases e) auto

lemma errors_Join_None [simp]: "errors_Join es = None \<longleftrightarrow> set es \<subseteq> {None}"
  by (induction es) (auto simp: errors_Join_def Let_def split: option.splits if_splits)

section \<open>The environment of an operation\<close>

text \<open>
  An operation receives a \<open>context.Context\<close> and reads the clock. Both are outside the
  program's control and may change between two looks, so an environment answers the
  \<open>n\<close>-th look separately: \<open>ctx_Err e n\<close> is what the \<open>n\<close>-th \<open>ctx.Err()\<close> of the operation
  returns and \<open>time_Now e n\<close> its \<open>n\<close>-th reading of the clock. An operation that calls
  another one hands it \<open>env_after k e\<close>, past the \<open>k\<close> looks it has taken itself.
  A time is a number of nanoseconds since Go's zero \<open>time.Time\<close>, which is therefore 0,
  and a duration a number of nanoseconds.
\<close>

type_synonym time = int
type_synonym duration = int

record env =
  ctx_Err :: "nat \<Rightarrow> error option"
  time_Now :: "nat \<Rightarrow> time"

definition env_after :: "nat \<Rightarrow> env \<Rightarrow> env" where
  "env_after k e = \<lparr>ctx_Err = (\<lambda>n. ctx_Err e (n + k)), time_Now = (\<lambda>n. time_Now e (n + k))\<rparr>"

text \<open>An environment whose context is never done.\<close>

definition live :: "env \<Rightarrow> bool" where
  "live e \<longleftrightarrow> (\<forall>n. ctx_Err e n = None)"

lemma live_ctx_Err [simp]: "live e \<Longrightarrow> ctx_Err e n = None"
  by (simp add: live_def)

lemma live_env_after [simp]: "live e \<Longrightarrow> live (env_after k e)"
  by (simp add: live_def env_after_def)

lemma ctx_Err_env_after [simp]: "ctx_Err (env_after k e) n = ctx_Err e (n + k)"
  by (simp add: env_after_def)

lemma time_Now_env_after [simp]: "time_Now (env_after k e) n = time_Now e (n + k)"
  by (simp add: env_after_def)

text \<open>\<open>context.Background()\<close>, and a clock that stands at \<open>now\<close>.\<close>

definition background :: "time \<Rightarrow> env" where
  "background now = \<lparr>ctx_Err = (\<lambda>_. None), time_Now = (\<lambda>_. now)\<rparr>"

lemma live_background [simp]: "live (background now)"
  by (simp add: live_def background_def)

lemma background_simps [simp]: "ctx_Err (background now) n = None" "time_Now (background now) n = now"
  by (simp_all add: background_def)

section \<open>Stateful operations\<close>

text \<open>
  A Go function that reads and changes a state \<open>'s\<close> and returns an \<open>'a\<close> is a function from
  the state to the result and the next state; \<open>None\<close> says that it does not return. Go's pair
  of a value and an error is \<open>error + 'a\<close> where the value is the zero value whenever the
  error is set, and \<open>'a \<times> error option\<close> where the code returns a partial value beside the
  error. \<open>chk\<close> is the idiom \<^verbatim>\<open>x, err := m; if err != nil { return h(err) }; k(x)\<close>.
\<close>

type_synonym ('s, 'a) go = "'s \<Rightarrow> ('a \<times> 's) option"

definition ret :: "'a \<Rightarrow> ('s, 'a) go" where
  [go_run]: "ret x s = Some (x, s)"

definition bind :: "('s, 'a) go \<Rightarrow> ('a \<Rightarrow> ('s, 'b) go) \<Rightarrow> ('s, 'b) go" where
  [go_run]: "bind m k s = (case m s of None \<Rightarrow> None | Some (x, s') \<Rightarrow> k x s')"

definition chk ::
  "('s, error + 'a) go \<Rightarrow> (error \<Rightarrow> 'b) \<Rightarrow> ('a \<Rightarrow> ('s, 'b) go) \<Rightarrow> ('s, 'b) go" where
  [go_run]: "chk m h k = bind m (\<lambda>r. case r of Inl err \<Rightarrow> ret (h err) | Inr x \<Rightarrow> k x)"

text \<open>\<open>chke\<close> is the same idiom for a function that returns only an error.\<close>

definition chke ::
  "('s, error option) go \<Rightarrow> (error \<Rightarrow> 'b) \<Rightarrow> ('s, 'b) go \<Rightarrow> ('s, 'b) go" where
  [go_run]: "chke m h k = bind m (\<lambda>r. case r of Some err \<Rightarrow> ret (h err) | None \<Rightarrow> k)"

text \<open>\<open>defer m c\<close> runs \<open>c\<close> on the result of \<open>m\<close> before the result is returned.\<close>

definition deferred :: "('s, 'a) go \<Rightarrow> ('a \<Rightarrow> ('s, unit) go) \<Rightarrow> ('s, 'a) go" where
  [go_run]: "deferred m c = bind m (\<lambda>r. bind (c r) (\<lambda>_. ret r))"

definition gets :: "('s \<Rightarrow> 'a) \<Rightarrow> ('s, 'a) go" where
  [go_run]: "gets f s = Some (f s, s)"

definition modify :: "('s \<Rightarrow> 's) \<Rightarrow> ('s, unit) go" where
  [go_run]: "modify f s = Some ((), f s)"

section \<open>Total correctness\<close>

text \<open>
  \<open>returns P m Q\<close>: from a state that satisfies \<open>P\<close>, the operation returns, and its result and
  next state satisfy \<open>Q\<close>.
\<close>

definition returns :: "('s \<Rightarrow> bool) \<Rightarrow> ('s, 'a) go \<Rightarrow> ('a \<Rightarrow> 's \<Rightarrow> bool) \<Rightarrow> bool" where
  "returns P m Q \<longleftrightarrow> (\<forall>s. P s \<longrightarrow> (\<exists>r s'. m s = Some (r, s') \<and> Q r s'))"

lemma returnsI: "(\<And>s. P s \<Longrightarrow> \<exists>r s'. m s = Some (r, s') \<and> Q r s') \<Longrightarrow> returns P m Q"
  by (simp add: returns_def)

lemma returnsD: "returns P m Q \<Longrightarrow> P s \<Longrightarrow> \<exists>r s'. m s = Some (r, s') \<and> Q r s'"
  by (simp add: returns_def)

lemma returns_result: "returns P m Q \<Longrightarrow> P s \<Longrightarrow> m s = Some (r, s') \<Longrightarrow> Q r s'"
  by (fastforce simp: returns_def)

lemma returns_conseq:
  "returns P' m Q' \<Longrightarrow> (\<And>s. P s \<Longrightarrow> P' s) \<Longrightarrow> (\<And>r s. Q' r s \<Longrightarrow> Q r s) \<Longrightarrow> returns P m Q"
  by (fastforce simp: returns_def)

lemma returns_pre: "returns P' m Q \<Longrightarrow> (\<And>s. P s \<Longrightarrow> P' s) \<Longrightarrow> returns P m Q"
  by (rule returns_conseq)

lemma returns_post: "returns P m Q' \<Longrightarrow> (\<And>r s. Q' r s \<Longrightarrow> Q r s) \<Longrightarrow> returns P m Q"
  by (rule returns_conseq)

lemma returns_ret [go_spec]: "(\<And>s. P s \<Longrightarrow> Q x s) \<Longrightarrow> returns P (ret x) Q"
  by (simp add: returns_def ret_def)

lemma returns_bind: "returns P m R \<Longrightarrow> (\<And>x. returns (R x) (k x) Q) \<Longrightarrow> returns P (bind m k) Q"
  by (fastforce simp: returns_def bind_def)

lemma returns_chk:
  assumes "returns P m (\<lambda>r. case r of Inl err \<Rightarrow> Q (h err) | Inr x \<Rightarrow> R x)"
    and "\<And>x. returns (R x) (k x) Q"
  shows "returns P (chk m h k) Q"
  unfolding chk_def using assms
  by (intro returns_bind [OF assms(1)]) (auto simp: returns_def ret_def split: sum.splits)

lemma returns_chke:
  assumes "returns P m (\<lambda>r. case r of Some err \<Rightarrow> Q (h err) | None \<Rightarrow> R)"
    and "returns R k Q"
  shows "returns P (chke m h k) Q"
  unfolding chke_def using assms
  by (intro returns_bind [OF assms(1)]) (auto simp: returns_def ret_def split: option.splits)

lemma returns_deferred:
  assumes "returns P m R" and "\<And>x. returns (R x) (c x) (\<lambda>_. Q x)"
  shows "returns P (deferred m c) Q"
  unfolding deferred_def
  by (intro returns_bind [OF assms(1)] returns_bind [OF assms(2)]) (simp add: returns_def ret_def)

lemma returns_if:
  "(b \<Longrightarrow> returns P m Q) \<Longrightarrow> (\<not> b \<Longrightarrow> returns P n Q) \<Longrightarrow> returns P (if b then m else n) Q"
  by simp

section \<open>Lists and options\<close>

lemma map_upd_triv_dom: "m k = Some v \<Longrightarrow> insert k (dom m) = dom m"
  by auto

lemma list_all_conv_set: "list_all P xs \<longleftrightarrow> (\<forall>x \<in> set xs. P x)"
  by (simp add: list_all_iff)

end
