(* ===== verification/GoStd.thy ===== *)
theory GoStd
  imports Prelude
begin

text \<open>
  The pieces of the Go library that the components compute with: bytes and ASCII letters,
  \<open>strings\<close> (cutting, splitting, trimming, prefixes), hexadecimal and decimal text, the
  big-endian 64-bit integer of \<open>encoding/binary\<close>, 64-bit wrap-around, and the unpadded
  URL-safe base64 of \<open>encoding/base64\<close> with its strict decoder. A Go string is a sequence of
  bytes, so \<open>string\<close> and \<open>[]byte\<close> are both lists of characters.
\<close>

type_synonym bytes = string

abbreviation byte_val :: "char \<Rightarrow> nat" where
  "byte_val c \<equiv> of_char c"

lemma byte_val_less [simp]: "byte_val c < 256"
  by (metis char_of_char of_char_of mod_less_divisor zero_less_numeral)

section \<open>Letters\<close>

definition is_upper :: "char \<Rightarrow> bool" where
  "is_upper c \<longleftrightarrow> 65 \<le> byte_val c \<and> byte_val c \<le> 90"

definition is_lower :: "char \<Rightarrow> bool" where
  "is_lower c \<longleftrightarrow> 97 \<le> byte_val c \<and> byte_val c \<le> 122"

definition is_digit :: "char \<Rightarrow> bool" where
  "is_digit c \<longleftrightarrow> 48 \<le> byte_val c \<and> byte_val c \<le> 57"

definition lower_char :: "char \<Rightarrow> char" where
  "lower_char c = (if is_upper c then char_of (byte_val c + 32) else c)"

definition upper_char :: "char \<Rightarrow> char" where
  "upper_char c = (if is_lower c then char_of (byte_val c - 32) else c)"

text \<open>\<open>strings.ToLower\<close>, \<open>strings.ToUpper\<close> and \<open>strings.EqualFold\<close> on ASCII text.\<close>

definition ToLower :: "string \<Rightarrow> string" where
  "ToLower s = map lower_char s"

definition ToUpper :: "string \<Rightarrow> string" where
  "ToUpper s = map upper_char s"

definition EqualFold :: "string \<Rightarrow> string \<Rightarrow> bool" where
  "EqualFold s t \<longleftrightarrow> ToLower s = ToLower t"

section \<open>Cutting and splitting\<close>

definition HasPrefix :: "string \<Rightarrow> string \<Rightarrow> bool" where
  "HasPrefix s p \<longleftrightarrow> take (length p) s = p"

definition CutPrefix :: "string \<Rightarrow> string \<Rightarrow> string option" where
  "CutPrefix s p = (if HasPrefix s p then Some (drop (length p) s) else None)"

definition TrimPrefix :: "string \<Rightarrow> string \<Rightarrow> string" where
  "TrimPrefix s p = (if HasPrefix s p then drop (length p) s else s)"

definition HasSuffix :: "string \<Rightarrow> string \<Rightarrow> bool" where
  "HasSuffix s p \<longleftrightarrow> HasPrefix (rev s) (rev p)"

definition CutSuffix :: "string \<Rightarrow> string \<Rightarrow> string option" where
  "CutSuffix s p = (if HasSuffix s p then Some (take (length s - length p) s) else None)"

text \<open>
  \<open>strings.Cut\<close> at a one-byte separator: the text before and after its first occurrence, or
  \<open>None\<close> when there is none (Go then returns the whole text as the first part).
\<close>

fun Cut :: "string \<Rightarrow> char \<Rightarrow> (string \<times> string) option" where
  "Cut [] sep = None"
| "Cut (c # cs) sep =
     (if c = sep then Some ([], cs)
      else (case Cut cs sep of None \<Rightarrow> None | Some (a, b) \<Rightarrow> Some (c # a, b)))"

text \<open>\<open>strings.Split\<close> and \<open>strings.SplitN\<close> at a one-byte separator.\<close>

fun Split :: "string \<Rightarrow> char \<Rightarrow> string list" where
  "Split [] sep = [[]]"
| "Split (c # cs) sep =
     (if c = sep then [] # Split cs sep
      else (case Split cs sep of [] \<Rightarrow> [[c]] | p # ps \<Rightarrow> (c # p) # ps))"

fun SplitN :: "string \<Rightarrow> char \<Rightarrow> nat \<Rightarrow> string list" where
  "SplitN s sep 0 = []"
| "SplitN s sep (Suc 0) = [s]"
| "SplitN s sep (Suc (Suc n)) =
     (case Cut s sep of None \<Rightarrow> [s] | Some (a, b) \<Rightarrow> a # SplitN b sep (Suc n))"

text \<open>\<open>strings.Fields\<close>: the maximal runs of bytes that are not ASCII white space.\<close>

definition is_space :: "char \<Rightarrow> bool" where
  "is_space c \<longleftrightarrow> byte_val c \<in> {9, 10, 11, 12, 13, 32}"

fun Fields_acc :: "string \<Rightarrow> string \<Rightarrow> string list" where
  "Fields_acc w [] = (if w = [] then [] else [rev w])"
| "Fields_acc w (c # cs) =
     (if is_space c then (if w = [] then Fields_acc [] cs else rev w # Fields_acc [] cs)
      else Fields_acc (c # w) cs)"

definition Fields :: "string \<Rightarrow> string list" where
  "Fields s = Fields_acc [] s"

text \<open>\<open>strings.Join\<close>, \<open>strings.Trim\<close> with a set of bytes and \<open>strings.TrimRight\<close>.\<close>

fun strings_Join :: "string list \<Rightarrow> string \<Rightarrow> string" where
  "strings_Join [] sep = []"
| "strings_Join [x] sep = x"
| "strings_Join (x # y # ys) sep = x @ sep @ strings_Join (y # ys) sep"

definition TrimRight :: "string \<Rightarrow> string \<Rightarrow> string" where
  "TrimRight s cs = rev (dropWhile (\<lambda>c. c \<in> set cs) (rev s))"

definition Trim :: "string \<Rightarrow> string \<Rightarrow> string" where
  "Trim s cs = TrimRight (dropWhile (\<lambda>c. c \<in> set cs) s) cs"

lemma HasPrefix_append [simp]: "HasPrefix (p @ s) p"
  by (simp add: HasPrefix_def)

lemma CutPrefix_append [simp]: "CutPrefix (p @ s) p = Some s"
  by (simp add: CutPrefix_def)

lemma CutPrefix_Some: "CutPrefix s p = Some r \<longleftrightarrow> s = p @ r"
  by (auto simp: CutPrefix_def HasPrefix_def) (metis append_take_drop_id)

lemma Cut_append [simp]: "sep \<notin> set a \<Longrightarrow> Cut (a @ sep # b) sep = Some (a, b)"
  by (induction a) auto

lemma Cut_None: "sep \<notin> set s \<Longrightarrow> Cut s sep = None"
  by (induction s) auto

lemma Cut_Some: "Cut s sep = Some (a, b) \<longleftrightarrow> s = a @ sep # b \<and> sep \<notin> set a"
proof
  assume "Cut s sep = Some (a, b)"
  then show "s = a @ sep # b \<and> sep \<notin> set a"
    by (induction s arbitrary: a) (auto split: option.splits if_splits)
qed auto

section \<open>Numbers as text\<close>

definition hex_digit :: "nat \<Rightarrow> char" where
  "hex_digit n = char_of (if n < 10 then n + 48 else n + 87)"

text \<open>\<^verbatim>\<open>fmt.Sprintf("%x", b)\<close> and \<open>hex.EncodeToString\<close>.\<close>

definition hex_byte :: "char \<Rightarrow> string" where
  "hex_byte c = [hex_digit (byte_val c div 16), hex_digit (byte_val c mod 16)]"

definition hex_encode :: "bytes \<Rightarrow> string" where
  "hex_encode b = concat (map hex_byte b)"

definition is_hex :: "char \<Rightarrow> bool" where
  "is_hex c \<longleftrightarrow> is_digit c \<or> 97 \<le> byte_val c \<and> byte_val c \<le> 102"

lemma is_hex_hex_digit [simp]: "n < 16 \<Longrightarrow> is_hex (hex_digit n)"
  by (auto simp: hex_digit_def is_hex_def is_digit_def)

lemma byte_val_div_16 [simp]: "byte_val c div 16 < 16"
  using byte_val_less [of c] by (simp add: less_mult_imp_div_less)

lemma is_hex_hex_encode: "c \<in> set (hex_encode b) \<Longrightarrow> is_hex c"
  by (auto simp: hex_encode_def hex_byte_def)

lemma length_hex_encode [simp]: "length (hex_encode b) = 2 * length b"
  by (induction b) (simp_all add: hex_encode_def hex_byte_def)

text \<open>\<open>strconv.Itoa\<close> and \<open>strconv.FormatInt\<close> in base 10.\<close>

fun nat_decimal :: "nat \<Rightarrow> string" where
  "nat_decimal n =
     (if n < 10 then [char_of (n + 48)] else nat_decimal (n div 10) @ [char_of (n mod 10 + 48)])"

declare nat_decimal.simps [simp del]

definition FormatInt :: "int \<Rightarrow> string" where
  "FormatInt i = (if i < 0 then CHR ''-'' # nat_decimal (nat (- i)) else nat_decimal (nat i))"

text \<open>The value of a text of decimal digits, as \<open>strconv.ParseInt\<close> computes it.\<close>

definition digits_val :: "string \<Rightarrow> nat" where
  "digits_val s = foldl (\<lambda>a c. 10 * a + (byte_val c - 48)) 0 s"

text \<open>
  \<open>strconv.ParseInt(s, 10, 64)\<close>: an optional sign and at least one digit, within 64 bits.
\<close>

definition ParseInt :: "string \<Rightarrow> int option" where
  "ParseInt s =
     (let (neg, ds) = (case s of [] \<Rightarrow> (False, [])
                       | c # cs \<Rightarrow> if c = CHR ''-'' then (True, cs)
                                   else if c = CHR ''+'' then (False, cs) else (False, s));
          v = int (digits_val ds)
      in if ds = [] \<or> \<not> list_all is_digit ds then None
         else if neg then (if v \<le> 2 ^ 63 then Some (- v) else None)
         else (if v < 2 ^ 63 then Some v else None))"

lemma digits_val_snoc [simp]: "digits_val (s @ [c]) = 10 * digits_val s + (byte_val c - 48)"
  by (simp add: digits_val_def)

lemma is_digit_char_of: "(n::nat) < 10 \<Longrightarrow> is_digit (char_of (n + 48))"
  by (simp add: is_digit_def)

lemma nat_decimal_digits: "list_all is_digit (nat_decimal n)"
proof (induction n rule: nat_decimal.induct)
  case (1 n)
  then show ?case
    by (subst nat_decimal.simps) (simp add: is_digit_char_of)
qed

lemma nat_decimal_nonempty [simp]: "nat_decimal n \<noteq> []"
  by (subst nat_decimal.simps) simp

lemma digits_val_decimal [simp]: "digits_val (nat_decimal n) = n"
proof (induction n rule: nat_decimal.induct)
  case (1 n)
  then show ?case
    by (subst nat_decimal.simps) (auto simp: digits_val_def [of "[_]"])
qed

lemma ParseInt_FormatInt: "- (2 ^ 63) \<le> i \<Longrightarrow> i < 2 ^ 63 \<Longrightarrow> ParseInt (FormatInt i) = Some i"
proof -
  assume i: "- (2 ^ 63) \<le> i" "i < 2 ^ 63"
  have hd: "hd (nat_decimal n) \<noteq> CHR ''-''" "hd (nat_decimal n) \<noteq> CHR ''+''" for n
    using nat_decimal_digits [of n] by (cases "nat_decimal n"; force simp: is_digit_def)+
  show ?thesis
  proof (cases "i < 0")
    case True
    with i show ?thesis
      by (simp add: ParseInt_def FormatInt_def nat_decimal_digits)
  next
    case False
    obtain c cs where n: "nat_decimal (nat i) = c # cs"
      by (cases "nat_decimal (nat i)") auto
    with hd [of "nat i"] nat_decimal_digits [of "nat i"] digits_val_decimal [of "nat i"] i False
    show ?thesis
      by (simp add: ParseInt_def FormatInt_def)
  qed
qed

text \<open>\<open>binary.BigEndian.Uint64\<close> and its inverse.\<close>

definition be_val :: "bytes \<Rightarrow> nat" where
  "be_val b = foldl (\<lambda>a c. 256 * a + byte_val c) 0 b"

fun be_bytes :: "nat \<Rightarrow> nat \<Rightarrow> bytes" where
  "be_bytes 0 n = []"
| "be_bytes (Suc k) n = be_bytes k (n div 256) @ [char_of (n mod 256)]"

lemma length_be_bytes [simp]: "length (be_bytes k n) = k"
  by (induction k arbitrary: n) auto

lemma be_val_snoc: "be_val (b @ [c]) = 256 * be_val b + byte_val c"
  by (simp add: be_val_def)

lemma be_val_be_bytes [simp]: "be_val (be_bytes k n) = n mod 256 ^ k"
proof (induction k arbitrary: n)
  case 0
  show ?case by (simp add: be_val_def)
next
  case (Suc k)
  have "n mod 256 ^ Suc k = 256 * (n div 256 mod 256 ^ k) + n mod 256"
    by (simp add: mod_mult2_eq)
  then show ?case
    by (simp add: be_val_snoc Suc.IH del: power_Suc)
qed

text \<open>Two's-complement wrap-around of a 64-bit signed integer.\<close>

definition wrap64 :: "int \<Rightarrow> int" where
  "wrap64 i = (i + 2 ^ 63) mod 2 ^ 64 - 2 ^ 63"

lemma wrap64_id: "- (2 ^ 63) \<le> i \<Longrightarrow> i < 2 ^ 63 \<Longrightarrow> wrap64 i = i"
  by (simp add: wrap64_def)

lemma wrap64_range: "- (2 ^ 63) \<le> wrap64 i \<and> wrap64 i < 2 ^ 63"
  by (simp add: wrap64_def)

section \<open>Unpadded URL-safe base64\<close>

definition b64_char :: "nat \<Rightarrow> char" where
  "b64_char n =
     char_of (if n < 26 then n + 65 else if n < 52 then n + 71 else if n < 62 then n - 4
              else if n = 62 then 45 else 95)"

definition b64_val :: "char \<Rightarrow> nat option" where
  "b64_val c =
     (if is_upper c then Some (byte_val c - 65)
      else if is_lower c then Some (byte_val c - 71)
      else if is_digit c then Some (byte_val c + 4)
      else if c = CHR ''-'' then Some 62
      else if c = CHR ''_'' then Some 63
      else None)"

text \<open>\<open>base64.RawURLEncoding.EncodeToString\<close>.\<close>

fun b64_groups :: "nat list \<Rightarrow> nat list" where
  "b64_groups [] = []"
| "b64_groups [a] = [a div 4, a mod 4 * 16]"
| "b64_groups [a, b] = [a div 4, a mod 4 * 16 + b div 16, b mod 16 * 4]"
| "b64_groups (a # b # c # r) =
     a div 4 # (a mod 4 * 16 + b div 16) # (b mod 16 * 4 + c div 64) # c mod 64 # b64_groups r"

definition RawURL_EncodeToString :: "bytes \<Rightarrow> string" where
  "RawURL_EncodeToString b = map b64_char (b64_groups (map byte_val b))"

text \<open>
  \<open>base64.RawURLEncoding.Strict().DecodeString\<close>: line breaks are skipped, a byte outside the
  alphabet, a lone last character or nonzero trailing bits are an error.
\<close>

fun b64_ungroup :: "nat list \<Rightarrow> nat list option" where
  "b64_ungroup [] = Some []"
| "b64_ungroup [w] = None"
| "b64_ungroup [w, x] = (if x mod 16 \<noteq> 0 then None else Some [w * 4 + x div 16])"
| "b64_ungroup [w, x, y] =
     (if y mod 4 \<noteq> 0 then None else Some [w * 4 + x div 16, x mod 16 * 16 + y div 4])"
| "b64_ungroup (w # x # y # z # r) =
     (case b64_ungroup r of None \<Rightarrow> None
      | Some bs \<Rightarrow> Some ((w * 4 + x div 16) # (x mod 16 * 16 + y div 4) # (y mod 4 * 64 + z) # bs))"

definition RawURL_DecodeString :: "string \<Rightarrow> bytes option" where
  "RawURL_DecodeString s =
     (let vs = map b64_val (filter (\<lambda>c. byte_val c \<noteq> 10 \<and> byte_val c \<noteq> 13) s)
      in if None \<in> set vs then None
         else map_option (map char_of) (b64_ungroup (map the vs)))"

lemma b64_val_char [simp]: "n < 64 \<Longrightarrow> b64_val (b64_char n) = Some n"
proof -
  assume n: "n < 64"
  have v: "byte_val (b64_char n) =
     (if n < 26 then n + 65 else if n < 52 then n + 71 else if n < 62 then n - 4
      else if n = 62 then 45 else 95)"
    using n by (simp add: b64_char_def)
  have hyphen: "n = 62 \<Longrightarrow> b64_char n = CHR ''-''" and under: "n = 63 \<Longrightarrow> b64_char n = CHR ''_''"
    by (rule of_char_eqI [where 'a = nat]; use v in simp)+
  from n consider "n < 26" | "26 \<le> n" "n < 52" | "52 \<le> n" "n < 62" | "n = 62" | "n = 63"
    by linarith
  then show ?thesis
    by cases (use v hyphen under in \<open>auto simp: b64_val_def is_upper_def is_lower_def is_digit_def\<close>)
qed

lemma b64_char_printable:
  "n < 64 \<Longrightarrow> byte_val (b64_char n) \<noteq> 10 \<and> byte_val (b64_char n) \<noteq> 13"
  by (auto simp: b64_char_def)

lemma b64_mid: "b < 256 \<Longrightarrow> a mod 4 * 16 + b div 16 < (64::nat)"
  using mod_less_divisor [of 4 a] less_mult_imp_div_less [of b 16 16] by linarith

lemma b64_mid2: "c < 256 \<Longrightarrow> b mod 16 * 4 + c div 64 < (64::nat)"
  using mod_less_divisor [of 16 b] less_mult_imp_div_less [of c 4 64] by linarith

lemma b64_groups_bound:
  "list_all (\<lambda>a. a < 256) as \<Longrightarrow> g \<in> set (b64_groups as) \<Longrightarrow> g < 64"
proof (induction "as" rule: b64_groups.induct)
  case (3 a b)
  then show ?case
    using b64_mid [of b a] b64_mid2 [of 0 b] less_mult_imp_div_less [of a 64 4] by auto
next
  case (4 a b c r)
  then show ?case
    using b64_mid [of b a] b64_mid2 [of c b] less_mult_imp_div_less [of a 64 4] by auto
qed (auto simp: less_mult_imp_div_less)

lemma b64_ungroup_groups:
  "list_all (\<lambda>a. a < 256) as \<Longrightarrow> b64_ungroup (b64_groups as) = Some as"
proof (induction "as" rule: b64_groups.induct)
  case (3 a b)
  then have b: "b div 16 < 16" by (simp add: less_mult_imp_div_less)
  then have "(a mod 4 * 16 + b div 16) div 16 = a mod 4"
    and "(a mod 4 * 16 + b div 16) mod 16 = b div 16"
    by simp_all
  then show ?case by simp
next
  case (4 a b c r)
  then have b: "b div 16 < 16" and c: "c div 64 < 4" by (simp_all add: less_mult_imp_div_less)
  then have "(a mod 4 * 16 + b div 16) div 16 = a mod 4"
    and "(a mod 4 * 16 + b div 16) mod 16 = b div 16"
    and "(b mod 16 * 4 + c div 64) div 4 = b mod 16"
    and "(b mod 16 * 4 + c div 64) mod 4 = c div 64"
    by simp_all
  with 4 show ?case by simp
qed auto

lemma byte_vals_bound: "list_all (\<lambda>a. a < 256) (map byte_val b)"
  by (simp add: list_all_iff)

theorem RawURL_roundtrip: "RawURL_DecodeString (RawURL_EncodeToString b) = Some b"
proof -
  let ?g = "b64_groups (map byte_val b)"
  have g: "x < 64" if "x \<in> set ?g" for x
    using that b64_groups_bound [OF byte_vals_bound] by blast
  have f: "filter (\<lambda>c. byte_val c \<noteq> 10 \<and> byte_val c \<noteq> 13) (map b64_char ?g) = map b64_char ?g"
    using g b64_char_printable by (fastforce intro: filter_True)
  have v: "map b64_val (map b64_char ?g) = map Some ?g"
    using g by simp
  show ?thesis
    unfolding RawURL_DecodeString_def RawURL_EncodeToString_def Let_def f v
    by (simp add: b64_ungroup_groups byte_vals_bound o_def image_iff)
qed

end
