(* ===== verification/Digests.thy ===== *)
theory Digests
  imports GoStd
begin

text \<open>
  \<open>digest.go\<close> and the package \<open>github.com/opencontainers/go-digest\<close> that it wraps. The package
  is not part of the repository, so its functions, and the hash objects that
  \<open>Algorithm.Hash()\<close> returns, are the fields of the parameter \<open>'h digest_lib\<close>; \<open>'h\<close> is the
  state of a hash object. What the code relies on is \<open>digest_lib_ok\<close>, and
  \<open>example_lib\<close> is an instance of it.
\<close>

section \<open>The digest package\<close>

record 'h digest_lib =
  dl_Validate :: "string \<Rightarrow> error option"
  dl_Algorithm :: "string \<Rightarrow> string"
  dl_Encoded :: "string \<Rightarrow> string"
  dl_FromBytes :: "string \<Rightarrow> bytes \<Rightarrow> string"
  dl_Hash :: "string \<Rightarrow> 'h"
  dl_Write :: "'h \<Rightarrow> bytes \<Rightarrow> 'h"
  dl_Sum :: "'h \<Rightarrow> bytes"
  dl_MarshalBinary :: "'h \<Rightarrow> (error + bytes) option"
  dl_UnmarshalBinary :: "'h \<Rightarrow> bytes \<Rightarrow> (error + 'h) option"

definition SHA256 :: string where "SHA256 = ''sha256''"
definition SHA384 :: string where "SHA384 = ''sha384''"
definition SHA512 :: string where "SHA512 = ''sha512''"

definition Canonical :: string where "Canonical = SHA256"

lemmas algo_defs = SHA256_def SHA384_def SHA512_def Canonical_def

definition algorithms :: "string list" where
  "algorithms = [SHA256, SHA384, SHA512]"

section \<open>The code\<close>

definition Sanitize :: "'h digest_lib \<Rightarrow> string \<Rightarrow> error + string" where
  "Sanitize L d =
     (case dl_Validate L d of
        Some err \<Rightarrow> Inl err
      | None \<Rightarrow> Inr (ToLower d))"

definition Digest_Algorithm :: "'h digest_lib \<Rightarrow> string \<Rightarrow> string" where
  "Digest_Algorithm L d = dl_Algorithm L d"

definition Digest_Encoded :: "'h digest_lib \<Rightarrow> string \<Rightarrow> string" where
  "Digest_Encoded L d = dl_Encoded L d"

definition DigestFromBytes :: "'h digest_lib \<Rightarrow> bytes \<Rightarrow> string" where
  "DigestFromBytes L data = dl_FromBytes L Canonical data"

text \<open>\<^verbatim>\<open>Digest(fmt.Sprintf("%s:%x", algo, h.Sum(nil)))\<close>, which the stores write out in place.\<close>

definition hash_digest :: "'h digest_lib \<Rightarrow> string \<Rightarrow> 'h \<Rightarrow> string" where
  "hash_digest L algo h = algo @ '':'' @ hex_encode (dl_Sum L h)"

definition data_digest :: "'h digest_lib \<Rightarrow> string \<Rightarrow> bytes \<Rightarrow> string" where
  "data_digest L algo data = hash_digest L algo (dl_Write L (dl_Hash L algo) data)"

section \<open>What the code relies on\<close>

text \<open>
  The documented behaviour: a digest is valid when it is one of the three SHA-2 algorithms, a
  colon and lowercase hexadecimal of that algorithm's length; \<open>Algorithm\<close> and \<open>Encoded\<close> are the
  two parts; \<open>FromBytes\<close> is the hash of the bytes written as a digest; a hash object depends
  only on the bytes written to it; and the binary checkpoint of a SHA-2 object restores it and
  ends with the big-endian count of the bytes it has taken.
\<close>

definition hex_length :: "string \<Rightarrow> nat" where
  "hex_length algo = (if algo = SHA256 then 64 else if algo = SHA384 then 96 else 128)"

definition checkpoint_ok :: "'h digest_lib \<Rightarrow> string \<Rightarrow> bytes \<Rightarrow> bytes \<Rightarrow> bool" where
  "checkpoint_ok L algo data b \<longleftrightarrow>
     dl_MarshalBinary L (dl_Write L (dl_Hash L algo) data) = Some (Inr b)
     \<and> 8 \<le> length b
     \<and> be_val (drop (length b - 8) b) = length data mod 2 ^ 64
     \<and> dl_UnmarshalBinary L (dl_Hash L algo) b = Some (Inr (dl_Write L (dl_Hash L algo) data))"

definition digest_lib_ok :: "'h digest_lib \<Rightarrow> bool" where
  "digest_lib_ok L \<longleftrightarrow>
     (\<forall>d. dl_Validate L d = None \<longrightarrow>
        dl_Algorithm L d \<in> set algorithms
        \<and> dl_Algorithm L d @ '':'' @ dl_Encoded L d = d
        \<and> list_all is_hex (dl_Encoded L d)
        \<and> length (dl_Encoded L d) = hex_length (dl_Algorithm L d))
     \<and> (\<forall>algo \<in> set algorithms. \<forall>s.
          dl_Algorithm L (algo @ '':'' @ s) = algo \<and> dl_Encoded L (algo @ '':'' @ s) = s)
     \<and> (\<forall>algo \<in> set algorithms. \<forall>data.
          dl_FromBytes L algo data = data_digest L algo data
          \<and> dl_Validate L (data_digest L algo data) = None
          \<and> (\<exists>b. checkpoint_ok L algo data b))
     \<and> (\<forall>h x y. dl_Write L (dl_Write L h x) y = dl_Write L h (x @ y))
     \<and> (\<forall>h. dl_Write L h [] = h)"

text \<open>The bytes that a digest names.\<close>

definition names_bytes :: "'h digest_lib \<Rightarrow> string \<Rightarrow> bytes \<Rightarrow> bool" where
  "names_bytes L d data \<longleftrightarrow> dl_Validate L d = None \<and> data_digest L (dl_Algorithm L d) data = d"

section \<open>Consequences\<close>

lemma Validate_parts:
  assumes "digest_lib_ok L" and "dl_Validate L d = None"
  shows "dl_Algorithm L d \<in> set algorithms" and "dl_Algorithm L d @ '':'' @ dl_Encoded L d = d"
    and "list_all is_hex (dl_Encoded L d)" and "64 \<le> length (dl_Encoded L d)"
  using assms by (auto simp: digest_lib_ok_def hex_length_def split: if_splits)

lemma Algorithm_append:
  "digest_lib_ok L \<Longrightarrow> algo \<in> set algorithms \<Longrightarrow>
     dl_Algorithm L (algo @ CHR '':'' # s) = algo \<and> dl_Encoded L (algo @ CHR '':'' # s) = s"
  by (simp add: digest_lib_ok_def)

lemma FromBytes_digest:
  "digest_lib_ok L \<Longrightarrow> algo \<in> set algorithms \<Longrightarrow> dl_FromBytes L algo data = data_digest L algo data"
  by (simp add: digest_lib_ok_def)

lemma Validate_data_digest:
  "digest_lib_ok L \<Longrightarrow> algo \<in> set algorithms \<Longrightarrow> dl_Validate L (data_digest L algo data) = None"
  by (simp add: digest_lib_ok_def)

lemma Algorithm_data_digest:
  "digest_lib_ok L \<Longrightarrow> algo \<in> set algorithms \<Longrightarrow> dl_Algorithm L (data_digest L algo data) = algo"
  by (simp add: data_digest_def hash_digest_def Algorithm_append)

lemma Write_append [simp]:
  "digest_lib_ok L \<Longrightarrow> dl_Write L (dl_Write L h x) y = dl_Write L h (x @ y)"
  by (simp add: digest_lib_ok_def)

lemma Write_Nil [simp]: "digest_lib_ok L \<Longrightarrow> dl_Write L h [] = h"
  by (simp add: digest_lib_ok_def)

lemma checkpoint_exists:
  "digest_lib_ok L \<Longrightarrow> algo \<in> set algorithms \<Longrightarrow> \<exists>b. checkpoint_ok L algo data b"
  unfolding digest_lib_ok_def by blast

lemma names_bytes_data_digest:
  "digest_lib_ok L \<Longrightarrow> algo \<in> set algorithms \<Longrightarrow> names_bytes L (data_digest L algo data) data"
  by (simp add: names_bytes_def Validate_data_digest Algorithm_data_digest)

lemma lower_hex: "is_hex c \<Longrightarrow> lower_char c = c"
  by (auto simp: lower_char_def is_hex_def is_upper_def is_digit_def)

lemma ToLower_valid:
  assumes "digest_lib_ok L" and "dl_Validate L d = None"
  shows "ToLower d = d"
proof -
  note p = Validate_parts [OF assms]
  have enc: "map lower_char (dl_Encoded L d) = dl_Encoded L d"
    using p(3) by (simp add: list_all_iff map_idI lower_hex)
  have alg: "map lower_char (dl_Algorithm L d) = dl_Algorithm L d"
    using p(1) by (auto simp: algorithms_def algo_defs lower_char_def is_upper_def)
  have colon: "lower_char CHR '':'' = CHR '':''"
    by (simp add: lower_char_def is_upper_def)
  have "map lower_char (dl_Algorithm L d @ '':'' @ dl_Encoded L d)
      = dl_Algorithm L d @ '':'' @ dl_Encoded L d"
    by (simp add: enc alg colon)
  then show ?thesis
    unfolding ToLower_def p(2) .
qed

lemma Sanitize_Inr [simp]:
  "digest_lib_ok L \<Longrightarrow> Sanitize L d = Inr d' \<longleftrightarrow> dl_Validate L d = None \<and> d' = d"
  by (auto simp: Sanitize_def ToLower_valid split: option.splits)

lemma Sanitize_valid: "digest_lib_ok L \<Longrightarrow> dl_Validate L d = None \<Longrightarrow> Sanitize L d = Inr d"
  by simp

lemma Sanitize_invalid: "dl_Validate L d = Some err \<Longrightarrow> Sanitize L d = Inl err"
  by (simp add: Sanitize_def)

lemma valid_nonempty: "digest_lib_ok L \<Longrightarrow> dl_Validate L d = None \<Longrightarrow> d \<noteq> ''''"
  using Validate_parts(2) by force

lemma Canonical_algorithm [simp]: "Canonical \<in> set algorithms"
  by (simp add: algorithms_def Canonical_def)

section \<open>An instance\<close>

text \<open>
  A hash object that keeps the bytes written and sums to as many of them as the algorithm's
  length allows, padded with zeros. It satisfies everything above, and it computes.
\<close>

definition example_sum :: "string \<times> bytes \<Rightarrow> bytes" where
  "example_sum h =
     (let n = hex_length (fst h) div 2 in take n (snd h @ replicate n (char_of (0::nat))))"

definition example_lib :: "(string \<times> bytes) digest_lib" where
  "example_lib = \<lparr>
     dl_Validate = (\<lambda>d. case Cut d (CHR '':'') of
         None \<Rightarrow> Some (Wrapped ''digest'' ErrInvalidDigest)
       | Some (a, s) \<Rightarrow> if a \<in> set algorithms \<and> length s = hex_length a \<and> list_all is_hex s
                        then None else Some (ErrorString ''invalid checksum digest'')),
     dl_Algorithm = (\<lambda>d. case Cut d (CHR '':'') of None \<Rightarrow> [] | Some (a, s) \<Rightarrow> a),
     dl_Encoded = (\<lambda>d. case Cut d (CHR '':'') of None \<Rightarrow> [] | Some (a, s) \<Rightarrow> s),
     dl_FromBytes = (\<lambda>a x. a @ '':'' @ hex_encode (example_sum (a, x))),
     dl_Hash = (\<lambda>a. (a, [])),
     dl_Write = (\<lambda>h x. (fst h, snd h @ x)),
     dl_Sum = example_sum,
     dl_MarshalBinary = (\<lambda>h. Some (Inr (snd h @ be_bytes 8 (length (snd h))))),
     dl_UnmarshalBinary = (\<lambda>h b. if length b < 8 then Some (Inl (ErrorString ''invalid hash state''))
        else Some (Inr (fst h, take (length b - 8) b)))\<rparr>"

lemma no_colon: "a \<in> set algorithms \<Longrightarrow> CHR '':'' \<notin> set a"
  by (auto simp: algorithms_def algo_defs)

lemma length_example_sum [simp]:
  "length (example_sum h) = hex_length (fst h) div 2"
  by (simp add: example_sum_def Let_def)

lemma even_hex_length: "2 * (hex_length a div 2) = hex_length a"
  by (simp add: hex_length_def)

theorem example_lib_ok: "digest_lib_ok example_lib"
  unfolding digest_lib_ok_def
proof (intro conjI allI ballI impI)
  fix d
  assume "dl_Validate example_lib d = None"
  then show "dl_Algorithm example_lib d \<in> set algorithms"
    and "dl_Algorithm example_lib d @ '':'' @ dl_Encoded example_lib d = d"
    and "list_all is_hex (dl_Encoded example_lib d)"
    and "length (dl_Encoded example_lib d) = hex_length (dl_Algorithm example_lib d)"
    by (auto simp: example_lib_def Cut_Some split: option.splits if_splits)
next
  fix a s
  assume "a \<in> set algorithms"
  then show "dl_Algorithm example_lib (a @ '':'' @ s) = a" "dl_Encoded example_lib (a @ '':'' @ s) = s"
    by (simp_all add: example_lib_def no_colon)
next
  fix a x
  assume a: "a \<in> set algorithms"
  show "dl_FromBytes example_lib a x = data_digest example_lib a x"
    by (simp add: example_lib_def data_digest_def hash_digest_def)
  show "dl_Validate example_lib (data_digest example_lib a x) = None"
    using a by (auto simp: example_lib_def data_digest_def hash_digest_def no_colon list_all_iff
        is_hex_hex_encode even_hex_length)
  have "checkpoint_ok example_lib a x (x @ be_bytes 8 (length x))"
    by (simp add: checkpoint_ok_def example_lib_def)
  then show "\<exists>b. checkpoint_ok example_lib a x b" ..
qed (auto simp: example_lib_def)

text \<open>Its digests tell byte strings apart by their first two bytes.\<close>

lemma hex_encode_take: "take (2 * k) (hex_encode b) = hex_encode (take k b)"
proof (induction b arbitrary: k)
  case (Cons c b)
  then show ?case by (cases k) (simp_all add: hex_encode_def hex_byte_def)
qed (simp add: hex_encode_def)

lemma example_digest_head:
  assumes "a \<in> set algorithms" "data_digest example_lib a x = data_digest example_lib a y"
  shows "hex_encode (take 2 (x @ [char_of (0::nat), char_of (0::nat)])) =
    hex_encode (take 2 (y @ [char_of (0::nat), char_of (0::nat)]))"
proof -
  obtain n where n: "hex_length a div 2 = Suc (Suc n)"
    using assms(1) by (auto simp: algorithms_def hex_length_def algo_defs)
  have sum: "take 2 (example_sum (a, z)) = take 2 (z @ [char_of (0::nat), char_of (0::nat)])" for z
    using n by (cases z; cases "tl z") (auto simp: example_sum_def Let_def)
  have "hex_encode (example_sum (a, x)) = hex_encode (example_sum (a, y))"
    using assms(2) by (simp add: data_digest_def hash_digest_def example_lib_def)
  then show ?thesis
    using hex_encode_take [of 2 "example_sum (a, x)"] hex_encode_take [of 2 "example_sum (a, y)"] sum by simp
qed

text \<open>
  Digests have a fixed length, so two byte strings with one digest exist; \<open>collision_free L U\<close> says that
  none of them are among the byte strings \<open>U\<close> that a run handles.
\<close>

definition collision_free :: "'h digest_lib \<Rightarrow> bytes set \<Rightarrow> bool" where
  "collision_free L U \<longleftrightarrow>
     (\<forall>d. \<forall>x \<in> U. \<forall>y \<in> U. names_bytes L d x \<longrightarrow> names_bytes L d y \<longrightarrow> x = y)"

end
