(* ===== verification/LabelSet.thy ===== *)
theory LabelSet
  imports GoStd
begin

text \<open>
  \<open>labels.go\<close>: the labels of a blob, an \<open>http.Header\<close>. The Go value is nil or a map from a
  key to a list of values; here \<open>None\<close> is nil and a map is an association list with distinct
  keys (\<open>labels_ok\<close>), compared as a map by \<open>labels_DeepEqual\<close>.
\<close>

type_synonym header = "(string \<times> string list) list"
type_synonym labels = "header option"

definition cloneLabels :: "labels \<Rightarrow> labels" where
  "cloneLabels l =
     (case l of
        None \<Rightarrow> None
      | Some m \<Rightarrow> Some (map (\<lambda>(k, vs). (k, vs)) m))"

definition labels_ok :: "labels \<Rightarrow> bool" where
  "labels_ok l \<longleftrightarrow> (case l of None \<Rightarrow> True | Some m \<Rightarrow> distinct (map fst m))"

text \<open>\<open>reflect.DeepEqual\<close> on labels: nil differs from an empty map.\<close>

definition labels_DeepEqual :: "labels \<Rightarrow> labels \<Rightarrow> bool" where
  "labels_DeepEqual a b \<longleftrightarrow>
     (case (a, b) of
        (None, None) \<Rightarrow> True
      | (Some m, Some n) \<Rightarrow> list_all (\<lambda>k. map_of m k = map_of n k) (map fst m @ map fst n)
      | _ \<Rightarrow> False)"

lemma cloneLabels_id [simp]: "cloneLabels l = l"
  by (simp add: cloneLabels_def split: option.splits)

lemma labels_DeepEqual_refl [simp]: "labels_DeepEqual l l"
  by (cases l) (auto simp: labels_DeepEqual_def list_all_iff)

lemma labels_DeepEqual_maps:
  "labels_DeepEqual (Some m) (Some n) \<longleftrightarrow> map_of m = map_of n"
proof
  assume eq: "labels_DeepEqual (Some m) (Some n)"
  show "map_of m = map_of n"
  proof
    fix k
    show "map_of m k = map_of n k"
    proof (cases "k \<in> fst ` set m \<union> fst ` set n")
      case True
      with eq show ?thesis by (auto simp: labels_DeepEqual_def list_all_iff)
    next
      case False
      then have "map_of m k = None" "map_of n k = None" by (simp_all add: map_of_eq_None_iff)
      then show ?thesis by simp
    qed
  qed
qed (simp add: labels_DeepEqual_def list_all_iff)

end
