(* ===== verification/BlobInfo.thy ===== *)
theory BlobInfo
  imports LabelSet
begin

text \<open>
  \<open>info.go\<close>: the lazily loaded information on a blob. An \<open>Info\<close> is a mutable object of its own
  beside the state \<open>'s\<close> of the store that made it, so its methods run on the pair of the two;
  a loader is an operation on the store's state. \<open>blobInfo\<close>'s mutex only serialises the
  methods, each of which is one step here.
\<close>

section \<open>The code\<close>

record 's blobInfo =
  bi_digest :: string
  bi_size :: int
  bi_sizeLoader :: "(env \<Rightarrow> ('s, error + int) go) option"
  bi_added :: time
  bi_addedLoader :: "(env \<Rightarrow> ('s, error + time) go) option"
  bi_loader :: "(env \<Rightarrow> ('s, error + labels) go) option"
  bi_loaded :: bool
  bi_labels :: labels

definition NewInfo ::
  "string \<Rightarrow> int \<Rightarrow> time \<Rightarrow> (env \<Rightarrow> ('s, error + labels) go) option \<Rightarrow> 's blobInfo" where
  "NewInfo d sz added loader =
     \<lparr>bi_digest = d, bi_size = sz, bi_sizeLoader = None, bi_added = added, bi_addedLoader = None,
      bi_loader = loader, bi_loaded = False, bi_labels = None\<rparr>"

definition NewLazyInfo ::
  "string \<Rightarrow> (env \<Rightarrow> ('s, error + int) go) option \<Rightarrow> (env \<Rightarrow> ('s, error + time) go) option
   \<Rightarrow> (env \<Rightarrow> ('s, error + labels) go) option \<Rightarrow> 's blobInfo" where
  "NewLazyInfo d sz added labels =
     \<lparr>bi_digest = d, bi_size = 0, bi_sizeLoader = sz, bi_added = 0, bi_addedLoader = added,
      bi_loader = labels, bi_loaded = False, bi_labels = None\<rparr>"

text \<open>Running a loader on the store's half of the state.\<close>

definition on_store :: "('s, 'a) go \<Rightarrow> ('s blobInfo \<times> 's, 'a) go" where
  [go_run]: "on_store m = (\<lambda>(i, s). case m s of None \<Rightarrow> None | Some (r, s') \<Rightarrow> Some (r, (i, s')))"

definition set_info :: "('s blobInfo \<Rightarrow> 's blobInfo) \<Rightarrow> ('s blobInfo \<times> 's, unit) go" where
  [go_run]: "set_info f = modify (\<lambda>(i, s). (f i, s))"

definition Info_Digest :: "'s blobInfo \<Rightarrow> string" where
  "Info_Digest i = bi_digest i"

definition Info_Size :: "env \<Rightarrow> ('s blobInfo \<times> 's, error + int) go" where
  "Info_Size e =
     bind (gets fst) (\<lambda>i.
       case bi_sizeLoader i of
         Some sizeLoader \<Rightarrow>
           chk (on_store (sizeLoader e)) Inl (\<lambda>sz.
             bind (set_info (\<lambda>i. i\<lparr>bi_size := sz, bi_sizeLoader := None\<rparr>)) (\<lambda>_.
               ret (Inr sz)))
       | None \<Rightarrow> ret (Inr (bi_size i)))"

definition added_result :: "time \<Rightarrow> error + time" where
  "added_result added = (if added = 0 then Inl ErrUnsupported else Inr added)"

definition Info_Added :: "env \<Rightarrow> ('s blobInfo \<times> 's, error + time) go" where
  "Info_Added e =
     bind (gets fst) (\<lambda>i.
       case bi_addedLoader i of
         Some addedLoader \<Rightarrow>
           chk (on_store (addedLoader e)) Inl (\<lambda>added.
             bind (set_info (\<lambda>i. i\<lparr>bi_added := added, bi_addedLoader := None\<rparr>)) (\<lambda>_.
               ret (added_result added)))
       | None \<Rightarrow> ret (added_result (bi_added i)))"

definition Info_Labels :: "env \<Rightarrow> ('s blobInfo \<times> 's, error + labels) go" where
  "Info_Labels e =
     bind (gets fst) (\<lambda>i.
       if \<not> bi_loaded i then
         (case bi_loader i of
            Some loader \<Rightarrow>
              chk (on_store (loader e)) Inl (\<lambda>labels.
                bind (set_info (\<lambda>i. i\<lparr>bi_labels := cloneLabels labels, bi_loaded := True,
                                       bi_loader := None\<rparr>)) (\<lambda>_.
                  ret (Inr (cloneLabels (cloneLabels labels)))))
          | None \<Rightarrow>
              bind (set_info (\<lambda>i. i\<lparr>bi_loaded := True, bi_loader := None\<rparr>)) (\<lambda>_.
                ret (Inr (cloneLabels (bi_labels i)))))
       else ret (Inr (cloneLabels (bi_labels i))))"

section \<open>Its properties\<close>

text \<open>The values a method has loaded once, it answers from then on without the store.\<close>

definition answers ::
  "('s blobInfo \<times> 's, error + 'a) go \<Rightarrow> 's blobInfo \<Rightarrow> 'a \<Rightarrow> bool" where
  "answers m i x \<longleftrightarrow> (\<forall>s. m (i, s) = Some (Inr x, (i, s)))"

lemma Info_Size_memo:
  "Info_Size e (i, s) = Some (Inr sz, (i', s')) \<Longrightarrow> answers (Info_Size e') i' sz"
  by (auto simp: Info_Size_def answers_def go_run split: option.splits sum.splits prod.splits)

lemma Info_Added_memo:
  "Info_Added e (i, s) = Some (Inr t, (i', s')) \<Longrightarrow> answers (Info_Added e') i' t"
  by (auto simp: Info_Added_def answers_def added_result_def go_run
      split: option.splits sum.splits prod.splits if_splits)

lemma Info_Labels_memo:
  "Info_Labels e (i, s) = Some (Inr l, (i', s')) \<Longrightarrow> answers (Info_Labels e') i' l"
  by (auto simp: Info_Labels_def answers_def go_run
      split: option.splits sum.splits prod.splits if_splits)

lemma Info_Size_retry: "Info_Size e (i, s) = Some (Inl err, (i', s')) \<Longrightarrow> i' = i"
  by (auto simp: Info_Size_def go_run split: option.splits sum.splits prod.splits)

lemma Info_Labels_retry: "Info_Labels e (i, s) = Some (Inl err, (i', s')) \<Longrightarrow> i' = i"
  by (auto simp: Info_Labels_def go_run split: option.splits sum.splits prod.splits if_splits)

lemma Info_Added_retry:
  "Info_Added e (i, s) = Some (Inl err, (i', s')) \<Longrightarrow> i' = i \<or> err = ErrUnsupported"
  by (auto simp: Info_Added_def added_result_def go_run
      split: option.splits sum.splits prod.splits if_splits)

text \<open>An \<open>Info\<close> with a known size and labels that the store can load.\<close>

lemma Info_Size_NewInfo: "answers (Info_Size e) (NewInfo d sz added loader) sz"
  by (simp add: answers_def Info_Size_def NewInfo_def go_run)

section \<open>Properties\<close>

text \<open>
  An \<open>Info\<close> answers its labels from then on without the store, once a load has succeeded, and a
  load that failed leaves it as it was, so that the next call loads again.
\<close>

theorem info_labels_memo:
  assumes "Info_Labels e (i, s) = Some (r, (i', s'))"
  shows "(case r of Inr l \<Rightarrow> \<forall>e' t. Info_Labels e' (i', t) = Some (Inr l, (i', t)) | Inl err \<Rightarrow> i' = i)"
  using assms Info_Labels_memo [of e i s _ i' s'] Info_Labels_retry [of e i s _ i' s']
  by (auto simp: answers_def split: sum.splits)

theorem info_labels_memo_witness:
  "\<exists>i'. Info_Labels (background 1) (NewInfo ''d'' 3 5 (Some (\<lambda>e. ret (Inr (Some [(''k'', [''v''])])))), ())
      = Some (Inr (Some [(''k'', [''v''])]), (i', ()))
    \<and> Info_Labels (background 2) (i', ()) = Some (Inr (Some [(''k'', [''v''])]), (i', ()))"
proof -
  let ?i = "NewInfo ''d'' 3 5 (Some (\<lambda>e. ret (Inr (Some [(''k'', [''v''])]))))"
  let ?i' = "?i\<lparr>bi_labels := Some [(''k'', [''v''])], bi_loaded := True, bi_loader := None\<rparr>"
  have "Info_Labels (background 1) (?i, ()) = Some (Inr (Some [(''k'', [''v''])]), (?i', ()))"
    by (simp add: Info_Labels_def NewInfo_def go_run)
  from this info_labels_memo [OF this] show ?thesis by auto
qed

end
