(* ===== verification/Namespaces.thy ===== *)
theory Namespaces
  imports GoStd
begin

text \<open>
  \<open>namespace.go\<close>: the encoding of a namespace ID into one path segment, shared by the
  directories of the filesystem backend, the reference keys of the S3 backend and the URLs of
  the HTTP backend, and its inverse.
\<close>

section \<open>The code\<close>

text \<open>
  \<open>plainNamespace\<close> ranges over the runes of the ID. Every byte above 127 belongs to a rune
  that no branch of the condition accepts, so the test is made on the bytes.
\<close>

definition plain_char :: "char \<Rightarrow> bool" where
  "plain_char c \<longleftrightarrow> is_lower c \<or> is_upper c \<or> is_digit c \<or> c = CHR ''_'' \<or> c = CHR ''-'' \<or> c = CHR ''.''"

definition plainNamespace :: "string \<Rightarrow> bool" where
  "plainNamespace ns =
     (if ns = '''' \<or> HasSuffix ns ''.'' then False
      else if \<not> list_all plain_char ns then False
      else
        (let base = (case Cut (ToUpper ns) (CHR ''.'') of None \<Rightarrow> ToUpper ns | Some (a, _) \<Rightarrow> a)
         in if base \<in> {''CON'', ''PRN'', ''AUX'', ''NUL''} then False
            else if length base = 4 \<and> (HasPrefix base ''COM'' \<or> HasPrefix base ''LPT'')
                    \<and> byte_val (base ! 3) \<ge> 49 \<and> byte_val (base ! 3) \<le> 57 then False
            else True))"

definition namespaceSegment :: "string \<Rightarrow> string" where
  "namespaceSegment ns = (if plainNamespace ns then ns else ''~'' @ RawURL_EncodeToString ns)"

definition namespaceID :: "string \<Rightarrow> error + string" where
  "namespaceID segment =
     (case CutPrefix segment ''~'' of
        Some encoded \<Rightarrow>
          (case RawURL_DecodeString encoded of
             None \<Rightarrow> Inl (ErrorString ''illegal base64 data'')
           | Some data \<Rightarrow>
               if namespaceSegment data \<noteq> segment
               then Inl (ErrorString ''noncanonical namespace encoding'')
               else Inr data)
      | None \<Rightarrow> Inr segment)"

section \<open>Its properties\<close>

lemma plainNamespace_chars: "plainNamespace ns \<Longrightarrow> list_all plain_char ns"
  by (auto simp: plainNamespace_def split: if_splits)

lemma plain_char_values:
  "plain_char c \<Longrightarrow> c \<noteq> CHR ''~'' \<and> c \<noteq> CHR ''/'' \<and> byte_val c \<noteq> 0"
  by (auto simp: plain_char_def is_lower_def is_upper_def is_digit_def)

lemma plainNamespace_no_tilde: "plainNamespace ns \<Longrightarrow> CutPrefix ns ''~'' = None"
  using plainNamespace_chars [of ns] plain_char_values
  by (cases ns) (auto simp: CutPrefix_def HasPrefix_def)

lemma namespaceID_segment [simp]: "namespaceID (namespaceSegment ns) = Inr ns"
proof (cases "plainNamespace ns")
  case True
  then show ?thesis
    by (simp add: namespaceID_def namespaceSegment_def plainNamespace_no_tilde)
next
  case False
  then have s: "namespaceSegment ns = ''~'' @ RawURL_EncodeToString ns"
    by (simp add: namespaceSegment_def)
  show ?thesis
    unfolding namespaceID_def s CutPrefix_append using RawURL_roundtrip [of ns] s by simp
qed

lemma namespaceSegment_inj: "namespaceSegment a = namespaceSegment b \<longleftrightarrow> a = b"
  by (metis Inr_inject namespaceID_segment)

lemma b64_char_plain: "n < 64 \<Longrightarrow> plain_char (b64_char n) \<and> b64_char n \<noteq> CHR ''.''"
proof -
  assume n: "n < 64"
  then have "b64_val (b64_char n) = Some n" by simp
  then show ?thesis
    by (auto simp: b64_val_def plain_char_def is_lower_def is_upper_def is_digit_def split: if_splits)
qed

lemma segment_chars:
  "c \<in> set (RawURL_EncodeToString ns) \<Longrightarrow> plain_char c \<and> c \<noteq> CHR ''.''"
  using b64_groups_bound [OF byte_vals_bound, of _ ns]
  by (auto simp: RawURL_EncodeToString_def dest!: b64_char_plain)

lemma HasSuffix_dot: "HasSuffix s ''.'' \<longleftrightarrow> s \<noteq> [] \<and> last s = CHR ''.''"
  by (cases s rule: rev_cases) (auto simp: HasSuffix_def HasPrefix_def)

lemma namespaceSegment_chars:
  "c \<in> set (namespaceSegment ns) \<Longrightarrow> plain_char c \<or> c = CHR ''~''"
  using plainNamespace_chars [of ns] segment_chars [of c ns]
  by (auto simp: namespaceSegment_def list_all_iff split: if_splits)

lemma namespaceSegment_last: "namespaceSegment ns \<noteq> [] \<and> last (namespaceSegment ns) \<noteq> CHR ''.''"
proof (cases "plainNamespace ns")
  case True
  then have "ns \<noteq> [] \<and> last ns \<noteq> CHR ''.''"
    by (simp add: plainNamespace_def HasSuffix_dot split: if_splits)
  with True show ?thesis by (simp add: namespaceSegment_def)
next
  case False
  show ?thesis
  proof (cases "RawURL_EncodeToString ns = []")
    case True
    with False show ?thesis by (simp add: namespaceSegment_def)
  next
    case ne: False
    then have "last (RawURL_EncodeToString ns) \<in> set (RawURL_EncodeToString ns)" by simp
    then have "last (RawURL_EncodeToString ns) \<noteq> CHR ''.''" using segment_chars by blast
    with ne False show ?thesis by (simp add: namespaceSegment_def)
  qed
qed

lemma namespaceID_cases:
  assumes "namespaceID seg = Inr ns"
  shows "seg = namespaceSegment ns \<or> (seg = ns \<and> CutPrefix seg ''~'' = None)"
  using assms by (auto simp: namespaceID_def split: option.splits if_splits)

section \<open>Properties\<close>

text \<open>
  C37. Every namespace ID survives the round trip through its path segment, and two IDs never share
  a segment.
\<close>

theorem namespace_roundtrip:
  "namespaceID (namespaceSegment ns) = Inr ns \<and> (namespaceSegment ns' = namespaceSegment ns \<longleftrightarrow> ns' = ns)"
  by (simp add: namespaceSegment_inj)

text \<open>
  The segment of any namespace ID is one safe path element: it is not empty, has no slash and no
  NUL, is neither the current nor the parent directory, and does not end with a dot.
\<close>

theorem namespace_segment_safe:
  "namespaceSegment ns \<noteq> '''' \<and> CHR ''/'' \<notin> set (namespaceSegment ns)
   \<and> CHR 0x00 \<notin> set (namespaceSegment ns)
   \<and> namespaceSegment ns \<noteq> ''.'' \<and> namespaceSegment ns \<noteq> ''..''
   \<and> last (namespaceSegment ns) \<noteq> CHR ''.''"
proof -
  have last: "namespaceSegment ns \<noteq> []" "last (namespaceSegment ns) \<noteq> CHR ''.''"
    using namespaceSegment_last [of ns] by blast+
  have chars: "c \<noteq> CHR ''/'' \<and> c \<noteq> CHR 0x00" if "c \<in> set (namespaceSegment ns)" for c
    using namespaceSegment_chars [OF that] plain_char_values [of c] by auto
  have "namespaceSegment ns \<noteq> ''.''" "namespaceSegment ns \<noteq> ''..''"
    using last(2) by auto
  with last chars show ?thesis by blast
qed

text \<open>
  A segment that decodes without error and begins with a tilde is the segment of the ID it
  decodes to: no ID has a second, noncanonical encoding.
\<close>

theorem namespace_canonical:
  assumes "namespaceID (''~'' @ rest) = Inr ns"
  shows "namespaceSegment ns = ''~'' @ rest"
  using assms CutPrefix_append [of "''~''" rest]
  by (auto simp: namespaceID_def split: option.splits if_splits)

theorem namespace_canonical_witness:
  "namespaceID (''~'' @ ''YS9i'') = Inr ''a/b'' \<and> namespaceSegment ''a/b'' = ''~'' @ ''YS9i''"
proof -
  have id: "namespaceID (''~'' @ ''YS9i'') = Inr ''a/b''" by code_simp
  show ?thesis using id namespace_canonical [OF id] by blast
qed

end
