(* ===== verification/Stages.thy ===== *)
theory Stages
  imports Digests BlobInfo Namespaces
begin

text \<open>
  \<open>store.go\<close>: \<open>Meta\<close>, the configuration and the record of a resumable upload stage, and the
  pure functions on that record that the three storage backends share: its creation, its
  validation, its hash checkpoint, and the preparation of a commit.
\<close>

section \<open>Meta and input readers\<close>

record meta =
  Digest :: string
  Labels :: labels
  Size :: int

definition zero_meta :: meta where
  "zero_meta = \<lparr>Digest = '''', Labels = None, Size = 0\<rparr>"

definition Meta_Clone :: "meta \<Rightarrow> meta" where
  "Meta_Clone m = m\<lparr>Labels := cloneLabels (Labels m)\<rparr>"

lemma Meta_Clone_id [simp]: "Meta_Clone m = m"
  by (simp add: Meta_Clone_def)

text \<open>
  An \<open>io.Reader\<close> is the list of the results its \<open>Read\<close> calls give, each some bytes and
  perhaps an error; past the end of the list it is at \<open>io.EOF\<close>. \<open>io_Copy\<close> is what
  \<open>io.Copy\<close> and \<open>io.ReadAll\<close> gather from it: the bytes delivered, and the error other than
  \<open>io.EOF\<close> that stopped it.
\<close>

type_synonym reader = "(bytes \<times> error option) list"

fun io_Copy :: "reader \<Rightarrow> bytes \<times> error option" where
  "io_Copy [] = ([], None)"
| "io_Copy ((b, None) # rs) = (let (d, err) = io_Copy rs in (b @ d, err))"
| "io_Copy ((b, Some err) # rs) = (b, if err = EOF then None else Some err)"

text \<open>A reader that delivers some bytes in one piece.\<close>

definition bytes_Reader :: "bytes \<Rightarrow> reader" where
  "bytes_Reader b = [(b, None)]"

lemma io_Copy_bytes_Reader [simp]: "io_Copy (bytes_Reader b) = (b, None)"
  by (simp add: bytes_Reader_def)

text \<open>
  \<open>stageContextReader.Read\<close> looks at the context before and after the read it forwards;
  \<open>stageContextReader\<close> is the reader as a whole, its \<open>n\<close>-th read taking two looks.
\<close>

definition stageContextReader_Read :: "env \<Rightarrow> bytes \<times> error option \<Rightarrow> bytes \<times> error option" where
  "stageContextReader_Read e r =
     (case ctx_Err e 0 of
        Some err \<Rightarrow> ([], Some err)
      | None \<Rightarrow>
          (case ctx_Err e 1 of
             Some canceled \<Rightarrow> (fst r, Some canceled)
           | None \<Rightarrow> r))"

fun stageContextReader :: "env \<Rightarrow> reader \<Rightarrow> reader" where
  "stageContextReader e [] = [stageContextReader_Read e ([], Some EOF)]"
| "stageContextReader e (r # rs) =
     stageContextReader_Read e r # stageContextReader (env_after 2 e) rs"

lemma io_Copy_stageContextReader:
  "live e \<Longrightarrow> io_Copy (stageContextReader e rs) = io_Copy rs"
proof (induction rs arbitrary: e)
  case Nil
  then show ?case by (simp add: stageContextReader_Read_def)
next
  case (Cons r rs)
  then have "io_Copy (stageContextReader (env_after 2 e) rs) = io_Copy rs" by simp
  with Cons.prems show ?case
    by (cases r rule: prod.exhaust; cases "snd r") (auto simp: stageContextReader_Read_def)
qed

section \<open>Stage records\<close>

definition StageActive :: string where "StageActive = ''active''"
definition StageCommitting :: string where "StageCommitting = ''committing''"
definition StageCommitted :: string where "StageCommitted = ''committed''"
definition StageAborted :: string where "StageAborted = ''aborted''"

lemmas stage_states = StageActive_def StageCommitting_def StageCommitted_def StageAborted_def

record StageInfo =
  si_Algorithm :: string
  si_Offset :: int
  si_State :: string
  si_ExpiresAt :: time

record StageConfig =
  TTL :: duration
  Retention :: duration
  OperationTimeout :: duration
  cfg_now :: "(nat \<Rightarrow> time) option"

definition hour :: duration where "hour = 3600 * 10 ^ 9"
definition minute :: duration where "minute = 60 * 10 ^ 9"

definition normalized :: "StageConfig \<Rightarrow> StageConfig" where
  "normalized c =
     (let c = (if TTL c \<le> 0 then c\<lparr>TTL := 24 * hour\<rparr> else c);
          c = (if Retention c \<le> 0 then c\<lparr>Retention := 24 * hour\<rparr> else c);
          c = (if OperationTimeout c \<le> 0 then c\<lparr>OperationTimeout := 15 * minute\<rparr> else c)
      in c)"

text \<open>The \<open>n\<close>-th reading of the configured clock.\<close>

definition cfg_clock :: "StageConfig \<Rightarrow> env \<Rightarrow> nat \<Rightarrow> time" where
  "cfg_clock c e n = (case cfg_now c of Some now \<Rightarrow> now n | None \<Rightarrow> time_Now e n)"

record stageRecord =
  Version :: int
  ID :: string
  Namespace :: string
  Algorithm :: string
  Offset :: int
  Hash :: bytes
  State :: string
  ExpiresAt :: time
  Commit :: meta
  Result :: meta

definition stageHashRestore :: "'h digest_lib \<Rightarrow> string \<Rightarrow> bytes \<Rightarrow> error + 'h" where
  "stageHashRestore L algo state =
     (if algo \<notin> {SHA256, SHA384, SHA512} then Inl (Wrapped ''algorithm'' ErrInvalidDigest)
      else
        (let h = dl_Hash L algo
         in if length state > 0 then
              (case dl_UnmarshalBinary L h state of
                 None \<Rightarrow> Inl ErrStageFormat
               | Some (Inl err) \<Rightarrow> Inl (Wrapped ''hash checkpoint'' ErrStageFormat)
               | Some (Inr h') \<Rightarrow> Inr h')
            else Inr h))"

definition stageHashState :: "'h digest_lib \<Rightarrow> 'h \<Rightarrow> error + bytes" where
  "stageHashState L h =
     (case dl_MarshalBinary L h of
        None \<Rightarrow> Inl ErrStageFormat
      | Some r \<Rightarrow> r)"

text \<open>\<open>rnd\<close> is what \<open>rand.Read\<close> fills the 16 bytes of the identifier with.\<close>

definition newStageRecord ::
  "'h digest_lib \<Rightarrow> error + bytes \<Rightarrow> string \<Rightarrow> string \<Rightarrow> StageConfig \<Rightarrow> env \<Rightarrow> error + stageRecord" where
  "newStageRecord L rnd namespace algo cfg e =
     (let algo = (if algo = '''' then Canonical else algo)
      in case stageHashRestore L algo [] of
           Inl err \<Rightarrow> Inl err
         | Inr h \<Rightarrow>
             (case stageHashState L h of
                Inl err \<Rightarrow> Inl err
              | Inr state \<Rightarrow>
                  (case rnd of
                     Inl err \<Rightarrow> Inl err
                   | Inr b \<Rightarrow>
                       Inr \<lparr>Version = 1, ID = hex_encode b, Namespace = namespaceSegment namespace,
                            Algorithm = algo, Offset = 0, Hash = state, State = StageActive,
                            ExpiresAt = cfg_clock cfg e 0 + TTL (normalized cfg),
                            Commit = zero_meta, Result = zero_meta\<rparr>)))"

definition validStageID :: "string \<Rightarrow> bool" where
  "validStageID sid = (if length sid \<noteq> 32 then False else list_all is_hex sid)"

definition stage_info :: "stageRecord \<Rightarrow> StageInfo" where
  "stage_info r = \<lparr>si_Algorithm = Algorithm r, si_Offset = Offset r, si_State = State r,
                   si_ExpiresAt = ExpiresAt r\<rparr>"

definition expired :: "stageRecord \<Rightarrow> time \<Rightarrow> bool" where
  "expired r now \<longleftrightarrow> \<not> now < ExpiresAt r"

definition validate :: "'h digest_lib \<Rightarrow> stageRecord \<Rightarrow> error option" where
  "validate L r =
     (case namespaceID (Namespace r) of
        Inl _ \<Rightarrow> Some ErrStageFormat
      | Inr namespace \<Rightarrow>
          if namespaceSegment namespace \<noteq> Namespace r then Some ErrStageFormat
          else if Version r \<noteq> 1 \<or> \<not> validStageID (ID r) \<or> Offset r < 0 \<or> length (Hash r) < 8
          then Some ErrStageFormat
          else
            (case stageHashRestore L (Algorithm r) (Hash r) of
               Inl _ \<Rightarrow> Some (Wrapped ''stage'' ErrStageFormat)
             | Inr h \<Rightarrow>
                 if int (be_val (drop (length (Hash r) - 8) (Hash r))) \<noteq> Offset r
                 then Some ErrStageFormat
                 else if State r \<notin> {StageActive, StageCommitting, StageCommitted, StageAborted}
                 then Some ErrStageFormat
                 else if ExpiresAt r = 0 then Some ErrStageFormat
                 else if State r = StageCommitting \<or> State r = StageCommitted then
                   (let computed = hash_digest L (Algorithm r) h
                    in if Digest (Commit r) \<noteq> computed \<or> Size (Commit r) \<noteq> Offset r
                       then Some ErrStageFormat
                       else if State r = StageCommitted
                               \<and> (Digest (Result r) \<noteq> computed \<or> Size (Result r) \<noteq> Offset r)
                       then Some ErrStageFormat
                       else None)
                 else None))"

definition prepareCommit :: "'h digest_lib \<Rightarrow> stageRecord \<Rightarrow> meta \<Rightarrow> error + meta" where
  "prepareCommit L r m =
     (case validate L r of
        Some err \<Rightarrow> Inl err
      | None \<Rightarrow>
          (case stageHashRestore L (Algorithm r) (Hash r) of
             Inl err \<Rightarrow> Inl err
           | Inr h \<Rightarrow>
               (let computed = hash_digest L (Algorithm r) h;
                    done = Inr ((Meta_Clone m)\<lparr>Digest := computed, Size := Offset r\<rparr>)
                in if Digest m \<noteq> '''' then
                     (case Sanitize L (Digest m) of
                        Inl err \<Rightarrow> Inl err
                      | Inr d \<Rightarrow> if d \<noteq> computed then Inl ErrDigestMismatch else done)
                   else done)))"

definition stageCommitMatches :: "meta \<Rightarrow> meta \<Rightarrow> bool" where
  "stageCommitMatches a b \<longleftrightarrow>
     Digest a = Digest b \<and> Size a = Size b \<and> labels_DeepEqual (Labels a) (Labels b)"

section \<open>The bytes behind a stage\<close>

text \<open>
  A record describes the bytes \<open>data\<close> when its checkpoint is the checkpoint of exactly those
  bytes and its offset is their number.
\<close>

definition describes :: "'h digest_lib \<Rightarrow> stageRecord \<Rightarrow> bytes \<Rightarrow> bool" where
  "describes L r data \<longleftrightarrow>
     Algorithm r \<in> set algorithms \<and> checkpoint_ok L (Algorithm r) data (Hash r)
     \<and> Offset r = int (length data) \<and> length data < 2 ^ 63"

lemma stageHashRestore_checkpoint:
  "algo \<in> set algorithms \<Longrightarrow> checkpoint_ok L algo data b \<Longrightarrow>
     stageHashRestore L algo b = Inr (dl_Write L (dl_Hash L algo) data)"
  by (auto simp: stageHashRestore_def checkpoint_ok_def algorithms_def Let_def)

lemma stageHashRestore_empty:
  "algo \<in> set algorithms \<Longrightarrow> stageHashRestore L algo [] = Inr (dl_Hash L algo)"
  by (auto simp: stageHashRestore_def algorithms_def Let_def)

lemma stageHashState_checkpoint:
  assumes "digest_lib_ok L" "algo \<in> set algorithms"
  obtains b where "stageHashState L (dl_Write L (dl_Hash L algo) data) = Inr b"
    and "checkpoint_ok L algo data b"
proof -
  obtain b where "checkpoint_ok L algo data b"
    using checkpoint_exists [OF assms] by blast
  then show thesis
    by (intro that [of b]) (auto simp: stageHashState_def checkpoint_ok_def)
qed

lemma describes_restore:
  "describes L r data \<Longrightarrow>
     stageHashRestore L (Algorithm r) (Hash r) = Inr (dl_Write L (dl_Hash L (Algorithm r)) data)"
  by (auto simp: describes_def stageHashRestore_checkpoint)

lemma describes_count:
  "describes L r data \<Longrightarrow> int (be_val (drop (length (Hash r) - 8) (Hash r))) = Offset r"
  by (simp add: describes_def checkpoint_ok_def)

text \<open>The shape of a record that \<open>validate\<close> accepts, given the bytes behind it.\<close>

definition commit_shape :: "'h digest_lib \<Rightarrow> stageRecord \<Rightarrow> bytes \<Rightarrow> bool" where
  "commit_shape L r data \<longleftrightarrow>
     (State r \<in> {StageCommitting, StageCommitted} \<longrightarrow>
        Digest (Commit r) = data_digest L (Algorithm r) data \<and> Size (Commit r) = Offset r)
     \<and> (State r = StageCommitted \<longrightarrow>
        Digest (Result r) = data_digest L (Algorithm r) data \<and> Size (Result r) = Offset r)"

definition record_shape :: "stageRecord \<Rightarrow> string \<Rightarrow> bool" where
  "record_shape r ns \<longleftrightarrow>
     Version r = 1 \<and> validStageID (ID r) \<and> Namespace r = namespaceSegment ns
     \<and> State r \<in> {StageActive, StageCommitting, StageCommitted, StageAborted} \<and> ExpiresAt r \<noteq> 0"

lemma validate_described:
  assumes "describes L r data" "record_shape r ns" "commit_shape L r data"
  shows "validate L r = None"
proof -
  have "8 \<le> length (Hash r)" using assms(1) by (simp add: describes_def checkpoint_ok_def)
  moreover have "0 \<le> Offset r" using assms(1) by (simp add: describes_def)
  ultimately show ?thesis
    using assms describes_restore [OF assms(1)] describes_count [OF assms(1)]
    by (auto simp: validate_def record_shape_def commit_shape_def data_digest_def Let_def)
qed

lemma prepareCommit_described:
  assumes "describes L r data" "record_shape r ns" "commit_shape L r data"
  shows "prepareCommit L r m =
    (let computed = data_digest L (Algorithm r) data;
         result = Inr (m\<lparr>Digest := computed, Size := Offset r\<rparr>)
     in if Digest m = '''' then result
        else case Sanitize L (Digest m) of Inl err \<Rightarrow> Inl err
             | Inr d \<Rightarrow> if d \<noteq> computed then Inl ErrDigestMismatch else result)"
  using describes_restore [OF assms(1)] validate_described [OF assms]
  by (auto simp: prepareCommit_def data_digest_def Let_def)

lemma newStageRecord_described:
  assumes L: "digest_lib_ok L" and algo: "(if algo = '''' then Canonical else algo) \<in> set algorithms"
    and rnd: "length b = 16"
    and t: "cfg_clock cfg e 0 + TTL (normalized cfg) \<noteq> 0"
  obtains r where "newStageRecord L (Inr b) ns algo cfg e = Inr r"
    and "describes L r []" and "record_shape r ns" and "State r = StageActive"
    and "ID r = hex_encode b"
proof -
  let ?a = "if algo = '''' then Canonical else algo"
  obtain cp where cp: "stageHashState L (dl_Hash L ?a) = Inr cp" "checkpoint_ok L ?a [] cp"
    using stageHashState_checkpoint [OF L algo, of "[]"] L by auto
  let ?r = "\<lparr>Version = 1, ID = hex_encode b, Namespace = namespaceSegment ns,
             Algorithm = ?a, Offset = 0, Hash = cp, State = StageActive,
             ExpiresAt = cfg_clock cfg e 0 + TTL (normalized cfg),
             Commit = zero_meta, Result = zero_meta\<rparr>"
  have "newStageRecord L (Inr b) ns algo cfg e = Inr ?r"
    using algo cp(1) by (simp add: newStageRecord_def stageHashRestore_empty Let_def)
  moreover have "describes L ?r []"
    using algo cp(2) by (simp add: describes_def)
  moreover have "validStageID (hex_encode b)"
    using rnd is_hex_hex_encode by (auto simp: validStageID_def list_all_iff)
  then have "record_shape ?r ns"
    using t by (simp add: record_shape_def)
  ultimately show thesis by (intro that [of ?r]) simp_all
qed

section \<open>Properties\<close>

text \<open>
  Committing a stage whose record describes the uploaded bytes succeeds exactly when the caller
  gave no digest or the digest of those bytes, and the prepared \<open>Meta\<close> has their digest and their
  number, with the caller's labels.
\<close>

theorem prepareCommit_exact:
  assumes "digest_lib_ok L" "describes L r data" "record_shape r ns" "commit_shape L r data"
  shows "(Digest m = '''' \<or> Digest m = data_digest L (Algorithm r) data \<longrightarrow>
      prepareCommit L r m = Inr \<lparr>Digest = data_digest L (Algorithm r) data, Labels = Labels m,
        Size = int (length data)\<rparr>)
    \<and> (Digest m \<noteq> '''' \<longrightarrow> Digest m \<noteq> data_digest L (Algorithm r) data \<longrightarrow>
      prepareCommit L r m =
        Inl (case dl_Validate L (Digest m) of None \<Rightarrow> ErrDigestMismatch | Some err \<Rightarrow> err))"
proof -
  have alg: "Algorithm r \<in> set algorithms" and off: "Offset r = int (length data)"
    using assms(2) by (simp_all add: describes_def)
  have valid: "dl_Validate L (data_digest L (Algorithm r) data) = None"
    by (rule Validate_data_digest [OF assms(1) alg])
  then have san: "Sanitize L (data_digest L (Algorithm r) data) = Inr (data_digest L (Algorithm r) data)"
    by (rule Sanitize_valid [OF assms(1)])
  have result: "m\<lparr>Digest := d, Size := z\<rparr> = \<lparr>Digest = d, Labels = Labels m, Size = z\<rparr>" for d z
    by (cases m) simp
  show ?thesis
    unfolding prepareCommit_described [OF assms(2-4)]
    using off san result
    by (auto simp: Let_def Sanitize_def ToLower_valid [OF assms(1)] split: option.splits)
qed

definition example_config :: StageConfig where
  "example_config = normalized \<lparr>TTL = 0, Retention = 0, OperationTimeout = 0, cfg_now = None\<rparr>"

lemma example_record:
  "\<exists>r. newStageRecord example_lib (Inr (replicate 16 (CHR ''x''))) ''a'' '''' example_config (background 1) = Inr r
    \<and> describes example_lib r [] \<and> record_shape r ''a'' \<and> State r = StageActive"
  by (rule newStageRecord_described [OF example_lib_ok, where b = "replicate 16 (CHR ''x'')" and algo = "''''"
        and cfg = example_config and e = "background 1" and ns = "''a''"])
     (auto simp: example_config_def cfg_clock_def normalized_def hour_def minute_def)

theorem prepareCommit_exact_witness:
  "\<exists>r. describes example_lib r [] \<and> record_shape r ''a'' \<and> commit_shape example_lib r []
    \<and> prepareCommit example_lib r zero_meta = Inr \<lparr>Digest = data_digest example_lib (Algorithm r) [],
        Labels = None, Size = 0\<rparr>"
proof -
  obtain r where r: "describes example_lib r []" "record_shape r ''a''" "State r = StageActive"
    using example_record by blast
  then have c: "commit_shape example_lib r []" by (simp add: commit_shape_def stage_states)
  show ?thesis
    using prepareCommit_exact [OF example_lib_ok r(1,2) c, of zero_meta] r c
    by (intro exI [of _ r]) (simp add: zero_meta_def)
qed

text \<open>
  A stage record that passes \<open>validate\<close> is consistent with its hash checkpoint: the offset is
  the byte count in the checkpoint, the namespace is a canonical segment, and a committed record's
  commit and result name the digest that the checkpoint gives, with that size.
\<close>

theorem validate_sound:
  assumes "validate L r = None"
  shows "\<exists>h ns. stageHashRestore L (Algorithm r) (Hash r) = Inr h
    \<and> Namespace r = namespaceSegment ns \<and> validStageID (ID r)
    \<and> Offset r = int (be_val (drop (length (Hash r) - 8) (Hash r)))
    \<and> (State r = StageCommitted \<longrightarrow>
        Digest (Commit r) = hash_digest L (Algorithm r) h \<and> Size (Commit r) = Offset r
        \<and> Digest (Result r) = hash_digest L (Algorithm r) h \<and> Size (Result r) = Offset r)"
proof -
  obtain ns where ns: "namespaceID (Namespace r) = Inr ns" "namespaceSegment ns = Namespace r"
    using assms by (auto simp: validate_def split: sum.splits if_splits)
  obtain h where h: "stageHashRestore L (Algorithm r) (Hash r) = Inr h"
    using assms by (auto simp: validate_def split: sum.splits if_splits)
  have "validStageID (ID r)" "Offset r = int (be_val (drop (length (Hash r) - 8) (Hash r)))"
    using assms ns h by (auto simp: validate_def split: if_splits)
  moreover have "Digest (Commit r) = hash_digest L (Algorithm r) h \<and> Size (Commit r) = Offset r
      \<and> Digest (Result r) = hash_digest L (Algorithm r) h \<and> Size (Result r) = Offset r"
    if "State r = StageCommitted"
    using assms ns h that by (auto simp: validate_def Let_def split: if_splits)
  ultimately show ?thesis using ns h by metis
qed

theorem validate_sound_witness:
  "\<exists>r h. validate example_lib r = None \<and> stageHashRestore example_lib (Algorithm r) (Hash r) = Inr h
    \<and> Offset r = int (be_val (drop (length (Hash r) - 8) (Hash r)))"
proof -
  obtain r where r: "describes example_lib r []" "record_shape r ''a''" "State r = StageActive"
    using example_record by blast
  then have "commit_shape example_lib r []" by (simp add: commit_shape_def stage_states)
  then have "validate example_lib r = None" by (rule validate_described [OF r(1,2)])
  from this validate_sound [OF this] show ?thesis by blast
qed

end
