(* ===== verification/StoreApi.thy ===== *)
theory StoreApi
  imports Stages
begin

text \<open>
  \<open>store.go\<close>: the \<open>Store\<close> interface as a record of operations on a state \<open>'s\<close>, the chain of
  decorators that the \<open>As...\<close> functions follow to find an optional capability, and
  \<open>infoMeta\<close> of \<open>info.go\<close>.
\<close>

section \<open>The interface\<close>

text \<open>\<open>Open\<close> also returns a reader of the blob, given by the bytes it delivers.\<close>

record 's store =
  Add :: "env \<Rightarrow> meta \<Rightarrow> reader \<Rightarrow> ('s, meta \<times> error option) go"
  Stat :: "env \<Rightarrow> string \<Rightarrow> ('s, error + 's blobInfo) go"
  Open :: "env \<Rightarrow> string \<Rightarrow> ('s, error + (bytes \<times> 's blobInfo)) go"
  Label :: "env \<Rightarrow> string \<Rightarrow> labels \<Rightarrow> ('s, error option) go"
  Erase :: "env \<Rightarrow> string \<Rightarrow> ('s, error option) go"

text \<open>Using an \<open>Info\<close> held in a local variable.\<close>

definition with_info :: "'s blobInfo \<Rightarrow> ('s blobInfo \<times> 's, 'a) go \<Rightarrow> ('s, 'a) go" where
  [go_run]: "with_info i m s =
     (case m (i, s) of None \<Rightarrow> None | Some (r, (i', s')) \<Rightarrow> Some (r, s'))"

definition infoMeta :: "env \<Rightarrow> ('s blobInfo \<times> 's, error + meta) go" where
  "infoMeta e =
     chk (Info_Size e) Inl (\<lambda>sz.
     chk (Info_Labels e) Inl (\<lambda>labels.
     bind (gets fst) (\<lambda>info.
       ret (Inr \<lparr>Digest = Info_Digest info, Labels = labels, Size = sz\<rparr>))))"

section \<open>Capabilities behind decorators\<close>

text \<open>
  A Go store or stores value, as far as the capability lookups look at it: which optional
  interfaces it implements, and what its \<open>Unwrap\<close> method returns when it has one.
\<close>

datatype capability =
  CapPresigner | CapLinker | CapWalker | CapNamespacer | CapStager | CapStageCleaner
  | CapReclaimer | CapFiller

datatype store_value =
    Nil_store
  | Store_value (value_name: string) (caps: "capability list") (unwrap: "store_value option")

fun AsPresigner :: "store_value \<Rightarrow> store_value option" where
  "AsPresigner Nil_store = None"
| "AsPresigner (Store_value n cs u) =
     (if CapPresigner \<in> set cs then Some (Store_value n cs u)
      else (case u of None \<Rightarrow> None | Some s \<Rightarrow> AsPresigner s))"

fun AsLinker :: "store_value \<Rightarrow> store_value option" where
  "AsLinker Nil_store = None"
| "AsLinker (Store_value n cs u) =
     (if CapLinker \<in> set cs then Some (Store_value n cs u)
      else (case u of None \<Rightarrow> None | Some s \<Rightarrow> AsLinker s))"

fun unwrapLinkSource :: "store_value \<Rightarrow> store_value" where
  "unwrapLinkSource Nil_store = Nil_store"
| "unwrapLinkSource (Store_value n cs u) =
     (case u of None \<Rightarrow> Store_value n cs u | Some s \<Rightarrow> unwrapLinkSource s)"

fun AsWalker :: "store_value \<Rightarrow> store_value option" where
  "AsWalker Nil_store = None"
| "AsWalker (Store_value n cs u) =
     (if CapWalker \<in> set cs then Some (Store_value n cs u)
      else (case u of None \<Rightarrow> None | Some s \<Rightarrow> AsWalker s))"

fun AsNamespacer :: "store_value \<Rightarrow> store_value option" where
  "AsNamespacer Nil_store = None"
| "AsNamespacer (Store_value n cs u) =
     (if CapNamespacer \<in> set cs then Some (Store_value n cs u)
      else (case u of None \<Rightarrow> None | Some s \<Rightarrow> AsNamespacer s))"

fun AsStager :: "store_value \<Rightarrow> store_value option" where
  "AsStager Nil_store = None"
| "AsStager (Store_value n cs u) =
     (if CapStager \<in> set cs then Some (Store_value n cs u)
      else (case u of None \<Rightarrow> None | Some s \<Rightarrow> AsStager s))"

fun AsStageCleaner :: "store_value \<Rightarrow> store_value option" where
  "AsStageCleaner Nil_store = None"
| "AsStageCleaner (Store_value n cs u) =
     (if CapStageCleaner \<in> set cs then Some (Store_value n cs u)
      else (case u of None \<Rightarrow> None | Some s \<Rightarrow> AsStageCleaner s))"

fun AsReclaimer :: "store_value \<Rightarrow> store_value option" where
  "AsReclaimer Nil_store = None"
| "AsReclaimer (Store_value n cs u) =
     (if CapReclaimer \<in> set cs then Some (Store_value n cs u)
      else (case u of None \<Rightarrow> None | Some s \<Rightarrow> AsReclaimer s))"

fun AsFiller :: "store_value \<Rightarrow> store_value option" where
  "AsFiller Nil_store = None"
| "AsFiller (Store_value n cs u) =
     (if CapFiller \<in> set cs then Some (Store_value n cs u)
      else (case u of None \<Rightarrow> None | Some s \<Rightarrow> AsFiller s))"

text \<open>The layers of a value, outermost first, and the first of them with a capability.\<close>

fun layers :: "store_value \<Rightarrow> store_value list" where
  "layers Nil_store = []"
| "layers (Store_value n cs u) =
     Store_value n cs u # (case u of None \<Rightarrow> [] | Some s \<Rightarrow> layers s)"

definition first_with :: "capability \<Rightarrow> store_value \<Rightarrow> store_value option" where
  "first_with c s = find (\<lambda>v. c \<in> set (caps v)) (layers s)"

definition errNoGrace :: error where
  "errNoGrace = ErrorString ''reclaim: grace must be positive''"

lemma As_first_with:
  "AsPresigner s = first_with CapPresigner s"
  "AsLinker s = first_with CapLinker s"
  "AsWalker s = first_with CapWalker s"
  "AsNamespacer s = first_with CapNamespacer s"
  "AsStager s = first_with CapStager s"
  "AsStageCleaner s = first_with CapStageCleaner s"
  "AsReclaimer s = first_with CapReclaimer s"
  "AsFiller s = first_with CapFiller s"
  by (induction s) (auto simp: first_with_def split: option.splits)

lemma unwrapLinkSource_innermost:
  "unwrapLinkSource s = Nil_store \<or>
     (unwrapLinkSource s \<in> set (layers s) \<and> unwrap (unwrapLinkSource s) = None)"
  by (induction s) (auto split: option.splits)

section \<open>Reading an Info\<close>

lemma Info_Size_store:
  "bi_sizeLoader i = None \<Longrightarrow> Info_Size e (i, s) = Some (Inr (bi_size i), (i, s))"
  by (simp add: Info_Size_def go_run)

text \<open>What an \<open>Info\<close> that was just made answers, from a given state of the store.\<close>

definition info_shows :: "'s blobInfo \<Rightarrow> 's \<Rightarrow> meta \<Rightarrow> time \<Rightarrow> bool" where
  "info_shows i s m added \<longleftrightarrow>
     (\<forall>e. live e \<longrightarrow>
        with_info i (infoMeta e) s = Some (Inr m, s)
        \<and> with_info i (Info_Added e) s = Some (added_result added, s))"

section \<open>Properties\<close>

text \<open>
  Each capability lookup returns the outermost layer of the decorator chain that has the
  capability, and fails only when no layer has it.
\<close>

theorem capability_lookup:
  "AsPresigner s = find (\<lambda>v. CapPresigner \<in> set (caps v)) (layers s)
   \<and> AsLinker s = find (\<lambda>v. CapLinker \<in> set (caps v)) (layers s)
   \<and> AsWalker s = find (\<lambda>v. CapWalker \<in> set (caps v)) (layers s)
   \<and> AsNamespacer s = find (\<lambda>v. CapNamespacer \<in> set (caps v)) (layers s)
   \<and> AsStager s = find (\<lambda>v. CapStager \<in> set (caps v)) (layers s)
   \<and> AsStageCleaner s = find (\<lambda>v. CapStageCleaner \<in> set (caps v)) (layers s)
   \<and> AsReclaimer s = find (\<lambda>v. CapReclaimer \<in> set (caps v)) (layers s)
   \<and> AsFiller s = find (\<lambda>v. CapFiller \<in> set (caps v)) (layers s)"
  by (simp add: As_first_with first_with_def)

end
