(* ===== verification/Fill.thy ===== *)
theory Fill
  imports StoreApi
begin

text \<open>
  \<open>fill.go\<close>: a blob that can be read while it is written. The tracker is one record together
  with the bytes its \<open>src\<close> holds (\<open>ft_data\<close>); a reader is a record of its own. The tracker's
  mutex makes each of its methods one step. A reader waits on the channel \<open>wake\<close>, which is
  replaced whenever the state changes: a \<open>Read\<close> is therefore a function of the states it sees,
  one per turn of its loop.
\<close>

section \<open>The tracker\<close>

record 'h fillTracker =
  ft_data :: bytes
  ft_size :: int
  ft_want :: string
  ft_h :: 'h
  ft_wake :: nat
  ft_written :: int
  ft_state :: "error option"
  ft_ended :: bool
  ft_readers :: int
  ft_releases :: nat
  ft_released :: bool

definition errFillReleased :: error where
  "errFillReleased = ErrorString ''fill released''"

definition errFillPastSize :: error where
  "errFillPastSize = ErrorString ''fill: write past its size''"

definition fill_verify :: "'h digest_lib \<Rightarrow> 'h fillTracker \<Rightarrow> 'h fillTracker" where
  "fill_verify L t =
     (if hash_digest L (dl_Algorithm L (ft_want t)) (ft_h t) = ft_want t
      then t\<lparr>ft_state := Some EOF\<rparr>
      else t\<lparr>ft_state := Some ErrDigestMismatch\<rparr>)"

text \<open>\<open>ft_wake\<close> counts the channels: a reader waiting on one is woken when the count moves.\<close>

definition fill_notify :: "'h fillTracker \<Rightarrow> 'h fillTracker" where
  "fill_notify t = t\<lparr>ft_wake := Suc (ft_wake t)\<rparr>"

definition newFillTracker :: "'h digest_lib \<Rightarrow> meta \<Rightarrow> error + 'h fillTracker" where
  "newFillTracker L m =
     (if Size m < 0 then Inl (ErrorString ''fill: size'')
      else
        (let t = \<lparr>ft_data = [], ft_size = Size m, ft_want = Digest m,
                  ft_h = dl_Hash L (dl_Algorithm L (Digest m)), ft_wake = 0, ft_written = 0,
                  ft_state = None, ft_ended = False, ft_readers = 0, ft_releases = 0,
                  ft_released = False\<rparr>
         in Inr (if ft_size t = 0 then fill_verify L t else t)))"

text \<open>
  \<open>write\<close> holds the mutex twice, with the call of \<open>store\<close> between: it looks at the state and
  cuts the bytes to the room left; \<open>store\<close> answers how many it kept and perhaps an error, and
  the kept ones are then in \<open>src\<close> and in the hash; it records them.
\<close>

definition fill_write_enter ::
  "bytes \<Rightarrow> 'h fillTracker \<Rightarrow> (nat \<times> error option) + (bytes \<times> bool)" where
  "fill_write_enter p t =
     (case ft_state t of
        Some state \<Rightarrow> Inl (0, Some (if state = EOF then errFillPastSize else state))
      | None \<Rightarrow>
          (let room = ft_size t - ft_written t
           in if int (length p) > room then Inr (take (nat room) p, True) else Inr (p, False)))"

definition fill_write_store ::
  "'h digest_lib \<Rightarrow> bytes \<Rightarrow> nat \<Rightarrow> 'h fillTracker \<Rightarrow> 'h fillTracker" where
  "fill_write_store L p n t =
     t\<lparr>ft_data := ft_data t @ take n p, ft_h := dl_Write L (ft_h t) (take n p)\<rparr>"

definition fill_write_leave ::
  "'h digest_lib \<Rightarrow> bool \<Rightarrow> nat \<Rightarrow> error option \<Rightarrow> 'h fillTracker
   \<Rightarrow> (nat \<times> error option) \<times> 'h fillTracker" where
  "fill_write_leave L short n err t =
     (let t = t\<lparr>ft_written := ft_written t + int n\<rparr>;
          t = (if ft_written t = ft_size t then fill_verify L t else t);
          t = fill_notify t;
          err = (if err = None \<and> short then Some errFillPastSize else err)
      in ((n, err), t))"

definition fill_write ::
  "'h digest_lib \<Rightarrow> bytes \<Rightarrow> (bytes \<Rightarrow> nat \<times> error option) \<Rightarrow> 'h fillTracker
   \<Rightarrow> (nat \<times> error option) \<times> 'h fillTracker" where
  "fill_write L p store t =
     (case fill_write_enter p t of
        Inl res \<Rightarrow> (res, t)
      | Inr (p, short) \<Rightarrow>
          (let (n, err) = store p in fill_write_leave L short n err (fill_write_store L p n t)))"

definition fill_complete :: "'h fillTracker \<Rightarrow> error option" where
  "fill_complete t =
     (case ft_state t of
        None \<Rightarrow> Some ErrUnexpectedEOF
      | Some state \<Rightarrow> if state = EOF then None else Some state)"

definition fill_maybeRelease :: "'h fillTracker \<Rightarrow> 'h fillTracker" where
  "fill_maybeRelease t =
     (if ft_ended t \<and> ft_readers t = 0 \<and> \<not> ft_released t
      then t\<lparr>ft_released := True, ft_releases := Suc (ft_releases t)\<rparr>
      else t)"

definition fill_abort :: "error option \<Rightarrow> 'h fillTracker \<Rightarrow> 'h fillTracker" where
  "fill_abort err t =
     (let err = (case err of None \<Rightarrow> ErrUnexpectedEOF | Some e \<Rightarrow> e);
          t = (if ft_state t = None then t\<lparr>ft_state := Some err\<rparr> else t);
          t = t\<lparr>ft_ended := True\<rparr>;
          t = fill_notify t
      in fill_maybeRelease t)"

definition fill_end :: "'h fillTracker \<Rightarrow> 'h fillTracker" where
  "fill_end t = fill_maybeRelease (t\<lparr>ft_ended := True\<rparr>)"

section \<open>Its readers\<close>

record fillReader =
  fr_off :: int
  fr_closed :: bool

definition fill_follow :: "'h fillTracker \<Rightarrow> (error + fillReader) \<times> 'h fillTracker" where
  "fill_follow t =
     (if ft_released t then (Inl errFillReleased, t)
      else (Inr \<lparr>fr_off = 0, fr_closed = False\<rparr>, t\<lparr>ft_readers := ft_readers t + 1\<rparr>))"

text \<open>\<open>io.ReaderAt\<close> on the bytes written so far (\<open>memFill.ReadAt\<close>; a file reads the same).\<close>

definition fill_ReadAt :: "bytes \<Rightarrow> nat \<Rightarrow> int \<Rightarrow> bytes \<times> error option" where
  "fill_ReadAt data n off =
     (if off \<ge> int (length data) then ([], Some EOF)
      else
        (let b = take n (drop (nat off) data)
         in (b, if length b < n then Some EOF else None)))"

text \<open>
  One turn of the loop of \<open>fillReader.Read\<close> with a buffer of \<open>n\<close> bytes, on the state it finds:
  the result and the reader after it, or \<open>None\<close> when it has to wait.
\<close>

definition fillReader_turn ::
  "'h fillTracker \<Rightarrow> nat \<Rightarrow> fillReader \<Rightarrow> ((bytes \<times> error option) \<times> fillReader) option" where
  "fillReader_turn t n r =
     (if fr_closed r then Some (([], Some (ErrorString ''fill: read after close'')), r)
      else if ft_state t \<noteq> None \<and> ft_state t \<noteq> Some EOF then Some (([], ft_state t), r)
      else if fr_off r \<ge> ft_size t \<and> ft_state t = Some EOF then Some (([], Some EOF), r)
      else if fr_off r < ft_written t then
        (if n = 0 then Some (([], None), r)
         else
           (let n = (if int n > ft_written t - fr_off r then nat (ft_written t - fr_off r) else n);
                (b, err) = fill_ReadAt (ft_data t) n (fr_off r);
                r = r\<lparr>fr_off := fr_off r + int (length b)\<rparr>;
                err = (if err = Some EOF \<and> length b = n then None else err)
            in Some ((b, err), r)))
      else None)"

text \<open>
  The whole \<open>Read\<close>, on the states that successive turns find and the answers of the context
  while it waits between them; \<open>None\<close> says that it is still waiting after them.
\<close>

fun fillReader_Read ::
  "('h fillTracker \<times> error option) list \<Rightarrow> nat \<Rightarrow> fillReader
   \<Rightarrow> ((bytes \<times> error option) \<times> fillReader) option" where
  "fillReader_Read [] n r = None"
| "fillReader_Read ((t, ctx_done) # ts) n r =
     (case fillReader_turn t n r of
        Some res \<Rightarrow> Some res
      | None \<Rightarrow>
          (case ctx_done of
             Some err \<Rightarrow> Some (([], Some err), r)
           | None \<Rightarrow> fillReader_Read ts n r))"

datatype whence = SeekStart | SeekCurrent | SeekEnd | SeekOther

definition fillReader_Seek ::
  "'h fillTracker \<Rightarrow> int \<Rightarrow> whence \<Rightarrow> fillReader \<Rightarrow> (error + int) \<times> fillReader" where
  "fillReader_Seek t offset wh r =
     (if wh = SeekOther then (Inl (ErrorString ''fill: invalid whence''), r)
      else
        (let offset = (case wh of
                         SeekStart \<Rightarrow> offset
                       | SeekCurrent \<Rightarrow> wrap64 (offset + fr_off r)
                       | SeekEnd \<Rightarrow> wrap64 (offset + ft_size t)
                       | SeekOther \<Rightarrow> offset)
         in if offset < 0 then (Inl (ErrorString ''fill: negative position''), r)
            else (Inr offset, r\<lparr>fr_off := offset\<rparr>)))"

definition fillReader_Close :: "'h fillTracker \<Rightarrow> fillReader \<Rightarrow> 'h fillTracker \<times> fillReader" where
  "fillReader_Close t r =
     (if fr_closed r then (t, r)
      else (fill_maybeRelease (t\<lparr>ft_readers := ft_readers t - 1\<rparr>), r\<lparr>fr_closed := True\<rparr>))"

section \<open>The invariant of a fill\<close>

text \<open>
  The writer of a fill is between two calls, or inside \<open>write\<close> before or after \<open>store\<close>; the
  bytes it has stored and not yet recorded are ahead of \<open>ft_written\<close>.
\<close>

datatype fillWriter =
    Writer_idle
  | Writer_storing bytes bool
  | Writer_stored nat bool "error option"

fun ahead :: "fillWriter \<Rightarrow> nat" where
  "ahead (Writer_stored n short err) = n"
| "ahead w = 0"

fun wants :: "fillWriter \<Rightarrow> nat" where
  "wants (Writer_storing p short) = length p"
| "wants (Writer_stored n short err) = n"
| "wants Writer_idle = 0"

record 'h fillSystem =
  fs_tracker :: "'h fillTracker"
  fs_writer :: fillWriter
  fs_readers :: "fillReader list"

definition open_readers :: "fillReader list \<Rightarrow> nat" where
  "open_readers rs = length (filter (\<lambda>r. \<not> fr_closed r) rs)"

definition fill_bytes_inv :: "'h digest_lib \<Rightarrow> 'h fillTracker \<Rightarrow> fillWriter \<Rightarrow> bool" where
  "fill_bytes_inv L t w \<longleftrightarrow>
     0 \<le> ft_written t
     \<and> ft_written t + int (ahead w) = int (length (ft_data t))
     \<and> ft_written t + int (wants w) \<le> ft_size t
     \<and> ft_h t = dl_Write L (dl_Hash L (dl_Algorithm L (ft_want t))) (ft_data t)
     \<and> (ft_state t = None \<longrightarrow> ft_written t < ft_size t)
     \<and> (ft_state t = Some EOF \<longrightarrow>
          ft_written t = ft_size t
          \<and> data_digest L (dl_Algorithm L (ft_want t)) (ft_data t) = ft_want t)"

definition fill_release_inv :: "'h fillTracker \<Rightarrow> fillReader list \<Rightarrow> bool" where
  "fill_release_inv t rs \<longleftrightarrow>
     ft_readers t = int (open_readers rs)
     \<and> (ft_released t \<longleftrightarrow> ft_ended t \<and> ft_readers t = 0)
     \<and> ft_releases t = (if ft_released t then 1 else 0)
     \<and> list_all (\<lambda>r. 0 \<le> fr_off r) rs"

definition fill_inv :: "'h digest_lib \<Rightarrow> 'h fillSystem \<Rightarrow> bool" where
  "fill_inv L s \<longleftrightarrow>
     fill_bytes_inv L (fs_tracker s) (fs_writer s)
     \<and> fill_release_inv (fs_tracker s) (fs_readers s)"

text \<open>
  The steps of a fill: one writer, any number of readers, and \<open>abort\<close> and \<open>end\<close> from anywhere
  in between. \<open>end\<close> runs after a commit, which needs \<open>complete\<close>.
\<close>

inductive fill_step :: "'h digest_lib \<Rightarrow> 'h fillSystem \<Rightarrow> 'h fillSystem \<Rightarrow> bool" for L where
  refuse: "fs_writer s = Writer_idle \<Longrightarrow> fill_write_enter p (fs_tracker s) = Inl res \<Longrightarrow>
    fill_step L s s"
| enter: "fs_writer s = Writer_idle \<Longrightarrow> fill_write_enter p (fs_tracker s) = Inr (p', short) \<Longrightarrow>
    fill_step L s (s\<lparr>fs_writer := Writer_storing p' short\<rparr>)"
| keep: "fs_writer s = Writer_storing p short \<Longrightarrow> n \<le> length p \<Longrightarrow>
    fill_step L s (s\<lparr>fs_tracker := fill_write_store L p n (fs_tracker s),
                     fs_writer := Writer_stored n short err\<rparr>)"
| leave: "fs_writer s = Writer_stored n short err \<Longrightarrow>
    fill_write_leave L short n err (fs_tracker s) = (res, t) \<Longrightarrow>
    fill_step L s (s\<lparr>fs_tracker := t, fs_writer := Writer_idle\<rparr>)"
| abort: "err \<noteq> Some EOF \<Longrightarrow>
    fill_step L s (s\<lparr>fs_tracker := fill_abort err (fs_tracker s)\<rparr>)"
| finish: "fill_complete (fs_tracker s) = None \<Longrightarrow>
    fill_step L s (s\<lparr>fs_tracker := fill_end (fs_tracker s)\<rparr>)"
| follow: "fill_follow (fs_tracker s) = (Inr r, t) \<Longrightarrow>
    fill_step L s (s\<lparr>fs_tracker := t, fs_readers := fs_readers s @ [r]\<rparr>)"
| read: "i < length (fs_readers s) \<Longrightarrow>
    fillReader_turn (fs_tracker s) n (fs_readers s ! i) = Some (res, r) \<Longrightarrow>
    fill_step L s (s\<lparr>fs_readers := (fs_readers s)[i := r]\<rparr>)"
| seek: "i < length (fs_readers s) \<Longrightarrow>
    fillReader_Seek (fs_tracker s) offset wh (fs_readers s ! i) = (res, r) \<Longrightarrow>
    fill_step L s (s\<lparr>fs_readers := (fs_readers s)[i := r]\<rparr>)"
| close: "i < length (fs_readers s) \<Longrightarrow>
    fillReader_Close (fs_tracker s) (fs_readers s ! i) = (t, r) \<Longrightarrow>
    fill_step L s (s\<lparr>fs_tracker := t, fs_readers := (fs_readers s)[i := r]\<rparr>)"

inductive fill_reachable :: "'h digest_lib \<Rightarrow> meta \<Rightarrow> 'h fillSystem \<Rightarrow> bool" for L m where
  start: "newFillTracker L m = Inr t \<Longrightarrow>
    fill_reachable L m \<lparr>fs_tracker = t, fs_writer = Writer_idle, fs_readers = []\<rparr>"
| step: "fill_reachable L m s \<Longrightarrow> fill_step L s s' \<Longrightarrow> fill_reachable L m s'"

lemmas fill_ops = fill_verify_def fill_notify_def fill_maybeRelease_def fill_abort_def fill_end_def
  fill_follow_def fillReader_Close_def fill_write_store_def fill_write_leave_def

lemma newFillTracker_inv:
  assumes "digest_lib_ok L" "newFillTracker L m = Inr t"
  shows "fill_inv L \<lparr>fs_tracker = t, fs_writer = Writer_idle, fs_readers = []\<rparr>"
  using assms
  by (auto simp: newFillTracker_def fill_inv_def fill_bytes_inv_def fill_release_inv_def
      open_readers_def fill_verify_def data_digest_def Let_def split: if_splits)

lemma open_readers_update:
  assumes "i < length rs"
  shows "open_readers (rs[i := r]) + (if fr_closed (rs ! i) then 0 else 1)
    = open_readers rs + (if fr_closed r then 0 else 1)"
proof -
  have "rs = take i rs @ rs ! i # drop (Suc i) rs"
    by (rule id_take_nth_drop [OF assms])
  then have "open_readers rs = open_readers (take i rs @ rs ! i # drop (Suc i) rs)" by simp
  with assms show ?thesis
    by (simp add: open_readers_def upd_conv_take_nth_drop)
qed

lemma fill_enter_wants:
  "fill_write_enter p t = Inr (p', short) \<Longrightarrow> ft_written t < ft_size t \<Longrightarrow>
     ft_written t + int (length p') \<le> ft_size t"
  by (auto simp: fill_write_enter_def Let_def split: option.splits if_splits)

lemma fill_enter_expecting: "fill_write_enter p t = Inr (p', short) \<Longrightarrow> ft_state t = None"
  by (auto simp: fill_write_enter_def split: option.splits)

lemma fill_ReadAt_length: "fill_ReadAt d n off = (b, err) \<Longrightarrow> length b \<le> n"
  by (auto simp: fill_ReadAt_def Let_def split: if_splits)

lemma fillReader_turn_keeps:
  "fillReader_turn t n r = Some (res, r') \<Longrightarrow>
     fr_closed r' = fr_closed r \<and> fr_off r \<le> fr_off r'"
  by (auto simp: fillReader_turn_def Let_def split: if_splits prod.splits)

lemma fillReader_Seek_keeps:
  "fillReader_Seek t off wh r = (res, r') \<Longrightarrow> 0 \<le> fr_off r \<Longrightarrow>
     fr_closed r' = fr_closed r \<and> 0 \<le> fr_off r'"
  by (auto simp: fillReader_Seek_def Let_def split: if_splits)

lemma readers_update_inv:
  assumes "fill_release_inv t rs" "i < length rs" "fr_closed r = fr_closed (rs ! i)" "0 \<le> fr_off r"
  shows "fill_release_inv t (rs[i := r])"
  using assms open_readers_update [OF assms(2), of r]
  by (auto simp: fill_release_inv_def list_all_iff dest: set_update_subset_insert [THEN subsetD])

lemma close_release_inv:
  assumes "fill_release_inv t rs" "i < length rs" "fillReader_Close t (rs ! i) = (t', r)"
  shows "fill_release_inv t' (rs[i := r])"
proof (cases "fr_closed (rs ! i)")
  case True
  with assms have "t' = t" "r = rs ! i" by (simp_all add: fillReader_Close_def)
  with assms(1) show ?thesis by simp
next
  case False
  have "0 \<le> fr_off (rs ! i)" using assms(1,2) by (simp add: fill_release_inv_def list_all_length)
  then show ?thesis
    using assms open_readers_update [OF assms(2), of r] False
    by (auto simp: fill_release_inv_def fill_ops list_all_iff split: if_splits
        dest!: set_update_subset_insert [THEN subsetD])
qed

lemma abort_bytes_inv:
  "fill_bytes_inv L t w \<Longrightarrow> err \<noteq> Some EOF \<Longrightarrow> fill_bytes_inv L (fill_abort err t) w"
  by (auto simp: fill_bytes_inv_def fill_ops Let_def split: option.splits)

lemma leave_bytes_inv:
  "digest_lib_ok L \<Longrightarrow> fill_bytes_inv L t (Writer_stored n short err) \<Longrightarrow>
     fill_write_leave L short n err t = (res, t') \<Longrightarrow> fill_bytes_inv L t' Writer_idle"
  by (auto simp: fill_bytes_inv_def fill_ops data_digest_def Let_def split: if_splits)

lemma other_bytes_inv:
  assumes "fill_bytes_inv L t w"
  shows "fill_bytes_inv L (fill_end t) w"
    and "fill_follow t = (res, t') \<Longrightarrow> fill_bytes_inv L t' w"
    and "fillReader_Close t r = (t'', r') \<Longrightarrow> fill_bytes_inv L t'' w"
  using assms by (auto simp: fill_bytes_inv_def fill_ops split: if_splits)

lemma other_release_inv:
  assumes "fill_release_inv t rs"
  shows "fill_release_inv (fill_end t) rs"
    and "fill_release_inv (fill_abort err t) rs"
    and "fill_follow t = (Inr r, t') \<Longrightarrow> fill_release_inv t' (rs @ [r])"
    and "fill_write_leave L short n err t = (res, t'') \<Longrightarrow> fill_release_inv t'' rs"
  using assms
  by (auto simp: fill_release_inv_def fill_ops open_readers_def Let_def split: if_splits)

lemma fill_step_inv:
  assumes L: "digest_lib_ok L" and "fill_step L s s'" and "fill_inv L s"
  shows "fill_inv L s'"
  using assms(2,3)
proof (cases rule: fill_step.cases)
  case (enter p p' short)
  then show ?thesis using assms(3)
    by (auto simp: fill_inv_def fill_bytes_inv_def dest: fill_enter_wants fill_enter_expecting)
next
  case (keep p short n err)
  then show ?thesis using assms(3) L
    by (auto simp: fill_inv_def fill_bytes_inv_def fill_release_inv_def fill_write_store_def)
next
  case (read i n res r)
  then have "0 \<le> fr_off (fs_readers s ! i)"
    using assms(3) by (simp add: fill_inv_def fill_release_inv_def list_all_length)
  with read assms(3) show ?thesis
    by (auto simp: fill_inv_def dest: fillReader_turn_keeps intro!: readers_update_inv)
next
  case (seek i offset wh res r)
  then have "0 \<le> fr_off (fs_readers s ! i)"
    using assms(3) by (simp add: fill_inv_def fill_release_inv_def list_all_length)
  with seek assms(3) show ?thesis
    by (auto simp: fill_inv_def dest: fillReader_Seek_keeps intro!: readers_update_inv)
qed (auto simp: fill_inv_def intro: leave_bytes_inv [OF L] abort_bytes_inv other_bytes_inv
    other_release_inv close_release_inv)

text \<open>What a step never changes, and that the written bytes only grow.\<close>

lemma fill_step_constant:
  "fill_step L s s' \<Longrightarrow>
     ft_size (fs_tracker s') = ft_size (fs_tracker s)
     \<and> ft_want (fs_tracker s') = ft_want (fs_tracker s)
     \<and> take (length (ft_data (fs_tracker s))) (ft_data (fs_tracker s')) = ft_data (fs_tracker s)
     \<and> length (fs_readers s) \<le> length (fs_readers s')"
  by (erule fill_step.cases) (auto simp: fill_ops Let_def split: if_splits)

lemma fill_reachable_inv:
  assumes "digest_lib_ok L" "fill_reachable L m s"
  shows "fill_inv L s \<and> ft_size (fs_tracker s) = Size m \<and> ft_want (fs_tracker s) = Digest m"
  using assms(2)
proof induction
  case (start t)
  then show ?case using newFillTracker_inv [OF assms(1) start]
    by (auto simp: newFillTracker_def fill_verify_def Let_def split: if_splits)
next
  case (step s s')
  then show ?case using fill_step_inv [OF assms(1)] fill_step_constant by fastforce
qed

section \<open>What a follower reads\<close>

lemma fillReader_turn_reads:
  assumes "fillReader_turn t n r = Some ((b, err), r')" "0 \<le> fr_off r"
    "ft_written t \<le> int (length (ft_data t))"
  shows "b = take (length b) (drop (nat (fr_off r)) (ft_data t))
    \<and> fr_off r' = fr_off r + int (length b)
    \<and> (err \<noteq> None \<longrightarrow> b = [])
    \<and> (err = None \<longrightarrow> 0 < n \<longrightarrow> b \<noteq> [])
    \<and> (b \<noteq> [] \<longrightarrow> fr_off r' \<le> ft_written t)"
  using assms by (auto simp: fillReader_turn_def fill_ReadAt_def Let_def split: if_splits)

text \<open>
  \<open>reads L m i s b\<close>: in state \<open>s\<close> of a fill of \<open>m\<close>, reader \<open>i\<close> has read \<open>b\<close> in order since it
  was opened, whatever the others did in between.
\<close>

inductive reads :: "'h digest_lib \<Rightarrow> meta \<Rightarrow> nat \<Rightarrow> 'h fillSystem \<Rightarrow> bytes \<Rightarrow> bool" for L m i where
  opened: "fill_reachable L m s \<Longrightarrow> fill_follow (fs_tracker s) = (Inr r, t) \<Longrightarrow>
    i = length (fs_readers s) \<Longrightarrow>
    reads L m i (s\<lparr>fs_tracker := t, fs_readers := fs_readers s @ [r]\<rparr>) []"
| more: "reads L m i s b \<Longrightarrow>
    fillReader_turn (fs_tracker s) n (fs_readers s ! i) = Some ((c, None), r) \<Longrightarrow>
    reads L m i (s\<lparr>fs_readers := (fs_readers s)[i := r]\<rparr>) (b @ c)"
| others: "reads L m i s b \<Longrightarrow> fill_step L s s' \<Longrightarrow> fs_readers s' ! i = fs_readers s ! i \<Longrightarrow>
    reads L m i s' b"

lemma take_take_prefix: "take (length xs) ys = xs \<Longrightarrow> n \<le> length xs \<Longrightarrow> take n ys = take n xs"
  by (metis min.absorb1 take_take)

lemma fill_reachable_written:
  assumes "digest_lib_ok L" "fill_reachable L m s"
  shows "ft_written (fs_tracker s) \<le> int (length (ft_data (fs_tracker s)))"
  using fill_reachable_inv [OF assms] unfolding fill_inv_def fill_bytes_inv_def by linarith

lemma take_append_more:
  "take (length b) d = b \<Longrightarrow> c = take (length c) (drop (length b) d) \<Longrightarrow>
     take (length (b @ c)) d = b @ c"
  by (simp add: take_add)

lemma reads_prefix:
  assumes L: "digest_lib_ok L" and "reads L m i s b"
  shows "fill_reachable L m s \<and> i < length (fs_readers s)
    \<and> fr_off (fs_readers s ! i) = int (length b)
    \<and> length b \<le> length (ft_data (fs_tracker s))
    \<and> take (length b) (ft_data (fs_tracker s)) = b"
  using assms(2)
proof induction
  case (opened s r t)
  then have "fill_reachable L m (s\<lparr>fs_tracker := t, fs_readers := fs_readers s @ [r]\<rparr>)"
    by (blast intro: fill_reachable.step fill_step.follow)
  with opened show ?case by (auto simp: fill_follow_def split: if_splits)
next
  case (more s b n c r)
  let ?s = "s\<lparr>fs_readers := (fs_readers s)[i := r]\<rparr>" and ?d = "ft_data (fs_tracker s)"
  have r: "fill_reachable L m ?s"
    using more by (blast intro: fill_reachable.step fill_step.read)
  have w: "ft_written (fs_tracker s) \<le> int (length ?d)"
    using fill_reachable_written [OF L] more.IH by blast
  have c: "c = take (length c) (drop (length b) ?d)" "fr_off r = int (length b) + int (length c)"
    "c \<noteq> [] \<longrightarrow> fr_off r \<le> ft_written (fs_tracker s)"
    using fillReader_turn_reads [OF more.hyps(2) _ w] more.IH by auto
  have "length (b @ c) \<le> length ?d"
    using c(2,3) w more.IH by (cases "c = []") simp_all
  moreover have "take (length (b @ c)) ?d = b @ c"
    using more.IH c(1) by (intro take_append_more) simp_all
  ultimately show ?case using r c(2) more.IH by simp
next
  case (others s b s')
  then have "fill_reachable L m s'" by (blast intro: fill_reachable.step)
  moreover have "length (ft_data (fs_tracker s)) \<le> length (ft_data (fs_tracker s'))"
    using fill_step_constant [OF others.hyps(2)] by (metis length_take min.cobounded1)
  ultimately show ?case
    using others fill_step_constant [OF others.hyps(2)]
    by (auto simp: take_take_prefix)
qed

lemma turn_EOF:
  "fillReader_turn t n r = Some ((b, Some EOF), r') \<Longrightarrow> \<not> fr_closed r \<Longrightarrow>
     0 \<le> fr_off r \<Longrightarrow> ft_written t \<le> int (length (ft_data t)) \<Longrightarrow>
     ft_size t \<le> fr_off r \<and> ft_state t = Some EOF"
  by (auto simp: fillReader_turn_def fill_ReadAt_def Let_def split: if_splits)

lemma follower_reads_blob:
  assumes L: "digest_lib_ok L" and "reads L m i s b" and "\<not> fr_closed (fs_readers s ! i)"
    and "fillReader_turn (fs_tracker s) n (fs_readers s ! i) = Some ((c, Some EOF), r)"
  shows "int (length b) = Size m \<and> data_digest L (dl_Algorithm L (Digest m)) b = Digest m"
proof -
  let ?t = "fs_tracker s"
  note p = reads_prefix [OF L assms(2)]
  have inv: "fill_bytes_inv L ?t (fs_writer s)" and m: "ft_size ?t = Size m" "ft_want ?t = Digest m"
    using fill_reachable_inv [OF L] p by (auto simp: fill_inv_def)
  have "ft_size ?t \<le> int (length b)" "ft_state ?t = Some EOF"
    using turn_EOF [OF assms(4,3)] fill_reachable_written [OF L] p by auto
  moreover from this inv have "int (length (ft_data ?t)) \<le> ft_size ?t"
    by (cases "fs_writer s") (auto simp: fill_bytes_inv_def)
  ultimately have "length b = length (ft_data ?t)" using p by linarith
  then have "b = ft_data ?t" using p by simp
  with inv m \<open>ft_state ?t = Some EOF\<close> show ?thesis
    by (cases "fs_writer s") (auto simp: fill_bytes_inv_def)
qed

text \<open>A reader waits only while bytes are expected, and what it waits for wakes it.\<close>

lemma waiting_expects:
  assumes "digest_lib_ok L" "fill_reachable L m s"
    and "fillReader_turn (fs_tracker s) n r = None"
  shows "ft_state (fs_tracker s) = None \<and> ft_written (fs_tracker s) < Size m"
  using fill_reachable_inv [OF assms(1,2)] assms(3)
  by (auto simp: fillReader_turn_def fill_inv_def fill_bytes_inv_def Let_def
      split: if_splits prod.splits)

lemma no_lost_wakeup:
  assumes "fill_step L s s'"
    and "ft_written (fs_tracker s') \<noteq> ft_written (fs_tracker s)
         \<or> ft_state (fs_tracker s') \<noteq> ft_state (fs_tracker s)"
  shows "ft_wake (fs_tracker s) < ft_wake (fs_tracker s')"
  using assms by (cases rule: fill_step.cases) (auto simp: fill_ops Let_def split: if_splits)

section \<open>A run to the end\<close>

text \<open>The whole blob in one write, followed from its first byte to its end.\<close>

lemma fill_run:
  assumes L: "digest_lib_ok L" and named: "names_bytes L (Digest m) data" and sz: "Size m = int (length data)"
    and ne: "data \<noteq> []"
  shows "\<exists>s r. reads L m 0 s data \<and> \<not> fr_closed (fs_readers s ! 0)
    \<and> fillReader_turn (fs_tracker s) 1 (fs_readers s ! 0) = Some (([], Some EOF), r)"
proof -
  let ?alg = "dl_Algorithm L (Digest m)"
  let ?t0 = "\<lparr>ft_data = [], ft_size = Size m, ft_want = Digest m, ft_h = dl_Hash L ?alg, ft_wake = 0,
    ft_written = 0, ft_state = None, ft_ended = False, ft_readers = 0, ft_releases = 0, ft_released = False\<rparr>"
  let ?s0 = "\<lparr>fs_tracker = ?t0, fs_writer = Writer_idle, fs_readers = []\<rparr>"
  let ?s1 = "?s0\<lparr>fs_writer := Writer_storing data False\<rparr>"
  let ?t2 = "fill_write_store L data (length data) ?t0"
  let ?s2 = "?s1\<lparr>fs_tracker := ?t2, fs_writer := Writer_stored (length data) False None\<rparr>"
  let ?t3 = "?t2\<lparr>ft_written := int (length data), ft_state := Some EOF, ft_wake := 1\<rparr>"
  let ?s3 = "?s2\<lparr>fs_tracker := ?t3, fs_writer := Writer_idle\<rparr>"
  let ?r = "\<lparr>fr_off = 0, fr_closed = False\<rparr>"
  let ?t4 = "?t3\<lparr>ft_readers := 1\<rparr>"
  let ?s4 = "?s3\<lparr>fs_tracker := ?t4, fs_readers := [?r]\<rparr>"
  let ?r' = "?r\<lparr>fr_off := int (length data)\<rparr>"
  have pos: "0 < length data" using ne by simp
  have s0: "fill_reachable L m ?s0"
    by (rule fill_reachable.start) (use sz pos in \<open>simp add: newFillTracker_def Let_def\<close>)
  have "fill_step L ?s0 ?s1"
    by (rule fill_step.enter [where p = data]) (use sz in \<open>simp_all add: fill_write_enter_def Let_def\<close>)
  then have s1: "fill_reachable L m ?s1" by (rule fill_reachable.step [OF s0])
  have "fill_step L ?s1 ?s2"
    using fill_step.keep [of ?s1 data False "length data" L None] by simp
  then have s2: "fill_reachable L m ?s2" by (rule fill_reachable.step [OF s1])
  have "data_digest L ?alg data = Digest m" using named by (simp add: names_bytes_def)
  then have "fill_write_leave L False (length data) None ?t2 = ((length data, None), ?t3)"
    using sz L by (simp add: fill_write_leave_def fill_write_store_def fill_verify_def fill_notify_def
        data_digest_def Let_def)
  then have "fill_step L ?s2 ?s3"
    using fill_step.leave [of ?s2 "length data" False None L "(length data, None)" ?t3] by simp
  then have s3: "fill_reachable L m ?s3" by (rule fill_reachable.step [OF s2])
  have "fill_follow (fs_tracker ?s3) = (Inr ?r, ?t4)" by (simp add: fill_follow_def fill_write_store_def)
  from reads.opened [OF s3 this, of 0] have r4: "reads L m 0 ?s4 []" by simp
  have "fillReader_turn (fs_tracker ?s4) (length data) (fs_readers ?s4 ! 0) = Some ((data, None), ?r')"
    using pos sz by (simp add: fillReader_turn_def fill_ReadAt_def fill_write_store_def Let_def)
  from reads.more [OF r4 this] have "reads L m 0 (?s4\<lparr>fs_readers := [?r']\<rparr>) data" by simp
  moreover have "fillReader_turn (fs_tracker (?s4\<lparr>fs_readers := [?r']\<rparr>)) 1 (fs_readers (?s4\<lparr>fs_readers := [?r']\<rparr>) ! 0)
      = Some (([], Some EOF), ?r')"
    using sz by (simp add: fillReader_turn_def fill_write_store_def)
  ultimately show ?thesis
    by (intro exI [of _ "?s4\<lparr>fs_readers := [?r']\<rparr>"] exI [of _ ?r']) simp
qed

definition example_meta :: meta where
  "example_meta = \<lparr>Digest = data_digest example_lib SHA256 ''hi'', Labels = None, Size = 2\<rparr>"

lemma example_meta_named: "names_bytes example_lib (Digest example_meta) ''hi''"
  using names_bytes_data_digest [OF example_lib_ok, of SHA256 "''hi''"]
  by (simp add: example_meta_def algorithms_def)

section \<open>Properties\<close>

text \<open>
  C33. A follower of a fill that reads in order to \<open>io.EOF\<close>, while the writer, other followers, an
  abort and a commit run in any interleaving, has read exactly as many bytes as the fill was begun
  with, and they have the digest it was begun with.
\<close>

theorem follower_exact:
  assumes "digest_lib_ok L" and "reads L m i s b" and "\<not> fr_closed (fs_readers s ! i)"
    and "fillReader_turn (fs_tracker s) n (fs_readers s ! i) = Some ((c, Some EOF), r)"
  shows "int (length b) = Size m \<and> data_digest L (dl_Algorithm L (Digest m)) b = Digest m \<and> c = []"
proof -
  have "0 \<le> fr_off (fs_readers s ! i)" "ft_written (fs_tracker s) \<le> int (length (ft_data (fs_tracker s)))"
    using reads_prefix [OF assms(1,2)] fill_reachable_written [OF assms(1)] by auto
  then have "c = []" using fillReader_turn_reads [OF assms(4)] by simp
  with follower_reads_blob [OF assms] show ?thesis by blast
qed

theorem follower_exact_witness:
  "\<exists>s. reads example_lib example_meta 0 s ''hi'' \<and> int (length ''hi'') = Size example_meta
    \<and> data_digest example_lib (dl_Algorithm example_lib (Digest example_meta)) ''hi'' = Digest example_meta"
proof -
  obtain s r where s: "reads example_lib example_meta 0 s ''hi''" "\<not> fr_closed (fs_readers s ! 0)"
      "fillReader_turn (fs_tracker s) 1 (fs_readers s ! 0) = Some (([], Some EOF), r)"
    using fill_run [OF example_lib_ok example_meta_named] by (auto simp: example_meta_def)
  from s(1) follower_exact [OF example_lib_ok s] show ?thesis by blast
qed

text \<open>
  C36. The resources of a fill are released at most once, and exactly when the fill has ended and
  none of its readers is open; a release never happens under an open reader.
\<close>

theorem fill_released_once:
  assumes "digest_lib_ok L" "fill_reachable L m s"
  shows "ft_releases (fs_tracker s) =
    (if ft_ended (fs_tracker s) \<and> (\<forall>r \<in> set (fs_readers s). fr_closed r) then 1 else 0)"
proof -
  have inv: "fill_release_inv (fs_tracker s) (fs_readers s)"
    using fill_reachable_inv [OF assms] by (simp add: fill_inv_def)
  have "open_readers (fs_readers s) = 0 \<longleftrightarrow> (\<forall>r \<in> set (fs_readers s). fr_closed r)"
    by (auto simp: open_readers_def filter_empty_conv)
  with inv show ?thesis by (auto simp: fill_release_inv_def)
qed

theorem fill_released_once_witness:
  "\<exists>s. fill_reachable example_lib example_meta s \<and> ft_releases (fs_tracker s) = 1"
proof -
  let ?t = "\<lparr>ft_data = [], ft_size = 2, ft_want = Digest example_meta,
    ft_h = dl_Hash example_lib (dl_Algorithm example_lib (Digest example_meta)), ft_wake = 0,
    ft_written = 0, ft_state = None, ft_ended = False, ft_readers = 0, ft_releases = 0, ft_released = False\<rparr>"
  let ?s = "\<lparr>fs_tracker = ?t, fs_writer = Writer_idle, fs_readers = []\<rparr>"
  let ?s' = "?s\<lparr>fs_tracker := fill_abort None ?t\<rparr>"
  have "fill_reachable example_lib example_meta ?s"
    by (rule fill_reachable.start) (simp add: newFillTracker_def example_meta_def Let_def)
  moreover have "fill_step example_lib ?s ?s'" using fill_step.abort [of None example_lib ?s] by simp
  ultimately have r: "fill_reachable example_lib example_meta ?s'" by (rule fill_reachable.step)
  moreover have "ft_ended (fs_tracker ?s')" by (simp add: fill_abort_def fill_notify_def fill_maybeRelease_def)
  ultimately show ?thesis using fill_released_once [OF example_lib_ok r] by auto
qed

text \<open>
  A follower never waits in vain: it waits only while bytes are still expected, and every step
  that brings bytes or settles the fill replaces the channel that it waits on.
\<close>

theorem follower_woken:
  assumes "digest_lib_ok L" "fill_reachable L m s" "fillReader_turn (fs_tracker s) n r = None"
    and "fill_step L s s'" "fillReader_turn (fs_tracker s') n r \<noteq> None"
  shows "ft_state (fs_tracker s) = None \<and> ft_wake (fs_tracker s) < ft_wake (fs_tracker s')"
proof -
  have "ft_written (fs_tracker s') \<noteq> ft_written (fs_tracker s)
      \<or> ft_state (fs_tracker s') \<noteq> ft_state (fs_tracker s)"
  proof (rule ccontr)
    assume "\<not> ?thesis"
    then have "fillReader_turn (fs_tracker s') n r = None"
      using assms(3) fill_step_constant [OF assms(4)]
      by (auto simp: fillReader_turn_def Let_def split: if_splits prod.splits)
    with assms(5) show False by blast
  qed
  with waiting_expects [OF assms(1-3)] no_lost_wakeup [OF assms(4)] show ?thesis by blast
qed

theorem follower_woken_witness:
  "\<exists>s s'. fill_step example_lib s s' \<and> ft_state (fs_tracker s) = None
    \<and> ft_wake (fs_tracker s) < ft_wake (fs_tracker s')"
proof -
  let ?t = "\<lparr>ft_data = [], ft_size = 2, ft_want = Digest example_meta,
    ft_h = dl_Hash example_lib (dl_Algorithm example_lib (Digest example_meta)), ft_wake = 0,
    ft_written = 0, ft_state = None, ft_ended = False, ft_readers = 0, ft_releases = 0, ft_released = False\<rparr>"
  let ?s = "\<lparr>fs_tracker = ?t, fs_writer = Writer_idle, fs_readers = []\<rparr>"
  let ?s' = "?s\<lparr>fs_tracker := fill_abort None ?t\<rparr>"
  let ?r = "\<lparr>fr_off = 0, fr_closed = False\<rparr>"
  have r: "fill_reachable example_lib example_meta ?s"
    by (rule fill_reachable.start) (simp add: newFillTracker_def example_meta_def Let_def)
  have step: "fill_step example_lib ?s ?s'" using fill_step.abort [of None example_lib ?s] by simp
  have "fillReader_turn (fs_tracker ?s) 1 ?r = None" by (simp add: fillReader_turn_def)
  moreover have "fillReader_turn (fs_tracker ?s') 1 ?r \<noteq> None"
    by (simp add: fillReader_turn_def fill_abort_def fill_notify_def fill_maybeRelease_def Let_def)
  ultimately show ?thesis
    using step follower_woken [OF example_lib_ok r _ step, of 1 ?r] by blast
qed

end
