(* ===== verification/MemStore.thy ===== *)
theory MemStore
  imports Fill
begin

text \<open>
  \<open>mem.go\<close>: the in-memory stores. The objects that Go shares by pointer (blobs, entries, stage
  entries) live in heaps indexed by addresses, because an \<open>Info\<close> keeps the entry it was made
  from and \<open>Link\<close> compares entries by identity. Each definition here is a whole operation run
  alone; \<open>MemRace\<close> interleaves the atomic actions of the operations that share blobs.
  A \<open>MemStore\<close> is the identifier it was made for, since \<open>Use\<close> makes one per identifier.
\<close>

section \<open>State\<close>

text \<open>
  The count of references is Go's \<open>uint\<close>: subtracting one from zero wraps. It cannot reach its
  upper end, as each reference is an entry of its own in memory.
\<close>

record memBlob =
  mb_data :: bytes
  mb_refs :: nat

record memEntry =
  me_blob :: nat
  me_labels :: "labels option"
  me_added :: time

record memStageEntry =
  mse_lock :: bool
  mse_record :: stageRecord
  mse_data :: bytes

record memStores =
  ms_self :: nat
  ms_next :: nat
  ms_blob :: "nat \<Rightarrow> memBlob"
  ms_entry :: "nat \<Rightarrow> memEntry"
  ms_stageEntry :: "nat \<Rightarrow> memStageEntry"
  ms_bs :: "string \<rightharpoonup> nat"
  ms_ss :: "string list"
  ms_es :: "string \<Rightarrow> string \<rightharpoonup> nat"
  ms_stages :: "string \<rightharpoonup> nat"
  ms_stage :: StageConfig

definition zero_config :: StageConfig where
  "zero_config = \<lparr>TTL = 0, Retention = 0, OperationTimeout = 0, cfg_now = None\<rparr>"

definition zero_record :: stageRecord where
  "zero_record = \<lparr>Version = 0, ID = '''', Namespace = '''', Algorithm = '''', Offset = 0, Hash = [],
                  State = '''', ExpiresAt = 0, Commit = zero_meta, Result = zero_meta\<rparr>"

definition NewMemStores :: "nat \<Rightarrow> StageConfig list \<Rightarrow> memStores" where
  "NewMemStores self config =
     (let cfg = (case config of [] \<Rightarrow> zero_config | c # _ \<Rightarrow> c)
      in \<lparr>ms_self = self, ms_next = 0,
          ms_blob = (\<lambda>_. \<lparr>mb_data = [], mb_refs = 0\<rparr>),
          ms_entry = (\<lambda>_. \<lparr>me_blob = 0, me_labels = None, me_added = 0\<rparr>),
          ms_stageEntry = (\<lambda>_. \<lparr>mse_lock = False, mse_record = zero_record, mse_data = []\<rparr>),
          ms_bs = Map.empty, ms_ss = [], ms_es = (\<lambda>_. Map.empty), ms_stages = Map.empty,
          ms_stage = normalized cfg\<rparr>)"

definition MemStores_Use :: "string \<Rightarrow> (memStores, string) go" where
  "MemStores_Use ns s = Some (ns, s\<lparr>ms_ss := (if ns \<in> set (ms_ss s) then ms_ss s else ms_ss s @ [ns])\<rparr>)"

text \<open>Fresh objects, and writing through a pointer.\<close>

definition new_blob :: "memBlob \<Rightarrow> memStores \<Rightarrow> nat \<times> memStores" where
  "new_blob b s = (ms_next s, s\<lparr>ms_next := Suc (ms_next s), ms_blob := (ms_blob s)(ms_next s := b)\<rparr>)"

definition new_entry :: "memEntry \<Rightarrow> memStores \<Rightarrow> nat \<times> memStores" where
  "new_entry x s = (ms_next s, s\<lparr>ms_next := Suc (ms_next s), ms_entry := (ms_entry s)(ms_next s := x)\<rparr>)"

definition set_blob :: "nat \<Rightarrow> (memBlob \<Rightarrow> memBlob) \<Rightarrow> memStores \<Rightarrow> memStores" where
  "set_blob b f s = s\<lparr>ms_blob := (ms_blob s)(b := f (ms_blob s b))\<rparr>"

definition set_entry :: "nat \<Rightarrow> (memEntry \<Rightarrow> memEntry) \<Rightarrow> memStores \<Rightarrow> memStores" where
  "set_entry p f s = s\<lparr>ms_entry := (ms_entry s)(p := f (ms_entry s p))\<rparr>"

definition set_es :: "string \<Rightarrow> string \<Rightarrow> nat option \<Rightarrow> memStores \<Rightarrow> memStores" where
  "set_es ns d v s = s\<lparr>ms_es := (ms_es s)(ns := (ms_es s ns)(d := v))\<rparr>"

definition refs_inc :: "memBlob \<Rightarrow> memBlob" where
  "refs_inc b = b\<lparr>mb_refs := Suc (mb_refs b)\<rparr>"

definition refs_dec :: "memBlob \<Rightarrow> memBlob" where
  "refs_dec b = b\<lparr>mb_refs := (if mb_refs b = 0 then 2 ^ 64 - 1 else mb_refs b - 1)\<rparr>"

section \<open>Blobs\<close>

text \<open>
  The loop of \<open>publish\<close>: install the new blob, or take the one already there unless it is being
  deleted. Run alone, nothing changes between two turns.
\<close>

partial_function (option) publish_loop ::
  "string \<Rightarrow> nat \<Rightarrow> memStores \<Rightarrow> (nat \<times> memStores) option" where
  "publish_loop d b_new s =
     (case ms_bs s d of
        None \<Rightarrow> Some (b_new, s\<lparr>ms_bs := (ms_bs s)(d \<mapsto> b_new)\<rparr>)
      | Some b \<Rightarrow> if mb_refs (ms_blob s b) = 0 then publish_loop d b_new s else Some (b, s))"

definition MemStore_publish ::
  "env \<Rightarrow> string \<Rightarrow> meta \<Rightarrow> bytes \<Rightarrow> (memStores, meta \<times> error option) go" where
  "MemStore_publish e ns m data s =
     (let d = Digest m;
          (b_new, s) = new_blob \<lparr>mb_data = data, mb_refs = 0\<rparr> s
      in case publish_loop d b_new s of
           None \<Rightarrow> None
         | Some (b, s) \<Rightarrow>
             (let (p, s) = new_entry \<lparr>me_blob = b,
                    me_labels = (case Labels m of None \<Rightarrow> None | Some _ \<Rightarrow> Some (cloneLabels (Labels m))),
                    me_added = time_Now e 0\<rparr> s
              in if ms_es s ns d \<noteq> None then Some ((m, Some ErrAlreadyExists), s)
                 else
                   (let s = set_es ns d (Some p) s;
                        s = set_blob b refs_inc s
                    in Some ((Meta_Clone m, None), s))))"

definition MemStore_Add ::
  "'h digest_lib \<Rightarrow> string \<Rightarrow> env \<Rightarrow> meta \<Rightarrow> reader \<Rightarrow> (memStores, meta \<times> error option) go" where
  "MemStore_Add L ns e m r s =
     (let found = (if Digest m \<noteq> '''' then
                     (case Sanitize L (Digest m) of
                        Inl err \<Rightarrow> Inl (m, Some err)
                      | Inr d \<Rightarrow>
                          (let m = m\<lparr>Digest := d\<rparr>
                           in if ms_es s ns d \<noteq> None then Inl (m, Some ErrAlreadyExists)
                              else Inr (m, Digest_Algorithm L d)))
                   else Inr (m, Canonical))
      in case found of
           Inl res \<Rightarrow> Some (res, s)
         | Inr (m, algo) \<Rightarrow>
             (case io_Copy r of
                (data, Some err) \<Rightarrow> Some ((m, Some (Wrapped ''read'' err)), s)
              | (data, None) \<Rightarrow>
                  (let d = dl_FromBytes L algo data;
                       m = m\<lparr>Size := int (length data)\<rparr>
                   in if Digest m = '''' then MemStore_publish e ns (m\<lparr>Digest := d\<rparr>) data s
                      else if Digest m \<noteq> d then Some ((m, Some ErrDigestMismatch), s)
                      else MemStore_publish e ns m data s)))"

text \<open>The loader of an \<open>Info\<close> reads the entry it was made from, still in the store or not.\<close>

definition mem_labels :: "nat \<Rightarrow> env \<Rightarrow> (memStores, error + labels) go" where
  "mem_labels p e s =
     (case ctx_Err e 0 of
        Some err \<Rightarrow> Some (Inl err, s)
      | None \<Rightarrow>
          Some (Inr (case me_labels (ms_entry s p) of None \<Rightarrow> None | Some ls \<Rightarrow> ls), s))"

definition mem_info :: "string \<Rightarrow> nat \<Rightarrow> memStores \<Rightarrow> memStores blobInfo" where
  "mem_info d p s =
     NewInfo d (int (length (mb_data (ms_blob s (me_blob (ms_entry s p))))))
       (me_added (ms_entry s p)) (Some (mem_labels p))"

definition MemStore_open :: "string \<Rightarrow> string \<Rightarrow> (memStores, error + (nat \<times> memStores blobInfo)) go" where
  "MemStore_open ns d s =
     (case ms_es s ns d of
        None \<Rightarrow> Some (Inl ErrNotExist, s)
      | Some p \<Rightarrow> Some (Inr (p, mem_info d p s), s))"

definition MemStore_Stat ::
  "string \<Rightarrow> env \<Rightarrow> string \<Rightarrow> (memStores, error + memStores blobInfo) go" where
  "MemStore_Stat ns e d = chk (MemStore_open ns d) Inl (\<lambda>(_, info). ret (Inr info))"

definition MemStore_Open ::
  "string \<Rightarrow> env \<Rightarrow> string \<Rightarrow> (memStores, error + (bytes \<times> memStores blobInfo)) go" where
  "MemStore_Open ns e d =
     chk (MemStore_open ns d) Inl (\<lambda>(p, info).
       bind (gets (\<lambda>s. mb_data (ms_blob s (me_blob (ms_entry s p))))) (\<lambda>data.
         ret (Inr (data, info))))"

definition MemStore_Label :: "string \<Rightarrow> env \<Rightarrow> string \<Rightarrow> labels \<Rightarrow> (memStores, error option) go" where
  "MemStore_Label ns e d ls s =
     (case ms_es s ns d of
        None \<Rightarrow> Some (Some ErrNotExist, s)
      | Some p \<Rightarrow>
          (let s = set_entry p (\<lambda>x. x\<lparr>me_labels := Some (cloneLabels ls)\<rparr>) s;
               s = set_entry p (\<lambda>x. x\<lparr>me_added := time_Now e 0\<rparr>) s
           in Some (None, s)))"

definition MemStore_Erase :: "string \<Rightarrow> env \<Rightarrow> string \<Rightarrow> (memStores, error option) go" where
  "MemStore_Erase ns e d s =
     (case ms_es s ns d of
        None \<Rightarrow> Some (None, s)
      | Some p \<Rightarrow>
          (let s = set_es ns d None s;
               b = me_blob (ms_entry s p);
               s = set_blob b refs_dec s
           in if mb_refs (ms_blob s b) > 0 then Some (None, s)
              else Some (None, s\<lparr>ms_bs := (ms_bs s)(d := None)\<rparr>)))"

text \<open>What \<open>unwrapLinkSource(from)\<close> is: a store of the memory backend, with its owner, or not.\<close>

datatype mem_source = Other_source | Mem_nil | Mem_source nat string

definition MemStore_Link ::
  "'h digest_lib \<Rightarrow> string \<Rightarrow> env \<Rightarrow> string \<Rightarrow> mem_source \<Rightarrow> (memStores, meta \<times> error option) go" where
  "MemStore_Link L ns e d from s =
     (case ctx_Err e 0 of
        Some err \<Rightarrow> Some ((zero_meta, Some err), s)
      | None \<Rightarrow>
     (case Sanitize L d of
        Inl err \<Rightarrow> Some ((zero_meta, Some err), s)
      | Inr d \<Rightarrow>
     (let m = zero_meta\<lparr>Digest := d\<rparr>
      in case from of
        Other_source \<Rightarrow> Some ((m, Some ErrIncompatibleStore), s)
      | Mem_nil \<Rightarrow> Some ((m, Some ErrIncompatibleStore), s)
      | Mem_source g source \<Rightarrow>
          if g \<noteq> ms_self s then Some ((m, Some ErrIncompatibleStore), s)
          else
            (case ms_es s source d of
               None \<Rightarrow> Some ((m, Some ErrNotExist), s)
             | Some entry \<Rightarrow>
                 (let b = me_blob (ms_entry s entry)
                  in if ms_es s source d \<noteq> Some entry then Some ((m, Some ErrNotExist), s)
                     else if ms_es s ns d \<noteq> None then Some ((m, Some ErrAlreadyExists), s)
                     else
                       (let m = m\<lparr>Size := int (length (mb_data (ms_blob s b)))\<rparr>;
                            m = (case me_labels (ms_entry s entry) of
                                   None \<Rightarrow> m
                                 | Some ls \<Rightarrow> m\<lparr>Labels := cloneLabels ls\<rparr>);
                            (p, s) = new_entry \<lparr>me_blob = b,
                               me_labels = (case Labels m of None \<Rightarrow> None
                                            | Some _ \<Rightarrow> Some (cloneLabels (Labels m))),
                               me_added = time_Now e 0\<rparr> s
                        in case ctx_Err e 1 of
                             Some err \<Rightarrow> Some ((m, Some err), s)
                           | None \<Rightarrow>
                               if ms_es s ns d \<noteq> None
                               then Some ((zero_meta\<lparr>Digest := d\<rparr>, Some ErrAlreadyExists), s)
                               else
                                 (let s = set_es ns d (Some p) s;
                                      s = set_blob b refs_inc s
                                  in Some ((m, None), s))))))))"

section \<open>Fills\<close>

text \<open>
  \<open>memFill\<close> is its own \<open>io.ReaderAt\<close>: its \<open>data\<close> is the tracker's \<open>ft_data\<close>. \<open>Fill\<close> makes that slice
  with the size as its capacity before \<open>newFillTracker\<close> checks the size: a negative one panics, so
  that \<open>Fill\<close> does not return.
\<close>

record 'h memFill =
  mf_s :: string
  mf_m :: meta
  mf_t :: "'h fillTracker"

definition MemStore_Fill ::
  "'h digest_lib \<Rightarrow> string \<Rightarrow> env \<Rightarrow> meta \<Rightarrow> (memStores, error + 'h memFill) go" where
  "MemStore_Fill L ns e m s =
     (case Sanitize L (Digest m) of
        Inl err \<Rightarrow> Some (Inl err, s)
      | Inr d \<Rightarrow>
          (let m = m\<lparr>Digest := d\<rparr>
           in if ms_es s ns d \<noteq> None then Some (Inl ErrAlreadyExists, s)
              else if Size m < 0 then None
              else case newFillTracker L m of
                     Inl err \<Rightarrow> Some (Inl err, s)
                   | Inr t \<Rightarrow> Some (Inr \<lparr>mf_s = ns, mf_m = m, mf_t = t\<rparr>, s)))"

definition memFill_Write ::
  "'h digest_lib \<Rightarrow> bytes \<Rightarrow> 'h memFill \<Rightarrow> (nat \<times> error option) \<times> 'h memFill" where
  "memFill_Write L p f =
     (let (res, t) = fill_write L p (\<lambda>p. (length p, None)) (mf_t f) in (res, f\<lparr>mf_t := t\<rparr>))"

definition memFill_Follow :: "'h memFill \<Rightarrow> (error + fillReader) \<times> 'h memFill" where
  "memFill_Follow f = (let (res, t) = fill_follow (mf_t f) in (res, f\<lparr>mf_t := t\<rparr>))"

definition memFill_Commit ::
  "env \<Rightarrow> 'h memFill \<Rightarrow> (memStores, (meta \<times> error option) \<times> 'h memFill) go" where
  "memFill_Commit e f s =
     (let ended = f\<lparr>mf_t := fill_end (mf_t f)\<rparr>
      in case fill_complete (mf_t f) of
           Some err \<Rightarrow> Some (((mf_m f, Some err), ended), s)
         | None \<Rightarrow>
             (let data = ft_data (mf_t f);
                  m = (mf_m f)\<lparr>Size := int (length data)\<rparr>
              in case MemStore_publish e (mf_s f) m data s of
                   None \<Rightarrow> None
                 | Some (res, s) \<Rightarrow> Some ((res, ended), s)))"

definition memFill_Abort :: "error option \<Rightarrow> 'h memFill \<Rightarrow> 'h memFill" where
  "memFill_Abort err f = f\<lparr>mf_t := fill_abort err (mf_t f)\<rparr>"

section \<open>Listings\<close>

text \<open>
  An iterator hands items to its consumer; \<open>yield k\<close> is what the consumer answers to the \<open>k\<close>-th
  of them. \<open>order\<close> is the order in which \<open>sync.Map.Range\<close> visits the keys. The result is the
  items handed over.
\<close>

fun walk_range ::
  "env \<Rightarrow> (nat \<Rightarrow> bool) \<Rightarrow> memStores \<Rightarrow> nat \<Rightarrow> (string \<times> nat) list
   \<Rightarrow> (error + memStores blobInfo) list" where
  "walk_range e yield s k [] = []"
| "walk_range e yield s k ((key, entry) # rest) =
     (case ctx_Err e 0 of
        Some err \<Rightarrow> [Inl err]
      | None \<Rightarrow>
          Inr (mem_info key entry s) #
          (if \<not> yield k then []
           else
             (case ctx_Err e 1 of
                Some err \<Rightarrow> [Inl err]
              | None \<Rightarrow> walk_range (env_after 2 e) yield s (Suc k) rest)))"

definition MemStore_Walk ::
  "env \<Rightarrow> (nat \<Rightarrow> bool) \<Rightarrow> (string \<times> nat) list \<Rightarrow> memStores \<Rightarrow> (error + memStores blobInfo) list" where
  "MemStore_Walk e yield order s =
     (case ctx_Err e 0 of
        Some err \<Rightarrow> [Inl err]
      | None \<Rightarrow> walk_range (env_after 1 e) yield s 0 order)"

text \<open>\<open>nonempty\<close> is what the inner \<open>Range\<close> finds.\<close>

fun namespaces_range ::
  "env \<Rightarrow> (nat \<Rightarrow> bool) \<Rightarrow> (string \<Rightarrow> bool) \<Rightarrow> nat \<Rightarrow> string list \<Rightarrow> (error + string) list" where
  "namespaces_range e yield nonempty k [] = []"
| "namespaces_range e yield nonempty k (key # rest) =
     (case ctx_Err e 0 of
        Some err \<Rightarrow> [Inl err]
      | None \<Rightarrow>
          if nonempty key then
            Inr key #
            (if \<not> yield k then []
             else
               (case ctx_Err e 1 of
                  Some err \<Rightarrow> [Inl err]
                | None \<Rightarrow> namespaces_range (env_after 2 e) yield nonempty (Suc k) rest))
          else
            (case ctx_Err e 1 of
               Some err \<Rightarrow> [Inl err]
             | None \<Rightarrow> namespaces_range (env_after 2 e) yield nonempty k rest))"

definition MemStores_Namespaces ::
  "env \<Rightarrow> (nat \<Rightarrow> bool) \<Rightarrow> string list \<Rightarrow> memStores \<Rightarrow> (error + string) list" where
  "MemStores_Namespaces e yield order s =
     (case ctx_Err e 0 of
        Some err \<Rightarrow> [Inl err]
      | None \<Rightarrow> namespaces_range (env_after 1 e) yield (\<lambda>ns. ms_es s ns \<noteq> Map.empty) 0 order)"

definition MemStores_Reclaim :: "env \<Rightarrow> duration \<Rightarrow> (memStores, int \<times> error option) go" where
  "MemStores_Reclaim e grace s =
     (if grace \<le> 0 then Some ((0, Some errNoGrace), s) else Some ((0, ctx_Err e 0), s))"

section \<open>Stages\<close>

text \<open>
  A stage's methods bound their context by \<open>OperationTimeout\<close>; the environment of a method is
  the bounded context. A \<open>memStage\<close> is the store's identifier with the stage's.
\<close>

definition set_stage :: "nat \<Rightarrow> (memStageEntry \<Rightarrow> memStageEntry) \<Rightarrow> memStores \<Rightarrow> memStores" where
  "set_stage p f s = s\<lparr>ms_stageEntry := (ms_stageEntry s)(p := f (ms_stageEntry s p))\<rparr>"

definition MemStore_Begin ::
  "'h digest_lib \<Rightarrow> error + bytes \<Rightarrow> string \<Rightarrow> env \<Rightarrow> string \<Rightarrow> (memStores, error + string) go" where
  "MemStore_Begin L rnd ns e algo s =
     (case ctx_Err e 0 of
        Some err \<Rightarrow> Some (Inl err, s)
      | None \<Rightarrow>
          (case newStageRecord L rnd ns algo (ms_stage s) e of
             Inl err \<Rightarrow> Some (Inl err, s)
           | Inr r \<Rightarrow>
               (let p = ms_next s;
                    s = s\<lparr>ms_next := Suc p, ms_stageEntry :=
                          (ms_stageEntry s)(p := \<lparr>mse_lock = False, mse_record = r, mse_data = []\<rparr>)\<rparr>
                in case ms_stages s (ID r) of
                     Some _ \<Rightarrow> Some (Inl ErrStageConflict, s)
                   | None \<Rightarrow> Some (Inr (ID r), s\<lparr>ms_stages := (ms_stages s)(ID r \<mapsto> p)\<rparr>))))"

text \<open>
  \<open>acquire\<close> returns the stage's entry with its lock held. Its second look is the \<open>select\<close>: an
  error says that the branch of the context was taken; if neither branch is ever ready, the
  call does not return.
\<close>

definition acquire ::
  "'h digest_lib \<Rightarrow> string \<Rightarrow> string \<Rightarrow> env \<Rightarrow> bool \<Rightarrow> (memStores, error + nat) go" where
  "acquire L ns sid e allowExpired s =
     (case ctx_Err e 0 of
        Some err \<Rightarrow> Some (Inl err, s)
      | None \<Rightarrow>
     if \<not> validStageID sid then Some (Inl ErrNotExist, s)
     else
     (case ms_stages s sid of
        None \<Rightarrow> Some (Inl ErrNotExist, s)
      | Some p \<Rightarrow>
     (case ctx_Err e 1 of
        Some err \<Rightarrow> Some (Inl err, s)
      | None \<Rightarrow>
     if mse_lock (ms_stageEntry s p) then None
     else
       (let s = set_stage p (\<lambda>x. x\<lparr>mse_lock := True\<rparr>) s;
            release = set_stage p (\<lambda>x. x\<lparr>mse_lock := False\<rparr>);
            r = mse_record (ms_stageEntry s p)
        in if ms_stages s sid \<noteq> Some p \<or> Namespace r \<noteq> namespaceSegment ns
           then Some (Inl ErrNotExist, release s)
           else
             (case ctx_Err e 2 of
                Some err \<Rightarrow> Some (Inl err, release s)
              | None \<Rightarrow>
                  (case validate L r of
                     Some err \<Rightarrow> Some (Inl err, release s)
                   | None \<Rightarrow>
                       if State r \<noteq> StageCommitting \<and> expired r (cfg_clock (ms_stage s) e 0)
                          \<and> \<not> allowExpired
                       then Some (Inl ErrStageExpired, release s)
                       else Some (Inr p, s)))))))"

definition release_stage :: "nat \<Rightarrow> (memStores, unit) go" where
  "release_stage p = modify (set_stage p (\<lambda>x. x\<lparr>mse_lock := False\<rparr>))"

definition memStage_Stat ::
  "'h digest_lib \<Rightarrow> string \<Rightarrow> string \<Rightarrow> env \<Rightarrow> (memStores, error + StageInfo) go" where
  "memStage_Stat L ns sid e =
     chk (acquire L ns sid e False) Inl (\<lambda>p.
       deferred (gets (\<lambda>s. Inr (stage_info (mse_record (ms_stageEntry s p))))) (\<lambda>_. release_stage p))"

definition MemStore_Resume ::
  "'h digest_lib \<Rightarrow> string \<Rightarrow> env \<Rightarrow> string \<Rightarrow> (memStores, error + string) go" where
  "MemStore_Resume L ns e sid = chk (memStage_Stat L ns sid e) Inl (\<lambda>_. ret (Inr sid))"

definition append_body ::
  "'h digest_lib \<Rightarrow> nat \<Rightarrow> env \<Rightarrow> int \<Rightarrow> reader \<Rightarrow> (memStores, int \<times> error option) go" where
  "append_body L p e offset r s =
     (let x = ms_stageEntry s p; rec = mse_record x; current = Offset rec
      in if State rec \<noteq> StageActive then Some ((current, Some ErrStageClosed), s)
         else if offset \<noteq> current then Some ((current, Some ErrOffsetMismatch), s)
         else
           (case stageHashRestore L (Algorithm rec) (Hash rec) of
              Inl err \<Rightarrow> Some ((current, Some err), s)
            | Inr h \<Rightarrow>
                (case io_Copy (stageContextReader e r) of
                   (incoming, Some err) \<Rightarrow> Some ((current, Some err), s)
                 | (incoming, None) \<Rightarrow>
                     (case ctx_Err e (2 * (length r + 1)) of
                        Some err \<Rightarrow> Some ((current, Some err), s)
                      | None \<Rightarrow>
                          (case stageHashState L (dl_Write L h incoming) of
                             Inl err \<Rightarrow> Some ((current, Some err), s)
                           | Inr checkpoint \<Rightarrow>
                               (let data = mse_data x @ incoming;
                                    rec = rec\<lparr>Offset := int (length data), Hash := checkpoint,
                                      ExpiresAt := cfg_clock (ms_stage s) e 0
                                                   + TTL (normalized (ms_stage s))\<rparr>;
                                    s = set_stage p (\<lambda>x. x\<lparr>mse_record := rec, mse_data := data\<rparr>) s
                                in Some ((Offset rec, None), s)))))))"

definition memStage_Append ::
  "'h digest_lib \<Rightarrow> string \<Rightarrow> string \<Rightarrow> env \<Rightarrow> int \<Rightarrow> reader \<Rightarrow> (memStores, int \<times> error option) go" where
  "memStage_Append L ns sid e offset r =
     chk (acquire L ns sid e False) (\<lambda>err. (0, Some err)) (\<lambda>p.
       deferred (append_body L p (env_after 3 e) offset r) (\<lambda>_. release_stage p))"

text \<open>The result of the publication: an entry already there is as good, and is described.\<close>

definition complete_publish ::
  "string \<Rightarrow> env \<Rightarrow> meta \<Rightarrow> bytes \<Rightarrow> (memStores, error + meta) go" where
  "complete_publish ns e cm data =
     bind (MemStore_publish e ns cm data) (\<lambda>(result, err).
       case err of
         None \<Rightarrow> ret (Inr result)
       | Some err \<Rightarrow>
           if errors_Is err ErrAlreadyExists then
             chk (MemStore_Stat ns e (Digest cm)) Inl (\<lambda>info.
               with_info info (infoMeta (env_after 1 e)))
           else ret (Inl err))"

definition memStage_complete ::
  "string \<Rightarrow> nat \<Rightarrow> env \<Rightarrow> (memStores, meta \<times> error option) go" where
  "memStage_complete ns p e s =
     (case ctx_Err e 0 of
        Some err \<Rightarrow> Some ((zero_meta, Some err), s)
      | None \<Rightarrow>
          (let x = ms_stageEntry s p
           in chk (complete_publish ns e (Commit (mse_record x)) (mse_data x))
                (\<lambda>err. (zero_meta, Some err))
                (\<lambda>result s.
                   let expiry = cfg_clock (ms_stage s) e 1 + Retention (normalized (ms_stage s));
                       s = set_stage p (\<lambda>x. x\<lparr>mse_record := (mse_record x)
                             \<lparr>Result := Meta_Clone result, State := StageCommitted,
                              ExpiresAt := expiry\<rparr>, mse_data := []\<rparr>) s
                   in Some ((Meta_Clone result, None), s))
                s))"

definition commit_body ::
  "'h digest_lib \<Rightarrow> string \<Rightarrow> nat \<Rightarrow> env \<Rightarrow> meta \<Rightarrow> (memStores, meta \<times> error option) go" where
  "commit_body L ns p e m s =
     (let rec = mse_record (ms_stageEntry s p)
      in if State rec = StageAborted then Some ((zero_meta, Some ErrStageClosed), s)
         else
           (case prepareCommit L rec m of
              Inl err \<Rightarrow> Some ((zero_meta, Some err), s)
            | Inr prepared \<Rightarrow>
                if State rec = StageCommitted then
                  (if \<not> stageCommitMatches prepared (Commit rec)
                   then Some ((zero_meta, Some ErrStageConflict), s)
                   else Some ((Meta_Clone (Result rec), None), s))
                else if State rec = StageCommitting then
                  (if \<not> stageCommitMatches prepared (Commit rec)
                   then Some ((zero_meta, Some ErrStageConflict), s)
                   else memStage_complete ns p e s)
                else if State rec = StageActive then
                  memStage_complete ns p e
                    (set_stage p (\<lambda>x. x\<lparr>mse_record := rec\<lparr>State := StageCommitting, Commit := prepared\<rparr>\<rparr>) s)
                else memStage_complete ns p e s))"

definition memStage_Commit ::
  "'h digest_lib \<Rightarrow> string \<Rightarrow> string \<Rightarrow> env \<Rightarrow> meta \<Rightarrow> (memStores, meta \<times> error option) go" where
  "memStage_Commit L ns sid e m =
     chk (acquire L ns sid e False) (\<lambda>err. (zero_meta, Some err)) (\<lambda>p.
       deferred (commit_body L ns p (env_after 3 e) m) (\<lambda>_. release_stage p))"

definition abort_body :: "string \<Rightarrow> nat \<Rightarrow> env \<Rightarrow> (memStores, error option) go" where
  "abort_body ns p e s =
     (let rec = mse_record (ms_stageEntry s p)
      in if State rec = StageCommitted \<or> State rec = StageAborted then Some (None, s)
         else if State rec = StageCommitting then
           bind (memStage_complete ns p e) (\<lambda>(_, err). ret err) s
         else
           Some (None, set_stage p (\<lambda>x. x\<lparr>mse_record := rec\<lparr>State := StageAborted,
                   ExpiresAt := cfg_clock (ms_stage s) e 0 + Retention (normalized (ms_stage s))\<rparr>,
                   mse_data := []\<rparr>) s))"

definition memStage_Abort ::
  "'h digest_lib \<Rightarrow> string \<Rightarrow> string \<Rightarrow> env \<Rightarrow> (memStores, error option) go" where
  "memStage_Abort L ns sid e =
     bind (acquire L ns sid e True) (\<lambda>r.
       case r of
         Inl err \<Rightarrow> ret (if errors_Is err ErrNotExist then None else Some err)
       | Inr p \<Rightarrow> deferred (abort_body ns p (env_after 3 e)) (\<lambda>_. release_stage p))"

text \<open>
  \<open>PruneStages\<close> visits the keys in the order of \<open>Range\<close>. One visit: what it adds to the joined
  error and to the count of removed stages, or, where the visit must stop, its error alone.
\<close>

definition prune_expired :: "string \<Rightarrow> nat \<Rightarrow> env \<Rightarrow> error option \<Rightarrow> int
    \<Rightarrow> (memStores, error option \<times> int) go" where
  "prune_expired key p e result removed s =
     (if expired (mse_record (ms_stageEntry s p)) (cfg_clock (ms_stage s) e 2) then
        (let s = s\<lparr>ms_stages := (ms_stages s)(key := None)\<rparr>;
             s = set_stage p (\<lambda>x. x\<lparr>mse_data := []\<rparr>) s
         in Some ((result, removed + 1), s))
      else Some ((result, removed), s))"

definition prune_visit :: "string \<Rightarrow> nat \<Rightarrow> env \<Rightarrow> error option \<Rightarrow> int
    \<Rightarrow> (memStores, error option \<times> int) go" where
  "prune_visit key p e result removed s =
     (if ms_stages s key \<noteq> Some p then Some ((result, removed), s)
      else
        (let rec = mse_record (ms_stageEntry s p)
         in if State rec = StageCommitting then
              (case namespaceID (Namespace rec) of
                 Inl _ \<Rightarrow> Some ((errors_Join [result, Some ErrStageFormat], removed), s)
               | Inr namespace \<Rightarrow>
                   bind (MemStores_Use namespace) (\<lambda>ns.
                     bind (memStage_complete ns p e) (\<lambda>(_, err).
                       case err of
                         Some err \<Rightarrow> ret (errors_Join [result, Some err], removed)
                       | None \<Rightarrow> prune_expired key p e result removed)) s)
            else prune_expired key p e result removed s))"

fun prune_range :: "string list \<Rightarrow> env \<Rightarrow> error option \<Rightarrow> int \<Rightarrow> (memStores, error option \<times> int) go" where
  "prune_range [] e result removed s = Some ((result, removed), s)"
| "prune_range (key # rest) e result removed s =
     (case ms_stages s key of
        None \<Rightarrow> prune_range rest e result removed s
      | Some p \<Rightarrow>
          (case ctx_Err e 0 of
             Some err \<Rightarrow> Some ((Some err, removed), s)
           | None \<Rightarrow>
               if mse_lock (ms_stageEntry s p)
               then prune_range rest (env_after 1 e) result removed s
               else
                 (case deferred (prune_visit key p (env_after 1 e) result removed)
                         (\<lambda>_. release_stage p) (set_stage p (\<lambda>x. x\<lparr>mse_lock := True\<rparr>) s) of
                    None \<Rightarrow> None
                  | Some ((result, removed), s) \<Rightarrow>
                      prune_range rest (env_after 5 e) result removed s)))"

definition PruneStages :: "string list \<Rightarrow> env \<Rightarrow> (memStores, int \<times> error option) go" where
  "PruneStages order e =
     bind (prune_range order e None 0) (\<lambda>(result, removed).
       case ctx_Err e (5 * length order) of
         Some err \<Rightarrow> ret (removed, errors_Join [result, Some err])
       | None \<Rightarrow> ret (removed, result))"

end
