(* ===== verification/MemSpec.thy ===== *)
theory MemSpec
  imports MemStore
begin

text \<open>
  What \<open>mem.go\<close> guarantees: the invariant of its pool of shared blobs and of its stages, and the
  effect of each operation on what the stores show (\<open>mem_view\<close>).
\<close>

section \<open>What the stores show\<close>

type_synonym blob_view = "bytes \<times> labels \<times> time"

definition entry_labels :: "memEntry \<Rightarrow> labels" where
  "entry_labels x = (case me_labels x of None \<Rightarrow> None | Some ls \<Rightarrow> ls)"

definition entry_view :: "memStores \<Rightarrow> nat \<Rightarrow> blob_view" where
  "entry_view s p =
     (mb_data (ms_blob s (me_blob (ms_entry s p))), entry_labels (ms_entry s p), me_added (ms_entry s p))"

definition mem_view :: "memStores \<Rightarrow> string \<Rightarrow> string \<Rightarrow> blob_view option" where
  "mem_view s ns d = map_option (entry_view s) (ms_es s ns d)"

text \<open>
  The abstract effect of adding \<open>data\<close> under \<open>d\<close>: the bytes that appear are the ones the pool
  already has for the digest, and \<open>data\<close> when it has none.
\<close>

definition puts ::
  "'h digest_lib \<Rightarrow> (string \<Rightarrow> string \<Rightarrow> blob_view option) \<Rightarrow> string \<Rightarrow> string \<Rightarrow> bytes \<Rightarrow> labels \<Rightarrow> time
   \<Rightarrow> (string \<Rightarrow> string \<Rightarrow> blob_view option) \<Rightarrow> bool" where
  "puts L v ns d data ls now v' \<longleftrightarrow>
     (\<exists>x. v' = v(ns := (v ns)(d \<mapsto> (x, ls, now))) \<and> names_bytes L d x
        \<and> (\<forall>ns' y. v ns' d = Some y \<longrightarrow> x = fst y)
        \<and> ((\<forall>ns'. v ns' d = None) \<longrightarrow> x = data))"

section \<open>The invariant of the pool\<close>

definition holders :: "memStores \<Rightarrow> string \<Rightarrow> string set" where
  "holders s d = {ns. ms_es s ns d \<noteq> None}"

definition mem_inv :: "'h digest_lib \<Rightarrow> memStores \<Rightarrow> bool" where
  "mem_inv L s \<longleftrightarrow>
     (\<forall>ns d p. ms_es s ns d = Some p \<longrightarrow>
        p < ms_next s \<and> ms_bs s d = Some (me_blob (ms_entry s p)))
     \<and> (\<forall>ns d ns' d' p. ms_es s ns d = Some p \<longrightarrow> ms_es s ns' d' = Some p \<longrightarrow> ns = ns' \<and> d = d')
     \<and> (\<forall>d b. ms_bs s d = Some b \<longrightarrow>
          b < ms_next s \<and> finite (holders s d) \<and> holders s d \<noteq> {}
          \<and> mb_refs (ms_blob s b) = card (holders s d)
          \<and> names_bytes L d (mb_data (ms_blob s b)))
     \<and> (\<forall>d d' b. ms_bs s d = Some b \<longrightarrow> ms_bs s d' = Some b \<longrightarrow> d = d')"

text \<open>What the operations on blobs leave alone: stages, and the entries that already exist.\<close>

definition blob_frame :: "memStores \<Rightarrow> memStores \<Rightarrow> bool" where
  "blob_frame s s' \<longleftrightarrow>
     ms_stages s' = ms_stages s \<and> ms_stageEntry s' = ms_stageEntry s \<and> ms_stage s' = ms_stage s
     \<and> ms_ss s' = ms_ss s \<and> ms_self s' = ms_self s \<and> ms_next s \<le> ms_next s'"

lemma blob_frame_refl [simp]: "blob_frame s s"
  by (simp add: blob_frame_def)

lemma blob_frame_trans: "blob_frame s s' \<Longrightarrow> blob_frame s' s'' \<Longrightarrow> blob_frame s s''"
  by (simp add: blob_frame_def)

lemmas mem_setters = new_blob_def new_entry_def set_blob_def set_entry_def set_es_def

lemma mem_inv_entry:
  "mem_inv L s \<Longrightarrow> ms_es s ns d = Some p \<Longrightarrow>
     p < ms_next s \<and> ms_bs s d = Some (me_blob (ms_entry s p))"
  unfolding mem_inv_def by blast

lemma mem_inv_entry_inj:
  "mem_inv L s \<Longrightarrow> ms_es s ns d = Some p \<Longrightarrow> ms_es s ns' d' = Some p \<Longrightarrow> ns = ns' \<and> d = d'"
  unfolding mem_inv_def by blast

lemma mem_inv_blob:
  "mem_inv L s \<Longrightarrow> ms_bs s d = Some b \<Longrightarrow>
     b < ms_next s \<and> finite (holders s d) \<and> holders s d \<noteq> {}
     \<and> mb_refs (ms_blob s b) = card (holders s d) \<and> names_bytes L d (mb_data (ms_blob s b))"
  unfolding mem_inv_def by blast

lemma mem_inv_blob_inj: "mem_inv L s \<Longrightarrow> ms_bs s d = Some b \<Longrightarrow> ms_bs s d' = Some b \<Longrightarrow> d = d'"
  unfolding mem_inv_def by blast

lemma mem_inv_refs_pos: "mem_inv L s \<Longrightarrow> ms_bs s d = Some b \<Longrightarrow> 0 < mb_refs (ms_blob s b)"
  using mem_inv_blob [of L s d b] by (auto simp: card_gt_0_iff)

lemma mem_inv_not_held: "mem_inv L s \<Longrightarrow> ms_bs s d = None \<Longrightarrow> ms_es s ns d = None"
  by (cases "ms_es s ns d") (auto dest: mem_inv_entry)

lemma mem_inv_view_bytes:
  "mem_inv L s \<Longrightarrow> mem_view s ns d = Some v \<Longrightarrow>
     \<exists>b. ms_bs s d = Some b \<and> fst v = mb_data (ms_blob s b)"
  using mem_inv_entry by (fastforce simp: mem_view_def entry_view_def)

lemma NewMemStores_inv: "mem_inv L (NewMemStores g c)"
  by (simp add: mem_inv_def NewMemStores_def Let_def)

text \<open>Fresh objects change nothing that is shown.\<close>

lemma mem_inv_new_blob: "mem_inv L s \<Longrightarrow> mem_inv L (snd (new_blob b s))"
  unfolding mem_inv_def holders_def new_blob_def
  by (auto simp: less_Suc_eq)

lemma mem_inv_new_entry: "mem_inv L s \<Longrightarrow> mem_inv L (snd (new_entry x s))"
  unfolding mem_inv_def holders_def new_entry_def
  by (auto simp: less_Suc_eq)

lemma mem_view_new_blob: "mem_inv L s \<Longrightarrow> mem_view (snd (new_blob b s)) = mem_view s"
  using mem_inv_entry mem_inv_blob
  by (fastforce simp: mem_view_def entry_view_def new_blob_def fun_eq_iff intro!: option.map_cong0)

lemma mem_view_new_entry: "mem_inv L s \<Longrightarrow> mem_view (snd (new_entry b s)) = mem_view s"
  using mem_inv_entry
  by (fastforce simp: mem_view_def entry_view_def new_entry_def fun_eq_iff intro!: option.map_cong0)

section \<open>Publishing\<close>

text \<open>
  A blob that \<open>publish_loop\<close> chose: the pool's own, or a fresh one. Entering it for a store keeps
  the invariant.
\<close>

definition installable :: "'h digest_lib \<Rightarrow> memStores \<Rightarrow> string \<Rightarrow> nat \<Rightarrow> bool" where
  "installable L s d b \<longleftrightarrow>
     ms_bs s d = Some b
     \<or> (ms_bs s d = None \<and> b < ms_next s \<and> (\<forall>d'. ms_bs s d' \<noteq> Some b)
        \<and> mb_refs (ms_blob s b) = 0 \<and> names_bytes L d (mb_data (ms_blob s b)))"

definition install :: "string \<Rightarrow> string \<Rightarrow> nat \<Rightarrow> nat \<Rightarrow> memStores \<Rightarrow> memStores" where
  "install ns d b p s =
     set_blob b refs_inc (set_es ns d (Some p) (s\<lparr>ms_bs := (ms_bs s)(d \<mapsto> b)\<rparr>))"

lemma holders_install:
  "holders (install ns d b p s) d' = (if d' = d then insert ns (holders s d) else holders s d')"
  by (auto simp: holders_def install_def mem_setters)

lemma install_refs:
  assumes "mem_inv L s" "installable L s d b" "ms_es s ns d = None"
  shows "Suc (mb_refs (ms_blob s b)) = card (insert ns (holders s d)) \<and> finite (holders s d)"
proof -
  have "ns \<notin> holders s d" using assms(3) by (simp add: holders_def)
  moreover have "mb_refs (ms_blob s b) = card (holders s d) \<and> finite (holders s d)"
    using assms(2) mem_inv_blob [OF assms(1)] mem_inv_not_held [OF assms(1), of d]
    by (auto simp: installable_def holders_def)
  ultimately show ?thesis by simp
qed

lemma install_inv:
  assumes inv: "mem_inv L s" and b: "installable L s d b" and free: "ms_es s ns d = None"
    and p: "p < ms_next s" "\<forall>ns' d'. ms_es s ns' d' \<noteq> Some p" "me_blob (ms_entry s p) = b"
  shows "mem_inv L (install ns d b p s)"
proof -
  note refs = install_refs [OF inv b free]
  have named: "names_bytes L d (mb_data (ms_blob s b))" "b < ms_next s"
    using b mem_inv_blob [OF inv] by (auto simp: installable_def)
  have only: "d' = d" if "ms_bs s d' = Some b" for d'
    using b that mem_inv_blob_inj [OF inv] by (auto simp: installable_def)
  have es: "ms_es (install ns d b p s) ns' d' = (if ns' = ns \<and> d' = d then Some p else ms_es s ns' d')"
    and bs: "ms_bs (install ns d b p s) = (ms_bs s)(d \<mapsto> b)"
    and nx: "ms_next (install ns d b p s) = ms_next s" "ms_entry (install ns d b p s) = ms_entry s"
    and bl: "ms_blob (install ns d b p s) b' =
               (if b' = b then refs_inc (ms_blob s b) else ms_blob s b')" for ns' d' b'
    by (auto simp: install_def mem_setters)
  have held: "ms_bs s d = Some b" if "ms_es s ns' d = Some q" for ns' q
    using that mem_inv_entry [OF inv that] b by (auto simp: installable_def)
  show ?thesis
    unfolding mem_inv_def es bs nx holders_install bl
  proof (intro conjI allI impI, goal_cases)
    case (1 ns' d' q)
    then show ?case using p mem_inv_entry [OF inv] by (auto split: if_splits)
  next
    case (2 ns' d' q)
    then show ?case using p mem_inv_entry [OF inv, of ns' d' q] held [of ns' q]
      by (auto split: if_splits)
  next
    case (3 ns' d' ns'' d'' q)
    then show ?case using p(2) mem_inv_entry_inj [OF inv] by (auto split: if_splits)
  next
    case (4 ns' d' ns'' d'' q)
    then show ?case using p(2) mem_inv_entry_inj [OF inv] by (auto split: if_splits)
  qed (use named refs only mem_inv_blob [OF inv] mem_inv_blob_inj [OF inv]
       in \<open>auto simp: refs_inc_def split: if_splits\<close>)
qed

lemma install_view:
  assumes inv: "mem_inv L s" and p: "\<forall>ns' d'. ms_es s ns' d' \<noteq> Some p" "me_blob (ms_entry s p) = b"
  shows "mem_view (install ns d b p s) = (mem_view s)(ns := (mem_view s ns)(d \<mapsto> entry_view s p))"
  using p by (auto simp: mem_view_def entry_view_def install_def mem_setters refs_inc_def fun_eq_iff
      intro!: option.map_cong0)

lemma installable_bytes:
  assumes inv: "mem_inv L s" and b: "installable L s d b" and v: "mem_view s ns d = Some y"
  shows "fst y = mb_data (ms_blob s b)"
  using mem_inv_view_bytes [OF inv v] b by (auto simp: installable_def)

lemma publish_loop_returns:
  assumes "mem_inv L s"
  shows "publish_loop d b s =
    (case ms_bs s d of None \<Rightarrow> Some (b, s\<lparr>ms_bs := (ms_bs s)(d \<mapsto> b)\<rparr>) | Some b' \<Rightarrow> Some (b', s))"
  using mem_inv_refs_pos [OF assms, of d]
  by (subst publish_loop.simps) (auto split: option.splits)

definition chosen_blob :: "memStores \<Rightarrow> string \<Rightarrow> nat" where
  "chosen_blob s d = (case ms_bs s d of None \<Rightarrow> ms_next s | Some b \<Rightarrow> b)"

definition publish_entry :: "env \<Rightarrow> meta \<Rightarrow> nat \<Rightarrow> memEntry" where
  "publish_entry e m b = \<lparr>me_blob = b,
     me_labels = (case Labels m of None \<Rightarrow> None | Some _ \<Rightarrow> Some (cloneLabels (Labels m))),
     me_added = time_Now e 0\<rparr>"

definition published_state :: "env \<Rightarrow> meta \<Rightarrow> bytes \<Rightarrow> memStores \<Rightarrow> memStores" where
  "published_state e m data s =
     snd (new_entry (publish_entry e m (chosen_blob s (Digest m)))
       (snd (new_blob \<lparr>mb_data = data, mb_refs = 0\<rparr> s)))"

lemma publish_runs:
  assumes inv: "mem_inv L s"
  shows "MemStore_publish e ns m data s =
    Some (if ms_es s ns (Digest m) = None
          then ((m, None), install ns (Digest m) (chosen_blob s (Digest m)) (Suc (ms_next s))
                             (published_state e m data s))
          else ((m, Some ErrAlreadyExists), published_state e m data s))"
proof -
  let ?s1 = "snd (new_blob \<lparr>mb_data = data, mb_refs = 0\<rparr> s)"
  have "mem_inv L ?s1" by (rule mem_inv_new_blob [OF inv])
  note loop = publish_loop_returns [OF this]
  show ?thesis
  proof (cases "ms_bs s (Digest m)")
    case None
    then show ?thesis
      using loop [of "Digest m" "ms_next s"] mem_inv_not_held [OF inv None, of ns]
      by (simp add: MemStore_publish_def published_state_def publish_entry_def chosen_blob_def
          install_def mem_setters Let_def)
  next
    case (Some b)
    then have "(ms_bs s)(Digest m \<mapsto> b) = ms_bs s" by (simp add: fun_upd_idem)
    with Some show ?thesis
      using loop [of "Digest m" "ms_next s"]
      by (simp add: MemStore_publish_def published_state_def publish_entry_def chosen_blob_def
          install_def mem_setters Let_def)
  qed
qed

lemma published_state_frame: "blob_frame s (published_state e m data s)"
  by (simp add: blob_frame_def published_state_def mem_setters)

lemma install_frame: "blob_frame s (install ns d b p s)"
  by (simp add: blob_frame_def install_def mem_setters)

lemma published_state_inv: "mem_inv L s \<Longrightarrow> mem_inv L (published_state e m data s)"
  unfolding published_state_def by (intro mem_inv_new_entry mem_inv_new_blob)

lemma published_state_view: "mem_inv L s \<Longrightarrow> mem_view (published_state e m data s) = mem_view s"
  unfolding published_state_def
  by (simp add: mem_view_new_blob mem_view_new_entry [OF mem_inv_new_blob])

lemma published_installable:
  assumes inv: "mem_inv L s" and named: "names_bytes L (Digest m) data"
  shows "installable L (published_state e m data s) (Digest m) (chosen_blob s (Digest m))"
proof (cases "ms_bs s (Digest m)")
  case None
  have "ms_bs s d' \<noteq> Some (ms_next s)" for d' using mem_inv_blob [OF inv, of d'] by blast
  with None named show ?thesis
    by (auto simp: installable_def published_state_def chosen_blob_def mem_setters)
qed (simp add: installable_def published_state_def chosen_blob_def mem_setters)

lemma published_fresh:
  assumes "mem_inv L s"
  shows "\<forall>ns' d'. ms_es (published_state e m data s) ns' d' \<noteq> Some (Suc (ms_next s))"
    and "Suc (ms_next s) < ms_next (published_state e m data s)"
    and "ms_entry (published_state e m data s) (Suc (ms_next s))
           = publish_entry e m (chosen_blob s (Digest m))"
  using mem_inv_entry [OF assms, of _ _ "Suc (ms_next s)"]
  by (auto simp: published_state_def mem_setters)

lemma entry_view_published:
  assumes "mem_inv L s"
  shows "entry_view (published_state e m data s) (Suc (ms_next s)) =
    (mb_data (ms_blob (published_state e m data s) (chosen_blob s (Digest m))), Labels m, time_Now e 0)"
  using published_fresh [OF assms]
  by (simp add: entry_view_def publish_entry_def entry_labels_def split: option.splits)

lemma publish_puts:
  assumes inv: "mem_inv L s" and named: "names_bytes L (Digest m) data"
  shows "puts L (mem_view s) ns (Digest m) data (Labels m) (time_Now e 0)
    (mem_view (install ns (Digest m) (chosen_blob s (Digest m)) (Suc (ms_next s))
       (published_state e m data s)))"
proof -
  let ?d = "Digest m" and ?s = "published_state e m data s"
  let ?b = "chosen_blob s ?d"
  note inv' = published_state_inv [OF inv, of e m data]
  note view = published_state_view [OF inv, of e m data]
  note ok = published_installable [OF inv named, of e]
  have named': "names_bytes L ?d (mb_data (ms_blob ?s ?b))"
    using ok mem_inv_blob [OF inv'] by (auto simp: installable_def)
  have "mb_data (ms_blob ?s ?b) = data" if "\<forall>ns'. mem_view s ns' ?d = None"
  proof -
    have "holders s ?d = {}" using that by (simp add: holders_def mem_view_def)
    then have "ms_bs s ?d = None" using mem_inv_blob [OF inv, of ?d] by (cases "ms_bs s ?d") auto
    then show ?thesis by (simp add: chosen_blob_def published_state_def mem_setters)
  qed
  moreover have "me_blob (ms_entry ?s (Suc (ms_next s))) = ?b"
    using published_fresh(3) [OF inv] by (simp add: publish_entry_def)
  note shown = install_view [OF inv' published_fresh(1) [OF inv] this, of ns ?d,
      unfolded view entry_view_published [OF inv]]
  ultimately show ?thesis
    using named' installable_bytes [OF inv' ok] unfolding puts_def shown
    by (intro exI [of _ "mb_data (ms_blob ?s ?b)"]) (auto simp: view)
qed

lemma publish_spec:
  assumes inv: "mem_inv L s" and named: "names_bytes L (Digest m) data"
  shows "\<exists>s'. MemStore_publish e ns m data s =
      Some ((m, if mem_view s ns (Digest m) = None then None else Some ErrAlreadyExists), s')
    \<and> mem_inv L s' \<and> blob_frame s s'
    \<and> (if mem_view s ns (Digest m) = None
       then puts L (mem_view s) ns (Digest m) data (Labels m) (time_Now e 0) (mem_view s')
       else mem_view s' = mem_view s)"
proof (cases "ms_es s ns (Digest m)")
  case None
  let ?s = "published_state e m data s"
  let ?s' = "install ns (Digest m) (chosen_blob s (Digest m)) (Suc (ms_next s)) ?s"
  have free: "ms_es ?s ns (Digest m) = None" using None by (simp add: published_state_def mem_setters)
  have "mem_inv L ?s'"
    using published_fresh [OF inv, of e m data]
    by (intro install_inv [OF published_state_inv [OF inv] published_installable [OF inv named] free])
       (simp_all add: publish_entry_def)
  moreover have "blob_frame s ?s'"
    by (rule blob_frame_trans [OF published_state_frame install_frame])
  ultimately show ?thesis
    using None publish_puts [OF inv named] by (simp add: publish_runs [OF inv] mem_view_def)
next
  case (Some p)
  then show ?thesis
    by (simp add: publish_runs [OF inv] published_state_inv [OF inv] published_state_frame
        published_state_view [OF inv] mem_view_def)
qed

section \<open>Add\<close>

text \<open>
  The answer of \<open>Add\<close>, and the effect: nothing but when it answers no error, and then the bytes
  read appear under their digest.
\<close>

definition add_answer ::
  "'h digest_lib \<Rightarrow> (string \<Rightarrow> blob_view option) \<Rightarrow> meta \<Rightarrow> reader \<Rightarrow> meta \<times> error option" where
  "add_answer L v m r =
     (let (data, rerr) = io_Copy r;
          m' = m\<lparr>Size := int (length data)\<rparr>
      in if Digest m \<noteq> '''' \<and> dl_Validate L (Digest m) \<noteq> None then (m, dl_Validate L (Digest m))
         else if Digest m \<noteq> '''' \<and> v (Digest m) \<noteq> None then (m, Some ErrAlreadyExists)
         else case rerr of
           Some err \<Rightarrow> (m, Some (Wrapped ''read'' err))
         | None \<Rightarrow>
             (let d = data_digest L (if Digest m = '''' then Canonical else dl_Algorithm L (Digest m)) data
              in if Digest m \<noteq> '''' \<and> Digest m \<noteq> d then (m', Some ErrDigestMismatch)
                 else (m'\<lparr>Digest := d\<rparr>, if v d = None then None else Some ErrAlreadyExists)))"

lemma Add_cases:
  assumes L: "digest_lib_ok L" and inv: "mem_inv L s"
    and add: "add_answer L (mem_view s ns) m r = (m', err)"
  shows "err \<noteq> None \<and> MemStore_Add L ns e m r s = Some ((m', err), s)
    \<or> (\<exists>data. io_Copy r = (data, None) \<and> names_bytes L (Digest m') data
        \<and> Size m' = int (length data) \<and> Labels m' = Labels m
        \<and> err = (if mem_view s ns (Digest m') = None then None else Some ErrAlreadyExists)
        \<and> MemStore_Add L ns e m r s = MemStore_publish e ns m' data s)"
proof (cases "Digest m = ''''")
  case True
  with add L show ?thesis
    by (cases "io_Copy r"; cases "snd (io_Copy r)")
       (auto simp: add_answer_def MemStore_Add_def Let_def FromBytes_digest names_bytes_data_digest)
next
  case dig: False
  show ?thesis
  proof (cases "dl_Validate L (Digest m)")
    case (Some verr)
    note Sanitize_invalid [OF Some]
    with Some add dig show ?thesis
      by (auto simp: add_answer_def MemStore_Add_def Let_def split: prod.splits)
  next
    case None
    note ok = Sanitize_valid [OF L None] Validate_parts(1) [OF L None]
    then have alg: "dl_FromBytes L (dl_Algorithm L (Digest m)) x = data_digest L (dl_Algorithm L (Digest m)) x" for x
      using FromBytes_digest [OF L] by blast
    show ?thesis
      using add dig None ok alg
      by (cases "io_Copy r"; cases "snd (io_Copy r)")
         (auto simp: add_answer_def MemStore_Add_def Let_def Digest_Algorithm_def mem_view_def
           names_bytes_def split: if_splits)
  qed
qed

lemma Add_spec:
  assumes L: "digest_lib_ok L" and inv: "mem_inv L s"
    and add: "add_answer L (mem_view s ns) m r = (m', err)"
  shows "\<exists>s'. MemStore_Add L ns e m r s = Some ((m', err), s')
    \<and> mem_inv L s' \<and> blob_frame s s'
    \<and> (if err = None
       then puts L (mem_view s) ns (Digest m') (fst (io_Copy r)) (Labels m) (time_Now e 0) (mem_view s')
         \<and> names_bytes L (Digest m') (fst (io_Copy r)) \<and> Size m' = int (length (fst (io_Copy r)))
         \<and> Labels m' = Labels m
       else mem_view s' = mem_view s)"
  using Add_cases [OF assms, of e]
proof (elim disjE exE conjE)
  assume "err \<noteq> None" "MemStore_Add L ns e m r s = Some ((m', err), s)"
  with inv show ?thesis by auto
next
  fix data
  assume "io_Copy r = (data, None)" "names_bytes L (Digest m') data"
    "Size m' = int (length data)" "Labels m' = Labels m"
    "err = (if mem_view s ns (Digest m') = None then None else Some ErrAlreadyExists)"
    "MemStore_Add L ns e m r s = MemStore_publish e ns m' data s"
  with publish_spec [OF inv, of m' data e ns] show ?thesis
    by (auto split: if_splits)
qed

section \<open>Stat, Open and Label\<close>

lemma mem_info_shows:
  "info_shows (mem_info d p s) s
     \<lparr>Digest = d, Labels = entry_labels (ms_entry s p),
      Size = int (length (mb_data (ms_blob s (me_blob (ms_entry s p)))))\<rparr> (me_added (ms_entry s p))"
  by (simp add: info_shows_def mem_info_def NewInfo_def infoMeta_def Info_Size_def Info_Labels_def
      Info_Added_def Info_Digest_def mem_labels_def entry_labels_def go_run Let_def)

definition view_meta :: "string \<Rightarrow> blob_view \<Rightarrow> meta" where
  "view_meta d v = \<lparr>Digest = d, Labels = fst (snd v), Size = int (length (fst v))\<rparr>"

lemma Stat_spec:
  "case mem_view s ns d of
     None \<Rightarrow> MemStore_Stat ns e d s = Some (Inl ErrNotExist, s)
   | Some v \<Rightarrow> \<exists>i. MemStore_Stat ns e d s = Some (Inr i, s)
       \<and> info_shows i s (view_meta d v) (snd (snd v))"
  using mem_info_shows [of d _ s]
  by (auto simp: MemStore_Stat_def MemStore_open_def mem_view_def entry_view_def view_meta_def go_run
      split: option.splits)

lemma Open_spec:
  "case mem_view s ns d of
     None \<Rightarrow> MemStore_Open ns e d s = Some (Inl ErrNotExist, s)
   | Some v \<Rightarrow> \<exists>i. MemStore_Open ns e d s = Some (Inr (fst v, i), s)
       \<and> info_shows i s (view_meta d v) (snd (snd v))"
  using mem_info_shows [of d _ s]
  by (auto simp: MemStore_Open_def MemStore_open_def mem_view_def entry_view_def view_meta_def go_run
      split: option.splits)

lemma Label_spec:
  assumes inv: "mem_inv L s"
  shows "\<exists>s'. MemStore_Label ns e d ls s =
      Some (if mem_view s ns d = None then Some ErrNotExist else None, s')
    \<and> mem_inv L s' \<and> blob_frame s s'
    \<and> mem_view s' = (case mem_view s ns d of None \<Rightarrow> mem_view s
         | Some (data, _, _) \<Rightarrow> (mem_view s)(ns := (mem_view s ns)(d \<mapsto> (data, ls, time_Now e 0))))"
proof (cases "ms_es s ns d")
  case None
  with inv show ?thesis by (simp add: MemStore_Label_def mem_view_def)
next
  case (Some p)
  let ?s = "s\<lparr>ms_entry := (ms_entry s)(p := (ms_entry s p)
              \<lparr>me_labels := Some ls, me_added := time_Now e 0\<rparr>)\<rparr>"
  have "mem_inv L ?s"
    using inv unfolding mem_inv_def holders_def by simp
  moreover have "mem_view ?s =
      (mem_view s)(ns := (mem_view s ns)(d \<mapsto>
         (mb_data (ms_blob s (me_blob (ms_entry s p))), ls, time_Now e 0)))"
  proof (intro ext)
    fix ns' d'
    have "ns' = ns \<and> d' = d" if "ms_es s ns' d' = Some p"
      using mem_inv_entry_inj [OF inv Some that] by simp
    then show "mem_view ?s ns' d' = ((mem_view s)(ns := (mem_view s ns)(d \<mapsto>
         (mb_data (ms_blob s (me_blob (ms_entry s p))), ls, time_Now e 0)))) ns' d'"
      using Some by (cases "ms_es s ns' d'")
        (auto simp: mem_view_def entry_view_def entry_labels_def)
  qed
  ultimately show ?thesis using Some
    by (simp add: MemStore_Label_def mem_setters mem_view_def entry_view_def blob_frame_def Let_def)
qed

section \<open>Erase\<close>

definition erased :: "string \<Rightarrow> string \<Rightarrow> nat \<Rightarrow> memStores \<Rightarrow> memStores" where
  "erased ns d b s =
     s\<lparr>ms_es := (ms_es s)(ns := (ms_es s ns)(d := None)),
       ms_blob := (ms_blob s)(b := refs_dec (ms_blob s b)),
       ms_bs := (if mb_refs (ms_blob s b) = 1 then (ms_bs s)(d := None) else ms_bs s)\<rparr>"

lemma holders_erased:
  "holders (erased ns d b s) d' = (if d' = d then holders s d - {ns} else holders s d')"
  by (auto simp: holders_def erased_def)

lemma erased_inv:
  assumes inv: "mem_inv L s" and p: "ms_es s ns d = Some p" and b: "ms_bs s d = Some b"
  shows "mem_inv L (erased ns d b s)"
proof -
  note B = mem_inv_blob [OF inv b]
  have ns: "ns \<in> holders s d" using p by (simp add: holders_def)
  have card: "card (holders s d - {ns}) = mb_refs (ms_blob s b) - 1"
    using B ns by simp
  have only: "mb_refs (ms_blob s b) = 1 \<longleftrightarrow> holders s d - {ns} = {}"
  proof -
    have "card (holders s d - {ns}) = 0 \<longleftrightarrow> holders s d - {ns} = {}" using B by simp
    moreover have "0 < mb_refs (ms_blob s b)" by (rule mem_inv_refs_pos [OF inv b])
    ultimately show ?thesis using card by linarith
  qed
  have alone: "ns' = ns" if "mb_refs (ms_blob s b) = 1" "ms_es s ns' d = Some q" for ns' q
    using that only by (auto simp: holders_def)
  have "mb_refs (ms_blob s b) \<noteq> 0" using B by auto
  then have refs: "mb_refs (ms_blob (erased ns d b s) b) = card (holders s d - {ns})"
    using card by (simp add: erased_def refs_dec_def)
  have inj: "d' = d" if "ms_bs s d' = Some b" for d'
    using mem_inv_blob_inj [OF inv b that] by simp
  have es: "ms_es s ns' d' = Some q" if "ms_es (erased ns d b s) ns' d' = Some q" for ns' d' q
    using that by (auto simp: erased_def split: if_splits)
  have bs: "ms_bs s d' = Some b'" "d' = d \<Longrightarrow> mb_refs (ms_blob s b) \<noteq> 1"
    if "ms_bs (erased ns d b s) d' = Some b'" for d' b'
    using that by (auto simp: erased_def split: if_splits)
  have nx: "ms_next (erased ns d b s) = ms_next s" "ms_entry (erased ns d b s) = ms_entry s"
    "mb_data (ms_blob (erased ns d b s) b') = mb_data (ms_blob s b')" for b'
    by (simp_all add: erased_def refs_dec_def)
  show ?thesis
    unfolding mem_inv_def holders_erased nx
  proof (intro conjI allI impI, goal_cases)
    case (2 ns' d' q)
    then show ?case using mem_inv_entry [OF inv, of ns' d' q] alone [of ns' q]
      by (auto simp: erased_def split: if_splits)
  next
    case (7 d' b')
    then show ?case using bs [OF 7] only mem_inv_blob [OF inv, of d' b'] by auto
  next
    case (8 d' b')
    then have b': "ms_bs s d' = Some b'" by (rule bs)
    show ?case
    proof (cases "b' = b")
      case True
      with b' inj [of d'] refs show ?thesis by simp
    next
      case False
      then have "d' \<noteq> d" "ms_blob (erased ns d b s) b' = ms_blob s b'"
        using b b' by (auto simp: erased_def)
      with mem_inv_blob [OF inv b'] show ?thesis by simp
    qed
  qed (use mem_inv_entry [OF inv es] mem_inv_entry_inj [OF inv es es]
        mem_inv_blob [OF inv bs(1)] mem_inv_blob_inj [OF inv bs(1) bs(1)] in \<open>auto\<close>)
qed

lemma erased_view: "mem_view (erased ns d b s) = (mem_view s)(ns := (mem_view s ns)(d := None))"
  by (auto simp: mem_view_def entry_view_def erased_def refs_dec_def fun_eq_iff
      intro!: option.map_cong0)

lemma Erase_spec:
  assumes inv: "mem_inv L s"
  shows "\<exists>s'. MemStore_Erase ns e d s = Some (None, s') \<and> mem_inv L s' \<and> blob_frame s s'
    \<and> mem_view s' = (mem_view s)(ns := (mem_view s ns)(d := None))"
proof (cases "ms_es s ns d")
  case None
  then have "(mem_view s)(ns := (mem_view s ns)(d := None)) = mem_view s"
    by (auto simp: mem_view_def fun_eq_iff)
  with None inv show ?thesis by (simp add: MemStore_Erase_def)
next
  case (Some p)
  let ?b = "me_blob (ms_entry s p)"
  have b: "ms_bs s d = Some ?b" using mem_inv_entry [OF inv Some] by simp
  have "MemStore_Erase ns e d s = Some (None, erased ns d ?b s)"
    using Some mem_inv_refs_pos [OF inv b]
    by (auto simp: MemStore_Erase_def erased_def mem_setters refs_dec_def Let_def)
  with erased_inv [OF inv Some b] show ?thesis
    by (simp add: erased_view) (simp add: blob_frame_def erased_def)
qed

section \<open>Link\<close>

definition link_answer ::
  "'h digest_lib \<Rightarrow> nat \<Rightarrow> (string \<Rightarrow> string \<Rightarrow> blob_view option) \<Rightarrow> string \<Rightarrow> env \<Rightarrow> string \<Rightarrow> mem_source
   \<Rightarrow> meta \<times> error option" where
  "link_answer L self v ns e d from =
     (let m = zero_meta\<lparr>Digest := d\<rparr>
      in if ctx_Err e 0 \<noteq> None then (zero_meta, ctx_Err e 0)
         else if dl_Validate L d \<noteq> None then (zero_meta, dl_Validate L d)
         else case from of
           Mem_source g source \<Rightarrow>
             if g \<noteq> self then (m, Some ErrIncompatibleStore)
             else (case v source d of
                     None \<Rightarrow> (m, Some ErrNotExist)
                   | Some x \<Rightarrow>
                       if v ns d \<noteq> None then (m, Some ErrAlreadyExists)
                       else (view_meta d x, ctx_Err e 1))
         | _ \<Rightarrow> (m, Some ErrIncompatibleStore))"

lemma link_install:
  assumes inv: "mem_inv L s" and src: "ms_es s source d = Some q" and free: "ms_es s ns d = None"
    and x: "me_blob x = me_blob (ms_entry s q)"
  defines "s1 \<equiv> snd (new_entry x s)"
  defines "s' \<equiv> set_blob (me_blob x) refs_inc (set_es ns d (Some (ms_next s)) s1)"
  shows "mem_inv L s' \<and> blob_frame s s'
    \<and> mem_view s' = (mem_view s)(ns := (mem_view s ns)(d \<mapsto>
         (mb_data (ms_blob s (me_blob x)), entry_labels x, me_added x)))"
proof -
  let ?b = "me_blob x" and ?p = "ms_next s"
  have b: "ms_bs s d = Some ?b" using mem_inv_entry [OF inv src] x by simp
  then have "(ms_bs s)(d \<mapsto> ?b) = ms_bs s" by (simp add: fun_upd_idem)
  then have s': "s' = install ns d ?b ?p s1"
    by (simp add: s'_def s1_def install_def mem_setters)
  have inv1: "mem_inv L s1" unfolding s1_def by (rule mem_inv_new_entry [OF inv])
  have fresh: "\<forall>ns' d'. ms_es s1 ns' d' \<noteq> Some ?p"
    using mem_inv_entry [OF inv, of _ _ ?p] by (auto simp: s1_def mem_setters)
  have at: "ms_es s1 ns d = None" "?p < ms_next s1" "me_blob (ms_entry s1 ?p) = ?b"
    "installable L s1 d ?b"
    using free b by (simp_all add: s1_def mem_setters installable_def)
  have "mem_inv L s'"
    unfolding s' by (rule install_inv [OF inv1 at(4) at(1) at(2) fresh at(3)])
  moreover have "blob_frame s s'"
    by (simp add: s'_def s1_def mem_setters blob_frame_def)
  moreover have "entry_view s1 ?p = (mb_data (ms_blob s ?b), entry_labels x, me_added x)"
    by (simp add: s1_def mem_setters entry_view_def)
  then have "mem_view s' = (mem_view s)(ns := (mem_view s ns)(d \<mapsto>
      (mb_data (ms_blob s ?b), entry_labels x, me_added x)))"
    using install_view [OF inv1 fresh at(3), of ns d] mem_view_new_entry [OF inv, of x]
    by (simp add: s' s1_def)
  ultimately show ?thesis by blast
qed

lemma Link_spec:
  assumes L: "digest_lib_ok L" and inv: "mem_inv L s"
    and ans: "link_answer L (ms_self s) (mem_view s) ns e d from = (m, err)"
  shows "\<exists>s'. MemStore_Link L ns e d from s = Some ((m, err), s') \<and> mem_inv L s' \<and> blob_frame s s'
    \<and> (if err = None
       then \<exists>g source x. from = Mem_source g source \<and> mem_view s source d = Some x
              \<and> mem_view s' = (mem_view s)(ns := (mem_view s ns)(d \<mapsto>
                                 (fst x, fst (snd x), time_Now e 0)))
       else mem_view s' = mem_view s)"
proof (cases "ctx_Err e 0 = None \<and> dl_Validate L d = None
    \<and> (\<exists>source q. from = Mem_source (ms_self s) source \<and> ms_es s source d = Some q)
    \<and> ms_es s ns d = None")
  case False
  then have "err \<noteq> None \<and> MemStore_Link L ns e d from s = Some ((m, err), s)"
    using ans L
    by (cases "dl_Validate L d"; cases "ctx_Err e 0"; cases "from")
       (auto simp: link_answer_def MemStore_Link_def mem_view_def Sanitize_valid Sanitize_invalid Let_def
         split: if_splits option.splits)
  with inv show ?thesis by auto
next
  case True
  then obtain source q where src: "from = Mem_source (ms_self s) source" "ms_es s source d = Some q"
    by blast
  let ?q = "ms_entry s q"
  let ?x = "\<lparr>me_blob = me_blob ?q, me_labels = (case entry_labels ?q of None \<Rightarrow> None
             | Some _ \<Rightarrow> Some (entry_labels ?q)), me_added = time_Now e 0\<rparr>"
  have lab: "entry_labels ?x = entry_labels ?q"
    by (simp add: entry_labels_def split: option.splits)
  note I = link_install [OF inv src(2), of ns ?x]
  have run: "MemStore_Link L ns e d from s =
    Some ((m, err), if err = None
      then set_blob (me_blob ?q) refs_inc (set_es ns d (Some (ms_next s)) (snd (new_entry ?x s)))
      else snd (new_entry ?x s))"
    using True src ans
    by (auto simp: MemStore_Link_def link_answer_def mem_view_def entry_view_def view_meta_def
        zero_meta_def new_entry_def entry_labels_def Sanitize_valid [OF L] Let_def
        split: option.splits)
  show ?thesis
  proof (cases err)
    case None
    with run I True src lab show ?thesis by (auto simp: mem_view_def entry_view_def)
  next
    case (Some y)
    with run show ?thesis
      using mem_inv_new_entry [OF inv, of ?x] mem_view_new_entry [OF inv, of ?x]
      by (simp add: blob_frame_def new_entry_def)
  qed
qed

section \<open>Fills of a negative size\<close>

text \<open>
  \<open>Fill\<close> panics on a negative size, although \<open>newFillTracker\<close> would have refused it with an error.
\<close>

lemma mem_fill_negative_panics:
  assumes "Sanitize L (Digest m) = Inr d" "ms_es s ns d = None" "Size m < 0"
  shows "MemStore_Fill L ns e m s = None \<and> (\<exists>err. newFillTracker L (m\<lparr>Digest := d\<rparr>) = Inl err)"
  using assms by (simp add: MemStore_Fill_def newFillTracker_def)

end
