(* ===== verification/MemStage.thy ===== *)
theory MemStage
  imports MemSpec
begin

text \<open>
  The upload stages of \<open>mem.go\<close>: the invariant of their entries, and the effect of each method on
  the stage and on what the stores show.
\<close>

section \<open>The invariant of the stages\<close>

definition stage_ok :: "'h digest_lib \<Rightarrow> string \<Rightarrow> stageRecord \<Rightarrow> bytes \<Rightarrow> bool" where
  "stage_ok L sid r data \<longleftrightarrow>
     ID r = sid \<and> (\<exists>ns. record_shape r ns)
     \<and> (\<exists>d. describes L r d \<and> commit_shape L r d
          \<and> (State r \<in> {StageActive, StageCommitting} \<longrightarrow> data = d))"

definition mem_stage_inv :: "'h digest_lib \<Rightarrow> memStores \<Rightarrow> bool" where
  "mem_stage_inv L s \<longleftrightarrow>
     (\<forall>sid p. ms_stages s sid = Some p \<longrightarrow>
        p < ms_next s \<and> \<not> mse_lock (ms_stageEntry s p)
        \<and> stage_ok L sid (mse_record (ms_stageEntry s p)) (mse_data (ms_stageEntry s p)))
     \<and> TTL (ms_stage s) > 0 \<and> Retention (ms_stage s) > 0"

text \<open>The clock that the stages see is past Go's zero time.\<close>

definition clock_ok :: "memStores \<Rightarrow> env \<Rightarrow> bool" where
  "clock_ok s e \<longleftrightarrow> (\<forall>n. 0 < cfg_clock (ms_stage s) e n)"

lemma clock_ok_after: "clock_ok s e \<Longrightarrow> 0 < cfg_clock (ms_stage s) (env_after k e) n"
  by (auto simp: clock_ok_def cfg_clock_def split: option.splits)

definition stage_view :: "memStores \<Rightarrow> string \<Rightarrow> (stageRecord \<times> bytes) option" where
  "stage_view s sid =
     map_option (\<lambda>p. (mse_record (ms_stageEntry s p), mse_data (ms_stageEntry s p))) (ms_stages s sid)"

lemma normalized_positive: "0 < TTL (normalized c) \<and> 0 < Retention (normalized c)"
  by (simp add: normalized_def hour_def minute_def Let_def)

lemma NewMemStores_stage_inv: "mem_stage_inv L (NewMemStores g c)"
  by (simp add: mem_stage_inv_def NewMemStores_def Let_def normalized_positive)

lemma mem_stage_inv_entry:
  assumes "mem_stage_inv L s" "ms_stages s sid = Some p"
  shows "p < ms_next s" "\<not> mse_lock (ms_stageEntry s p)"
    and "stage_ok L sid (mse_record (ms_stageEntry s p)) (mse_data (ms_stageEntry s p))"
  using assms unfolding mem_stage_inv_def by blast+

lemma stage_ok_validate: "stage_ok L sid r data \<Longrightarrow> validate L r = None"
  by (auto simp: stage_ok_def intro: validate_described)

lemma mem_stage_inv_inj:
  assumes "mem_stage_inv L s" "ms_stages s sid = Some p" "ms_stages s sid' = Some p"
  shows "sid = sid'"
  using mem_stage_inv_entry(3) [OF assms(1,2)] mem_stage_inv_entry(3) [OF assms(1,3)]
  by (simp add: stage_ok_def)

lemma blob_frame_stage_inv: "blob_frame s s' \<Longrightarrow> mem_stage_inv L s \<Longrightarrow> mem_stage_inv L s'"
  by (fastforce simp: blob_frame_def mem_stage_inv_def)

lemma blob_frame_stage_view: "blob_frame s s' \<Longrightarrow> stage_view s' = stage_view s"
  by (simp add: blob_frame_def stage_view_def fun_eq_iff)

section \<open>Locking\<close>

definition locked :: "nat \<Rightarrow> memStores \<Rightarrow> memStores" where
  "locked p s = set_stage p (\<lambda>x. x\<lparr>mse_lock := True\<rparr>) s"

definition unlocked :: "nat \<Rightarrow> memStores \<Rightarrow> memStores" where
  "unlocked p s = set_stage p (\<lambda>x. x\<lparr>mse_lock := False\<rparr>) s"

lemma unlocked_locked: "\<not> mse_lock (ms_stageEntry s p) \<Longrightarrow> unlocked p (locked p s) = s"
  by (cases "ms_stageEntry s p") (simp add: locked_def unlocked_def set_stage_def fun_upd_idem)

lemma locked_simps [simp]:
  "mse_record (ms_stageEntry (locked p s) q) = mse_record (ms_stageEntry s q)"
  "mse_data (ms_stageEntry (locked p s) q) = mse_data (ms_stageEntry s q)"
  "ms_stages (locked p s) = ms_stages s" "ms_stage (locked p s) = ms_stage s"
  "ms_es (locked p s) = ms_es s" "ms_entry (locked p s) = ms_entry s"
  "ms_blob (locked p s) = ms_blob s" "ms_bs (locked p s) = ms_bs s" "ms_next (locked p s) = ms_next s"
  by (simp_all add: locked_def set_stage_def)

text \<open>Writing to a stage entry changes nothing that the stores show.\<close>

lemma mem_inv_stage [simp]: "mem_inv L (set_stage p f s) = mem_inv L s"
  by (simp add: mem_inv_def holders_def set_stage_def)

lemma mem_view_cong:
  assumes "ms_blob s' = ms_blob s" "ms_entry s' = ms_entry s" "ms_es s' = ms_es s"
  shows "mem_view s' = mem_view s"
proof -
  have "entry_view s' = entry_view s" using assms by (simp add: entry_view_def fun_eq_iff)
  with assms show ?thesis unfolding mem_view_def by simp
qed

lemma mem_view_stage [simp]: "mem_view (set_stage p f s) = mem_view s"
  by (rule mem_view_cong) (simp_all add: set_stage_def)

text \<open>\<open>acquire\<close> under the invariant: it returns, and it holds the lock only when it succeeds.\<close>

definition acquire_answer ::
  "string \<Rightarrow> string \<Rightarrow> env \<Rightarrow> bool \<Rightarrow> memStores \<Rightarrow> error + nat" where
  "acquire_answer ns sid e allowExpired s =
     (if ctx_Err e 0 \<noteq> None then Inl (the (ctx_Err e 0))
      else if \<not> validStageID sid then Inl ErrNotExist
      else case ms_stages s sid of
        None \<Rightarrow> Inl ErrNotExist
      | Some p \<Rightarrow>
          (let r = mse_record (ms_stageEntry s p)
           in if ctx_Err e 1 \<noteq> None then Inl (the (ctx_Err e 1))
              else if Namespace r \<noteq> namespaceSegment ns then Inl ErrNotExist
              else if ctx_Err e 2 \<noteq> None then Inl (the (ctx_Err e 2))
              else if State r \<noteq> StageCommitting \<and> expired r (cfg_clock (ms_stage s) e 0) \<and> \<not> allowExpired
              then Inl ErrStageExpired
              else Inr p))"

lemma acquire_runs:
  assumes "mem_stage_inv L s"
  shows "acquire L ns sid e ae s =
    Some (acquire_answer ns sid e ae s,
          case acquire_answer ns sid e ae s of Inl _ \<Rightarrow> s | Inr p \<Rightarrow> locked p s)"
proof (cases "ms_stages s sid")
  case None
  then show ?thesis
    by (auto simp: acquire_def acquire_answer_def split: option.splits)
next
  case (Some p)
  note P = mem_stage_inv_entry [OF assms Some]
  have "unlocked p (locked p s) = s" by (rule unlocked_locked [OF P(2)])
  moreover have "validate L (mse_record (ms_stageEntry s p)) = None"
    using stage_ok_validate [OF P(3)] .
  moreover have "ms_stages (set_stage p f s) = ms_stages s" "ms_stage (set_stage p f s) = ms_stage s"
    "ms_stageEntry (set_stage p f s) p = f (ms_stageEntry s p)" for f
    by (simp_all add: set_stage_def)
  ultimately show ?thesis
    using Some P(2)
    by (auto simp: acquire_def acquire_answer_def Let_def locked_def unlocked_def split: option.splits)
qed

lemma acquire_answer_Inr:
  assumes "mem_stage_inv L s" "acquire_answer ns sid e ae s = Inr p"
  shows "ms_stages s sid = Some p" "record_shape (mse_record (ms_stageEntry s p)) ns"
    "stage_ok L sid (mse_record (ms_stageEntry s p)) (mse_data (ms_stageEntry s p))"
proof -
  show p: "ms_stages s sid = Some p"
    using assms(2) by (auto simp: acquire_answer_def Let_def split: option.splits if_splits)
  have "Namespace (mse_record (ms_stageEntry s p)) = namespaceSegment ns"
    using assms(2) p by (auto simp: acquire_answer_def Let_def split: if_splits)
  moreover show "stage_ok L sid (mse_record (ms_stageEntry s p)) (mse_data (ms_stageEntry s p))"
    by (rule mem_stage_inv_entry(3) [OF assms(1) p])
  ultimately show "record_shape (mse_record (ms_stageEntry s p)) ns"
    by (auto simp: stage_ok_def record_shape_def)
qed

section \<open>Writing a stage\<close>

definition stage_set :: "nat \<Rightarrow> stageRecord \<Rightarrow> bytes \<Rightarrow> memStores \<Rightarrow> memStores \<Rightarrow> bool" where
  "stage_set p rec data s s' \<longleftrightarrow>
     ms_stages s' = ms_stages s \<and> ms_stage s' = ms_stage s \<and> ms_next s \<le> ms_next s'
     \<and> ms_self s' = ms_self s
     \<and> ms_stageEntry s' =
         (ms_stageEntry s)(p := \<lparr>mse_lock = False, mse_record = rec, mse_data = data\<rparr>)"

lemma stage_set_inv:
  assumes "mem_stage_inv L s" "ms_stages s sid = Some p" "stage_ok L sid rec data"
    "stage_set p rec data s s'"
  shows "mem_stage_inv L s' \<and> stage_view s' = (stage_view s)(sid \<mapsto> (rec, data))
    \<and> ms_stages s' = ms_stages s \<and> ms_stage s' = ms_stage s"
proof -
  have only: "sid' = sid" if "ms_stages s sid' = Some p" for sid'
    using mem_stage_inv_inj [OF assms(1) that assms(2)] .
  have "mem_stage_inv L s'"
    unfolding mem_stage_inv_def
  proof (intro conjI allI impI, goal_cases)
    case (1 sid' q)
    then have "ms_stages s sid' = Some q" using assms(4) by (simp add: stage_set_def)
    from mem_stage_inv_entry(1) [OF assms(1) this] show ?case
      using assms(4) by (simp add: stage_set_def)
  next
    case (2 sid' q)
    then have "ms_stages s sid' = Some q" using assms(4) by (simp add: stage_set_def)
    from mem_stage_inv_entry(2) [OF assms(1) this] show ?case
      using assms(4) by (simp add: stage_set_def)
  next
    case (3 sid' q)
    then have q: "ms_stages s sid' = Some q" using assms(4) by (simp add: stage_set_def)
    from mem_stage_inv_entry(3) [OF assms(1) q] only [of sid'] q assms(3,4) show ?case
      by (cases "q = p") (simp_all add: stage_set_def)
  qed (use assms(1,4) in \<open>simp_all add: mem_stage_inv_def stage_set_def\<close>)
  moreover have "stage_view s' sid' = ((stage_view s)(sid \<mapsto> (rec, data))) sid'" for sid'
    using assms(2,4) only [of sid']
    by (cases "ms_stages s sid'") (auto simp: stage_view_def stage_set_def)
  moreover have "ms_stages s' = ms_stages s" "ms_stage s' = ms_stage s"
    using assms(4) by (simp_all add: stage_set_def)
  ultimately show ?thesis by blast
qed

lemma stage_set_locked:
  assumes "blob_frame (locked p s) s1"
  shows "stage_set p rec data s
    (unlocked p (set_stage p (\<lambda>x. x\<lparr>mse_record := rec, mse_data := data\<rparr>) s1))"
  using assms
  by (cases "ms_stageEntry s p")
     (simp add: stage_set_def blob_frame_def unlocked_def locked_def set_stage_def)

text \<open>A method holds the lock while its body runs.\<close>

lemma locked_method:
  assumes inv: "mem_stage_inv L s"
  shows "chk (acquire L ns sid e ae) h (\<lambda>p. deferred (body p) (\<lambda>_. release_stage p)) s =
    (case acquire_answer ns sid e ae s of
       Inl err \<Rightarrow> Some (h err, s)
     | Inr p \<Rightarrow> (case body p (locked p s) of None \<Rightarrow> None | Some (r, s1) \<Rightarrow> Some (r, unlocked p s1)))"
  by (auto simp: go_run acquire_runs [OF inv] release_stage_def unlocked_def
      split: sum.splits option.splits)

lemma locked_entry:
  "mem_stage_inv L s \<Longrightarrow> ms_stages s sid = Some p \<Longrightarrow> unlocked p (locked p s) = s"
  using mem_stage_inv_entry(2) unlocked_locked by blast

lemma mem_inv_locked [simp]:
  "mem_inv L (locked p s) = mem_inv L s" "mem_inv L (unlocked p s) = mem_inv L s"
  "mem_view (locked p s) = mem_view s" "mem_view (unlocked p s) = mem_view s"
  by (simp_all add: locked_def unlocked_def)

section \<open>Stat\<close>

lemma memStage_Stat_runs:
  assumes inv: "mem_stage_inv L s"
  shows "memStage_Stat L ns sid e s =
    Some (case acquire_answer ns sid e False s of
            Inl err \<Rightarrow> Inl err
          | Inr p \<Rightarrow> Inr (stage_info (mse_record (ms_stageEntry s p))), s)"
  using locked_entry [OF inv acquire_answer_Inr(1) [OF inv]]
  by (auto simp: memStage_Stat_def locked_method [OF inv] gets_def split: sum.splits)

section \<open>Begin\<close>

lemma Begin_spec:
  assumes L: "digest_lib_ok L" and inv: "mem_inv L s" "mem_stage_inv L s"
    and clk: "clock_ok s e"
    and algo: "(if algo = '''' then Canonical else algo) \<in> set algorithms" and rnd: "length b = 16"
    and ctx: "ctx_Err e 0 = None" and fresh: "ms_stages s (hex_encode b) = None"
  shows "\<exists>r s'. MemStore_Begin L (Inr b) ns e algo s = Some (Inr (hex_encode b), s')
    \<and> mem_inv L s' \<and> mem_stage_inv L s' \<and> mem_view s' = mem_view s \<and> ms_stage s' = ms_stage s
    \<and> stage_view s' = (stage_view s)(hex_encode b \<mapsto> (r, []))
    \<and> State r = StageActive \<and> Offset r = 0 \<and> record_shape r ns \<and> describes L r []
    \<and> Algorithm r = (if algo = '''' then Canonical else algo)
    \<and> ExpiresAt r = cfg_clock (ms_stage s) e 0 + TTL (ms_stage s)"
proof -
  have ttl: "0 < TTL (ms_stage s)" "TTL (normalized (ms_stage s)) = TTL (ms_stage s)"
    using inv(2) by (auto simp: mem_stage_inv_def normalized_def Let_def)
  moreover have "0 < cfg_clock (ms_stage s) e 0" using clk by (simp add: clock_ok_def)
  ultimately have expiry: "cfg_clock (ms_stage s) e 0 + TTL (normalized (ms_stage s)) \<noteq> 0" by simp
  obtain r where r: "newStageRecord L (Inr b) ns algo (ms_stage s) e = Inr r" "describes L r []"
      "record_shape r ns" "State r = StageActive" "ID r = hex_encode b"
    by (rule newStageRecord_described [OF L algo rnd expiry])
  have f: "Offset r = 0" "Algorithm r = (if algo = '''' then Canonical else algo)"
    "ExpiresAt r = cfg_clock (ms_stage s) e 0 + TTL (ms_stage s)"
    using r(1) ttl by (auto simp: newStageRecord_def Let_def split: sum.splits)
  let ?p = "ms_next s"
  let ?s = "s\<lparr>ms_next := Suc ?p, ms_stageEntry := (ms_stageEntry s)
      (?p := \<lparr>mse_lock = False, mse_record = r, mse_data = []\<rparr>), ms_stages := (ms_stages s)(ID r \<mapsto> ?p)\<rparr>"
  have run: "MemStore_Begin L (Inr b) ns e algo s = Some (Inr (hex_encode b), ?s)"
    using ctx fresh r(1,5) by (simp add: MemStore_Begin_def Let_def)
  have "mem_inv L ?s" using inv(1) unfolding mem_inv_def holders_def by (auto simp: less_Suc_eq)
  moreover have ok: "stage_ok L (hex_encode b) r []"
    using r by (auto simp: stage_ok_def commit_shape_def stage_states)
  have "mem_stage_inv L ?s"
    using inv(2) ok r(5) unfolding mem_stage_inv_def by (auto simp: less_Suc_eq)
  moreover have "stage_view ?s = (stage_view s)(hex_encode b \<mapsto> (r, []))"
  proof
    fix sid
    show "stage_view ?s sid = ((stage_view s)(hex_encode b \<mapsto> (r, []))) sid"
      using mem_stage_inv_entry(1) [OF inv(2), of sid] r(5)
      by (cases "ms_stages s sid") (auto simp: stage_view_def)
  qed
  moreover have "mem_view ?s = mem_view s" by (rule mem_view_cong) simp_all
  moreover have "ms_stage ?s = ms_stage s" by simp
  ultimately show ?thesis using run r f by blast
qed

section \<open>Append\<close>

text \<open>What the body of \<open>Append\<close> decides on the stage: an error, or the bytes it takes.\<close>

definition append_answer :: "stageRecord \<Rightarrow> env \<Rightarrow> int \<Rightarrow> reader \<Rightarrow> error + bytes" where
  "append_answer rec e offset r =
     (if State rec \<noteq> StageActive then Inl ErrStageClosed
      else if offset \<noteq> Offset rec then Inl ErrOffsetMismatch
      else case io_Copy (stageContextReader e r) of
        (incoming, Some err) \<Rightarrow> Inl err
      | (incoming, None) \<Rightarrow>
          (case ctx_Err e (2 * (length r + 1)) of Some err \<Rightarrow> Inl err | None \<Rightarrow> Inr incoming))"

definition appended :: "stageRecord \<Rightarrow> bytes \<Rightarrow> time \<Rightarrow> bytes \<Rightarrow> stageRecord" where
  "appended rec data expiry checkpoint =
     rec\<lparr>Offset := int (length data), Hash := checkpoint, ExpiresAt := expiry\<rparr>"

lemma stage_ok_active:
  "stage_ok L sid rec data \<Longrightarrow> State rec = StageActive \<Longrightarrow> describes L rec data"
  by (auto simp: stage_ok_def stage_states)

lemma append_body_runs:
  assumes L: "digest_lib_ok L"
    and ok: "stage_ok L sid (mse_record (ms_stageEntry s p)) (mse_data (ms_stageEntry s p))"
  shows "case append_answer (mse_record (ms_stageEntry s p)) e offset r of
      Inl err \<Rightarrow> append_body L p e offset r s = Some ((Offset (mse_record (ms_stageEntry s p)), Some err), s)
    | Inr x \<Rightarrow>
        (let data = mse_data (ms_stageEntry s p) @ x;
             rec = mse_record (ms_stageEntry s p);
             expiry = cfg_clock (ms_stage s) e 0 + TTL (normalized (ms_stage s))
         in \<exists>cp. checkpoint_ok L (Algorithm rec) data cp
             \<and> append_body L p e offset r s = Some ((int (length data), None),
                 set_stage p (\<lambda>y. y\<lparr>mse_record := appended rec data expiry cp, mse_data := data\<rparr>) s))"
proof (cases "State (mse_record (ms_stageEntry s p)) = StageActive
    \<and> offset = Offset (mse_record (ms_stageEntry s p))")
  case False
  then show ?thesis by (auto simp: append_answer_def append_body_def Let_def)
next
  case True
  let ?rec = "mse_record (ms_stageEntry s p)" and ?d = "mse_data (ms_stageEntry s p)"
  have desc: "describes L ?rec ?d" using stage_ok_active [OF ok] True by blast
  note restore = describes_restore [OF desc]
  obtain x xerr where copy: "io_Copy (stageContextReader e r) = (x, xerr)" by (cases "io_Copy (stageContextReader e r)")
  have "Algorithm ?rec \<in> set algorithms" using desc by (simp add: describes_def)
  then obtain cp where cp: "stageHashState L (dl_Write L (dl_Hash L (Algorithm ?rec)) (?d @ x)) = Inr cp"
      "checkpoint_ok L (Algorithm ?rec) (?d @ x) cp"
    by (rule stageHashState_checkpoint [OF L])
  show ?thesis
    using True restore copy cp L
    by (auto simp: append_answer_def append_body_def appended_def Let_def set_stage_def
        split: option.splits intro!: exI [of _ cp])
qed

lemma appended_ok:
  assumes "stage_ok L sid rec data" "State rec = StageActive"
    "checkpoint_ok L (Algorithm rec) (data @ x) cp" "length (data @ x) < 2 ^ 63" "expiry \<noteq> 0"
  shows "stage_ok L sid (appended rec (data @ x) expiry cp) (data @ x)"
proof -
  have "describes L (appended rec (data @ x) expiry cp) (data @ x)"
    using stage_ok_active [OF assms(1,2)] assms(3,4) by (simp add: describes_def appended_def)
  moreover have "\<exists>ns. record_shape (appended rec (data @ x) expiry cp) ns"
    using assms(1,5) by (auto simp: stage_ok_def record_shape_def appended_def)
  ultimately show ?thesis
    using assms(1,2) by (auto simp: stage_ok_def commit_shape_def appended_def stage_states)
qed

lemma clock_ok_expiry:
  assumes "clock_ok s e"
  shows "cfg_clock (ms_stage s) (env_after k e) n + TTL (normalized (ms_stage s)) \<noteq> 0"
    and "cfg_clock (ms_stage s) (env_after k e) n + Retention (normalized (ms_stage s)) \<noteq> 0"
  using clock_ok_after [OF assms, of k n] normalized_positive [of "ms_stage s"] by linarith+

lemma io_Copy_context_prefix:
  "\<exists>y. fst (io_Copy r) = fst (io_Copy (stageContextReader e r)) @ y"
proof (induction r arbitrary: e)
  case Nil
  show ?case by (auto simp: stageContextReader_Read_def split: option.splits)
next
  case (Cons a r)
  obtain b err where a: "a = (b, err)" by (cases a)
  obtain y where "fst (io_Copy r) = fst (io_Copy (stageContextReader (env_after 2 e) r)) @ y"
    using Cons by blast
  then show ?case
    by (cases err) (auto simp: a stageContextReader_Read_def split: option.splits prod.splits)
qed

lemma Append_spec:
  assumes L: "digest_lib_ok L" and inv: "mem_inv L s" "mem_stage_inv L s" and clk: "clock_ok s e"
    and acq: "acquire_answer ns sid e False s = Inr p"
    and view: "stage_view s sid = Some (rec, data)"
    and bound: "length (data @ fst (io_Copy r)) < 2 ^ 63"
  shows "case append_answer rec (env_after 3 e) offset r of
      Inl err \<Rightarrow> memStage_Append L ns sid e offset r s = Some ((Offset rec, Some err), s)
    | Inr x \<Rightarrow> \<exists>rec' s'. memStage_Append L ns sid e offset r s = Some ((int (length (data @ x)), None), s')
        \<and> mem_inv L s' \<and> mem_stage_inv L s' \<and> mem_view s' = mem_view s \<and> ms_stage s' = ms_stage s
        \<and> stage_view s' = (stage_view s)(sid \<mapsto> (rec', data @ x))
        \<and> State rec' = StageActive \<and> Algorithm rec' = Algorithm rec \<and> Namespace rec' = Namespace rec
        \<and> Offset rec' = int (length (data @ x))
        \<and> ExpiresAt rec' = cfg_clock (ms_stage s) (env_after 3 e) 0 + TTL (normalized (ms_stage s))"
proof -
  note p = acquire_answer_Inr [OF inv(2) acq]
  have recd: "mse_record (ms_stageEntry s p) = rec" "mse_data (ms_stageEntry s p) = data"
    using view p(1) by (simp_all add: stage_view_def)
  note body = append_body_runs [OF L, of sid "locked p s" p "env_after 3 e" offset r, simplified recd locked_simps,
      OF p(3) [unfolded recd]]
  show ?thesis
  proof (cases "append_answer rec (env_after 3 e) offset r")
    case (Inl err)
    with body show ?thesis
      by (simp add: memStage_Append_def locked_method [OF inv(2)] acq locked_entry [OF inv(2) p(1)])
  next
    case (Inr x)
    let ?expiry = "cfg_clock (ms_stage s) (env_after 3 e) 0 + TTL (normalized (ms_stage s))"
    obtain cp where cp: "checkpoint_ok L (Algorithm rec) (data @ x) cp"
      and run: "append_body L p (env_after 3 e) offset r (locked p s) = Some ((int (length (data @ x)), None),
         set_stage p (\<lambda>y. y\<lparr>mse_record := appended rec (data @ x) ?expiry cp, mse_data := data @ x\<rparr>) (locked p s))"
      using body Inr by (auto simp: Let_def)
    let ?s' = "unlocked p (set_stage p (\<lambda>y. y\<lparr>mse_record := appended rec (data @ x) ?expiry cp,
                                               mse_data := data @ x\<rparr>) (locked p s))"
    have act: "State rec = StageActive" and x: "fst (io_Copy (stageContextReader (env_after 3 e) r)) = x"
      using Inr by (auto simp: append_answer_def split: if_splits prod.splits option.splits)
    have "length (data @ x) < 2 ^ 63"
      using io_Copy_context_prefix [of r "env_after 3 e"] x bound by auto
    then have "stage_ok L sid (appended rec (data @ x) ?expiry cp) (data @ x)"
      using appended_ok [OF _ act cp _ clock_ok_expiry(1) [OF clk]] p(3) recd by simp
    from stage_set_inv [OF inv(2) p(1) this stage_set_locked [OF blob_frame_refl]]
    have "mem_stage_inv L ?s'" "ms_stage ?s' = ms_stage s"
      "stage_view ?s' = (stage_view s)(sid \<mapsto> (appended rec (data @ x) ?expiry cp, data @ x))" by blast+
    moreover have "memStage_Append L ns sid e offset r s = Some ((int (length (data @ x)), None), ?s')"
      using run by (simp add: memStage_Append_def locked_method [OF inv(2)] acq)
    moreover have "mem_inv L ?s'" "mem_view ?s' = mem_view s" using inv(1) by simp_all
    ultimately show ?thesis
      unfolding Inr sum.case
      by (intro exI [of _ "appended rec (data @ x) ?expiry cp"] exI [of _ ?s'])
         (simp add: appended_def act)
  qed
qed

section \<open>Completing a commit\<close>

lemma mem_info_meta:
  "with_info (mem_info d p s) (infoMeta e) s =
     Some (case ctx_Err e 0 of
             Some err \<Rightarrow> Inl err
           | None \<Rightarrow> Inr (view_meta d (entry_view s p)), s)"
  by (simp add: mem_info_def NewInfo_def infoMeta_def Info_Size_def Info_Labels_def Info_Digest_def
      mem_labels_def entry_labels_def entry_view_def view_meta_def go_run split: option.splits)

definition complete_answer :: "env \<Rightarrow> meta \<Rightarrow> blob_view option \<Rightarrow> error + meta" where
  "complete_answer e cm v =
     (case v of
        None \<Rightarrow> Inr cm
      | Some x \<Rightarrow>
          (case ctx_Err e 1 of Some err \<Rightarrow> Inl err | None \<Rightarrow> Inr (view_meta (Digest cm) x)))"

lemma complete_publish_runs:
  assumes inv: "mem_inv L s" and named: "names_bytes L (Digest cm) data"
  shows "\<exists>s'. complete_publish ns e cm data s = Some (complete_answer e cm (mem_view s ns (Digest cm)), s')
    \<and> mem_inv L s' \<and> blob_frame s s'
    \<and> (if mem_view s ns (Digest cm) = None
       then puts L (mem_view s) ns (Digest cm) data (Labels cm) (time_Now e 0) (mem_view s')
       else mem_view s' = mem_view s)"
proof -
  obtain s' where s': "MemStore_publish e ns cm data s =
      Some ((cm, if mem_view s ns (Digest cm) = None then None else Some ErrAlreadyExists), s')"
    and rest: "mem_inv L s' \<and> blob_frame s s' \<and> (if mem_view s ns (Digest cm) = None
       then puts L (mem_view s) ns (Digest cm) data (Labels cm) (time_Now e 0) (mem_view s')
       else mem_view s' = mem_view s)"
    using publish_spec [OF inv named, of e ns] by blast
  have "complete_publish ns e cm data s = Some (complete_answer e cm (mem_view s ns (Digest cm)), s')"
  proof (cases "mem_view s ns (Digest cm)")
    case None
    with s' show ?thesis by (simp add: complete_publish_def complete_answer_def go_run)
  next
    case (Some x)
    then have "mem_view s' ns (Digest cm) = Some x" using rest by simp
    then obtain p where "ms_es s' ns (Digest cm) = Some p" "entry_view s' p = x"
      by (auto simp: mem_view_def)
    with s' Some show ?thesis
      by (simp add: complete_publish_def complete_answer_def MemStore_Stat_def MemStore_open_def
          mem_info_meta bind_def chk_def ret_def split: option.splits)
  qed
  with rest show ?thesis by blast
qed

definition committed :: "stageRecord \<Rightarrow> meta \<Rightarrow> time \<Rightarrow> stageRecord" where
  "committed rec result expiry = rec\<lparr>Result := result, State := StageCommitted, ExpiresAt := expiry\<rparr>"

text \<open>The stage entry \<open>rec\<close>, \<open>data\<close> at \<open>p\<close> is being committed to the store \<open>ns\<close>.\<close>

lemma complete_runs:
  fixes ns :: string
  assumes inv: "mem_inv L s" and rec: "mse_record (ms_stageEntry s p) = rec" "mse_data (ms_stageEntry s p) = data"
    and named: "names_bytes L (Digest (Commit rec)) data" and ctx: "ctx_Err e 0 = None"
  defines "v \<equiv> mem_view s ns (Digest (Commit rec))"
  shows "\<exists>s1. mem_inv L s1 \<and> blob_frame s s1
    \<and> (if v = None
       then puts L (mem_view s) ns (Digest (Commit rec)) data (Labels (Commit rec)) (time_Now e 0) (mem_view s1)
       else mem_view s1 = mem_view s)
    \<and> memStage_complete ns p e s = Some (case complete_answer e (Commit rec) v of
        Inl err \<Rightarrow> ((zero_meta, Some err), s1)
      | Inr result \<Rightarrow> ((result, None),
          set_stage p (\<lambda>x. x\<lparr>mse_record := committed rec result
            (cfg_clock (ms_stage s) e 1 + Retention (normalized (ms_stage s))), mse_data := []\<rparr>) s1))"
proof -
  obtain s1 where s1: "complete_publish ns e (Commit rec) data s =
      Some (complete_answer e (Commit rec) v, s1)"
    and rest: "mem_inv L s1" "blob_frame s s1" "if v = None
       then puts L (mem_view s) ns (Digest (Commit rec)) data (Labels (Commit rec)) (time_Now e 0) (mem_view s1)
       else mem_view s1 = mem_view s"
    using complete_publish_runs [OF inv named, of ns e] unfolding v_def by blast
  have "mse_record (ms_stageEntry s1 p) = rec" "ms_stage s1 = ms_stage s"
    using rest(2) rec by (simp_all add: blob_frame_def)
  with s1 rec ctx rest show ?thesis
    by (intro exI [of _ s1])
       (simp add: memStage_complete_def go_run set_stage_def committed_def Let_def split: sum.splits)
qed

lemma committed_ok:
  assumes ok: "stage_ok L sid rec data" and st: "State rec = StageCommitting" and e: "expiry \<noteq> 0"
    and res: "Digest result = Digest (Commit rec)" "Size result = Size (Commit rec)"
  shows "stage_ok L sid (committed rec result expiry) []"
proof -
  obtain ns where "record_shape rec ns" "describes L rec data" "commit_shape L rec data"
    using ok st by (auto simp: stage_ok_def)
  with ok st e res show ?thesis
    by (auto simp: stage_ok_def committed_def describes_def record_shape_def commit_shape_def stage_states
        intro!: exI [of _ data])
qed

lemma committing_names:
  assumes L: "digest_lib_ok L" and "stage_ok L sid rec data" "State rec = StageCommitting"
  shows "names_bytes L (Digest (Commit rec)) data" "Size (Commit rec) = int (length data)"
  using assms by (auto simp: stage_ok_def commit_shape_def describes_def intro: names_bytes_data_digest)

definition finish_answer :: "env \<Rightarrow> meta \<Rightarrow> blob_view option \<Rightarrow> error + meta" where
  "finish_answer e cm v =
     (case ctx_Err e 0 of Some err \<Rightarrow> Inl err | None \<Rightarrow> complete_answer e cm v)"

text \<open>The stage \<open>sid\<close> at \<open>p\<close> with its record replaced, and its lock held.\<close>

definition staged :: "nat \<Rightarrow> stageRecord \<Rightarrow> memStores \<Rightarrow> memStores" where
  "staged p rec s = set_stage p (\<lambda>x. x\<lparr>mse_record := rec\<rparr>) (locked p s)"

lemma staged_same: "mse_record (ms_stageEntry s p) = rec \<Longrightarrow> staged p rec s = locked p s"
  by (cases "ms_stageEntry s p") (simp add: staged_def locked_def set_stage_def)

lemma staged_set:
  assumes "blob_frame (staged p rec s) s1" "mse_data (ms_stageEntry s p) = data"
  shows "stage_set p rec data s (unlocked p s1)"
    and "stage_set p rec' data' s (unlocked p (set_stage p (\<lambda>x. x\<lparr>mse_record := rec', mse_data := data'\<rparr>) s1))"
  using assms
  by (cases "ms_stageEntry s p";
      simp add: stage_set_def blob_frame_def staged_def unlocked_def locked_def set_stage_def)+

definition committing_to ::
  "'h digest_lib \<Rightarrow> memStores \<Rightarrow> string \<Rightarrow> env \<Rightarrow> stageRecord \<Rightarrow> bytes \<Rightarrow> memStores \<Rightarrow> bool" where
  "committing_to L s ns e rec data s' \<longleftrightarrow>
     (if ctx_Err e 0 = None \<and> mem_view s ns (Digest (Commit rec)) = None
      then puts L (mem_view s) ns (Digest (Commit rec)) data (Labels (Commit rec)) (time_Now e 0) (mem_view s')
      else mem_view s' = mem_view s)"

lemma finish_spec:
  assumes L: "digest_lib_ok L" and inv: "mem_inv L s" "mem_stage_inv L s" and clk: "clock_ok s e0"
    and e: "e = env_after k e0"
    and p: "ms_stages s sid = Some p" "mse_data (ms_stageEntry s p) = data"
    and ok: "stage_ok L sid rec data" "State rec = StageCommitting"
    and len: "\<And>x. mem_view s ns (Digest (Commit rec)) = Some x \<Longrightarrow> length (fst x) = length data"
  shows "\<exists>r s1. memStage_complete ns p e (staged p rec s) = Some (r, s1)
    \<and> mem_inv L (unlocked p s1) \<and> mem_stage_inv L (unlocked p s1)
    \<and> ms_stages (unlocked p s1) = ms_stages s \<and> ms_stage (unlocked p s1) = ms_stage s
    \<and> committing_to L s ns e rec data (unlocked p s1)
    \<and> (case finish_answer e (Commit rec) (mem_view s ns (Digest (Commit rec))) of
         Inl err \<Rightarrow> r = (zero_meta, Some err)
           \<and> stage_view (unlocked p s1) = (stage_view s)(sid \<mapsto> (rec, data))
       | Inr result \<Rightarrow> r = (result, None)
           \<and> stage_view (unlocked p s1) = (stage_view s)(sid \<mapsto> (committed rec result
               (cfg_clock (ms_stage s) e 1 + Retention (normalized (ms_stage s))), [])))"
proof (cases "ctx_Err e 0")
  case (Some err)
  then have "memStage_complete ns p e (staged p rec s) = Some ((zero_meta, Some err), staged p rec s)"
    by (simp add: memStage_complete_def)
  with stage_set_inv [OF inv(2) p(1) ok(1) staged_set(1) [OF blob_frame_refl p(2)]] inv(1) Some
  show ?thesis by (simp add: finish_answer_def committing_to_def staged_def)
next
  case None
  let ?s0 = "staged p rec s" and ?v = "mem_view s ns (Digest (Commit rec))"
  let ?exp = "cfg_clock (ms_stage s) e 1 + Retention (normalized (ms_stage s))"
  note named = committing_names [OF L ok]
  have s0: "mem_inv L ?s0" "mem_view ?s0 = mem_view s" "ms_stage ?s0 = ms_stage s"
    "mse_record (ms_stageEntry ?s0 p) = rec" "mse_data (ms_stageEntry ?s0 p) = data"
    using inv(1) p(2) by (simp_all add: staged_def) (simp_all add: set_stage_def)
  obtain s1 where s1: "mem_inv L s1" "blob_frame ?s0 s1"
      "if ?v = None then puts L (mem_view s) ns (Digest (Commit rec)) data (Labels (Commit rec)) (time_Now e 0) (mem_view s1)
       else mem_view s1 = mem_view s"
      "memStage_complete ns p e ?s0 = Some (case complete_answer e (Commit rec) ?v of
          Inl err \<Rightarrow> ((zero_meta, Some err), s1)
        | Inr result \<Rightarrow> ((result, None),
            set_stage p (\<lambda>x. x\<lparr>mse_record := committed rec result ?exp, mse_data := []\<rparr>) s1))"
    using complete_runs [OF s0(1,4,5) named(1) None, of ns, unfolded s0(2,3)] by blast
  show ?thesis
  proof (cases "complete_answer e (Commit rec) ?v")
    case (Inl err)
    with stage_set_inv [OF inv(2) p(1) ok(1) staged_set(1) [OF s1(2) p(2)]] s1 None
    show ?thesis by (simp add: finish_answer_def committing_to_def)
  next
    case (Inr result)
    have "Digest result = Digest (Commit rec)" "Size result = Size (Commit rec)"
      using Inr len named(2)
      by (auto simp: complete_answer_def view_meta_def split: option.splits)
    then have "stage_ok L sid (committed rec result ?exp) []"
      using committed_ok [OF ok] clock_ok_expiry(2) [OF clk] e by simp
    from stage_set_inv [OF inv(2) p(1) this staged_set(2) [OF s1(2) p(2)]] s1 None Inr
    show ?thesis by (simp add: finish_answer_def committing_to_def)
  qed
qed

section \<open>Commit and Abort\<close>

text \<open>The record a \<open>Commit\<close> goes on to complete, or its answer when it needs no completion.\<close>

definition commit_decision :: "'h digest_lib \<Rightarrow> stageRecord \<Rightarrow> meta \<Rightarrow> (error + meta) + stageRecord" where
  "commit_decision L rec m =
     (if State rec = StageAborted then Inl (Inl ErrStageClosed)
      else case prepareCommit L rec m of
        Inl err \<Rightarrow> Inl (Inl err)
      | Inr prepared \<Rightarrow>
          if State rec = StageActive then Inr (rec\<lparr>State := StageCommitting, Commit := prepared\<rparr>)
          else if \<not> stageCommitMatches prepared (Commit rec) then Inl (Inl ErrStageConflict)
          else if State rec = StageCommitted then Inl (Inr (Result rec))
          else Inr rec)"

lemma commit_decision_ok:
  assumes L: "digest_lib_ok L" and ok: "stage_ok L sid rec data" and dec: "commit_decision L rec m = Inr rec'"
  shows "stage_ok L sid rec' data" "State rec' = StageCommitting"
proof -
  obtain ns d where d: "record_shape rec ns" "describes L rec d" "commit_shape L rec d"
      "State rec \<in> {StageActive, StageCommitting} \<longrightarrow> data = d" "ID rec = sid"
    using ok by (auto simp: stage_ok_def)
  have prep: "Digest prepared = data_digest L (Algorithm rec) d \<and> Size prepared = Offset rec"
    if "prepareCommit L rec m = Inr prepared" for prepared
    using that prepareCommit_described [OF d(2,1,3), of m]
    by (auto simp: Let_def split: if_splits sum.splits)
  show "State rec' = StageCommitting"
    using dec d(1) by (auto simp: commit_decision_def record_shape_def split: if_splits sum.splits)
  show "stage_ok L sid rec' data"
    using dec d ok prep
    by (auto simp: commit_decision_def stage_ok_def record_shape_def commit_shape_def describes_def
        stage_states split: if_splits sum.splits)
qed

lemma commit_body_runs:
  assumes st: "State (mse_record (ms_stageEntry s p)) \<in> {StageActive, StageCommitting, StageCommitted, StageAborted}"
  shows "commit_body L ns p e m (locked p s) =
    (case commit_decision L (mse_record (ms_stageEntry s p)) m of
       Inl (Inl err) \<Rightarrow> Some ((zero_meta, Some err), locked p s)
     | Inl (Inr result) \<Rightarrow> Some ((result, None), locked p s)
     | Inr rec \<Rightarrow> memStage_complete ns p e (staged p rec s))"
  using st staged_same [of s p]
  by (auto simp: commit_body_def commit_decision_def staged_def Let_def stage_states split: sum.splits)

definition finished_stage :: "memStores \<Rightarrow> env \<Rightarrow> stageRecord \<Rightarrow> bytes \<Rightarrow> blob_view option \<Rightarrow> stageRecord \<times> bytes" where
  "finished_stage s e rec data v =
     (case finish_answer e (Commit rec) v of
        Inl err \<Rightarrow> (rec, data)
      | Inr result \<Rightarrow>
          (committed rec result (cfg_clock (ms_stage s) e 1 + Retention (normalized (ms_stage s))), []))"

definition finish_result :: "env \<Rightarrow> stageRecord \<Rightarrow> blob_view option \<Rightarrow> meta \<times> error option" where
  "finish_result e rec v =
     (case finish_answer e (Commit rec) v of
        Inl err \<Rightarrow> (zero_meta, Some err) | Inr result \<Rightarrow> (result, None))"

lemma finish_runs:
  assumes L: "digest_lib_ok L" and inv: "mem_inv L s" "mem_stage_inv L s" and clk: "clock_ok s e"
    and p: "ms_stages s sid = Some p" "mse_data (ms_stageEntry s p) = data"
    and ok: "stage_ok L sid rec data" "State rec = StageCommitting"
    and len: "\<And>x. mem_view s ns (Digest (Commit rec)) = Some x \<Longrightarrow> length (fst x) = length data"
  shows "\<exists>s1. memStage_complete ns p (env_after k e) (staged p rec s) =
      Some (finish_result (env_after k e) rec (mem_view s ns (Digest (Commit rec))), s1)
    \<and> mem_inv L (unlocked p s1) \<and> mem_stage_inv L (unlocked p s1)
    \<and> ms_stages (unlocked p s1) = ms_stages s \<and> ms_stage (unlocked p s1) = ms_stage s
    \<and> committing_to L s ns (env_after k e) rec data (unlocked p s1)
    \<and> stage_view (unlocked p s1) = (stage_view s)
        (sid \<mapsto> finished_stage s (env_after k e) rec data (mem_view s ns (Digest (Commit rec))))"
  using finish_spec [where k = k and ns = ns, OF L inv clk refl p ok len]
  by (auto simp: finish_result_def finished_stage_def split: sum.splits)

lemma stage_view_entry:
  "stage_view s sid = Some (rec, data) \<Longrightarrow> ms_stages s sid = Some p \<Longrightarrow>
     mse_record (ms_stageEntry s p) = rec \<and> mse_data (ms_stageEntry s p) = data"
  by (simp add: stage_view_def)

lemma Commit_spec:
  assumes L: "digest_lib_ok L" and inv: "mem_inv L s" "mem_stage_inv L s" and clk: "clock_ok s e"
    and acq: "acquire_answer ns sid e False s = Inr p"
    and view: "stage_view s sid = Some (rec, data)"
    and len: "\<forall>rec' x. commit_decision L rec m = Inr rec' \<longrightarrow>
      mem_view s ns (Digest (Commit rec')) = Some x \<longrightarrow> length (fst x) = length data"
  shows "case commit_decision L rec m of
      Inl (Inl err) \<Rightarrow> memStage_Commit L ns sid e m s = Some ((zero_meta, Some err), s)
    | Inl (Inr result) \<Rightarrow> memStage_Commit L ns sid e m s = Some ((result, None), s)
    | Inr rec' \<Rightarrow>
        let v = mem_view s ns (Digest (Commit rec')); e' = env_after 3 e
        in \<exists>s'. memStage_Commit L ns sid e m s = Some (finish_result e' rec' v, s')
          \<and> mem_inv L s' \<and> mem_stage_inv L s' \<and> committing_to L s ns e' rec' data s'
          \<and> stage_view s' = (stage_view s)(sid \<mapsto> finished_stage s e' rec' data v)"
proof -
  note p = acquire_answer_Inr [OF inv(2) acq]
  note sv = stage_view_entry [OF view p(1)]
  have ok: "stage_ok L sid rec data" using p(3) sv by simp
  have st: "State (mse_record (ms_stageEntry s p)) \<in> {StageActive, StageCommitting, StageCommitted, StageAborted}"
    using p(2) by (simp add: record_shape_def)
  note run = commit_body_runs [OF st, of L ns "env_after 3 e" m]
  show ?thesis
  proof (cases "commit_decision L rec m")
    case (Inl a)
    then show ?thesis
      using run sv locked_entry [OF inv(2) p(1)]
      by (cases a) (simp_all add: memStage_Commit_def locked_method [OF inv(2)] acq)
  next
    case (Inr rec')
    note ok' = commit_decision_ok [OF L ok Inr]
    have "mse_data (ms_stageEntry s p) = data" using sv by simp
    from finish_runs [where k = 3 and ns = ns, OF L inv clk p(1) this ok' len [rule_format, OF Inr]] Inr run sv
    show ?thesis
      by (auto simp: memStage_Commit_def locked_method [OF inv(2)] acq Let_def)
  qed
qed

definition aborted :: "stageRecord \<Rightarrow> time \<Rightarrow> stageRecord" where
  "aborted rec expiry = rec\<lparr>State := StageAborted, ExpiresAt := expiry\<rparr>"

lemma aborted_ok:
  assumes "stage_ok L sid rec data" "State rec = StageActive" "expiry \<noteq> 0"
  shows "stage_ok L sid (aborted rec expiry) []"
proof -
  obtain ns where "record_shape rec ns" "describes L rec data"
    using assms by (auto simp: stage_ok_def)
  with assms show ?thesis
    by (auto simp: stage_ok_def aborted_def describes_def record_shape_def commit_shape_def stage_states
        intro!: exI [of _ data])
qed

lemma Abort_spec:
  assumes L: "digest_lib_ok L" and inv: "mem_inv L s" "mem_stage_inv L s" and clk: "clock_ok s e"
    and acq: "acquire_answer ns sid e True s = Inr p"
    and view: "stage_view s sid = Some (rec, data)"
    and len: "\<And>x. State rec = StageCommitting \<Longrightarrow>
      mem_view s ns (Digest (Commit rec)) = Some x \<Longrightarrow> length (fst x) = length data"
  shows "let v = mem_view s ns (Digest (Commit rec)); e' = env_after 3 e
    in if State rec \<in> {StageCommitted, StageAborted} then memStage_Abort L ns sid e s = Some (None, s)
       else if State rec = StageCommitting then
         \<exists>s'. memStage_Abort L ns sid e s = Some (snd (finish_result e' rec v), s')
          \<and> mem_inv L s' \<and> mem_stage_inv L s' \<and> committing_to L s ns e' rec data s'
          \<and> stage_view s' = (stage_view s)(sid \<mapsto> finished_stage s e' rec data v)
       else
         \<exists>s'. memStage_Abort L ns sid e s = Some (None, s')
          \<and> mem_inv L s' \<and> mem_stage_inv L s' \<and> mem_view s' = mem_view s
          \<and> stage_view s' = (stage_view s)(sid \<mapsto>
              (aborted rec (cfg_clock (ms_stage s) e' 0 + Retention (normalized (ms_stage s))), []))"
proof -
  note p = acquire_answer_Inr [OF inv(2) acq]
  note sv = stage_view_entry [OF view p(1)]
  have ok: "stage_ok L sid rec data" using p(3) sv by simp
  have run: "memStage_Abort L ns sid e s =
    (case abort_body ns p (env_after 3 e) (locked p s) of None \<Rightarrow> None
     | Some (r, s1) \<Rightarrow> Some (r, unlocked p s1))"
    by (simp add: memStage_Abort_def go_run acquire_runs [OF inv(2)] acq release_stage_def unlocked_def
        split: option.splits)
  consider "State rec \<in> {StageCommitted, StageAborted}" | "State rec = StageCommitting" | "State rec = StageActive"
    using p(2) sv by (auto simp: record_shape_def)
  then show ?thesis
  proof cases
    case 1
    then show ?thesis using run sv locked_entry [OF inv(2) p(1)] by (simp add: abort_body_def)
  next
    case 2
    have "mse_data (ms_stageEntry s p) = data" using sv by simp
    from finish_runs [where k = 3 and ns = ns, OF L inv clk p(1) this ok 2 len [OF 2]] 2 run sv staged_same [of s p rec]
    show ?thesis
      by (auto simp: abort_body_def bind_def ret_def stage_states Let_def split: prod.splits)
  next
    case 3
    let ?exp = "cfg_clock (ms_stage s) (env_after 3 e) 0 + Retention (normalized (ms_stage s))"
    let ?s1 = "set_stage p (\<lambda>x. x\<lparr>mse_record := aborted rec ?exp, mse_data := []\<rparr>) (locked p s)"
    have "abort_body ns p (env_after 3 e) (locked p s) = Some (None, ?s1)"
      using 3 sv by (simp add: abort_body_def aborted_def stage_states Let_def)
    moreover note stage_set_inv [OF inv(2) p(1)
        aborted_ok [OF ok 3 clock_ok_expiry(2) [OF clk, of 3 0]] stage_set_locked [OF blob_frame_refl]]
    ultimately show ?thesis using run inv(1) 3 by (simp add: stage_states Let_def)
  qed
qed

end
