(* ===== verification/MemRun.thy ===== *)
theory MemRun
  imports MemStage
begin

text \<open>
  Whole runs of the in-memory stores: every sequence of operations returns and keeps the invariant.
\<close>

definition mem_ok :: "'h digest_lib \<Rightarrow> bytes set \<Rightarrow> memStores \<Rightarrow> bool" where
  "mem_ok L U s \<longleftrightarrow>
     mem_inv L s \<and> mem_stage_inv L s
     \<and> (\<forall>ns d x. mem_view s ns d = Some x \<longrightarrow> fst x \<in> U)
     \<and> (\<forall>sid rec data. stage_view s sid = Some (rec, data) \<longrightarrow>
          State rec \<in> {StageActive, StageCommitting} \<longrightarrow> data \<in> U)"

lemma mem_okI:
  assumes "mem_inv L s" "mem_stage_inv L s" "\<And>ns d x. mem_view s ns d = Some x \<Longrightarrow> fst x \<in> U"
    and "\<And>sid rec data. stage_view s sid = Some (rec, data) \<Longrightarrow>
          State rec \<in> {StageActive, StageCommitting} \<Longrightarrow> data \<in> U"
  shows "mem_ok L U s"
  using assms unfolding mem_ok_def by blast

lemma mem_okD:
  assumes "mem_ok L U s"
  shows "mem_inv L s" "mem_stage_inv L s" "mem_view s ns d = Some x \<Longrightarrow> fst x \<in> U"
    and "stage_view s sid = Some (rec, data) \<Longrightarrow> State rec \<in> {StageActive, StageCommitting} \<Longrightarrow> data \<in> U"
  using assms unfolding mem_ok_def by blast+

lemma mem_view_named:
  assumes "mem_inv L s" "mem_view s ns d = Some x"
  shows "names_bytes L d (fst x)"
proof -
  obtain b where "ms_bs s d = Some b" "fst x = mb_data (ms_blob s b)"
    using mem_inv_view_bytes [OF assms] by blast
  with mem_inv_blob [OF assms(1)] show ?thesis by simp
qed

text \<open>In a run without collisions, what appears is what was added.\<close>

lemma puts_exact:
  assumes ok: "mem_ok L U s" and cf: "collision_free L U" and named: "names_bytes L d data"
    and U: "data \<in> U" and puts: "puts L (mem_view s) ns d data ls t v'"
  shows "v' = (mem_view s)(ns := (mem_view s ns)(d \<mapsto> (data, ls, t)))"
proof -
  obtain x where x: "v' = (mem_view s)(ns := (mem_view s ns)(d \<mapsto> (x, ls, t)))" "names_bytes L d x"
      "\<forall>ns' y. mem_view s ns' d = Some y \<longrightarrow> x = fst y" "(\<forall>ns'. mem_view s ns' d = None) \<longrightarrow> x = data"
    using puts unfolding puts_def by blast
  have "x = data"
  proof (cases "\<exists>ns' y. mem_view s ns' d = Some y")
    case True
    then have "x \<in> U" using x(3) mem_okD(3) [OF ok] by metis
    with cf U x(2) named show ?thesis unfolding collision_free_def by blast
  next
    case False
    with x(4) show ?thesis by (metis option.exhaust)
  qed
  with x(1) show ?thesis by simp
qed

lemma same_bytes:
  assumes "mem_ok L U s" "collision_free L U" "names_bytes L d data" "data \<in> U" "mem_view s ns d = Some x"
  shows "fst x = data"
  using assms mem_okD(3) [OF assms(1,5)] mem_view_named [OF mem_okD(1) [OF assms(1)] assms(5)]
  unfolding collision_free_def by blast

lemma view_in_U_upd:
  "(\<And>ns d x. v ns d = Some x \<Longrightarrow> fst x \<in> U) \<Longrightarrow> data \<in> U \<Longrightarrow>
   (v(ns := (v ns)(d \<mapsto> (data, ls, t)))) ns' d' = Some x \<Longrightarrow> fst x \<in> U"
  by (auto split: if_splits)

text \<open>A stage whose new state takes up no bytes outside \<open>U\<close>.\<close>

lemma mem_ok_upd:
  assumes ok: "mem_ok L U s" and inv: "mem_inv L s'" "mem_stage_inv L s'"
    and view: "\<And>ns d x. mem_view s' ns d = Some x \<Longrightarrow> fst x \<in> U"
    and st: "stage_view s' = (stage_view s)(sid \<mapsto> (rec, data))"
    and U: "State rec \<in> {StageActive, StageCommitting} \<Longrightarrow> data \<in> U"
  shows "mem_ok L U s'"
proof (rule mem_okI [OF inv view])
  fix sid' rec' data'
  assume "stage_view s' sid' = Some (rec', data')" "State rec' \<in> {StageActive, StageCommitting}"
  then show "data' \<in> U" using st U mem_okD(4) [OF ok, of sid' rec' data'] by (auto split: if_splits)
qed

lemma committing_exact:
  assumes L: "digest_lib_ok L" and ok: "mem_ok L U s" and cf: "collision_free L U"
    and st: "stage_ok L sid rec data" "State rec = StageCommitting" and U: "data \<in> U"
    and c: "committing_to L s ns e rec data s'"
  shows "mem_view s' = (if ctx_Err e 0 = None \<and> mem_view s ns (Digest (Commit rec)) = None
    then (mem_view s)(ns := (mem_view s ns)(Digest (Commit rec) \<mapsto> (data, Labels (Commit rec), time_Now e 0)))
    else mem_view s)"
  using c puts_exact [OF ok cf committing_names(1) [OF L st] U]
  by (auto simp: committing_to_def split: if_splits)

lemma finish_ok:
  assumes L: "digest_lib_ok L" and ok: "mem_ok L U s" and cf: "collision_free L U"
    and st: "stage_ok L sid rec data" "State rec = StageCommitting" and U: "data \<in> U"
    and c: "committing_to L s ns e rec data s'"
    and s': "mem_inv L s'" "mem_stage_inv L s'"
      "stage_view s' = (stage_view s)(sid \<mapsto> finished_stage s e rec data v)"
  shows "mem_ok L U s'"
proof -
  obtain rec' data' where f: "finished_stage s e rec data v = (rec', data')"
      "State rec' \<in> {StageActive, StageCommitting} \<Longrightarrow> data' \<in> U"
    using U by (cases "finish_answer e (Commit rec) v")
      (auto simp: finished_stage_def committed_def stage_states)
  show ?thesis
  proof (rule mem_ok_upd [OF ok s'(1,2) _ s'(3) [unfolded f(1)] f(2)])
    fix ns d x
    assume "mem_view s' ns d = Some x"
    then show "fst x \<in> U"
      unfolding committing_exact [OF L ok cf st U c]
      using U mem_okD(3) [OF ok] by (auto split: if_splits)
  qed
qed

section \<open>Pruning\<close>

lemma mem_ok_ss: "mem_ok L U (s\<lparr>ms_ss := x\<rparr>) = mem_ok L U s" "mem_view (s\<lparr>ms_ss := x\<rparr>) = mem_view s"
  "stage_view (s\<lparr>ms_ss := x\<rparr>) = stage_view s"
proof -
  show v: "mem_view (s\<lparr>ms_ss := x\<rparr>) = mem_view s" by (rule mem_view_cong) simp_all
  show st: "stage_view (s\<lparr>ms_ss := x\<rparr>) = stage_view s" by (simp add: stage_view_def fun_eq_iff)
  have "mem_inv L (s\<lparr>ms_ss := x\<rparr>) = mem_inv L s" "mem_stage_inv L (s\<lparr>ms_ss := x\<rparr>) = mem_stage_inv L s"
    by (simp_all add: mem_inv_def holders_def mem_stage_inv_def)
  then show "mem_ok L U (s\<lparr>ms_ss := x\<rparr>) = mem_ok L U s" unfolding mem_ok_def v st by simp
qed

definition drop_stage :: "string \<Rightarrow> nat \<Rightarrow> memStores \<Rightarrow> memStores" where
  "drop_stage key p s = set_stage p (\<lambda>x. x\<lparr>mse_data := []\<rparr>) (s\<lparr>ms_stages := (ms_stages s)(key := None)\<rparr>)"

lemma drop_stage_ok:
  assumes ok: "mem_ok L U (unlocked p s)" and p: "ms_stages s key = Some p"
  shows "mem_ok L U (unlocked p (drop_stage key p s))"
    and "mem_view (unlocked p (drop_stage key p s)) = mem_view (unlocked p s)"
    and "stage_view (unlocked p (drop_stage key p s)) = (stage_view (unlocked p s))(key := None)"
proof -
  let ?s = "unlocked p (drop_stage key p s)" and ?u = "unlocked p s"
  show view: "mem_view ?s = mem_view ?u"
    by (rule mem_view_cong) (simp_all add: unlocked_def drop_stage_def set_stage_def)
  have only: "sid = key" if "ms_stages s sid = Some p" for sid
    using mem_stage_inv_inj [OF mem_okD(2) [OF ok], of sid p key] that p
    by (simp add: unlocked_def set_stage_def)
  show st: "stage_view ?s = (stage_view ?u)(key := None)"
  proof
    fix sid
    show "stage_view ?s sid = ((stage_view ?u)(key := None)) sid"
      using only [of sid] by (cases "ms_stages s sid")
        (auto simp: stage_view_def unlocked_def drop_stage_def set_stage_def)
  qed
  have "mem_inv L ?s"
    using mem_okD(1) [OF ok]
    by (simp add: drop_stage_def mem_inv_def holders_def unlocked_def set_stage_def)
  moreover have "mem_stage_inv L ?s"
    unfolding mem_stage_inv_def
  proof (intro conjI allI impI, goal_cases)
    case (1 sid q)
    then have "ms_stages ?u sid = Some q"
      by (auto simp: unlocked_def drop_stage_def set_stage_def split: if_splits)
    with mem_stage_inv_entry(1) [OF mem_okD(2) [OF ok]] show ?case
      by (simp add: unlocked_def drop_stage_def set_stage_def)
  next
    case (2 sid q)
    then have "ms_stages ?u sid = Some q"
      by (auto simp: unlocked_def drop_stage_def set_stage_def split: if_splits)
    from mem_stage_inv_entry(2) [OF mem_okD(2) [OF ok] this] show ?case
      by (auto simp: unlocked_def drop_stage_def set_stage_def split: if_splits)
  next
    case (3 sid q)
    then have q: "ms_stages ?u sid = Some q" "q \<noteq> p"
      using only [of sid] by (auto simp: unlocked_def drop_stage_def set_stage_def split: if_splits)
    with mem_stage_inv_entry(3) [OF mem_okD(2) [OF ok] q(1)] show ?case
      by (simp add: unlocked_def drop_stage_def set_stage_def)
  qed (use mem_okD(2) [OF ok] in \<open>simp_all add: mem_stage_inv_def unlocked_def drop_stage_def set_stage_def\<close>)
  ultimately show "mem_ok L U ?s"
    using ok unfolding mem_ok_def view st by auto
qed

definition never_expires :: "env \<Rightarrow> StageConfig \<Rightarrow> stageRecord \<Rightarrow> bool" where
  "never_expires e cfg rec \<longleftrightarrow> (\<forall>n. \<not> expired rec (cfg_clock cfg (env_after n e) 2))"

text \<open>
  One visit of \<open>PruneStages\<close>: it returns, keeps the invariant, and leaves other stages and a
  stage that is neither being committed nor expired alone; it removes one that is expired.
\<close>

lemma prune_expired_runs:
  assumes ok: "mem_ok L U (unlocked p s)" and p: "ms_stages s key = Some p"
  shows "\<exists>r s1. prune_expired key p e result removed s = Some (r, s1)
    \<and> mem_ok L U (unlocked p s1) \<and> mem_view (unlocked p s1) = mem_view (unlocked p s)
    \<and> ms_stage s1 = ms_stage s
    \<and> stage_view (unlocked p s1) =
        (if expired (mse_record (ms_stageEntry s p)) (cfg_clock (ms_stage s) e 2)
         then (stage_view (unlocked p s))(key := None) else stage_view (unlocked p s))"
  using drop_stage_ok [OF assms] ok
  by (auto simp: prune_expired_def drop_stage_def [symmetric] Let_def)
     (simp_all add: drop_stage_def set_stage_def)

definition prune_effect ::
  "string \<Rightarrow> env \<Rightarrow> memStores \<Rightarrow> memStores \<Rightarrow> bool" where
  "prune_effect key e s s' \<longleftrightarrow>
     ms_stage s' = ms_stage s
     \<and> (\<forall>sid. sid \<noteq> key \<longrightarrow> stage_view s' sid = stage_view s sid)
     \<and> (\<forall>rec data. stage_view s key = Some (rec, data) \<longrightarrow> State rec \<noteq> StageCommitting \<longrightarrow>
          mem_view s' = mem_view s
          \<and> stage_view s' key =
              (if expired rec (cfg_clock (ms_stage s) e 2) then None else Some (rec, data)))"

lemma prune_visit_runs:
  assumes L: "digest_lib_ok L" and ok: "mem_ok L U s" and cf: "collision_free L U"
    and clk: "clock_ok s e" and p: "ms_stages s key = Some p"
  shows "\<exists>r s'. deferred (prune_visit key p (env_after k e) result removed) (\<lambda>_. release_stage p) (locked p s) = Some (r, s')
    \<and> mem_ok L U s' \<and> prune_effect key (env_after k e) s s'"
proof -
  let ?e = "env_after k e"
  let ?rec = "mse_record (ms_stageEntry s p)" and ?data = "mse_data (ms_stageEntry s p)"
  note inv = mem_okD(1,2) [OF ok]
  note P = mem_stage_inv_entry [OF inv(2) p]
  have sv: "stage_view s key = Some (?rec, ?data)" using p by (simp add: stage_view_def)
  have un: "unlocked p (locked p s) = s" by (rule locked_entry [OF inv(2) p])
  have fin: "\<exists>r s'. deferred m (\<lambda>_. release_stage p) t = Some (r, s') \<and> Q s'"
    if "\<exists>r s1. m t = Some (r, s1) \<and> Q (unlocked p s1)"
    for m :: "(memStores, 'b) go" and t and Q :: "memStores \<Rightarrow> bool"
    using that by (auto simp: deferred_def bind_def ret_def release_stage_def modify_def unlocked_def)
  show ?thesis
  proof (cases "State ?rec = StageCommitting")
    case False
    have "prune_visit key p ?e result removed (locked p s) = prune_expired key p ?e result removed (locked p s)"
      using False p by (simp add: prune_visit_def Let_def)
    moreover obtain r s1 where s1: "prune_expired key p ?e result removed (locked p s) = Some (r, s1)"
      "mem_ok L U (unlocked p s1)" "mem_view (unlocked p s1) = mem_view s" "ms_stage s1 = ms_stage s"
      "stage_view (unlocked p s1) = (if expired ?rec (cfg_clock (ms_stage s) ?e 2)
         then (stage_view s)(key := None) else stage_view s)"
      using prune_expired_runs [of L U p "locked p s" key ?e result removed] ok p un by auto
    ultimately show ?thesis
      using sv False by (intro fin exI [of _ r] exI [of _ s1])
        (auto simp: prune_effect_def unlocked_def set_stage_def)
  next
    case True
    obtain ns where ns: "Namespace ?rec = namespaceSegment ns"
      using P(3) by (auto simp: stage_ok_def record_shape_def)
    obtain ss where ss: "ss = (if ns \<in> set (ms_ss s) then ms_ss s else ms_ss s @ [ns])" by blast
    let ?s = "s\<lparr>ms_ss := ss\<rparr>"
    have ok': "mem_ok L U ?s" using ok by (simp add: mem_ok_ss)
    note inv' = mem_okD(1,2) [OF ok']
    have U: "?data \<in> U" using mem_okD(4) [OF ok sv] True by simp
    have len: "length (fst x) = length ?data" if "mem_view ?s ns (Digest (Commit ?rec)) = Some x" for x
      using same_bytes [OF ok' cf committing_names(1) [OF L P(3) True] U that] by simp
    have clk': "clock_ok ?s e" using clk by (simp add: clock_ok_def)
    obtain s1 where s1: "memStage_complete ns p ?e (staged p ?rec ?s) =
        Some (finish_result ?e ?rec (mem_view ?s ns (Digest (Commit ?rec))), s1)"
      "mem_inv L (unlocked p s1)" "mem_stage_inv L (unlocked p s1)"
      "committing_to L ?s ns ?e ?rec ?data (unlocked p s1)"
      "ms_stages (unlocked p s1) = ms_stages s" "ms_stage (unlocked p s1) = ms_stage s"
      "stage_view (unlocked p s1) = (stage_view ?s)
         (key \<mapsto> finished_stage ?s ?e ?rec ?data (mem_view ?s ns (Digest (Commit ?rec))))"
      using finish_runs [where k = k and ns = ns, OF L inv' clk' _ _ P(3) True len] p by auto
    have ok1: "mem_ok L U (unlocked p s1)"
      by (rule finish_ok [OF L ok' cf P(3) True U s1(4,2,3,7)])
    have use: "bind (MemStores_Use ns) f (locked p s) = f ns (locked p ?s)" for f :: "string \<Rightarrow> (memStores, 'b) go"
      unfolding ss by (cases s) (simp add: bind_def MemStores_Use_def locked_def set_stage_def)
    have inner: "bind (memStage_complete ns p ?e) f (locked p ?s) =
        f (finish_result ?e ?rec (mem_view ?s ns (Digest (Commit ?rec)))) s1" for f :: "_ \<Rightarrow> (memStores, 'b) go"
      using s1(1) staged_same [of ?s p ?rec] by (simp add: bind_def)
    have visit: "prune_visit key p ?e result removed (locked p s) =
        (case snd (finish_result ?e ?rec (mem_view ?s ns (Digest (Commit ?rec)))) of
           Some err \<Rightarrow> Some ((errors_Join [result, Some err], removed), s1)
         | None \<Rightarrow> prune_expired key p ?e result removed s1)"
      using True p ns
      by (simp add: prune_visit_def use inner ret_def Let_def case_prod_beta split: option.splits)
    have p1: "ms_stages s1 key = Some p" using s1(5) p by (simp add: unlocked_def set_stage_def)
    have s1': "ms_stage s1 = ms_stage s" using s1(6) by (simp add: unlocked_def set_stage_def)
    have others: "stage_view (unlocked p s1) sid = stage_view s sid" if "sid \<noteq> key" for sid
      using that s1(7) by (simp add: mem_ok_ss)
    have effect: "prune_effect key ?e s s'"
      if "ms_stage s' = ms_stage s" "\<forall>sid. sid \<noteq> key \<longrightarrow> stage_view s' sid = stage_view s sid" for s'
      using that sv True by (simp add: prune_effect_def)
    obtain r2 s2 where s2: "prune_expired key p ?e result removed s1 = Some (r2, s2)"
      "mem_ok L U (unlocked p s2)" "ms_stage s2 = ms_stage s1"
      "\<forall>sid. sid \<noteq> key \<longrightarrow> stage_view (unlocked p s2) sid = stage_view (unlocked p s1) sid"
      using prune_expired_runs [OF ok1 p1, of ?e result removed] by (auto split: if_splits)
    have ms: "ms_stage (unlocked p t) = ms_stage t" for t by (simp add: unlocked_def set_stage_def)
    have "\<exists>r t. prune_visit key p ?e result removed (locked p s) = Some (r, t)
        \<and> mem_ok L U (unlocked p t) \<and> prune_effect key ?e s (unlocked p t)"
      using visit ok1 s2 others s1' effect ms
      by (cases "snd (finish_result ?e ?rec (mem_view ?s ns (Digest (Commit ?rec))))") auto
    then show ?thesis by (rule fin)
  qed
qed

lemma env_after_after [simp]: "env_after j (env_after k e) = env_after (j + k) e"
  by (simp add: env_after_def add.assoc)

lemma prune_effect_keeps:
  assumes "prune_effect key e s s'" "stage_view s sid = Some (rec, data)" "State rec \<noteq> StageCommitting"
    and "\<not> expired rec (cfg_clock (ms_stage s) e 2)"
  shows "stage_view s' sid = Some (rec, data)"
  using assms by (cases "sid = key") (auto simp: prune_effect_def)

lemma prune_range_runs:
  assumes L: "digest_lib_ok L" and ok: "mem_ok L U s" and cf: "collision_free L U" and clk: "clock_ok s e"
  shows "\<exists>r s'. prune_range order (env_after k e) result removed s = Some (r, s')
    \<and> mem_ok L U s' \<and> ms_stage s' = ms_stage s
    \<and> (\<forall>sid rec data. stage_view s sid = Some (rec, data) \<longrightarrow> State rec \<noteq> StageCommitting \<longrightarrow>
         never_expires e (ms_stage s) rec \<longrightarrow> stage_view s' sid = Some (rec, data))"
  using ok clk
proof (induction order arbitrary: k s result removed)
  case (Cons key rest)
  show ?case
  proof (cases "ms_stages s key")
    case None
    with Cons.IH [OF Cons.prems, of k result removed] show ?thesis by simp
  next
    case (Some p)
    show ?thesis
    proof (cases "ctx_Err (env_after k e) 0")
      case c: (Some err)
      with Some Cons.prems show ?thesis by simp
    next
      case None
      have free: "\<not> mse_lock (ms_stageEntry s p)"
        by (rule mem_stage_inv_entry(2) [OF mem_okD(2) [OF Cons.prems(1)] Some])
      obtain r1 s1 where s1: "deferred (prune_visit key p (env_after (Suc k) e) result removed)
          (\<lambda>_. release_stage p) (locked p s) = Some (r1, s1)" "mem_ok L U s1"
          "prune_effect key (env_after (Suc k) e) s s1"
        using prune_visit_runs [OF L Cons.prems(1) cf Cons.prems(2) Some, of "Suc k" result removed] by blast
      obtain result' removed' where r1: "r1 = (result', removed')" by (cases r1)
      have cfg: "ms_stage s1 = ms_stage s" "clock_ok s1 e"
        using s1(3) Cons.prems(2) by (simp_all add: prune_effect_def clock_ok_def)
      obtain r' s' where s': "prune_range rest (env_after (5 + k) e) result' removed' s1 = Some (r', s')"
          "mem_ok L U s'" "ms_stage s' = ms_stage s1"
          "\<forall>sid rec data. stage_view s1 sid = Some (rec, data) \<longrightarrow> State rec \<noteq> StageCommitting \<longrightarrow>
             never_expires e (ms_stage s1) rec \<longrightarrow> stage_view s' sid = Some (rec, data)"
        using Cons.IH [OF s1(2) cfg(2), of "5 + k" result' removed'] by blast
      have keeps: "stage_view s' sid = Some (rec, data)"
        if "stage_view s sid = Some (rec, data)" "State rec \<noteq> StageCommitting" "never_expires e (ms_stage s) rec"
        for sid rec data
      proof -
        have "\<not> expired rec (cfg_clock (ms_stage s) (env_after (Suc k) e) 2)"
          using that(3) unfolding never_expires_def by blast
        from prune_effect_keeps [OF s1(3) that(1,2) this] that(2,3) s'(4) cfg(1) show ?thesis by metis
      qed
      have "prune_range (key # rest) (env_after k e) result removed s = Some (r', s')"
        using Some None free s1(1) s'(1) r1 by (simp add: locked_def add.commute)
      with s' keeps cfg show ?thesis by auto
    qed
  qed
qed auto

lemma PruneStages_runs:
  assumes L: "digest_lib_ok L" and ok: "mem_ok L U s" and cf: "collision_free L U" and clk: "clock_ok s e"
  shows "\<exists>r s'. PruneStages order e s = Some (r, s') \<and> mem_ok L U s'
    \<and> (\<forall>sid rec data. stage_view s sid = Some (rec, data) \<longrightarrow> State rec \<noteq> StageCommitting \<longrightarrow>
         never_expires e (ms_stage s) rec \<longrightarrow> stage_view s' sid = Some (rec, data))"
proof -
  have e0: "env_after 0 e = e" by (simp add: env_after_def)
  obtain result removed s' where "prune_range order e None 0 s = Some ((result, removed), s')"
    and rest: "mem_ok L U s'" "\<forall>sid rec data. stage_view s sid = Some (rec, data) \<longrightarrow> State rec \<noteq> StageCommitting \<longrightarrow>
         never_expires e (ms_stage s) rec \<longrightarrow> stage_view s' sid = Some (rec, data)"
    using prune_range_runs [OF L ok cf clk, of order 0 None 0, unfolded e0] by auto
  then show ?thesis
    by (cases "ctx_Err e (5 * length order)") (auto simp: PruneStages_def bind_def ret_def)
qed

section \<open>Operations one after the other\<close>

datatype mem_op =
    Op_Add string env meta reader
  | Op_Open string env string
  | Op_Label string env string labels
  | Op_Erase string env string
  | Op_Link string env string mem_source
  | Op_Begin "error + bytes" string env string
  | Op_StageStat string string env
  | Op_Append string string env int reader
  | Op_Commit string string env meta
  | Op_Abort string string env
  | Op_Prune "string list" env

fun mem_exec :: "'h digest_lib \<Rightarrow> mem_op \<Rightarrow> memStores \<Rightarrow> memStores option" where
  "mem_exec L (Op_Add ns e m r) s = map_option snd (MemStore_Add L ns e m r s)"
| "mem_exec L (Op_Open ns e d) s = map_option snd (MemStore_Open ns e d s)"
| "mem_exec L (Op_Label ns e d ls) s = map_option snd (MemStore_Label ns e d ls s)"
| "mem_exec L (Op_Erase ns e d) s = map_option snd (MemStore_Erase ns e d s)"
| "mem_exec L (Op_Link ns e d from) s = map_option snd (MemStore_Link L ns e d from s)"
| "mem_exec L (Op_Begin rnd ns e algo) s = map_option snd (MemStore_Begin L rnd ns e algo s)"
| "mem_exec L (Op_StageStat ns sid e) s = map_option snd (memStage_Stat L ns sid e s)"
| "mem_exec L (Op_Append ns sid e off r) s = map_option snd (memStage_Append L ns sid e off r s)"
| "mem_exec L (Op_Commit ns sid e m) s = map_option snd (memStage_Commit L ns sid e m s)"
| "mem_exec L (Op_Abort ns sid e) s = map_option snd (memStage_Abort L ns sid e s)"
| "mem_exec L (Op_Prune order e) s = map_option snd (PruneStages order e s)"

text \<open>
  What the surroundings owe an operation: bytes among those the run handles, a clock past the
  zero time, sixteen random bytes, and an upload of less than \<open>2 ^ 63\<close> bytes.
\<close>

fun op_ok :: "bytes set \<Rightarrow> memStores \<Rightarrow> mem_op \<Rightarrow> bool" where
  "op_ok U s (Op_Add ns e m r) = (fst (io_Copy r) \<in> U)"
| "op_ok U s (Op_Begin rnd ns e algo) =
     (clock_ok s e \<and> [] \<in> U \<and> (\<forall>b. rnd = Inr b \<longrightarrow> length b = 16))"
| "op_ok U s (Op_Append ns sid e off r) =
     (clock_ok s e \<and> (\<forall>rec data. stage_view s sid = Some (rec, data) \<longrightarrow>
        length (data @ fst (io_Copy r)) < 2 ^ 63
        \<and> (\<forall>x. append_answer rec (env_after 3 e) off r = Inr x \<longrightarrow> data @ x \<in> U)))"
| "op_ok U s (Op_Commit ns sid e m) = clock_ok s e"
| "op_ok U s (Op_Abort ns sid e) = clock_ok s e"
| "op_ok U s (Op_Prune order e) = clock_ok s e"
| "op_ok U s op = True"

lemma mem_ok_blob_op:
  assumes ok: "mem_ok L U s" and s': "mem_inv L s'" "blob_frame s s'"
    and view: "\<And>ns d x. mem_view s' ns d = Some x \<Longrightarrow> fst x \<in> U"
  shows "mem_ok L U s'"
  using blob_frame_stage_inv [OF s'(2) mem_okD(2) [OF ok]] blob_frame_stage_view [OF s'(2)] s'(1) view
    mem_okD(4) [OF ok]
  by (intro mem_okI) auto

lemma Add_ok:
  assumes L: "digest_lib_ok L" and ok: "mem_ok L U s" and cf: "collision_free L U"
    and U: "fst (io_Copy r) \<in> U" and ans: "add_answer L (mem_view s ns) m r = (m', err)"
  shows "\<exists>s'. MemStore_Add L ns e m r s = Some ((m', err), s') \<and> mem_ok L U s'
    \<and> mem_view s' = (if err = None
        then (mem_view s)(ns := (mem_view s ns)(Digest m' \<mapsto> (fst (io_Copy r), Labels m, time_Now e 0)))
        else mem_view s)"
proof -
  obtain s' where s': "MemStore_Add L ns e m r s = Some ((m', err), s')" "mem_inv L s'" "blob_frame s s'"
    and eff: "if err = None
       then puts L (mem_view s) ns (Digest m') (fst (io_Copy r)) (Labels m) (time_Now e 0) (mem_view s')
         \<and> names_bytes L (Digest m') (fst (io_Copy r)) \<and> Size m' = int (length (fst (io_Copy r)))
         \<and> Labels m' = Labels m
       else mem_view s' = mem_view s"
    using Add_spec [OF L mem_okD(1) [OF ok] ans] by blast
  have view: "mem_view s' = (if err = None
        then (mem_view s)(ns := (mem_view s ns)(Digest m' \<mapsto> (fst (io_Copy r), Labels m, time_Now e 0)))
        else mem_view s)"
    using eff puts_exact [OF ok cf _ U] by (auto split: if_splits)
  have "mem_ok L U s'"
    by (rule mem_ok_blob_op [OF ok s'(2,3)])
       (use U mem_okD(3) [OF ok] in \<open>auto simp: view split: if_splits\<close>)
  with s'(1) view show ?thesis by blast
qed

lemma Label_ok:
  assumes ok: "mem_ok L U s"
  shows "\<exists>s'. MemStore_Label ns e d ls s =
      Some (if mem_view s ns d = None then Some ErrNotExist else None, s') \<and> mem_ok L U s'
    \<and> mem_view s' = (case mem_view s ns d of None \<Rightarrow> mem_view s
         | Some (data, _, _) \<Rightarrow> (mem_view s)(ns := (mem_view s ns)(d \<mapsto> (data, ls, time_Now e 0))))"
proof -
  obtain s' where s': "MemStore_Label ns e d ls s =
      Some (if mem_view s ns d = None then Some ErrNotExist else None, s')" "mem_inv L s'" "blob_frame s s'"
    and view: "mem_view s' = (case mem_view s ns d of None \<Rightarrow> mem_view s
         | Some (data, _, _) \<Rightarrow> (mem_view s)(ns := (mem_view s ns)(d \<mapsto> (data, ls, time_Now e 0))))"
    using Label_spec [OF mem_okD(1) [OF ok]] by blast
  have "mem_ok L U s'"
    by (rule mem_ok_blob_op [OF ok s'(2,3)])
       (use mem_okD(3) [OF ok] in \<open>fastforce simp: view split: if_splits option.splits\<close>)
  with s'(1) view show ?thesis by blast
qed

lemma Erase_ok:
  assumes ok: "mem_ok L U s"
  shows "\<exists>s'. MemStore_Erase ns e d s = Some (None, s') \<and> mem_ok L U s'
    \<and> mem_view s' = (mem_view s)(ns := (mem_view s ns)(d := None))"
proof -
  obtain s' where s': "MemStore_Erase ns e d s = Some (None, s')" "mem_inv L s'" "blob_frame s s'"
    and view: "mem_view s' = (mem_view s)(ns := (mem_view s ns)(d := None))"
    using Erase_spec [OF mem_okD(1) [OF ok]] by blast
  have "mem_ok L U s'"
    by (rule mem_ok_blob_op [OF ok s'(2,3)])
       (use mem_okD(3) [OF ok] in \<open>auto simp: view split: if_splits\<close>)
  with s'(1) view show ?thesis by blast
qed

lemma Link_ok:
  assumes L: "digest_lib_ok L" and ok: "mem_ok L U s"
    and ans: "link_answer L (ms_self s) (mem_view s) ns e d from = (m, err)"
  shows "\<exists>s'. MemStore_Link L ns e d from s = Some ((m, err), s') \<and> mem_ok L U s'
    \<and> (if err = None
       then \<exists>g source x. from = Mem_source g source \<and> mem_view s source d = Some x
              \<and> mem_view s' = (mem_view s)(ns := (mem_view s ns)(d \<mapsto>
                                 (fst x, fst (snd x), time_Now e 0)))
       else mem_view s' = mem_view s)"
proof -
  obtain s' where s': "MemStore_Link L ns e d from s = Some ((m, err), s')" "mem_inv L s'" "blob_frame s s'"
    and eff: "if err = None
       then \<exists>g source x. from = Mem_source g source \<and> mem_view s source d = Some x
              \<and> mem_view s' = (mem_view s)(ns := (mem_view s ns)(d \<mapsto>
                                 (fst x, fst (snd x), time_Now e 0)))
       else mem_view s' = mem_view s"
    using Link_spec [OF L mem_okD(1) [OF ok] ans] by blast
  have "mem_ok L U s'"
    by (rule mem_ok_blob_op [OF ok s'(2,3)])
       (use eff mem_okD(3) [OF ok] in \<open>fastforce split: if_splits\<close>)
  with s'(1) eff show ?thesis by blast
qed

lemma newStageRecord_Inr:
  assumes "newStageRecord L rnd ns algo cfg e = Inr r"
  obtains b where "rnd = Inr b" "(if algo = '''' then Canonical else algo) \<in> set algorithms"
    "ID r = hex_encode b"
  using assms
  by (auto simp: newStageRecord_def stageHashRestore_def algorithms_def Canonical_def Let_def
      split: sum.splits if_splits)

lemma new_stage_entry_ok:
  assumes "mem_ok L U s"
  shows "mem_ok L U (s\<lparr>ms_next := Suc (ms_next s),
    ms_stageEntry := (ms_stageEntry s)(ms_next s := x)\<rparr>)" (is "mem_ok L U ?s")
proof -
  have "mem_view ?s = mem_view s" by (rule mem_view_cong) simp_all
  moreover have "stage_view ?s sid = stage_view s sid" for sid
    using mem_stage_inv_entry(1) [OF mem_okD(2) [OF assms], of sid]
    by (cases "ms_stages s sid") (auto simp: stage_view_def)
  moreover have "mem_inv L ?s"
    using mem_okD(1) [OF assms] unfolding mem_inv_def holders_def by (auto simp: less_Suc_eq)
  moreover have "mem_stage_inv L ?s"
    using mem_okD(2) [OF assms] unfolding mem_stage_inv_def by (auto simp: less_Suc_eq)
  ultimately show ?thesis using assms unfolding mem_ok_def by auto
qed

lemma Begin_ok:
  assumes L: "digest_lib_ok L" and ok: "mem_ok L U s" and op: "op_ok U s (Op_Begin rnd ns e algo)"
  shows "\<exists>r s'. MemStore_Begin L rnd ns e algo s = Some (r, s') \<and> mem_ok L U s'"
proof (cases "ctx_Err e 0")
  case (Some err)
  with ok show ?thesis by (simp add: MemStore_Begin_def)
next
  case ctx: None
  show ?thesis
  proof (cases "newStageRecord L rnd ns algo (ms_stage s) e")
    case (Inl err)
    with ctx ok show ?thesis by (simp add: MemStore_Begin_def)
  next
    case (Inr r)
    then obtain b where b: "rnd = Inr b" "(if algo = '''' then Canonical else algo) \<in> set algorithms"
        "ID r = hex_encode b" by (rule newStageRecord_Inr)
    show ?thesis
    proof (cases "ms_stages s (hex_encode b)")
      case None
      obtain r' s' where s': "MemStore_Begin L (Inr b) ns e algo s = Some (Inr (hex_encode b), s')"
          "mem_inv L s'" "mem_stage_inv L s'" "mem_view s' = mem_view s"
          "stage_view s' = (stage_view s)(hex_encode b \<mapsto> (r', []))"
        using Begin_spec [where ns = ns, OF L mem_okD(1,2) [OF ok] _ b(2) _ ctx None] op b(1)
        by simp blast
      have "mem_ok L U s'"
        by (rule mem_ok_upd [OF ok s'(2,3) _ s'(5)]) (use op mem_okD(3) [OF ok] s'(4) in auto)
      with s'(1) b(1) show ?thesis by blast
    next
      case (Some q)
      with Inr b ctx new_stage_entry_ok [OF ok] show ?thesis
        by (simp add: MemStore_Begin_def Let_def)
    qed
  qed
qed

lemma Append_ok:
  assumes L: "digest_lib_ok L" and ok: "mem_ok L U s" and op: "op_ok U s (Op_Append ns sid e off r)"
  shows "\<exists>res s'. memStage_Append L ns sid e off r s = Some (res, s') \<and> mem_ok L U s'"
proof (cases "acquire_answer ns sid e False s")
  case (Inl err)
  with ok show ?thesis by (simp add: memStage_Append_def locked_method [OF mem_okD(2) [OF ok]])
next
  case (Inr p)
  note p = acquire_answer_Inr [OF mem_okD(2) [OF ok] Inr]
  obtain rec data where v: "stage_view s sid = Some (rec, data)" using p(1) by (auto simp: stage_view_def)
  note spec = Append_spec [OF L mem_okD(1,2) [OF ok] _ Inr v, of r off]
  show ?thesis
  proof (cases "append_answer rec (env_after 3 e) off r")
    case a: (Inl err)
    then show ?thesis using spec op v ok by auto
  next
    case a: (Inr x)
    then have U: "data @ x \<in> U" using op v by simp
    obtain rec' s' where s': "memStage_Append L ns sid e off r s = Some ((int (length (data @ x)), None), s')"
      "mem_inv L s'" "mem_stage_inv L s'" "mem_view s' = mem_view s"
      "stage_view s' = (stage_view s)(sid \<mapsto> (rec', data @ x))"
      using spec op v a by auto
    have "mem_ok L U s'"
      by (rule mem_ok_upd [OF ok s'(2,3) _ s'(5)]) (use U mem_okD(3) [OF ok] s'(4) in auto)
    with s'(1) show ?thesis by blast
  qed
qed

text \<open>The bytes that a commit finds under its digest are its own.\<close>

lemma commit_len:
  assumes L: "digest_lib_ok L" and ok: "mem_ok L U s" and cf: "collision_free L U"
    and st: "stage_ok L sid rec data" "State rec = StageCommitting" and U: "data \<in> U"
    and v: "mem_view s ns (Digest (Commit rec)) = Some x"
  shows "length (fst x) = length data"
  using same_bytes [OF ok cf committing_names(1) [OF L st] U v] by simp

lemma commit_decision_U:
  assumes ok: "mem_ok L U s" and v: "stage_view s sid = Some (rec, data)"
    and p: "record_shape rec ns" and dec: "commit_decision L rec m = Inr rec'"
  shows "data \<in> U"
  using mem_okD(4) [OF ok v] p dec
  by (auto simp: commit_decision_def record_shape_def split: if_splits sum.splits)

lemma Commit_ok:
  assumes L: "digest_lib_ok L" and ok: "mem_ok L U s" and cf: "collision_free L U" and clk: "clock_ok s e"
  shows "\<exists>res s'. memStage_Commit L ns sid e m s = Some (res, s') \<and> mem_ok L U s'"
proof (cases "acquire_answer ns sid e False s")
  case (Inl err)
  with ok show ?thesis by (simp add: memStage_Commit_def locked_method [OF mem_okD(2) [OF ok]])
next
  case (Inr p)
  note inv = mem_okD(1,2) [OF ok]
  note p = acquire_answer_Inr [OF inv(2) Inr]
  obtain rec data where v: "stage_view s sid = Some (rec, data)" using p(1) by (auto simp: stage_view_def)
  note sv = stage_view_entry [OF v p(1)]
  have st: "stage_ok L sid rec data" "record_shape rec ns" using p(2,3) sv by simp_all
  have U: "data \<in> U" if "commit_decision L rec m = Inr rec'" for rec'
    by (rule commit_decision_U [OF ok v st(2) that])
  have len: "\<forall>rec' x. commit_decision L rec m = Inr rec' \<longrightarrow>
      mem_view s ns (Digest (Commit rec')) = Some x \<longrightarrow> length (fst x) = length data"
    using commit_len [OF L ok cf commit_decision_ok [OF L st(1)] U] by blast
  note spec = Commit_spec [OF L inv clk Inr v len]
  show ?thesis
  proof (cases "commit_decision L rec m")
    case (Inl a)
    with spec ok show ?thesis by (cases a) auto
  next
    case d: (Inr rec')
    note spec [unfolded d, simplified]
    with finish_ok [OF L ok cf commit_decision_ok [OF L st(1) d] U [OF d]] show ?thesis
      by (auto simp: Let_def d)
  qed
qed

lemma Abort_ok:
  assumes L: "digest_lib_ok L" and ok: "mem_ok L U s" and cf: "collision_free L U" and clk: "clock_ok s e"
  shows "\<exists>res s'. memStage_Abort L ns sid e s = Some (res, s') \<and> mem_ok L U s'"
proof (cases "acquire_answer ns sid e True s")
  case (Inl err)
  with ok show ?thesis
    by (simp add: memStage_Abort_def go_run acquire_runs [OF mem_okD(2) [OF ok]])
next
  case (Inr p)
  note inv = mem_okD(1,2) [OF ok]
  note p = acquire_answer_Inr [OF inv(2) Inr]
  obtain rec data where v: "stage_view s sid = Some (rec, data)" using p(1) by (auto simp: stage_view_def)
  have st: "stage_ok L sid rec data" using p(3) stage_view_entry [OF v p(1)] by simp
  have U: "data \<in> U" if "State rec = StageCommitting" using mem_okD(4) [OF ok v] that by simp
  have len: "length (fst x) = length data" if "State rec = StageCommitting"
      "mem_view s ns (Digest (Commit rec)) = Some x" for x
    by (rule commit_len [OF L ok cf st that(1) U [OF that(1)] that(2)])
  note spec = Abort_spec [OF L inv clk Inr v len]
  show ?thesis
  proof (cases "State rec = StageCommitting")
    case True
    then have other: "State rec \<notin> {StageCommitted, StageAborted}" by (simp add: stage_states)
    obtain s' where s': "memStage_Abort L ns sid e s = Some (snd (finish_result (env_after 3 e) rec
          (mem_view s ns (Digest (Commit rec)))), s')" "mem_inv L s'" "mem_stage_inv L s'"
        "committing_to L s ns (env_after 3 e) rec data s'"
        "stage_view s' = (stage_view s)(sid \<mapsto> finished_stage s (env_after 3 e) rec data
           (mem_view s ns (Digest (Commit rec))))"
      using spec [unfolded Let_def if_not_P [OF other] if_P [OF True]] by blast
    with finish_ok [OF L ok cf st True U [OF True] s'(4,2,3,5)] show ?thesis by blast
  next
    case False
    show ?thesis
    proof (cases "State rec \<in> {StageCommitted, StageAborted}")
      case True
      with spec ok show ?thesis by (auto simp: Let_def)
    next
      case live: False
      with spec False obtain s' where s': "memStage_Abort L ns sid e s = Some (None, s')"
        "mem_inv L s'" "mem_stage_inv L s'" "mem_view s' = mem_view s"
        "stage_view s' = (stage_view s)(sid \<mapsto>
              (aborted rec (cfg_clock (ms_stage s) (env_after 3 e) 0 + Retention (normalized (ms_stage s))), []))"
        by (auto simp: Let_def)
      have "mem_ok L U s'"
        by (rule mem_ok_upd [OF ok s'(2,3) _ s'(5)])
           (use mem_okD(3) [OF ok] s'(4) in \<open>auto simp: aborted_def stage_states\<close>)
      with s'(1) show ?thesis by blast
    qed
  qed
qed

lemma mem_exec_ok:
  assumes L: "digest_lib_ok L" and cf: "collision_free L U" and ok: "mem_ok L U s" and op: "op_ok U s op"
  shows "\<exists>s'. mem_exec L op s = Some s' \<and> mem_ok L U s'"
proof (cases op)
  case (Op_Add ns e m r)
  then have U: "fst (io_Copy r) \<in> U" using op by simp
  show ?thesis
    using Add_ok [OF L ok cf U] Op_Add by (cases "add_answer L (mem_view s ns) m r") fastforce
next
  case (Op_Open ns e d)
  then show ?thesis using Open_spec [where s = s and ns = ns and d = d and e = e] ok
    by (auto split: option.splits)
next
  case (Op_Label ns e d ls)
  then show ?thesis using Label_ok [OF ok, of ns e d ls] by auto
next
  case (Op_Erase ns e d)
  then show ?thesis using Erase_ok [OF ok, of ns e d] by auto
next
  case (Op_Link ns e d src)
  then show ?thesis
    using Link_ok [OF L ok] by (cases "link_answer L (ms_self s) (mem_view s) ns e d src") fastforce
next
  case (Op_StageStat ns sid e)
  then show ?thesis using memStage_Stat_runs [OF mem_okD(2) [OF ok]] ok by auto
next
  case (Op_Begin rnd ns e algo)
  then show ?thesis using Begin_ok [OF L ok op [unfolded Op_Begin]] by auto
next
  case (Op_Append ns sid e off r)
  then show ?thesis using Append_ok [OF L ok op [unfolded Op_Append]] by auto
next
  case (Op_Commit ns sid e m)
  then show ?thesis using Commit_ok [OF L ok cf, of e ns sid m] op by auto
next
  case (Op_Abort ns sid e)
  then show ?thesis using Abort_ok [OF L ok cf, of e ns sid] op by auto
next
  case (Op_Prune order e)
  then show ?thesis using PruneStages_runs [OF L ok cf, of e order] op by auto
qed

text \<open>The states of a run from fresh stores.\<close>

inductive mem_reachable :: "'h digest_lib \<Rightarrow> bytes set \<Rightarrow> memStores \<Rightarrow> bool" for L U where
  start: "mem_reachable L U (NewMemStores g c)"
| step: "mem_reachable L U s \<Longrightarrow> op_ok U s op \<Longrightarrow> mem_exec L op s = Some s' \<Longrightarrow> mem_reachable L U s'"

lemma NewMemStores_ok: "mem_ok L U (NewMemStores g c)"
  by (rule mem_okI [OF NewMemStores_inv NewMemStores_stage_inv])
     (simp_all add: mem_view_def stage_view_def NewMemStores_def Let_def)

lemma mem_reachable_ok:
  assumes "digest_lib_ok L" "collision_free L U" "mem_reachable L U s"
  shows "mem_ok L U s"
  using assms(3)
proof induction
  case (step s op s')
  with mem_exec_ok [OF assms(1,2) step.IH step.hyps(2)] show ?case by simp
qed (rule NewMemStores_ok)

section \<open>A whole upload\<close>

text \<open>Begin a stage, append the pieces one by one, commit.\<close>

fun append_all :: "'h digest_lib \<Rightarrow> string \<Rightarrow> string \<Rightarrow> env \<Rightarrow> int \<Rightarrow> bytes list \<Rightarrow> (memStores, error + int) go" where
  "append_all L ns sid e off [] = ret (Inr off)"
| "append_all L ns sid e off (x # xs) =
     bind (memStage_Append L ns sid e off (bytes_Reader x)) (\<lambda>(off', err).
       case err of None \<Rightarrow> append_all L ns sid e off' xs | Some err \<Rightarrow> ret (Inl err))"

definition upload ::
  "'h digest_lib \<Rightarrow> bytes \<Rightarrow> string \<Rightarrow> env \<Rightarrow> string \<Rightarrow> bytes list \<Rightarrow> meta \<Rightarrow> (memStores, meta \<times> error option) go" where
  "upload L rnd ns e algo xs m =
     chk (MemStore_Begin L (Inr rnd) ns e algo) (\<lambda>err. (zero_meta, Some err)) (\<lambda>sid.
       chk (append_all L ns sid e 0 xs) (\<lambda>err. (zero_meta, Some err)) (\<lambda>_.
         memStage_Commit L ns sid e m))"

text \<open>An active stage with the bytes \<open>data\<close>, and a clock at which it has not expired.\<close>

definition uploading :: "string \<Rightarrow> string \<Rightarrow> time \<Rightarrow> string \<Rightarrow> bytes \<Rightarrow> memStores \<Rightarrow> bool" where
  "uploading ns sid now algo data s \<longleftrightarrow>
     cfg_now (ms_stage s) = None \<and> 0 < now
     \<and> (\<exists>rec. stage_view s sid = Some (rec, data) \<and> State rec = StageActive \<and> Algorithm rec = algo
          \<and> Namespace rec = namespaceSegment ns \<and> now < ExpiresAt rec)"

lemma uploading_acquire:
  assumes ok: "mem_ok L U s" and up: "uploading ns sid now algo data s"
  shows "\<exists>p. acquire_answer ns sid (background now) False s = Inr p"
proof -
  obtain rec where rec: "stage_view s sid = Some (rec, data)" "Namespace rec = namespaceSegment ns"
      "now < ExpiresAt rec" "cfg_now (ms_stage s) = None"
    using up by (auto simp: uploading_def)
  then obtain p where p: "ms_stages s sid = Some p" "mse_record (ms_stageEntry s p) = rec"
    by (auto simp: stage_view_def)
  have "validStageID sid"
    using mem_stage_inv_entry(3) [OF mem_okD(2) [OF ok] p(1)]
    by (auto simp: stage_ok_def record_shape_def)
  with p rec show ?thesis
    by (simp add: acquire_answer_def expired_def cfg_clock_def Let_def)
qed

lemma clock_ok_background: "cfg_now (ms_stage s) = None \<Longrightarrow> 0 < now \<Longrightarrow> clock_ok s (background now)"
  by (simp add: clock_ok_def cfg_clock_def)

lemma append_answer_piece:
  assumes "State rec = StageActive"
  shows "append_answer rec (env_after 3 (background now)) (Offset rec) (bytes_Reader x) = Inr x"
  using assms by (simp add: append_answer_def io_Copy_stageContextReader)

lemma Append_uploading:
  assumes L: "digest_lib_ok L" and ok: "mem_ok L U s" and up: "uploading ns sid now algo data s"
    and U: "data @ x \<in> U" and len: "length (data @ x) < 2 ^ 63"
  shows "\<exists>s'. memStage_Append L ns sid (background now) (int (length data)) (bytes_Reader x) s
      = Some ((int (length (data @ x)), None), s')
    \<and> mem_ok L U s' \<and> uploading ns sid now algo (data @ x) s' \<and> mem_view s' = mem_view s"
proof -
  let ?e = "background now"
  obtain rec where rec: "stage_view s sid = Some (rec, data)" "State rec = StageActive" "Algorithm rec = algo"
      "Namespace rec = namespaceSegment ns" and cfg: "cfg_now (ms_stage s) = None" "0 < now"
    using up by (auto simp: uploading_def)
  obtain p where p: "acquire_answer ns sid ?e False s = Inr p" using uploading_acquire [OF ok up] by blast
  note inv = mem_okD(1,2) [OF ok]
  note P = acquire_answer_Inr [OF inv(2) p]
  have off: "Offset rec = int (length data)"
    using stage_ok_active [of L sid rec data] P(3) stage_view_entry [OF rec(1) P(1)] rec(2)
    by (simp add: describes_def)
  obtain rec' s' where s': "memStage_Append L ns sid ?e (Offset rec) (bytes_Reader x) s
        = Some ((int (length (data @ x)), None), s')"
      "mem_inv L s'" "mem_stage_inv L s'" "mem_view s' = mem_view s"
      "stage_view s' = (stage_view s)(sid \<mapsto> (rec', data @ x))"
      "State rec' = StageActive" "Algorithm rec' = Algorithm rec" "Namespace rec' = Namespace rec"
      "ExpiresAt rec' = cfg_clock (ms_stage s) (env_after 3 ?e) 0 + TTL (normalized (ms_stage s))"
      "ms_stage s' = ms_stage s"
    using Append_spec [OF L inv clock_ok_background [OF cfg] p rec(1), of "bytes_Reader x" "Offset rec"] len
    unfolding append_answer_piece [OF rec(2)] sum.case by auto
  have "mem_ok L U s'"
    by (rule mem_ok_upd [OF ok s'(2,3) _ s'(5)]) (use U mem_okD(3) [OF ok] s'(4) in auto)
  moreover have "uploading ns sid now algo (data @ x) s'"
    using s' rec cfg normalized_positive [of "ms_stage s"] by (auto simp: uploading_def cfg_clock_def)
  ultimately show ?thesis using s' off by auto
qed

lemma append_all_runs:
  assumes L: "digest_lib_ok L" and ok: "mem_ok L U s" and up: "uploading ns sid now algo data s"
    and U: "\<And>k. data @ concat (take k xs) \<in> U" and len: "length (data @ concat xs) < 2 ^ 63"
  shows "\<exists>s'. append_all L ns sid (background now) (int (length data)) xs s
      = Some (Inr (int (length (data @ concat xs))), s')
    \<and> mem_ok L U s' \<and> uploading ns sid now algo (data @ concat xs) s' \<and> mem_view s' = mem_view s"
  using ok up U len
proof (induction xs arbitrary: data s)
  case (Cons x xs)
  have "data @ x \<in> U" using Cons.prems(3) [of 1] by simp
  moreover have "length (data @ x) < 2 ^ 63" using Cons.prems(4) by simp
  ultimately obtain s1 where s1: "memStage_Append L ns sid (background now) (int (length data)) (bytes_Reader x) s
      = Some ((int (length (data @ x)), None), s1)" "mem_ok L U s1" "uploading ns sid now algo (data @ x) s1"
      "mem_view s1 = mem_view s"
    using Append_uploading [OF L Cons.prems(1,2)] by blast
  have U': "(data @ x) @ concat (take k xs) \<in> U" for k using Cons.prems(3) [of "Suc k"] by simp
  from Cons.IH [OF s1(2,3) U'] Cons.prems(4) s1 show ?case
    by (auto simp: bind_def)
qed (auto simp: ret_def)

lemma Begin_uploading:
  assumes L: "digest_lib_ok L" and ok: "mem_ok L U s" and cfg: "cfg_now (ms_stage s) = None" "0 < now"
    and algo: "(if algo = '''' then Canonical else algo) \<in> set algorithms" and rnd: "length b = 16"
    and fresh: "ms_stages s (hex_encode b) = None" and U: "[] \<in> U"
  shows "\<exists>s'. MemStore_Begin L (Inr b) ns (background now) algo s = Some (Inr (hex_encode b), s')
    \<and> mem_ok L U s' \<and> mem_view s' = mem_view s
    \<and> uploading ns (hex_encode b) now (if algo = '''' then Canonical else algo) [] s'"
proof -
  obtain r s' where s': "MemStore_Begin L (Inr b) ns (background now) algo s = Some (Inr (hex_encode b), s')"
      "mem_inv L s'" "mem_stage_inv L s'" "mem_view s' = mem_view s" "ms_stage s' = ms_stage s"
      "stage_view s' = (stage_view s)(hex_encode b \<mapsto> (r, []))" "State r = StageActive" "record_shape r ns"
      "Algorithm r = (if algo = '''' then Canonical else algo)"
      "ExpiresAt r = cfg_clock (ms_stage s) (background now) 0 + TTL (ms_stage s)"
    using Begin_spec [where ns = ns, OF L mem_okD(1,2) [OF ok] clock_ok_background [OF cfg] algo rnd _ fresh]
    by auto
  have "mem_ok L U s'"
    by (rule mem_ok_upd [OF ok s'(2,3) _ s'(6)]) (use U mem_okD(3) [OF ok] s'(4) in auto)
  moreover have "uploading ns (hex_encode b) now (if algo = '''' then Canonical else algo) [] s'"
    using s' cfg mem_okD(2) [OF ok] by (auto simp: uploading_def record_shape_def cfg_clock_def mem_stage_inv_def)
  ultimately show ?thesis using s' by blast
qed

lemma Commit_uploading:
  assumes L: "digest_lib_ok L" and cf: "collision_free L U" and ok: "mem_ok L U s"
    and up: "uploading ns sid now algo data s" and U: "data \<in> U"
    and m: "Digest m = '''' \<or> Digest m = data_digest L algo data"
  shows "\<exists>m' s'. memStage_Commit L ns sid (background now) m s = Some ((m', None), s') \<and> mem_ok L U s'
    \<and> Digest m' = data_digest L algo data \<and> Size m' = int (length data)
    \<and> (\<exists>ls t. mem_view s' ns (Digest m') = Some (data, ls, t) \<and> Labels m' = ls)
    \<and> (mem_view s ns (Digest m') = None \<longrightarrow> Labels m' = Labels m)"
proof -
  let ?e = "background now" and ?d = "data_digest L algo data"
  obtain rec where rec: "stage_view s sid = Some (rec, data)" "State rec = StageActive" "Algorithm rec = algo"
      "Namespace rec = namespaceSegment ns" and cfg: "cfg_now (ms_stage s) = None" "0 < now"
    using up by (auto simp: uploading_def)
  obtain p where p: "acquire_answer ns sid ?e False s = Inr p" using uploading_acquire [OF ok up] by blast
  note inv = mem_okD(1,2) [OF ok]
  note P = acquire_answer_Inr [OF inv(2) p]
  note sv = stage_view_entry [OF rec(1) P(1)]
  have st: "stage_ok L sid rec data" "record_shape rec ns" using P(2,3) sv by simp_all
  have desc: "describes L rec data" by (rule stage_ok_active [OF st(1) rec(2)])
  have alg: "algo \<in> set algorithms" and off: "Offset rec = int (length data)"
    using desc rec(3) by (simp_all add: describes_def)
  let ?cm = "m\<lparr>Digest := ?d, Size := int (length data)\<rparr>"
  let ?rec = "rec\<lparr>State := StageCommitting, Commit := ?cm\<rparr>"
  have "prepareCommit L rec m = Inr ?cm"
    using m prepareCommit_described [OF desc st(2), of m] rec(2,3) off
      Sanitize_valid [OF L Validate_data_digest [OF L alg]]
    by (auto simp: commit_shape_def stage_states Let_def)
  then have dec: "commit_decision L rec m = Inr ?rec"
    using rec(2) by (simp add: commit_decision_def stage_states)
  note okc = commit_decision_ok [OF L st(1) dec]
  have names: "names_bytes L ?d data" by (rule names_bytes_data_digest [OF L alg])
  have len: "\<forall>rec' x. commit_decision L rec m = Inr rec' \<longrightarrow>
      mem_view s ns (Digest (Commit rec')) = Some x \<longrightarrow> length (fst x) = length data"
    using dec by (auto dest!: same_bytes [OF ok cf names U])
  obtain s' where s': "memStage_Commit L ns sid ?e m s =
        Some (finish_result (env_after 3 ?e) ?rec (mem_view s ns ?d), s')"
      "mem_inv L s'" "mem_stage_inv L s'" "committing_to L s ns (env_after 3 ?e) ?rec data s'"
      "stage_view s' = (stage_view s)(sid \<mapsto> finished_stage s (env_after 3 ?e) ?rec data (mem_view s ns ?d))"
    using Commit_spec [OF L inv clock_ok_background [OF cfg] p rec(1) len] unfolding dec
    by (auto simp: Let_def)
  have ok': "mem_ok L U s'" by (rule finish_ok [OF L ok cf okc U s'(4,2,3,5)])
  have view: "mem_view s' = (if mem_view s ns ?d = None
      then (mem_view s)(ns := (mem_view s ns)(?d \<mapsto> (data, Labels m, now))) else mem_view s)"
    using committing_exact [OF L ok cf okc U s'(4)] by simp
  show ?thesis
  proof (cases "mem_view s ns ?d")
    case None
    then show ?thesis
      using s'(1) ok' view
      by (auto simp: finish_result_def finish_answer_def complete_answer_def)
  next
    case (Some x)
    then have "fst x = data" using same_bytes [OF ok cf names U] by blast
    with Some show ?thesis
      using s'(1) ok' view
      by (cases x) (auto simp: finish_result_def finish_answer_def complete_answer_def view_meta_def)
  qed
qed

section \<open>Properties\<close>



text \<open>
  C7. An upload through a stage, in any number of pieces, commits the concatenation of the pieces:
  \<open>Commit\<close> answers its digest and size, and the store then shows exactly those bytes under that
  digest, with the labels that \<open>Commit\<close> answered, which are the caller's unless the blob was there
  already.
\<close>

theorem upload_commits:
  assumes "digest_lib_ok L" "collision_free L U" "mem_ok L U s"
    and "cfg_now (ms_stage s) = None" "0 < now" "length rnd = 16" "ms_stages s (hex_encode rnd) = None"
    and "(if algo = '''' then Canonical else algo) \<in> set algorithms"
    and "\<forall>k. concat (take k xs) \<in> U" "length (concat xs) < 2 ^ 63"
    and "Digest m \<in> {'''', data_digest L (if algo = '''' then Canonical else algo) (concat xs)}"
  shows "\<exists>m' s'. upload L rnd ns (background now) algo xs m s = Some ((m', None), s') \<and> mem_ok L U s'
    \<and> Digest m' = data_digest L (if algo = '''' then Canonical else algo) (concat xs)
    \<and> Size m' = int (length (concat xs))
    \<and> (\<exists>t. mem_view s' ns (Digest m') = Some (concat xs, Labels m', t))
    \<and> (mem_view s ns (Digest m') = None \<longrightarrow> Labels m' = Labels m)"
proof -
  let ?e = "background now" and ?algo = "if algo = '''' then Canonical else algo"
  have U: "[] @ concat (take k xs) \<in> U" for k using assms(9) by simp
  have empty: "[] \<in> U" using U [of 0] by simp
  obtain s1 where s1: "MemStore_Begin L (Inr rnd) ns ?e algo s = Some (Inr (hex_encode rnd), s1)"
      "mem_ok L U s1" "mem_view s1 = mem_view s" "uploading ns (hex_encode rnd) now ?algo [] s1"
    using Begin_uploading [OF assms(1,3,4,5,8,6,7) empty] by blast
  obtain s2 where s2: "append_all L ns (hex_encode rnd) ?e 0 xs s1 = Some (Inr (int (length (concat xs))), s2)"
      "mem_ok L U s2" "uploading ns (hex_encode rnd) now ?algo (concat xs) s2" "mem_view s2 = mem_view s1"
    using append_all_runs [OF assms(1) s1(2,4) U] assms(10) by auto
  have all: "concat xs \<in> U" using assms(9) [rule_format, of "length xs"] by simp
  have "Digest m = '''' \<or> Digest m = data_digest L ?algo (concat xs)" using assms(11) by blast
  from Commit_uploading [OF assms(1,2) s2(2,3) all this] s1 s2 show ?thesis
    by (auto simp: upload_def chk_def bind_def)
qed

theorem upload_commits_witness:
  "\<exists>m' s'. upload example_lib (replicate 16 (CHR ''x'')) ''a'' (background 1) '''' [''h'', ''i''] zero_meta
      (NewMemStores 0 []) = Some ((m', None), s')
    \<and> Digest m' = data_digest example_lib Canonical ''hi''
    \<and> (\<exists>t. mem_view s' ''a'' (Digest m') = Some (''hi'', Labels m', t))"
proof -
  have sums: "data_digest example_lib a ''h'' \<noteq> data_digest example_lib a ''hi''"
    "data_digest example_lib a [] \<noteq> data_digest example_lib a ''h''"
    "data_digest example_lib a [] \<noteq> data_digest example_lib a ''hi''" if "a \<in> set algorithms" for a
  proof -
    note h = example_digest_head [OF that]
    show "data_digest example_lib a ''h'' \<noteq> data_digest example_lib a ''hi''"
      using h [of "''h''" "''hi''"] by (auto simp: hex_encode_def hex_byte_def hex_digit_def)
    show "data_digest example_lib a [] \<noteq> data_digest example_lib a ''h''"
      using h [of "[]" "''h''"] by (auto simp: hex_encode_def hex_byte_def hex_digit_def)
    show "data_digest example_lib a [] \<noteq> data_digest example_lib a ''hi''"
      using h [of "[]" "''hi''"] by (auto simp: hex_encode_def hex_byte_def hex_digit_def)
  qed
  have cf: "collision_free example_lib {[], ''h'', ''hi''}"
    unfolding collision_free_def
  proof (intro allI ballI impI)
    fix d x y
    assume xy: "x \<in> {[], ''h'', ''hi''}" "y \<in> {[], ''h'', ''hi''}" and n: "names_bytes example_lib d x" "names_bytes example_lib d y"
    have "dl_Algorithm example_lib d \<in> set algorithms"
      using n(1) Validate_parts(1) [OF example_lib_ok] by (simp add: names_bytes_def)
    from sums [OF this] xy n show "x = y" by (auto simp: names_bytes_def)
  qed
  have pieces: "concat (take k [''h'', ''i'']) \<in> {[], ''h'', ''hi''}" for k
    by (cases k; cases "k - 1") auto
  have "ms_stages (NewMemStores 0 []) x = None" for x by (simp add: NewMemStores_def Let_def)
  moreover have "cfg_now (ms_stage (NewMemStores 0 [])) = None"
    by (simp add: NewMemStores_def normalized_def zero_config_def Let_def)
  ultimately show ?thesis
    using upload_commits [where s = "NewMemStores 0 []" and L = example_lib and U = "{[], ''h'', ''hi''}"
        and rnd = "replicate 16 (CHR ''x'')" and now = 1 and xs = "[''h'', ''i'']" and algo = "''''" and ns = "''a''"
        and m = zero_meta] pieces example_lib_ok cf NewMemStores_ok [of example_lib "{[], ''h'', ''hi''}" 0 "[]"]
    by (auto simp: zero_meta_def)
qed

end
