(* ===== verification/MemRace.thy ===== *)
theory MemRace
  imports MemRun
begin

text \<open>
  \<open>mem.go\<close> under concurrency: any number of goroutines run \<open>publish\<close>, \<open>Erase\<close> and \<open>Link\<close> on one
  pool. A step is one atomic action: taking a blob's mutex, one operation on a \<open>sync.Map\<close>, or a
  section of code that only touches what the held mutex protects. \<open>race_refs\<close> is a blob's count,
  \<open>race_lock\<close> the goroutine that holds its mutex, and \<open>race_dig\<close>, which the code does not have,
  the digest a blob was made for. An entry is its identity with the blob it points to.
\<close>

section \<open>Goroutines\<close>

text \<open>
  Where a goroutine stands. \<open>P_\<dots>\<close> is \<open>publish\<close>: it locks its own new blob, tries to install it,
  waits for the one already there, checks that it is not being deleted, enters the blob for its
  store, counts the reference. \<open>E_\<dots>\<close> is \<open>Erase\<close> after the entry is gone: it waits for the blob,
  takes the reference off, and deletes the blob with its last reference. \<open>L_\<dots>\<close> is \<open>Link\<close>: it
  waits for the source's blob, checks that the source still has the entry, and then that its own
  store has none. \<open>Leaving b\<close> is about to release the mutex of \<open>b\<close>.
\<close>

datatype pc =
    Idle
  | P_lock string string nat
  | P_load string string nat
  | P_loaded string string nat nat
  | P_wait string string nat nat
  | P_check string string nat nat
  | Enter string string nat
  | Counting string nat
  | E_wait string nat
  | E_dec string nat
  | E_del string nat
  | L_wait string string string nat nat
  | L_recheck string string string nat nat
  | L_look string string nat
  | Leaving nat

record race =
  race_bs :: "string \<rightharpoonup> nat"
  race_es :: "string \<Rightarrow> string \<rightharpoonup> nat \<times> nat"
  race_refs :: "nat \<Rightarrow> nat"
  race_lock :: "nat \<Rightarrow> nat option"
  race_dig :: "nat \<Rightarrow> string"
  race_next :: nat
  race_pc :: "nat \<Rightarrow> pc"

definition goto :: "nat \<Rightarrow> pc \<Rightarrow> race \<Rightarrow> race" where
  "goto t x s = s\<lparr>race_pc := (race_pc s)(t := x)\<rparr>"

definition take_lock :: "nat \<Rightarrow> nat \<Rightarrow> race \<Rightarrow> race" where
  "take_lock t b s = s\<lparr>race_lock := (race_lock s)(b \<mapsto> t)\<rparr>"

definition drop_lock :: "nat \<Rightarrow> race \<Rightarrow> race" where
  "drop_lock b s = s\<lparr>race_lock := (race_lock s)(b := None)\<rparr>"

definition set_refs :: "nat \<Rightarrow> nat \<Rightarrow> race \<Rightarrow> race" where
  "set_refs b n s = s\<lparr>race_refs := (race_refs s)(b := n)\<rparr>"

definition set_bs :: "string \<Rightarrow> nat option \<Rightarrow> race \<Rightarrow> race" where
  "set_bs d v s = s\<lparr>race_bs := (race_bs s)(d := v)\<rparr>"

definition set_entry_of :: "string \<Rightarrow> string \<Rightarrow> (nat \<times> nat) option \<Rightarrow> race \<Rightarrow> race" where
  "set_entry_of ns d v s = s\<lparr>race_es := (race_es s)(ns := (race_es s ns)(d := v))\<rparr>"

text \<open>The subtraction on Go's \<open>uint\<close>.\<close>

definition uint_dec :: "nat \<Rightarrow> nat" where
  "uint_dec n = (if n = 0 then 2 ^ 64 - 1 else n - 1)"

inductive race_step :: "nat \<Rightarrow> race \<Rightarrow> race \<Rightarrow> bool" for t where
  publish: "race_pc s t = Idle \<Longrightarrow> b = race_next s \<Longrightarrow>
    race_step t s (goto t (P_lock ns d b) (s\<lparr>race_next := Suc b, race_refs := (race_refs s)(b := 0),
      race_lock := (race_lock s)(b := None), race_dig := (race_dig s)(b := d)\<rparr>))"
| p_lock: "race_pc s t = P_lock ns d n \<Longrightarrow> race_lock s n = None \<Longrightarrow>
    race_step t s (goto t (P_load ns d n) (take_lock t n s))"
| p_install: "race_pc s t = P_load ns d n \<Longrightarrow> race_bs s d = None \<Longrightarrow>
    race_step t s (goto t (Enter ns d n) (set_bs d (Some n) s))"
| p_found: "race_pc s t = P_load ns d n \<Longrightarrow> race_bs s d = Some b \<Longrightarrow>
    race_step t s (goto t (P_loaded ns d n b) s)"
| p_unlock_own: "race_pc s t = P_loaded ns d n b \<Longrightarrow>
    race_step t s (goto t (P_wait ns d n b) (drop_lock n s))"
| p_lock_found: "race_pc s t = P_wait ns d n b \<Longrightarrow> race_lock s b = None \<Longrightarrow>
    race_step t s (goto t (P_check ns d n b) (take_lock t b s))"
| p_retry: "race_pc s t = P_check ns d n b \<Longrightarrow> race_refs s b = 0 \<Longrightarrow>
    race_step t s (goto t (P_lock ns d n) (drop_lock b s))"
| p_use: "race_pc s t = P_check ns d n b \<Longrightarrow> race_refs s b \<noteq> 0 \<Longrightarrow>
    race_step t s (goto t (Enter ns d b) s)"
| enter_taken: "race_pc s t = Enter ns d b \<Longrightarrow> race_es s ns d \<noteq> None \<Longrightarrow>
    race_step t s (goto t (Leaving b) s)"
| enter: "race_pc s t = Enter ns d b \<Longrightarrow> race_es s ns d = None \<Longrightarrow> p = race_next s \<Longrightarrow>
    race_step t s (goto t (Counting d b) (set_entry_of ns d (Some (p, b)) (s\<lparr>race_next := Suc p\<rparr>)))"
| refs_inc: "race_pc s t = Counting d b \<Longrightarrow>
    race_step t s (goto t (Leaving b) (set_refs b (Suc (race_refs s b)) s))"
| leave: "race_pc s t = Leaving b \<Longrightarrow> race_step t s (goto t Idle (drop_lock b s))"
| erase_none: "race_pc s t = Idle \<Longrightarrow> race_es s ns d = None \<Longrightarrow> race_step t s s"
| erase: "race_pc s t = Idle \<Longrightarrow> race_es s ns d = Some (p, b) \<Longrightarrow>
    race_step t s (goto t (E_wait d b) (set_entry_of ns d None s))"
| e_lock: "race_pc s t = E_wait d b \<Longrightarrow> race_lock s b = None \<Longrightarrow>
    race_step t s (goto t (E_dec d b) (take_lock t b s))"
| e_dec_more: "race_pc s t = E_dec d b \<Longrightarrow> n = uint_dec (race_refs s b) \<Longrightarrow> n > 0 \<Longrightarrow>
    race_step t s (goto t (Leaving b) (set_refs b n s))"
| e_dec_last: "race_pc s t = E_dec d b \<Longrightarrow> uint_dec (race_refs s b) = 0 \<Longrightarrow>
    race_step t s (goto t (E_del d b) (set_refs b 0 s))"
| e_delete: "race_pc s t = E_del d b \<Longrightarrow>
    race_step t s (goto t (Leaving b) (set_bs d None s))"
| link_none: "race_pc s t = Idle \<Longrightarrow> race_es s src d = None \<Longrightarrow> race_step t s s"
| link: "race_pc s t = Idle \<Longrightarrow> race_es s src d = Some (p, b) \<Longrightarrow>
    race_step t s (goto t (L_wait ns d src p b) s)"
| l_lock: "race_pc s t = L_wait ns d src p b \<Longrightarrow> race_lock s b = None \<Longrightarrow>
    race_step t s (goto t (L_recheck ns d src p b) (take_lock t b s))"
| l_gone: "race_pc s t = L_recheck ns d src p b \<Longrightarrow> race_es s src d \<noteq> Some (p, b) \<Longrightarrow>
    race_step t s (goto t (Leaving b) s)"
| l_there: "race_pc s t = L_recheck ns d src p b \<Longrightarrow> race_es s src d = Some (p, b) \<Longrightarrow>
    race_step t s (goto t (L_look ns d b) s)"
| l_taken: "race_pc s t = L_look ns d b \<Longrightarrow> race_es s ns d \<noteq> None \<Longrightarrow>
    race_step t s (goto t (Leaving b) s)"
| l_free: "race_pc s t = L_look ns d b \<Longrightarrow> race_es s ns d = None \<Longrightarrow>
    race_step t s (goto t (Enter ns d b) s)"

definition race_init :: race where
  "race_init = \<lparr>race_bs = Map.empty, race_es = (\<lambda>_. Map.empty), race_refs = (\<lambda>_. 0),
     race_lock = (\<lambda>_. None), race_dig = (\<lambda>_. ''''), race_next = 0, race_pc = (\<lambda>_. Idle)\<rparr>"

inductive race_reachable :: "race \<Rightarrow> bool" where
  start: "race_reachable race_init"
| step: "race_reachable s \<Longrightarrow> race_step t s s' \<Longrightarrow> race_reachable s'"

section \<open>The invariant\<close>

text \<open>The blob whose mutex a goroutine holds, and the new blob that only it knows.\<close>

fun holds :: "pc \<Rightarrow> nat option" where
  "holds (P_load ns d n) = Some n"
| "holds (P_loaded ns d n b) = Some n"
| "holds (P_check ns d n b) = Some b"
| "holds (Enter ns d b) = Some b"
| "holds (Counting d b) = Some b"
| "holds (E_dec d b) = Some b"
| "holds (E_del d b) = Some b"
| "holds (L_recheck ns d src p b) = Some b"
| "holds (L_look ns d b) = Some b"
| "holds (Leaving b) = Some b"
| "holds x = None"

fun own_blob :: "pc \<Rightarrow> (string \<times> nat) option" where
  "own_blob (P_lock ns d n) = Some (d, n)"
| "own_blob (P_load ns d n) = Some (d, n)"
| "own_blob (P_loaded ns d n b) = Some (d, n)"
| "own_blob (P_wait ns d n b) = Some (d, n)"
| "own_blob (P_check ns d n b) = Some (d, n)"
| "own_blob x = None"

text \<open>A blob that a goroutine has seen in the pool, and one that it knows is still there.\<close>

fun seen :: "pc \<Rightarrow> (string \<times> nat) option" where
  "seen (P_loaded ns d n b) = Some (d, b)"
| "seen (P_wait ns d n b) = Some (d, b)"
| "seen (P_check ns d n b) = Some (d, b)"
| "seen (L_wait ns d src p b) = Some (d, b)"
| "seen (L_recheck ns d src p b) = Some (d, b)"
| "seen x = None"

fun pooled :: "pc \<Rightarrow> (string \<times> nat) option" where
  "pooled (Enter ns d b) = Some (d, b)"
| "pooled (Counting d b) = Some (d, b)"
| "pooled (E_wait d b) = Some (d, b)"
| "pooled (E_dec d b) = Some (d, b)"
| "pooled (E_del d b) = Some (d, b)"
| "pooled (L_look ns d b) = Some (d, b)"
| "pooled x = None"

definition counting :: "nat \<Rightarrow> pc \<Rightarrow> bool" where
  "counting b x \<longleftrightarrow> (\<exists>d. x = Counting d b)"

definition uncounting :: "nat \<Rightarrow> pc \<Rightarrow> bool" where
  "uncounting b x \<longleftrightarrow> (\<exists>d. x = E_wait d b \<or> x = E_dec d b)"

definition number :: "(pc \<Rightarrow> bool) \<Rightarrow> race \<Rightarrow> nat" where
  "number P s = card {t. P (race_pc s t)}"

definition referrers :: "race \<Rightarrow> string \<Rightarrow> string set" where
  "referrers s d = {ns. race_es s ns d \<noteq> None}"

text \<open>A blob without references is held by the goroutine that installs it or deletes it.\<close>

definition handler :: "string \<Rightarrow> nat \<Rightarrow> pc \<Rightarrow> bool" where
  "handler d b x \<longleftrightarrow> (\<exists>ns. x = Enter ns d b) \<or> x = Counting d b \<or> x = E_del d b"

definition handled :: "race \<Rightarrow> string \<Rightarrow> nat \<Rightarrow> bool" where
  "handled s d b \<longleftrightarrow> (\<exists>t. handler d b (race_pc s t))"

definition inv_finite :: "race \<Rightarrow> bool" where
  "inv_finite s \<longleftrightarrow> finite {t. race_pc s t \<noteq> Idle} \<and> (\<forall>d. finite (referrers s d))"

definition inv_lock :: "race \<Rightarrow> bool" where
  "inv_lock s \<longleftrightarrow> (\<forall>t b. race_lock s b = Some t \<longleftrightarrow> holds (race_pc s t) = Some b)
     \<and> (\<forall>t b. holds (race_pc s t) = Some b \<longrightarrow> b < race_next s)"

definition inv_pool :: "race \<Rightarrow> bool" where
  "inv_pool s \<longleftrightarrow>
     (\<forall>ns d p b. race_es s ns d = Some (p, b) \<longrightarrow> race_bs s d = Some b)
     \<and> (\<forall>d b. race_bs s d = Some b \<longrightarrow> race_dig s b = d \<and> b < race_next s)
     \<and> (\<forall>b. race_refs s b \<noteq> 0 \<longrightarrow> race_bs s (race_dig s b) = Some b)
     \<and> (\<forall>t d b. pooled (race_pc s t) = Some (d, b) \<longrightarrow> race_bs s d = Some b)"

definition inv_count :: "race \<Rightarrow> bool" where
  "inv_count s \<longleftrightarrow>
     (\<forall>d b. race_bs s d = Some b \<longrightarrow>
        race_refs s b + number (counting b) s = card (referrers s d) + number (uncounting b) s
        \<and> (race_refs s b = 0 \<longrightarrow> handled s d b))
     \<and> (\<forall>t d b. race_pc s t = E_del d b \<longrightarrow> race_refs s b = 0)
     \<and> (\<forall>t ns d b. race_pc s t = L_look ns d b \<longrightarrow> race_refs s b \<noteq> 0)"

definition inv_own :: "race \<Rightarrow> bool" where
  "inv_own s \<longleftrightarrow>
     (\<forall>t d n. own_blob (race_pc s t) = Some (d, n) \<longrightarrow>
        race_dig s n = d \<and> n < race_next s \<and> race_refs s n = 0 \<and> race_bs s d \<noteq> Some n)
     \<and> (\<forall>t t' d d' n. own_blob (race_pc s t) = Some (d, n) \<longrightarrow> own_blob (race_pc s t') = Some (d', n) \<longrightarrow> t = t')
     \<and> (\<forall>t d b. seen (race_pc s t) = Some (d, b) \<longrightarrow> race_dig s b = d \<and> b < race_next s)"

definition race_inv :: "race \<Rightarrow> bool" where
  "race_inv s \<longleftrightarrow> inv_finite s \<and> inv_lock s \<and> inv_pool s \<and> inv_count s \<and> inv_own s"

lemmas race_setters = goto_def take_lock_def drop_lock_def set_refs_def set_bs_def set_entry_of_def

lemma race_init_inv: "race_inv race_init"
  by (simp add: race_inv_def inv_finite_def inv_lock_def inv_pool_def inv_count_def inv_own_def
      race_init_def referrers_def)

lemma referrers_set_entry:
  "referrers (set_entry_of ns d (Some x) s) d' = (if d' = d then insert ns (referrers s d) else referrers s d')"
  "referrers (set_entry_of ns d None s) d' = (if d' = d then referrers s d - {ns} else referrers s d')"
  by (auto simp: referrers_def set_entry_of_def)

lemma step_finite:
  assumes "race_step t s s'" "race_inv s"
  shows "inv_finite s'"
proof -
  have fin: "finite {u. race_pc s u \<noteq> Idle}" "\<And>d. finite (referrers s d)"
    using assms(2) by (auto simp: race_inv_def inv_finite_def)
  have "{u. race_pc s' u \<noteq> Idle} \<subseteq> insert t {u. race_pc s u \<noteq> Idle}"
    using assms(1) by (cases rule: race_step.cases) (auto simp: race_setters)
  moreover have "finite (referrers s' d)" for d
  proof -
    have "race_es s' = race_es s \<or> (\<exists>ns d' v. race_es s' = (race_es s)(ns := (race_es s ns)(d' := v)))"
      using assms(1) by (cases rule: race_step.cases) (simp_all add: race_setters, blast+)
    then have "\<exists>ns. referrers s' d \<subseteq> insert ns (referrers s d)"
    proof (elim disjE exE)
      fix ns d' v
      assume "race_es s' = (race_es s)(ns := (race_es s ns)(d' := v))"
      then have "referrers s' d \<subseteq> insert ns (referrers s d)"
        by (auto simp: referrers_def split: if_splits)
      then show ?thesis by blast
    qed (auto simp: referrers_def)
    then show ?thesis using fin(2) finite_subset by blast
  qed
  ultimately show ?thesis using fin(1) by (auto simp: inv_finite_def intro: finite_subset)
qed

text \<open>The three things that a step does to the mutexes.\<close>

lemma inv_lockD:
  assumes "inv_lock s"
  shows "race_lock s b = Some t \<Longrightarrow> holds (race_pc s t) = Some b"
    and "holds (race_pc s t) = Some b \<Longrightarrow> race_lock s b = Some t"
    and "holds (race_pc s t) = Some b \<Longrightarrow> b < race_next s"
  using assms unfolding inv_lock_def by blast+

lemma inv_lockI:
  assumes "\<And>t b. race_lock s b = Some t \<Longrightarrow> holds (race_pc s t) = Some b"
    and "\<And>t b. holds (race_pc s t) = Some b \<Longrightarrow> race_lock s b = Some t"
    and "\<And>t b. holds (race_pc s t) = Some b \<Longrightarrow> b < race_next s"
  shows "inv_lock s"
  using assms unfolding inv_lock_def by blast

lemma lock_keep:
  assumes "inv_lock s" "holds (race_pc s' t) = holds (race_pc s t)" "race_lock s' = race_lock s"
    "\<And>u. u \<noteq> t \<Longrightarrow> race_pc s' u = race_pc s u" "race_next s \<le> race_next s'"
  shows "inv_lock s'"
proof -
  have same: "holds (race_pc s' u) = holds (race_pc s u)" for u using assms(2,4) by (cases "u = t") auto
  show ?thesis
    by (rule inv_lockI; unfold same assms(3))
       (use inv_lockD [OF assms(1)] assms(5) less_le_trans in blast)+
qed

lemma lock_take:
  assumes "inv_lock s" "holds x = Some b" "holds (race_pc s t) = None" "race_lock s b = None"
    "race_lock s' = (race_lock s)(b \<mapsto> t)" "race_pc s' = (race_pc s)(t := x)"
    "race_next s' = race_next s" "b < race_next s"
  shows "inv_lock s'"
proof -
  have "holds (race_pc s u) \<noteq> Some b" for u using inv_lockD(2) [OF assms(1), of u b] assms(4) by auto
  with assms show ?thesis unfolding inv_lock_def by auto
qed

lemma lock_drop:
  assumes "inv_lock s" "holds x = None" "holds (race_pc s t) = Some b"
    "race_lock s' = (race_lock s)(b := None)" "race_pc s' = (race_pc s)(t := x)"
    "race_next s' = race_next s"
  shows "inv_lock s'"
proof -
  note D = inv_lockD [OF assms(1)]
  have b: "race_lock s b = Some t" by (rule D(2) [OF assms(3)])
  have other: "u \<noteq> t \<and> holds (race_pc s u) = Some b'" if "holds (race_pc s' u) = Some b'" for u b'
    using that assms(2,5) by (auto split: if_splits)
  show ?thesis
  proof (rule inv_lockI)
    fix u b'
    assume "race_lock s' b' = Some u"
    then have "b' \<noteq> b" "race_lock s b' = Some u" using assms(4) by (auto split: if_splits)
    then have "holds (race_pc s u) = Some b'" "u \<noteq> t" using D(1) [of b' u] assms(3) by auto
    then show "holds (race_pc s' u) = Some b'" using assms(5) by simp
  next
    fix u b'
    assume "holds (race_pc s' u) = Some b'"
    from other [OF this] have "u \<noteq> t" "race_lock s b' = Some u" using D(2) [of u b'] by auto
    then show "race_lock s' b' = Some u" using assms(4) b by auto
  next
    fix u b'
    assume "holds (race_pc s' u) = Some b'"
    from other [OF this] show "b' < race_next s'" using D(3) [of u b'] assms(6) by simp
  qed
qed

lemma lock_fresh:
  assumes "inv_lock s" "holds x = None" "holds (race_pc s t) = None"
    "race_lock s' = (race_lock s)(race_next s := None)" "race_pc s' = (race_pc s)(t := x)"
    "race_next s \<le> race_next s'"
  shows "inv_lock s'"
proof -
  note D = inv_lockD [OF assms(1)]
  have same: "holds (race_pc s' u) = holds (race_pc s u)" for u using assms(2,3,5) by simp
  show ?thesis
  proof (rule inv_lockI; unfold same)
    fix u b'
    assume "race_lock s' b' = Some u"
    then show "holds (race_pc s u) = Some b'" using assms(4) D(1) [of b' u] by (auto split: if_splits)
  next
    fix u b'
    assume h: "holds (race_pc s u) = Some b'"
    show "race_lock s' b' = Some u" using assms(4) D(2) [OF h] D(3) [OF h] by simp
    show "b' < race_next s'" using D(3) [OF h] assms(6) by simp
  qed
qed

lemma inv_ownD:
  assumes "inv_own s"
  shows "own_blob (race_pc s t) = Some (d, n) \<Longrightarrow>
      race_dig s n = d \<and> n < race_next s \<and> race_refs s n = 0 \<and> race_bs s d \<noteq> Some n"
    and "own_blob (race_pc s t) = Some (d, n) \<Longrightarrow> own_blob (race_pc s t') = Some (d', n) \<Longrightarrow> t = t'"
    and "seen (race_pc s t) = Some (d, b) \<Longrightarrow> race_dig s b = d \<and> b < race_next s"
  using assms unfolding inv_own_def by blast+

lemma inv_poolD:
  assumes "inv_pool s"
  shows "race_es s ns d = Some (p, b) \<Longrightarrow> race_bs s d = Some b"
    and "race_bs s d = Some b \<Longrightarrow> race_dig s b = d \<and> b < race_next s"
    and "race_refs s b \<noteq> 0 \<Longrightarrow> race_bs s (race_dig s b) = Some b"
    and "pooled (race_pc s t) = Some (d, b) \<Longrightarrow> race_bs s d = Some b"
  using assms unfolding inv_pool_def by blast+

lemma step_lock:
  assumes "race_step t s s'" "race_inv s"
  shows "inv_lock s'"
proof -
  have l: "inv_lock s" "inv_own s" "inv_pool s" using assms(2) by (simp_all add: race_inv_def)
  note own = inv_ownD(1) [OF l(2), of t] and sn = inv_ownD(3) [OF l(2), of t]
    and pl = inv_poolD(2,4) [OF l(3)]
  show ?thesis
    using assms(1)
  proof (cases rule: race_step.cases)
    case publish then show ?thesis by (intro lock_fresh [OF l(1)]) (auto simp: race_setters)
  next
    case p_lock then show ?thesis
      using own by (intro lock_take [OF l(1)]) (auto simp: race_setters)
  next
    case p_lock_found then show ?thesis
      using sn by (intro lock_take [OF l(1)]) (auto simp: race_setters)
  next
    case e_lock then show ?thesis
      using pl(1) [OF pl(2) [of t]] by (intro lock_take [OF l(1)]) (auto simp: race_setters)
  next
    case l_lock then show ?thesis
      using sn by (intro lock_take [OF l(1)]) (auto simp: race_setters)
  next
    case p_unlock_own then show ?thesis by (intro lock_drop [OF l(1)]) (auto simp: race_setters)
  next
    case p_retry then show ?thesis by (intro lock_drop [OF l(1)]) (auto simp: race_setters)
  next
    case leave then show ?thesis by (intro lock_drop [OF l(1)]) (auto simp: race_setters)
  qed (simp_all add: race_setters l(1) lock_keep [OF l(1), where t = t])
qed

text \<open>New blobs, and blobs seen.\<close>

lemma own_not_pooled:
  assumes "inv_own s" "inv_pool s" "own_blob (race_pc s u) = Some (d, n)" "race_bs s d' = Some b"
  shows "n \<noteq> b"
  using inv_ownD(1) [OF assms(1,3)] inv_poolD(2) [OF assms(2,4)] assms(4) by auto

lemma own_step:
  assumes inv: "inv_own s" and pc: "\<And>u. u \<noteq> t \<Longrightarrow> race_pc s' u = race_pc s u"
    and own: "own_blob (race_pc s' t) = None \<or> own_blob (race_pc s' t) = own_blob (race_pc s t)"
    and sn: "\<And>d b. seen (race_pc s' t) = Some (d, b) \<Longrightarrow> race_dig s b = d \<and> b < race_next s"
    and mono: "race_next s \<le> race_next s'" "race_dig s' = race_dig s"
    and keep: "\<And>u d n. own_blob (race_pc s u) = Some (d, n) \<Longrightarrow> own_blob (race_pc s' u) = Some (d, n) \<Longrightarrow>
      race_refs s' n = 0 \<and> race_bs s' d \<noteq> Some n"
  shows "inv_own s'"
proof -
  have o: "own_blob (race_pc s u) = Some (d, n)" if "own_blob (race_pc s' u) = Some (d, n)" for u d n
    using that own pc by (cases "u = t") auto
  have sn': "race_dig s b = d \<and> b < race_next s" if "seen (race_pc s' u) = Some (d, b)" for u d b
    using that sn pc inv_ownD(3) [OF inv, of u] by (cases "u = t") auto
  show ?thesis
    unfolding inv_own_def
  proof (intro conjI allI impI, goal_cases)
    case (1 u d n) then show ?case using inv_ownD(1) [OF inv o] mono by simp
  next
    case (2 u d n) then show ?case using inv_ownD(1) [OF inv o] mono by fastforce
  next
    case (3 u d n) then show ?case using keep [OF o] by blast
  next
    case (4 u d n) then show ?case using keep [OF o] by blast
  next
    case (5 u u' d d' n) then show ?case using inv_ownD(2) [OF inv o o] by blast
  next
    case (6 u d b) then show ?case using sn' [OF 6] mono by simp
  next
    case (7 u d b) then show ?case using sn' [OF 7] mono by simp
  qed
qed

lemma own_same:
  assumes inv: "inv_own s" and pc: "\<And>u. u \<noteq> t \<Longrightarrow> race_pc s' u = race_pc s u"
    and own: "own_blob (race_pc s' t) = None \<or> own_blob (race_pc s' t) = own_blob (race_pc s t)"
    and sn: "seen (race_pc s' t) = None \<or> seen (race_pc s' t) = seen (race_pc s t)"
    and same: "race_next s \<le> race_next s'" "race_dig s' = race_dig s" "race_refs s' = race_refs s"
      "\<And>d. race_bs s' d = race_bs s d \<or> race_bs s' d = None"
  shows "inv_own s'"
proof (rule own_step [OF inv pc own])
  fix u d n
  assume "own_blob (race_pc s u) = Some (d, n)"
  from inv_ownD(1) [OF inv this] same(3) same(4) [of d]
  show "race_refs s' n = 0 \<and> race_bs s' d \<noteq> Some n" by auto
next
  fix d b
  assume "seen (race_pc s' t) = Some (d, b)"
  with sn inv_ownD(3) [OF inv, of t d b] show "race_dig s b = d \<and> b < race_next s" by auto
qed (use same in auto)

lemma step_own:
  assumes "race_step t s s'" "race_inv s"
  shows "inv_own s'"
proof -
  have l: "inv_own s" "inv_pool s" using assms(2) by (simp_all add: race_inv_def)
  note D = inv_ownD [OF l(1)]
  note keep = inv_ownD(1) [OF l(1)] and np = own_not_pooled [OF l]
  note pl = inv_poolD(4) [OF l(2), of t]
  show ?thesis
    using assms(1)
  proof (cases rule: race_step.cases)
    case (publish b ns d)
    have lt: "n < race_next s" if "own_blob (race_pc s u) = Some (d', n)" for u d' n
      using keep [OF that] by simp
    then have fresh: "own_blob (race_pc s u) \<noteq> Some (d', race_next s)" for u d' by blast
    have nb: "race_bs s d \<noteq> Some (race_next s)" using inv_poolD(2) [OF l(2), of d] by blast
    have sn: "b' \<noteq> race_next s" if "seen (race_pc s u) = Some (d', b')" for u d' b'
      using D(3) [OF that] by simp
    from publish show ?thesis
      unfolding inv_own_def
    proof (intro conjI allI impI, goal_cases)
      case (5 u u' d1 d2 n)
      then show ?case using D(2) [of u d1 n u' d2] fresh by (auto simp: race_setters split: if_splits)
    qed (use keep D(3) sn fresh nb in \<open>fastforce simp: race_setters less_Suc_eq split: if_splits\<close>)+
  next
    case (p_install ns d n)
    show ?thesis
    proof (rule own_step [OF l(1), where t = t])
      fix u d' n'
      assume a: "own_blob (race_pc s u) = Some (d', n')" "own_blob (race_pc s' u) = Some (d', n')"
      then have "u \<noteq> t" using p_install by (auto simp: race_setters)
      then have "n' \<noteq> n" using D(2) [OF a(1), of t d] p_install by auto
      then show "race_refs s' n' = 0 \<and> race_bs s' d' \<noteq> Some n'"
        using keep [OF a(1)] p_install by (auto simp: race_setters)
    qed (use p_install in \<open>auto simp: race_setters\<close>)
  next
    case (p_found ns d n b)
    show ?thesis
      by (rule own_step [OF l(1), where t = t])
         (use p_found keep inv_poolD(2) [OF l(2)] in \<open>auto simp: race_setters\<close>)
  next
    case (refs_inc d b)
    show ?thesis
      by (rule own_step [OF l(1), where t = t])
         (use refs_inc keep np [OF _ pl] in \<open>auto simp: race_setters\<close>)
  next
    case (e_dec_more d b)
    show ?thesis
      by (rule own_step [OF l(1), where t = t])
         (use e_dec_more keep np [OF _ pl] in \<open>auto simp: race_setters\<close>)
  next
    case (e_dec_last d b)
    show ?thesis
      by (rule own_step [OF l(1), where t = t])
         (use e_dec_last keep np [OF _ pl] in \<open>auto simp: race_setters\<close>)
  next
    case (link src d p b ns)
    have "race_dig s b = d \<and> b < race_next s"
      using inv_poolD(2) [OF l(2) inv_poolD(1) [OF l(2)]] link by blast
    then show ?thesis
      by (intro own_step [OF l(1), where t = t]) (use link keep in \<open>auto simp: race_setters\<close>)
  qed (simp_all add: race_setters l(1) own_same [OF l(1), where t = t])
qed

text \<open>Counting goroutines.\<close>

lemma number_step:
  assumes fin: "inv_finite s" and idle: "\<not> P Idle" and pc: "\<And>u. u \<noteq> t \<Longrightarrow> race_pc s' u = race_pc s u"
  shows "number P s' + (if P (race_pc s t) then 1 else 0) = number P s + (if P (race_pc s' t) then 1 else 0)"
proof -
  let ?A = "{u. u \<noteq> t \<and> P (race_pc s u)}"
  have "{u. P (race_pc s u)} \<subseteq> {u. race_pc s u \<noteq> Idle}" using idle by auto
  then have "finite {u. P (race_pc s u)}" using fin by (auto simp: inv_finite_def intro: finite_subset)
  then have A: "finite ?A" by (rule rev_finite_subset) auto
  have "{u. P (race_pc s u)} = (if P (race_pc s t) then insert t ?A else ?A)"
    "{u. P (race_pc s' u)} = (if P (race_pc s' t) then insert t ?A else ?A)"
    using pc by (auto split: if_splits) (metis+)?
  with A show ?thesis by (auto simp: number_def)
qed

lemma number_zero: "(\<And>u. \<not> P (race_pc s u)) \<Longrightarrow> number P s = 0"
  by (simp add: number_def)

lemma number_pos:
  assumes "inv_finite s" "\<not> P Idle" "P (race_pc s u)"
  shows "0 < number P s"
proof -
  have "{u. P (race_pc s u)} \<subseteq> {u. race_pc s u \<noteq> Idle}" using assms(2) by auto
  then have "finite {u. P (race_pc s u)}" using assms(1) by (auto simp: inv_finite_def intro: finite_subset)
  with assms(3) show ?thesis by (auto simp: number_def card_gt_0_iff)
qed

lemma counting_Idle [simp]: "\<not> counting b Idle" "\<not> uncounting b Idle"
  by (simp_all add: counting_def uncounting_def)

text \<open>The goroutine that holds a blob's mutex is alone in the sections that need it.\<close>

lemma held_alone:
  assumes "inv_lock s" "holds (race_pc s t) = Some b" "holds (race_pc s u) = Some b"
  shows "u = t"
  using inv_lockD(2) [OF assms(1,2)] inv_lockD(2) [OF assms(1,3)] by simp

lemma none_counting:
  assumes "inv_lock s" "holds (race_pc s t) = Some b" "\<not> counting b (race_pc s t)"
  shows "number (counting b) s = 0"
proof (rule number_zero)
  fix u
  show "\<not> counting b (race_pc s u)"
  proof
    assume c: "counting b (race_pc s u)"
    then have "holds (race_pc s u) = Some b" by (auto simp: counting_def)
    with held_alone [OF assms(1,2)] assms(3) c show False by blast
  qed
qed

text \<open>The accounts of a blob that is held: its count is exact but for erasures under way.\<close>

lemma held_refs:
  assumes inv: "race_inv s" and h: "holds (race_pc s t) = Some b" "\<not> counting b (race_pc s t)"
    and b: "race_bs s d = Some b"
  shows "race_refs s b = card (referrers s d) + number (uncounting b) s"
proof -
  have "race_refs s b + number (counting b) s = card (referrers s d) + number (uncounting b) s"
    using inv b unfolding race_inv_def inv_count_def by blast
  with none_counting [OF _ h] inv show ?thesis by (simp add: race_inv_def)
qed

lemma e_dec_refs:
  assumes inv: "race_inv s" and pc: "race_pc s t = E_dec d b"
  shows "0 < race_refs s b" "race_bs s d = Some b"
proof -
  show b: "race_bs s d = Some b"
    using inv pc inv_poolD(4) [of s t d b] by (simp add: race_inv_def)
  have "0 < number (uncounting b) s"
    by (rule number_pos [where u = t]) (use inv pc in \<open>auto simp: race_inv_def uncounting_def\<close>)
  then show "0 < race_refs s b"
    using held_refs [OF inv, of t b d] pc b by (simp add: counting_def)
qed

lemma e_del_empty:
  assumes inv: "race_inv s" and pc: "race_pc s t = E_del d b"
  shows "referrers s d = {}" "race_refs s b = 0" "race_bs s d = Some b"
    and "pooled (race_pc s u) = Some (d', b) \<Longrightarrow> u = t"
proof -
  have l: "inv_lock s" "inv_finite s" using inv by (simp_all add: race_inv_def)
  show b: "race_bs s d = Some b" using inv pc inv_poolD(4) [of s t d b] by (simp add: race_inv_def)
  show r: "race_refs s b = 0" using inv pc by (auto simp: race_inv_def inv_count_def)
  have z: "card (referrers s d) = 0" "number (uncounting b) s = 0"
    using held_refs [OF inv, of t b d] pc b r by (auto simp: counting_def)
  then show "referrers s d = {}" using l(2) by (simp add: inv_finite_def)
  assume u: "pooled (race_pc s u) = Some (d', b)"
  show "u = t"
  proof (cases "holds (race_pc s u) = Some b")
    case True
    then show ?thesis using held_alone [OF l(1), of t b u] pc by simp
  next
    case False
    then have "uncounting b (race_pc s u)" using u by (cases "race_pc s u") (auto simp: uncounting_def)
    with number_pos [OF l(2), of "uncounting b" u] z show ?thesis by simp
  qed
qed

lemma step_pool:
  assumes "race_step t s s'" "race_inv s"
  shows "inv_pool s'"
proof -
  have l: "inv_own s" "inv_pool s" using assms(2) by (simp_all add: race_inv_def)
  note P = inv_poolD [OF l(2)] and O = inv_ownD [OF l(1)]
  show ?thesis
    using assms(1)
  proof (cases rule: race_step.cases)
    case (publish b ns d)
    have "race_refs s b' \<noteq> 0 \<Longrightarrow> b' \<noteq> race_next s \<Longrightarrow> race_bs s (race_dig s b') = Some b'" for b'
      using P(3) by blast
    moreover have "race_bs s d' = Some b' \<Longrightarrow> b' \<noteq> race_next s" for d' b' using P(2) by blast
    ultimately show ?thesis
      using publish P by (fastforce simp: inv_pool_def race_setters less_Suc_eq split: if_splits)
  next
    case (p_install ns d n)
    have "race_dig s n = d" "n < race_next s" using O(1) [of t d n] p_install by simp_all
    moreover have "race_es s ns' d = None" for ns'
      using P(1) [of ns' d] p_install(3) by (cases "race_es s ns' d") auto
    moreover have "race_refs s b' \<noteq> 0 \<Longrightarrow> race_dig s b' \<noteq> d" for b' using P(3) [of b'] p_install(3) by auto
    moreover have "pooled (race_pc s u) \<noteq> Some (d, b')" for u b' using P(4) [of u d b'] p_install(3) by auto
    ultimately show ?thesis
      using p_install P by (auto simp: inv_pool_def race_setters split: if_splits)
  next
    case (p_use ns d n b)
    have "race_bs s d = Some b" using O(3) [of t d b] P(3) [of b] p_use by auto
    with p_use P show ?thesis by (auto simp: inv_pool_def race_setters split: if_splits)
  next
    case (e_delete d b)
    note E = e_del_empty [OF assms(2) e_delete(2)]
    have "race_es s ns d = None" for ns
      using E(1) by (auto simp: referrers_def simp del: not_None_eq)
    moreover have "pooled (race_pc s u) \<noteq> Some (d, b')" if "u \<noteq> t" for u b'
      using E(4) [of u d] P(4) [of u d b'] E(3) that by auto
    moreover have "race_refs s b' \<noteq> 0 \<Longrightarrow> race_dig s b' \<noteq> d" for b' using P(3) [of b'] E(2,3) by auto
    ultimately show ?thesis
      using e_delete P by (auto simp: inv_pool_def race_setters split: if_splits)
  next
    case (e_dec_last d b)
    have "race_bs s d = Some b" using P(4) [of t d b] e_dec_last by simp
    with e_dec_last P show ?thesis by (auto simp: inv_pool_def race_setters split: if_splits)
  next
    case (e_dec_more d b)
    have "race_bs s d = Some b \<and> race_dig s b = d" using P(4) [of t d b] P(2) e_dec_more by simp
    with e_dec_more P show ?thesis by (auto simp: inv_pool_def race_setters split: if_splits)
  next
    case (refs_inc d b)
    have "race_bs s d = Some b \<and> race_dig s b = d" using P(4) [of t d b] P(2) refs_inc by simp
    with refs_inc P show ?thesis by (auto simp: inv_pool_def race_setters split: if_splits)
  next
    case (enter ns d b p)
    have "race_bs s d = Some b" using P(4) [of t d b] enter by simp
    moreover have "race_bs s d' = Some b' \<Longrightarrow> b' < Suc (race_next s)" for d' b'
      using P(2) [of d' b'] by simp
    ultimately show ?thesis
      using enter P by (auto simp: inv_pool_def race_setters split: if_splits)
  next
    case (e_lock d b)
    have "race_bs s d = Some b" using P(4) [of t d b] e_lock by simp
    with e_lock P show ?thesis by (auto simp: inv_pool_def race_setters split: if_splits)
  next
    case (l_free ns d b)
    have "race_bs s d = Some b" using P(4) [of t d b] l_free by simp
    with l_free P show ?thesis by (auto simp: inv_pool_def race_setters split: if_splits)
  next
    case (l_there ns d src p b)
    have "race_bs s d = Some b" using P(1) l_there by blast
    with l_there P show ?thesis by (auto simp: inv_pool_def race_setters split: if_splits)
  next
    case (erase ns d p b)
    have "race_bs s d = Some b" using P(1) erase by blast
    with erase P show ?thesis by (auto simp: inv_pool_def race_setters split: if_splits)
  qed (use P in \<open>auto simp: inv_pool_def race_setters less_Suc_eq split: if_splits\<close>)
qed

text \<open>The accounts after a step.\<close>

lemma inv_countD:
  assumes "inv_count s"
  shows "race_bs s d = Some b \<Longrightarrow>
      race_refs s b + number (counting b) s = card (referrers s d) + number (uncounting b) s"
    and "race_bs s d = Some b \<Longrightarrow> race_refs s b = 0 \<Longrightarrow> handled s d b"
    and "race_pc s t = E_del d b \<Longrightarrow> race_refs s b = 0"
    and "race_pc s t = L_look ns d b \<Longrightarrow> race_refs s b \<noteq> 0"
  using assms unfolding inv_count_def by blast+

lemma handled_step:
  assumes "handled s d b" "\<And>u. u \<noteq> t \<Longrightarrow> race_pc s' u = race_pc s u"
    and "handler d b (race_pc s t) \<Longrightarrow> handler d b (race_pc s' t)"
  shows "handled s' d b"
proof -
  obtain u where u: "handler d b (race_pc s u)" using assms(1) unfolding handled_def by blast
  then have "handler d b (race_pc s' u)" using assms(2) [of u] assms(3) by (cases "u = t") auto
  then show ?thesis unfolding handled_def by blast
qed

text \<open>
  A step of goroutine \<open>t\<close> that touches the accounts of at most one blob \<open>b\<close>, whose balance and
  handling are given: everyone else's stay.
\<close>

lemma count_step:
  assumes inv: "race_inv s" and pc: "\<And>u. u \<noteq> t \<Longrightarrow> race_pc s' u = race_pc s u"
    and bs: "\<And>d' b'. b' \<noteq> b \<Longrightarrow> race_bs s' d' = Some b' \<Longrightarrow> race_bs s d' = Some b' \<and> referrers s' d' = referrers s d'"
    and refs: "\<And>b'. b' \<noteq> b \<Longrightarrow> race_refs s' b' = race_refs s b'"
    and cnt: "\<And>b'. b' \<noteq> b \<Longrightarrow> counting b' (race_pc s' t) = counting b' (race_pc s t)"
    and unc: "\<And>b'. b' \<noteq> b \<Longrightarrow> uncounting b' (race_pc s' t) = uncounting b' (race_pc s t)"
    and hand: "\<And>d' b'. b' \<noteq> b \<Longrightarrow> race_bs s' d' = Some b' \<Longrightarrow> race_refs s b' = 0 \<Longrightarrow>
        handler d' b' (race_pc s t) \<Longrightarrow> handler d' b' (race_pc s' t)"
    and here: "\<And>d'. race_bs s' d' = Some b \<Longrightarrow>
        race_refs s' b + number (counting b) s' = card (referrers s' d') + number (uncounting b) s'
        \<and> (race_refs s' b = 0 \<longrightarrow> handled s' d' b)"
    and others: "\<And>u d'. u \<noteq> t \<Longrightarrow> race_pc s u = E_del d' b \<Longrightarrow> race_refs s' b = 0"
      "\<And>u ns d'. u \<noteq> t \<Longrightarrow> race_pc s u = L_look ns d' b \<Longrightarrow> race_refs s' b \<noteq> 0"
    and me: "\<And>d' b'. race_pc s' t = E_del d' b' \<Longrightarrow> race_refs s' b' = 0"
      "\<And>ns d' b'. race_pc s' t = L_look ns d' b' \<Longrightarrow> race_refs s' b' \<noteq> 0"
  shows "inv_count s'"
proof -
  have c: "inv_count s" and fin: "inv_finite s" using inv by (simp_all add: race_inv_def)
  have num: "number (counting b') s' = number (counting b') s"
      "number (uncounting b') s' = number (uncounting b') s" if "b' \<noteq> b" for b'
    using number_step [OF fin, of "counting b'" t s'] number_step [OF fin, of "uncounting b'" t s'] pc
      cnt [OF that] unc [OF that] by (auto split: if_splits)
  show ?thesis
    unfolding inv_count_def
  proof (intro conjI allI impI, goal_cases)
    case (1 d' b')
    then show ?case
      using here bs [of b' d'] refs [of b'] num [of b'] inv_countD(1) [OF c, of d' b'] by (cases "b' = b") auto
  next
    case (2 d' b')
    show ?case
    proof (cases "b' = b")
      case False
      then have "handled s d' b'" using inv_countD(2) [OF c] bs [OF False 2(1)] refs [OF False] 2(2) by auto
      then show ?thesis
        by (rule handled_step) (use pc hand [OF False 2(1)] refs [OF False] 2(2) in auto)
    qed (use here 2 in blast)
  next
    case (3 u d' b')
    show ?case
    proof (cases "u = t")
      case True with me(1) 3 show ?thesis by blast
    next
      case False
      then have "race_pc s u = E_del d' b'" using 3 pc by simp
      with inv_countD(3) [OF c] others(1) [OF False] refs [of b'] show ?thesis by (cases "b' = b") auto
    qed
  next
    case (4 u ns d' b')
    show ?case
    proof (cases "u = t")
      case True with me(2) 4 show ?thesis by blast
    next
      case False
      then have "race_pc s u = L_look ns d' b'" using 4 pc by simp
      with inv_countD(4) [OF c] others(2) [OF False] refs [of b'] show ?thesis by (cases "b' = b") auto
    qed
  qed
qed

lemma pooled_bound:
  assumes "race_inv s" "pooled (race_pc s u) = Some (d, b)"
  shows "b < race_next s"
proof -
  have p: "inv_pool s" using assms(1) by (simp add: race_inv_def)
  show ?thesis using inv_poolD(2) [OF p inv_poolD(4) [OF p assms(2)]] by simp
qed

lemma count_quiet:
  assumes inv: "race_inv s" and pc: "\<And>u. u \<noteq> t \<Longrightarrow> race_pc s' u = race_pc s u"
    and same: "race_bs s' = race_bs s" "race_es s' = race_es s"
      "\<And>b. b \<noteq> race_next s \<Longrightarrow> race_refs s' b = race_refs s b"
    and cnt: "\<And>b'. counting b' (race_pc s' t) = counting b' (race_pc s t)"
      "\<And>b'. uncounting b' (race_pc s' t) = uncounting b' (race_pc s t)"
    and hand: "\<And>d' b'. race_bs s d' = Some b' \<Longrightarrow> race_refs s b' = 0 \<Longrightarrow>
        handler d' b' (race_pc s t) \<Longrightarrow> handler d' b' (race_pc s' t)"
    and me: "\<And>d' b'. race_pc s' t \<noteq> E_del d' b'"
      "\<And>ns d' b'. race_pc s' t = L_look ns d' b' \<Longrightarrow> race_refs s' b' \<noteq> 0"
  shows "inv_count s'"
proof (rule count_step [OF inv pc, where b = "race_next s"])
  have nb: "race_bs s d \<noteq> Some (race_next s)" for d
    using inv inv_poolD(2) [of s d "race_next s"] by (auto simp: race_inv_def)
  fix d'
  assume "race_bs s' d' = Some (race_next s)"
  with nb same(1) show "race_refs s' (race_next s) + number (counting (race_next s)) s'
      = card (referrers s' d') + number (uncounting (race_next s)) s'
      \<and> (race_refs s' (race_next s) = 0 \<longrightarrow> handled s' d' (race_next s))" by simp
next
  fix u d'
  assume "race_pc s u = E_del d' (race_next s)"
  then show "race_refs s' (race_next s) = 0" using pooled_bound [OF inv, of u d' "race_next s"] by simp
next
  fix u ns d'
  assume "race_pc s u = L_look ns d' (race_next s)"
  then show "race_refs s' (race_next s) \<noteq> 0" using pooled_bound [OF inv, of u d' "race_next s"] by simp
qed (use same cnt hand me in \<open>auto simp: referrers_def\<close>)

lemma referrer_refs:
  assumes inv: "race_inv s" and h: "holds (race_pc s t) = Some b" "\<not> counting b (race_pc s t)"
    and b: "race_bs s d = Some b" and ns: "race_es s ns d \<noteq> None"
  shows "race_refs s b \<noteq> 0"
proof -
  have "ns \<in> referrers s d" using ns by (simp add: referrers_def)
  moreover have "finite (referrers s d)" using inv by (simp add: race_inv_def inv_finite_def)
  ultimately have "card (referrers s d) \<noteq> 0" by auto
  with held_refs [OF inv h b] show ?thesis by simp
qed

lemma counting_pooled:
  "counting b x \<or> uncounting b x \<Longrightarrow> \<exists>d. pooled x = Some (d, b)"
  by (auto simp: counting_def uncounting_def)

lemma count_install:
  assumes inv: "race_inv s" and pc: "race_pc s t = P_load ns d n" and bs: "race_bs s d = None"
  shows "inv_count (goto t (Enter ns d n) (set_bs d (Some n) s))" (is "inv_count ?s")
proof -
  have l: "inv_own s" "inv_pool s" "inv_finite s" using inv by (simp_all add: race_inv_def)
  note O = inv_ownD(1) [OF l(1), of t d n]
  have fresh: "race_bs s d' \<noteq> Some n" for d'
    using O pc inv_poolD(2) [OF l(2), of d' n] bs by auto
  then have none: "pooled (race_pc s u) \<noteq> Some (d', n)" for u d'
    using inv_poolD(4) [OF l(2), of u d' n] by blast
  have es: "race_es s ns' d = None" for ns'
    using inv_poolD(1) [OF l(2), of ns' d] bs by (cases "race_es s ns' d") auto
  have zero: "number (counting n) ?s = 0" "number (uncounting n) ?s = 0" "referrers ?s d = {}"
  proof -
    have "\<not> counting n (race_pc s u)" "\<not> uncounting n (race_pc s u)" for u
      using none [of u] counting_pooled [of n "race_pc s u"] by blast+
    moreover have "\<not> counting n (Enter ns d n)" "\<not> uncounting n (Enter ns d n)"
      by (simp_all add: counting_def uncounting_def)
    ultimately have "\<not> counting n (race_pc ?s u)" "\<not> uncounting n (race_pc ?s u)" for u
      by (simp_all add: goto_def set_bs_def)
    then show "number (counting n) ?s = 0" "number (uncounting n) ?s = 0"
      by (auto intro!: number_zero)
    show "referrers ?s d = {}" using es by (simp add: referrers_def race_setters)
  qed
  have h: "handled ?s d n" unfolding handled_def handler_def
    by (rule exI [of _ t]) (simp add: race_setters)
  show ?thesis
  proof (rule count_step [OF inv, where t = t and b = n])
    fix d'
    assume "race_bs ?s d' = Some n"
    then have "d' = d" using fresh by (auto simp: race_setters split: if_splits)
    with zero h O pc show "race_refs ?s n + number (counting n) ?s = card (referrers ?s d') + number (uncounting n) ?s
      \<and> (race_refs ?s n = 0 \<longrightarrow> handled ?s d' n)" by (simp add: race_setters)
  next
    fix u d'
    assume "race_pc s u = E_del d' n"
    then show "race_refs ?s n = 0" using none [of u d'] by simp
  next
    fix u ns' d'
    assume "race_pc s u = L_look ns' d' n"
    then show "race_refs ?s n \<noteq> 0" using none [of u d'] by simp
  qed (use pc in \<open>auto simp: race_setters counting_def uncounting_def handler_def referrers_def split: if_splits\<close>)
qed

lemma count_enter:
  assumes inv: "race_inv s" and pc: "race_pc s t = Enter ns d b" and es: "race_es s ns d = None"
  shows "inv_count (goto t (Counting d b) (set_entry_of ns d (Some (p, b)) (s\<lparr>race_next := q\<rparr>)))"
    (is "inv_count ?s")
proof -
  have l: "inv_pool s" "inv_finite s" "inv_count s" "inv_lock s" using inv by (simp_all add: race_inv_def)
  have b: "race_bs s d = Some b" using inv_poolD(4) [OF l(1), of t d b] pc by simp
  have dig: "d' = d" if "race_bs s d' = Some b" for d'
    using inv_poolD(2) [OF l(1) that] inv_poolD(2) [OF l(1) b] by simp
  have ref: "referrers ?s d = insert ns (referrers s d)" "\<And>d'. d' \<noteq> d \<Longrightarrow> referrers ?s d' = referrers s d'"
    by (auto simp: referrers_def race_setters)
  have card: "card (referrers ?s d) = Suc (card (referrers s d))"
    using es l(2) unfolding ref(1) by (simp add: inv_finite_def referrers_def)
  have num: "number (counting b) ?s = Suc (number (counting b) s)"
    "number (uncounting b) ?s = number (uncounting b) s"
    using number_step [OF l(2), of "counting b" t ?s] number_step [OF l(2), of "uncounting b" t ?s] pc
    by (simp_all add: race_setters counting_def uncounting_def)
  have h: "handled ?s d b" unfolding handled_def handler_def
    by (rule exI [of _ t]) (simp add: race_setters)
  show ?thesis
  proof (rule count_step [OF inv, where t = t and b = b])
    fix d'
    assume "race_bs ?s d' = Some b"
    then have "d' = d" using dig by (simp add: race_setters)
    moreover have "race_refs ?s b = race_refs s b" by (simp add: race_setters)
    ultimately show "race_refs ?s b + number (counting b) ?s = card (referrers ?s d') + number (uncounting b) ?s
      \<and> (race_refs ?s b = 0 \<longrightarrow> handled ?s d' b)" using card num h inv_countD(1) [OF l(3) b] by simp
  next
    fix d' b'
    assume a: "b' \<noteq> b" "race_bs ?s d' = Some b'"
    then have "race_bs s d' = Some b'" "d' \<noteq> d" using b by (auto simp: race_setters)
    with ref(2) show "race_bs s d' = Some b' \<and> referrers ?s d' = referrers s d'" by simp
  qed (use pc inv_countD(3,4) [OF l(3)] in
        \<open>auto simp: race_setters counting_def uncounting_def handler_def\<close>)
qed

lemma count_inc:
  assumes inv: "race_inv s" and pc: "race_pc s t = Counting d b"
  shows "inv_count (goto t (Leaving b) (set_refs b (Suc (race_refs s b)) s))" (is "inv_count ?s")
proof -
  have l: "inv_pool s" "inv_finite s" "inv_count s" "inv_lock s" using inv by (simp_all add: race_inv_def)
  have b: "race_bs s d = Some b" using inv_poolD(4) [OF l(1), of t d b] pc by simp
  have dig: "d' = d" if "race_bs s d' = Some b" for d'
    using inv_poolD(2) [OF l(1) that] inv_poolD(2) [OF l(1) b] by simp
  have num: "Suc (number (counting b) ?s) = number (counting b) s"
    "number (uncounting b) ?s = number (uncounting b) s"
    using number_step [OF l(2), of "counting b" t ?s] number_step [OF l(2), of "uncounting b" t ?s] pc
    by (simp_all add: race_setters counting_def uncounting_def)
  show ?thesis
  proof (rule count_step [OF inv, where t = t and b = b])
    fix d'
    assume "race_bs ?s d' = Some b"
    then have "d' = d" using dig by (simp add: race_setters)
    moreover have "referrers ?s d = referrers s d" "race_refs ?s b = Suc (race_refs s b)"
      by (simp_all add: referrers_def race_setters)
    ultimately show "race_refs ?s b + number (counting b) ?s = card (referrers ?s d') + number (uncounting b) ?s
      \<and> (race_refs ?s b = 0 \<longrightarrow> handled ?s d' b)" using num inv_countD(1) [OF l(3) b] by simp
  next
    fix u d'
    assume "u \<noteq> t" "race_pc s u = E_del d' b"
    then show "race_refs ?s b = 0" using held_alone [OF l(4), of t b u] pc by simp
  qed (use pc in \<open>auto simp: race_setters counting_def uncounting_def handler_def referrers_def\<close>)
qed

lemma count_erase:
  assumes inv: "race_inv s" and pc: "race_pc s t = Idle" and es: "race_es s ns d = Some (p, b)"
  shows "inv_count (goto t (E_wait d b) (set_entry_of ns d None s))" (is "inv_count ?s")
proof -
  have l: "inv_pool s" "inv_finite s" "inv_count s" using inv by (simp_all add: race_inv_def)
  have b: "race_bs s d = Some b" using inv_poolD(1) [OF l(1) es] .
  have dig: "d' = d" if "race_bs s d' = Some b" for d'
    using inv_poolD(2) [OF l(1) that] inv_poolD(2) [OF l(1) b] by simp
  have ref: "referrers ?s d = referrers s d - {ns}" "\<And>d'. d' \<noteq> d \<Longrightarrow> referrers ?s d' = referrers s d'"
    by (auto simp: referrers_def race_setters)
  have ns: "ns \<in> referrers s d" "finite (referrers s d)"
    using es l(2) by (auto simp: referrers_def inv_finite_def)
  have card: "Suc (card (referrers ?s d)) = card (referrers s d)"
    unfolding ref(1) by (rule card_Suc_Diff1 [OF ns(2,1)])
  have num: "number (counting b) ?s = number (counting b) s"
    "number (uncounting b) ?s = Suc (number (uncounting b) s)"
    using number_step [OF l(2), of "counting b" t ?s] number_step [OF l(2), of "uncounting b" t ?s] pc
    by (simp_all add: race_setters) (simp_all add: counting_def uncounting_def)
  show ?thesis
  proof (rule count_step [OF inv, where t = t and b = b])
    fix d'
    assume "race_bs ?s d' = Some b"
    then have d': "d' = d" using dig by (simp add: race_setters)
    have "handled ?s d b" if "race_refs ?s b = 0"
    proof (rule handled_step [where t = t])
      show "handled s d b" using inv_countD(2) [OF l(3) b] that by (simp add: race_setters)
    qed (use pc in \<open>auto simp: race_setters handler_def\<close>)
    moreover have "race_refs ?s b = race_refs s b" by (simp add: race_setters)
    ultimately show "race_refs ?s b + number (counting b) ?s = card (referrers ?s d') + number (uncounting b) ?s
      \<and> (race_refs ?s b = 0 \<longrightarrow> handled ?s d' b)" using card num d' inv_countD(1) [OF l(3) b] by simp
  next
    fix d' b'
    assume a: "b' \<noteq> b" "race_bs ?s d' = Some b'"
    then have "race_bs s d' = Some b'" "d' \<noteq> d" using b by (auto simp: race_setters)
    with ref(2) show "race_bs s d' = Some b' \<and> referrers ?s d' = referrers s d'" by simp
  qed (use pc inv_countD(3,4) [OF l(3)] in
        \<open>auto simp: race_setters counting_def uncounting_def handler_def\<close>)
qed

lemma count_dec:
  assumes inv: "race_inv s" and pc: "race_pc s t = E_dec d b"
    and x: "n = race_refs s b - 1" "x = (if n = 0 then E_del d b else Leaving b)"
  shows "inv_count (goto t x (set_refs b n s))" (is "inv_count ?s")
proof -
  have l: "inv_pool s" "inv_finite s" "inv_count s" "inv_lock s" using inv by (simp_all add: race_inv_def)
  note R = e_dec_refs [OF inv pc]
  have dig: "d' = d" if "race_bs s d' = Some b" for d'
    using inv_poolD(2) [OF l(1) that] inv_poolD(2) [OF l(1) R(2)] by simp
  have num: "number (counting b) ?s = number (counting b) s"
    "Suc (number (uncounting b) ?s) = number (uncounting b) s"
    using number_step [OF l(2), of "counting b" t ?s] number_step [OF l(2), of "uncounting b" t ?s] pc x(2)
    by (simp_all add: race_setters counting_def uncounting_def)
  have alone: "u = t" if "holds (race_pc s u) = Some b" for u
    using held_alone [OF l(4), of t b u] pc that by simp
  show ?thesis
  proof (rule count_step [OF inv, where t = t and b = b])
    fix d'
    assume "race_bs ?s d' = Some b"
    then have d': "d' = d" using dig by (simp add: race_setters)
    have "handled ?s d b" if "n = 0" unfolding handled_def handler_def
      by (rule exI [of _ t]) (use that x in \<open>simp add: race_setters\<close>)
    moreover have "referrers ?s d = referrers s d" "race_refs ?s b = n"
      by (simp_all add: referrers_def race_setters)
    ultimately show "race_refs ?s b + number (counting b) ?s = card (referrers ?s d') + number (uncounting b) ?s
      \<and> (race_refs ?s b = 0 \<longrightarrow> handled ?s d' b)"
      using num R(1) x(1) d' inv_countD(1) [OF l(3) R(2)] by simp
  next
    fix u d'
    assume "u \<noteq> t" "race_pc s u = E_del d' b"
    then show "race_refs ?s b = 0" using alone [of u] by simp
  next
    fix u ns d'
    assume "u \<noteq> t" "race_pc s u = L_look ns d' b"
    then show "race_refs ?s b \<noteq> 0" using alone [of u] by simp
  qed (use pc x in \<open>auto simp: race_setters counting_def uncounting_def handler_def referrers_def split: if_splits\<close>)
qed

lemma count_delete:
  assumes inv: "race_inv s" and pc: "race_pc s t = E_del d b"
  shows "inv_count (goto t (Leaving b) (set_bs d None s))" (is "inv_count ?s")
proof -
  have l: "inv_pool s" "inv_count s" using inv by (simp_all add: race_inv_def)
  note E = e_del_empty [OF inv pc]
  have dig: "race_bs s d' = Some b \<Longrightarrow> d' = d" for d'
    using inv_poolD(2) [OF l(1), of d' b] inv_poolD(2) [OF l(1) E(3)] by simp
  have alone: "u = t" if "pooled (race_pc s u) = Some (d', b)" for u d' using E(4) [OF that] .
  show ?thesis
  proof (rule count_step [OF inv, where t = t and b = b])
    fix d'
    assume "race_bs ?s d' = Some b"
    then have False using dig [of d'] by (auto simp: race_setters split: if_splits)
    then show "race_refs ?s b + number (counting b) ?s = card (referrers ?s d') + number (uncounting b) ?s
      \<and> (race_refs ?s b = 0 \<longrightarrow> handled ?s d' b)" ..
  next
    fix u ns d'
    assume "u \<noteq> t" "race_pc s u = L_look ns d' b"
    then show "race_refs ?s b \<noteq> 0" using alone [of u d'] by simp
  next
    fix u d'
    show "race_refs ?s b = 0" using E(2) by (simp add: race_setters)
  qed (use pc in
        \<open>auto simp: race_setters counting_def uncounting_def handler_def referrers_def split: if_splits\<close>)
qed

lemma uint_dec_pos: "0 < n \<Longrightarrow> uint_dec n = n - 1"
  by (simp add: uint_dec_def)

lemma step_count:
  assumes "race_step t s s'" "race_inv s"
  shows "inv_count s'"
proof -
  have l: "inv_pool s" "inv_own s" "inv_count s" using assms(2) by (simp_all add: race_inv_def)
  note quiet = count_quiet [OF assms(2), where t = t]
  show ?thesis
    using assms(1)
  proof (cases rule: race_step.cases)
    case p_install then show ?thesis using count_install [OF assms(2)] by blast
  next
    case (enter ns d b p) then show ?thesis using count_enter [OF assms(2)] by blast
  next
    case refs_inc then show ?thesis using count_inc [OF assms(2)] by blast
  next
    case erase then show ?thesis using count_erase [OF assms(2)] by blast
  next
    case e_delete then show ?thesis using count_delete [OF assms(2)] by blast
  next
    case (e_dec_more d b n)
    then show ?thesis
      using count_dec [OF assms(2) e_dec_more(2), of n "Leaving b"] e_dec_refs(1) [OF assms(2) e_dec_more(2)]
      by (simp add: uint_dec_pos)
  next
    case (e_dec_last d b)
    then show ?thesis
      using count_dec [OF assms(2) e_dec_last(2), of 0 "E_del d b"] e_dec_refs(1) [OF assms(2) e_dec_last(2)]
      by (simp add: uint_dec_pos)
  next
    case (enter_taken ns d b)
    have "race_bs s d = Some b" using inv_poolD(4) [OF l(1), of t d b] enter_taken by simp
    then have "race_refs s b \<noteq> 0"
      using referrer_refs [OF assms(2), of t b d ns] enter_taken by (simp add: counting_def)
    then show ?thesis
      by (intro quiet) (use enter_taken in \<open>auto simp: race_setters counting_def uncounting_def handler_def\<close>)
  next
    case (l_there ns d src p b)
    have "race_bs s d = Some b" using inv_poolD(1) [OF l(1)] l_there by blast
    then have "race_refs s b \<noteq> 0"
      using referrer_refs [OF assms(2), of t b d src] l_there by (simp add: counting_def)
    then show ?thesis
      by (intro quiet) (use l_there in \<open>auto simp: race_setters counting_def uncounting_def handler_def\<close>)
  qed (simp_all only: l(3), (rule quiet;
        auto simp: race_setters counting_def uncounting_def handler_def)+)
qed

lemma race_step_inv: "race_step t s s' \<Longrightarrow> race_inv s \<Longrightarrow> race_inv s'"
  using step_finite step_lock step_pool step_count step_own by (simp add: race_inv_def)

lemma race_reachable_inv: "race_reachable s \<Longrightarrow> race_inv s"
  by (induction rule: race_reachable.induct) (auto intro: race_init_inv race_step_inv)

section \<open>Consequences\<close>

lemma quiet_numbers:
  assumes "\<And>t. race_pc s t = Idle"
  shows "number (counting b) s = 0" "number (uncounting b) s = 0"
  by (rule number_zero; simp add: assms)+

lemma quiet_pool:
  assumes inv: "race_inv s" and idle: "\<And>t. race_pc s t = Idle"
  shows "race_bs s d = Some b \<Longrightarrow> race_refs s b = card (referrers s d) \<and> referrers s d \<noteq> {}"
    and "race_bs s d = None \<Longrightarrow> referrers s d = {}"
proof -
  have l: "inv_pool s" "inv_count s" "inv_finite s" using inv by (simp_all add: race_inv_def)
  show "race_refs s b = card (referrers s d) \<and> referrers s d \<noteq> {}" if b: "race_bs s d = Some b"
  proof -
    have "race_refs s b = card (referrers s d)"
      using inv_countD(1) [OF l(2) b] quiet_numbers [OF idle] by simp
    moreover have "race_refs s b \<noteq> 0"
      using inv_countD(2) [OF l(2) b] idle by (auto simp: handled_def handler_def)
    ultimately show ?thesis by auto
  qed
  show "referrers s d = {}" if "race_bs s d = None"
  proof -
    have "race_es s ns d = None" for ns
      using inv_poolD(1) [OF l(1), of ns d] that by (cases "race_es s ns d") auto
    then show ?thesis by (simp add: referrers_def)
  qed
qed

lemma retry_gone:
  assumes inv: "race_inv s" and pc: "race_pc s t = P_check ns d n b" "race_refs s b = 0"
  shows "race_bs s d \<noteq> Some b"
proof
  assume b: "race_bs s d = Some b"
  have l: "inv_count s" "inv_lock s" using inv by (simp_all add: race_inv_def)
  obtain u where u: "handler d b (race_pc s u)"
    using inv_countD(2) [OF l(1) b pc(2)] by (auto simp: handled_def)
  then have "holds (race_pc s u) = Some b" by (auto simp: handler_def)
  with held_alone [OF l(2), of t b u] pc(1) u show False by (auto simp: handler_def)
qed

text \<open>A goroutine that holds a mutex can always go on.\<close>

lemma holder_steps:
  assumes "holds (race_pc s t) = Some b"
  shows "\<exists>s'. race_step t s s'"
proof (cases "race_pc s t")
  case (P_load ns d n) then show ?thesis
    by (cases "race_bs s d") (blast intro: race_step.intros)+
next
  case (P_check ns d n b') then show ?thesis
    by (cases "race_refs s b' = 0") (blast intro: race_step.intros)+
next
  case (Enter ns d b') then show ?thesis
    by (cases "race_es s ns d = None") (blast intro: race_step.intros)+
next
  case (E_dec d b') then show ?thesis
    by (cases "uint_dec (race_refs s b') = 0") (blast intro: race_step.intros)+
next
  case (L_recheck ns d src p b') then show ?thesis
    by (cases "race_es s src d = Some (p, b')") (blast intro: race_step.intros)+
next
  case (L_look ns d b') then show ?thesis
    by (cases "race_es s ns d = None") (blast intro: race_step.intros)+
qed (use assms in \<open>auto intro: race_step.intros\<close>)

fun waits :: "pc \<Rightarrow> nat option" where
  "waits (P_lock ns d n) = Some n"
| "waits (P_wait ns d n b) = Some b"
| "waits (E_wait d b) = Some b"
| "waits (L_wait ns d src p b) = Some b"
| "waits x = None"

lemma waiter_steps:
  assumes "waits (race_pc s t) = Some b" "race_lock s b = None"
  shows "\<exists>s'. race_step t s s'"
  using assms by (cases "race_pc s t") (auto intro: race_step.intros)

lemma waits_or_holds: "x \<noteq> Idle \<Longrightarrow> holds x = None \<Longrightarrow> \<exists>b. waits x = Some b"
  by (cases x) auto

lemma race_no_deadlock:
  assumes inv: "race_inv s" and t: "race_pc s t \<noteq> Idle"
  shows "\<exists>u s'. race_pc s u \<noteq> Idle \<and> race_step u s s'"
proof (cases "holds (race_pc s t)")
  case (Some b)
  then show ?thesis using holder_steps t by blast
next
  case None
  have l: "inv_lock s" using inv by (simp add: race_inv_def)
  obtain b where b: "waits (race_pc s t) = Some b" using waits_or_holds [OF t None] by blast
  show ?thesis
  proof (cases "race_lock s b")
    case None
    with waiter_steps [OF b] t show ?thesis by blast
  next
    case (Some u)
    then have h: "holds (race_pc s u) = Some b" by (rule inv_lockD(1) [OF l])
    then have "race_pc s u \<noteq> Idle" by auto
    with holder_steps [OF h] show ?thesis by blast
  qed
qed

section \<open>Properties\<close>

text \<open>
  C1. Any number of goroutines adding, linking and erasing through one pool, in any interleaving:
  whenever no operation is under way, a digest has a pooled blob exactly when some store has an
  entry for it, all those entries point to that blob, and its count is exactly their number, so
  that nothing leaks and nothing is freed early.
\<close>

theorem race_quiescent:
  assumes "race_reachable s" "\<forall>t. race_pc s t = Idle"
  shows "(race_bs s d = None \<longleftrightarrow> (\<forall>ns. race_es s ns d = None))
    \<and> (\<forall>b. race_bs s d = Some b \<longrightarrow> race_refs s b = card {ns. race_es s ns d \<noteq> None})
    \<and> (\<forall>ns p b. race_es s ns d = Some (p, b) \<longrightarrow> race_bs s d = Some b)"
proof -
  note inv = race_reachable_inv [OF assms(1)]
  have idle: "race_pc s t = Idle" for t using assms(2) by blast
  have "race_bs s d = None \<longleftrightarrow> referrers s d = {}"
    using quiet_pool [OF inv idle, of d] by (cases "race_bs s d") auto
  moreover have "\<forall>ns p b. race_es s ns d = Some (p, b) \<longrightarrow> race_bs s d = Some b"
    using inv inv_poolD(1) by (auto simp: race_inv_def)
  moreover have "referrers s d = {} \<longleftrightarrow> (\<forall>ns. race_es s ns d = None)"
    by (auto simp: referrers_def simp del: not_None_eq)
  ultimately show ?thesis
    using quiet_pool(1) [OF inv idle, of d] by (simp add: referrers_def)
qed

text \<open>One goroutine adds a blob to the store \<open>''a''\<close>, alone.\<close>

lemma race_example:
  "\<exists>s. race_reachable s \<and> (\<forall>t. race_pc s t = Idle) \<and> race_es s ''a'' ''d'' \<noteq> None"
proof -
  let ?s1 = "goto 0 (P_lock ''a'' ''d'' 0) (race_init\<lparr>race_next := Suc 0,
      race_refs := (race_refs race_init)(0 := 0), race_lock := (race_lock race_init)(0 := None),
      race_dig := (race_dig race_init)(0 := ''d'')\<rparr>)"
  let ?s2 = "goto 0 (P_load ''a'' ''d'' 0) (take_lock 0 0 ?s1)"
  let ?s3 = "goto 0 (Enter ''a'' ''d'' 0) (set_bs ''d'' (Some 0) ?s2)"
  let ?s4 = "goto 0 (Counting ''d'' 0) (set_entry_of ''a'' ''d'' (Some (1, 0)) (?s3\<lparr>race_next := Suc 1\<rparr>))"
  let ?s5 = "goto 0 (Leaving 0) (set_refs 0 (Suc (race_refs ?s4 0)) ?s4)"
  let ?s6 = "goto 0 Idle (drop_lock 0 ?s5)"
  have "race_step 0 race_init ?s1"
    using race_step.publish [of race_init 0 0 "''a''" "''d''"] by (simp add: race_init_def)
  then have s1: "race_reachable ?s1" by (rule race_reachable.step [OF race_reachable.start])
  have "race_step 0 ?s1 ?s2"
    using race_step.p_lock [of ?s1 0 "''a''" "''d''" 0] by (simp add: race_setters race_init_def)
  then have s2: "race_reachable ?s2" by (rule race_reachable.step [OF s1])
  have "race_step 0 ?s2 ?s3"
    using race_step.p_install [of ?s2 0 "''a''" "''d''" 0] by (simp add: race_setters race_init_def)
  then have s3: "race_reachable ?s3" by (rule race_reachable.step [OF s2])
  have "race_step 0 ?s3 ?s4"
    using race_step.enter [of ?s3 0 "''a''" "''d''" 0 1] by (simp add: race_setters race_init_def)
  then have s4: "race_reachable ?s4" by (rule race_reachable.step [OF s3])
  have "race_step 0 ?s4 ?s5"
    using race_step.refs_inc [of ?s4 0 "''d''" 0] by (simp add: race_setters race_init_def)
  then have s5: "race_reachable ?s5" by (rule race_reachable.step [OF s4])
  have "race_step 0 ?s5 ?s6"
    using race_step.leave [of ?s5 0 0] by (simp add: race_setters race_init_def)
  then have "race_reachable ?s6" by (rule race_reachable.step [OF s5])
  then show ?thesis by (intro exI [of _ ?s6]) (simp add: race_setters race_init_def)
qed

theorem race_quiescent_witness:
  "\<exists>s b. race_reachable s \<and> race_bs s ''d'' = Some b
    \<and> race_refs s b = card {ns. race_es s ns ''d'' \<noteq> None}"
proof -
  obtain s where s: "race_reachable s" "\<forall>t. race_pc s t = Idle" "race_es s ''a'' ''d'' \<noteq> None"
    using race_example by blast
  from race_quiescent [OF s(1,2), of "''d''"] s show ?thesis by (cases "race_bs s ''d''") auto
qed

text \<open>
  C34. The count of a blob never wraps below zero: a goroutine about to take a reference off finds
  at least one; and an \<open>Add\<close> retries only when the blob it had found is no longer in the pool.
\<close>

theorem race_no_underflow:
  assumes "race_reachable s"
  shows "(race_pc s t = E_dec d b \<longrightarrow> 0 < race_refs s b)
    \<and> (race_pc s t = P_check ns d n b \<longrightarrow> race_refs s b = 0 \<longrightarrow> race_bs s d \<noteq> Some b)"
  using e_dec_refs(1) [OF race_reachable_inv [OF assms]] retry_gone [OF race_reachable_inv [OF assms]] by blast

theorem race_no_underflow_witness:
  "\<exists>s b. race_reachable s \<and> race_pc s 0 = E_dec ''d'' b \<and> 0 < race_refs s b"
proof -
  obtain s p b where s: "race_reachable s" "\<forall>t. race_pc s t = Idle" "race_es s ''a'' ''d'' = Some (p, b)"
    using race_example by fastforce
  let ?s1 = "goto 0 (E_wait ''d'' b) (set_entry_of ''a'' ''d'' None s)"
  let ?s2 = "goto 0 (E_dec ''d'' b) (take_lock 0 b ?s1)"
  have "race_step 0 s ?s1" using race_step.erase [of s 0 "''a''" "''d''" p b] s by simp
  then have s1: "race_reachable ?s1" by (rule race_reachable.step [OF s(1)])
  have l: "inv_lock s" using race_reachable_inv [OF s(1)] by (simp add: race_inv_def)
  have "race_lock s b = None"
  proof (cases "race_lock s b")
    case (Some u)
    from inv_lockD(1) [OF l this] s(2) show ?thesis by simp
  qed
  then have "race_step 0 ?s1 ?s2"
    using race_step.e_lock [of ?s1 0 "''d''" b] by (simp add: race_setters)
  then have s2: "race_reachable ?s2" by (rule race_reachable.step [OF s1])
  moreover have pc: "race_pc ?s2 0 = E_dec ''d'' b" by (simp add: goto_def)
  ultimately show ?thesis using race_no_underflow [OF s2, of 0 "''d''" b] by blast
qed

text \<open>
  C35. The operations on a pool cannot deadlock: while any operation is under way, some goroutine that
  has one under way can take its next step.
\<close>

theorem race_progress:
  assumes "race_reachable s" "race_pc s t \<noteq> Idle"
  shows "\<exists>u s'. race_pc s u \<noteq> Idle \<and> race_step u s s'"
  by (rule race_no_deadlock [OF race_reachable_inv [OF assms(1)] assms(2)])

theorem race_progress_witness:
  "\<exists>s u s'. race_reachable s \<and> race_pc s u \<noteq> Idle \<and> race_step u s s'"
proof -
  let ?s1 = "goto 0 (P_lock ''a'' ''d'' 0) (race_init\<lparr>race_next := Suc 0,
      race_refs := (race_refs race_init)(0 := 0), race_lock := (race_lock race_init)(0 := None),
      race_dig := (race_dig race_init)(0 := ''d'')\<rparr>)"
  have "race_step 0 race_init ?s1"
    using race_step.publish [of race_init 0 0 "''a''" "''d''"] by (simp add: race_init_def)
  then have s1: "race_reachable ?s1" by (rule race_reachable.step [OF race_reachable.start])
  moreover have "race_pc ?s1 0 \<noteq> Idle" by (simp add: goto_def)
  ultimately show ?thesis using race_progress [OF s1, of 0] by blast
qed

end
