(* ===== verification/Contract.thy ===== *)
theory Contract
  imports StoreApi
begin

text \<open>
  The contract of \<open>Store\<close> that \<open>store.go\<close> documents, as a locale: what a store shows is a map from
  digests to bytes and labels, and the five operations read and update that map. A backend
  provides the laws, a decorator and a client rely on them.
\<close>

section \<open>What an operation answers\<close>

type_synonym store_view = "string \<Rightarrow> (bytes \<times> labels) option"

text \<open>The outcome of \<open>Add\<close> on a store that shows \<open>v\<close>.\<close>

datatype add_outcome = Added string | Duplicate string | Mismatch | Failed

definition add_outcome :: "'h digest_lib \<Rightarrow> store_view \<Rightarrow> meta \<Rightarrow> reader \<Rightarrow> add_outcome" where
  "add_outcome L v m r =
     (let algo = (if Digest m = '''' then Canonical else dl_Algorithm L (Digest m));
          d = data_digest L algo (fst (io_Copy r))
      in if Digest m \<noteq> '''' \<and> dl_Validate L (Digest m) \<noteq> None then Failed
         else if Digest m \<noteq> '''' \<and> v (Digest m) \<noteq> None then Duplicate (Digest m)
         else if snd (io_Copy r) \<noteq> None then Failed
         else if Digest m \<noteq> '''' \<and> Digest m \<noteq> d then Mismatch
         else if v d \<noteq> None then Duplicate d
         else Added d)"

fun gives :: "add_outcome \<Rightarrow> meta \<times> error option \<Rightarrow> bool" where
  "gives (Added d) (m, err) = (err = None \<and> Digest m = d)"
| "gives (Duplicate d) (m, err) = (err = Some ErrAlreadyExists \<and> Digest m = d)"
| "gives Mismatch (m, err) = (err = Some ErrDigestMismatch)"
| "gives Failed (m, err) = (err \<noteq> None)"

definition after_add :: "add_outcome \<Rightarrow> meta \<Rightarrow> reader \<Rightarrow> store_view \<Rightarrow> store_view" where
  "after_add out m r v = (case out of Added d \<Rightarrow> v(d \<mapsto> (fst (io_Copy r), Labels m)) | _ \<Rightarrow> v)"

text \<open>
  What an \<open>Info\<close> answers while the context is live: the size, the metadata, and after the metadata
  the time the blob was added, which a store may not know.
\<close>

definition tells :: "'s blobInfo \<Rightarrow> 's \<Rightarrow> string \<Rightarrow> bytes \<times> labels \<Rightarrow> bool" where
  "tells i s d x \<longleftrightarrow>
     bi_digest i = d
     \<and> (\<forall>e. live e \<longrightarrow>
          with_info i (Info_Size e) s = Some (Inr (int (length (fst x))), s)
          \<and> with_info i (infoMeta e) s =
              Some (Inr \<lparr>Digest = d, Labels = snd x, Size = int (length (fst x))\<rparr>, s))
     \<and> (\<exists>t. \<forall>e e'. live e \<longrightarrow> live e' \<longrightarrow>
          with_info i (bind (infoMeta e) (\<lambda>m. bind (Info_Added e') (\<lambda>a. ret (m, a)))) s =
            Some ((Inr \<lparr>Digest = d, Labels = snd x, Size = int (length (fst x))\<rparr>, added_result t), s))"

lemma add_outcome_is_Added:
  assumes "digest_lib_ok L" "add_outcome L v m r = Added d"
  shows "v d = None" "names_bytes L d (fst (io_Copy r))" "snd (io_Copy r) = None"
    "Digest m = '''' \<or> Digest m = d"
proof -
  show "v d = None" "snd (io_Copy r) = None" "Digest m = '''' \<or> Digest m = d"
    using assms(2) by (auto simp: add_outcome_def Let_def simp del: not_None_eq split: if_splits)
  show "names_bytes L d (fst (io_Copy r))"
  proof (cases "Digest m = ''''")
    case True
    then have "d = data_digest L Canonical (fst (io_Copy r))"
      using assms(2) by (auto simp: add_outcome_def Let_def split: if_splits)
    then show ?thesis using names_bytes_data_digest [OF assms(1) Canonical_algorithm] by simp
  next
    case False
    then have "dl_Validate L (Digest m) = None" "Digest m = d"
      "data_digest L (dl_Algorithm L (Digest m)) (fst (io_Copy r)) = Digest m"
      using assms(2) by (auto simp: add_outcome_def Let_def split: if_splits)
    then show ?thesis by (simp add: names_bytes_def)
  qed
qed

section \<open>The contract\<close>

text \<open>\<open>takes\<close> are the readers that a store is given (see \<open>MemRun\<close> for why it is needed).\<close>

locale blob_store =
  fixes L :: "'h digest_lib" and st :: "'s store" and view :: "'s \<Rightarrow> store_view"
    and inv :: "'s \<Rightarrow> bool" and takes :: "reader \<Rightarrow> bool"
  assumes lib: "inv s \<Longrightarrow> digest_lib_ok L"
    and add: "inv s \<Longrightarrow> takes r \<Longrightarrow> live e \<Longrightarrow>
      \<exists>res s'. Add st e m r s = Some (res, s') \<and> inv s'
        \<and> gives (add_outcome L (view s) m r) res
        \<and> view s' = after_add (add_outcome L (view s) m r) m r (view s)"
    and stat: "inv s \<Longrightarrow> live e \<Longrightarrow>
      (case view s d of
         None \<Rightarrow> Stat st e d s = Some (Inl ErrNotExist, s)
       | Some x \<Rightarrow> \<exists>i. Stat st e d s = Some (Inr i, s) \<and> tells i s d x)"
    and opens: "inv s \<Longrightarrow> live e \<Longrightarrow>
      (case view s d of
         None \<Rightarrow> Open st e d s = Some (Inl ErrNotExist, s)
       | Some x \<Rightarrow> \<exists>i. Open st e d s = Some (Inr (fst x, i), s) \<and> tells i s d x)"
    and label: "inv s \<Longrightarrow> live e \<Longrightarrow>
      \<exists>s'. Label st e d ls s = Some (if view s d = None then Some ErrNotExist else None, s') \<and> inv s'
        \<and> view s' = (case view s d of None \<Rightarrow> view s | Some x \<Rightarrow> (view s)(d \<mapsto> (fst x, ls)))"
    and erase: "inv s \<Longrightarrow> live e \<Longrightarrow>
      \<exists>s'. Erase st e d s = Some (None, s') \<and> inv s' \<and> view s' = (view s)(d := None)"
    and named: "inv s \<Longrightarrow> view s d = Some x \<Longrightarrow> names_bytes L d (fst x)"
begin

lemma add_outcome_Added:
  assumes "inv s" "add_outcome L (view s) m r = Added d"
  shows "view s d = None" "names_bytes L d (fst (io_Copy r))" "snd (io_Copy r) = None"
    "Digest m = '''' \<or> Digest m = d"
  using add_outcome_is_Added [OF lib [OF assms(1)] assms(2)] by auto

lemma add_success:
  assumes "inv s" "takes r" "live e" "Add st e m r s = Some ((m', None), s')"
  shows "inv s' \<and> view s (Digest m') = None
    \<and> view s' = (view s)(Digest m' \<mapsto> (fst (io_Copy r), Labels m))
    \<and> names_bytes L (Digest m') (fst (io_Copy r)) \<and> snd (io_Copy r) = None
    \<and> (Digest m = '''' \<or> Digest m = Digest m')"
proof -
  have g: "gives (add_outcome L (view s) m r) (m', None)" "inv s'"
    "view s' = after_add (add_outcome L (view s) m r) m r (view s)"
    using add [OF assms(1-3), of m] assms(4) by auto
  then have out: "add_outcome L (view s) m r = Added (Digest m')"
    by (cases "add_outcome L (view s) m r") auto
  with g add_outcome_Added [OF assms(1) out] show ?thesis by (simp add: after_add_def)
qed

lemma add_failure:
  assumes "inv s" "takes r" "live e" "Add st e m r s = Some ((m', Some err), s')"
  shows "inv s' \<and> view s' = view s"
proof -
  have g: "gives (add_outcome L (view s) m r) (m', Some err)" "inv s'"
    "view s' = after_add (add_outcome L (view s) m r) m r (view s)"
    using add [OF assms(1-3), of m] assms(4) by auto
  then show ?thesis by (cases "add_outcome L (view s) m r") (auto simp: after_add_def)
qed

text \<open>Reading back what was added.\<close>

lemma add_then_open:
  assumes "inv s" "takes r" "live e" "live e'" "Add st e m r s = Some ((m', None), s')"
  shows "\<exists>i. Open st e' (Digest m') s' = Some (Inr (fst (io_Copy r), i), s')
    \<and> tells i s' (Digest m') (fst (io_Copy r), Labels m)"
  using add_success [OF assms(1-3,5)] opens [of s' e' "Digest m'"] assms(4) by auto

text \<open>The same bytes again are a duplicate, and change nothing.\<close>

lemma add_twice:
  assumes "inv s" "takes r" "takes r'" "live e" "live e'" "Add st e m r s = Some ((m', None), s')"
    and "Digest m2 = Digest m'"
  shows "\<exists>m3 err s''. Add st e' m2 r' s' = Some ((m3, Some err), s'')
    \<and> errors_Is err ErrAlreadyExists \<and> view s'' = view s'"
proof -
  note A = add_success [OF assms(1,2,4,6)]
  have "Digest m2 \<noteq> ''''" "dl_Validate L (Digest m2) = None"
    using A lib [OF assms(1)] valid_nonempty assms(7) by (auto simp: names_bytes_def)
  then have "add_outcome L (view s') m2 r' = Duplicate (Digest m2)"
    using A assms(7) by (simp add: add_outcome_def)
  with add [of s' r' e' m2] A assms(3,5) show ?thesis by (fastforce simp: after_add_def)
qed

lemma erase_then_open:
  assumes "inv s" "live e" "live e'"
  shows "\<exists>s'. Erase st e d s = Some (None, s') \<and> Open st e' d s' = Some (Inl ErrNotExist, s')
    \<and> (\<forall>d'. d' \<noteq> d \<longrightarrow> view s' d' = view s d')"
proof -
  obtain s' where "Erase st e d s = Some (None, s')" "inv s'" "view s' = (view s)(d := None)"
    using erase [OF assms(1,2)] by blast
  with opens [of s' e' d] assms(3) show ?thesis by auto
qed

text \<open>An erased blob can be added again.\<close>

lemma add_after_erase:
  assumes "inv s" "takes r" "live e" "live e'" "live e''" "Add st e m r s = Some ((m', None), s')"
  shows "\<exists>s'' m'' s'''. Erase st e' (Digest m') s' = Some (None, s'')
    \<and> Add st e'' m r s'' = Some ((m'', None), s''') \<and> view s''' = view s'"
proof -
  note A = add_success [OF assms(1-3,6)]
  obtain s'' where s'': "Erase st e' (Digest m') s' = Some (None, s'')" "inv s''"
      "view s'' = (view s')(Digest m' := None)"
    using erase [of s' e'] A assms(4) by blast
  have v: "view s'' = view s" using s''(3) A by (auto simp: fun_eq_iff)
  have "gives (add_outcome L (view s) m r) (m', None)"
    using add [OF assms(1-3), of m] assms(6) by auto
  then have out: "add_outcome L (view s) m r = Added (Digest m')"
    by (cases "add_outcome L (view s) m r") auto
  obtain res' s''' where "Add st e'' m r s'' = Some (res', s''')" "gives (Added (Digest m')) res'"
      "view s''' = after_add (Added (Digest m')) m r (view s'')"
    using add [OF s''(2) assms(2,5), of m] unfolding v out by blast
  with s'' v A show ?thesis by (cases res') (auto simp: after_add_def)
qed

lemma label_then_stat:
  assumes "inv s" "live e" "live e'" "view s d = Some x"
  shows "\<exists>s' i. Label st e d ls s = Some (None, s') \<and> Stat st e' d s' = Some (Inr i, s')
    \<and> tells i s' d (fst x, ls)"
proof -
  obtain s' where "Label st e d ls s = Some (None, s')" "inv s'" "view s' = (view s)(d \<mapsto> (fst x, ls))"
    using label [OF assms(1,2), of d ls] assms(4) by auto
  with stat [of s' e' d] assms(3) show ?thesis by auto
qed

end

end
