(* ===== verification/MemContract.thy ===== *)
theory MemContract
  imports MemRun Contract
begin

text \<open>The in-memory store keeps the contract of \<open>Store\<close>.\<close>

definition MemStore_store :: "'h digest_lib \<Rightarrow> string \<Rightarrow> memStores store" where
  "MemStore_store L ns =
     \<lparr>Add = MemStore_Add L ns, Stat = MemStore_Stat ns, Open = MemStore_Open ns,
      Label = MemStore_Label ns, Erase = MemStore_Erase ns\<rparr>"

definition mem_shows :: "string \<Rightarrow> memStores \<Rightarrow> store_view" where
  "mem_shows ns s d = map_option (\<lambda>v. (fst v, fst (snd v))) (mem_view s ns d)"

definition mem_run_ok :: "'h digest_lib \<Rightarrow> bytes set \<Rightarrow> memStores \<Rightarrow> bool" where
  "mem_run_ok L U s \<longleftrightarrow> digest_lib_ok L \<and> collision_free L U \<and> mem_ok L U s"

lemma add_answer_gives:
  "gives (add_outcome L (mem_shows ns s) m r) (add_answer L (mem_view s ns) m r)"
  by (auto simp: add_outcome_def add_answer_def mem_shows_def Let_def simp del: not_None_eq
      split: option.splits prod.splits)

lemma tells_mem_info:
  "tells (mem_info d p s) s d (fst (entry_view s p), fst (snd (entry_view s p)))"
proof -
  have "bi_digest (mem_info d p s) = d" by (simp add: mem_info_def NewInfo_def)
  moreover have "with_info (mem_info d p s) (Info_Size e) s = Some (Inr (int (length (fst (entry_view s p)))), s)" for e
    by (simp add: mem_info_def NewInfo_def Info_Size_def entry_view_def go_run)
  moreover have "with_info (mem_info d p s) (bind (infoMeta e) (\<lambda>m. bind (Info_Added e') (\<lambda>a. ret (m, a)))) s =
      Some ((Inr \<lparr>Digest = d, Labels = fst (snd (entry_view s p)), Size = int (length (fst (entry_view s p)))\<rparr>,
             added_result (me_added (ms_entry s p))), s)" if "live e" for e e'
    using that by (simp add: mem_info_def NewInfo_def infoMeta_def Info_Size_def Info_Labels_def Info_Added_def
        Info_Digest_def mem_labels_def entry_labels_def entry_view_def go_run Let_def)
  moreover have "with_info (mem_info d p s) (infoMeta e) s =
      Some (Inr \<lparr>Digest = d, Labels = fst (snd (entry_view s p)), Size = int (length (fst (entry_view s p)))\<rparr>, s)"
    if "live e" for e
    using that mem_info_shows [of d p s] by (simp add: info_shows_def entry_view_def)
  ultimately show ?thesis by (auto simp: tells_def)
qed

lemma mem_shows_None: "ms_es s ns d = None \<Longrightarrow> mem_shows ns s d = None"
  by (simp add: mem_shows_def mem_view_def)

lemma mem_shows_Some:
  "ms_es s ns d = Some p \<Longrightarrow> mem_shows ns s d = Some (fst (entry_view s p), fst (snd (entry_view s p)))"
  by (simp add: mem_shows_def mem_view_def)


interpretation mem: blob_store L "MemStore_store L ns" "mem_shows ns" "mem_run_ok L U"
  "\<lambda>r. fst (io_Copy r) \<in> U" for L :: "'h digest_lib" and ns U
proof (unfold_locales, goal_cases)
  case (2 s r e m)
  then have ok: "digest_lib_ok L" "collision_free L U" "mem_ok L U s" by (simp_all add: mem_run_ok_def)
  obtain m' err where ans: "add_answer L (mem_view s ns) m r = (m', err)"
    by (cases "add_answer L (mem_view s ns) m r")
  obtain s' where s': "MemStore_Add L ns e m r s = Some ((m', err), s')" "mem_ok L U s'"
      "mem_view s' = (if err = None
        then (mem_view s)(ns := (mem_view s ns)(Digest m' \<mapsto> (fst (io_Copy r), Labels m, time_Now e 0)))
        else mem_view s)"
    using Add_ok [OF ok(1,3,2) 2(2) ans] by blast
  let ?out = "add_outcome L (mem_shows ns s) m r"
  have g: "gives ?out (m', err)" using add_answer_gives [of L ns s m r] ans by simp
  then have "mem_shows ns s' = after_add ?out m r (mem_shows ns s)"
    using s'(3) by (cases ?out) (auto simp: mem_shows_def after_add_def fun_eq_iff)
  with s' g ok show ?case by (auto simp: MemStore_store_def mem_run_ok_def)
next
  case (3 s e d)
  then show ?case
    using tells_mem_info [of d _ s]
    by (cases "ms_es s ns d") (auto simp: mem_shows_None mem_shows_Some MemStore_store_def
        MemStore_Stat_def MemStore_open_def go_run)
next
  case (4 s e d)
  then show ?case
    using tells_mem_info [of d _ s]
    by (cases "ms_es s ns d") (auto simp: mem_shows_None mem_shows_Some MemStore_store_def
        MemStore_Open_def MemStore_open_def go_run entry_view_def)
next
  case (5 s e d ls)
  then have ok: "mem_ok L U s" by (simp add: mem_run_ok_def)
  obtain s' where "MemStore_Label ns e d ls s =
      Some (if mem_view s ns d = None then Some ErrNotExist else None, s')" "mem_ok L U s'"
    "mem_view s' = (case mem_view s ns d of None \<Rightarrow> mem_view s
         | Some (data, _, _) \<Rightarrow> (mem_view s)(ns := (mem_view s ns)(d \<mapsto> (data, ls, time_Now e 0))))"
    using Label_ok [OF ok] by blast
  with 5 show ?case
    by (auto simp: MemStore_store_def mem_run_ok_def mem_shows_def fun_eq_iff split: option.splits)
next
  case (6 s e d)
  then have ok: "mem_ok L U s" by (simp add: mem_run_ok_def)
  obtain s' where "MemStore_Erase ns e d s = Some (None, s')" "mem_ok L U s'"
      "mem_view s' = (mem_view s)(ns := (mem_view s ns)(d := None))"
    using Erase_ok [OF ok] by blast
  with 6 show ?case by (auto simp: MemStore_store_def mem_run_ok_def mem_shows_def fun_eq_iff)
next
  case (7 s d x)
  then show ?case
    using mem_view_named [OF mem_okD(1)] by (fastforce simp: mem_run_ok_def mem_shows_def)
qed (simp add: mem_run_ok_def)

section \<open>Properties\<close>

lemma mem_start_ok: "collision_free example_lib {x} \<and> mem_run_ok example_lib {x} (NewMemStores 0 [])"
  by (simp add: collision_free_def mem_run_ok_def example_lib_ok NewMemStores_ok)

lemma mem_add_example:
  "\<exists>m' s'. Add (MemStore_store example_lib ''a'') (background 1) zero_meta (bytes_Reader ''hi'')
      (NewMemStores 0 []) = Some ((m', None), s')"
proof -
  have "add_outcome example_lib (mem_shows ''a'' (NewMemStores 0 [])) zero_meta (bytes_Reader ''hi'') =
      Added (data_digest example_lib Canonical ''hi'')"
    by (simp add: add_outcome_def zero_meta_def mem_shows_def mem_view_def NewMemStores_def Let_def)
  then show ?thesis
    using mem.add [of example_lib "{''hi''}" "NewMemStores 0 []" "bytes_Reader ''hi''" "background 1"
        "''a''" zero_meta] mem_start_ok [of "''hi''"] by auto
qed

text \<open>
  C11. What was added is read back: after an \<open>Add\<close> that reports success, \<open>Open\<close> of the reported
  digest delivers exactly the bytes that were read, its \<open>Info\<close> answers their number and the labels
  given, the digest names those bytes, and it is the digest asked for, if one was.
\<close>

theorem mem_add_open:
  assumes "mem_run_ok L U s" "fst (io_Copy r) \<in> U" "live e" "live e'"
    and "Add (MemStore_store L ns) e m r s = Some ((m', None), s')"
  shows "\<exists>i. Open (MemStore_store L ns) e' (Digest m') s' = Some (Inr (fst (io_Copy r), i), s')
    \<and> with_info i (infoMeta e') s' =
        Some (Inr \<lparr>Digest = Digest m', Labels = Labels m, Size = int (length (fst (io_Copy r)))\<rparr>, s')
    \<and> names_bytes L (Digest m') (fst (io_Copy r)) \<and> (Digest m \<noteq> '''' \<longrightarrow> Digest m' = Digest m)"
  using mem.add_then_open [OF assms(1-4) assms(5)] mem.add_success [OF assms(1-3,5)] assms(4)
  by (auto simp: tells_def)

theorem mem_add_open_witness:
  "\<exists>m' s' i. Add (MemStore_store example_lib ''a'') (background 1) zero_meta (bytes_Reader ''hi'')
      (NewMemStores 0 []) = Some ((m', None), s')
    \<and> Open (MemStore_store example_lib ''a'') (background 2) (Digest m') s' = Some (Inr (''hi'', i), s')"
proof -
  obtain m' s' where a: "Add (MemStore_store example_lib ''a'') (background 1) zero_meta (bytes_Reader ''hi'')
      (NewMemStores 0 []) = Some ((m', None), s')" using mem_add_example by blast
  with mem_add_open [of example_lib "{''hi''}" _ "bytes_Reader ''hi''" "background 1" "background 2", OF _ _ _ _ a]
    mem_start_ok [of "''hi''"] show ?thesis by auto
qed

text \<open>
  Stores of one pool are apart: \<open>Erase\<close> in one store always succeeds, makes the blob absent
  there, and leaves every blob of every other store, the erased one included, as it was.
\<close>

theorem mem_erase_isolated:
  assumes "mem_run_ok L U s" "live e" "live e'"
  shows "\<exists>s'. Erase (MemStore_store L ns) e d s = Some (None, s') \<and> mem_run_ok L U s'
    \<and> Open (MemStore_store L ns) e' d s' = Some (Inl ErrNotExist, s')
    \<and> (\<forall>ns' d'. (ns', d') \<noteq> (ns, d) \<longrightarrow> mem_view s' ns' d' = mem_view s ns' d')"
proof -
  have ok: "mem_ok L U s" using assms(1) by (simp add: mem_run_ok_def)
  obtain s' where s': "MemStore_Erase ns e d s = Some (None, s')" "mem_ok L U s'"
      "mem_view s' = (mem_view s)(ns := (mem_view s ns)(d := None))"
    using Erase_ok [OF ok] by blast
  have run: "mem_run_ok L U s'" using s'(2) assms(1) by (simp add: mem_run_ok_def)
  have "mem_shows ns s' d = None" using s'(3) by (simp add: mem_shows_def)
  then have "Open (MemStore_store L ns) e' d s' = Some (Inl ErrNotExist, s')"
    using mem.opens [OF run assms(3), of ns d] by simp
  with s' run show ?thesis by (auto simp: MemStore_store_def)
qed

theorem mem_erase_isolated_witness:
  "\<exists>s'. Erase (MemStore_store example_lib ''a'') (background 1) ''x'' (NewMemStores 0 []) = Some (None, s')
    \<and> Open (MemStore_store example_lib ''a'') (background 2) ''x'' s' = Some (Inl ErrNotExist, s')"
  using mem_erase_isolated [of example_lib "{''hi''}" "NewMemStores 0 []" "background 1" "background 2" "''a''" "''x''"]
    mem_start_ok [of "''hi''"] by auto

text \<open>
  \<open>Add\<close> answers as its contract says on every path: an invalid digest, a blob that is there (then
  nothing is read), a reader that fails, a digest that does not match the bytes, and success; and
  only success changes what the stores show.
\<close>

theorem mem_add_answers:
  assumes "mem_run_ok L U s" "fst (io_Copy r) \<in> U"
  shows "\<exists>m' err s'. MemStore_Add L ns e m r s = Some ((m', err), s') \<and> mem_run_ok L U s'
    \<and> (m', err) =
       (if Digest m \<noteq> '''' \<and> dl_Validate L (Digest m) \<noteq> None then (m, dl_Validate L (Digest m))
        else if Digest m \<noteq> '''' \<and> mem_view s ns (Digest m) \<noteq> None then (m, Some ErrAlreadyExists)
        else if snd (io_Copy r) \<noteq> None then (m, Some (Wrapped ''read'' (the (snd (io_Copy r)))))
        else
          (let data = fst (io_Copy r);
               d = data_digest L (if Digest m = '''' then Canonical else dl_Algorithm L (Digest m)) data
           in if Digest m \<noteq> '''' \<and> Digest m \<noteq> d
              then (m\<lparr>Size := int (length data)\<rparr>, Some ErrDigestMismatch)
              else (m\<lparr>Digest := d, Size := int (length data)\<rparr>,
                    if mem_view s ns d = None then None else Some ErrAlreadyExists)))
    \<and> mem_view s' = (if err = None
        then (mem_view s)(ns := (mem_view s ns)(Digest m' \<mapsto> (fst (io_Copy r), Labels m, time_Now e 0)))
        else mem_view s)"
proof -
  have ok: "digest_lib_ok L" "collision_free L U" "mem_ok L U s" using assms(1) by (simp_all add: mem_run_ok_def)
  obtain m' err where ans: "add_answer L (mem_view s ns) m r = (m', err)"
    by (cases "add_answer L (mem_view s ns) m r")
  obtain s' where s': "MemStore_Add L ns e m r s = Some ((m', err), s')" "mem_ok L U s'"
      "mem_view s' = (if err = None
        then (mem_view s)(ns := (mem_view s ns)(Digest m' \<mapsto> (fst (io_Copy r), Labels m, time_Now e 0)))
        else mem_view s)"
    using Add_ok [OF ok(1,3,2) assms(2) ans] by blast
  have swap: "m\<lparr>Size := z, Digest := d\<rparr> = m\<lparr>Digest := d, Size := z\<rparr>" for z d by (cases m) simp
  have run: "mem_run_ok L U s'" using s'(2) ok by (simp add: mem_run_ok_def)
  show ?thesis
    using s'(1,3) run ans swap unfolding add_answer_def
    by (intro exI [of _ m'] exI [of _ err] exI [of _ s'])
       (cases "io_Copy r"; auto simp: Let_def simp del: not_None_eq split: option.splits)
qed

theorem mem_add_answers_witness:
  "\<exists>m' s'. MemStore_Add example_lib ''a'' (background 1) zero_meta (bytes_Reader ''hi'') (NewMemStores 0 [])
      = Some ((m', None), s') \<and> Digest m' = data_digest example_lib Canonical ''hi'' \<and> Size m' = 2"
proof -
  have none: "mem_view (NewMemStores 0 []) ns d = None" for ns d
    by (simp add: mem_view_def NewMemStores_def Let_def)
  show ?thesis
    using mem_add_answers [of example_lib "{''hi''}" "NewMemStores 0 []" "bytes_Reader ''hi''" "''a''" "background 1" zero_meta]
      mem_start_ok [of "''hi''"] none by (auto simp: zero_meta_def Let_def)
qed

end
