(* ===== verification/Decorators.thy ===== *)
theory Decorators
  imports MemContract
begin

text \<open>
  \<open>util.go\<close>, the stores that wrap or replace other stores, and the tracing and metering stores of
  \<open>cmd/configs/otel.go\<close>. A decorator that embeds a \<open>Store\<close> and overrides some methods is a
  record update. Both sides of a fallback live in one state.
\<close>

section \<open>Stores without a backend\<close>

definition ErrorStore :: "error \<Rightarrow> 's store" where
  "ErrorStore err =
     \<lparr>Add = (\<lambda>e m r. ret (zero_meta, Some err)), Stat = (\<lambda>e d. ret (Inl err)),
      Open = (\<lambda>e d. ret (Inl err)), Label = (\<lambda>e d ls. ret (Some err)),
      Erase = (\<lambda>e d. ret (Some err))\<rparr>"

definition UnimplementedStore :: "'s store" where
  "UnimplementedStore =
     \<lparr>Add = (\<lambda>e m r. ret (zero_meta, Some ErrUnimplemented)), Stat = (\<lambda>e d. ret (Inl ErrUnimplemented)),
      Open = (\<lambda>e d. ret (Inl ErrUnimplemented)), Label = (\<lambda>e d ls. ret (Some ErrUnimplemented)),
      Erase = (\<lambda>e d. ret (Some ErrUnimplemented))\<rparr>"

definition UnimplementedStores_Use :: "string \<Rightarrow> 's store" where
  "UnimplementedStores_Use ns = UnimplementedStore"

definition FixedStores_Use :: "'s store \<Rightarrow> string \<Rightarrow> 's store" where
  "FixedStores_Use st ns = st"

section \<open>Fallback\<close>

definition FallbackStore :: "'s store \<Rightarrow> 's store \<Rightarrow> 's store" where
  "FallbackStore p q =
     \<lparr>Add = Add p,
      Stat = (\<lambda>e d. bind (Stat p e d) (\<lambda>r.
        case r of Inr info \<Rightarrow> ret (Inr info) | Inl _ \<Rightarrow> Stat q e d)),
      Open = (\<lambda>e d. bind (Open p e d) (\<lambda>r.
        case r of Inr x \<Rightarrow> ret (Inr x) | Inl _ \<Rightarrow> Open q e d)),
      Label = Label p, Erase = Erase p\<rparr>"

definition FallbackStores_Use :: "(string \<Rightarrow> 's store) \<Rightarrow> 's store \<Rightarrow> string \<Rightarrow> 's store" where
  "FallbackStores_Use primary secondary ns = FallbackStore (primary ns) secondary"

section \<open>Policies on Add\<close>

definition AllowDuplicates :: "'s store \<Rightarrow> 's store" where
  "AllowDuplicates st = st\<lparr>Add := (\<lambda>e m r.
     bind (Add st e m r) (\<lambda>(m, err).
       case err of
         Some x \<Rightarrow> if errors_Is x ErrAlreadyExists then ret (m, None) else ret (m, err)
       | None \<Rightarrow> ret (m, err)))\<rparr>"

definition CheckExistence :: "'s store \<Rightarrow> 's store" where
  "CheckExistence st = st\<lparr>Add := (\<lambda>e m r.
     if Digest m \<noteq> '''' then
       bind (Stat st e (Digest m)) (\<lambda>res.
         case res of
           Inr info \<Rightarrow>
             bind (with_info info (Info_Size e)) (\<lambda>sz.
               case sz of
                 Inl err \<Rightarrow> ret (zero_meta\<lparr>Digest := Info_Digest info\<rparr>, Some err)
               | Inr n \<Rightarrow> ret (zero_meta\<lparr>Digest := Info_Digest info, Size := n\<rparr>, Some ErrAlreadyExists))
         | Inl _ \<Rightarrow> Add st e m r)
     else Add st e m r)\<rparr>"

text \<open>
  A reader that can also seek: its reads from where it stands, and what the two calls of \<open>Seek\<close>
  answer. Seeking back to where it stood makes it deliver the same reads again.
\<close>

record seeker =
  sk_current :: "error + int"
  sk_restore :: "error option"

definition prepareDigest_hash :: "'h digest_lib \<Rightarrow> string \<Rightarrow> seeker \<Rightarrow> reader \<Rightarrow> error + string" where
  "prepareDigest_hash L algo sk r =
     (case sk_current sk of
        Inl err \<Rightarrow> Inl err
      | Inr c \<Rightarrow>
          (case io_Copy r of
             (data, Some err) \<Rightarrow> Inl err
           | (data, None) \<Rightarrow>
               (let d = hash_digest L algo (dl_Write L (dl_Hash L algo) data)
                in case sk_restore sk of Some err \<Rightarrow> Inl err | None \<Rightarrow> Inr d)))"

text \<open>\<open>seekable r\<close> is the \<open>io.ReadSeeker\<close> that \<open>r\<close> may be.\<close>

definition PrepareDigest ::
  "'h digest_lib \<Rightarrow> (reader \<Rightarrow> seeker option) \<Rightarrow> 's store \<Rightarrow> string \<Rightarrow> 's store" where
  "PrepareDigest L seekable st algo =
     (let algo = (if algo = '''' then Canonical else algo)
      in st\<lparr>Add := (\<lambda>e m r.
        if Digest m \<noteq> '''' then
          (case seekable r of
             Some sk \<Rightarrow>
               (case prepareDigest_hash L algo sk r of
                  Inl err \<Rightarrow> ret (zero_meta, Some err)
                | Inr d \<Rightarrow> Add st e (m\<lparr>Digest := d\<rparr>) r)
           | None \<Rightarrow> Add st e m r)
        else Add st e m r)\<rparr>)"

section \<open>Tracing and metering\<close>

text \<open>
  The instruments are a part of the process's state, which \<open>upd\<close> changes. A span is opened
  before the operation and ended after it; \<open>measure\<close> adds one to the gauge and, by its own
  \<open>defer\<close>, takes it off again before it returns the function that its caller defers.
\<close>

record instruments =
  spans :: "(string \<times> bool) list"
  inflight :: "string \<Rightarrow> int"
  op_count :: "(string \<times> string option) list"
  op_duration :: "(string \<times> string option \<times> duration) list"

definition traced ::
  "((instruments \<Rightarrow> instruments) \<Rightarrow> 's \<Rightarrow> 's) \<Rightarrow> string \<Rightarrow> ('s, 'a) go \<Rightarrow> ('s, 'a) go" where
  "traced upd name m =
     bind (modify (upd (\<lambda>i. i\<lparr>spans := (name, True) # spans i\<rparr>))) (\<lambda>_.
       deferred m (\<lambda>_. modify (upd (\<lambda>i. i\<lparr>spans := (name, False) # spans i\<rparr>))))"

definition StoreTrace :: "((instruments \<Rightarrow> instruments) \<Rightarrow> 's \<Rightarrow> 's) \<Rightarrow> 's store \<Rightarrow> 's store" where
  "StoreTrace upd st =
     \<lparr>Add = (\<lambda>e m r. traced upd ''add'' (Add st e m r)),
      Stat = (\<lambda>e d. traced upd ''stat'' (Stat st e d)),
      Open = (\<lambda>e d. traced upd ''open'' (Open st e d)),
      Label = (\<lambda>e d ls. traced upd ''label'' (Label st e d ls)),
      Erase = (\<lambda>e d. traced upd ''erase'' (Erase st e d))\<rparr>"

definition errType :: "error \<Rightarrow> string" where
  "errType err =
     (if errors_Is err ErrUnimplemented then ''unimplemented''
      else if errors_Is err ErrNotExist then ''not_exist''
      else if errors_Is err ErrAlreadyExists then ''already_exists''
      else if errors_Is err ErrInvalidDigest then ''invalid_digest''
      else if errors_Is err ErrDigestMismatch then ''digest_mismatch''
      else ''unknown'')"

definition inflight_Add :: "string \<Rightarrow> int \<Rightarrow> instruments \<Rightarrow> instruments" where
  "inflight_Add op n i = i\<lparr>inflight := (inflight i)(op := inflight i op + n)\<rparr>"

definition measure_begin :: "((instruments \<Rightarrow> instruments) \<Rightarrow> 's \<Rightarrow> 's) \<Rightarrow> string \<Rightarrow> ('s, unit) go" where
  "measure_begin upd op =
     deferred (modify (upd (inflight_Add op 1))) (\<lambda>_. modify (upd (inflight_Add op (-1))))"

definition measure_done ::
  "((instruments \<Rightarrow> instruments) \<Rightarrow> 's \<Rightarrow> 's) \<Rightarrow> duration \<Rightarrow> string \<Rightarrow> error option \<Rightarrow> ('s, unit) go" where
  "measure_done upd dt op err =
     (let attrs = (case err of None \<Rightarrow> None | Some x \<Rightarrow> Some (errType x))
      in modify (upd (\<lambda>i. i\<lparr>op_count := (op, attrs) # op_count i,
                            op_duration := (op, attrs, dt) # op_duration i\<rparr>)))"

definition measured ::
  "((instruments \<Rightarrow> instruments) \<Rightarrow> 's \<Rightarrow> 's) \<Rightarrow> duration \<Rightarrow> string \<Rightarrow> ('a \<Rightarrow> error option) \<Rightarrow> ('s, 'a) go
   \<Rightarrow> ('s, 'a) go" where
  "measured upd dt op err_of m =
     bind (measure_begin upd op) (\<lambda>_. deferred m (\<lambda>res. measure_done upd dt op (err_of res)))"

definition sum_err :: "error + 'a \<Rightarrow> error option" where
  "sum_err r = (case r of Inl err \<Rightarrow> Some err | Inr _ \<Rightarrow> None)"

definition StoreMeter :: "((instruments \<Rightarrow> instruments) \<Rightarrow> 's \<Rightarrow> 's) \<Rightarrow> duration \<Rightarrow> 's store \<Rightarrow> 's store" where
  "StoreMeter upd dt st =
     \<lparr>Add = (\<lambda>e m r. measured upd dt ''add'' snd (Add st e m r)),
      Stat = (\<lambda>e d. measured upd dt ''stat'' sum_err (Stat st e d)),
      Open = (\<lambda>e d. measured upd dt ''open'' sum_err (Open st e d)),
      Label = (\<lambda>e d ls. measured upd dt ''label'' (\<lambda>r. r) (Label st e d ls)),
      Erase = (\<lambda>e d. measured upd dt ''erase'' (\<lambda>r. r) (Erase st e d))\<rparr>"

section \<open>What they do to the contract\<close>

context blob_store
begin

text \<open>\<open>CheckExistence\<close> answers a duplicate before \<open>Add\<close> is called, and otherwise is the store.\<close>

lemma check_existence_add:
  assumes "inv s" "takes r" "live e"
  shows "\<exists>res s'. Add (CheckExistence st) e m r s = Some (res, s') \<and> inv s'
    \<and> gives (add_outcome L (view s) m r) res
    \<and> view s' = after_add (add_outcome L (view s) m r) m r (view s)"
proof (cases "Digest m \<noteq> '''' \<and> view s (Digest m) \<noteq> None")
  case False
  then have "Add (CheckExistence st) e m r s = Add st e m r s"
    using stat [OF assms(1,3), of "Digest m"]
    by (auto simp: CheckExistence_def bind_def simp del: not_None_eq)
  then show ?thesis using add [OF assms, of m] by auto
next
  case True
  then obtain x i where x: "view s (Digest m) = Some x" "Stat st e (Digest m) s = Some (Inr i, s)"
      "tells i s (Digest m) x"
    using stat [OF assms(1,3), of "Digest m"] by auto
  have size: "with_info i (Info_Size e) s = Some (Inr (int (length (fst x))), s)" "bi_digest i = Digest m"
    using x(3) assms(3) by (auto simp: tells_def)
  have run: "Add (CheckExistence st) e m r s = Some ((zero_meta\<lparr>Digest := Digest m,
      Size := int (length (fst x))\<rparr>, Some ErrAlreadyExists), s)"
    using True x(2) size by (simp add: CheckExistence_def bind_def ret_def Info_Digest_def)
  have "dl_Validate L (Digest m) = None" using named [OF assms(1) x(1)] by (simp add: names_bytes_def)
  then have "add_outcome L (view s) m r = Duplicate (Digest m)"
    using True by (simp add: add_outcome_def)
  with run assms(1) show ?thesis by (auto simp: after_add_def)
qed

lemma CheckExistence_rest:
  "Stat (CheckExistence st') = Stat st'" "Open (CheckExistence st') = Open st'"
  "Label (CheckExistence st') = Label st'" "Erase (CheckExistence st') = Erase st'"
  by (simp_all add: CheckExistence_def)

lemma checked: "blob_store L (CheckExistence st) view inv takes"
  by unfold_locales
     (simp_all only: CheckExistence_rest lib check_existence_add stat opens label erase named)

lemma allow_duplicates_add:
  assumes "inv s" "takes r" "live e"
  shows "\<exists>m' err s'. Add (AllowDuplicates st) e m r s = Some ((m', err), s') \<and> inv s'
    \<and> view s' = after_add (add_outcome L (view s) m r) m r (view s)
    \<and> (case add_outcome L (view s) m r of
         Added d \<Rightarrow> err = None \<and> Digest m' = d
       | Duplicate d \<Rightarrow> err = None \<and> Digest m' = d
       | Mismatch \<Rightarrow> err = Some ErrDigestMismatch
       | Failed \<Rightarrow> True)"
proof -
  obtain m' err s' where a: "Add st e m r s = Some ((m', err), s')" "inv s'"
      "gives (add_outcome L (view s) m r) (m', err)"
      "view s' = after_add (add_outcome L (view s) m r) m r (view s)"
    using add [OF assms, of m] by auto
  then show ?thesis
    by (cases "add_outcome L (view s) m r"; cases err)
       (auto simp: AllowDuplicates_def bind_def ret_def)
qed

end

interpretation mem_checked: blob_store L "CheckExistence (MemStore_store L ns)" "mem_shows ns"
  "mem_run_ok L U" "\<lambda>r. fst (io_Copy r) \<in> U" for L :: "'h digest_lib" and ns U
  by (rule mem.checked)

section \<open>Fallback reads\<close>

lemma fallback_open:
  assumes "Open p e d s = Some (r, s')"
  shows "Open (FallbackStore p q) e d s = (case r of Inr x \<Rightarrow> Some (Inr x, s') | Inl _ \<Rightarrow> Open q e d s')"
  using assms by (simp add: FallbackStore_def bind_def ret_def split: sum.splits)

section \<open>Preparing a digest\<close>

text \<open>
  With a seekable reader the digest that reaches the wrapped store is the one computed from the
  bytes, whatever digest the caller gave.
\<close>

lemma prepareDigest_replaces:
  assumes "Digest m \<noteq> ''''" "seekable r = Some sk" "sk_current sk = Inr c" "sk_restore sk = None"
    "io_Copy r = (data, None)" "algo \<noteq> ''''"
  shows "Add (PrepareDigest L seekable st algo) e m r s =
    Add st e (m\<lparr>Digest := data_digest L algo data\<rparr>) r s"
  using assms by (simp add: PrepareDigest_def prepareDigest_hash_def data_digest_def)

section \<open>Tracing and metering change no result\<close>

text \<open>\<open>upd\<close> reaches the instruments only: what an operation does, it does beside them.\<close>

definition instruments_apart :: "((instruments \<Rightarrow> instruments) \<Rightarrow> 's \<Rightarrow> 's) \<Rightarrow> ('s, 'a) go \<Rightarrow> bool" where
  "instruments_apart upd m \<longleftrightarrow>
     (\<forall>f s. m (upd f s) = map_option (\<lambda>(x, s'). (x, upd f s')) (m s))
     \<and> (\<forall>f g s. upd f (upd g s) = upd (f \<circ> g) s) \<and> (\<forall>s. upd id s = s)"

lemma inflight_back: "inflight_Add op (-1) \<circ> inflight_Add op 1 = id"
  by (auto simp: inflight_Add_def fun_eq_iff)

lemma measure_begin_nothing:
  assumes "instruments_apart upd (m :: ('s, 'a) go)"
  shows "measure_begin upd op s = Some ((), s)"
  using assms inflight_back [of op] unfolding instruments_apart_def
  by (simp add: measure_begin_def deferred_def bind_def ret_def modify_def)

lemma measured_runs:
  assumes "instruments_apart upd m"
  shows "measured upd dt op err_of m s =
    (case m s of None \<Rightarrow> None
     | Some (x, s') \<Rightarrow>
         (let attrs = (case err_of x of None \<Rightarrow> None | Some y \<Rightarrow> Some (errType y))
          in Some (x, upd (\<lambda>i. i\<lparr>op_count := (op, attrs) # op_count i,
                                 op_duration := (op, attrs, dt) # op_duration i\<rparr>) s')))"
  using measure_begin_nothing [OF assms, of op]
  by (simp add: measured_def deferred_def bind_def ret_def modify_def measure_done_def Let_def
      split: option.splits)

lemma traced_runs:
  assumes "instruments_apart upd m"
  shows "traced upd name m s =
    (case m s of None \<Rightarrow> None
     | Some (x, s') \<Rightarrow> Some (x, upd (\<lambda>i. i\<lparr>spans := [(name, False), (name, True)] @ spans i\<rparr>) s'))"
  using assms unfolding instruments_apart_def
  by (simp add: traced_def deferred_def bind_def ret_def modify_def comp_def split: option.splits prod.splits)

section \<open>Properties\<close>

text \<open>
  \<open>CheckExistence\<close> around an in-memory store answers \<open>Add\<close> with the same outcome as the store
  itself on every path, with the same effect.
\<close>

theorem check_existence_same:
  assumes "mem_run_ok L U s" "fst (io_Copy r) \<in> U" "live e"
  shows "\<exists>res s' res' s''. Add (CheckExistence (MemStore_store L ns)) e m r s = Some (res, s')
    \<and> Add (MemStore_store L ns) e m r s = Some (res', s'')
    \<and> gives (add_outcome L (mem_shows ns s) m r) res \<and> gives (add_outcome L (mem_shows ns s) m r) res'
    \<and> mem_shows ns s' = mem_shows ns s'' \<and> mem_run_ok L U s'"
  using mem_checked.add [OF assms, of ns m] mem.add [OF assms, of ns m] by auto

theorem check_existence_same_witness:
  "\<exists>res s'. Add (CheckExistence (MemStore_store example_lib ''a'')) (background 1) zero_meta
      (bytes_Reader ''hi'') (NewMemStores 0 []) = Some (res, s') \<and> mem_run_ok example_lib {''hi''} s'"
  using check_existence_same [of example_lib "{''hi''}" "NewMemStores 0 []" "bytes_Reader ''hi''" "background 1" "''a''" zero_meta]
    mem_start_ok [of "''hi''"] by auto

text \<open>
  Through \<open>AllowDuplicates\<close>, adding the bytes of a blob that is already there succeeds, answers
  its digest, and leaves the blob and its labels as they were.
\<close>

theorem allow_duplicates_again:
  assumes "mem_run_ok L U s" "fst (io_Copy r) \<in> U" "snd (io_Copy r) = None" "live e"
    and "mem_shows ns s d = Some x" "d = data_digest L Canonical (fst (io_Copy r))" "Digest m \<in> {'''', d}"
  shows "\<exists>m' s'. Add (AllowDuplicates (MemStore_store L ns)) e m r s = Some ((m', None), s')
    \<and> Digest m' = d \<and> mem_shows ns s' = mem_shows ns s"
proof -
  have L: "digest_lib_ok L" using assms(1) by (simp add: mem_run_ok_def)
  have "dl_Validate L d = None" "dl_Algorithm L d = Canonical"
    using assms(6) Validate_data_digest [OF L] Algorithm_data_digest [OF L] by simp_all
  then have "add_outcome L (mem_shows ns s) m r = Duplicate d"
    using assms(3,5-7) valid_nonempty [OF L, of d] by (cases x) (auto simp: add_outcome_def Let_def)
  with mem.allow_duplicates_add [OF assms(1,2,4), of ns m] show ?thesis by (auto simp: after_add_def)
qed

theorem allow_duplicates_again_witness:
  "\<exists>m' s' m'' s''. Add (MemStore_store example_lib ''a'') (background 1) zero_meta (bytes_Reader ''hi'')
      (NewMemStores 0 []) = Some ((m', None), s')
    \<and> Add (AllowDuplicates (MemStore_store example_lib ''a'')) (background 2) zero_meta (bytes_Reader ''hi'') s'
      = Some ((m'', None), s'') \<and> Digest m'' = data_digest example_lib Canonical ''hi''"
proof -
  obtain m' s' where a: "Add (MemStore_store example_lib ''a'') (background 1) zero_meta (bytes_Reader ''hi'')
      (NewMemStores 0 []) = Some ((m', None), s')" using mem_add_example by blast
  have start: "mem_run_ok example_lib {''hi''} (NewMemStores 0 [])" using mem_start_ok by blast
  note A = mem.add_success [OF start _ live_background a]
  have d: "Digest m' = data_digest example_lib Canonical ''hi''"
    using mem.add [OF start _ live_background [of 1], where r = "bytes_Reader ''hi''" and ns = "''a''" and m = zero_meta] a
    by (auto simp: add_outcome_def zero_meta_def mem_shows_def mem_view_def NewMemStores_def Let_def)
  have "mem_shows ''a'' s' (Digest m') = Some (''hi'', None)" "mem_run_ok example_lib {''hi''} s'"
    using A by (simp_all add: zero_meta_def)
  from allow_duplicates_again [OF this(2), of "bytes_Reader ''hi''" "background 2" "''a''" "Digest m'" "(''hi'', None)" zero_meta]
    this a d show ?thesis by (auto simp: zero_meta_def)
qed

text \<open>
  A fallback store answers \<open>Open\<close> from the primary when the primary has the blob, and from the
  secondary otherwise, whatever error the primary gave.
\<close>

theorem fallback_reads:
  assumes "Open p e d s = Some (r, s')"
  shows "Open (FallbackStore p q) e d s = (case r of Inr x \<Rightarrow> Some (Inr x, s') | Inl _ \<Rightarrow> Open q e d s')"
  by (rule fallback_open [OF assms])

theorem fallback_reads_witness:
  "Open (FallbackStore (ErrorStore ErrForbidden) UnimplementedStore) (background 1) ''d'' () = Some (Inl ErrUnimplemented, ())"
proof -
  have "Open (ErrorStore ErrForbidden) (background 1) ''d'' () = Some (Inl ErrForbidden, ())"
    by (simp add: ErrorStore_def ret_def)
  from fallback_reads [OF this, of UnimplementedStore] show ?thesis
    by (simp add: UnimplementedStore_def ret_def)
qed

text \<open>
  \<open>PrepareDigest\<close> hides a wrong digest: given a seekable reader and a digest that does not match
  its bytes, the in-memory store behind it stores the bytes under the computed digest and reports
  success, where the store alone reports \<open>ErrDigestMismatch\<close>.
\<close>

theorem prepare_digest_hides_mismatch:
  assumes "mem_run_ok L U s" "io_Copy r = (data, None)" "data \<in> U" "live e"
    and "seekable r = Some \<lparr>sk_current = Inr 0, sk_restore = None\<rparr>"
    and "Digest m \<noteq> ''''" "dl_Validate L (Digest m) = None" "mem_shows ns s (Digest m) = None"
    and "data_digest L (dl_Algorithm L (Digest m)) data \<noteq> Digest m"
    and "mem_shows ns s (data_digest L Canonical data) = None"
  shows "\<exists>m' s' m'' s''. Add (PrepareDigest L seekable (MemStore_store L ns) Canonical) e m r s = Some ((m', None), s')
    \<and> Digest m' = data_digest L Canonical data
    \<and> Add (MemStore_store L ns) e m r s = Some ((m'', Some ErrDigestMismatch), s'')"
proof -
  have L: "digest_lib_ok L" using assms(1) by (simp add: mem_run_ok_def)
  have can: "Canonical \<noteq> ''''" by (simp add: Canonical_def SHA256_def)
  have U: "fst (io_Copy r) \<in> U" using assms(2,3) by simp
  let ?m = "m\<lparr>Digest := data_digest L Canonical data\<rparr>"
  have run: "Add (PrepareDigest L seekable (MemStore_store L ns) Canonical) e m r s = Add (MemStore_store L ns) e ?m r s"
    by (rule prepareDigest_replaces [where seekable = seekable and r = r, OF assms(6,5) _ _ assms(2) can]) simp_all
  have "dl_Validate L (data_digest L Canonical data) = None" "dl_Algorithm L (data_digest L Canonical data) = Canonical"
    using Validate_data_digest [OF L] Algorithm_data_digest [OF L] by simp_all
  then have "add_outcome L (mem_shows ns s) ?m r = Added (data_digest L Canonical data)"
    using assms(2,10) valid_nonempty [OF L] by (auto simp: add_outcome_def)
  with mem.add [OF assms(1) U assms(4), of ns ?m] run
  have one: "\<exists>m' s'. Add (PrepareDigest L seekable (MemStore_store L ns) Canonical) e m r s = Some ((m', None), s')
      \<and> Digest m' = data_digest L Canonical data" by auto
  have "add_outcome L (mem_shows ns s) m r = Mismatch"
    using assms(2,6-9) by (auto simp: add_outcome_def)
  with mem.add [OF assms(1) U assms(4), of ns m] one show ?thesis by auto
qed

theorem prepare_digest_hides_mismatch_witness:
  "\<exists>m' s'. Add (PrepareDigest example_lib (\<lambda>_. Some \<lparr>sk_current = Inr 0, sk_restore = None\<rparr>)
      (MemStore_store example_lib ''a'') Canonical) (background 1)
      (zero_meta\<lparr>Digest := data_digest example_lib Canonical []\<rparr>) (bytes_Reader ''hi'') (NewMemStores 0 [])
      = Some ((m', None), s') \<and> Digest m' = data_digest example_lib Canonical ''hi''"
proof -
  let ?d = "data_digest example_lib Canonical []"
  have none: "mem_shows ''a'' (NewMemStores 0 []) d = None" for d
    by (simp add: mem_shows_def mem_view_def NewMemStores_def Let_def)
  have valid: "dl_Validate example_lib ?d = None" "dl_Algorithm example_lib ?d = Canonical"
    using Validate_data_digest [OF example_lib_ok] Algorithm_data_digest [OF example_lib_ok] by simp_all
  have "?d \<noteq> ''''" using valid_nonempty [OF example_lib_ok valid(1)] .
  moreover have "data_digest example_lib Canonical ''hi'' \<noteq> ?d"
    using example_digest_head [OF Canonical_algorithm, of "''hi''" "[]"]
    by (auto simp: hex_encode_def hex_byte_def hex_digit_def)
  ultimately show ?thesis
    using prepare_digest_hides_mismatch [of example_lib "{''hi''}" "NewMemStores 0 []" "bytes_Reader ''hi''" "''hi''"
        "background 1" "\<lambda>_. Some \<lparr>sk_current = Inr 0, sk_restore = None\<rparr>" "zero_meta\<lparr>Digest := ?d\<rparr>" "''a''"]
      mem_start_ok [of "''hi''"] none valid by auto
qed

text \<open>
  Metering is transparent: a metered operation gives the result and the effect of the operation
  itself, and adds exactly one count and one duration, labelled with the class of its error.
\<close>

theorem meter_transparent:
  assumes "instruments_apart upd m" "m s = Some (x, s')"
  shows "\<exists>attrs. attrs = (case err_of x of None \<Rightarrow> None | Some err \<Rightarrow> Some (errType err))
    \<and> measured upd dt op err_of m s = Some (x, upd (\<lambda>i. i\<lparr>op_count := (op, attrs) # op_count i,
         op_duration := (op, attrs, dt) # op_duration i\<rparr>) s')"
  using measured_runs [OF assms(1), of dt op err_of s] assms(2) by (simp add: Let_def)

lemma apart_example: "instruments_apart (\<lambda>f s. (f (fst s), snd s)) (\<lambda>s. Some (snd s, s) :: ((nat \<times> (instruments \<times> nat)) option))"
  by (simp add: instruments_apart_def)

theorem meter_transparent_witness:
  "\<exists>i'. measured (\<lambda>f s. (f (fst s), snd s)) 5 ''add'' (\<lambda>x. Some ErrNotExist) (\<lambda>s. Some (snd s, s))
      (\<lparr>spans = [], inflight = (\<lambda>_. 0), op_count = [], op_duration = []\<rparr>, 7::nat) = Some (7, (i', 7))
    \<and> op_count i' = [(''add'', Some ''not_exist'')]"
  using meter_transparent [OF apart_example refl, where s = "(\<lparr>spans = [], inflight = (\<lambda>_. 0), op_count = [], op_duration = []\<rparr>, 7)"
      and err_of = "\<lambda>x. Some ErrNotExist" and dt = 5 and op = "''add''"]
  by (auto simp: errType_def)

text \<open>
  The gauge of operations in flight never shows one: \<open>measure\<close> has taken its increment back
  before the operation starts, so the wrapped operation runs on the gauge as it was.
\<close>

theorem meter_gauge_idle:
  assumes "instruments_apart upd m"
  shows "measured upd dt op err_of m s = deferred m (\<lambda>res. measure_done upd dt op (err_of res)) s"
  using measure_begin_nothing [OF assms, of op] by (simp add: measured_def bind_def)

theorem meter_gauge_idle_witness:
  "\<exists>m :: (instruments \<times> nat, nat) go. measured (\<lambda>f s. (f (fst s), snd s)) 5 ''add'' (\<lambda>x. None) m
    = deferred m (\<lambda>res. measure_done (\<lambda>f s. (f (fst s), snd s)) 5 ''add'' None)"
  using meter_gauge_idle [OF apart_example, of 5 "''add''" "\<lambda>x. None"]
  by (intro exI [of _ "\<lambda>s. Some (snd s, s)"] ext)

end
