(* ===== verification/HttpTypes.thy ===== *)
theory HttpTypes
  imports Stages "HOL-Library.AList"
begin

text \<open>
  The pieces of \<open>net/http\<close> and \<open>net/url\<close> that the HTTP components compute with: header maps
  with their canonical keys, requests and responses, percent decoding of a path segment, and the
  helpers \<open>http.Error\<close>, \<open>http.NotFound\<close> and \<open>http.Redirect\<close>. A Go header is a map, here an
  association list; iterating over it takes the order of the list, so a statement about all lists
  is one about all iteration orders.
\<close>

section \<open>Headers\<close>

definition token_char :: "char \<Rightarrow> bool" where
  "token_char c \<longleftrightarrow> is_upper c \<or> is_lower c \<or> is_digit c \<or> c \<in> set ''!#$%&*+-.^_`|~'' \<or> byte_val c = 39"

fun canonical_from :: "bool \<Rightarrow> string \<Rightarrow> string" where
  "canonical_from up [] = []"
| "canonical_from up (c # cs) =
     (if up then upper_char c else lower_char c) # canonical_from (c = CHR ''-'') cs"

text \<open>\<open>http.CanonicalHeaderKey\<close> leaves a key that is not a token as it is.\<close>

definition CanonicalHeaderKey :: "string \<Rightarrow> string" where
  "CanonicalHeaderKey k = (if list_all token_char k then canonical_from True k else k)"

definition Header_Values :: "header \<Rightarrow> string \<Rightarrow> string list" where
  "Header_Values h k = (case map_of h (CanonicalHeaderKey k) of None \<Rightarrow> [] | Some vs \<Rightarrow> vs)"

definition Header_Get :: "header \<Rightarrow> string \<Rightarrow> string" where
  "Header_Get h k = (case Header_Values h k of [] \<Rightarrow> '''' | v # _ \<Rightarrow> v)"

definition Header_Set :: "string \<Rightarrow> string \<Rightarrow> header \<Rightarrow> header" where
  "Header_Set k v h = AList.update (CanonicalHeaderKey k) [v] h"

definition Header_Add :: "string \<Rightarrow> string \<Rightarrow> header \<Rightarrow> header" where
  "Header_Add k v h = AList.update (CanonicalHeaderKey k) (Header_Values h k @ [v]) h"

definition Header_Del :: "string \<Rightarrow> header \<Rightarrow> header" where
  "Header_Del k h = AList.delete (CanonicalHeaderKey k) h"

text \<open>Adding the values of a whole map, as the two label loops do, with a prefix to each key.\<close>

fun Header_Add_all :: "string \<Rightarrow> string list \<Rightarrow> header \<Rightarrow> header" where
  "Header_Add_all k [] h = h"
| "Header_Add_all k (v # vs) h = Header_Add_all k vs (Header_Add k v h)"

fun Header_Add_map :: "string \<Rightarrow> header \<Rightarrow> header \<Rightarrow> header" where
  "Header_Add_map p [] h = h"
| "Header_Add_map p ((k, vs) # m) h = Header_Add_map p m (Header_Add_all (p @ k) vs h)"

lemma map_of_Header_Set: "map_of (Header_Set k v h) = (map_of h)(CanonicalHeaderKey k \<mapsto> [v])"
  by (simp add: Header_Set_def update_conv')

lemma map_of_Header_Add:
  "map_of (Header_Add k v h) = (map_of h)(CanonicalHeaderKey k \<mapsto> Header_Values h k @ [v])"
  by (simp add: Header_Add_def update_conv')

lemma map_of_Header_Del: "map_of (Header_Del k h) = (map_of h)(CanonicalHeaderKey k := None)"
  by (simp add: Header_Del_def delete_conv' restrict_map_def fun_eq_iff)

lemma Values_canonical: "CanonicalHeaderKey k = CanonicalHeaderKey k' \<Longrightarrow> Header_Values h k = Header_Values h k'"
  by (simp add: Header_Values_def)

lemma Values_Add:
  "Header_Values (Header_Add k v h) k' =
     (if CanonicalHeaderKey k' = CanonicalHeaderKey k then Header_Values h k @ [v] else Header_Values h k')"
  by (simp add: Header_Values_def map_of_Header_Add)

lemma Values_Set:
  "Header_Values (Header_Set k v h) k' =
     (if CanonicalHeaderKey k' = CanonicalHeaderKey k then [v] else Header_Values h k')"
  by (simp add: Header_Values_def map_of_Header_Set)

lemma Values_Del:
  "Header_Values (Header_Del k h) k' =
     (if CanonicalHeaderKey k' = CanonicalHeaderKey k then [] else Header_Values h k')"
  by (simp add: Header_Values_def map_of_Header_Del)

lemma Values_Add_all:
  "Header_Values (Header_Add_all k vs h) k' =
     (if CanonicalHeaderKey k' = CanonicalHeaderKey k then Header_Values h k' @ vs else Header_Values h k')"
proof (induction vs arbitrary: h)
  case (Cons v vs)
  then show ?case by (cases "CanonicalHeaderKey k' = CanonicalHeaderKey k") (simp_all add: Values_Add Values_canonical [of k' k])
qed simp

lemma Values_Add_map:
  "Header_Values (Header_Add_map p m h) k' =
     Header_Values h k' @ concat [vs. (k, vs) \<leftarrow> m, CanonicalHeaderKey (p @ k) = CanonicalHeaderKey k']"
  by (induction m arbitrary: h) (auto simp: Values_Add_all)

lemma Get_Set: "CanonicalHeaderKey k = CanonicalHeaderKey k' \<Longrightarrow> Header_Get (Header_Set k v h) k' = v"
  by (simp add: Header_Get_def Values_Set)

lemma keys_Set: "fst ` set (Header_Set k v h) = insert (CanonicalHeaderKey k) (fst ` set h)"
  by (simp add: Header_Set_def dom_update)

lemma keys_Add: "fst ` set (Header_Add k v h) = insert (CanonicalHeaderKey k) (fst ` set h)"
  by (simp add: Header_Add_def dom_update)

lemma keys_Del: "fst ` set (Header_Del k h) = fst ` set h - {CanonicalHeaderKey k}"
  using arg_cong [OF delete_keys [of "CanonicalHeaderKey k" h], of set] by (simp add: Header_Del_def)

lemma keys_Add_all:
  "fst ` set (Header_Add_all k vs h) =
     (if vs = [] then fst ` set h else insert (CanonicalHeaderKey k) (fst ` set h))"
  by (induction vs arbitrary: h) (auto simp: keys_Add)

lemma distinct_Header:
  "distinct (map fst h) \<Longrightarrow> distinct (map fst (Header_Set k v h))"
  "distinct (map fst h) \<Longrightarrow> distinct (map fst (Header_Add k v h))"
  "distinct (map fst h) \<Longrightarrow> distinct (map fst (Header_Del k h))"
  by (simp_all add: Header_Set_def Header_Add_def Header_Del_def distinct_update distinct_delete)

subsection \<open>Canonical keys\<close>

lemma upper_lower_token:
  "token_char c \<Longrightarrow> token_char (upper_char c)" "token_char c \<Longrightarrow> token_char (lower_char c)"
  by (auto simp: token_char_def upper_char_def lower_char_def is_upper_def is_lower_def is_digit_def)

lemma upper_idem [simp]: "upper_char (upper_char c) = upper_char c"
  by (auto simp: upper_char_def is_lower_def)

lemma lower_idem [simp]: "lower_char (lower_char c) = lower_char c"
  by (auto simp: lower_char_def is_upper_def)

lemma case_dash [simp]: "upper_char c = CHR ''-'' \<longleftrightarrow> c = CHR ''-''" "lower_char c = CHR ''-'' \<longleftrightarrow> c = CHR ''-''"
  by (auto simp: upper_char_def lower_char_def is_upper_def is_lower_def dest!: arg_cong [where f = byte_val])

lemma canonical_from_token: "list_all token_char k \<Longrightarrow> list_all token_char (canonical_from up k)"
  by (induction up k rule: canonical_from.induct) (auto simp: upper_lower_token)

lemma canonical_from_idem [simp]: "canonical_from up (canonical_from up k) = canonical_from up k"
  by (induction up k rule: canonical_from.induct) auto

lemma Canonical_idem [simp]: "CanonicalHeaderKey (CanonicalHeaderKey k) = CanonicalHeaderKey k"
  by (auto simp: CanonicalHeaderKey_def canonical_from_token)

section \<open>Requests and responses\<close>

definition MethodGet :: string where "MethodGet = ''GET''"
definition MethodHead :: string where "MethodHead = ''HEAD''"
definition MethodPost :: string where "MethodPost = ''POST''"
definition MethodPatch :: string where "MethodPatch = ''PATCH''"
definition MethodDelete :: string where "MethodDelete = ''DELETE''"

lemmas method_defs = MethodGet_def MethodHead_def MethodPost_def MethodPatch_def MethodDelete_def

definition StatusOK :: nat where "StatusOK = 200"
definition StatusCreated :: nat where "StatusCreated = 201"
definition StatusNoContent :: nat where "StatusNoContent = 204"
definition StatusPartialContent :: nat where "StatusPartialContent = 206"
definition StatusNotModified :: nat where "StatusNotModified = 304"
definition StatusTemporaryRedirect :: nat where "StatusTemporaryRedirect = 307"
definition StatusBadRequest :: nat where "StatusBadRequest = 400"
definition StatusUnauthorized :: nat where "StatusUnauthorized = 401"
definition StatusForbidden :: nat where "StatusForbidden = 403"
definition StatusNotFound :: nat where "StatusNotFound = 404"
definition StatusMethodNotAllowed :: nat where "StatusMethodNotAllowed = 405"
definition StatusPreconditionFailed :: nat where "StatusPreconditionFailed = 412"
definition StatusRequestedRangeNotSatisfiable :: nat where "StatusRequestedRangeNotSatisfiable = 416"
definition StatusUnprocessableEntity :: nat where "StatusUnprocessableEntity = 422"
definition StatusInternalServerError :: nat where "StatusInternalServerError = 500"
definition StatusServiceUnavailable :: nat where "StatusServiceUnavailable = 503"

lemmas status_defs = StatusOK_def StatusCreated_def StatusNoContent_def StatusPartialContent_def
  StatusNotModified_def StatusTemporaryRedirect_def StatusBadRequest_def StatusUnauthorized_def
  StatusForbidden_def StatusNotFound_def StatusMethodNotAllowed_def StatusPreconditionFailed_def
  StatusRequestedRangeNotSatisfiable_def StatusUnprocessableEntity_def
  StatusInternalServerError_def StatusServiceUnavailable_def

text \<open>A request as a handler sees it: \<open>rq_path\<close> is \<open>r.URL.EscapedPath()\<close>.\<close>

record request =
  rq_method :: string
  rq_path :: string
  rq_header :: header
  rq_body :: reader

text \<open>
  A response: what a handler has written. The header map is the one at \<open>WriteHeader\<close>, and the
  handlers write nothing after the body.
\<close>

record response =
  rs_status :: nat
  rs_header :: header
  rs_body :: bytes

definition http_Error :: "header \<Rightarrow> string \<Rightarrow> nat \<Rightarrow> response" where
  "http_Error h msg code =
     \<lparr>rs_status = code,
      rs_header = Header_Set ''X-Content-Type-Options'' ''nosniff''
        (Header_Set ''Content-Type'' ''text/plain; charset=utf-8'' (Header_Del ''Content-Length'' h)),
      rs_body = msg @ [CHR 0x0A]\<rparr>"

definition http_NotFound :: "header \<Rightarrow> response" where
  "http_NotFound h = http_Error h ''404 page not found'' StatusNotFound"

text \<open>The text \<open>err.Error()\<close> of an error, which only the response body shows.\<close>

fun error_text :: "error \<Rightarrow> string" where
  "error_text ErrStageExpired = ''stage expired''"
| "error_text ErrStageClosed = ''stage closed''"
| "error_text ErrStageConflict = ''stage operation conflicts with stored state''"
| "error_text ErrStageFormat = ''unsupported or corrupt stage format''"
| "error_text ErrOffsetMismatch = ''stage offset mismatch''"
| "error_text ErrIncompatibleStore = ''incompatible store''"
| "error_text ErrUnimplemented = ''unimplemented''"
| "error_text ErrNotExist = ''not exist''"
| "error_text ErrAlreadyExists = ''already exists''"
| "error_text ErrInvalidDigest = ''invalid digest''"
| "error_text ErrDigestMismatch = ''digest mismatch''"
| "error_text ErrUnauthenticated = ''unauthenticated''"
| "error_text ErrForbidden = ''forbidden''"
| "error_text ErrUnsupported = ''unsupported operation''"
| "error_text EOF = ''EOF''"
| "error_text ErrUnexpectedEOF = ''unexpected EOF''"
| "error_text FsErrNotExist = ''file does not exist''"
| "error_text FsErrExist = ''file already exists''"
| "error_text OsErrClosed = ''file already closed''"
| "error_text ContextCanceled = ''context canceled''"
| "error_text ContextDeadlineExceeded = ''context deadline exceeded''"
| "error_text (ErrorString msg) = msg"
| "error_text (Wrapped msg e) = msg @ '': '' @ error_text e"
| "error_text (Joined es) = strings_Join (map error_text es) [CHR 0x0A]"

section \<open>Percent decoding\<close>

definition unhex :: "char \<Rightarrow> nat option" where
  "unhex c =
     (if is_digit c then Some (byte_val c - 48)
      else if 97 \<le> byte_val c \<and> byte_val c \<le> 102 then Some (byte_val c - 87)
      else if 65 \<le> byte_val c \<and> byte_val c \<le> 70 then Some (byte_val c - 55)
      else None)"

text \<open>\<open>url.PathUnescape\<close>: every percent sign starts two hexadecimal digits; a plus stays a plus.\<close>

fun PathUnescape :: "string \<Rightarrow> string option" where
  "PathUnescape [] = Some []"
| "PathUnescape (c # cs) =
     (if c = CHR ''%'' then
        (case cs of
           a # b # rest \<Rightarrow>
             (case (unhex a, unhex b, PathUnescape rest) of
                (Some x, Some y, Some r) \<Rightarrow> Some (char_of (16 * x + y) # r)
              | _ \<Rightarrow> None)
         | _ \<Rightarrow> None)
      else map_option ((#) c) (PathUnescape cs))"

lemma PathUnescape_plain: "CHR ''%'' \<notin> set s \<Longrightarrow> PathUnescape s = Some s"
  by (induction s) auto

end
