(* ===== verification/Oidc.thy ===== *)
theory Oidc
  imports HttpTypes
begin

text \<open>
  \<open>auth/oidc.go\<close>: the verification of an OIDC token against one issuer, and the cache of the
  issuer's signing keys with its single shared refresh. The JOSE library, \<open>encoding/json\<close>,
  \<open>url.Parse\<close> and the network are parameters of the definitions.
\<close>

section \<open>URLs\<close>

text \<open>A parsed URL, as far as the code looks at it; \<open>u_path\<close> is its escaped path.\<close>

record url =
  u_scheme :: string
  u_user :: bool
  u_host :: string
  u_port :: string
  u_path :: string
  u_rawquery :: string
  u_forcequery :: bool
  u_fragment :: string

definition secureURL :: "(string \<Rightarrow> url option) \<Rightarrow> string \<Rightarrow> bool" where
  "secureURL parse raw \<longleftrightarrow>
     (case parse raw of
        None \<Rightarrow> False
      | Some u \<Rightarrow> u_scheme u = ''https'' \<and> u_host u \<noteq> '''' \<and> \<not> u_user u \<and> u_fragment u = '''')"

section \<open>The verifier and its keys\<close>

definition second :: duration where "second = 1000000000"
definition keyLifetime :: duration where "keyLifetime = 5 * minute"
definition refreshInterval :: duration where "refreshInterval = 10 * second"
definition clockSkew :: duration where "clockSkew = 30 * second"
definition metadataLimit :: nat where "metadataLimit = 1048576"
definition metadataTimeout :: duration where "metadataTimeout = 10 * second"

lemmas oidc_times = second_def keyLifetime_def refreshInterval_def clockSkew_def minute_def

record jwk =
  jk_id :: string
  jk_valid :: bool
  jk_public :: bool
  jk_use :: string
  jk_algorithm :: string
  jk_key :: nat

record oidcVerifier =
  ov_issuer :: string
  ov_audience :: string
  ov_timeout :: duration
  ov_keys :: "jwk list"
  ov_fetched :: time
  ov_tried :: time
  ov_jwksURI :: string
  ov_refreshing :: bool
  ov_refreshErr :: "error option"

record ProviderConfig =
  pc_Kind :: string
  pc_Issuer :: string
  pc_Audience :: string

definition errIssuer :: error where
  "errIssuer = ErrorString ''an HTTPS issuer without query/fragment and an audience are required''"

text \<open>\<open>client_timeout\<close> is the timeout of the HTTP client given, 0 for none.\<close>

definition newOIDC :: "(string \<Rightarrow> url option) \<Rightarrow> duration \<Rightarrow> ProviderConfig \<Rightarrow> error + oidcVerifier" where
  "newOIDC parse client_timeout c =
     (case parse (pc_Issuer c) of
        None \<Rightarrow> Inl errIssuer
      | Some u \<Rightarrow>
          if \<not> secureURL parse (pc_Issuer c) \<or> u_rawquery u \<noteq> '''' \<or> u_forcequery u \<or> pc_Audience c = ''''
          then Inl errIssuer
          else Inr \<lparr>ov_issuer = pc_Issuer c, ov_audience = pc_Audience c,
                    ov_timeout = (if client_timeout \<le> 0 \<or> client_timeout > metadataTimeout
                                  then metadataTimeout else client_timeout),
                    ov_keys = [], ov_fetched = 0, ov_tried = 0, ov_jwksURI = '''',
                    ov_refreshing = False, ov_refreshErr = None\<rparr>)"

text \<open>The redirect policy it installs: \<open>via\<close> counts the requests made so far.\<close>

definition oidc_CheckRedirect ::
  "(string \<Rightarrow> url option) \<Rightarrow> (string \<Rightarrow> nat \<Rightarrow> error option) option \<Rightarrow> string \<Rightarrow> nat \<Rightarrow> error option" where
  "oidc_CheckRedirect parse previous target via =
     (if \<not> secureURL parse target \<or> via \<ge> 10 then Some (ErrorString ''unsafe OIDC metadata redirect'')
      else (case previous of Some p \<Rightarrow> p target via | None \<Rightarrow> None))"

definition signingKey :: "jwk list \<Rightarrow> string \<Rightarrow> jwk option" where
  "signingKey keys kid =
     (case filter (\<lambda>k. jk_id k = kid) keys of
        [k] \<Rightarrow> if \<not> jk_valid k \<or> \<not> jk_public k \<or> (jk_use k \<noteq> '''' \<and> jk_use k \<noteq> ''sig'') then None else Some k
      | _ \<Rightarrow> None)"

text \<open>
  One turn of the loop of \<open>key\<close>, under the mutex: the key, an error, or to wait for the
  refresh that is under way, which this turn may have started.
\<close>

datatype key_turn = Got jwk | Refused error | Wait

definition key_look :: "string \<Rightarrow> time \<Rightarrow> oidcVerifier \<Rightarrow> key_turn \<times> oidcVerifier" where
  "key_look kid now o' =
     (case (if now - ov_fetched o' < keyLifetime then signingKey (ov_keys o') kid else None) of
        Some k \<Rightarrow> (Got k, o')
      | None \<Rightarrow>
          if \<not> ov_refreshing o' then
            if ov_tried o' \<noteq> 0 \<and> now - ov_tried o' < refreshInterval then
              (Refused (case ov_refreshErr o' of
                          Some err \<Rightarrow> err
                        | None \<Rightarrow> if ov_fetched o' = 0 \<or> now - ov_fetched o' \<ge> keyLifetime
                                  then ErrorString ''OIDC metadata refresh is unavailable''
                                  else ErrUnauthenticated), o')
            else (Wait, o'\<lparr>ov_tried := now, ov_refreshing := True\<rparr>)
          else (Wait, o'))"

text \<open>The end of \<open>refresh\<close>, under the mutex, with what \<open>fetchKeys\<close> returned.\<close>

definition refresh_done :: "time \<Rightarrow> error + (jwk list \<times> string) \<Rightarrow> oidcVerifier \<Rightarrow> oidcVerifier" where
  "refresh_done completed res o' =
     (let o1 = o'\<lparr>ov_tried := completed\<rparr>;
          o2 = (case res of
                  Inr (keys, uri) \<Rightarrow> o1\<lparr>ov_keys := keys, ov_fetched := completed, ov_jwksURI := uri\<rparr>
                | Inl _ \<Rightarrow> o1)
      in o2\<lparr>ov_refreshErr := (case res of Inl err \<Rightarrow> Some err | Inr _ \<Rightarrow> None), ov_refreshing := False\<rparr>)"

section \<open>Fetching metadata\<close>

text \<open>
  \<open>o.get\<close>: \<open>Do\<close> is the HTTP client, giving an error or a status and a body, and \<open>Unmarshal\<close>
  the JSON decoder for the type of the target. Reading one byte past the limit is how the code
  notices a body that is too long.
\<close>

definition oidc_get ::
  "(string \<Rightarrow> error + (nat \<times> reader)) \<Rightarrow> (bytes \<Rightarrow> error + 'v) \<Rightarrow> string \<Rightarrow> error + 'v" where
  "oidc_get Do Unmarshal target =
     (case Do target of
        Inl err \<Rightarrow> Inl (Wrapped ''fetch OIDC metadata'' err)
      | Inr (status, body) \<Rightarrow>
          if status \<noteq> StatusOK then Inl (ErrorString ''OIDC metadata returned status'')
          else if metadataLimit < length (fst (io_Copy body)) \<or> snd (io_Copy body) \<noteq> None
          then Inl (ErrorString ''cannot read bounded OIDC metadata'')
          else (case Unmarshal (fst (io_Copy body)) of
                  Inl err \<Rightarrow> Inl (Wrapped ''invalid OIDC metadata'' err)
                | Inr v \<Rightarrow> Inr v))"

definition fetchKeys ::
  "(string \<Rightarrow> url option) \<Rightarrow> (string \<Rightarrow> error + (string \<times> string)) \<Rightarrow> (string \<Rightarrow> error + jwk list)
   \<Rightarrow> string \<Rightarrow> string \<Rightarrow> error + (jwk list \<times> string)" where
  "fetchKeys parse get_discovery get_keys issuer jwksURI =
     (let found = (if jwksURI = '''' then
                     (case get_discovery (TrimRight issuer ''/'' @ ''/.well-known/openid-configuration'') of
                        Inl err \<Rightarrow> Inl err
                      | Inr (iss, uri) \<Rightarrow>
                          if iss \<noteq> issuer \<or> \<not> secureURL parse uri
                          then Inl (ErrorString ''invalid OIDC discovery issuer or JWKS URI'')
                          else Inr uri)
                   else Inr jwksURI)
      in case found of
           Inl err \<Rightarrow> Inl err
         | Inr uri \<Rightarrow> (case get_keys uri of Inl err \<Rightarrow> Inl err | Inr keys \<Rightarrow> Inr (keys, uri)))"

section \<open>Verifying a token\<close>

text \<open>The JOSE library on tokens \<open>'t\<close>; a claim set maps names to raw JSON.\<close>

type_synonym claim_set = "(string \<times> string) list"

record standard_claims =
  sc_Issuer :: string
  sc_Subject :: string
  sc_Audience :: "string list"
  sc_Expiry :: "time option"
  sc_IssuedAt :: "time option"
  sc_NotBefore :: "time option"

record 't jose =
  jo_ParseSigned :: "string \<Rightarrow> 't option"
  jo_Headers :: "'t \<Rightarrow> (string \<times> string) list"
  jo_UnsafeClaims :: "'t \<Rightarrow> claim_set option"
  jo_Claims :: "'t \<Rightarrow> nat \<Rightarrow> claim_set option"
  jo_string :: "string \<Rightarrow> string option"
  jo_standard :: "claim_set \<Rightarrow> standard_claims option"
  jo_Validate :: "standard_claims \<Rightarrow> string \<Rightarrow> string \<Rightarrow> time \<Rightarrow> duration \<Rightarrow> bool"

text \<open>
  What the code relies on: \<open>jwt.Claims.ValidateWithLeeway\<close> with an issuer, one audience and a time
  accepts only claims of that issuer, for that audience, that are not expired and not issued in the
  future, give or take the leeway.
\<close>

definition jose_ok :: "'t jose \<Rightarrow> bool" where
  "jose_ok J \<longleftrightarrow>
     (\<forall>c issuer audience now leeway. jo_Validate J c issuer audience now leeway \<longrightarrow>
        (issuer \<noteq> '''' \<longrightarrow> sc_Issuer c = issuer) \<and> audience \<in> set (sc_Audience c)
        \<and> (\<forall>t. sc_Expiry c = Some t \<longrightarrow> now - leeway \<le> t)
        \<and> (\<forall>t. sc_IssuedAt c = Some t \<longrightarrow> t \<le> now + leeway))"

definition standard_names :: "string list" where
  "standard_names = [''iss'', ''sub'', ''aud'', ''exp'', ''iat'', ''nbf'']"

text \<open>The part of \<open>verify\<close> before the key is asked for: the key ID and algorithm it asks for.\<close>

definition verify_begin :: "'t jose \<Rightarrow> string \<Rightarrow> string \<Rightarrow> ('t \<times> string \<times> string) option" where
  "verify_begin J issuer raw =
     (case jo_ParseSigned J raw of
        None \<Rightarrow> None
      | Some token \<Rightarrow>
          (case jo_Headers J token of
             [(kid, alg)] \<Rightarrow>
               if kid = '''' then None
               else (case jo_UnsafeClaims J token of
                       None \<Rightarrow> None
                     | Some peek \<Rightarrow>
                         (case map_of peek ''iss'' of
                            None \<Rightarrow> None
                          | Some r \<Rightarrow> if jo_string J r = Some issuer then Some (token, kid, alg) else None))
           | _ \<Rightarrow> None))"

definition verify_end ::
  "'t jose \<Rightarrow> string \<Rightarrow> string \<Rightarrow> time \<Rightarrow> 't \<Rightarrow> string \<Rightarrow> jwk \<Rightarrow> claim_set option" where
  "verify_end J issuer audience now token alg key =
     (if jk_algorithm key \<noteq> '''' \<and> jk_algorithm key \<noteq> alg then None
      else (case jo_Claims J token (jk_key key) of
              None \<Rightarrow> None
            | Some verified \<Rightarrow>
                (case jo_standard J (filter (\<lambda>(n, _). n \<in> set standard_names) verified) of
                   None \<Rightarrow> None
                 | Some standard \<Rightarrow>
                     if sc_Expiry standard = None \<or> sc_IssuedAt standard = None \<or> sc_Subject standard = '''' then None
                     else if \<not> jo_Validate J standard issuer audience now clockSkew then None
                     else Some [(n, text). (n, r) \<leftarrow> verified, Some text \<leftarrow> [jo_string J r]])))"

text \<open>\<open>verify\<close>, with \<open>key\<close> the answer of \<open>o.key\<close> for a key ID and \<open>now\<close> the clock.\<close>

definition verify ::
  "'t jose \<Rightarrow> string \<Rightarrow> string \<Rightarrow> time \<Rightarrow> (string \<Rightarrow> error + jwk) \<Rightarrow> string \<Rightarrow> error + claim_set" where
  "verify J issuer audience now key raw =
     (case verify_begin J issuer raw of
        None \<Rightarrow> Inl ErrUnauthenticated
      | Some (token, kid, alg) \<Rightarrow>
          (case key kid of
             Inl err \<Rightarrow> Inl err
           | Inr k \<Rightarrow> (case verify_end J issuer audience now token alg k of
                         None \<Rightarrow> Inl ErrUnauthenticated
                       | Some claims \<Rightarrow> Inr claims)))"

section \<open>The shared refresh\<close>

text \<open>
  Any number of requests look for keys while at most one refresh runs: a state is the verifier, the
  clock, the number of \<open>refresh\<close> goroutines, and a log of the refreshes, the newest first.
\<close>

datatype refresh_event = Started time | Ended time "error + (jwk list \<times> string)"

record oidc_run =
  or_v :: oidcVerifier
  or_now :: time
  or_running :: nat
  or_log :: "refresh_event list"

inductive oidc_step :: "oidc_run \<Rightarrow> oidc_run \<Rightarrow> bool" where
  tick: "or_now x \<le> t \<Longrightarrow> oidc_step x (x\<lparr>or_now := t\<rparr>)"
| look: "key_look kid (or_now x) (or_v x) = (turn, v') \<Longrightarrow>
    oidc_step x (if ov_refreshing v' \<and> \<not> ov_refreshing (or_v x)
      then x\<lparr>or_v := v', or_running := Suc (or_running x), or_log := Started (or_now x) # or_log x\<rparr>
      else x\<lparr>or_v := v'\<rparr>)"
| finish: "or_running x = Suc n \<Longrightarrow>
    oidc_step x (x\<lparr>or_v := refresh_done (or_now x) res (or_v x), or_running := n,
      or_log := Ended (or_now x) res # or_log x\<rparr>)"

inductive oidc_reachable :: "oidc_run \<Rightarrow> bool" where
  start: "newOIDC parse tmo c = Inr v \<Longrightarrow> 0 < t \<Longrightarrow>
    oidc_reachable \<lparr>or_v = v, or_now = t, or_running = 0, or_log = []\<rparr>"
| step: "oidc_reachable x \<Longrightarrow> oidc_step x y \<Longrightarrow> oidc_reachable y"

text \<open>Refreshes alternate start and end, and wait out the interval after the last end.\<close>

fun paced :: "refresh_event list \<Rightarrow> bool" where
  "paced [] \<longleftrightarrow> True"
| "paced [e] \<longleftrightarrow> (\<exists>t. e = Started t)"
| "paced (Started t # Ended t' res # es) \<longleftrightarrow> refreshInterval \<le> t - t' \<and> paced (Ended t' res # es)"
| "paced (Ended t res # Started t' # es) \<longleftrightarrow> t' \<le> t \<and> paced (Started t' # es)"
| "paced (e # e' # es) \<longleftrightarrow> False"

text \<open>The keys and the time of the last fetch that succeeded.\<close>

fun last_fetch :: "refresh_event list \<Rightarrow> (time \<times> jwk list) option" where
  "last_fetch [] = None"
| "last_fetch (Ended t (Inr (keys, uri)) # es) = Some (t, keys)"
| "last_fetch (e # es) = last_fetch es"

fun last_time :: "refresh_event list \<Rightarrow> time" where
  "last_time [] = 0"
| "last_time (Started t # es) = t"
| "last_time (Ended t res # es) = t"

definition oidc_inv :: "oidc_run \<Rightarrow> bool" where
  "oidc_inv x \<longleftrightarrow>
     0 < or_now x \<and> paced (or_log x) \<and> last_time (or_log x) \<le> or_now x
     \<and> ov_tried (or_v x) = last_time (or_log x) \<and> (or_log x \<noteq> [] \<longrightarrow> 0 < last_time (or_log x))
     \<and> or_running x = (if ov_refreshing (or_v x) then 1 else 0)
     \<and> (ov_refreshing (or_v x) \<longleftrightarrow> (\<exists>t es. or_log x = Started t # es))
     \<and> (case last_fetch (or_log x) of
          None \<Rightarrow> ov_keys (or_v x) = [] \<and> ov_fetched (or_v x) = 0
        | Some (t, keys) \<Rightarrow> ov_keys (or_v x) = keys \<and> ov_fetched (or_v x) = t)"

lemma newOIDC_fields:
  "newOIDC parse tmo c = Inr v \<Longrightarrow> ov_keys v = [] \<and> ov_fetched v = 0 \<and> ov_tried v = 0 \<and> \<not> ov_refreshing v
     \<and> ov_issuer v = pc_Issuer c \<and> ov_audience v = pc_Audience c \<and> secureURL parse (pc_Issuer c)"
  by (auto simp: newOIDC_def split: option.splits if_splits)

text \<open>A look changes the verifier only when it starts a refresh.\<close>

lemma key_look_cases:
  assumes "key_look kid now v = (turn, v')"
  obtains (same) "v' = v"
  | (starts) "v' = v\<lparr>ov_tried := now, ov_refreshing := True\<rparr>" "turn = Wait" "\<not> ov_refreshing v"
      "ov_tried v = 0 \<or> refreshInterval \<le> now - ov_tried v"
  using assms by (auto simp: key_look_def split: option.splits if_splits)

lemma paced_start:
  "paced es \<Longrightarrow> last_time es = 0 \<or> refreshInterval \<le> t - last_time es \<Longrightarrow> \<not> (\<exists>t' es'. es = Started t' # es')
     \<Longrightarrow> (es \<noteq> [] \<longrightarrow> 0 < last_time es) \<Longrightarrow> paced (Started t # es)"
  by (cases es rule: paced.cases) auto

lemma oidc_step_inv:
  assumes "oidc_step x y" "oidc_inv x"
  shows "oidc_inv y"
  using assms
proof cases
  case (look kid turn v')
  from look(2) show ?thesis
  proof (cases rule: key_look_cases)
    case same
    then show ?thesis using look(1) assms(2) by (simp add: oidc_inv_def)
  next
    case starts
    have "paced (Started (or_now x) # or_log x)"
      using assms(2) starts by (intro paced_start) (auto simp: oidc_inv_def)
    then show ?thesis using look(1) starts assms(2) by (auto simp: oidc_inv_def split: option.splits)
  qed
next
  case (finish n res)
  obtain t es where log: "or_log x = Started t # es" using assms(2) finish by (auto simp: oidc_inv_def)
  show ?thesis
    using assms(2) log finish(1,2) by (auto simp: oidc_inv_def refresh_done_def Let_def split: sum.splits prod.splits option.splits)
qed (auto simp: oidc_inv_def split: option.splits)

lemma oidc_reachable_inv: "oidc_reachable x \<Longrightarrow> oidc_inv x"
proof (induction rule: oidc_reachable.induct)
  case (start parse tmo c v t)
  then show ?case using newOIDC_fields by (fastforce simp: oidc_inv_def)
next
  case (step x y)
  then show ?case using oidc_step_inv by blast
qed

lemma key_look_Got:
  assumes "key_look kid now v = (Got k, v')"
  shows "filter (\<lambda>k. jk_id k = kid) (ov_keys v) = [k] \<and> jk_valid k \<and> jk_public k
    \<and> jk_use k \<in> {'''', ''sig''} \<and> now - ov_fetched v < keyLifetime"
  using assms
  by (auto simp: key_look_def signingKey_def split: option.splits if_splits list.splits)

lemma settled_not_Wait:
  assumes "t \<noteq> 0" "t \<le> now" "now < t + refreshInterval"
  shows "fst (key_look kid now (refresh_done t res v)) \<noteq> Wait"
  using assms by (auto simp: key_look_def refresh_done_def Let_def split: option.splits sum.splits prod.splits)

lemma settled_Got:
  assumes "t \<le> now" "now < t + keyLifetime" "signingKey keys kid = Some k"
  shows "key_look kid now (refresh_done t (Inr (keys, uri)) v) = (Got k, refresh_done t (Inr (keys, uri)) v)"
  using assms by (auto simp: key_look_def refresh_done_def Let_def)

lemma verify_cases:
  "verify J issuer audience now key raw = Inr claims \<longleftrightarrow>
     (\<exists>token kid alg k. verify_begin J issuer raw = Some (token, kid, alg) \<and> key kid = Inr k
        \<and> verify_end J issuer audience now token alg k = Some claims)"
  by (auto simp: verify_def split: option.splits sum.splits prod.splits)

section \<open>Properties\<close>

text \<open>
  Refreshes of the keys are shared and paced, whatever requests come in and however long a fetch
  takes: there is never more than one at a time, and one starts only when the whole refresh interval
  has passed since the last one ended.
\<close>

theorem oidc_refresh_paced:
  assumes "oidc_reachable x"
  shows "or_running x \<le> 1 \<and> paced (or_log x)"
  using oidc_reachable_inv [OF assms] by (simp add: oidc_inv_def)

definition example_oidc :: oidcVerifier where
  "example_oidc = \<lparr>ov_issuer = ''https://i'', ov_audience = ''a'', ov_timeout = metadataTimeout, ov_keys = [],
     ov_fetched = 0, ov_tried = 0, ov_jwksURI = '''', ov_refreshing = False, ov_refreshErr = None\<rparr>"

definition example_jwk :: jwk where
  "example_jwk = \<lparr>jk_id = ''k'', jk_valid = True, jk_public = True, jk_use = '''', jk_algorithm = '''', jk_key = 1\<rparr>"

definition example_url :: "string \<Rightarrow> url option" where
  "example_url s = Some \<lparr>u_scheme = ''https'', u_user = False, u_host = s, u_port = '''', u_path = '''',
     u_rawquery = '''', u_forcequery = False, u_fragment = ''''\<rparr>"

definition example_fetched :: oidc_run where
  "example_fetched = \<lparr>or_v = refresh_done 5 (Inr ([example_jwk], ''u'')) (example_oidc\<lparr>ov_tried := 5, ov_refreshing := True\<rparr>),
     or_now = 5, or_running = 0, or_log = [Ended 5 (Inr ([example_jwk], ''u'')), Started 5]\<rparr>"

lemma example_fetched_reachable: "oidc_reachable example_fetched"
proof -
  have "newOIDC example_url 0 \<lparr>pc_Kind = ''oidc'', pc_Issuer = ''https://i'', pc_Audience = ''a''\<rparr> = Inr example_oidc"
    by (simp add: newOIDC_def example_url_def secureURL_def example_oidc_def)
  from oidc_reachable.start [OF this, of 5]
  have "oidc_reachable \<lparr>or_v = example_oidc, or_now = 5, or_running = 0, or_log = []\<rparr>" by simp
  moreover have "key_look ''k'' 5 example_oidc = (Wait, example_oidc\<lparr>ov_tried := 5, ov_refreshing := True\<rparr>)"
    by (simp add: key_look_def signingKey_def example_oidc_def)
  then have "oidc_step \<lparr>or_v = example_oidc, or_now = 5, or_running = 0, or_log = []\<rparr>
      \<lparr>or_v = example_oidc\<lparr>ov_tried := 5, ov_refreshing := True\<rparr>, or_now = 5, or_running = 1, or_log = [Started 5]\<rparr>"
    using oidc_step.look [of "''k''" "\<lparr>or_v = example_oidc, or_now = 5, or_running = 0, or_log = []\<rparr>"]
    by (simp add: example_oidc_def)
  ultimately have "oidc_reachable \<lparr>or_v = example_oidc\<lparr>ov_tried := 5, ov_refreshing := True\<rparr>,
      or_now = 5, or_running = 1, or_log = [Started 5]\<rparr>"
    by (rule oidc_reachable.step)
  from oidc_reachable.step [OF this oidc_step.finish [where n = 0 and res = "Inr ([example_jwk], ''u'')"]]
  show ?thesis by (simp add: example_fetched_def)
qed

theorem oidc_refresh_paced_witness:
  "paced [Ended 5 (Inr ([example_jwk], ''u'')), Started 5]"
  using oidc_refresh_paced [OF example_fetched_reachable] by (simp add: example_fetched_def)

text \<open>
  C30. A key that a request is given was in the last set of keys fetched, less than the key lifetime
  ago, is the only key of its ID in that set, and is a valid public signing key.
\<close>

theorem oidc_key_fresh:
  assumes "oidc_reachable x" "key_look kid (or_now x) (or_v x) = (Got k, v')"
  shows "\<exists>t keys. last_fetch (or_log x) = Some (t, keys) \<and> or_now x - t < keyLifetime
    \<and> filter (\<lambda>k. jk_id k = kid) keys = [k] \<and> jk_valid k \<and> jk_public k \<and> jk_use k \<in> {'''', ''sig''} \<and> v' = or_v x"
proof -
  note got = key_look_Got [OF assms(2)]
  have "v' = or_v x" using assms(2) by (auto simp: key_look_def split: option.splits if_splits)
  then show ?thesis
    using got oidc_reachable_inv [OF assms(1)] by (auto simp: oidc_inv_def split: option.splits prod.splits)
qed

theorem oidc_key_fresh_witness:
  "key_look ''k'' 5 (or_v example_fetched) = (Got example_jwk, or_v example_fetched)
    \<and> (\<exists>t keys. last_fetch (or_log example_fetched) = Some (t, keys) \<and> 5 - t < keyLifetime)"
proof -
  have "key_look ''k'' 5 (or_v example_fetched) = (Got example_jwk, or_v example_fetched)"
    by (simp add: example_fetched_def key_look_def signingKey_def refresh_done_def example_jwk_def oidc_times)
  with oidc_key_fresh [OF example_fetched_reachable, of "''k''"] show ?thesis by (auto simp: example_fetched_def)
qed

text \<open>
  A request waits for one refresh at most: once the refresh it waits for has ended, in whatever
  way, its next turn within the refresh interval settles it, with the key when the fetched set has
  one, and otherwise with an error.
\<close>

theorem oidc_waiter_settles:
  assumes "0 < t" "t \<le> now" "now < t + refreshInterval"
  shows "(\<exists>k. key_look kid now (refresh_done t res v) = (Got k, refresh_done t res v))
    \<or> (\<exists>err. key_look kid now (refresh_done t res v) = (Refused err, refresh_done t res v)
         \<and> (\<forall>keys uri. res = Inr (keys, uri) \<longrightarrow> signingKey keys kid = None \<and> err = ErrUnauthenticated))"
  using assms
  by (auto simp: key_look_def refresh_done_def Let_def oidc_times split: option.splits sum.splits prod.splits)

theorem oidc_waiter_settles_witness:
  "\<exists>err. key_look ''k'' 6 (refresh_done 5 (Inl ErrForbidden) example_oidc)
    = (Refused err, refresh_done 5 (Inl ErrForbidden) example_oidc)"
  using oidc_waiter_settles [of 5 6 "''k''" "Inl ErrForbidden" example_oidc]
  by (auto simp: oidc_times refresh_done_def example_oidc_def key_look_def signingKey_def)

text \<open>
  C29. A token is accepted only when its signature verifies under a key of the configured issuer, for
  the configured audience, with a subject, and neither expired nor issued in the future by more than
  the clock skew; and every claim it gives is a verified one.
\<close>

theorem oidc_verify_sound:
  assumes "jose_ok J" "verify J issuer audience now key raw = Inr claims" "issuer \<noteq> ''''"
  shows "\<exists>token kid alg k verified standard.
      jo_ParseSigned J raw = Some token \<and> jo_Headers J token = [(kid, alg)] \<and> key kid = Inr k
    \<and> jk_algorithm k \<in> {'''', alg} \<and> jo_Claims J token (jk_key k) = Some verified
    \<and> jo_standard J (filter (\<lambda>(n, _). n \<in> set standard_names) verified) = Some standard
    \<and> sc_Issuer standard = issuer \<and> audience \<in> set (sc_Audience standard) \<and> sc_Subject standard \<noteq> ''''
    \<and> (\<exists>t. sc_Expiry standard = Some t \<and> now \<le> t + clockSkew)
    \<and> (\<exists>t. sc_IssuedAt standard = Some t \<and> t \<le> now + clockSkew)
    \<and> (\<forall>(n, text) \<in> set claims. \<exists>r. (n, r) \<in> set verified \<and> jo_string J r = Some text)"
proof -
  obtain token kid alg k where b: "verify_begin J issuer raw = Some (token, kid, alg)" "key kid = Inr k"
      "verify_end J issuer audience now token alg k = Some claims"
    using assms(2) by (auto simp: verify_cases)
  have t: "jo_ParseSigned J raw = Some token" "jo_Headers J token = [(kid, alg)]"
    using b(1) by (auto simp: verify_begin_def split: option.splits list.splits if_splits prod.splits)
  obtain verified standard where e: "jk_algorithm k \<in> {'''', alg}" "jo_Claims J token (jk_key k) = Some verified"
      "jo_standard J (filter (\<lambda>(n, _). n \<in> set standard_names) verified) = Some standard"
      "sc_Expiry standard \<noteq> None" "sc_IssuedAt standard \<noteq> None" "sc_Subject standard \<noteq> ''''"
      "jo_Validate J standard issuer audience now clockSkew"
      "claims = [(n, text). (n, r) \<leftarrow> verified, Some text \<leftarrow> [jo_string J r]]"
    using b(3) by (auto simp: verify_end_def simp del: not_None_eq split: option.splits if_splits)
  note ok = assms(1) [unfolded jose_ok_def, rule_format, OF e(7)]
  have "\<forall>(n, text) \<in> set claims. \<exists>r. (n, r) \<in> set verified \<and> jo_string J r = Some text"
    unfolding e(8) by (auto split: option.splits)
  then show ?thesis using t b(2) e ok assms(3) by fastforce
qed

definition example_jose :: "unit jose" where
  "example_jose = \<lparr>jo_ParseSigned = (\<lambda>s. if s = ''t'' then Some () else None), jo_Headers = (\<lambda>_. [(''k'', ''RS256'')]),
     jo_UnsafeClaims = (\<lambda>_. Some [(''iss'', ''i''), (''ref'', ''main'')]),
     jo_Claims = (\<lambda>_ k. if k = 1 then Some [(''iss'', ''i''), (''ref'', ''main'')] else None), jo_string = Some,
     jo_standard = (\<lambda>_. Some \<lparr>sc_Issuer = ''i'', sc_Subject = ''s'', sc_Audience = [''a''], sc_Expiry = Some 10,
        sc_IssuedAt = Some 1, sc_NotBefore = None\<rparr>),
     jo_Validate = (\<lambda>c i a now lw. sc_Issuer c = i \<and> a \<in> set (sc_Audience c)
        \<and> (case sc_Expiry c of None \<Rightarrow> True | Some t \<Rightarrow> now - lw \<le> t)
        \<and> (case sc_IssuedAt c of None \<Rightarrow> True | Some t \<Rightarrow> t \<le> now + lw))\<rparr>"

lemma example_jose_ok: "jose_ok example_jose"
  by (auto simp: jose_ok_def example_jose_def)

theorem oidc_verify_sound_witness:
  "verify example_jose ''i'' ''a'' 5 (\<lambda>_. Inr example_jwk) ''t'' = Inr [(''iss'', ''i''), (''ref'', ''main'')]
    \<and> (\<exists>token kid alg. jo_ParseSigned example_jose ''t'' = Some token \<and> jo_Headers example_jose token = [(kid, alg)])"
proof -
  have "verify example_jose ''i'' ''a'' 5 (\<lambda>_. Inr example_jwk) ''t'' = Inr [(''iss'', ''i''), (''ref'', ''main'')]"
    by (simp add: verify_def verify_begin_def verify_end_def example_jose_def example_jwk_def clockSkew_def second_def)
  with oidc_verify_sound [OF example_jose_ok this] show ?thesis by auto
qed

end
