(* ===== verification/Policy.thy ===== *)
theory Policy
  imports Oidc "HOL-Library.Char_ord" "HOL-Library.List_Lexorder"
begin

text \<open>
  \<open>auth/policy.go\<close>: the validation of a policy and the decision it makes on a request. The maps
  of the configuration are association lists read as maps; an iteration over one takes the order of
  the list. What a provider's verifier answers to a token is a parameter of \<open>Authorize\<close>, instantiated
  by \<open>verify\<close> of \<open>auth/oidc.go\<close>.
\<close>

section \<open>The code\<close>

definition ActionRead :: string where "ActionRead = ''read''"
definition ActionAdd :: string where "ActionAdd = ''add''"
definition ActionLabel :: string where "ActionLabel = ''label''"
definition ActionErase :: string where "ActionErase = ''erase''"

lemmas action_defs = ActionRead_def ActionAdd_def ActionLabel_def ActionErase_def

record PermissionConfig =
  pm_Stores :: "string list"
  pm_Actions :: "string list"

record MatchConfig =
  mt_For :: string
  mt_When :: "(string \<times> string) list"
  mt_Grant :: "string list"

record policyConfig =
  cf_Providers :: "(string \<times> ProviderConfig) list"
  cf_Permissions :: "(string \<times> PermissionConfig) list"
  cf_Matches :: "(string \<times> MatchConfig) list"

text \<open>A \<open>permission\<close> has the fields of its configuration; a \<open>match\<close> has the ones it grants.\<close>

record policyMatch =
  pt_when :: "(string \<times> string) list"
  pt_grants :: "PermissionConfig list"

record policyProvider =
  pv_verifier :: oidcVerifier
  pv_matches :: "policyMatch list"

text \<open>The sorted keys of a map.\<close>

definition sorted_keys :: "(string \<times> 'a) list \<Rightarrow> string list" where
  "sorted_keys m = sort (remdups (map fst m))"

definition policy_error :: "string \<Rightarrow> string \<Rightarrow> string \<Rightarrow> error" where
  "policy_error what name why = ErrorString (''auth: '' @ what @ '' '' @ name @ why)"

definition check_permission :: "string \<Rightarrow> PermissionConfig \<Rightarrow> error option" where
  "check_permission name v =
     (if name = '''' \<or> pm_Stores v = [] \<or> pm_Actions v = [] then
        Some (policy_error ''permission'' name '' requires stores and actions'')
      else if '''' \<in> set (pm_Stores v) then
        Some (policy_error ''permission'' name '' has an empty store'')
      else if \<not> set (pm_Actions v) \<subseteq> {ActionRead, ActionAdd, ActionLabel, ActionErase} then
        Some (policy_error ''permission'' name '' has unknown action'')
      else None)"

fun check_permissions :: "(string \<times> PermissionConfig) list \<Rightarrow> error option" where
  "check_permissions [] = None"
| "check_permissions ((name, v) # ps) =
     (case check_permission name v of Some err \<Rightarrow> Some err | None \<Rightarrow> check_permissions ps)"

text \<open>The providers in the order of their names, with no matches yet.\<close>

fun build_providers ::
  "(ProviderConfig \<Rightarrow> error + oidcVerifier) \<Rightarrow> (string \<times> ProviderConfig) list \<Rightarrow> string list
   \<Rightarrow> error + policyProvider list" where
  "build_providers oidc m [] = Inr []"
| "build_providers oidc m (name # names) =
     (case map_of m name of
        None \<Rightarrow> build_providers oidc m names
      | Some v \<Rightarrow>
          if name = '''' \<or> pc_Kind v \<noteq> ''oidc'' then Inl (policy_error ''provider'' name '' requires kind oidc'')
          else (case oidc v of
                  Inl err \<Rightarrow> Inl (Wrapped (''auth: provider '' @ name) err)
                | Inr o' \<Rightarrow> (case build_providers oidc m names of
                              Inl err \<Rightarrow> Inl err
                            | Inr ps \<Rightarrow> Inr (\<lparr>pv_verifier = o', pv_matches = []\<rparr> # ps))))"

text \<open>The permissions that a match grants, by name.\<close>

fun grants_of :: "(string \<times> PermissionConfig) list \<Rightarrow> string list \<Rightarrow> PermissionConfig list option" where
  "grants_of perms [] = Some []"
| "grants_of perms (g # gs) =
     (case (map_of perms g, grants_of perms gs) of
        (Some p, Some ps) \<Rightarrow> Some (p # ps)
      | _ \<Rightarrow> None)"

fun index_of :: "string \<Rightarrow> string list \<Rightarrow> nat option" where
  "index_of x [] = None"
| "index_of x (y # ys) = (if x = y then Some 0 else map_option Suc (index_of x ys))"

text \<open>The matches in the order of their names, each appended to its provider.\<close>

fun add_matches ::
  "(string \<times> PermissionConfig) list \<Rightarrow> string list \<Rightarrow> (string \<times> MatchConfig) list \<Rightarrow> string list
   \<Rightarrow> policyProvider list \<Rightarrow> error + policyProvider list" where
  "add_matches perms byName m [] ps = Inr ps"
| "add_matches perms byName m (name # names) ps =
     (case map_of m name of
        None \<Rightarrow> add_matches perms byName m names ps
      | Some v \<Rightarrow>
          (case index_of (mt_For v) byName of
             None \<Rightarrow> Inl (policy_error ''match'' name '' requires a known provider, nonempty when and grant'')
           | Some i \<Rightarrow>
               if name = '''' \<or> mt_When v = [] \<or> mt_Grant v = [] then
                 Inl (policy_error ''match'' name '' requires a known provider, nonempty when and grant'')
               else if (\<exists>(k, value) \<in> set (mt_When v). k = '''' \<or> value = '''') then
                 Inl (policy_error ''match'' name '' has an empty claim condition'')
               else (case grants_of perms (mt_Grant v) of
                       None \<Rightarrow> Inl (policy_error ''match'' name '' grants unknown permission'')
                     | Some gs \<Rightarrow>
                         add_matches perms byName m names
                           (ps[i := (ps ! i)\<lparr>pv_matches := pv_matches (ps ! i) @
                                      [\<lparr>pt_when = mt_When v, pt_grants = gs\<rparr>]\<rparr>]))))"

definition NewPolicy :: "(ProviderConfig \<Rightarrow> error + oidcVerifier) \<Rightarrow> policyConfig \<Rightarrow> error + policyProvider list" where
  "NewPolicy oidc c =
     (if cf_Providers c = [] \<or> cf_Permissions c = [] \<or> cf_Matches c = [] then
        Inl (ErrorString ''auth: providers, permissions and matches are required'')
      else (case check_permissions (cf_Permissions c) of
              Some err \<Rightarrow> Inl err
            | None \<Rightarrow>
                (case build_providers oidc (cf_Providers c) (sorted_keys (cf_Providers c)) of
                   Inl err \<Rightarrow> Inl err
                 | Inr ps \<Rightarrow> add_matches (cf_Permissions c) (sorted_keys (cf_Providers c)) (cf_Matches c)
                               (sorted_keys (cf_Matches c)) ps)))"

text \<open>\<open>matches\<close>\<close>

fun claims_match :: "claim_set \<Rightarrow> (string \<times> string) list \<Rightarrow> bool" where
  "claims_match claims [] \<longleftrightarrow> True"
| "claims_match claims ((name, want) # rest) \<longleftrightarrow>
     (case map_of claims name of
        None \<Rightarrow> False
      | Some got \<Rightarrow> if got \<noteq> want then False else claims_match claims rest)"

definition grant_covers :: "PermissionConfig \<Rightarrow> string \<Rightarrow> string \<Rightarrow> bool" where
  "grant_covers g store action \<longleftrightarrow>
     action \<in> set (pm_Actions g) \<and> (store \<in> set (pm_Stores g) \<or> ''*'' \<in> set (pm_Stores g))"

definition some_grant :: "policyMatch list \<Rightarrow> claim_set \<Rightarrow> string \<Rightarrow> string \<Rightarrow> bool" where
  "some_grant ms claims store action \<longleftrightarrow>
     list_ex (\<lambda>m. claims_match claims (pt_when m) \<and> list_ex (\<lambda>g. grant_covers g store action) (pt_grants m)) ms"

text \<open>The loop over the providers, with its two variables \<open>authenticated\<close> and \<open>unavailable\<close>.\<close>

fun try_providers ::
  "(oidcVerifier \<Rightarrow> string \<Rightarrow> error + claim_set) \<Rightarrow> string \<Rightarrow> string \<Rightarrow> string \<Rightarrow> bool \<Rightarrow> error option
   \<Rightarrow> policyProvider list \<Rightarrow> error option" where
  "try_providers ask token store action authenticated unavailable [] =
     (if authenticated then Some ErrForbidden
      else if unavailable \<noteq> None then unavailable
      else Some ErrUnauthenticated)"
| "try_providers ask token store action authenticated unavailable (p # ps) =
     (case ask (pv_verifier p) token of
        Inl err \<Rightarrow>
          try_providers ask token store action authenticated
            (if errors_Is err ErrUnauthenticated then unavailable else Some err) ps
      | Inr claims \<Rightarrow>
          if some_grant (pv_matches p) claims store action then None
          else try_providers ask token store action True unavailable ps)"

definition bearer_token :: "header \<Rightarrow> string option" where
  "bearer_token h =
     (case Header_Values h ''Authorization'' of
        [v] \<Rightarrow>
          if 65536 < length v then None
          else (case Fields v of
                  [scheme, token] \<Rightarrow> if EqualFold scheme ''Bearer'' then Some token else None
                | _ \<Rightarrow> None)
      | _ \<Rightarrow> None)"

definition Authorize ::
  "(oidcVerifier \<Rightarrow> string \<Rightarrow> error + claim_set) \<Rightarrow> policyProvider list \<Rightarrow> header \<Rightarrow> string \<Rightarrow> string
   \<Rightarrow> error option" where
  "Authorize ask p h store action =
     (case bearer_token h of
        None \<Rightarrow> Some ErrUnauthenticated
      | Some token \<Rightarrow> try_providers ask token store action False None p)"

section \<open>Lemmas\<close>

lemma claims_match_iff: "claims_match claims w \<longleftrightarrow> (\<forall>(n, v) \<in> set w. map_of claims n = Some v)"
  by (induction claims w rule: claims_match.induct) (auto split: option.splits)

definition permits :: "(oidcVerifier \<Rightarrow> string \<Rightarrow> error + claim_set) \<Rightarrow> string \<Rightarrow> string \<Rightarrow> string \<Rightarrow> policyProvider \<Rightarrow> bool" where
  "permits ask token store action p \<longleftrightarrow>
     (\<exists>claims. ask (pv_verifier p) token = Inr claims \<and> some_grant (pv_matches p) claims store action)"

lemma try_providers_None:
  "try_providers ask token store action a u ps = None \<longleftrightarrow> list_ex (permits ask token store action) ps"
  by (induction ps arbitrary: a u) (auto simp: permits_def split: sum.splits)

text \<open>The error of a provider that is not just a refusal of the token.\<close>

definition out_of_order :: "(oidcVerifier \<Rightarrow> string \<Rightarrow> error + claim_set) \<Rightarrow> string \<Rightarrow> error \<Rightarrow> policyProvider \<Rightarrow> bool" where
  "out_of_order ask token e p \<longleftrightarrow> ask (pv_verifier p) token = Inl e \<and> \<not> errors_Is e ErrUnauthenticated"

definition authenticates :: "(oidcVerifier \<Rightarrow> string \<Rightarrow> error + claim_set) \<Rightarrow> string \<Rightarrow> policyProvider \<Rightarrow> bool" where
  "authenticates ask token p \<longleftrightarrow> (\<exists>claims. ask (pv_verifier p) token = Inr claims)"

lemma try_providers_authenticated:
  "\<not> list_ex (permits ask token store action) ps \<Longrightarrow> a \<or> list_ex (authenticates ask token) ps \<Longrightarrow>
     try_providers ask token store action a u ps = Some ErrForbidden"
  by (induction ps arbitrary: a u) (auto simp: permits_def authenticates_def split: sum.splits)

lemma try_providers_unknown:
  "\<not> list_ex (authenticates ask token) ps \<Longrightarrow>
     (\<exists>e. try_providers ask token store action False u ps = Some e
        \<and> (u = Some e \<or> list_ex (out_of_order ask token e) ps))
     \<or> (try_providers ask token store action False u ps = Some ErrUnauthenticated
        \<and> u = None \<and> (\<forall>e. \<not> list_ex (out_of_order ask token e) ps))"
proof (induction ps arbitrary: u)
  case (Cons p ps)
  then obtain e where e: "ask (pv_verifier p) token = Inl e" "\<not> list_ex (authenticates ask token) ps"
    by (cases "ask (pv_verifier p) token") (auto simp: authenticates_def [of _ _ p])
  then show ?case
    using Cons.IH [of "if errors_Is e ErrUnauthenticated then u else Some e"]
    by (auto simp: out_of_order_def split: if_splits)
qed auto

lemma index_of_Some: "index_of x ys = Some i \<Longrightarrow> i < length ys \<and> ys ! i = x"
  by (induction ys arbitrary: i) (auto split: if_splits simp: nth_Cons')

lemma index_of_distinct: "distinct ys \<Longrightarrow> i < length ys \<Longrightarrow> index_of (ys ! i) ys = Some i"
  by (induction ys arbitrary: i) (auto simp: nth_Cons' nth_mem less_Suc_eq_0_disj)

lemma grants_of_set: "grants_of perms gs = Some ps \<Longrightarrow> set ps = {p. \<exists>g \<in> set gs. map_of perms g = Some p}"
  by (induction gs arbitrary: ps) (auto split: option.splits)

lemma build_providers_map:
  assumes "build_providers oidc m names = Inr ps" "set names \<subseteq> fst ` set m"
  shows "length ps = length names \<and> (\<forall>i < length names. \<exists>v. map_of m (names ! i) = Some v \<and> pc_Kind v = ''oidc''
    \<and> oidc v = Inr (pv_verifier (ps ! i)) \<and> pv_matches (ps ! i) = [])"
  using assms
proof (induction names arbitrary: ps)
  case (Cons name names)
  then obtain v where v: "map_of m name = Some v" by (auto dest: weak_map_of_SomeI)
  then show ?case using Cons by (auto split: if_splits sum.splits simp: nth_Cons' less_Suc_eq_0_disj)
qed simp

text \<open>The matches of the provider at a position, as the configuration describes them.\<close>

definition configured ::
  "policyConfig \<Rightarrow> string \<Rightarrow> policyMatch \<Rightarrow> bool" where
  "configured c provider mt \<longleftrightarrow>
     (\<exists>name v. map_of (cf_Matches c) name = Some v \<and> mt_For v = provider \<and> mt_When v \<noteq> []
        \<and> pt_when mt = mt_When v \<and> grants_of (cf_Permissions c) (mt_Grant v) = Some (pt_grants mt))"

definition named_match ::
  "(string \<times> PermissionConfig) list \<Rightarrow> string list \<Rightarrow> (string \<times> MatchConfig) list \<Rightarrow> nat \<Rightarrow> policyMatch \<Rightarrow> string \<Rightarrow> bool" where
  "named_match perms byName m i mt name \<longleftrightarrow>
     (\<exists>v. map_of m name = Some v \<and> index_of (mt_For v) byName = Some i \<and> mt_When v \<noteq> []
        \<and> pt_when mt = mt_When v \<and> grants_of perms (mt_Grant v) = Some (pt_grants mt))"

lemma policyMatch_eq: "(mt::policyMatch) = \<lparr>pt_when = w, pt_grants = g\<rparr> \<longleftrightarrow> pt_when mt = w \<and> pt_grants mt = g"
  by (cases mt) auto

lemma add_matches_sets:
  assumes "add_matches perms byName m names ps = Inr qs" "length ps = length byName"
  shows "length qs = length ps \<and> (\<forall>i < length ps. pv_verifier (qs ! i) = pv_verifier (ps ! i)
    \<and> (\<forall>mt. mt \<in> set (pv_matches (qs ! i)) \<longleftrightarrow>
         mt \<in> set (pv_matches (ps ! i)) \<or> list_ex (named_match perms byName m i mt) names))"
  using assms
proof (induction perms byName m names ps rule: add_matches.induct)
  case (2 perms byName m name names ps)
  show ?case
  proof (cases "map_of m name")
    case None
    then have "\<not> named_match perms byName m i mt name" for i mt by (simp add: named_match_def)
    then show ?thesis using 2(1) [OF None] 2(3,4) None by simp
  next
    case (Some v)
    then obtain i gs where i: "index_of (mt_For v) byName = Some i" "mt_When v \<noteq> []" "grants_of perms (mt_Grant v) = Some gs"
        "name \<noteq> ''''" "mt_Grant v \<noteq> []" "\<not> (\<exists>(k, value) \<in> set (mt_When v). k = '''' \<or> value = '''')"
      using 2(3) by (auto split: option.splits if_splits)
    let ?ps = "ps[i := (ps ! i)\<lparr>pv_matches := pv_matches (ps ! i) @ [\<lparr>pt_when = mt_When v, pt_grants = gs\<rparr>]\<rparr>]"
    have rec: "add_matches perms byName m names ?ps = Inr qs" using 2(3) Some i by (simp split: if_splits)
    have "i < length ps" using index_of_Some [OF i(1)] 2(4) by simp
    moreover have "named_match perms byName m j mt name \<longleftrightarrow> j = i \<and> mt = \<lparr>pt_when = mt_When v, pt_grants = gs\<rparr>" for j mt
      using Some i by (auto simp: named_match_def policyMatch_eq)
    moreover note 2(2) [OF Some i(1) _ _ i(3) rec]
    ultimately show ?thesis using i(2,4-6) 2(4) by (auto simp: nth_list_update)
  qed
qed simp

lemma NewPolicy_parts:
  assumes "NewPolicy oidc c = Inr P"
  shows "length P = length (sorted_keys (cf_Providers c))
    \<and> (\<forall>i < length P. \<exists>v. map_of (cf_Providers c) (sorted_keys (cf_Providers c) ! i) = Some v
         \<and> oidc v = Inr (pv_verifier (P ! i))
         \<and> (\<forall>mt. mt \<in> set (pv_matches (P ! i)) \<longleftrightarrow> configured c (sorted_keys (cf_Providers c) ! i) mt))"
proof -
  let ?keys = "sorted_keys (cf_Providers c)"
  obtain ps where ps: "build_providers oidc (cf_Providers c) ?keys = Inr ps"
      "add_matches (cf_Permissions c) ?keys (cf_Matches c) (sorted_keys (cf_Matches c)) ps = Inr P"
    using assms by (auto simp: NewPolicy_def split: if_splits option.splits sum.splits)
  have dist: "distinct ?keys" by (simp add: sorted_keys_def)
  have "length ps = length ?keys" and old: "\<And>i. i < length ?keys \<Longrightarrow> \<exists>v. map_of (cf_Providers c) (?keys ! i) = Some v
      \<and> oidc v = Inr (pv_verifier (ps ! i)) \<and> pv_matches (ps ! i) = []"
    using build_providers_map [OF ps(1)] by (auto simp: sorted_keys_def)
  note new = add_matches_sets [OF ps(2) this(1)]
  have at: "index_of f ?keys = Some i \<longleftrightarrow> f = ?keys ! i" if "i < length ?keys" for f i
    using that index_of_distinct [OF dist that] index_of_Some [of f ?keys i] by auto
  have inkeys: "name \<in> set (sorted_keys (cf_Matches c))" if "map_of (cf_Matches c) name = Some v" for name v
    using map_of_SomeD [OF that] by (force simp: sorted_keys_def)
  show ?thesis
  proof (intro conjI allI impI)
    fix i assume i: "i < length P"
    then have "mt \<in> set (pv_matches (P ! i)) \<longleftrightarrow>
        list_ex (named_match (cf_Permissions c) ?keys (cf_Matches c) i mt) (sorted_keys (cf_Matches c))" for mt
      using new old [of i] \<open>length ps = length ?keys\<close> by auto
    moreover have "i < length ?keys" using i new \<open>length ps = length ?keys\<close> by simp
    then have "list_ex (named_match (cf_Permissions c) ?keys (cf_Matches c) i mt) (sorted_keys (cf_Matches c))
        \<longleftrightarrow> configured c (?keys ! i) mt" for mt
      unfolding list_ex_iff named_match_def configured_def at [OF \<open>i < length ?keys\<close>] using inkeys by blast
    ultimately have "\<forall>mt. mt \<in> set (pv_matches (P ! i)) \<longleftrightarrow> configured c (?keys ! i) mt" by simp
    then show "\<exists>v. map_of (cf_Providers c) (?keys ! i) = Some v \<and> oidc v = Inr (pv_verifier (P ! i))
        \<and> (\<forall>mt. mt \<in> set (pv_matches (P ! i)) \<longleftrightarrow> configured c (?keys ! i) mt)"
      using old [of i] new i \<open>length ps = length ?keys\<close> by auto
  qed (use new \<open>length ps = length ?keys\<close> in simp)
qed

section \<open>Properties\<close>

text \<open>
  C27. A policy built from a configuration allows a request exactly when the configuration says so:
  there is one bearer token, a configured provider verifies it, a match for that provider has all its
  claim conditions met, and a permission it grants covers the store and the action.
\<close>

theorem policy_allows:
  assumes "NewPolicy oidc c = Inr P"
  shows "Authorize ask P h store action = None \<longleftrightarrow>
    (\<exists>token v o' claims name mc g perm.
       bearer_token h = Some token
     \<and> map_of (cf_Matches c) name = Some mc \<and> map_of (cf_Providers c) (mt_For mc) = Some v \<and> oidc v = Inr o'
     \<and> ask o' token = Inr claims \<and> mt_When mc \<noteq> [] \<and> (\<forall>(n, w) \<in> set (mt_When mc). map_of claims n = Some w)
     \<and> g \<in> set (mt_Grant mc) \<and> map_of (cf_Permissions c) g = Some perm \<and> (\<exists>gs. grants_of (cf_Permissions c) (mt_Grant mc) = Some gs)
     \<and> action \<in> set (pm_Actions perm) \<and> (store \<in> set (pm_Stores perm) \<or> ''*'' \<in> set (pm_Stores perm)))"
    (is "?L \<longleftrightarrow> ?R")
proof
  note parts = NewPolicy_parts [OF assms]
  assume ?L
  then obtain token i where t: "bearer_token h = Some token" "i < length P" "permits ask token store action (P ! i)"
    by (auto simp: Authorize_def try_providers_None list_ex_iff in_set_conv_nth split: option.splits)
  then obtain claims mt perm where m: "ask (pv_verifier (P ! i)) token = Inr claims" "mt \<in> set (pv_matches (P ! i))"
      "claims_match claims (pt_when mt)" "perm \<in> set (pt_grants mt)" "grant_covers perm store action"
    by (auto simp: permits_def some_grant_def list_ex_iff)
  obtain v where v: "map_of (cf_Providers c) (sorted_keys (cf_Providers c) ! i) = Some v" "oidc v = Inr (pv_verifier (P ! i))"
      "configured c (sorted_keys (cf_Providers c) ! i) mt"
    using parts t(2) m(2) by auto
  from v(3) m(4) show ?R
    unfolding configured_def using t(1) v(1,2) m(1,3,5) grants_of_set
    by (fastforce simp: claims_match_iff grant_covers_def)
next
  note parts = NewPolicy_parts [OF assms]
  assume ?R
  then obtain token v o' claims name mc g perm gs where r: "bearer_token h = Some token"
      "map_of (cf_Matches c) name = Some mc" "map_of (cf_Providers c) (mt_For mc) = Some v" "oidc v = Inr o'"
      "ask o' token = Inr claims" "mt_When mc \<noteq> []" "claims_match claims (mt_When mc)"
      "perm \<in> set gs" "grants_of (cf_Permissions c) (mt_Grant mc) = Some gs" "grant_covers perm store action"
    using grants_of_set by (fastforce simp: claims_match_iff grant_covers_def)
  have "mt_For mc \<in> set (sorted_keys (cf_Providers c))"
    using map_of_SomeD [OF r(3)] by (force simp: sorted_keys_def)
  then obtain i where i: "i < length P" "sorted_keys (cf_Providers c) ! i = mt_For mc"
    using parts by (auto simp: in_set_conv_nth)
  have "configured c (mt_For mc) \<lparr>pt_when = mt_When mc, pt_grants = gs\<rparr>"
    using r(2,6,9) by (auto simp: configured_def)
  then have p: "pv_verifier (P ! i) = o'" "\<lparr>pt_when = mt_When mc, pt_grants = gs\<rparr> \<in> set (pv_matches (P ! i))"
    using parts r(3,4) i by auto
  then have "permits ask token store action (P ! i)"
    using r(5,7,8,10) by (force simp: permits_def some_grant_def list_ex_iff intro!: bexI [OF _ p(2)])
  then show ?L using r(1) i(1) by (auto simp: Authorize_def try_providers_None list_ex_iff)
qed

definition example_policy :: policyConfig where
  "example_policy =
     \<lparr>cf_Providers = [(''ci'', \<lparr>pc_Kind = ''oidc'', pc_Issuer = ''i'', pc_Audience = ''a''\<rparr>)],
      cf_Permissions = [(''pull'', \<lparr>pm_Stores = [''s''], pm_Actions = [''read'']\<rparr>)],
      cf_Matches = [(''m'', \<lparr>mt_For = ''ci'', mt_When = [(''ref'', ''main'')], mt_Grant = [''pull'']\<rparr>)]\<rparr>"

definition example_providers :: "policyProvider list" where
  "example_providers = [\<lparr>pv_verifier = example_oidc, pv_matches =
     [\<lparr>pt_when = [(''ref'', ''main'')], pt_grants = [\<lparr>pm_Stores = [''s''], pm_Actions = [''read'']\<rparr>]\<rparr>]\<rparr>]"

lemma example_policy_built: "NewPolicy (\<lambda>_. Inr example_oidc) example_policy = Inr example_providers"
  by (simp add: NewPolicy_def example_policy_def example_providers_def check_permission_def action_defs sorted_keys_def)

definition example_request_header :: header where
  "example_request_header = [(''Authorization'', [''Bearer t''])]"

lemma example_bearer: "bearer_token example_request_header = Some ''t''"
  by (simp add: bearer_token_def example_request_header_def Header_Values_def CanonicalHeaderKey_def token_char_def
      is_upper_def is_lower_def is_digit_def upper_char_def lower_char_def Fields_def is_space_def EqualFold_def ToLower_def)

theorem policy_allows_witness:
  "Authorize (\<lambda>o' t. Inr [(''ref'', ''main'')]) example_providers example_request_header ''s'' ''read'' = None
   \<and> Authorize (\<lambda>o' t. Inr [(''ref'', ''main'')]) example_providers example_request_header ''s'' ''erase'' \<noteq> None"
  unfolding policy_allows [OF example_policy_built]
  by (simp add: example_bearer example_policy_def)

text \<open>
  C31. A refused request gets the right error: \<open>ErrForbidden\<close> when some provider verified the token,
  otherwise the error of a provider that could not verify tokens, and \<open>ErrUnauthenticated\<close> when every
  provider refused the token or there is no single bearer token.
\<close>

theorem policy_refusals:
  assumes "Authorize ask P h store action = Some err"
  shows "case bearer_token h of
      None \<Rightarrow> err = ErrUnauthenticated
    | Some token \<Rightarrow>
        if \<exists>p \<in> set P. \<exists>claims. ask (pv_verifier p) token = Inr claims then err = ErrForbidden
        else (\<exists>p \<in> set P. ask (pv_verifier p) token = Inl err \<and> \<not> errors_Is err ErrUnauthenticated)
          \<or> (err = ErrUnauthenticated \<and> (\<forall>p \<in> set P. \<exists>e. ask (pv_verifier p) token = Inl e \<and> errors_Is e ErrUnauthenticated))"
proof (cases "bearer_token h")
  case (Some token)
  have no: "\<not> list_ex (permits ask token store action) P"
    using assms Some try_providers_None [of ask token store action False None P] by (auto simp: Authorize_def)
  show ?thesis
  proof (cases "list_ex (authenticates ask token) P")
    case True
    then show ?thesis
      using try_providers_authenticated [OF no, of False None] assms Some
      by (auto simp: Authorize_def list_ex_iff authenticates_def)
  next
    case False
    then have "\<forall>p \<in> set P. \<exists>e. ask (pv_verifier p) token = Inl e"
      by (auto simp: list_ex_iff authenticates_def) (metis sum.exhaust)
    then show ?thesis
      using try_providers_unknown [OF False, of store action None] assms Some
      by (fastforce simp: Authorize_def list_ex_iff out_of_order_def)
  qed
qed (use assms in \<open>simp add: Authorize_def\<close>)

theorem policy_refusals_witness:
  "Authorize (\<lambda>o' t. Inr []) example_providers example_request_header ''s'' ''read'' = Some ErrForbidden"
proof -
  have n: "Authorize (\<lambda>o' t. Inr []) example_providers example_request_header ''s'' ''read'' \<noteq> None"
    by (simp add: Authorize_def example_bearer example_providers_def some_grant_def)
  then obtain err where "Authorize (\<lambda>o' t. Inr []) example_providers example_request_header ''s'' ''read'' = Some err" by auto
  with policy_refusals [OF this] show ?thesis by (simp add: example_bearer example_providers_def)
qed

end
