(* ===== verification/ServeContent.thy ===== *)
theory ServeContent
  imports HttpTypes
begin

text \<open>
  \<open>http.ServeContent\<close> of the Go library, as the handler calls it: without a modification time and
  with the content type set. It answers conditional requests by entity tags and requests for byte
  ranges. The body of a response to several ranges is a multipart document with a random boundary,
  which is a parameter.
\<close>

section \<open>Entity tags\<close>

text \<open>\<open>textproto.TrimString\<close>\<close>

definition trim_space :: "string \<Rightarrow> string" where
  "trim_space s = (let sp = (\<lambda>c. byte_val c \<in> {9, 10, 13, 32}) in rev (dropWhile sp (rev (dropWhile sp s))))"

definition etag_char :: "char \<Rightarrow> bool" where
  "etag_char c \<longleftrightarrow> byte_val c = 33 \<or> (35 \<le> byte_val c \<and> byte_val c \<le> 126) \<or> 128 \<le> byte_val c"

text \<open>The tag at the start of a text, and what follows it.\<close>

fun scan_quoted :: "string \<Rightarrow> (string \<times> string) option" where
  "scan_quoted [] = None"
| "scan_quoted (c # cs) =
     (if etag_char c then map_option (\<lambda>(a, b). (c # a, b)) (scan_quoted cs)
      else if byte_val c = 34 then Some ([c], cs) else None)"

definition scanETag :: "string \<Rightarrow> (string \<times> string) option" where
  "scanETag s =
     (let s = trim_space s; (w, q) = (if HasPrefix s ''W/'' then (''W/'', drop 2 s) else ('''', s))
      in case q of
           c # cs \<Rightarrow> if byte_val c = 34 then map_option (\<lambda>(a, b). (w @ c # a, b)) (scan_quoted cs) else None
         | [] \<Rightarrow> None)"

definition etagStrongMatch :: "string \<Rightarrow> string \<Rightarrow> bool" where
  "etagStrongMatch a b \<longleftrightarrow> a = b \<and> a \<noteq> '''' \<and> byte_val (hd a) = 34"

definition etagWeakMatch :: "string \<Rightarrow> string \<Rightarrow> bool" where
  "etagWeakMatch a b \<longleftrightarrow> TrimPrefix a ''W/'' = TrimPrefix b ''W/''"

lemma scan_quoted_shorter: "scan_quoted s = Some (a, b) \<Longrightarrow> length b < length s"
  by (induction s arbitrary: a b) (auto split: if_splits)

lemma trim_space_length: "length (trim_space s) \<le> length s"
  unfolding trim_space_def Let_def length_rev
  by (rule order_trans [OF length_dropWhile_le]) (simp add: length_dropWhile_le)

lemma scanETag_shorter: "scanETag s = Some (a, b) \<Longrightarrow> length b < length s"
proof -
  assume "scanETag s = Some (a, b)"
  then obtain c cs x where "scan_quoted cs = Some (x, b)" "length (c # cs) \<le> length (trim_space s)"
    by (auto simp: scanETag_def Let_def split: list.splits if_splits) (metis length_drop diff_le_self list.size(4) One_nat_def add.right_neutral add_Suc_right)+
  then show ?thesis using scan_quoted_shorter [of cs x b] trim_space_length [of s] by simp
qed

text \<open>Whether a list of tags has one that matches, or is a star.\<close>

function any_tag :: "(string \<Rightarrow> bool) \<Rightarrow> string \<Rightarrow> bool" where
  "any_tag ok s =
     (case trim_space s of
        [] \<Rightarrow> False
      | c # cs \<Rightarrow>
          if c = CHR '','' then any_tag ok cs
          else if c = CHR ''*'' then True
          else (case scanETag (c # cs) of
                  None \<Rightarrow> False
                | Some (etag, rest) \<Rightarrow> if ok etag then True else any_tag ok rest))"
  by auto
termination
proof (relation "measure (\<lambda>(ok, s). length s)", goal_cases)
  case (2 ok s c cs)
  then show ?case using trim_space_length [of s] by simp
next
  case (3 ok s c cs p etag rest)
  then show ?case using trim_space_length [of s] scanETag_shorter [of "c # cs" etag rest] by auto
qed simp

declare any_tag.simps [simp del]

section \<open>Ranges\<close>

text \<open>The outcome of \<open>parseRange\<close>: ranges as offset and length, or one of its two errors.\<close>

datatype range_result = Ranges "(int \<times> int) list" | NoOverlap | InvalidRange

text \<open>One range: \<open>Inr None\<close> is one past the end of the content.\<close>

definition parse_one_range :: "int \<Rightarrow> string \<Rightarrow> (int \<times> int) option option" where
  "parse_one_range sz ra =
     (case Cut ra CHR ''-'' of
        None \<Rightarrow> None
      | Some (start, finish) \<Rightarrow>
          (let start = trim_space start; finish = trim_space finish
           in if start = '''' then
                (if finish = '''' \<or> hd finish = CHR ''-'' then None
                 else (case ParseInt finish of
                         None \<Rightarrow> None
                       | Some i \<Rightarrow> if i < 0 then None
                                   else Some (Some (sz - min i sz, min i sz))))
              else
                (case ParseInt start of
                   None \<Rightarrow> None
                 | Some i \<Rightarrow>
                     if i < 0 then None
                     else if i \<ge> sz then Some None
                     else if finish = '''' then Some (Some (i, sz - i))
                     else (case ParseInt finish of
                             None \<Rightarrow> None
                           | Some j \<Rightarrow> if i > j then None
                                       else Some (Some (i, min j (sz - 1) - i + 1))))))"

fun parse_ranges :: "int \<Rightarrow> string list \<Rightarrow> bool \<Rightarrow> (int \<times> int) list \<Rightarrow> range_result" where
  "parse_ranges sz [] noOverlap acc =
     (if noOverlap \<and> acc = [] then NoOverlap else Ranges acc)"
| "parse_ranges sz (ra # ras) noOverlap acc =
     (if trim_space ra = '''' then parse_ranges sz ras noOverlap acc
      else (case parse_one_range sz (trim_space ra) of
              None \<Rightarrow> InvalidRange
            | Some None \<Rightarrow> parse_ranges sz ras True acc
            | Some (Some r) \<Rightarrow> parse_ranges sz ras noOverlap (acc @ [r])))"

definition parseRange :: "string \<Rightarrow> int \<Rightarrow> range_result" where
  "parseRange s sz =
     (if s = '''' then Ranges []
      else (case CutPrefix s ''bytes='' of
              None \<Rightarrow> InvalidRange
            | Some rest \<Rightarrow> parse_ranges sz (Split rest CHR '','') False []))"

definition contentRange :: "int \<Rightarrow> int \<Rightarrow> int \<Rightarrow> string" where
  "contentRange start len sz =
     ''bytes '' @ FormatInt start @ ''-'' @ FormatInt (start + len - 1) @ ''/'' @ FormatInt sz"

definition slice :: "int \<Rightarrow> int \<Rightarrow> bytes \<Rightarrow> bytes" where
  "slice start len b = take (nat len) (drop (nat start) b)"

section \<open>ServeContent\<close>

definition serveError :: "header \<Rightarrow> string \<Rightarrow> nat \<Rightarrow> response" where
  "serveError h msg code =
     http_Error (Header_Del ''Last-Modified'' (Header_Del ''Etag'' (Header_Del ''Content-Encoding''
       (Header_Del ''Cache-Control'' h)))) msg code"

definition writeNotModified :: "header \<Rightarrow> response" where
  "writeNotModified h =
     (let h1 = Header_Del ''Content-Encoding'' (Header_Del ''Content-Length'' (Header_Del ''Content-Type'' h))
      in \<lparr>rs_status = StatusNotModified,
          rs_header = (if Header_Get h1 ''Etag'' \<noteq> '''' then Header_Del ''Last-Modified'' h1 else h1),
          rs_body = []\<rparr>)"

text \<open>The range header to honour, or the response that a precondition makes instead.\<close>

definition checkPreconditions :: "request \<Rightarrow> header \<Rightarrow> response + string" where
  "checkPreconditions r h =
     (let etag = Header_Get h ''Etag'';
          im = Header_Get (rq_header r) ''If-Match'';
          inm = Header_Get (rq_header r) ''If-None-Match'';
          ir = Header_Get (rq_header r) ''If-Range'';
          rng = Header_Get (rq_header r) ''Range'';
          reads = rq_method r = MethodGet \<or> rq_method r = MethodHead
      in if im \<noteq> '''' \<and> \<not> any_tag (\<lambda>t. etagStrongMatch t etag) im
         then Inl \<lparr>rs_status = StatusPreconditionFailed, rs_header = h, rs_body = []\<rparr>
         else if inm \<noteq> '''' \<and> any_tag (\<lambda>t. etagWeakMatch t etag) inm
         then Inl (if reads then writeNotModified h
                   else \<lparr>rs_status = StatusPreconditionFailed, rs_header = h, rs_body = []\<rparr>)
         else if rng \<noteq> '''' \<and> reads \<and> ir \<noteq> ''''
              \<and> \<not> (case scanETag ir of Some (t, _) \<Rightarrow> etagStrongMatch t etag | None \<Rightarrow> False)
         then Inr ''''
         else Inr rng)"

definition ServeContent ::
  "((int \<times> int) list \<Rightarrow> bytes \<Rightarrow> string \<times> bytes) \<Rightarrow> request \<Rightarrow> header \<Rightarrow> bytes \<Rightarrow> response" where
  "ServeContent multipart r h content =
     (case checkPreconditions r h of
        Inl resp \<Rightarrow> resp
      | Inr rng \<Rightarrow>
          (let sz = int (length content);
               finish = (\<lambda>code ranged h body.
                  let h = Header_Set ''Accept-Ranges'' ''bytes'' h;
                      h = (if ranged \<or> Header_Get h ''Content-Encoding'' = ''''
                           then Header_Set ''Content-Length'' (FormatInt (int (length body))) h else h)
                  in \<lparr>rs_status = code, rs_header = h,
                      rs_body = (if rq_method r = MethodHead then [] else body)\<rparr>);
               whole = finish StatusOK False h content
           in case parseRange rng sz of
                InvalidRange \<Rightarrow> serveError h ''invalid range'' StatusRequestedRangeNotSatisfiable
              | NoOverlap \<Rightarrow>
                  if sz = 0 then whole
                  else serveError (Header_Set ''Content-Range'' (''bytes */'' @ FormatInt sz) h)
                         ''invalid range: failed to overlap'' StatusRequestedRangeNotSatisfiable
              | Ranges rs \<Rightarrow>
                  if sum_list (map snd rs) > sz then whole
                  else (case rs of
                          [] \<Rightarrow> whole
                        | [(start, len)] \<Rightarrow>
                            finish StatusPartialContent True
                              (Header_Set ''Content-Range'' (contentRange start len sz) h) (slice start len content)
                        | _ \<Rightarrow> (let (ctype, body) = multipart rs content
                               in finish StatusPartialContent True (Header_Set ''Content-Type'' ctype h) body))))"

section \<open>Lemmas\<close>

lemma digits_no_space: "list_all is_digit s \<Longrightarrow> trim_space s = s"
proof -
  assume d: "list_all is_digit s"
  have drop: "dropWhile (\<lambda>c. byte_val c \<in> {9, 10, 13, 32}) t = t" if "list_all is_digit t" for t
    using that by (cases t) (auto simp: is_digit_def)
  from d have "list_all is_digit (rev s)" by simp
  with drop [OF d] drop [OF this] show ?thesis by (simp add: trim_space_def Let_def)
qed

lemma FormatInt_digits: "0 \<le> i \<Longrightarrow> list_all is_digit (FormatInt i)"
  by (simp add: FormatInt_def nat_decimal_digits)

lemma FormatInt_nonempty [simp]: "FormatInt i \<noteq> ''''"
  by (simp add: FormatInt_def)

lemma Split_none: "sep \<notin> set s \<Longrightarrow> Split s sep = [s]"
  by (induction s) auto

lemma not_digits: "list_all is_digit s \<Longrightarrow> CHR ''-'' \<notin> set s" "list_all is_digit s \<Longrightarrow> CHR '','' \<notin> set s"
  by (auto simp: list_all_iff is_digit_def)

text \<open>The range text that the client writes.\<close>

definition range_text :: "int \<Rightarrow> int \<Rightarrow> string" where
  "range_text start finish = ''bytes='' @ FormatInt start @ ''-'' @ FormatInt finish"

lemma trim_bytes:
  assumes "s \<noteq> []" "\<not> byte_val (hd s) \<in> {9, 10, 13, 32}" "\<not> byte_val (last s) \<in> {9, 10, 13, 32}"
  shows "trim_space s = s"
proof -
  have "dropWhile (\<lambda>c. byte_val c \<in> {9, 10, 13, 32}) s = s" using assms(1,2) by (cases s) auto
  moreover have "dropWhile (\<lambda>c. byte_val c \<in> {9, 10, 13, 32}) (rev s) = rev s"
    using assms(1,3) by (cases s rule: rev_cases) auto
  ultimately show ?thesis by (simp add: trim_space_def Let_def)
qed

lemma hd_digits: "0 \<le> i \<Longrightarrow> is_digit (hd (FormatInt i)) \<and> is_digit (last (FormatInt i))"
  using FormatInt_digits [of i] by (simp add: list_all_iff hd_in_set last_in_set)

lemma trim_range:
  assumes "0 \<le> a" "0 \<le> b"
  shows "trim_space (FormatInt a @ ''-'' @ FormatInt b) = FormatInt a @ ''-'' @ FormatInt b"
  using hd_digits [OF assms(1)] hd_digits [OF assms(2)] by (intro trim_bytes) (auto simp: is_digit_def)

lemma parseRange_text:
  assumes "0 \<le> a" "a \<le> b" "b < sz" "sz < 2 ^ 63"
  shows "parseRange (range_text a b) sz = Ranges [(a, b - a + 1)]"
proof -
  have dig: "list_all is_digit (FormatInt a)" "list_all is_digit (FormatInt b)"
    using assms by (simp_all add: FormatInt_digits)
  have "ParseInt (FormatInt a) = Some a" "ParseInt (FormatInt b) = Some b"
    using assms by (simp_all add: ParseInt_FormatInt)
  moreover have "Cut (FormatInt a @ ''-'' @ FormatInt b) CHR ''-'' = Some (FormatInt a, FormatInt b)"
    using Cut_append [OF not_digits(1) [OF dig(1)], of "FormatInt b"] by simp
  ultimately have "parse_one_range sz (FormatInt a @ ''-'' @ FormatInt b) = Some (Some (a, b - a + 1))"
    using assms dig by (simp add: parse_one_range_def digits_no_space)
  moreover have "Split (FormatInt a @ ''-'' @ FormatInt b) CHR '','' = [FormatInt a @ ''-'' @ FormatInt b]"
    using not_digits(2) [OF dig(1)] not_digits(2) [OF dig(2)] by (intro Split_none) simp
  moreover have "CutPrefix (range_text a b) ''bytes='' = Some (FormatInt a @ ''-'' @ FormatInt b)"
    by (simp add: range_text_def CutPrefix_def HasPrefix_def)
  moreover have "range_text a b \<noteq> ''''" by (simp add: range_text_def)
  ultimately show ?thesis using trim_range [of a b] assms by (simp add: parseRange_def)
qed

end
