(* ===== verification/HttpServer.thy ===== *)
theory HttpServer
  imports Contract Policy ServeContent
begin

text \<open>
  \<open>http.go\<close> and \<open>http_authorizer.go\<close>, the server side: \<open>HttpHandler\<close> serves stores over HTTP. The
  handler runs on the state \<open>'s\<close> of the stores it serves; the stores, the authorizer and the
  presigners are fields of its record, as in the code. Every call it makes with the context of the
  request has an environment of its own, \<open>es i\<close> for the \<open>i\<close>-th.
\<close>

section \<open>The code\<close>

record 's httpHandler =
  hh_Stores :: "string \<Rightarrow> 's store"
  hh_ReadOnly :: bool
  hh_AllowedStores :: "string list"
  hh_Authorizer :: "(request \<Rightarrow> string \<Rightarrow> string \<Rightarrow> error option) option"
  hh_Redirect :: bool
  hh_RedirectTTL :: duration
  hh_Presigner :: "string \<Rightarrow> (env \<Rightarrow> string \<Rightarrow> duration \<Rightarrow> ('s, error + (string \<times> meta)) go) option"

definition DefaultRedirectTTL :: duration where "DefaultRedirectTTL = 15 * minute"

definition parsePath :: "string \<Rightarrow> (string \<times> string) option" where
  "parsePath path =
     (case SplitN (TrimPrefix path ''/'') CHR ''/'' 3 of
        seg # rest \<Rightarrow>
          if 1 < length rest \<or> seg = '''' then None
          else (case PathUnescape seg of
                  None \<Rightarrow> None
                | Some segment \<Rightarrow>
                    (case namespaceID segment of
                       Inl _ \<Rightarrow> None
                     | Inr storeID \<Rightarrow>
                         (case rest of
                            [] \<Rightarrow> Some (storeID, '''')
                          | d # _ \<Rightarrow> map_option (Pair storeID) (PathUnescape d))))
      | [] \<Rightarrow> None)"

text \<open>\<open>parseLabels\<close> writes into a map: a key that occurs again replaces the earlier one.\<close>

fun parseLabels :: "header \<Rightarrow> header \<Rightarrow> header" where
  "parseLabels vs [] = vs"
| "parseLabels vs ((key, values) # h) =
     parseLabels (case CutPrefix key ''Flob-'' of Some k \<Rightarrow> AList.update k values vs | None \<Rightarrow> vs) h"

definition quoted :: "string \<Rightarrow> string" where
  "quoted s = CHR 0x22 # s @ [CHR 0x22]"

definition setMetaHeaders :: "meta \<Rightarrow> header \<Rightarrow> header" where
  "setMetaHeaders m h =
     (let h = Header_Set ''ETag'' (quoted (Digest m)) h;
          h = Header_Set ''Content-Length'' (FormatInt (Size m)) h
      in case Labels m of None \<Rightarrow> h | Some ls \<Rightarrow> Header_Add_map '''' ls h)"

text \<open>The date format of HTTP is a parameter of the definitions that write one.\<close>

definition lastModified :: "(time \<Rightarrow> string) \<Rightarrow> env \<Rightarrow> ('s blobInfo \<times> 's, error + string) go" where
  "lastModified format e =
     bind (Info_Added e) (\<lambda>res. ret
       (case res of
          Inr added \<Rightarrow> Inr (format added)
        | Inl err \<Rightarrow> if errors_Is err ErrUnsupported then Inr '''' else Inl err))"

text \<open>\<open>authorize\<close> gives the response of a refusal, or \<open>None\<close> to go on.\<close>

definition action_of :: "string \<Rightarrow> string option" where
  "action_of m =
     (if m = MethodGet \<or> m = MethodHead then Some ActionRead
      else if m = MethodPost then Some ActionAdd
      else if m = MethodPatch then Some ActionLabel
      else if m = MethodDelete then Some ActionErase
      else None)"

definition authorize :: "'s httpHandler \<Rightarrow> request \<Rightarrow> string \<Rightarrow> response option" where
  "authorize h r store =
     (case hh_Authorizer h of
        None \<Rightarrow> None
      | Some authorizer \<Rightarrow>
          (case action_of (rq_method r) of
             None \<Rightarrow> Some (http_Error [] ''method not allowed'' StatusMethodNotAllowed)
           | Some action \<Rightarrow>
               (case authorizer r store action of
                  None \<Rightarrow> None
                | Some err \<Rightarrow> Some
                    (if errors_Is err ErrUnauthenticated then
                       http_Error (Header_Set ''WWW-Authenticate'' (''Bearer realm='' @ quoted ''flob'') [])
                         ''unauthorized'' StatusUnauthorized
                     else if errors_Is err ErrForbidden then http_Error [] ''forbidden'' StatusForbidden
                     else http_Error [] ''authentication unavailable'' StatusServiceUnavailable))))"

definition no_body :: "nat \<Rightarrow> header \<Rightarrow> response" where
  "no_body status h = \<lparr>rs_status = status, rs_header = h, rs_body = []\<rparr>"

definition store_error :: "error \<Rightarrow> response" where
  "store_error err =
     http_Error [] (error_text err) (if errors_Is err ErrNotExist then StatusNotFound else StatusInternalServerError)"

definition post_meta :: "string \<Rightarrow> request \<Rightarrow> meta" where
  "post_meta d r = \<lparr>Digest = d, Labels = Some (parseLabels [] (rq_header r)), Size = 0\<rparr>"

definition servePost ::
  "'s httpHandler \<Rightarrow> (nat \<Rightarrow> env) \<Rightarrow> string \<Rightarrow> string \<Rightarrow> request \<Rightarrow> ('s, response) go" where
  "servePost h es ns d r =
     bind (Add (hh_Stores h ns) (es 0) (post_meta d r) (rq_body r))
       (\<lambda>(m, err). ret
         (case err of
            Some err \<Rightarrow>
              if errors_Is err ErrNotExist then http_Error [] (error_text err) StatusNotFound
              else if errors_Is err ErrAlreadyExists then
                no_body StatusOK (Header_Del ''Content-Length'' (setMetaHeaders m []))
              else if errors_Is err ErrDigestMismatch then http_Error [] (error_text err) StatusUnprocessableEntity
              else http_Error [] (error_text err) StatusInternalServerError
          | None \<Rightarrow>
              no_body StatusCreated (Header_Del ''Content-Length''
                (Header_Set ''Location'' (''/'' @ namespaceSegment ns @ ''/'' @ Digest m) (setMetaHeaders m [])))))"

text \<open>
  The metadata headers that \<open>HEAD\<close> and \<open>GET\<close> send, or the response to an error; both look at the
  \<open>Info\<close> twice.
\<close>

definition info_headers ::
  "(time \<Rightarrow> string) \<Rightarrow> env \<Rightarrow> env \<Rightarrow> 's blobInfo \<Rightarrow> ('s, response + header) go" where
  "info_headers format e1 e2 info =
     with_info info
       (chk (infoMeta e1) (\<lambda>err. Inl (http_Error [] (error_text err) StatusInternalServerError)) (\<lambda>m.
        chk (lastModified format e2) (\<lambda>err. Inl (http_Error [] (error_text err) StatusInternalServerError)) (\<lambda>modified.
          ret (Inr (let h = setMetaHeaders m []
                    in if modified \<noteq> '''' then Header_Set ''Last-Modified'' modified h else h)))))"

definition serveHead ::
  "(time \<Rightarrow> string) \<Rightarrow> 's httpHandler \<Rightarrow> (nat \<Rightarrow> env) \<Rightarrow> string \<Rightarrow> string \<Rightarrow> ('s, response) go" where
  "serveHead format h es ns d =
     chk (Stat (hh_Stores h ns) (es 0) d) store_error (\<lambda>info.
     bind (info_headers format (es 1) (es 2) info) (\<lambda>res. ret
       (case res of Inl resp \<Rightarrow> resp | Inr hs \<Rightarrow> no_body StatusOK hs)))"

text \<open>\<open>http.Redirect\<close> to an absolute ASCII URL, which the code is given by the presigner.\<close>

definition htmlEscape :: "string \<Rightarrow> string" where
  "htmlEscape s = concat (map (\<lambda>c. if c = CHR ''&'' then ''&amp;'' else if c = CHR ''<'' then ''&lt;''
     else if c = CHR ''>'' then ''&gt;'' else if c = CHR 0x22 then ''&#34;'' else if c = CHR 0x27 then ''&#39;'' else [c]) s)"

definition http_Redirect :: "header \<Rightarrow> string \<Rightarrow> response" where
  "http_Redirect h loc =
     \<lparr>rs_status = StatusTemporaryRedirect,
      rs_header = (let h1 = Header_Set ''Location'' loc h
                   in if Header_Values h ''Content-Type'' = [] then Header_Set ''Content-Type'' ''text/html; charset=utf-8'' h1 else h1),
      rs_body = ''<a href='' @ quoted (htmlEscape loc) @ ''>Temporary Redirect</a>.'' @ [CHR 0x0A, CHR 0x0A]\<rparr>"

definition serveOpen ::
  "(time \<Rightarrow> string) \<Rightarrow> ((int \<times> int) list \<Rightarrow> bytes \<Rightarrow> string \<times> bytes) \<Rightarrow> 's httpHandler \<Rightarrow> (nat \<Rightarrow> env)
   \<Rightarrow> string \<Rightarrow> string \<Rightarrow> request \<Rightarrow> ('s, response) go" where
  "serveOpen format multipart h es ns d r =
     chk (Open (hh_Stores h ns) (es 0) d) store_error (\<lambda>(content, info).
     bind (info_headers format (es 1) (es 2) info) (\<lambda>res. ret
       (case res of
          Inl resp \<Rightarrow> resp
        | Inr hs \<Rightarrow> ServeContent multipart r (Header_Set ''Content-Type'' ''application/octet-stream'' hs) content)))"

definition serveGet ::
  "(time \<Rightarrow> string) \<Rightarrow> ((int \<times> int) list \<Rightarrow> bytes \<Rightarrow> string \<times> bytes) \<Rightarrow> 's httpHandler \<Rightarrow> (nat \<Rightarrow> env)
   \<Rightarrow> string \<Rightarrow> string \<Rightarrow> request \<Rightarrow> ('s, response) go" where
  "serveGet format multipart h es ns d r =
     (case (if hh_Redirect h then hh_Presigner h ns else None) of
        Some presign \<Rightarrow>
          bind (presign (es 3) d (if hh_RedirectTTL h \<le> 0 then DefaultRedirectTTL else hh_RedirectTTL h)) (\<lambda>res.
            case res of
              Inr (loc, m) \<Rightarrow>
                ret (http_Redirect (Header_Set ''Cache-Control'' ''no-store''
                      (Header_Del ''Content-Length'' (setMetaHeaders m []))) loc)
            | Inl _ \<Rightarrow> serveOpen format multipart h es ns d r)
      | None \<Rightarrow> serveOpen format multipart h es ns d r)"

definition servePatch ::
  "'s httpHandler \<Rightarrow> (nat \<Rightarrow> env) \<Rightarrow> string \<Rightarrow> string \<Rightarrow> request \<Rightarrow> ('s, response) go" where
  "servePatch h es ns d r =
     bind (Label (hh_Stores h ns) (es 0) d (Some (parseLabels [] (rq_header r)))) (\<lambda>res. ret
       (case res of Some err \<Rightarrow> store_error err | None \<Rightarrow> no_body StatusNoContent []))"

definition serveDelete :: "'s httpHandler \<Rightarrow> (nat \<Rightarrow> env) \<Rightarrow> string \<Rightarrow> string \<Rightarrow> ('s, response) go" where
  "serveDelete h es ns d =
     bind (Erase (hh_Stores h ns) (es 0) d) (\<lambda>res. ret
       (case res of
          Some err \<Rightarrow> http_Error [] (error_text err) StatusInternalServerError
        | None \<Rightarrow> no_body StatusNoContent []))"

text \<open>What \<open>ServeHTTP\<close> decides before it uses a store: a response, or the store and the digest.\<close>

definition serve_guard :: "'h digest_lib \<Rightarrow> 's httpHandler \<Rightarrow> request \<Rightarrow> response + (string \<times> string)" where
  "serve_guard L h r =
     (if hh_ReadOnly h \<and> rq_method r \<noteq> MethodGet \<and> rq_method r \<noteq> MethodHead then
        Inl (http_Error (Header_Set ''Allow'' ''GET, HEAD'' []) ''method not allowed'' StatusMethodNotAllowed)
      else (case parsePath (rq_path r) of
              None \<Rightarrow> Inl (http_Error [] ''bad request'' StatusBadRequest)
            | Some (ns, raw) \<Rightarrow>
                if hh_AllowedStores h \<noteq> [] \<and> ns \<notin> set (hh_AllowedStores h) then Inl (http_NotFound [])
                else
                  (case (if raw \<noteq> '''' then
                           (case Sanitize L raw of
                              Inl err \<Rightarrow> Inl (http_Error [] (''invalid digest: '' @ error_text err) StatusBadRequest)
                            | Inr d \<Rightarrow> Inr d)
                         else if rq_method r \<noteq> MethodPost then
                           Inl (http_Error [] ''method not allowed'' StatusMethodNotAllowed)
                         else Inr '''') of
                     Inl resp \<Rightarrow> Inl resp
                   | Inr d \<Rightarrow> (case authorize h r ns of Some resp \<Rightarrow> Inl resp | None \<Rightarrow> Inr (ns, d)))))"

definition ServeHTTP ::
  "'h digest_lib \<Rightarrow> (time \<Rightarrow> string) \<Rightarrow> ((int \<times> int) list \<Rightarrow> bytes \<Rightarrow> string \<times> bytes) \<Rightarrow> 's httpHandler
   \<Rightarrow> (nat \<Rightarrow> env) \<Rightarrow> request \<Rightarrow> ('s, response) go" where
  "ServeHTTP L format multipart h es r =
     (case serve_guard L h r of
        Inl resp \<Rightarrow> ret resp
      | Inr (ns, d) \<Rightarrow>
          if rq_method r = MethodPost then servePost h es ns d r
          else if rq_method r = MethodHead then serveHead format h es ns d
          else if rq_method r = MethodGet then serveGet format multipart h es ns d r
          else if rq_method r = MethodPatch then servePatch h es ns d r
          else if rq_method r = MethodDelete then serveDelete h es ns d
          else ret (http_Error [] ''method not allowed'' StatusMethodNotAllowed))"

section \<open>Paths\<close>

lemma valid_digest_chars:
  assumes "digest_lib_ok L" "dl_Validate L d = None" "c \<in> set d"
  shows "c \<noteq> CHR ''/'' \<and> c \<noteq> CHR ''%'' \<and> 33 \<le> byte_val c \<and> byte_val c \<noteq> 34 \<and> byte_val c < 127"
proof -
  note p = Validate_parts [OF assms(1,2)]
  have "c \<in> set (dl_Algorithm L d) \<or> c = CHR '':'' \<or> c \<in> set (dl_Encoded L d)"
    using assms(3) p(2) by (metis UnE append_Cons append_Nil insert_iff list.set(2) set_append)
  then show ?thesis
    using p(1,3) by (auto simp: algorithms_def algo_defs list_all_iff is_hex_def is_digit_def)
qed

lemma segment_no_escape: "CHR ''%'' \<notin> set (namespaceSegment ns)" "CHR ''/'' \<notin> set (namespaceSegment ns)"
  using namespaceSegment_chars [of _ ns]
  by (fastforce simp: plain_char_def is_lower_def is_upper_def is_digit_def)+

lemma TrimPrefix_slash [simp]: "TrimPrefix (CHR ''/'' # s) ''/'' = s"
  by (simp add: TrimPrefix_def HasPrefix_def)

lemma parsePath_store: "parsePath (''/'' @ namespaceSegment ns) = Some (ns, '''')"
  using segment_no_escape [of ns] namespaceSegment_last [of ns]
  by (simp add: parsePath_def numeral_3_eq_3 Cut_None PathUnescape_plain)

lemma parsePath_blob:
  assumes "digest_lib_ok L" "dl_Validate L d = None"
  shows "parsePath (''/'' @ namespaceSegment ns @ ''/'' @ d) = Some (ns, d)"
proof -
  have "CHR ''%'' \<notin> set d" "CHR ''/'' \<notin> set d" using valid_digest_chars [OF assms] by blast+
  then show ?thesis
    using segment_no_escape [of ns] namespaceSegment_last [of ns]
    by (simp add: parsePath_def numeral_3_eq_3 Cut_None PathUnescape_plain)
qed

section \<open>A handler in front of a store that keeps the contract\<close>

text \<open>The headers that describe a blob.\<close>

definition blob_headers :: "(time \<Rightarrow> string) \<Rightarrow> string \<Rightarrow> bytes \<times> labels \<Rightarrow> time \<Rightarrow> header" where
  "blob_headers format d x t =
     (let h = setMetaHeaders \<lparr>Digest = d, Labels = snd x, Size = int (length (fst x))\<rparr> []
      in if t \<noteq> 0 \<and> format t \<noteq> '''' then Header_Set ''Last-Modified'' (format t) h else h)"

lemma info_headers_tells:
  assumes "tells i s d x" "live e1" "live e2"
  shows "\<exists>t. info_headers format e1 e2 i s = Some (Inr (blob_headers format d x t), s)"
proof -
  let ?m = "\<lparr>Digest = d, Labels = snd x, Size = int (length (fst x))\<rparr>"
  obtain t where "with_info i (bind (infoMeta e1) (\<lambda>m. bind (Info_Added e2) (\<lambda>a. ret (m, a)))) s = Some ((Inr ?m, added_result t), s)"
    using assms by (auto simp: tells_def)
  then obtain p p' where p: "infoMeta e1 (i, s) = Some (Inr ?m, p)" "Info_Added e2 p = Some (added_result t, p')" "snd p' = s"
    by (auto simp: go_run split: option.splits)
  then have "info_headers format e1 e2 i s = Some (Inr (blob_headers format d x t), s)"
    by (cases p'; cases "t = 0")
       (auto simp: info_headers_def lastModified_def blob_headers_def added_result_def go_run Let_def)
  then show ?thesis by blast
qed

context blob_store
begin

lemma serve_head:
  assumes "inv s" "\<forall>k. live (es k)" "hh_Stores h ns = st"
  shows "case view s d of
      None \<Rightarrow> serveHead format h es ns d s = Some (store_error ErrNotExist, s)
    | Some x \<Rightarrow> \<exists>t. serveHead format h es ns d s = Some (no_body StatusOK (blob_headers format d x t), s)"
proof (cases "view s d")
  case None
  then show ?thesis using stat [OF assms(1), of "es 0" d] assms(2,3) by (simp add: serveHead_def go_run)
next
  case (Some x)
  then obtain i where i: "Stat st (es 0) d s = Some (Inr i, s)" "tells i s d x"
    using stat [OF assms(1), of "es 0" d] assms(2) by auto
  obtain t where "info_headers format (es 1) (es 2) i s = Some (Inr (blob_headers format d x t), s)"
    using info_headers_tells [OF i(2)] assms(2) by blast
  then show ?thesis using i(1) Some assms(3) by (auto simp: serveHead_def go_run)
qed

lemma serve_open:
  assumes "inv s" "\<forall>k. live (es k)" "hh_Stores h ns = st"
  shows "case view s d of
      None \<Rightarrow> serveOpen format multipart h es ns d r s = Some (store_error ErrNotExist, s)
    | Some x \<Rightarrow> \<exists>t. serveOpen format multipart h es ns d r s = Some (ServeContent multipart r
        (Header_Set ''Content-Type'' ''application/octet-stream'' (blob_headers format d x t)) (fst x), s)"
proof (cases "view s d")
  case None
  then show ?thesis using opens [OF assms(1), of "es 0" d] assms(2,3) by (simp add: serveOpen_def go_run)
next
  case (Some x)
  then obtain i where i: "Open st (es 0) d s = Some (Inr (fst x, i), s)" "tells i s d x"
    using opens [OF assms(1), of "es 0" d] assms(2) by auto
  obtain t where "info_headers format (es 1) (es 2) i s = Some (Inr (blob_headers format d x t), s)"
    using info_headers_tells [OF i(2)] assms(2) by blast
  then show ?thesis using i(1) Some assms(3) by (auto simp: serveOpen_def go_run)
qed

text \<open>\<open>POST\<close> answers the outcome of \<open>Add\<close> by its status and the digest in its entity tag.\<close>

lemma serve_post:
  assumes "inv s" "takes (rq_body r)" "\<forall>k. live (es k)" "hh_Stores h ns = st"
  shows "\<exists>resp s'. servePost h es ns d r s = Some (resp, s') \<and> inv s'
    \<and> view s' = after_add (add_outcome L (view s) (post_meta d r) (rq_body r)) (post_meta d r) (rq_body r) (view s)
    \<and> (case add_outcome L (view s) (post_meta d r) (rq_body r) of
         Added d' \<Rightarrow> \<exists>m'. Digest m' = d' \<and> resp = no_body StatusCreated (Header_Del ''Content-Length''
            (Header_Set ''Location'' (''/'' @ namespaceSegment ns @ ''/'' @ d') (setMetaHeaders m' [])))
       | Duplicate d' \<Rightarrow> \<exists>m'. Digest m' = d' \<and> resp = no_body StatusOK (Header_Del ''Content-Length'' (setMetaHeaders m' []))
       | Mismatch \<Rightarrow> rs_status resp = StatusUnprocessableEntity
       | Failed \<Rightarrow> rs_status resp \<noteq> StatusCreated)"
proof -
  obtain m' err s' where "Add st (es 0) (post_meta d r) (rq_body r) s = Some ((m', err), s')" "inv s'"
      "gives (add_outcome L (view s) (post_meta d r) (rq_body r)) (m', err)"
      "view s' = after_add (add_outcome L (view s) (post_meta d r) (rq_body r)) (post_meta d r) (rq_body r) (view s)"
    using add [OF assms(1,2), of "es 0" "post_meta d r"] assms(3) by (metis surj_pair)
  then show ?thesis
    using assms(4)
    by (cases "add_outcome L (view s) (post_meta d r) (rq_body r)")
       (auto simp: servePost_def go_run http_Error_def no_body_def status_defs split: option.splits)
qed

lemma serve_patch:
  assumes "inv s" "\<forall>k. live (es k)" "hh_Stores h ns = st"
  shows "\<exists>s'. servePatch h es ns d r s =
      Some (if view s d = None then store_error ErrNotExist else no_body StatusNoContent [], s') \<and> inv s'
    \<and> view s' = (case view s d of None \<Rightarrow> view s
        | Some x \<Rightarrow> (view s)(d \<mapsto> (fst x, Some (parseLabels [] (rq_header r)))))"
  using label [OF assms(1), of "es 0" d "Some (parseLabels [] (rq_header r))"] assms(2,3)
  by (auto simp: servePatch_def go_run split: if_splits)

lemma serve_delete:
  assumes "inv s" "\<forall>k. live (es k)" "hh_Stores h ns = st"
  shows "\<exists>s'. serveDelete h es ns d s = Some (no_body StatusNoContent [], s') \<and> inv s' \<and> view s' = (view s)(d := None)"
  using erase [OF assms(1), of "es 0" d] assms(2,3) by (auto simp: serveDelete_def go_run)

end

section \<open>Properties\<close>

text \<open>What the configuration of a handler permits.\<close>

definition permitted :: "'s httpHandler \<Rightarrow> request \<Rightarrow> bool" where
  "permitted h r \<longleftrightarrow>
     (hh_ReadOnly h \<longrightarrow> rq_method r = MethodGet \<or> rq_method r = MethodHead)
     \<and> (\<exists>ns raw. parsePath (rq_path r) = Some (ns, raw)
          \<and> (hh_AllowedStores h \<noteq> [] \<longrightarrow> ns \<in> set (hh_AllowedStores h))
          \<and> (\<forall>a. hh_Authorizer h = Some a \<longrightarrow>
               (\<exists>action. action_of (rq_method r) = Some action \<and> a r ns action = None)))"

lemma guard_permitted: "serve_guard L h r = Inr (ns, d) \<Longrightarrow> permitted h r"
  by (auto simp: serve_guard_def permitted_def authorize_def split: if_splits option.splits sum.splits prod.splits)

lemma guard_error: "serve_guard L h r = Inl resp \<Longrightarrow> 400 \<le> rs_status resp"
  by (auto simp: serve_guard_def authorize_def http_Error_def http_NotFound_def status_defs
      split: if_splits option.splits sum.splits prod.splits)

lemma guard_stores: "serve_guard L (h\<lparr>hh_Stores := stores, hh_Presigner := presigner\<rparr>) r = serve_guard L h r"
proof -
  have "authorize (h\<lparr>hh_Stores := stores, hh_Presigner := presigner\<rparr>) r = authorize h r"
    by (rule ext) (simp add: authorize_def)
  then show ?thesis unfolding serve_guard_def by (simp split: option.split sum.split)
qed

text \<open>
  C28. Without permission no store is reached: a request to a read-only handler that would write, to a
  namespace that is not allowed, or that the authorizer refuses is answered with an error that does not
  depend on the stores, and leaves them as they were.
\<close>

theorem serve_permitted_only:
  assumes "\<not> permitted h r"
  shows "\<exists>resp. 400 \<le> rs_status resp \<and>
    (\<forall>stores presigner es s. ServeHTTP L format multipart (h\<lparr>hh_Stores := stores, hh_Presigner := presigner\<rparr>) es r s = Some (resp, s))"
proof -
  obtain resp where "serve_guard L h r = Inl resp"
    using guard_permitted assms by (metis surj_pair sum.exhaust_sel)
  then show ?thesis using guard_error [of L h r resp] by (auto simp: ServeHTTP_def guard_stores ret_def)
qed

definition example_handler :: "nat httpHandler" where
  "example_handler = \<lparr>hh_Stores = undefined, hh_ReadOnly = False, hh_AllowedStores = [],
     hh_Authorizer = Some (\<lambda>_ _ _. Some ErrForbidden), hh_Redirect = False, hh_RedirectTTL = 0, hh_Presigner = (\<lambda>_. None)\<rparr>"

definition example_request :: request where
  "example_request = \<lparr>rq_method = ''DELETE'', rq_path = ''/a'', rq_header = [], rq_body = []\<rparr>"

theorem serve_permitted_only_witness:
  "\<exists>resp. 400 \<le> rs_status resp \<and> (\<forall>st. ServeHTTP example_lib (\<lambda>_. []) (\<lambda>_ _. ([], []))
      (example_handler\<lparr>hh_Stores := st, hh_Presigner := (\<lambda>_. None)\<rparr>) (\<lambda>_. background 1) example_request 7 = Some (resp, 7))"
proof -
  have "\<not> permitted example_handler example_request" by (auto simp: permitted_def example_handler_def)
  from serve_permitted_only [OF this, of example_lib "\<lambda>_. []" "\<lambda>_ _. ([], [])"] show ?thesis by blast
qed

end
