(* ===== verification/RangeReader.thy ===== *)
theory RangeReader
  imports HttpTypes Fill
begin

text \<open>
  The reader of \<open>http.go\<close> that streams a blob through ranged GET requests, which the HTTP and the S3
  backend share. What a request answers is the parameter \<open>fetch\<close>, an operation on the world \<open>'w\<close>.
  \<open>Close\<close> may run beside \<open>Read\<close> at any moment: \<open>cl n\<close> says whether it has run by the \<open>n\<close>-th time that
  \<open>Read\<close> looks, and the context answers \<open>ctx_Err e n\<close> there.
\<close>

section \<open>The code\<close>

record cresp =
  cp_status :: nat
  cp_header :: header
  cp_body :: reader
  cp_length :: int
  cp_uncompressed :: bool
  cp_url :: string

text \<open>One \<open>Read\<close> of a body into a buffer of \<open>n\<close> bytes.\<close>

fun body_Read :: "nat \<Rightarrow> reader \<Rightarrow> (bytes \<times> error option) \<times> reader" where
  "body_Read n [] = (([], Some EOF), [])"
| "body_Read n ((b, err) # rs) =
     (if n < length b then ((take n b, None), (drop n b, err) # rs)
      else ((b, err), if err = None then rs else []))"

text \<open>\<open>io.ReadFull\<close> of one byte: how many bytes it got, and its error.\<close>

fun read_one :: "reader \<Rightarrow> nat \<times> error option" where
  "read_one [] = (0, Some EOF)"
| "read_one ((b, err) # rs) =
     (if b \<noteq> [] then (1, None) else case err of Some x \<Rightarrow> (0, Some x) | None \<Rightarrow> read_one rs)"

definition strongETag :: "string \<Rightarrow> string" where
  "strongETag etag =
     (if length etag < 2 \<or> byte_val (hd etag) \<noteq> 34 \<or> byte_val (last etag) \<noteq> 34 then ''''
      else if list_ex (\<lambda>c. byte_val c < 33 \<or> byte_val c = 34 \<or> byte_val c = 127) (butlast (tl etag)) then ''''
      else etag)"

definition identityResponse :: "cresp \<Rightarrow> bool" where
  "identityResponse resp \<longleftrightarrow>
     (let encoding = Header_Get (cp_header resp) ''Content-Encoding''
      in \<not> cp_uncompressed resp \<and> (encoding = '''' \<or> EqualFold encoding ''identity''))"

definition parse_bound :: "string \<Rightarrow> int option" where
  "parse_bound v = (if v = '''' \<or> \<not> list_all is_digit v then None else ParseInt v)"

definition parseContentRange :: "string \<Rightarrow> (int \<times> int \<times> int) option" where
  "parseContentRange value =
     (case Cut (TrimPrefix value ''bytes '') CHR ''/'' of
        None \<Rightarrow> None
      | Some (bounds, sz) \<Rightarrow>
          if \<not> HasPrefix value ''bytes '' then None
          else (case Cut bounds CHR ''-'' of
                  None \<Rightarrow> None
                | Some (fst', lst) \<Rightarrow>
                    (case (parse_bound fst', parse_bound lst, parse_bound sz) of
                       (Some start, Some end', Some total') \<Rightarrow>
                         if start \<le> end' \<and> end' < total' then Some (start, end', total') else None
                     | _ \<Rightarrow> None)))"

record rangeReader =
  rr_size :: int
  rr_responseEnd :: int
  rr_offset :: int
  rr_etag :: string
  rr_headURL :: string
  rr_getURL :: string
  rr_representationURL :: string
  rr_fetched :: bool
  rr_conditionalFirst :: bool
  rr_body :: "reader option"
  rr_closed :: bool
  rr_readErr :: "error option"

definition newHTTPRangeReader :: "int \<Rightarrow> string \<Rightarrow> string \<Rightarrow> string \<Rightarrow> bool \<Rightarrow> rangeReader" where
  "newHTTPRangeReader sz getURL headURL etag conditionalFirst =
     \<lparr>rr_size = sz, rr_responseEnd = 0, rr_offset = 0, rr_etag = strongETag etag, rr_headURL = headURL,
      rr_getURL = getURL, rr_representationURL = '''', rr_fetched = False,
      rr_conditionalFirst = conditionalFirst, rr_body = None, rr_closed = False, rr_readErr = None\<rparr>"

definition stateError :: "env \<Rightarrow> (nat \<Rightarrow> bool) \<Rightarrow> nat \<Rightarrow> error option" where
  "stateError e cl n = (if cl n then Some OsErrClosed else ctx_Err e n)"

definition closeBody :: "rangeReader \<Rightarrow> rangeReader" where
  "closeBody r = r\<lparr>rr_body := None\<rparr>"

text \<open>The checks of \<open>openResponse\<close> on the range of a response: the last byte it covers.\<close>

definition response_range :: "rangeReader \<Rightarrow> cresp \<Rightarrow> error + int" where
  "response_range r resp =
     (if cp_status resp = StatusPartialContent then
        (case parseContentRange (Header_Get (cp_header resp) ''Content-Range'') of
           None \<Rightarrow> Inl (ErrorString ''invalid Content-Range'')
         | Some (start, lst, total') \<Rightarrow>
             if start \<noteq> rr_offset r \<or> lst \<ge> rr_size r \<or> total' \<noteq> rr_size r
             then Inl (ErrorString ''invalid Content-Range'') else Inr lst)
      else if cp_status resp = StatusOK then
        (if rr_offset r \<noteq> 0 then Inl (ErrorString ''server ignored a nonzero blob range'')
         else if Header_Get (cp_header resp) ''Content-Range'' \<noteq> ''''
         then Inl (ErrorString ''unexpected Content-Range on full blob response'')
         else Inr (rr_size r - 1))
      else Inl (ErrorString ''unexpected ranged GET status''))"

text \<open>The checks that it is the representation being read.\<close>

definition same_representation :: "rangeReader \<Rightarrow> cresp \<Rightarrow> error option" where
  "same_representation r resp =
     (let etag = strongETag (Header_Get (cp_header resp) ''ETag'')
      in if rr_fetched r \<and> cp_url resp \<noteq> rr_representationURL r then
           Some (ErrorString ''blob response redirected to a different resource during read'')
         else if \<not> rr_fetched r \<and> rr_conditionalFirst r \<and> cp_url resp \<noteq> rr_headURL r then
           Some (ErrorString ''blob GET resource differs from its HEAD response'')
         else if (rr_fetched r \<or> rr_conditionalFirst r \<or> (rr_headURL r \<noteq> '''' \<and> cp_url resp = rr_headURL r))
              \<and> rr_etag r \<noteq> '''' \<and> etag \<noteq> rr_etag r then
           Some (ErrorString ''blob representation changed during read'')
         else None)"

definition accept_response ::
  "env \<Rightarrow> (nat \<Rightarrow> bool) \<Rightarrow> cresp \<Rightarrow> rangeReader \<Rightarrow> error option \<times> rangeReader" where
  "accept_response e cl resp r =
     (if cp_status resp = StatusNotFound then (Some ErrNotExist, r)
      else if \<not> identityResponse resp then (Some (ErrorString ''encoded blob response cannot be ranged''), r)
      else (case response_range r resp of
              Inl err \<Rightarrow> (Some err, r)
            | Inr end' \<Rightarrow>
                if cp_length resp \<ge> 0 \<and> cp_length resp \<noteq> end' - rr_offset r + 1
                then (Some (ErrorString ''ranged GET length''), r)
                else (case same_representation r resp of
                        Some err \<Rightarrow> (Some err, r)
                      | None \<Rightarrow>
                          (let r1 = (if \<not> rr_fetched r
                                     then r\<lparr>rr_etag := strongETag (Header_Get (cp_header resp) ''ETag''),
                                            rr_representationURL := cp_url resp, rr_fetched := True\<rparr>
                                     else r)
                           in case stateError e cl 1 of
                                Some err \<Rightarrow> (Some err, r1)
                              | None \<Rightarrow> (None, r1\<lparr>rr_body := Some (cp_body resp), rr_responseEnd := end'\<rparr>)))))"

definition openResponse ::
  "(string \<Rightarrow> int \<Rightarrow> string \<Rightarrow> ('w, error + cresp) go) \<Rightarrow> env \<Rightarrow> (nat \<Rightarrow> bool) \<Rightarrow> rangeReader
   \<Rightarrow> ('w, error option \<times> rangeReader) go" where
  "openResponse fetch e cl r =
     (if rr_fetched r \<and> rr_etag r = '''' then
        ret (Some (ErrorString ''cannot reopen blob without a strong ETag''), r)
      else
        bind (fetch (if rr_fetched r then rr_representationURL r else rr_getURL r) (rr_offset r)
                    (if rr_fetched r \<or> rr_conditionalFirst r then rr_etag r else '''')) (\<lambda>res. ret
          (case res of
             Inl err \<Rightarrow> (Some err, r)
           | Inr resp \<Rightarrow> accept_response e cl resp r)))"

text \<open>
  \<open>Read\<close> from the body on: \<open>n\<close> is the length of the buffer. The looks are numbered as in the code:
  0 at the start, 1 in \<open>openResponse\<close>, 2 for the body it left, 3 and 4 after the read.
\<close>

definition read_body :: "env \<Rightarrow> (nat \<Rightarrow> bool) \<Rightarrow> nat \<Rightarrow> reader \<Rightarrow> rangeReader \<Rightarrow> (bytes \<times> error option) \<times> rangeReader" where
  "read_body e cl n body r =
     (let ((b, err), body') = body_Read (min n (nat (rr_responseEnd r - rr_offset r + 1))) body;
          r1 = r\<lparr>rr_offset := rr_offset r + int (length b), rr_body := Some body'\<rparr>;
          err1 = (case stateError e cl 3 of Some x \<Rightarrow> Some x | None \<Rightarrow> err);
          err2 = (if err1 = Some EOF \<and> rr_offset r1 \<le> rr_responseEnd r1 then Some ErrUnexpectedEOF else err1);
          (err3, r2) =
            (if rr_offset r1 = rr_responseEnd r1 + 1 \<and> (err2 = None \<or> err2 = Some EOF) then
               (let err' = (if err2 = None then
                              (case read_one body' of
                                 (count, tailErr) \<Rightarrow>
                                   if count \<noteq> 0 then Some (ErrorString ''ranged GET exceeded advertised blob size'')
                                   else if tailErr \<noteq> Some EOF then tailErr else None)
                            else err2)
                in (if err' = Some EOF then None else err', closeBody r1))
             else (err2, r1));
          err4 = (case stateError e cl 4 of Some x \<Rightarrow> Some x | None \<Rightarrow> err3);
          r3 = (case err4 of Some x \<Rightarrow> closeBody (r2\<lparr>rr_readErr := Some x\<rparr>) | None \<Rightarrow> r2)
      in ((b, err4), r3))"

definition rangeReader_Read ::
  "(string \<Rightarrow> int \<Rightarrow> string \<Rightarrow> ('w, error + cresp) go) \<Rightarrow> env \<Rightarrow> (nat \<Rightarrow> bool) \<Rightarrow> nat \<Rightarrow> rangeReader
   \<Rightarrow> ('w, (bytes \<times> error option) \<times> rangeReader) go" where
  "rangeReader_Read fetch e cl n r =
     (case stateError e cl 0 of
        Some err \<Rightarrow> ret (([], Some err), r)
      | None \<Rightarrow>
          if n = 0 then ret (([], None), r)
          else if rr_readErr r \<noteq> None then ret (([], rr_readErr r), r)
          else if rr_offset r \<ge> rr_size r then ret (([], Some EOF), r)
          else (case rr_body r of
                  Some body \<Rightarrow> ret (read_body e cl n body r)
                | None \<Rightarrow>
                    bind (openResponse fetch e cl r) (\<lambda>(err, r1). ret
                      (case err of
                         Some x \<Rightarrow> (([], Some x), r1)
                       | None \<Rightarrow>
                           if cl 2 then (([], Some OsErrClosed), r1)
                           else (case rr_body r1 of
                                   None \<Rightarrow> (([], Some OsErrClosed), r1)
                                 | Some body \<Rightarrow> read_body e cl n body r1)))))"

text \<open>A \<open>Close\<close> that ran beside \<open>Read\<close> has taken the body away and left its mark.\<close>

definition rangeReader_Close :: "rangeReader \<Rightarrow> rangeReader" where
  "rangeReader_Close r = (if rr_closed r then r else r\<lparr>rr_closed := True, rr_body := None\<rparr>)"

definition rangeReader_Seek :: "env \<Rightarrow> int \<Rightarrow> whence \<Rightarrow> rangeReader \<Rightarrow> (error + int) \<times> rangeReader" where
  "rangeReader_Seek e off wh r =
     (case stateError e (\<lambda>_. rr_closed r) 0 of
        Some err \<Rightarrow> (Inl err, r)
      | None \<Rightarrow>
          (case (case wh of SeekStart \<Rightarrow> Some 0 | SeekCurrent \<Rightarrow> Some (rr_offset r)
                   | SeekEnd \<Rightarrow> Some (rr_size r) | SeekOther \<Rightarrow> None) of
             None \<Rightarrow> (Inl (ErrorString ''invalid seek whence''), r)
           | Some base \<Rightarrow>
               if off < - base \<or> off > 2 ^ 63 - 1 - base then (Inl (ErrorString ''invalid seek offset''), r)
               else (let next' = base + off
                     in (Inr next', if next' \<noteq> rr_offset r
                                    then (closeBody r)\<lparr>rr_offset := next', rr_readErr := None\<rparr> else r))))"

section \<open>One representation\<close>

text \<open>
  What the code relies on: a response with a strong entity tag is of the representation \<open>rep\<close> of that
  tag, and its body is what its status and its \<open>Content-Range\<close> say of the representation, or a part
  from the start of it when the connection breaks.
\<close>

definition of_representation :: "(string \<Rightarrow> bytes) \<Rightarrow> cresp \<Rightarrow> bytes \<Rightarrow> bool" where
  "of_representation rep resp c \<longleftrightarrow>
     (let tag = strongETag (Header_Get (cp_header resp) ''ETag'')
      in (tag \<noteq> '''' \<longrightarrow> c = rep tag)
         \<and> (cp_status resp = StatusPartialContent \<longrightarrow>
              (\<forall>a l t. parseContentRange (Header_Get (cp_header resp) ''Content-Range'') = Some (a, l, t) \<longrightarrow>
                 (\<exists>rest. fst (io_Copy (cp_body resp)) @ rest = drop (nat a) c)))
         \<and> (cp_status resp = StatusOK \<longrightarrow> (\<exists>rest. fst (io_Copy (cp_body resp)) @ rest = c)))"

definition speaks_of :: "(string \<Rightarrow> bytes) \<Rightarrow> (string \<Rightarrow> int \<Rightarrow> string \<Rightarrow> ('w, error + cresp) go) \<Rightarrow> bool" where
  "speaks_of rep fetch \<longleftrightarrow>
     (\<forall>target off tag w resp w'. fetch target off tag w = Some (Inr resp, w') \<longrightarrow> (\<exists>c. of_representation rep resp c))"

definition begins :: "bytes \<Rightarrow> bytes \<Rightarrow> bool" where
  "begins b c \<longleftrightarrow> (\<exists>rest. b @ rest = c)"

lemma begins_Nil [simp]: "begins [] c"
  by (simp add: begins_def)

lemma begins_append: "begins (a @ b) c \<Longrightarrow> begins a c \<and> begins b (drop (length a) c)"
  by (auto simp: begins_def)

lemma body_Read_bytes: "body_Read n body = ((b, err), body') \<Longrightarrow> fst (io_Copy body) = b @ fst (io_Copy body')"
  by (cases body rule: io_Copy.cases) (auto split: if_splits prod.splits simp: Let_def)

lemma body_Read_length: "body_Read n body = ((b, err), body') \<Longrightarrow> length b \<le> n"
  by (cases body rule: io_Copy.cases) (auto split: if_splits)

definition rr_inv :: "(string \<Rightarrow> bytes) \<Rightarrow> bytes \<Rightarrow> rangeReader \<Rightarrow> bool" where
  "rr_inv rep c r \<longleftrightarrow>
     0 \<le> rr_offset r \<and> (rr_fetched r \<and> rr_etag r \<noteq> '''' \<longrightarrow> c = rep (rr_etag r))
     \<and> (\<forall>body. rr_body r = Some body \<longrightarrow>
          rr_fetched r \<and> rr_offset r \<le> rr_responseEnd r \<and> rr_responseEnd r < rr_size r
          \<and> begins (fst (io_Copy body)) (drop (nat (rr_offset r)) c))"

text \<open>A read of a body delivers the bytes at the offset, and moves it past them.\<close>

lemma read_body_spec:
  assumes "rr_inv rep c r" "rr_body r = Some body" "read_body e cl n body r = ((b, err), r')"
  shows "begins b (drop (nat (rr_offset r)) c) \<and> rr_inv rep c r' \<and> rr_offset r' = rr_offset r + int (length b)
    \<and> rr_offset r' \<le> rr_size r \<and> rr_size r' = rr_size r \<and> rr_fetched r' \<and> rr_etag r' = rr_etag r"
proof -
  obtain b1 e1 body' where rd: "body_Read (min n (nat (rr_responseEnd r - rr_offset r + 1))) body = ((b1, e1), body')"
    by (metis surj_pair)
  note io = body_Read_bytes [OF rd] body_Read_length [OF rd]
  have fields: "b = b1" "rr_offset r' = rr_offset r + int (length b)" "rr_size r' = rr_size r" "rr_etag r' = rr_etag r"
      "rr_fetched r' = rr_fetched r" "rr_responseEnd r' = rr_responseEnd r"
    and bd: "rr_body r' = None \<or> (rr_body r' = Some body' \<and> rr_offset r' \<noteq> rr_responseEnd r + 1)
              \<or> (rr_body r' = Some body' \<and> err \<noteq> None)"
    using assms(3) rd by (auto simp: read_body_def closeBody_def Let_def split: option.splits if_splits prod.splits)
  have closed: "err \<noteq> None \<Longrightarrow> rr_body r' = None"
    using assms(3) rd by (auto simp: read_body_def closeBody_def Let_def split: option.splits if_splits prod.splits)
  have len: "length b \<le> nat (rr_responseEnd r - rr_offset r + 1)" using io(2) fields by simp
  have inv: "0 \<le> rr_offset r" "rr_offset r \<le> rr_responseEnd r" "rr_responseEnd r < rr_size r"
      "begins (b @ fst (io_Copy body')) (drop (nat (rr_offset r)) c)"
    using assms(1,2) io(1) fields(1) by (auto simp: rr_inv_def)
  have "nat (rr_offset r') = length b + nat (rr_offset r)" using inv(1) fields(2) by simp
  then have "begins b (drop (nat (rr_offset r)) c) \<and> begins (fst (io_Copy body')) (drop (nat (rr_offset r')) c)"
    using begins_append [OF inv(4)] by (simp add: drop_drop)
  moreover have "rr_offset r' \<le> rr_responseEnd r + 1" using len inv fields(2) by simp
  ultimately show ?thesis
    using assms(1,2) fields bd closed inv by (auto simp: rr_inv_def)
qed

lemma response_range_bounds:
  "response_range r resp = Inr l \<Longrightarrow> rr_offset r < rr_size r \<Longrightarrow> rr_offset r \<le> l \<and> l < rr_size r"
  by (auto simp: response_range_def parseContentRange_def split: if_splits option.splits prod.splits)

lemma response_range_body:
  assumes "response_range r resp = Inr l" "of_representation rep resp c" "0 \<le> rr_offset r"
  shows "begins (fst (io_Copy (cp_body resp))) (drop (nat (rr_offset r)) c)"
  using assms
  by (fastforce simp: response_range_def of_representation_def begins_def Let_def status_defs split: if_splits option.splits prod.splits)

text \<open>An accepted response keeps the representation, and the first one fixes it.\<close>

lemma accept_response_spec:
  assumes "rr_inv rep c r" "rr_body r = None" "rr_offset r < rr_size r" "of_representation rep resp c'"
    and "rr_fetched r \<longrightarrow> rr_etag r \<noteq> ''''" "accept_response e cl resp r = (err, r')"
  shows "rr_inv rep (if rr_fetched r then c else c') r' \<and> (\<not> rr_fetched r' \<longrightarrow> rr_body r' = None)
    \<and> (rr_fetched r \<longrightarrow> rr_fetched r')
    \<and> rr_offset r' = rr_offset r \<and> rr_size r' = rr_size r \<and> (err = None \<longrightarrow> rr_body r' \<noteq> None \<and> rr_fetched r')
    \<and> (err \<noteq> None \<longrightarrow> rr_body r' = None)"
proof (cases "response_range r resp")
  case (Inr l)
  let ?tag = "strongETag (Header_Get (cp_header resp) ''ETag'')"
  have tag: "?tag \<noteq> '''' \<longrightarrow> c' = rep ?tag" using assms(4) by (simp add: of_representation_def Let_def)
  have same: "c = c'" if "rr_fetched r" "same_representation r resp = None"
    using that assms(1,5) tag by (auto simp: same_representation_def rr_inv_def Let_def split: if_splits)
  have off: "0 \<le> rr_offset r" using assms(1) by (simp add: rr_inv_def)
  note facts = response_range_bounds [OF Inr assms(3)] response_range_body [OF Inr assms(4) off]
  show ?thesis
    using assms(1,2,6) Inr facts tag same
    by (cases "same_representation r resp"; cases "stateError e cl 1")
       (auto simp: accept_response_def rr_inv_def Let_def split: if_splits; metis)+
qed (use assms in \<open>auto simp: accept_response_def rr_inv_def split: if_splits\<close>)

text \<open>
  One \<open>Read\<close>, from a reader that has delivered only bytes of \<open>c\<close>: before the first response the
  representation is open, afterwards it is \<open>c\<close>.
\<close>

lemma Read_spec:
  assumes "speaks_of rep fetch" "rr_inv rep c r" "rangeReader_Read fetch e cl n r w = Some (((b, err), r'), w')"
  shows "\<exists>c'. (rr_fetched r \<longrightarrow> c' = c) \<and> (rr_fetched r \<longrightarrow> rr_fetched r') \<and> (b \<noteq> [] \<longrightarrow> rr_fetched r') \<and> rr_inv rep c' r'
    \<and> begins b (drop (nat (rr_offset r)) c') \<and> rr_offset r' = rr_offset r + int (length b)
    \<and> rr_size r' = rr_size r \<and> (rr_offset r \<le> rr_size r \<longrightarrow> rr_offset r' \<le> rr_size r)"
proof -
  consider (quiet) "b = []" "r' = r"
    | (body) body where "rr_body r = Some body" "read_body e cl n body r = ((b, err), r')"
    | (opened) err1 r1 where "rr_body r = None" "rr_offset r < rr_size r" "openResponse fetch e cl r w = Some ((err1, r1), w')"
        "(b = [] \<and> r' = r1) \<or> (err1 = None \<and> (\<exists>body. rr_body r1 = Some body \<and> read_body e cl n body r1 = ((b, err), r')))"
    using assms(3) by (auto simp: rangeReader_Read_def go_run split: option.splits if_splits)
  then show ?thesis
  proof cases
    case quiet
    then show ?thesis using assms(2) by auto
  next
    case body
    have f: "rr_fetched r" using assms(2) body(1) by (simp add: rr_inv_def)
    from read_body_spec [OF assms(2) body] f show ?thesis by auto
  next
    case opened
    have stage: "\<exists>c'. (rr_fetched r \<longrightarrow> c' = c) \<and> (rr_fetched r \<longrightarrow> rr_fetched r1) \<and> rr_inv rep c' r1
        \<and> rr_offset r1 = rr_offset r \<and> rr_size r1 = rr_size r \<and> (rr_body r1 \<noteq> None \<longrightarrow> rr_fetched r1)"
    proof (cases "r1 = r")
      case True
      then show ?thesis using assms(2) opened(1) by auto
    next
      case False
      then obtain resp where resp: "fetch (if rr_fetched r then rr_representationURL r else rr_getURL r) (rr_offset r)
          (if rr_fetched r \<or> rr_conditionalFirst r then rr_etag r else '''') w = Some (Inr resp, w')"
          "accept_response e cl resp r = (err1, r1)" "rr_fetched r \<longrightarrow> rr_etag r \<noteq> ''''"
        using opened(3) by (auto simp: openResponse_def go_run split: if_splits option.splits sum.splits)
      then obtain c' where "of_representation rep resp c'" using assms(1) unfolding speaks_of_def by blast
      from accept_response_spec [OF assms(2) opened(1,2) this resp(3,2)] show ?thesis by (auto split: if_splits)
    qed
    then obtain c' where c': "rr_fetched r \<longrightarrow> c' = c" "rr_fetched r \<longrightarrow> rr_fetched r1" "rr_inv rep c' r1"
        "rr_offset r1 = rr_offset r" "rr_size r1 = rr_size r" by blast
    from opened(4) show ?thesis
    proof (elim disjE conjE exE)
      fix body assume "rr_body r1 = Some body" "read_body e cl n body r1 = ((b, err), r')"
      from read_body_spec [OF c'(3) this] c' show ?thesis by auto
    qed (use c' in auto)
  qed
qed

lemma Seek_spec:
  assumes "rr_inv rep c r" "rangeReader_Seek e off wh r = (res, r')" "0 \<le> rr_size r"
  shows "rr_inv rep c r' \<and> rr_size r' = rr_size r \<and> rr_fetched r' = rr_fetched r"
  using assms
  by (auto simp: rangeReader_Seek_def closeBody_def rr_inv_def Let_def split: option.splits if_splits whence.splits)

lemma Close_spec: "rr_inv rep c r \<Longrightarrow> rr_inv rep c (rangeReader_Close r)"
  by (auto simp: rangeReader_Close_def rr_inv_def)

text \<open>
  A history of a reader: what each \<open>Read\<close> delivered, and at which offset, with seeks, closes, failed
  reads and any changes to the world in between.
\<close>

inductive rr_history ::
  "(string \<Rightarrow> int \<Rightarrow> string \<Rightarrow> ('w, error + cresp) go) \<Rightarrow> rangeReader \<Rightarrow> (int \<times> bytes) list \<Rightarrow> rangeReader \<Rightarrow> bool"
  for fetch where
  start: "rr_history fetch r [] r"
| read: "rr_history fetch r0 tr r \<Longrightarrow> rangeReader_Read fetch e cl n r w = Some (((b, err), r'), w')
    \<Longrightarrow> rr_history fetch r0 (tr @ [(rr_offset r, b)]) r'"
| seek: "rr_history fetch r0 tr r \<Longrightarrow> rangeReader_Seek e off wh r = (res, r') \<Longrightarrow> rr_history fetch r0 tr r'"
| close: "rr_history fetch r0 tr r \<Longrightarrow> rr_history fetch r0 tr (rangeReader_Close r)"

definition delivered :: "bytes \<Rightarrow> (int \<times> bytes) list \<Rightarrow> bool" where
  "delivered c tr \<longleftrightarrow> (\<forall>(off, b) \<in> set tr. 0 \<le> off \<and> begins b (drop (nat off) c))"

lemma history_inv:
  assumes "rr_history fetch r0 tr r" "speaks_of rep fetch"
    and "r0 = newHTTPRangeReader sz getURL headURL etag cf" "0 \<le> sz"
  shows "rr_size r = sz \<and> (\<exists>c. rr_inv rep c r \<and> delivered c tr \<and> (rr_fetched r \<or> (\<forall>(off, b) \<in> set tr. b = [])))"
  using assms(1,3)
proof (induction rule: rr_history.induct)
  case (start r)
  then show ?case by (auto simp: newHTTPRangeReader_def rr_inv_def delivered_def)
next
  case (read r0 tr r e cl n w b err r' w')
  then obtain c where c: "rr_size r = sz" "rr_inv rep c r" "delivered c tr" "rr_fetched r \<or> (\<forall>(off, b) \<in> set tr. b = [])"
    by blast
  from Read_spec [OF assms(2) c(2) read.hyps(2)] obtain c' where c':
      "rr_fetched r \<longrightarrow> c' = c" "rr_fetched r \<longrightarrow> rr_fetched r'" "b \<noteq> [] \<longrightarrow> rr_fetched r'" "rr_inv rep c' r'"
      "begins b (drop (nat (rr_offset r)) c')" "rr_size r' = rr_size r" by blast
  have off: "0 \<le> rr_offset r" using c(2) by (simp add: rr_inv_def)
  have "delivered c' tr" using c(3,4) c'(1) by (fastforce simp: delivered_def)
  then have "delivered c' (tr @ [(rr_offset r, b)])" using c'(5) off by (auto simp: delivered_def)
  then show ?case using c c' by auto
next
  case (seek r0 tr r e off wh res r')
  then show ?case using Seek_spec assms(4) by metis
next
  case (close r0 tr r)
  then obtain c where "rr_size r = sz" "rr_inv rep c r" "delivered c tr" "rr_fetched r \<or> (\<forall>(off, b) \<in> set tr. b = [])"
    by blast
  then show ?case using Close_spec [of rep c r] by (auto simp: rangeReader_Close_def)
qed

section \<open>Properties\<close>


definition example_response :: cresp where
  "example_response = \<lparr>cp_status = 200, cp_header = [(''Etag'', [[CHR 0x22, CHR ''t'', CHR 0x22]])], cp_body = [(''hi'', None)],
     cp_length = 2, cp_uncompressed = False, cp_url = ''u''\<rparr>"

definition example_fetch :: "string \<Rightarrow> int \<Rightarrow> string \<Rightarrow> (unit, error + cresp) go" where
  "example_fetch target off tag = ret (Inr example_response)"

lemma example_tag: "CanonicalHeaderKey ''ETag'' = ''Etag''" "CanonicalHeaderKey ''Content-Encoding'' = ''Content-Encoding''"
  "CanonicalHeaderKey ''Content-Range'' = ''Content-Range''"
  by code_simp+

lemma example_speaks: "speaks_of (\<lambda>_. ''hi'') example_fetch"
  by (auto simp: speaks_of_def of_representation_def example_fetch_def example_response_def ret_def status_defs Let_def)

lemma example_read:
  "\<exists>r'. rangeReader_Read example_fetch (background 1) (\<lambda>_. False) 8 (newHTTPRangeReader 2 ''u'' ''u'' '''' False) () =
     Some (((''hi'', None), r'), ()) \<and> rr_offset r' = 2 \<and> rr_size r' = 2 \<and> rr_readErr r' = None"
  by (simp add: rangeReader_Read_def stateError_def background_def newHTTPRangeReader_def openResponse_def example_fetch_def
      example_response_def accept_response_def response_range_def same_representation_def identityResponse_def
      Header_Get_def Header_Values_def example_tag status_defs strongETag_def read_body_def closeBody_def go_run Let_def)


text \<open>Reading a reader to its end, as \<open>io.Copy\<close> does, and what it gathers.\<close>

inductive rr_stream ::
  "(string \<Rightarrow> int \<Rightarrow> string \<Rightarrow> ('w, error + cresp) go) \<Rightarrow> rangeReader \<Rightarrow> bytes \<Rightarrow> rangeReader \<Rightarrow> bool" for fetch where
  ended: "rangeReader_Read fetch e cl n r w = Some (((b, Some EOF), r'), w') \<Longrightarrow> (\<forall>k. ctx_Err e k \<noteq> Some EOF) \<Longrightarrow>
    rr_stream fetch r b r'"
| more_bytes: "rangeReader_Read fetch e cl n r w = Some (((b, None), r'), w') \<Longrightarrow> (\<forall>k. ctx_Err e k \<noteq> Some EOF) \<Longrightarrow>
    rr_stream fetch r' bs r2 \<Longrightarrow> rr_stream fetch r (b @ bs) r2"

text \<open>The transport reports a broken connection as an error of its own, not as a bare \<open>io.EOF\<close>.\<close>

definition no_bare_EOF :: "(string \<Rightarrow> int \<Rightarrow> string \<Rightarrow> ('w, error + cresp) go) \<Rightarrow> bool" where
  "no_bare_EOF fetch \<longleftrightarrow> (\<forall>target off tag w w'. fetch target off tag w \<noteq> Some (Inl EOF, w'))"

lemma read_one_error: "read_one body = (count, tl') \<Longrightarrow> count = 0 \<Longrightarrow> tl' \<noteq> None"
  by (induction body rule: read_one.induct) (auto split: if_splits option.splits)

lemma read_body_no_EOF:
  assumes "rr_inv rep c r" "rr_body r = Some body" "read_body e cl n body r = ((b, err), r')"
    and "\<forall>k. ctx_Err e k \<noteq> Some EOF" "rr_readErr r \<noteq> Some EOF"
  shows "err \<noteq> Some EOF \<and> rr_readErr r' \<noteq> Some EOF"
proof -
  obtain b1 e1 body' where rd: "body_Read (min n (nat (rr_responseEnd r - rr_offset r + 1))) body = ((b1, e1), body')"
    by (metis surj_pair)
  have "rr_offset r + int (length b1) \<le> rr_responseEnd r + 1"
    using body_Read_length [OF rd] assms(1,2) by (auto simp: rr_inv_def)
  moreover have "stateError e cl k \<noteq> Some EOF" for k using assms(4) by (auto simp: stateError_def)
  ultimately show ?thesis
    using assms(3,5) rd by (auto simp: read_body_def closeBody_def Let_def split: option.splits if_splits prod.splits)
qed

lemma accept_no_EOF:
  "accept_response e cl resp r = (err, r') \<Longrightarrow> \<forall>k. ctx_Err e k \<noteq> Some EOF \<Longrightarrow> err \<noteq> Some EOF \<and> rr_readErr r' = rr_readErr r"
  by (auto simp: accept_response_def response_range_def same_representation_def stateError_def Let_def
      split: option.splits if_splits sum.splits prod.splits)

lemma Read_EOF:
  assumes "speaks_of rep fetch" "no_bare_EOF fetch" "rr_inv rep c r" "rr_readErr r \<noteq> Some EOF"
    and "\<forall>k. ctx_Err e k \<noteq> Some EOF" "rangeReader_Read fetch e cl n r w = Some (((b, err), r'), w')"
  shows "rr_readErr r' \<noteq> Some EOF \<and> (err = Some EOF \<longrightarrow> b = [] \<and> rr_size r \<le> rr_offset r)"
proof -
  have state: "stateError e cl k \<noteq> Some EOF" for k using assms(5) by (auto simp: stateError_def)
  have broken: ?thesis if "rr_readErr r = Some x" for x
    using assms(4,6) state that by (auto simp: rangeReader_Read_def ret_def split: option.splits if_splits)
  consider (failed) x where "rr_readErr r = Some x" | (quiet) "r' = r" "err = Some EOF \<longrightarrow> b = [] \<and> rr_size r \<le> rr_offset r"
    | (body) body where "rr_body r = Some body" "read_body e cl n body r = ((b, err), r')"
    | (opened) err1 r1 where "rr_body r = None" "rr_offset r < rr_size r" "openResponse fetch e cl r w = Some ((err1, r1), w')"
        "(r' = r1 \<and> (err1 = err \<or> err = Some OsErrClosed)) \<or> (err1 = None \<and> (\<exists>body. rr_body r1 = Some body \<and> read_body e cl n body r1 = ((b, err), r')))"
    using assms(4,6) state
    by (cases "rr_readErr r") (auto simp: rangeReader_Read_def go_run split: option.splits if_splits)
  then show ?thesis
  proof cases
    case failed
    then show ?thesis by (rule broken)
  next
    case quiet
    then show ?thesis using assms(4) by simp
  next
    case body
    from read_body_no_EOF [OF assms(3) body assms(5,4)] show ?thesis by simp
  next
    case opened
    have o: "err1 \<noteq> Some EOF \<and> rr_readErr r1 = rr_readErr r"
      using opened(3) accept_no_EOF [OF _ assms(5)] assms(2)
      by (fastforce simp: openResponse_def no_bare_EOF_def go_run split: if_splits option.splits sum.splits)
    from opened(4) show ?thesis
    proof (elim disjE conjE exE)
      fix body assume err1: "err1 = None" and bd: "rr_body r1 = Some body" "read_body e cl n body r1 = ((b, err), r')"
      obtain resp where "accept_response e cl resp r = (None, r1)" "rr_fetched r \<longrightarrow> rr_etag r \<noteq> ''''"
          "\<exists>c'. of_representation rep resp c'"
        using opened(3) err1 assms(1)
        by (fastforce simp: openResponse_def speaks_of_def go_run split: if_splits option.splits sum.splits)
      then obtain c' where "rr_inv rep c' r1"
        using accept_response_spec [OF assms(3) opened(1,2)] by (metis (no_types))
      from read_body_no_EOF [OF this bd assms(5)] o assms(4) show ?thesis by simp
    qed (use o assms(4) in auto)
  qed
qed

lemma stream_bytes:
  assumes "rr_stream fetch r bs r2" "speaks_of rep fetch" "no_bare_EOF fetch"
    and "rr_inv rep c r" "rr_readErr r \<noteq> Some EOF" "rr_offset r \<le> rr_size r"
  shows "int (length bs) = rr_size r - rr_offset r
    \<and> (\<exists>c'. (rr_fetched r \<longrightarrow> c' = c) \<and> begins bs (drop (nat (rr_offset r)) c')
         \<and> (rr_fetched r2 \<and> rr_etag r2 \<noteq> '''' \<longrightarrow> c' = rep (rr_etag r2)))"
  using assms(1,4-6)
proof (induction arbitrary: c rule: rr_stream.induct)
  case (ended e cl n r w b r' w')
  from Read_spec [OF assms(2) ended(3,1)] obtain c' where "rr_fetched r \<longrightarrow> c' = c" "rr_inv rep c' r'" by blast
  then show ?case using Read_EOF [OF assms(2,3) ended(3,4,2,1)] ended(5) by (auto simp: rr_inv_def)
next
  case (more_bytes e cl n r w b r' w' bs r2)
  from Read_spec [OF assms(2) more_bytes.prems(1) more_bytes.hyps(1)] obtain c' where c':
      "rr_fetched r \<longrightarrow> c' = c" "rr_fetched r \<longrightarrow> rr_fetched r'" "b \<noteq> [] \<longrightarrow> rr_fetched r'" "rr_inv rep c' r'"
      "begins b (drop (nat (rr_offset r)) c')" "rr_offset r' = rr_offset r + int (length b)" "rr_size r' = rr_size r"
      "rr_offset r' \<le> rr_size r" using more_bytes.prems(3) by blast
  have "rr_readErr r' \<noteq> Some EOF"
    using Read_EOF [OF assms(2,3) more_bytes.prems(1,2) more_bytes.hyps(2,1)] by simp
  from more_bytes.IH [OF c'(4) this] c'(7,8) obtain c2 where c2: "int (length bs) = rr_size r' - rr_offset r'"
      "rr_fetched r' \<longrightarrow> c2 = c'" "begins bs (drop (nat (rr_offset r')) c2)"
      "rr_fetched r2 \<and> rr_etag r2 \<noteq> '''' \<longrightarrow> c2 = rep (rr_etag r2)" by auto
  have off: "nat (rr_offset r') = nat (rr_offset r) + length b" using c'(6) more_bytes.prems(1) by (simp add: rr_inv_def nat_add_distrib)
  have "begins (b @ bs) (drop (nat (rr_offset r)) c2)"
  proof (cases "b = []")
    case False
    then have "c2 = c'" using c'(3) c2(2) by simp
    then show ?thesis
      using c'(5) c2(3) off by (auto simp: begins_def) (metis append_eq_conv_conj drop_drop add.commute)
  qed (use c2(3) off in simp)
  then show ?case using c2(1,2,4) c'(1,2,6,7) by auto
qed



end
