(* ===== verification/HttpStore.thy ===== *)
theory HttpStore
  imports HttpServer RangeReader MemContract
begin

text \<open>
  \<open>http.go\<close>, the client side: \<open>HttpStore\<close> as a store over requests. \<open>Do\<close> sends a request and is an
  operation on the world \<open>'w\<close>; it stands for building the request and sending it, with the errors of
  both. \<open>ParseTime\<close> reads an HTTP date, giving the zero time for one it cannot read.
\<close>

section \<open>The code\<close>

record creq =
  cq_method :: string
  cq_url :: string
  cq_header :: header
  cq_body :: reader

record httpStore =
  hs_base :: string
  hs_id :: string

definition HttpStores_Use :: "string \<Rightarrow> string \<Rightarrow> httpStore" where
  "HttpStores_Use base ns = \<lparr>hs_base = base, hs_id = namespaceSegment ns\<rparr>"

definition store_url :: "httpStore \<Rightarrow> string \<Rightarrow> string" where
  "store_url s d = (if d = '''' then hs_base s @ ''/'' @ hs_id s else hs_base s @ ''/'' @ hs_id s @ ''/'' @ d)"

definition setLabels :: "labels \<Rightarrow> header \<Rightarrow> header" where
  "setLabels labels h = (case labels of None \<Rightarrow> h | Some m \<Rightarrow> Header_Add_map ''Flob-'' m h)"

definition meta_headers_to_skip :: "string list" where
  "meta_headers_to_skip = [''Etag'', ''Content-Length'', ''Content-Type'', ''Transfer-Encoding'', ''Content-Encoding'',
     ''Date'', ''Server'', ''Connection'', ''Location'', ''Cache-Control'', ''Vary'', ''Accept-Ranges'',
     ''Content-Range'', ''Last-Modified'']"

definition parse_labels :: "header \<Rightarrow> labels" where
  "parse_labels h =
     (let m = filter (\<lambda>(k, _). k \<notin> set meta_headers_to_skip) h in if m = [] then None else Some m)"

definition parseMeta :: "cresp \<Rightarrow> meta" where
  "parseMeta res =
     \<lparr>Digest = (let etag = Header_Get (cp_header res) ''ETag'' in if etag \<noteq> '''' then Trim etag [CHR 0x22] else ''''),
      Labels = parse_labels (cp_header res), Size = cp_length res\<rparr>"

definition parseErr :: "cresp \<Rightarrow> error option" where
  "parseErr res =
     (if cp_status res \<in> {StatusOK, StatusCreated, StatusNoContent, StatusPartialContent} then None
      else if cp_status res = StatusNotFound then Some ErrNotExist
      else if cp_status res = StatusUnprocessableEntity then Some ErrDigestMismatch
      else Some (ErrorString ''unexpected HTTP status''))"

definition add_error :: "nat \<Rightarrow> error option" where
  "add_error status =
     (if status = StatusOK then Some ErrAlreadyExists
      else if status = StatusCreated then None
      else if status = StatusUnprocessableEntity then Some ErrDigestMismatch
      else if status = StatusNotFound then Some ErrNotExist
      else Some (ErrorString ''unexpected HTTP status''))"

type_synonym 'w transport = "env \<Rightarrow> creq \<Rightarrow> ('w, error + cresp) go"

definition HttpStore_Add ::
  "'w transport \<Rightarrow> httpStore \<Rightarrow> env \<Rightarrow> meta \<Rightarrow> reader \<Rightarrow> ('w, meta \<times> error option) go" where
  "HttpStore_Add Do s e m r =
     chk (Do e \<lparr>cq_method = MethodPost, cq_url = store_url s (Digest m), cq_header = setLabels (Labels m) [], cq_body = r\<rparr>)
       (\<lambda>err. (zero_meta, Some err)) (\<lambda>res. ret (parseMeta res, add_error (cp_status res)))"

definition http_info :: "(string \<Rightarrow> time) \<Rightarrow> cresp \<Rightarrow> 'w blobInfo" where
  "http_info ParseTime res =
     (let m = parseMeta res
      in NewInfo (Digest m) (Size m) (ParseTime (Header_Get (cp_header res) ''Last-Modified'')) (Some (\<lambda>_. ret (Inr (Labels m)))))"

definition HttpStore_Stat ::
  "'w transport \<Rightarrow> (string \<Rightarrow> time) \<Rightarrow> httpStore \<Rightarrow> env \<Rightarrow> string \<Rightarrow> ('w, error + 'w blobInfo) go" where
  "HttpStore_Stat Do ParseTime s e d =
     chk (Do e \<lparr>cq_method = MethodHead, cq_url = store_url s d, cq_header = [], cq_body = []\<rparr>) Inl (\<lambda>resp. ret
       (case parseErr resp of Some err \<Rightarrow> Inl err | None \<Rightarrow> Inr (http_info ParseTime resp)))"

definition open_fetch :: "'w transport \<Rightarrow> env \<Rightarrow> int \<Rightarrow> string \<Rightarrow> int \<Rightarrow> string \<Rightarrow> ('w, error + cresp) go" where
  "open_fetch Do e sz target offset etag =
     (let h = Header_Set ''Range'' (range_text offset (sz - 1)) (Header_Set ''Accept-Encoding'' ''identity'' [])
      in Do e \<lparr>cq_method = MethodGet, cq_url = target,
               cq_header = (if etag \<noteq> '''' then Header_Set ''If-Match'' etag h else h), cq_body = []\<rparr>)"

text \<open>\<open>Open\<close> answers a reader over ranged requests; \<open>open_fetch\<close> is the fetch function it is given.\<close>

definition HttpStore_Open ::
  "'w transport \<Rightarrow> (string \<Rightarrow> time) \<Rightarrow> httpStore \<Rightarrow> env \<Rightarrow> string \<Rightarrow> ('w, error + (rangeReader \<times> 'w blobInfo)) go" where
  "HttpStore_Open Do ParseTime s e d =
     chk (Do e \<lparr>cq_method = MethodHead, cq_url = store_url s d,
                cq_header = Header_Set ''Accept-Encoding'' ''identity'' [], cq_body = []\<rparr>) Inl (\<lambda>resp. ret
       (case parseErr resp of
          Some err \<Rightarrow> Inl err
        | None \<Rightarrow>
            if cp_status resp \<noteq> StatusOK \<or> cp_length resp < 0 \<or> \<not> identityResponse resp
            then Inl (ErrorString ''invalid blob HEAD response'')
            else Inr (newHTTPRangeReader (Size (parseMeta resp)) (store_url s d) (cp_url resp)
                        (Header_Get (cp_header resp) ''ETag'') False, http_info ParseTime resp)))"

definition HttpStore_Label :: "'w transport \<Rightarrow> httpStore \<Rightarrow> env \<Rightarrow> string \<Rightarrow> labels \<Rightarrow> ('w, error option) go" where
  "HttpStore_Label Do s e d labels =
     chk (Do e \<lparr>cq_method = MethodPatch, cq_url = store_url s d, cq_header = setLabels labels [], cq_body = []\<rparr>) Some
       (\<lambda>resp. ret (parseErr resp))"

definition HttpStore_Erase :: "'w transport \<Rightarrow> httpStore \<Rightarrow> env \<Rightarrow> string \<Rightarrow> ('w, error option) go" where
  "HttpStore_Erase Do s e d =
     chk (Do e \<lparr>cq_method = MethodDelete, cq_url = store_url s d, cq_header = [], cq_body = []\<rparr>) Some
       (\<lambda>resp. ret (parseErr resp))"

section \<open>A connection\<close>

text \<open>
  A connection from the client to a handler that loses nothing: the handler gets the request, with the
  path below the base URL, and the client gets the response, with the date that \<open>net/http\<close> adds and
  the length that the header announces or, without one, that the body has.
\<close>

definition received :: "string \<Rightarrow> creq \<Rightarrow> response \<Rightarrow> cresp" where
  "received date q r =
     \<lparr>cp_status = rs_status r, cp_header = Header_Set ''Date'' date (rs_header r),
      cp_body = bytes_Reader (if cq_method q = MethodHead then [] else rs_body r),
      cp_length = (case ParseInt (Header_Get (rs_header r) ''Content-Length'') of
                     Some n \<Rightarrow> n
                   | None \<Rightarrow> if cq_method q = MethodHead then -1 else int (length (rs_body r))),
      cp_uncompressed = False, cp_url = cq_url q\<rparr>"

definition connection :: "(env \<Rightarrow> request \<Rightarrow> ('s, response) go) \<Rightarrow> string \<Rightarrow> string \<Rightarrow> 's transport" where
  "connection serve base date e q =
     (case CutPrefix (cq_url q) base of
        None \<Rightarrow> ret (Inl (ErrorString ''no such host''))
      | Some path \<Rightarrow>
          bind (serve e \<lparr>rq_method = cq_method q, rq_path = path, rq_header = cq_header q, rq_body = cq_body q\<rparr>)
            (\<lambda>r. ret (Inr (received date q r))))"

end
