(* ===== verification/HttpWire.thy ===== *)
theory HttpWire
  imports HttpStore
begin

text \<open>
  Client and server of \<open>http.go\<close> together: a client store, connected to a handler that serves a store
  which keeps the contract of \<open>Store\<close>, behaves as that store. Labels travel as headers, so this holds
  for labels whose keys are canonical header keys that \<open>parseMeta\<close> does not skip.
\<close>

section \<open>Labels as headers\<close>

definition wire_key :: "string \<Rightarrow> bool" where
  "wire_key k \<longleftrightarrow> k \<noteq> '''' \<and> list_all token_char k \<and> canonical_from True k = k \<and> k \<notin> set meta_headers_to_skip"

definition wire_map :: "header \<Rightarrow> bool" where
  "wire_map m \<longleftrightarrow> distinct (map fst m) \<and> (\<forall>(k, vs) \<in> set m. wire_key k \<and> vs \<noteq> [])"

definition label_map :: "labels \<Rightarrow> header" where
  "label_map ls = (case ls of None \<Rightarrow> [] | Some m \<Rightarrow> m)"

definition wire_labels :: "labels \<Rightarrow> bool" where
  "wire_labels ls \<longleftrightarrow> wire_map (label_map ls)"

text \<open>What the client makes of labels: an empty map comes back as nil.\<close>

definition from_wire :: "header \<Rightarrow> labels" where
  "from_wire m = (if m = [] then None else Some m)"

lemma update_new: "k \<notin> fst ` set h \<Longrightarrow> AList.update k v h = h @ [(k, v)]"
  by (induction h) auto

lemma update_last: "k \<notin> fst ` set h \<Longrightarrow> AList.update k v (h @ [(k, w)]) = h @ [(k, v)]"
  by (induction h) auto

lemma Values_last: "CanonicalHeaderKey k = k \<Longrightarrow> k \<notin> fst ` set h \<Longrightarrow> Header_Values (h @ [(k, ws)]) k = ws"
  by (simp add: Header_Values_def map_of_append map_of_eq_None_iff [THEN iffD2] map_add_def)

lemma Add_all_last:
  assumes "CanonicalHeaderKey k = k" "k \<notin> fst ` set h"
  shows "Header_Add_all k vs (h @ [(k, ws)]) = h @ [(k, ws @ vs)]"
  by (induction vs arbitrary: ws) (simp_all add: Header_Add_def assms Values_last update_last)

lemma Add_all_new:
  assumes "CanonicalHeaderKey k = k" "k \<notin> fst ` set h" "vs \<noteq> []"
  shows "Header_Add_all k vs h = h @ [(k, vs)]"
proof -
  obtain v ws where vs: "vs = v # ws" using assms(3) by (cases vs) auto
  have "Header_Values h k = []"
    using assms(1,2) by (simp add: Header_Values_def map_of_eq_None_iff [THEN iffD2])
  then have "Header_Add k v h = h @ [(k, [v])]" by (simp add: Header_Add_def assms(1,2) update_new)
  then show ?thesis using Add_all_last [OF assms(1,2), of ws "[v]"] vs by simp
qed

lemma Add_map_new:
  assumes "distinct (map fst m)" "\<forall>(k, vs) \<in> set m. CanonicalHeaderKey (p @ k) = p @ k \<and> vs \<noteq> [] \<and> p @ k \<notin> fst ` set h"
  shows "Header_Add_map p m h = h @ map (\<lambda>(k, vs). (p @ k, vs)) m"
  using assms
proof (induction m arbitrary: h)
  case (Cons kv m)
  obtain k vs where kv: "kv = (k, vs)" by (cases kv)
  have "Header_Add_all (p @ k) vs h = h @ [(p @ k, vs)]" using Cons.prems(2) kv by (intro Add_all_new) auto
  moreover have "Header_Add_map p m (h @ [(p @ k, vs)]) = (h @ [(p @ k, vs)]) @ map (\<lambda>(k, vs). (p @ k, vs)) m"
    using Cons.prems kv by (intro Cons.IH) (auto simp: image_iff)
  ultimately show ?case by (simp add: kv)
qed simp

lemma Flob_key:
  assumes "list_all token_char k" "canonical_from True k = k"
  shows "CanonicalHeaderKey (''Flob-'' @ k) = ''Flob-'' @ k"
proof -
  have "list_all token_char ''Flob-''" "canonical_from True (''Flob-'' @ k) = ''Flob-'' @ canonical_from True k"
    by (simp_all add: token_char_def is_upper_def is_lower_def upper_char_def lower_char_def)
  then show ?thesis using assms by (simp add: CanonicalHeaderKey_def)
qed

lemma setLabels_wire:
  assumes "wire_labels ls"
  shows "setLabels ls [] = map (\<lambda>(k, vs). (''Flob-'' @ k, vs)) (label_map ls)"
proof (cases ls)
  case (Some m)
  then have "wire_map m" using assms by (simp add: wire_labels_def label_map_def)
  then have "Header_Add_map ''Flob-'' m [] = [] @ map (\<lambda>(k, vs). (''Flob-'' @ k, vs)) m"
    using Flob_key by (intro Add_map_new) (auto simp: wire_map_def wire_key_def)
  then show ?thesis using Some by (simp add: setLabels_def label_map_def)
qed (simp add: setLabels_def label_map_def)

lemma parseLabels_Flob:
  assumes "distinct (map fst (vs @ m))"
  shows "parseLabels vs (map (\<lambda>(k, ws). (''Flob-'' @ k, ws)) m) = vs @ m"
  using assms
proof (induction m arbitrary: vs)
  case (Cons kv m)
  obtain k ws where kv: "kv = (k, ws)" by (cases kv)
  have "AList.update k ws vs = vs @ [(k, ws)]" using Cons.prems kv by (intro update_new) auto
  with Cons.IH [of "vs @ [(k, ws)]"] Cons.prems kv show ?case by (simp add: CutPrefix_def HasPrefix_def)
qed simp

lemma labels_to_server: "wire_labels ls \<Longrightarrow> parseLabels [] (setLabels ls []) = label_map ls"
  using parseLabels_Flob [of "[]" "label_map ls"] by (simp add: setLabels_wire) (simp add: wire_labels_def wire_map_def)

section \<open>Descriptions of blobs\<close>

lemma canonical_keys:
  "CanonicalHeaderKey ''ETag'' = ''Etag''" "CanonicalHeaderKey ''Etag'' = ''Etag''" "CanonicalHeaderKey ''Content-Length'' = ''Content-Length''"
  "CanonicalHeaderKey ''Content-Type'' = ''Content-Type''" "CanonicalHeaderKey ''Last-Modified'' = ''Last-Modified''"
  "CanonicalHeaderKey ''Date'' = ''Date''" "CanonicalHeaderKey ''Location'' = ''Location''"
  "CanonicalHeaderKey ''Content-Encoding'' = ''Content-Encoding''" "CanonicalHeaderKey ''Content-Range'' = ''Content-Range''"
  "CanonicalHeaderKey ''Accept-Ranges'' = ''Accept-Ranges''" "CanonicalHeaderKey ''Range'' = ''Range''"
  "CanonicalHeaderKey ''If-Match'' = ''If-Match''" "CanonicalHeaderKey ''If-None-Match'' = ''If-None-Match''"
  "CanonicalHeaderKey ''If-Range'' = ''If-Range''" "CanonicalHeaderKey ''Accept-Encoding'' = ''Accept-Encoding''"
  by code_simp+

lemma wire_not_skipped:
  "wire_map m \<Longrightarrow> k \<in> set meta_headers_to_skip \<Longrightarrow> k \<notin> fst ` set m"
  by (auto simp: wire_map_def wire_key_def)

lemma setMetaHeaders_wire:
  assumes "wire_labels ls"
  shows "setMetaHeaders \<lparr>Digest = d, Labels = ls, Size = n\<rparr> [] =
    [(''Etag'', [quoted d]), (''Content-Length'', [FormatInt n])] @ label_map ls"
proof -
  have two: "Header_Set ''Content-Length'' (FormatInt n) (Header_Set ''ETag'' (quoted d) []) =
      [(''Etag'', [quoted d]), (''Content-Length'', [FormatInt n])]"
    by (simp add: Header_Set_def canonical_keys)
  show ?thesis
  proof (cases ls)
    case (Some m)
    then have w: "wire_map m" using assms by (simp add: wire_labels_def label_map_def)
    have "Header_Add_map '''' m [(''Etag'', [quoted d]), (''Content-Length'', [FormatInt n])] =
        [(''Etag'', [quoted d]), (''Content-Length'', [FormatInt n])] @ map (\<lambda>(k, vs). ('''' @ k, vs)) m"
      using w by (intro Add_map_new)
        (auto simp: wire_map_def wire_key_def CanonicalHeaderKey_def meta_headers_to_skip_def)
    then show ?thesis using Some two by (simp add: setMetaHeaders_def label_map_def Let_def)
  qed (simp add: setMetaHeaders_def two label_map_def Let_def)
qed

text \<open>The headers of a blob, as a list: the labels stand between the ones that the server adds.\<close>

lemma blob_headers_wire:
  assumes "wire_labels (snd x)"
  shows "\<exists>tail. set (map fst tail) \<subseteq> {''Last-Modified''} \<and> blob_headers format d x t =
    [(''Etag'', [quoted d]), (''Content-Length'', [FormatInt (int (length (fst x)))])] @ label_map (snd x) @ tail"
proof -
  let ?h = "[(''Etag'', [quoted d]), (''Content-Length'', [FormatInt (int (length (fst x)))])] @ label_map (snd x)"
  have "''Last-Modified'' \<notin> fst ` set ?h"
    using wire_not_skipped [of "label_map (snd x)" "''Last-Modified''"] assms
    by (simp add: wire_labels_def meta_headers_to_skip_def)
  from update_new [OF this] have "Header_Set ''Last-Modified'' v ?h = ?h @ [(''Last-Modified'', [v])]" for v
    by (simp add: Header_Set_def canonical_keys)
  then show ?thesis
    by (cases "t \<noteq> 0 \<and> format t \<noteq> ''''")
       (auto simp: blob_headers_def setMetaHeaders_wire [OF assms] Let_def)
qed

lemma filter_wire: "wire_map m \<Longrightarrow> filter (\<lambda>(k, _). k \<notin> set meta_headers_to_skip) m = m"
  by (induction m) (auto simp: wire_map_def wire_key_def)

lemma parse_labels_wire:
  assumes "wire_map m" "set (map fst pre) \<subseteq> set meta_headers_to_skip" "set (map fst tail) \<subseteq> set meta_headers_to_skip"
  shows "parse_labels (pre @ m @ tail) = from_wire m"
proof -
  have none: "filter (\<lambda>(k, _). k \<notin> set meta_headers_to_skip) l = []" if "set (map fst l) \<subseteq> set meta_headers_to_skip" for l :: header
    using that by (induction l) auto
  show ?thesis
    by (simp add: parse_labels_def from_wire_def filter_wire [OF assms(1)] none [OF assms(2)] none [OF assms(3)] Let_def)
qed

lemma Trim_quoted: "CHR 0x22 \<notin> set d \<Longrightarrow> Trim (quoted d) [CHR 0x22] = d"
proof -
  assume n: "CHR 0x22 \<notin> set d"
  have drop: "dropWhile (\<lambda>c. c \<in> set [CHR 0x22]) (x @ CHR 0x22 # y) = x @ CHR 0x22 # y" if "CHR 0x22 \<notin> set x" "x \<noteq> []" for x y
    using that by (cases x) auto
  have drop2: "dropWhile (\<lambda>c. c \<in> set [CHR 0x22]) x = x" if "CHR 0x22 \<notin> set x" for x
    using that by (cases x) auto
  have "dropWhile (\<lambda>c. c \<in> set [CHR 0x22]) (quoted d) = (if d = [] then [] else d @ [CHR 0x22])"
    using drop [OF n, of "[]"] by (simp add: quoted_def)
  then show ?thesis using drop2 [of "rev d"] n by (auto simp: Trim_def TrimRight_def)
qed

text \<open>A digest is a fine entity tag.\<close>

lemma digest_tag:
  assumes "digest_lib_ok L" "dl_Validate L d = None"
  shows "CHR 0x22 \<notin> set d" "strongETag (quoted d) = quoted d" "quoted d \<noteq> ''''"
proof -
  have c: "33 \<le> byte_val c \<and> byte_val c \<noteq> 34 \<and> byte_val c < 127" if "c \<in> set d" for c
    using valid_digest_chars [OF assms that] by simp
  show q: "CHR 0x22 \<notin> set d" using c by fastforce
  show "quoted d \<noteq> ''''" by (simp add: quoted_def)
  have "butlast (tl (quoted d)) = d" by (simp add: quoted_def)
  moreover have "\<not> list_ex (\<lambda>c. byte_val c < 33 \<or> byte_val c = 34 \<or> byte_val c = 127) d"
    using c by (fastforce simp: list_ex_iff)
  ultimately show "strongETag (quoted d) = quoted d"
    by (simp add: strongETag_def quoted_def)
qed

text \<open>What the client reads off a response with the headers of a blob.\<close>

lemma received_blob:
  assumes "digest_lib_ok L" "dl_Validate L d = None" "wire_labels (snd x)" "int (length (fst x)) < 2 ^ 63"
    and "cq_method q = MethodHead" and res: "res = received date q (no_body StatusOK (blob_headers format d x t))"
  shows "cp_status res = StatusOK" "parseErr res = None" "identityResponse res" "cp_url res = cq_url q"
    "Header_Get (cp_header res) ''ETag'' = quoted d"
    "parseMeta res = \<lparr>Digest = d, Labels = from_wire (label_map (snd x)), Size = int (length (fst x))\<rparr>"
proof -
  obtain tail where tail: "set (map fst tail) \<subseteq> {''Last-Modified''}" and hs: "blob_headers format d x t =
      [(''Etag'', [quoted d]), (''Content-Length'', [FormatInt (int (length (fst x)))])] @ label_map (snd x) @ tail"
    using blob_headers_wire [OF assms(3)] by blast
  have w: "wire_map (label_map (snd x))" using assms(3) by (simp add: wire_labels_def)
  have "''Date'' \<notin> fst ` set (blob_headers format d x t)"
    using wire_not_skipped [OF w, of "''Date''"] tail by (auto simp: hs meta_headers_to_skip_def)
  from update_new [OF this] have h: "cp_header res =
      [(''Etag'', [quoted d]), (''Content-Length'', [FormatInt (int (length (fst x)))])] @ label_map (snd x) @ (tail @ [(''Date'', [date])])"
    by (simp add: res received_def no_body_def Header_Set_def canonical_keys hs)
  have ce: "''Content-Encoding'' \<notin> fst ` set (label_map (snd x))"
    using wire_not_skipped [OF w, of "''Content-Encoding''"] by (simp add: meta_headers_to_skip_def)
  show st: "cp_status res = StatusOK" "cp_url res = cq_url q" by (simp_all add: res received_def no_body_def)
  then show "parseErr res = None" by (simp add: parseErr_def)
  show tag: "Header_Get (cp_header res) ''ETag'' = quoted d"
    by (simp add: h Header_Get_def Header_Values_def canonical_keys)
  have "Header_Get (cp_header res) ''Content-Encoding'' = ''''"
    using ce tail unfolding h
    by (auto simp: Header_Get_def Header_Values_def canonical_keys map_of_append map_add_def map_of_eq_None_iff [THEN iffD2]
        split: option.splits dest!: map_of_SomeD)
  then show "identityResponse res" by (simp add: identityResponse_def res received_def Let_def)
  have "parse_labels (cp_header res) = from_wire (label_map (snd x))"
    unfolding h using w tail by (intro parse_labels_wire) (auto simp: meta_headers_to_skip_def)
  moreover have "cp_length res = int (length (fst x))"
    using assms(4) by (simp add: res received_def no_body_def hs Header_Get_def Header_Values_def canonical_keys ParseInt_FormatInt)
  ultimately show "parseMeta res = \<lparr>Digest = d, Labels = from_wire (label_map (snd x)), Size = int (length (fst x))\<rparr>"
    using tag Trim_quoted [OF digest_tag(1) [OF assms(1,2)]] digest_tag(3) [OF assms(1,2)] by (simp add: parseMeta_def Let_def)
qed

section \<open>Reading a response to its end\<close>

text \<open>\<open>io.ReadAll\<close> of a ranged reader with a buffer of \<open>n\<close> bytes; every \<open>Read\<close> costs one unit of fuel.\<close>

fun read_all ::
  "(string \<Rightarrow> int \<Rightarrow> string \<Rightarrow> ('w, error + cresp) go) \<Rightarrow> env \<Rightarrow> nat \<Rightarrow> nat \<Rightarrow> rangeReader
   \<Rightarrow> ('w, bytes \<times> error option) go" where
  "read_all fetch e 0 n r = (\<lambda>_. None)"
| "read_all fetch e (Suc k) n r =
     bind (rangeReader_Read fetch e (\<lambda>_. rr_closed r) n r) (\<lambda>((b, err), r').
       case err of
         Some x \<Rightarrow> ret (b, if x = EOF then None else Some x)
       | None \<Rightarrow> bind (read_all fetch e k n r') (\<lambda>(bs, err'). ret (b @ bs, err')))"

lemma read_all_body:
  assumes "live e" "0 < n" "rr_readErr r = None" "\<not> rr_closed r"
    and "rr_offset r = int k" "rr_size r = int (length data)" "k < length data" "rr_responseEnd r = int (length data) - 1"
    and "rr_body r = Some [(drop k data, None)]" "length data - k < fuel"
  shows "read_all fetch e fuel n r s = Some ((drop k data, None), s)"
  using assms
proof (induction fuel arbitrary: r k)
  case (Suc fuel)
  have st: "stateError e (\<lambda>_. False) i = None" for i using Suc.prems(1) by (simp add: stateError_def live_def)
  have left: "nat (rr_responseEnd r - rr_offset r + 1) = length data - k" using Suc.prems(5,7,8) by (simp add: nat_diff_distrib of_nat_diff)
  show ?case
  proof (cases "n < length data - k")
    case True
    let ?r = "r\<lparr>rr_offset := int (k + n), rr_body := Some [(drop (k + n) data, None)]\<rparr>"
    have "read_body e (\<lambda>_. False) n [(drop k data, None)] r = ((take n (drop k data), None), ?r)"
      using True Suc.prems(5,8) by (simp add: read_body_def left st Let_def min_def add.commute)
    moreover have "read_all fetch e fuel n ?r s = Some ((drop (k + n) data, None), s)"
      using Suc.prems True by (intro Suc.IH) (auto simp: add.commute)
    ultimately show ?thesis
      using Suc.prems st by (simp add: rangeReader_Read_def go_run) (metis append_take_drop_id drop_drop add.commute)
  next
    case False
    obtain fuel' where fuel': "fuel = Suc fuel'" using Suc.prems(7,10) by (cases fuel) auto
    let ?r = "closeBody (r\<lparr>rr_offset := int (length data), rr_body := Some []\<rparr>)"
    have "read_body e (\<lambda>_. False) n [(drop k data, None)] r = ((drop k data, None), ?r)"
      using False Suc.prems(5,7,8) by (simp add: read_body_def left st Let_def min_def closeBody_def of_nat_diff)
    moreover have "rangeReader_Read fetch e (\<lambda>_. False) n ?r s = Some ((([], Some EOF), ?r), s)"
      using Suc.prems st by (simp add: rangeReader_Read_def closeBody_def ret_def)
    moreover have "\<not> rr_closed ?r" using Suc.prems(4) by (simp add: closeBody_def)
    ultimately show ?thesis
      using Suc.prems st by (simp add: rangeReader_Read_def [of _ _ _ _ r] go_run fuel')
  qed
qed simp

text \<open>A whole download, when the first request is answered with the whole blob.\<close>

lemma read_all_download:
  assumes "live e" "0 < n" "length data + 1 < fuel"
    and fetch: "data \<noteq> [] \<Longrightarrow> fetch getURL 0 '''' s = Some (Inr resp, s)"
    and resp: "cp_status resp = StatusPartialContent" "identityResponse resp" "cp_length resp = int (length data)"
      "parseContentRange (Header_Get (cp_header resp) ''Content-Range'') = Some (0, int (length data) - 1, int (length data))"
      "cp_body resp = [(data, None)]" "strongETag (Header_Get (cp_header resp) ''ETag'') = strongETag etag"
  shows "read_all fetch e fuel n (newHTTPRangeReader (int (length data)) getURL headURL etag False) s = Some ((data, None), s)"
proof (cases "data = []")
  case True
  then show ?thesis
    using assms(1,2,3) by (cases fuel) (simp_all add: newHTTPRangeReader_def rangeReader_Read_def stateError_def live_def ret_def go_run)
next
  case False
  let ?r = "newHTTPRangeReader (int (length data)) getURL headURL etag False"
  let ?r1 = "?r\<lparr>rr_etag := strongETag etag, rr_representationURL := cp_url resp, rr_fetched := True,
      rr_body := Some [(data, None)], rr_responseEnd := int (length data) - 1\<rparr>"
  have st: "stateError e (\<lambda>_. False) i = None" for i using assms(1) by (simp add: stateError_def live_def)
  have "accept_response e (\<lambda>_. False) resp ?r = (None, ?r1)"
    using resp st by (simp add: accept_response_def response_range_def same_representation_def newHTTPRangeReader_def status_defs Let_def)
  then have open1: "openResponse fetch e (\<lambda>_. False) ?r s = Some ((None, ?r1), s)"
    using fetch [OF False] by (simp add: openResponse_def newHTTPRangeReader_def go_run)
  have same: "rangeReader_Read fetch e (\<lambda>_. False) n ?r s = rangeReader_Read fetch e (\<lambda>_. False) n ?r1 s"
    using open1 st assms(2) False by (simp add: rangeReader_Read_def newHTTPRangeReader_def bind_def ret_def)
  obtain k where k: "fuel = Suc k" using assms(3) by (cases fuel) auto
  have "read_all fetch e fuel n ?r s = read_all fetch e fuel n ?r1 s"
    using same by (simp add: k bind_def) (simp add: newHTTPRangeReader_def)
  moreover have "read_all fetch e fuel n ?r1 s = Some ((drop 0 data, None), s)"
    using assms(1-3) False by (intro read_all_body) (simp_all add: newHTTPRangeReader_def)
  ultimately show ?thesis by simp
qed

section \<open>The ranged response\<close>

lemma Get_Set_if: "Header_Get (Header_Set k v h) k' = (if CanonicalHeaderKey k' = CanonicalHeaderKey k then v else Header_Get h k')"
  by (simp add: Header_Get_def Values_Set)

lemma parse_bound_Format: "0 \<le> i \<Longrightarrow> i < 2 ^ 63 \<Longrightarrow> parse_bound (FormatInt i) = Some i"
  by (simp add: parse_bound_def FormatInt_digits ParseInt_FormatInt)

lemma not_digits_slash: "list_all is_digit s \<Longrightarrow> CHR ''/'' \<notin> set s"
  by (auto simp: list_all_iff is_digit_def)

lemma parseContentRange_text:
  assumes "0 \<le> a" "0 < len" "a + len \<le> sz" "sz < 2 ^ 63"
  shows "parseContentRange (contentRange a len sz) = Some (a, a + len - 1, sz)"
proof -
  have dig: "list_all is_digit (FormatInt a)" "list_all is_digit (FormatInt (a + len - 1))"
    using assms by (simp_all add: FormatInt_digits)
  have "Cut ((FormatInt a @ ''-'' @ FormatInt (a + len - 1)) @ CHR ''/'' # FormatInt sz) CHR ''/'' =
      Some (FormatInt a @ ''-'' @ FormatInt (a + len - 1), FormatInt sz)"
    using not_digits_slash [OF dig(1)] not_digits_slash [OF dig(2)] by (intro Cut_append) simp
  moreover have "Cut (FormatInt a @ CHR ''-'' # FormatInt (a + len - 1)) CHR ''-'' = Some (FormatInt a, FormatInt (a + len - 1))"
    using not_digits(1) [OF dig(1)] by (rule Cut_append)
  ultimately show ?thesis
    using assms by (simp add: parseContentRange_def contentRange_def TrimPrefix_def HasPrefix_def parse_bound_Format)
qed

lemma blob_headers_Get:
  assumes "wire_labels (snd x)"
  shows "Header_Get (blob_headers format d x t) ''ETag'' = quoted d" "Header_Get (blob_headers format d x t) ''Etag'' = quoted d"
    "Header_Get (blob_headers format d x t) ''Content-Encoding'' = ''''"
proof -
  obtain tail where tail: "set (map fst tail) \<subseteq> {''Last-Modified''}" and hs: "blob_headers format d x t =
      [(''Etag'', [quoted d]), (''Content-Length'', [FormatInt (int (length (fst x)))])] @ label_map (snd x) @ tail"
    using blob_headers_wire [OF assms] by blast
  show "Header_Get (blob_headers format d x t) ''ETag'' = quoted d" "Header_Get (blob_headers format d x t) ''Etag'' = quoted d"
    by (simp_all add: hs Header_Get_def Header_Values_def canonical_keys)
  have "''Content-Encoding'' \<notin> fst ` set (label_map (snd x))"
    using wire_not_skipped [of "label_map (snd x)" "''Content-Encoding''"] assms
    by (simp add: meta_headers_to_skip_def wire_labels_def)
  then show "Header_Get (blob_headers format d x t) ''Content-Encoding'' = ''''"
    using tail unfolding hs
    by (auto simp: Header_Get_def Header_Values_def canonical_keys map_of_append map_add_def map_of_eq_None_iff [THEN iffD2]
        split: option.splits dest!: map_of_SomeD)
qed

definition first_range :: "bytes \<Rightarrow> header" where
  "first_range data = Header_Set ''Range'' (range_text 0 (int (length data) - 1)) (Header_Set ''Accept-Encoding'' ''identity'' [])"

lemma ServeContent_first:
  assumes "wire_labels (snd x)" "fst x \<noteq> []" "int (length (fst x)) < 2 ^ 63" "rq_method r = MethodGet" "rq_header r = first_range (fst x)"
    and resp: "resp = ServeContent multipart r (Header_Set ''Content-Type'' ctype (blob_headers format d x t)) (fst x)"
  shows "rs_status resp = StatusPartialContent" "rs_body resp = fst x"
    "Header_Get (rs_header resp) ''Content-Range'' = contentRange 0 (int (length (fst x))) (int (length (fst x)))"
    "Header_Get (rs_header resp) ''Content-Length'' = FormatInt (int (length (fst x)))"
    "Header_Get (rs_header resp) ''ETag'' = quoted d" "Header_Get (rs_header resp) ''Content-Encoding'' = ''''"
proof -
  let ?h = "Header_Set ''Content-Type'' ctype (blob_headers format d x t)"
  let ?n = "int (length (fst x))"
  have rng: "Header_Get (rq_header r) ''Range'' = range_text 0 (?n - 1)"
    by (simp add: assms(5) first_range_def Get_Set_if canonical_keys)
  have no: "Header_Get (rq_header r) ''If-Match'' = ''''" "Header_Get (rq_header r) ''If-None-Match'' = ''''"
    "Header_Get (rq_header r) ''If-Range'' = ''''"
    by (simp_all add: assms(5) first_range_def Get_Set_if canonical_keys Header_Get_def [of "[]"] Header_Values_def)
  have "checkPreconditions r ?h = Inr (range_text 0 (?n - 1))"
    by (simp add: checkPreconditions_def rng no Let_def)
  moreover have "parseRange (range_text 0 (?n - 1)) ?n = Ranges [(0, ?n)]"
    using parseRange_text [of 0 "?n - 1" ?n] assms(2,3) by (simp add: Suc_leI)
  moreover have "slice 0 ?n (fst x) = fst x" by (simp add: slice_def)
  ultimately have eq: "resp = \<lparr>rs_status = StatusPartialContent,
      rs_header = Header_Set ''Content-Length'' (FormatInt ?n) (Header_Set ''Accept-Ranges'' ''bytes''
        (Header_Set ''Content-Range'' (contentRange 0 ?n ?n) ?h)), rs_body = fst x\<rparr>"
    using assms(4) by (simp add: resp ServeContent_def method_defs Let_def)
  show "rs_status resp = StatusPartialContent" "rs_body resp = fst x"
    "Header_Get (rs_header resp) ''Content-Range'' = contentRange 0 ?n ?n"
    "Header_Get (rs_header resp) ''Content-Length'' = FormatInt ?n"
    "Header_Get (rs_header resp) ''ETag'' = quoted d" "Header_Get (rs_header resp) ''Content-Encoding'' = ''''"
    by (simp_all add: eq Get_Set_if canonical_keys blob_headers_Get [OF assms(1)])
qed

lemma Get_setMeta: "Header_Get (setMetaHeaders m []) ''ETag'' = quoted (Digest m)"
  by (simp add: setMetaHeaders_def Header_Get_def Values_Set Values_Add_map canonical_keys Let_def split: option.splits)

lemma Get_Del_if: "Header_Get (Header_Del k h) k' = (if CanonicalHeaderKey k' = CanonicalHeaderKey k then '''' else Header_Get h k')"
  by (simp add: Header_Get_def Values_Del)

lemma add_outcome_digest:
  "Digest m = Digest m' \<Longrightarrow> add_outcome L v m r = add_outcome L v m' r"
  unfolding add_outcome_def by (erule ssubst) (rule refl)

lemma add_outcome_valid:
  assumes "digest_lib_ok L" "Digest m = '''' \<or> dl_Validate L (Digest m) = None"
    and "add_outcome L v m r = Added d \<or> add_outcome L v m r = Duplicate d"
  shows "dl_Validate L d = None"
proof -
  have "(if Digest m = '''' then Canonical else dl_Algorithm L (Digest m)) \<in> set algorithms"
    using assms(2) Validate_parts(1) [OF assms(1)] by auto
  then show ?thesis
    using assms(2,3) Validate_data_digest [OF assms(1)] by (auto simp: add_outcome_def Let_def split: if_splits)
qed

section \<open>The client of a served store\<close>

text \<open>
  A handler that serves one store which keeps the contract, openly and without redirects, and the
  connection of a client to it.
\<close>

locale served_store = blob_store L st view inv takes
  for L :: "'h digest_lib" and st :: "'s store" and view inv takes +
  fixes h :: "'s httpHandler" and ns base date :: string and format :: "time \<Rightarrow> string"
    and multipart :: "(int \<times> int) list \<Rightarrow> bytes \<Rightarrow> string \<times> bytes" and ParseTime :: "string \<Rightarrow> time"
  assumes serves: "hh_Stores h ns = st" and writable: "\<not> hh_ReadOnly h"
    and allowed: "hh_AllowedStores h = [] \<or> ns \<in> set (hh_AllowedStores h)"
    and open_access: "hh_Authorizer h = None" and direct: "\<not> hh_Redirect h"
begin

lemma guard_blob:
  assumes "digest_lib_ok L" "dl_Validate L d = None" "rq_path r = ''/'' @ namespaceSegment ns @ ''/'' @ d"
  shows "serve_guard L h r = Inr (ns, d)"
  using parsePath_blob [OF assms(1,2), of ns] valid_nonempty [OF assms(1,2)] assms(3) writable allowed open_access
  by (auto simp: serve_guard_def authorize_def Sanitize_valid [OF assms(1,2)])

lemma guard_post:
  assumes "rq_path r = ''/'' @ namespaceSegment ns" "rq_method r = MethodPost"
  shows "serve_guard L h r = Inr (ns, '''')"
  using parsePath_store [of ns] assms writable allowed open_access
  by (auto simp: serve_guard_def authorize_def)

abbreviation server where
  "server \<equiv> (\<lambda>e r. ServeHTTP L format multipart h (\<lambda>_. e) r)"

abbreviation Do where
  "Do \<equiv> connection server base date"

abbreviation client where
  "client \<equiv> HttpStores_Use base ns"

lemma Do_blob:
  assumes "digest_lib_ok L" "dl_Validate L d = None"
  shows "Do e \<lparr>cq_method = m, cq_url = store_url client d, cq_header = hd', cq_body = b\<rparr> =
    bind (server e \<lparr>rq_method = m, rq_path = ''/'' @ namespaceSegment ns @ ''/'' @ d, rq_header = hd', rq_body = b\<rparr>)
      (\<lambda>r. ret (Inr (received date \<lparr>cq_method = m, cq_url = store_url client d, cq_header = hd', cq_body = b\<rparr> r)))"
  using valid_nonempty [OF assms]
  by (simp add: connection_def store_url_def HttpStores_Use_def)

lemma Do_store:
  "Do e \<lparr>cq_method = m, cq_url = store_url client '''', cq_header = hd', cq_body = b\<rparr> =
    bind (server e \<lparr>rq_method = m, rq_path = ''/'' @ namespaceSegment ns, rq_header = hd', rq_body = b\<rparr>)
      (\<lambda>r. ret (Inr (received date \<lparr>cq_method = m, cq_url = store_url client '''', cq_header = hd', cq_body = b\<rparr> r)))"
  by (simp add: connection_def store_url_def HttpStores_Use_def)

lemma client_head:
  assumes "inv s" "live e" "dl_Validate L d = None"
  shows "case view s d of
      None \<Rightarrow> \<exists>res. Do e \<lparr>cq_method = MethodHead, cq_url = store_url client d, cq_header = hd', cq_body = []\<rparr> s = Some (Inr res, s)
        \<and> cp_status res = StatusNotFound
    | Some x \<Rightarrow> \<exists>t. Do e \<lparr>cq_method = MethodHead, cq_url = store_url client d, cq_header = hd', cq_body = []\<rparr> s =
        Some (Inr (received date \<lparr>cq_method = MethodHead, cq_url = store_url client d, cq_header = hd', cq_body = []\<rparr>
          (no_body StatusOK (blob_headers format d x t))), s)"
proof -
  note L = lib [OF assms(1)]
  let ?r = "\<lparr>rq_method = MethodHead, rq_path = ''/'' @ namespaceSegment ns @ ''/'' @ d, rq_header = hd', rq_body = []\<rparr>"
  have "server e ?r s = serveHead format h (\<lambda>_. e) ns d s"
    using guard_blob [OF L assms(3), of ?r] by (simp add: ServeHTTP_def method_defs)
  then show ?thesis
    using serve_head [OF assms(1), of "\<lambda>_. e" h ns format d] serves assms(2)
    by (cases "view s d") (auto simp: Do_blob [OF L assms(3)] go_run received_def store_error_def http_Error_def)
qed

lemma client_stat:
  assumes "inv s" "live e" "dl_Validate L d = None"
    and "\<And>x. view s d = Some x \<Longrightarrow> wire_labels (snd x) \<and> int (length (fst x)) < 2 ^ 63"
  shows "case view s d of
      None \<Rightarrow> HttpStore_Stat Do ParseTime client e d s = Some (Inl ErrNotExist, s)
    | Some x \<Rightarrow> \<exists>i. HttpStore_Stat Do ParseTime client e d s = Some (Inr i, s)
        \<and> with_info i (infoMeta e') s =
            Some (Inr \<lparr>Digest = d, Labels = from_wire (label_map (snd x)), Size = int (length (fst x))\<rparr>, s)"
proof (cases "view s d")
  case None
  then show ?thesis
    using client_head [OF assms(1-3), of "[]"]
    by (auto simp: HttpStore_Stat_def go_run parseErr_def status_defs)
next
  case (Some x)
  note w = assms(4) [OF Some, THEN conjunct1] assms(4) [OF Some, THEN conjunct2]
  let ?q = "\<lparr>cq_method = MethodHead, cq_url = store_url client d, cq_header = [], cq_body = []\<rparr>"
  obtain t where run: "Do e ?q s = Some (Inr (received date ?q (no_body StatusOK (blob_headers format d x t))), s)"
    using client_head [OF assms(1-3), of "[]"] Some by auto
  note got = received_blob [OF lib [OF assms(1)] assms(3) w, of ?q "received date ?q (no_body StatusOK (blob_headers format d x t))"
      date format t, simplified]
  have meta: "with_info (http_info ParseTime res) (infoMeta e') s = Some (Inr (parseMeta res), s)" for res
    by (cases "parseMeta res") (simp add: http_info_def NewInfo_def infoMeta_def Info_Size_def Info_Labels_def Info_Digest_def go_run Let_def)
  show ?thesis
    using run got meta Some by (auto simp: HttpStore_Stat_def go_run)
qed

text \<open>\<open>Add\<close> over the connection: the outcome of the store, and its effect with the labels sent.\<close>

lemma received_tag:
  assumes "digest_lib_ok L" "dl_Validate L d = None" "Header_Get hs ''ETag'' = quoted d"
  shows "Digest (parseMeta (received date q (no_body status hs))) = d"
  using assms(3) Trim_quoted [OF digest_tag(1) [OF assms(1,2)]] digest_tag(3) [OF assms(1,2)]
  by (simp add: parseMeta_def received_def no_body_def Get_Set_if canonical_keys Let_def)

lemma client_post:
  assumes "inv s" "takes r" "live e" "Digest m = '''' \<or> dl_Validate L (Digest m) = None" "wire_labels (Labels m)"
  shows "\<exists>resp s'. Do e \<lparr>cq_method = MethodPost, cq_url = store_url client (Digest m), cq_header = setLabels (Labels m) [], cq_body = r\<rparr> s
      = Some (Inr (received date \<lparr>cq_method = MethodPost, cq_url = store_url client (Digest m), cq_header = setLabels (Labels m) [], cq_body = r\<rparr> resp), s')
    \<and> inv s' \<and> view s' = after_add (add_outcome L (view s) m r) (m\<lparr>Labels := Some (label_map (Labels m))\<rparr>) r (view s)
    \<and> (case add_outcome L (view s) m r of
         Added d' \<Rightarrow> \<exists>m'. Digest m' = d' \<and> resp = no_body StatusCreated (Header_Del ''Content-Length''
            (Header_Set ''Location'' (''/'' @ namespaceSegment ns @ ''/'' @ d') (setMetaHeaders m' [])))
       | Duplicate d' \<Rightarrow> \<exists>m'. Digest m' = d' \<and> resp = no_body StatusOK (Header_Del ''Content-Length'' (setMetaHeaders m' []))
       | Mismatch \<Rightarrow> rs_status resp = StatusUnprocessableEntity
       | Failed \<Rightarrow> rs_status resp \<noteq> StatusCreated)"
proof -
  note L = lib [OF assms(1)]
  let ?path = "if Digest m = '''' then ''/'' @ namespaceSegment ns else ''/'' @ namespaceSegment ns @ ''/'' @ Digest m"
  let ?r = "\<lparr>rq_method = MethodPost, rq_path = ?path, rq_header = setLabels (Labels m) [], rq_body = r\<rparr>"
  have guard: "serve_guard L h ?r = Inr (ns, Digest m)"
    using guard_blob [OF L, of "Digest m" ?r] guard_post [of ?r] assms(4) by auto
  have "server e ?r s = servePost h (\<lambda>_. e) ns (Digest m) ?r s" by (simp add: ServeHTTP_def guard)
  moreover obtain resp s' where "servePost h (\<lambda>_. e) ns (Digest m) ?r s = Some (resp, s')" "inv s'"
      "view s' = after_add (add_outcome L (view s) (post_meta (Digest m) ?r) r) (post_meta (Digest m) ?r) r (view s)"
      "case add_outcome L (view s) (post_meta (Digest m) ?r) r of
         Added d' \<Rightarrow> \<exists>m'. Digest m' = d' \<and> resp = no_body StatusCreated (Header_Del ''Content-Length''
            (Header_Set ''Location'' (''/'' @ namespaceSegment ns @ ''/'' @ d') (setMetaHeaders m' [])))
       | Duplicate d' \<Rightarrow> \<exists>m'. Digest m' = d' \<and> resp = no_body StatusOK (Header_Del ''Content-Length'' (setMetaHeaders m' []))
       | Mismatch \<Rightarrow> rs_status resp = StatusUnprocessableEntity
       | Failed \<Rightarrow> rs_status resp \<noteq> StatusCreated"
    using serve_post [of s ?r "\<lambda>_. e" h ns "Digest m"] assms(1,2,3) serves by auto
  moreover have "add_outcome L (view s) (post_meta (Digest m) ?r) r = add_outcome L (view s) m r"
    by (rule add_outcome_digest) (simp add: post_meta_def)
  moreover have "after_add out (post_meta (Digest m) ?r) r v = after_add out (m\<lparr>Labels := Some (label_map (Labels m))\<rparr>) r v" for out v
    by (simp add: after_add_def post_meta_def labels_to_server [OF assms(5)] split: add_outcome.splits)
  moreover have "Do e \<lparr>cq_method = MethodPost, cq_url = store_url client (Digest m), cq_header = setLabels (Labels m) [], cq_body = r\<rparr> =
      bind (server e ?r) (\<lambda>resp. ret (Inr (received date
        \<lparr>cq_method = MethodPost, cq_url = store_url client (Digest m), cq_header = setLabels (Labels m) [], cq_body = r\<rparr> resp)))"
    using Do_blob [OF L, of "Digest m"] Do_store assms(4) by auto
  ultimately show ?thesis by (auto simp: bind_def ret_def)
qed

lemma client_add:
  assumes "inv s" "takes r" "live e" "Digest m = '''' \<or> dl_Validate L (Digest m) = None" "wire_labels (Labels m)"
  shows "\<exists>res s'. HttpStore_Add Do client e m r s = Some (res, s') \<and> inv s'
    \<and> gives (add_outcome L (view s) m r) res
    \<and> view s' = after_add (add_outcome L (view s) m r) (m\<lparr>Labels := Some (label_map (Labels m))\<rparr>) r (view s)"
proof -
  let ?q = "\<lparr>cq_method = MethodPost, cq_url = store_url client (Digest m), cq_header = setLabels (Labels m) [], cq_body = r\<rparr>"
  obtain resp s' where p: "Do e ?q s = Some (Inr (received date ?q resp), s')" "inv s'"
      "view s' = after_add (add_outcome L (view s) m r) (m\<lparr>Labels := Some (label_map (Labels m))\<rparr>) r (view s)"
      and out: "case add_outcome L (view s) m r of
         Added d' \<Rightarrow> \<exists>m'. Digest m' = d' \<and> resp = no_body StatusCreated (Header_Del ''Content-Length''
            (Header_Set ''Location'' (''/'' @ namespaceSegment ns @ ''/'' @ d') (setMetaHeaders m' [])))
       | Duplicate d' \<Rightarrow> \<exists>m'. Digest m' = d' \<and> resp = no_body StatusOK (Header_Del ''Content-Length'' (setMetaHeaders m' []))
       | Mismatch \<Rightarrow> rs_status resp = StatusUnprocessableEntity
       | Failed \<Rightarrow> rs_status resp \<noteq> StatusCreated"
    using client_post [OF assms] by blast
  have "HttpStore_Add Do client e m r s =
      Some ((parseMeta (received date ?q resp), add_error (rs_status resp)), s')"
    using p(1) by (simp add: HttpStore_Add_def go_run received_def)
  moreover have "gives (add_outcome L (view s) m r) (parseMeta (received date ?q resp), add_error (rs_status resp))"
  proof (cases "add_outcome L (view s) m r")
    case (Added d)
    have "dl_Validate L d = None" using add_outcome_valid [OF lib [OF assms(1)] assms(4)] Added by blast
    from received_tag [OF lib [OF assms(1)] this] show ?thesis
      using out Added by (auto simp: Get_Del_if Get_Set_if canonical_keys Get_setMeta no_body_def add_error_def status_defs)
  next
    case (Duplicate d)
    have "dl_Validate L d = None" using add_outcome_valid [OF lib [OF assms(1)] assms(4)] Duplicate by blast
    from received_tag [OF lib [OF assms(1)] this] show ?thesis
      using out Duplicate by (auto simp: Get_Del_if canonical_keys Get_setMeta no_body_def add_error_def status_defs)
  qed (use out in \<open>auto simp: add_error_def status_defs\<close>)
  ultimately show ?thesis using p by blast
qed

lemma client_erase:
  assumes "inv s" "live e" "dl_Validate L d = None"
  shows "\<exists>s'. HttpStore_Erase Do client e d s = Some (None, s') \<and> inv s' \<and> view s' = (view s)(d := None)"
proof -
  note L = lib [OF assms(1)]
  let ?r = "\<lparr>rq_method = MethodDelete, rq_path = ''/'' @ namespaceSegment ns @ ''/'' @ d, rq_header = [], rq_body = []\<rparr>"
  have "server e ?r s = serveDelete h (\<lambda>_. e) ns d s"
    using guard_blob [OF L assms(3), of ?r] by (simp add: ServeHTTP_def method_defs)
  then show ?thesis
    using serve_delete [OF assms(1), of "\<lambda>_. e" h ns d] serves assms(2)
    by (auto simp: HttpStore_Erase_def Do_blob [OF L assms(3)] go_run received_def no_body_def parseErr_def)
qed

lemma client_label:
  assumes "inv s" "live e" "dl_Validate L d = None" "wire_labels ls"
  shows "\<exists>s'. HttpStore_Label Do client e d ls s = Some (if view s d = None then Some ErrNotExist else None, s') \<and> inv s'
    \<and> view s' = (case view s d of None \<Rightarrow> view s | Some x \<Rightarrow> (view s)(d \<mapsto> (fst x, Some (label_map ls))))"
proof -
  note L = lib [OF assms(1)]
  let ?r = "\<lparr>rq_method = MethodPatch, rq_path = ''/'' @ namespaceSegment ns @ ''/'' @ d, rq_header = setLabels ls [], rq_body = []\<rparr>"
  have "server e ?r s = servePatch h (\<lambda>_. e) ns d ?r s"
    using guard_blob [OF L assms(3), of ?r] by (simp add: ServeHTTP_def method_defs)
  then show ?thesis
    using serve_patch [OF assms(1), of "\<lambda>_. e" h ns d ?r] serves assms(2) labels_to_server [OF assms(4)]
    by (auto simp: HttpStore_Label_def Do_blob [OF L assms(3)] go_run received_def no_body_def parseErr_def
        store_error_def http_Error_def status_defs)
qed

text \<open>\<open>Open\<close> over the connection, and the whole download through the reader it answers.\<close>

lemma client_open:
  assumes "inv s" "live e" "live e'" "dl_Validate L d = None" "view s d = Some x"
    and "wire_labels (snd x)" "int (length (fst x)) < 2 ^ 63" "0 < n" "length (fst x) + 1 < fuel"
  shows "\<exists>rd i. HttpStore_Open Do ParseTime client e d s = Some (Inr (rd, i), s)
    \<and> read_all (open_fetch Do e' (rr_size rd)) e' fuel n rd s = Some ((fst x, None), s)"
proof -
  note L = lib [OF assms(1)]
  let ?q = "\<lparr>cq_method = MethodHead, cq_url = store_url client d, cq_header = Header_Set ''Accept-Encoding'' ''identity'' [], cq_body = []\<rparr>"
  obtain t where run: "Do e ?q s = Some (Inr (received date ?q (no_body StatusOK (blob_headers format d x t))), s)"
    using client_head [OF assms(1,2,4), of "Header_Set ''Accept-Encoding'' ''identity'' []"] assms(5) by auto
  note got = received_blob [OF L assms(4,6,7), of ?q "received date ?q (no_body StatusOK (blob_headers format d x t))" date format t, simplified]
  let ?rd = "newHTTPRangeReader (int (length (fst x))) (store_url client d) (store_url client d) (quoted d) False"
  have len: "cp_length (received date ?q (no_body StatusOK (blob_headers format d x t))) = int (length (fst x))"
    using got(6) by (simp add: parseMeta_def)
  have opened: "\<exists>i. HttpStore_Open Do ParseTime client e d s = Some (Inr (?rd, i), s)"
    using run got len by (simp add: HttpStore_Open_def go_run)
  let ?g = "\<lparr>cq_method = MethodGet, cq_url = store_url client d, cq_header = first_range (fst x), cq_body = []\<rparr>"
  let ?r = "\<lparr>rq_method = MethodGet, rq_path = ''/'' @ namespaceSegment ns @ ''/'' @ d, rq_header = first_range (fst x), rq_body = []\<rparr>"
  have "server e' ?r s = serveOpen format multipart h (\<lambda>_. e') ns d ?r s"
    using guard_blob [OF L assms(4), of ?r] direct by (simp add: ServeHTTP_def serveGet_def method_defs)
  then obtain t' where srv: "server e' ?r s = Some (ServeContent multipart ?r
      (Header_Set ''Content-Type'' ''application/octet-stream'' (blob_headers format d x t')) (fst x), s)"
    using serve_open [OF assms(1), of "\<lambda>_. e'" h ns format multipart d ?r] serves assms(3,5) by auto
  let ?resp = "ServeContent multipart ?r (Header_Set ''Content-Type'' ''application/octet-stream'' (blob_headers format d x t')) (fst x)"
  have fetch: "open_fetch Do e' (int (length (fst x))) (store_url client d) 0 '''' s = Some (Inr (received date ?g ?resp), s)"
    using srv by (simp add: open_fetch_def first_range_def [symmetric] Do_blob [OF L assms(4)] go_run Let_def)
  have "read_all (open_fetch Do e' (int (length (fst x)))) e' fuel n ?rd s = Some ((fst x, None), s)"
  proof (cases "fst x = []")
    case True
    then show ?thesis
      using assms(3,8,9) by (cases fuel) (simp_all add: newHTTPRangeReader_def rangeReader_Read_def stateError_def live_def ret_def go_run)
  next
    case False
    note sc = ServeContent_first [OF assms(6) False assms(7), of ?r ?resp multipart "''application/octet-stream''" format d t', simplified]
    have "parseContentRange (contentRange 0 (int (length (fst x))) (int (length (fst x)))) =
        Some (0, int (length (fst x)) - 1, int (length (fst x)))"
      using parseContentRange_text [of 0 "int (length (fst x))" "int (length (fst x))"] False assms(7) by simp
    then show ?thesis
      using sc assms(7)
      by (intro read_all_download [where fetch = "open_fetch Do e' (int (length (fst x)))" and getURL = "store_url client d"
            and resp = "received date ?g ?resp", OF assms(3,8,9) fetch])
         (simp_all add: received_def Get_Set_if canonical_keys identityResponse_def bytes_Reader_def ParseInt_FormatInt method_defs Let_def)
  qed
  then show ?thesis using opened by (auto simp: newHTTPRangeReader_def)
qed

end

section \<open>The in-memory stores over HTTP\<close>

definition mem_handler :: "'h digest_lib \<Rightarrow> memStores httpHandler" where
  "mem_handler L = \<lparr>hh_Stores = MemStore_store L, hh_ReadOnly = False, hh_AllowedStores = [], hh_Authorizer = None,
     hh_Redirect = False, hh_RedirectTTL = 0, hh_Presigner = (\<lambda>_. None)\<rparr>"

interpretation mem_http: served_store L "MemStore_store L ns" "mem_shows ns" "mem_run_ok L U" "\<lambda>r. fst (io_Copy r) \<in> U"
  "mem_handler L" ns base date format multipart ParseTime
  for L :: "'h digest_lib" and ns U base date format multipart ParseTime
  by unfold_locales (simp_all add: mem_handler_def)

text \<open>The transport of a client that is connected to such a handler.\<close>

definition mem_transport ::
  "'h digest_lib \<Rightarrow> (time \<Rightarrow> string) \<Rightarrow> ((int \<times> int) list \<Rightarrow> bytes \<Rightarrow> string \<times> bytes) \<Rightarrow> string \<Rightarrow> string \<Rightarrow> memStores transport" where
  "mem_transport L format multipart base date =
     connection (\<lambda>e r. ServeHTTP L format multipart (mem_handler L) (\<lambda>_. e) r) base date"

section \<open>Properties\<close>


definition example_transport :: "memStores transport" where
  "example_transport = mem_transport example_lib (\<lambda>_. []) (\<lambda>_ _. ([], [])) ''http://h'' ''now''"




end
