(* ===== verification/HttpOrigin.thy ===== *)
theory HttpOrigin
  imports Oidc RangeReader
begin

text \<open>
  \<open>http_client.go\<close> and \<open>http_auth.go\<close>: the HTTP client with ordered read origins and credentials per
  origin. The network is the parameter \<open>net\<close>, one exchange on the world \<open>'w\<close>, and \<open>next_request\<close> is how
  \<open>net/http\<close> makes the request that follows a redirect, from all the requests so far. The requests that reach the network are
  recorded, the newest first.
\<close>

section \<open>The code\<close>

record ureq =
  uq_method :: string
  uq_url :: url
  uq_host :: string
  uq_header :: header
  uq_body :: "reader option"

definition JoinHostPort :: "string \<Rightarrow> string \<Rightarrow> string" where
  "JoinHostPort host port = (if CHR '':'' \<in> set host then ''['' @ host @ '']:'' @ port else host @ '':'' @ port)"

definition httpOrigin :: "url \<Rightarrow> string" where
  "httpOrigin u =
     (let port = (if u_port u = '''' then (if u_scheme u = ''https'' then ''443'' else ''80'') else u_port u)
      in ToLower (u_scheme u) @ ''://'' @ JoinHostPort (ToLower (u_host u)) port)"

definition removeHTTPHeader :: "string \<Rightarrow> header \<Rightarrow> header" where
  "removeHTTPHeader name h = filter (\<lambda>(key, _). \<not> EqualFold key name) h"

definition stripHTTPCredentials :: "ureq \<Rightarrow> ureq" where
  "stripHTTPCredentials r =
     r\<lparr>uq_host := '''', uq_url := (uq_url r)\<lparr>u_user := False\<rparr>,
       uq_header := removeHTTPHeader ''Cookie'' (removeHTTPHeader ''Proxy-Authorization''
         (removeHTTPHeader ''Authorization'' (uq_header r)))\<rparr>"

subsection \<open>Authentication\<close>

record HTTPAuth =
  ha_Kind :: string
  ha_Value :: "(error + string) option"

text \<open>\<open>base64.StdEncoding\<close> is the parameter \<open>b64\<close>.\<close>

definition auth_header :: "(string \<Rightarrow> string) \<Rightarrow> HTTPAuth \<Rightarrow> error + string" where
  "auth_header b64 a =
     (case ha_Value a of
        None \<Rightarrow> Inl (ErrorString ''nil'')
      | Some (Inl err) \<Rightarrow> Inl err
      | Some (Inr value) \<Rightarrow>
          if ha_Kind a = ''bearer'' then
            (if value = '''' \<or> list_ex (\<lambda>c. byte_val c \<le> 32 \<or> byte_val c \<ge> 127) value
             then Inl (ErrorString ''invalid bearer token'') else Inr (''Bearer '' @ value))
          else if ha_Kind a = ''basic'' then
            (if CHR '':'' \<notin> set value \<or> list_ex (\<lambda>c. byte_val c < 32 \<or> byte_val c = 127) value
             then Inl (ErrorString ''basic authentication requires a username:password pair without control characters'')
             else Inr (''Basic '' @ b64 value))
          else Inl (ErrorString ''unsupported authentication kind''))"

subsection \<open>Construction\<close>

record originClient =
  oc_targets :: "url list"
  oc_auth :: "(string \<times> HTTPAuth) list"
  oc_CheckRedirect :: "(ureq \<Rightarrow> ureq list \<Rightarrow> error option) option"

definition bad_target :: "url \<Rightarrow> bool" where
  "bad_target u \<longleftrightarrow> u_host u = '''' \<or> (u_scheme u \<noteq> ''http'' \<and> u_scheme u \<noteq> ''https'') \<or> u_user u
     \<or> u_rawquery u \<noteq> '''' \<or> u_forcequery u \<or> u_fragment u \<noteq> ''''"

fun check_targets :: "(string \<Rightarrow> url option) \<Rightarrow> string list \<Rightarrow> string list \<Rightarrow> error + url list" where
  "check_targets parse known [] = Inr []"
| "check_targets parse known (raw # raws) =
     (case parse raw of
        None \<Rightarrow> Inl (ErrorString ''invalid HTTP target'')
      | Some u0 \<Rightarrow>
          if bad_target u0 then Inl (ErrorString ''invalid HTTP target'')
          else (let u = u0\<lparr>u_path := TrimRight (u_path u0) ''/''\<rparr>; key = httpOrigin u @ u_path u
                in if key \<in> set known then Inl (ErrorString ''duplicate HTTP target'')
                   else (case check_targets parse (key # known) raws of Inl err \<Rightarrow> Inl err | Inr us \<Rightarrow> Inr (u # us))))"

fun check_auth :: "(string \<Rightarrow> url option) \<Rightarrow> (string \<times> HTTPAuth) list \<Rightarrow> (string \<times> HTTPAuth) list \<Rightarrow> error + (string \<times> HTTPAuth) list" where
  "check_auth parse acc [] = Inr acc"
| "check_auth parse acc ((raw, auth) # rest) =
     (case parse raw of
        None \<Rightarrow> Inl (ErrorString ''authentication requires an HTTP origin'')
      | Some u \<Rightarrow>
          if bad_target u \<or> (u_path u \<noteq> '''' \<and> u_path u \<noteq> ''/'') then Inl (ErrorString ''authentication requires an HTTP origin'')
          else if map_of acc (httpOrigin u) \<noteq> None then Inl (ErrorString ''duplicate authentication origin'')
          else if ha_Kind auth \<noteq> ''bearer'' \<and> ha_Kind auth \<noteq> ''basic'' then Inl (ErrorString ''unsupported authentication kind'')
          else if ha_Value auth = None then Inl (ErrorString ''authentication value is required'')
          else check_auth parse (acc @ [(httpOrigin u, auth)]) rest)"

definition newHTTPOriginClient ::
  "(string \<Rightarrow> url option) \<Rightarrow> string list \<Rightarrow> (string \<times> HTTPAuth) list \<Rightarrow> (ureq \<Rightarrow> ureq list \<Rightarrow> error option) option
   \<Rightarrow> error + originClient" where
  "newHTTPOriginClient parse targets auth redirect =
     (if targets = [] then Inl (ErrorString ''at least one HTTP target is required'')
      else (case check_targets parse [] targets of
              Inl err \<Rightarrow> Inl err
            | Inr us \<Rightarrow> (case check_auth parse [] auth of
                          Inl err \<Rightarrow> Inl err
                        | Inr a \<Rightarrow> Inr \<lparr>oc_targets = us, oc_auth = a, oc_CheckRedirect = redirect\<rparr>)))"

text \<open>The redirect policy it installs: the request to follow, or an error.\<close>

definition CheckRedirect :: "originClient \<Rightarrow> ureq \<Rightarrow> ureq list \<Rightarrow> error + ureq" where
  "CheckRedirect c req via =
     (let req' = (if \<exists>p \<in> set via. httpOrigin (uq_url p) \<noteq> httpOrigin (uq_url req) then stripHTTPCredentials req else req)
      in case oc_CheckRedirect c of
           Some f \<Rightarrow> (case f req' via of Some err \<Rightarrow> Inl err | None \<Rightarrow> Inr req')
         | None \<Rightarrow> if length via \<ge> 10 then Inl (ErrorString ''stopped after 10 redirects'') else Inr req')"

subsection \<open>Requests\<close>

text \<open>The state of an attempt: the world, what the transport has seen, and the requests sent.\<close>

record 'w attempt =
  at_world :: 'w
  at_responded :: bool
  at_failed :: bool
  at_sent :: "ureq list"

definition RoundTrip ::
  "(string \<Rightarrow> string) \<Rightarrow> (ureq \<Rightarrow> ('w, error + cresp) go) \<Rightarrow> (string \<times> HTTPAuth) list \<Rightarrow> ureq \<Rightarrow> ('w attempt, error + cresp) go" where
  "RoundTrip b64 net auth r s =
     (let req = (case map_of auth (httpOrigin (uq_url r)) of
                   None \<Rightarrow> Inr r
                 | Some a \<Rightarrow>
                     (case auth_header b64 a of
                        Inl err \<Rightarrow> Inl (Wrapped (''authentication for origin '' @ httpOrigin (uq_url r)) err)
                      | Inr v \<Rightarrow> Inr (r\<lparr>uq_header := Header_Set ''Authorization'' v (removeHTTPHeader ''Authorization'' (uq_header r))\<rparr>)))
      in case req of
           Inl err \<Rightarrow> Some (Inl err, s)
         | Inr r' \<Rightarrow>
             (case net r' (at_world s) of
                None \<Rightarrow> None
              | Some (res, w') \<Rightarrow>
                  Some (res, s\<lparr>at_world := w', at_sent := r' # at_sent s,
                               at_responded := (at_responded s \<or> (\<exists>x. res = Inr x)),
                               at_failed := (at_failed s \<or> (\<exists>x. res = Inl x))\<rparr>)))"

text \<open>\<open>http.Client.Do\<close>: \<open>via\<close> are the requests made so far, in order; each redirect costs a unit of fuel.\<close>

fun client_Do ::
  "(string \<Rightarrow> string) \<Rightarrow> (ureq \<Rightarrow> ('w, error + cresp) go) \<Rightarrow> (ureq list \<Rightarrow> cresp \<Rightarrow> ureq option) \<Rightarrow> originClient
   \<Rightarrow> nat \<Rightarrow> ureq list \<Rightarrow> ureq \<Rightarrow> ('w attempt, error + cresp) go" where
  "client_Do b64 net next_request c 0 via req = (\<lambda>_. None)"
| "client_Do b64 net next_request c (Suc k) via req =
     chk (RoundTrip b64 net (oc_auth c) req) Inl (\<lambda>resp.
       case next_request (via @ [req]) resp of
         None \<Rightarrow> ret (Inr resp)
       | Some r' \<Rightarrow>
           (case CheckRedirect c r' (via @ [req]) of
              Inl err \<Rightarrow> ret (Inl err)
            | Inr r'' \<Rightarrow> client_Do b64 net next_request c k (via @ [req]) r''))"

text \<open>The first target that a read belongs to, and the rest of its path.\<close>

fun find_base :: "url \<Rightarrow> url list \<Rightarrow> (url list \<times> string) option" where
  "find_base u [] = None"
| "find_base u (base # bases) =
     (if httpOrigin u = httpOrigin base \<and> (u_path u = u_path base \<or> HasPrefix (u_path u) (u_path base @ ''/''))
      then Some (base # bases, TrimPrefix (u_path u) (u_path base))
      else find_base u bases)"

definition may_fail_over :: "ureq \<Rightarrow> bool" where
  "may_fail_over r \<longleftrightarrow> (uq_method r = MethodGet \<or> uq_method r = MethodHead) \<and> uq_body r = None
     \<and> Header_Get (uq_header r) ''If-Match'' = ''''"

text \<open>The request to one target; \<open>suffix\<close> is \<open>None\<close> for a request outside the targets.\<close>

definition target_request :: "ureq \<Rightarrow> string option \<Rightarrow> url \<Rightarrow> ureq" where
  "target_request r suffix target =
     (case suffix of
        None \<Rightarrow> r
      | Some sx \<Rightarrow>
          (let r' = r\<lparr>uq_url := (uq_url r)\<lparr>u_scheme := u_scheme target, u_host := u_host target, u_port := u_port target,
                                         u_path := u_path target @ sx\<rparr>\<rparr>
           in if httpOrigin (uq_url r') \<noteq> httpOrigin (uq_url r) then stripHTTPCredentials r' else r'))"

text \<open>
  The loop over the targets. Each attempt starts with fresh flags; \<open>live'\<close> says whether the context of
  the request was still good after the \<open>n\<close>-th attempt.
\<close>

fun try_targets ::
  "(string \<Rightarrow> string) \<Rightarrow> (ureq \<Rightarrow> ('w, error + cresp) go) \<Rightarrow> (ureq list \<Rightarrow> cresp \<Rightarrow> ureq option) \<Rightarrow> originClient
   \<Rightarrow> nat \<Rightarrow> (nat \<Rightarrow> bool) \<Rightarrow> ureq \<Rightarrow> string option \<Rightarrow> url list \<Rightarrow> error \<Rightarrow> ('w attempt, error + cresp) go" where
  "try_targets b64 net nr c fuel live' r suffix [] last' = ret (Inl last')"
| "try_targets b64 net nr c fuel live' r suffix (t # ts) last' =
     (\<lambda>s. case client_Do b64 net nr c fuel [] (target_request r suffix t) (s\<lparr>at_responded := False, at_failed := False\<rparr>) of
            None \<Rightarrow> None
          | Some (res, s') \<Rightarrow>
              (case res of
                 Inr resp \<Rightarrow> Some (Inr resp, s')
               | Inl err \<Rightarrow>
                   if at_responded s' \<or> \<not> at_failed s' \<or> \<not> live' (length ts) then Some (Inl err, s')
                   else try_targets b64 net nr c fuel live' r suffix ts err s'))"

definition origin_do ::
  "(string \<Rightarrow> string) \<Rightarrow> (ureq \<Rightarrow> ('w, error + cresp) go) \<Rightarrow> (ureq list \<Rightarrow> cresp \<Rightarrow> ureq option) \<Rightarrow> originClient
   \<Rightarrow> nat \<Rightarrow> (nat \<Rightarrow> bool) \<Rightarrow> ureq \<Rightarrow> ('w attempt, error + cresp) go" where
  "origin_do b64 net nr c fuel live' r =
     (case (if may_fail_over r then find_base (uq_url r) (oc_targets c) else None) of
        Some (targets, suffix) \<Rightarrow> try_targets b64 net nr c fuel live' r (Some suffix) targets EOF
      | None \<Rightarrow> try_targets b64 net nr c fuel live' r None [uq_url r] EOF)"

section \<open>Lemmas\<close>

definition credential_key :: "string \<Rightarrow> bool" where
  "credential_key k \<longleftrightarrow> EqualFold k ''Authorization'' \<or> EqualFold k ''Proxy-Authorization'' \<or> EqualFold k ''Cookie''"

definition has_credentials :: "ureq \<Rightarrow> bool" where
  "has_credentials r \<longleftrightarrow> (\<exists>(k, _) \<in> set (uq_header r). credential_key k)"

text \<open>
  What \<open>net/http\<close> does on a redirect: it copies headers of the first request of the chain, and makes up
  no credentials.
\<close>

definition no_new_credentials :: "(ureq list \<Rightarrow> cresp \<Rightarrow> ureq option) \<Rightarrow> bool" where
  "no_new_credentials nr \<longleftrightarrow>
     (\<forall>reqs resp r'. nr reqs resp = Some r' \<longrightarrow> reqs \<noteq> [] \<longrightarrow> has_credentials r' \<longrightarrow> has_credentials (hd reqs))"

lemma strip_no_credentials [simp]: "\<not> has_credentials (stripHTTPCredentials r)"
  by (auto simp: has_credentials_def stripHTTPCredentials_def removeHTTPHeader_def credential_key_def)

lemma strip_origin [simp]: "httpOrigin (uq_url (stripHTTPCredentials r)) = httpOrigin (uq_url r)"
  by (simp add: stripHTTPCredentials_def httpOrigin_def)

text \<open>A request as it may be sent: with credentials of its origin, or of the caller to the caller's origin.\<close>

definition rightly_sent :: "(string \<Rightarrow> string) \<Rightarrow> originClient \<Rightarrow> string \<Rightarrow> ureq \<Rightarrow> bool" where
  "rightly_sent b64 c home q \<longleftrightarrow>
     (case map_of (oc_auth c) (httpOrigin (uq_url q)) of
        Some a \<Rightarrow> \<exists>v. auth_header b64 a = Inr v \<and> Header_Values (uq_header q) ''Authorization'' = [v]
      | None \<Rightarrow> has_credentials q \<longrightarrow> httpOrigin (uq_url q) = home)"

lemma RoundTrip_sent:
  assumes "RoundTrip b64 net (oc_auth c) r s = Some (res, s')" "has_credentials r \<longrightarrow> httpOrigin (uq_url r) = home"
    and "\<forall>q \<in> set (at_sent s). rightly_sent b64 c home q"
  shows "\<forall>q \<in> set (at_sent s'). rightly_sent b64 c home q"
  using assms
  by (auto simp: RoundTrip_def rightly_sent_def Values_Set Let_def split: option.splits sum.splits)

lemma CheckRedirect_home:
  assumes "no_new_credentials nr" "nr (via @ [req]) resp = Some r'" "CheckRedirect c r' (via @ [req]) = Inr r''"
    and "has_credentials (hd (via @ [req])) \<longrightarrow> httpOrigin (uq_url (hd (via @ [req]))) = home"
  shows "has_credentials r'' \<longrightarrow> httpOrigin (uq_url r'') = home"
proof -
  have "hd (via @ [req]) \<in> set (via @ [req])" by (rule hd_in_set) simp
  moreover have "has_credentials r' \<longrightarrow> has_credentials (hd (via @ [req]))"
    using assms(1,2) unfolding no_new_credentials_def by blast
  ultimately show ?thesis
    using assms(3,4) by (auto simp: CheckRedirect_def Let_def split: option.splits if_splits)
qed

lemma client_Do_sent:
  assumes "client_Do b64 net nr c fuel via req s = Some (res, s')" "no_new_credentials nr"
    and "has_credentials req \<longrightarrow> httpOrigin (uq_url req) = home"
    and "has_credentials (hd (via @ [req])) \<longrightarrow> httpOrigin (uq_url (hd (via @ [req]))) = home"
    and "\<forall>q \<in> set (at_sent s). rightly_sent b64 c home q"
  shows "\<forall>q \<in> set (at_sent s'). rightly_sent b64 c home q"
  using assms
proof (induction fuel arbitrary: via req s)
  case (Suc fuel)
  obtain res1 s1 where rt: "RoundTrip b64 net (oc_auth c) req s = Some (res1, s1)"
    using Suc.prems(1) by (auto simp: go_run split: option.splits)
  note sent = RoundTrip_sent [OF rt Suc.prems(3,5)]
  show ?case
  proof (cases "\<exists>resp r' r''. res1 = Inr resp \<and> nr (via @ [req]) resp = Some r' \<and> CheckRedirect c r' (via @ [req]) = Inr r''")
    case True
    then obtain resp r' r'' where n: "res1 = Inr resp" "nr (via @ [req]) resp = Some r'" "CheckRedirect c r' (via @ [req]) = Inr r''"
      by blast
    have "client_Do b64 net nr c fuel (via @ [req]) r'' s1 = Some (res, s')"
      using Suc.prems(1) rt n by (simp add: go_run)
    moreover have "has_credentials r'' \<longrightarrow> httpOrigin (uq_url r'') = home"
      by (rule CheckRedirect_home [OF Suc.prems(2) n(2,3) Suc.prems(4)])
    moreover have "hd ((via @ [req]) @ [r'']) = hd (via @ [req])" by (cases via) auto
    ultimately show ?thesis using Suc.IH [of "via @ [req]" r'' s1] Suc.prems(2,4) sent by simp
  next
    case False
    then have "s' = s1" using Suc.prems(1) rt by (auto simp: go_run split: sum.splits option.splits)
    then show ?thesis using sent by simp
  qed
qed simp

lemma target_request_home:
  "has_credentials (target_request r suffix t) \<longrightarrow> httpOrigin (uq_url (target_request r suffix t)) = httpOrigin (uq_url r)"
  by (auto simp: target_request_def Let_def split: option.splits)

lemma try_targets_sent:
  assumes "try_targets b64 net nr c fuel lv r suffix ts last' s = Some (res, s')" "no_new_credentials nr"
    and "\<forall>q \<in> set (at_sent s). rightly_sent b64 c (httpOrigin (uq_url r)) q"
  shows "\<forall>q \<in> set (at_sent s'). rightly_sent b64 c (httpOrigin (uq_url r)) q"
  using assms
proof (induction ts arbitrary: last' s)
  case (Cons t ts)
  then obtain res1 s1 where d: "client_Do b64 net nr c fuel [] (target_request r suffix t) (s\<lparr>at_responded := False, at_failed := False\<rparr>) = Some (res1, s1)"
    by (auto split: option.splits)
  have "\<forall>q \<in> set (at_sent s1). rightly_sent b64 c (httpOrigin (uq_url r)) q"
    using client_Do_sent [OF d Cons.prems(2), of "httpOrigin (uq_url r)"] target_request_home [of r suffix t] Cons.prems(3) by simp
  then show ?case using Cons d by (auto split: sum.splits if_splits)
qed (simp add: ret_def)

section \<open>Properties\<close>


definition example_origin :: "string \<Rightarrow> url" where
  "example_origin h = \<lparr>u_scheme = ''https'', u_user = False, u_host = h, u_port = '''', u_path = '''', u_rawquery = '''',
     u_forcequery = False, u_fragment = ''''\<rparr>"

definition example_read :: ureq where
  "example_read = \<lparr>uq_method = ''GET'', uq_url = example_origin ''a'', uq_host = '''', uq_header = [(''Cookie'', [''c''])], uq_body = None\<rparr>"

definition example_client :: originClient where
  "example_client = \<lparr>oc_targets = [example_origin ''a'', example_origin ''b''], oc_auth = [], oc_CheckRedirect = None\<rparr>"

definition example_start :: "unit attempt" where
  "example_start = \<lparr>at_world = (), at_responded = False, at_failed = False, at_sent = []\<rparr>"

lemma example_origin_do:
  "\<exists>s' q q'. origin_do (\<lambda>x. x) (\<lambda>q. ret (Inl ContextCanceled)) (\<lambda>_ _. None) example_client (Suc 0) (\<lambda>_. True) example_read example_start
     = Some (Inl ContextCanceled, s') \<and> at_sent s' = [q, q'] \<and> q = stripHTTPCredentials (example_read\<lparr>uq_url := example_origin ''b''\<rparr>)"
proof -
  have o: "httpOrigin (example_origin ''a'') = ''https://a:443''" "httpOrigin (example_origin ''b'') = ''https://b:443''"
    by code_simp+
  have im: "CanonicalHeaderKey ''If-Match'' = ''If-Match''" by code_simp
  have up: "\<And>h. u_path (example_origin h) = ''''" "\<And>h g. (example_origin h)\<lparr>u_scheme := ''https'', u_host := g, u_port := '''', u_path := ''''\<rparr> = example_origin g"
    "\<And>h. u_scheme (example_origin h) = ''https''" "\<And>h. u_host (example_origin h) = h" "\<And>h. u_port (example_origin h) = ''''"
    by (simp_all add: example_origin_def)
  show ?thesis
    by (simp add: origin_do_def may_fail_over_def example_read_def example_client_def example_start_def method_defs
        Header_Get_def Header_Values_def im o up TrimPrefix_def HasPrefix_def target_request_def Let_def RoundTrip_def go_run
        stripHTTPCredentials_def)
qed


lemma RoundTrip_total:
  assumes "\<forall>q w. net q w \<noteq> None"
  shows "\<exists>res s'. RoundTrip b64 net auth r s = Some (res, s')"
proof -
  have "\<exists>res w'. net q (at_world s) = Some (res, w')" for q using assms by (metis option.exhaust_sel surj_pair)
  then show ?thesis unfolding RoundTrip_def Let_def by (auto split: option.split sum.split) (metis option.distinct(1))+
qed

lemma client_Do_total:
  assumes "\<forall>q w. net q w \<noteq> None" "oc_CheckRedirect c = None" "0 < fuel" "10 \<le> length via + fuel"
  shows "\<exists>res s'. client_Do b64 net nr c fuel via req s = Some (res, s')"
  using assms(3,4)
proof (induction fuel arbitrary: via req s)
  case (Suc fuel)
  obtain res1 s1 where rt: "RoundTrip b64 net (oc_auth c) req s = Some (res1, s1)"
    using RoundTrip_total [OF assms(1)] by blast
  show ?case
  proof (cases "\<exists>resp r' r''. res1 = Inr resp \<and> nr (via @ [req]) resp = Some r' \<and> CheckRedirect c r' (via @ [req]) = Inr r''")
    case True
    then obtain resp r' r'' where n: "res1 = Inr resp" "nr (via @ [req]) resp = Some r'" "CheckRedirect c r' (via @ [req]) = Inr r''"
      by blast
    have "length (via @ [req]) < 10" using n(3) assms(2) by (auto simp: CheckRedirect_def split: if_splits)
    then have "\<exists>res s'. client_Do b64 net nr c fuel (via @ [req]) r'' s1 = Some (res, s')"
      using Suc.prems by (intro Suc.IH) auto
    then show ?thesis using rt n by (simp add: go_run)
  next
    case False
    then show ?thesis using rt by (auto simp: go_run split: sum.splits option.splits)
  qed
qed simp

lemma try_targets_total:
  assumes "\<And>r s. \<exists>res s'. client_Do b64 net nr c fuel [] r s = Some (res, s')"
  shows "\<exists>res s'. try_targets b64 net nr c fuel lv r suffix ts last' s = Some (res, s')"
proof (induction ts arbitrary: last' s)
  case (Cons t ts)
  obtain res1 s1 where "client_Do b64 net nr c fuel [] (target_request r suffix t) (s\<lparr>at_responded := False, at_failed := False\<rparr>) = Some (res1, s1)"
    using assms by blast
  then show ?case using Cons.IH by (cases res1) auto
qed (simp add: ret_def)

text \<open>
  C32. A request always ends: when every exchange with the network does and no redirect policy of the
  caller's own is installed, each attempt stops after ten messages at the latest, so that ten units of
  fuel are enough for any chain of redirects.
\<close>

theorem origin_do_terminates:
  assumes "\<forall>q w. net q w \<noteq> None" "oc_CheckRedirect c = None"
  shows "\<exists>res s'. origin_do b64 net nr c 10 lv r s = Some (res, s')"
proof -
  have one: "\<And>r s. \<exists>res s'. client_Do b64 net nr c 10 [] r s = Some (res, s')"
    by (intro client_Do_total assms) simp_all
  then show ?thesis using try_targets_total [OF one] by (simp add: origin_do_def del: try_targets.simps split: option.split)
qed

theorem origin_do_terminates_witness:
  "\<exists>res s'. origin_do (\<lambda>x. x) (\<lambda>q. ret (Inl ContextCanceled)) (\<lambda>reqs _. Some (hd reqs)) example_client 10 (\<lambda>_. True) example_read example_start
     = Some (res, s')"
  by (rule origin_do_terminates) (simp_all add: ret_def example_client_def)

text \<open>
  Only a read may be tried at another origin: a request with another method, with a body, or
  conditional on an entity tag, and any request outside the configured targets, is sent once, as it is.
\<close>

theorem origin_single_attempt:
  assumes "\<not> may_fail_over r \<or> find_base (uq_url r) (oc_targets c) = None"
  shows "origin_do b64 net nr c fuel lv r s =
    client_Do b64 net nr c fuel [] r (s\<lparr>at_responded := False, at_failed := False\<rparr>)"
proof -
  have "origin_do b64 net nr c fuel lv r s = try_targets b64 net nr c fuel lv r None [uq_url r] EOF s"
    using assms by (auto simp: origin_do_def)
  then show ?thesis by (auto simp: target_request_def ret_def split: option.splits sum.splits)
qed

theorem origin_single_attempt_witness:
  "\<exists>s'. origin_do (\<lambda>x. x) (\<lambda>q. ret (Inl ContextCanceled)) (\<lambda>_ _. None) example_client (Suc 0) (\<lambda>_. True)
      (example_read\<lparr>uq_method := ''POST''\<rparr>) example_start = Some (Inl ContextCanceled, s') \<and> length (at_sent s') = 1"
proof -
  have "\<not> may_fail_over (example_read\<lparr>uq_method := ''POST''\<rparr>)" by (simp add: may_fail_over_def method_defs)
  then show ?thesis
    by (subst origin_single_attempt) (simp_all add: example_client_def example_start_def RoundTrip_def go_run)
qed

end
