(* ===== verification/CacheTap.thy ===== *)
theory CacheTap
  imports MemContract
begin

text \<open>
  \<open>cache.go\<close>, the reader of the first caller: \<open>blobTap\<close> hands the caller what the origin's reader
  delivers and forwards the contiguous prefix of it through an \<open>io.Pipe\<close> to the write into the
  cache. A source is an \<open>io.ReadSeekCloser\<close>, the interface the locale \<open>blob_source\<close> states.
\<close>

section \<open>Readers that seek\<close>

text \<open>\<open>io.ReadSeekCloser\<close>: operations on the state of a reader.\<close>

record 'r source =
  so_Read :: "nat \<Rightarrow> ('r, bytes \<times> error option) go"
  so_Seek :: "int \<Rightarrow> whence \<Rightarrow> ('r, error + int) go"
  so_Close :: "('r, error option) go"

text \<open>\<open>bytes.Reader\<close> with a \<open>Close\<close> that does nothing, which the in-memory store opens.\<close>

record bytesReader =
  br_s :: bytes
  br_i :: int

definition bytesReader_Read :: "nat \<Rightarrow> (bytesReader, bytes \<times> error option) go" where
  "bytesReader_Read n r =
     (if br_i r \<ge> int (length (br_s r)) then Some (([], Some EOF), r)
      else (let b = take n (drop (nat (br_i r)) (br_s r))
            in Some ((b, None), r\<lparr>br_i := br_i r + int (length b)\<rparr>)))"

definition bytesReader_Seek :: "int \<Rightarrow> whence \<Rightarrow> (bytesReader, error + int) go" where
  "bytesReader_Seek offset wh r =
     (if wh = SeekOther then Some (Inl (ErrorString ''bytes.Reader.Seek: invalid whence''), r)
      else
        (let p = (case wh of
                    SeekCurrent \<Rightarrow> wrap64 (br_i r + offset)
                  | SeekEnd \<Rightarrow> wrap64 (int (length (br_s r)) + offset)
                  | _ \<Rightarrow> offset)
         in if p < 0 then Some (Inl (ErrorString ''bytes.Reader.Seek: negative position''), r)
            else Some (Inr p, r\<lparr>br_i := p\<rparr>)))"

definition bytes_source :: "bytesReader source" where
  "bytes_source = \<lparr>so_Read = bytesReader_Read, so_Seek = bytesReader_Seek, so_Close = ret None\<rparr>"

definition NewBytesReader :: "bytes \<Rightarrow> bytesReader" where
  "NewBytesReader b = \<lparr>br_s = b, br_i = 0\<rparr>"

section \<open>Pipes\<close>

text \<open>
  \<open>io.Pipe\<close>: the bytes that its reading end has taken, and the errors that the two ends were closed
  with. Closing an end again has no effect, and closing either wakes a blocked write.
\<close>

record pipe =
  pp_taken :: bytes
  pp_werr :: "error option"
  pp_rerr :: "error option"

definition ErrClosedPipe :: error where
  "ErrClosedPipe = ErrorString ''io: read/write on closed pipe''"

definition pipe_closed :: "pipe \<Rightarrow> bool" where
  "pipe_closed p \<longleftrightarrow> pp_werr p \<noteq> None \<or> pp_rerr p \<noteq> None"

definition PipeWriter_Close :: "error option \<Rightarrow> pipe \<Rightarrow> pipe" where
  "PipeWriter_Close err p =
     (if pp_werr p \<noteq> None then p else p\<lparr>pp_werr := Some (case err of None \<Rightarrow> EOF | Some e \<Rightarrow> e)\<rparr>)"

definition PipeReader_Close :: "error option \<Rightarrow> pipe \<Rightarrow> pipe" where
  "PipeReader_Close err p =
     (if pp_rerr p \<noteq> None then p else p\<lparr>pp_rerr := Some (case err of None \<Rightarrow> ErrClosedPipe | Some e \<Rightarrow> e)\<rparr>)"

definition writeCloseError :: "pipe \<Rightarrow> error" where
  "writeCloseError p = (case (pp_werr p, pp_rerr p) of (None, Some e) \<Rightarrow> e | _ \<Rightarrow> ErrClosedPipe)"

text \<open>What reading the pipe to its end gives, once the pipe is closed.\<close>

definition pipe_stream :: "pipe \<Rightarrow> reader" where
  "pipe_stream p =
     [(pp_taken p, Some (case (pp_rerr p, pp_werr p) of (None, Some e) \<Rightarrow> e | _ \<Rightarrow> ErrClosedPipe))]"

section \<open>The tap\<close>

text \<open>
  The hooks act on a state \<open>'x\<close> of whoever set them; they are \<open>None\<close> until then. \<open>closeOnce\<close> is the
  option around \<open>closeErr\<close>.
\<close>

record ('r, 'x) blobTap =
  bt_w :: pipe
  bt_r :: 'r
  bt_offset :: int
  bt_forwarded :: int
  bt_size :: int
  bt_stopped :: bool
  bt_closeErr :: "error option option"
  bt_onAbort :: "(error \<Rightarrow> pipe \<times> 'x \<Rightarrow> pipe \<times> 'x) option"
  bt_onComplete :: "(pipe \<times> 'x \<Rightarrow> pipe \<times> 'x) option"
  bt_x :: 'x

definition run_hook :: "(pipe \<times> 'x \<Rightarrow> pipe \<times> 'x) \<Rightarrow> ('r, 'x) blobTap \<Rightarrow> ('r, 'x) blobTap" where
  "run_hook f t = (let (p, x) = f (bt_w t, bt_x t) in t\<lparr>bt_w := p, bt_x := x\<rparr>)"

definition tap_stop :: "error option \<Rightarrow> ('r, 'x) blobTap \<Rightarrow> ('r, 'x) blobTap" where
  "tap_stop err t =
     (if bt_stopped t then t
      else
        (let t = t\<lparr>bt_stopped := True, bt_w := PipeWriter_Close err (bt_w t)\<rparr>
         in case err of
              Some e \<Rightarrow> (case bt_onAbort t of Some f \<Rightarrow> run_hook (f e) t | None \<Rightarrow> t)
            | None \<Rightarrow> (case bt_onComplete t of Some f \<Rightarrow> run_hook f t | None \<Rightarrow> t)))"

definition newBlobTap :: "'r \<Rightarrow> int \<Rightarrow> 'x \<Rightarrow> ('r, 'x) blobTap" where
  "newBlobTap src sz x =
     (let t = \<lparr>bt_w = \<lparr>pp_taken = [], pp_werr = None, pp_rerr = None\<rparr>, bt_r = src, bt_offset = 0, bt_forwarded = 0,
               bt_size = sz, bt_stopped = False, bt_closeErr = None, bt_onAbort = None, bt_onComplete = None, bt_x = x\<rparr>;
          t = (if sz = 0 then tap_stop None t else t)
      in if sz < 0 then tap_stop (Some ErrUnexpectedEOF) t else t)"

text \<open>
  What other goroutines do to the tap while a \<open>Read\<close> is under way: the cancellation stops it, or the
  write into the cache gives up and closes the reading end.
\<close>

datatype interference = Stops error | Sink_closes "error option"

definition interfere :: "interference option \<Rightarrow> ('r, 'x) blobTap \<Rightarrow> ('r, 'x) blobTap" where
  "interfere i t =
     (case i of
        None \<Rightarrow> t
      | Some (Stops err) \<Rightarrow> tap_stop (Some err) t
      | Some (Sink_closes err) \<Rightarrow> t\<lparr>bt_w := PipeReader_Close err (bt_w t)\<rparr>)"

text \<open>
  \<open>PipeWriter.Write\<close> blocks until the reading end has taken everything, or until the pipe is closed
  after \<open>k\<close> bytes; it counts into \<open>forwarded\<close> what was taken.
\<close>

definition tap_write ::
  "(nat \<times> interference) option \<Rightarrow> bytes \<Rightarrow> ('r, 'x) blobTap \<Rightarrow> error option \<times> ('r, 'x) blobTap" where
  "tap_write i b t =
     (let take' = (\<lambda>k. t\<lparr>bt_w := (bt_w t)\<lparr>pp_taken := pp_taken (bt_w t) @ take k b\<rparr>,
                         bt_forwarded := bt_forwarded t + int (length (take k b))\<rparr>)
      in if pipe_closed (bt_w t) then (Some (writeCloseError (bt_w t)), t)
         else (case i of
                 None \<Rightarrow> (None, take' (length b))
               | Some (k, what) \<Rightarrow>
                   if k \<ge> length b then (None, take' (length b))
                   else (let t = interfere (Some what) (take' k) in (Some (writeCloseError (bt_w t)), t))))"

text \<open>
  \<open>Read\<close>. \<open>cut' 0\<close> and \<open>cut' 1\<close> are what happens before it looks at \<open>stopped\<close> and before it looks
  whether everything is forwarded, \<open>i\<close> what happens while it writes to the pipe. \<open>tap_settle\<close> is its
  end, after the write, and \<open>tap_forward\<close> what it does with the bytes it has read from \<open>start\<close> on.
\<close>

definition tap_settle :: "interference option \<Rightarrow> error option \<times> ('r, 'x) blobTap \<Rightarrow> ('r, 'x) blobTap" where
  "tap_settle w res =
     (case res of
        (Some err, t) \<Rightarrow> tap_stop (Some err) t
      | (None, t) \<Rightarrow> (let t = interfere w t in if bt_forwarded t = bt_size t then tap_stop None t else t))"

definition tap_forward ::
  "interference option \<Rightarrow> (nat \<times> interference) option \<Rightarrow> int \<Rightarrow> bytes \<Rightarrow> error option \<Rightarrow> ('r, 'x) blobTap \<Rightarrow> ('r, 'x) blobTap" where
  "tap_forward w i start b err t =
     (if bt_stopped t then t
      else if err \<noteq> None \<and> err \<noteq> Some EOF then tap_stop err t
      else if b \<noteq> [] \<and> bt_offset t > bt_size t then tap_stop (Some ErrUnexpectedEOF) t
      else if err = Some EOF \<and> start \<le> bt_forwarded t \<and> bt_offset t < bt_size t then tap_stop (Some ErrUnexpectedEOF) t
      else if b \<noteq> [] \<and> start > bt_forwarded t then tap_stop (Some ErrUnexpectedEOF) t
      else tap_settle w
        (if b \<noteq> [] \<and> bt_offset t > bt_forwarded t then tap_write i (drop (nat (bt_forwarded t - start)) b) t else (None, t)))"

definition tap_Read ::
  "'r source \<Rightarrow> (nat \<Rightarrow> interference option) \<Rightarrow> (nat \<times> interference) option \<Rightarrow> nat
   \<Rightarrow> (('r, 'x) blobTap, bytes \<times> error option) go" where
  "tap_Read so cut' i n t =
     (case so_Read so n (bt_r t) of
        None \<Rightarrow> None
      | Some ((b, err), r) \<Rightarrow>
          Some ((b, err), tap_forward (cut' 1) i (bt_offset t) b err
            (interfere (cut' 0) (t\<lparr>bt_r := r, bt_offset := bt_offset t + int (length b)\<rparr>))))"

definition tap_Seek :: "'r source \<Rightarrow> int \<Rightarrow> whence \<Rightarrow> (('r, 'x) blobTap, error + int) go" where
  "tap_Seek so offset wh t =
     (case so_Seek so offset wh (bt_r t) of
        None \<Rightarrow> None
      | Some (res, r) \<Rightarrow>
          (let t = t\<lparr>bt_r := r\<rparr>
           in Some (res,
                case res of
                  Inl _ \<Rightarrow> tap_stop (Some ErrUnexpectedEOF) t
                | Inr position \<Rightarrow>
                    if position < 0 then tap_stop (Some ErrUnexpectedEOF) t else t\<lparr>bt_offset := position\<rparr>)))"

definition tap_Close :: "'r source \<Rightarrow> (('r, 'x) blobTap, error option) go" where
  "tap_Close so t =
     (let t = tap_stop (Some ErrUnexpectedEOF) t
      in case bt_closeErr t of
           Some err \<Rightarrow> Some (err, t)
         | None \<Rightarrow>
             (case so_Close so (bt_r t) of
                None \<Rightarrow> None
              | Some (err, r) \<Rightarrow> Some (err, t\<lparr>bt_r := r, bt_closeErr := Some err\<rparr>)))"

lemmas tap_ops = run_hook_def tap_stop_def interfere_def tap_write_def PipeWriter_Close_def PipeReader_Close_def
  pipe_closed_def

section \<open>What is forwarded\<close>

text \<open>A reader of the bytes \<open>c\<close>: what it delivers is at its position, and a seek that succeeds moves it.\<close>

locale blob_source =
  fixes so :: "'r source" and pos :: "'r \<Rightarrow> int" and good :: "'r \<Rightarrow> bool" and c :: bytes
  assumes pos_nonneg: "good r \<Longrightarrow> 0 \<le> pos r"
    and reads: "good r \<Longrightarrow> so_Read so n r = Some ((b, err), r') \<Longrightarrow>
      good r' \<and> pos r' = pos r + int (length b) \<and> b = take (length b) (drop (nat (pos r)) c)"
    and seeks: "good r \<Longrightarrow> so_Seek so offset wh r = Some (Inr p, r') \<Longrightarrow> good r' \<and> pos r' = p"

text \<open>What the hooks may do to the pipe: close its reading end on an abort.\<close>

definition hooks_ok :: "('r, 'x) blobTap \<Rightarrow> bool" where
  "hooks_ok t \<longleftrightarrow>
     (\<forall>f e p x. bt_onAbort t = Some f \<longrightarrow> fst (f e (p, x)) \<in> {p, PipeReader_Close (Some e) p})
     \<and> (\<forall>f p x. bt_onComplete t = Some f \<longrightarrow> fst (f (p, x)) = p)"

definition forwarded_ok :: "bytes \<Rightarrow> ('r, 'x) blobTap \<Rightarrow> bool" where
  "forwarded_ok c t \<longleftrightarrow>
     (bt_stopped t \<longleftrightarrow> pp_werr (bt_w t) \<noteq> None) \<and> 0 \<le> bt_forwarded t
     \<and> pp_taken (bt_w t) = take (nat (bt_forwarded t)) c \<and> bt_forwarded t \<le> int (length c)
     \<and> (pp_werr (bt_w t) = Some EOF \<longrightarrow> bt_forwarded t = bt_size t) \<and> pp_rerr (bt_w t) \<noteq> Some EOF \<and> hooks_ok t"

text \<open>The fields that \<open>stop\<close> leaves alone.\<close>

lemma stop_fields [simp]:
  "bt_r (tap_stop err t) = bt_r t" "bt_offset (tap_stop err t) = bt_offset t" "bt_forwarded (tap_stop err t) = bt_forwarded t"
  "bt_size (tap_stop err t) = bt_size t" "bt_stopped (tap_stop err t)" "bt_closeErr (tap_stop err t) = bt_closeErr t"
  "bt_onAbort (tap_stop err t) = bt_onAbort t" "bt_onComplete (tap_stop err t) = bt_onComplete t"
  by (simp_all add: tap_stop_def run_hook_def Let_def case_prod_unfold split: option.split)

lemma hooks_ok_same:
  "bt_onAbort t' = bt_onAbort t \<Longrightarrow> bt_onComplete t' = bt_onComplete t \<Longrightarrow> hooks_ok t' = hooks_ok t"
  by (simp add: hooks_ok_def)

lemma hooks_ok_upd [simp]:
  "hooks_ok (t\<lparr>bt_r := r\<rparr>) = hooks_ok t" "hooks_ok (t\<lparr>bt_offset := o'\<rparr>) = hooks_ok t" "hooks_ok (t\<lparr>bt_w := p\<rparr>) = hooks_ok t"
  "hooks_ok (t\<lparr>bt_forwarded := f\<rparr>) = hooks_ok t" "hooks_ok (tap_stop err t) = hooks_ok t"
  by (rule hooks_ok_same; simp)+

lemma pipe_close_fields [simp]:
  "pp_taken (PipeWriter_Close err p) = pp_taken p" "pp_rerr (PipeWriter_Close err p) = pp_rerr p"
  "pp_taken (PipeReader_Close err' p) = pp_taken p" "pp_werr (PipeReader_Close err' p) = pp_werr p"
  "pp_werr p = None \<Longrightarrow> pp_werr (PipeWriter_Close err p) = Some (case err of None \<Rightarrow> EOF | Some e \<Rightarrow> e)"
  "pp_rerr (PipeReader_Close err' p) = Some EOF \<longleftrightarrow> pp_rerr p = Some EOF \<or> pp_rerr p = None \<and> err' = Some EOF"
  by (auto simp: PipeWriter_Close_def PipeReader_Close_def ErrClosedPipe_def split: option.splits)

lemma stop_stopped [simp]: "bt_stopped t \<Longrightarrow> tap_stop err t = t"
  by (simp add: tap_stop_def)

lemma stop_pipe:
  assumes "hooks_ok t" "\<not> bt_stopped t"
  shows "bt_w (tap_stop err t) = PipeWriter_Close err (bt_w t)
    \<or> (\<exists>e. err = Some e \<and> bt_w (tap_stop err t) = PipeReader_Close (Some e) (PipeWriter_Close err (bt_w t)))"
proof -
  let ?p = "PipeWriter_Close err (bt_w t)"
  have hooks: "bt_onAbort t = Some f \<Longrightarrow> fst (f e (p, x)) \<in> {p, PipeReader_Close (Some e) p}"
      "bt_onComplete t = Some g \<Longrightarrow> fst (g (p, x)) = p" for f g e p x
    using assms(1) by (simp_all add: hooks_ok_def)
  show ?thesis
  proof (cases err)
    case None
    then show ?thesis
      using assms(2) hooks(2) [of _ ?p "bt_x t"]
      by (cases "bt_onComplete t") (simp_all add: tap_stop_def run_hook_def Let_def case_prod_unfold)
  next
    case (Some e)
    then show ?thesis
      using assms(2) hooks(1) [of _ e ?p "bt_x t"]
      by (cases "bt_onAbort t") (simp_all add: tap_stop_def run_hook_def Let_def case_prod_unfold)
  qed
qed

lemma stop_ok:
  assumes "forwarded_ok c t" "err \<noteq> Some EOF" "err = None \<Longrightarrow> bt_forwarded t = bt_size t"
  shows "forwarded_ok c (tap_stop err t)"
proof (cases "bt_stopped t")
  case False
  then have "hooks_ok t" "pp_werr (bt_w t) = None" using assms(1) by (auto simp: forwarded_ok_def)
  then show ?thesis
    using stop_pipe [OF _ False, of err] assms by (auto simp: forwarded_ok_def split: option.splits)
qed (use assms in simp)

fun no_EOF :: "interference \<Rightarrow> bool" where
  "no_EOF (Stops err) = (err \<noteq> EOF)"
| "no_EOF (Sink_closes err) = (err \<noteq> Some EOF)"

lemma interfere_fields [simp]:
  "bt_r (interfere i t) = bt_r t" "bt_offset (interfere i t) = bt_offset t" "bt_forwarded (interfere i t) = bt_forwarded t"
  "bt_size (interfere i t) = bt_size t"
  by (simp_all add: interfere_def split: option.split interference.split)

lemma interfere_ok:
  assumes "forwarded_ok c t" "\<forall>w. i = Some w \<longrightarrow> no_EOF w"
  shows "forwarded_ok c (interfere i t)"
proof (cases i)
  case (Some w)
  show ?thesis
  proof (cases w)
    case (Stops err)
    then show ?thesis using stop_ok [OF assms(1), of "Some err"] assms(2) Some by (simp add: interfere_def)
  next
    case (Sink_closes err)
    then show ?thesis using assms Some by (simp add: interfere_def forwarded_ok_def)
  qed
qed (use assms in \<open>simp add: interfere_def\<close>)

lemma interfere_None [simp]: "interfere None t = t"
  by (simp add: interfere_def)

text \<open>A write of the next bytes extends the prefix; when it fails, the error is not \<open>io.EOF\<close>.\<close>

lemma write_ok:
  assumes "forwarded_ok c t" "b = take (length b) (drop (nat (bt_forwarded t)) c)" "\<forall>k w. i = Some (k, w) \<longrightarrow> no_EOF w"
    and "tap_write i b t = (werr, t')"
  shows "forwarded_ok c t' \<and> werr \<noteq> Some EOF \<and> bt_forwarded t \<le> bt_forwarded t' \<and> bt_forwarded t' \<le> bt_forwarded t + int (length b)
    \<and> (werr = None \<longrightarrow> bt_forwarded t' = bt_forwarded t + int (length b) \<and> bt_stopped t' = bt_stopped t)
    \<and> bt_r t' = bt_r t \<and> bt_offset t' = bt_offset t \<and> bt_size t' = bt_size t"
proof (cases "pipe_closed (bt_w t)")
  case True
  then show ?thesis
    using assms by (auto simp: tap_write_def writeCloseError_def forwarded_ok_def ErrClosedPipe_def split: option.splits)
next
  case False
  let ?t = "\<lambda>k. t\<lparr>bt_w := (bt_w t)\<lparr>pp_taken := pp_taken (bt_w t) @ take k b\<rparr>, bt_forwarded := bt_forwarded t + int (length (take k b))\<rparr>"
  have nn: "0 \<le> bt_forwarded t" "bt_forwarded t \<le> int (length c)" "pp_taken (bt_w t) = take (nat (bt_forwarded t)) c"
      "pp_werr (bt_w t) = None"
    using assms(1) False by (auto simp: forwarded_ok_def pipe_closed_def)
  have len: "length b \<le> length (drop (nat (bt_forwarded t)) c)" by (metis assms(2) length_take min.cobounded1)
  have *: "forwarded_ok c (?t k)" for k
  proof -
    have "take k b = take (length (take k b)) (drop (nat (bt_forwarded t)) c)"
      by (subst (1) assms(2)) (simp add: min.commute)
    then have "take (nat (bt_forwarded t)) c @ take k b = take (nat (bt_forwarded t) + length (take k b)) c"
      by (simp only: take_add)
    then have eq: "take (nat (bt_forwarded t)) c @ take k b = take (nat (bt_forwarded t + int (length (take k b)))) c"
      using nn(1) by (simp only: nat_add_distrib of_nat_0_le_iff nat_int)
    have "bt_forwarded t + int (length (take k b)) \<le> int (length c)" using len nn(1,2) by simp
    then show ?thesis using assms(1) nn eq by (simp add: forwarded_ok_def)
  qed
  show ?thesis
  proof (cases "\<exists>k w. i = Some (k, w) \<and> k < length b")
    case True
    then obtain k w where i: "i = Some (k, w)" "k < length b" by blast
    let ?u = "interfere (Some w) (?t k)"
    have res: "werr = Some (writeCloseError (bt_w ?u))" "t' = ?u"
      using assms(4) False i by (auto simp: tap_write_def Let_def)
    have "forwarded_ok c ?u" using interfere_ok [OF *] assms(3) i(1) by blast
    then show ?thesis
      using res i(2) by (auto simp: writeCloseError_def forwarded_ok_def ErrClosedPipe_def split: option.splits)
  next
    case without: False
    then have "werr = None" "t' = ?t (length b)"
      using assms(4) False by (auto simp: tap_write_def Let_def split: option.splits prod.splits if_splits)
    then show ?thesis using * [of "length b"] by simp
  qed
qed

text \<open>What a tap goes through: calls of its reader, interrupted or not, and other goroutines in between.\<close>

inductive tap_run :: "'r source \<Rightarrow> ('r, 'x) blobTap \<Rightarrow> ('r, 'x) blobTap \<Rightarrow> bool" for so t0 where
  start: "tap_run so t0 t0"
| read: "tap_run so t0 t \<Longrightarrow> \<forall>k w. cut' k = Some w \<longrightarrow> no_EOF w \<Longrightarrow> \<forall>k w. i = Some (k, w) \<longrightarrow> no_EOF w \<Longrightarrow>
    tap_Read so cut' i n t = Some (res, t') \<Longrightarrow> tap_run so t0 t'"
| seek: "tap_run so t0 t \<Longrightarrow> tap_Seek so offset wh t = Some (res, t') \<Longrightarrow> tap_run so t0 t'"
| close: "tap_run so t0 t \<Longrightarrow> tap_Close so t = Some (res, t') \<Longrightarrow> tap_run so t0 t'"
| other: "tap_run so t0 t \<Longrightarrow> no_EOF w \<Longrightarrow> tap_run so t0 (interfere (Some w) t)"

lemma forwarded_same:
  "forwarded_ok c t \<Longrightarrow> bt_w t' = bt_w t \<Longrightarrow> bt_forwarded t' = bt_forwarded t \<Longrightarrow> bt_size t' = bt_size t \<Longrightarrow>
    bt_stopped t' = bt_stopped t \<Longrightarrow> bt_onAbort t' = bt_onAbort t \<Longrightarrow> bt_onComplete t' = bt_onComplete t \<Longrightarrow> forwarded_ok c t'"
  using hooks_ok_same [of t' t] by (simp add: forwarded_ok_def)

context blob_source
begin

definition tap_inv :: "('r, 'x) blobTap \<Rightarrow> bool" where
  "tap_inv t \<longleftrightarrow> forwarded_ok c t
     \<and> (\<not> bt_stopped t \<longrightarrow> good (bt_r t) \<and> pos (bt_r t) = bt_offset t \<and> bt_forwarded t < bt_size t)"

lemma inv_stopped: "forwarded_ok c t \<Longrightarrow> bt_stopped t \<Longrightarrow> tap_inv t"
  by (simp add: tap_inv_def)

lemma inv_stop: "forwarded_ok c t \<Longrightarrow> err \<noteq> EOF \<Longrightarrow> tap_inv (tap_stop (Some err) t)"
  by (rule inv_stopped [OF stop_ok]) auto

lemma inv_interfere:
  assumes "tap_inv t" "\<forall>w. i = Some w \<longrightarrow> no_EOF w"
  shows "tap_inv (interfere i t)"
proof -
  have "bt_stopped t \<Longrightarrow> bt_stopped (interfere i t)"
    by (simp add: interfere_def split: option.split interference.split)
  then show ?thesis using assms interfere_ok [OF _ assms(2)] by (auto simp: tap_inv_def)
qed

lemma inv_settle:
  assumes "forwarded_ok c t" "werr \<noteq> Some EOF" "bt_forwarded t \<le> bt_size t" "good (bt_r t)" "pos (bt_r t) = bt_offset t"
    and "\<forall>x. w = Some x \<longrightarrow> no_EOF x"
  shows "tap_inv (tap_settle w (werr, t))"
proof (cases werr)
  case (Some e)
  then show ?thesis using inv_stop [OF assms(1)] assms(2) by (simp add: tap_settle_def)
next
  case None
  have ok: "forwarded_ok c (interfere w t)" by (rule interfere_ok [OF assms(1,6)])
  show ?thesis
  proof (cases "bt_forwarded t = bt_size t")
    case True
    then show ?thesis using None inv_stopped [OF stop_ok [OF ok, of None]] by (simp add: tap_settle_def Let_def)
  next
    case False
    then show ?thesis using None ok assms by (simp add: tap_settle_def Let_def tap_inv_def)
  qed
qed

text \<open>The part of what was read that is past the forwarded prefix.\<close>

lemma rest_of_read:
  assumes "b = take (length b) (drop (nat start) c)" "0 \<le> start" "start \<le> f" "f \<le> start + int (length b)"
  shows "drop (nat (f - start)) b = take (length (drop (nat (f - start)) b)) (drop (nat f) c)"
proof -
  have "nat f = nat start + nat (f - start)" using assms(2,3) by simp
  then have "drop (nat (f - start)) b = take (length b - nat (f - start)) (drop (nat f) c)"
    by (metis add.commute assms(1) drop_drop drop_take)
  then show ?thesis by (metis length_drop)
qed

lemma inv_forward:
  assumes ok: "forwarded_ok c t" and w: "\<forall>x. w = Some x \<longrightarrow> no_EOF x" and i: "\<forall>k x. i = Some (k, x) \<longrightarrow> no_EOF x"
    and at: "bt_offset t = start + int (length b)"
    and src: "\<not> bt_stopped t \<Longrightarrow> good (bt_r t) \<and> pos (bt_r t) = bt_offset t \<and> bt_forwarded t < bt_size t \<and> 0 \<le> start
      \<and> b = take (length b) (drop (nat start) c)"
  shows "tap_inv (tap_forward w i start b err t)"
proof (cases "bt_stopped t \<or> (err \<noteq> None \<and> err \<noteq> Some EOF) \<or> (b \<noteq> [] \<and> bt_offset t > bt_size t)
    \<or> (err = Some EOF \<and> start \<le> bt_forwarded t \<and> bt_offset t < bt_size t) \<or> (b \<noteq> [] \<and> start > bt_forwarded t)")
  case True
  then have "bt_stopped t \<and> tap_forward w i start b err t = t
      \<or> (\<exists>e. e \<noteq> EOF \<and> tap_forward w i start b err t = tap_stop (Some e) t)"
    by (cases err) (auto simp: tap_forward_def)
  then show ?thesis using inv_stopped [OF ok] inv_stop [OF ok] by metis
next
  case False
  have "\<not> bt_stopped t" using False by blast
  note src = src [OF this]
  show ?thesis
  proof (cases "b \<noteq> [] \<and> bt_offset t > bt_forwarded t")
    case True
    let ?b = "drop (nat (bt_forwarded t - start)) b"
    obtain werr t2 where wr: "tap_write i ?b t = (werr, t2)" by (metis surj_pair)
    have "?b = take (length ?b) (drop (nat (bt_forwarded t)) c)" using src True False at by (intro rest_of_read) auto
    note t2 = write_ok [OF ok this i wr]
    have "bt_forwarded t + int (length ?b) \<le> bt_size t" using True False at by auto
    then have "tap_inv (tap_settle w (werr, t2))" using t2 src by (intro inv_settle w) auto
    then show ?thesis using False True wr by (auto simp: tap_forward_def)
  next
    case rest: False
    have "tap_inv (tap_settle w (None, t))" using src by (intro inv_settle w ok) auto
    then show ?thesis using False rest by (auto simp: tap_forward_def)
  qed
qed

lemma inv_read:
  assumes "tap_inv t" "\<forall>k w. cut' k = Some w \<longrightarrow> no_EOF w" "\<forall>k w. i = Some (k, w) \<longrightarrow> no_EOF w"
    and "tap_Read so cut' i n t = Some ((b, err), t')"
  shows "tap_inv t'"
proof -
  obtain r where rd: "so_Read so n (bt_r t) = Some ((b, err), r)"
    using assms(4) by (auto simp: tap_Read_def Let_def split: option.splits)
  let ?t = "interfere (cut' 0) (t\<lparr>bt_r := r, bt_offset := bt_offset t + int (length b)\<rparr>)"
  have ok0: "forwarded_ok c t" using assms(1) by (simp add: tap_inv_def)
  have ok1: "forwarded_ok c ?t"
    using assms(2) by (intro interfere_ok [OF forwarded_same [OF ok0]]) simp_all
  have live1: "\<not> bt_stopped t" if "\<not> bt_stopped ?t"
    using that by (cases "bt_stopped t") (auto simp: interfere_def split: option.splits interference.splits)
  have "tap_inv (tap_forward (cut' 1) i (bt_offset t) b err ?t)"
  proof (rule inv_forward [OF ok1 _ assms(3)])
    assume "\<not> bt_stopped ?t"
    then show "good (bt_r ?t) \<and> pos (bt_r ?t) = bt_offset ?t \<and> bt_forwarded ?t < bt_size ?t \<and> 0 \<le> bt_offset t
        \<and> b = take (length b) (drop (nat (bt_offset t)) c)"
      using reads [OF _ rd] pos_nonneg [of "bt_r t"] live1 assms(1) by (auto simp: tap_inv_def)
  qed (use assms(2) in simp_all)
  then show ?thesis using assms(4) rd by (simp add: tap_Read_def)
qed

lemma inv_seek:
  assumes "tap_inv t" "tap_Seek so offset wh t = Some (res, t')"
  shows "tap_inv t'"
proof -
  obtain r where sk: "so_Seek so offset wh (bt_r t) = Some (res, r)"
    using assms(2) by (auto simp: tap_Seek_def Let_def split: option.splits)
  have ok0: "forwarded_ok c t" using assms(1) by (simp add: tap_inv_def)
  have ok: "forwarded_ok c (t\<lparr>bt_r := r\<rparr>)" by (rule forwarded_same [OF ok0]) simp_all
  show ?thesis
  proof (cases "\<exists>p \<ge> 0. res = Inr p")
    case True
    then obtain p where p: "res = Inr p" "0 \<le> p" by blast
    have "forwarded_ok c (t\<lparr>bt_r := r, bt_offset := p\<rparr>)" by (rule forwarded_same [OF ok0]) simp_all
    then show ?thesis using assms sk p seeks by (fastforce simp: tap_Seek_def tap_inv_def Let_def)
  next
    case False
    then have "t' = tap_stop (Some ErrUnexpectedEOF) (t\<lparr>bt_r := r\<rparr>)"
      using assms(2) sk by (cases res) (auto simp: tap_Seek_def Let_def)
    then show ?thesis using inv_stop [OF ok] by simp
  qed
qed

lemma inv_close:
  assumes "tap_inv t" "tap_Close so t = Some (res, t')"
  shows "tap_inv t'"
proof -
  let ?t = "tap_stop (Some ErrUnexpectedEOF) t"
  have ok: "forwarded_ok c ?t" using stop_ok [of c t "Some ErrUnexpectedEOF"] assms(1) by (simp add: tap_inv_def)
  have "t' = ?t \<or> (\<exists>r x. t' = ?t\<lparr>bt_r := r, bt_closeErr := x\<rparr>)"
    using assms(2) by (auto simp: tap_Close_def Let_def split: option.splits)
  then show ?thesis
    using inv_stopped [OF ok] inv_stopped [OF forwarded_same [OF ok]] by fastforce
qed

lemma run_inv: "tap_run so t0 t \<Longrightarrow> tap_inv t0 \<Longrightarrow> tap_inv t"
proof (induction rule: tap_run.induct)
  case (read t cut' i n res t')
  then show ?case using inv_read by (metis surj_pair)
next
  case (other t w)
  then show ?case by (intro inv_interfere) auto
qed (auto intro: inv_seek inv_close)

lemma new_inv:
  assumes "good r" "pos r = 0"
  shows "tap_inv (newBlobTap r sz x)"
proof -
  let ?t = "\<lparr>bt_w = \<lparr>pp_taken = [], pp_werr = None, pp_rerr = None\<rparr>, bt_r = r, bt_offset = 0, bt_forwarded = 0,
      bt_size = sz, bt_stopped = False, bt_closeErr = None, bt_onAbort = None, bt_onComplete = None, bt_x = x\<rparr>"
  have ok: "forwarded_ok c ?t" by (simp add: forwarded_ok_def hooks_ok_def)
  consider "sz = 0" | "sz < 0" | "0 < sz" by linarith
  then show ?thesis
  proof cases
    case 1
    then show ?thesis using inv_stopped [OF stop_ok [OF ok, of None]] by (simp add: newBlobTap_def Let_def)
  next
    case 2
    then show ?thesis using inv_stop [OF ok] by (simp add: newBlobTap_def Let_def)
  next
    case 3
    then show ?thesis using ok assms by (simp add: newBlobTap_def Let_def tap_inv_def)
  qed
qed

end

text \<open>The reader that the in-memory store opens is such a source.\<close>

interpretation bytes_src: blob_source bytes_source br_i "\<lambda>r. br_s r = c \<and> 0 \<le> br_i r" c for c
  by unfold_locales
    (auto simp: bytes_source_def bytesReader_Read_def bytesReader_Seek_def Let_def min_def split: if_splits)

section \<open>Reading in order\<close>

text \<open>Reads one after the other, without seeks and without interference, and the bytes they delivered.\<close>

inductive tap_reads :: "'r source \<Rightarrow> ('r, 'x) blobTap \<Rightarrow> bytes \<Rightarrow> ('r, 'x) blobTap \<Rightarrow> bool" for so t0 where
  start: "tap_reads so t0 [] t0"
| read: "tap_reads so t0 bs t \<Longrightarrow> tap_Read so (\<lambda>_. None) None n t = Some ((b, None), t') \<Longrightarrow> tap_reads so t0 (bs @ b) t'"

lemma reads_run: "tap_reads so t0 bs t \<Longrightarrow> tap_run so t0 t"
proof (induction rule: tap_reads.induct)
  case (read bs t n b t')
  then show ?case by (intro tap_run.read [OF read.IH _ _ read.hyps(2)]) simp_all
qed (rule tap_run.start)

text \<open>Until the size is reached the pipe is open and everything read is forwarded; then the pipe is closed well.\<close>

definition in_order :: "bytes \<Rightarrow> ('r, 'x) blobTap \<Rightarrow> bool" where
  "in_order bs t \<longleftrightarrow> pp_taken (bt_w t) = bs \<and> bt_forwarded t = int (length bs) \<and> bt_offset t = int (length bs)
     \<and> pp_rerr (bt_w t) = None
     \<and> (if int (length bs) < bt_size t then \<not> bt_stopped t \<and> pp_werr (bt_w t) = None
        else int (length bs) = bt_size t \<and> bt_stopped t \<and> pp_werr (bt_w t) = Some EOF)"

lemma write_source [simp]: "bt_r (snd (tap_write i b t)) = bt_r t"
  by (simp add: tap_write_def Let_def split: option.split prod.split)

lemma settle_source [simp]: "bt_r (tap_settle w res) = bt_r (snd res)"
  by (simp add: tap_settle_def Let_def split: prod.split option.split)

lemma forward_source [simp]: "bt_r (tap_forward w i start b err t) = bt_r t"
  by (simp add: tap_forward_def)

lemma stop_complete_pipe:
  assumes "hooks_ok t" "\<not> bt_stopped t" "pp_werr (bt_w t) = None"
  shows "bt_w (tap_stop None t) = (bt_w t)\<lparr>pp_werr := Some EOF\<rparr>"
  using stop_pipe [OF assms(1,2), of None] assms(3) by (simp add: PipeWriter_Close_def)

lemma read_in_order:
  assumes "in_order bs t" "hooks_ok t" "tap_Read so (\<lambda>_. None) None n t = Some ((b, None), t')"
    and "b = [] \<or> int (length bs) + int (length b) \<le> bt_size t"
  shows "in_order (bs @ b) t' \<and> hooks_ok t' \<and> bt_size t' = bt_size t"
proof -
  obtain r where rd: "so_Read so n (bt_r t) = Some ((b, None), r)"
    using assms(3) by (auto simp: tap_Read_def split: option.splits)
  let ?t = "t\<lparr>bt_r := r, bt_offset := bt_offset t + int (length b)\<rparr>"
  have t': "t' = tap_forward None None (bt_offset t) b None ?t" using assms(3) rd by (simp add: tap_Read_def)
  show ?thesis
  proof (cases "int (length bs) < bt_size t")
    case False
    then have "t' = ?t" "b = []" using assms(1,4) t' by (auto simp: in_order_def tap_forward_def)
    then show ?thesis using assms(1,2) by (simp add: in_order_def)
  next
    case True
    then have open': "\<not> bt_stopped t" "pp_werr (bt_w t) = None" "pp_rerr (bt_w t) = None" "bt_forwarded t = int (length bs)"
        "bt_offset t = int (length bs)" "pp_taken (bt_w t) = bs" using assms(1) by (simp_all add: in_order_def)
    let ?u = "?t\<lparr>bt_w := (bt_w t)\<lparr>pp_taken := bs @ b\<rparr>, bt_forwarded := int (length (bs @ b))\<rparr>"
    have "t' = tap_settle None (None, ?u)"
    proof (cases "b = []")
      case b: True
      have same: "(bt_w t)\<lparr>pp_taken := bs\<rparr> = bt_w t" by (rule pipe.equality) (simp_all add: open')
      have "?t = ?u" by (intro blobTap.equality) (simp_all add: open' b same)
      moreover have "t' = tap_settle None (None, ?t)" using t' open' True b by (simp add: tap_forward_def)
      ultimately show ?thesis by (simp only:)
    next
      case False
      then have "tap_write None b ?t = (None, ?u)" using open' by (simp add: tap_write_def pipe_closed_def)
      then show ?thesis using False t' open' True assms(4) by (simp add: tap_forward_def)
    qed
    then have t'2: "t' = (if bt_forwarded ?u = bt_size ?u then tap_stop None ?u else ?u)" by (simp add: tap_settle_def Let_def)
    have hk: "hooks_ok ?u" using assms(2) by simp
    have pw: "bt_w (tap_stop None ?u) = (bt_w ?u)\<lparr>pp_werr := Some EOF\<rparr>"
      by (rule stop_complete_pipe [OF hk]) (use open' in simp_all)
    show ?thesis
    proof (cases "bt_forwarded ?u = bt_size ?u")
      case eq: True
      then show ?thesis using t'2 hk pw open' by (simp add: in_order_def)
    next
      case neq: False
      then show ?thesis using t'2 hk open' True assms(4) by (auto simp: in_order_def)
    qed
  qed
qed

context blob_source
begin

text \<open>In order, nothing is lost: what was delivered is what was forwarded.\<close>

lemma reads_in_order:
  assumes "tap_reads so t0 bs t" "tap_inv t0" "in_order [] t0" "hooks_ok t0" "bt_size t0 = int (length c)" "good (bt_r t0)"
    "pos (bt_r t0) = 0"
  shows "in_order bs t \<and> hooks_ok t \<and> bt_size t = int (length c) \<and> good (bt_r t) \<and> pos (bt_r t) = int (length bs)"
  using assms(1)
proof (induction rule: tap_reads.induct)
  case start
  then show ?case using assms by simp
next
  case (read bs t n b t')
  obtain r where rd: "so_Read so n (bt_r t) = Some ((b, None), r)"
    using read.hyps(2) by (auto simp: tap_Read_def split: option.splits)
  have b: "b = take (length b) (drop (length bs) c)" "good r" "pos r = int (length (bs @ b))"
    using reads [OF _ rd] read.IH by auto
  have "length b \<le> length c - length bs" by (metis b(1) length_drop length_take min.cobounded1)
  moreover have "length bs \<le> length c" using read.IH by (simp add: in_order_def split: if_splits)
  ultimately have "int (length bs) + int (length b) \<le> bt_size t" using read.IH by simp
  then have "in_order (bs @ b) t' \<and> hooks_ok t' \<and> bt_size t' = bt_size t"
    using read.IH by (intro read_in_order [OF _ _ read.hyps(2)]) auto
  moreover have "bt_r t' = r" using read.hyps(2) rd by (auto simp: tap_Read_def)
  ultimately show ?case using read.IH b by simp
qed

end

section \<open>Properties\<close>

text \<open>The stream that the write into the cache reads from the pipe.\<close>

lemma stream_prefix:
  assumes "forwarded_ok c t"
  shows "fst (io_Copy (pipe_stream (bt_w t))) = take (nat (bt_forwarded t)) c"
    "snd (io_Copy (pipe_stream (bt_w t))) = None \<Longrightarrow> bt_forwarded t = bt_size t"
  using assms by (auto simp: pipe_stream_def forwarded_ok_def ErrClosedPipe_def split: option.splits if_splits)

definition tapped :: "'r \<Rightarrow> int \<Rightarrow> (error \<Rightarrow> pipe \<times> 'x \<Rightarrow> pipe \<times> 'x) \<Rightarrow> (pipe \<times> 'x \<Rightarrow> pipe \<times> 'x) \<Rightarrow> 'x \<Rightarrow> ('r, 'x) blobTap" where
  "tapped r sz abort complete x = (newBlobTap r sz x)\<lparr>bt_onAbort := Some abort, bt_onComplete := Some complete\<rparr>"

definition well_behaved :: "(error \<Rightarrow> pipe \<times> 'x \<Rightarrow> pipe \<times> 'x) \<Rightarrow> (pipe \<times> 'x \<Rightarrow> pipe \<times> 'x) \<Rightarrow> bool" where
  "well_behaved abort complete \<longleftrightarrow>
     (\<forall>e p x. fst (abort e (p, x)) \<in> {p, PipeReader_Close (Some e) p}) \<and> (\<forall>p x. fst (complete (p, x)) = p)"

lemma tapped_hooks: "well_behaved abort complete \<Longrightarrow> hooks_ok (tapped r sz abort complete x)"
  by (simp add: tapped_def hooks_ok_def well_behaved_def)

context blob_source
begin

lemma tapped_inv:
  assumes "good r" "pos r = 0" "well_behaved abort complete"
  shows "tap_inv (tapped r sz abort complete x)"
  using new_inv [OF assms(1,2), of sz x] tapped_hooks [OF assms(3), of r sz x]
  by (simp add: tap_inv_def forwarded_ok_def tapped_def)

end

lemma write_size [simp]: "bt_size (snd (tap_write i b t)) = bt_size t"
  by (simp add: tap_write_def Let_def split: option.split prod.split)

lemma settle_size [simp]: "bt_size (tap_settle w res) = bt_size (snd res)"
  by (simp add: tap_settle_def Let_def split: prod.split option.split)

lemma forward_size [simp]: "bt_size (tap_forward w i start b err t) = bt_size t"
  by (simp add: tap_forward_def)

lemma run_size: "tap_run so t0 t \<Longrightarrow> bt_size t = bt_size t0"
  by (induction rule: tap_run.induct)
    (auto simp: tap_Read_def tap_Seek_def tap_Close_def Let_def split: option.splits sum.splits)

lemma tapped_in_order: "0 \<le> sz \<Longrightarrow> in_order [] (tapped r sz abort complete x)"
  by (simp add: tapped_def newBlobTap_def tap_stop_def PipeWriter_Close_def in_order_def Let_def)

lemma tapped_fields [simp]: "bt_size (tapped r sz abort complete x) = sz" "bt_r (tapped r sz abort complete x) = r"
  by (simp_all add: tapped_def newBlobTap_def Let_def)

text \<open>
  C15. Whatever the caller reads and however it seeks, closes and is cancelled meanwhile, the write into
  the cache is given a prefix of the blob, and it sees the end of its input without an error only when
  that prefix is as long as the size the origin told.
\<close>

theorem tap_forwards_prefix:
  assumes "blob_source so pos good c" "good r" "pos r = 0" "well_behaved abort complete"
    and "tap_run so (tapped r sz abort complete x) t"
  shows "\<exists>k \<le> length c. fst (io_Copy (pipe_stream (bt_w t))) = take k c
    \<and> (snd (io_Copy (pipe_stream (bt_w t))) = None \<longrightarrow> int k = sz)"
proof -
  have "bt_size t = sz" using run_size [OF assms(5)] by simp
  have "blob_source.tap_inv pos good c t"
    by (rule blob_source.run_inv [OF assms(1,5) blob_source.tapped_inv [OF assms(1-4)]])
  then have "forwarded_ok c t" by (simp add: blob_source.tap_inv_def [OF assms(1)])
  then have f: "0 \<le> bt_forwarded t" "bt_forwarded t \<le> int (length c)" by (simp_all add: forwarded_ok_def)
  have "snd (io_Copy (pipe_stream (bt_w t))) = None \<longrightarrow> bt_forwarded t = sz"
    using stream_prefix(2) [OF \<open>forwarded_ok c t\<close>] \<open>bt_size t = sz\<close> by blast
  with f stream_prefix(1) [OF \<open>forwarded_ok c t\<close>] show ?thesis
    by (intro exI [of _ "nat (bt_forwarded t)"] conjI impI) (linarith, blast, simp)
qed

definition example_abort :: "error \<Rightarrow> pipe \<times> unit \<Rightarrow> pipe \<times> unit" where
  "example_abort e = (\<lambda>(p, x). (PipeReader_Close (Some e) p, x))"

lemma example_hooks: "well_behaved example_abort (\<lambda>y. y)"
  by (simp add: well_behaved_def example_abort_def)

lemma example_reads:
  "\<exists>t. tap_reads bytes_source (tapped (NewBytesReader ''hi'') 2 example_abort (\<lambda>y. y) ()) ''hi'' t"
proof -
  have "\<exists>t'. tap_Read bytes_source (\<lambda>_. None) None 8 (tapped (NewBytesReader ''hi'') 2 example_abort (\<lambda>y. y) ())
      = Some ((''hi'', None), t')"
    by (simp add: tap_Read_def bytes_source_def bytesReader_Read_def NewBytesReader_def Let_def)
  then show ?thesis using tap_reads.read [OF tap_reads.start] by fastforce
qed

theorem tap_forwards_prefix_witness:
  "\<exists>t. tap_run bytes_source (tapped (NewBytesReader ''hi'') 2 example_abort (\<lambda>y. y) ()) t
    \<and> (\<exists>k \<le> length ''hi''. fst (io_Copy (pipe_stream (bt_w t))) = take k ''hi'')"
proof -
  obtain t where t: "tap_run bytes_source (tapped (NewBytesReader ''hi'') 2 example_abort (\<lambda>y. y) ()) t"
    using example_reads reads_run by blast
  from tap_forwards_prefix [OF bytes_src.blob_source_axioms [of "''hi''"] _ _ example_hooks t] t show ?thesis
    by (auto simp: NewBytesReader_def)
qed

text \<open>
  A caller that reads all of a blob in order fills the cache: the write into an in-memory store,
  given the digest of the blob, reads the whole blob from the pipe, and the store holds it afterwards.
\<close>

theorem tap_fills_cache:
  assumes "blob_source so pos good c" "good r" "pos r = 0" "well_behaved abort complete"
    and "tap_reads so (tapped r (int (length c)) abort complete x) bs t" "length bs = length c"
    and "mem_run_ok L U s" "c \<in> U" "live e" "names_bytes L (Digest m) c"
  shows "bs = c \<and> (\<exists>res s' ls. MemStore_Add L ns e m (pipe_stream (bt_w t)) s = Some (res, s')
    \<and> mem_run_ok L U s' \<and> mem_shows ns s' (Digest m) = Some (c, ls))"
proof -
  let ?t = "tapped r (int (length c)) abort complete x"
  have inv: "blob_source.tap_inv pos good c ?t" by (rule blob_source.tapped_inv [OF assms(1-4)])
  from blob_source.reads_in_order [OF assms(1,5) inv tapped_in_order tapped_hooks [OF assms(4)]]
  have o: "in_order bs t" "bt_size t = int (length c)" using assms(2,3) by simp_all
  have "blob_source.tap_inv pos good c t" by (rule blob_source.run_inv [OF assms(1) reads_run [OF assms(5)] inv])
  then have "forwarded_ok c t" by (simp add: blob_source.tap_inv_def [OF assms(1)])
  then have bs: "bs = c" using o assms(6) by (auto simp: forwarded_ok_def in_order_def)
  have stream: "io_Copy (pipe_stream (bt_w t)) = (c, None)"
    using o assms(6) bs by (simp add: in_order_def pipe_stream_def)
  have L: "digest_lib_ok L" using assms(7) by (simp add: mem_run_ok_def)
  have d: "dl_Validate L (Digest m) = None" "data_digest L (dl_Algorithm L (Digest m)) c = Digest m"
    using assms(10) by (auto simp: names_bytes_def)
  have d0: "Digest m \<noteq> ''''" using Validate_parts(2) [OF L d(1)] by auto
  note d = d d0
  let ?out = "add_outcome L (mem_shows ns s) m (pipe_stream (bt_w t))"
  obtain res s' where s': "MemStore_Add L ns e m (pipe_stream (bt_w t)) s = Some (res, s')" "mem_run_ok L U s'"
      "mem_shows ns s' = after_add ?out m (pipe_stream (bt_w t)) (mem_shows ns s)"
    using mem.add [OF assms(7) _ assms(9), where m = m and r = "pipe_stream (bt_w t)" and ns = ns] stream assms(8)
    by (auto simp: MemStore_store_def)
  have "\<exists>ls. mem_shows ns s' (Digest m) = Some (c, ls)"
  proof (cases "mem_shows ns s (Digest m)")
    case None
    then have "?out = Added (Digest m)" using d stream by (simp add: add_outcome_def)
    then show ?thesis using s'(3) stream by (simp add: after_add_def)
  next
    case (Some y)
    then have "?out = Duplicate (Digest m)" using d by (simp add: add_outcome_def)
    then have "mem_shows ns s' (Digest m) = Some y" using s'(3) Some by (simp add: after_add_def)
    moreover have "fst y = c"
      using Some same_bytes assms(7,8,10) by (fastforce simp: mem_run_ok_def mem_shows_def)
    ultimately show ?thesis by (metis prod.collapse)
  qed
  with bs s' show ?thesis by blast
qed

theorem tap_fills_cache_witness:
  "\<exists>t res s' ls. tap_reads bytes_source (tapped (NewBytesReader ''hi'') 2 example_abort (\<lambda>y. y) ()) ''hi'' t
    \<and> MemStore_Add example_lib ''a'' (background 1) example_meta (pipe_stream (bt_w t)) (NewMemStores 0 []) = Some (res, s')
    \<and> mem_shows ''a'' s' (Digest example_meta) = Some (''hi'', ls)"
proof -
  obtain t where t: "tap_reads bytes_source (tapped (NewBytesReader ''hi'') (int (length ''hi'')) example_abort (\<lambda>y. y) ()) ''hi'' t"
    using example_reads by auto
  have ok: "mem_run_ok example_lib {''hi''} (NewMemStores 0 [])" using mem_start_ok by blast
  from tap_fills_cache [OF bytes_src.blob_source_axioms [of "''hi''"] _ _ example_hooks t _ ok _ live_background [of 1] example_meta_named, of "''a''"] t
  show ?thesis by (auto simp: NewBytesReader_def)
qed

end
