(* ===== verification/CacheFlight.thy ===== *)
theory CacheFlight
  imports CacheTap
begin

text \<open>
  \<open>cache.go\<close>, the coordination of misses: the registry of flights, one per namespace and digest, the
  count of the users of a flight with its idle timer, and \<open>openOrigin\<close>, which streams a blob from the
  origin to its caller and into the cache while others wait for the flight.
\<close>

section \<open>Flights\<close>

type_synonym flight_key = "string \<times> string"

text \<open>
  A flight is known by its number. \<open>fl_closes\<close> counts the calls of \<open>close(flight.done)\<close>: the channel is
  closed when there is one, and a second one would panic.
\<close>

record cacheFlight =
  fl_key :: flight_key
  fl_closes :: nat
  fl_originErr :: "error option"

record cacheFlights =
  cf_active :: "flight_key \<Rightarrow> nat option"
  cf_flights :: "cacheFlight list"

definition no_flights :: cacheFlights where
  "no_flights = \<lparr>cf_active = (\<lambda>_. None), cf_flights = []\<rparr>"

definition flights_join :: "flight_key \<Rightarrow> cacheFlights \<Rightarrow> (nat \<times> bool) \<times> cacheFlights" where
  "flights_join key f =
     (case cf_active f key of
        Some i \<Rightarrow> ((i, False), f)
      | None \<Rightarrow>
          (let i = length (cf_flights f)
           in ((i, True), f\<lparr>cf_active := (cf_active f)(key \<mapsto> i),
                             cf_flights := cf_flights f @ [\<lparr>fl_key = key, fl_closes = 0, fl_originErr = None\<rparr>]\<rparr>)))"

definition flights_finish :: "flight_key \<Rightarrow> nat \<Rightarrow> error option \<Rightarrow> cacheFlights \<Rightarrow> cacheFlights" where
  "flights_finish key i err f =
     (if cf_active f key \<noteq> Some i then f
      else f\<lparr>cf_active := (cf_active f)(key := None),
             cf_flights := (cf_flights f)[i := (cf_flights f ! i)\<lparr>fl_originErr := err,
               fl_closes := Suc (fl_closes (cf_flights f ! i))\<rparr>]\<rparr>)"

text \<open>Joins and finishes of any goroutines, in any order, also of flights that are finished already.\<close>

inductive flights_reachable :: "cacheFlights \<Rightarrow> bool" where
  start: "flights_reachable no_flights"
| join: "flights_reachable f \<Longrightarrow> flights_join key f = (res, f') \<Longrightarrow> flights_reachable f'"
| finish: "flights_reachable f \<Longrightarrow> flights_reachable (flights_finish key i err f)"

definition flying :: "cacheFlights \<Rightarrow> nat \<Rightarrow> bool" where
  "flying f i \<longleftrightarrow> i < length (cf_flights f) \<and> fl_closes (cf_flights f ! i) = 0"

definition flights_inv :: "cacheFlights \<Rightarrow> bool" where
  "flights_inv f \<longleftrightarrow>
     (\<forall>key i. cf_active f key = Some i \<longleftrightarrow> flying f i \<and> fl_key (cf_flights f ! i) = key)
     \<and> (\<forall>i < length (cf_flights f). fl_closes (cf_flights f ! i) \<le> 1)"

lemma active_iff:
  "flights_inv f \<Longrightarrow> cf_active f k = Some j \<longleftrightarrow>
    j < length (cf_flights f) \<and> fl_closes (cf_flights f ! j) = 0 \<and> fl_key (cf_flights f ! j) = k"
  unfolding flights_inv_def flying_def by blast

lemma closes_le: "flights_inv f \<Longrightarrow> j < length (cf_flights f) \<Longrightarrow> fl_closes (cf_flights f ! j) \<le> 1"
  unfolding flights_inv_def by blast

lemma flights_invI:
  "(\<And>k j. cf_active f k = Some j \<longleftrightarrow> flying f j \<and> fl_key (cf_flights f ! j) = k) \<Longrightarrow>
   (\<And>j. j < length (cf_flights f) \<Longrightarrow> fl_closes (cf_flights f ! j) \<le> 1) \<Longrightarrow> flights_inv f"
  unfolding flights_inv_def by blast

lemma no_flights_inv: "flights_inv no_flights"
  by (simp add: flights_inv_def no_flights_def flying_def)

lemma join_inv:
  assumes "flights_inv f" "flights_join key f = ((i, leader), f')"
  shows "flights_inv f' \<and> flying f' i \<and> fl_key (cf_flights f' ! i) = key \<and> (leader \<longrightarrow> i = length (cf_flights f))
    \<and> (\<forall>j < length (cf_flights f). j < length (cf_flights f') \<and> cf_flights f' ! j = cf_flights f ! j)"
proof (cases "cf_active f key")
  case (Some j)
  then show ?thesis using assms active_iff [OF assms(1), of key j] by (auto simp: flights_join_def flying_def)
next
  case None
  note old = active_iff [OF assms(1)]
  have f': "i = length (cf_flights f)" "f' = f\<lparr>cf_active := (cf_active f)(key \<mapsto> i),
      cf_flights := cf_flights f @ [\<lparr>fl_key = key, fl_closes = 0, fl_originErr = None\<rparr>]\<rparr>"
    using assms(2) None by (auto simp: flights_join_def Let_def)
  have "cf_active f' k = Some j \<longleftrightarrow> flying f' j \<and> fl_key (cf_flights f' ! j) = k" for k j
    using old [of k j] old [of key j] None by (auto simp: f' flying_def nth_append less_Suc_eq)
  moreover have "fl_closes (cf_flights f' ! j) \<le> 1" if "j < length (cf_flights f')" for j
    using closes_le [OF assms(1), of j] that by (auto simp: f' nth_append less_Suc_eq)
  ultimately have "flights_inv f'" by (rule flights_invI)
  then show ?thesis by (simp add: f' flying_def nth_append)
qed

lemma finish_inv:
  assumes "flights_inv f"
  shows "flights_inv (flights_finish key i err f)"
proof (cases "cf_active f key = Some i")
  case True
  let ?f = "flights_finish key i err f"
  note old = active_iff [OF assms]
  have i: "i < length (cf_flights f)" "fl_closes (cf_flights f ! i) = 0" "fl_key (cf_flights f ! i) = key"
    using old [of key i] True by auto
  have "cf_active ?f k = Some j \<longleftrightarrow> flying ?f j \<and> fl_key (cf_flights ?f ! j) = k" for k j
    using old [of k j] i True by (auto simp: flights_finish_def flying_def nth_list_update)
  moreover have "fl_closes (cf_flights ?f ! j) \<le> 1" if "j < length (cf_flights ?f)" for j
    using closes_le [OF assms, of j] that True i by (auto simp: flights_finish_def nth_list_update)
  ultimately show ?thesis by (rule flights_invI)
qed (use assms in \<open>simp add: flights_finish_def\<close>)

lemma reachable_flights_inv: "flights_reachable f \<Longrightarrow> flights_inv f"
proof (induction rule: flights_reachable.induct)
  case (join f key res f')
  then show ?case using join_inv by (metis surj_pair)
qed (auto intro: no_flights_inv finish_inv)

text \<open>A flight that its leader finishes is over; others are not touched.\<close>

lemma finish_lands:
  assumes "flights_inv f" "i < length (cf_flights f)" "fl_key (cf_flights f ! i) = key"
  shows "\<not> flying (flights_finish key i err f) i"
  using assms active_iff [OF assms(1), of key i] by (auto simp: flights_finish_def flying_def nth_list_update)

lemma finish_flying: "flying (flights_finish key i err f) j \<Longrightarrow> flying f j"
  by (cases "j = i") (auto simp: flights_finish_def flying_def nth_list_update split: if_splits)

lemma finish_length [simp]: "length (cf_flights (flights_finish key i err f)) = length (cf_flights f)"
  by (simp add: flights_finish_def)

lemma finish_key [simp]:
  "j < length (cf_flights f) \<Longrightarrow> fl_key (cf_flights (flights_finish key i err f) ! j) = fl_key (cf_flights f ! j)"
  by (cases "j = i") (simp_all add: flights_finish_def nth_list_update)

section \<open>Users of a flight\<close>

text \<open>\<open>fu_timer\<close> is the timer that will cancel the flight, with its delay.\<close>

record flightUsers =
  fu_n :: int
  fu_timeout :: duration
  fu_cancel :: bool
  fu_timer :: "duration option"

definition users_idle :: "duration \<Rightarrow> bool \<Rightarrow> flightUsers \<Rightarrow> flightUsers" where
  "users_idle timeout cancel u =
     (let u = u\<lparr>fu_timeout := timeout, fu_cancel := cancel, fu_timer := None\<rparr>
      in if cancel \<and> fu_n u = 0 then u\<lparr>fu_timer := Some timeout\<rparr> else u)"

definition users_join :: "flightUsers \<Rightarrow> flightUsers" where
  "users_join u = u\<lparr>fu_n := fu_n u + 1, fu_timer := None\<rparr>"

definition users_leave :: "flightUsers \<Rightarrow> flightUsers" where
  "users_leave u =
     (let u = u\<lparr>fu_n := fu_n u - 1\<rparr>
      in if fu_n u = 0 \<and> fu_cancel u then u\<lparr>fu_timer := Some (fu_timeout u)\<rparr> else u)"

text \<open>Users come and go, each leaving once, and the flight starts and stops watching them.\<close>

inductive users_reachable :: "flightUsers \<Rightarrow> nat \<Rightarrow> bool" where
  start: "users_reachable \<lparr>fu_n = 0, fu_timeout = 0, fu_cancel = False, fu_timer = None\<rparr> 0"
| idle: "users_reachable u k \<Longrightarrow> users_reachable (users_idle timeout cancel u) k"
| join: "users_reachable u k \<Longrightarrow> users_reachable (users_join u) (Suc k)"
| leave: "users_reachable u (Suc k) \<Longrightarrow> users_reachable (users_leave u) k"

lemma users_inv:
  "users_reachable u k \<Longrightarrow> fu_n u = int k \<and> fu_timer u = (if k = 0 \<and> fu_cancel u then Some (fu_timeout u) else None)"
proof (induction rule: users_reachable.induct)
  case (idle u k timeout cancel)
  then show ?case by (simp add: users_idle_def Let_def)
next
  case (leave u k)
  then show ?case by (cases k) (simp_all add: users_leave_def Let_def)
qed (simp_all add: users_join_def)

end
