(* ===== verification/CacheOpen.thy ===== *)
theory CacheOpen
  imports CacheFlight
begin

text \<open>
  \<open>cache.go\<close>, a miss of a store that is no \<open>Filler\<close>: \<open>openOrigin\<close> with the goroutines it starts, and
  \<open>CacheStore\<close> with its operations; \<open>Open\<close> is in two parts, before and after a caller has waited for a
  flight of another.
\<close>

section \<open>Streaming from the origin\<close>

text \<open>
  What the closures of \<open>openOrigin\<close> share: the registry, whether \<open>cancelFill\<close> was called, whether
  \<open>stopFlightCancellation\<close> has still something to stop, the timer that \<open>complete\<close> starts, and whether
  \<open>fillDone\<close> is closed.
\<close>

record leader =
  ld_flights :: cacheFlights
  ld_fillCanceled :: bool
  ld_watching :: bool
  ld_timer :: "duration option"
  ld_fillDone :: bool

type_synonym finisher = "error option \<Rightarrow> cacheFlights \<Rightarrow> cacheFlights"

definition DefaultCacheFillTimeout :: duration where
  "DefaultCacheFillTimeout = 15 * 60 * 1000000000"

definition fill_timeout :: "duration \<Rightarrow> duration" where
  "fill_timeout FillTimeout = (if FillTimeout \<le> 0 then DefaultCacheFillTimeout else FillTimeout)"

definition fill_abort_hook :: "finisher \<Rightarrow> error \<Rightarrow> pipe \<times> leader \<Rightarrow> pipe \<times> leader" where
  "fill_abort_hook fin err = (\<lambda>(p, x).
     (PipeReader_Close (Some err) p, x\<lparr>ld_fillCanceled := True, ld_flights := fin None (ld_flights x)\<rparr>))"

definition fill_complete_hook :: "duration \<Rightarrow> pipe \<times> leader \<Rightarrow> pipe \<times> leader" where
  "fill_complete_hook timeout = (\<lambda>(p, x). (p, x\<lparr>ld_watching := False, ld_timer := Some timeout\<rparr>))"

text \<open>The tap with its hooks; a blob without bytes is complete, and a negative size aborts at once.\<close>

definition leader_tap :: "'r \<Rightarrow> int \<Rightarrow> finisher \<Rightarrow> duration \<Rightarrow> cacheFlights \<Rightarrow> ('r, leader) blobTap" where
  "leader_tap r sz fin timeout f =
     (let t = tapped r sz (fill_abort_hook fin) (fill_complete_hook timeout)
                \<lparr>ld_flights = f, ld_fillCanceled = False, ld_watching = True, ld_timer = None, ld_fillDone = False\<rparr>;
          t = (if sz < 0 then run_hook (fill_abort_hook fin ErrUnexpectedEOF) t else t)
      in if sz = 0 then run_hook (fill_complete_hook timeout) t else t)"

text \<open>\<open>cacheReader.Close\<close> stops the cancellation of the source and closes the tap.\<close>

definition cacheReader_Close :: "'r source \<Rightarrow> (('r, leader) blobTap, error option) go" where
  "cacheReader_Close so = tap_Close so"

text \<open>Opening the blob at the origin and asking for its size; the reader is over the bytes it gives.\<close>

definition origin_sized ::
  "'s store \<Rightarrow> env \<Rightarrow> env \<Rightarrow> string \<Rightarrow> ('s, error + (bytes \<times> 's blobInfo \<times> int)) go" where
  "origin_sized origin e1 e2 d =
     chk (Open origin e1 d) Inl (\<lambda>(content, info). \<lambda>s.
       case Info_Size e2 (info, s) of
         None \<Rightarrow> None
       | Some (Inl err, (info, s)) \<Rightarrow> Some (Inl err, s)
       | Some (Inr sz, (info, s)) \<Rightarrow> Some (Inr (content, info, sz), s))"

text \<open>
  \<open>es 0\<close> is the context at the two places where \<open>openOrigin\<close> looks at it, \<open>es 1\<close> and \<open>es 2\<close> are for the
  calls of the origin. The reader it answers has the registry in its state.
\<close>

definition openOrigin ::
  "'s store \<Rightarrow> duration \<Rightarrow> (nat \<Rightarrow> env) \<Rightarrow> string \<Rightarrow> finisher
   \<Rightarrow> ('s \<times> cacheFlights, error + ((bytesReader, leader) blobTap \<times> 's blobInfo)) go" where
  "openOrigin origin FillTimeout es d fin = (\<lambda>(s, f).
     case ctx_Err (es 0) 0 of
       Some err \<Rightarrow> Some (Inl err, (s, fin None f))
     | None \<Rightarrow>
         (case origin_sized origin (es 1) (es 2) d s of
            None \<Rightarrow> None
          | Some (Inl err, s) \<Rightarrow>
              Some (Inl err, (s, fin (if errors_Is err ContextCanceled \<or> errors_Is err ContextDeadlineExceeded
                                      then None else Some err) f))
          | Some (Inr (content, info, sz), s) \<Rightarrow>
              (let t = leader_tap (NewBytesReader content) sz fin (fill_timeout FillTimeout) f
               in case ctx_Err (es 0) 1 of
                    None \<Rightarrow> Some (Inr (t, info), (s, ld_flights (bt_x t)))
                  | Some err \<Rightarrow>
                      (case cacheReader_Close bytes_source t of
                         None \<Rightarrow> None
                       | Some (_, t) \<Rightarrow> Some (Inl err, (s, ld_flights (bt_x t)))))))"

text \<open>
  The steps of what \<open>openOrigin\<close> leaves behind: the caller uses its reader, the two cancellations run
  when the context is done, the goroutine that writes into the cache comes to its end, its timer
  fires, and other goroutines use the registry.
\<close>

definition fill_goroutine_ends :: "finisher \<Rightarrow> ('r, leader) blobTap \<Rightarrow> ('r, leader) blobTap" where
  "fill_goroutine_ends fin t =
     t\<lparr>bt_w := PipeReader_Close None (bt_w t),
       bt_x := (bt_x t)\<lparr>ld_flights := fin None (ld_flights (bt_x t)), ld_watching := False, ld_fillCanceled := True,
                        ld_fillDone := True\<rparr>\<rparr>"

inductive leader_step :: "'r source \<Rightarrow> flight_key \<Rightarrow> nat \<Rightarrow> ('r, leader) blobTap \<Rightarrow> ('r, leader) blobTap \<Rightarrow> bool"
  for so key i where
  read: "tap_Read so cut' w n t = Some (res, t') \<Longrightarrow> leader_step so key i t t'"
| seek: "tap_Seek so offset wh t = Some (res, t') \<Longrightarrow> leader_step so key i t t'"
| close: "cacheReader_Close so t = Some (res, t') \<Longrightarrow> leader_step so key i t t'"
| cancel_flight: "ld_watching (bt_x t) \<Longrightarrow>
    leader_step so key i t (t\<lparr>bt_x := (bt_x t)\<lparr>ld_flights := flights_finish key i None (ld_flights (bt_x t))\<rparr>\<rparr>)"
| cancel_source: "tap_Close so (tap_stop (Some err) t) = Some (res, t') \<Longrightarrow> leader_step so key i t t'"
| fill_ends: "leader_step so key i t (fill_goroutine_ends (flights_finish key i) t)"
| timer: "ld_timer (bt_x t) \<noteq> None \<Longrightarrow> \<not> ld_fillDone (bt_x t) \<Longrightarrow>
    leader_step so key i t (t\<lparr>bt_x := (bt_x t)\<lparr>ld_fillCanceled := True\<rparr>\<rparr>)"
| others_join: "flights_join key' (ld_flights (bt_x t)) = (res, f) \<Longrightarrow>
    leader_step so key i t (t\<lparr>bt_x := (bt_x t)\<lparr>ld_flights := f\<rparr>\<rparr>)"
| others_finish: "j \<noteq> i \<Longrightarrow>
    leader_step so key i t (t\<lparr>bt_x := (bt_x t)\<lparr>ld_flights := flights_finish key' j err (ld_flights (bt_x t))\<rparr>\<rparr>)"

inductive leader_reachable ::
  "'r source \<Rightarrow> flight_key \<Rightarrow> nat \<Rightarrow> ('r, leader) blobTap \<Rightarrow> ('r, leader) blobTap \<Rightarrow> bool" for so key i t0 where
  start: "leader_reachable so key i t0 t0"
| step: "leader_reachable so key i t0 t \<Longrightarrow> leader_step so key i t t' \<Longrightarrow> leader_reachable so key i t0 t'"

section \<open>Nobody waits in vain\<close>

text \<open>
  While the flight is under way, the goroutine that writes into the cache is still running, and
  either the reader can still deliver, or every byte is forwarded and the timer is set.
\<close>

definition waits_well :: "flight_key \<Rightarrow> nat \<Rightarrow> duration \<Rightarrow> bool \<Rightarrow> error option \<Rightarrow> leader \<Rightarrow> bool" where
  "waits_well key i timeout stopped werr x \<longleftrightarrow>
     flights_inv (ld_flights x) \<and> i < length (cf_flights (ld_flights x)) \<and> fl_key (cf_flights (ld_flights x) ! i) = key
     \<and> (stopped \<longleftrightarrow> werr \<noteq> None)
     \<and> (flying (ld_flights x) i \<longrightarrow> \<not> ld_fillDone x \<and> (stopped \<longrightarrow> werr = Some EOF \<and> ld_timer x = Some timeout))"

definition lead_ok :: "flight_key \<Rightarrow> nat \<Rightarrow> duration \<Rightarrow> ('r, leader) blobTap \<Rightarrow> bool" where
  "lead_ok key i timeout t \<longleftrightarrow>
     bt_onAbort t = Some (fill_abort_hook (flights_finish key i)) \<and> bt_onComplete t = Some (fill_complete_hook timeout)
     \<and> waits_well key i timeout (bt_stopped t) (pp_werr (bt_w t)) (bt_x t)"

lemma waits_finish:
  assumes "waits_well key i timeout stopped werr x" "stopped' \<longleftrightarrow> werr' \<noteq> None"
    and "ld_flights x' = flights_finish key i err (ld_flights x)"
  shows "waits_well key i timeout stopped' werr' x'"
  using assms finish_inv [of "ld_flights x"] finish_lands [of "ld_flights x" i key err]
  by (simp add: waits_well_def)

lemma waits_others:
  assumes "waits_well key i timeout stopped werr x" "flights_inv f" "i < length (cf_flights f)"
    and "fl_key (cf_flights f ! i) = fl_key (cf_flights (ld_flights x) ! i)" "flying f i \<Longrightarrow> flying (ld_flights x) i"
  shows "waits_well key i timeout stopped werr (x\<lparr>ld_flights := f\<rparr>)"
  using assms by (simp add: waits_well_def)

lemma lead_same:
  "lead_ok key i timeout t \<Longrightarrow> bt_onAbort t' = bt_onAbort t \<Longrightarrow> bt_onComplete t' = bt_onComplete t \<Longrightarrow>
   bt_stopped t' = bt_stopped t \<Longrightarrow> pp_werr (bt_w t') = pp_werr (bt_w t) \<Longrightarrow> bt_x t' = bt_x t \<Longrightarrow> lead_ok key i timeout t'"
  by (simp add: lead_ok_def)

lemma lead_stop:
  assumes "lead_ok key i timeout t" 
  shows "lead_ok key i timeout (tap_stop err t)"
proof (cases "bt_stopped t")
  case False
  have hk: "bt_onAbort t = Some (fill_abort_hook (flights_finish key i))" "bt_onComplete t = Some (fill_complete_hook timeout)"
      "waits_well key i timeout False (pp_werr (bt_w t)) (bt_x t)" using assms False by (simp_all add: lead_ok_def)
  then have w: "pp_werr (bt_w t) = None" by (simp add: waits_well_def)
  show ?thesis
  proof (cases err)
    case None
    have x: "bt_x (tap_stop None t) = (bt_x t)\<lparr>ld_watching := False, ld_timer := Some timeout\<rparr>"
        "pp_werr (bt_w (tap_stop None t)) = Some EOF"
      using hk w False by (simp_all add: tap_stop_def run_hook_def fill_complete_hook_def Let_def)
    show ?thesis using hk x None by (simp add: lead_ok_def waits_well_def)
  next
    case (Some e)
    have x: "bt_x (tap_stop (Some e) t) = (bt_x t)\<lparr>ld_fillCanceled := True, ld_flights := flights_finish key i None (ld_flights (bt_x t))\<rparr>"
        "pp_werr (bt_w (tap_stop (Some e) t)) = Some e"
      using hk w False by (simp_all add: tap_stop_def run_hook_def fill_abort_hook_def Let_def)
    have "waits_well key i timeout True (Some e) (bt_x (tap_stop (Some e) t))"
      by (rule waits_finish [OF hk(3)]) (simp_all add: x)
    then show ?thesis using hk x Some by (simp add: lead_ok_def)
  qed
qed (use assms in simp)

lemma lead_interfere: "lead_ok key i timeout t \<Longrightarrow> lead_ok key i timeout (interfere w t)"
  using lead_stop [of key i timeout t]
  by (auto simp: interfere_def split: option.split interference.split intro: lead_same)

lemma lead_write:
  assumes "lead_ok key i timeout t"
  shows "lead_ok key i timeout (snd (tap_write w b t))"
proof -
  let ?t = "\<lambda>k. t\<lparr>bt_w := (bt_w t)\<lparr>pp_taken := pp_taken (bt_w t) @ take k b\<rparr>, bt_forwarded := bt_forwarded t + int (length (take k b))\<rparr>"
  have "lead_ok key i timeout (?t k)" for k by (rule lead_same [OF assms]) simp_all
  note taken = this lead_interfere [OF this]
  have "snd (tap_write w b t) = t \<or> (\<exists>k. snd (tap_write w b t) = ?t k) \<or> (\<exists>k x. snd (tap_write w b t) = interfere (Some x) (?t k))"
  proof (cases "pipe_closed (bt_w t)")
    case True
    then show ?thesis by (simp add: tap_write_def)
  next
    case False
    show ?thesis
    proof (cases w)
      case None
      then have "snd (tap_write w b t) = ?t (length b)" using False by (simp add: tap_write_def)
      then show ?thesis by blast
    next
      case (Some p)
      obtain k x where p: "p = (k, x)" by (metis surj_pair)
      have "snd (tap_write w b t) = (if k \<ge> length b then ?t (length b) else interfere (Some x) (?t k))"
        using False Some p by (simp add: tap_write_def Let_def)
      then show ?thesis by (metis (full_types))
    qed
  qed
  then show ?thesis using taken assms by metis
qed

lemma lead_settle: "lead_ok key i timeout (snd res) \<Longrightarrow> lead_ok key i timeout (tap_settle w res)"
  by (cases res; cases "fst res") (simp_all add: tap_settle_def Let_def lead_stop lead_interfere)

lemma lead_forward: "lead_ok key i timeout t \<Longrightarrow> lead_ok key i timeout (tap_forward w x start b err t)"
  by (simp add: tap_forward_def lead_stop lead_settle lead_write)

lemma lead_Read: "lead_ok key i timeout t \<Longrightarrow> tap_Read so cut' w n t = Some (res, t') \<Longrightarrow> lead_ok key i timeout t'"
proof -
  assume ok: "lead_ok key i timeout t" and rd: "tap_Read so cut' w n t = Some (res, t')"
  obtain b err r where t': "t' = tap_forward (cut' 1) w (bt_offset t) b err
      (interfere (cut' 0) (t\<lparr>bt_r := r, bt_offset := bt_offset t + int (length b)\<rparr>))"
    using rd by (auto simp: tap_Read_def split: option.splits)
  show "lead_ok key i timeout t'"
    unfolding t' by (intro lead_forward lead_interfere lead_same [OF ok]) simp_all
qed

lemma lead_Seek:
  assumes "lead_ok key i timeout t" "tap_Seek so offset wh t = Some (res, t')"
  shows "lead_ok key i timeout t'"
proof -
  have "lead_ok key i timeout (t\<lparr>bt_r := r\<rparr>)" for r by (rule lead_same [OF assms(1)]) simp_all
  moreover have "lead_ok key i timeout (t\<lparr>bt_r := r, bt_offset := p\<rparr>)" for r p by (rule lead_same [OF assms(1)]) simp_all
  ultimately show ?thesis
    using assms(2) by (auto simp: tap_Seek_def Let_def lead_stop split: option.splits sum.splits if_splits)
qed

lemma lead_Close:
  assumes "lead_ok key i timeout t" "tap_Close so t = Some (res, t')"
  shows "lead_ok key i timeout t'"
proof -
  let ?t = "tap_stop (Some ErrUnexpectedEOF) t"
  have ok: "lead_ok key i timeout ?t" by (rule lead_stop [OF assms(1)])
  have "t' = ?t \<or> (\<exists>r x. t' = ?t\<lparr>bt_r := r, bt_closeErr := x\<rparr>)"
    using assms(2) by (auto simp: tap_Close_def Let_def split: option.splits)
  moreover have "lead_ok key i timeout (?t\<lparr>bt_r := r, bt_closeErr := x\<rparr>)" for r x by (rule lead_same [OF ok]) simp_all
  ultimately show ?thesis using ok by metis
qed

lemma lead_step: "leader_step so key i t t' \<Longrightarrow> lead_ok key i timeout t \<Longrightarrow> lead_ok key i timeout t'"
proof (induction rule: leader_step.induct)
  case (close t res t')
  then show ?case by (simp add: cacheReader_Close_def lead_Close)
next
  case (cancel_flight t)
  let ?x = "(bt_x t)\<lparr>ld_flights := flights_finish key i None (ld_flights (bt_x t))\<rparr>"
  have "waits_well key i timeout (bt_stopped t) (pp_werr (bt_w t)) ?x"
    by (rule waits_finish [of _ _ _ "bt_stopped t" "pp_werr (bt_w t)" "bt_x t"])
      (use cancel_flight in \<open>simp_all add: lead_ok_def waits_well_def\<close>)
  then show ?case using cancel_flight by (simp add: lead_ok_def)
next
  case (cancel_source err t res t')
  then show ?case using lead_Close lead_stop by blast
next
  case (fill_ends t)
  let ?x = "bt_x (fill_goroutine_ends (flights_finish key i) t)"
  have "waits_well key i timeout (bt_stopped t) (pp_werr (bt_w t)) ?x"
    by (rule waits_finish [of _ _ _ "bt_stopped t" "pp_werr (bt_w t)" "bt_x t"])
      (use fill_ends in \<open>simp_all add: lead_ok_def waits_well_def fill_goroutine_ends_def\<close>)
  then show ?case using fill_ends by (simp add: lead_ok_def fill_goroutine_ends_def)
next
  case (timer t)
  then show ?case by (simp add: lead_ok_def waits_well_def)
next
  case (others_join key' t res f)
  obtain k l where res: "res = (k, l)" by (metis surj_pair)
  have ok: "waits_well key i timeout (bt_stopped t) (pp_werr (bt_w t)) (bt_x t)" using others_join(2) by (simp add: lead_ok_def)
  then have "flights_inv (ld_flights (bt_x t))" by (simp add: waits_well_def)
  note j = join_inv [OF this others_join(1) [unfolded res]]
  have i: "i < length (cf_flights (ld_flights (bt_x t)))" using ok by (simp add: waits_well_def)
  then have same: "i < length (cf_flights f)" "cf_flights f ! i = cf_flights (ld_flights (bt_x t)) ! i" using j by blast+
  then have "flying f i = flying (ld_flights (bt_x t)) i" using i by (simp add: flying_def)
  moreover have "flights_inv f" using j by blast
  ultimately have "waits_well key i timeout (bt_stopped t) (pp_werr (bt_w t)) ((bt_x t)\<lparr>ld_flights := f\<rparr>)"
    using same(1) by (intro waits_others [OF ok]) (simp_all add: same(2))
  then show ?case using others_join(2) by (simp add: lead_ok_def)
next
  case (others_finish j t key' err)
  have ok: "waits_well key i timeout (bt_stopped t) (pp_werr (bt_w t)) (bt_x t)" using others_finish(2) by (simp add: lead_ok_def)
  then have "i < length (cf_flights (ld_flights (bt_x t)))" "flights_inv (ld_flights (bt_x t))" by (simp_all add: waits_well_def)
  then have "waits_well key i timeout (bt_stopped t) (pp_werr (bt_w t))
      ((bt_x t)\<lparr>ld_flights := flights_finish key' j err (ld_flights (bt_x t))\<rparr>)"
    by (intro waits_others [OF ok finish_inv]) (auto dest: finish_flying)
  then show ?case using others_finish(2) by (simp add: lead_ok_def)
qed (auto intro: lead_Read lead_Seek)

lemma lead_tap:
  assumes "flights_inv f" "flying f i" "fl_key (cf_flights f ! i) = key"
  shows "lead_ok key i timeout (leader_tap r sz (flights_finish key i) timeout f)"
proof -
  have f: "i < length (cf_flights f)" using assms(2) by (simp add: flying_def)
  note defs = leader_tap_def tapped_def newBlobTap_def Let_def tap_stop_def run_hook_def fill_abort_hook_def
    fill_complete_hook_def PipeWriter_Close_def PipeReader_Close_def lead_ok_def waits_well_def
  consider "sz = 0" | "sz < 0" | "0 < sz" by linarith
  then show ?thesis
  proof cases
    case 2
    then show ?thesis using assms f finish_inv [OF assms(1)] finish_lands [OF assms(1) f assms(3), of None] by (simp add: defs)
  qed (use assms f in \<open>simp_all add: defs\<close>)
qed

lemma lead_reachable: "leader_reachable so key i t0 t \<Longrightarrow> lead_ok key i timeout t0 \<Longrightarrow> lead_ok key i timeout t"
  by (induction rule: leader_reachable.induct) (auto intro: lead_step)

section \<open>The store\<close>

record 's cacheStore =
  cs_Primary :: "'s store"
  cs_Origin :: "'s store"
  cs_FillTimeout :: duration
  cs_namespace :: string

definition CacheStores_Use :: "(string \<Rightarrow> 's store) \<Rightarrow> (string \<Rightarrow> 's store) \<Rightarrow> duration \<Rightarrow> string \<Rightarrow> 's cacheStore" where
  "CacheStores_Use primary origin FillTimeout ns =
     \<lparr>cs_Primary = primary ns, cs_Origin = origin ns, cs_FillTimeout = FillTimeout, cs_namespace = ns\<rparr>"

definition CacheStore_Add :: "'s cacheStore \<Rightarrow> env \<Rightarrow> meta \<Rightarrow> reader \<Rightarrow> ('s, meta \<times> error option) go" where
  "CacheStore_Add c e m r = Add (cs_Primary c) e m r"

definition CacheStore_Stat :: "'s cacheStore \<Rightarrow> env \<Rightarrow> string \<Rightarrow> ('s, error + 's blobInfo) go" where
  "CacheStore_Stat c e d =
     bind (Stat (cs_Primary c) e d) (\<lambda>res. case res of Inr info \<Rightarrow> ret (Inr info) | Inl _ \<Rightarrow> Stat (cs_Origin c) e d)"

definition CacheStore_Label :: "'s cacheStore \<Rightarrow> env \<Rightarrow> string \<Rightarrow> labels \<Rightarrow> ('s, error option) go" where
  "CacheStore_Label c e d labels = Label (cs_Primary c) e d labels"

definition CacheStore_Erase :: "'s cacheStore \<Rightarrow> env \<Rightarrow> string \<Rightarrow> ('s, error option) go" where
  "CacheStore_Erase c e d = Erase (cs_Primary c) e d"

text \<open>What \<open>Open\<close> answers: the reader of the primary, or a tap on the reader of the origin.\<close>

datatype 's opened =
    From_primary bytes "'s blobInfo"
  | From_origin "(bytesReader, leader) blobTap" "'s blobInfo"

datatype 'a begun = Answers 'a | Waits nat

text \<open>A call of \<open>Open\<close> on the primary, with the registry carried along.\<close>

definition open_primary ::
  "'s cacheStore \<Rightarrow> env \<Rightarrow> string \<Rightarrow> ('s \<times> cacheFlights, error + (bytes \<times> 's blobInfo)) go" where
  [go_run]: "open_primary c e d = (\<lambda>(s, f).
     case Open (cs_Primary c) e d s of None \<Rightarrow> None | Some (res, s) \<Rightarrow> Some (res, (s, f)))"

definition from_origin ::
  "error + ((bytesReader, leader) blobTap \<times> 's blobInfo) \<Rightarrow> error + 's opened" where
  "from_origin res = (case res of Inl err \<Rightarrow> Inl err | Inr (t, info) \<Rightarrow> Inr (From_origin t info))"

text \<open>
  \<open>Open\<close> up to the point where a caller has its answer or waits for the flight of another. \<open>es 3\<close> is its
  own context, \<open>es 4\<close> and \<open>es 5\<close> are for the calls of the primary.
\<close>

definition CacheStore_Open ::
  "'s cacheStore \<Rightarrow> (nat \<Rightarrow> env) \<Rightarrow> string \<Rightarrow> ('s \<times> cacheFlights, (error + 's opened) begun) go" where
  "CacheStore_Open c es d =
     (case ctx_Err (es 3) 0 of
        Some err \<Rightarrow> ret (Answers (Inl err))
      | None \<Rightarrow>
          bind (open_primary c (es 4) d) (\<lambda>res. case res of
            Inr (content, info) \<Rightarrow> ret (Answers (Inr (From_primary content info)))
          | Inl _ \<Rightarrow>
              (\<lambda>(s, f). case flights_join (cs_namespace c, d) f of
                 ((i, False), f) \<Rightarrow> Some (Waits i, (s, f))
               | ((i, True), f) \<Rightarrow>
                   bind (open_primary c (es 5) d) (\<lambda>res. case res of
                     Inr (content, info) \<Rightarrow>
                       bind (modify (\<lambda>(s, f). (s, flights_finish (cs_namespace c, d) i None f))) (\<lambda>_.
                       ret (Answers (Inr (From_primary content info))))
                   | Inl _ \<Rightarrow>
                       bind (openOrigin (cs_Origin c) (cs_FillTimeout c) es d (flights_finish (cs_namespace c, d) i)) (\<lambda>res.
                       ret (Answers (from_origin res)))) (s, f))))"

text \<open>
  The rest of \<open>Open\<close> of a caller that waited for flight \<open>i\<close>; \<open>woken\<close> says whether its context ended the
  wait.
\<close>

definition CacheStore_Open_waited ::
  "'s cacheStore \<Rightarrow> (nat \<Rightarrow> env) \<Rightarrow> error option \<Rightarrow> nat \<Rightarrow> string \<Rightarrow> ('s \<times> cacheFlights, error + 's opened) go" where
  "CacheStore_Open_waited c es woken i d =
     (case woken of
        Some err \<Rightarrow> ret (Inl err)
      | None \<Rightarrow>
          (case ctx_Err (es 3) 1 of
             Some err \<Rightarrow> ret (Inl err)
           | None \<Rightarrow>
               bind (open_primary c (es 4) d) (\<lambda>res. case res of
                 Inr (content, info) \<Rightarrow> ret (Inr (From_primary content info))
               | Inl _ \<Rightarrow>
                   bind (gets (\<lambda>(s, f). fl_originErr (cf_flights f ! i))) (\<lambda>err. case err of
                     Some err \<Rightarrow> ret (Inl err)
                   | None \<Rightarrow>
                       bind (openOrigin (cs_Origin c) (cs_FillTimeout c) es d (\<lambda>_ f. f)) (\<lambda>res.
                       ret (from_origin res))))))"

section \<open>A cache of stores that keep the contract\<close>

lemma leader_tap_fields [simp]: "bt_r (leader_tap r sz fin timeout f) = r" "bt_size (leader_tap r sz fin timeout f) = sz"
  by (simp_all add: leader_tap_def run_hook_def Let_def case_prod_unfold)

lemma leader_tap_flights: "0 \<le> sz \<Longrightarrow> ld_flights (bt_x (leader_tap r sz fin timeout f)) = f"
  by (simp add: leader_tap_def tapped_def newBlobTap_def run_hook_def fill_complete_hook_def tap_stop_def Let_def)

locale cached =
  p: blob_store L "cs_Primary c" vp inv takes + o: blob_store L "cs_Origin c" vo inv takes'
  for L :: "'h digest_lib" and c :: "'s cacheStore" and vp vo inv takes takes'
begin

lemma origin_sized_found:
  assumes "inv s" "live e1" "live e2" "vo s d = Some x"
  shows "\<exists>i. origin_sized (cs_Origin c) e1 e2 d s = Some (Inr (fst x, i, int (length (fst x))), s)"
proof -
  obtain i where i: "Open (cs_Origin c) e1 d s = Some (Inr (fst x, i), s)" "tells i s d x"
    using o.opens [OF assms(1,2), of d] assms(4) by auto
  then have "with_info i (Info_Size e2) s = Some (Inr (int (length (fst x))), s)"
    using assms(3) by (simp add: tells_def)
  then obtain i' where "Info_Size e2 (i, s) = Some (Inr (int (length (fst x))), (i', s))"
    by (auto simp: with_info_def split: option.splits prod.splits)
  with i(1) show ?thesis by (simp add: origin_sized_def go_run)
qed

lemma origin_sized_missing:
  assumes "inv s" "live e1" "vo s d = None"
  shows "origin_sized (cs_Origin c) e1 e2 d s = Some (Inl ErrNotExist, s)"
  using o.opens [OF assms(1,2), of d] assms(3) by (simp add: origin_sized_def go_run)

lemma openOrigin_found:
  assumes "inv s" "\<forall>k. live (es k)" "vo s d = Some x"
  shows "\<exists>i t. openOrigin (cs_Origin c) T es d fin (s, f) = Some (Inr (t, i), (s, f))
    \<and> t = leader_tap (NewBytesReader (fst x)) (int (length (fst x))) fin (fill_timeout T) f"
proof -
  obtain i where "origin_sized (cs_Origin c) (es 1) (es 2) d s = Some (Inr (fst x, i, int (length (fst x))), s)"
    using origin_sized_found assms by blast
  then show ?thesis using assms(2) by (simp add: openOrigin_def Let_def leader_tap_flights)
qed

lemma openOrigin_missing:
  assumes "inv s" "\<forall>k. live (es k)" "vo s d = None"
  shows "openOrigin (cs_Origin c) T es d fin (s, f) = Some (Inl ErrNotExist, (s, fin (Some ErrNotExist) f))"
  using origin_sized_missing [OF assms(1) _ assms(3), of "es 1" "es 2"] assms(2) by (simp add: openOrigin_def)

lemma primary_found:
  assumes "inv s" "live e" "vp s d = Some x"
  shows "\<exists>i. open_primary c e d (s, f) = Some (Inr (fst x, i), (s, f))"
  using p.opens [OF assms(1,2), of d] assms(3) by (auto simp: open_primary_def)

lemma primary_missing:
  assumes "inv s" "live e" "vp s d = None"
  shows "open_primary c e d (s, f) = Some (Inl ErrNotExist, (s, f))"
  using p.opens [OF assms(1,2), of d] assms(3) by (auto simp: open_primary_def)

lemma open_hit:
  assumes "inv s" "\<forall>k. live (es k)" "vp s d = Some x"
  shows "\<exists>i. CacheStore_Open c es d (s, f) = Some (Answers (Inr (From_primary (fst x) i)), (s, f))"
proof -
  obtain i where "open_primary c (es 4) d (s, f) = Some (Inr (fst x, i), (s, f))" using primary_found assms by blast
  then show ?thesis using assms(2) by (simp add: CacheStore_Open_def bind_def ret_def)
qed

lemma open_leads:
  assumes "inv s" "\<forall>k. live (es k)" "vp s d = None" "cf_active f (cs_namespace c, d) = None"
    and "flights_join (cs_namespace c, d) f = ((i, True), f1)"
    and "openOrigin (cs_Origin c) (cs_FillTimeout c) es d (flights_finish (cs_namespace c, d) i) (s, f1) = Some (res, y)"
  shows "CacheStore_Open c es d (s, f) = Some (Answers (from_origin res), y)"
  using primary_missing [OF assms(1) _ assms(3)] assms by (simp add: CacheStore_Open_def bind_def ret_def)

lemma open_miss:
  assumes "inv s" "\<forall>k. live (es k)" "vp s d = None" "vo s d = Some x" "flights_inv f" "cf_active f (cs_namespace c, d) = None"
    and "i = length (cf_flights f)" "key = (cs_namespace c, d)"
  shows "\<exists>t info f'. CacheStore_Open c es d (s, f) = Some (Answers (Inr (From_origin t info)), (s, f'))
    \<and> t = leader_tap (NewBytesReader (fst x)) (int (length (fst x))) (flights_finish key i) (fill_timeout (cs_FillTimeout c)) f'
    \<and> flights_inv f' \<and> flying f' i \<and> fl_key (cf_flights f' ! i) = key"
proof -
  obtain f1 where j: "flights_join key f = ((i, True), f1)"
    using assms(6-8) by (simp add: flights_join_def Let_def)
  note inv = join_inv [OF assms(5) j]
  from openOrigin_found [OF assms(1,2,4), where T = "cs_FillTimeout c" and fin = "flights_finish key i" and f = f1]
  obtain info t where o: "openOrigin (cs_Origin c) (cs_FillTimeout c) es d (flights_finish key i) (s, f1) = Some (Inr (t, info), (s, f1))"
      "t = leader_tap (NewBytesReader (fst x)) (int (length (fst x))) (flights_finish key i) (fill_timeout (cs_FillTimeout c)) f1" by blast
  from open_leads [OF assms(1,2,3,6) j [unfolded assms(8)] o(1) [unfolded assms(8)]] o(2) inv show ?thesis
    by (auto simp: from_origin_def)
qed

lemma open_nowhere:
  assumes "inv s" "\<forall>k. live (es k)" "vp s d = None" "vo s d = None" "cf_active f (cs_namespace c, d) = None"
  shows "\<exists>f'. CacheStore_Open c es d (s, f) = Some (Answers (Inl ErrNotExist), (s, f'))
    \<and> cf_active f' (cs_namespace c, d) = None
    \<and> cf_flights f' = cf_flights f @ [\<lparr>fl_key = (cs_namespace c, d), fl_closes = 1, fl_originErr = Some ErrNotExist\<rparr>]"
proof -
  let ?key = "(cs_namespace c, d)" and ?i = "length (cf_flights f)"
  obtain f1 where j: "flights_join ?key f = ((?i, True), f1)" "cf_active f1 ?key = Some ?i"
      "cf_flights f1 = cf_flights f @ [\<lparr>fl_key = ?key, fl_closes = 0, fl_originErr = None\<rparr>]"
    using assms(5) by (simp add: flights_join_def Let_def)
  from open_leads [OF assms(1,2,3,5) j(1) openOrigin_missing [OF assms(1,2,4)]] j(2,3) show ?thesis
    by (simp add: from_origin_def flights_finish_def nth_append)
qed

lemma waited_answer:
  assumes "inv s" "\<forall>k. live (es k)"
  shows "case vp s d of
      Some x \<Rightarrow> \<exists>info. CacheStore_Open_waited c es None i d (s, f) = Some (Inr (From_primary (fst x) info), (s, f))
    | None \<Rightarrow>
        (case fl_originErr (cf_flights f ! i) of
           Some err \<Rightarrow> CacheStore_Open_waited c es None i d (s, f) = Some (Inl err, (s, f))
         | None \<Rightarrow>
             (case vo s d of
                None \<Rightarrow> CacheStore_Open_waited c es None i d (s, f) = Some (Inl ErrNotExist, (s, f))
              | Some x \<Rightarrow> \<exists>t info. CacheStore_Open_waited c es None i d (s, f) = Some (Inr (From_origin t info), (s, f))
                  \<and> bt_r t = NewBytesReader (fst x) \<and> bt_size t = int (length (fst x))))"
proof (cases "vp s d")
  case (Some x)
  obtain info where "open_primary c (es 4) d (s, f) = Some (Inr (fst x, info), (s, f))" using primary_found assms Some by blast
  then show ?thesis using Some assms(2) by (simp add: CacheStore_Open_waited_def bind_def ret_def)
next
  case None
  have miss: "open_primary c (es 4) d (s, f) = Some (Inl ErrNotExist, (s, f))" using primary_missing assms None by blast
  show ?thesis
  proof (cases "fl_originErr (cf_flights f ! i)")
    case (Some err)
    then show ?thesis using None miss assms(2) by (simp add: CacheStore_Open_waited_def bind_def ret_def gets_def)
  next
    case err: None
    have "CacheStore_Open_waited c es None i d (s, f) =
        bind (openOrigin (cs_Origin c) (cs_FillTimeout c) es d (\<lambda>_ f. f)) (\<lambda>res. ret (from_origin res)) (s, f)"
      using None miss err assms(2) by (simp add: CacheStore_Open_waited_def bind_def gets_def)
    moreover have "vo s d = None \<Longrightarrow> openOrigin (cs_Origin c) (cs_FillTimeout c) es d (\<lambda>_ f. f) (s, f) = Some (Inl ErrNotExist, (s, f))"
      by (rule openOrigin_missing [OF assms])
    moreover have "vo s d = Some x \<Longrightarrow> \<exists>t info. openOrigin (cs_Origin c) (cs_FillTimeout c) es d (\<lambda>_ f. f) (s, f) = Some (Inr (t, info), (s, f))
        \<and> bt_r t = NewBytesReader (fst x) \<and> bt_size t = int (length (fst x))" for x
      using openOrigin_found [OF assms] leader_tap_fields by metis
    ultimately show ?thesis
      using None err by (cases "vo s d") (fastforce simp: bind_def ret_def from_origin_def)+
  qed
qed

end

text \<open>A cache between two families of in-memory stores.\<close>

definition mem_cache :: "'h digest_lib \<Rightarrow> (string \<Rightarrow> string) \<Rightarrow> (string \<Rightarrow> string) \<Rightarrow> duration \<Rightarrow> string \<Rightarrow> memStores cacheStore" where
  "mem_cache L np no T ns =
     CacheStores_Use (\<lambda>n. MemStore_store L (np n)) (\<lambda>n. MemStore_store L (no n)) T ns"

lemma mem_cache_fields [simp]:
  "cs_Primary (mem_cache L np no T ns) = MemStore_store L (np ns)" "cs_Origin (mem_cache L np no T ns) = MemStore_store L (no ns)"
  "cs_FillTimeout (mem_cache L np no T ns) = T" "cs_namespace (mem_cache L np no T ns) = ns"
  by (simp_all add: mem_cache_def CacheStores_Use_def)

interpretation mem_cached: cached L "mem_cache L np no T ns" "mem_shows (np ns)" "mem_shows (no ns)" "mem_run_ok L U"
  "\<lambda>r. fst (io_Copy r) \<in> U" "\<lambda>r. fst (io_Copy r) \<in> U" for L :: "'h digest_lib" and np no T ns U
  by (simp add: cached_def mem.blob_store_axioms)

section \<open>Properties\<close>


text \<open>
  A caller that waited for a flight gets the blob from the primary if it is there now, otherwise
  the error with which the origin was opened, and otherwise the blob from the origin, without a flight
  of its own.
\<close>

theorem cache_waiter_answers:
  assumes "mem_run_ok L U s" "\<forall>k. live (es k)" "c = mem_cache L np no T ns"
  shows "case mem_shows (np ns) s d of
      Some x \<Rightarrow> \<exists>info. CacheStore_Open_waited c es None i d (s, f) = Some (Inr (From_primary (fst x) info), (s, f))
    | None \<Rightarrow>
        (case fl_originErr (cf_flights f ! i) of
           Some err \<Rightarrow> CacheStore_Open_waited c es None i d (s, f) = Some (Inl err, (s, f))
         | None \<Rightarrow>
             (case mem_shows (no ns) s d of
                None \<Rightarrow> CacheStore_Open_waited c es None i d (s, f) = Some (Inl ErrNotExist, (s, f))
              | Some x \<Rightarrow> \<exists>t info. CacheStore_Open_waited c es None i d (s, f) = Some (Inr (From_origin t info), (s, f))
                  \<and> bt_r t = NewBytesReader (fst x) \<and> bt_size t = int (length (fst x))))"
  unfolding assms(3) by (rule mem_cached.waited_answer [OF assms(1,2)])

text \<open>
  C16. Nobody waits in vain for a flight: however the first caller reads, seeks, closes and is
  cancelled, the flight is closed at most once, and while it is open the write into the cache is
  running and either the caller's reader can still deliver or every byte was forwarded and the timer
  that ends the write is set. In particular the flight is over, or complete with its timer set, once
  the reader is closed or cancelled.
\<close>

theorem cache_flight_ends:
  assumes "flights_inv f" "flying f i" "fl_key (cf_flights f ! i) = key"
    and "leader_reachable so key i (leader_tap r sz (flights_finish key i) timeout f) t"
  shows "fl_closes (cf_flights (ld_flights (bt_x t)) ! i) \<le> 1
    \<and> (fl_closes (cf_flights (ld_flights (bt_x t)) ! i) = 0 \<longrightarrow>
         \<not> ld_fillDone (bt_x t)
         \<and> (\<not> bt_stopped t \<or> (pp_werr (bt_w t) = Some EOF \<and> ld_timer (bt_x t) = Some timeout)))"
proof -
  have ok: "waits_well key i timeout (bt_stopped t) (pp_werr (bt_w t)) (bt_x t)"
    using lead_reachable [OF assms(4) lead_tap [OF assms(1-3)]] by (simp add: lead_ok_def)
  then have "fl_closes (cf_flights (ld_flights (bt_x t)) ! i) \<le> 1"
    using closes_le by (simp add: waits_well_def)
  with ok show ?thesis by (auto simp: waits_well_def flying_def)
qed

lemma one_flight:
  assumes "flights_join key no_flights = ((i, l), f)"
  shows "i = 0 \<and> flights_inv f \<and> flying f 0 \<and> fl_key (cf_flights f ! 0) = key"
  using join_inv [OF no_flights_inv assms] assms by (auto simp: flights_join_def no_flights_def)


theorem cache_waiter_answers_witness:
  "CacheStore_Open_waited (mem_cache example_lib ((#) CHR ''c'') (\<lambda>n. n) 0 ''a'') (\<lambda>_. background 1) None 0 ''d''
     (NewMemStores 0 [], \<lparr>cf_active = (\<lambda>_. None), cf_flights = [\<lparr>fl_key = (''a'', ''d''), fl_closes = 1, fl_originErr = Some ErrForbidden\<rparr>]\<rparr>)
   = Some (Inl ErrForbidden, (NewMemStores 0 [],
       \<lparr>cf_active = (\<lambda>_. None), cf_flights = [\<lparr>fl_key = (''a'', ''d''), fl_closes = 1, fl_originErr = Some ErrForbidden\<rparr>]\<rparr>))"
proof -
  have ok: "mem_run_ok example_lib {''hi''} (NewMemStores 0 [])" using mem_start_ok by blast
  have "mem_shows n (NewMemStores 0 []) d = None" for n d
    by (simp add: mem_shows_def mem_view_def NewMemStores_def)
  then show ?thesis
    using cache_waiter_answers [OF ok _ refl, where es = "\<lambda>_. background 1" and ns = "''a''" and d = "''d''" and i = 0
        and np = "(#) CHR ''c''" and no = "\<lambda>n. n" and T = 0
        and f = "\<lparr>cf_active = (\<lambda>_. None), cf_flights = [\<lparr>fl_key = (''a'', ''d''), fl_closes = 1, fl_originErr = Some ErrForbidden\<rparr>]\<rparr>"]
    by simp
qed

theorem cache_flight_ends_witness:
  "\<exists>f t. flights_join (''a'', ''d'') no_flights = ((0, True), f)
    \<and> leader_reachable bytes_source (''a'', ''d'') 0 (leader_tap (NewBytesReader ''hi'') 2 (flights_finish (''a'', ''d'') 0) 9 f) t
    \<and> bt_stopped t \<and> fl_closes (cf_flights (ld_flights (bt_x t)) ! 0) \<le> 1"
proof -
  obtain f where f: "flights_join (''a'', ''d'') no_flights = ((0, True), f)"
    by (simp add: flights_join_def no_flights_def Let_def)
  note i = one_flight [OF f]
  let ?t = "leader_tap (NewBytesReader ''hi'') 2 (flights_finish (''a'', ''d'') 0) 9 f"
  obtain t where t: "cacheReader_Close bytes_source ?t = Some (None, t)" "bt_stopped t"
    by (simp add: cacheReader_Close_def tap_Close_def bytes_source_def ret_def Let_def leader_tap_def tapped_def newBlobTap_def)
  have r: "leader_reachable bytes_source (''a'', ''d'') 0 ?t t"
    by (rule leader_reachable.step [OF leader_reachable.start leader_step.close [OF t(1)]])
  from cache_flight_ends [OF _ _ _ r] i f t(2) r show ?thesis by blast
qed

end
