(* ===== verification/CacheFollow.thy ===== *)
theory CacheFollow
  imports CacheOpen "HOL-Library.Sublist"
begin

text \<open>
  \<open>cache.go\<close>, a miss of a store that is a \<open>Filler\<close>: \<open>fly\<close> reads the origin into a fill of the primary,
  \<open>openFill\<close> gives each caller a reader that follows the fill, and \<open>cacheFollower\<close> is that reader,
  which continues at the origin when the fill fails.
\<close>

section \<open>Followers\<close>

text \<open>
  The reader is first one of the fill, then perhaps one of the origin. \<open>cw_left\<close> says that \<open>Close\<close> has
  run, which calls \<open>leave\<close> once.
\<close>

record ('a, 'b) cacheFollower =
  cw_r :: "'a + 'b"
  cw_off :: int
  cw_resumed :: bool
  cw_left :: bool

definition newCacheFollower :: "'a \<Rightarrow> ('a, 'b) cacheFollower" where
  "newCacheFollower r = \<lparr>cw_r = Inl r, cw_off = 0, cw_resumed = False, cw_left = False\<rparr>"

text \<open>The operations of whichever reader it holds.\<close>

definition either_Read :: "'a source \<Rightarrow> 'b source \<Rightarrow> nat \<Rightarrow> ('a + 'b, bytes \<times> error option) go" where
  "either_Read A B n r =
     (case r of
        Inl a \<Rightarrow> map_option (\<lambda>(x, a). (x, Inl a)) (so_Read A n a)
      | Inr b \<Rightarrow> map_option (\<lambda>(x, b). (x, Inr b)) (so_Read B n b))"

definition either_Seek :: "'a source \<Rightarrow> 'b source \<Rightarrow> int \<Rightarrow> whence \<Rightarrow> ('a + 'b, error + int) go" where
  "either_Seek A B offset wh r =
     (case r of
        Inl a \<Rightarrow> map_option (\<lambda>(x, a). (x, Inl a)) (so_Seek A offset wh a)
      | Inr b \<Rightarrow> map_option (\<lambda>(x, b). (x, Inr b)) (so_Seek B offset wh b))"

definition either_Close :: "'a source \<Rightarrow> 'b source \<Rightarrow> ('a + 'b, error option) go" where
  "either_Close A B r =
     (case r of
        Inl a \<Rightarrow> map_option (\<lambda>(x, a). (x, Inl a)) (so_Close A a)
      | Inr b \<Rightarrow> map_option (\<lambda>(x, b). (x, Inr b)) (so_Close B b))"

text \<open>
  \<open>Read\<close>; \<open>ctx_err\<close> is the error of its context after the read, and \<open>origin\<close> what opening the blob at
  the origin answers, should it come to that. The recursive call finds \<open>resumed\<close> set, so that it is
  one more read and nothing else.
\<close>

definition read_on :: "'a source \<Rightarrow> 'b source \<Rightarrow> nat \<Rightarrow> (('a, 'b) cacheFollower, bytes \<times> error option) go" where
  "read_on A B n f =
     (case either_Read A B n (cw_r f) of
        None \<Rightarrow> None
      | Some ((b, err), r) \<Rightarrow> Some ((b, err), f\<lparr>cw_r := r, cw_off := cw_off f + int (length b)\<rparr>))"

definition cacheFollower_Read ::
  "'a source \<Rightarrow> 'b source \<Rightarrow> error option \<Rightarrow> error + 'b \<Rightarrow> nat \<Rightarrow> (('a, 'b) cacheFollower, bytes \<times> error option) go" where
  "cacheFollower_Read A B ctx_err origin n =
     bind (read_on A B n) (\<lambda>(b, err). bind (gets id) (\<lambda>f.
       case err of
         None \<Rightarrow> ret (b, err)
       | Some e \<Rightarrow>
           if e = EOF \<or> cw_resumed f \<or> errors_Is e ErrDigestMismatch \<or> ctx_err \<noteq> None then ret (b, err)
           else (case origin of
                   Inl _ \<Rightarrow> ret (b, err)
                 | Inr r \<Rightarrow>
                     (case so_Seek B (cw_off f) SeekStart r of
                        None \<Rightarrow> (\<lambda>_. None)
                      | Some (Inl _, r) \<Rightarrow> ret (b, err)
                      | Some (Inr _, r) \<Rightarrow>
                          (case either_Close A B (cw_r f) of
                             None \<Rightarrow> (\<lambda>_. None)
                           | Some _ \<Rightarrow>
                               bind (modify (\<lambda>f. f\<lparr>cw_r := Inr r, cw_resumed := True\<rparr>)) (\<lambda>_.
                               if b \<noteq> [] then ret (b, None) else read_on A B n))))))"

definition cacheFollower_Seek ::
  "'a source \<Rightarrow> 'b source \<Rightarrow> int \<Rightarrow> whence \<Rightarrow> (('a, 'b) cacheFollower, error + int) go" where
  "cacheFollower_Seek A B offset wh f =
     (case either_Seek A B offset wh (cw_r f) of
        None \<Rightarrow> None
      | Some (Inr pos, r) \<Rightarrow> Some (Inr pos, f\<lparr>cw_r := r, cw_off := pos\<rparr>)
      | Some (Inl err, r) \<Rightarrow> Some (Inl err, f\<lparr>cw_r := r\<rparr>))"

text \<open>\<open>Close\<close> also tells the users of the flight, whose count is \<open>u\<close>, that this one leaves.\<close>

definition cacheFollower_Close ::
  "'a source \<Rightarrow> 'b source \<Rightarrow> (('a, 'b) cacheFollower \<times> flightUsers, error option) go" where
  "cacheFollower_Close A B = (\<lambda>(f, u).
     if cw_left f then Some (None, (f, u))
     else (case either_Close A B (cw_r f) of
             None \<Rightarrow> None
           | Some (err, r) \<Rightarrow> Some (err, (f\<lparr>cw_r := r, cw_left := True\<rparr>, users_leave u))))"

text \<open>
  A follower reads as one reader of the blob: when the fill's reader and the origin's reader deliver
  the bytes \<open>c\<close>, and a seek that fails leaves a reader where it was, so does it, across the switch.
\<close>

definition follower_pos :: "('a \<Rightarrow> int) \<Rightarrow> ('b \<Rightarrow> int) \<Rightarrow> ('a, 'b) cacheFollower \<Rightarrow> int" where
  "follower_pos pa pb f = (case cw_r f of Inl a \<Rightarrow> pa a | Inr b \<Rightarrow> pb b)"

definition follower_ok ::
  "('a \<Rightarrow> int) \<Rightarrow> ('a \<Rightarrow> bool) \<Rightarrow> ('b \<Rightarrow> int) \<Rightarrow> ('b \<Rightarrow> bool) \<Rightarrow> ('a, 'b) cacheFollower \<Rightarrow> bool" where
  "follower_ok pa ga pb gb f \<longleftrightarrow>
     (case cw_r f of Inl a \<Rightarrow> ga a | Inr b \<Rightarrow> gb b) \<and> cw_off f = follower_pos pa pb f"

definition follower_source :: "'a source \<Rightarrow> 'b source \<Rightarrow> error option \<Rightarrow> error + 'b \<Rightarrow> ('a, 'b) cacheFollower source" where
  "follower_source A B ctx_err origin =
     \<lparr>so_Read = cacheFollower_Read A B ctx_err origin, so_Seek = cacheFollower_Seek A B,
      so_Close = (\<lambda>f. map_option (\<lambda>(err, (f, u)). (err, f))
        (cacheFollower_Close A B (f, \<lparr>fu_n = 1, fu_timeout = 0, fu_cancel = False, fu_timer = None\<rparr>)))\<rparr>"

locale two_sources = a: blob_source A pa ga c + b: blob_source B pb gb c
  for A :: "'a source" and pa ga and B :: "'b source" and pb gb c +
  assumes origin_seek: "gb r \<Longrightarrow> so_Seek B offset SeekStart r = Some (Inr p, r') \<Longrightarrow> p = offset"
    and fill_seek_failed: "ga a \<Longrightarrow> so_Seek A offset wh a = Some (Inl err, a') \<Longrightarrow> ga a' \<and> pa a' = pa a"
    and origin_seek_failed: "gb r \<Longrightarrow> so_Seek B offset wh r = Some (Inl err, r') \<Longrightarrow> gb r' \<and> pb r' = pb r"
begin

lemma read_on_ok:
  assumes "follower_ok pa ga pb gb f" "read_on A B n f = Some ((b, err), f')"
  shows "follower_ok pa ga pb gb f' \<and> follower_pos pa pb f' = follower_pos pa pb f + int (length b) \<and> 0 \<le> follower_pos pa pb f
    \<and> b = take (length b) (drop (nat (follower_pos pa pb f)) c) \<and> cw_off f' = cw_off f + int (length b)"
proof (cases "cw_r f")
  case (Inl a)
  then obtain a' where "so_Read A n a = Some ((b, err), a')" "f' = f\<lparr>cw_r := Inl a', cw_off := cw_off f + int (length b)\<rparr>"
    using assms(2) by (auto simp: read_on_def either_Read_def split: option.splits)
  then show ?thesis
    using assms(1) a.reads [of a n b err a'] a.pos_nonneg [of a] Inl by (auto simp: follower_ok_def follower_pos_def)
next
  case (Inr r)
  then obtain r' where "so_Read B n r = Some ((b, err), r')" "f' = f\<lparr>cw_r := Inr r', cw_off := cw_off f + int (length b)\<rparr>"
    using assms(2) by (auto simp: read_on_def either_Read_def split: option.splits)
  then show ?thesis
    using assms(1) b.reads [of r n b err r'] b.pos_nonneg [of r] Inr by (auto simp: follower_ok_def follower_pos_def)
qed

text \<open>What a \<open>Read\<close> comes down to: one read, or two with the switch in between.\<close>

lemma follower_Read_cases:
  assumes "cacheFollower_Read A B ctx_err origin n f = Some ((b, err), f')"
  obtains (plain) err1 where "read_on A B n f = Some ((b, err1), f')"
  | (switched) err1 f1 r r' p where "read_on A B n f = Some ((b, err1), f1)" "origin = Inr r"
      "so_Seek B (cw_off f1) SeekStart r = Some (Inr p, r')" "f' = f1\<lparr>cw_r := Inr r', cw_resumed := True\<rparr>"
  | (twice) err1 f1 r r' p where "read_on A B n f = Some (([], err1), f1)" "origin = Inr r"
      "so_Seek B (cw_off f1) SeekStart r = Some (Inr p, r')" "read_on A B n (f1\<lparr>cw_r := Inr r', cw_resumed := True\<rparr>) = Some ((b, err), f')"
proof -
  obtain b1 err1 f1 where rd: "read_on A B n f = Some ((b1, err1), f1)"
    using assms by (auto simp: cacheFollower_Read_def bind_def split: option.splits)
  show thesis
  proof (cases "b = b1 \<and> f' = f1")
    case True
    then show ?thesis using plain rd by blast
  next
    case False
    then obtain r r' p where sw: "origin = Inr r" "so_Seek B (cw_off f1) SeekStart r = Some (Inr p, r')"
        "(if b1 \<noteq> [] then ret (b1, None) else read_on A B n) (f1\<lparr>cw_r := Inr r', cw_resumed := True\<rparr>) = Some ((b, err), f')"
      using assms rd
      by (auto simp: cacheFollower_Read_def go_run split: option.splits sum.splits if_splits)
    show ?thesis
    proof (cases "b1 = []")
      case True
      then show ?thesis using twice [OF _ sw(1,2)] rd sw(3) by simp
    next
      case False
      then show ?thesis using switched [OF _ sw(1,2)] rd sw(3) by (simp add: ret_def)
    qed
  qed
qed

lemma switch_ok:
  assumes "follower_ok pa ga pb gb f" "gb r" "so_Seek B (cw_off f) SeekStart r = Some (Inr p, r')"
  shows "follower_ok pa ga pb gb (f\<lparr>cw_r := Inr r', cw_resumed := True\<rparr>)
    \<and> follower_pos pa pb (f\<lparr>cw_r := Inr r', cw_resumed := True\<rparr>) = follower_pos pa pb f"
  using assms b.seeks [OF assms(2,3)] origin_seek [OF assms(2,3)] by (simp add: follower_ok_def follower_pos_def)

lemma Read_ok:
  assumes "follower_ok pa ga pb gb f" "\<forall>r. origin = Inr r \<longrightarrow> gb r"
    and "cacheFollower_Read A B ctx_err origin n f = Some ((b, err), f')"
  shows "follower_ok pa ga pb gb f' \<and> follower_pos pa pb f' = follower_pos pa pb f + int (length b) \<and> 0 \<le> follower_pos pa pb f
    \<and> b = take (length b) (drop (nat (follower_pos pa pb f)) c)"
  using assms(3)
proof (cases rule: follower_Read_cases)
  case (plain err1)
  then show ?thesis using read_on_ok [OF assms(1)] by blast
next
  case (switched err1 f1 r r' p)
  note one = read_on_ok [OF assms(1) switched(1)]
  then show ?thesis using switch_ok [OF _ _ switched(3)] assms(2) switched(2,4) by simp
next
  case (twice err1 f1 r r' p)
  note one = read_on_ok [OF assms(1) twice(1)]
  have sw: "follower_ok pa ga pb gb (f1\<lparr>cw_r := Inr r', cw_resumed := True\<rparr>)
      \<and> follower_pos pa pb (f1\<lparr>cw_r := Inr r', cw_resumed := True\<rparr>) = follower_pos pa pb f1"
    using switch_ok [OF _ _ twice(3)] one assms(2) twice(2) by blast
  then show ?thesis using read_on_ok [OF _ twice(4)] one by simp
qed

lemma Seek_ok:
  assumes "follower_ok pa ga pb gb f" "cacheFollower_Seek A B offset wh f = Some (res, f')"
  shows "follower_ok pa ga pb gb f' \<and> (\<forall>p. res = Inr p \<longrightarrow> follower_pos pa pb f' = p)"
proof (cases "cw_r f")
  case (Inl a)
  then obtain a' where sk: "so_Seek A offset wh a = Some (res, a')"
      "f' = (case res of Inr p \<Rightarrow> f\<lparr>cw_r := Inl a', cw_off := p\<rparr> | Inl _ \<Rightarrow> f\<lparr>cw_r := Inl a'\<rparr>)"
    using assms(2) by (auto simp: cacheFollower_Seek_def either_Seek_def split: option.splits sum.splits)
  have f: "ga a" "cw_off f = pa a" using assms(1) Inl by (simp_all add: follower_ok_def follower_pos_def)
  show ?thesis
  proof (cases res)
    case (Inl err)
    then show ?thesis using sk f fill_seek_failed [OF f(1)] by (simp add: follower_ok_def follower_pos_def)
  next
    case (Inr p)
    then show ?thesis using sk f a.seeks [OF f(1)] by (simp add: follower_ok_def follower_pos_def)
  qed
next
  case (Inr r)
  then obtain r' where sk: "so_Seek B offset wh r = Some (res, r')"
      "f' = (case res of Inr p \<Rightarrow> f\<lparr>cw_r := Inr r', cw_off := p\<rparr> | Inl _ \<Rightarrow> f\<lparr>cw_r := Inr r'\<rparr>)"
    using assms(2) by (auto simp: cacheFollower_Seek_def either_Seek_def split: option.splits sum.splits)
  have f: "gb r" "cw_off f = pb r" using assms(1) Inr by (simp_all add: follower_ok_def follower_pos_def)
  show ?thesis
  proof (cases res)
    case (Inl err)
    then show ?thesis using sk f origin_seek_failed [OF f(1)] by (simp add: follower_ok_def follower_pos_def)
  next
    case (Inr p)
    then show ?thesis using sk f b.seeks [OF f(1)] by (simp add: follower_ok_def follower_pos_def)
  qed
qed

end

text \<open>
  The reads and seeks of a follower, with what each read delivered and at which offset. \<open>opens\<close> are the
  readers that the origin answers with.
\<close>

inductive follower_history ::
  "'a source \<Rightarrow> 'b source \<Rightarrow> ('b \<Rightarrow> bool) \<Rightarrow> 'a \<Rightarrow> (int \<times> bytes) list \<Rightarrow> ('a, 'b) cacheFollower \<Rightarrow> bool" for A B opens a where
  start: "follower_history A B opens a [] (newCacheFollower a)"
| read: "follower_history A B opens a tr f \<Longrightarrow> \<forall>r. origin = Inr r \<longrightarrow> opens r \<Longrightarrow>
    cacheFollower_Read A B ctx_err origin n f = Some ((b, err), f') \<Longrightarrow> follower_history A B opens a (tr @ [(cw_off f, b)]) f'"
| seek: "follower_history A B opens a tr f \<Longrightarrow> cacheFollower_Seek A B offset wh f = Some (res, f') \<Longrightarrow>
    follower_history A B opens a tr f'"

context two_sources
begin

lemma history_ok:
  assumes "follower_history A B gb a tr f" "ga a" "pa a = 0"
  shows "follower_ok pa ga pb gb f \<and> (\<forall>(off, b) \<in> set tr. 0 \<le> off \<and> b = take (length b) (drop (nat off) c))"
  using assms(1)
proof (induction rule: follower_history.induct)
  case start
  then show ?case using assms(2,3) by (simp add: newCacheFollower_def follower_ok_def follower_pos_def)
next
  case (read tr f origin ctx_err n b err f')
  have "cw_off f = follower_pos pa pb f" using read.IH by (simp add: follower_ok_def)
  then show ?case using Read_ok [OF _ read.hyps(2,3)] read.IH by auto
next
  case (seek tr f offset wh res f')
  then show ?case using Seek_ok by blast
qed

end

section \<open>A fill and the in-memory store as sources\<close>

text \<open>
  The reader of a fill: each \<open>Read\<close> uses up what it sees of the tracker at its turns. A fill's size does
  not change, so that \<open>t\<close> is any of its states.
\<close>

definition fill_source :: "'h fillTracker \<Rightarrow> (fillReader \<times> ('h fillTracker \<times> error option) list list) source" where
  "fill_source t =
     \<lparr>so_Read = (\<lambda>n (r, tss). case tss of
          [] \<Rightarrow> None
        | ts # tss \<Rightarrow> map_option (\<lambda>(res, r). (res, (r, tss))) (fillReader_Read ts n r)),
      so_Seek = (\<lambda>offset wh (r, tss). case fillReader_Seek t offset wh r of (res, r) \<Rightarrow> Some (res, (r, tss))),
      so_Close = (\<lambda>(r, tss). Some (None, (snd (fillReader_Close t r), tss)))\<rparr>"

definition shows_part :: "bytes \<Rightarrow> 'h fillTracker \<Rightarrow> bool" where
  "shows_part c t \<longleftrightarrow> ft_data t = take (length (ft_data t)) c \<and> ft_written t \<le> int (length (ft_data t))"

definition fill_reading :: "bytes \<Rightarrow> fillReader \<times> ('h fillTracker \<times> error option) list list \<Rightarrow> bool" where
  "fill_reading c x \<longleftrightarrow> 0 \<le> fr_off (fst x) \<and> (\<forall>ts \<in> set (snd x). \<forall>p \<in> set ts. shows_part c (fst p))"

lemma fillReader_Read_part:
  assumes "fillReader_Read ts n r = Some ((b, err), r')" "0 \<le> fr_off r" "\<forall>p \<in> set ts. shows_part c (fst p)"
  shows "fr_off r' = fr_off r + int (length b) \<and> b = take (length b) (drop (nat (fr_off r)) c)"
  using assms
proof (induction ts n r rule: fillReader_Read.induct)
  case (2 t ctx_done ts n r)
  show ?case
  proof (cases "fillReader_turn t n r")
    case None
    then show ?thesis using 2 by (auto split: option.splits)
  next
    case (Some res)
    then have turn: "fillReader_turn t n r = Some ((b, err), r')" using "2.prems"(1) by simp
    have part: "ft_data t = take (length (ft_data t)) c" "ft_written t \<le> int (length (ft_data t))"
      using "2.prems"(3) by (auto simp: shows_part_def)
    note rd = fillReader_turn_reads [OF turn "2.prems"(2) part(2)]
    let ?o = "nat (fr_off r)" and ?k = "length (ft_data t)"
    have "length b \<le> ?k - ?o" using rd by (metis length_drop length_take min.cobounded1)
    then have "take (length b) (drop ?o (take ?k c)) = take (length b) (drop ?o c)" by (simp add: drop_take min_absorb1)
    then show ?thesis using rd part(1) by metis
  qed
qed simp

interpretation fill_src: blob_source "fill_source t" "\<lambda>x. fr_off (fst x)" "fill_reading c" c
  for t :: "'h fillTracker" and c
proof (unfold_locales, goal_cases)
  case (2 x n b err x')
  then show ?case
    by (auto simp: fill_source_def fill_reading_def split: list.splits prod.splits dest!: fillReader_Read_part [where c = c])
qed (auto simp: fill_source_def fill_reading_def fillReader_Seek_def Let_def split: prod.splits if_splits)

interpretation fill_then_bytes: two_sources "fill_source t" "\<lambda>x. fr_off (fst x)" "fill_reading c" bytes_source br_i
  "\<lambda>r. br_s r = c \<and> 0 \<le> br_i r" c for t :: "'h fillTracker" and c
  by unfold_locales
    (auto simp: fill_source_def fill_reading_def fillReader_Seek_def bytes_source_def bytesReader_Seek_def Let_def
      split: prod.splits if_splits)

section \<open>Flights into a fill\<close>

text \<open>The interface \<open>Filler\<close> with the \<open>Fill\<close> it answers, on a state \<open>'s\<close> of the store.\<close>

record ('s, 'f) filler =
  fi_Fill :: "env \<Rightarrow> meta \<Rightarrow> ('s, error + 'f) go"
  fi_Write :: "bytes \<Rightarrow> 'f \<Rightarrow> (nat \<times> error option) \<times> 'f"
  fi_Commit :: "env \<Rightarrow> 'f \<Rightarrow> ('s, (meta \<times> error option) \<times> 'f) go"
  fi_Abort :: "error option \<Rightarrow> 'f \<Rightarrow> 'f"
  fi_Follow :: "'f \<Rightarrow> (error + fillReader) \<times> 'f"

definition mem_filler :: "'h digest_lib \<Rightarrow> string \<Rightarrow> (memStores, 'h memFill) filler" where
  "mem_filler L ns =
     \<lparr>fi_Fill = MemStore_Fill L ns, fi_Write = memFill_Write L, fi_Commit = memFill_Commit, fi_Abort = memFill_Abort,
      fi_Follow = memFill_Follow\<rparr>"

text \<open>\<open>io.LimitReader\<close>, and \<open>io.Copy\<close> into a fill.\<close>

definition ErrShortWrite :: error where
  "ErrShortWrite = ErrorString ''short write''"

fun LimitReader :: "int \<Rightarrow> reader \<Rightarrow> reader" where
  "LimitReader n [] = []"
| "LimitReader n ((b, err) # rs) =
     (if n \<le> 0 then []
      else if int (length b) > n then [(take (nat n) b, None)]
      else (b, err) # LimitReader (n - int (length b)) rs)"

fun copy_into :: "(bytes \<Rightarrow> 'f \<Rightarrow> (nat \<times> error option) \<times> 'f) \<Rightarrow> reader \<Rightarrow> 'f \<Rightarrow> error option \<times> 'f" where
  "copy_into write [] f = (None, f)"
| "copy_into write ((b, rerr) # rs) f =
     (case (if b = [] then ((0, None), f) else write b f) of
        ((nw, Some werr), f) \<Rightarrow> (Some werr, f)
      | ((nw, None), f) \<Rightarrow>
          if nw \<noteq> length b then (Some ErrShortWrite, f)
          else (case rerr of
                  None \<Rightarrow> copy_into write rs f
                | Some e \<Rightarrow> (if e = EOF then None else Some e, f)))"

text \<open>What \<open>fly\<close> publishes in the flight before it closes \<open>ready\<close>.\<close>

record ('s, 'f) flown =
  fw_fill :: "'f option"
  fw_info :: "'s blobInfo option"
  fw_startErr :: "error option"
  fw_fromFill :: bool

definition not_started :: "error \<Rightarrow> bool \<Rightarrow> ('s, 'f) flown" where
  "not_started err fromFill = \<lparr>fw_fill = None, fw_info = None, fw_startErr = Some err, fw_fromFill = fromFill\<rparr>"

definition started :: "'f \<Rightarrow> 's blobInfo \<Rightarrow> ('s, 'f) flown" where
  "started fill info = \<lparr>fw_fill = Some fill, fw_info = Some info, fw_startErr = None, fw_fromFill = False\<rparr>"

text \<open>
  \<open>fly\<close>, with the fill as it is at the end; \<open>split\<close> says in which pieces the origin's reader delivers the
  blob. \<open>es\<close> are the states of its own context, which is not the caller's.
\<close>

definition fly_copy :: "('s, 'f) filler \<Rightarrow> (nat \<Rightarrow> env) \<Rightarrow> reader \<Rightarrow> 'f \<Rightarrow> ('s, 'f) go" where
  "fly_copy fi es src fill =
     (let (err, fill) = copy_into (fi_Write fi) src fill;
          err = (case err of None \<Rightarrow> ctx_Err (es 3) 0 | Some e \<Rightarrow> Some e)
      in case err of
           Some e \<Rightarrow> ret (fi_Abort fi (Some e) fill)
         | None \<Rightarrow> bind (fi_Commit fi (es 4) fill) (\<lambda>((m, err), fill). ret (fi_Abort fi err fill)))"

definition fly ::
  "'s store \<Rightarrow> ('s, 'f) filler \<Rightarrow> (bytes \<Rightarrow> reader) \<Rightarrow> (nat \<Rightarrow> env) \<Rightarrow> string \<Rightarrow> ('s, ('s, 'f) flown) go" where
  "fly origin fi split es d =
     chk (Open origin (es 0) d) (\<lambda>err. not_started err False) (\<lambda>(content, info). \<lambda>s.
       case infoMeta (es 1) (info, s) of
         None \<Rightarrow> None
       | Some (Inl err, (info, s)) \<Rightarrow> Some (not_started err False, s)
       | Some (Inr m, (info, s)) \<Rightarrow>
           chk (fi_Fill fi (es 2) m) (\<lambda>err. not_started err True) (\<lambda>fill.
           bind (fly_copy fi es (LimitReader (Size m) (split content)) fill) (\<lambda>fill.
           ret (started fill info))) s)"

text \<open>
  \<open>openFill\<close> of a caller that is a user of the flight \<open>w\<close>, once \<open>ready\<close> is closed, or once its context
  is done, which \<open>woken\<close> says. It stays a user only when it follows the fill.
\<close>

datatype 's served = Following fillReader "'s blobInfo option" | Primary_has bytes "'s blobInfo" | Origin_has bytes "'s blobInfo"

definition openFill ::
  "'s cacheStore \<Rightarrow> ('s, 'f) filler \<Rightarrow> (nat \<Rightarrow> env) \<Rightarrow> error option \<Rightarrow> ('s, 'f) flown \<Rightarrow> string
   \<Rightarrow> ('s \<times> flightUsers, error + 's served) go" where
  "openFill c fi es woken w d = (\<lambda>(s, u).
     case woken of
       Some err \<Rightarrow> Some (Inl err, (s, users_leave u))
     | None \<Rightarrow>
         (case map_option (\<lambda>fill. fst (fi_Follow fi fill)) (fw_fill w) of
            Some (Inr r) \<Rightarrow> Some (Inr (Following r (fw_info w)), (s, u))
          | _ \<Rightarrow>
              (let u = users_leave u
               in case (if fw_fromFill w then None else fw_startErr w) of
                    Some err \<Rightarrow> Some (Inl err, (s, u))
                  | None \<Rightarrow>
                      (case Open (cs_Primary c) (es 0) d s of
                         None \<Rightarrow> None
                       | Some (Inr (content, info), s) \<Rightarrow> Some (Inr (Primary_has content info), (s, u))
                       | Some (Inl _, s) \<Rightarrow>
                           (case Open (cs_Origin c) (es 1) d s of
                              None \<Rightarrow> None
                            | Some (Inr (content, info), s) \<Rightarrow> Some (Inr (Origin_has content info), (s, u))
                            | Some (Inl err, s) \<Rightarrow> Some (Inl err, (s, u)))))))"

subsection \<open>Copying into a fill of the in-memory store\<close>

definition filled :: "'h digest_lib \<Rightarrow> string \<Rightarrow> bytes \<Rightarrow> bytes \<Rightarrow> 'h fillTracker \<Rightarrow> bool" where
  "filled L d c data t \<longleftrightarrow>
     ft_data t = data \<and> ft_written t = int (length data) \<and> ft_size t = int (length c) \<and> ft_want t = d
     \<and> ft_h t = dl_Write L (dl_Hash L (dl_Algorithm L d)) data
     \<and> ft_state t = (if length data = length c then Some EOF else None)"

lemma filled_new:
  assumes "digest_lib_ok L" "names_bytes L d c" "Digest m = d" "Size m = int (length c)"
  shows "\<exists>t. newFillTracker L m = Inr t \<and> filled L d c [] t"
proof -
  have nil: "dl_Write L h [] = h" for h using assms(1) by simp
  have "length c = 0 \<Longrightarrow> c = []" by simp
  then show ?thesis
    using assms(2-4) by (auto simp: newFillTracker_def filled_def fill_verify_def names_bytes_def data_digest_def Let_def nil)
qed

lemma filled_write:
  assumes "digest_lib_ok L" "names_bytes L d c" "filled L d c data (mf_t f)" "prefix (data @ b) c" "b \<noteq> []"
  shows "\<exists>f'. memFill_Write L b f = ((length b, None), f') \<and> filled L d c (data @ b) (mf_t f') \<and> mf_s f' = mf_s f \<and> mf_m f' = mf_m f"
proof -
  have len: "length data + length b \<le> length c" "0 < length b" using prefix_length_le [OF assms(4)] assms(5) by simp_all
  have c: "data @ b = c" if "length data + length b = length c" using that assms(4) by (auto simp: prefix_def)
  have enter: "fill_write_enter b (mf_t f) = Inr (b, False)"
    using assms(3) len by (simp add: filled_def fill_write_enter_def Let_def)
  show ?thesis
    using assms(1-3) len c
    by (auto simp: memFill_Write_def fill_write_def enter fill_write_store_def fill_write_leave_def fill_notify_def fill_verify_def
        filled_def names_bytes_def data_digest_def Let_def)
qed

lemma filled_copy:
  assumes "digest_lib_ok L" "names_bytes L d c" "filled L d c data (mf_t f)" "io_Copy rs = (rest, None)" "data @ rest = c"
  shows "\<exists>f'. copy_into (memFill_Write L) rs f = (None, f') \<and> filled L d c c (mf_t f') \<and> mf_s f' = mf_s f \<and> mf_m f' = mf_m f"
  using assms(3-5)
proof (induction rs arbitrary: data f rest rule: io_Copy.induct)
  case 1
  then show ?case by simp
next
  case (2 b rs)
  obtain rest' where rest: "io_Copy rs = (rest', None)" "rest = b @ rest'"
    using "2.prems"(2) by (auto simp: Let_def split: prod.splits)
  show ?case
  proof (cases "b = []")
    case True
    then show ?thesis using 2 rest by simp
  next
    case False
    have "prefix (data @ b) c" using "2.prems"(3) rest by (auto simp: prefix_def)
    from filled_write [OF assms(1,2) "2.prems"(1) this False] obtain f' where
      f': "memFill_Write L b f = ((length b, None), f')" "filled L d c (data @ b) (mf_t f')" "mf_s f' = mf_s f" "mf_m f' = mf_m f"
      by blast
    from "2.IH" [OF f'(2) rest(1)] "2.prems"(3) rest(2) f' False show ?thesis by simp
  qed
next
  case (3 b err rs)
  then have err: "err = EOF" "rest = b" by (auto split: if_splits)
  show ?case
  proof (cases "b = []")
    case True
    then show ?thesis using 3 err by simp
  next
    case False
    have "prefix (data @ b) c" using "3.prems"(3) err by simp
    from filled_write [OF assms(1,2) "3.prems"(1) this False] "3.prems"(3) err False show ?thesis by auto
  qed
qed

lemma LimitReader_all: "io_Copy rs = (c, None) \<Longrightarrow> io_Copy (LimitReader (int (length c)) rs) = (c, None)"
proof (induction rs arbitrary: c rule: io_Copy.induct)
  case (2 b rs)
  obtain rest where rest: "io_Copy rs = (rest, None)" "c = b @ rest"
    using "2.prems" by (auto simp: Let_def split: prod.splits)
  show ?case
  proof (cases "c = []")
    case True
    then show ?thesis using rest by simp
  next
    case False
    then have "0 < int (length c)" by simp
    then show ?thesis using "2.IH" [OF rest(1)] rest by (simp add: Let_def)
  qed
qed (auto split: if_splits)

lemma filled_commit:
  assumes "mem_run_ok L U s" "names_bytes L d c" "c \<in> U" "filled L d c c (mf_t f)" "Digest (mf_m f) = d"
    and "mem_shows (mf_s f) s d = None"
  shows "\<exists>m f' s'. memFill_Commit e f s = Some (((m, None), f'), s') \<and> mem_run_ok L U s'
    \<and> mem_shows (mf_s f) s' = (mem_shows (mf_s f) s)(d \<mapsto> (c, Labels (mf_m f)))
    \<and> (\<forall>n. n \<noteq> mf_s f \<longrightarrow> mem_shows n s' = mem_shows n s) \<and> mf_t f' = fill_end (mf_t f)"
proof -
  have ok: "mem_ok L U s" "collision_free L U" "digest_lib_ok L" using assms(1) by (simp_all add: mem_run_ok_def)
  have f: "fill_complete (mf_t f) = None" "ft_data (mf_t f) = c" using assms(4) by (simp_all add: filled_def fill_complete_def)
  let ?m = "(mf_m f)\<lparr>Size := int (length c)\<rparr>"
  have free: "mem_view s (mf_s f) d = None" using assms(6) by (simp add: mem_shows_def)
  obtain s' where s': "MemStore_publish e (mf_s f) ?m c s = Some ((?m, None), s')" "mem_inv L s'" "blob_frame s s'"
      "puts L (mem_view s) (mf_s f) d c (Labels (mf_m f)) (time_Now e 0) (mem_view s')"
    using publish_spec [OF mem_okD(1) [OF ok(1)], of ?m c e "mf_s f"] assms(2,5) free by auto
  note view = puts_exact [OF ok(1,2) assms(2,3) s'(4)]
  have "mem_ok L U s'"
    by (rule mem_ok_blob_op [OF ok(1) s'(2,3)]) (use assms(3) mem_okD(3) [OF ok(1)] in \<open>auto simp: view split: if_splits\<close>)
  then show ?thesis
    using s'(1) f view ok by (auto simp: memFill_Commit_def mem_run_ok_def mem_shows_def fun_eq_iff)
qed

text \<open>The whole flight, for a blob that the origin has and the primary has not.\<close>

lemma fly_runs:
  assumes "mem_run_ok L U s" "\<forall>k. live (es k)" "mem_shows no s d = Some (c, ls)" "mem_shows np s d = None"
    and "\<forall>x. io_Copy (split' x) = (x, None)"
  shows "\<exists>fill info s'. fly (MemStore_store L no) (mem_filler L np) split' es d s = Some (started fill info, s')
    \<and> mem_run_ok L U s' \<and> mem_shows np s' = (mem_shows np s)(d \<mapsto> (c, ls)) \<and> (\<forall>n. n \<noteq> np \<longrightarrow> mem_shows n s' = mem_shows n s)
    \<and> ft_data (mf_t fill) = c \<and> ft_state (mf_t fill) = Some EOF \<and> ft_ended (mf_t fill)"
proof -
  have ok: "mem_ok L U s" "digest_lib_ok L" using assms(1) by (simp_all add: mem_run_ok_def)
  obtain i where i: "Open (MemStore_store L no) (es 0) d s = Some (Inr (c, i), s)" "tells i s d (c, ls)"
    using mem.opens [OF assms(1), where e = "es 0" and d = d and ns = no] assms(2,3) by auto
  let ?m = "\<lparr>Digest = d, Labels = ls, Size = int (length c)\<rparr>"
  have "with_info i (infoMeta (es 1)) s = Some (Inr ?m, s)" using i(2) assms(2) by (simp add: tells_def)
  then obtain i' where m: "infoMeta (es 1) (i, s) = Some (Inr ?m, (i', s))"
    by (auto simp: with_info_def split: option.splits prod.splits)
  have named: "names_bytes L d c" using mem.named [OF assms(1), where ns = no and d = d] assms(3) by simp
  have U: "c \<in> U" using mem_okD(3) [OF ok(1), of no d] assms(3) by (auto simp: mem_shows_def)
  obtain t where t: "newFillTracker L ?m = Inr t" "filled L d c [] t" using filled_new [OF ok(2) named, of ?m] by auto
  let ?f = "\<lparr>mf_s = np, mf_m = ?m, mf_t = t\<rparr>"
  have free: "ms_es s np d = None" using assms(4) by (simp add: mem_shows_def mem_view_def split: option.splits)
  then have fill: "MemStore_Fill L np (es 2) ?m s = Some (Inr ?f, s)"
    using named ok(2) t(1) by (simp add: MemStore_Fill_def Sanitize_valid names_bytes_def)
  have "io_Copy (LimitReader (int (length c)) (split' c)) = (c, None)" using LimitReader_all assms(5) by blast
  from filled_copy [OF ok(2) named _ this, of "[]" ?f] t(2) obtain f where
    f: "copy_into (memFill_Write L) (LimitReader (int (length c)) (split' c)) ?f = (None, f)" "filled L d c c (mf_t f)" "mf_s f = np" "mf_m f = ?m"
    by auto
  from filled_commit [OF assms(1) named U f(2), of "es 4"] f(3,4) assms(4) obtain m f' s' where
    s': "memFill_Commit (es 4) f s = Some (((m, None), f'), s')" "mem_run_ok L U s'" "mem_shows np s' = (mem_shows np s)(d \<mapsto> (c, ls))"
      "\<forall>n. n \<noteq> np \<longrightarrow> mem_shows n s' = mem_shows n s" "mf_t f' = fill_end (mf_t f)" by auto
  have "fly (MemStore_store L no) (mem_filler L np) split' es d s = Some (started (memFill_Abort None f') i', s')"
    using i(1) m fill f(1) s'(1) assms(2) by (simp add: fly_def fly_copy_def mem_filler_def go_run Let_def)
  moreover have "ft_data (mf_t (memFill_Abort None f')) = c \<and> ft_state (mf_t (memFill_Abort None f')) = Some EOF \<and> ft_ended (mf_t (memFill_Abort None f'))"
    using f(2) s'(5) by (simp add: memFill_Abort_def fill_abort_def fill_end_def fill_maybeRelease_def fill_notify_def filled_def Let_def)
  ultimately show ?thesis using s' by blast
qed

context cached
begin

text \<open>
  What a caller gets once the flight is ready: it follows the fill, or it leaves and has the error of
  the origin, or the blob from the primary, or else from the origin.
\<close>

lemma openFill_answers:
  assumes "inv s" "\<forall>k. live (es k)" "map_option (\<lambda>fill. fst (fi_Follow fi fill)) (fw_fill w) = follow"
  shows "case follow of
      Some (Inr r) \<Rightarrow> openFill c fi es None w d (s, u) = Some (Inr (Following r (fw_info w)), (s, u))
    | _ \<Rightarrow>
        (case (if fw_fromFill w then None else fw_startErr w) of
           Some err \<Rightarrow> openFill c fi es None w d (s, u) = Some (Inl err, (s, users_leave u))
         | None \<Rightarrow>
             (case vp s d of
                Some x \<Rightarrow> \<exists>i. openFill c fi es None w d (s, u) = Some (Inr (Primary_has (fst x) i), (s, users_leave u))
              | None \<Rightarrow>
                  (case vo s d of
                     Some x \<Rightarrow> \<exists>i. openFill c fi es None w d (s, u) = Some (Inr (Origin_has (fst x) i), (s, users_leave u))
                   | None \<Rightarrow> openFill c fi es None w d (s, u) = Some (Inl ErrNotExist, (s, users_leave u)))))"
proof -
  have p: "case vp s d of None \<Rightarrow> Open (cs_Primary c) (es 0) d s = Some (Inl ErrNotExist, s)
      | Some x \<Rightarrow> \<exists>i. Open (cs_Primary c) (es 0) d s = Some (Inr (fst x, i), s) \<and> tells i s d x"
    using p.opens assms(1,2) by blast
  have o: "case vo s d of None \<Rightarrow> Open (cs_Origin c) (es 1) d s = Some (Inl ErrNotExist, s)
      | Some x \<Rightarrow> \<exists>i. Open (cs_Origin c) (es 1) d s = Some (Inr (fst x, i), s) \<and> tells i s d x"
    using o.opens assms(1,2) by blast
  show ?thesis
  proof (cases "\<exists>r. follow = Some (Inr r)")
    case True
    then show ?thesis using assms(3) by (auto simp: openFill_def)
  next
    case False
    have run: "openFill c fi es None w d (s, u) =
        (case (if fw_fromFill w then None else fw_startErr w) of
           Some err \<Rightarrow> Some (Inl err, (s, users_leave u))
         | None \<Rightarrow>
             (case Open (cs_Primary c) (es 0) d s of
                None \<Rightarrow> None
              | Some (Inr (content, info), s) \<Rightarrow> Some (Inr (Primary_has content info), (s, users_leave u))
              | Some (Inl _, s) \<Rightarrow>
                  (case Open (cs_Origin c) (es 1) d s of
                     None \<Rightarrow> None
                   | Some (Inr (content, info), s) \<Rightarrow> Some (Inr (Origin_has content info), (s, users_leave u))
                   | Some (Inl err, s) \<Rightarrow> Some (Inl err, (s, users_leave u)))))" (is "_ = ?run")
      using False unfolding openFill_def assms(3) by (cases follow) (auto simp: Let_def split: sum.split)
    have skip: "(case follow of Some (Inr r) \<Rightarrow> P r | _ \<Rightarrow> Q) = Q" for P Q
      using False by (auto split: option.split sum.split)
    show ?thesis
      unfolding skip run using p o
      by (cases "if fw_fromFill w then None else fw_startErr w"; cases "vp s d"; cases "vo s d") (simp_all, fastforce+)
  qed
qed

end

section \<open>Properties\<close>

text \<open>
  C22. A flight caches the blob: when the origin has a blob that the in-memory primary lacks, \<open>fly\<close>
  returns with the blob in the primary, its labels included, in whatever pieces the origin delivers it;
  it changes nothing else, and its fill has ended holding exactly the blob, so that followers can read
  it to the end.
\<close>

theorem fly_fills:
  assumes "mem_run_ok L U s" "\<forall>k. live (es k)" "mem_shows no s d = Some (c, ls)" "mem_shows np s d = None"
    and "\<forall>x. io_Copy (split' x) = (x, None)"
  shows "\<exists>fill info s'. fly (MemStore_store L no) (mem_filler L np) split' es d s = Some (started fill info, s')
    \<and> mem_run_ok L U s' \<and> mem_shows np s' = (mem_shows np s)(d \<mapsto> (c, ls)) \<and> (\<forall>n. n \<noteq> np \<longrightarrow> mem_shows n s' = mem_shows n s)
    \<and> ft_data (mf_t fill) = c \<and> ft_state (mf_t fill) = Some EOF \<and> ft_ended (mf_t fill)"
  by (rule fly_runs [OF assms])

theorem fly_fills_witness:
  "\<exists>m s fill info s'. MemStore_Add example_lib ''o'' (background 1) zero_meta (bytes_Reader ''hi'') (NewMemStores 0 []) = Some ((m, None), s)
    \<and> fly (MemStore_store example_lib ''o'') (mem_filler example_lib ''c'') bytes_Reader (\<lambda>_. background 1) (Digest m) s = Some (started fill info, s')
    \<and> mem_shows ''c'' s' (Digest m) = Some (''hi'', None)"
proof -
  have ok: "mem_run_ok example_lib {''hi''} (NewMemStores 0 [])" using mem_start_ok by blast
  have none: "mem_shows n (NewMemStores 0 []) d = None" for n d
    by (simp add: mem_shows_def mem_view_def NewMemStores_def)
  let ?out = "add_outcome example_lib (mem_shows ''o'' (NewMemStores 0 [])) zero_meta (bytes_Reader ''hi'')"
  have out: "?out = Added (data_digest example_lib Canonical ''hi'')" by (simp add: add_outcome_def none zero_meta_def Let_def)
  obtain m err where ans: "add_answer example_lib (mem_view (NewMemStores 0 []) ''o'') zero_meta (bytes_Reader ''hi'') = (m, err)"
    by (metis surj_pair)
  have err: "err = None" using add_answer_gives [of example_lib "''o''" "NewMemStores 0 []" zero_meta "bytes_Reader ''hi''"] ans out by simp
  have parts: "mem_ok example_lib {''hi''} (NewMemStores 0 [])" "collision_free example_lib {''hi''}"
    using ok by (simp_all add: mem_run_ok_def)
  obtain s where a: "MemStore_Add example_lib ''o'' (background 1) zero_meta (bytes_Reader ''hi'') (NewMemStores 0 []) = Some ((m, None), s)"
      "mem_ok example_lib {''hi''} s"
      "mem_view s = (mem_view (NewMemStores 0 []))(''o'' := (mem_view (NewMemStores 0 []) ''o'')(Digest m \<mapsto> (''hi'', None, 1)))"
    using Add_ok [OF example_lib_ok parts _ ans, of "background 1"] err by (auto simp: zero_meta_def)
  have s: "mem_run_ok example_lib {''hi''} s" using a(2) ok by (simp add: mem_run_ok_def)
  have "mem_shows ''o'' s (Digest m) = Some (''hi'', None)" "mem_shows ''c'' s (Digest m) = None"
    using a(3) none [of "''c''" "Digest m"] by (simp_all add: mem_shows_def)
  from fly_fills [OF s _ this, of "\<lambda>_. background 1" bytes_Reader] obtain fill info s' where
    "fly (MemStore_store example_lib ''o'') (mem_filler example_lib ''c'') bytes_Reader (\<lambda>_. background 1) (Digest m) s
       = Some (started fill info, s')" "mem_shows ''c'' s' = (mem_shows ''c'' s)(Digest m \<mapsto> (''hi'', None))" by auto
  with a(1) show ?thesis by (metis fun_upd_same)
qed

text \<open>
  C23. A follower reads the blob across a failed fill: whatever it reads and however it seeks, before and
  after it has moved from the fill to the origin, each read delivers the bytes of the blob at the
  offset where it stands.
\<close>

theorem follower_seamless:
  assumes "follower_history (fill_source t) bytes_source (\<lambda>r. br_s r = c \<and> 0 \<le> br_i r) (r, tss) tr f"
    and "fr_off r = 0" "\<forall>ts \<in> set tss. \<forall>p \<in> set ts. shows_part c (fst p)"
  shows "\<forall>(off, b) \<in> set tr. 0 \<le> off \<and> b = take (length b) (drop (nat off) c)"
  using fill_then_bytes.history_ok [OF assms(1)] assms(2,3) by (simp add: fill_reading_def)

text \<open>A fill of \<open>hi\<close> that failed after its first byte, and a read that starts there.\<close>

definition example_tracker :: "error option \<Rightarrow> unit fillTracker" where
  "example_tracker state = \<lparr>ft_data = ''h'', ft_size = 2, ft_want = '''', ft_h = (), ft_wake = 0, ft_written = 1, ft_state = state,
     ft_ended = False, ft_readers = 1, ft_releases = 0, ft_released = False\<rparr>"

theorem follower_seamless_witness:
  "\<exists>f. follower_history (fill_source (example_tracker None)) bytes_source (\<lambda>r. br_s r = ''hi'' \<and> 0 \<le> br_i r)
      (\<lparr>fr_off = 0, fr_closed = False\<rparr>, [[(example_tracker None, None)], [(example_tracker (Some ErrForbidden), None)]])
      [(0, ''h''), (1, ''i'')] f
    \<and> (\<forall>(off, b) \<in> set [(0 :: int, ''h''), (1, ''i'')]. 0 \<le> off \<and> b = take (length b) (drop (nat off) ''hi''))"
proof -
  let ?A = "fill_source (example_tracker None)" and ?r = "\<lparr>fr_off = 0, fr_closed = False\<rparr>"
  let ?tss = "[[(example_tracker None, None)], [(example_tracker (Some ErrForbidden), None)]] :: (unit fillTracker \<times> error option) list list"
  let ?g = "\<lambda>r. br_s r = ''hi'' \<and> 0 \<le> br_i r"
  define f1 :: "(fillReader \<times> (unit fillTracker \<times> error option) list list, bytesReader) cacheFollower"
    where "f1 = \<lparr>cw_r = Inl (\<lparr>fr_off = 1, fr_closed = False\<rparr>, [[(example_tracker (Some ErrForbidden), None)]]),
      cw_off = 1, cw_resumed = False, cw_left = False\<rparr>"
  have r1: "cacheFollower_Read ?A bytes_source None (Inl ErrNotExist) 8 (newCacheFollower (?r, ?tss)) = Some ((''h'', None), f1)"
    by (simp add: cacheFollower_Read_def read_on_def either_Read_def newCacheFollower_def fill_source_def fillReader_turn_def
        example_tracker_def fill_ReadAt_def go_run Let_def f1_def)
  have "\<exists>f2. cacheFollower_Read ?A bytes_source None (Inr (NewBytesReader ''hi'')) 8 f1 = Some ((''i'', None), f2)"
    by (simp add: cacheFollower_Read_def read_on_def either_Read_def either_Close_def f1_def fill_source_def fillReader_turn_def
        example_tracker_def go_run Let_def bytes_source_def bytesReader_Seek_def bytesReader_Read_def NewBytesReader_def)
  then obtain f2 where r2: "cacheFollower_Read ?A bytes_source None (Inr (NewBytesReader ''hi'')) 8 f1 = Some ((''i'', None), f2)" by blast
  have h1: "follower_history ?A bytes_source ?g (?r, ?tss) [(0, ''h'')] f1"
    using follower_history.read [OF follower_history.start _ r1, of ?g] by (simp add: newCacheFollower_def)
  have h2: "follower_history ?A bytes_source ?g (?r, ?tss) [(0, ''h''), (1, ''i'')] f2"
    using follower_history.read [OF h1 _ r2] by (simp add: f1_def NewBytesReader_def)
  have "\<forall>ts \<in> set ?tss. \<forall>p \<in> set ts. shows_part ''hi'' (fst p)" by (simp add: shows_part_def example_tracker_def)
  from follower_seamless [OF h2 _ this] h2 show ?thesis by auto
qed

end
