(* ===== verification/OsFs.thy ===== *)
theory OsFs
  imports GoStd "HOL-Library.Sublist"
begin

text \<open>
  The part of a POSIX file system that \<open>os.go\<close> uses through package \<open>os\<close>: regular files as names
  of inodes, hard links, directories, their modification times, and the system calls on them.
  A path is the list of its elements below the root of the store; paths outside the root begin
  with \<open>..\<close>. Each call may fail: the state says for the \<open>n\<close>-th call whether it fails and what it
  has done before it failed. A crash is a state in which every call from some point on fails, so a
  statement about all failures is one about all crashes as well.
\<close>

section \<open>The state\<close>

type_synonym path = "string list"

text \<open>
  A failed call: the message of its error, how many bytes or directories it wrote before, and the
  paths that a failed \<open>RemoveAll\<close> leaves.
\<close>

record fault =
  f_msg :: string
  f_count :: nat
  f_left :: "path list"

text \<open>
  \<open>fs_fault\<close>, \<open>fs_clock\<close>, \<open>fs_rand\<close> and \<open>fs_try\<close> are the outside world at the \<open>n\<close>-th call: its
  failure, the kernel's clock, the random number that a temporary name starts from, and the answer
  of a file lock.
\<close>

record osfs =
  fs_files :: "(path \<times> nat) list"
  fs_dirs :: "(path \<times> time) list"
  fs_data :: "nat \<Rightarrow> bytes"
  fs_mtime :: "nat \<Rightarrow> time"
  fs_next :: nat
  fs_sys :: nat
  fs_fault :: "nat \<Rightarrow> fault option"
  fs_clock :: "nat \<Rightarrow> time"
  fs_rand :: "nat \<Rightarrow> nat"
  fs_try :: "nat \<Rightarrow> error + bool"

abbreviation file_at :: "osfs \<Rightarrow> path \<Rightarrow> nat option" where
  "file_at s p \<equiv> map_of (fs_files s) p"

definition is_dir :: "osfs \<Rightarrow> path \<Rightarrow> bool" where
  "is_dir s p \<longleftrightarrow> map_of (fs_dirs s) p \<noteq> None"

definition exists_at :: "osfs \<Rightarrow> path \<Rightarrow> bool" where
  "exists_at s p \<longleftrightarrow> file_at s p \<noteq> None \<or> is_dir s p"

text \<open>The link count of an inode.\<close>

definition links :: "osfs \<Rightarrow> nat \<Rightarrow> nat" where
  "links s i = length (filter (\<lambda>x. snd x = i) (fs_files s))"

section \<open>Changes\<close>

definition tick :: "osfs \<Rightarrow> osfs" where
  "tick s = s\<lparr>fs_sys := Suc (fs_sys s)\<rparr>"

text \<open>A change of its entries sets the modification time of a directory.\<close>

definition touch :: "path \<Rightarrow> time \<Rightarrow> osfs \<Rightarrow> osfs" where
  "touch p t s = s\<lparr>fs_dirs := map (\<lambda>x. (fst x, if fst x = p then t else snd x)) (fs_dirs s)\<rparr>"

definition touch_now :: "path \<Rightarrow> osfs \<Rightarrow> osfs" where
  "touch_now p s = touch p (fs_clock s (fs_sys s)) s"

definition add_name :: "path \<Rightarrow> nat \<Rightarrow> osfs \<Rightarrow> osfs" where
  "add_name p i s = touch_now (butlast p) (s\<lparr>fs_files := (p, i) # fs_files s\<rparr>)"

definition new_file :: "path \<Rightarrow> osfs \<Rightarrow> osfs" where
  "new_file p s =
     add_name p (fs_next s) (s\<lparr>fs_data := (fs_data s)(fs_next s := []),
       fs_mtime := (fs_mtime s)(fs_next s := fs_clock s (fs_sys s)), fs_next := Suc (fs_next s)\<rparr>)"

definition add_dir :: "path \<Rightarrow> osfs \<Rightarrow> osfs" where
  "add_dir p s =
     touch_now (butlast p) (s\<lparr>fs_dirs := (p, fs_clock s (fs_sys s)) # fs_dirs s\<rparr>)"

text \<open>A file is only appended to or cut; its modification time changes when its length does.\<close>

definition write_at :: "nat \<Rightarrow> bytes \<Rightarrow> osfs \<Rightarrow> osfs" where
  "write_at i b s =
     s\<lparr>fs_data := (fs_data s)(i := b),
       fs_mtime := if length b = length (fs_data s i) then fs_mtime s
                   else (fs_mtime s)(i := fs_clock s (fs_sys s))\<rparr>"

definition del_name :: "path \<Rightarrow> osfs \<Rightarrow> osfs" where
  "del_name p s = touch_now (butlast p) (s\<lparr>fs_files := filter (\<lambda>x. fst x \<noteq> p) (fs_files s)\<rparr>)"

definition del_dir :: "path \<Rightarrow> osfs \<Rightarrow> osfs" where
  "del_dir p s = touch_now (butlast p) (s\<lparr>fs_dirs := filter (\<lambda>x. fst x \<noteq> p) (fs_dirs s)\<rparr>)"

text \<open>What a removal of the tree at \<open>p\<close> that leaves the paths \<open>left\<close> and their parents keeps.\<close>

definition kept :: "path list \<Rightarrow> path \<Rightarrow> path \<Rightarrow> bool" where
  "kept left p q \<longleftrightarrow> \<not> prefix p q \<or> list_ex (prefix q) left"

definition del_tree :: "path list \<Rightarrow> path \<Rightarrow> osfs \<Rightarrow> osfs" where
  "del_tree left p s =
     touch_now (butlast p) (s\<lparr>fs_files := filter (\<lambda>x. kept left p (fst x)) (fs_files s),
                             fs_dirs := filter (\<lambda>x. kept left p (fst x)) (fs_dirs s)\<rparr>)"

definition moved :: "path \<Rightarrow> path \<Rightarrow> path \<Rightarrow> path" where
  "moved p q x = (if prefix p x then q @ drop (length p) x else x)"

definition move_file :: "path \<Rightarrow> path \<Rightarrow> nat \<Rightarrow> osfs \<Rightarrow> osfs" where
  "move_file p q i s = add_name q i (del_name q (del_name p s))"

definition move_tree :: "path \<Rightarrow> path \<Rightarrow> osfs \<Rightarrow> osfs" where
  "move_tree p q s =
     touch_now (butlast q) (touch_now (butlast p)
       (s\<lparr>fs_files := map (\<lambda>x. (moved p q (fst x), snd x)) (fs_files s),
          fs_dirs := map (\<lambda>x. (moved p q (fst x), snd x)) (fs_dirs s)\<rparr>))"

fun make_dirs :: "path list \<Rightarrow> osfs \<Rightarrow> osfs" where
  "make_dirs [] s = s"
| "make_dirs (p # ps) s = make_dirs ps (if is_dir s p then s else add_dir p s)"

text \<open>The paths from the root of the store down to \<open>p\<close>.\<close>

definition steps :: "path \<Rightarrow> path list" where
  "steps p = map (\<lambda>n. take n p) [0..<Suc (length p)]"

text \<open>
  A temporary name: the prefix and the first number, from a random one on, that is not in use.
  One of as many numbers as there are entries, and one more, is free.
\<close>

definition temp_name :: "path \<Rightarrow> string \<Rightarrow> osfs \<Rightarrow> path" where
  "temp_name dir pre s =
     (let r = fs_rand s (fs_sys s);
          ps = map (\<lambda>k. dir @ [pre @ nat_decimal (r + k)])
                 [0..<Suc (length (fs_files s) + length (fs_dirs s))]
      in case List.find (\<lambda>p. \<not> exists_at s p) ps of None \<Rightarrow> dir @ [pre] | Some p \<Rightarrow> p)"

section \<open>System calls\<close>

text \<open>
  \<open>sys ok bad\<close> is one call: \<open>ok\<close> when it runs, and when it fails what \<open>bad\<close> has changed. The errors
  of failures are not \<open>fs.ErrNotExist\<close> or \<open>fs.ErrExist\<close>, which only the state of the tree gives.
\<close>

definition sys ::
  "(osfs \<Rightarrow> (error + 'a) \<times> osfs) \<Rightarrow> (fault \<Rightarrow> osfs \<Rightarrow> osfs) \<Rightarrow> (osfs, error + 'a) go" where
  "sys ok bad s =
     (case fs_fault s (fs_sys s) of
        None \<Rightarrow> (let (r, s') = ok s in Some (r, tick s'))
      | Some f \<Rightarrow> Some (Inl (ErrorString (f_msg f)), tick (bad f s)))"

abbreviation unchanged :: "fault \<Rightarrow> osfs \<Rightarrow> osfs" where
  "unchanged \<equiv> \<lambda>f s. s"

datatype node = FileNode nat | DirNode time

definition ENOTDIR :: error where "ENOTDIR = ErrorString ''not a directory''"
definition EISDIR :: error where "EISDIR = ErrorString ''is a directory''"
definition ENOTEMPTY :: error where "ENOTEMPTY = ErrorString ''directory not empty''"

definition os_Stat :: "path \<Rightarrow> (osfs, error + node) go" where
  "os_Stat p = sys (\<lambda>s.
     (case file_at s p of
        Some i \<Rightarrow> (Inr (FileNode i), s)
      | None \<Rightarrow>
          (case map_of (fs_dirs s) p of
             Some t \<Rightarrow> (Inr (DirNode t), s)
           | None \<Rightarrow> (Inl FsErrNotExist, s)))) unchanged"

definition os_MkdirAll :: "path \<Rightarrow> (osfs, error + unit) go" where
  "os_MkdirAll p = sys (\<lambda>s.
     if list_ex (\<lambda>q. file_at s q \<noteq> None) (steps p) then (Inl ENOTDIR, s)
     else (Inr (), make_dirs (steps p) s))
     (\<lambda>f s. if list_ex (\<lambda>q. file_at s q \<noteq> None) (steps p) then s
            else make_dirs (take (f_count f) (steps p)) s)"

definition os_CreateTemp :: "path \<Rightarrow> string \<Rightarrow> (osfs, error + (path \<times> nat)) go" where
  "os_CreateTemp dir pre = sys (\<lambda>s.
     if \<not> is_dir s dir then (Inl FsErrNotExist, s)
     else (let p = temp_name dir pre s in (Inr (p, fs_next s), new_file p s))) unchanged"

definition os_MkdirTemp :: "path \<Rightarrow> string \<Rightarrow> (osfs, error + path) go" where
  "os_MkdirTemp dir pre = sys (\<lambda>s.
     if \<not> is_dir s dir then (Inl FsErrNotExist, s)
     else (let p = temp_name dir pre s in (Inr p, add_dir p s))) unchanged"

text \<open>\<open>os.Create\<close> truncates a file that exists; the result is the inode it is open on.\<close>

definition os_Create :: "path \<Rightarrow> (osfs, error + nat) go" where
  "os_Create p = sys (\<lambda>s.
     if is_dir s p then (Inl EISDIR, s)
     else (case file_at s p of
             Some i \<Rightarrow> (Inr i, write_at i [] s)
           | None \<Rightarrow>
               if \<not> is_dir s (butlast p) then (Inl FsErrNotExist, s)
               else (Inr (fs_next s), new_file p s))) unchanged"

definition os_Open :: "path \<Rightarrow> (osfs, error + nat) go" where
  "os_Open p = sys (\<lambda>s.
     (case file_at s p of
        Some i \<Rightarrow> (Inr i, s)
      | None \<Rightarrow> if is_dir s p then (Inl EISDIR, s) else (Inl FsErrNotExist, s))) unchanged"

text \<open>Appending to an open file, reading all of it, and the calls on it that only can fail.\<close>

definition file_Write :: "nat \<Rightarrow> bytes \<Rightarrow> (osfs, error + unit) go" where
  "file_Write i b = sys (\<lambda>s. (Inr (), write_at i (fs_data s i @ b) s))
     (\<lambda>f s. write_at i (fs_data s i @ take (f_count f) b) s)"

definition file_Read :: "nat \<Rightarrow> (osfs, error + bytes) go" where
  "file_Read i = sys (\<lambda>s. (Inr (fs_data s i), s)) unchanged"

definition file_call :: "(osfs, error + unit) go" where
  "file_call = sys (\<lambda>s. (Inr (), s)) unchanged"

definition os_Remove :: "path \<Rightarrow> (osfs, error + unit) go" where
  "os_Remove p = sys (\<lambda>s.
     if file_at s p \<noteq> None then (Inr (), del_name p s)
     else if \<not> is_dir s p then (Inl FsErrNotExist, s)
     else if list_ex (strict_prefix p) (map fst (fs_files s) @ map fst (fs_dirs s)) then (Inl ENOTEMPTY, s)
     else (Inr (), del_dir p s)) unchanged"

definition os_RemoveAll :: "path \<Rightarrow> (osfs, error + unit) go" where
  "os_RemoveAll p = sys (\<lambda>s. (Inr (), if exists_at s p then del_tree [] p s else s))
     (\<lambda>f s. if exists_at s p then del_tree (f_left f) p s else s)"

definition os_Link :: "path \<Rightarrow> path \<Rightarrow> (osfs, error + unit) go" where
  "os_Link p q = sys (\<lambda>s.
     (case file_at s p of
        None \<Rightarrow> (Inl (if is_dir s p then ErrorString ''operation not permitted'' else FsErrNotExist), s)
      | Some i \<Rightarrow>
          if exists_at s q then (Inl FsErrExist, s)
          else if \<not> is_dir s (butlast q) then (Inl FsErrNotExist, s)
          else (Inr (), add_name q i s))) unchanged"

text \<open>
  \<open>os.Rename\<close>: a file replaces a file, a directory moves with all below it, and a directory at the
  new name is refused.
\<close>

definition os_Rename :: "path \<Rightarrow> path \<Rightarrow> (osfs, error + unit) go" where
  "os_Rename p q = sys (\<lambda>s.
     if \<not> exists_at s p then (Inl FsErrNotExist, s)
     else if is_dir s q then (Inl FsErrExist, s)
     else if \<not> is_dir s (butlast q) then (Inl FsErrNotExist, s)
     else (case file_at s p of
             Some i \<Rightarrow> (Inr (), if p = q then s else move_file p q i s)
           | None \<Rightarrow>
               if file_at s q \<noteq> None then (Inl ENOTDIR, s)
               else if prefix p q then (Inl (ErrorString ''invalid argument''), s)
               else (Inr (), move_tree p q s))) unchanged"

definition os_Chtimes :: "path \<Rightarrow> time \<Rightarrow> (osfs, error + unit) go" where
  "os_Chtimes p t = sys (\<lambda>s.
     if \<not> exists_at s p then (Inl FsErrNotExist, s) else (Inr (), touch p t s)) unchanged"

text \<open>One attempt at a file lock; the answer is the outside world's.\<close>

definition TryLock :: "(osfs, error + bool) go" where
  "TryLock s = Some (fs_try s (fs_sys s), tick s)"

section \<open>The calls of the uploads\<close>

definition os_Mkdir :: "path \<Rightarrow> (osfs, error + unit) go" where
  "os_Mkdir p = sys (\<lambda>s.
     if exists_at s p then (Inl FsErrExist, s)
     else if \<not> is_dir s (butlast p) then (Inl FsErrNotExist, s)
     else (Inr (), add_dir p s)) unchanged"

text \<open>\<open>OpenFile\<close> with \<open>O_CREATE|O_EXCL\<close>.\<close>

definition os_CreateExcl :: "path \<Rightarrow> (osfs, error + nat) go" where
  "os_CreateExcl p = sys (\<lambda>s.
     if exists_at s p then (Inl FsErrExist, s)
     else if \<not> is_dir s (butlast p) then (Inl FsErrNotExist, s)
     else (Inr (fs_next s), new_file p s)) unchanged"

definition os_OpenDir :: "path \<Rightarrow> (osfs, error + unit) go" where
  "os_OpenDir p = sys (\<lambda>s.
     (if is_dir s p then Inr () else if file_at s p \<noteq> None then Inl ENOTDIR else Inl FsErrNotExist, s)) unchanged"

text \<open>\<open>Truncate\<close> cuts a file, or fills it up with zeros.\<close>

definition file_Truncate :: "nat \<Rightarrow> nat \<Rightarrow> (osfs, error + unit) go" where
  "file_Truncate i n = sys (\<lambda>s.
     (Inr (), write_at i (take n (fs_data s i) @ replicate (n - length (fs_data s i)) (CHR 0x00)) s)) unchanged"

text \<open>The entries of a directory, each with whether it is a directory.\<close>

definition dir_entries :: "osfs \<Rightarrow> path \<Rightarrow> (string \<times> bool) list" where
  "dir_entries s p =
     map (\<lambda>x. (List.last (fst x), False)) (filter (\<lambda>x. fst x \<noteq> [] \<and> butlast (fst x) = p) (fs_files s))
     @ map (\<lambda>x. (List.last (fst x), True)) (filter (\<lambda>x. fst x \<noteq> [] \<and> butlast (fst x) = p) (fs_dirs s))"

definition os_ReadDir :: "path \<Rightarrow> (osfs, error + (string \<times> bool) list) go" where
  "os_ReadDir p = sys (\<lambda>s.
     (if is_dir s p then Inr (dir_entries s p) else Inl FsErrNotExist, s)) unchanged"

end
