(* ===== verification/OsTree.thy ===== *)
theory OsTree
  imports OsFs
begin

text \<open>
  What the changes of \<open>OsFs\<close> do to the names of a tree, and that they keep a tree a tree: every
  entry lies in a directory, no path is both a file and a directory, and every file names an inode
  that has been allocated.
\<close>

named_theorems fs_simps \<open>what a change does to the names and contents of a tree\<close>

section \<open>Names after a change\<close>

lemma map_of_filter_keys:
  "map_of (filter (\<lambda>x. P (fst x)) xs) k = (if P k then map_of xs k else None)"
  by (induction xs) auto

lemma map_of_snd: "map_of (map (\<lambda>x. (fst x, g x)) xs) k \<noteq> None \<longleftrightarrow> map_of xs k \<noteq> None"
  by (induction xs) auto

lemma map_of_keys:
  "inj_on g (insert k (fst ` set xs)) \<Longrightarrow> map_of (map (\<lambda>x. (g (fst x), snd x)) xs) (g k) = map_of xs k"
proof (induction xs)
  case (Cons x xs)
  then have "inj_on g (insert k (fst ` set xs))" by (auto simp: inj_on_def)
  moreover have "g (fst x) = g k \<longleftrightarrow> fst x = k" using Cons.prems by (auto simp: inj_on_def)
  ultimately show ?case using Cons.IH by (cases "fst x = k") auto
qed simp

lemma is_dir_set: "is_dir s p \<longleftrightarrow> p \<in> fst ` set (fs_dirs s)"
  unfolding is_dir_def map_of_eq_None_iff by simp

lemma file_at_set: "file_at s p \<noteq> None \<longleftrightarrow> p \<in> fst ` set (fs_files s)"
  unfolding map_of_eq_None_iff by simp

lemma is_dir_upd [simp]:
  "is_dir (s\<lparr>fs_files := fs\<rparr>) = is_dir s" "is_dir (s\<lparr>fs_data := b\<rparr>) = is_dir s"
  "is_dir (s\<lparr>fs_next := n\<rparr>) = is_dir s"
  by (simp_all add: is_dir_def fun_eq_iff)

lemma tick_simps [simp]:
  "fs_files (tick s) = fs_files s" "fs_dirs (tick s) = fs_dirs s" "fs_data (tick s) = fs_data s"
  "fs_next (tick s) = fs_next s" "fs_fault (tick s) = fs_fault s" "fs_try (tick s) = fs_try s"
  "is_dir (tick s) = is_dir s" "exists_at (tick s) = exists_at s" "links (tick s) = links s"
  by (simp_all add: tick_def is_dir_def exists_at_def links_def fun_eq_iff)

lemma touch_simps [simp]:
  "fs_files (touch p t s) = fs_files s" "fs_data (touch p t s) = fs_data s" "fs_next (touch p t s) = fs_next s"
  "fs_sys (touch p t s) = fs_sys s" "fs_fault (touch p t s) = fs_fault s" "fs_try (touch p t s) = fs_try s"
  "fs_clock (touch p t s) = fs_clock s" "is_dir (touch p t s) = is_dir s" "exists_at (touch p t s) = exists_at s"
  "links (touch p t s) = links s" "map fst (fs_dirs (touch p t s)) = map fst (fs_dirs s)"
  by (simp_all add: touch_def is_dir_set exists_at_def links_def fun_eq_iff image_image o_def)

lemma touch_now_simps [simp]:
  "fs_files (touch_now p s) = fs_files s" "fs_data (touch_now p s) = fs_data s" "fs_next (touch_now p s) = fs_next s"
  "fs_sys (touch_now p s) = fs_sys s" "fs_fault (touch_now p s) = fs_fault s" "fs_try (touch_now p s) = fs_try s"
  "fs_clock (touch_now p s) = fs_clock s" "is_dir (touch_now p s) = is_dir s"
  "exists_at (touch_now p s) = exists_at s" "links (touch_now p s) = links s"
  "map fst (fs_dirs (touch_now p s)) = map fst (fs_dirs s)"
  by (simp_all add: touch_now_def)

lemma add_name_simps [fs_simps]:
  "file_at (add_name p i s) = (file_at s)(p \<mapsto> i)" "is_dir (add_name p i s) = is_dir s"
  "fs_data (add_name p i s) = fs_data s" "fs_next (add_name p i s) = fs_next s"
  "fs_fault (add_name p i s) = fs_fault s" "fs_try (add_name p i s) = fs_try s"
  by (simp_all add: add_name_def is_dir_def fun_eq_iff)

lemma new_file_simps [fs_simps]:
  "file_at (new_file p s) = (file_at s)(p \<mapsto> fs_next s)" "is_dir (new_file p s) = is_dir s"
  "fs_data (new_file p s) = (fs_data s)(fs_next s := [])" "fs_next (new_file p s) = Suc (fs_next s)"
  "fs_fault (new_file p s) = fs_fault s" "fs_try (new_file p s) = fs_try s"
  by (simp_all add: new_file_def add_name_simps is_dir_def fun_eq_iff)

lemma add_dir_simps [fs_simps]:
  "file_at (add_dir p s) = file_at s" "is_dir (add_dir p s) = (is_dir s)(p := True)"
  "fs_data (add_dir p s) = fs_data s" "fs_next (add_dir p s) = fs_next s"
  "fs_fault (add_dir p s) = fs_fault s" "fs_try (add_dir p s) = fs_try s"
  by (simp_all add: add_dir_def) (auto simp: is_dir_set fun_eq_iff)

lemma write_at_simps [fs_simps]:
  "file_at (write_at i b s) = file_at s" "is_dir (write_at i b s) = is_dir s"
  "fs_data (write_at i b s) = (fs_data s)(i := b)" "fs_next (write_at i b s) = fs_next s"
  "fs_fault (write_at i b s) = fs_fault s" "fs_try (write_at i b s) = fs_try s"
  by (simp_all add: write_at_def is_dir_def fun_eq_iff)

lemma del_name_simps [fs_simps]:
  "file_at (del_name p s) = (file_at s)(p := None)" "is_dir (del_name p s) = is_dir s"
  "fs_data (del_name p s) = fs_data s" "fs_next (del_name p s) = fs_next s"
  "fs_fault (del_name p s) = fs_fault s" "fs_try (del_name p s) = fs_try s"
  by (simp_all add: del_name_def fun_eq_iff map_of_filter_keys [where P = "\<lambda>k. k \<noteq> p"])

lemma del_dir_simps [fs_simps]:
  "file_at (del_dir p s) = file_at s" "is_dir (del_dir p s) = (is_dir s)(p := False)"
  "fs_data (del_dir p s) = fs_data s" "fs_next (del_dir p s) = fs_next s"
  "fs_fault (del_dir p s) = fs_fault s" "fs_try (del_dir p s) = fs_try s"
  by (simp_all add: del_dir_def fun_eq_iff) (auto simp: is_dir_def map_of_filter_keys [where P = "\<lambda>k. k \<noteq> p"])

lemma del_tree_simps [fs_simps]:
  "file_at (del_tree ls p s) = (\<lambda>q. if kept ls p q then file_at s q else None)"
  "is_dir (del_tree ls p s) = (\<lambda>q. kept ls p q \<and> is_dir s q)"
  "fs_data (del_tree ls p s) = fs_data s" "fs_next (del_tree ls p s) = fs_next s"
  "fs_fault (del_tree ls p s) = fs_fault s" "fs_try (del_tree ls p s) = fs_try s"
  by (simp_all add: del_tree_def fun_eq_iff map_of_filter_keys [where P = "kept ls p"])
    (auto simp: is_dir_def map_of_filter_keys [where P = "kept ls p"])

lemma move_file_simps [fs_simps]:
  "p \<noteq> q \<Longrightarrow> file_at (move_file p q i s) = (file_at s)(p := None, q \<mapsto> i)"
  "is_dir (move_file p q i s) = is_dir s"
  "fs_data (move_file p q i s) = fs_data s" "fs_next (move_file p q i s) = fs_next s"
  "fs_fault (move_file p q i s) = fs_fault s" "fs_try (move_file p q i s) = fs_try s"
  by (simp_all add: move_file_def fs_simps fun_eq_iff)

section \<open>Moving a tree\<close>

lemma moved_other: "\<not> prefix p x \<Longrightarrow> moved p q x = x"
  by (simp add: moved_def)

lemma moved_below [simp]: "moved p q (p @ r) = q @ r"
  by (simp add: moved_def)

lemma inj_moved: "\<not> prefix q x \<or> prefix p x \<Longrightarrow> \<not> prefix q y \<or> prefix p y \<Longrightarrow> moved p q x = moved p q y \<Longrightarrow> x = y"
  by (auto simp: moved_def prefix_def split: if_splits)

text \<open>When nothing is at \<open>q\<close> or below it, what was below \<open>p\<close> is below \<open>q\<close> afterwards.\<close>

lemma map_of_moved:
  assumes "\<forall>x \<in> fst ` set xs. \<not> prefix q x" "\<not> prefix p q"
  shows "map_of (map (\<lambda>x. (moved p q (fst x), snd x)) xs) y =
    (if prefix q y then map_of xs (p @ drop (length q) y) else if prefix p y then None else map_of xs y)"
proof -
  let ?g = "moved p q"
  have inj: "inj_on ?g (insert k (fst ` set xs))" if "\<not> prefix q k \<or> prefix p k" for k
    using assms(1) that by (intro inj_onI) (metis inj_moved insert_iff)
  show ?thesis
  proof (cases "prefix q y")
    case True
    then obtain r where r: "y = q @ r" by (auto simp: prefix_def)
    then have "y = ?g (p @ r)" by simp
    then show ?thesis using True r map_of_keys [OF inj, of "p @ r"] by simp
  next
    case nq: False
    show ?thesis
    proof (cases "prefix p y")
      case True
      have "y \<noteq> ?g x" for x
        using nq True by (auto simp: moved_def)
      then have "y \<notin> fst ` set (map (\<lambda>x. (?g (fst x), snd x)) xs)" by fastforce
      then show ?thesis using nq True map_of_eq_None_iff [of "map (\<lambda>x. (?g (fst x), snd x)) xs" y] by simp
    next
      case False
      then have "?g y = y" by (simp add: moved_other)
      then show ?thesis using nq False map_of_keys [OF inj, of y] by simp
    qed
  qed
qed

definition vacant :: "osfs \<Rightarrow> path \<Rightarrow> bool" where
  "vacant s q \<longleftrightarrow> (\<forall>x. prefix q x \<longrightarrow> \<not> exists_at s x)"

lemma vacant_keys:
  "vacant s q \<Longrightarrow> \<forall>x \<in> fst ` set (fs_files s). \<not> prefix q x"
  "vacant s q \<Longrightarrow> \<forall>x \<in> fst ` set (fs_dirs s). \<not> prefix q x"
  unfolding vacant_def exists_at_def file_at_set is_dir_set by blast+

lemma file_at_move_tree:
  assumes "vacant s q" "\<not> prefix p q"
  shows "file_at (move_tree p q s) = (\<lambda>y. if prefix q y then file_at s (p @ drop (length q) y)
    else if prefix p y then None else file_at s y)"
  using map_of_moved [OF vacant_keys(1) [OF assms(1)] assms(2)] by (simp add: move_tree_def fun_eq_iff)

lemma is_dir_move_tree:
  assumes "vacant s q" "\<not> prefix p q"
  shows "is_dir (move_tree p q s) = (\<lambda>y. if prefix q y then is_dir s (p @ drop (length q) y)
    else \<not> prefix p y \<and> is_dir s y)"
  using map_of_moved [OF vacant_keys(2) [OF assms(1)] assms(2)]
  by (simp add: move_tree_def fun_eq_iff) (simp add: is_dir_def)

lemma move_tree_simps [fs_simps]:
  "fs_data (move_tree p q s) = fs_data s" "fs_next (move_tree p q s) = fs_next s"
  "fs_fault (move_tree p q s) = fs_fault s" "fs_try (move_tree p q s) = fs_try s"
  by (simp_all add: move_tree_def)

section \<open>Well-formed trees\<close>

definition tree_ok :: "osfs \<Rightarrow> bool" where
  "tree_ok s \<longleftrightarrow>
     distinct (map fst (fs_files s)) \<and> distinct (map fst (fs_dirs s))
     \<and> (\<forall>p. exists_at s p \<longrightarrow> p \<noteq> [] \<longrightarrow> is_dir s (butlast p))
     \<and> (\<forall>p i. file_at s p = Some i \<longrightarrow> p \<noteq> [] \<and> \<not> is_dir s p \<and> i < fs_next s)"

lemma tree_okD:
  "tree_ok s \<Longrightarrow> exists_at s p \<Longrightarrow> p \<noteq> [] \<Longrightarrow> is_dir s (butlast p)"
  "tree_ok s \<Longrightarrow> file_at s p = Some i \<Longrightarrow> p \<noteq> [] \<and> \<not> is_dir s p \<and> i < fs_next s"
  "tree_ok s \<Longrightarrow> distinct (map fst (fs_files s))"
  unfolding tree_ok_def by blast+

lemma parent_exists:
  assumes "tree_ok s" "exists_at s x" "strict_prefix q x"
  shows "is_dir s q"
  using assms(2,3)
proof (induction x rule: rev_induct)
  case (snoc c x)
  have d: "is_dir s x" using tree_okD(1) [OF assms(1) snoc.prems(1)] by simp
  show ?case
  proof (cases "q = x")
    case False
    with snoc.prems(2) have "strict_prefix q x" by (auto simp: strict_prefix_def)
    then show ?thesis using snoc.IH d by (simp add: exists_at_def)
  qed (use d in simp)
qed simp

lemma vacantI: "tree_ok s \<Longrightarrow> \<not> exists_at s q \<Longrightarrow> vacant s q"
  unfolding vacant_def using parent_exists [of s _ q] by (metis exists_at_def strict_prefix_def)

lemma distinct_filter_keys:
  "distinct (map fst xs) \<Longrightarrow> distinct (map fst (filter P xs))"
  by (induction xs) auto

lemma exists_file [simp]: "file_at s p = Some i \<Longrightarrow> exists_at s p"
  by (simp add: exists_at_def)

lemma exists_dir [simp]: "is_dir s p \<Longrightarrow> exists_at s p"
  by (simp add: exists_at_def)

lemma tree_ok_tick [simp]: "tree_ok (tick s) = tree_ok s"
  by (simp add: tree_ok_def)

lemma tree_ok_touch [simp]: "tree_ok (touch p t s) = tree_ok s"
  by (simp add: tree_ok_def)

lemma tree_ok_add_name:
  assumes "tree_ok s" "\<not> exists_at s p" "p \<noteq> []" "is_dir s (butlast p)" "i < fs_next s"
  shows "tree_ok (add_name p i s)"
proof -
  have "p \<notin> fst ` set (fs_files s)" using assms(2) file_at_set [of s p] by (simp add: exists_at_def)
  then have "distinct (map fst (fs_files (add_name p i s)))" using assms(1) by (simp add: add_name_def tree_ok_def)
  moreover have "map fst (fs_dirs (add_name p i s)) = map fst (fs_dirs s)" by (simp add: add_name_def)
  ultimately show ?thesis
    using assms unfolding tree_ok_def exists_at_def by (simp add: fs_simps)
qed

lemma tree_ok_cong:
  assumes "tree_ok s" "fs_files s' = fs_files s" "fs_dirs s' = fs_dirs s" "fs_next s \<le> fs_next s'"
  shows "tree_ok s'"
proof -
  have "is_dir s' = is_dir s" "exists_at s' = exists_at s"
    using assms(2,3) by (simp_all add: is_dir_def exists_at_def fun_eq_iff)
  with assms show ?thesis unfolding tree_ok_def by (metis order_less_le_trans)
qed

lemma tree_ok_new_file:
  assumes "tree_ok s" "\<not> exists_at s p" "p \<noteq> []" "is_dir s (butlast p)"
  shows "tree_ok (new_file p s)"
proof -
  have "tree_ok (s\<lparr>fs_data := (fs_data s)(fs_next s := []),
      fs_mtime := (fs_mtime s)(fs_next s := fs_clock s (fs_sys s)), fs_next := Suc (fs_next s)\<rparr>)" (is "tree_ok ?s")
    by (rule tree_ok_cong [OF assms(1)]) simp_all
  moreover have "\<not> exists_at ?s p" "is_dir ?s (butlast p)" using assms(2,4) by (simp_all add: exists_at_def is_dir_def)
  ultimately show ?thesis unfolding new_file_def using assms(3) by (intro tree_ok_add_name) simp_all
qed

lemma tree_ok_add_dir:
  assumes "tree_ok s" "\<not> exists_at s p" "p \<noteq> [] \<longrightarrow> is_dir s (butlast p)"
  shows "tree_ok (add_dir p s)"
proof -
  have "p \<notin> fst ` set (fs_dirs s)" using assms(2) is_dir_set [of s p] by (simp add: exists_at_def)
  then have "distinct (map fst (fs_dirs (add_dir p s)))"
    using assms(1) by (simp add: add_dir_def tree_ok_def)
  moreover have "fs_files (add_dir p s) = fs_files s" by (simp add: add_dir_def)
  ultimately show ?thesis
    using assms unfolding tree_ok_def by (auto simp: fs_simps exists_at_def)
qed

lemma tree_ok_write_at: "tree_ok s \<Longrightarrow> tree_ok (write_at i b s)"
  by (erule tree_ok_cong) (simp_all add: write_at_def)

lemma tree_ok_del_name: "tree_ok s \<Longrightarrow> tree_ok (del_name p s)"
  unfolding tree_ok_def
  by (auto simp: fs_simps exists_at_def split: if_splits)
    (simp_all add: del_name_def distinct_filter_keys)

lemma tree_ok_del_dir:
  assumes "tree_ok s" "\<forall>q. strict_prefix p q \<longrightarrow> \<not> exists_at s q"
  shows "tree_ok (del_dir p s)"
proof -
  have "butlast q \<noteq> p" if "exists_at s q" "q \<noteq> []" for q
    using assms(2) that by (cases q rule: rev_cases) (auto simp: strict_prefix_def)
  moreover have "distinct (map fst (fs_dirs (del_dir p s)))" "fs_files (del_dir p s) = fs_files s"
    using assms(1) by (simp_all add: del_dir_def tree_ok_def distinct_filter_keys)
  ultimately show ?thesis using assms(1) unfolding tree_ok_def by (auto simp: fs_simps exists_at_def)
qed

lemma kept_butlast: "kept ls p q \<Longrightarrow> kept ls p (butlast q)"
  unfolding kept_def list_ex_iff
  by (meson prefix_order.trans prefixeq_butlast)

lemma tree_ok_del_tree: "tree_ok s \<Longrightarrow> tree_ok (del_tree ls p s)"
  unfolding tree_ok_def
  by (auto simp: fs_simps exists_at_def kept_butlast split: if_splits)
    (simp_all add: del_tree_def distinct_filter_keys)

lemma tree_ok_move_file:
  assumes "tree_ok s" "file_at s p = Some i" "\<not> is_dir s q" "q \<noteq> []" "is_dir s (butlast q)"
  shows "tree_ok (move_file p q i s)"
  unfolding move_file_def
  using assms tree_okD(2) [OF assms(1,2)]
  by (intro tree_ok_add_name tree_ok_del_name) (auto simp: fs_simps exists_at_def)

lemma distinct_moved:
  assumes "distinct (map fst xs)" "\<forall>x \<in> fst ` set xs. \<not> prefix q x"
  shows "distinct (map fst (map (\<lambda>x. (moved p q (fst x), snd x)) xs))"
proof -
  have "inj_on (moved p q) (set (map fst xs))"
    using assms(2) by (intro inj_onI) (metis image_set inj_moved)
  then have "distinct (map (moved p q) (map fst xs))"
    by (rule distinct_map [THEN iffD2, OF conjI [OF assms(1)]])
  then show ?thesis by (simp add: o_def)
qed

lemma prefix_butlast_other: "\<not> prefix q (butlast y) \<Longrightarrow> prefix q y \<Longrightarrow> y = q"
  by (metis prefix_snoc append_butlast_last_id butlast.simps(1))

lemma tree_ok_move_tree:
  assumes "tree_ok s" "is_dir s p" "p \<noteq> []" "vacant s q" "q \<noteq> []" "\<not> prefix p q" "is_dir s (butlast q)"
  shows "tree_ok (move_tree p q s)"
proof -
  note at = file_at_move_tree [OF assms(4,6)] is_dir_move_tree [OF assms(4,6)]
  have nqp: "\<not> prefix q p" using assms(2,4) by (auto simp: vacant_def exists_at_def)
  have d: "distinct (map fst (fs_files (move_tree p q s)))" "distinct (map fst (fs_dirs (move_tree p q s)))"
    using assms(1) vacant_keys [OF assms(4)]
    by (simp_all add: move_tree_def distinct_moved [of "fs_files s"] distinct_moved [of "fs_dirs s"] tree_ok_def del: map_map)
  have ex: "exists_at (move_tree p q s) y = (if prefix q y then exists_at s (p @ drop (length q) y)
      else \<not> prefix p y \<and> exists_at s y)" for y
    by (auto simp: exists_at_def at)
  have parent: "is_dir (move_tree p q s) (butlast y)" if y: "exists_at (move_tree p q s) y" "y \<noteq> []" for y
  proof (cases "prefix q y")
    case True
    then obtain r where r: "y = q @ r" by (auto simp: prefix_def)
    show ?thesis
    proof (cases "r = []")
      case True
      have "\<not> prefix q (butlast q)" using assms(5) by (cases q rule: rev_cases) (auto simp: prefix_def)
      moreover have "\<not> prefix p (butlast q)" using assms(6) prefix_order.trans prefixeq_butlast by blast
      ultimately show ?thesis using True r assms(7) by (simp add: at)
    next
      case False
      then have "is_dir s (p @ butlast r)"
        using y(1) r tree_okD(1) [OF assms(1), of "p @ r"] by (simp add: ex butlast_append)
      then show ?thesis using False r by (simp add: at butlast_append)
    qed
  next
    case False
    then have "exists_at s y" "\<not> prefix p y" using y by (simp_all add: ex)
    then have "is_dir s (butlast y)" using tree_okD(1) [OF assms(1)] y(2) by blast
    moreover have "\<not> prefix q (butlast y)" using False prefix_order.trans prefixeq_butlast by blast
    moreover have "\<not> prefix p (butlast y)" using \<open>\<not> prefix p y\<close> prefix_order.trans prefixeq_butlast by blast
    ultimately show ?thesis by (simp add: at)
  qed
  have "y \<noteq> [] \<and> \<not> is_dir (move_tree p q s) y \<and> i < fs_next s" if "file_at (move_tree p q s) y = Some i" for y i
    using that assms(3,5) tree_okD(2) [OF assms(1)] by (fastforce simp: at split: if_splits)
  with d parent show ?thesis unfolding tree_ok_def by (simp add: fs_simps)
qed

end
