(* ===== verification/LabelFile.thy ===== *)
theory LabelFile
  imports HttpTypes "HOL-Library.List_Lexorder" "HOL-Library.Char_ord"
begin

text \<open>
  \<open>readLabels\<close> and \<open>writeLabels\<close> of \<open>labels.go\<close>, the format of a labels file, with the library
  functions they are: \<open>http.Header.Write\<close>, which sorts the keys, drops the keys that are not
  tokens and puts each value on one line, and \<open>textproto.Reader.ReadMIMEHeader\<close>.
\<close>

section \<open>Writing\<close>

abbreviation LF :: char where "LF \<equiv> CHR 0x0A"
abbreviation CR :: char where "CR \<equiv> CHR 0x0D"
abbreviation TAB :: char where "TAB \<equiv> CHR 0x09"

definition header_value :: "string \<Rightarrow> string" where
  "header_value v = Trim (map (\<lambda>c. if c = LF \<or> c = CR then CHR '' '' else c) v) [CHR '' '', TAB, LF, CR]"

definition header_line :: "string \<Rightarrow> string \<Rightarrow> string" where
  "header_line k v = k @ '': '' @ v"

definition valid_field_name :: "string \<Rightarrow> bool" where
  "valid_field_name k \<longleftrightarrow> k \<noteq> [] \<and> list_all token_char k"

text \<open>The fields in the order they are written.\<close>

definition header_fields :: "header \<Rightarrow> (string \<times> string) list" where
  "header_fields h =
     concat (map (\<lambda>x. map (\<lambda>v. (fst x, header_value v)) (snd x))
       (filter (\<lambda>x. valid_field_name (fst x)) (sort_key fst h)))"

definition Header_Write :: "header \<Rightarrow> bytes" where
  "Header_Write h = concat (map (\<lambda>x. header_line (fst x) (snd x) @ [CR, LF]) (header_fields h))"

definition writeLabels :: "labels \<Rightarrow> bytes" where
  "writeLabels l = (case l of None \<Rightarrow> Header_Write [] | Some h \<Rightarrow> Header_Write h)"

section \<open>Reading\<close>

definition chomp :: "string \<Rightarrow> string" where
  "chomp l = (if l \<noteq> [] \<and> last l = CR then butlast l else l)"

text \<open>The lines that a \<open>bufio.Reader\<close> gives; the last one may lack its line feed.\<close>

definition text_lines :: "bytes \<Rightarrow> string list" where
  "text_lines b =
     (let ps = Split b LF in map chomp (butlast ps) @ (if last ps = [] then [] else [last ps]))"

definition trim_blank :: "string \<Rightarrow> string" where
  "trim_blank s = Trim s [CHR '' '', TAB]"

definition blank_start :: "string \<Rightarrow> bool" where
  "blank_start l \<longleftrightarrow> l \<noteq> [] \<and> hd l \<in> {CHR '' '', TAB}"

definition valid_value_byte :: "char \<Rightarrow> bool" where
  "valid_value_byte c \<longleftrightarrow> c = TAB \<or> 32 \<le> byte_val c \<and> byte_val c \<noteq> 127"

definition field_key :: "string \<Rightarrow> string option" where
  "field_key k =
     (if k = [] \<or> \<not> list_all (\<lambda>c. token_char c \<or> c = CHR '' '') k then None
      else if CHR '' '' \<in> set k then Some k
      else Some (CanonicalHeaderKey k))"

definition malformed :: error where
  "malformed = ErrorString ''malformed MIME header line''"

definition add_field :: "string \<Rightarrow> string \<Rightarrow> header \<Rightarrow> header" where
  "add_field k v m = AList.update k ((case map_of m k of None \<Rightarrow> [] | Some vs \<Rightarrow> vs) @ [v]) m"

text \<open>One field from its line and the lines that continue it.\<close>

definition read_field :: "string \<Rightarrow> header \<Rightarrow> error + header" where
  "read_field kv m =
     (case Cut kv (CHR '':'') of
        None \<Rightarrow> Inl malformed
      | Some (k, v) \<Rightarrow>
          (case field_key k of
             None \<Rightarrow> Inl malformed
           | Some key \<Rightarrow>
               if \<not> list_all valid_value_byte v then Inl malformed
               else Inr (add_field key (dropWhile (\<lambda>c. c \<in> {CHR '' '', TAB}) v) m)))"

function read_fields :: "string list \<Rightarrow> header \<Rightarrow> header \<times> error option" where
  "read_fields [] m = (m, Some EOF)"
| "read_fields (l # ls) m =
     (if l = [] then (m, None)
      else if CHR '':'' \<notin> set l then (m, Some malformed)
      else
        (let kv = foldl (\<lambda>b c. b @ '' '' @ trim_blank c) (trim_blank l) (takeWhile blank_start ls)
         in case read_field kv m of
              Inl err \<Rightarrow> (m, Some err)
            | Inr m' \<Rightarrow> read_fields (dropWhile blank_start ls) m'))"
  by pat_completeness auto
termination
  by (relation "measure (\<lambda>x. length (fst x))") (auto simp: le_imp_less_Suc length_dropWhile_le)

definition ReadMIMEHeader :: "bytes \<Rightarrow> header \<times> error option" where
  "ReadMIMEHeader b =
     (if blank_start b then ([], Some (ErrorString ''malformed MIME header initial line''))
      else read_fields (text_lines b) [])"

definition readLabels :: "bytes \<Rightarrow> error + labels" where
  "readLabels b =
     (let (h, err) = ReadMIMEHeader b
      in if err \<noteq> None \<and> \<not> errors_Is (the err) EOF then Inl (the err) else Inr (Some h))"

section \<open>Reading what was written\<close>

lemma Split_no_sep: "c \<notin> set s \<Longrightarrow> Split s c = [s]"
  by (induction s) auto

lemma Split_append: "c \<notin> set a \<Longrightarrow> Split (a @ c # b) c = a # Split b c"
  by (induction a) auto

lemma Split_nonempty [simp]: "Split s c \<noteq> []"
  by (induction s) (auto split: list.splits)

lemma text_lines_Nil [simp]: "text_lines [] = []"
  by (simp add: text_lines_def)

lemma text_lines_cons: "LF \<notin> set l \<Longrightarrow> text_lines (l @ [CR, LF] @ b) = l # text_lines b"
  using Split_append [of LF "l @ [CR]" b] by (simp add: text_lines_def Let_def chomp_def)

lemma text_lines_write:
  "\<forall>x \<in> set xs. LF \<notin> set (header_line (fst x) (snd x)) \<Longrightarrow>
   text_lines (concat (map (\<lambda>x. header_line (fst x) (snd x) @ [CR, LF]) xs)) = map (\<lambda>x. header_line (fst x) (snd x)) xs"
proof (induction xs)
  case (Cons x xs)
  then show ?case using text_lines_cons [of "header_line (fst x) (snd x)"] by simp
qed simp

lemma token_values: "token_char c \<Longrightarrow> c \<noteq> CHR '':'' \<and> c \<noteq> CHR '' '' \<and> c \<noteq> TAB \<and> c \<noteq> LF \<and> c \<noteq> CR"
  by (auto simp: token_char_def is_upper_def is_lower_def is_digit_def)

lemma Trim_edges:
  assumes "v = [] \<or> hd v \<notin> set cs \<and> last v \<notin> set cs"
  shows "Trim v cs = v"
proof (cases "v = []")
  case False
  then have "hd v \<notin> set cs" "hd (rev v) \<notin> set cs" using assms by (simp_all add: hd_rev)
  moreover have "dropWhile (\<lambda>c. c \<in> set cs) x = x" if "hd x \<notin> set cs" for x
    using that by (cases x) auto
  ultimately show ?thesis by (simp add: Trim_def TrimRight_def)
qed (simp add: Trim_def TrimRight_def)

definition trimmed :: "string \<Rightarrow> bool" where
  "trimmed v \<longleftrightarrow> v = [] \<or> hd v \<notin> {CHR '' '', TAB} \<and> last v \<notin> {CHR '' '', TAB}"

lemma trim_line:
  assumes "valid_field_name k" "trimmed v"
  shows "trim_blank (header_line k v) = (if v = [] then k @ '':'' else header_line k v)"
proof -
  have k: "k \<noteq> []" "hd k \<notin> {CHR '' '', TAB}"
    using assms(1) token_values [of "hd k"] by (auto simp: valid_field_name_def list_all_iff)
  show ?thesis
  proof (cases "v = []")
    case True
    have "dropWhile (\<lambda>c. c \<in> set [CHR '' '', TAB]) (k @ '': '') = k @ '': ''"
      using k by (cases k) auto
    then show ?thesis using True by (simp add: trim_blank_def Trim_def TrimRight_def header_line_def)
  next
    case False
    then show ?thesis
      using k assms(2) unfolding trim_blank_def
      by (simp add: Trim_edges header_line_def trimmed_def)
  qed
qed

definition good_field :: "string \<times> string \<Rightarrow> bool" where
  "good_field x \<longleftrightarrow> valid_field_name (fst x) \<and> trimmed (snd x) \<and> list_all valid_value_byte (snd x)"

lemma field_key_valid: "valid_field_name k \<Longrightarrow> field_key k = Some (CanonicalHeaderKey k)"
  using token_values by (auto simp: field_key_def valid_field_name_def list_all_iff)

lemma read_field_line:
  assumes "good_field x"
  shows "read_field (trim_blank (header_line (fst x) (snd x))) m =
    Inr (add_field (CanonicalHeaderKey (fst x)) (snd x) m)"
proof -
  let ?k = "fst x" and ?v = "snd x"
  have k: "valid_field_name ?k" and v: "trimmed ?v" "list_all valid_value_byte ?v"
    using assms by (simp_all add: good_field_def)
  have colon: "CHR '':'' \<notin> set ?k"
    using k token_values by (auto simp: valid_field_name_def list_all_iff)
  have "Cut (trim_blank (header_line ?k ?v)) (CHR '':'') = Some (?k, if ?v = [] then [] else CHR '' '' # ?v)"
    using colon trim_line [OF k v(1)] by (simp add: header_line_def)
  moreover have "dropWhile (\<lambda>c. c \<in> {CHR '' '', TAB}) (if ?v = [] then [] else CHR '' '' # ?v) = ?v"
    using v(1) by (cases ?v) (auto simp: trimmed_def)
  moreover have "list_all valid_value_byte (if ?v = [] then [] else CHR '' '' # ?v)"
    using v(2) by (simp add: valid_value_byte_def)
  ultimately show ?thesis by (simp add: read_field_def field_key_valid [OF k])
qed

lemma line_start: "valid_field_name k \<Longrightarrow> \<not> blank_start (header_line k v @ r)"
  using token_values by (cases k) (auto simp: valid_field_name_def blank_start_def header_line_def)

text \<open>Well-formed fields are read back in their order.\<close>

fun add_fields :: "(string \<times> string) list \<Rightarrow> header \<Rightarrow> header" where
  "add_fields [] m = m"
| "add_fields (x # xs) m = add_fields xs (add_field (CanonicalHeaderKey (fst x)) (snd x) m)"

lemma read_fields_write:
  "list_all good_field xs \<Longrightarrow>
   read_fields (map (\<lambda>x. header_line (fst x) (snd x)) xs) m = (add_fields xs m, Some EOF)"
proof (induction xs arbitrary: m)
  case (Cons x xs)
  let ?ls = "map (\<lambda>x. header_line (fst x) (snd x)) xs"
  have name: "valid_field_name (fst y)" if "y \<in> set xs" for y
    using Cons.prems that by (simp add: list_all_iff good_field_def)
  have "\<not> blank_start l" if "l \<in> set ?ls" for l
    using that line_start [OF name, of _ _ "[]"] by auto
  then have "takeWhile blank_start ?ls = []" "dropWhile blank_start ?ls = ?ls"
    by (cases ?ls; simp)+
  moreover have "header_line (fst x) (snd x) \<noteq> []" "CHR '':'' \<in> set (header_line (fst x) (snd x))"
    by (simp_all add: header_line_def)
  ultimately show ?case using Cons read_field_line [of x m] by simp
qed simp

lemma read_write_fields:
  assumes "list_all good_field (header_fields h)"
  shows "ReadMIMEHeader (Header_Write h) = (add_fields (header_fields h) [], Some EOF)"
proof -
  have lf: "LF \<notin> set (header_line (fst x) (snd x))" if "x \<in> set (header_fields h)" for x
  proof -
    have "good_field x" using assms that by (simp add: list_all_iff)
    then have "list_all token_char (fst x)" "list_all valid_value_byte (snd x)"
      by (simp_all add: good_field_def valid_field_name_def)
    moreover have "\<not> token_char LF" "\<not> valid_value_byte LF"
      using token_values by (blast, simp add: valid_value_byte_def)
    ultimately show ?thesis by (auto simp: header_line_def list_all_iff)
  qed
  have "\<not> blank_start (Header_Write h)"
  proof (cases "header_fields h")
    case Nil
    then show ?thesis by (simp add: Header_Write_def blank_start_def)
  next
    case (Cons x xs)
    then have "valid_field_name (fst x)" using assms by (simp add: good_field_def)
    then show ?thesis using Cons line_start [of "fst x" "snd x"] by (simp add: Header_Write_def)
  qed
  then show ?thesis
    using text_lines_write [of "header_fields h"] lf read_fields_write [OF assms]
    by (simp add: ReadMIMEHeader_def Header_Write_def)
qed

section \<open>Which labels survive\<close>

lemma Trim_edges_result:
  "Trim v cs = [] \<or> hd (Trim v cs) \<notin> set cs \<and> last (Trim v cs) \<notin> set cs"
proof (cases "Trim v cs = []")
  case False
  define u where "u = dropWhile (\<lambda>c. c \<in> set cs) v"
  have u: "u = [] \<or> hd u \<notin> set cs" unfolding u_def using hd_dropWhile [of "\<lambda>c. c \<in> set cs" v] by blast
  define w where "w = dropWhile (\<lambda>c. c \<in> set cs) (rev u)"
  have t: "Trim v cs = rev w" by (simp add: Trim_def TrimRight_def u_def w_def)
  have w: "w \<noteq> []" "hd w \<notin> set cs"
    using False t hd_dropWhile [of "\<lambda>c. c \<in> set cs" "rev u"] unfolding w_def by auto
  obtain p where "rev u = p @ w" unfolding w_def by (metis takeWhile_dropWhile_id)
  then have "u = rev w @ rev p" by (metis rev_append rev_rev_ident)
  then have "hd (rev w) = hd u" "u \<noteq> []" using w(1) by (simp_all add: hd_append)
  with u w show ?thesis by (simp add: t last_rev)
qed simp

lemma set_Trim: "set (Trim v cs) \<subseteq> set v"
  unfolding Trim_def TrimRight_def by (auto dest!: set_dropWhileD)

lemma trimmed_header_value: "trimmed (header_value v)"
  using Trim_edges_result [of "map (\<lambda>c. if c = LF \<or> c = CR then CHR '' '' else c) v" "[CHR '' '', TAB, LF, CR]"]
  by (auto simp: trimmed_def header_value_def)

lemma no_LF_header_value: "LF \<notin> set (header_value v)"
  using set_Trim [of "map (\<lambda>c. if c = LF \<or> c = CR then CHR '' '' else c) v" "[CHR '' '', TAB, LF, CR]"]
  by (auto simp: header_value_def)

lemma header_fields_sound:
  "x \<in> set (header_fields h) \<Longrightarrow> valid_field_name (fst x) \<and> trimmed (snd x) \<and> LF \<notin> set (snd x)"
  by (auto simp: header_fields_def trimmed_header_value no_LF_header_value)

text \<open>A value with a control byte in it is written, and then refused.\<close>

lemma read_fields_bad:
  "\<forall>x \<in> set xs. valid_field_name (fst x) \<and> trimmed (snd x) \<Longrightarrow> \<not> list_all good_field xs \<Longrightarrow>
   snd (read_fields (map (\<lambda>x. header_line (fst x) (snd x)) xs) m) = Some malformed"
proof (induction xs arbitrary: m)
  case (Cons x xs)
  let ?ls = "map (\<lambda>x. header_line (fst x) (snd x)) xs" and ?k = "fst x" and ?v = "snd x"
  have "\<not> blank_start l" if "l \<in> set ?ls" for l
    using that line_start [of _ _ "[]"] Cons.prems(1) by auto
  then have split': "takeWhile blank_start ?ls = []" "dropWhile blank_start ?ls = ?ls"
    by (cases ?ls; simp)+
  have line: "header_line ?k ?v \<noteq> []" "CHR '':'' \<in> set (header_line ?k ?v)"
    by (simp_all add: header_line_def)
  show ?case
  proof (cases "good_field x")
    case True
    then show ?thesis using Cons split' line read_field_line [of x m] by simp
  next
    case False
    have k: "valid_field_name ?k" "trimmed ?v" using Cons.prems(1) by simp_all
    have colon: "CHR '':'' \<notin> set ?k"
      using k(1) token_values by (auto simp: valid_field_name_def list_all_iff)
    have "Cut (trim_blank (header_line ?k ?v)) (CHR '':'') = Some (?k, if ?v = [] then [] else CHR '' '' # ?v)"
      using colon trim_line [OF k] by (simp add: header_line_def)
    moreover have "\<not> list_all valid_value_byte (if ?v = [] then [] else CHR '' '' # ?v)"
      using False k by (auto simp: good_field_def)
    ultimately have "read_field (trim_blank (header_line ?k ?v)) m = Inl malformed"
      by (simp add: read_field_def field_key_valid [OF k(1)])
    then show ?thesis using split' line by simp
  qed
qed simp

definition label_fields :: "labels \<Rightarrow> (string \<times> string) list" where
  "label_fields l = header_fields (case l of None \<Rightarrow> [] | Some h \<Rightarrow> h)"

definition readable :: "labels \<Rightarrow> bool" where
  "readable l \<longleftrightarrow> list_all (\<lambda>x. list_all valid_value_byte (snd x)) (label_fields l)"

text \<open>What a labels file keeps of the labels written to it.\<close>

definition kept_labels :: "labels \<Rightarrow> labels" where
  "kept_labels l = Some (add_fields (label_fields l) [])"

lemma writeLabels_fields: "writeLabels l = Header_Write (case l of None \<Rightarrow> [] | Some h \<Rightarrow> h)"
  by (simp add: writeLabels_def split: option.splits)

lemma readable_good: "readable l \<longleftrightarrow> list_all good_field (label_fields l)"
  using header_fields_sound by (auto simp: readable_def label_fields_def list_all_iff good_field_def)

lemma read_write_labels: "readable l \<Longrightarrow> readLabels (writeLabels l) = Inr (kept_labels l)"
  using read_write_fields [of "case l of None \<Rightarrow> [] | Some h \<Rightarrow> h"] readable_good [of l]
  by (simp add: readLabels_def writeLabels_fields kept_labels_def label_fields_def)

lemma read_write_unreadable:
  assumes "\<not> readable l"
  shows "readLabels (writeLabels l) = Inl malformed"
proof -
  let ?h = "case l of None \<Rightarrow> [] | Some h \<Rightarrow> h"
  have bad: "\<not> list_all good_field (header_fields ?h)"
    using assms readable_good [of l] by (simp add: label_fields_def)
  then obtain x xs where f: "header_fields ?h = x # xs" by (cases "header_fields ?h") auto
  have "\<not> token_char LF" using token_values by blast
  then have lf: "LF \<notin> set (header_line (fst y) (snd y))" if "y \<in> set (header_fields ?h)" for y
    using header_fields_sound [OF that] by (auto simp: header_line_def valid_field_name_def list_all_iff)
  have "\<not> blank_start (Header_Write ?h)"
    using f header_fields_sound [of x ?h] line_start [of "fst x" "snd x"] by (simp add: Header_Write_def)
  then have "snd (ReadMIMEHeader (Header_Write ?h)) = Some malformed"
    using text_lines_write [of "header_fields ?h"] lf read_fields_bad [OF _ bad, of "[]"] header_fields_sound [of _ ?h]
    by (simp add: ReadMIMEHeader_def Header_Write_def)
  then show ?thesis
    by (auto simp: readLabels_def writeLabels_fields malformed_def split: prod.splits)
qed

section \<open>Labels that come back as they were\<close>

definition clean_labels :: "header \<Rightarrow> bool" where
  "clean_labels h \<longleftrightarrow>
     distinct (map fst h)
     \<and> list_all (\<lambda>x. valid_field_name (fst x) \<and> canonical_from True (fst x) = fst x \<and> snd x \<noteq> []
         \<and> list_all (\<lambda>v. trimmed v \<and> list_all valid_value_byte v) (snd x)) h"

lemma header_value_clean:
  assumes "trimmed v" "list_all valid_value_byte v"
  shows "header_value v = v"
proof -
  have b: "c \<noteq> LF \<and> c \<noteq> CR" if "c \<in> set v" for c
  proof -
    have "valid_value_byte c" using assms(2) that by (simp add: list_all_iff)
    then show ?thesis by (auto simp: valid_value_byte_def)
  qed
  then have "map (\<lambda>c. if c = LF \<or> c = CR then CHR '' '' else c) v = v"
    by (simp add: map_idI)
  moreover have "v = [] \<or> hd v \<notin> set [CHR '' '', TAB, LF, CR] \<and> last v \<notin> set [CHR '' '', TAB, LF, CR]"
  proof (cases "v = []")
    case False
    then have "hd v \<in> set v" "last v \<in> set v" by simp_all
    with False assms(1) b show ?thesis by (simp add: trimmed_def)
  qed simp
  ultimately show ?thesis unfolding header_value_def by (simp only: Trim_edges)
qed

lemma map_of_add_fields_same:
  "CanonicalHeaderKey k = k \<Longrightarrow>
   map_of (add_fields (map (\<lambda>v. (k, v)) vs) m) =
     (if vs = [] then map_of m else (map_of m)(k \<mapsto> (case map_of m k of None \<Rightarrow> [] | Some us \<Rightarrow> us) @ vs))"
  by (induction vs arbitrary: m) (auto simp: add_field_def update_conv' split: option.splits)

lemma add_fields_append: "add_fields (xs @ ys) m = add_fields ys (add_fields xs m)"
  by (induction xs arbitrary: m) auto

lemma map_of_add_fields:
  "distinct (map fst h) \<Longrightarrow> \<forall>x \<in> set h. CanonicalHeaderKey (fst x) = fst x \<and> snd x \<noteq> [] \<Longrightarrow>
   \<forall>x \<in> set h. map_of m (fst x) = None \<Longrightarrow>
   map_of (add_fields (concat (map (\<lambda>x. map (\<lambda>v. (fst x, v)) (snd x)) h)) m) = map_of m ++ map_of h"
proof (induction h arbitrary: m)
  case (Cons x h)
  have x: "map_of (add_fields (map (\<lambda>v. (fst x, v)) (snd x)) m) = (map_of m)(fst x \<mapsto> snd x)"
    using Cons.prems map_of_add_fields_same [of "fst x" "snd x" m] by simp
  have fresh: "\<forall>y \<in> set h. map_of (add_fields (map (\<lambda>v. (fst x, v)) (snd x)) m) (fst y) = None"
    using Cons.prems by (force simp: x image_iff)
  have add: "(map_of m)(fst x \<mapsto> snd x) ++ map_of h = map_of m ++ map_of (x # h)"
  proof -
    have "map_of h (fst x) = None" using Cons.prems(1) by (simp add: map_of_eq_None_iff)
    then show ?thesis by (cases x) (auto simp: map_add_def fun_eq_iff split: option.splits)
  qed
  have "distinct (map fst h)" "\<forall>x \<in> set h. CanonicalHeaderKey (fst x) = fst x \<and> snd x \<noteq> []"
    using Cons.prems(1,2) by simp_all
  from Cons.IH [OF this fresh] show ?case
    by (simp only: list.map concat.simps add_fields_append x add)
qed simp

lemma clean_readable: "clean_labels h \<Longrightarrow> readable (Some h)"
  by (auto simp: clean_labels_def readable_def label_fields_def header_fields_def list_all_iff header_value_clean)

lemma clean_kept:
  assumes "clean_labels h"
  shows "labels_DeepEqual (kept_labels (Some h)) (Some h)"
proof -
  let ?s = "sort_key fst h"
  have s: "distinct (map fst ?s)" "\<forall>x \<in> set ?s. CanonicalHeaderKey (fst x) = fst x \<and> snd x \<noteq> []"
    using assms by (auto simp: clean_labels_def list_all_iff CanonicalHeaderKey_def valid_field_name_def distinct_map)
  have "header_fields h = concat (map (\<lambda>x. map (\<lambda>v. (fst x, v)) (snd x)) ?s)"
  proof -
    have "filter (\<lambda>x. valid_field_name (fst x)) ?s = ?s"
      using assms by (auto simp: clean_labels_def list_all_iff intro: filter_True)
    moreover have "map (\<lambda>v. (fst x, header_value v)) (snd x) = map (\<lambda>v. (fst x, v)) (snd x)" if "x \<in> set ?s" for x
      using assms that by (auto simp: clean_labels_def list_all_iff header_value_clean)
    ultimately show ?thesis unfolding header_fields_def by (metis (no_types, lifting) map_cong)
  qed
  then have "map_of (add_fields (header_fields h) []) = map_of ?s"
    using map_of_add_fields [OF s, of "[]"] by simp
  also have "\<dots> = map_of h" using assms s(1) by (simp add: clean_labels_def map_of_inject_set)
  finally show ?thesis by (simp add: kept_labels_def label_fields_def labels_DeepEqual_maps)
qed



end
