(* ===== verification/OsStore.thy ===== *)
theory OsStore
  imports OsFs LabelFile Fill StoreApi
begin

text \<open>
  \<open>os.go\<close>: the store in a directory, its file locks and \<open>nlink\<close> of \<open>nlink_linux.go\<close>, as sequences of
  the system calls of \<open>OsFs\<close>. The state is the tree below the root of the store. A deferred \<open>Close\<close>
  and the release of a lock change nothing that is modelled and are left out; a \<open>Close\<close> whose error the
  code looks at is a call that can fail. The lock of \<open>gofrs/flock\<close> answers each attempt from outside.
\<close>

section \<open>Stores\<close>

record OsStores =
  oss_root :: string
  oss_stage :: StageConfig

record OsStore =
  os_root :: string
  os_repo :: path
  os_lock :: bool
  os_namespace :: string
  os_stage :: StageConfig

definition NewOsStores :: "string \<Rightarrow> StageConfig list \<Rightarrow> OsStores" where
  "NewOsStores root stage =
     (let cfg = (case stage of [] \<Rightarrow> \<lparr>TTL = 0, Retention = 0, OperationTimeout = 0, cfg_now = None\<rparr>
                 | c # _ \<Rightarrow> c)
      in \<lparr>oss_root = root, oss_stage = normalized cfg\<rparr>)"

definition OsStores_Use :: "OsStores \<Rightarrow> string \<Rightarrow> OsStore" where
  "OsStores_Use i ns =
     \<lparr>os_root = oss_root i, os_repo = [''repos'', namespaceSegment ns], os_lock = True,
      os_namespace = ns, os_stage = oss_stage i\<rparr>"

section \<open>Paths\<close>

definition pathToBlob :: "'h digest_lib \<Rightarrow> string \<Rightarrow> path" where
  "pathToBlob L d =
     (let v = Digest_Encoded L d
      in [''share'', Digest_Algorithm L d, take 2 v, take 2 (drop 2 v), drop 4 v])"

definition pathToRepo :: "'h digest_lib \<Rightarrow> OsStore \<Rightarrow> string \<Rightarrow> path \<Rightarrow> path" where
  "pathToRepo L t d el =
     (let v = Digest_Encoded L d
      in os_repo t @ [Digest_Algorithm L d, take 2 v, take 2 (drop 2 v), drop 4 v] @ el)"

definition ensureStagePath :: "(osfs, error + path) go" where
  "ensureStagePath =
     chk (os_MkdirAll [''stage'']) (\<lambda>err. Inl (Wrapped ''mkdir stage'' err)) (\<lambda>_. ret (Inr [''stage'']))"

definition checkDup :: "path \<Rightarrow> (osfs, error + unit) go" where
  "checkDup p =
     bind (os_Stat p) (\<lambda>r. case r of
       Inr _ \<Rightarrow> ret (Inl ErrAlreadyExists)
     | Inl err \<Rightarrow> if \<not> errors_Is err FsErrNotExist then ret (Inl (Wrapped ''stat'' err)) else ret (Inr ()))"

section \<open>Locks\<close>

definition lockRetryMin :: duration where "lockRetryMin = 10 ^ 6"
definition lockRetryMax :: duration where "lockRetryMax = 100 * 10 ^ 6"

text \<open>
  \<open>tryLockContext\<close> from its \<open>k\<close>-th look at the context on; the result comes with the waits between the
  attempts. A lock that is never free and a context that is never done keep it trying.
\<close>

partial_function (option) try_loop ::
  "env \<Rightarrow> nat \<Rightarrow> duration \<Rightarrow> duration list \<Rightarrow> osfs \<Rightarrow> (((error + bool) \<times> duration list) \<times> osfs) option" where
  "try_loop e k delay ws s =
     (case TryLock s of
        None \<Rightarrow> None
      | Some (r, s') \<Rightarrow>
          (case r of
             Inl err \<Rightarrow> Some ((Inl err, ws), s')
           | Inr ok \<Rightarrow>
               if ok then Some ((Inr True, ws), s')
               else (case ctx_Err e k of
                       Some err \<Rightarrow> Some ((Inl err, ws), s')
                     | None \<Rightarrow> try_loop e (Suc k) (min (delay * 2) lockRetryMax) (ws @ [delay]) s')))"

definition tryLockContext :: "env \<Rightarrow> (osfs, (error + bool) \<times> duration list) go" where
  "tryLockContext e =
     (case ctx_Err e 0 of
        Some err \<Rightarrow> ret (Inl err, [])
      | None \<Rightarrow> try_loop e 1 lockRetryMin [])"

text \<open>\<open>OsFileLocker.New\<close>; the digest has no slash, so the lock file lies in the directory of the locks.\<close>

definition OsFileLocker_New :: "string \<Rightarrow> (osfs, error + unit) go" where
  "OsFileLocker_New name =
     chk (os_MkdirAll [''locks'']) (\<lambda>err. Inl (Wrapped ''mkdir locks'' err)) (\<lambda>_. ret (Inr ()))"

definition OsFileLock_Lock :: "env \<Rightarrow> (osfs, error + nat) go" where
  "OsFileLock_Lock e =
     bind (tryLockContext e) (\<lambda>(r, ws). case r of Inl err \<Rightarrow> ret (Inl err) | Inr _ \<Rightarrow> ret (Inr (Suc (length ws))))"

text \<open>The result of a lock that was taken is the number of looks at the context it took.\<close>

definition lockBlob :: "env \<Rightarrow> string \<Rightarrow> (osfs, error + nat) go" where
  "lockBlob e d =
     chk (OsFileLocker_New d) (\<lambda>err. Inl (Wrapped ''create lock'' err)) (\<lambda>_.
     chk (OsFileLock_Lock e) (\<lambda>err. Inl (Wrapped ''lock'' err)) (\<lambda>k.
       ret (Inr k)))"

section \<open>Publishing\<close>

definition stampEntry :: "env \<Rightarrow> path \<Rightarrow> (osfs, error + unit) go" where
  "stampEntry e dir =
     (let now = time_Now e 0
      in chk (os_Chtimes dir now) (\<lambda>err. Inl (Wrapped ''stamp entry'' err)) (\<lambda>_. ret (Inr ())))"

text \<open>The attempts left of \<open>moveStageToRepo\<close>, and the error of the last one.\<close>

fun move_attempts :: "nat \<Rightarrow> path \<Rightarrow> path \<Rightarrow> error \<Rightarrow> (osfs, error + unit) go" where
  "move_attempts 0 ps pr err = ret (Inl (Wrapped ''move from stage to repo after 5 attempts'' err))"
| "move_attempts (Suc n) ps pr _ =
     bind (os_Rename ps pr) (\<lambda>r. case r of
       Inr _ \<Rightarrow> ret (Inr ())
     | Inl err \<Rightarrow>
         bind (os_Stat pr) (\<lambda>st. case st of
           Inl _ \<Rightarrow> ret (Inl (Wrapped ''move from stage to repo'' err))
         | Inr _ \<Rightarrow>
             chk (os_RemoveAll pr) (\<lambda>rmErr. Inl (Wrapped ''remove leftover repo dir'' rmErr)) (\<lambda>_.
               move_attempts n ps pr err)))"

definition moveStageToRepo :: "path \<Rightarrow> path \<Rightarrow> (osfs, error + unit) go" where
  "moveStageToRepo ps pr = move_attempts 5 ps pr (ErrorString '''')"

text \<open>The labels of a staged entry: created, written and closed.\<close>

definition create_labels :: "path \<Rightarrow> labels \<Rightarrow> (osfs, error + unit) go" where
  "create_labels ps labels =
     chk (os_Create (ps @ [''labels''])) (\<lambda>err. Inl (Wrapped ''create labels'' err)) (\<lambda>lf.
     chk (file_Write lf (writeLabels labels)) (\<lambda>err. Inl (Wrapped ''write labels'' err)) (\<lambda>_.
     chk file_call (\<lambda>err. Inl (Wrapped ''close labels'' err)) (\<lambda>_.
       ret (Inr ()))))"

text \<open>
  The blob of a staged entry: a link to the shared blob, or a copy of \<open>blob\<close> that becomes the shared
  one.
\<close>

definition stage_blob :: "path \<Rightarrow> path \<Rightarrow> (osfs, error + bytes) go \<Rightarrow> (osfs, error + unit) go" where
  "stage_blob ps pd blob =
     bind (os_Stat pd) (\<lambda>st. case st of
       Inr _ \<Rightarrow>
         chk (os_Link pd (ps @ [''blob''])) (\<lambda>err. Inl (Wrapped ''link blob'' err)) (\<lambda>_. ret (Inr ()))
     | Inl err \<Rightarrow>
         if \<not> errors_Is err FsErrNotExist then ret (Inl (Wrapped ''stat blob'' err))
         else
           (let psb = ps @ [''blob'']
            in chk (os_Create psb) (\<lambda>err. Inl (Wrapped ''create blob'' err)) (\<lambda>bf.
               chk blob (\<lambda>err. Inl (Wrapped ''copy blob'' err)) (\<lambda>b.
               chk (file_Write bf b) (\<lambda>err. Inl (Wrapped ''copy blob'' err)) (\<lambda>_.
               chk (os_MkdirAll (butlast pd)) (\<lambda>err. Inl (Wrapped ''mkdir blob dir'' err)) (\<lambda>_.
               chk (os_Link psb pd) (\<lambda>err. Inl (Wrapped ''link blob to global path'' err)) (\<lambda>_.
                 ret (Inr ()))))))))"

definition move_entry :: "string \<Rightarrow> env \<Rightarrow> path \<Rightarrow> path \<Rightarrow> (osfs, error + unit) go" where
  "move_entry msg e ps pr =
     chk (os_MkdirAll (butlast pr)) (\<lambda>err. Inl (Wrapped msg err)) (\<lambda>_.
     chk (stampEntry e ps) Inl (\<lambda>_.
     chk (moveStageToRepo ps pr) Inl (\<lambda>_.
       ret (Inr ()))))"

text \<open>A deferred \<open>RemoveAll\<close> whose error is ignored.\<close>

definition drop_tree :: "path \<Rightarrow> (osfs, unit) go" where
  "drop_tree p = bind (os_RemoveAll p) (\<lambda>_. ret ())"

definition drop_file :: "path \<Rightarrow> (osfs, unit) go" where
  "drop_file p = bind (os_Remove p) (\<lambda>_. ret ())"

text \<open>\<open>publish\<close> in the directory it has made in the stage, which goes with a failure.\<close>

definition publish_staged ::
  "'h digest_lib \<Rightarrow> env \<Rightarrow> meta \<Rightarrow> (osfs, error + bytes) go \<Rightarrow> path \<Rightarrow> path \<Rightarrow> (osfs, meta \<times> error option) go" where
  "publish_staged L e m blob pr ps =
     (let fails = (\<lambda>err. (m, Some err))
      in deferred
           (chk (create_labels ps (Labels m)) fails (\<lambda>_.
            chk (stage_blob ps (pathToBlob L (Digest m)) blob) fails (\<lambda>_.
            chk (move_entry ''mkdir repo'' e ps pr) fails (\<lambda>_.
              ret (m, None)))))
           (\<lambda>r. if snd r = None then ret () else drop_tree ps))"

definition OsStore_publish ::
  "'h digest_lib \<Rightarrow> OsStore \<Rightarrow> env \<Rightarrow> meta \<Rightarrow> (osfs, error + bytes) go \<Rightarrow> (osfs, meta \<times> error option) go" where
  "OsStore_publish L t e m blob =
     (let d = Digest m;
          pb = pathToRepo L t d [''blob''];
          fails = (\<lambda>err. (m, Some err))
      in chk (lockBlob e d) fails (\<lambda>k.
         chk (checkDup pb) fails (\<lambda>_.
         chk ensureStagePath (\<lambda>err. fails (Wrapped ''ensure stage path'' err)) (\<lambda>ps.
         chk (os_MkdirTemp ps '''') (\<lambda>err. fails (Wrapped ''mkdir temp at stage'' err)) (\<lambda>ps.
           publish_staged L e m blob (butlast pb) ps)))))"

section \<open>Adding\<close>

text \<open>\<open>Add\<close> past the look for a duplicate of the digest it is given.\<close>

definition add_staged ::
  "'h digest_lib \<Rightarrow> OsStore \<Rightarrow> env \<Rightarrow> string \<Rightarrow> meta \<Rightarrow> reader \<Rightarrow> path \<times> nat \<Rightarrow> (osfs, meta \<times> error option) go" where
  "add_staged L t e algo m r tf =
     (let (b, rerr) = io_Copy r
      in chk (file_Write (snd tf) b) (\<lambda>err. (m, Some (Wrapped ''write temp blob'' err))) (\<lambda>_.
         case rerr of
           Some err \<Rightarrow> ret (m, Some (Wrapped ''write temp blob'' err))
         | None \<Rightarrow>
             chk file_call (\<lambda>err. (m, Some (Wrapped ''seek temp blob'' err))) (\<lambda>_.
               (let m = m\<lparr>Size := int (length b)\<rparr>;
                    d = data_digest L algo b;
                    pb = pathToRepo L t d [''blob'']
                in if Digest m = '''' then
                     (let m = m\<lparr>Digest := d\<rparr>
                      in chk (checkDup pb) (\<lambda>err. (m, Some err)) (\<lambda>_.
                           OsStore_publish L t e m (file_Read (snd tf))))
                   else if Digest m \<noteq> d then ret (m, Some ErrDigestMismatch)
                   else OsStore_publish L t e m (file_Read (snd tf))))))"

definition add_temp ::
  "'h digest_lib \<Rightarrow> OsStore \<Rightarrow> env \<Rightarrow> string \<Rightarrow> meta \<Rightarrow> reader \<Rightarrow> (osfs, meta \<times> error option) go" where
  "add_temp L t e algo m r =
     chk ensureStagePath (\<lambda>err. (m, Some (Wrapped ''ensure stage path'' err))) (\<lambda>pt.
     chk (os_CreateTemp pt ''flob-'') (\<lambda>err. (m, Some (Wrapped ''create temp'' err))) (\<lambda>tf.
       deferred (add_staged L t e algo m r tf) (\<lambda>_. drop_file (fst tf))))"

definition OsStore_Add ::
  "'h digest_lib \<Rightarrow> OsStore \<Rightarrow> env \<Rightarrow> meta \<Rightarrow> reader \<Rightarrow> (osfs, meta \<times> error option) go" where
  "OsStore_Add L t e m r =
     (if Digest m \<noteq> '''' then
        (case Sanitize L (Digest m) of
           Inl err \<Rightarrow> ret (m, Some err)
         | Inr d \<Rightarrow>
             (let m = m\<lparr>Digest := d\<rparr>
              in chk (checkDup (pathToRepo L t d [''blob''])) (\<lambda>err. (m, Some err)) (\<lambda>_.
                   add_temp L t e (Digest_Algorithm L d) m r)))
      else add_temp L t e Canonical m r)"

section \<open>Fills\<close>

text \<open>
  The bytes of the temporary file are the tracker's \<open>ft_data\<close>; the file itself, with its readers, is
  on an inode of its own that is written only here.
\<close>

record 'h osFill =
  of_s :: OsStore
  of_m :: meta
  of_tf :: "path \<times> nat"
  of_t :: "'h fillTracker"

definition OsStore_Fill ::
  "'h digest_lib \<Rightarrow> OsStore \<Rightarrow> env \<Rightarrow> meta \<Rightarrow> (osfs, error + 'h osFill) go" where
  "OsStore_Fill L t e m =
     (case Sanitize L (Digest m) of
        Inl err \<Rightarrow> ret (Inl err)
      | Inr d \<Rightarrow>
          (let m = m\<lparr>Digest := d\<rparr>
           in chk (checkDup (pathToRepo L t d [''blob''])) Inl (\<lambda>_.
              chk ensureStagePath (\<lambda>err. Inl (Wrapped ''ensure stage path'' err)) (\<lambda>pt.
              chk (os_CreateTemp pt ''flob-'') (\<lambda>err. Inl (Wrapped ''create temp'' err)) (\<lambda>tf.
                case newFillTracker L m of
                  Inl err \<Rightarrow> bind (drop_file (fst tf)) (\<lambda>_. ret (Inl err))
                | Inr tr \<Rightarrow> ret (Inr \<lparr>of_s = t, of_m = m, of_tf = tf, of_t = tr\<rparr>))))))"

text \<open>\<open>os.File.Write\<close> with the count of the bytes it wrote.\<close>

definition file_Write_count :: "nat \<Rightarrow> bytes \<Rightarrow> (osfs, nat \<times> error option) go" where
  "file_Write_count i b s =
     (let n = (case fs_fault s (fs_sys s) of None \<Rightarrow> length b | Some f \<Rightarrow> min (f_count f) (length b))
      in case file_Write i b s of
           None \<Rightarrow> None
         | Some (r, s') \<Rightarrow> Some ((n, case r of Inl err \<Rightarrow> Some err | Inr _ \<Rightarrow> None), s'))"

definition osFill_Write ::
  "'h digest_lib \<Rightarrow> bytes \<Rightarrow> 'h osFill \<Rightarrow> (osfs, (nat \<times> error option) \<times> 'h osFill) go" where
  "osFill_Write L p f =
     (case fill_write_enter p (of_t f) of
        Inl res \<Rightarrow> ret (res, f)
      | Inr (p', short) \<Rightarrow>
          bind (file_Write_count (snd (of_tf f)) p') (\<lambda>(n, err).
            (let (res, tr) = fill_write_leave L short n err (fill_write_store L p' n (of_t f))
             in ret (res, f\<lparr>of_t := tr\<rparr>))))"

definition osFill_Follow :: "'h osFill \<Rightarrow> (error + fillReader) \<times> 'h osFill" where
  "osFill_Follow f = (let (res, tr) = fill_follow (of_t f) in (res, f\<lparr>of_t := tr\<rparr>))"

text \<open>The file goes with its last user: \<open>release\<close> runs when the tracker is released.\<close>

definition os_release :: "'h osFill \<Rightarrow> 'h fillTracker \<Rightarrow> (osfs, 'h osFill) go" where
  "os_release f tr =
     (if ft_released tr \<and> \<not> ft_released (of_t f)
      then bind (drop_file (fst (of_tf f))) (\<lambda>_. ret (f\<lparr>of_t := tr\<rparr>))
      else ret (f\<lparr>of_t := tr\<rparr>))"

definition osFill_Commit ::
  "'h digest_lib \<Rightarrow> env \<Rightarrow> 'h osFill \<Rightarrow> (osfs, (meta \<times> error option) \<times> 'h osFill) go" where
  "osFill_Commit L e f =
     bind (case fill_complete (of_t f) of
             Some err \<Rightarrow> ret (of_m f, Some err)
           | None \<Rightarrow>
               OsStore_publish L (of_s f) e (of_m f)
                 (chk (file_Read (snd (of_tf f))) Inl (\<lambda>b. ret (Inr (take (nat (Size (of_m f))) b)))))
       (\<lambda>res. bind (os_release f (fill_end (of_t f))) (\<lambda>f'. ret (res, f')))"

definition osFill_Abort :: "error option \<Rightarrow> 'h osFill \<Rightarrow> (osfs, 'h osFill) go" where
  "osFill_Abort err f = os_release f (fill_abort err (of_t f))"

section \<open>Reading\<close>

definition os_added :: "'h digest_lib \<Rightarrow> OsStore \<Rightarrow> string \<Rightarrow> env \<Rightarrow> (osfs, error + time) go" where
  "os_added L t d e =
     (case ctx_Err e 0 of
        Some err \<Rightarrow> ret (Inl err)
      | None \<Rightarrow>
          chk (os_Stat (pathToRepo L t d []))
            (\<lambda>err. if errors_Is err FsErrNotExist then Inl ErrNotExist else Inl (Wrapped ''stat entry'' err))
            (\<lambda>fi. ret (Inr (case fi of DirNode mtime \<Rightarrow> mtime | FileNode _ \<Rightarrow> 0))))"

definition os_labels :: "'h digest_lib \<Rightarrow> OsStore \<Rightarrow> string \<Rightarrow> env \<Rightarrow> (osfs, error + labels) go" where
  "os_labels L t d e =
     (case ctx_Err e 0 of
        Some err \<Rightarrow> ret (Inl err)
      | None \<Rightarrow>
          chk (os_Open (pathToRepo L t d [''labels'']))
            (\<lambda>err. if errors_Is err FsErrNotExist then Inr None else Inl (Wrapped ''open labels'' err)) (\<lambda>lf.
          chk (file_Read lf) (\<lambda>err. Inl (Wrapped ''read labels'' err)) (\<lambda>b.
            ret (case readLabels b of Inl err \<Rightarrow> Inl (Wrapped ''read labels'' err) | Inr l \<Rightarrow> Inr l))))"

text \<open>\<open>fi.Size()\<close>; the size of a directory is the system's.\<close>

definition node_size :: "osfs \<Rightarrow> node \<Rightarrow> int" where
  "node_size s fi = (case fi of FileNode i \<Rightarrow> int (length (fs_data s i)) | DirNode _ \<Rightarrow> 0)"

definition OsStore_open ::
  "'h digest_lib \<Rightarrow> OsStore \<Rightarrow> string \<Rightarrow> (osfs, error + (path \<times> osfs blobInfo)) go" where
  "OsStore_open L t d =
     (case Sanitize L d of
        Inl _ \<Rightarrow> ret (Inl ErrNotExist)
      | Inr d \<Rightarrow>
          (let pb = pathToRepo L t d [''blob'']
           in chk (os_Stat pb)
                (\<lambda>err. if errors_Is err FsErrNotExist then Inl ErrNotExist else Inl (Wrapped ''stat'' err)) (\<lambda>fi.
              bind (gets (\<lambda>s. node_size s fi)) (\<lambda>sz.
                ret (Inr (pb, NewLazyInfo d (Some (\<lambda>e. ret (Inr sz))) (Some (os_added L t d))
                               (Some (os_labels L t d))))))))"

definition OsStore_Stat ::
  "'h digest_lib \<Rightarrow> OsStore \<Rightarrow> env \<Rightarrow> string \<Rightarrow> (osfs, error + osfs blobInfo) go" where
  "OsStore_Stat L t e d = chk (OsStore_open L t d) Inl (\<lambda>(_, info). ret (Inr info))"

definition OsStore_Open ::
  "'h digest_lib \<Rightarrow> OsStore \<Rightarrow> env \<Rightarrow> string \<Rightarrow> (osfs, error + (bytes \<times> osfs blobInfo)) go" where
  "OsStore_Open L t e d =
     chk (OsStore_open L t d) Inl (\<lambda>(p, info).
     chk (os_Open p)
       (\<lambda>err. Inl (Wrapped ''open blob'' (if errors_Is err FsErrNotExist then ErrNotExist else err))) (\<lambda>f.
       bind (gets (\<lambda>s. fs_data s f)) (\<lambda>data. ret (Inr (data, info)))))"

section \<open>Labels and erasure\<close>

text \<open>
  \<open>ok\<close> is never set, so the deferred \<open>Remove\<close> of the temporary name also runs after the rename has
  taken the file away.
\<close>

definition label_staged :: "labels \<Rightarrow> path \<Rightarrow> path \<times> nat \<Rightarrow> (osfs, error option) go" where
  "label_staged labels pl f =
     deferred
       (chk (file_Write (snd f) (writeLabels labels)) (\<lambda>err. Some (Wrapped ''write labels'' err)) (\<lambda>_.
        chk file_call (\<lambda>err. Some (Wrapped ''close labels'' err)) (\<lambda>_.
        chk (os_Rename (fst f) pl)
          (\<lambda>err. Some (if errors_Is err FsErrNotExist then ErrNotExist
                       else Wrapped ''move labels to repo'' err)) (\<lambda>_.
          ret None))))
       (\<lambda>_. drop_file (fst f))"

definition OsStore_Label :: "'h digest_lib \<Rightarrow> OsStore \<Rightarrow> env \<Rightarrow> string \<Rightarrow> labels \<Rightarrow> (osfs, error option) go" where
  "OsStore_Label L t e d labels =
     (case Sanitize L d of
        Inl _ \<Rightarrow> ret (Some ErrNotExist)
      | Inr d \<Rightarrow>
          chk (os_Stat (pathToRepo L t d [''blob'']))
            (\<lambda>err. Some (if errors_Is err FsErrNotExist then ErrNotExist else Wrapped ''stat'' err)) (\<lambda>_.
          chk ensureStagePath (\<lambda>err. Some (Wrapped ''ensure stage path'' err)) (\<lambda>ps.
          chk (os_CreateTemp ps '''') (\<lambda>err. Some (Wrapped ''create temp at stage'' err)) (\<lambda>f.
            label_staged labels (pathToRepo L t d [''labels'']) f))))"

definition nlink :: "path \<Rightarrow> (osfs, error + nat) go" where
  "nlink p =
     chk (os_Stat p) Inl (\<lambda>info.
       bind (gets (\<lambda>s. case info of FileNode i \<Rightarrow> links s i | DirNode _ \<Rightarrow> 2)) (\<lambda>n. ret (Inr n)))"

definition tryCleanup :: "'h digest_lib \<Rightarrow> OsStore \<Rightarrow> env \<Rightarrow> string \<Rightarrow> (osfs, error + bool) go" where
  "tryCleanup L t e d =
     (let pb = pathToBlob L d
      in chk (nlink pb) (\<lambda>err. Inl (Wrapped ''nlink'' err)) (\<lambda>n.
         if n > 1 then ret (Inr False)
         else
           chk (lockBlob e d) (\<lambda>err. Inl (Wrapped ''lock blob'' err)) (\<lambda>k.
           chk (nlink pb) (\<lambda>err. Inl (Wrapped ''nlink'' err)) (\<lambda>n.
             if n > 1 then ret (Inr False)
             else
               bind (os_Remove pb) (\<lambda>r. case r of
                 Inl err \<Rightarrow> if errors_Is err FsErrNotExist then ret (Inr True)
                             else ret (Inl (Wrapped ''remove blob'' err))
               | Inr _ \<Rightarrow> ret (Inr True))))))"

definition OsStore_Erase :: "'h digest_lib \<Rightarrow> OsStore \<Rightarrow> env \<Rightarrow> string \<Rightarrow> (osfs, error option) go" where
  "OsStore_Erase L t e d =
     (case Sanitize L d of
        Inl _ \<Rightarrow> ret None
      | Inr d \<Rightarrow>
          bind (os_RemoveAll (pathToRepo L t d [])) (\<lambda>r. case r of
            Inl err \<Rightarrow>
              if errors_Is err FsErrNotExist then bind (tryCleanup L t e d) (\<lambda>_. ret None)
              else ret (Some err)
          | Inr _ \<Rightarrow> bind (tryCleanup L t e d) (\<lambda>_. ret None)))"

section \<open>Links between namespaces\<close>

text \<open>What \<open>unwrapLinkSource(from)\<close> is: a store of this backend, or not.\<close>

datatype os_source = Os_other | Os_nil | Os_source OsStore

definition link_entry ::
  "'h digest_lib \<Rightarrow> OsStore \<Rightarrow> OsStore \<Rightarrow> env \<Rightarrow> meta \<Rightarrow> path \<Rightarrow> (osfs, meta \<times> error option) go" where
  "link_entry L t source e m stage =
     (let d = Digest m; fails = (\<lambda>err. (m, Some err))
      in chk (create_labels stage (Labels m)) fails (\<lambda>_.
         chk (os_Link (pathToRepo L source d [''blob'']) (stage @ [''blob'']))
           (\<lambda>err. fails (if errors_Is err FsErrNotExist then ErrNotExist else Wrapped ''link source blob'' err)) (\<lambda>_.
         case ctx_Err e 0 of
           Some err \<Rightarrow> ret (fails err)
         | None \<Rightarrow>
             chk (move_entry ''mkdir destination'' e stage (pathToRepo L t d [])) fails (\<lambda>_.
               ret (Meta_Clone m, None)))))"

definition link_staged ::
  "'h digest_lib \<Rightarrow> OsStore \<Rightarrow> OsStore \<Rightarrow> env \<Rightarrow> meta \<Rightarrow> (osfs, meta \<times> error option) go" where
  "link_staged L t source e m =
     chk ensureStagePath (\<lambda>err. (m, Some (Wrapped ''ensure stage path'' err))) (\<lambda>stageRoot.
     chk (os_MkdirTemp stageRoot ''link-'') (\<lambda>err. (m, Some (Wrapped ''create link stage'' err))) (\<lambda>stage.
       deferred (link_entry L t source e m stage) (\<lambda>_. drop_tree stage)))"

text \<open>\<open>Link\<close> once it holds the lock; \<open>e\<close> is what is left of the environment.\<close>

definition link_locked ::
  "'h digest_lib \<Rightarrow> OsStore \<Rightarrow> OsStore \<Rightarrow> env \<Rightarrow> string \<Rightarrow> (osfs, meta \<times> error option) go" where
  "link_locked L t source e d =
     chk (OsStore_Stat L source e d) (\<lambda>err. (zero_meta, Some err)) (\<lambda>info.
     with_info info
       (chk (Info_Size e) (\<lambda>err. (zero_meta, Some err)) (\<lambda>sz.
          (let m = \<lparr>Digest = d, Labels = None, Size = sz\<rparr>
           in chk (on_store (checkDup (pathToRepo L t d [''blob'']))) (\<lambda>err. (m, Some err)) (\<lambda>_.
              chk (Info_Labels e) (\<lambda>err. (m, Some err)) (\<lambda>labels.
                on_store (link_staged L t source (env_after 1 e) (m\<lparr>Labels := labels\<rparr>))))))))"

definition OsStore_Link ::
  "'h digest_lib \<Rightarrow> OsStore \<Rightarrow> env \<Rightarrow> string \<Rightarrow> os_source \<Rightarrow> (osfs, meta \<times> error option) go" where
  "OsStore_Link L t e d source =
     (case ctx_Err e 0 of
        Some err \<Rightarrow> ret (zero_meta, Some err)
      | None \<Rightarrow>
     (case Sanitize L d of
        Inl err \<Rightarrow> ret (zero_meta, Some err)
      | Inr d \<Rightarrow>
     (case source of
        Os_other \<Rightarrow> ret (zero_meta, Some ErrIncompatibleStore)
      | Os_nil \<Rightarrow> ret (zero_meta, Some ErrIncompatibleStore)
      | Os_source source \<Rightarrow>
          if os_root t \<noteq> os_root source \<or> \<not> os_lock t \<or> \<not> os_lock source
          then ret (zero_meta, Some ErrIncompatibleStore)
          else
            chk (lockBlob (env_after 1 e) d) (\<lambda>err. (zero_meta, Some err)) (\<lambda>k.
              link_locked L t source (env_after (1 + k) e) d))))"

end
