(* ===== verification/OsInv.thy ===== *)
theory OsInv
  imports OsTree OsStore
begin

text \<open>
  The invariant of a directory store and what it shows. Every shared blob is what its name says, every
  namespace's entry for a digest is a link to the shared blob of that digest, and files and directories
  are only where the layout of \<open>os.go\<close> has them. \<open>safe\<close> is the state of an operation that has not
  published anything yet: the invariant holds and every namespace shows what it showed.
\<close>

section \<open>Paths\<close>

definition entry_path :: "'h digest_lib \<Rightarrow> string \<Rightarrow> string \<Rightarrow> path" where
  "entry_path L ns d =
     (let v = dl_Encoded L d
      in [''repos'', namespaceSegment ns, dl_Algorithm L d, take 2 v, take 2 (drop 2 v), drop 4 v])"

lemma pathToRepo_Use [simp]: "pathToRepo L (OsStores_Use st ns) d el = entry_path L ns d @ el"
  by (simp add: pathToRepo_def OsStores_Use_def entry_path_def Digest_Encoded_def Digest_Algorithm_def Let_def)

lemma entry_path_form: "\<exists>a b c x. entry_path L ns d = [''repos'', namespaceSegment ns, a, b, c, x]"
  by (simp add: entry_path_def Let_def)

lemma pathToBlob_form: "\<exists>a b c x. pathToBlob L d = [''share'', a, b, c, x]"
  by (simp add: pathToBlob_def Let_def)

lemma entry_path_facts [simp]:
  "length (entry_path L ns d) = 6" "entry_path L ns d \<noteq> []" "hd (entry_path L ns d) = ''repos''"
  "hd (entry_path L ns d @ r) = ''repos''" "length (butlast (entry_path L ns d)) = 5"
  by (simp_all add: entry_path_def Let_def)

lemma pathToBlob_facts [simp]:
  "length (pathToBlob L d) = 5" "pathToBlob L d \<noteq> []" "hd (pathToBlob L d) = ''share''"
  by (simp_all add: pathToBlob_def Let_def)

lemma encoded_parts: "take 2 v = take 2 w \<Longrightarrow> take 2 (drop 2 v) = take 2 (drop 2 w) \<Longrightarrow> drop 4 v = drop 4 w \<Longrightarrow> v = w"
proof -
  assume a: "take 2 v = take 2 w" "take 2 (drop 2 v) = take 2 (drop 2 w)" "drop 4 v = drop 4 w"
  have "v = take 2 v @ take 2 (drop 2 v) @ drop 4 v" "w = take 2 w @ take 2 (drop 2 w) @ drop 4 w"
    using append_take_drop_id [of 2 v] append_take_drop_id [of 2 "drop 2 v"]
      append_take_drop_id [of 2 w] append_take_drop_id [of 2 "drop 2 w"] by simp_all
  with a show ?thesis by metis
qed

lemma valid_inj:
  assumes "digest_lib_ok L" "dl_Validate L d = None" "dl_Validate L d' = None"
    and "dl_Algorithm L d = dl_Algorithm L d'" "dl_Encoded L d = dl_Encoded L d'"
  shows "d = d'"
  using Validate_parts(2) [OF assms(1,2)] Validate_parts(2) [OF assms(1,3)] assms(4,5) by metis

lemma entry_path_inj:
  assumes "digest_lib_ok L" "dl_Validate L d = None" "dl_Validate L d' = None"
  shows "entry_path L ns d = entry_path L ns' d' \<longleftrightarrow> ns = ns' \<and> d = d'"
  using valid_inj [OF assms] encoded_parts
  by (auto simp: entry_path_def Let_def namespaceSegment_inj)

lemma pathToBlob_inj:
  assumes "digest_lib_ok L" "dl_Validate L d = None" "dl_Validate L d' = None"
  shows "pathToBlob L d = pathToBlob L d' \<longleftrightarrow> d = d'"
  using valid_inj [OF assms] encoded_parts
  by (auto simp: pathToBlob_def Let_def Digest_Encoded_def Digest_Algorithm_def)

section \<open>The layout\<close>

definition file_place :: "path \<Rightarrow> bool" where
  "file_place p \<longleftrightarrow>
     p \<noteq> [] \<and> hd p \<noteq> ''locks'' \<and> (hd p = ''share'' \<longrightarrow> length p = 5) \<and> (hd p = ''repos'' \<longrightarrow> length p = 7)
     \<and> (hd p = ''stage'' \<longrightarrow> length p \<in> {2, 3}) \<and> (hd p = ''uploads'' \<longrightarrow> length p = (if p ! 2 = ''publish'' then 4 else 3))"

definition dir_place :: "path \<Rightarrow> bool" where
  "dir_place p \<longleftrightarrow>
     p = [] \<or> (hd p = ''share'' \<longrightarrow> length p \<le> 4) \<and> (hd p = ''repos'' \<longrightarrow> length p \<le> 6)
       \<and> (hd p = ''stage'' \<longrightarrow> length p \<le> 2) \<and> (hd p = ''uploads'' \<longrightarrow> length p \<le> 2 \<or> length p = 3 \<and> p ! 2 = ''publish'')"

text \<open>
  The scope of an operation: the byte strings that the history handles, and what it may touch of the
  uploads, as the paths at or below which this lies. All other files of uploads are framed.
\<close>

record scope =
  sc_bytes :: "bytes set"
  sc_own :: "path list"

definition framed :: "scope \<Rightarrow> path \<Rightarrow> bool" where
  "framed U p \<longleftrightarrow> p \<noteq> [] \<and> hd p = ''uploads'' \<and> \<not> list_ex (\<lambda>q. prefix q p) (sc_own U)"

definition kept_place :: "scope \<Rightarrow> path \<Rightarrow> bool" where
  "kept_place U p \<longleftrightarrow> p \<noteq> [] \<and> (hd p \<in> {''share'', ''repos''} \<or> framed U p)"

definition sole :: "osfs \<Rightarrow> nat \<Rightarrow> path \<Rightarrow> bool" where
  "sole s i p \<longleftrightarrow> file_at s p = Some i \<and> (\<forall>q. file_at s q = Some i \<longrightarrow> q = p)"

definition keeps :: "scope \<Rightarrow> osfs \<Rightarrow> osfs \<Rightarrow> bool" where
  "keeps U s s' \<longleftrightarrow>
     (\<forall>p. framed U p \<longrightarrow> file_at s' p = file_at s p
        \<and> (\<forall>i. file_at s p = Some i \<longrightarrow> fs_data s' i = fs_data s i \<and> (sole s i p \<longrightarrow> sole s' i p)))"

definition layout :: "osfs \<Rightarrow> bool" where
  "layout s \<longleftrightarrow> (\<forall>p. file_at s p \<noteq> None \<longrightarrow> file_place p) \<and> (\<forall>p. is_dir s p \<longrightarrow> dir_place p)"

definition os_ok :: "'h digest_lib \<Rightarrow> scope \<Rightarrow> osfs \<Rightarrow> bool" where
  "os_ok L U s \<longleftrightarrow>
     tree_ok s \<and> layout s
     \<and> (\<forall>d i. dl_Validate L d = None \<longrightarrow> file_at s (pathToBlob L d) = Some i \<longrightarrow>
          names_bytes L d (fs_data s i) \<and> fs_data s i \<in> sc_bytes U)
     \<and> (\<forall>ns d i. dl_Validate L d = None \<longrightarrow> file_at s (entry_path L ns d @ [''blob'']) = Some i \<longrightarrow>
          file_at s (pathToBlob L d) = Some i)"

text \<open>The bytes of an entry, and the bytes of its labels file when it has one.\<close>

definition show_entry :: "(nat \<Rightarrow> bytes) \<Rightarrow> nat option \<Rightarrow> nat option \<Rightarrow> (bytes \<times> bytes option) option" where
  "show_entry data b l = (case b of None \<Rightarrow> None | Some i \<Rightarrow> Some (data i, map_option data l))"

definition os_view :: "'h digest_lib \<Rightarrow> osfs \<Rightarrow> string \<Rightarrow> string \<Rightarrow> (bytes \<times> bytes option) option" where
  "os_view L s ns d =
     (if dl_Validate L d \<noteq> None then None
      else show_entry (fs_data s) (file_at s (entry_path L ns d @ [''blob'']))
             (file_at s (entry_path L ns d @ [''labels''])))"

lemma show_entry_simps [simp]:
  "show_entry data None l = None" "show_entry data (Some i) l = Some (data i, map_option data l)"
  "show_entry data b l = None \<longleftrightarrow> b = None"
  by (simp_all add: show_entry_def split: option.splits)

definition quiet :: "osfs \<Rightarrow> bool" where
  "quiet s \<longleftrightarrow> (\<forall>n. fs_fault s n = None) \<and> (\<forall>n. fs_try s n = Inr True)"

definition safe :: "'h digest_lib \<Rightarrow> scope \<Rightarrow> osfs \<Rightarrow> osfs \<Rightarrow> bool" where
  "safe L U s0 s \<longleftrightarrow>
     os_ok L U s \<and> os_view L s = os_view L s0 \<and> keeps U s0 s \<and> fs_fault s = fs_fault s0 \<and> fs_try s = fs_try s0"

lemma os_okD:
  "os_ok L U s \<Longrightarrow> tree_ok s" "os_ok L U s \<Longrightarrow> layout s"
  "os_ok L U s \<Longrightarrow> dl_Validate L d = None \<Longrightarrow> file_at s (pathToBlob L d) = Some i \<Longrightarrow>
     names_bytes L d (fs_data s i) \<and> fs_data s i \<in> sc_bytes U"
  "os_ok L U s \<Longrightarrow> dl_Validate L d = None \<Longrightarrow> file_at s (entry_path L ns d @ [''blob'']) = Some i \<Longrightarrow>
     file_at s (pathToBlob L d) = Some i"
  unfolding os_ok_def by blast+

lemma layoutD: "layout s \<Longrightarrow> file_at s p = Some i \<Longrightarrow> file_place p" "layout s \<Longrightarrow> is_dir s p \<Longrightarrow> dir_place p"
  unfolding layout_def by auto

lemma safeD:
  "safe L U s0 s \<Longrightarrow> os_ok L U s" "safe L U s0 s \<Longrightarrow> tree_ok s" "safe L U s0 s \<Longrightarrow> layout s"
  "safe L U s0 s \<Longrightarrow> os_view L s = os_view L s0" "safe L U s0 s \<Longrightarrow> quiet s = quiet s0"
  unfolding safe_def os_ok_def quiet_def by simp_all

lemma keeps_refl [simp]: "keeps U s s"
  by (simp add: keeps_def)

lemma keeps_trans: "keeps U s0 s \<Longrightarrow> keeps U s s' \<Longrightarrow> keeps U s0 s'"
  unfolding keeps_def by metis

lemma keepsI:
  assumes "\<And>p. framed U p \<Longrightarrow> file_at s' p = file_at s p"
    and "\<And>p i. framed U p \<Longrightarrow> file_at s p = Some i \<Longrightarrow> fs_data s' i = fs_data s i"
    and "\<And>p q i. framed U p \<Longrightarrow> sole s i p \<Longrightarrow> file_at s' q = Some i \<Longrightarrow> file_at s q = Some i"
  shows "keeps U s s'"
  unfolding keeps_def
proof (intro allI impI conjI)
  fix p i
  assume p: "framed U p"
  show "file_at s' p = file_at s p" by (rule assms(1) [OF p])
  assume i: "file_at s p = Some i"
  show "fs_data s' i = fs_data s i" by (rule assms(2) [OF p i])
  assume sl: "sole s i p"
  have "q = p" if "file_at s' q = Some i" for q
    using assms(3) [OF p sl that] sl unfolding sole_def by blast
  moreover have "file_at s' p = Some i" using assms(1) [OF p] i by simp
  ultimately show "sole s' i p" unfolding sole_def by blast
qed

lemma soleD: "sole s i p \<Longrightarrow> file_at s p = Some i" "sole s i p \<Longrightarrow> file_at s q = Some i \<Longrightarrow> q = p"
  unfolding sole_def by blast+

lemma keeps_new_file:
  assumes "tree_ok s" "\<not> framed U p"
  shows "keeps U s (new_file p s)"
proof (rule keepsI)
  fix q r i
  show "file_at (new_file p s) q = file_at s q" if "framed U q" using that assms(2) by (auto simp: fs_simps)
  show "fs_data (new_file p s) i = fs_data s i" if "file_at s q = Some i"
    using tree_okD(2) [OF assms(1) that] by (simp add: fs_simps)
  show "file_at s r = Some i" if "sole s i q" "file_at (new_file p s) r = Some i"
    using that(2) tree_okD(2) [OF assms(1) soleD(1) [OF that(1)]] by (simp add: fs_simps split: if_splits)
qed

lemma keeps_add_name:
  assumes "\<not> framed U p" "file_at s src = Some i" "\<not> framed U src"
  shows "keeps U s (add_name p i s)"
proof (rule keepsI)
  fix q r j
  show "file_at (add_name p i s) q = file_at s q" if "framed U q" using that assms(1) by (auto simp: fs_simps)
  show "file_at s r = Some j" if "framed U q" "sole s j q" "file_at (add_name p i s) r = Some j"
    using that soleD(2) [OF that(2), of src] assms(2,3) by (auto simp: fs_simps split: if_splits)
qed (simp add: fs_simps)

lemma keeps_del_name: "\<not> framed U p \<Longrightarrow> keeps U s (del_name p s)"
  by (rule keepsI) (auto simp: fs_simps split: if_splits)

lemma framed_below: "p \<noteq> [] \<Longrightarrow> \<not> framed U p \<Longrightarrow> prefix p q \<Longrightarrow> \<not> framed U q"
  unfolding framed_def list_ex_iff using prefix_order.trans by (fastforce simp: prefix_def hd_append)

lemma keeps_del_tree:
  assumes "p \<noteq> []" "\<not> framed U p"
  shows "keeps U s (del_tree ls p s)"
proof (rule keepsI)
  fix q i
  assume "framed U q"
  then have "\<not> prefix p q" using framed_below [OF assms] by blast
  then show "file_at (del_tree ls p s) q = file_at s q" by (simp add: fs_simps kept_def)
qed (simp_all add: fs_simps split: if_splits)

lemma keeps_same: "file_at s' = file_at s \<Longrightarrow> fs_data s' = fs_data s \<Longrightarrow> keeps U s s'"
  by (rule keepsI) simp_all

lemma framed_kept: "framed U p \<Longrightarrow> kept_place U p"
  by (simp add: framed_def kept_place_def)

lemma framed_stage [simp]: "\<not> framed U (''stage'' # r)"
  by (simp add: framed_def)

lemma framed_other [simp]: "\<not> framed U (entry_path L ns d @ r)" "\<not> framed U (entry_path L ns d)" "\<not> framed U (pathToBlob L d)"
  by (simp_all add: framed_def)

lemma safe_refl: "os_ok L U s \<Longrightarrow> safe L U s s"
  by (simp add: safe_def)

lemma kept_places [simp]:
  "kept_place U (entry_path L ns d @ r)" "kept_place U (pathToBlob L d)" "kept_place U (entry_path L ns d)"
  by (simp_all add: kept_place_def)

lemma fault_not_quiet: "fs_fault s n = Some f \<Longrightarrow> \<not> quiet s"
  unfolding quiet_def by auto

section \<open>Changes that publish nothing\<close>

lemma safe_frame:
  assumes s: "safe L U s0 s" and "tree_ok s'" "layout s'"
    and at: "\<And>p. kept_place U p \<Longrightarrow> file_at s' p = file_at s p"
    and data: "\<And>p i. kept_place U p \<Longrightarrow> file_at s p = Some i \<Longrightarrow> fs_data s' i = fs_data s i"
    and kp: "keeps U s s'"
    and "fs_fault s' = fs_fault s" "fs_try s' = fs_try s"
  shows "safe L U s0 s'"
proof -
  have kp: "keeps U s0 s'" using s kp keeps_trans [of U s0 s s'] by (simp add: safe_def)
  have ok: "os_ok L U s" using s by (simp add: safe_def)
  have "names_bytes L d (fs_data s' i) \<and> fs_data s' i \<in> sc_bytes U"
    if "dl_Validate L d = None" "file_at s' (pathToBlob L d) = Some i" for d i
    using that at [of "pathToBlob L d"] data [of "pathToBlob L d" i] os_okD(3) [OF ok] by simp
  moreover have "file_at s' (pathToBlob L d) = Some i"
    if "dl_Validate L d = None" "file_at s' (entry_path L ns d @ [''blob'']) = Some i" for ns d i
    using that at [of "pathToBlob L d"] at [of "entry_path L ns d @ [''blob'']"] os_okD(4) [OF ok] by simp
  ultimately have "os_ok L U s'" using assms(2,3) by (simp add: os_ok_def)
  moreover have "os_view L s' ns d = os_view L s ns d" for ns d
    using at [of "entry_path L ns d @ [''blob'']"] at [of "entry_path L ns d @ [''labels'']"]
      data [of "entry_path L ns d @ [''blob'']"] data [of "entry_path L ns d @ [''labels'']"]
    by (cases "file_at s (entry_path L ns d @ [''labels''])"; cases "file_at s (entry_path L ns d @ [''blob''])")
      (auto simp: os_view_def)
  ultimately show ?thesis using s assms(7,8) kp by (simp add: safe_def fun_eq_iff)
qed

lemma layout_same: "layout s \<Longrightarrow> (\<And>p. file_at s' p \<noteq> None \<Longrightarrow> file_at s p \<noteq> None \<or> file_place p) \<Longrightarrow>
   (\<And>p. is_dir s' p \<Longrightarrow> is_dir s p \<or> dir_place p) \<Longrightarrow> layout s'"
  unfolding layout_def by blast

lemma layout_tick [simp]: "layout (tick s) = layout s"
  by (simp add: layout_def)

lemma layout_touch [simp]: "layout (touch p t s) = layout s"
  by (simp add: layout_def)

lemma os_view_tick [simp]: "os_view L (tick s) = os_view L s" "os_view L (touch p t s) = os_view L s"
  by (simp_all add: os_view_def fun_eq_iff)

lemma keeps_tick [simp]: "keeps U s0 (tick s) = keeps U s0 s" "keeps U s0 (touch p t s) = keeps U s0 s"
  by (simp_all only: keeps_def sole_def tick_simps touch_simps)

lemma os_ok_tick [simp]: "os_ok L U (tick s) = os_ok L U s" "os_ok L U (touch p t s) = os_ok L U s"
  by (simp_all add: os_ok_def)

lemma safe_tick [simp]: "safe L U s0 (tick s) = safe L U s0 s"
  by (simp add: safe_def)

lemma safe_touch: "safe L U s0 s \<Longrightarrow> safe L U s0 (touch p t s)"
  by (simp add: safe_def)

lemma safe_new_file:
  assumes "safe L U s0 s" "\<not> exists_at s p" "is_dir s (butlast p)" "file_place p" "\<not> kept_place U p"
  shows "safe L U s0 (new_file p s)"
proof (rule safe_frame [OF assms(1)])
  show "tree_ok (new_file p s)"
    using assms(2-4) by (intro tree_ok_new_file safeD(2) [OF assms(1)]) (simp_all add: file_place_def)
  show "layout (new_file p s)"
    by (rule layout_same [OF safeD(3) [OF assms(1)]]) (auto simp: fs_simps assms(4) split: if_splits)
  fix q i
  show "file_at (new_file p s) q = file_at s q" if "kept_place U q" using that assms(5) by (auto simp: fs_simps)
  show "fs_data (new_file p s) i = fs_data s i" if "file_at s q = Some i"
    using tree_okD(2) [OF safeD(2) [OF assms(1)] that] by (simp add: fs_simps)
  show "keeps U s (new_file p s)"
    using assms(5) framed_kept by (intro keeps_new_file safeD(2) [OF assms(1)]) blast
qed (simp_all add: fs_simps)

lemma safe_add_dir:
  assumes "safe L U s0 s" "\<not> exists_at s p" "p \<noteq> [] \<longrightarrow> is_dir s (butlast p)" "dir_place p"
  shows "safe L U s0 (add_dir p s)"
proof (rule safe_frame [OF assms(1)])
  show "tree_ok (add_dir p s)" using assms(2,3) by (intro tree_ok_add_dir safeD(2) [OF assms(1)])
  show "keeps U s (add_dir p s)" by (rule keeps_same) (simp_all add: fs_simps)
  show "layout (add_dir p s)"
    by (rule layout_same [OF safeD(3) [OF assms(1)]]) (auto simp: fs_simps assms(4) split: if_splits)
qed (simp_all add: fs_simps)

lemma safe_write_at:
  assumes "safe L U s0 s" "sole s i p" "\<not> kept_place U p"
  shows "safe L U s0 (write_at i b s)"
proof (rule safe_frame [OF assms(1)])
  show "tree_ok (write_at i b s)" by (rule tree_ok_write_at [OF safeD(2) [OF assms(1)]])
  show "layout (write_at i b s)" using safeD(3) [OF assms(1)] by (simp add: layout_def fs_simps)
  show data: "fs_data (write_at i b s) j = fs_data s j" if "kept_place U q" "file_at s q = Some j" for q j
    using that assms(2,3) by (auto simp: fs_simps sole_def)
  show "keeps U s (write_at i b s)"
  proof (rule keepsI)
    show "fs_data (write_at i b s) j = fs_data s j" if "framed U q" "file_at s q = Some j" for q j
      by (rule data [OF framed_kept [OF that(1)] that(2)])
  qed (simp_all add: fs_simps)
qed (simp_all add: fs_simps)

lemma safe_add_name:
  assumes "safe L U s0 s" "\<not> exists_at s p" "is_dir s (butlast p)" "file_place p" "\<not> kept_place U p"
    and "file_at s src = Some i" "\<not> framed U src"
  shows "safe L U s0 (add_name p i s)"
proof (rule safe_frame [OF assms(1)])
  show "tree_ok (add_name p i s)"
    using assms(2-4) tree_okD(2) [OF safeD(2) [OF assms(1)] assms(6)]
    by (intro tree_ok_add_name safeD(2) [OF assms(1)]) (simp_all add: file_place_def)
  show "keeps U s (add_name p i s)" using assms(5-7) framed_kept by (intro keeps_add_name) blast+
  show "layout (add_name p i s)"
    by (rule layout_same [OF safeD(3) [OF assms(1)]]) (auto simp: fs_simps assms(4) split: if_splits)
  show "file_at (add_name p i s) q = file_at s q" if "kept_place U q" for q using that assms(5) by (auto simp: fs_simps)
qed (simp_all add: fs_simps)

lemma safe_del_name:
  assumes "safe L U s0 s" "\<not> kept_place U p"
  shows "safe L U s0 (del_name p s)"
proof (rule safe_frame [OF assms(1)])
  show "tree_ok (del_name p s)" by (rule tree_ok_del_name [OF safeD(2) [OF assms(1)]])
  show "layout (del_name p s)"
    by (rule layout_same [OF safeD(3) [OF assms(1)]]) (auto simp: fs_simps split: if_splits)
  show "file_at (del_name p s) q = file_at s q" if "kept_place U q" for q using that assms(2) by (auto simp: fs_simps)
  show "keeps U s (del_name p s)" using assms(2) framed_kept by (intro keeps_del_name) blast
qed (simp_all add: fs_simps)

lemma safe_del_dir:
  assumes "safe L U s0 s" "\<forall>q. strict_prefix p q \<longrightarrow> \<not> exists_at s q"
  shows "safe L U s0 (del_dir p s)"
proof (rule safe_frame [OF assms(1)])
  show "tree_ok (del_dir p s)" by (rule tree_ok_del_dir [OF safeD(2) [OF assms(1)] assms(2)])
  show "keeps U s (del_dir p s)" by (rule keeps_same) (simp_all add: fs_simps)
  show "layout (del_dir p s)"
    by (rule layout_same [OF safeD(3) [OF assms(1)]]) (auto simp: fs_simps split: if_splits)
qed (simp_all add: fs_simps)

lemma prefix_kept_place: "p \<noteq> [] \<Longrightarrow> prefix p q \<Longrightarrow> kept_place U q \<Longrightarrow> kept_place U p"
  using framed_below [of p U q] by (auto simp: kept_place_def prefix_def hd_append split: if_splits)

lemma safe_del_tree:
  assumes "safe L U s0 s" "\<not> kept_place U p" "p \<noteq> []"
  shows "safe L U s0 (del_tree ls p s)"
proof (rule safe_frame [OF assms(1)])
  show "tree_ok (del_tree ls p s)" by (rule tree_ok_del_tree [OF safeD(2) [OF assms(1)]])
  show "layout (del_tree ls p s)"
    by (rule layout_same [OF safeD(3) [OF assms(1)]]) (auto simp: fs_simps split: if_splits)
  show "file_at (del_tree ls p s) q = file_at s q" if "kept_place U q" for q
  proof -
    have "\<not> prefix p q" using that assms(2) prefix_kept_place [OF assms(3), of q U] by blast
    then show ?thesis by (simp add: fs_simps kept_def)
  qed
  show "keeps U s (del_tree ls p s)" using assms(2,3) framed_kept by (intro keeps_del_tree) blast+
qed (simp_all add: fs_simps)

section \<open>Directories on the way\<close>

lemma make_dirs_simps [fs_simps]:
  "file_at (make_dirs ps s) = file_at s" "fs_data (make_dirs ps s) = fs_data s" "fs_next (make_dirs ps s) = fs_next s"
  "fs_fault (make_dirs ps s) = fs_fault s" "fs_try (make_dirs ps s) = fs_try s"
  "is_dir (make_dirs ps s) p \<longleftrightarrow> is_dir s p \<or> p \<in> set ps"
  by (induction ps arbitrary: s) (auto simp: fs_simps)

lemma steps_snoc: "steps (p @ [c]) = steps p @ [p @ [c]]"
  unfolding steps_def by (simp del: upt_Suc add: upt_Suc_append)

lemma set_steps: "q \<in> set (steps p) \<longleftrightarrow> prefix q p"
proof
  assume "prefix q p"
  then have "q = take (length q) p" "length q < Suc (length p)"
    using prefix_length_le [of q p] by (auto simp: prefix_def)
  then show "q \<in> set (steps p)" unfolding steps_def by (auto simp del: upt_Suc)
qed (auto simp: steps_def take_is_prefix)

lemma dir_place_prefix: "prefix q p \<Longrightarrow> dir_place p \<Longrightarrow> dir_place q"
  by (auto simp: dir_place_def prefix_def hd_append nth_append split: if_splits)

text \<open>The directories are made from the root down, so each one lies in a directory.\<close>

lemma safe_make_dirs:
  assumes "safe L U s0 s" "\<forall>q. prefix q p \<longrightarrow> file_at s q = None" "dir_place p"
  shows "safe L U s0 (make_dirs (take n (steps p)) s)"
proof -
  have "safe L U s0 (make_dirs (steps p) s)" if "prefix p p'" "dir_place p" "\<forall>q. prefix q p' \<longrightarrow> file_at s q = None" for p p'
    using that
  proof (induction p rule: rev_induct)
    case Nil
    then show ?case
      using assms(1) safe_add_dir [of L U s0 s "[]"] by (auto simp: steps_def exists_at_def dir_place_def)
  next
    case (snoc c p)
    let ?s = "make_dirs (steps p) s"
    have m: "make_dirs (xs @ ys) s = make_dirs ys (make_dirs xs s)" for xs ys
      by (induction xs arbitrary: s) auto
    have "safe L U s0 ?s"
      using snoc dir_place_prefix [of p "p @ [c]"] by (metis append_prefixD prefix_snoc prefix_order.refl)
    then show ?case
      using snoc.prems safe_add_dir [of L U s0 ?s "p @ [c]"]
      by (auto simp: steps_snoc m fs_simps exists_at_def set_steps)
  qed note full = this
  have "take n (steps p) = steps (take (n - 1) p)" if n: "n \<noteq> 0"
  proof -
    obtain k where k: "n = Suc k" using n not0_implies_Suc by blast
    have u: "take (Suc k) [0..<Suc (length p)] = [0..<Suc (min (length p) k)]"
      by (cases "k \<le> length p") (simp_all add: take_upt min_def del: upt_Suc)
    have "map (\<lambda>n. take n p) [0..<Suc (min (length p) k)] = map (\<lambda>n. take n (take k p)) [0..<Suc (min (length p) k)]"
      by (rule map_cong [OF refl]) (auto simp: min_def split: if_splits)
    then show ?thesis unfolding k steps_def take_map u by (simp del: upt_Suc)
  qed
  then show ?thesis
    using assms full [of "take (n - 1) p" p] dir_place_prefix [OF take_is_prefix]
    by (cases "n = 0") (auto simp: take_is_prefix)
qed

lemma temp_name_fresh:
  "\<exists>x. temp_name dir pre s = dir @ [x] \<and> \<not> exists_at s (dir @ [x])"
proof -
  let ?m = "length (fs_files s) + length (fs_dirs s)"
  let ?f = "\<lambda>k. dir @ [pre @ nat_decimal (fs_rand s (fs_sys s) + k)]"
  let ?E = "fst ` set (fs_files s) \<union> fst ` set (fs_dirs s)"
  have inj: "inj ?f"
    by (intro injI) (metis add_left_cancel append1_eq_conv digits_val_decimal same_append_eq)
  have "card ?E \<le> ?m"
    by (meson add_mono card_Un_le card_image_le card_length finite_set order_trans)
  moreover have "card (?f ` {0..<Suc ?m}) = Suc ?m"
    using inj by (simp add: card_image inj_on_subset)
  ultimately have "\<not> ?f ` {0..<Suc ?m} \<subseteq> ?E"
    using card_mono [of ?E "?f ` {0..<Suc ?m}"] by force
  then obtain k where k: "k < Suc ?m" "\<not> exists_at s (?f k)"
    unfolding exists_at_def file_at_set is_dir_set image_subset_iff by fastforce
  then have "List.find (\<lambda>p. \<not> exists_at s p) (map ?f [0..<Suc ?m]) \<noteq> None"
    unfolding find_None_iff by (auto simp del: upt_Suc)
  then obtain p where p: "List.find (\<lambda>p. \<not> exists_at s p) (map ?f [0..<Suc ?m]) = Some p" by blast
  then have "\<not> exists_at s p" "p \<in> ?f ` {0..<Suc ?m}"
    unfolding find_Some_iff by (auto simp del: upt_Suc simp: in_set_conv_nth)
  with p show ?thesis unfolding temp_name_def Let_def by auto
qed

section \<open>Changes of what is kept\<close>

lemma entry_below:
  assumes "digest_lib_ok L" "dl_Validate L d = None" "dl_Validate L d' = None"
  shows "prefix (entry_path L ns d) (entry_path L ns' d' @ [f]) \<longleftrightarrow> ns' = ns \<and> d' = d"
proof -
  have "prefix (entry_path L ns d) (entry_path L ns' d' @ [f]) \<longleftrightarrow> entry_path L ns d = entry_path L ns' d'"
  proof
    assume "prefix (entry_path L ns d) (entry_path L ns' d' @ [f])"
    then have "prefix (entry_path L ns d) (entry_path L ns' d')" by (auto dest: arg_cong [of _ _ length])
    then show "entry_path L ns d = entry_path L ns' d'"
      using prefix_length_less [of "entry_path L ns d" "entry_path L ns' d'"] by (auto simp: strict_prefix_def)
  qed auto
  with entry_path_inj [OF assms, of ns ns'] show ?thesis by auto
qed

lemma blob_not_entry [simp]: "entry_path L ns d @ r \<noteq> pathToBlob L d'" "pathToBlob L d' \<noteq> entry_path L ns d @ r"
  by (simp_all add: entry_path_def pathToBlob_def Let_def)

lemma blob_not_below_entry [simp]: "\<not> prefix (entry_path L ns d) (pathToBlob L d')"
  by (auto simp: prefix_def)

text \<open>A verified blob becomes the shared one.\<close>

lemma safe_share:
  assumes "digest_lib_ok L" "safe L U s0 s" "dl_Validate L d = None" "names_bytes L d (fs_data s i)" "fs_data s i \<in> sc_bytes U"
    and "\<not> exists_at s (pathToBlob L d)" "is_dir s (butlast (pathToBlob L d))" "file_at s src = Some i" "\<not> framed U src"
  shows "safe L U s0 (add_name (pathToBlob L d) i s)" (is "safe L U s0 ?s'")
proof -
  have inext: "i < fs_next s" using tree_okD(2) [OF safeD(2) [OF assms(2)] assms(8)] by simp
  have kp: "keeps U s0 ?s'"
    using keeps_trans [OF _ keeps_add_name [OF _ assms(8,9)]] assms(2) by (simp add: safe_def)
  have ok: "os_ok L U s" using assms(2) by (simp add: safe_def)
  have at: "file_at s (pathToBlob L d) = None" using assms(6) by (simp add: exists_at_def)
  have "tree_ok ?s'" using assms(6,7) inext by (intro tree_ok_add_name os_okD(1) [OF ok]) simp_all
  moreover have "layout ?s'"
    by (rule layout_same [OF os_okD(2) [OF ok]]) (auto simp: fs_simps file_place_def split: if_splits)
  moreover have "names_bytes L d' (fs_data ?s' j) \<and> fs_data ?s' j \<in> sc_bytes U"
    if "dl_Validate L d' = None" "file_at ?s' (pathToBlob L d') = Some j" for d' j
    using that assms(4,5) os_okD(3) [OF ok that(1)] pathToBlob_inj [OF assms(1,3) that(1)]
    by (auto simp: fs_simps split: if_splits)
  moreover have "file_at ?s' (pathToBlob L d') = Some j"
    if "dl_Validate L d' = None" "file_at ?s' (entry_path L ns d' @ [''blob'']) = Some j" for ns d' j
    using that os_okD(4) [OF ok that(1), of ns j] at by (auto simp: fs_simps)
  ultimately have "os_ok L U ?s'" by (simp add: os_ok_def)
  moreover have "os_view L ?s' = os_view L s"
    by (simp add: os_view_def fs_simps fun_eq_iff)
  ultimately show ?thesis using assms(2) kp by (simp add: safe_def fs_simps)
qed

text \<open>The shared blob goes when nothing else names its inode.\<close>

lemma links_two:
  assumes "tree_ok s" "file_at s p = Some i" "file_at s q = Some i" "p \<noteq> q"
  shows "1 < links s i"
proof -
  let ?xs = "filter (\<lambda>x. snd x = i) (fs_files s)"
  have "{(p, i), (q, i)} \<subseteq> set ?xs" using assms(2,3) by (auto dest: map_of_SomeD)
  moreover have "distinct ?xs" using assms(1) by (simp add: tree_ok_def distinct_map)
  moreover have "card {(p, i), (q, i)} = 2" using assms(4) by simp
  ultimately have "2 \<le> length ?xs" using card_mono [of "set ?xs"] by (metis List.finite_set distinct_card)
  then show ?thesis by (simp add: links_def)
qed

lemma safe_unshare:
  assumes "digest_lib_ok L" "safe L U s0 s" "dl_Validate L d = None"
    and "file_at s (pathToBlob L d) = Some i" "links s i \<le> 1"
  shows "safe L U s0 (del_name (pathToBlob L d) s)" (is "safe L U s0 ?s'")
proof -
  have ok: "os_ok L U s" using assms(2) by (simp add: safe_def)
  have "tree_ok ?s'" by (rule tree_ok_del_name [OF os_okD(1) [OF ok]])
  moreover have "layout ?s'"
    by (rule layout_same [OF os_okD(2) [OF ok]]) (auto simp: fs_simps split: if_splits)
  moreover have "names_bytes L d' (fs_data ?s' j) \<and> fs_data ?s' j \<in> sc_bytes U"
    if "dl_Validate L d' = None" "file_at ?s' (pathToBlob L d') = Some j" for d' j
    using that os_okD(3) [OF ok that(1)] by (auto simp: fs_simps split: if_splits)
  moreover have "file_at ?s' (pathToBlob L d') = Some j"
    if "dl_Validate L d' = None" "file_at ?s' (entry_path L ns d' @ [''blob'']) = Some j" for ns d' j
  proof -
    have e: "file_at s (entry_path L ns d' @ [''blob'']) = Some j" using that(2) by (simp add: fs_simps)
    then have b: "file_at s (pathToBlob L d') = Some j" by (rule os_okD(4) [OF ok that(1)])
    have "d' \<noteq> d"
      using links_two [OF os_okD(1) [OF ok] e, of "pathToBlob L d'"] b assms(4,5) by auto
    then show ?thesis using b pathToBlob_inj [OF assms(1) that(1) assms(3)] by (simp add: fs_simps)
  qed
  ultimately have "os_ok L U ?s'" by (simp add: os_ok_def)
  moreover have "os_view L ?s' = os_view L s"
    by (simp add: os_view_def fs_simps fun_eq_iff)
  ultimately show ?thesis
    using assms(2) keeps_trans [OF _ keeps_del_name [of U "pathToBlob L d" s]] by (simp add: safe_def fs_simps)
qed

text \<open>Removing an entry, in whole or in part, touches no other.\<close>

lemma erase_entry:
  assumes "digest_lib_ok L" "os_ok L U s" "dl_Validate L d = None"
  shows "os_ok L U (del_tree ls (entry_path L ns d) s)" (is "os_ok L U ?s'")
    and "\<not> (ns' = ns \<and> d' = d) \<Longrightarrow> os_view L (del_tree ls (entry_path L ns d) s) ns' d' = os_view L s ns' d'"
proof -
  have "tree_ok ?s'" by (rule tree_ok_del_tree [OF os_okD(1) [OF assms(2)]])
  moreover have "layout ?s'"
    by (rule layout_same [OF os_okD(2) [OF assms(2)]]) (auto simp: fs_simps split: if_splits)
  moreover have k: "file_at ?s' (pathToBlob L d') = file_at s (pathToBlob L d')" for d'
    by (simp add: fs_simps kept_def)
  ultimately show "os_ok L U ?s'"
    using os_okD(3,4) [OF assms(2)] unfolding os_ok_def k
    by (simp add: del_tree_simps)
  assume other: "\<not> (ns' = ns \<and> d' = d)"
  show "os_view L ?s' ns' d' = os_view L s ns' d'"
  proof (cases "dl_Validate L d' = None")
    case True
    then have "file_at ?s' (entry_path L ns' d' @ [f]) = file_at s (entry_path L ns' d' @ [f])" for f
    proof -
      have "\<not> prefix (entry_path L ns d) (entry_path L ns' d' @ [f])"
        using other entry_below [OF assms(1,3) True, of ns ns' f] by blast
      then show ?thesis unfolding del_tree_simps kept_def by (rule if_P [OF disjI1])
    qed
    with True show ?thesis by (simp add: os_view_def del_tree_simps(3))
  qed (auto simp: os_view_def)
qed

lemma safe_leftover:
  assumes "digest_lib_ok L" "safe L U s0 s" "dl_Validate L d = None" "file_at s (entry_path L ns d @ [''blob'']) = None"
  shows "safe L U s0 (del_tree ls (entry_path L ns d) s)" (is "safe L U s0 ?s'")
proof -
  have ok: "os_ok L U s" using assms(2) by (simp add: safe_def)
  have "os_view L ?s' ns d = None" "os_view L s ns d = None"
    using assms(4) by (simp_all add: os_view_def fs_simps)
  then have "os_view L ?s' = os_view L s"
    using erase_entry(2) [OF assms(1) ok assms(3), of _ ns _ ls] by (intro ext) metis
  then show ?thesis
    using assms(2) erase_entry(1) [OF assms(1) ok assms(3)] keeps_trans [OF _ keeps_del_tree [of "entry_path L ns d" U s ls]]
    by (simp add: safe_def fs_simps)
qed

section \<open>Publication\<close>

text \<open>A staged directory with both files, and the blob shared, becomes an entry in one step.\<close>

text \<open>Where an entry is prepared: a directory of the stage, or that of the own upload.\<close>

definition staged_dir :: "scope \<Rightarrow> path \<Rightarrow> bool" where
  "staged_dir U ps \<longleftrightarrow>
     (\<exists>x. ps = [''stage'', x]) \<or> (\<exists>x. ps = [''uploads'', x, ''publish'']) \<and> ps \<in> set (sc_own U)"

lemma staged_dir_form:
  "staged_dir U ps \<Longrightarrow> \<not> prefix ps (entry_path L ns d @ r)" "staged_dir U ps \<Longrightarrow> \<not> prefix ps (entry_path L ns d)"
  "staged_dir U ps \<Longrightarrow> \<not> prefix ps (pathToBlob L d)" "staged_dir U ps \<Longrightarrow> ps \<noteq> []" "staged_dir U ps \<Longrightarrow> \<not> framed U (ps @ r)"
  "staged_dir U ps \<Longrightarrow> file_place (ps @ r) \<Longrightarrow> r \<noteq> [] \<Longrightarrow> length r = 1" "staged_dir U ps \<Longrightarrow> dir_place (ps @ r) \<Longrightarrow> r = []"
  by (auto simp: staged_dir_def prefix_def entry_path_def pathToBlob_def Let_def framed_def file_place_def dir_place_def list_ex_iff)

lemma publish_entry:
  assumes "digest_lib_ok L" "os_ok L U s" "dl_Validate L d = None" "staged_dir U ps" "is_dir s ps"
    and "file_at s (ps @ [''labels'']) = Some li" "file_at s (ps @ [''blob'']) = Some bi"
    and "file_at s (pathToBlob L d) = Some bi" "vacant s (entry_path L ns d)" "is_dir s (butlast (entry_path L ns d))"
  shows "os_ok L U (move_tree ps (entry_path L ns d) s)"
    and "os_view L (move_tree ps (entry_path L ns d) s) =
      (os_view L s)(ns := (os_view L s ns)(d \<mapsto> (fs_data s bi, Some (fs_data s li))))"
proof -
  let ?q = "entry_path L ns d"
  let ?s' = "move_tree ps ?q s"
  have np: "\<not> prefix ps ?q" "\<not> prefix ps (pathToBlob L d')" for d'
    using staged_dir_form [OF assms(4)] by blast+
  note at = file_at_move_tree [OF assms(9) np(1)] is_dir_move_tree [OF assms(9) np(1)]
  have "tree_ok ?s'"
    using staged_dir_form(4) [OF assms(4)] assms(5,9,10) np by (intro tree_ok_move_tree os_okD(1) [OF assms(2)]) simp_all
  moreover have lay: "layout ?s'"
  proof (rule layout_same [OF os_okD(2) [OF assms(2)]])
    fix y
    note l = os_okD(2) [OF assms(2)]
    assume "file_at ?s' y \<noteq> None"
    then show "file_at s y \<noteq> None \<or> file_place y"
    proof (cases "prefix ?q y")
      case True
      then obtain r where r: "y = ?q @ r" by (auto simp: prefix_def)
      with \<open>file_at ?s' y \<noteq> None\<close> obtain i where i: "file_at s (ps @ r) = Some i" by (auto simp: at)
      then have "r \<noteq> []" using tree_okD(2) [OF os_okD(1) [OF assms(2)] i] assms(5) by auto
      then have "length y = 7"
        using staged_dir_form(6) [OF assms(4) layoutD(1) [OF l i]] r by simp
      then show ?thesis using r by (simp add: file_place_def)
    qed (simp add: at split: if_splits)
  next
    fix y
    note l = os_okD(2) [OF assms(2)]
    assume "is_dir ?s' y"
    then show "is_dir s y \<or> dir_place y"
    proof (cases "prefix ?q y")
      case True
      then obtain r where r: "y = ?q @ r" by (auto simp: prefix_def)
      with \<open>is_dir ?s' y\<close> have "dir_place (ps @ r)" using layoutD(2) [OF l] by (simp add: at)
      then have "r = []" using staged_dir_form(7) [OF assms(4)] by blast
      then show ?thesis using r by (simp add: dir_place_def)
    qed (simp add: at)
  qed
  moreover have share: "file_at ?s' (pathToBlob L d') = file_at s (pathToBlob L d')" for d'
    using np(2) by (simp add: at)
  moreover have entry: "file_at ?s' (entry_path L ns' d' @ [f]) =
      (if ns' = ns \<and> d' = d then file_at s (ps @ [f]) else file_at s (entry_path L ns' d' @ [f]))"
    if "dl_Validate L d' = None" for ns' d' f
  proof -
    have "\<not> prefix ps (entry_path L ns' d' @ [f])" by (rule staged_dir_form(1) [OF assms(4)])
    then show ?thesis using entry_below [OF assms(1,3) that, of ns ns' f] by (auto simp: at)
  qed
  ultimately show "os_ok L U ?s'"
    using os_okD(3,4) [OF assms(2)] assms(7,8) unfolding os_ok_def
    by (auto simp: fs_simps split: if_splits)
  have "os_view L ?s' ns' d' = ((os_view L s)(ns := (os_view L s ns)(d \<mapsto> (fs_data s bi, Some (fs_data s li))))) ns' d'" for ns' d'
    using entry [of d' ns'] assms(3,6,7) by (cases "dl_Validate L d' = None") (auto simp: os_view_def fs_simps)
  then show "os_view L ?s' = (os_view L s)(ns := (os_view L s ns)(d \<mapsto> (fs_data s bi, Some (fs_data s li))))"
    by blast
qed

lemma keeps_move_tree:
  assumes "staged_dir U ps" "vacant s (entry_path L ns d)"
  shows "keeps U s (move_tree ps (entry_path L ns d) s)"
proof (rule keepsI)
  note at = file_at_move_tree [OF assms(2) staged_dir_form(2) [OF assms(1)]]
  fix p q i
  show "file_at (move_tree ps (entry_path L ns d) s) p = file_at s p" if "framed U p"
    using that staged_dir_form(5) [OF assms(1)] by (auto simp: at prefix_def)
  show "file_at s q = Some i" if "framed U p" "sole s i p" "file_at (move_tree ps (entry_path L ns d) s) q = Some i"
    using that soleD(2) [OF that(2)] staged_dir_form(5) [OF assms(1)] by (fastforce simp: at split: if_splits)
qed (simp add: fs_simps)

text \<open>A new labels file replaces the one of an entry.\<close>

lemma relabel_entry:
  assumes "digest_lib_ok L" "os_ok L U s" "dl_Validate L d = None" "p = [a, x]" "a = ''stage''"
    and "file_at s p = Some li" "file_at s (entry_path L ns d @ [''blob'']) = Some bi"
  shows "os_ok L U (move_file p (entry_path L ns d @ [''labels'']) li s)" (is "os_ok L U ?s'")
    and "os_view L (move_file p (entry_path L ns d @ [''labels'']) li s) =
      (os_view L s)(ns := (os_view L s ns)(d \<mapsto> (fs_data s bi, Some (fs_data s li))))"
proof -
  let ?q = "entry_path L ns d @ [''labels'']"
  have ne: "p \<noteq> ?q" "p \<noteq> pathToBlob L d'" "p \<noteq> entry_path L ns' d' @ [f]" for ns' d' f
    using assms(4,5) by (auto simp: entry_path_def pathToBlob_def Let_def)
  have dirs: "is_dir s (entry_path L ns d)"
    using tree_okD(1) [OF os_okD(1) [OF assms(2)] exists_file [OF assms(7)]] by simp
  have nd: "\<not> is_dir s ?q"
    using layoutD(2) [OF os_okD(2) [OF assms(2)], of ?q] by (auto simp: dir_place_def)
  have "tree_ok ?s'"
    using assms(6) dirs nd by (intro tree_ok_move_file os_okD(1) [OF assms(2)]) simp_all
  moreover have "layout ?s'"
    by (rule layout_same [OF os_okD(2) [OF assms(2)]]) (auto simp: fs_simps ne file_place_def split: if_splits)
  moreover have share: "file_at ?s' (pathToBlob L d') = file_at s (pathToBlob L d')" for d'
    using ne by (auto simp: fs_simps)
  moreover have entry: "file_at ?s' (entry_path L ns' d' @ [f]) =
      (if ns' = ns \<and> d' = d \<and> f = ''labels'' then Some li else file_at s (entry_path L ns' d' @ [f]))"
    if "dl_Validate L d' = None" for ns' d' f
    using entry_path_inj [OF assms(1) that assms(3), of ns' ns] ne by (auto simp: fs_simps)
  ultimately show "os_ok L U ?s'"
    using os_okD(3,4) [OF assms(2)] unfolding os_ok_def by (auto simp: fs_simps split: if_splits)
  have "os_view L ?s' ns' d' = ((os_view L s)(ns := (os_view L s ns)(d \<mapsto> (fs_data s bi, Some (fs_data s li))))) ns' d'" for ns' d'
    using entry [of d' ns'] assms(3,7) by (cases "dl_Validate L d' = None") (auto simp: os_view_def fs_simps)
  then show "os_view L ?s' = (os_view L s)(ns := (os_view L s ns)(d \<mapsto> (fs_data s bi, Some (fs_data s li))))"
    by blast
qed

lemma keeps_move_file:
  assumes "file_at s p = Some i" "\<not> framed U p" "\<not> framed U q" "p \<noteq> q"
  shows "keeps U s (move_file p q i s)"
proof (rule keepsI)
  fix r r' j
  show "file_at (move_file p q i s) r = file_at s r" if "framed U r" using that assms(2-4) by (auto simp: fs_simps)
  show "file_at s r' = Some j" if "framed U r" "sole s j r" "file_at (move_file p q i s) r' = Some j"
    using that soleD(2) [OF that(2), of p] assms by (auto simp: fs_simps split: if_splits)
qed (simp add: fs_simps)

end
