(* ===== verification/OsCalls.thy ===== *)
theory OsCalls
  imports OsInv
begin

text \<open>
  Total-correctness rules for the system calls, the lock and the small helpers of \<open>os.go\<close>, from
  assertions about the tree. Each rule says what holds after success, and that a failure has a
  reason in the tree or outside of it; \<open>bad\<close> is a state after a failure from outside.
\<close>

section \<open>One call\<close>

lemma returns_sys:
  assumes "\<And>s. P s \<Longrightarrow> fs_fault s (fs_sys s) = None \<Longrightarrow> Q (fst (ok s)) (tick (snd (ok s)))"
    and "\<And>s f. P s \<Longrightarrow> fs_fault s (fs_sys s) = Some f \<Longrightarrow> Q (Inl (ErrorString (f_msg f))) (tick (chg f s))"
  shows "returns P (sys ok chg) Q"
  unfolding returns_def sys_def using assms by (auto simp: split_beta split: option.splits)

definition bad :: "'h digest_lib \<Rightarrow> scope \<Rightarrow> osfs \<Rightarrow> osfs \<Rightarrow> bool" where
  "bad L U s0 s \<longleftrightarrow> safe L U s0 s \<and> \<not> quiet s0"

lemma bad_safe: "bad L U s0 s \<Longrightarrow> safe L U s0 s"
  by (simp add: bad_def)

lemma bad_tick [simp]: "bad L U s0 (tick s) = bad L U s0 s"
  by (simp add: bad_def)

lemma badI: "safe L U s0 s \<Longrightarrow> safe L U s0 s' \<Longrightarrow> fs_fault s n = Some f \<Longrightarrow> bad L U s0 s'"
  using fault_not_quiet safeD(5) unfolding bad_def by blast

definition ticked :: "(osfs \<Rightarrow> bool) \<Rightarrow> bool" where
  "ticked P \<longleftrightarrow> (\<forall>s n. P s \<longrightarrow> P (s\<lparr>fs_sys := n\<rparr>))"

lemma tickedD: "ticked P \<Longrightarrow> P s \<Longrightarrow> P (tick s)"
  by (simp add: ticked_def tick_def)

lemma sys_upd_simps [simp]:
  "is_dir (s\<lparr>fs_sys := n\<rparr>) = is_dir s" "exists_at (s\<lparr>fs_sys := n\<rparr>) = exists_at s" "tree_ok (s\<lparr>fs_sys := n\<rparr>) = tree_ok s"
  "os_ok L U (s\<lparr>fs_sys := n\<rparr>) = os_ok L U s" "keeps U s0 (s\<lparr>fs_sys := n\<rparr>) = keeps U s0 s" "os_view L (s\<lparr>fs_sys := n\<rparr>) = os_view L s"
  "safe L U s0 (s\<lparr>fs_sys := n\<rparr>) = safe L U s0 s" "sole (s\<lparr>fs_sys := n\<rparr>) = sole s" "quiet (s\<lparr>fs_sys := n\<rparr>) = quiet s"
proof -
  show d: "is_dir (s\<lparr>fs_sys := n\<rparr>) = is_dir s" by (simp add: is_dir_def fun_eq_iff)
  show e: "exists_at (s\<lparr>fs_sys := n\<rparr>) = exists_at s" by (simp add: exists_at_def d fun_eq_iff)
  show t: "tree_ok (s\<lparr>fs_sys := n\<rparr>) = tree_ok s" by (simp add: tree_ok_def d e)
  show o: "os_ok L U (s\<lparr>fs_sys := n\<rparr>) = os_ok L U s" by (simp add: os_ok_def t layout_def d)
  show v: "os_view L (s\<lparr>fs_sys := n\<rparr>) = os_view L s" by (simp add: os_view_def fun_eq_iff)
  have "file_at (s\<lparr>fs_sys := n\<rparr>) = file_at s" "fs_data (s\<lparr>fs_sys := n\<rparr>) = fs_data s" by simp_all
  then show k: "keeps U s0 (s\<lparr>fs_sys := n\<rparr>) = keeps U s0 s" unfolding keeps_def sole_def by (simp only:)
  show "safe L U s0 (s\<lparr>fs_sys := n\<rparr>) = safe L U s0 s" by (simp add: safe_def o v k)
  show "sole (s\<lparr>fs_sys := n\<rparr>) = sole s" by (simp add: sole_def fun_eq_iff)
  show "quiet (s\<lparr>fs_sys := n\<rparr>) = quiet s" by (simp add: quiet_def)
qed

text \<open>The calls that read the tree.\<close>

lemma returns_Stat:
  assumes "\<And>s. P s \<Longrightarrow> safe L U s0 s" "ticked P"
  shows "returns P (os_Stat p) (\<lambda>r s. case r of
     Inl err \<Rightarrow> P s \<and> (err = FsErrNotExist \<and> \<not> exists_at s p \<or> (\<exists>m. err = ErrorString m) \<and> \<not> quiet s0)
   | Inr st \<Rightarrow> P s \<and> (case st of FileNode i \<Rightarrow> file_at s p = Some i | DirNode _ \<Rightarrow> is_dir s p))"
  unfolding os_Stat_def
proof (rule returns_sys, goal_cases)
  case (1 s)
  then show ?case
    using tickedD [OF assms(2) 1(1)] by (auto simp: exists_at_def is_dir_def split: option.splits)
next
  case (2 s f)
  then show ?case
    using tickedD [OF assms(2) 2(1)] badI [OF assms(1) assms(1)] by (auto simp: bad_def)
qed

lemma returns_file_call:
  assumes "\<And>s. P s \<Longrightarrow> safe L U s0 s" "ticked P"
  shows "returns P file_call (\<lambda>r s. case r of Inl err \<Rightarrow> bad L U s0 s | Inr _ \<Rightarrow> P s)"
  unfolding file_call_def
proof (rule returns_sys, goal_cases)
  case (2 s f)
  then show ?case using badI [OF assms(1) assms(1)] by simp
qed (use tickedD [OF assms(2)] in simp)

lemma returns_file_Read:
  assumes "\<And>s. P s \<Longrightarrow> safe L U s0 s" "ticked P"
  shows "returns P (file_Read i) (\<lambda>r s. case r of Inl err \<Rightarrow> bad L U s0 s | Inr b \<Rightarrow> P s \<and> fs_data s i = b)"
  unfolding file_Read_def
proof (rule returns_sys, goal_cases)
  case (2 s f)
  then show ?case using badI [OF assms(1) assms(1)] by simp
qed (use tickedD [OF assms(2)] in simp)

text \<open>The calls that change it.\<close>

definition grown :: "osfs \<Rightarrow> osfs \<Rightarrow> bool" where
  "grown s s' \<longleftrightarrow> fs_files s' = fs_files s \<and> fs_data s' = fs_data s \<and> fs_next s' = fs_next s
     \<and> (\<forall>q. is_dir s q \<longrightarrow> is_dir s' q)"

lemma make_dirs_files: "fs_files (make_dirs ps s) = fs_files s"
  by (induction ps arbitrary: s) (simp_all add: add_dir_def)

lemma returns_MkdirAll:
  assumes "\<And>s. P s \<Longrightarrow> safe L U s0 s \<and> (\<forall>q. prefix q p \<longrightarrow> file_at s q = None)" "dir_place p"
    and "\<And>s s'. P s \<Longrightarrow> grown s s' \<Longrightarrow> safe L U s0 s' \<Longrightarrow> is_dir s' p \<Longrightarrow> Q s'"
  shows "returns P (os_MkdirAll p) (\<lambda>r s. case r of Inl err \<Rightarrow> bad L U s0 s | Inr _ \<Rightarrow> Q s)"
proof -
  have no: "\<not> list_ex (\<lambda>q. file_at s q \<noteq> None) (steps p)" if "P s" for s
    using assms(1) [OF that] by (auto simp: list_ex_iff set_steps)
  have g: "grown s (tick (make_dirs qs s))" for s qs
    by (auto simp: grown_def make_dirs_files fs_simps)
  have m: "safe L U s0 (make_dirs (take n (steps p)) s)" if "P s" for s n
    using assms(1) [OF that] assms(2) by (intro safe_make_dirs) blast+
  have all: "safe L U s0 (make_dirs (steps p) s)" if "P s" for s
    using m [OF that, of "length (steps p)"] by simp
  show ?thesis
    unfolding os_MkdirAll_def
  proof (rule returns_sys, goal_cases)
    case (1 s)
    then show ?case
      using no [OF 1(1)] assms(3) [OF 1(1) g] all [OF 1(1)] by (simp add: fs_simps set_steps)
  next
    case (2 s f)
    then show ?case using no [OF 2(1)] badI [of L U s0 s] assms(1) [OF 2(1)] m [OF 2(1)] by simp
  qed
qed

lemma returns_MkdirTemp:
  assumes "\<And>s. P s \<Longrightarrow> safe L U s0 s \<and> is_dir s dir" "\<And>x. dir_place (dir @ [x])"
    and "\<And>s x. P s \<Longrightarrow> \<not> exists_at s (dir @ [x]) \<Longrightarrow> safe L U s0 (add_dir (dir @ [x]) s) \<Longrightarrow>
      Q (dir @ [x]) (tick (add_dir (dir @ [x]) s))"
  shows "returns P (os_MkdirTemp dir pre) (\<lambda>r s. case r of Inl err \<Rightarrow> bad L U s0 s | Inr p \<Rightarrow> Q p s)"
  unfolding os_MkdirTemp_def
proof (rule returns_sys, goal_cases)
  case (1 s)
  obtain x where x: "temp_name dir pre s = dir @ [x]" "\<not> exists_at s (dir @ [x])"
    using temp_name_fresh by blast
  then show ?case
    using assms(1) [OF 1(1)] assms(3) [OF 1(1) x(2)] safe_add_dir [of L U s0 s "dir @ [x]"] assms(2) by (simp add: Let_def)
next
  case (2 s f)
  then show ?case using badI [of L U s0 s s] assms(1) [OF 2(1)] by simp
qed

lemma sole_new_file: "tree_ok s \<Longrightarrow> sole (new_file p s) (fs_next s) p"
  by (auto simp: sole_def fs_simps dest: tree_okD(2))

lemma returns_CreateTemp:
  assumes "\<And>s. P s \<Longrightarrow> safe L U s0 s \<and> is_dir s dir" "\<And>x. file_place (dir @ [x]) \<and> \<not> kept_place U (dir @ [x])"
    and "\<And>s x. P s \<Longrightarrow> \<not> exists_at s (dir @ [x]) \<Longrightarrow> safe L U s0 (new_file (dir @ [x]) s) \<Longrightarrow>
      sole (new_file (dir @ [x]) s) (fs_next s) (dir @ [x]) \<Longrightarrow>
      Q (dir @ [x], fs_next s) (tick (new_file (dir @ [x]) s))"
  shows "returns P (os_CreateTemp dir pre) (\<lambda>r s. case r of Inl err \<Rightarrow> bad L U s0 s | Inr tf \<Rightarrow> Q tf s)"
  unfolding os_CreateTemp_def
proof (rule returns_sys, goal_cases)
  case (1 s)
  obtain x where x: "temp_name dir pre s = dir @ [x]" "\<not> exists_at s (dir @ [x])"
    using temp_name_fresh by blast
  then show ?case
    using assms(1) [OF 1(1)] assms(3) [OF 1(1) x(2)] safe_new_file [of L U s0 s "dir @ [x]"] assms(2)
      sole_new_file [OF safeD(2) [of L U s0 s]] by (simp add: Let_def)
next
  case (2 s f)
  then show ?case using badI [of L U s0 s s] assms(1) [OF 2(1)] by simp
qed

lemma returns_Create:
  assumes "\<And>s. P s \<Longrightarrow> safe L U s0 s \<and> is_dir s (butlast p) \<and> \<not> exists_at s p" "file_place p" "\<not> kept_place U p"
    and "\<And>s. P s \<Longrightarrow> safe L U s0 (new_file p s) \<Longrightarrow> sole (new_file p s) (fs_next s) p \<Longrightarrow>
      Q (fs_next s) (tick (new_file p s))"
  shows "returns P (os_Create p) (\<lambda>r s. case r of Inl err \<Rightarrow> bad L U s0 s | Inr i \<Rightarrow> Q i s)"
  unfolding os_Create_def
proof (rule returns_sys, goal_cases)
  case (1 s)
  then show ?case
    using assms(1) [OF 1(1)] assms(4) [OF 1(1)] safe_new_file [of L U s0 s p] assms(2,3)
      sole_new_file [OF safeD(2) [of L U s0 s]] by (simp add: exists_at_def)
next
  case (2 s f)
  then show ?case using badI [of L U s0 s s] assms(1) [OF 2(1)] by simp
qed

lemma returns_file_Write:
  assumes "\<And>s. P s \<Longrightarrow> safe L U s0 s \<and> sole s i p" "\<not> kept_place U p"
    and "\<And>s. P s \<Longrightarrow> safe L U s0 (write_at i (fs_data s i @ b) s) \<Longrightarrow> Q (tick (write_at i (fs_data s i @ b) s))"
  shows "returns P (file_Write i b) (\<lambda>r s. case r of Inl err \<Rightarrow> bad L U s0 s | Inr _ \<Rightarrow> Q s)"
  unfolding file_Write_def
proof (rule returns_sys, goal_cases)
  case (1 s)
  then show ?case using assms(1) [OF 1(1)] assms(3) [OF 1(1)] safe_write_at [OF _ _ assms(2), of L s0 s i] by simp
next
  case (2 s f)
  then show ?case
    using badI [of L U s0 s "write_at i (fs_data s i @ take (f_count f) b) s"] assms(1) [OF 2(1)]
      safe_write_at [OF _ _ assms(2), of L s0 s i] by simp
qed

lemma returns_Link_stage:
  assumes "\<And>s. P s \<Longrightarrow> safe L U s0 s \<and> file_at s p \<noteq> None \<and> \<not> exists_at s q \<and> is_dir s (butlast q)"
    and "file_place q" "\<not> kept_place U q" "\<not> framed U p"
    and "\<And>s i. P s \<Longrightarrow> file_at s p = Some i \<Longrightarrow> safe L U s0 (add_name q i s) \<Longrightarrow> Q (tick (add_name q i s))"
  shows "returns P (os_Link p q) (\<lambda>r s. case r of Inl err \<Rightarrow> bad L U s0 s \<and> \<not> errors_Is err FsErrNotExist | Inr _ \<Rightarrow> Q s)"
  unfolding os_Link_def
proof (rule returns_sys, goal_cases)
  case (1 s)
  then obtain i where i: "file_at s p = Some i" using assms(1) by blast
  have "safe L U s0 (add_name q i s)"
    using assms(1) [OF 1(1)] by (intro safe_add_name [OF _ _ _ assms(2,3) i assms(4)]) auto
  then show ?case using i assms(1) [OF 1(1)] assms(5) [OF 1(1) i] by simp
next
  case (2 s f)
  then show ?case using badI [of L U s0 s s] assms(1) [OF 2(1)] by simp
qed

lemma returns_Link_share:
  assumes "digest_lib_ok L" "dl_Validate L d = None" "\<not> framed U p"
    and "\<And>s. P s \<Longrightarrow> safe L U s0 s \<and> file_at s (pathToBlob L d) = None \<and> is_dir s (butlast (pathToBlob L d))
      \<and> (\<exists>i. file_at s p = Some i \<and> names_bytes L d (fs_data s i) \<and> fs_data s i \<in> sc_bytes U)"
    and "\<And>s i. P s \<Longrightarrow> file_at s p = Some i \<Longrightarrow> safe L U s0 (add_name (pathToBlob L d) i s) \<Longrightarrow>
      Q (tick (add_name (pathToBlob L d) i s))"
  shows "returns P (os_Link p (pathToBlob L d)) (\<lambda>r s. case r of Inl err \<Rightarrow> bad L U s0 s | Inr _ \<Rightarrow> Q s)"
  unfolding os_Link_def
proof (rule returns_sys, goal_cases)
  case (1 s)
  obtain i where i: "file_at s p = Some i" "names_bytes L d (fs_data s i)" "fs_data s i \<in> sc_bytes U"
    using assms(4) [OF 1(1)] by blast
  have "\<not> is_dir s (pathToBlob L d)"
    using layoutD(2) [OF safeD(3), of L U s0 s "pathToBlob L d"] assms(4) [OF 1(1)] by (auto simp: dir_place_def)
  then have ne: "\<not> exists_at s (pathToBlob L d)" using assms(4) [OF 1(1)] by (simp add: exists_at_def)
  then have "safe L U s0 (add_name (pathToBlob L d) i s)"
    using i assms(4) [OF 1(1)] by (intro safe_share [OF assms(1) _ assms(2) _ _ _ _ i(1) assms(3)]) auto
  then show ?case using i(1) ne assms(4) [OF 1(1)] assms(5) [OF 1(1) i(1)] by simp
next
  case (2 s f)
  then show ?case using badI [of L U s0 s s] assms(4) [OF 2(1)] by simp
qed

lemma returns_Chtimes:
  assumes "\<And>s. P s \<Longrightarrow> safe L U s0 s \<and> exists_at s p" "\<And>s. P s \<Longrightarrow> P (tick (touch p t s))"
  shows "returns P (os_Chtimes p t) (\<lambda>r s. case r of Inl err \<Rightarrow> bad L U s0 s | Inr _ \<Rightarrow> P s)"
  unfolding os_Chtimes_def
proof (rule returns_sys, goal_cases)
  case (2 s f)
  then show ?case using badI [of L U s0 s s] assms(1) [OF 2(1)] by simp
qed (use assms in simp)

text \<open>Cleaning up: nothing that is kept is touched, whether or not the call fails.\<close>

lemma returns_drop_tree:
  assumes "\<And>s. P s \<Longrightarrow> safe L U s0 s" "p \<noteq> []" "\<not> kept_place U p"
  shows "returns P (drop_tree p) (\<lambda>_. safe L U s0)"
proof -
  have "returns P (os_RemoveAll p) (\<lambda>_. safe L U s0)"
    unfolding os_RemoveAll_def using assms(1) safe_del_tree [OF _ assms(3,2), of L s0] by (intro returns_sys) auto
  then show ?thesis unfolding drop_tree_def by (rule returns_bind) (simp add: returns_def ret_def)
qed

lemma safe_Remove:
  assumes "safe L U s0 s" "\<not> kept_place U p"
  shows "safe L U s0 (snd (if file_at s p \<noteq> None then (Inr (), del_name p s)
     else if \<not> is_dir s p then (Inl FsErrNotExist, s)
     else if list_ex (strict_prefix p) (map fst (fs_files s) @ map fst (fs_dirs s)) then (Inl ENOTEMPTY, s)
     else (Inr (), del_dir p s)))"
proof -
  have "\<forall>q. strict_prefix p q \<longrightarrow> \<not> exists_at s q"
    if "\<not> list_ex (strict_prefix p) (map fst (fs_files s) @ map fst (fs_dirs s))"
    using that unfolding exists_at_def file_at_set is_dir_set by (auto simp: list_ex_iff)
  then show ?thesis using safe_del_name [OF assms(1,2)] safe_del_dir [OF assms(1)] assms(1) by auto
qed

lemma returns_drop_file:
  assumes "\<And>s. P s \<Longrightarrow> safe L U s0 s" "\<not> kept_place U p"
  shows "returns P (drop_file p) (\<lambda>_. safe L U s0)"
proof -
  have "returns P (os_Remove p) (\<lambda>_. safe L U s0)"
    unfolding os_Remove_def using assms(1) safe_Remove [OF assms(1) assms(2)] by (intro returns_sys) simp_all
  then show ?thesis unfolding drop_file_def by (rule returns_bind) (simp add: returns_def ret_def)
qed

end
