(* ===== verification/OsPublish.thy ===== *)
theory OsPublish
  imports OsCalls
begin

text \<open>
  The lock and the publication of an entry, under every failure of every system call: a publication
  that fails has changed nothing that any namespace shows, and one that succeeds shows the whole entry.
\<close>

section \<open>The lock\<close>

text \<open>No lock is held for ever: some later attempt is answered with the lock or an error.\<close>

definition unblocked :: "osfs \<Rightarrow> bool" where
  "unblocked s \<longleftrightarrow> (\<forall>m. \<exists>n \<ge> m. fs_try s n \<noteq> Inr False)"

lemma quiet_unblocked: "quiet s \<Longrightarrow> unblocked s"
  by (auto simp: quiet_def unblocked_def)

lemma try_loop_returns:
  assumes "fs_sys s \<le> n" "fs_try s n \<noteq> Inr False"
  shows "\<exists>r ws' m. try_loop e k delay ws s = Some ((r, ws'), s\<lparr>fs_sys := m\<rparr>) \<and> (quiet s \<longrightarrow> r = Inr True)"
  using assms
proof (induction "n - fs_sys s" arbitrary: s k delay ws)
  case 0
  then have n: "fs_sys s = n" by simp
  then show ?case
    using 0 by (subst try_loop.simps) (auto simp: TryLock_def tick_def quiet_def split: sum.splits)
next
  case (Suc d)
  let ?s = "tick s"
  have "d = n - fs_sys ?s" "fs_sys ?s \<le> n" "fs_try ?s n \<noteq> Inr False" using Suc.hyps(2) Suc.prems by (simp_all add: tick_def)
  from Suc.hyps(1) [OF this] obtain r ws' m where
    "try_loop e (Suc k) (min (delay * 2) lockRetryMax) (ws @ [delay]) ?s = Some ((r, ws'), ?s\<lparr>fs_sys := m\<rparr>)"
    by blast
  then show ?case
    by (subst try_loop.simps)
      (auto simp: TryLock_def tick_def quiet_def split: sum.splits option.splits)
qed

definition stable :: "'h digest_lib \<Rightarrow> scope \<Rightarrow> osfs \<Rightarrow> (osfs \<Rightarrow> bool) \<Rightarrow> bool" where
  "stable L U s0 P \<longleftrightarrow>
     (\<forall>s. P s \<longrightarrow> safe L U s0 s) \<and> (\<forall>s s'. P s \<longrightarrow> grown s s' \<longrightarrow> safe L U s0 s' \<longrightarrow> P s')"

lemma stableD: "stable L U s0 P \<Longrightarrow> P s \<Longrightarrow> safe L U s0 s"
  "stable L U s0 P \<Longrightarrow> P s \<Longrightarrow> grown s s' \<Longrightarrow> safe L U s0 s' \<Longrightarrow> P s'"
  unfolding stable_def by blast+

text \<open>One step of a chain of calls, from the rule of the call.\<close>

lemma returns_step:
  assumes "returns P m (\<lambda>r s. case r of Inl err \<Rightarrow> E err s | Inr x \<Rightarrow> R x s)"
    and "\<And>err s. E err s \<Longrightarrow> Q (h err) s" and "\<And>x. returns (R x) (k x) Q"
  shows "returns P (chk m h k) Q"
  by (rule returns_chk [where R = R], rule returns_post [OF assms(1)]) (auto split: sum.splits intro: assms)

lemma stable_ticked: "stable L U s0 P \<Longrightarrow> ticked P"
  unfolding ticked_def
proof (intro allI impI)
  fix s n
  assume "stable L U s0 P" "P s"
  then show "P (s\<lparr>fs_sys := n\<rparr>)"
    using stableD(2) [of L U s0 P s "s\<lparr>fs_sys := n\<rparr>"] stableD(1) [of L U s0 P s] by (simp add: grown_def)
qed

lemma no_file_above:
  assumes "layout s" "prefix q p" "p \<noteq> [] \<longrightarrow> hd p = a" "dir_place p" "a \<in> {''share'', ''repos'', ''stage'', ''locks''}"
    and "a = ''stage'' \<longrightarrow> length p \<le> 1"
  shows "file_at s q = None"
proof (rule ccontr)
  assume "file_at s q \<noteq> None"
  then have f: "file_place q" using assms(1) layout_def by blast
  then obtain x xs where q: "q = x # xs" by (cases q) (auto simp: file_place_def)
  then obtain ys where p: "p = x # xs @ ys" using assms(2) by (auto simp: prefix_def)
  with assms(3) have "x = a" by simp
  with f q p assms(4-6) show False by (auto simp: file_place_def dir_place_def)
qed

lemma returns_MkdirAll_stable:
  assumes "stable L U s0 P" "dir_place p" "p \<noteq> []" "hd p \<in> {''share'', ''repos'', ''stage'', ''locks''}"
    and "hd p = ''stage'' \<longrightarrow> length p \<le> 1"
  shows "returns P (os_MkdirAll p) (\<lambda>r s. case r of Inl err \<Rightarrow> bad L U s0 s | Inr _ \<Rightarrow> P s \<and> is_dir s p)"
proof (rule returns_MkdirAll)
  show "safe L U s0 s \<and> (\<forall>q. prefix q p \<longrightarrow> file_at s q = None)" if "P s" for s
    using stableD(1) [OF assms(1) that] no_file_above [OF safeD(3)] assms(2-5) by blast
  show "P s' \<and> is_dir s' p" if "P s" "grown s s'" "safe L U s0 s'" "is_dir s' p" for s s'
    using stableD(2) [OF assms(1) that(1-3)] that(4) by blast
qed (rule assms(2))

lemma returns_ensureStagePath:
  assumes "stable L U s0 P"
  shows "returns P ensureStagePath
    (\<lambda>r s. case r of Inl err \<Rightarrow> bad L U s0 s | Inr ps \<Rightarrow> ps = [''stage''] \<and> P s \<and> is_dir s [''stage''])"
  unfolding ensureStagePath_def
  by (rule returns_step [OF returns_MkdirAll_stable [OF assms]]) (auto simp: dir_place_def returns_def ret_def)

lemma returns_lockBlob:
  assumes "stable L U s0 P" "unblocked s0"
  shows "returns P (lockBlob e d)
    (\<lambda>r s. case r of Inl err \<Rightarrow> safe L U s0 s \<and> \<not> (quiet s0 \<and> live e) | Inr _ \<Rightarrow> P s)"
proof -
  have new: "returns P (OsFileLocker_New d) (\<lambda>r s. case r of Inl err \<Rightarrow> bad L U s0 s | Inr _ \<Rightarrow> P s)"
    unfolding OsFileLocker_New_def
    by (rule returns_step [OF returns_MkdirAll_stable [OF assms(1)]]) (auto simp: dir_place_def returns_def ret_def)
  have lock: "returns P (OsFileLock_Lock e)
      (\<lambda>r s. case r of Inl err \<Rightarrow> safe L U s0 s \<and> \<not> (quiet s0 \<and> live e) | Inr _ \<Rightarrow> P s)"
  proof (rule returnsI)
    fix s
    assume P: "P s"
    have sf: "safe L U s0 s" by (rule stableD(1) [OF assms(1) P])
    then have tr: "fs_try s = fs_try s0" "quiet s = quiet s0" by (simp_all add: safe_def quiet_def)
    show "\<exists>r s'. OsFileLock_Lock e s = Some (r, s') \<and>
      (case r of Inl err \<Rightarrow> safe L U s0 s' \<and> \<not> (quiet s0 \<and> live e) | Inr _ \<Rightarrow> P s')"
    proof (cases "ctx_Err e 0")
      case None
      obtain n where "fs_sys s \<le> n" "fs_try s n \<noteq> Inr False"
        using assms(2) tr(1) by (auto simp: unblocked_def)
      from try_loop_returns [OF this, of e 1 lockRetryMin "[]"] obtain r ws m where
        r: "try_loop e 1 lockRetryMin [] s = Some ((r, ws), s\<lparr>fs_sys := m\<rparr>)" "quiet s \<longrightarrow> r = Inr True" by blast
      then show ?thesis
        using None P sf tr(2) stable_ticked [OF assms(1)]
        by (cases r) (auto simp: OsFileLock_Lock_def tryLockContext_def bind_def ret_def ticked_def)
    next
      case (Some err)
      then show ?thesis
        using sf by (auto simp: OsFileLock_Lock_def tryLockContext_def bind_def ret_def live_def)
    qed
  qed
  show ?thesis
    unfolding lockBlob_def
    by (rule returns_step [OF new], simp add: bad_def, rule returns_step [OF lock])
      (auto simp: returns_def ret_def)
qed

lemma returns_checkDup:
  assumes "\<And>s. P s \<Longrightarrow> safe L U s0 s" "ticked P"
  shows "returns P (checkDup p) (\<lambda>r s. case r of
     Inl err \<Rightarrow> P s \<and> (err = ErrAlreadyExists \<and> exists_at s p \<or> \<not> quiet s0)
   | Inr _ \<Rightarrow> P s \<and> \<not> exists_at s p)"
  unfolding checkDup_def
proof (rule returns_bind [OF returns_Stat [OF assms]], goal_cases)
  case (2 r)
  then show ?case by (cases r) (auto simp: returns_def ret_def split: node.splits)
qed simp

section \<open>A staged entry\<close>

text \<open>The bytes that the publication copies, on the inode of a temporary file.\<close>

definition source :: "nat \<Rightarrow> bytes \<Rightarrow> osfs \<Rightarrow> bool" where
  "source j c s \<longleftrightarrow> fs_data s j = c \<and> j < fs_next s"

definition labelled :: "path \<Rightarrow> bytes \<Rightarrow> osfs \<Rightarrow> bool" where
  "labelled ps lb s \<longleftrightarrow> is_dir s ps \<and> (\<exists>li. file_at s (ps @ [''labels'']) = Some li \<and> fs_data s li = lb)"

lemma staged_ticks [simp]:
  "sole (tick s) = sole s" "source j c (tick s) = source j c s" "labelled ps lb (tick s) = labelled ps lb s"
  by (simp_all add: sole_def source_def labelled_def fun_eq_iff)

lemma source_after:
  "source j c s \<Longrightarrow> source j c (new_file p s)" "source j c s \<Longrightarrow> i \<noteq> j \<Longrightarrow> source j c (write_at i b s)"
  "source j c s \<Longrightarrow> source j c (add_dir p s)" "source j c s \<Longrightarrow> source j c (add_name p i s)"
  by (auto simp: source_def fs_simps)

lemma labelled_new_file:
  assumes "labelled ps lb s" "tree_ok s" "p \<noteq> ps @ [''labels'']"
  shows "labelled ps lb (new_file p s)"
proof -
  obtain li where "file_at s (ps @ [''labels'']) = Some li" "fs_data s li = lb" "is_dir s ps"
    using assms(1) by (auto simp: labelled_def)
  moreover have "li < fs_next s" using tree_okD(2) [OF assms(2)] calculation(1) by blast
  ultimately show ?thesis using assms(3) by (auto simp: labelled_def fs_simps)
qed

lemma labelled_write_at:
  assumes "labelled ps lb s" "sole s i p" "p \<noteq> ps @ [''labels'']"
  shows "labelled ps lb (write_at i b s)"
proof -
  obtain li where li: "file_at s (ps @ [''labels'']) = Some li" "fs_data s li = lb" "is_dir s ps"
    using assms(1) by (auto simp: labelled_def)
  moreover have "li \<noteq> i" using assms(2,3) li(1) by (auto simp: sole_def)
  ultimately show ?thesis by (simp add: labelled_def fs_simps)
qed

lemma labelled_dir: "labelled ps lb s \<Longrightarrow> is_dir s ps"
  by (simp add: labelled_def)

lemma labelled_add_name: "labelled ps lb s \<Longrightarrow> p \<noteq> ps @ [''labels''] \<Longrightarrow> labelled ps lb (add_name p i s)"
  by (auto simp: labelled_def fs_simps)

lemmas staged_after = source_after labelled_new_file labelled_write_at labelled_add_name

lemma staged_places:
  "staged_dir U ps \<Longrightarrow> file_place (ps @ [f])" "staged_dir U ps \<Longrightarrow> \<not> kept_place U (ps @ r)" "staged_dir U ps \<Longrightarrow> \<not> kept_place U ps"
  "staged_dir U ps \<Longrightarrow> ps \<noteq> []" "staged_dir U ps \<Longrightarrow> ps @ [f] \<noteq> pathToBlob L d"
  by (auto simp: staged_dir_def file_place_def kept_place_def framed_def pathToBlob_def Let_def list_ex_iff prefix_def)

lemma returns_create_labels:
  assumes "staged_dir U ps"
  shows "returns (\<lambda>s. safe L U s0 s \<and> source j c s \<and> is_dir s ps \<and> (\<forall>f. \<not> exists_at s (ps @ [f])))
    (create_labels ps ls)
    (\<lambda>r s. case r of Inl err \<Rightarrow> bad L U s0 s
      | Inr _ \<Rightarrow> safe L U s0 s \<and> source j c s \<and> labelled ps (writeLabels ls) s \<and> \<not> exists_at s (ps @ [''blob'']))"
    (is "returns ?P _ ?Q")
proof -
  let ?p = "ps @ [''labels'']"
  let ?A = "\<lambda>i s. safe L U s0 s \<and> source j c s \<and> is_dir s ps \<and> sole s i ?p \<and> i \<noteq> j \<and> fs_data s i = []
    \<and> \<not> exists_at s (ps @ [''blob''])"
  let ?B = "\<lambda>s. safe L U s0 s \<and> source j c s \<and> labelled ps (writeLabels ls) s \<and> \<not> exists_at s (ps @ [''blob''])"
  have 1: "returns ?P (os_Create ?p) (\<lambda>r s. case r of Inl err \<Rightarrow> bad L U s0 s | Inr i \<Rightarrow> ?A i s)"
    using staged_places [OF assms]
    by (intro returns_Create) (auto simp: fs_simps source_def exists_at_def)
  have 2: "returns (?A i) (file_Write i (writeLabels ls)) (\<lambda>r s. case r of Inl err \<Rightarrow> bad L U s0 s | Inr _ \<Rightarrow> ?B s)" for i
    using staged_places [OF assms]
    by (intro returns_file_Write [where p = ?p]) (auto simp: fs_simps source_def labelled_def exists_at_def sole_def)
  have 3: "returns ?B file_call (\<lambda>r s. case r of Inl err \<Rightarrow> bad L U s0 s | Inr _ \<Rightarrow> ?B s)"
    by (rule returns_file_call) (auto simp: ticked_def source_def labelled_def)
  show ?thesis
    unfolding create_labels_def
    by (rule returns_step [OF 1], simp, rule returns_step [OF 2], simp, rule returns_step [OF 3])
      (auto simp: returns_def ret_def)
qed

definition complete :: "'h digest_lib \<Rightarrow> path \<Rightarrow> bytes \<Rightarrow> string \<Rightarrow> osfs \<Rightarrow> bool" where
  "complete L ps lb d s \<longleftrightarrow> labelled ps lb s
     \<and> (\<exists>bi. file_at s (ps @ [''blob'']) = Some bi \<and> file_at s (pathToBlob L d) = Some bi)"

text \<open>A way to read bytes that the digest names, from a temporary file that holds \<open>c\<close>.\<close>

definition reads :: "'h digest_lib \<Rightarrow> scope \<Rightarrow> osfs \<Rightarrow> nat \<Rightarrow> bytes \<Rightarrow> string \<Rightarrow> (osfs, error + bytes) go \<Rightarrow> bool" where
  "reads L U s0 j c d blob \<longleftrightarrow>
     (\<forall>P. ticked P \<longrightarrow> (\<forall>s. P s \<longrightarrow> safe L U s0 s \<and> source j c s) \<longrightarrow>
        returns P blob (\<lambda>r s. case r of Inl err \<Rightarrow> bad L U s0 s | Inr b \<Rightarrow> P s \<and> names_bytes L d b \<and> b \<in> sc_bytes U))"

lemma returns_stage_blob:
  assumes "digest_lib_ok L" "dl_Validate L d = None" "staged_dir U ps" "reads L U s0 j c d blob"
  shows "returns (\<lambda>s. safe L U s0 s \<and> source j c s \<and> labelled ps lb s \<and> \<not> exists_at s (ps @ [''blob'']))
    (stage_blob ps (pathToBlob L d) blob)
    (\<lambda>r s. case r of Inl err \<Rightarrow> bad L U s0 s | Inr _ \<Rightarrow> safe L U s0 s \<and> complete L ps lb d s)"
    (is "returns ?P _ ?Q")
proof -
  let ?p = "ps @ [''blob'']" and ?pd = "pathToBlob L d"
  let ?A = "\<lambda>i s. safe L U s0 s \<and> source j c s \<and> labelled ps lb s \<and> sole s i ?p \<and> fs_data s i = [] \<and> i \<noteq> j
    \<and> file_at s ?pd = None"
  let ?B = "\<lambda>s. safe L U s0 s \<and> labelled ps lb s \<and> file_at s ?pd = None
    \<and> (\<exists>i. file_at s ?p = Some i \<and> names_bytes L d (fs_data s i) \<and> fs_data s i \<in> sc_bytes U)"
  have link: "returns (\<lambda>s. ?P s \<and> file_at s ?pd \<noteq> None) (os_Link ?pd ?p) (\<lambda>r s. case r of
      Inl err \<Rightarrow> bad L U s0 s \<and> \<not> errors_Is err FsErrNotExist | Inr _ \<Rightarrow> safe L U s0 s \<and> complete L ps lb d s)"
    using staged_places [OF assms(3)]
    by (intro returns_Link_stage) (auto simp: fs_simps complete_def labelled_def)
  have c1: "returns (\<lambda>s. ?P s \<and> file_at s ?pd = None) (os_Create ?p)
      (\<lambda>r s. case r of Inl err \<Rightarrow> bad L U s0 s | Inr i \<Rightarrow> ?A i s)"
    using staged_places(1-4) [OF assms(3)] staged_places(5) [OF assms(3), of "''blob''" L d]
    by (intro returns_Create)
      (auto simp: fs_simps source_def intro!: labelled_new_file dest: safeD(2) labelled_dir)
  have c2: "returns (?A i) blob (\<lambda>r s. case r of Inl err \<Rightarrow> bad L U s0 s | Inr b \<Rightarrow> ?A i s \<and> names_bytes L d b \<and> b \<in> sc_bytes U)" for i
    by (rule assms(4) [unfolded reads_def, rule_format]) (auto simp: ticked_def source_def labelled_def)
  have c3: "returns (\<lambda>s. ?A i s \<and> names_bytes L d b \<and> b \<in> sc_bytes U) (file_Write i b)
      (\<lambda>r s. case r of Inl err \<Rightarrow> bad L U s0 s | Inr _ \<Rightarrow> ?B s)" for i b
  proof (rule returns_file_Write [where p = ?p])
    fix s
    assume s: "?A i s \<and> names_bytes L d b \<and> b \<in> sc_bytes U" "safe L U s0 (write_at i (fs_data s i @ b) s)"
    then have "labelled ps lb (write_at i (fs_data s i @ b) s)" "file_at s ?p = Some i"
      by (auto simp: sole_def intro: labelled_write_at)
    with s show "?B (tick (write_at i (fs_data s i @ b) s))" by (simp add: fs_simps)
  qed (use staged_places [OF assms(3)] in blast)+
  have c4: "returns ?B (os_MkdirAll (butlast ?pd))
      (\<lambda>r s. case r of Inl err \<Rightarrow> bad L U s0 s | Inr _ \<Rightarrow> ?B s \<and> is_dir s (butlast ?pd))"
    by (rule returns_MkdirAll_stable)
      (auto simp: stable_def grown_def labelled_def dir_place_def pathToBlob_def Let_def)
  have c5: "returns (\<lambda>s. ?B s \<and> is_dir s (butlast ?pd)) (os_Link ?p ?pd)
      (\<lambda>r s. case r of Inl err \<Rightarrow> bad L U s0 s | Inr _ \<Rightarrow> safe L U s0 s \<and> complete L ps lb d s)"
    using staged_places(1-4) [OF assms(3)] staged_places(5) [OF assms(3), of "''labels''" L d]
      staged_places(5) [OF assms(3), of "''blob''" L d] staged_dir_form(5) [OF assms(3)]
    by (intro returns_Link_share assms(1,2)) (auto simp: fs_simps complete_def intro!: labelled_add_name)
  have stat: "returns ?P (os_Stat ?pd) (\<lambda>r s. case r of
      Inl err \<Rightarrow> ?P s \<and> (err = FsErrNotExist \<and> \<not> exists_at s ?pd \<or> (\<exists>m. err = ErrorString m) \<and> \<not> quiet s0)
    | Inr st \<Rightarrow> ?P s \<and> (case st of FileNode i \<Rightarrow> file_at s ?pd = Some i | DirNode _ \<Rightarrow> is_dir s ?pd))"
    by (rule returns_Stat) (auto simp: ticked_def source_def labelled_def)
  have nodir: "\<not> is_dir s ?pd" if "safe L U s0 s" for s
    using layoutD(2) [OF safeD(3) [OF that], of ?pd] by (auto simp: dir_place_def)
  show ?thesis
    unfolding stage_blob_def Let_def
  proof (rule returns_bind [OF stat], goal_cases)
    case (1 r)
    show ?case
    proof (cases r)
      case (Inr st)
      have "returns (\<lambda>s. ?P s \<and> file_at s ?pd \<noteq> None)
          (chk (os_Link ?pd ?p) (\<lambda>err. Inl (Wrapped ''link blob'' err)) (\<lambda>_. ret (Inr ()))) ?Q"
        by (rule returns_step [OF link]) (auto simp: returns_def ret_def)
      then show ?thesis using Inr nodir by (cases st) (auto elim!: returns_pre)
    next
      case (Inl err)
      have "returns (\<lambda>s. ?P s \<and> file_at s ?pd = None)
         (chk (os_Create ?p) (\<lambda>err. Inl (Wrapped ''create blob'' err)) (\<lambda>bf.
          chk blob (\<lambda>err. Inl (Wrapped ''copy blob'' err)) (\<lambda>b.
          chk (file_Write bf b) (\<lambda>err. Inl (Wrapped ''copy blob'' err)) (\<lambda>_.
          chk (os_MkdirAll (butlast ?pd)) (\<lambda>err. Inl (Wrapped ''mkdir blob dir'' err)) (\<lambda>_.
          chk (os_Link ?p ?pd) (\<lambda>err. Inl (Wrapped ''link blob to global path'' err)) (\<lambda>_.
            ret (Inr ()))))))) ?Q"
        by (rule returns_step [OF c1], simp, rule returns_step [OF c2], simp, rule returns_step [OF c3], simp,
            rule returns_step [OF c4], simp, rule returns_step [OF c5]) (auto simp: returns_def ret_def)
      then show ?thesis
        using Inl by (auto elim!: returns_pre simp: exists_at_def returns_def ret_def bad_def)
    qed
  qed
qed

section \<open>Moving it into place\<close>

text \<open>The entry of one digest in one namespace is there, with all its bytes and labels; all else is as before.\<close>

definition published :: "'h digest_lib \<Rightarrow> scope \<Rightarrow> osfs \<Rightarrow> string \<Rightarrow> string \<Rightarrow> bytes \<Rightarrow> osfs \<Rightarrow> bool" where
  "published L U s0 ns d lb s \<longleftrightarrow>
     os_ok L U s \<and> keeps U s0 s \<and> fs_fault s = fs_fault s0 \<and> fs_try s = fs_try s0
     \<and> (\<exists>b. names_bytes L d b \<and> b \<in> sc_bytes U
          \<and> os_view L s = (os_view L s0)(ns := (os_view L s0 ns)(d \<mapsto> (b, Some lb))))"

definition ready :: "'h digest_lib \<Rightarrow> scope \<Rightarrow> osfs \<Rightarrow> path \<Rightarrow> bytes \<Rightarrow> string \<Rightarrow> string \<Rightarrow> osfs \<Rightarrow> bool" where
  "ready L U s0 ps lb ns d s \<longleftrightarrow>
     safe L U s0 s \<and> complete L ps lb d s \<and> file_at s (entry_path L ns d @ [''blob'']) = None"

lemma complete_tick [simp]: "complete L ps lb d (tick s) = complete L ps lb d s"
  by (simp add: complete_def)

lemma ready_grown: "ready L U s0 ps lb ns d s \<Longrightarrow> grown s s' \<Longrightarrow> safe L U s0 s' \<Longrightarrow> ready L U s0 ps lb ns d s'"
  by (auto simp: ready_def complete_def labelled_def grown_def)

lemma ready_safe: "ready L U s0 ps lb ns d s \<Longrightarrow> safe L U s0 s"
  by (simp add: ready_def)

lemma ready_tick [simp]: "ready L U s0 ps lb ns d (tick s) = ready L U s0 ps lb ns d s"
  by (simp add: ready_def)

lemma stable_ready: "stable L U s0 (ready L U s0 ps lb ns d)"
  unfolding stable_def by (blast intro: ready_grown ready_safe)

lemma stable_ready_dir: "stable L U s0 (\<lambda>s. ready L U s0 ps lb ns d s \<and> is_dir s q)"
  unfolding stable_def using grown_def by (blast intro: ready_grown ready_safe)

lemma entry_not_below_stage: "staged_dir U ps \<Longrightarrow> \<not> prefix ps (entry_path L ns d)" "staged_dir U ps \<Longrightarrow> \<not> prefix (entry_path L ns d) (ps @ r)"
  by (auto simp: staged_dir_def prefix_def entry_path_def Let_def)

lemma rename_entry:
  assumes "digest_lib_ok L" "dl_Validate L d = None" "staged_dir U ps"
  shows "returns (\<lambda>s. (ready L U s0 ps lb ns d s \<and> is_dir s (butlast (entry_path L ns d)))
      \<and> (B \<longrightarrow> \<not> exists_at s (entry_path L ns d)))
    (os_Rename ps (entry_path L ns d))
    (\<lambda>r s. case r of
       Inl err \<Rightarrow> (ready L U s0 ps lb ns d s \<and> is_dir s (butlast (entry_path L ns d)))
                   \<and> (quiet s0 \<longrightarrow> \<not> B \<and> exists_at s (entry_path L ns d))
     | Inr _ \<Rightarrow> published L U s0 ns d lb s)" (is "returns ?P _ _")
  unfolding os_Rename_def
proof (rule returns_sys, goal_cases)
  case (1 s)
  let ?q = "entry_path L ns d"
  have s: "safe L U s0 s" "complete L ps lb d s" "is_dir s (butlast ?q)" using 1(1) by (simp_all add: ready_def)
  then obtain li bi where f: "is_dir s ps" "file_at s (ps @ [''labels'']) = Some li" "fs_data s li = lb"
      "file_at s (ps @ [''blob'']) = Some bi" "file_at s (pathToBlob L d) = Some bi"
    by (auto simp: complete_def labelled_def)
  have nf: "file_at s ps = None" using tree_okD(2) [OF safeD(2) [OF s(1)], of ps] f(1) by (cases "file_at s ps") auto
  have nq: "file_at s ?q = None"
    using layoutD(1) [OF safeD(3) [OF s(1)], of ?q] by (cases "file_at s ?q") (auto simp: file_place_def)
  show ?case
  proof (cases "is_dir s ?q")
    case True
    then show ?thesis using 1(1) f(1) by auto
  next
    case False
    then have vac: "vacant s ?q" using nq by (intro vacantI [OF safeD(2) [OF s(1)]]) (simp add: exists_at_def)
    note P = publish_entry [OF assms(1) safeD(1) [OF s(1)] assms(2,3) f(1,2,4,5) vac s(3)]
      and K = keeps_trans [OF _ keeps_move_tree [OF assms(3) vac]]
    have "published L U s0 ns d lb (move_tree ps ?q s)"
      using P K os_okD(3) [OF safeD(1) [OF s(1)] assms(2) f(5)] s(1) f(3)
      by (auto simp: published_def safe_def fs_simps)
    then have "published L U s0 ns d lb (tick (move_tree ps ?q s))" by (simp add: published_def)
    then show ?thesis using False f(1) nf nq s(3) entry_not_below_stage(1) [OF assms(3), of L ns d] by simp
  qed
next
  case (2 s f)
  then have "\<not> quiet s0" using fault_not_quiet safeD(5) [of L U s0 s] by (auto simp: ready_def)
  then show ?case using 2(1) by simp
qed

lemma complete_del_tree:
  "staged_dir U ps \<Longrightarrow> complete L ps lb d s \<Longrightarrow> complete L ps lb d (del_tree ls (entry_path L ns d) s)"
  using entry_not_below_stage(2) [of U ps L ns d "[]"] entry_not_below_stage(2) [of U ps L ns d "[_]"]
  by (auto simp: complete_def labelled_def fs_simps kept_def)

lemma remove_leftover:
  assumes "digest_lib_ok L" "dl_Validate L d = None" "staged_dir U ps"
  shows "returns (\<lambda>s. ready L U s0 ps lb ns d s \<and> is_dir s (butlast (entry_path L ns d)))
    (os_RemoveAll (entry_path L ns d))
    (\<lambda>r s. case r of
       Inl err \<Rightarrow> bad L U s0 s
     | Inr _ \<Rightarrow> (ready L U s0 ps lb ns d s \<and> is_dir s (butlast (entry_path L ns d))) \<and> \<not> exists_at s (entry_path L ns d))"
proof -
  let ?q = "entry_path L ns d"
  have sf: "safe L U s0 (del_tree ls ?q s)" if "ready L U s0 ps lb ns d s" for s ls
    using that by (intro safe_leftover assms(1,2)) (auto simp: ready_def)
  have up: "kept ls ?q (butlast ?q)" for ls
    using prefix_length_le [of ?q "butlast ?q"] by (auto simp: kept_def)
  have rd: "ready L U s0 ps lb ns d (del_tree [] ?q s) \<and> is_dir (del_tree [] ?q s) (butlast ?q) \<and> \<not> exists_at (del_tree [] ?q s) ?q"
    if "ready L U s0 ps lb ns d s" "is_dir s (butlast ?q)" for s
    using that sf [OF that(1), of "[]"] complete_del_tree [OF assms(3), of L lb d s "[]" ns] up [of "[]"]
    by (auto simp: ready_def fs_simps exists_at_def kept_def)
  show ?thesis
    unfolding os_RemoveAll_def
  proof (rule returns_sys, goal_cases)
    case (1 s)
    then show ?case
      using rd [of s] by (auto simp: ready_def)
  next
    case (2 s f)
    then show ?case using sf [of s] badI [of L U s0 s] by (auto simp: ready_def)
  qed
qed

text \<open>
  Without failures two of the five attempts are enough: the first finds an orphaned directory, which
  is removed, and the second moves the entry into its place.
\<close>

lemma returns_move_attempts:
  assumes "digest_lib_ok L" "dl_Validate L d = None" "staged_dir U ps"
  shows "returns (\<lambda>s. (ready L U s0 ps lb ns d s \<and> is_dir s (butlast (entry_path L ns d)))
      \<and> (quiet s0 \<longrightarrow> (if exists_at s (entry_path L ns d) then 2 else 1) \<le> n))
    (move_attempts n ps (entry_path L ns d) err)
    (\<lambda>r s. case r of Inl err \<Rightarrow> bad L U s0 s | Inr _ \<Rightarrow> published L U s0 ns d lb s)"
proof (induction n arbitrary: err)
  case 0
  then show ?case by (auto simp: returns_def ret_def bad_def ready_def split: if_splits)
next
  case (Suc n)
  let ?q = "entry_path L ns d"
  let ?P = "\<lambda>s. ready L U s0 ps lb ns d s \<and> is_dir s (butlast ?q)"
  let ?Q = "\<lambda>r s. case r of Inl err \<Rightarrow> bad L U s0 s | Inr _ \<Rightarrow> published L U s0 ns d lb s"
  have again: "returns ?P (chk (os_RemoveAll ?q) (\<lambda>rmErr. Inl (Wrapped ''remove leftover repo dir'' rmErr)) (\<lambda>_.
      move_attempts n ps ?q err)) ?Q" if "quiet s0 \<longrightarrow> 1 \<le> n" for err
    by (rule returns_step [OF remove_leftover [OF assms]], simp, rule returns_pre [OF Suc.IH]) (use that in auto)
  have retry: "returns (\<lambda>s. ?P s \<and> (quiet s0 \<longrightarrow> exists_at s ?q))
      (bind (os_Stat ?q) (\<lambda>st. case st of
           Inl _ \<Rightarrow> ret (Inl (Wrapped ''move from stage to repo'' err))
         | Inr _ \<Rightarrow>
             chk (os_RemoveAll ?q) (\<lambda>rmErr. Inl (Wrapped ''remove leftover repo dir'' rmErr)) (\<lambda>_.
               move_attempts n ps ?q err))) ?Q" if n: "quiet s0 \<longrightarrow> 1 \<le> n" for err
  proof (rule returns_bind [OF returns_Stat [of _ L U s0]], goal_cases)
    case 1
    then show ?case by (simp add: ready_def)
  next
    case 2
    then show ?case using stable_ticked [OF stable_ready_dir] by (fastforce simp: ticked_def)
  next
    case (3 r)
    then show ?case
      using again [OF n, of err]
      by (cases r) (auto simp: returns_def ret_def bad_def ready_def split: node.splits)
  qed
  show ?case
  proof (cases "quiet s0 \<longrightarrow> 1 \<le> n")
    case True
    have ren: "returns (\<lambda>s. ?P s \<and> (quiet s0 \<longrightarrow> (if exists_at s ?q then 2 else 1) \<le> Suc n)) (os_Rename ps ?q)
        (\<lambda>r s. case r of Inl err \<Rightarrow> ?P s \<and> (quiet s0 \<longrightarrow> \<not> False \<and> exists_at s ?q) | Inr _ \<Rightarrow> published L U s0 ns d lb s)"
      by (rule returns_pre [OF rename_entry [OF assms]]) simp
    show ?thesis
      unfolding move_attempts.simps
    proof (rule returns_bind [OF ren], goal_cases)
      case (1 r)
      then show ?case using retry [OF True] by (cases r) (auto simp: returns_def ret_def)
    qed
  next
    case False
    have ren: "returns (\<lambda>s. ?P s \<and> (quiet s0 \<longrightarrow> (if exists_at s ?q then 2 else 1) \<le> Suc n)) (os_Rename ps ?q)
        (\<lambda>r s. case r of Inl err \<Rightarrow> ?P s \<and> (quiet s0 \<longrightarrow> \<not> True \<and> exists_at s ?q) | Inr _ \<Rightarrow> published L U s0 ns d lb s)"
      by (rule returns_pre [OF rename_entry [OF assms]]) (use False in \<open>auto split: if_splits\<close>)
    show ?thesis
      unfolding move_attempts.simps
    proof (rule returns_bind [OF ren], goal_cases)
      case (1 r)
      then show ?case using False by (cases r) (auto simp: returns_def ret_def)
    qed
  qed
qed

end
