(* ===== verification/OsSpec.thy ===== *)
theory OsSpec
  imports OsPublish Contract
begin

text \<open>
  What the operations of the directory store do, under every failure of every system call, to the
  entries that the namespaces show.
\<close>

section \<open>Publishing\<close>

lemma returns_pure: "(B \<Longrightarrow> returns P m Q) \<Longrightarrow> returns (\<lambda>s. P s \<and> B) m Q"
  by (auto simp: returns_def)

lemma returns_move_entry:
  assumes "digest_lib_ok L" "dl_Validate L d = None" "staged_dir U ps"
  shows "returns (ready L U s0 ps lb ns d) (move_entry msg e ps (entry_path L ns d))
    (\<lambda>r s. case r of Inl err \<Rightarrow> bad L U s0 s | Inr _ \<Rightarrow> published L U s0 ns d lb s)"
proof -
  let ?q = "entry_path L ns d"
  let ?P = "\<lambda>s. ready L U s0 ps lb ns d s \<and> is_dir s (butlast ?q)"
  let ?Q = "\<lambda>r s. case r of Inl err \<Rightarrow> bad L U s0 s | Inr _ \<Rightarrow> published L U s0 ns d lb s"
  have c1: "returns (ready L U s0 ps lb ns d) (os_MkdirAll (butlast ?q))
      (\<lambda>r s. case r of Inl err \<Rightarrow> bad L U s0 s | Inr _ \<Rightarrow> ?P s)"
    by (rule returns_MkdirAll_stable [OF stable_ready]) (auto simp: dir_place_def entry_path_def Let_def)
  have tch: "?P (tick (touch ps t s))" if "?P s" for t s
    using that by (auto simp: ready_def complete_def labelled_def safe_touch)
  have c2: "returns ?P (stampEntry e ps) (\<lambda>r s. case r of Inl err \<Rightarrow> bad L U s0 s | Inr _ \<Rightarrow> ?P s)"
    unfolding stampEntry_def Let_def
    by (rule returns_step [OF returns_Chtimes [of ?P L U s0 ps]])
      (use tch in \<open>auto simp: returns_def ret_def ready_def complete_def labelled_def\<close>)
  have c3: "returns ?P (moveStageToRepo ps ?q) ?Q"
    unfolding moveStageToRepo_def by (rule returns_pre [OF returns_move_attempts [OF assms]]) auto
  show ?thesis
    unfolding move_entry_def
    by (rule returns_step [OF c1], simp, rule returns_step [OF c2], simp, rule returns_step [OF c3])
      (auto simp: returns_def ret_def)
qed

lemma view_None: "dl_Validate L d = None \<Longrightarrow> os_view L s ns d = None \<longleftrightarrow> file_at s (entry_path L ns d @ [''blob'']) = None"
  by (simp add: os_view_def)

lemma blob_exists:
  assumes "layout s"
  shows "exists_at s (entry_path L ns d @ [f]) \<longleftrightarrow> file_at s (entry_path L ns d @ [f]) \<noteq> None"
  using layoutD(2) [OF assms, of "entry_path L ns d @ [f]"] by (auto simp: exists_at_def dir_place_def)

lemma returns_checkDup_entry:
  assumes "\<And>s. P s \<Longrightarrow> safe L U s0 s" "ticked P" "dl_Validate L d = None"
  shows "returns P (checkDup (entry_path L ns d @ [''blob''])) (\<lambda>r s. case r of
     Inl err \<Rightarrow> P s \<and> (err = ErrAlreadyExists \<and> os_view L s0 ns d \<noteq> None \<or> \<not> quiet s0)
   | Inr _ \<Rightarrow> P s \<and> os_view L s0 ns d = None)"
proof -
  have "exists_at s (entry_path L ns d @ [''blob'']) \<longleftrightarrow> os_view L s0 ns d \<noteq> None" if "P s" for s
    using blob_exists [OF safeD(3) [OF assms(1) [OF that]], of L ns d] view_None [OF assms(3), of s ns]
      safeD(4) [OF assms(1) [OF that]] by simp
  then show ?thesis
    by (intro returns_post [OF returns_checkDup [OF assms(1,2)]])
      (auto simp: view_None [OF assms(3)] simp del: not_None_eq split: sum.splits)
qed

definition refused :: "'h digest_lib \<Rightarrow> scope \<Rightarrow> osfs \<Rightarrow> string \<Rightarrow> env \<Rightarrow> string \<Rightarrow> error \<Rightarrow> osfs \<Rightarrow> bool" where
  "refused L U s0 ns e d err s \<longleftrightarrow>
     safe L U s0 s \<and> (err = ErrAlreadyExists \<and> os_view L s0 ns d \<noteq> None \<or> \<not> (quiet s0 \<and> live e))"

lemma bad_refused: "bad L U s0 s \<Longrightarrow> refused L U s0 ns e d err s"
  by (simp add: bad_def refused_def)

lemma stable_source: "stable L U s0 (\<lambda>s. safe L U s0 s \<and> source j c s)"
  by (auto simp: stable_def grown_def source_def)

lemma stable_source_dir: "stable L U s0 (\<lambda>s. (safe L U s0 s \<and> source j c s) \<and> is_dir s p)"
  by (auto simp: stable_def grown_def source_def)

text \<open>A fresh directory or file in the stage.\<close>

lemma returns_stage_dir:
  "returns (\<lambda>s. dir = [''stage''] \<and> (safe L U s0 s \<and> source j c s) \<and> is_dir s [''stage'']) (os_MkdirTemp dir pre)
     (\<lambda>r s. case r of Inl err \<Rightarrow> bad L U s0 s
       | Inr ps \<Rightarrow> staged_dir U ps \<and> safe L U s0 s \<and> source j c s \<and> is_dir s ps \<and> (\<forall>f. \<not> exists_at s (ps @ [f])))"
proof (cases "dir = [''stage'']")
  case True
  have "\<not> exists_at (add_dir ([''stage''] @ [x]) s) ([''stage''] @ [x] @ [f])"
    if "safe L U s0 s" "\<not> exists_at s ([''stage''] @ [x])" for s x f
  proof -
    have "\<not> exists_at s (([''stage''] @ [x]) @ [f])"
      using that(2) vacantI [OF safeD(2) [OF that(1)] that(2)] by (simp add: vacant_def)
    then show ?thesis by (simp add: exists_at_def fs_simps)
  qed
  then show ?thesis
    unfolding True
    by (intro returns_MkdirTemp) (auto simp: dir_place_def staged_dir_def source_def fs_simps)
qed (simp add: returns_def)

lemma returns_stage_file:
  "returns (\<lambda>s. dir = [''stage''] \<and> safe L U s0 s \<and> is_dir s [''stage'']) (os_CreateTemp dir pre)
     (\<lambda>r s. case r of Inl err \<Rightarrow> bad L U s0 s
       | Inr tf \<Rightarrow> (\<exists>x. fst tf = [''stage'', x]) \<and> safe L U s0 s \<and> sole s (snd tf) (fst tf) \<and> fs_data s (snd tf) = [])"
proof (cases "dir = [''stage'']")
  case True
  show ?thesis unfolding True
    by (intro returns_CreateTemp) (auto simp: file_place_def kept_place_def fs_simps)
qed (simp add: returns_def)

lemma stable_safe: "stable L U s0 (safe L U s0)"
  by (simp add: stable_def)

lemma returns_publish_staged:
  fixes m :: meta
  assumes "digest_lib_ok L" "dl_Validate L d = None" "staged_dir U ps" "reads L U s0 j c d blob" "os_view L s0 ns d = None"
    and "Digest m = d"
  shows "returns (\<lambda>s. safe L U s0 s \<and> source j c s \<and> is_dir s ps \<and> (\<forall>f. \<not> exists_at s (ps @ [f])))
    (publish_staged L e m blob (entry_path L ns d) ps)
    (\<lambda>r s. fst r = m \<and> (case snd r of None \<Rightarrow> published L U s0 ns d (writeLabels (Labels m)) s | Some err \<Rightarrow> bad L U s0 s))"
    (is "returns ?P _ ?Q")
proof -
  have rd: "ready L U s0 ps lb ns d s" if "safe L U s0 s \<and> complete L ps lb d s" for lb s
    using that view_None [OF assms(2), of s ns] safeD(4) [of L U s0 s] assms(5) by (simp add: ready_def)
  have c3: "returns (\<lambda>s. safe L U s0 s \<and> complete L ps lb d s) (move_entry ''mkdir repo'' e ps (entry_path L ns d))
      (\<lambda>r s. case r of Inl err \<Rightarrow> bad L U s0 s | Inr _ \<Rightarrow> published L U s0 ns d lb s)" for lb
    by (rule returns_pre [OF returns_move_entry [OF assms(1-3)] rd])
  let ?fails = "\<lambda>err. (m, Some err)"
  have body: "returns ?P
     (chk (create_labels ps (Labels m)) ?fails (\<lambda>_.
      chk (stage_blob ps (pathToBlob L d) blob) ?fails (\<lambda>_.
      chk (move_entry ''mkdir repo'' e ps (entry_path L ns d)) ?fails (\<lambda>_.
        ret (m, None))))) ?Q"
    by (rule returns_step [OF returns_create_labels [OF assms(3)]], simp,
        rule returns_step [OF returns_stage_blob [OF assms(1-4)]], simp, rule returns_step [OF c3])
      (auto simp: returns_def ret_def)
  show ?thesis
    unfolding publish_staged_def Let_def assms(6)
  proof (rule returns_deferred [OF body])
    fix r :: "meta \<times> error option"
    show "returns (\<lambda>s. fst r = m \<and> (case snd r of None \<Rightarrow> published L U s0 ns d (writeLabels (Labels m)) s | Some err \<Rightarrow> bad L U s0 s))
       (if snd r = None then ret () else drop_tree ps) (\<lambda>_. ?Q r)"
    proof (cases "snd r")
      case None
      then show ?thesis by (simp add: returns_def ret_def)
    next
      case (Some err)
      have "returns (bad L U s0) (drop_tree ps) (\<lambda>_. safe L U s0)"
        by (rule returns_drop_tree) (use staged_places [OF assms(3)] in \<open>auto simp: bad_def\<close>)
      then show ?thesis using Some by (auto simp: returns_def bad_def)
    qed
  qed
qed

lemma returns_publish:
  fixes m :: meta
  assumes "digest_lib_ok L" "dl_Validate L d = None" "unblocked s0" "reads L U s0 j c d blob" "Digest m = d"
  shows "returns (\<lambda>s. safe L U s0 s \<and> source j c s) (OsStore_publish L (OsStores_Use st ns) e m blob)
    (\<lambda>r s. fst r = m \<and> (case snd r of
       None \<Rightarrow> os_view L s0 ns d = None \<and> published L U s0 ns d (writeLabels (Labels m)) s
     | Some err \<Rightarrow> refused L U s0 ns e d err s))"
    (is "returns ?P _ ?Q")
proof -
  let ?fails = "\<lambda>err. (m, Some err)"
  let ?S = "\<lambda>ps s. staged_dir U ps \<and> safe L U s0 s \<and> source j c s \<and> is_dir s ps \<and> (\<forall>f. \<not> exists_at s (ps @ [f]))"
  have c2: "returns ?P (checkDup (entry_path L ns d @ [''blob''])) (\<lambda>r s. case r of
     Inl err \<Rightarrow> ?P s \<and> (err = ErrAlreadyExists \<and> os_view L s0 ns d \<noteq> None \<or> \<not> quiet s0)
   | Inr _ \<Rightarrow> ?P s \<and> os_view L s0 ns d = None)"
    by (rule returns_checkDup_entry [where U = U, OF _ stable_ticked [OF stable_source] assms(2)]) simp
  have c5: "returns (?S ps) (publish_staged L e m blob (entry_path L ns d) ps) ?Q" if v: "os_view L s0 ns d = None" for ps
  proof (cases "staged_dir U ps")
    case True
    show ?thesis
      by (rule returns_conseq [OF returns_publish_staged [OF assms(1,2) True assms(4) v assms(5)]])
        (auto simp: v intro: bad_refused split: option.splits)
  qed (simp add: returns_def)
  have rest: "returns ?P
      (chk ensureStagePath (\<lambda>err. ?fails (Wrapped ''ensure stage path'' err)) (\<lambda>ps.
       chk (os_MkdirTemp ps '''') (\<lambda>err. ?fails (Wrapped ''mkdir temp at stage'' err)) (\<lambda>ps.
         publish_staged L e m blob (entry_path L ns d) ps))) ?Q" if "os_view L s0 ns d = None"
    by (rule returns_step [OF returns_ensureStagePath [OF stable_source]], simp add: bad_refused,
        rule returns_step [OF returns_stage_dir], simp add: bad_refused, rule c5 [OF that])
  show ?thesis
    unfolding OsStore_publish_def Let_def assms(5) pathToRepo_Use butlast_snoc
    by (rule returns_step [OF returns_lockBlob [where U = U, OF stable_source assms(3)]], simp add: refused_def,
        rule returns_step [OF c2], (auto simp: refused_def)[1], rule returns_pure [OF rest])
qed

section \<open>Adding\<close>

text \<open>What a namespace shows, with the labels read from their file.\<close>

definition file_labels :: "bytes option \<Rightarrow> labels" where
  "file_labels b = (case b of None \<Rightarrow> None | Some x \<Rightarrow> (case readLabels x of Inl _ \<Rightarrow> None | Inr l \<Rightarrow> l))"

definition os_shows :: "'h digest_lib \<Rightarrow> string \<Rightarrow> osfs \<Rightarrow> store_view" where
  "os_shows L ns s d = map_option (\<lambda>x. (fst x, file_labels (snd x))) (os_view L s ns d)"

lemma os_shows_None [simp]: "os_shows L ns s d = None \<longleftrightarrow> os_view L s ns d = None"
  by (simp add: os_shows_def)

definition add_done ::
  "'h digest_lib \<Rightarrow> scope \<Rightarrow> osfs \<Rightarrow> string \<Rightarrow> env \<Rightarrow> add_outcome \<Rightarrow> labels \<Rightarrow> meta \<times> error option \<Rightarrow> osfs \<Rightarrow> bool" where
  "add_done L U s0 ns e out ls res s \<longleftrightarrow>
     (case snd res of
        None \<Rightarrow> (\<exists>d. out = Added d \<and> Digest (fst res) = d \<and> published L U s0 ns d (writeLabels ls) s)
      | Some err \<Rightarrow> safe L U s0 s \<and> (gives out res \<and> (\<forall>d. out \<noteq> Added d) \<or> \<not> (quiet s0 \<and> live e)))"

lemma bad_add_done: "bad L U s0 s \<Longrightarrow> add_done L U s0 ns e out ls (m, Some err) s"
  by (simp add: bad_def add_done_def)

lemma reads_file_Read:
  assumes "names_bytes L d b" "b \<in> sc_bytes U"
  shows "reads L U s0 j b d (file_Read j)"
  unfolding reads_def
proof (intro allI impI)
  fix P
  assume "ticked P" "\<forall>s. P s \<longrightarrow> safe L U s0 s \<and> source j b s"
  then show "returns P (file_Read j) (\<lambda>r s. case r of Inl err \<Rightarrow> bad L U s0 s | Inr b \<Rightarrow> P s \<and> names_bytes L d b \<and> b \<in> sc_bytes U)"
    using assms by (intro returns_post [OF returns_file_Read [of P L U s0]]) (auto simp: source_def split: sum.splits)
qed

text \<open>\<open>Add\<close> once the bytes are on the disk and their digest is known.\<close>

lemma returns_add_verified:
  fixes m :: meta
  assumes "digest_lib_ok L" "unblocked s0" "names_bytes L d b" "b \<in> sc_bytes U" "Digest m = d" "Labels m = ls"
  shows "returns (\<lambda>s. safe L U s0 s \<and> source j b s) (OsStore_publish L (OsStores_Use st ns) e m (file_Read j))
    (add_done L U s0 ns e (if os_view L s0 ns d = None then Added d else Duplicate d) ls)"
proof -
  have valid: "dl_Validate L d = None" using assms(3) by (simp add: names_bytes_def)
  show ?thesis
    by (rule returns_post [OF returns_publish [OF assms(1) valid assms(2) reads_file_Read [OF assms(3,4)] assms(5)]])
      (auto simp: add_done_def refused_def assms(5,6) split: option.splits)
qed

lemma returns_add_staged:
  fixes m :: meta
  assumes "digest_lib_ok L" "unblocked s0" "algo \<in> set algorithms" "io_Copy r = (b, rerr)" "b \<in> sc_bytes U"
    and "Digest m = '''' \<or> dl_Validate L (Digest m) = None \<and> dl_Algorithm L (Digest m) = algo" "tp = [''stage'', x]"
  shows "returns (\<lambda>s. safe L U s0 s \<and> sole s j tp \<and> fs_data s j = []) (add_staged L (OsStores_Use st ns) e algo m r (tp, j))
    (add_done L U s0 ns e
       (if rerr \<noteq> None then Failed
        else if Digest m \<noteq> '''' \<and> Digest m \<noteq> data_digest L algo b then Mismatch
        else if os_view L s0 ns (data_digest L algo b) = None then Added (data_digest L algo b)
        else Duplicate (data_digest L algo b)) (Labels m))"
    (is "returns ?P _ (add_done L U s0 ns e ?out _)")
proof -
  let ?d = "data_digest L algo b" and ?S = "\<lambda>s. safe L U s0 s \<and> source j b s"
  have named: "names_bytes L ?d b" by (rule names_bytes_data_digest [OF assms(1,3)])
  have valid: "dl_Validate L ?d = None" using named by (simp add: names_bytes_def)
  have c1: "returns ?P (file_Write j b) (\<lambda>r s. case r of Inl err \<Rightarrow> bad L U s0 s | Inr _ \<Rightarrow> ?S s)"
    by (rule returns_file_Write [where p = tp])
      (auto simp: assms(7) kept_place_def source_def fs_simps sole_def dest: tree_okD(2) [OF safeD(2)])
  have c2: "returns ?S file_call (\<lambda>r s. case r of Inl err \<Rightarrow> bad L U s0 s | Inr _ \<Rightarrow> ?S s)"
    by (rule returns_file_call [OF _ stable_ticked [OF stable_source]]) simp
  have dup: "returns ?S (checkDup (entry_path L ns ?d @ [''blob''])) (\<lambda>r s. case r of
     Inl err \<Rightarrow> ?S s \<and> (err = ErrAlreadyExists \<and> os_view L s0 ns ?d \<noteq> None \<or> \<not> quiet s0)
   | Inr _ \<Rightarrow> ?S s \<and> os_view L s0 ns ?d = None)"
    by (rule returns_checkDup_entry [where U = U, OF _ stable_ticked [OF stable_source] valid]) simp
  note pub = returns_add_verified [OF assms(1,2) named assms(5), where ls = "Labels m" and st = st and e = e and j = j and ns = ns]
  show ?thesis
    unfolding add_staged_def assms(4) prod.case snd_conv Let_def pathToRepo_Use
  proof (rule returns_step [OF c1], simp add: bad_add_done, cases rerr, goal_cases)
    case (1 u)
    show ?case
    proof (cases "Digest m = ''''")
      case True
      have "returns ?S (chk (checkDup (entry_path L ns ?d @ [''blob'']))
             (\<lambda>err. (m\<lparr>Size := int (length b), Digest := ?d\<rparr>, Some err)) (\<lambda>_.
             OsStore_publish L (OsStores_Use st ns) e (m\<lparr>Size := int (length b), Digest := ?d\<rparr>) (file_Read j)))
           (add_done L U s0 ns e ?out (Labels m))"
        using 1 True
        by (intro returns_step [OF dup] returns_pure returns_post [OF pub]) (auto simp: add_done_def)
      then show ?thesis
        using 1 True by (auto intro!: returns_step [OF c2] simp: bad_add_done)
    next
      case False
      have "returns ?S (OsStore_publish L (OsStores_Use st ns) e (m\<lparr>Size := int (length b)\<rparr>) (file_Read j))
           (add_done L U s0 ns e ?out (Labels m))" if "Digest m = ?d"
        using 1 False that by (intro returns_post [OF pub]) auto
      then show ?thesis
        using 1 False
        by (auto intro!: returns_step [OF c2] simp: bad_add_done) (auto simp: returns_def ret_def add_done_def)
    qed
  next
    case (2 u err)
    then show ?case by (auto simp: returns_def ret_def add_done_def)
  qed
qed

lemma safe_trans: "safe L U s0 s \<Longrightarrow> safe L U s s' \<Longrightarrow> safe L U s0 s'"
  using keeps_trans [of U s0 s s'] by (simp add: safe_def)

lemma published_trans: "published L U s0 ns d lb s \<Longrightarrow> safe L U s s' \<Longrightarrow> published L U s0 ns d lb s'"
  using keeps_trans [of U s0 s s'] by (auto simp: safe_def published_def)

lemma returns_drop_file_keep:
  assumes "\<And>s. P s \<Longrightarrow> os_ok L U s" "\<And>s s'. P s \<Longrightarrow> safe L U s s' \<Longrightarrow> P s'" "\<not> kept_place U p"
  shows "returns P (drop_file p) (\<lambda>_. P)"
proof (rule returnsI)
  fix s
  assume P: "P s"
  have "returns (\<lambda>x. x = s) (drop_file p) (\<lambda>_. safe L U s)"
    by (rule returns_drop_file) (use safe_refl [OF assms(1) [OF P]] assms(3) in auto)
  then show "\<exists>r s'. drop_file p s = Some (r, s') \<and> P s'"
    using assms(2) [OF P] unfolding returns_def by blast
qed

lemma returns_drop_tree_keep:
  assumes "\<And>s. P s \<Longrightarrow> os_ok L U s" "\<And>s s'. P s \<Longrightarrow> safe L U s s' \<Longrightarrow> P s'" "\<not> kept_place U p" "p \<noteq> []"
  shows "returns P (drop_tree p) (\<lambda>_. P)"
proof (rule returnsI)
  fix s
  assume P: "P s"
  have "returns (\<lambda>x. x = s) (drop_tree p) (\<lambda>_. safe L U s)"
    by (rule returns_drop_tree) (use safe_refl [OF assms(1) [OF P]] assms(3,4) in auto)
  then show "\<exists>r s'. drop_tree p s = Some (r, s') \<and> P s'"
    using assms(2) [OF P] unfolding returns_def by blast
qed

lemma add_done_ok: "add_done L U s0 ns e out ls res s \<Longrightarrow> os_ok L U s"
  by (auto simp: add_done_def published_def safe_def split: option.splits)

lemma add_done_trans: "add_done L U s0 ns e out ls res s \<Longrightarrow> safe L U s s' \<Longrightarrow> add_done L U s0 ns e out ls res s'"
  by (auto simp: add_done_def intro: safe_trans published_trans split: option.splits)

lemma returns_add_temp:
  fixes m :: meta
  assumes "digest_lib_ok L" "unblocked s0" "algo \<in> set algorithms" "io_Copy r = (b, rerr)" "b \<in> sc_bytes U"
    and "Digest m = '''' \<or> dl_Validate L (Digest m) = None \<and> dl_Algorithm L (Digest m) = algo"
  shows "returns (safe L U s0) (add_temp L (OsStores_Use st ns) e algo m r)
    (add_done L U s0 ns e
       (if rerr \<noteq> None then Failed
        else if Digest m \<noteq> '''' \<and> Digest m \<noteq> data_digest L algo b then Mismatch
        else if os_view L s0 ns (data_digest L algo b) = None then Added (data_digest L algo b)
        else Duplicate (data_digest L algo b)) (Labels m))"
    (is "returns _ _ (add_done L U s0 ns e ?out _)")
proof -
  let ?T = "\<lambda>tf s. (\<exists>x. fst tf = [''stage'', x]) \<and> safe L U s0 s \<and> sole s (snd tf) (fst tf) \<and> fs_data s (snd tf) = []"
  have c3: "returns (?T tf) (deferred (add_staged L (OsStores_Use st ns) e algo m r tf) (\<lambda>_. drop_file (fst tf)))
      (add_done L U s0 ns e ?out (Labels m))" for tf
  proof (cases "\<exists>x. fst tf = [''stage'', x]")
    case True
    then obtain x where x: "fst tf = [''stage'', x]" by blast
    have body: "returns (?T tf) (add_staged L (OsStores_Use st ns) e algo m r tf) (add_done L U s0 ns e ?out (Labels m))"
      by (rule returns_pre [OF returns_add_staged [OF assms x, where j = "snd tf", unfolded prod.collapse]]) blast
    show ?thesis
      by (rule returns_deferred [OF body returns_drop_file_keep [where L = L and U = U]])
        (auto simp: x kept_place_def intro: add_done_ok add_done_trans)
  qed (auto simp: returns_def)
  show ?thesis
    unfolding add_temp_def
    by (rule returns_step [OF returns_ensureStagePath [OF stable_safe]], simp add: bad_add_done,
        rule returns_step [OF returns_stage_file], simp add: bad_add_done, rule c3)
qed

lemma returns_Add:
  fixes m :: meta
  assumes "digest_lib_ok L" "unblocked s0" "fst (io_Copy r) \<in> sc_bytes U"
  shows "returns (safe L U s0) (OsStore_Add L (OsStores_Use st ns) e m r)
    (add_done L U s0 ns e (add_outcome L (os_shows L ns s0) m r) (Labels m))"
proof -
  obtain b rerr where cp: "io_Copy r = (b, rerr)" by (cases "io_Copy r")
  with assms(3) have b: "b \<in> sc_bytes U" by simp
  let ?v = "os_view L s0 ns"
  show ?thesis
  proof (cases "Digest m = ''''")
    case True
    have "add_outcome L (os_shows L ns s0) m r = (if rerr \<noteq> None then Failed
        else if Digest m \<noteq> '''' \<and> Digest m \<noteq> data_digest L Canonical b then Mismatch
        else if ?v (data_digest L Canonical b) = None then Added (data_digest L Canonical b)
        else Duplicate (data_digest L Canonical b))"
      using True by (simp add: add_outcome_def cp Let_def del: not_None_eq)
    with returns_add_temp [OF assms(1,2) Canonical_algorithm cp b, of m st ns e] True show ?thesis
      by (simp add: OsStore_Add_def)
  next
    case False
    show ?thesis
    proof (cases "dl_Validate L (Digest m)")
      case (Some err)
      then have "add_outcome L (os_shows L ns s0) m r = Failed" using False by (simp add: add_outcome_def)
      then show ?thesis
        using False Some by (auto simp: OsStore_Add_def Sanitize_invalid returns_def ret_def add_done_def)
    next
      case None
      let ?algo = "dl_Algorithm L (Digest m)"
      have algo: "?algo \<in> set algorithms" by (rule Validate_parts(1) [OF assms(1) None])
      note temp = returns_add_temp [OF assms(1,2) algo cp b, of m st ns e]
      have dup: "returns (safe L U s0) (checkDup (entry_path L ns (Digest m) @ [''blob''])) (\<lambda>r s. case r of
         Inl err \<Rightarrow> safe L U s0 s \<and> (err = ErrAlreadyExists \<and> ?v (Digest m) \<noteq> None \<or> \<not> quiet s0)
       | Inr _ \<Rightarrow> safe L U s0 s \<and> ?v (Digest m) = None)"
        by (rule returns_checkDup_entry [where U = U, OF _ _ None]) (simp_all add: ticked_def)
      have out: "add_outcome L (os_shows L ns s0) m r = (if ?v (Digest m) \<noteq> None then Duplicate (Digest m)
          else if rerr \<noteq> None then Failed
          else if Digest m \<noteq> '''' \<and> Digest m \<noteq> data_digest L ?algo b then Mismatch
          else if ?v (data_digest L ?algo b) = None then Added (data_digest L ?algo b)
          else Duplicate (data_digest L ?algo b))"
        using False None by (auto simp: add_outcome_def cp Let_def simp del: not_None_eq)
      have run: "OsStore_Add L (OsStores_Use st ns) e m r =
          chk (checkDup (entry_path L ns (Digest m) @ [''blob''])) (\<lambda>err. (m, Some err)) (\<lambda>_.
            add_temp L (OsStores_Use st ns) e ?algo m r)"
        using False assms(1) None by (simp add: OsStore_Add_def Sanitize_valid Digest_Algorithm_def Let_def)
      show ?thesis
        unfolding run
      proof (rule returns_step [OF dup])
        show "add_done L U s0 ns e (add_outcome L (os_shows L ns s0) m r) (Labels m) (m, Some err) s"
          if "safe L U s0 s \<and> (err = ErrAlreadyExists \<and> ?v (Digest m) \<noteq> None \<or> \<not> quiet s0)" for err s
          using that by (auto simp: add_done_def out simp del: not_None_eq)
        show "returns (\<lambda>s. safe L U s0 s \<and> ?v (Digest m) = None) (add_temp L (OsStores_Use st ns) e ?algo m r)
           (add_done L U s0 ns e (add_outcome L (os_shows L ns s0) m r) (Labels m))" for x
        proof (rule returns_pure)
          assume "?v (Digest m) = None"
          with temp None show "returns (safe L U s0) (add_temp L (OsStores_Use st ns) e ?algo m r)
             (add_done L U s0 ns e (add_outcome L (os_shows L ns s0) m r) (Labels m))"
            by (simp add: out del: not_None_eq)
        qed
      qed
    qed
  qed
qed

section \<open>Relabelling\<close>

text \<open>Exactly one entry is changed.\<close>

definition changed ::
  "'h digest_lib \<Rightarrow> scope \<Rightarrow> osfs \<Rightarrow> string \<Rightarrow> string \<Rightarrow> (bytes \<times> bytes option) option \<Rightarrow> osfs \<Rightarrow> bool" where
  "changed L U s0 ns d x s \<longleftrightarrow>
     os_ok L U s \<and> keeps U s0 s \<and> fs_fault s = fs_fault s0 \<and> fs_try s = fs_try s0
     \<and> os_view L s = (os_view L s0)(ns := (os_view L s0 ns)(d := x))"

lemma changed_trans: "changed L U s0 ns d x s \<Longrightarrow> safe L U s s' \<Longrightarrow> changed L U s0 ns d x s'"
  using keeps_trans [of U s0 s s'] by (simp add: safe_def changed_def)

definition label_done ::
  "'h digest_lib \<Rightarrow> scope \<Rightarrow> osfs \<Rightarrow> string \<Rightarrow> string \<Rightarrow> labels \<Rightarrow> error option \<Rightarrow> osfs \<Rightarrow> bool" where
  "label_done L U s0 ns d ls res s \<longleftrightarrow>
     (case res of
        None \<Rightarrow> (\<exists>x. os_view L s0 ns d = Some x \<and> changed L U s0 ns d (Some (fst x, Some (writeLabels ls))) s)
      | Some err \<Rightarrow> safe L U s0 s \<and> (err = ErrNotExist \<and> os_view L s0 ns d = None \<or> \<not> quiet s0))"

lemma bad_label_done: "bad L U s0 s \<Longrightarrow> label_done L U s0 ns d ls (Some err) s"
  by (simp add: bad_def label_done_def)

lemma label_done_keep:
  "label_done L U s0 ns d ls res s \<Longrightarrow> os_ok L U s"
  "label_done L U s0 ns d ls res s \<Longrightarrow> safe L U s s' \<Longrightarrow> label_done L U s0 ns d ls res s'"
  by (auto simp: label_done_def intro: safe_trans changed_trans safeD(1) split: option.splits) (auto simp: changed_def)

lemma returns_rename_labels:
  assumes "digest_lib_ok L" "dl_Validate L d = None" "tp = [''stage'', x]" "os_view L s0 ns d \<noteq> None"
  shows "returns (\<lambda>s. safe L U s0 s \<and> file_at s tp = Some li \<and> fs_data s li = writeLabels ls)
    (os_Rename tp (entry_path L ns d @ [''labels'']))
    (\<lambda>r s. case r of Inl err \<Rightarrow> bad L U s0 s \<and> \<not> errors_Is err FsErrNotExist | Inr _ \<Rightarrow> label_done L U s0 ns d ls None s)"
  unfolding os_Rename_def
proof (rule returns_sys, goal_cases)
  case (1 s)
  let ?q = "entry_path L ns d @ [''labels'']"
  have s: "safe L U s0 s" and tp: "file_at s tp = Some li" "fs_data s li = writeLabels ls" using 1(1) by simp_all
  note ok = safeD(1) [OF s]
  obtain bi where bi: "file_at s (entry_path L ns d @ [''blob'']) = Some bi"
    using assms(4) view_None [OF assms(2), of s ns] safeD(4) [OF s] by auto
  have dir: "is_dir s (entry_path L ns d)" using tree_okD(1) [OF os_okD(1) [OF ok] exists_file [OF bi]] by simp
  have nq: "\<not> is_dir s ?q" using blob_exists [OF os_okD(2) [OF ok], of L ns d "''labels''"] layoutD(2) [OF os_okD(2) [OF ok], of ?q]
    by (auto simp: dir_place_def)
  have ne: "tp \<noteq> ?q" using assms(3) by (auto simp: entry_path_def Let_def)
  have v: "os_view L s0 ns d = Some (fs_data s bi, map_option (fs_data s) (file_at s ?q))"
    using safeD(4) [OF s, symmetric] bi assms(2) by (simp add: os_view_def)
  have "label_done L U s0 ns d ls None (tick (move_file tp ?q li s))"
    using relabel_entry [OF assms(1) ok assms(2,3) refl tp(1) bi] s tp(2) v keeps_trans [OF _ keeps_move_file [OF tp(1) _ _ ne, of U]] assms(3)
    by (auto simp: label_done_def changed_def safe_def fs_simps)
  then show ?case using nq ne dir tp(1) by simp
next
  case (2 s f)
  then show ?case using badI [of L U s0 s s] by simp
qed

lemma returns_Label:
  assumes "digest_lib_ok L"
  shows "returns (safe L U s0) (OsStore_Label L (OsStores_Use st ns) e d ls) (label_done L U s0 ns d ls)"
proof (cases "dl_Validate L d")
  case (Some err)
  then show ?thesis
    by (auto simp: OsStore_Label_def Sanitize_invalid returns_def ret_def label_done_def os_view_def)
next
  case None
  let ?v = "os_view L s0 ns d"
  let ?T = "\<lambda>tf s. (\<exists>x. fst tf = [''stage'', x]) \<and> safe L U s0 s \<and> sole s (snd tf) (fst tf) \<and> fs_data s (snd tf) = []"
  let ?W = "\<lambda>tf s. safe L U s0 s \<and> file_at s (fst tf) = Some (snd tf) \<and> fs_data s (snd tf) = writeLabels ls"
  have stat: "returns (safe L U s0) (os_Stat (entry_path L ns d @ [''blob''])) (\<lambda>r s. case r of
      Inl err \<Rightarrow> safe L U s0 s \<and> (err = FsErrNotExist \<and> ?v = None \<or> (\<exists>m. err = ErrorString m) \<and> \<not> quiet s0)
    | Inr _ \<Rightarrow> safe L U s0 s \<and> ?v \<noteq> None)"
  proof (rule returns_post [OF returns_Stat [of "safe L U s0" L U s0]], goal_cases)
    case (3 r s)
    have "safe L U s0 s" using 3 by (auto split: sum.splits)
    then have "exists_at s (entry_path L ns d @ [''blob'']) \<longleftrightarrow> ?v \<noteq> None"
      using blob_exists [OF safeD(3), of L U s0 s L ns d] view_None [OF None, of s ns] safeD(4) [of L U s0 s] by simp
    with 3 show ?case by (auto simp: exists_at_def split: sum.splits node.splits)
  qed (simp_all add: ticked_def)
  have body: "returns (?T tf) (label_staged ls (entry_path L ns d @ [''labels'']) tf) (label_done L U s0 ns d ls)"
    if v: "?v \<noteq> None" for tf
  proof (cases "\<exists>x. fst tf = [''stage'', x]")
    case True
    then obtain x where x: "fst tf = [''stage'', x]" by blast
    have w: "returns (?T tf) (file_Write (snd tf) (writeLabels ls)) (\<lambda>r s. case r of Inl err \<Rightarrow> bad L U s0 s | Inr _ \<Rightarrow> ?W tf s)"
      by (rule returns_file_Write [where p = "fst tf"]) (auto simp: x kept_place_def fs_simps sole_def)
    have cl: "returns (?W tf) file_call (\<lambda>r s. case r of Inl err \<Rightarrow> bad L U s0 s | Inr _ \<Rightarrow> ?W tf s)"
      by (rule returns_file_call) (auto simp: ticked_def)
    show ?thesis
      unfolding label_staged_def
      by (rule returns_deferred [OF _ returns_drop_file_keep [where L = L and U = U]],
          rule returns_step [OF w], simp add: bad_label_done, rule returns_step [OF cl], simp add: bad_label_done,
          rule returns_step [OF returns_rename_labels [OF assms None x v]])
        (auto simp: bad_label_done returns_def ret_def x kept_place_def intro: label_done_keep)
  qed (auto simp: returns_def)
  have rest: "returns (safe L U s0)
      (chk ensureStagePath (\<lambda>err. Some (Wrapped ''ensure stage path'' err)) (\<lambda>ps.
       chk (os_CreateTemp ps '''') (\<lambda>err. Some (Wrapped ''create temp at stage'' err)) (\<lambda>tf.
         label_staged ls (entry_path L ns d @ [''labels'']) tf))) (label_done L U s0 ns d ls)" if "?v \<noteq> None"
    by (rule returns_step [OF returns_ensureStagePath [OF stable_safe]], simp add: bad_label_done,
        rule returns_step [OF returns_stage_file], simp add: bad_label_done, rule body [OF that])
  show ?thesis
    unfolding OsStore_Label_def Sanitize_valid [OF assms None] sum.case pathToRepo_Use
    by (rule returns_step [OF stat], auto simp: label_done_def simp del: not_None_eq)[1]
      (rule returns_pure [OF rest])
qed

section \<open>Erasing\<close>

text \<open>No shared blob stands that nothing else refers to.\<close>

definition reclaimed :: "'h digest_lib \<Rightarrow> string \<Rightarrow> osfs \<Rightarrow> bool" where
  "reclaimed L d s \<longleftrightarrow> (\<forall>i. file_at s (pathToBlob L d) = Some i \<longrightarrow> 1 < links s i)"

lemma reclaimed_tick [simp]: "reclaimed L d (tick s) = reclaimed L d s"
  by (simp add: reclaimed_def)

lemma returns_nlink:
  "returns (safe L U s0) (nlink (pathToBlob L d)) (\<lambda>r s. case r of
     Inl err \<Rightarrow> safe L U s0 s \<and> (file_at s (pathToBlob L d) = None \<or> \<not> quiet s0)
   | Inr n \<Rightarrow> safe L U s0 s \<and> (\<exists>i. file_at s (pathToBlob L d) = Some i \<and> links s i = n))"
proof -
  have nd: "\<not> is_dir s (pathToBlob L d)" if "safe L U s0 s" for s
    using layoutD(2) [OF safeD(3) [OF that], of "pathToBlob L d"] by (auto simp: dir_place_def)
  have stat: "returns (safe L U s0) (os_Stat (pathToBlob L d)) (\<lambda>r s. case r of
      Inl err \<Rightarrow> safe L U s0 s \<and> (file_at s (pathToBlob L d) = None \<or> \<not> quiet s0)
    | Inr st \<Rightarrow> safe L U s0 s \<and> (\<exists>i. st = FileNode i \<and> file_at s (pathToBlob L d) = Some i))"
    by (rule returns_post [OF returns_Stat [of "safe L U s0" L U s0]])
      (use nd in \<open>auto simp: ticked_def exists_at_def split: sum.splits node.splits\<close>)
  show ?thesis
    unfolding nlink_def
    by (rule returns_step [OF stat]) (auto simp: returns_def ret_def bind_def gets_def)
qed

lemma returns_remove_shared:
  assumes "digest_lib_ok L" "dl_Validate L d = None"
  shows "returns (\<lambda>s. safe L U s0 s \<and> (\<exists>i. file_at s (pathToBlob L d) = Some i \<and> links s i \<le> 1))
    (os_Remove (pathToBlob L d))
    (\<lambda>r s. safe L U s0 s \<and> (quiet s0 \<longrightarrow> reclaimed L d s))"
  unfolding os_Remove_def
proof (rule returns_sys, goal_cases)
  case (1 s)
  then obtain i where i: "file_at s (pathToBlob L d) = Some i" "links s i \<le> 1" "safe L U s0 s" by blast
  then show ?case
    using safe_unshare [OF assms(1) i(3) assms(2) i(1,2)] by (simp add: reclaimed_def fs_simps)
next
  case (2 s f)
  then show ?case using fault_not_quiet [of s] safeD(5) [of L U s0 s] by auto
qed

lemma returns_tryCleanup:
  assumes "digest_lib_ok L" "dl_Validate L d = None" "unblocked s0"
  shows "returns (safe L U s0) (tryCleanup L t e d)
    (\<lambda>r s. safe L U s0 s \<and> (quiet s0 \<longrightarrow> live e \<longrightarrow> reclaimed L d s))" (is "returns _ _ ?Q")
proof -
  let ?pb = "pathToBlob L d"
  have rm: "returns (\<lambda>s. safe L U s0 s \<and> (\<exists>i. file_at s ?pb = Some i \<and> links s i = n))
      (if n > 1 then ret (Inr False)
       else bind (os_Remove ?pb) (\<lambda>r. case r of
              Inl err \<Rightarrow> if errors_Is err FsErrNotExist then ret (Inr True)
                          else ret (Inl (Wrapped ''remove blob'' err))
            | Inr _ \<Rightarrow> ret (Inr True))) ?Q" for n
  proof (cases "n > 1")
    case True
    then show ?thesis by (auto simp: returns_def ret_def reclaimed_def)
  next
    case False
    have "returns (\<lambda>s. safe L U s0 s \<and> (\<exists>i. file_at s ?pb = Some i \<and> links s i = n)) (os_Remove ?pb)
        (\<lambda>r s. safe L U s0 s \<and> (quiet s0 \<longrightarrow> reclaimed L d s))"
      by (rule returns_pre [OF returns_remove_shared [OF assms(1,2)]]) (use False in auto)
    from returns_bind [OF this, where Q = ?Q] False show ?thesis
      by (auto simp: returns_def ret_def split: sum.splits)
  qed
  have again: "returns (safe L U s0)
      (chk (lockBlob e d) (\<lambda>err. Inl (Wrapped ''lock blob'' err)) (\<lambda>k.
       chk (nlink ?pb) (\<lambda>err. Inl (Wrapped ''nlink'' err)) (\<lambda>n.
         if n > 1 then ret (Inr False)
         else bind (os_Remove ?pb) (\<lambda>r. case r of
              Inl err \<Rightarrow> if errors_Is err FsErrNotExist then ret (Inr True)
                          else ret (Inl (Wrapped ''remove blob'' err))
            | Inr _ \<Rightarrow> ret (Inr True))))) ?Q"
    by (rule returns_step [OF returns_lockBlob [OF stable_safe assms(3)]], simp,
        rule returns_step [OF returns_nlink], (auto simp: reclaimed_def)[1], rule rm)
  show ?thesis
    unfolding tryCleanup_def Let_def
  proof (rule returns_step [OF returns_nlink], (auto simp: reclaimed_def)[1], goal_cases)
    case (1 n)
    show ?case
    proof (cases "n > 1")
      case True
      then show ?thesis by (auto simp: returns_def ret_def reclaimed_def)
    next
      case False
      then show ?thesis using again by (auto elim!: returns_pre)
    qed
  qed
qed

definition erase_done ::
  "'h digest_lib \<Rightarrow> scope \<Rightarrow> osfs \<Rightarrow> string \<Rightarrow> env \<Rightarrow> string \<Rightarrow> error option \<Rightarrow> osfs \<Rightarrow> bool" where
  "erase_done L U s0 ns e d res s \<longleftrightarrow>
     os_ok L U s \<and> keeps U s0 s \<and> fs_fault s = fs_fault s0 \<and> fs_try s = fs_try s0
     \<and> (\<forall>ns' d'. \<not> (ns' = ns \<and> d' = d) \<longrightarrow> os_view L s ns' d' = os_view L s0 ns' d')
     \<and> (res = None \<longrightarrow> os_view L s ns d = None)
     \<and> (res \<noteq> None \<longrightarrow> \<not> quiet s0)
     \<and> (quiet s0 \<longrightarrow> live e \<longrightarrow> dl_Validate L d = None \<longrightarrow> reclaimed L d s)"

lemma returns_Erase:
  assumes "digest_lib_ok L" "unblocked s0" "os_ok L U s0"
  shows "returns (\<lambda>s. s = s0) (OsStore_Erase L (OsStores_Use st ns) e d) (erase_done L U s0 ns e d)"
proof (cases "dl_Validate L d")
  case (Some err)
  then show ?thesis
    using assms(3) by (auto simp: OsStore_Erase_def Sanitize_invalid returns_def ret_def erase_done_def os_view_def)
next
  case None
  let ?q = "entry_path L ns d"
  let ?G = "\<lambda>s. os_ok L U s \<and> keeps U s0 s \<and> fs_fault s = fs_fault s0 \<and> fs_try s = fs_try s0
     \<and> (\<forall>ns' d'. \<not> (ns' = ns \<and> d' = d) \<longrightarrow> os_view L s ns' d' = os_view L s0 ns' d')"
  have del: "?G (del_tree ls ?q s0)" for ls
    using erase_entry [OF assms(1,3) None] keeps_del_tree [of ?q U s0 ls] by (simp add: fs_simps)
  have gone: "os_view L (del_tree [] ?q s0) ns d = None"
    using None by (simp add: os_view_def fs_simps kept_def)
  have absent: "os_view L s0 ns d = None" if "\<not> exists_at s0 ?q"
  proof -
    have "\<not> exists_at s0 (?q @ [''blob''])"
      using vacantI [OF os_okD(1) [OF assms(3)] that] by (simp add: vacant_def)
    then show ?thesis by (simp add: os_view_def exists_at_def)
  qed
  have rm: "returns (\<lambda>s. s = s0) (os_RemoveAll ?q)
      (\<lambda>r s. case r of Inl err \<Rightarrow> ?G s \<and> \<not> quiet s0 \<and> \<not> errors_Is err FsErrNotExist | Inr _ \<Rightarrow> ?G s \<and> os_view L s ns d = None)"
    unfolding os_RemoveAll_def
  proof (rule returns_sys, goal_cases)
    case (1 s)
    then show ?case using del [of "[]"] gone absent assms(3) by simp
  next
    case (2 s f)
    then show ?case using del [of "f_left f"] assms(3) fault_not_quiet [of s0] by auto
  qed
  have clean: "returns (\<lambda>s. ?G s \<and> os_view L s ns d = None) (bind (tryCleanup L (OsStores_Use st ns) e d) (\<lambda>_. ret None))
      (erase_done L U s0 ns e d)"
  proof (rule returnsI)
    fix s
    assume s: "?G s \<and> os_view L s ns d = None"
    then have u: "unblocked s" "quiet s = quiet s0" using assms(2) by (simp_all add: unblocked_def quiet_def)
    have "returns (safe L U s) (tryCleanup L (OsStores_Use st ns) e d)
        (\<lambda>r s'. safe L U s s' \<and> (quiet s \<longrightarrow> live e \<longrightarrow> reclaimed L d s'))"
      by (rule returns_tryCleanup [OF assms(1) None u(1)])
    then obtain r s' where "tryCleanup L (OsStores_Use st ns) e d s = Some (r, s')" "safe L U s s'"
        "quiet s \<longrightarrow> live e \<longrightarrow> reclaimed L d s'"
      using safe_refl [of L U s] s unfolding returns_def by blast
    with s u(2) show "\<exists>r s'. bind (tryCleanup L (OsStores_Use st ns) e d) (\<lambda>_. ret None) s = Some (r, s')
        \<and> erase_done L U s0 ns e d r s'"
      by (auto intro: keeps_trans [of U s0 s s'] simp: bind_def ret_def erase_done_def safe_def)
  qed
  show ?thesis
    unfolding OsStore_Erase_def Sanitize_valid [OF assms(1) None] sum.case pathToRepo_Use append_Nil2
  proof (rule returns_bind [OF rm], goal_cases)
    case (1 r)
    show ?case
    proof (cases r)
      case (Inl err)
      then show ?thesis by (auto simp: returns_def ret_def erase_done_def)
    next
      case (Inr u)
      then show ?thesis using clean by simp
    qed
  qed
qed

end
