(* ===== verification/OsOps.thy ===== *)
theory OsOps
  imports OsSpec
begin

text \<open>
  The reading operations of the directory store, \<open>Link\<close>, and the fills, under every failure.
\<close>

section \<open>Reading\<close>

definition os_info :: "'h digest_lib \<Rightarrow> OsStore \<Rightarrow> string \<Rightarrow> bytes \<Rightarrow> osfs blobInfo" where
  "os_info L t d b =
     NewLazyInfo d (Some (\<lambda>e. ret (Inr (int (length b))))) (Some (os_added L t d)) (Some (os_labels L t d))"

lemma safe_entry:
  "safe L U s0 s \<Longrightarrow> dl_Validate L d = None \<Longrightarrow>
   os_view L s0 ns d =
     show_entry (fs_data s) (file_at s (entry_path L ns d @ [''blob''])) (file_at s (entry_path L ns d @ [''labels'']))"
  using safeD(4) [of L U s0 s, symmetric] by (simp add: os_view_def)

lemma returns_open:
  assumes "digest_lib_ok L"
  shows "returns (safe L U s0) (OsStore_open L (OsStores_Use st ns) d) (\<lambda>r s. case r of
      Inl err \<Rightarrow> safe L U s0 s \<and> (err = ErrNotExist \<and> os_view L s0 ns d = None \<or> \<not> quiet s0)
    | Inr y \<Rightarrow> safe L U s0 s \<and> dl_Validate L d = None
        \<and> (\<exists>x. os_view L s0 ns d = Some x \<and> y = (entry_path L ns d @ [''blob''], os_info L (OsStores_Use st ns) d (fst x))))"
proof (cases "dl_Validate L d")
  case (Some err)
  then show ?thesis by (auto simp: OsStore_open_def Sanitize_invalid returns_def ret_def os_view_def)
next
  case None
  let ?pb = "entry_path L ns d @ [''blob'']"
  note v = safe_entry [OF _ None, of U s0 _ ns]
  have nd: "\<not> is_dir s ?pb" if "safe L U s0 s" for s
    using layoutD(2) [OF safeD(3) [OF that], of ?pb] by (auto simp: dir_place_def)
  have stat: "returns (safe L U s0) (os_Stat ?pb) (\<lambda>r s. case r of
      Inl err \<Rightarrow> safe L U s0 s \<and> (err = FsErrNotExist \<and> os_view L s0 ns d = None \<or> (\<exists>m. err = ErrorString m) \<and> \<not> quiet s0)
    | Inr fi \<Rightarrow> safe L U s0 s \<and> (\<exists>i. fi = FileNode i \<and> file_at s ?pb = Some i))"
    by (rule returns_post [OF returns_Stat [of "safe L U s0" L U s0]])
      (use nd v in \<open>auto simp: ticked_def exists_at_def split: sum.splits node.splits\<close>)
  show ?thesis
    unfolding OsStore_open_def Sanitize_valid [OF assms None] sum.case Let_def pathToRepo_Use
    by (rule returns_step [OF stat])
      (use None v in \<open>auto simp: returns_def ret_def bind_def gets_def node_size_def os_info_def\<close>)
qed

lemma returns_Open:
  assumes "digest_lib_ok L"
  shows "returns (safe L U s0) (OsStore_Open L (OsStores_Use st ns) e d) (\<lambda>r s. safe L U s0 s \<and> (case r of
      Inl err \<Rightarrow> errors_Is err ErrNotExist \<and> os_view L s0 ns d = None \<or> \<not> quiet s0
    | Inr y \<Rightarrow> (\<exists>x. os_view L s0 ns d = Some x \<and> y = (fst x, os_info L (OsStores_Use st ns) d (fst x)))))"
    (is "returns _ _ ?Q")
proof -
  let ?pb = "entry_path L ns d @ [''blob'']"
  let ?S = "\<lambda>x s. safe L U s0 s \<and> dl_Validate L d = None \<and> os_view L s0 ns d = Some x"
  have opn: "returns (?S x) (os_Open ?pb) (\<lambda>r s. case r of
      Inl err \<Rightarrow> safe L U s0 s \<and> \<not> quiet s0 | Inr i \<Rightarrow> ?S x s \<and> fs_data s i = fst x)" for x
    unfolding os_Open_def
  proof (rule returns_sys, goal_cases)
    case (1 s)
    then have "show_entry (fs_data s) (file_at s ?pb) (file_at s (entry_path L ns d @ [''labels''])) = Some x"
      using safe_entry [of L U s0 s d ns] by simp
    with 1 show ?case by (cases "file_at s ?pb") auto
  next
    case (2 s f)
    then show ?case using fault_not_quiet [of s] safeD(5) [of L U s0 s] by auto
  qed
  have rest: "returns (?S x) (chk (os_Open ?pb)
       (\<lambda>err. Inl (Wrapped ''open blob'' (if errors_Is err FsErrNotExist then ErrNotExist else err))) (\<lambda>f.
       bind (gets (\<lambda>s. fs_data s f)) (\<lambda>data. ret (Inr (data, os_info L (OsStores_Use st ns) d (fst x)))))) ?Q" for x
    by (rule returns_step [OF opn]) (auto simp: returns_def ret_def bind_def gets_def)
  show ?thesis
    unfolding OsStore_Open_def
  proof (rule returns_step [OF returns_open [OF assms, of U s0 st ns d]])
    show "?Q (Inl err) s" if "safe L U s0 s \<and> (err = ErrNotExist \<and> os_view L s0 ns d = None \<or> \<not> quiet s0)" for err s
      using that by auto
    fix y
    show "returns (\<lambda>s. safe L U s0 s \<and> dl_Validate L d = None
        \<and> (\<exists>x. os_view L s0 ns d = Some x \<and> y = (?pb, os_info L (OsStores_Use st ns) d (fst x))))
      (case y of (p, info) \<Rightarrow> chk (os_Open p)
         (\<lambda>err. Inl (Wrapped ''open blob'' (if errors_Is err FsErrNotExist then ErrNotExist else err))) (\<lambda>f.
         bind (gets (\<lambda>s. fs_data s f)) (\<lambda>data. ret (Inr (data, info))))) ?Q"
    proof (rule returnsI)
      fix s
      assume "safe L U s0 s \<and> dl_Validate L d = None
        \<and> (\<exists>x. os_view L s0 ns d = Some x \<and> y = (?pb, os_info L (OsStores_Use st ns) d (fst x)))"
      then obtain x where "?S x s" "y = (?pb, os_info L (OsStores_Use st ns) d (fst x))" by blast
      with rest [of x] show "\<exists>r s'. (case y of (p, info) \<Rightarrow> chk (os_Open p)
         (\<lambda>err. Inl (Wrapped ''open blob'' (if errors_Is err FsErrNotExist then ErrNotExist else err))) (\<lambda>f.
         bind (gets (\<lambda>s. fs_data s f)) (\<lambda>data. ret (Inr (data, info))))) s = Some (r, s') \<and> ?Q r s'"
        unfolding returns_def by simp
    qed
  qed
qed

text \<open>The labels of an entry that stands are what its labels file says.\<close>

lemma returns_labels:
  assumes "dl_Validate L d = None" "os_view L s0 ns d = Some x"
  shows "returns (safe L U s0) (os_labels L (OsStores_Use st ns) d e) (\<lambda>r s. safe L U s0 s \<and> (case r of
      Inl err \<Rightarrow> (\<exists>b err. snd x = Some b \<and> readLabels b = Inl err) \<or> \<not> (quiet s0 \<and> live e)
    | Inr l \<Rightarrow> (case snd x of None \<Rightarrow> l = None | Some b \<Rightarrow> readLabels b = Inr l)))" (is "returns _ _ ?Q")
proof (cases "ctx_Err e 0")
  case None
  let ?pl = "entry_path L ns d @ [''labels'']"
  have v: "snd x = map_option (fs_data s) (file_at s ?pl)" if "safe L U s0 s" for s
    using safe_entry [OF that assms(1), of ns] assms(2)
    by (cases "file_at s (entry_path L ns d @ [''blob''])") auto
  have nd: "\<not> is_dir s ?pl" if "safe L U s0 s" for s
    using layoutD(2) [OF safeD(3) [OF that], of ?pl] by (auto simp: dir_place_def)
  have opn: "returns (safe L U s0) (os_Open ?pl) (\<lambda>r s. case r of
      Inl err \<Rightarrow> safe L U s0 s \<and> (err = FsErrNotExist \<and> snd x = None \<or> (\<exists>m. err = ErrorString m) \<and> \<not> quiet s0)
    | Inr i \<Rightarrow> safe L U s0 s \<and> snd x = Some (fs_data s i))"
    unfolding os_Open_def
  proof (rule returns_sys, goal_cases)
    case (1 s)
    then show ?case using v [of s] nd [of s] by (cases "file_at s ?pl") auto
  next
    case (2 s f)
    then show ?case using fault_not_quiet [of s] safeD(5) [of L U s0 s] by auto
  qed
  have rd: "returns (\<lambda>s. safe L U s0 s \<and> snd x = Some (fs_data s i)) (file_Read i) (\<lambda>r s. case r of
      Inl err \<Rightarrow> bad L U s0 s | Inr b \<Rightarrow> (safe L U s0 s \<and> snd x = Some (fs_data s i)) \<and> fs_data s i = b)" for i
    by (rule returns_file_Read) (auto simp: ticked_def)
  show ?thesis
    unfolding os_labels_def None option.case pathToRepo_Use
    by (rule returns_step [OF opn], (auto split: option.splits)[1], rule returns_step [OF rd])
      (auto simp: bad_def returns_def ret_def split: sum.splits)
next
  case (Some err)
  then show ?thesis by (auto simp: os_labels_def returns_def ret_def live_def)
qed

section \<open>Links\<close>

lemma returns_on_store:
  "returns P m Q \<Longrightarrow> returns (\<lambda>x. fst x = i \<and> P (snd x)) (on_store m) (\<lambda>r x. fst x = i \<and> Q r (snd x))"
  by (fastforce simp: returns_def on_store_def)

lemma returns_with_info:
  "returns (\<lambda>x. fst x = i \<and> P (snd x)) m (\<lambda>r x. Q r (snd x)) \<Longrightarrow> returns P (with_info i m) Q"
  by (fastforce simp: returns_def with_info_def)

definition sized_info :: "'h digest_lib \<Rightarrow> OsStore \<Rightarrow> string \<Rightarrow> bytes \<Rightarrow> osfs blobInfo" where
  "sized_info L t d b = (os_info L t d b)\<lparr>bi_size := int (length b), bi_sizeLoader := None\<rparr>"

lemma returns_Info_Size:
  "returns (\<lambda>x. fst x = os_info L t d b \<and> P (snd x)) (Info_Size e)
     (\<lambda>r x. case r of Inl _ \<Rightarrow> False | Inr sz \<Rightarrow> sz = int (length b) \<and> fst x = sized_info L t d b \<and> P (snd x))"
  by (auto simp: returns_def Info_Size_def os_info_def sized_info_def NewLazyInfo_def go_run)

lemma returns_Info_Labels:
  assumes "returns P (os_labels L t d e) Q"
  shows "returns (\<lambda>x. fst x = sized_info L t d b \<and> P (snd x)) (Info_Labels e) (\<lambda>r x. Q r (snd x))"
  using assms
  by (fastforce simp: returns_def Info_Labels_def os_info_def sized_info_def NewLazyInfo_def go_run split: sum.splits)

definition labels_of :: "bytes option \<Rightarrow> labels \<Rightarrow> bool" where
  "labels_of b l \<longleftrightarrow> (case b of None \<Rightarrow> l = None | Some x \<Rightarrow> readLabels x = Inr l)"

definition link_done ::
  "'h digest_lib \<Rightarrow> scope \<Rightarrow> osfs \<Rightarrow> string \<Rightarrow> string \<Rightarrow> env \<Rightarrow> string \<Rightarrow> meta \<times> error option \<Rightarrow> osfs \<Rightarrow> bool" where
  "link_done L U s0 ns ns' e d res s \<longleftrightarrow>
     (case snd res of
        None \<Rightarrow> (\<exists>x l. os_view L s0 ns' d = Some x \<and> os_view L s0 ns d = None \<and> labels_of (snd x) l
           \<and> fst res = \<lparr>Digest = d, Labels = l, Size = int (length (fst x))\<rparr> \<and> published L U s0 ns d (writeLabels l) s)
      | Some err \<Rightarrow> safe L U s0 s
           \<and> (err = ErrNotExist \<and> os_view L s0 ns' d = None
              \<or> err = ErrAlreadyExists \<and> os_view L s0 ns d \<noteq> None
              \<or> (\<exists>x b err'. os_view L s0 ns' d = Some x \<and> snd x = Some b \<and> readLabels b = Inl err')
              \<or> \<not> (quiet s0 \<and> live e)))"

lemma bad_link_done: "bad L U s0 s \<Longrightarrow> link_done L U s0 ns ns' e d (m, Some err) s"
  by (simp add: bad_def link_done_def)

lemma link_done_keep:
  "link_done L U s0 ns ns' e d res s \<Longrightarrow> os_ok L U s"
  "link_done L U s0 ns ns' e d res s \<Longrightarrow> safe L U s s' \<Longrightarrow> link_done L U s0 ns ns' e d res s'"
proof -
  show "link_done L U s0 ns ns' e d res s \<Longrightarrow> os_ok L U s"
    by (auto simp: link_done_def published_def intro: safeD(1) split: option.splits)
  assume "link_done L U s0 ns ns' e d res s" "safe L U s s'"
  then show "link_done L U s0 ns ns' e d res s'"
    unfolding link_done_def using safe_trans [of L U s0 s s'] published_trans [of L U s0 ns d _ s s']
    by (auto split: option.splits)
qed

lemma returns_create_labels_any:
  assumes "staged_dir U ps"
  shows "returns (\<lambda>s. safe L U s0 s \<and> source j c s \<and> is_dir s ps \<and> (\<forall>f. \<not> exists_at s (ps @ [f])))
    (create_labels ps ls)
    (\<lambda>r s. case r of Inl err \<Rightarrow> bad L U s0 s
      | Inr _ \<Rightarrow> safe L U s0 s \<and> labelled ps (writeLabels ls) s \<and> \<not> exists_at s (ps @ [''blob'']))"
  by (rule returns_post [OF returns_create_labels [OF assms]]) (auto split: sum.splits)

lemma returns_link_entry:
  fixes m :: meta
  assumes "digest_lib_ok L" "dl_Validate L d = None" "staged_dir U ps"
    and "os_view L s0 ns' d = Some x" "os_view L s0 ns d = None" "labels_of (snd x) l" "live e \<longrightarrow> live e'"
    and "m = \<lparr>Digest = d, Labels = l, Size = int (length (fst x))\<rparr>"
  shows "returns (\<lambda>s. safe L U s0 s \<and> source j c s \<and> is_dir s ps \<and> (\<forall>f. \<not> exists_at s (ps @ [f])))
    (link_entry L (OsStores_Use st ns) (OsStores_Use st' ns') e' m ps) (link_done L U s0 ns ns' e d)"
proof -
  let ?src = "entry_path L ns' d @ [''blob'']" and ?lb = "writeLabels l"
  let ?A = "\<lambda>s. safe L U s0 s \<and> labelled ps ?lb s \<and> \<not> exists_at s (ps @ [''blob''])"
  let ?B = "\<lambda>s. safe L U s0 s \<and> complete L ps ?lb d s"
  have src: "file_at s ?src \<noteq> None" if "safe L U s0 s" for s
    using view_None [OF assms(2), of s ns'] safeD(4) [OF that] assms(4) by simp
  have lk: "returns ?A (os_Link ?src (ps @ [''blob''])) (\<lambda>r s. case r of
      Inl err \<Rightarrow> bad L U s0 s \<and> \<not> errors_Is err FsErrNotExist | Inr _ \<Rightarrow> ?B s)"
  proof (rule returns_Link_stage)
    fix s i
    assume s: "?A s" "file_at s ?src = Some i" "safe L U s0 (add_name (ps @ [''blob'']) i s)"
    then have sh: "file_at s (pathToBlob L d) = Some i" using os_okD(4) [OF safeD(1) assms(2)] by blast
    have "pathToBlob L d \<noteq> ps @ [''blob'']" using staged_places(5) [OF assms(3), of "''blob''" L d] by metis
    then show "?B (tick (add_name (ps @ [''blob'']) i s))"
      using s sh by (auto simp: complete_def fs_simps intro!: labelled_add_name)
  qed (use staged_places [OF assms(3)] src labelled_dir in auto)
  have rd: "ready L U s0 ps ?lb ns d s" if "?B s" for s
    using that view_None [OF assms(2), of s ns] safeD(4) [of L U s0 s] assms(5) by (simp add: ready_def)
  have mv: "returns ?B (move_entry ''mkdir destination'' e' ps (entry_path L ns d))
      (\<lambda>r s. case r of Inl err \<Rightarrow> bad L U s0 s | Inr _ \<Rightarrow> published L U s0 ns d ?lb s)"
    by (rule returns_pre [OF returns_move_entry [OF assms(1-3)] rd])
  have last: "returns ?B
      (case ctx_Err e' 0 of Some err \<Rightarrow> ret (m, Some err)
       | None \<Rightarrow> chk (move_entry ''mkdir destination'' e' ps (entry_path L ns d)) (\<lambda>err. (m, Some err)) (\<lambda>_.
           ret (Meta_Clone m, None))) (link_done L U s0 ns ns' e d)"
  proof (cases "ctx_Err e' 0")
    case None
    have "returns ?B (chk (move_entry ''mkdir destination'' e' ps (entry_path L ns d)) (\<lambda>err. (m, Some err)) (\<lambda>_.
           ret (Meta_Clone m, None))) (link_done L U s0 ns ns' e d)"
      by (rule returns_step [OF mv])
        (use assms(4-6,8) in \<open>auto simp: bad_def returns_def ret_def link_done_def\<close>)
    then show ?thesis by (simp add: None)
  next
    case (Some err)
    then have "\<not> live e" using assms(7) by (auto simp: live_def)
    then show ?thesis using Some by (auto simp: returns_def ret_def link_done_def)
  qed
  have ml: "Digest m = d" "Labels m = l" by (simp_all add: assms(8))
  show ?thesis
    unfolding link_entry_def Let_def ml pathToRepo_Use append_Nil2
    by (rule returns_step [OF returns_create_labels_any [OF assms(3)]], simp add: bad_link_done,
        rule returns_step [OF lk], simp add: bad_link_done, rule last)
qed

lemma returns_link_staged:
  fixes m :: meta
  assumes "digest_lib_ok L" "dl_Validate L d = None"
    and "os_view L s0 ns' d = Some x" "os_view L s0 ns d = None" "labels_of (snd x) l" "live e \<longrightarrow> live e'"
    and "m = \<lparr>Digest = d, Labels = l, Size = int (length (fst x))\<rparr>"
  shows "returns (safe L U s0) (link_staged L (OsStores_Use st ns) (OsStores_Use st' ns') e' m)
    (link_done L U s0 ns ns' e d)" (is "returns _ ?run _")
proof (rule returnsI)
  fix s
  assume s: "safe L U s0 s"
  then obtain bi where bi: "file_at s (entry_path L ns' d @ [''blob'']) = Some bi"
    using safe_entry [OF s assms(2), of ns'] assms(3) by (cases "file_at s (entry_path L ns' d @ [''blob''])") auto
  define c where "c = fs_data s bi"
  have src: "source bi c s" using tree_okD(2) [OF safeD(2) [OF s] bi] by (simp add: source_def c_def)
  let ?S = "\<lambda>ps s. staged_dir U ps \<and> safe L U s0 s \<and> source bi c s \<and> is_dir s ps \<and> (\<forall>f. \<not> exists_at s (ps @ [f]))"
  have body: "returns (?S ps) (deferred (link_entry L (OsStores_Use st ns) (OsStores_Use st' ns') e' m ps) (\<lambda>_. drop_tree ps))
      (link_done L U s0 ns ns' e d)" for ps
  proof (cases "staged_dir U ps")
    case True
    have le: "returns (?S ps) (link_entry L (OsStores_Use st ns) (OsStores_Use st' ns') e' m ps) (link_done L U s0 ns ns' e d)"
      by (rule returns_pre [OF returns_link_entry [OF assms(1,2) True assms(3-7)]]) blast
    show ?thesis
      by (rule returns_deferred [OF le returns_drop_tree_keep [where L = L and U = U]])
        (use staged_places [OF True] in \<open>auto intro: link_done_keep\<close>)
  qed (simp add: returns_def)
  have "returns (\<lambda>s. safe L U s0 s \<and> source bi c s) ?run (link_done L U s0 ns ns' e d)"
    unfolding link_staged_def
    by (rule returns_step [OF returns_ensureStagePath [OF stable_source]], simp add: bad_link_done,
        rule returns_step [OF returns_stage_dir], simp add: bad_link_done, rule body)
  then show "\<exists>r s'. ?run s = Some (r, s') \<and> link_done L U s0 ns ns' e d r s'"
    using s src unfolding returns_def by blast
qed

lemma returns_link_locked:
  assumes "digest_lib_ok L" "dl_Validate L d = None" "live e \<longrightarrow> live e'"
  shows "returns (safe L U s0) (link_locked L (OsStores_Use st ns) (OsStores_Use st' ns') e' d) (link_done L U s0 ns ns' e d)"
    (is "returns _ _ ?Q")
proof -
  let ?t = "OsStores_Use st ns" and ?t' = "OsStores_Use st' ns'"
  have stat: "returns (safe L U s0) (OsStore_Stat L ?t' e' d) (\<lambda>r s. case r of
      Inl err \<Rightarrow> safe L U s0 s \<and> (err = ErrNotExist \<and> os_view L s0 ns' d = None \<or> \<not> quiet s0)
    | Inr i \<Rightarrow> safe L U s0 s \<and> (\<exists>x. os_view L s0 ns' d = Some x \<and> i = os_info L ?t' d (fst x)))"
    unfolding OsStore_Stat_def
    by (rule returns_step [OF returns_open [OF assms(1), of U s0 st' ns' d]]) (auto simp: returns_def ret_def)
  let ?m = "\<lambda>l sz. \<lparr>Digest = d, Labels = l, Size = sz\<rparr>"
  let ?run = "chk (Info_Size e') (\<lambda>err. (zero_meta, Some err)) (\<lambda>sz.
      chk (on_store (checkDup (entry_path L ns d @ [''blob'']))) (\<lambda>err. (?m None sz, Some err)) (\<lambda>_.
      chk (Info_Labels e') (\<lambda>err. (?m None sz, Some err)) (\<lambda>labels.
        on_store (link_staged L ?t ?t' (env_after 1 e') (?m labels sz)))))"
  have go: "returns (safe L U s0) (with_info (os_info L ?t' d (fst x)) ?run) ?Q"
    if x: "os_view L s0 ns' d = Some x" for x
  proof (rule returns_with_info)
    let ?I = "sized_info L ?t' d (fst x)"
    have dup: "returns (\<lambda>y. sz = int (length (fst x)) \<and> fst y = ?I \<and> safe L U s0 (snd y))
        (on_store (checkDup (entry_path L ns d @ [''blob'']))) (\<lambda>r y. case r of
           Inl err \<Rightarrow> safe L U s0 (snd y) \<and> (err = ErrAlreadyExists \<and> os_view L s0 ns d \<noteq> None \<or> \<not> quiet s0)
         | Inr _ \<Rightarrow> (sz = int (length (fst x)) \<and> os_view L s0 ns d = None) \<and> fst y = ?I \<and> safe L U s0 (snd y))" for sz
    proof (cases "sz = int (length (fst x))")
      case True
      show ?thesis
        by (rule returns_conseq [OF returns_on_store [of "safe L U s0" _ _ ?I],
              OF returns_checkDup_entry [where P = "safe L U s0" and U = U, OF _ _ assms(2), of s0 ns]])
          (use True in \<open>auto simp: ticked_def split: sum.splits\<close>)
    qed (simp add: returns_def)
    have lab: "returns (\<lambda>y. B \<and> fst y = ?I \<and> safe L U s0 (snd y)) (Info_Labels e')
        (\<lambda>r y. case r of
           Inl err \<Rightarrow> safe L U s0 (snd y) \<and> ((\<exists>b err. snd x = Some b \<and> readLabels b = Inl err) \<or> \<not> (quiet s0 \<and> live e'))
         | Inr l \<Rightarrow> B \<and> labels_of (snd x) l \<and> safe L U s0 (snd y))" for B
    proof (cases B)
      case True
      then show ?thesis
        by (intro returns_conseq [OF returns_Info_Labels [OF returns_labels [OF assms(2) x]]])
          (auto simp: labels_of_def split: sum.splits)
    qed (simp add: returns_def)
    have fin: "returns (\<lambda>y. (sz = int (length (fst x)) \<and> os_view L s0 ns d = None) \<and> labels_of (snd x) l \<and> safe L U s0 (snd y))
         (on_store (link_staged L ?t ?t' (env_after 1 e') (?m l sz))) (\<lambda>r y. ?Q r (snd y))" for sz l
    proof (cases "sz = int (length (fst x)) \<and> os_view L s0 ns d = None \<and> labels_of (snd x) l")
      case True
      have env: "live e \<longrightarrow> live (env_after 1 e')" using assms(3) by simp
      have "returns (safe L U s0) (link_staged L ?t ?t' (env_after 1 e') (?m l sz)) ?Q"
        by (rule returns_link_staged [OF assms(1,2) x _ _ env]) (use True in auto)
      then show ?thesis by (fastforce simp: returns_def on_store_def)
    qed (auto simp: returns_def)
    show "returns (\<lambda>y. fst y = os_info L ?t' d (fst x) \<and> safe L U s0 (snd y)) ?run (\<lambda>r y. ?Q r (snd y))"
      by (rule returns_step [OF returns_Info_Size], simp,
          rule returns_step [OF dup], (auto simp: link_done_def)[1],
          rule returns_step [OF lab], (use x assms(3) in \<open>auto simp: link_done_def\<close>)[1], rule fin)
  qed
  show ?thesis
    unfolding link_locked_def Let_def pathToRepo_Use meta.update_convs
  proof (rule returns_step [OF stat])
    show "?Q (zero_meta, Some err) s" if "safe L U s0 s \<and> (err = ErrNotExist \<and> os_view L s0 ns' d = None \<or> \<not> quiet s0)" for err s
      using that by (auto simp: link_done_def)
  qed (use go in \<open>fastforce simp: returns_def\<close>)
qed

lemma returns_Link:
  assumes "digest_lib_ok L" "unblocked s0"
  shows "returns (safe L U s0) (OsStore_Link L (OsStores_Use st ns) e d (Os_source (OsStores_Use st ns')))
    (\<lambda>res s. if dl_Validate L d \<noteq> None then safe L U s0 s \<and> snd res \<noteq> None else link_done L U s0 ns ns' e d res s)"
proof (cases "ctx_Err e 0")
  case None
  show ?thesis
  proof (cases "dl_Validate L d")
    case (Some err)
    then show ?thesis by (auto simp: OsStore_Link_def None Sanitize_invalid returns_def ret_def)
  next
    case valid: None
    have loc: "returns (safe L U s0) (lockBlob (env_after 1 e) d)
      (\<lambda>r s. case r of Inl err \<Rightarrow> safe L U s0 s \<and> \<not> (quiet s0 \<and> live (env_after 1 e)) | Inr _ \<Rightarrow> safe L U s0 s)"
      by (rule returns_lockBlob [OF stable_safe assms(2)])
    have lk: "returns (safe L U s0) (link_locked L (OsStores_Use st ns) (OsStores_Use st ns') (env_after (1 + k) e) d)
        (link_done L U s0 ns ns' e d)" for k
      by (rule returns_link_locked [OF assms(1) valid]) simp
    have roots: "os_root (OsStores_Use st ns) = os_root (OsStores_Use st ns')" "os_lock (OsStores_Use st n)" for n
      by (simp_all add: OsStores_Use_def)
    have "returns (safe L U s0) (OsStore_Link L (OsStores_Use st ns) e d (Os_source (OsStores_Use st ns')))
        (link_done L U s0 ns ns' e d)"
      unfolding OsStore_Link_def None option.case Sanitize_valid [OF assms(1) valid] sum.case os_source.case
      by (simp only: roots not_True_eq_False simp_thms if_False, rule returns_step [OF loc], (auto simp: link_done_def)[1], rule lk)
    then show ?thesis using valid by simp
  qed
next
  case (Some err)
  then have "\<not> live e" by (auto simp: live_def)
  then show ?thesis using Some by (auto simp: OsStore_Link_def returns_def ret_def link_done_def)
qed

section \<open>Fills\<close>

text \<open>A fill between two calls: its file holds what its tracker has counted, and nothing is shown of it.\<close>

definition fill_at :: "'h digest_lib \<Rightarrow> scope \<Rightarrow> osfs \<Rightarrow> 'h osFill \<Rightarrow> osfs \<Rightarrow> bool" where
  "fill_at L U s0 f s \<longleftrightarrow>
     safe L U s0 s \<and> (\<exists>x. fst (of_tf f) = [''stage'', x]) \<and> sole s (snd (of_tf f)) (fst (of_tf f))
     \<and> fs_data s (snd (of_tf f)) = ft_data (of_t f) \<and> fill_bytes_inv L (of_t f) Writer_idle
     \<and> ft_want (of_t f) = Digest (of_m f) \<and> ft_size (of_t f) = Size (of_m f)
     \<and> dl_Validate L (Digest (of_m f)) = None"

definition same_fill :: "'h osFill \<Rightarrow> 'h osFill \<Rightarrow> bool" where
  "same_fill f f' \<longleftrightarrow> of_s f' = of_s f \<and> of_m f' = of_m f \<and> of_tf f' = of_tf f"

lemma newFillTracker_facts:
  assumes "digest_lib_ok L" "newFillTracker L m = Inr tr"
  shows "fill_bytes_inv L tr Writer_idle" "ft_data tr = []" "ft_want tr = Digest m" "ft_size tr = Size m"
  using newFillTracker_inv [OF assms] assms(2)
  by (auto simp: fill_inv_def newFillTracker_def fill_verify_def Let_def split: if_splits)

lemma returns_Fill:
  fixes m :: meta
  assumes "digest_lib_ok L"
  shows "returns (safe L U s0) (OsStore_Fill L (OsStores_Use st ns) e m) (\<lambda>r s. case r of
      Inl err \<Rightarrow> safe L U s0 s
        \<and> (dl_Validate L (Digest m) \<noteq> None \<or> err = ErrAlreadyExists \<and> os_view L s0 ns (Digest m) \<noteq> None
           \<or> Size m < 0 \<or> \<not> quiet s0)
    | Inr f \<Rightarrow> fill_at L U s0 f s \<and> of_s f = OsStores_Use st ns \<and> of_m f = m)" (is "returns _ _ ?Q")
proof (cases "dl_Validate L (Digest m)")
  case (Some err)
  then show ?thesis by (auto simp: OsStore_Fill_def Sanitize_invalid returns_def ret_def)
next
  case None
  let ?d = "Digest m"
  let ?T = "\<lambda>tf s. (\<exists>x. fst tf = [''stage'', x]) \<and> safe L U s0 s \<and> sole s (snd tf) (fst tf) \<and> fs_data s (snd tf) = []"
  have dup: "returns (safe L U s0) (checkDup (entry_path L ns ?d @ [''blob''])) (\<lambda>r s. case r of
      Inl err \<Rightarrow> safe L U s0 s \<and> (err = ErrAlreadyExists \<and> os_view L s0 ns ?d \<noteq> None \<or> \<not> quiet s0)
    | Inr _ \<Rightarrow> safe L U s0 s)"
    by (rule returns_post [OF returns_checkDup_entry [where P = "safe L U s0" and U = U, OF _ _ None]])
      (auto simp: ticked_def split: sum.splits)
  have fin: "returns (?T tf) (case newFillTracker L m of
      Inl err \<Rightarrow> bind (drop_file (fst tf)) (\<lambda>_. ret (Inl err))
    | Inr tr \<Rightarrow> ret (Inr \<lparr>of_s = OsStores_Use st ns, of_m = m, of_tf = tf, of_t = tr\<rparr>)) ?Q" for tf
  proof (cases "newFillTracker L m")
    case (Inl err)
    then have sz: "Size m < 0" by (auto simp: newFillTracker_def Let_def split: if_splits)
    show ?thesis
    proof (cases "\<exists>x. fst tf = [''stage'', x]")
      case True
      have "returns (?T tf) (drop_file (fst tf)) (\<lambda>_. safe L U s0)"
        by (rule returns_drop_file) (use True in \<open>auto simp: kept_place_def\<close>)
      then show ?thesis
        unfolding Inl sum.case by (rule returns_bind) (use sz in \<open>auto simp: returns_def ret_def\<close>)
    qed (simp add: returns_def)
  next
    case (Inr tr)
    show ?thesis
      using newFillTracker_facts [OF assms Inr] None by (auto simp: Inr returns_def ret_def fill_at_def)
  qed
  have m: "m\<lparr>Digest := Digest m\<rparr> = m" by simp
  show ?thesis
    unfolding OsStore_Fill_def Sanitize_valid [OF assms None] sum.case Let_def pathToRepo_Use m
    by (rule returns_step [OF dup], (auto simp: None)[1],
        rule returns_step [OF returns_ensureStagePath [OF stable_safe]], (simp add: bad_def)[1],
        rule returns_step [OF returns_stage_file], (simp add: bad_def)[1], rule fin)
qed

text \<open>A write keeps the file and the tracker together, however many of its bytes the system takes.\<close>

lemma returns_fill_Write:
  assumes "digest_lib_ok L"
  shows "returns (fill_at L U s0 f) (osFill_Write L p f) (\<lambda>r s. fill_at L U s0 (snd r) s \<and> same_fill f (snd r))"
proof (rule returnsI)
  fix s
  assume f: "fill_at L U s0 f s"
  then have inv: "fill_bytes_inv L (of_t f) Writer_idle" by (simp add: fill_at_def)
  show "\<exists>r s'. osFill_Write L p f s = Some (r, s') \<and> fill_at L U s0 (snd r) s' \<and> same_fill f (snd r)"
  proof (cases "fill_write_enter p (of_t f)")
    case (Inl res)
    with f show ?thesis by (auto simp: osFill_Write_def ret_def same_fill_def)
  next
    case (Inr x)
    obtain p' short where x: "x = (p', short)" by (cases x)
    define n where "n = (case fs_fault s (fs_sys s) of None \<Rightarrow> length p' | Some ft \<Rightarrow> min (f_count ft) (length p'))"
    let ?i = "snd (of_tf f)"
    obtain err where w: "file_Write_count ?i p' s = Some ((n, err), tick (write_at ?i (fs_data s ?i @ take n p') s))"
      by (cases "fs_fault s (fs_sys s)") (auto simp: file_Write_count_def file_Write_def sys_def n_def min_def)
    define tr where "tr = fill_write_store L p' n (of_t f)"
    obtain res tr' where lv: "fill_write_leave L short n err tr = (res, tr')" by (cases "fill_write_leave L short n err tr")
    have st: "ft_state (of_t f) = None" using fill_enter_expecting Inr x by blast
    then have "ft_written (of_t f) < ft_size (of_t f)" using inv by (simp add: fill_bytes_inv_def)
    then have "ft_written (of_t f) + int (length p') \<le> ft_size (of_t f)" using fill_enter_wants Inr x by blast
    moreover have "n \<le> length p'" by (simp add: n_def split: option.splits)
    ultimately have "fill_bytes_inv L tr (Writer_stored n short err)"
      using inv st by (auto simp: tr_def fill_write_store_def fill_bytes_inv_def Write_append [OF assms])
    then have inv': "fill_bytes_inv L tr' Writer_idle" by (rule leave_bytes_inv [OF assms _ lv])
    have tr': "ft_data tr' = ft_data (of_t f) @ take n p'" "ft_want tr' = ft_want (of_t f)" "ft_size tr' = ft_size (of_t f)"
      using lv by (auto simp: fill_write_leave_def tr_def fill_write_store_def fill_verify_def fill_notify_def Let_def split: if_splits)
    have "osFill_Write L p f s = Some ((res, f\<lparr>of_t := tr'\<rparr>), tick (write_at ?i (fs_data s ?i @ take n p') s))"
      using Inr x w lv by (simp add: osFill_Write_def bind_def ret_def tr_def)
    moreover have "fill_at L U s0 (f\<lparr>of_t := tr'\<rparr>) (tick (write_at ?i (fs_data s ?i @ take n p') s))"
    proof -
      have "safe L U s0 s" "sole s ?i (fst (of_tf f))" "\<not> kept_place U (fst (of_tf f))"
        using f by (auto simp: fill_at_def kept_place_def)
      then have "safe L U s0 (write_at ?i (fs_data s ?i @ take n p') s)" by (rule safe_write_at)
      then show ?thesis using f inv' tr' by (simp add: fill_at_def fs_simps sole_def)
    qed
    ultimately show ?thesis by (auto simp: same_fill_def)
  qed
qed

lemma fill_at_complete:
  assumes "fill_at L U s0 f s" "fill_complete (of_t f) = None"
  shows "names_bytes L (Digest (of_m f)) (ft_data (of_t f))" "nat (Size (of_m f)) = length (ft_data (of_t f))"
  using assms by (auto simp: fill_at_def fill_complete_def fill_bytes_inv_def names_bytes_def split: option.splits if_splits)

text \<open>A commit publishes the bytes of the digest the fill was opened for, or nothing.\<close>

definition commit_done ::
  "'h digest_lib \<Rightarrow> scope \<Rightarrow> osfs \<Rightarrow> string \<Rightarrow> env \<Rightarrow> 'h osFill \<Rightarrow> meta \<times> error option \<Rightarrow> osfs \<Rightarrow> bool" where
  "commit_done L U s0 ns e f res s \<longleftrightarrow>
     fst res = of_m f
     \<and> (case snd res of
          None \<Rightarrow> fill_complete (of_t f) = None \<and> os_view L s0 ns (Digest (of_m f)) = None
            \<and> published L U s0 ns (Digest (of_m f)) (writeLabels (Labels (of_m f))) s
        | Some err \<Rightarrow> safe L U s0 s
            \<and> (fill_complete (of_t f) = Some err
               \<or> err = ErrAlreadyExists \<and> os_view L s0 ns (Digest (of_m f)) \<noteq> None \<or> \<not> (quiet s0 \<and> live e)))"

lemma commit_done_keep:
  "commit_done L U s0 ns e f res s \<Longrightarrow> os_ok L U s"
  "commit_done L U s0 ns e f res s \<Longrightarrow> safe L U s s' \<Longrightarrow> commit_done L U s0 ns e f res s'"
proof -
  show "commit_done L U s0 ns e f res s \<Longrightarrow> os_ok L U s"
    by (auto simp: commit_done_def published_def intro: safeD(1) split: option.splits)
  show "commit_done L U s0 ns e f res s \<Longrightarrow> safe L U s s' \<Longrightarrow> commit_done L U s0 ns e f res s'"
    by (auto simp: commit_done_def intro: safe_trans published_trans split: option.splits)
qed

lemma reads_file_prefix:
  assumes "names_bytes L d b" "b \<in> sc_bytes U" "n = length b"
  shows "OsPublish.reads L U s0 j b d (chk (file_Read j) Inl (\<lambda>b. ret (Inr (take n b))))"
  unfolding OsPublish.reads_def
proof (intro allI impI)
  fix P
  assume P: "ticked P" "\<forall>s. P s \<longrightarrow> safe L U s0 s \<and> source j b s"
  have "returns P (file_Read j) (\<lambda>r s. case r of Inl err \<Rightarrow> bad L U s0 s | Inr c \<Rightarrow> P s \<and> c = b)"
    using P by (intro returns_post [OF returns_file_Read [of P L U s0]]) (auto simp: source_def split: sum.splits)
  then show "returns P (chk (file_Read j) Inl (\<lambda>b. ret (Inr (take n b))))
      (\<lambda>r s. case r of Inl err \<Rightarrow> bad L U s0 s | Inr b \<Rightarrow> P s \<and> names_bytes L d b \<and> b \<in> sc_bytes U)"
    by (rule returns_step) (use assms in \<open>auto simp: returns_def ret_def\<close>)
qed

lemma returns_os_release:
  assumes "\<And>s. P s \<Longrightarrow> os_ok L U s" "\<And>s s'. P s \<Longrightarrow> safe L U s s' \<Longrightarrow> P s'" "fst (of_tf f) = [''stage'', x]"
  shows "returns P (os_release f tr) (\<lambda>_. P)"
proof -
  have "returns P (drop_file (fst (of_tf f))) (\<lambda>_. P)"
    by (rule returns_drop_file_keep [OF assms(1,2)]) (auto simp: assms(3) kept_place_def)
  then have "returns P (bind (drop_file (fst (of_tf f))) (\<lambda>_. ret (f\<lparr>of_t := tr\<rparr>))) (\<lambda>_. P)"
    by (rule returns_bind) (simp add: returns_def ret_def)
  then show ?thesis unfolding os_release_def by (intro returns_if) (simp_all add: returns_def ret_def)
qed

lemma returns_fill_Commit:
  assumes "digest_lib_ok L" "unblocked s0" "ft_data (of_t f) \<in> sc_bytes U" "of_s f = OsStores_Use st ns"
  shows "returns (fill_at L U s0 f) (osFill_Commit L e f) (\<lambda>r s. commit_done L U s0 ns e f (fst r) s)"
proof (rule returnsI)
  fix s
  assume f: "fill_at L U s0 f s"
  then obtain x where x: "fst (of_tf f) = [''stage'', x]" by (auto simp: fill_at_def)
  have src: "source (snd (of_tf f)) (ft_data (of_t f)) s"
    using f tree_okD(2) [OF safeD(2) [of L U s0 s], of "fst (of_tf f)" "snd (of_tf f)"]
    by (simp add: fill_at_def source_def sole_def)
  let ?body = "case fill_complete (of_t f) of
      Some err \<Rightarrow> ret (of_m f, Some err)
    | None \<Rightarrow> OsStore_publish L (of_s f) e (of_m f)
        (chk (file_Read (snd (of_tf f))) Inl (\<lambda>b. ret (Inr (take (nat (Size (of_m f))) b))))"
  have body: "returns (\<lambda>x. x = s) ?body (commit_done L U s0 ns e f)"
  proof (cases "fill_complete (of_t f)")
    case None
    have valid: "dl_Validate L (Digest (of_m f)) = None" using f by (simp add: fill_at_def)
    have "returns (\<lambda>s. safe L U s0 s \<and> source (snd (of_tf f)) (ft_data (of_t f)) s)
        (OsStore_publish L (OsStores_Use st ns) e (of_m f)
           (chk (file_Read (snd (of_tf f))) Inl (\<lambda>b. ret (Inr (take (nat (Size (of_m f))) b)))))
        (commit_done L U s0 ns e f)"
      by (rule returns_post [OF returns_publish [OF assms(1) valid assms(2)
            reads_file_prefix [OF fill_at_complete(1) [OF f None] assms(3) fill_at_complete(2) [OF f None]] refl]])
        (auto simp: commit_done_def refused_def None split: option.splits)
    then show ?thesis using src f None assms(4) by (auto simp: fill_at_def returns_def)
  next
    case (Some err)
    then show ?thesis using f by (auto simp: returns_def ret_def commit_done_def fill_at_def)
  qed
  have rel: "returns (commit_done L U s0 ns e f res) (bind (os_release f (fill_end (of_t f))) (\<lambda>f'. ret (res, f')))
      (\<lambda>r s. commit_done L U s0 ns e f (fst r) s)" for res
    by (rule returns_bind [OF returns_os_release [where L = L and U = U, OF _ _ x]])
      (auto intro: commit_done_keep simp: returns_def ret_def)
  show "\<exists>r s'. osFill_Commit L e f s = Some (r, s') \<and> commit_done L U s0 ns e f (fst r) s'"
    using returnsD [OF returns_bind [OF body rel] refl] unfolding osFill_Commit_def by simp
qed

lemma returns_fill_Abort:
  "returns (fill_at L U s0 f) (osFill_Abort err f) (\<lambda>_. safe L U s0)"
proof (rule returnsI)
  fix s
  assume f: "fill_at L U s0 f s"
  then obtain x where x: "fst (of_tf f) = [''stage'', x]" by (auto simp: fill_at_def)
  have "returns (safe L U s0) (osFill_Abort err f) (\<lambda>_. safe L U s0)"
    unfolding osFill_Abort_def
    by (rule returns_os_release [where L = L and U = U, OF _ _ x]) (auto intro: safeD(1) safe_trans)
  then show "\<exists>r s'. osFill_Abort err f s = Some (r, s') \<and> safe L U s0 s'"
    using f by (auto simp: returns_def fill_at_def)
qed

end
