(* ===== verification/OsRun.thy ===== *)
theory OsRun
  imports OsOps
begin

text \<open>
  Whole histories of a directory store, in which any system call may fail, the process may stop at any
  point and start again, and the weather (failures, clock, random names, answers of the locks) changes
  between operations. The invariant holds in every state that is reached, and the properties of the
  single operations are stated from there.
\<close>

section \<open>Histories\<close>

text \<open>The scope of an operation that works on no upload.\<close>

definition over :: "bytes set \<Rightarrow> scope" where
  "over U = \<lparr>sc_bytes = U, sc_own = []\<rparr>"

lemma over_bytes [simp]: "sc_bytes (over U) = U"
  by (simp add: over_def)

lemma overI: "x \<in> U \<Longrightarrow> x \<in> sc_bytes (over U)"
  by simp

fun fill_writes :: "'h digest_lib \<Rightarrow> bytes list \<Rightarrow> 'h osFill \<Rightarrow> (osfs, 'h osFill) go" where
  "fill_writes L [] f = ret f"
| "fill_writes L (p # ps) f = bind (osFill_Write L p f) (\<lambda>r. fill_writes L ps (snd r))"

text \<open>The operations; a fill is opened, written piece by piece, and committed or aborted.\<close>

datatype os_op =
    Op_Add string env meta reader
  | Op_Open string env string
  | Op_Label string env string labels
  | Op_Erase string env string
  | Op_Link string env string string
  | Op_Fill string env meta "bytes list" "error option option"

fun os_exec :: "'h digest_lib \<Rightarrow> OsStores \<Rightarrow> os_op \<Rightarrow> (osfs, unit) go" where
  "os_exec L st (Op_Add ns e m r) = bind (OsStore_Add L (OsStores_Use st ns) e m r) (\<lambda>_. ret ())"
| "os_exec L st (Op_Open ns e d) = bind (OsStore_Open L (OsStores_Use st ns) e d) (\<lambda>_. ret ())"
| "os_exec L st (Op_Label ns e d ls) = bind (OsStore_Label L (OsStores_Use st ns) e d ls) (\<lambda>_. ret ())"
| "os_exec L st (Op_Erase ns e d) = bind (OsStore_Erase L (OsStores_Use st ns) e d) (\<lambda>_. ret ())"
| "os_exec L st (Op_Link ns e d ns') =
     bind (OsStore_Link L (OsStores_Use st ns) e d (Os_source (OsStores_Use st ns'))) (\<lambda>_. ret ())"
| "os_exec L st (Op_Fill ns e m ps end) =
     chk (OsStore_Fill L (OsStores_Use st ns) e m) (\<lambda>_. ()) (\<lambda>f.
       bind (fill_writes L ps f) (\<lambda>f.
         case end of
           None \<Rightarrow> bind (osFill_Commit L e f) (\<lambda>_. ret ())
         | Some err \<Rightarrow> bind (osFill_Abort err f) (\<lambda>_. ret ())))"

text \<open>The byte strings that an operation handles are among \<open>U\<close>.\<close>

fun within :: "'h digest_lib \<Rightarrow> bytes set \<Rightarrow> OsStores \<Rightarrow> osfs \<Rightarrow> os_op \<Rightarrow> bool" where
  "within L U st s (Op_Add ns e m r) = (fst (io_Copy r) \<in> U)"
| "within L U st s (Op_Fill ns e m ps end) =
     (case OsStore_Fill L (OsStores_Use st ns) e m s of
        Some (Inr f, s1) \<Rightarrow> (case fill_writes L ps f s1 of Some (f', s2) \<Rightarrow> ft_data (of_t f') \<in> U | None \<Rightarrow> True)
      | _ \<Rightarrow> True)"
| "within L U st s _ = True"

definition fresh_root :: "osfs \<Rightarrow> bool" where
  "fresh_root s \<longleftrightarrow> fs_files s = [] \<and> (fs_dirs s = [] \<or> (\<exists>t. fs_dirs s = [([], t)]))"

definition weather :: "osfs \<Rightarrow> osfs \<Rightarrow> bool" where
  "weather s s' \<longleftrightarrow> (\<exists>f c r t. s' = s\<lparr>fs_fault := f, fs_clock := c, fs_rand := r, fs_try := t\<rparr>)"

inductive os_reach :: "'h digest_lib \<Rightarrow> bytes set \<Rightarrow> OsStores \<Rightarrow> osfs \<Rightarrow> bool" for L U st where
  start: "fresh_root s \<Longrightarrow> os_reach L U st s"
| change: "os_reach L U st s \<Longrightarrow> weather s s' \<Longrightarrow> os_reach L U st s'"
| operation: "os_reach L U st s \<Longrightarrow> unblocked s \<Longrightarrow> within L U st s op \<Longrightarrow>
    os_exec L st op s = Some (r, s') \<Longrightarrow> os_reach L U st s'"

section \<open>The invariant along a history\<close>

lemma os_ok_start: "fresh_root s \<Longrightarrow> os_ok L (over U) s"
  by (auto simp: fresh_root_def os_ok_def tree_ok_def layout_def exists_at_def is_dir_def dir_place_def)

lemma weather_simps:
  assumes "weather s s'"
  shows "fs_files s' = fs_files s" "fs_dirs s' = fs_dirs s" "fs_data s' = fs_data s" "fs_next s' = fs_next s"
  using assms by (auto simp: weather_def)

lemma os_ok_weather:
  assumes "weather s s'"
  shows "os_ok L (over U) s' = os_ok L (over U) s"
proof -
  obtain f c r t where "s' = s\<lparr>fs_fault := f, fs_clock := c, fs_rand := r, fs_try := t\<rparr>"
    using assms by (auto simp: weather_def)
  then show ?thesis by (simp add: os_ok_def tree_ok_def layout_def exists_at_def is_dir_def)
qed

lemma os_view_weather: "weather s s' \<Longrightarrow> os_view L s' = os_view L s"
  by (auto simp: weather_def os_view_def fun_eq_iff)

lemma returns_fill_writes:
  assumes "digest_lib_ok L"
  shows "returns (fill_at L (over U) s0 f) (fill_writes L ps f) (\<lambda>f' s. fill_at L (over U) s0 f' s \<and> same_fill f f')"
proof (induction ps arbitrary: f)
  case Nil
  then show ?case by (simp add: returns_def ret_def same_fill_def)
next
  case (Cons p ps)
  have "returns (\<lambda>s. fill_at L (over U) s0 (snd r) s \<and> same_fill f (snd r)) (fill_writes L ps (snd r))
      (\<lambda>f' s. fill_at L (over U) s0 f' s \<and> same_fill f f')" for r
    using Cons [of "snd r"] by (fastforce simp: returns_def same_fill_def)
  then show ?case unfolding fill_writes.simps by (rule returns_bind [OF returns_fill_Write [OF assms]])
qed

text \<open>What every operation on blobs leaves: the invariant, and all uploads as they were.\<close>

definition well_left :: "'h digest_lib \<Rightarrow> bytes set \<Rightarrow> osfs \<Rightarrow> osfs \<Rightarrow> bool" where
  "well_left L U s s' \<longleftrightarrow> os_ok L (over U) s' \<and> keeps (over U) s s'"

lemma safe_left: "safe L (over U) s s' \<Longrightarrow> well_left L U s s'"
  by (simp add: well_left_def safe_def)

lemma done_left:
  "add_done L (over U) s ns e x ls res s' \<Longrightarrow> well_left L U s s'"
  "label_done L (over U) s ns d ls lres s' \<Longrightarrow> well_left L U s s'"
  "erase_done L (over U) s ns e d eres s' \<Longrightarrow> well_left L U s s'"
  "link_done L (over U) s ns ns' e d res s' \<Longrightarrow> well_left L U s s'"
  "commit_done L (over U) s ns e f res s' \<Longrightarrow> well_left L U s s'"
  by (auto simp: well_left_def add_done_def label_done_def erase_done_def link_done_def commit_done_def published_def changed_def safe_def
      split: option.splits)

lemma os_exec_fill_ok:
  assumes L: "digest_lib_ok L" and ok: "os_ok L (over U) s" and ub: "unblocked s" and U: "within L U st s (Op_Fill ns e m ps end)"
    and run: "os_exec L st (Op_Fill ns e m ps end) s = Some (r, s')"
  shows "well_left L U s s'"
proof -
  note s = safe_refl [OF ok]
  obtain x s1 where f1: "OsStore_Fill L (OsStores_Use st ns) e m s = Some (x, s1)"
      "case x of Inl err \<Rightarrow> safe L (over U) s s1 | Inr f \<Rightarrow> fill_at L (over U) s f s1 \<and> of_s f = OsStores_Use st ns"
    using returnsD [OF returns_Fill [OF L, of "over U" s st ns e m] s] by (fastforce split: sum.splits)
  show ?thesis
  proof (cases x)
    case (Inl err)
    then show ?thesis using f1 run by (auto simp: chk_def bind_def ret_def intro: safe_left)
  next
    case (Inr f)
    with f1 obtain f' s2 where f2: "fill_writes L ps f s1 = Some (f', s2)" "fill_at L (over U) s f' s2" "same_fill f f'"
      using returnsD [OF returns_fill_writes [OF L, of U s f ps], of s1] by auto
    have data: "ft_data (of_t f') \<in> sc_bytes (over U)" using U f1 f2 Inr by simp
    have of_s: "of_s f' = OsStores_Use st ns" using f1 f2 Inr by (simp add: same_fill_def)
    show ?thesis
    proof (cases "end")
      case None
      then show ?thesis
        using returns_result [OF returns_fill_Commit [OF L ub data of_s] f2(2)] run f1(1) f2(1) Inr
        by (fastforce simp: chk_def bind_def ret_def split: option.splits intro: done_left)
    next
      case (Some err)
      then show ?thesis
        using returns_result [OF returns_fill_Abort f2(2)] run f1(1) f2(1) Inr
        by (fastforce simp: chk_def bind_def ret_def split: option.splits intro: safe_left)
    qed
  qed
qed

lemma returns_ignored: "returns P m Q \<Longrightarrow> P s \<Longrightarrow> bind m (\<lambda>_. ret ()) s = Some (r, s') \<Longrightarrow> \<exists>x. Q x s'"
  by (fastforce simp: bind_def ret_def returns_def split: option.splits)

lemma os_exec_ok:
  assumes L: "digest_lib_ok L" and ok: "os_ok L (over U) s" and ub: "unblocked s" and U: "within L U st s op"
    and run: "os_exec L st op s = Some (r, s')"
  shows "well_left L U s s'"
proof (cases op)
  case (Op_Add ns e m rd)
  then show ?thesis
    using returns_ignored [OF returns_Add [OF L ub, of rd "over U" st ns e m] safe_refl [OF ok]] run U done_left(1) by fastforce
next
  case (Op_Open ns e d)
  then show ?thesis
    using returns_ignored [OF returns_Open [OF L, of "over U" s st ns e d] safe_refl [OF ok]] run safe_left by fastforce
next
  case (Op_Label ns e d ls)
  then show ?thesis
    using returns_ignored [OF returns_Label [OF L, of "over U" s st ns e d ls] safe_refl [OF ok]] run done_left(2) by fastforce
next
  case (Op_Erase ns e d)
  then show ?thesis
    using returns_ignored [OF returns_Erase [OF L ub ok, of st ns e d] refl] run done_left(3) by fastforce
next
  case (Op_Link ns e d ns')
  then obtain x where "if dl_Validate L d \<noteq> None then safe L (over U) s s' \<and> snd x \<noteq> None else link_done L (over U) s ns ns' e d x s'"
    using returns_ignored [OF returns_Link [OF L ub, of "over U" st ns e d ns'] safe_refl [OF ok]] run by auto
  then show ?thesis using done_left(4) [of L U s ns ns' e d x s'] safe_left [of L U s s'] by presburger
next
  case (Op_Fill ns e m ps "end")
  then show ?thesis using os_exec_fill_ok [OF L ok ub] U run by blast
qed

lemma os_reach_ok:
  assumes "digest_lib_ok L" "os_reach L U st s"
  shows "os_ok L (over U) s"
  using assms(2)
  by induction (use os_exec_ok [OF assms(1)] in \<open>auto intro: os_ok_start simp: os_ok_weather well_left_def\<close>)

section \<open>The operations from a reachable state\<close>

lemma published_exact:
  assumes "collision_free L U" "published L (over U) s ns d lb s'" "names_bytes L d b" "b \<in> U"
  shows "os_ok L (over U) s' \<and> os_view L s' = (os_view L s)(ns := (os_view L s ns)(d \<mapsto> (b, Some lb)))"
proof -
  obtain c where c: "names_bytes L d c" "c \<in> U" "os_ok L (over U) s'"
      "os_view L s' = (os_view L s)(ns := (os_view L s ns)(d \<mapsto> (c, Some lb)))"
    using assms(2) by (auto simp: published_def)
  have "c = b" using assms(1,3,4) c(1,2) unfolding collision_free_def by blast
  with c show ?thesis by simp
qed

lemma os_reach_Add:
  assumes "os_reach L U st s" "unblocked s" "fst (io_Copy r) \<in> U" "OsStore_Add L (OsStores_Use st ns) e m r s = Some (res, s')"
  shows "os_reach L U st s'"
  using os_reach.operation [OF assms(1,2), of "Op_Add ns e m r" "()" s'] assms(3,4) by (simp add: bind_def ret_def)

text \<open>What an \<open>Add\<close> that has returned did, and why it refused on a day without failures.\<close>

definition add_effect ::
  "'h digest_lib \<Rightarrow> bytes set \<Rightarrow> string \<Rightarrow> env \<Rightarrow> meta \<Rightarrow> reader \<Rightarrow> osfs \<Rightarrow> meta \<times> error option \<Rightarrow> osfs \<Rightarrow> bool" where
  "add_effect L U ns e m r s res s' \<longleftrightarrow>
     os_ok L (over U) s'
     \<and> os_view L s' =
         (if snd res = None
          then (os_view L s)(ns := (os_view L s ns)
                 (Digest (fst res) \<mapsto> (fst (io_Copy r), Some (writeLabels (Labels m)))))
          else os_view L s)
     \<and> (snd res = None \<longrightarrow> add_outcome L (os_shows L ns s) m r = Added (Digest (fst res))
          \<and> names_bytes L (Digest (fst res)) (fst (io_Copy r)) \<and> snd (io_Copy r) = None)
     \<and> (snd res \<noteq> None \<longrightarrow> quiet s \<longrightarrow> live e \<longrightarrow>
          gives (add_outcome L (os_shows L ns s) m r) res \<and> (\<forall>d. add_outcome L (os_shows L ns s) m r \<noteq> Added d))"

lemma os_Add_result:
  fixes m :: meta
  assumes L: "digest_lib_ok L" and cf: "collision_free L U" and ok: "os_ok L (over U) s" and ub: "unblocked s"
    and b: "fst (io_Copy r) \<in> U"
  shows "\<exists>res s'. OsStore_Add L (OsStores_Use st ns) e m r s = Some (res, s') \<and> add_effect L U ns e m r s res s'"
proof -
  obtain res s' where run: "OsStore_Add L (OsStores_Use st ns) e m r s = Some (res, s')"
    and fin: "add_done L (over U) s ns e (add_outcome L (os_shows L ns s) m r) (Labels m) res s'"
    using returnsD [OF returns_Add [OF L ub overI [OF b], of st ns e m] safe_refl [OF ok]] by blast
  have "add_effect L U ns e m r s res s'"
  proof (cases "snd res")
    case None
    with fin have out: "add_outcome L (os_shows L ns s) m r = Added (Digest (fst res))"
      and pub: "published L (over U) s ns (Digest (fst res)) (writeLabels (Labels m)) s'" by (auto simp: add_done_def)
    show ?thesis
      unfolding add_effect_def
      using None out add_outcome_is_Added(2,3) [OF L out] published_exact [OF cf pub _ b] by simp
  next
    case (Some err)
    then show ?thesis using fin safeD(1,4) by (fastforce simp: add_done_def add_effect_def)
  qed
  with run show ?thesis by blast
qed

section \<open>Properties\<close>

text \<open>
  C6. A directory store never shows a corrupt blob. In every state that operations reach, whichever
  system calls have failed and wherever the process has stopped, the bytes of an entry are bytes that
  its digest names, the entry is a hard link to the one shared blob of that digest, and so all
  namespaces show the same bytes for it.
\<close>

theorem os_never_corrupt:
  assumes "digest_lib_ok L" "os_reach L U st s" "os_view L s ns d = Some x"
  shows "names_bytes L d (fst x) \<and> fst x \<in> U
    \<and> (\<exists>i. file_at s (pathToRepo L (OsStores_Use st ns) d [''blob'']) = Some i
         \<and> file_at s (pathToBlob L d) = Some i \<and> fs_data s i = fst x)
    \<and> (\<forall>ns' y. os_view L s ns' d = Some y \<longrightarrow> fst y = fst x)"
proof -
  note ok = os_reach_ok [OF assms(1,2)]
  have valid: "dl_Validate L d = None" using assms(3) by (auto simp: os_view_def split: if_splits)
  have share: "\<exists>i. file_at s (entry_path L n d @ [''blob'']) = Some i \<and> file_at s (pathToBlob L d) = Some i \<and> fs_data s i = fst y"
    if "os_view L s n d = Some y" for n y
    using that valid os_okD(4) [OF ok valid, of n]
    by (cases "file_at s (entry_path L n d @ [''blob''])") (auto simp: os_view_def)
  obtain i where i: "file_at s (entry_path L ns d @ [''blob'']) = Some i" "file_at s (pathToBlob L d) = Some i" "fs_data s i = fst x"
    using share [OF assms(3)] by blast
  moreover have "fst y = fst x" if "os_view L s ns' d = Some y" for ns' y using share [OF that] i by auto
  ultimately show ?thesis using os_okD(3) [OF ok valid i(2)] by auto
qed

text \<open>A new root, in a world where the calls that \<open>f\<close> says fail.\<close>

definition os_new :: "(nat \<Rightarrow> fault option) \<Rightarrow> osfs" where
  "os_new f =
     \<lparr>fs_files = [], fs_dirs = [], fs_data = (\<lambda>_. []), fs_mtime = (\<lambda>_. 0), fs_next = 0, fs_sys = 0, fs_fault = f,
      fs_clock = (\<lambda>_. 0), fs_rand = (\<lambda>_. 0), fs_try = (\<lambda>_. Inr True)\<rparr>"

lemma os_new_facts:
  "fresh_root (os_new f)" "unblocked (os_new f)" "quiet (os_new (\<lambda>_. None))" "os_view L (os_new f) ns d = None"
  "os_reach L U st (os_new f)" "os_ok L (over U) (os_new f)"
  by (auto simp: os_new_def fresh_root_def unblocked_def quiet_def os_view_def intro: os_reach.start os_ok_start)

definition example_os :: OsStores where
  "example_os = NewOsStores ''/var/flob'' []"

abbreviation hi_digest :: string where
  "hi_digest \<equiv> data_digest example_lib Canonical ''hi''"

lemma singleton_free: "collision_free L {x}"
  by (simp add: collision_free_def)

lemma hi_read [simp]: "io_Copy (bytes_Reader ''hi'') = (''hi'', None)"
  by code_simp

text \<open>A blob added on a day without failures.\<close>

lemma os_add_example:
  "\<exists>m' s'. OsStore_Add example_lib (OsStores_Use example_os ''a'') (background 1) zero_meta (bytes_Reader ''hi'')
      (os_new (\<lambda>_. None)) = Some ((m', None), s') \<and> Digest m' = hi_digest
    \<and> os_view example_lib s' = (\<lambda>ns d. None)(''a'' := Map.empty(hi_digest \<mapsto> (''hi'', Some (writeLabels None))))
    \<and> os_reach example_lib {''hi''} example_os s'"
proof -
  let ?s = "os_new (\<lambda>_. None)"
  have out: "add_outcome example_lib (os_shows example_lib ''a'' ?s) zero_meta (bytes_Reader ''hi'') = Added hi_digest"
    by (simp add: add_outcome_def zero_meta_def os_shows_def os_new_facts Let_def)
  have lab: "Labels zero_meta = None" by (simp add: zero_meta_def)
  obtain res s' where run: "OsStore_Add example_lib (OsStores_Use example_os ''a'') (background 1) zero_meta (bytes_Reader ''hi'') ?s = Some (res, s')"
    and res: "snd res = None" "Digest (fst res) = hi_digest"
      "os_view example_lib s' = (os_view example_lib ?s)(''a'' := (os_view example_lib ?s ''a'')(hi_digest \<mapsto> (''hi'', Some (writeLabels None))))"
    using os_Add_result [OF example_lib_ok singleton_free [of _ "''hi''"] os_new_facts(6,2), where f1 = "\<lambda>_. None", of "bytes_Reader ''hi''" example_os "''a''" "background 1" zero_meta]
    by (auto simp: add_effect_def out os_new_facts lab split: if_splits)
  have "os_reach example_lib {''hi''} example_os s'"
    using os_reach.operation [of example_lib "{''hi''}" example_os ?s "Op_Add ''a'' (background 1) zero_meta (bytes_Reader ''hi'')" "()" s']
      run by (simp add: os_new_facts bind_def ret_def)
  moreover have "os_view example_lib ?s = (\<lambda>ns d. None)" by (simp add: fun_eq_iff os_new_facts)
  ultimately show ?thesis using run res by (cases res) auto
qed

theorem os_never_corrupt_witness:
  "\<exists>s. os_reach example_lib {''hi''} example_os s \<and> os_view example_lib s ''a'' hi_digest \<noteq> None
    \<and> (\<exists>i. file_at s (pathToBlob example_lib hi_digest) = Some i \<and> fs_data s i = ''hi'')"
proof -
  obtain s where s: "os_reach example_lib {''hi''} example_os s"
      "os_view example_lib s ''a'' hi_digest = Some (''hi'', Some (writeLabels None))" using os_add_example by auto
  then show ?thesis using os_never_corrupt [OF example_lib_ok s] by auto
qed

text \<open>
  C39. The tree under the root is always well formed. In every reachable state a path is a file or a
  directory and not both, all that exists lies in a directory, the inodes in use have been given out,
  and files and directories are only where the layout has them, so that an entry has no subdirectories
  and a shared blob is never a directory.
\<close>

theorem os_tree_formed:
  assumes "digest_lib_ok L" "os_reach L U st s"
  shows "(\<forall>p i. file_at s p = Some i \<longrightarrow> \<not> is_dir s p \<and> is_dir s (butlast p) \<and> i < fs_next s \<and> file_place p)
    \<and> (\<forall>p. is_dir s p \<longrightarrow> dir_place p \<and> (p \<noteq> [] \<longrightarrow> is_dir s (butlast p)))
    \<and> distinct (map fst (fs_files s)) \<and> distinct (map fst (fs_dirs s))
    \<and> \<not> is_dir s (pathToBlob L d) \<and> \<not> is_dir s (pathToRepo L (OsStores_Use st ns) d [f])"
proof -
  note ok = os_reach_ok [OF assms]
  note t = os_okD(1) [OF ok] and l = os_okD(2) [OF ok]
  have "\<not> is_dir s p \<and> is_dir s (butlast p) \<and> i < fs_next s \<and> file_place p" if "file_at s p = Some i" for p i
    using that tree_okD [OF t] layoutD(1) [OF l that] by (auto simp: file_place_def)
  moreover have "dir_place p \<and> (p \<noteq> [] \<longrightarrow> is_dir s (butlast p))" if "is_dir s p" for p
    using that tree_okD(1) [OF t, of p] layoutD(2) [OF l that] by auto
  moreover have "\<not> is_dir s (pathToBlob L d)" "\<not> is_dir s (entry_path L ns d @ [f])"
    using layoutD(2) [OF l, of "pathToBlob L d"] layoutD(2) [OF l, of "entry_path L ns d @ [f]"] by (auto simp: dir_place_def)
  ultimately show ?thesis using t by (simp add: tree_ok_def)
qed

theorem os_tree_formed_witness:
  "\<exists>s i. os_reach example_lib {''hi''} example_os s \<and> file_at s (pathToBlob example_lib hi_digest) = Some i
    \<and> is_dir s (butlast (pathToBlob example_lib hi_digest)) \<and> i < fs_next s"
proof -
  obtain s where s: "os_reach example_lib {''hi''} example_os s"
      "os_view example_lib s ''a'' hi_digest = Some (''hi'', Some (writeLabels None))" using os_add_example by auto
  have "dl_Validate example_lib hi_digest = None" using s(2) by (auto simp: os_view_def split: if_splits)
  moreover obtain j where "file_at s (entry_path example_lib ''a'' hi_digest @ [''blob'']) = Some j"
    using s(2) calculation by (cases "file_at s (entry_path example_lib ''a'' hi_digest @ [''blob''])") (auto simp: os_view_def)
  ultimately obtain i where "file_at s (pathToBlob example_lib hi_digest) = Some i"
    using os_okD(4) [OF os_reach_ok [OF example_lib_ok s(1)]] by blast
  then show ?thesis using os_tree_formed [OF example_lib_ok s(1)] s(1) by blast
qed

text \<open>
  C2. \<open>Add\<close> is atomic under every failure. From any reachable state, and whichever of its system calls
  fail and whatever they leave behind, it returns; when it reports an error no namespace shows anything
  it did not show before, and when it reports success exactly one entry has appeared, complete with all
  the bytes read and the labels given, under a digest that names them.
\<close>

theorem os_add_atomic:
  fixes m :: meta
  assumes "digest_lib_ok L" "collision_free L U" "os_reach L U st s" "unblocked s" "fst (io_Copy r) \<in> U"
  shows "\<exists>res s'. OsStore_Add L (OsStores_Use st ns) e m r s = Some (res, s') \<and> os_reach L U st s'
    \<and> os_view L s' =
        (if snd res = None
         then (os_view L s)(ns := (os_view L s ns)
                (Digest (fst res) \<mapsto> (fst (io_Copy r), Some (writeLabels (Labels m)))))
         else os_view L s)
    \<and> (snd res = None \<longrightarrow> snd (io_Copy r) = None \<and> names_bytes L (Digest (fst res)) (fst (io_Copy r)))"
proof -
  obtain res s' where run: "OsStore_Add L (OsStores_Use st ns) e m r s = Some (res, s')"
    and eff: "add_effect L U ns e m r s res s'"
    using os_Add_result [OF assms(1,2) os_reach_ok [OF assms(1,3)] assms(4,5)] by blast
  show ?thesis
    using run os_reach_Add [OF assms(3-5) run] eff unfolding add_effect_def by (intro exI conjI) auto
qed

text \<open>The disk is full from the seventh call on.\<close>

definition disk_full :: "nat \<Rightarrow> fault option" where
  "disk_full n = (if n < 7 then None else Some \<lparr>f_msg = ''no space left on device'', f_count = 1, f_left = []\<rparr>)"

theorem os_add_atomic_witness:
  "\<exists>res s'. OsStore_Add example_lib (OsStores_Use example_os ''a'') (background 1) zero_meta (bytes_Reader ''hi'')
      (os_new disk_full) = Some (res, s')
    \<and> (snd res \<noteq> None \<longrightarrow> os_view example_lib s' ''a'' hi_digest = None)"
  using os_add_atomic [OF example_lib_ok singleton_free [of example_lib "''hi''"] os_new_facts(5) [of _ _ _ disk_full] os_new_facts(2),
      of "bytes_Reader ''hi''" example_os "''a''" "background 1" zero_meta]
  by (auto simp: os_new_facts split: if_splits)

text \<open>
  C10. A store recovers from every past failure. After any history of failures and stops, once calls
  succeed again and locks are free, \<open>Add\<close> gives the documented answer of the store as it is shown: what
  broken attempts have left in the tree neither blocks nor changes a later \<open>Add\<close>, not even one of the
  same blob.
\<close>

theorem os_add_recovers:
  fixes m :: meta
  assumes "digest_lib_ok L" "collision_free L U" "os_reach L U st s0" "weather s0 s" "quiet s" "live e"
    and "fst (io_Copy r) \<in> U"
  shows "\<exists>res s'. OsStore_Add L (OsStores_Use st ns) e m r s = Some (res, s')
    \<and> gives (add_outcome L (os_shows L ns s0) m r) res
    \<and> os_view L s' =
        (case add_outcome L (os_shows L ns s0) m r of
           Added d \<Rightarrow> (os_view L s0)(ns := (os_view L s0 ns)(d \<mapsto> (fst (io_Copy r), Some (writeLabels (Labels m)))))
         | _ \<Rightarrow> os_view L s0)"
proof -
  have view: "os_view L s = os_view L s0" by (rule os_view_weather [OF assms(4)])
  then have sh: "os_shows L ns s = os_shows L ns s0" by (simp add: os_shows_def fun_eq_iff)
  have ok: "os_ok L (over U) s" using os_reach_ok [OF assms(1,3)] os_ok_weather [OF assms(4), of L U] by simp
  obtain res s' where run: "OsStore_Add L (OsStores_Use st ns) e m r s = Some (res, s')"
    and eff: "add_effect L U ns e m r s res s'"
    using os_Add_result [OF assms(1,2) ok quiet_unblocked [OF assms(5)] assms(7)] by blast
  show ?thesis
  proof (cases "snd res")
    case None
    then show ?thesis using run eff view sh by (cases res) (auto simp: add_effect_def)
  next
    case (Some err)
    then show ?thesis using run eff view sh assms(5,6) by (fastforce simp: add_effect_def split: add_outcome.splits)
  qed
qed

text \<open>The same disk, after space has been made.\<close>

definition mended :: "osfs \<Rightarrow> osfs" where
  "mended s = s\<lparr>fs_fault := (\<lambda>_. None), fs_try := (\<lambda>_. Inr True)\<rparr>"

lemma mended_facts: "weather s (mended s)" "quiet (mended s)"
proof -
  have "mended s = s\<lparr>fs_fault := (\<lambda>_. None), fs_clock := fs_clock s, fs_rand := fs_rand s, fs_try := (\<lambda>_. Inr True)\<rparr>"
    by (simp add: mended_def)
  then show "weather s (mended s)" unfolding weather_def by blast
qed (simp add: mended_def quiet_def)

theorem os_add_recovers_witness:
  "\<exists>r s res s'.
      OsStore_Add example_lib (OsStores_Use example_os ''a'') (background 1) zero_meta (bytes_Reader ''hi'')
        (os_new disk_full) = Some (r, s)
    \<and> OsStore_Add example_lib (OsStores_Use example_os ''a'') (background 2) zero_meta (bytes_Reader ''hi'')
        (mended s) = Some (res, s')
    \<and> gives (add_outcome example_lib (os_shows example_lib ''a'' s) zero_meta (bytes_Reader ''hi'')) res"
proof -
  note free = singleton_free [of example_lib "''hi''"]
  obtain r s where a: "OsStore_Add example_lib (OsStores_Use example_os ''a'') (background 1) zero_meta (bytes_Reader ''hi'')
      (os_new disk_full) = Some (r, s)"
    using os_Add_result [OF example_lib_ok free os_new_facts(6) os_new_facts(2) [of disk_full],
        of "bytes_Reader ''hi''" example_os "''a''" "background 1" zero_meta] by auto
  have "os_reach example_lib {''hi''} example_os s"
    by (rule os_reach_Add [OF os_new_facts(5,2) _ a]) simp
  from os_add_recovers [OF example_lib_ok free this mended_facts, of "background 2" "bytes_Reader ''hi''" "''a''" zero_meta]
  show ?thesis using a by auto
qed

text \<open>
  C17. What was added is read back, from the disk. After an \<open>Add\<close> that reported success, under whatever
  failures, \<open>Open\<close> of the reported digest on a day without failures delivers exactly the bytes added;
  the size is their number, and the labels are what a labels file keeps of those given, when it
  can hold them at all.
\<close>

theorem os_add_open:
  fixes m :: meta
  assumes "digest_lib_ok L" "collision_free L U" "os_reach L U st s" "unblocked s" "fst (io_Copy r) \<in> U"
    and "OsStore_Add L (OsStores_Use st ns) e m r s = Some ((m', None), s1)"
    and "weather s1 s2" "quiet s2" "live e'"
  shows "\<exists>i s3. OsStore_Open L (OsStores_Use st ns) e' (Digest m') s2 = Some (Inr (fst (io_Copy r), i), s3)
    \<and> with_info i (Info_Size e') s3 = Some (Inr (int (length (fst (io_Copy r)))), s3)
    \<and> (readable (Labels m) \<longrightarrow>
        (\<exists>s4. os_labels L (OsStores_Use st ns) (Digest m') e' s3 = Some (Inr (kept_labels (Labels m)), s4)))"
proof -
  let ?d = "Digest m'" and ?b = "fst (io_Copy r)" and ?lb = "writeLabels (Labels m)" and ?t = "OsStores_Use st ns"
  have "os_view L s1 ns ?d = Some (?b, Some ?lb)" and named: "names_bytes L ?d ?b"
    using os_Add_result [OF assms(1,2) os_reach_ok [OF assms(1,3)] assms(4,5), of st ns e m] assms(6)
    by (auto simp: add_effect_def)
  then have x: "os_view L s2 ns ?d = Some (?b, Some ?lb)" using os_view_weather [OF assms(7), of L] by simp
  have ok: "os_ok L (over U) s2"
    using os_reach_ok [OF assms(1) os_reach_Add [OF assms(3-6)]] os_ok_weather [OF assms(7), of L U] by simp
  have valid: "dl_Validate L ?d = None" using named by (simp add: names_bytes_def)
  obtain s3 where opn: "OsStore_Open L ?t e' ?d s2 = Some (Inr (?b, os_info L ?t ?d ?b), s3)" and s3: "safe L (over U) s2 s3"
    using returnsD [OF returns_Open [OF assms(1), of "over U" s2 st ns e' ?d] safe_refl [OF ok]] x assms(8)
    by (fastforce split: sum.splits)
  have "with_info (os_info L ?t ?d ?b) (Info_Size e') s3 = Some (Inr (int (length ?b)), s3)"
    by (simp add: with_info_def Info_Size_def os_info_def NewLazyInfo_def go_run)
  moreover have "\<exists>s4. os_labels L ?t ?d e' s3 = Some (Inr (kept_labels (Labels m)), s4)" if "readable (Labels m)"
    using returnsD [OF returns_labels [OF valid x, of "over U" st e'] s3] read_write_labels [OF that] assms(8,9)
    by (fastforce split: sum.splits)
  ultimately show ?thesis using opn by blast
qed

theorem os_add_open_witness:
  "\<exists>m' s1 i s3. OsStore_Add example_lib (OsStores_Use example_os ''a'') (background 1) zero_meta (bytes_Reader ''hi'')
      (os_new (\<lambda>_. None)) = Some ((m', None), s1)
    \<and> OsStore_Open example_lib (OsStores_Use example_os ''a'') (background 2) (Digest m') (mended s1) = Some (Inr (''hi'', i), s3)"
proof -
  obtain m' s1 where a: "OsStore_Add example_lib (OsStores_Use example_os ''a'') (background 1) zero_meta (bytes_Reader ''hi'')
      (os_new (\<lambda>_. None)) = Some ((m', None), s1)" using os_add_example by blast
  show ?thesis
    using os_add_open [OF example_lib_ok singleton_free [of _ "''hi''"] os_new_facts(5,2) _ a mended_facts, of "background 2"] a
    by auto
qed

text \<open>
  \<open>Label\<close> replaces the labels of one entry or nothing. From any reachable state and under any
  failures it returns; with success exactly that entry has the new labels file, all its bytes and every
  other entry as before; with an error nothing shown has changed, and on a day without failures the
  error is \<open>ErrNotExist\<close> and the entry is not there.
\<close>

theorem os_label_replaces:
  assumes "digest_lib_ok L" "os_reach L U st s"
  shows "\<exists>err s'. OsStore_Label L (OsStores_Use st ns) e d ls s = Some (err, s')
    \<and> (case err of
         None \<Rightarrow> \<exists>b l. os_view L s ns d = Some (b, l)
           \<and> os_view L s' = (os_view L s)(ns := (os_view L s ns)(d \<mapsto> (b, Some (writeLabels ls))))
       | Some x \<Rightarrow> os_view L s' = os_view L s \<and> (quiet s \<longrightarrow> x = ErrNotExist \<and> os_view L s ns d = None))"
proof -
  note s = safe_refl [OF os_reach_ok [OF assms]]
  obtain err s' where run: "OsStore_Label L (OsStores_Use st ns) e d ls s = Some (err, s')"
    and eff: "label_done L (over U) s ns d ls err s'"
    using returnsD [OF returns_Label [OF assms(1)] s] by blast
  show ?thesis
    by (intro exI, rule conjI [OF run]) (use eff in \<open>auto simp: label_done_def changed_def safe_def split: option.splits\<close>)
qed

theorem os_label_replaces_witness:
  "\<exists>s s'. os_view example_lib s ''a'' hi_digest = Some (''hi'', Some (writeLabels None))
    \<and> OsStore_Label example_lib (OsStores_Use example_os ''a'') (background 1) hi_digest (Some [(''K'', [''v''])]) (mended s) = Some (None, s')
    \<and> os_view example_lib s' ''a'' hi_digest = Some (''hi'', Some (writeLabels (Some [(''K'', [''v''])])))"
proof -
  obtain s where s: "os_reach example_lib {''hi''} example_os s"
      "os_view example_lib s ''a'' hi_digest = Some (''hi'', Some (writeLabels None))" using os_add_example by auto
  have v: "os_view example_lib (mended s) = os_view example_lib s" by (rule os_view_weather [OF mended_facts(1)])
  show ?thesis
    using os_label_replaces [OF example_lib_ok os_reach.change [OF s(1) mended_facts(1)], of "''a''" "background 1" hi_digest "Some [(''K'', [''v''])]"]
      s(2) v mended_facts(2) by (fastforce split: option.splits)
qed

text \<open>
  C20. \<open>Erase\<close> takes one entry away and never harms another. From any reachable state and under any
  failures it returns and every other entry of every namespace, of the same blob too, shows what it
  showed; with success the entry is gone; and on a day without failures it succeeds, and the shared
  blob does not stay behind when no other name refers to it.
\<close>

theorem os_erase_isolated:
  assumes "digest_lib_ok L" "os_reach L U st s" "unblocked s"
  shows "\<exists>err s'. OsStore_Erase L (OsStores_Use st ns) e d s = Some (err, s')
    \<and> (\<forall>ns' d'. ns' \<noteq> ns \<or> d' \<noteq> d \<longrightarrow> os_view L s' ns' d' = os_view L s ns' d')
    \<and> (err = None \<longrightarrow> os_view L s' ns d = None)
    \<and> (quiet s \<longrightarrow> err = None)
    \<and> (quiet s \<longrightarrow> live e \<longrightarrow> dl_Validate L d = None \<longrightarrow>
         (\<forall>i. file_at s' (pathToBlob L d) = Some i \<longrightarrow> links s' i > 1))"
proof -
  obtain err s' where run: "OsStore_Erase L (OsStores_Use st ns) e d s = Some (err, s')"
    and eff: "erase_done L (over U) s ns e d err s'"
    using returnsD [OF returns_Erase [OF assms(1,3) os_reach_ok [OF assms(1,2)]] refl] by blast
  show ?thesis by (intro exI, rule conjI [OF run]) (use eff in \<open>auto simp: erase_done_def reclaimed_def\<close>)
qed

theorem os_erase_isolated_witness:
  "\<exists>s s'. os_view example_lib s ''a'' hi_digest \<noteq> None
    \<and> OsStore_Erase example_lib (OsStores_Use example_os ''a'') (background 1) hi_digest (mended s) = Some (None, s')
    \<and> os_view example_lib s' ''a'' hi_digest = None"
proof -
  obtain s where s: "os_reach example_lib {''hi''} example_os s"
      "os_view example_lib s ''a'' hi_digest = Some (''hi'', Some (writeLabels None))" using os_add_example by auto
  show ?thesis
    using os_erase_isolated [OF example_lib_ok os_reach.change [OF s(1) mended_facts(1)] quiet_unblocked [OF mended_facts(2)],
        of "''a''" "background 1" hi_digest] s(2) mended_facts(2) [of s] by auto
qed

text \<open>
  C38. \<open>Link\<close> gives a namespace the blob of another one without copying it. From any reachable state and
  under any failures it returns; with success the destination, which did not have the blob, shows the
  source's bytes with the labels read from the source, through the same inode, and nothing else has
  changed; with an error nothing shown has changed.
\<close>

theorem os_link_shares:
  assumes "digest_lib_ok L" "collision_free L U" "os_reach L U st s" "unblocked s" "dl_Validate L d = None"
  shows "\<exists>res s'. OsStore_Link L (OsStores_Use st ns) e d (Os_source (OsStores_Use st ns')) s = Some (res, s')
    \<and> (if snd res = None
       then \<exists>b lb l. os_view L s ns' d = Some (b, lb) \<and> os_view L s ns d = None \<and> labels_of lb l
           \<and> fst res = \<lparr>Digest = d, Labels = l, Size = int (length b)\<rparr>
           \<and> os_view L s' = (os_view L s)(ns := (os_view L s ns)(d \<mapsto> (b, Some (writeLabels l))))
           \<and> file_at s' (pathToRepo L (OsStores_Use st ns) d [''blob'']) = file_at s' (pathToBlob L d)
       else os_view L s' = os_view L s)"
proof -
  note ok = os_reach_ok [OF assms(1,3)]
  obtain res s' where run: "OsStore_Link L (OsStores_Use st ns) e d (Os_source (OsStores_Use st ns')) s = Some (res, s')"
    and eff: "link_done L (over U) s ns ns' e d res s'"
    using returnsD [OF returns_Link [OF assms(1,4)] safe_refl [OF ok]] assms(5) by fastforce
  show ?thesis
  proof (cases "snd res")
    case None
    then obtain x l where x: "os_view L s ns' d = Some x" "os_view L s ns d = None" "labels_of (snd x) l"
        "fst res = \<lparr>Digest = d, Labels = l, Size = int (length (fst x))\<rparr>" "published L (over U) s ns d (writeLabels l) s'"
      using eff by (auto simp: link_done_def)
    have "names_bytes L d (fst x)" "fst x \<in> U"
      using os_okD(3,4) [OF ok assms(5)] x(1) assms(5) by (fastforce simp: os_view_def show_entry_def split: option.splits)+
    then have p: "os_ok L (over U) s'" "os_view L s' = (os_view L s)(ns := (os_view L s ns)(d \<mapsto> (fst x, Some (writeLabels l))))"
      using published_exact [OF assms(2) x(5)] by auto
    then have "os_view L s' ns d \<noteq> None" by simp
    then have "file_at s' (entry_path L ns d @ [''blob'']) \<noteq> None" using view_None [OF assms(5), of s' ns] by simp
    then have "file_at s' (entry_path L ns d @ [''blob'']) = file_at s' (pathToBlob L d)"
      using os_okD(4) [OF p(1) assms(5), of ns] by fastforce
    note same = this
    show ?thesis
      by (intro exI, rule conjI [OF run]) (use None x p(2) same in \<open>cases x, simp\<close>)
  next
    case (Some err)
    then show ?thesis using run eff safeD(4) by (fastforce simp: link_done_def)
  qed
qed

theorem os_link_shares_witness:
  "\<exists>s res s'. os_view example_lib s ''a'' hi_digest = Some (''hi'', Some (writeLabels None))
    \<and> OsStore_Link example_lib (OsStores_Use example_os ''b'') (background 1) hi_digest (Os_source (OsStores_Use example_os ''a'')) s
        = Some (res, s')
    \<and> (snd res = None \<longrightarrow> map_option fst (os_view example_lib s' ''b'' hi_digest) = Some ''hi'')"
proof -
  obtain s where s: "os_reach example_lib {''hi''} example_os s"
      "os_view example_lib s ''a'' hi_digest = Some (''hi'', Some (writeLabels None))" using os_add_example by auto
  have "dl_Validate example_lib hi_digest = None" using s(2) by (auto simp: os_view_def split: if_splits)
  from os_link_shares [OF example_lib_ok singleton_free os_reach.change [OF s(1) mended_facts(1)] quiet_unblocked [OF mended_facts(2)] this,
      of "''b''" "background 1" "''a''"]
  obtain res s' where r: "OsStore_Link example_lib (OsStores_Use example_os ''b'') (background 1) hi_digest (Os_source (OsStores_Use example_os ''a''))
      (mended s) = Some (res, s')"
    and "snd res = None \<longrightarrow> map_option fst (os_view example_lib s' ''b'' hi_digest) = Some ''hi''"
    using s(2) os_view_weather [OF mended_facts(1), of example_lib s] by (auto split: if_splits)
  then show ?thesis using s(2) os_view_weather [OF mended_facts(1), of example_lib s] by (metis (no_types))
qed

section \<open>Fills on a day without failures\<close>

text \<open>The verdict of a tracker that nobody aborts is the digest's.\<close>

definition judged :: "'h digest_lib \<Rightarrow> 'h fillTracker \<Rightarrow> bool" where
  "judged L t \<longleftrightarrow>
     (ft_state t = None
      \<or> int (length (ft_data t)) = ft_size t
        \<and> (ft_state t = Some EOF \<or> data_digest L (dl_Algorithm L (ft_want t)) (ft_data t) \<noteq> ft_want t))"

lemma judged_new: "digest_lib_ok L \<Longrightarrow> newFillTracker L m = Inr t \<Longrightarrow> judged L t"
  by (auto simp: newFillTracker_def judged_def fill_verify_def data_digest_def Let_def split: if_splits)

lemma judged_write:
  assumes "digest_lib_ok L" "ft_h t = dl_Write L (dl_Hash L (dl_Algorithm L (ft_want t))) (ft_data t)" "ft_state t = None"
    and "ft_written t = int (length (ft_data t))" "n \<le> length p"
  shows "judged L (snd (fill_write_leave L short n err (fill_write_store L p n t)))"
  using assms
  by (auto simp: judged_def fill_write_leave_def fill_write_store_def fill_verify_def fill_notify_def data_digest_def Let_def)

lemma fill_Write_quiet:
  assumes "digest_lib_ok L" "fill_at L (over U) s0 f s" "quiet s0" "judged L (of_t f)"
    and "int (length (ft_data (of_t f)) + length p) \<le> ft_size (of_t f)" "osFill_Write L p f s = Some (r, s')"
  shows "judged L (of_t (snd r)) \<and> (ft_state (of_t f) = None \<longrightarrow> ft_data (of_t (snd r)) = ft_data (of_t f) @ p)
    \<and> (ft_state (of_t f) \<noteq> None \<longrightarrow> snd r = f)"
proof (cases "ft_state (of_t f)")
  case (Some err)
  then show ?thesis using assms(4,6) by (auto simp: osFill_Write_def fill_write_enter_def ret_def)
next
  case None
  have inv: "fill_bytes_inv L (of_t f) Writer_idle" and q: "fs_fault s n = None" for n
    using assms(2,3) by (auto simp: fill_at_def safe_def quiet_def)
  have h: "ft_h (of_t f) = dl_Write L (dl_Hash L (dl_Algorithm L (ft_want (of_t f)))) (ft_data (of_t f))"
    and w: "ft_written (of_t f) = int (length (ft_data (of_t f)))"
    using inv by (simp_all add: fill_bytes_inv_def)
  have "fill_write_enter p (of_t f) = Inr (p, False)"
    using None inv assms(5) by (simp add: fill_write_enter_def fill_bytes_inv_def Let_def)
  then have r: "r = (let (res, tr) = fill_write_leave L False (length p) None (fill_write_store L p (length p) (of_t f))
                     in (res, f\<lparr>of_t := tr\<rparr>))"
    using assms(6) q
    by (auto simp: osFill_Write_def bind_def ret_def file_Write_count_def file_Write_def sys_def Let_def split: prod.splits)
  have "of_t (snd r) = snd (fill_write_leave L False (length p) None (fill_write_store L p (length p) (of_t f)))"
    by (simp add: r Let_def split: prod.splits)
  moreover have "ft_data (snd (fill_write_leave L False (length p) None (fill_write_store L p (length p) (of_t f))))
      = ft_data (of_t f) @ p"
    by (simp add: fill_write_leave_def fill_write_store_def fill_verify_def fill_notify_def Let_def)
  ultimately show ?thesis using judged_write [OF assms(1) h None w] None by simp
qed

text \<open>Pieces that make up the bytes of the digest, with its size, complete the fill.\<close>

lemma fill_writes_quiet:
  assumes "digest_lib_ok L" "quiet s0" "fill_at L (over U) s0 f s" "judged L (of_t f)"
    and "int (length (ft_data (of_t f) @ concat ps)) = ft_size (of_t f)"
    and "data_digest L (dl_Algorithm L (ft_want (of_t f))) (ft_data (of_t f) @ concat ps) = ft_want (of_t f)"
    and "fill_writes L ps f s = Some (f', s')"
  shows "fill_complete (of_t f') = None \<and> ft_data (of_t f') = ft_data (of_t f) @ concat ps"
  using assms(3-)
proof (induction ps arbitrary: f s)
  case Nil
  then show ?case
    by (auto simp: ret_def fill_at_def fill_bytes_inv_def judged_def fill_complete_def)
next
  case (Cons p ps)
  obtain r s1 where w: "osFill_Write L p f s = Some (r, s1)" and run: "fill_writes L ps (snd r) s1 = Some (f', s')"
    using Cons.prems(5) by (auto simp: bind_def split: option.splits)
  have at: "fill_at L (over U) s0 (snd r) s1" and same: "same_fill f (snd r)"
    using returns_result [OF returns_fill_Write [OF assms(1)] Cons.prems(1) w] by auto
  have keep: "ft_size (of_t (snd r)) = ft_size (of_t f)" "ft_want (of_t (snd r)) = ft_want (of_t f)"
    using at Cons.prems(1) same by (simp_all add: fill_at_def same_fill_def)
  note q = fill_Write_quiet [OF assms(1) Cons.prems(1) assms(2) Cons.prems(2) _ w]
  have le: "int (length (ft_data (of_t f)) + length p) \<le> ft_size (of_t f)" using Cons.prems(3) by simp
  have inv: "fill_bytes_inv L (of_t f) Writer_idle" using Cons.prems(1) by (simp add: fill_at_def)
  have data: "ft_data (of_t (snd r)) = ft_data (of_t f) @ p"
  proof (cases "ft_state (of_t f)")
    case (Some st)
    then have "int (length p) + int (length (concat ps)) = 0" using Cons.prems(2,3) by (simp add: judged_def)
    then have "length p = 0" by linarith
    then have "p = []" by simp
    then show ?thesis using q [OF le] Some by simp
  qed (use q [OF le] in simp)
  show ?case using Cons.IH [OF at _ _ _ run] q [OF le] Cons.prems(3,4) by (simp add: data keep)
qed

text \<open>
  C21. A fill shows nothing until it is committed, and then all or nothing. Whatever pieces are written
  and whichever calls fail, no namespace shows anything of it; \<open>Commit\<close> returns, and publishes exactly
  the bytes written, of the size announced and named by the digest announced, or changes nothing; and
  without failures the right bytes in any pieces are published unless the blob is there already.
\<close>

theorem os_fill_commits:
  fixes m :: meta
  assumes "digest_lib_ok L" "collision_free L U" "os_reach L U st s" "unblocked s"
    and "OsStore_Fill L (OsStores_Use st ns) e m s = Some (Inr f, s1)" "fill_writes L ps f s1 = Some (f', s2)"
    and "ft_data (of_t f') \<in> U"
  shows "os_view L s2 = os_view L s
    \<and> (\<exists>res f'' s3. osFill_Commit L e' f' s2 = Some ((res, f''), s3)
        \<and> (if snd res = None
           then names_bytes L (Digest m) (ft_data (of_t f')) \<and> int (length (ft_data (of_t f'))) = Size m
             \<and> os_view L s3 = (os_view L s)(ns := (os_view L s ns)
                 (Digest m \<mapsto> (ft_data (of_t f'), Some (writeLabels (Labels m)))))
           else os_view L s3 = os_view L s)
        \<and> (quiet s \<longrightarrow> live e' \<longrightarrow> names_bytes L (Digest m) (concat ps) \<longrightarrow> Size m = int (length (concat ps)) \<longrightarrow>
             snd res = (if os_view L s ns (Digest m) = None then None else Some ErrAlreadyExists)
             \<and> ft_data (of_t f') = concat ps))"
proof -
  note ok = os_reach_ok [OF assms(1,3)]
  have f: "fill_at L (over U) s f s1" "of_s f = OsStores_Use st ns" "of_m f = m"
    using returns_result [OF returns_Fill [OF assms(1)] safe_refl [OF ok] assms(5)] by auto
  have f': "fill_at L (over U) s f' s2" "of_s f' = OsStores_Use st ns" "of_m f' = m"
    using returns_result [OF returns_fill_writes [OF assms(1)] f(1) assms(6)] f(2,3) by (auto simp: same_fill_def)
  obtain res f'' s3 where run: "osFill_Commit L e' f' s2 = Some ((res, f''), s3)"
    and c: "commit_done L (over U) s ns e' f' res s3"
    using returnsD [OF returns_fill_Commit [OF assms(1,4) overI [OF assms(7)] f'(2)] f'(1)] by fastforce
  have new: "judged L (of_t f) \<and> ft_data (of_t f) = []"
    using assms(5) judged_new [OF assms(1)] newFillTracker_facts(2) [OF assms(1)]
    by (auto simp: OsStore_Fill_def chk_def bind_def ret_def Let_def split: sum.splits option.splits prod.splits)
  have quick: "fill_complete (of_t f') = None \<and> ft_data (of_t f') = concat ps"
    if "quiet s" "names_bytes L (Digest m) (concat ps)" "Size m = int (length (concat ps))"
    using fill_writes_quiet [OF assms(1) that(1) f(1) _ _ _ assms(6)] new that f(1,3)
    by (simp add: fill_at_def names_bytes_def)
  have "os_view L s2 = os_view L s" using f'(1) safeD(4) [of L "over U" s s2] by (simp add: fill_at_def)
  moreover have "if snd res = None
           then names_bytes L (Digest m) (ft_data (of_t f')) \<and> int (length (ft_data (of_t f'))) = Size m
             \<and> os_view L s3 = (os_view L s)(ns := (os_view L s ns)
                 (Digest m \<mapsto> (ft_data (of_t f'), Some (writeLabels (Labels m)))))
           else os_view L s3 = os_view L s"
  proof (cases "snd res")
    case None
    then have comp: "fill_complete (of_t f') = None" and pub: "published L (over U) s ns (Digest m) (writeLabels (Labels m)) s3"
      using c f'(3) by (auto simp: commit_done_def)
    have "names_bytes L (Digest m) (ft_data (of_t f'))" using fill_at_complete(1) [OF f'(1) comp] f'(3) by simp
    moreover have "int (length (ft_data (of_t f'))) = Size m"
      using f'(1,3) comp by (auto simp: fill_at_def fill_bytes_inv_def fill_complete_def split: option.splits if_splits)
    ultimately show ?thesis using None published_exact [OF assms(2) pub _ assms(7)] by simp
  next
    case (Some err)
    then show ?thesis using c safeD(4) by (auto simp: commit_done_def)
  qed
  moreover have "snd res = (if os_view L s ns (Digest m) = None then None else Some ErrAlreadyExists) \<and> ft_data (of_t f') = concat ps"
    if "quiet s" "live e'" "names_bytes L (Digest m) (concat ps)" "Size m = int (length (concat ps))"
    using quick [OF that(1,3,4)] c f'(3) that by (auto simp: commit_done_def split: option.splits)
  ultimately show ?thesis using run by blast
qed

definition hi_meta :: meta where
  "hi_meta = \<lparr>Digest = hi_digest, Labels = None, Size = 2\<rparr>"

theorem os_fill_commits_witness:
  "\<exists>f s1 f' s2 res f'' s3.
      OsStore_Fill example_lib (OsStores_Use example_os ''a'') (background 1) hi_meta (os_new (\<lambda>_. None)) = Some (Inr f, s1)
    \<and> fill_writes example_lib [''h'', ''i''] f s1 = Some (f', s2)
    \<and> osFill_Commit example_lib (background 2) f' s2 = Some ((res, f''), s3)
    \<and> snd res = None \<and> map_option fst (os_view example_lib s3 ''a'' hi_digest) = Some ''hi''"
proof -
  let ?s = "os_new (\<lambda>_. None)"
  have named: "names_bytes example_lib hi_digest ''hi''"
    by (rule names_bytes_data_digest [OF example_lib_ok Canonical_algorithm])
  have m: "Digest hi_meta = hi_digest" "Size hi_meta = 2" by (simp_all add: hi_meta_def)
  obtain f s1 where f: "OsStore_Fill example_lib (OsStores_Use example_os ''a'') (background 1) hi_meta ?s = Some (Inr f, s1)"
      "fill_at example_lib (over {''hi''}) ?s f s1" "of_m f = hi_meta"
    using returnsD [OF returns_Fill [OF example_lib_ok, of "over {''hi''}" ?s example_os "''a''" "background 1" hi_meta] safe_refl [OF os_new_facts(6)]]
      named by (fastforce simp: m os_new_facts names_bytes_def split: sum.splits)
  obtain f' s2 where w: "fill_writes example_lib [''h'', ''i''] f s1 = Some (f', s2)"
    using returnsD [OF returns_fill_writes [OF example_lib_ok] f(2), of "[''h'', ''i'']"] by blast
  have new: "judged example_lib (of_t f) \<and> ft_data (of_t f) = []"
    using f(1) judged_new [OF example_lib_ok] newFillTracker_facts(2) [OF example_lib_ok]
    by (auto simp: OsStore_Fill_def chk_def bind_def ret_def Let_def split: sum.splits option.splits prod.splits)
  have "ft_data (of_t f') = ''hi''"
    using fill_writes_quiet [OF example_lib_ok os_new_facts(3) f(2) _ _ _ w] new f(2,3) named
    by (simp add: fill_at_def names_bytes_def m)
  then have "ft_data (of_t f') \<in> {''hi''}" by simp
  from os_fill_commits [OF example_lib_ok singleton_free os_new_facts(5,2) f(1) w this, of "background 2"]
  obtain res f'' s3 where "osFill_Commit example_lib (background 2) f' s2 = Some ((res, f''), s3)" "snd res = None"
      "map_option fst (os_view example_lib s3 ''a'' hi_digest) = Some ''hi''"
    using named by (auto simp: m os_new_facts \<open>ft_data (of_t f') = ''hi''\<close> split: if_splits)
  then show ?thesis using f(1) w by blast
qed

section \<open>Waiting for a lock\<close>

definition lock_wait :: "nat \<Rightarrow> duration" where
  "lock_wait i = min (lockRetryMin * 2 ^ i) lockRetryMax"

lemma lock_wait_Suc: "min (lock_wait i * 2) lockRetryMax = lock_wait (Suc i)"
  by (auto simp: lock_wait_def min_def lockRetryMin_def lockRetryMax_def)

definition waited :: "osfs \<Rightarrow> duration list \<Rightarrow> ((error + bool) \<times> duration list) \<times> osfs \<Rightarrow> bool" where
  "waited s ws y \<longleftrightarrow>
     (let (r, ws') = fst y; n = length ws' - length ws
      in ws' = map lock_wait [0..<length ws'] \<and> length ws \<le> length ws' \<and> fs_sys (snd y) = Suc (fs_sys s + n)
         \<and> (\<forall>i < n. fs_try s (fs_sys s + i) = Inr False)
         \<and> (r = Inr True \<longrightarrow> fs_try s (fs_sys s + n) = Inr True))"

lemma waited_now:
  "ws = map lock_wait [0..<length ws] \<Longrightarrow> (r = Inr True \<longrightarrow> fs_try s (fs_sys s) = Inr True) \<Longrightarrow> waited s ws ((r, ws), tick s)"
  by (simp add: waited_def tick_def)

lemma waited_later:
  assumes "waited (tick s) (ws @ [lock_wait (length ws)]) y" "fs_try s (fs_sys s) = Inr False"
  shows "waited s ws y"
proof -
  obtain r ws' s' where y: "y = ((r, ws'), s')" by (metis prod.collapse)
  let ?n = "length ws' - Suc (length ws)"
  have n: "length ws' - length ws = Suc ?n" and w: "ws' = map lock_wait [0..<length ws']" "fs_sys s' = Suc (Suc (fs_sys s) + ?n)"
      "\<forall>i < ?n. fs_try s (Suc (fs_sys s) + i) = Inr False" "r = Inr True \<longrightarrow> fs_try s (Suc (fs_sys s) + ?n) = Inr True" "Suc (length ws) \<le> length ws'"
    using assms(1) by (auto simp: waited_def y tick_def Let_def)
  have "fs_try s (fs_sys s + i) = Inr False" if "i < Suc ?n" for i
    using that assms(2) w(3) by (cases i) auto
  then show ?thesis using w n by (simp add: waited_def y Let_def)
qed

lemma try_loop_waits:
  assumes "try_loop e k delay ws s = Some y" "delay = lock_wait (length ws)" "ws = map lock_wait [0..<length ws]"
  shows "waited s ws y"
  using assms(2,3)
proof (induction rule: try_loop.raw_induct [OF _ assms(1), consumes 0])
  case (1 loop e k delay ws s y)
  note IH = 1(1) and run = 1(2) and w = 1(3,4)
  show ?case
  proof (cases "fs_try s (fs_sys s)")
    case (Inl err)
    then show ?thesis using run waited_now [OF w(2), of "Inl err" s] by (auto simp: TryLock_def)
  next
    case (Inr ok)
    show ?thesis
    proof (cases ok)
      case True
      then show ?thesis using run Inr waited_now [OF w(2), of "Inr True" s] by (auto simp: TryLock_def)
    next
      case False
      show ?thesis
      proof (cases "ctx_Err e k")
        case (Some err)
        then show ?thesis using run Inr False waited_now [OF w(2), of "Inl err" s] by (auto simp: TryLock_def)
      next
        case None
        then have "loop e (Suc k) (lock_wait (Suc (length ws))) (ws @ [lock_wait (length ws)]) (tick s) = Some y"
          using run Inr False w(1) by (simp add: TryLock_def lock_wait_Suc)
        moreover have "ws @ [lock_wait (length ws)] = map lock_wait [0..<length (ws @ [lock_wait (length ws)])]"
          using w(2) by simp
        ultimately have "waited (tick s) (ws @ [lock_wait (length ws)]) y" using IH by simp
        then show ?thesis by (rule waited_later) (simp add: Inr False)
      qed
    qed
  qed
qed

text \<open>
  A lock is waited for with bounded pauses. Between its attempts \<open>tryLockContext\<close> waits one
  millisecond, then twice as long each time up to a tenth of a second; it reports the lock only
  when the system has given it, at the attempt after the last wait, and not at any attempt before.
\<close>

theorem lock_waits_bounded:
  assumes "tryLockContext e s = Some ((r, ws), s')"
  shows "ws = map (\<lambda>i. min (10 ^ 6 * 2 ^ i) (10 ^ 8)) [0..<length ws]
    \<and> (r = Inr True \<longrightarrow> fs_try s (fs_sys s + length ws) = Inr True)
    \<and> (\<forall>i < length ws. fs_try s (fs_sys s + i) = Inr False)"
proof (cases "ctx_Err e 0")
  case None
  have "waited s [] ((r, ws), s')"
    by (rule try_loop_waits [where delay = lockRetryMin and e = e and k = 1])
      (use assms None in \<open>auto simp: tryLockContext_def lock_wait_def lockRetryMin_def lockRetryMax_def\<close>)
  moreover have "lock_wait = (\<lambda>i. min (10 ^ 6 * 2 ^ i) (10 ^ 8))"
    by (simp add: fun_eq_iff lock_wait_def lockRetryMin_def lockRetryMax_def)
  ultimately show ?thesis by (simp add: waited_def Let_def)
next
  case (Some err)
  then show ?thesis using assms by (auto simp: tryLockContext_def ret_def)
qed

theorem lock_waits_bounded_witness:
  "\<exists>s'. tryLockContext (background 0) ((os_new (\<lambda>_. None))\<lparr>fs_try := (\<lambda>n. Inr (n = 2))\<rparr>) = Some ((Inr True, [10 ^ 6, 2 * 10 ^ 6]), s')
    \<and> [10 ^ 6, 2 * 10 ^ 6] = map (\<lambda>i. min (10 ^ 6 * 2 ^ i) (10 ^ 8) :: duration) [0..<2]"
proof -
  let ?s = "(os_new (\<lambda>_. None))\<lparr>fs_try := (\<lambda>n. Inr (n = 2))\<rparr>"
  have "\<exists>s'. tryLockContext (background 0) ?s = Some ((Inr True, [10 ^ 6, 2 * 10 ^ 6]), s')"
    by (simp add: tryLockContext_def background_def, (subst try_loop.simps, simp add: TryLock_def tick_def os_new_def)+)
      (simp add: lockRetryMin_def lockRetryMax_def)
  then obtain s' where run: "tryLockContext (background 0) ?s = Some ((Inr True, [10 ^ 6, 2 * 10 ^ 6]), s')" by blast
  show ?thesis using lock_waits_bounded [OF run] run by (auto simp: eval_nat_numeral)
qed

end
