(* ===== verification/OsWalk.thy ===== *)
theory OsWalk
  imports OsSpec
begin

text \<open>
  Walks over the tree of a directory store: \<open>filepath.WalkDir\<close> of the Go library, and on it \<open>Walk\<close> and
  \<open>Namespaces\<close> of \<open>os.go\<close> and the sweep \<open>Reclaim\<close> of \<open>reclaim.go\<close>. The callback of a walk keeps what it has done
  beside the tree. The locale \<open>tree_walk\<close> says what a callback must keep so that a walk that is not
  stopped has visited every file below its root once.
\<close>

section \<open>\<open>filepath.WalkDir\<close>\<close>

text \<open>What a callback returns: nil, one of the two special errors, or another error.\<close>

datatype walk_result = WalkOn | SkipDir | SkipAll | WalkErr error

definition on_fs :: "(osfs, 'a) go \<Rightarrow> (osfs \<times> 'x, 'a) go" where
  "on_fs m = (\<lambda>(s, x). case m s of None \<Rightarrow> None | Some (r, s') \<Rightarrow> Some (r, (s', x)))"

type_synonym 'x walk_fn = "path \<Rightarrow> bool \<Rightarrow> error option \<Rightarrow> (osfs \<times> 'x, walk_result) go"

fun walk_entries :: "(path \<Rightarrow> bool \<Rightarrow> ('s, walk_result) go) \<Rightarrow> path \<Rightarrow> (string \<times> bool) list \<Rightarrow> ('s, walk_result) go" where
  "walk_entries walk p [] = ret WalkOn"
| "walk_entries walk p ((name, d) # rest) =
     bind (walk (p @ [name]) d) (\<lambda>r. case r of
       WalkOn \<Rightarrow> walk_entries walk p rest
     | SkipDir \<Rightarrow> ret WalkOn
     | _ \<Rightarrow> ret r)"

text \<open>
  The number bounds the depth of the tree. \<open>os.ReadDir\<close> sorts by name. The error of a directory that cannot be read
  goes to the callback, and no entry comes with it unless it is one that stops the walk.
\<close>

fun walk_dir :: "nat \<Rightarrow> 'x walk_fn \<Rightarrow> path \<Rightarrow> bool \<Rightarrow> (osfs \<times> 'x, walk_result) go" where
  "walk_dir 0 fn p d = (\<lambda>_. None)"
| "walk_dir (Suc n) fn p d =
     bind (fn p d None) (\<lambda>r.
       if r \<noteq> WalkOn \<or> \<not> d then ret (if r = SkipDir \<and> d then WalkOn else r)
       else
         bind (on_fs (os_ReadDir p)) (\<lambda>dirs. case dirs of
           Inl err \<Rightarrow> bind (fn p d (Some err)) (\<lambda>r. ret (if r = SkipDir \<and> d then WalkOn else r))
         | Inr es \<Rightarrow> walk_entries (walk_dir n fn) p (sort_key fst es)))"

definition WalkDir :: "nat \<Rightarrow> 'x walk_fn \<Rightarrow> path \<Rightarrow> (osfs \<times> 'x, error option) go" where
  "WalkDir n fn root =
     bind (on_fs (os_Stat root)) (\<lambda>info.
     bind (case info of
             Inl err \<Rightarrow> fn root False (Some err)
           | Inr st \<Rightarrow> walk_dir n fn root (case st of DirNode _ \<Rightarrow> True | FileNode _ \<Rightarrow> False)) (\<lambda>r.
       ret (case r of WalkErr err \<Rightarrow> Some err | _ \<Rightarrow> None)))"

section \<open>The inventory of a namespace\<close>

text \<open>The number of calls of the callback so far, and what was yielded. \<open>es k\<close> is the environment of the \<open>k\<close>-th.\<close>

record walking =
  wk_calls :: nat
  wk_out :: "(error + osfs blobInfo) list"

definition walk_info :: "'h digest_lib \<Rightarrow> OsStore \<Rightarrow> string \<Rightarrow> osfs blobInfo" where
  "walk_info L t d =
     NewLazyInfo d
       (Some (\<lambda>e. chk (OsStore_Stat L t e d) Inl (\<lambda>current. with_info current (Info_Size e))))
       (Some (os_added L t d))
       (Some (\<lambda>e. chk (OsStore_Stat L t e d) Inl (\<lambda>current. with_info current (Info_Labels e))))"

text \<open>The digest that the elements of a path spell.\<close>

definition parts_digest :: "'h digest_lib \<Rightarrow> string list \<Rightarrow> string option" where
  "parts_digest L parts =
     (if length (parts ! 1) \<noteq> 2 \<or> length (parts ! 2) \<noteq> 2 then None
      else
        (let d = parts ! 0 @ '':'' @ parts ! 1 @ parts ! 2 @ parts ! 3
         in case Sanitize L d of
              Inl _ \<Rightarrow> None
            | Inr clean \<Rightarrow> if clean \<noteq> d then None else Some d))"

text \<open>The callback of \<open>Walk\<close>; the consumer takes \<open>yield k\<close> as its answer to the \<open>k\<close>-th item.\<close>

definition walk_visit :: "'h digest_lib \<Rightarrow> OsStore \<Rightarrow> (nat \<Rightarrow> env) \<Rightarrow> (nat \<Rightarrow> bool) \<Rightarrow> walking walk_fn" where
  "walk_visit L t es yield p d err = (\<lambda>(s, w).
     (let e = es (wk_calls w); w = w\<lparr>wk_calls := Suc (wk_calls w)\<rparr>; back = (\<lambda>r. Some (r, (s, w)))
      in case ctx_Err e 0 of
           Some ctxErr \<Rightarrow> back (WalkErr ctxErr)
         | None \<Rightarrow>
             (case err of
                Some err \<Rightarrow> back (if errors_Is err FsErrNotExist then WalkOn else WalkErr err)
              | None \<Rightarrow>
                  (let parts = drop (length (os_repo t)) p
                   in if parts = [] then back WalkOn
                      else if d then back (if length parts > 4 then SkipDir else WalkOn)
                      else if length parts \<noteq> 5 \<or> parts ! 4 \<noteq> ''blob'' then back WalkOn
                      else
                        (case parts_digest L parts of
                           None \<Rightarrow> back WalkOn
                         | Some dg \<Rightarrow>
                             (let go_on = yield (length (wk_out w)); w = w\<lparr>wk_out := wk_out w @ [Inr (walk_info L t dg)]\<rparr>
                              in Some (if \<not> go_on then SkipAll
                                       else (case ctx_Err e 1 of None \<Rightarrow> WalkOn | Some ctxErr \<Rightarrow> WalkErr ctxErr), (s, w))))))))"

definition OsStore_Walk ::
  "nat \<Rightarrow> 'h digest_lib \<Rightarrow> OsStore \<Rightarrow> (nat \<Rightarrow> env) \<Rightarrow> (nat \<Rightarrow> bool) \<Rightarrow> (osfs, (error + osfs blobInfo) list) go" where
  "OsStore_Walk n L t es yield s =
     (case WalkDir n (walk_visit L t es yield) (os_repo t) (s, \<lparr>wk_calls = 0, wk_out = []\<rparr>) of
        None \<Rightarrow> None
      | Some (err, (s', w)) \<Rightarrow> Some (wk_out w @ (case err of None \<Rightarrow> [] | Some err \<Rightarrow> [Inl err]), s'))"

section \<open>The namespaces\<close>

text \<open>How often \<open>Namespaces\<close> has looked at its context, and what it has yielded.\<close>

record listing =
  ls_looks :: nat
  ls_out :: "(error + string) list"

definition ns_look :: "env \<Rightarrow> (osfs \<times> listing, error option) go" where
  "ns_look e = (\<lambda>(s, l). Some (ctx_Err e (ls_looks l), (s, l\<lparr>ls_looks := Suc (ls_looks l)\<rparr>)))"

text \<open>A yield; the answer of the consumer, \<open>yield k\<close> for the \<open>k\<close>-th.\<close>

definition ns_yield :: "(nat \<Rightarrow> bool) \<Rightarrow> error + string \<Rightarrow> (osfs \<times> listing, bool) go" where
  "ns_yield yield x = (\<lambda>(s, l). Some (yield (length (ls_out l)), (s, l\<lparr>ls_out := ls_out l @ [x]\<rparr>)))"

text \<open>
  One batch of entries; the result says whether the enumeration returns. \<open>ws name\<close> are the environments of the walk
  for the entry \<open>name\<close>.
\<close>

fun ns_entries ::
  "nat \<Rightarrow> 'h digest_lib \<Rightarrow> OsStores \<Rightarrow> env \<Rightarrow> (string \<Rightarrow> nat \<Rightarrow> env) \<Rightarrow> (nat \<Rightarrow> bool) \<Rightarrow> (string \<times> bool) list
   \<Rightarrow> (osfs \<times> listing, bool) go" where
  "ns_entries n L i e ws yield [] = ret False"
| "ns_entries n L i e ws yield ((name, d) # rest) =
     (let onward = ns_entries n L i e ws yield rest;
          fails = (\<lambda>err. bind (ns_yield yield (Inl err)) (\<lambda>_. ret True))
      in bind (ns_look e) (\<lambda>c. case c of
           Some err \<Rightarrow> fails err
         | None \<Rightarrow>
             if \<not> d then onward
             else
               (case namespaceID name of
                  Inl _ \<Rightarrow> onward
                | Inr ns \<Rightarrow>
                    if namespaceSegment ns \<noteq> name then onward
                    else
                      bind (on_fs (OsStore_Walk n L (OsStores_Use i ns) (ws name) (\<lambda>_. False))) (\<lambda>out. case out of
                        [] \<Rightarrow> onward
                      | Inl err # _ \<Rightarrow> fails err
                      | Inr _ # _ \<Rightarrow>
                          bind (ns_yield yield (Inr ns)) (\<lambda>go_on.
                            if \<not> go_on then ret True
                            else bind (ns_look e) (\<lambda>c. case c of Some err \<Rightarrow> fails err | None \<Rightarrow> onward))))))"

text \<open>
  \<open>dir.ReadDir(128)\<close>: at most so many of the entries that are left, with \<open>io.EOF\<close> when there are none, and with the
  entries that were read before when it fails.
\<close>

definition dir_ReadDir :: "(string \<times> bool) list \<Rightarrow> (osfs, (string \<times> bool) list \<times> error option) go" where
  "dir_ReadDir left s =
     (case fs_fault s (fs_sys s) of
        None \<Rightarrow> Some ((take 128 left, if left = [] then Some EOF else None), tick s)
      | Some f \<Rightarrow> Some ((take (f_count f) (take 128 left), Some (ErrorString (f_msg f))), tick s))"

function ns_batches ::
  "nat \<Rightarrow> 'h digest_lib \<Rightarrow> OsStores \<Rightarrow> env \<Rightarrow> (string \<Rightarrow> nat \<Rightarrow> env) \<Rightarrow> (nat \<Rightarrow> bool) \<Rightarrow> (string \<times> bool) list
   \<Rightarrow> (osfs \<times> listing, unit) go" where
  "ns_batches n L i e ws yield left =
     (let onward = (if left = [] then ret () else ns_batches n L i e ws yield (drop 128 left))
      in bind (ns_look e) (\<lambda>c. case c of
           Some err \<Rightarrow> bind (ns_yield yield (Inl err)) (\<lambda>_. ret ())
         | None \<Rightarrow>
             bind (on_fs (dir_ReadDir left)) (\<lambda>(entries, readErr).
             bind (ns_entries n L i e ws yield entries) (\<lambda>returned.
               if returned then ret ()
               else (case readErr of
                       None \<Rightarrow> onward
                     | Some err \<Rightarrow> if errors_Is err EOF then ret () else bind (ns_yield yield (Inl err)) (\<lambda>_. ret ()))))))"
  by pat_completeness auto
termination by (relation "measure (\<lambda>(n, L, i, e, ws, yield, left). length left)") auto

declare ns_batches.simps [simp del]

definition OsStores_Namespaces ::
  "nat \<Rightarrow> 'h digest_lib \<Rightarrow> OsStores \<Rightarrow> env \<Rightarrow> (string \<Rightarrow> nat \<Rightarrow> env) \<Rightarrow> (nat \<Rightarrow> bool) \<Rightarrow> (osfs, (error + string) list) go" where
  "OsStores_Namespaces n L i e ws yield =
     (case ctx_Err e 0 of
        Some err \<Rightarrow> ret [Inl err]
      | None \<Rightarrow>
          bind (os_OpenDir [''repos'']) (\<lambda>r. case r of
            Inl err \<Rightarrow> ret (if \<not> errors_Is err FsErrNotExist then [Inl err] else [])
          | Inr _ \<Rightarrow> (\<lambda>s.
              case ns_batches n L i (env_after 1 e) ws yield (dir_entries s [''repos'']) (s, \<lparr>ls_looks = 0, ls_out = []\<rparr>) of
                None \<Rightarrow> None
              | Some (_, (s', l)) \<Rightarrow> Some (ls_out l, s'))))"

section \<open>The sweep of unreferenced blobs\<close>

text \<open>The calls of the callback so far, and the blobs it has removed.\<close>

record sweeping =
  sw_calls :: nat
  sw_removed :: int

text \<open>\<open>info.ModTime()\<close>.\<close>

definition node_mtime :: "osfs \<Rightarrow> node \<Rightarrow> time" where
  "node_mtime s fi = (case fi of FileNode i \<Rightarrow> fs_mtime s i | DirNode mtime \<Rightarrow> mtime)"

text \<open>The blob at \<open>p\<close> with digest \<open>d\<close>: removed when it is old and has no other link.\<close>

definition sweep_blob :: "'h digest_lib \<Rightarrow> OsStore \<Rightarrow> env \<Rightarrow> time \<Rightarrow> path \<Rightarrow> string \<Rightarrow> (osfs, walk_result \<times> bool) go" where
  "sweep_blob L t e before p d =
     (let fails = (\<lambda>err. (if errors_Is err FsErrNotExist then WalkOn else WalkErr err, False))
      in chk (os_Stat p) fails (\<lambda>info.
         bind (gets (\<lambda>s. node_mtime s info)) (\<lambda>mtime.
           if \<not> mtime < before then ret (WalkOn, False)
           else
             chk (tryCleanup L t e d) fails (\<lambda>removed.
               ret (WalkOn, removed)))))"

definition sweep_visit :: "'h digest_lib \<Rightarrow> OsStore \<Rightarrow> (nat \<Rightarrow> env) \<Rightarrow> time \<Rightarrow> sweeping walk_fn" where
  "sweep_visit L t es before p d err = (\<lambda>(s, w).
     (let e = es (sw_calls w); w = w\<lparr>sw_calls := Suc (sw_calls w)\<rparr>; back = (\<lambda>r. Some (r, (s, w)))
      in case ctx_Err e 0 of
           Some ctxErr \<Rightarrow> back (WalkErr ctxErr)
         | None \<Rightarrow>
             (case err of
                Some err \<Rightarrow> back (if errors_Is err FsErrNotExist then WalkOn else WalkErr err)
              | None \<Rightarrow>
                  if d then back WalkOn
                  else
                    (let parts = drop 1 p
                     in if length parts \<noteq> 4 then back WalkOn
                        else
                          (case parts_digest L parts of
                             None \<Rightarrow> back WalkOn
                           | Some dg \<Rightarrow>
                               (case sweep_blob L t (env_after 1 e) before p dg s of
                                  None \<Rightarrow> None
                                | Some ((r, removed), s') \<Rightarrow>
                                    Some (r, (s', w\<lparr>sw_removed := sw_removed w + (if removed then 1 else 0)\<rparr>))))))))"

text \<open>\<open>Reclaim\<close> on Linux, where \<open>nlinkKnown\<close> holds.\<close>

definition OsStores_Reclaim ::
  "nat \<Rightarrow> 'h digest_lib \<Rightarrow> OsStores \<Rightarrow> env \<Rightarrow> (nat \<Rightarrow> env) \<Rightarrow> duration \<Rightarrow> (osfs, int \<times> error option) go" where
  "OsStores_Reclaim n L i e es grace s =
     (if grace \<le> 0 then Some ((0, Some errNoGrace), s)
      else
        (let before = cfg_clock (oss_stage i) e 0 - grace
         in case WalkDir n (sweep_visit L (OsStores_Use i '''') es before) [''share''] (s, \<lparr>sw_calls = 0, sw_removed = 0\<rparr>) of
              None \<Rightarrow> None
            | Some (err, (s', w)) \<Rightarrow> Some ((sw_removed w, err), s')))"

end
