(* ===== verification/OsStage.thy ===== *)
theory OsStage
  imports OsStore
begin

text \<open>
  The uploads of a directory store, \<open>os.go\<close> from \<open>Begin\<close> on: a directory for each upload with its
  lock, its bytes, and a manifest that is replaced by a rename. A locked upload is a record; a \<open>Sync\<close>
  is a call that can fail, and the tree has no symbolic links, so that \<open>Lstat\<close> is \<open>Stat\<close>. The calls through
  an \<open>os.Root\<close> are those on the same path.
\<close>

section \<open>Manifests\<close>

text \<open>
  \<open>encoding/json\<close> on a record: what \<open>Marshal\<close> gives, and what a strict decoder reads first and whether
  anything follows it.
\<close>

record manifest_codec =
  cd_Marshal :: "stageRecord \<Rightarrow> error + bytes"
  cd_Decode :: "bytes \<Rightarrow> error + (stageRecord \<times> bool)"

definition manifest_limit :: nat where "manifest_limit = 16 * 2 ^ 20"

definition osStageError :: "error \<Rightarrow> error" where
  "osStageError err = (if errors_Is err FsErrNotExist then ErrNotExist else err)"

definition osStageRegular :: "path \<Rightarrow> (osfs, error + unit) go" where
  "osStageRegular p =
     chk (os_Stat p) (\<lambda>err. Inl (osStageError err)) (\<lambda>info.
       ret (case info of FileNode _ \<Rightarrow> Inr () | DirNode _ \<Rightarrow> Inl ErrStageFormat))"

definition osStageOptionalRegular :: "path \<Rightarrow> (osfs, error + bool) go" where
  "osStageOptionalRegular p =
     bind (osStageRegular p) (\<lambda>r. ret (case r of
       Inl err \<Rightarrow> if errors_Is err ErrNotExist then Inr False else Inl err
     | Inr _ \<Rightarrow> Inr True))"

text \<open>The record of a manifest that was read.\<close>

definition parse_record :: "manifest_codec \<Rightarrow> 'h digest_lib \<Rightarrow> bytes \<Rightarrow> error + stageRecord" where
  "parse_record C L data =
     (if length data > manifest_limit then Inl ErrStageFormat
      else
        (case cd_Decode C data of
           Inl err \<Rightarrow> Inl (Wrapped ''manifest'' ErrStageFormat)
         | Inr (record, extra) \<Rightarrow>
             if extra then Inl ErrStageFormat
             else
               (case validate L record of
                  Some err \<Rightarrow> Inl err
                | None \<Rightarrow>
                    if (State record = StageCommitting \<or> State record = StageCommitted)
                       \<and> (case prepareCommit L record (Commit record) of
                            Inl _ \<Rightarrow> True
                          | Inr prepared \<Rightarrow> \<not> stageCommitMatches prepared (Commit record))
                    then Inl ErrStageFormat
                    else if State record = StageCommitted
                            \<and> (Digest (Result record) \<noteq> Digest (Commit record) \<or> Size (Result record) \<noteq> Offset record)
                    then Inl ErrStageFormat
                    else Inr record)))"

definition osStageReadRecord :: "manifest_codec \<Rightarrow> 'h digest_lib \<Rightarrow> path \<Rightarrow> (osfs, error + stageRecord) go" where
  "osStageReadRecord C L dir =
     chk (osStageRegular (dir @ [''manifest''])) Inl (\<lambda>_.
     chk (os_Open (dir @ [''manifest''])) Inl (\<lambda>f.
     chk (file_Read f) Inl (\<lambda>data.
       ret (parse_record C L (take (manifest_limit + 1) data)))))"

definition osStageSyncDir :: "path \<Rightarrow> (osfs, error + unit) go" where
  "osStageSyncDir p = chk (os_OpenDir p) Inl (\<lambda>_. file_call)"

text \<open>\<open>Sync\<close> and \<open>Close\<close>, both of them, of which the first error counts.\<close>

definition sync_close :: "(osfs, error + unit) go" where
  "sync_close =
     bind file_call (\<lambda>err. bind file_call (\<lambda>closeErr. ret (case err of Inl x \<Rightarrow> Inl x | Inr _ \<Rightarrow> closeErr)))"

text \<open>
  \<open>osStageWriteRecord\<close> once \<open>manifest.next\<close> is created: it is written and renamed; the flag says whether
  the rename was done.
\<close>

definition write_next :: "env \<Rightarrow> path \<Rightarrow> bytes \<Rightarrow> nat \<Rightarrow> (osfs, bool \<times> error option) go" where
  "write_next e dir data f =
     (let fails = (\<lambda>err. (False, Some err))
      in chk (file_Write f data) fails (\<lambda>_.
         chk file_call fails (\<lambda>_.
         chk file_call fails (\<lambda>_.
         case ctx_Err e 0 of
           Some err \<Rightarrow> ret (fails err)
         | None \<Rightarrow>
             chk (os_Rename (dir @ [''manifest.next'']) (dir @ [''manifest''])) fails (\<lambda>_.
             bind (osStageSyncDir dir) (\<lambda>r.
               ret (True, case r of Inl err \<Rightarrow> Some err | Inr _ \<Rightarrow> None)))))))"

text \<open>A removal whose \<open>fs.ErrNotExist\<close> is no error.\<close>

definition remove_if_there :: "path \<Rightarrow> (osfs, error + unit) go" where
  "remove_if_there p =
     bind (os_Remove p) (\<lambda>r. case r of
       Inl err \<Rightarrow> if errors_Is err FsErrNotExist then ret (Inr ()) else ret (Inl err)
     | Inr _ \<Rightarrow> ret (Inr ()))"

definition osStageWriteRecord ::
  "manifest_codec \<Rightarrow> env \<Rightarrow> path \<Rightarrow> stageRecord \<Rightarrow> (osfs, bool \<times> error option) go" where
  "osStageWriteRecord C e dir record =
     (let fails = (\<lambda>err. (False, Some err))
      in case ctx_Err e 0 of
           Some err \<Rightarrow> ret (fails err)
         | None \<Rightarrow>
             (case cd_Marshal C record of
                Inl err \<Rightarrow> ret (fails err)
              | Inr data \<Rightarrow>
                  if length data > manifest_limit then ret (fails ErrStageFormat)
                  else
                    chk (remove_if_there (dir @ [''manifest.next''])) fails (\<lambda>_.
                    chk (os_CreateExcl (dir @ [''manifest.next''])) fails (\<lambda>f.
                      deferred (write_next (env_after 1 e) dir data f)
                        (\<lambda>_. drop_file (dir @ [''manifest.next'']))))))"

section \<open>Directories\<close>

text \<open>The components of \<open>osStageMkdir\<close> that are left, below a directory that is there.\<close>

fun mkdir_components :: "path \<Rightarrow> path \<Rightarrow> (osfs, error + unit) go" where
  "mkdir_components current [] = ret (Inr ())"
| "mkdir_components current (component # rest) =
     (if component = ''.'' then mkdir_components current rest
      else if component = ''..'' \<or> component = '''' then ret (Inl ErrStageFormat)
      else
        (let parent = current; current = current @ [component];
             made =
               chk (os_Stat current) Inl (\<lambda>info. case info of
                 FileNode _ \<Rightarrow> ret (Inl ErrStageFormat)
               | DirNode _ \<Rightarrow> chk (osStageSyncDir parent) Inl (\<lambda>_. mkdir_components current rest))
         in bind (os_Stat current) (\<lambda>info. case info of
              Inr (DirNode _) \<Rightarrow> mkdir_components current rest
            | Inr (FileNode _) \<Rightarrow> ret (Inl ErrStageFormat)
            | Inl err \<Rightarrow>
                if \<not> errors_Is err FsErrNotExist then ret (Inl err)
                else
                  bind (os_Mkdir current) (\<lambda>r. case r of
                    Inl err \<Rightarrow> if \<not> errors_Is err FsErrExist then ret (Inl err) else made
                  | Inr _ \<Rightarrow> made))))"

definition osStageMkdir :: "path \<Rightarrow> (osfs, error + unit) go" where
  "osStageMkdir p = mkdir_components [] p"

section \<open>Locked uploads\<close>

definition upload_dir :: "string \<Rightarrow> path" where
  "upload_dir sid = [''uploads'', sid]"

record osLockedStage =
  ol_id :: string
  ol_record :: stageRecord
  ol_config :: StageConfig
  ol_ctx :: env

definition checkExpiry :: "osLockedStage \<Rightarrow> error option" where
  "checkExpiry l =
     (if State (ol_record l) \<noteq> StageCommitting \<and> expired (ol_record l) (cfg_clock (ol_config l) (ol_ctx l) 0)
      then Some ErrStageExpired else None)"

text \<open>The directories that \<open>openOsStage\<close> looks at.\<close>

fun stage_dirs :: "path list \<Rightarrow> (osfs, error + unit) go" where
  "stage_dirs [] = ret (Inr ())"
| "stage_dirs (p # ps) =
     chk (os_Stat p) (\<lambda>err. Inl (osStageError err)) (\<lambda>info. case info of
       FileNode _ \<Rightarrow> ret (Inl ErrStageFormat)
     | DirNode _ \<Rightarrow> stage_dirs ps)"

text \<open>The lock of an upload, tried once or waited for; the result is the number of looks at the context.\<close>

definition stage_lock :: "env \<Rightarrow> bool \<Rightarrow> (osfs, error + nat) go" where
  "stage_lock e once =
     (if once then
        chk TryLock (\<lambda>err. Inl (osStageError err)) (\<lambda>acquired.
          if \<not> acquired then ret (Inl ErrStageConflict) else ret (Inr 0))
      else chk (OsFileLock_Lock e) (\<lambda>err. Inl (osStageError err)) (\<lambda>k. ret (Inr k)))"

definition openOsStage ::
  "manifest_codec \<Rightarrow> 'h digest_lib \<Rightarrow> env \<Rightarrow> string \<Rightarrow> string option \<Rightarrow> StageConfig \<Rightarrow> bool
   \<Rightarrow> (osfs, error + osLockedStage) go" where
  "openOsStage C L e sid namespace cfg once =
     (if \<not> validStageID sid then ret (Inl ErrStageFormat)
      else
        (let cfg = normalized cfg
         in case ctx_Err e 0 of
              Some err \<Rightarrow> ret (Inl err)
            | None \<Rightarrow>
                chk (os_OpenDir []) (\<lambda>err. Inl (osStageError err)) (\<lambda>_.
                chk (stage_dirs [[''uploads''], upload_dir sid]) Inl (\<lambda>_.
                chk (os_OpenDir (upload_dir sid)) (\<lambda>err. Inl (osStageError err)) (\<lambda>_.
                chk (osStageRegular (upload_dir sid @ [''lock''])) Inl (\<lambda>_.
                chk (stage_lock (env_after 1 e) once) Inl (\<lambda>k.
                chk (osStageReadRecord C L (upload_dir sid)) Inl (\<lambda>record.
                  if ID record \<noteq> sid then ret (Inl ErrStageFormat)
                  else if (case namespace of None \<Rightarrow> False | Some ns \<Rightarrow> Namespace record \<noteq> namespaceSegment ns)
                  then ret (Inl ErrNotExist)
                  else
                    (case ctx_Err e (1 + k) of
                       Some err \<Rightarrow> ret (Inl err)
                     | None \<Rightarrow> ret (Inr \<lparr>ol_id = sid, ol_record = record, ol_config = cfg,
                                        ol_ctx = env_after (2 + k) e\<rparr>))))))))))"

text \<open>\<open>recoverTail\<close> past the looks at the file, which is \<open>f\<close>.\<close>

definition tail_links :: "path \<Rightarrow> stageRecord \<Rightarrow> (osfs, error + unit) go" where
  "tail_links p record =
     (if State record = StageActive then
        chk (nlink p) Inl (\<lambda>links. if links \<noteq> 1 then ret (Inl ErrStageFormat) else ret (Inr ()))
      else ret (Inr ()))"

definition recoverTail :: "osLockedStage \<Rightarrow> (osfs, error + unit) go" where
  "recoverTail l =
     (let record = ol_record l; p = upload_dir (ol_id l) @ [''blob'']
      in case ctx_Err (ol_ctx l) 0 of
           Some err \<Rightarrow> ret (Inl err)
         | None \<Rightarrow>
             if State record = StageCommitted \<or> State record = StageAborted then ret (Inr ())
             else
               chk (osStageRegular p) Inl (\<lambda>_.
               chk (os_Open p) Inl (\<lambda>f.
               chk file_call Inl (\<lambda>_.
               bind (gets (\<lambda>s. int (length (fs_data s f)))) (\<lambda>sz.
               chk (tail_links p record) Inl (\<lambda>_.
                 if sz < Offset record then ret (Inl ErrStageFormat)
                 else if sz > Offset record then
                   chk (file_Truncate f (nat (Offset record))) Inl (\<lambda>_. file_call)
                 else ret (Inr ())))))))"

definition osStage_lock ::
  "manifest_codec \<Rightarrow> 'h digest_lib \<Rightarrow> OsStore \<Rightarrow> env \<Rightarrow> string \<Rightarrow> bool \<Rightarrow> (osfs, error + osLockedStage) go" where
  "osStage_lock C L t e sid once = openOsStage C L e sid (Some (os_namespace t)) (os_stage t) once"

section \<open>Beginning and looking\<close>

text \<open>The two empty files of a new upload.\<close>

fun new_files :: "path \<Rightarrow> string list \<Rightarrow> (osfs, error + unit) go" where
  "new_files dir [] = ret (Inr ())"
| "new_files dir (name # names) =
     chk (os_CreateExcl (dir @ [name])) Inl (\<lambda>f.
     chk sync_close Inl (\<lambda>_.
       new_files dir names))"

text \<open>\<open>Begin\<close> in the directory it has made, which goes with a failure.\<close>

definition begin_upload ::
  "manifest_codec \<Rightarrow> env \<Rightarrow> stageRecord \<Rightarrow> (osfs, error + string) go" where
  "begin_upload C e record =
     (let dir = upload_dir (ID record)
      in chk (os_OpenDir dir) Inl (\<lambda>_.
         chk (new_files dir [''lock'', ''blob'']) Inl (\<lambda>_.
         chk (OsFileLock_Lock e) Inl (\<lambda>k.
         bind (osStageWriteRecord C (env_after k e) dir record) (\<lambda>(_, err). case err of
           Some err \<Rightarrow> ret (Inl err)
         | None \<Rightarrow>
             chk (osStageSyncDir [''uploads'']) Inl (\<lambda>_.
               ret (Inr (ID record))))))))"

definition OsStore_Begin ::
  "manifest_codec \<Rightarrow> 'h digest_lib \<Rightarrow> error + bytes \<Rightarrow> OsStore \<Rightarrow> env \<Rightarrow> string \<Rightarrow> (osfs, error + string) go" where
  "OsStore_Begin C L rnd t e algo =
     (let cfg = normalized (os_stage t)
      in case ctx_Err e 0 of
           Some err \<Rightarrow> ret (Inl err)
         | None \<Rightarrow>
             (case newStageRecord L rnd (os_namespace t) algo cfg e of
                Inl err \<Rightarrow> ret (Inl err)
              | Inr record \<Rightarrow>
                  chk (os_MkdirAll []) Inl (\<lambda>_.
                  chk (os_OpenDir []) Inl (\<lambda>_.
                  chk (osStageMkdir [''uploads'']) Inl (\<lambda>_.
                  chk (os_Mkdir (upload_dir (ID record))) Inl (\<lambda>_.
                    deferred (begin_upload C (env_after 1 e) record)
                      (\<lambda>r. case r of Inl _ \<Rightarrow> drop_tree (upload_dir (ID record)) | Inr _ \<Rightarrow> ret ())))))))"

definition OsStore_Resume ::
  "manifest_codec \<Rightarrow> 'h digest_lib \<Rightarrow> OsStore \<Rightarrow> env \<Rightarrow> string \<Rightarrow> (osfs, error + string) go" where
  "OsStore_Resume C L t e sid =
     chk (osStage_lock C L t e sid False) Inl (\<lambda>l.
       case checkExpiry l of
         Some err \<Rightarrow> ret (Inl err)
       | None \<Rightarrow> chk (recoverTail l) Inl (\<lambda>_. ret (Inr sid)))"

definition osStage_Stat ::
  "manifest_codec \<Rightarrow> 'h digest_lib \<Rightarrow> OsStore \<Rightarrow> env \<Rightarrow> string \<Rightarrow> (osfs, error + StageInfo) go" where
  "osStage_Stat C L t e sid =
     chk (osStage_lock C L t e sid False) Inl (\<lambda>l.
       case checkExpiry l of
         Some err \<Rightarrow> ret (Inl err)
       | None \<Rightarrow> chk (recoverTail l) Inl (\<lambda>_. ret (Inr (stage_info (ol_record l)))))"

section \<open>Appending\<close>

text \<open>The bytes past the recorded offset are cut off again.\<close>

definition append_rollback :: "nat \<Rightarrow> stageRecord \<Rightarrow> error \<Rightarrow> (osfs, int \<times> error option) go" where
  "append_rollback f record err =
     bind (file_Truncate f (nat (Offset record))) (\<lambda>truncateErr.
     bind file_call (\<lambda>syncErr.
       (let opt = (\<lambda>r. case r of Inl e \<Rightarrow> Some e | Inr _ \<Rightarrow> None)
        in ret (Offset record, errors_Join [Some err, opt truncateErr, opt syncErr]))))"

text \<open>\<open>Append\<close> once the bytes are in the file and in the hash \<open>h\<close>: the checkpoint is published.\<close>

definition append_record ::
  "manifest_codec \<Rightarrow> 'h digest_lib \<Rightarrow> osLockedStage \<Rightarrow> env \<Rightarrow> nat \<Rightarrow> 'h \<Rightarrow> int \<Rightarrow> (osfs, int \<times> error option) go" where
  "append_record C L l e f h n =
     (let record = ol_record l; rollback = append_rollback f record
      in case ctx_Err e 0 of
           Some err \<Rightarrow> rollback err
         | None \<Rightarrow>
             bind file_call (\<lambda>r. case r of
               Inl err \<Rightarrow> rollback err
             | Inr _ \<Rightarrow>
                 (case stageHashState L h of
                    Inl err \<Rightarrow> rollback err
                  | Inr state \<Rightarrow>
                      (let following = record\<lparr>Offset := wrap64 (Offset record + n),
                             ExpiresAt := cfg_clock (ol_config l) e 0 + TTL (ol_config l), Hash := state\<rparr>
                       in bind (osStageWriteRecord C (env_after 1 e) (upload_dir (ol_id l)) following) (\<lambda>(published, err).
                            case err of
                              None \<Rightarrow> ret (Offset following, None)
                            | Some x \<Rightarrow> if \<not> published then rollback x else ret (Offset following, Some x))))))"

definition append_copy ::
  "manifest_codec \<Rightarrow> 'h digest_lib \<Rightarrow> osLockedStage \<Rightarrow> env \<Rightarrow> reader \<Rightarrow> nat \<Rightarrow> 'h \<Rightarrow> (osfs, int \<times> error option) go" where
  "append_copy C L l e r f h =
     (let record = ol_record l; (incoming, rerr) = io_Copy (stageContextReader e r)
      in bind (file_Write f incoming) (\<lambda>w. case w of
           Inl err \<Rightarrow> append_rollback f record err
         | Inr _ \<Rightarrow>
             (case rerr of
                Some err \<Rightarrow> append_rollback f record err
              | None \<Rightarrow>
                  append_record C L l (env_after (2 * (length r + 1)) e) f (dl_Write L h incoming)
                    (int (length incoming)))))"

definition osStage_Append ::
  "manifest_codec \<Rightarrow> 'h digest_lib \<Rightarrow> OsStore \<Rightarrow> env \<Rightarrow> string \<Rightarrow> int \<Rightarrow> reader \<Rightarrow> (osfs, int \<times> error option) go" where
  "osStage_Append C L t e sid expectedOffset r =
     chk (osStage_lock C L t e sid False) (\<lambda>err. (0, Some err)) (\<lambda>l.
       (let record = ol_record l; fails = (\<lambda>err. (Offset record, Some err))
        in case checkExpiry l of
             Some err \<Rightarrow> ret (fails err)
           | None \<Rightarrow>
               if State record \<noteq> StageActive then ret (fails ErrStageClosed)
               else if expectedOffset \<noteq> Offset record then ret (fails ErrOffsetMismatch)
               else
                 chk (recoverTail l) fails (\<lambda>_.
                   case stageHashRestore L (Algorithm record) (Hash record) of
                     Inl err \<Rightarrow> ret (fails err)
                   | Inr h \<Rightarrow>
                       chk (os_Open (upload_dir sid @ [''blob''])) fails (\<lambda>f.
                       chk file_call fails (\<lambda>_.
                         append_copy C L l (env_after 1 (ol_ctx l)) r f h)))))"

section \<open>Committing\<close>

fun sync_files :: "path \<Rightarrow> string list \<Rightarrow> (osfs, error + unit) go" where
  "sync_files dir [] = ret (Inr ())"
| "sync_files dir (name # names) =
     chk (os_Open (dir @ [name])) Inl (\<lambda>f.
     chk sync_close Inl (\<lambda>_.
       sync_files dir names))"

text \<open>
  The end of \<open>recoverCommit\<close>: the entry is made durable and the receipt is written. The record that is
  written is part of the result, as the caller sees it in the locked upload.
\<close>

definition commit_receipt ::
  "manifest_codec \<Rightarrow> osLockedStage \<Rightarrow> env \<Rightarrow> path \<Rightarrow> meta \<Rightarrow> string list \<Rightarrow> (osfs, error + (meta \<times> stageRecord)) go" where
  "commit_receipt C l e destination m durable =
     (let dir = upload_dir (ol_id l);
          record = (ol_record l)\<lparr>State := StageCommitted, Result := Meta_Clone m,
                     ExpiresAt := cfg_clock (ol_config l) e 0 + Retention (ol_config l)\<rparr>
      in chk (sync_files destination durable) Inl (\<lambda>_.
         chk (osStageSyncDir destination) Inl (\<lambda>_.
         chk (osStageSyncDir (butlast destination)) Inl (\<lambda>_.
         bind (osStageWriteRecord C e dir record) (\<lambda>(_, err). case err of
           Some err \<Rightarrow> ret (Inl err)
         | None \<Rightarrow>
             chk (remove_if_there (dir @ [''blob''])) Inl (\<lambda>_.
             chk (osStageSyncDir dir) Inl (\<lambda>_.
               ret (Inr (Meta_Clone m, record)))))))))"

text \<open>The blob is in the namespace already: its own metadata are the result.\<close>

definition commit_existing ::
  "manifest_codec \<Rightarrow> 'h digest_lib \<Rightarrow> OsStore \<Rightarrow> osLockedStage \<Rightarrow> env \<Rightarrow> path \<Rightarrow> string
   \<Rightarrow> (osfs, error + (meta \<times> stageRecord)) go" where
  "commit_existing C L t l e destination d =
     chk (OsStore_Stat L t e d) Inl (\<lambda>info.
     with_info info
       (chk (Info_Size e) Inl (\<lambda>sz.
          if sz \<noteq> Offset (ol_record l) then ret (Inl ErrStageFormat)
          else
            chk (on_store (osStageOptionalRegular (destination @ [''labels'']))) Inl (\<lambda>hasLabels.
            chk (infoMeta e) Inl (\<lambda>m.
              on_store (commit_receipt C l (env_after 1 e) destination m
                (if hasLabels then [''blob'', ''labels''] else [''blob''])))))))"

text \<open>The labels and the blob of the entry to publish, in the directory \<open>publish\<close> of the upload.\<close>

definition publish_labels :: "path \<Rightarrow> labels \<Rightarrow> (osfs, error + unit) go" where
  "publish_labels publish labels =
     chk (os_CreateExcl (publish @ [''labels''])) Inl (\<lambda>lf.
     chk (file_Write lf (writeLabels labels)) Inl (\<lambda>_.
     chk file_call Inl (\<lambda>_.
     chk file_call Inl (\<lambda>_.
       ret (Inr ())))))"

definition publish_blob :: "path \<Rightarrow> path \<Rightarrow> path \<Rightarrow> (osfs, error + unit) go" where
  "publish_blob blob publish shared =
     chk (osStageMkdir (butlast shared)) Inl (\<lambda>_.
     bind (osStageRegular shared) (\<lambda>r.
       (let link = (\<lambda>source.
              chk (os_Link source (publish @ [''blob''])) Inl (\<lambda>_.
                if source \<noteq> shared then
                  chk (os_Link source shared) Inl (\<lambda>_.
                  chk (osStageSyncDir (butlast shared)) Inl (\<lambda>_.
                    ret (Inr ())))
                else ret (Inr ())))
        in case r of
             Inr _ \<Rightarrow> link shared
           | Inl err \<Rightarrow> if \<not> errors_Is err ErrNotExist then ret (Inl err) else link blob)))"

definition publish_move :: "env \<Rightarrow> path \<Rightarrow> path \<Rightarrow> (osfs, error + unit) go" where
  "publish_move e publish destination =
     (let move =
            chk (os_Chtimes publish (time_Now e 0)) Inl (\<lambda>_.
            chk (os_Rename publish destination) Inl (\<lambda>_.
              ret (Inr ())))
      in bind (os_Stat destination) (\<lambda>info. case info of
           Inr (FileNode _) \<Rightarrow> ret (Inl ErrStageFormat)
         | Inr (DirNode _) \<Rightarrow> chk (os_RemoveAll destination) Inl (\<lambda>_. move)
         | Inl err \<Rightarrow> if \<not> errors_Is err FsErrNotExist then ret (Inl err) else move))"

definition commit_publish ::
  "'h digest_lib \<Rightarrow> env \<Rightarrow> string \<Rightarrow> path \<Rightarrow> path \<Rightarrow> meta \<Rightarrow> (osfs, error + unit) go" where
  "commit_publish L e sid publish destination m =
     chk (publish_labels publish (Labels m)) Inl (\<lambda>_.
     chk (publish_blob (upload_dir sid @ [''blob'']) publish (pathToBlob L (Digest m))) Inl (\<lambda>_.
     chk (osStageSyncDir publish) Inl (\<lambda>_.
       case ctx_Err e 0 of
         Some err \<Rightarrow> ret (Inl err)
       | None \<Rightarrow> publish_move e publish destination)))"

definition commit_new ::
  "manifest_codec \<Rightarrow> 'h digest_lib \<Rightarrow> osLockedStage \<Rightarrow> env \<Rightarrow> path \<Rightarrow> meta
   \<Rightarrow> (osfs, error + (meta \<times> stageRecord)) go" where
  "commit_new C L l e destination m =
     (let publish = upload_dir (ol_id l) @ [''publish'']
      in chk (os_RemoveAll publish) Inl (\<lambda>_.
         chk (os_Mkdir publish) Inl (\<lambda>_.
           deferred
             (chk (commit_publish L e (ol_id l) publish destination m) Inl (\<lambda>_.
                commit_receipt C l (env_after 1 e) destination m [''blob'', ''labels'']))
             (\<lambda>_. drop_tree publish))))"

text \<open>\<open>recoverCommit\<close> once it holds the lock of the blob.\<close>

definition commit_locked ::
  "manifest_codec \<Rightarrow> 'h digest_lib \<Rightarrow> OsStore \<Rightarrow> osLockedStage \<Rightarrow> env \<Rightarrow> (osfs, error + (meta \<times> stageRecord)) go" where
  "commit_locked C L t l e =
     (let m = Commit (ol_record l); destination = pathToRepo L t (Digest m) [];
          onward =
            bind (osStageRegular (destination @ [''blob''])) (\<lambda>r. case r of
              Inr _ \<Rightarrow> commit_existing C L t l e destination (Digest m)
            | Inl err \<Rightarrow> if \<not> errors_Is err ErrNotExist then ret (Inl err) else commit_new C L l e destination m)
      in chk (osStageMkdir (butlast destination)) Inl (\<lambda>_.
         bind (os_Stat destination) (\<lambda>info. case info of
           Inr (FileNode _) \<Rightarrow> ret (Inl ErrStageFormat)
         | Inr (DirNode _) \<Rightarrow> onward
         | Inl err \<Rightarrow> if \<not> errors_Is err FsErrNotExist then ret (Inl err) else onward)))"

definition recoverCommit ::
  "manifest_codec \<Rightarrow> 'h digest_lib \<Rightarrow> OsStore \<Rightarrow> osLockedStage \<Rightarrow> env \<Rightarrow> (osfs, error + (meta \<times> stageRecord)) go" where
  "recoverCommit C L t l e =
     (case ctx_Err e 0 of
        Some err \<Rightarrow> ret (Inl err)
      | None \<Rightarrow>
          chk (recoverTail (l\<lparr>ol_ctx := env_after 1 e\<rparr>)) Inl (\<lambda>_.
          chk (lockBlob (env_after 2 e) (Digest (Commit (ol_record l)))) Inl (\<lambda>k.
            commit_locked C L t l (env_after (2 + k) e))))"

definition commit_active ::
  "manifest_codec \<Rightarrow> osLockedStage \<Rightarrow> meta \<Rightarrow> (osfs, error + osLockedStage) go" where
  "commit_active C l prepared =
     chk (recoverTail l) Inl (\<lambda>_.
       (let l = l\<lparr>ol_record := (ol_record l)\<lparr>State := StageCommitting, Commit := prepared\<rparr>\<rparr>
        in bind (osStageWriteRecord C (env_after 1 (ol_ctx l)) (upload_dir (ol_id l)) (ol_record l)) (\<lambda>(_, err).
             case err of Some err \<Rightarrow> ret (Inl err) | None \<Rightarrow> ret (Inr l))))"

definition osStage_Commit ::
  "manifest_codec \<Rightarrow> 'h digest_lib \<Rightarrow> OsStore \<Rightarrow> env \<Rightarrow> string \<Rightarrow> meta \<Rightarrow> (osfs, error + meta) go" where
  "osStage_Commit C L t e sid m =
     chk (osStage_lock C L t e sid False) Inl (\<lambda>l.
       case checkExpiry l of
         Some err \<Rightarrow> ret (Inl err)
       | None \<Rightarrow>
           (let record = ol_record l; finish = (\<lambda>k l. chk (recoverCommit C L t l (env_after k (ol_ctx l))) Inl (\<lambda>r. ret (Inr (fst r))))
            in if State record = StageAborted then ret (Inl ErrStageClosed)
               else
                 (case prepareCommit L record m of
                    Inl err \<Rightarrow> ret (Inl err)
                  | Inr prepared \<Rightarrow>
                      if State record = StageCommitting \<or> State record = StageCommitted then
                        (if \<not> stageCommitMatches prepared (Commit record) then ret (Inl ErrStageConflict)
                         else if State record = StageCommitted then ret (Inr (Meta_Clone (Result record)))
                         else finish 0 l)
                      else chk (commit_active C l prepared) Inl (finish 3))))"

section \<open>Aborting and pruning\<close>

definition osStage_Abort ::
  "manifest_codec \<Rightarrow> 'h digest_lib \<Rightarrow> OsStore \<Rightarrow> env \<Rightarrow> string \<Rightarrow> (osfs, error option) go" where
  "osStage_Abort C L t e sid =
     bind (osStage_lock C L t e sid False) (\<lambda>r. case r of
       Inl err \<Rightarrow> if errors_Is err ErrNotExist then ret None else ret (Some err)
     | Inr l \<Rightarrow>
         (let record = ol_record l; dir = upload_dir sid;
              clean = chk (remove_if_there (dir @ [''blob''])) Some (\<lambda>_. chk (osStageSyncDir dir) Some (\<lambda>_. ret None))
          in if State record = StageCommitting then chk (recoverCommit C L t l (ol_ctx l)) Some (\<lambda>_. ret None)
             else if State record = StageCommitted \<or> State record = StageAborted then clean
             else
               (let record = record\<lparr>State := StageAborted,
                      ExpiresAt := cfg_clock (ol_config l) (ol_ctx l) 0 + Retention (ol_config l)\<rparr>
                in bind (osStageWriteRecord C (ol_ctx l) dir record) (\<lambda>(_, err). case err of
                     Some err \<Rightarrow> ret (Some err)
                   | None \<Rightarrow> clean))))"

fun remove_all_there :: "path \<Rightarrow> string list \<Rightarrow> (osfs, error + unit) go" where
  "remove_all_there dir [] = ret (Inr ())"
| "remove_all_there dir (name # names) =
     chk (remove_if_there (dir @ [name])) Inl (\<lambda>_. remove_all_there dir names)"

text \<open>An upload that is kept: what a failure may have left in it goes.\<close>

definition prune_tidy :: "osLockedStage \<Rightarrow> env \<Rightarrow> (osfs, error option) go" where
  "prune_tidy l e =
     (let dir = upload_dir (ol_id l); record = ol_record l;
          names = [''manifest.next''] @ (if State record = StageCommitted \<or> State record = StageAborted then [''blob''] else [])
      in chk (recoverTail (l\<lparr>ol_ctx := e\<rparr>)) Some (\<lambda>_.
         chk (os_RemoveAll (dir @ [''publish''])) Some (\<lambda>_.
         chk (remove_all_there dir names) Some (\<lambda>_.
         chk (osStageSyncDir dir) Some (\<lambda>_.
           ret None)))))"

definition prune_remove :: "string \<Rightarrow> (osfs, int \<times> error option) go" where
  "prune_remove sid =
     chk (os_RemoveAll (upload_dir sid)) (\<lambda>err. (0, Some err)) (\<lambda>_.
     chk (osStageSyncDir [''uploads'']) (\<lambda>err. (1, Some err)) (\<lambda>_.
       ret (1, None)))"

text \<open>An interrupted commit is completed; the record after it is part of the result.\<close>

definition prune_recover ::
  "manifest_codec \<Rightarrow> 'h digest_lib \<Rightarrow> OsStores \<Rightarrow> osLockedStage \<Rightarrow> (osfs, error + stageRecord) go" where
  "prune_recover C L i l =
     (let record = ol_record l
      in if State record = StageCommitting then
           (let namespace = (case namespaceID (Namespace record) of Inl _ \<Rightarrow> '''' | Inr ns \<Rightarrow> ns)
            in chk (recoverCommit C L (OsStores_Use i namespace) l (ol_ctx l)) Inl (\<lambda>r. ret (Inr (snd r))))
         else ret (Inr record))"

definition prune_locked ::
  "manifest_codec \<Rightarrow> 'h digest_lib \<Rightarrow> OsStores \<Rightarrow> osLockedStage \<Rightarrow> (osfs, int \<times> error option) go" where
  "prune_locked C L i l =
     chk (prune_recover C L i l) (\<lambda>err. (0, Some err)) (\<lambda>record.
       if expired record (cfg_clock (ol_config l) (ol_ctx l) 0) then prune_remove (ol_id l)
       else if State record \<noteq> StageCommitting then
         bind (prune_tidy (l\<lparr>ol_record := record\<rparr>) (ol_ctx l)) (\<lambda>err. ret (0, err))
       else ret (0, None))"

text \<open>An upload directory without a manifest, old enough that no \<open>Begin\<close> can still be at work in it.\<close>

definition orphan_remove :: "env \<Rightarrow> string \<Rightarrow> (osfs, bool \<times> error option) go" where
  "orphan_remove e sid =
     (let p = upload_dir sid
      in bind (os_Stat (p @ [''manifest''])) (\<lambda>r. case r of
           Inr _ \<Rightarrow> ret (False, None)
         | Inl err \<Rightarrow>
             if \<not> errors_Is err FsErrNotExist then ret (False, Some err)
             else
               (case ctx_Err e 0 of
                  Some err \<Rightarrow> ret (False, Some err)
                | None \<Rightarrow>
                    chk (os_RemoveAll p) (\<lambda>err. (False, Some err)) (\<lambda>_.
                    chk (osStageSyncDir [''uploads'']) (\<lambda>err. (True, Some err)) (\<lambda>_.
                      ret (True, None))))))"

definition orphan_lock :: "env \<Rightarrow> string \<Rightarrow> (osfs, bool \<times> error option) go" where
  "orphan_lock e sid =
     chk TryLock (\<lambda>err. (False, Some err)) (\<lambda>acquired.
       if \<not> acquired then ret (False, None) else orphan_remove e sid)"

definition orphan_lock_file :: "env \<Rightarrow> string \<Rightarrow> (osfs, bool \<times> error option) go" where
  "orphan_lock_file e sid =
     bind (osStageRegular (upload_dir sid @ [''lock''])) (\<lambda>r. case r of
       Inr _ \<Rightarrow> orphan_lock e sid
     | Inl err \<Rightarrow>
         if errors_Is err ErrNotExist then
           bind (os_CreateExcl (upload_dir sid @ [''lock''])) (\<lambda>r. case r of
             Inl err \<Rightarrow> if errors_Is err FsErrExist then ret (False, None) else ret (False, Some err)
           | Inr _ \<Rightarrow> orphan_lock e sid)
         else ret (False, Some err))"

definition pruneOrphanStage :: "OsStores \<Rightarrow> env \<Rightarrow> string \<Rightarrow> (osfs, bool \<times> error option) go" where
  "pruneOrphanStage i e sid =
     (let p = upload_dir sid; cfg = normalized (oss_stage i)
      in case ctx_Err e 0 of
           Some err \<Rightarrow> ret (False, Some err)
         | None \<Rightarrow>
             bind (os_Stat p) (\<lambda>info. case info of
               Inl err \<Rightarrow> if errors_Is err FsErrNotExist then ret (False, None) else ret (False, Some err)
             | Inr (FileNode _) \<Rightarrow> ret (False, Some ErrStageFormat)
             | Inr (DirNode mtime) \<Rightarrow>
                 if cfg_clock cfg e 0 < mtime + TTL cfg + OperationTimeout cfg then ret (False, None)
                 else
                   chk (os_OpenDir p) (\<lambda>err. (False, Some err)) (\<lambda>_.
                   bind (os_Stat (p @ [''manifest''])) (\<lambda>r. case r of
                     Inr _ \<Rightarrow> ret (False, None)
                   | Inl err \<Rightarrow>
                       if \<not> errors_Is err FsErrNotExist then ret (False, Some err)
                       else orphan_lock_file (env_after 1 e) sid))))"

definition prune_upload ::
  "manifest_codec \<Rightarrow> 'h digest_lib \<Rightarrow> OsStores \<Rightarrow> env \<Rightarrow> string \<Rightarrow> (osfs, int \<times> error option) go" where
  "prune_upload C L i e sid =
     bind (openOsStage C L e sid None (oss_stage i) True) (\<lambda>r. case r of
       Inl err \<Rightarrow>
         if errors_Is err ErrStageConflict then ret (0, None)
         else if errors_Is err ErrNotExist then
           bind (pruneOrphanStage i e sid) (\<lambda>(pruned, orphanErr). ret (if pruned then 1 else 0, orphanErr))
         else ret (0, Some err)
     | Inr l \<Rightarrow> prune_locked C L i l)"

text \<open>\<open>es n\<close> is what is left of the environment for the \<open>n\<close>-th entry.\<close>

fun prune_uploads ::
  "manifest_codec \<Rightarrow> 'h digest_lib \<Rightarrow> OsStores \<Rightarrow> (nat \<Rightarrow> env) \<Rightarrow> (string \<times> bool) list \<Rightarrow> int \<Rightarrow> error option list
   \<Rightarrow> (osfs, int \<times> error option) go" where
  "prune_uploads C L i es [] removed failures = ret (removed, errors_Join failures)"
| "prune_uploads C L i es ((name, dir) # rest) removed failures =
     (let e = es 0; es = (\<lambda>n. es (Suc n))
      in case ctx_Err e 0 of
           Some err \<Rightarrow> ret (removed, errors_Join (failures @ [Some err]))
         | None \<Rightarrow>
             if \<not> validStageID name then prune_uploads C L i es rest removed failures
             else if \<not> dir then prune_uploads C L i es rest removed (failures @ [Some ErrStageFormat])
             else
               bind (prune_upload C L i (env_after 1 e) name) (\<lambda>(n, err).
                 prune_uploads C L i es rest (removed + n) (failures @ [err])))"

definition OsStores_PruneStages ::
  "manifest_codec \<Rightarrow> 'h digest_lib \<Rightarrow> OsStores \<Rightarrow> env \<Rightarrow> (nat \<Rightarrow> env) \<Rightarrow> (osfs, int \<times> error option) go" where
  "OsStores_PruneStages C L i e es =
     (let quiet_if_gone = (\<lambda>err. (0, if errors_Is err FsErrNotExist then None else Some err))
      in case ctx_Err e 0 of
           Some err \<Rightarrow> ret (0, Some err)
         | None \<Rightarrow>
             chk (os_OpenDir []) quiet_if_gone (\<lambda>_.
             chk (os_Stat [''uploads'']) quiet_if_gone (\<lambda>info. case info of
               FileNode _ \<Rightarrow> ret (0, Some ErrStageFormat)
             | DirNode _ \<Rightarrow>
                 chk (os_OpenDir [''uploads'']) (\<lambda>err. (0, Some err)) (\<lambda>_.
                 chk (os_ReadDir [''uploads'']) (\<lambda>err. (0, Some err)) (\<lambda>entries.
                   prune_uploads C L i es entries 0 [])))))"

end
