(* ===== verification/OsUpload.thy ===== *)
theory OsUpload
  imports OsStage OsOps
begin

text \<open>
  The uploads of a directory store under every failure of every system call: rules for the calls and
  helpers of \<open>OsStage\<close>, as statements about the state before and after. What an upload owns is a list
  of paths; all other files of uploads, and what every namespace shows, stay as they are.
\<close>

section \<open>Runs from one state\<close>

definition runs :: "('s, 'a) go \<Rightarrow> 's \<Rightarrow> ('a \<Rightarrow> 's \<Rightarrow> bool) \<Rightarrow> bool" where
  "runs m s Q \<longleftrightarrow> (\<exists>r s'. m s = Some (r, s') \<and> Q r s')"

named_theorems run_simps \<open>runs of composed code\<close>

lemma runs_ret [run_simps]: "runs (ret x) s Q = Q x s"
  by (simp add: runs_def ret_def)

lemma runs_bind [run_simps]: "runs (bind m k) s Q = runs m s (\<lambda>r s'. runs (k r) s' Q)"
  by (auto simp: runs_def bind_def split: option.splits)

lemma runs_gets [run_simps]: "runs (gets f) s Q = Q (f s) s"
  by (simp add: runs_def gets_def)

lemma runs_deferred [run_simps]: "runs (deferred m c) s Q = runs m s (\<lambda>r s'. runs (c r) s' (\<lambda>_. Q r))"
  by (simp add: deferred_def run_simps)

lemma runs_chk_iff: "runs (chk m h k) s Q = runs m s (\<lambda>r s'. case r of Inl err \<Rightarrow> Q (h err) s' | Inr x \<Rightarrow> runs (k x) s' Q)"
proof -
  have "(\<lambda>r s'. runs (case r of Inl err \<Rightarrow> ret (h err) | Inr x \<Rightarrow> k x) s' Q) =
      (\<lambda>r s'. case r of Inl err \<Rightarrow> Q (h err) s' | Inr x \<Rightarrow> runs (k x) s' Q)"
    by (intro ext) (simp add: run_simps split: sum.splits)
  then show ?thesis by (simp add: chk_def run_simps)
qed

lemma runs_mono: "runs m s R \<Longrightarrow> (\<And>r s'. R r s' \<Longrightarrow> Q r s') \<Longrightarrow> runs m s Q"
  unfolding runs_def by blast

lemma runs_step:
  assumes "runs m s R" "\<And>err s'. R (Inl err) s' \<Longrightarrow> Q (h err) s'" "\<And>x s'. R (Inr x) s' \<Longrightarrow> runs (k x) s' Q"
  shows "runs (chk m h k) s Q"
  unfolding runs_chk_iff by (rule runs_mono [OF assms(1)]) (auto split: sum.splits intro: assms(2,3))

lemma runs_bindI: "runs m s R \<Longrightarrow> (\<And>r s'. R r s' \<Longrightarrow> runs (k r) s' Q) \<Longrightarrow> runs (bind m k) s Q"
  unfolding runs_bind by (rule runs_mono)

lemma runs_returns: "returns P m Q \<Longrightarrow> P s \<Longrightarrow> runs m s Q"
  unfolding returns_def runs_def by blast

lemma runsD: "runs m s Q \<Longrightarrow> \<exists>r s'. m s = Some (r, s') \<and> Q r s'"
  unfolding runs_def .

lemma runs_sys:
  assumes "fs_fault s (fs_sys s) = None \<Longrightarrow> Q (fst (ok s)) (tick (snd (ok s)))"
    and "\<And>f. fs_fault s (fs_sys s) = Some f \<Longrightarrow> \<not> quiet s \<Longrightarrow> Q (Inl (ErrorString (f_msg f))) (tick (chg f s))"
  shows "runs (sys ok chg) s Q"
  unfolding runs_def sys_def using assms fault_not_quiet [of s] by (auto simp: split_beta split: option.splits)

section \<open>Code that only looks\<close>

definition still :: "osfs \<Rightarrow> osfs \<Rightarrow> bool" where
  "still s s' \<longleftrightarrow> (\<exists>n. s' = s\<lparr>fs_sys := n\<rparr>)"

lemma still_refl [simp]: "still s s"
  unfolding still_def by (rule exI [of _ "fs_sys s"]) simp

lemma still_tick [simp]: "still s (tick s)"
  by (auto simp: still_def tick_def)

lemma stillE: "still s s' \<Longrightarrow> (\<And>n. s' = s\<lparr>fs_sys := n\<rparr> \<Longrightarrow> P) \<Longrightarrow> P"
  unfolding still_def by blast

lemma still_upd [simp]: "still s (s'\<lparr>fs_sys := n\<rparr>) = still s s'" "still (s\<lparr>fs_sys := n\<rparr>) s' = still s s'"
proof -
  show "still s (s'\<lparr>fs_sys := n\<rparr>) = still s s'"
  proof
    assume "still s (s'\<lparr>fs_sys := n\<rparr>)"
    then obtain k where "s'\<lparr>fs_sys := n\<rparr> = s\<lparr>fs_sys := k\<rparr>" by (auto simp: still_def)
    then have "s' = s\<lparr>fs_sys := fs_sys s'\<rparr>" by (cases s; cases s') simp
    then show "still s s'" unfolding still_def by blast
  qed (auto simp: still_def)
qed (auto simp: still_def)

lemma still_trans: "still s s' \<Longrightarrow> still s' s'' \<Longrightarrow> still s s''"
  unfolding still_def by auto

lemma sys_upd_more [simp]:
  "unblocked (s\<lparr>fs_sys := n\<rparr>) = unblocked s" "links (s\<lparr>fs_sys := n\<rparr>) = links s"
  by (simp_all add: unblocked_def links_def fun_eq_iff)

lemma runs_Stat:
  "runs (os_Stat p) s (\<lambda>r s'. still s s' \<and> (case r of
     Inl err \<Rightarrow> err = FsErrNotExist \<and> \<not> exists_at s p \<or> (\<exists>m. err = ErrorString m) \<and> \<not> quiet s
   | Inr (FileNode i) \<Rightarrow> file_at s p = Some i
   | Inr (DirNode _) \<Rightarrow> is_dir s p))"
  unfolding os_Stat_def
  by (rule runs_sys) (auto simp: exists_at_def is_dir_def split: option.splits)

lemma runs_Open:
  "runs (os_Open p) s (\<lambda>r s'. still s s' \<and> (case r of
     Inl err \<Rightarrow> file_at s p = None \<or> \<not> quiet s
   | Inr i \<Rightarrow> file_at s p = Some i))"
  unfolding os_Open_def by (rule runs_sys) (auto split: option.splits)

lemma runs_OpenDir:
  "runs (os_OpenDir p) s (\<lambda>r s'. still s s' \<and> (case r of Inl err \<Rightarrow> \<not> is_dir s p \<or> \<not> quiet s | Inr _ \<Rightarrow> is_dir s p))"
  unfolding os_OpenDir_def by (rule runs_sys) auto

lemma runs_file_call:
  "runs file_call s (\<lambda>r s'. still s s' \<and> (case r of Inl err \<Rightarrow> \<not> quiet s | Inr _ \<Rightarrow> True))"
  unfolding file_call_def by (rule runs_sys) auto

lemma runs_file_Read:
  "runs (file_Read i) s (\<lambda>r s'. still s s' \<and> (case r of Inl err \<Rightarrow> \<not> quiet s | Inr b \<Rightarrow> b = fs_data s i))"
  unfolding file_Read_def by (rule runs_sys) auto

lemma runs_SyncDir:
  "runs (osStageSyncDir p) s (\<lambda>r s'. still s s' \<and> (case r of Inl err \<Rightarrow> \<not> is_dir s p \<or> \<not> quiet s | Inr _ \<Rightarrow> True))"
  unfolding osStageSyncDir_def
proof (rule runs_step [OF runs_OpenDir])
  fix x s1
  assume 1: "still s s1 \<and> (case Inr x of Inl err \<Rightarrow> \<not> is_dir s p \<or> \<not> quiet s | Inr _ \<Rightarrow> is_dir s p)"
  show "runs file_call s1 (\<lambda>r s'. still s s' \<and> (case r of Inl err \<Rightarrow> \<not> is_dir s p \<or> \<not> quiet s | Inr _ \<Rightarrow> True))"
    by (rule runs_mono [OF runs_file_call]) (use 1 in \<open>auto elim!: stillE split: sum.splits\<close>)
qed auto

lemma osStageError_cases:
  "errors_Is (osStageError err) ErrNotExist \<longleftrightarrow> errors_Is err FsErrNotExist \<or> errors_Is err ErrNotExist"
  by (auto simp: osStageError_def)

lemma runs_Regular:
  "runs (osStageRegular p) s (\<lambda>r s'. still s s' \<and> (case r of
     Inl err \<Rightarrow> err = ErrNotExist \<and> \<not> exists_at s p \<or> \<not> errors_Is err ErrNotExist \<and> (is_dir s p \<or> \<not> quiet s)
   | Inr _ \<Rightarrow> file_at s p \<noteq> None))"
  unfolding osStageRegular_def
  by (rule runs_step [OF runs_Stat]) (auto simp: run_simps osStageError_def split: node.splits)

lemma runs_OptionalRegular:
  "runs (osStageOptionalRegular p) s (\<lambda>r s'. still s s' \<and> (case r of
     Inl err \<Rightarrow> is_dir s p \<or> \<not> quiet s
   | Inr b \<Rightarrow> if b then file_at s p \<noteq> None else \<not> exists_at s p))"
  unfolding osStageOptionalRegular_def
  by (rule runs_bindI [OF runs_Regular]) (auto simp: run_simps split: sum.splits)

section \<open>What an upload owns\<close>

definition owning :: "bytes set \<Rightarrow> path list \<Rightarrow> scope" where
  "owning U ps = \<lparr>sc_bytes = U, sc_own = ps\<rparr>"

lemma owning_bytes [simp]: "sc_bytes (owning U ps) = U"
  by (simp add: owning_def)

lemma framed_owning: "framed (owning U ps) p \<longleftrightarrow> p \<noteq> [] \<and> hd p = ''uploads'' \<and> (\<forall>q \<in> set ps. \<not> prefix q p)"
  by (auto simp: framed_def owning_def list_ex_iff)

lemma os_ok_owning [simp]: "os_ok L (owning U (p # ps)) s = os_ok L (owning U []) s"
  by (simp add: os_ok_def)

lemma os_ok_owns: "os_ok L (owning U ps) s = os_ok L (owning U []) s"
  by (simp add: os_ok_def)

text \<open>Paths that lie at or below others.\<close>

definition covers :: "path list \<Rightarrow> path list \<Rightarrow> bool" where
  "covers qs ps \<longleftrightarrow> (\<forall>p \<in> set ps. \<exists>q \<in> set qs. prefix q p)"

lemma framed_covers: "covers qs ps \<Longrightarrow> framed (owning U qs) p \<Longrightarrow> framed (owning U ps) p"
  unfolding framed_owning covers_def by (meson prefix_order.trans)

lemma keeps_covers: "covers qs ps \<Longrightarrow> keeps (owning U ps) s s' \<Longrightarrow> keeps (owning U qs) s s'"
  unfolding keeps_def using framed_covers by blast

lemma safe_covers: "covers qs ps \<Longrightarrow> safe L (owning U ps) s s' \<Longrightarrow> safe L (owning U qs) s s'"
  unfolding safe_def using keeps_covers os_ok_owns by blast

text \<open>The contents of a file.\<close>

definition holds :: "osfs \<Rightarrow> path \<Rightarrow> bytes \<Rightarrow> bool" where
  "holds s p b \<longleftrightarrow> (\<exists>i. file_at s p = Some i \<and> fs_data s i = b)"

definition holds_alone :: "osfs \<Rightarrow> path \<Rightarrow> bytes \<Rightarrow> bool" where
  "holds_alone s p b \<longleftrightarrow> (\<exists>i. sole s i p \<and> fs_data s i = b)"

lemma holds_alone_holds: "holds_alone s p b \<Longrightarrow> holds s p b"
  unfolding holds_alone_def holds_def sole_def by blast

lemma holds_upd [simp]:
  "holds (s\<lparr>fs_sys := n\<rparr>) = holds s" "holds_alone (s\<lparr>fs_sys := n\<rparr>) = holds_alone s"
  "holds (tick s) = holds s" "holds_alone (tick s) = holds_alone s"
  by (simp_all add: holds_def holds_alone_def fun_eq_iff)

lemma holds_fun: "holds s p b \<Longrightarrow> holds s p c \<Longrightarrow> b = c"
  by (auto simp: holds_def)

lemma keepsD:
  assumes "keeps W s s'" "framed W p"
  shows "file_at s' p = file_at s p" "holds s p b \<Longrightarrow> holds s' p b" "holds_alone s p b \<Longrightarrow> holds_alone s' p b"
proof -
  show "file_at s' p = file_at s p" using assms unfolding keeps_def by blast
  show "holds s' p b" if h: "holds s p b"
  proof -
    obtain i where "file_at s p = Some i" "fs_data s i = b" using h by (auto simp: holds_def)
    then have "file_at s' p = Some i" "fs_data s' i = b" using assms unfolding keeps_def by metis+
    then show ?thesis by (auto simp: holds_def)
  qed
  show "holds_alone s' p b" if h: "holds_alone s p b"
  proof -
    obtain i where i: "sole s i p" "fs_data s i = b" using h by (auto simp: holds_alone_def)
    then have "sole s' i p" "fs_data s' i = b" using soleD(1) [OF i(1)] assms unfolding keeps_def by metis+
    then show ?thesis by (auto simp: holds_alone_def)
  qed
qed

lemma safe_keeps: "safe L W s s' \<Longrightarrow> keeps W s s'"
  by (simp add: safe_def)

lemma still_safe: "still s s' \<Longrightarrow> os_ok L W s \<Longrightarrow> safe L W s s'"
  by (auto elim!: stillE intro: safe_refl)

lemma safe_still: "safe L W s s' \<Longrightarrow> still s' s'' \<Longrightarrow> safe L W s s''"
  by (auto elim!: stillE)

lemma upload_paths [simp]:
  "upload_dir sid \<noteq> []" "hd (upload_dir sid) = ''uploads''" "hd (upload_dir sid @ r) = ''uploads''"
  "butlast (upload_dir sid @ [f]) = upload_dir sid" "upload_dir sid = upload_dir sid' \<longleftrightarrow> sid = sid'"
  "prefix (upload_dir sid @ [f]) (upload_dir sid @ [g]) \<longleftrightarrow> f = g"
  "prefix (upload_dir sid @ [f]) (upload_dir sid @ g # h # r) \<longleftrightarrow> f = g"
  "prefix (upload_dir sid @ r) (upload_dir sid @ r') \<longleftrightarrow> prefix r r'"
  "\<not> prefix (upload_dir sid @ [f]) (upload_dir sid)"
  by (auto simp: upload_dir_def prefix_def)

lemma upload_place: "file_place (upload_dir sid @ [f]) \<longleftrightarrow> f \<noteq> ''publish''"
  by (auto simp: file_place_def upload_dir_def)

lemma not_upload_dir: "layout s \<Longrightarrow> is_dir s (upload_dir sid @ [f]) \<Longrightarrow> f = ''publish''"
  by (drule (1) layoutD(2)) (simp add: dir_place_def upload_dir_def)

lemma own_not_kept: "p \<in> set ps \<Longrightarrow> p \<noteq> [] \<Longrightarrow> hd p = ''uploads'' \<Longrightarrow> \<not> kept_place (owning U ps) p"
  by (auto simp: kept_place_def framed_owning)

lemma file_parent: "tree_ok s \<Longrightarrow> file_at s p = Some i \<Longrightarrow> is_dir s (butlast p)"
  using tree_okD(1) [of s p] exists_file [of s p i] tree_okD(2) [of s p i] by auto

section \<open>The calls that change an upload\<close>

lemma runs_CreateExcl:
  assumes "os_ok L W s" "\<not> exists_at s p" "is_dir s (butlast p)" "file_place p" "\<not> kept_place W p"
  shows "runs (os_CreateExcl p) s (\<lambda>r s'. safe L W s s' \<and> is_dir s' = is_dir s \<and> (case r of
      Inl err \<Rightarrow> \<not> quiet s
    | Inr f \<Rightarrow> sole s' f p \<and> fs_data s' f = [] \<and> file_at s' = (file_at s)(p \<mapsto> f)))"
  unfolding os_CreateExcl_def
  using safe_new_file [OF safe_refl [OF assms(1)] assms(2-5)] sole_new_file [OF os_okD(1) [OF assms(1)], of p] assms(2,3)
    safe_refl [OF assms(1)]
  by (intro runs_sys) (auto simp: fs_simps)

lemma runs_file_Write:
  assumes "os_ok L W s" "sole s i p" "\<not> kept_place W p"
  shows "runs (file_Write i b) s (\<lambda>r s'. safe L W s s' \<and> is_dir s' = is_dir s \<and> file_at s' = file_at s \<and> sole s' i p \<and> (case r of
      Inl err \<Rightarrow> \<not> quiet s \<and> (\<exists>n. fs_data s' i = fs_data s i @ take n b)
    | Inr _ \<Rightarrow> fs_data s' i = fs_data s i @ b))"
  unfolding file_Write_def
  using safe_write_at [OF safe_refl [OF assms(1)] assms(2,3)] assms(2)
  by (intro runs_sys) (auto simp: fs_simps sole_def)

lemma runs_Truncate:
  assumes "os_ok L W s" "sole s i p" "\<not> kept_place W p" "n \<le> length (fs_data s i)"
  shows "runs (file_Truncate i n) s (\<lambda>r s'. safe L W s s' \<and> is_dir s' = is_dir s \<and> file_at s' = file_at s \<and> sole s' i p \<and> (case r of
      Inl err \<Rightarrow> \<not> quiet s \<and> fs_data s' i = fs_data s i
    | Inr _ \<Rightarrow> fs_data s' i = take n (fs_data s i)))"
  unfolding file_Truncate_def
  using safe_write_at [OF safe_refl [OF assms(1)] assms(2,3)] assms(2,4) safe_refl [OF assms(1)]
  by (intro runs_sys) (auto simp: fs_simps sole_def)

lemma runs_remove_if_there:
  assumes "os_ok L W s" "\<not> kept_place W p" "\<not> is_dir s p"
  shows "runs (remove_if_there p) s (\<lambda>r s'. safe L W s s' \<and> is_dir s' = is_dir s \<and> (case r of
      Inl err \<Rightarrow> \<not> quiet s | Inr _ \<Rightarrow> \<not> exists_at s' p))"
proof -
  have "runs (os_Remove p) s (\<lambda>r s'. safe L W s s' \<and> is_dir s' = is_dir s \<and> (case r of
      Inl err \<Rightarrow> err = FsErrNotExist \<and> \<not> exists_at s' p \<or> \<not> errors_Is err FsErrNotExist \<and> \<not> quiet s
    | Inr _ \<Rightarrow> \<not> exists_at s' p))"
    unfolding os_Remove_def
    using safe_del_name [OF safe_refl [OF assms(1)] assms(2)] safe_refl [OF assms(1)] assms(3)
    by (intro runs_sys) (auto simp: fs_simps exists_at_def)
  then show ?thesis
    unfolding remove_if_there_def by (rule runs_bindI) (auto simp: run_simps split: sum.splits)
qed

lemma runs_drop_file:
  assumes "os_ok L W s" "\<not> kept_place W p"
  shows "runs (drop_file p) s (\<lambda>_ s'. safe L W s s')"
  using runs_returns [OF returns_drop_file [OF _ assms(2), of "\<lambda>x. x = s" L s] refl] safe_refl [OF assms(1)] by simp

lemma runs_drop_tree:
  assumes "os_ok L W s" "\<not> kept_place W p" "p \<noteq> []"
  shows "runs (drop_tree p) s (\<lambda>_ s'. safe L W s s')"
  using runs_returns [OF returns_drop_tree [OF _ assms(3,2), of "\<lambda>x. x = s" L s] refl] safe_refl [OF assms(1)] by simp

lemma safe_move_file:
  assumes "os_ok L W s" "file_at s p = Some i" "p \<noteq> q" "\<not> kept_place W p" "\<not> kept_place W q"
    and "is_dir s (butlast q)" "\<not> is_dir s q" "file_place q"
  shows "safe L W s (move_file p q i s)"
proof (rule safe_frame [OF safe_refl [OF assms(1)]])
  have ne: "q \<noteq> []" using assms(8) by (simp add: file_place_def)
  show "tree_ok (move_file p q i s)" using assms(2,3,6,7) ne by (intro tree_ok_move_file os_okD(1) [OF assms(1)])
  show "layout (move_file p q i s)"
    by (rule layout_same [OF os_okD(2) [OF assms(1)]]) (use assms(3,8) in \<open>auto simp: fs_simps split: if_splits\<close>)
  show "file_at (move_file p q i s) x = file_at s x" if "kept_place W x" for x
    using that assms(3-5) by (auto simp: fs_simps)
  show "keeps W s (move_file p q i s)"
    using assms(2-5) framed_kept by (intro keeps_move_file) blast+
qed (simp_all add: fs_simps)

lemma runs_Rename_file:
  assumes "os_ok L W s" "holds_alone s p b" "p \<noteq> q" "\<not> kept_place W p" "\<not> kept_place W q"
    and "is_dir s (butlast q)" "\<not> is_dir s q" "file_place q"
  shows "runs (os_Rename p q) s (\<lambda>r s'. case r of
      Inl err \<Rightarrow> still s s' \<and> \<not> quiet s
    | Inr _ \<Rightarrow> safe L W s s' \<and> is_dir s' = is_dir s \<and> holds_alone s' q b)"
proof -
  obtain i where i: "sole s i p" "fs_data s i = b" using assms(2) by (auto simp: holds_alone_def)
  note at = soleD(1) [OF i(1)]
  have "x = q" if "file_at (move_file p q i s) x = Some i" for x
  proof (rule ccontr)
    assume "x \<noteq> q"
    with that assms(3) have "x \<noteq> p" "file_at s x = Some i" by (auto simp: fs_simps split: if_splits)
    then show False using soleD(2) [OF i(1)] by blast
  qed
  moreover have "file_at (move_file p q i s) q = Some i" "fs_data (move_file p q i s) i = b"
    using assms(3) i(2) by (simp_all add: fs_simps)
  ultimately have "holds_alone (move_file p q i s) q b" unfolding holds_alone_def sole_def by blast
  then show ?thesis
    unfolding os_Rename_def using safe_move_file [OF assms(1) at assms(3-8)] at assms(3,6,7)
    by (intro runs_sys) (auto simp: fs_simps exists_file [OF at])
qed

section \<open>Writing a manifest\<close>

abbreviation manifest_at :: "string \<Rightarrow> path" where
  "manifest_at sid \<equiv> upload_dir sid @ [''manifest'']"

abbreviation next_at :: "string \<Rightarrow> path" where
  "next_at sid \<equiv> upload_dir sid @ [''manifest.next'']"

abbreviation blob_at :: "string \<Rightarrow> path" where
  "blob_at sid \<equiv> upload_dir sid @ [''blob'']"

text \<open>What \<open>osStageWriteRecord\<close> did: the old manifest is untouched, or the new one is in its place.\<close>

definition written ::
  "'h digest_lib \<Rightarrow> bytes set \<Rightarrow> string \<Rightarrow> bytes \<Rightarrow> osfs \<Rightarrow> bool \<Rightarrow> osfs \<Rightarrow> bool" where
  "written L U sid data s p s' \<longleftrightarrow>
     (if p then safe L (owning U [next_at sid, manifest_at sid]) s s' \<and> holds s' (manifest_at sid) data
      else safe L (owning U [next_at sid]) s s')"

lemma covers_Cons: "covers (p # q # qs) [p]" "covers (p # qs) [p]" "covers (p # q # qs) [q]"
  by (simp_all add: covers_def)

lemma written_safe: "written L U sid data s p s' \<Longrightarrow> safe L (owning U [next_at sid, manifest_at sid]) s s'"
  using safe_covers [OF covers_Cons(1) [of "next_at sid" "manifest_at sid" "[]"], of L U s s']
  by (auto simp: written_def split: if_splits)

lemma written_trans:
  assumes "written L U sid data s p s'" "safe L (owning U [next_at sid]) s' s''"
  shows "written L U sid data s p s''"
proof -
  have "holds s'' (manifest_at sid) data" if "holds s' (manifest_at sid) data"
    using keepsD(2) [OF safe_keeps [OF assms(2)] _ that] by (simp add: framed_owning)
  moreover have "safe L (owning U [next_at sid, manifest_at sid]) s s''" if "safe L (owning U [next_at sid, manifest_at sid]) s s'"
    using safe_trans [OF that safe_covers [OF covers_Cons(1) assms(2)]] .
  ultimately show ?thesis using assms safe_trans [of L "owning U [next_at sid]" s s' s''] by (auto simp: written_def)
qed

lemma runs_calls:
  assumes "\<And>err s'. still s s' \<Longrightarrow> \<not> quiet s \<Longrightarrow> Q (h err) s'" "\<And>s'. still s s' \<Longrightarrow> runs (k ()) s' Q"
  shows "runs (chk file_call h k) s Q"
  by (rule runs_step [OF runs_file_call]) (use assms in auto)

lemma runs_write_next:
  assumes "os_ok L (owning U []) s" "sole s f (next_at sid)" "fs_data s f = []"
  shows "runs (write_next e (upload_dir sid) data f) s (\<lambda>(p, err) s'.
    written L U sid data s p s' \<and> (\<not> p \<longrightarrow> err \<noteq> None) \<and> (quiet s \<longrightarrow> live e \<longrightarrow> p \<and> err = None))"
    (is "runs _ _ ?Q")
proof -
  let ?W = "owning U [next_at sid]" and ?W2 = "owning U [next_at sid, manifest_at sid]"
  have own: "\<not> kept_place ?W (next_at sid)" "\<not> kept_place ?W2 (next_at sid)" "\<not> kept_place ?W2 (manifest_at sid)"
    by (simp_all add: own_not_kept)
  have ok: "os_ok L ?W s" using assms(1) by simp
  have sync: "runs (bind (osStageSyncDir (upload_dir sid)) (\<lambda>r. ret (True, case r of Inl err \<Rightarrow> Some err | Inr _ \<Rightarrow> None))) s2 ?Q"
    if s2: "safe L ?W2 s s2" "holds s2 (manifest_at sid) data" for s2
  proof -
    obtain i where "file_at s2 (manifest_at sid) = Some i" using s2(2) by (auto simp: holds_def)
    then have d: "is_dir s2 (upload_dir sid)" using file_parent [OF safeD(2) [OF s2(1)]] by fastforce
    show ?thesis
      by (rule runs_bindI [OF runs_SyncDir])
        (use s2 d safeD(5) [OF s2(1)] in \<open>auto simp: run_simps written_def elim!: stillE split: sum.splits\<close>)
  qed
  have move: "runs (chk (os_Rename (next_at sid) (manifest_at sid)) (\<lambda>err. (False, Some err)) (\<lambda>_.
      bind (osStageSyncDir (upload_dir sid)) (\<lambda>r. ret (True, case r of Inl err \<Rightarrow> Some err | Inr _ \<Rightarrow> None)))) s1 ?Q"
    if s1: "safe L ?W s s1" "holds_alone s1 (next_at sid) data" for s1
  proof -
    have w2: "safe L ?W2 s s1" by (rule safe_covers [OF covers_Cons(1) s1(1)])
    obtain i where "file_at s1 (next_at sid) = Some i" using holds_alone_holds [OF s1(2)] by (auto simp: holds_def)
    then have d: "is_dir s1 (butlast (manifest_at sid))" using file_parent [OF safeD(2) [OF s1(1)]] by fastforce
    have nd: "\<not> is_dir s1 (manifest_at sid)" using not_upload_dir [OF safeD(3) [OF s1(1)]] by blast
    have ren: "runs (os_Rename (next_at sid) (manifest_at sid)) s1 (\<lambda>r s'. case r of
        Inl err \<Rightarrow> still s1 s' \<and> \<not> quiet s1
      | Inr _ \<Rightarrow> safe L ?W2 s1 s' \<and> is_dir s' = is_dir s1 \<and> holds_alone s' (manifest_at sid) data)"
      by (rule runs_Rename_file [OF safeD(1) [OF w2] s1(2) _ own(2,3) d nd]) (simp_all add: upload_place)
    show ?thesis
    proof (rule runs_step [OF ren], goal_cases)
      case (1 err s')
      then show ?case using s1(1) safeD(5) [OF s1(1)] by (auto simp: written_def elim!: stillE)
    next
      case (2 x s')
      then show ?case using safe_trans [OF w2] holds_alone_holds by (intro sync) auto
    qed
  qed
  show ?thesis
    unfolding write_next_def Let_def
  proof (rule runs_step [OF runs_file_Write [OF ok assms(2) own(1)]], goal_cases)
    case (1 err s1)
    then show ?case by (auto simp: written_def)
  next
    case (2 x s1)
    then have s1: "safe L ?W s s1" "holds_alone s1 (next_at sid) data" using assms(3) by (auto simp: holds_alone_def)
    show ?case
    proof (rule runs_calls, goal_cases)
      case (1 err s2)
      then show ?case using s1(1) safeD(5) [OF s1(1)] by (auto simp: written_def elim!: stillE)
    next
      case (2 s2)
      then have s2: "safe L ?W s s2" "holds_alone s2 (next_at sid) data" "quiet s2 = quiet s" using s1 safeD(5) [OF s1(1)] by (auto elim!: stillE)
      show ?case
      proof (rule runs_calls, goal_cases)
        case (1 err s3)
        then show ?case using s2 by (auto simp: written_def elim!: stillE)
      next
        case (2 s3)
        then have s3: "safe L ?W s s3" "holds_alone s3 (next_at sid) data" using s2 by (auto elim!: stillE)
        then show ?case using move by (cases "ctx_Err e 0") (auto simp: run_simps written_def live_def)
      qed
    qed
  qed
qed

definition marshals :: "manifest_codec \<Rightarrow> stageRecord \<Rightarrow> bool" where
  "marshals C rec \<longleftrightarrow> (\<exists>b. cd_Marshal C rec = Inr b \<and> length b \<le> manifest_limit)"

lemma runs_WriteRecord:
  assumes ok: "os_ok L (owning U []) s" and d: "is_dir s (upload_dir sid)"
  shows "runs (osStageWriteRecord C e (upload_dir sid) rec) s (\<lambda>(p, err) s'.
    (\<exists>data. (p \<longrightarrow> cd_Marshal C rec = Inr data \<and> length data \<le> manifest_limit) \<and> written L U sid data s p s')
    \<and> (\<not> p \<longrightarrow> err \<noteq> None) \<and> (quiet s \<longrightarrow> live e \<longrightarrow> marshals C rec \<longrightarrow> p \<and> err = None))"
    (is "runs _ _ ?Q")
proof -
  let ?W = "owning U [next_at sid]"
  have same: "written L U sid data s False s" for data using ok by (simp add: written_def safe_refl)
  have own: "\<not> kept_place ?W (next_at sid)" by (simp add: own_not_kept)
  have okW: "os_ok L ?W s" using ok by simp
  have nd: "\<not> is_dir s (next_at sid)" using not_upload_dir [OF os_okD(2) [OF ok]] by blast
  have main: "runs (chk (remove_if_there (next_at sid)) (\<lambda>err. (False, Some err)) (\<lambda>_.
      chk (os_CreateExcl (next_at sid)) (\<lambda>err. (False, Some err)) (\<lambda>f.
        deferred (write_next (env_after 1 e) (upload_dir sid) data f) (\<lambda>_. drop_file (next_at sid))))) s ?Q"
    if m: "cd_Marshal C rec = Inr data" "length data \<le> manifest_limit" for data
  proof (rule runs_step [OF runs_remove_if_there [OF okW own nd]], goal_cases)
    case (1 err s1)
    then show ?case by (auto simp: written_def)
  next
    case (2 x s1)
    then have s1: "safe L ?W s s1" "is_dir s1 (upload_dir sid)" "\<not> exists_at s1 (next_at sid)" using d by auto
    show ?case
    proof (rule runs_step [OF runs_CreateExcl [OF safeD(1) [OF s1(1)] s1(3) _ _ own]], goal_cases)
      case 1
      then show ?case using s1(2) by simp
    next
      case 2
      then show ?case by (simp add: upload_place)
    next
      case (3 err s2)
      then show ?case using safe_trans [OF s1(1)] safeD(5) [OF s1(1)] by (auto simp: written_def)
    next
      case (4 f s2)
      then have s2: "safe L ?W s s2" "sole s2 f (next_at sid)" "fs_data s2 f = []" using safe_trans [OF s1(1)] by auto
      have ok2: "os_ok L (owning U []) s2" using safeD(1) [OF s2(1)] by simp
      show ?case
        unfolding runs_deferred
      proof (rule runs_mono [OF runs_write_next [OF ok2 s2(2,3)]], goal_cases)
        case (1 r s3)
        obtain p err where r: "r = (p, err)" by (cases r)
        with 1 have 3: "written L U sid data s2 p s3" "\<not> p \<longrightarrow> err \<noteq> None" "quiet s2 \<longrightarrow> live (env_after 1 e) \<longrightarrow> p \<and> err = None"
          by simp_all
        have w: "written L U sid data s p s3"
          using 3(1) s2(1) safe_trans [OF safe_covers [OF covers_Cons(1) s2(1)]] safe_trans [OF s2(1)] by (auto simp: written_def split: if_splits)
        have ok3: "os_ok L ?W s3" using safeD(1) [OF written_safe [OF w]] by simp
        show ?case
          unfolding r by (rule runs_mono [OF runs_drop_file [OF ok3 own]])
            (use written_trans [OF w] 3(2,3) m safeD(5) [OF s2(1)] in auto)
      qed
    qed
  qed
  show ?thesis
    unfolding osStageWriteRecord_def Let_def
    using main same by (auto simp: run_simps live_def marshals_def split: option.splits sum.splits)
qed

end
