(* ===== verification/OsAppend.thy ===== *)
theory OsAppend
  imports OsUpload
begin

text \<open>
  Opening an upload and appending to it. The JSON codec is a parameter, of which only the round trip of a
  record is used; labels come back equal when their text is ASCII, since JSON strings are Unicode.
\<close>

section \<open>The codec\<close>

definition ascii :: "string \<Rightarrow> bool" where
  "ascii s = list_all (\<lambda>c. byte_val c < 128) s"

definition ascii_labels :: "labels \<Rightarrow> bool" where
  "ascii_labels l = (case l of None \<Rightarrow> True | Some m \<Rightarrow> list_all (\<lambda>(k, vs). ascii k \<and> list_all ascii vs) m)"

definition int64 :: "int \<Rightarrow> bool" where
  "int64 x \<longleftrightarrow> - (2 ^ 63) \<le> x \<and> x < 2 ^ 63"

definition plain_record :: "stageRecord \<Rightarrow> bool" where
  "plain_record r \<longleftrightarrow>
     list_all ascii [ID r, Namespace r, Algorithm r, State r, Digest (Commit r), Digest (Result r)]
     \<and> list_all int64 [Version r, Offset r, Size (Commit r), Size (Result r)]"

definition relabelled :: "stageRecord \<Rightarrow> labels \<Rightarrow> labels \<Rightarrow> stageRecord" where
  "relabelled r l l' = r\<lparr>Commit := (Commit r)\<lparr>Labels := l\<rparr>, Result := (Result r)\<lparr>Labels := l'\<rparr>\<rparr>"

definition same_text :: "labels \<Rightarrow> labels \<Rightarrow> bool" where
  "same_text l l' \<longleftrightarrow> (ascii_labels l \<longrightarrow> labels_DeepEqual l l')"

text \<open>What \<open>encoding/json\<close> documents: a value that was marshalled is decoded to the same value.\<close>

definition codec_ok :: "manifest_codec \<Rightarrow> bool" where
  "codec_ok C \<longleftrightarrow>
     (\<forall>r b. plain_record r \<longrightarrow> cd_Marshal C r = Inr b \<longrightarrow>
        (\<exists>l l'. cd_Decode C b = Inr (relabelled r l l', False)
           \<and> same_text (Labels (Commit r)) l \<and> same_text (Labels (Result r)) l'))"

lemma relabelled_simps [simp]:
  "Version (relabelled r l l') = Version r" "ID (relabelled r l l') = ID r" "Namespace (relabelled r l l') = Namespace r"
  "Algorithm (relabelled r l l') = Algorithm r" "Offset (relabelled r l l') = Offset r" "Hash (relabelled r l l') = Hash r"
  "State (relabelled r l l') = State r" "ExpiresAt (relabelled r l l') = ExpiresAt r"
  "Commit (relabelled r l l') = (Commit r)\<lparr>Labels := l\<rparr>" "Result (relabelled r l l') = (Result r)\<lparr>Labels := l'\<rparr>"
  by (simp_all add: relabelled_def)

lemma relabelled_same:
  "describes L (relabelled r l l') data = describes L r data" "record_shape (relabelled r l l') ns = record_shape r ns"
  "commit_shape L (relabelled r l l') data = commit_shape L r data" "plain_record (relabelled r l l') = plain_record r"
  by (simp_all add: describes_def record_shape_def commit_shape_def plain_record_def)

lemma stageCommitMatches_refl [simp]: "stageCommitMatches m m"
  by (simp add: stageCommitMatches_def)

lemma prepared_again:
  assumes "digest_lib_ok L" "describes L r data" "record_shape r ns" "commit_shape L r data"
    and "State r \<in> {StageCommitting, StageCommitted}"
  shows "prepareCommit L r (Commit r) = Inr (Commit r)"
proof -
  have d: "Digest (Commit r) = data_digest L (Algorithm r) data" "Size (Commit r) = Offset r"
    using assms(4,5) by (auto simp: commit_shape_def)
  have "Algorithm r \<in> set algorithms" using assms(2) by (simp add: describes_def)
  then have "Sanitize L (data_digest L (Algorithm r) data) = Inr (data_digest L (Algorithm r) data)"
    by (intro Sanitize_valid assms(1) Validate_data_digest)
  then show ?thesis
    unfolding prepareCommit_described [OF assms(2-4)] using d by (cases "Commit r") (simp add: Let_def)
qed

text \<open>A record that was written is read back.\<close>

lemma parse_written:
  assumes "digest_lib_ok L" "codec_ok C" "plain_record r" "describes L r data" "record_shape r ns" "commit_shape L r data"
    and "cd_Marshal C r = Inr b" "length b \<le> manifest_limit"
  obtains l l' where "parse_record C L b = Inr (relabelled r l l')"
    and "same_text (Labels (Commit r)) l" and "same_text (Labels (Result r)) l'"
proof -
  obtain l l' where l: "cd_Decode C b = Inr (relabelled r l l', False)"
      "same_text (Labels (Commit r)) l" "same_text (Labels (Result r)) l'"
    using assms(2,3,7) unfolding codec_ok_def by blast
  let ?r = "relabelled r l l'"
  have d: "describes L ?r data" "record_shape ?r ns" "commit_shape L ?r data"
    using assms(4-6) by (simp_all add: relabelled_same)
  have "State ?r = StageCommitted \<Longrightarrow> Digest (Result ?r) = Digest (Commit ?r) \<and> Size (Result ?r) = Offset ?r"
    using d(3) by (simp add: commit_shape_def)
  moreover have "State ?r = StageCommitting \<or> State ?r = StageCommitted \<Longrightarrow> prepareCommit L ?r (Commit ?r) = Inr (Commit ?r)"
    using prepared_again [OF assms(1) d] by simp
  ultimately have "parse_record C L b = Inr ?r"
    using l(1) assms(8) validate_described [OF d] by (auto simp: parse_record_def)
  with l show thesis by (intro that)
qed

section \<open>An upload on disk\<close>

text \<open>
  The manifest of an upload describes the bytes \<open>data\<close>. While it is active its file begins with them, and
  nothing else links to it; while it is being committed its file is them.
\<close>

definition recorded ::
  "manifest_codec \<Rightarrow> 'h digest_lib \<Rightarrow> osfs \<Rightarrow> string \<Rightarrow> string \<Rightarrow> stageRecord \<Rightarrow> bytes \<Rightarrow> bool" where
  "recorded C L s ns sid rec data \<longleftrightarrow>
     ID rec = sid \<and> plain_record rec \<and> describes L rec data \<and> record_shape rec ns \<and> commit_shape L rec data
     \<and> file_at s (upload_dir sid @ [''lock'']) \<noteq> None
     \<and> (\<exists>b. holds s (manifest_at sid) b \<and> length b \<le> manifest_limit \<and> parse_record C L b = Inr rec)"

definition upload_file :: "osfs \<Rightarrow> string \<Rightarrow> stageRecord \<Rightarrow> bytes \<Rightarrow> bool" where
  "upload_file s sid rec data \<longleftrightarrow>
     (State rec = StageActive \<longrightarrow> (\<exists>file. holds_alone s (blob_at sid) file \<and> prefix data file))
     \<and> (State rec = StageCommitting \<longrightarrow> holds s (blob_at sid) data)"

definition upload_at ::
  "manifest_codec \<Rightarrow> 'h digest_lib \<Rightarrow> osfs \<Rightarrow> string \<Rightarrow> string \<Rightarrow> stageRecord \<Rightarrow> bytes \<Rightarrow> bool" where
  "upload_at C L s ns sid rec data \<longleftrightarrow> recorded C L s ns sid rec data \<and> upload_file s sid rec data"

lemma upload_upd [simp]:
  "recorded C L (s\<lparr>fs_sys := n\<rparr>) = recorded C L s" "upload_file (s\<lparr>fs_sys := n\<rparr>) = upload_file s"
  "upload_at C L (s\<lparr>fs_sys := n\<rparr>) = upload_at C L s"
  by (simp_all add: recorded_def upload_file_def upload_at_def fun_eq_iff)

lemma recorded_keeps:
  assumes "recorded C L s ns sid rec data" "keeps W s s'" "framed W (manifest_at sid)" "framed W (upload_dir sid @ [''lock''])"
  shows "recorded C L s' ns sid rec data"
  using assms(1) keepsD(2) [OF assms(2,3)] keepsD(1) [OF assms(2,4)] unfolding recorded_def by metis

lemma upload_file_keeps:
  assumes "upload_file s sid rec data" "keeps W s s'" "framed W (blob_at sid)"
  shows "upload_file s' sid rec data"
  using assms(1) keepsD(2,3) [OF assms(2,3)] unfolding upload_file_def by metis

lemma upload_at_keeps:
  assumes "upload_at C L s ns sid rec data" "keeps W s s'"
    and "framed W (manifest_at sid)" "framed W (upload_dir sid @ [''lock''])" "framed W (blob_at sid)"
  shows "upload_at C L s' ns sid rec data"
  using recorded_keeps [OF _ assms(2-4)] upload_file_keeps [OF _ assms(2,5)] assms(1) by (auto simp: upload_at_def)

lemma recordedD:
  assumes "recorded C L s ns sid rec data"
  shows "ID rec = sid" "validStageID sid" "Namespace rec = namespaceSegment ns" "Offset rec = int (length data)"
    "describes L rec data" "record_shape rec ns" "commit_shape L rec data" "plain_record rec"
  using assms by (auto simp: recorded_def record_shape_def describes_def)

lemma recorded_dirs:
  assumes "tree_ok s" "recorded C L s ns sid rec data"
  shows "is_dir s (upload_dir sid)" "is_dir s [''uploads'']" "is_dir s []"
proof -
  obtain i where i: "file_at s (manifest_at sid) = Some i" using assms(2) by (auto simp: recorded_def holds_def)
  note p = parent_exists [OF assms(1) exists_file [OF i]]
  show "is_dir s (upload_dir sid)" by (rule p) (simp add: strict_prefix_def prefix_def)
  show "is_dir s [''uploads'']" "is_dir s []" by (rule p; simp add: upload_dir_def strict_prefix_def prefix_def)+
qed

section \<open>Opening\<close>

lemma runs_Lock:
  assumes "unblocked s"
  shows "runs (OsFileLock_Lock e) s (\<lambda>r s'. still s s' \<and> (case r of Inl err \<Rightarrow> \<not> (quiet s \<and> live e) | Inr _ \<Rightarrow> True))"
proof (cases "ctx_Err e 0")
  case None
  obtain n where "fs_sys s \<le> n" "fs_try s n \<noteq> Inr False" using assms by (auto simp: unblocked_def)
  from try_loop_returns [OF this, of e 1 lockRetryMin "[]"] obtain r ws m where
    "try_loop e 1 lockRetryMin [] s = Some ((r, ws), s\<lparr>fs_sys := m\<rparr>)" "quiet s \<longrightarrow> r = Inr True" by blast
  then show ?thesis
    using None by (cases r) (auto simp: runs_def OsFileLock_Lock_def tryLockContext_def bind_def ret_def)
next
  case (Some err)
  then show ?thesis by (auto simp: runs_def OsFileLock_Lock_def tryLockContext_def bind_def ret_def live_def)
qed

lemma runs_stage_lock:
  assumes "unblocked s"
  shows "runs (stage_lock e once) s (\<lambda>r s'. still s s' \<and> (case r of Inl err \<Rightarrow> \<not> (quiet s \<and> live e) | Inr _ \<Rightarrow> True))"
proof (cases once)
  case True
  then show ?thesis
    by (auto simp: stage_lock_def runs_def TryLock_def chk_def bind_def ret_def quiet_def split: sum.splits)
next
  case False
  then show ?thesis
    unfolding stage_lock_def by (simp, intro runs_step [OF runs_Lock [OF assms]]) (auto simp: run_simps)
qed

text \<open>A step that only looks, and finds what it looks for.\<close>

lemma runs_look:
  assumes "runs m s (\<lambda>r s'. still s s' \<and> (case r of Inl err \<Rightarrow> E | Inr x \<Rightarrow> R x))"
    and "\<And>err s'. still s s' \<Longrightarrow> E \<Longrightarrow> Q (h err) s'" "\<And>x s'. still s s' \<Longrightarrow> R x \<Longrightarrow> runs (k x) s' Q"
  shows "runs (chk m h k) s Q"
  by (rule runs_step [OF assms(1)]) (use assms(2,3) in auto)

lemma runs_looks:
  assumes "still s0 s" "\<And>n. runs m (s0\<lparr>fs_sys := n\<rparr>) (\<lambda>r s'. still s0 s' \<and> (case r of Inl err \<Rightarrow> E | Inr x \<Rightarrow> R x))"
    and "\<And>err s'. still s0 s' \<Longrightarrow> E \<Longrightarrow> Q (h err) s'" "\<And>x s'. still s0 s' \<Longrightarrow> R x \<Longrightarrow> runs (k x) s' Q"
  shows "runs (chk m h k) s Q"
proof -
  obtain n where "s = s0\<lparr>fs_sys := n\<rparr>" using assms(1) by (rule stillE)
  then show ?thesis by (intro runs_step [OF assms(2) [of n, folded \<open>s = s0\<lparr>fs_sys := n\<rparr>\<close>]]) (use assms(3,4) in auto)
qed

lemma runs_Regular_file:
  assumes "tree_ok s" "file_at s p \<noteq> None"
  shows "runs (osStageRegular p) s (\<lambda>r s'. still s s' \<and> (case r of Inl err \<Rightarrow> \<not> quiet s | Inr _ \<Rightarrow> True))"
proof -
  obtain i where i: "file_at s p = Some i" using assms(2) by blast
  show ?thesis
    by (rule runs_mono [OF runs_Regular])
      (use tree_okD(2) [OF assms(1) i] exists_file [OF i] in \<open>auto split: sum.splits\<close>)
qed

lemma runs_Open_file:
  "file_at s p = Some i \<Longrightarrow>
     runs (os_Open p) s (\<lambda>r s'. still s s' \<and> (case r of Inl err \<Rightarrow> \<not> quiet s | Inr j \<Rightarrow> j = i))"
  by (rule runs_mono [OF runs_Open]) (auto split: sum.splits)

text \<open>The calls that look, from a state that differs only in the number of calls.\<close>

lemma look_file_call: "runs (file_call) (s\<lparr>fs_sys := n\<rparr>) (\<lambda>r s'. still s s' \<and> (case r of Inl err \<Rightarrow> \<not> quiet s | Inr _ \<Rightarrow> True))"
  by (rule runs_mono [OF runs_file_call]) (auto split: sum.splits)

lemma look_OpenDir: "is_dir s p \<Longrightarrow> runs (os_OpenDir p) (s\<lparr>fs_sys := n\<rparr>) (\<lambda>r s'. still s s' \<and> (case r of Inl err \<Rightarrow> \<not> quiet s | Inr _ \<Rightarrow> True))"
  by (rule runs_mono [OF runs_OpenDir]) (auto split: sum.splits)

lemma look_SyncDir: "is_dir s p \<Longrightarrow> runs (osStageSyncDir p) (s\<lparr>fs_sys := n\<rparr>) (\<lambda>r s'. still s s' \<and> (case r of Inl err \<Rightarrow> \<not> quiet s | Inr _ \<Rightarrow> True))"
  by (rule runs_mono [OF runs_SyncDir]) (auto split: sum.splits)

lemma look_Open: "file_at s p = Some i \<Longrightarrow> runs (os_Open p) (s\<lparr>fs_sys := n\<rparr>) (\<lambda>r s'. still s s' \<and> (case r of Inl err \<Rightarrow> \<not> quiet s | Inr j \<Rightarrow> j = i))"
  by (rule runs_mono [OF runs_Open_file]) (auto split: sum.splits)

lemma look_Regular: "tree_ok s \<Longrightarrow> file_at s p \<noteq> None \<Longrightarrow> runs (osStageRegular p) (s\<lparr>fs_sys := n\<rparr>) (\<lambda>r s'. still s s' \<and> (case r of Inl err \<Rightarrow> \<not> quiet s | Inr _ \<Rightarrow> True))"
  by (rule runs_mono [OF runs_Regular_file]) (auto split: sum.splits)

lemma look_Read: "runs (file_Read i) (s\<lparr>fs_sys := n\<rparr>) (\<lambda>r s'. still s s' \<and> (case r of Inl err \<Rightarrow> \<not> quiet s | Inr b \<Rightarrow> b = fs_data s i))"
  by (rule runs_mono [OF runs_file_Read]) (auto split: sum.splits)

lemma runs_ReadRecord:
  assumes "tree_ok s" "recorded C L s ns sid rec data"
  shows "runs (osStageReadRecord C L (upload_dir sid)) s
    (\<lambda>r s'. still s s' \<and> (case r of Inl err \<Rightarrow> \<not> quiet s | Inr x \<Rightarrow> x = rec))" (is "runs _ _ ?Q")
proof -
  obtain i where i: "file_at s (manifest_at sid) = Some i" "length (fs_data s i) \<le> manifest_limit"
      "parse_record C L (fs_data s i) = Inr rec"
    using assms(2) by (auto simp: recorded_def holds_def)
  have all: "take (Suc manifest_limit) (fs_data s i) = fs_data s i" using i(2) by simp
  note looks = look_Regular [OF assms(1), of "manifest_at sid"] look_Open [OF i(1)] look_Read [where s = s]
  show ?thesis
    unfolding osStageReadRecord_def
    by (rule runs_looks [OF still_refl looks(1)], simp add: i(1), simp, rule runs_looks [OF _ looks(2)], assumption, simp,
        clarify, rule runs_looks [OF _ looks(3)], assumption, simp)
      (simp add: runs_ret all i(3))
qed

lemma runs_stage_dirs:
  assumes "tree_ok s" "\<forall>p \<in> set ps. is_dir s p"
  shows "runs (stage_dirs ps) s (\<lambda>r s'. still s s' \<and> (case r of Inl err \<Rightarrow> \<not> quiet s | Inr _ \<Rightarrow> True))"
  using assms
proof (induction ps arbitrary: s)
  case Nil
  then show ?case by (simp add: run_simps)
next
  case (Cons p ps)
  have nf: "file_at s p \<noteq> Some i" for i using tree_okD(2) [OF Cons.prems(1)] Cons.prems(2) by fastforce
  have ex: "exists_at s p" using Cons.prems(2) by (simp add: exists_at_def)
  show ?case
    unfolding stage_dirs.simps
  proof (rule runs_step [OF runs_Stat], goal_cases)
    case (1 err s')
    then show ?case using ex by auto
  next
    case (2 x s')
    then obtain n where s': "s' = s\<lparr>fs_sys := n\<rparr>" by (auto elim!: stillE)
    then have "runs (stage_dirs ps) s' (\<lambda>r s'. still s s' \<and> (case r of Inl err \<Rightarrow> \<not> quiet s | Inr _ \<Rightarrow> True))"
      using Cons.IH [of s'] Cons.prems by (simp cong: sum.case_cong)
    then show ?case using 2 nf by (auto split: node.splits)
  qed
qed

definition opened :: "string \<Rightarrow> stageRecord \<Rightarrow> StageConfig \<Rightarrow> env \<Rightarrow> osLockedStage \<Rightarrow> bool" where
  "opened sid rec cfg e l \<longleftrightarrow>
     ol_id l = sid \<and> ol_record l = rec \<and> ol_config l = normalized cfg \<and> (\<exists>k. ol_ctx l = env_after k e)"

lemma runs_openOsStage:
  assumes ok: "os_ok L (owning U []) s" and rec: "recorded C L s ns sid rec data" and ub: "unblocked s"
    and ns: "namespace = None \<or> namespace = Some ns"
  shows "runs (openOsStage C L e sid namespace cfg once) s
    (\<lambda>r s'. still s s' \<and> (case r of Inl err \<Rightarrow> \<not> (quiet s \<and> live e) | Inr l \<Rightarrow> opened sid rec cfg e l))"
    (is "runs _ _ ?Q")
proof (cases "ctx_Err e 0")
  case (Some err)
  then show ?thesis using recordedD(2) [OF rec] by (auto simp: openOsStage_def run_simps Let_def live_def)
next
  case None
  note t = os_okD(1) [OF ok] and dirs = recorded_dirs [OF os_okD(1) [OF ok] rec]
  have lock: "file_at s (upload_dir sid @ [''lock'']) \<noteq> None" using rec by (simp add: recorded_def)
  have more:
    "runs (stage_dirs [[''uploads''], upload_dir sid]) (s\<lparr>fs_sys := n\<rparr>)
       (\<lambda>r s'. still s s' \<and> (case r of Inl err \<Rightarrow> \<not> quiet s | Inr _ \<Rightarrow> True))"
    "runs (stage_lock (env_after 1 e) once) (s\<lparr>fs_sys := n\<rparr>)
       (\<lambda>r s'. still s s' \<and> (case r of Inl err \<Rightarrow> \<not> (quiet s \<and> live (env_after 1 e)) | Inr _ \<Rightarrow> True))"
    "runs (osStageReadRecord C L (upload_dir sid)) (s\<lparr>fs_sys := n\<rparr>)
       (\<lambda>r s'. still s s' \<and> (case r of Inl err \<Rightarrow> \<not> quiet s | Inr x \<Rightarrow> x = rec))" for n
    by (rule runs_mono [OF runs_stage_dirs], use t dirs in \<open>auto split: sum.splits\<close>,
        rule runs_mono [OF runs_stage_lock], use ub in \<open>auto split: sum.splits\<close>,
        rule runs_mono [OF runs_ReadRecord [of _ C L ns sid rec data]], use t rec in \<open>auto split: sum.splits\<close>)
  note looks = look_OpenDir [OF dirs(3)] more(1) look_OpenDir [OF dirs(1)] look_Regular [OF t lock] more(2,3)
  show ?thesis
    unfolding openOsStage_def Let_def
    by (simp only: recordedD(2) [OF rec] None not_True_eq_False if_False option.case,
        rule runs_looks [OF still_refl looks(1)], simp, rule runs_looks [OF _ looks(2)], assumption, simp,
        rule runs_looks [OF _ looks(3)], assumption, simp, rule runs_looks [OF _ looks(4)], assumption, simp,
        rule runs_looks [OF _ looks(5)], assumption, fastforce, rule runs_looks [OF _ looks(6)], assumption, simp)
      (use recordedD(1,3) [OF rec] ns in \<open>auto simp: run_simps opened_def live_def split: option.splits\<close>)
qed

section \<open>The tail of the file\<close>

lemma links_one:
  assumes "tree_ok s" "sole s i p"
  shows "links s i = 1"
proof -
  let ?xs = "filter (\<lambda>x. snd x = i) (fs_files s)"
  have d: "distinct (map fst (fs_files s))" by (rule tree_okD(3) [OF assms(1)])
  have "x = (p, i)" if x: "x \<in> set ?xs" for x
  proof -
    have "(fst x, i) \<in> set (fs_files s)" using x by auto
    then have "file_at s (fst x) = Some i" by (rule map_of_is_SomeI [OF d])
    then show ?thesis using soleD(2) [OF assms(2)] x by (auto simp: prod_eq_iff)
  qed
  moreover have "(p, i) \<in> set ?xs" using map_of_SomeD [OF soleD(1) [OF assms(2)]] by simp
  ultimately have "set ?xs = {(p, i)}" by blast
  moreover have "distinct ?xs" using d by (simp add: distinct_map)
  ultimately have "length ?xs = 1" using distinct_card [of ?xs] by simp
  then show ?thesis by (simp add: links_def)
qed

lemma runs_tail_links:
  assumes "tree_ok s" "file_at s p = Some i" "State rec = StageActive \<longrightarrow> sole s i p"
  shows "runs (tail_links p rec) s (\<lambda>r s'. still s s' \<and> (case r of Inl err \<Rightarrow> \<not> quiet s | Inr _ \<Rightarrow> True))"
proof (cases "State rec = StageActive")
  case True
  have nl: "runs (nlink p) s (\<lambda>r s'. still s s' \<and> (case r of Inl err \<Rightarrow> \<not> quiet s | Inr n \<Rightarrow> n = 1))"
    unfolding nlink_def
  proof (rule runs_step [OF runs_Stat], goal_cases)
    case (1 err s')
    then show ?case using exists_file [OF assms(2)] by auto
  next
    case (2 x s')
    then show ?case
      using assms(2) tree_okD(2) [OF assms(1,2)] links_one [OF assms(1)] assms(3) True
      by (auto simp: run_simps elim!: stillE split: node.splits)
  qed
  show ?thesis
    unfolding tail_links_def using True by (simp, intro runs_look [OF nl]) (auto simp: run_simps)
qed (simp add: tail_links_def run_simps)

lemma upload_file_inode:
  assumes "upload_file s sid rec data" "State rec = StageActive \<or> State rec = StageCommitting"
  obtains i where "file_at s (blob_at sid) = Some i" "State rec = StageActive \<longrightarrow> sole s i (blob_at sid)"
    "prefix data (fs_data s i)" "State rec \<noteq> StageActive \<longrightarrow> fs_data s i = data"
proof (cases "State rec = StageActive")
  case True
  then obtain i where "sole s i (blob_at sid)" "prefix data (fs_data s i)"
    using assms(1) by (auto simp: upload_file_def holds_alone_def)
  then show thesis using soleD(1) True by (intro that [of i]) auto
next
  case False
  then show thesis using assms that by (auto simp: upload_file_def holds_def)
qed

lemma runs_cut_tail:
  assumes ok: "os_ok L (owning U []) s" and sl: "sole s i (blob_at sid)" and pre: "prefix data (fs_data s i)"
  shows "runs (chk (file_Truncate i (length data)) Inl (\<lambda>_. file_call)) s (\<lambda>r s'.
    safe L (owning U [blob_at sid]) s s' \<and> (\<exists>file. holds_alone s' (blob_at sid) file \<and> prefix data file
      \<and> (case r of Inl err \<Rightarrow> \<not> quiet s | Inr _ \<Rightarrow> file = data)))"
proof -
  have own: "\<not> kept_place (owning U [blob_at sid]) (blob_at sid)" by (simp add: own_not_kept)
  have len: "length data \<le> length (fs_data s i)" "take (length data) (fs_data s i) = data"
    using pre by (auto simp: prefix_def)
  have ok': "os_ok L (owning U [blob_at sid]) s" using ok by simp
  show ?thesis
  proof (rule runs_step [OF runs_Truncate [OF ok' sl own len(1)]], goal_cases)
    case (1 err s1)
    then show ?case using pre by (auto simp: holds_alone_def)
  next
    case (2 x s1)
    then have s1: "safe L (owning U [blob_at sid]) s s1" "holds_alone s1 (blob_at sid) data" "quiet s1 = quiet s"
      using len(2) safeD(5) by (auto simp: holds_alone_def)
    show ?case
      by (rule runs_mono [OF runs_file_call]) (use s1 in \<open>auto elim!: stillE split: sum.splits\<close>)
  qed
qed

lemma runs_recoverTail:
  assumes ok: "os_ok L (owning U []) s" and up: "upload_at C L s ns sid rec data"
    and l: "ol_id l = sid" "ol_record l = rec"
  shows "runs (recoverTail l) s (\<lambda>r s'. safe L (owning U [blob_at sid]) s s' \<and> upload_at C L s' ns sid rec data
    \<and> (case r of Inl err \<Rightarrow> \<not> (quiet s \<and> live (ol_ctx l))
       | Inr _ \<Rightarrow> (State rec = StageActive \<longrightarrow> holds_alone s' (blob_at sid) data)))" (is "runs _ _ ?Q")
proof -
  let ?W = "owning U [blob_at sid]"
  have here: "?Q r s'" if "still s s'" "case r of Inl err \<Rightarrow> \<not> (quiet s \<and> live (ol_ctx l)) | Inr _ \<Rightarrow> State rec = StageActive \<longrightarrow> holds_alone s (blob_at sid) data"
    for r s' using that up ok still_safe [of s s' L ?W] by (auto elim!: stillE split: sum.splits)
  show ?thesis
  proof (cases "ctx_Err (ol_ctx l) 0 \<noteq> None \<or> State rec = StageCommitted \<or> State rec = StageAborted")
    case True
    show ?thesis
    proof (cases "ctx_Err (ol_ctx l) 0")
      case (Some err)
      then have "\<not> live (ol_ctx l)" by (auto simp: live_def)
      then show ?thesis using Some here [OF still_refl, of "Inl err"] by (simp add: recoverTail_def runs_ret Let_def)
    next
      case None
      with True have "State rec \<noteq> StageActive" "State rec = StageCommitted \<or> State rec = StageAborted"
        by (auto simp: stage_states)
      then show ?thesis using None l here [OF still_refl, of "Inr ()"] by (simp add: recoverTail_def runs_ret Let_def)
    qed
  next
    case False
    then have st: "State rec = StageActive \<or> State rec = StageCommitting"
      using up by (auto simp: upload_at_def recorded_def record_shape_def)
    obtain i where i: "file_at s (blob_at sid) = Some i" "State rec = StageActive \<longrightarrow> sole s i (blob_at sid)"
        "prefix data (fs_data s i)" "State rec \<noteq> StageActive \<longrightarrow> fs_data s i = data"
      using upload_file_inode [OF conjunct2 [OF up [unfolded upload_at_def]] st] .
    have off: "Offset rec = int (length data)" using up recordedD(4) by (auto simp: upload_at_def)
    have at: "file_at s (blob_at sid) \<noteq> None" using i(1) by simp
    have tl: "runs (tail_links (blob_at sid) rec) (s\<lparr>fs_sys := n\<rparr>) (\<lambda>r s'. still s s' \<and> (case r of Inl err \<Rightarrow> \<not> quiet s | Inr _ \<Rightarrow> True))" for n
      by (rule runs_mono [OF runs_tail_links [of _ _ i]]) (use os_okD(1) [OF ok] i(1,2) in \<open>auto split: sum.splits\<close>)
    note looks = look_Regular [OF os_okD(1) [OF ok] at] look_Open [OF i(1)] look_file_call [where s = s] tl
    have cut: "runs (chk (file_Truncate i (length data)) Inl (\<lambda>_. file_call)) s' ?Q"
      if s': "still s s'" and gt: "int (length (fs_data s i)) > Offset rec" for s'
    proof -
      have act: "State rec = StageActive" using gt i(4) off by auto
      obtain n where n: "s' = s\<lparr>fs_sys := n\<rparr>" using s' by (rule stillE)
      have sl: "sole s' i (blob_at sid)" "prefix data (fs_data s' i)" "os_ok L (owning U []) s'" using n i(2,3) act ok by simp_all
      show ?thesis
      proof (rule runs_mono [OF runs_cut_tail [OF sl(3,1,2)]], goal_cases)
        case (1 r s2)
        then obtain fl where f: "safe L ?W s' s2" "holds_alone s2 (blob_at sid) fl" "prefix data fl"
            "case r of Inl err \<Rightarrow> \<not> quiet s' | Inr _ \<Rightarrow> fl = data" by blast
        have safe: "safe L ?W s s2" using f(1) safe_trans [OF still_safe [OF s'], of L ?W] ok by simp
        have "recorded C L s2 ns sid rec data"
          by (rule recorded_keeps [OF _ safe_keeps [OF safe]]) (use up in \<open>simp_all add: upload_at_def framed_owning\<close>)
        then have "upload_at C L s2 ns sid rec data"
          using f(2,3) act by (auto simp: upload_at_def upload_file_def stage_states)
        then show ?case using safe f(2,4) n by (auto split: sum.splits)
      qed
    qed
    have c: "ctx_Err (ol_ctx l) 0 = None" "State rec \<noteq> StageCommitted" "State rec \<noteq> StageAborted" using False by auto
    have same: "data = fs_data s i" if "int (length (fs_data s i)) \<le> Offset rec"
      using that i(3) off by (auto simp: prefix_def)
    have fin: "runs (if sz < Offset rec then ret (Inl ErrStageFormat)
        else if sz > Offset rec then chk (file_Truncate i (nat (Offset rec))) Inl (\<lambda>_. file_call) else ret (Inr ())) s' ?Q"
      if s': "still s s'" and sz: "sz = int (length (fs_data s i))" for s' sz
    proof -
      have "length data \<le> length (fs_data s i)" using i(3) prefix_length_le by blast
      then have ge: "\<not> sz < Offset rec" using off sz by simp
      show ?thesis
      proof (cases "sz > Offset rec")
        case True
        then show ?thesis using cut [OF s'] sz off ge by simp
      next
        case False
        then have "fs_data s i = data" using same sz by simp
        then have "State rec = StageActive \<longrightarrow> holds_alone s (blob_at sid) data" using i(2) unfolding holds_alone_def by blast
        then have "?Q (Inr ()) s'" by (intro here [OF s']) simp
        then show ?thesis using False ge by (simp add: runs_ret)
      qed
    qed
    show ?thesis
      unfolding recoverTail_def Let_def l
      by (simp only: c option.case if_False simp_thms,
          rule runs_looks [OF still_refl looks(1)], rule here, assumption, simp,
          rule runs_looks [OF _ looks(2)], assumption, rule here, assumption, simp,
          clarify, rule runs_looks [OF _ looks(3)], assumption, rule here, assumption, simp,
          simp only: runs_bind runs_gets,
          rule runs_looks [OF _ looks(4)], assumption, rule here, assumption, simp)
        (rule fin, assumption, erule stillE, simp)
  qed
qed

section \<open>Appending\<close>

lemma keeps_sole:
  "keeps W s s' \<Longrightarrow> framed W p \<Longrightarrow> sole s i p \<Longrightarrow> sole s' i p \<and> fs_data s' i = fs_data s i"
  unfolding keeps_def using soleD(1) by metis

lemma upload_framed [simp]: "framed (owning U ps) (upload_dir sid @ r) \<longleftrightarrow> (\<forall>q \<in> set ps. \<not> prefix q (upload_dir sid @ r))"
  by (simp add: framed_owning)

lemma covers_upload [simp]: "covers [upload_dir sid] [upload_dir sid @ r]" "covers [upload_dir sid] [upload_dir sid @ r, upload_dir sid @ r']"
  "covers [upload_dir sid] []"
  by (simp_all add: covers_def prefix_def)

text \<open>The new manifest is in place: the upload is what the new record says.\<close>

lemma recorded_written:
  assumes "digest_lib_ok L" "codec_ok C" and old: "recorded C L s ns sid rec data"
    and new: "ID r = sid" "plain_record r" "describes L r data'" "record_shape r ns" "commit_shape L r data'"
    and b: "cd_Marshal C r = Inr b" "length b \<le> manifest_limit" and w: "written L U sid b s True s'"
  obtains l l' where "recorded C L s' ns sid (relabelled r l l') data'"
    and "same_text (Labels (Commit r)) l" and "same_text (Labels (Result r)) l'"
proof -
  obtain l l' where l: "parse_record C L b = Inr (relabelled r l l')"
      "same_text (Labels (Commit r)) l" "same_text (Labels (Result r)) l'"
    using parse_written [OF assms(1,2) new(2-5) b] .
  have "file_at s' (upload_dir sid @ [''lock'']) = file_at s (upload_dir sid @ [''lock''])"
    by (rule keepsD(1) [OF safe_keeps [OF written_safe [OF w]]]) simp
  then have "recorded C L s' ns sid (relabelled r l l') data'"
    using old new w b(2) l(1) by (auto simp: recorded_def relabelled_same written_def)
  then show thesis using l by (intro that)
qed

lemma recorded_unwritten: "recorded C L s ns sid rec data \<Longrightarrow> written L U sid b s False s' \<Longrightarrow> recorded C L s' ns sid rec data"
  by (rule recorded_keeps [OF _ safe_keeps [of L "owning U [next_at sid]"]]) (simp_all add: written_def)

lemma runs_rollback:
  assumes "os_ok L (owning U []) s" "sole s f (blob_at sid)" "prefix data (fs_data s f)" "Offset rec = int (length data)"
  shows "runs (append_rollback f rec err) s (\<lambda>r s'. safe L (owning U [blob_at sid]) s s'
    \<and> (\<exists>fl. holds_alone s' (blob_at sid) fl \<and> prefix data fl) \<and> fst r = Offset rec \<and> snd r \<noteq> None)"
proof -
  let ?W = "owning U [blob_at sid]"
  have own: "\<not> kept_place ?W (blob_at sid)" by (simp add: own_not_kept)
  have len: "length data \<le> length (fs_data s f)" "take (length data) (fs_data s f) = data"
    using assms(3) by (auto simp: prefix_def)
  have ok: "os_ok L ?W s" using assms(1) by simp
  show ?thesis
    unfolding append_rollback_def Let_def assms(4) nat_int
  proof (rule runs_bindI [OF runs_Truncate [OF ok assms(2) own len(1)]], rule runs_bindI [OF runs_file_call], goal_cases)
    case (1 r1 s1 r2 s2)
    then have "holds_alone s1 (blob_at sid) (fs_data s1 f)" "prefix data (fs_data s1 f)"
      using len(2) assms(3) by (auto simp: holds_alone_def split: sum.splits)
    moreover have "errors_Join (Some err # es) \<noteq> None" for es by (simp only: errors_Join_None) simp
    ultimately show ?case using 1 by (auto simp: runs_ret simp del: not_None_eq elim!: stillE)
  qed
qed

text \<open>
  The upload after an \<open>Append\<close> of \<open>inc\<close>: its old bytes, or all of the new ones as well, and nothing between;
  the offset that is returned is the number of the bytes.
\<close>

definition appended ::
  "manifest_codec \<Rightarrow> 'h digest_lib \<Rightarrow> bytes set \<Rightarrow> osfs \<Rightarrow> string \<Rightarrow> string \<Rightarrow> stageRecord \<Rightarrow> bytes \<Rightarrow> bytes
   \<Rightarrow> int \<times> error option \<Rightarrow> osfs \<Rightarrow> bool" where
  "appended C L U s ns sid rec data inc res s' \<longleftrightarrow>
     safe L (owning U [upload_dir sid]) s s'
     \<and> (\<exists>rec' data'. upload_at C L s' ns sid rec' data' \<and> State rec' = StageActive \<and> fst res = int (length data')
          \<and> (data' = data @ inc \<or> data' = data \<and> rec' = rec)
          \<and> (snd res = None \<longrightarrow> data' = data @ inc))"

lemma appended_still: "appended C L U s ns sid rec data inc res s' \<Longrightarrow> still s' s'' \<Longrightarrow> appended C L U s ns sid rec data inc res s''"
  unfolding appended_def by (erule stillE) simp

lemma appended_from:
  assumes "safe L (owning U [upload_dir sid]) s s1" "appended C L U s1 ns sid rec data inc res s'"
  shows "appended C L U s ns sid rec data inc res s'"
  using assms(2) safe_trans [OF assms(1)] unfolding appended_def by blast

text \<open>A rollback leaves the upload as the manifest has it.\<close>

lemma runs_rolled_back:
  assumes ok: "os_ok L (owning U []) s" and rec: "recorded C L s ns sid rec data" "State rec = StageActive"
    and f: "sole s f (blob_at sid)" "prefix data (fs_data s f)"
  shows "runs (append_rollback f rec err) s (\<lambda>r s'. appended C L U s ns sid rec data inc r s' \<and> snd r \<noteq> None)"
proof (rule runs_mono [OF runs_rollback [OF ok f recordedD(4) [OF rec(1)]]], goal_cases)
  case (1 r s')
  then have s': "safe L (owning U [blob_at sid]) s s'" "\<exists>fl. holds_alone s' (blob_at sid) fl \<and> prefix data fl"
      "fst r = Offset rec" "snd r \<noteq> None" by auto
  have "recorded C L s' ns sid rec data"
    by (rule recorded_keeps [OF rec(1) safe_keeps [OF s'(1)]]) simp_all
  then have "upload_at C L s' ns sid rec data"
    using s'(2) rec(2) by (auto simp: upload_at_def upload_file_def stage_states)
  then show ?case
    unfolding appended_def using s'(3,4) safe_covers [OF covers_upload(1) s'(1)] recordedD(4) [OF rec(1)] rec(2)
    by (intro conjI exI [of _ rec] exI [of _ data]) auto
qed

text \<open>The record that an \<open>Append\<close> writes, at whatever time, fits in a manifest.\<close>

definition append_marshals ::
  "manifest_codec \<Rightarrow> 'h digest_lib \<Rightarrow> StageConfig \<Rightarrow> env \<Rightarrow> stageRecord \<Rightarrow> bytes \<Rightarrow> bool" where
  "append_marshals C L cfg e rec bytes \<longleftrightarrow>
     (\<forall>k h. checkpoint_ok L (Algorithm rec) bytes h \<longrightarrow>
        marshals C (rec\<lparr>Offset := int (length bytes), ExpiresAt := cfg_clock cfg (env_after k e) 0 + TTL cfg, Hash := h\<rparr>))"

lemma env_after_0: "env_after 0 e = e"
  by (cases e) (simp add: env_after_def)

lemma env_after_twice: "env_after j (env_after k e) = env_after (j + k) e"
  by (simp add: env_after_def add.assoc)

lemma append_marshalsD:
  "append_marshals C L cfg e rec bytes \<Longrightarrow> checkpoint_ok L (Algorithm rec) bytes h \<Longrightarrow>
     marshals C (rec\<lparr>Offset := int (length bytes), ExpiresAt := cfg_clock cfg e 0 + TTL cfg, Hash := h\<rparr>)"
  unfolding append_marshals_def by (metis env_after_0)

lemma append_marshals_after [simp]: "append_marshals C L cfg e rec bytes \<Longrightarrow> append_marshals C L cfg (env_after k e) rec bytes"
  by (simp add: append_marshals_def env_after_twice)

lemma runs_append_record:
  assumes L: "digest_lib_ok L" and C: "codec_ok C" and ok: "os_ok L (owning U []) s"
    and rec: "recorded C L s ns sid rec data" "State rec = StageActive"
    and f: "sole s f (blob_at sid)" "fs_data s f = data @ inc"
    and l: "ol_id l = sid" "ol_record l = rec" and len: "length (data @ inc) < 2 ^ 63"
    and t: "cfg_clock (ol_config l) e 0 + TTL (ol_config l) \<noteq> 0"
  shows "runs (append_record C L l e f (dl_Write L (dl_Hash L (Algorithm rec)) (data @ inc)) (int (length inc))) s
    (\<lambda>r s'. appended C L U s ns sid rec data inc r s'
       \<and> (quiet s \<longrightarrow> live e \<longrightarrow> append_marshals C L (ol_config l) e rec (data @ inc) \<longrightarrow> snd r = None))"
    (is "runs _ _ ?Q")
proof -
  note r = recordedD [OF rec(1)]
  have algo: "Algorithm rec \<in> set algorithms" using r(5) by (simp add: describes_def)
  obtain st where st: "stageHashState L (dl_Write L (dl_Hash L (Algorithm rec)) (data @ inc)) = Inr st"
      "checkpoint_ok L (Algorithm rec) (data @ inc) st"
    using stageHashState_checkpoint [OF L algo] .
  have off: "wrap64 (Offset rec + int (length inc)) = int (length (data @ inc))"
    using len r(4) by (simp add: wrap64_id)
  let ?r = "rec\<lparr>Offset := int (length (data @ inc)), ExpiresAt := cfg_clock (ol_config l) e 0 + TTL (ol_config l), Hash := st\<rparr>"
  have new: "ID ?r = sid" "plain_record ?r" "describes L ?r (data @ inc)" "record_shape ?r ns" "commit_shape L ?r (data @ inc)"
    using r rec(2) st(2) algo len t
    by (auto simp: plain_record_def int64_def describes_def record_shape_def commit_shape_def stage_states)
  have am: "append_marshals C L (ol_config l) e rec (data @ inc) \<Longrightarrow> marshals C ?r" by (rule append_marshalsD [OF _ st(2)])
  have pre: "prefix data (fs_data s f)" using f(2) by simp
  have undone: "runs (append_rollback f rec err) s' (\<lambda>r s''. appended C L U s ns sid rec data inc r s'' \<and> snd r \<noteq> None)"
    if s': "safe L (owning U [next_at sid]) s s'" for s' err
  proof -
    have k: "sole s' f (blob_at sid) \<and> fs_data s' f = fs_data s f" by (rule keeps_sole [OF safe_keeps [OF s'] _ f(1)]) simp
    have rec': "recorded C L s' ns sid rec data" by (rule recorded_keeps [OF rec(1) safe_keeps [OF s']]) simp_all
    have ok': "os_ok L (owning U []) s'" using safeD(1) [OF s'] by simp
    show ?thesis
      by (rule runs_mono [OF runs_rolled_back [OF ok' rec' rec(2)]])
        (use k pre appended_from [OF safe_covers [OF covers_upload(1) s']] in auto)
  qed
  have backQ: "runs (append_rollback f rec err) s' ?Q"
    if "safe L (owning U [next_at sid]) s s'" "\<not> (quiet s \<and> live e \<and> append_marshals C L (ol_config l) e rec (data @ inc))" for s' err
    by (rule runs_mono [OF undone [OF that(1)]]) (use that(2) in auto)
  have wr: "runs (bind (osStageWriteRecord C (env_after 1 e) (upload_dir sid) ?r) (\<lambda>(p, err). case err of
       None \<Rightarrow> ret (Offset ?r, None)
     | Some x \<Rightarrow> if \<not> p then append_rollback f rec x else ret (Offset ?r, Some x))) s1 ?Q"
    if s1: "still s s1" for s1
  proof -
    have ok1: "os_ok L (owning U []) s1" "is_dir s1 (upload_dir sid)" "quiet s1 = quiet s" "recorded C L s1 ns sid rec data"
      "sole s1 f (blob_at sid)" "fs_data s1 f = data @ inc" "safe L (owning U [next_at sid]) s s1"
      using s1 ok recorded_dirs(1) [OF os_okD(1) [OF ok] rec(1)] rec(1) f
        still_safe [OF s1, of L "owning U [next_at sid]"] by (auto elim!: stillE)
    show ?thesis
    proof (rule runs_bindI [OF runs_WriteRecord [OF ok1(1,2)]], goal_cases)
      case (1 r2 s2)
      obtain p err where r2: "r2 = (p, err)" by (cases r2)
      with 1 obtain b where b: "p \<longrightarrow> cd_Marshal C ?r = Inr b \<and> length b \<le> manifest_limit" "written L U sid b s1 p s2"
          "\<not> p \<longrightarrow> err \<noteq> None" "quiet s1 \<longrightarrow> live (env_after 1 e) \<longrightarrow> marshals C ?r \<longrightarrow> p \<and> err = None" by auto
      show ?case
      proof (cases p)
        case True
        then obtain l l' where rec2: "recorded C L s2 ns sid (relabelled ?r l l') (data @ inc)"
          using recorded_written [OF L C ok1(4) new] b(1,2) by metis
        note sf = written_safe [OF b(2)]
        have "holds_alone s2 (blob_at sid) (data @ inc)"
          by (rule keepsD(3) [OF safe_keeps [OF sf]]) (use ok1(5,6) in \<open>auto simp: holds_alone_def\<close>)
        then have up: "upload_at C L s2 ns sid (relabelled ?r l l') (data @ inc)"
          using rec2 rec(2) by (auto simp: upload_at_def upload_file_def stage_states)
        have "safe L (owning U [upload_dir sid]) s s2"
          using safe_trans [OF safe_covers [OF covers_upload(1) ok1(7)] safe_covers [OF covers_upload(2) sf]] .
        then have "appended C L U s ns sid rec data inc (int (length (data @ inc)), err) s2"
          unfolding appended_def using up rec(2) by (intro conjI exI [of _ "relabelled ?r l l'"] exI [of _ "data @ inc"]) simp_all
        then show ?thesis
          using True r2 b(4) ok1(3) am live_env_after [of e 1]
          by (auto simp: runs_ret split: option.splits)
      next
        case False
        then obtain x where x: "err = Some x" using b(3) by blast
        have "safe L (owning U [next_at sid]) s s2" using b(2) safe_trans [OF ok1(7)] False by (simp add: written_def)
        moreover have "\<not> (quiet s \<and> live e \<and> append_marshals C L (ol_config l) e rec (data @ inc))"
          using b(4) False ok1(3) live_env_after [of e 1] am by blast
        ultimately show ?thesis using backQ [of s2 x] False unfolding r2 x by (simp del: length_append)
      qed
    qed
  qed
  note here = safe_refl [of L "owning U [next_at sid]" s, simplified, OF ok]
  show ?thesis
  proof (cases "ctx_Err e 0")
    case (Some err)
    then show ?thesis using backQ [OF here] by (auto simp: append_record_def l live_def Let_def)
  next
    case None
    show ?thesis
      unfolding append_record_def l Let_def
    proof (simp only: None option.case st(1) sum.case off, rule runs_bindI [OF runs_file_call], goal_cases)
      case (1 r1 s1)
      then have s1: "still s s1" "safe L (owning U [next_at sid]) s s1"
        using still_safe [of s s1 L "owning U [next_at sid]"] ok by auto
      show ?case using wr [OF s1(1)] backQ [OF s1(2)] 1 by (cases r1) auto
    qed
  qed
qed

text \<open>Contexts do not end with \<open>io.EOF\<close>, and clocks are past Go's zero time.\<close>

definition context_ok :: "env \<Rightarrow> bool" where
  "context_ok e \<longleftrightarrow> (\<forall>n. ctx_Err e n \<noteq> Some EOF)"

definition dated :: "StageConfig \<Rightarrow> env \<Rightarrow> bool" where
  "dated cfg e \<longleftrightarrow> (case cfg_now cfg of Some now \<Rightarrow> \<forall>n. 0 < now n | None \<Rightarrow> \<forall>n. 0 < time_Now e n)"

lemma normalized_simps [simp]: "cfg_now (normalized cfg) = cfg_now cfg" "0 < TTL (normalized cfg)" "0 < Retention (normalized cfg)"
  by (simp_all add: normalized_def Let_def hour_def)

lemma dated_clock: "dated cfg e \<Longrightarrow> 0 < cfg_clock (normalized cfg) (env_after k e) n" "dated cfg e \<Longrightarrow> 0 < cfg_clock (normalized cfg) e n"
  by (auto simp: dated_def cfg_clock_def split: option.splits)

lemma dated_after: "dated cfg e \<Longrightarrow> dated cfg (env_after k e)"
  by (auto simp: dated_def split: option.splits)

lemma dated_expiry:
  "dated cfg e \<Longrightarrow> cfg_clock (normalized cfg) e n + TTL (normalized cfg) \<noteq> 0"
  "dated cfg e \<Longrightarrow> cfg_clock (normalized cfg) e n + Retention (normalized cfg) \<noteq> 0"
  using dated_clock(2) [of cfg e n] normalized_simps(2,3) [of cfg] by linarith+

lemma context_ok_after [simp]: "context_ok e \<Longrightarrow> context_ok (env_after k e)"
  by (simp add: context_ok_def)

lemma live_context_ok: "live e \<Longrightarrow> context_ok e"
  by (simp add: context_ok_def)

text \<open>A copy that ended without an error has read all there is.\<close>

lemma context_copy_all:
  "context_ok e \<Longrightarrow> snd (io_Copy (stageContextReader e rs)) = None \<Longrightarrow> io_Copy (stageContextReader e rs) = io_Copy rs"
proof (induction rs arbitrary: e)
  case Nil
  then show ?case by (auto simp: stageContextReader_Read_def context_ok_def split: option.splits if_splits)
next
  case (Cons r rs)
  obtain b err where r: "r = (b, err)" by (cases r)
  have "ctx_Err e 0 = None" "ctx_Err e 1 = None"
    using Cons.prems r by (auto simp: stageContextReader_Read_def context_ok_def split: option.splits if_splits)
  then have rd: "stageContextReader_Read e r = r" by (simp add: stageContextReader_Read_def)
  show ?case
    using Cons.IH [of "env_after 2 e"] Cons.prems rd r by (cases err) (auto simp: split_beta)
qed

lemma runs_append_copy:
  assumes L: "digest_lib_ok L" and C: "codec_ok C" and ok: "os_ok L (owning U []) s"
    and rec: "recorded C L s ns sid rec data" "State rec = StageActive"
    and f: "sole s f (blob_at sid)" "fs_data s f = data"
    and l: "ol_id l = sid" "ol_record l = rec" "ol_config l = normalized cfg"
    and e: "dated cfg e" "context_ok e" and len: "length (data @ fst (io_Copy r)) < 2 ^ 63"
  shows "runs (append_copy C L l e r f (dl_Write L (dl_Hash L (Algorithm rec)) data)) s
    (\<lambda>res s'. appended C L U s ns sid rec data (fst (io_Copy r)) res s'
       \<and> (quiet s \<longrightarrow> live e \<longrightarrow> snd (io_Copy r) = None \<longrightarrow>
           append_marshals C L (normalized cfg) e rec (data @ fst (io_Copy r)) \<longrightarrow> snd res = None))"
    (is "runs _ _ ?Q")
proof -
  let ?W = "owning U [blob_at sid]"
  obtain inc rerr where cp: "io_Copy (stageContextReader e r) = (inc, rerr)" by (cases "io_Copy (stageContextReader e r)")
  have own: "\<not> kept_place ?W (blob_at sid)" by (simp add: own_not_kept)
  have okW: "os_ok L ?W s" using ok by simp
  have undone: "runs (append_rollback f rec err) s' ?Q"
    if s': "safe L ?W s s'" "sole s' f (blob_at sid)" "prefix data (fs_data s' f)" and nq: "\<not> (quiet s \<and> live e \<and> snd (io_Copy r) = None)" for s' err
  proof -
    have rec': "recorded C L s' ns sid rec data" by (rule recorded_keeps [OF rec(1) safe_keeps [OF s'(1)]]) simp_all
    have ok': "os_ok L (owning U []) s'" using safeD(1) [OF s'(1)] by simp
    show ?thesis
      by (rule runs_mono [OF runs_rolled_back [OF ok' rec' rec(2) s'(2,3)]])
        (use nq appended_from [OF safe_covers [OF covers_upload(1) s'(1)]] in blast)
  qed
  show ?thesis
    unfolding append_copy_def l Let_def cp prod.case
  proof (rule runs_bindI [OF runs_file_Write [OF okW f(1) own]], goal_cases)
    case (1 w s1)
    then have s1: "safe L ?W s s1" "sole s1 f (blob_at sid)" by auto
    show ?case
    proof (cases w)
      case (Inl err)
      then show ?thesis using 1 f(2) undone [OF s1] by auto
    next
      case (Inr x)
      then have w: "fs_data s1 f = data @ inc" using 1 f(2) by simp
      show ?thesis
      proof (cases rerr)
        case (Some err)
        have "\<not> (live e \<and> snd (io_Copy r) = None)" using Some cp io_Copy_stageContextReader [of e r] by (metis option.distinct(1) snd_conv)
        then show ?thesis using Inr Some w undone [OF s1] by auto
      next
        case None
        then have inc: "io_Copy r = (inc, None)" using context_copy_all [OF e(2), of r] cp by simp
        have rec1: "recorded C L s1 ns sid rec data" by (rule recorded_keeps [OF rec(1) safe_keeps [OF s1(1)]]) simp_all
        have ok1: "os_ok L (owning U []) s1" using safeD(1) [OF s1(1)] by simp
        note ap = runs_append_record [OF L C ok1 rec1 rec(2) s1(2) w l(1,2) _
            dated_expiry(1) [OF dated_after [OF e(1)], folded l(3)]]
        have "runs (append_record C L l (env_after (2 * (length r + 1)) e) f (dl_Write L (dl_Write L (dl_Hash L (Algorithm rec)) data) inc)
            (int (length inc))) s1 ?Q"
          unfolding Write_append [OF L]
          by (rule runs_mono [OF ap])
            (use len inc appended_from [OF safe_covers [OF covers_upload(1) s1(1)]] safeD(5) [OF s1(1)] l(3) in auto)
        then show ?thesis using Inr None by simp
      qed
    qed
  qed
qed

definition unexpired :: "StageConfig \<Rightarrow> env \<Rightarrow> stageRecord \<Rightarrow> bool" where
  "unexpired cfg e rec \<longleftrightarrow> (\<forall>k. \<not> expired rec (cfg_clock (normalized cfg) (env_after k e) 0))"

text \<open>All that can have happened to an upload in an \<open>Append\<close> of the bytes \<open>inc\<close> at the offset \<open>off\<close>.\<close>

definition append_done ::
  "manifest_codec \<Rightarrow> 'h digest_lib \<Rightarrow> bytes set \<Rightarrow> osfs \<Rightarrow> string \<Rightarrow> string \<Rightarrow> stageRecord \<Rightarrow> bytes \<Rightarrow> int \<Rightarrow> bytes
   \<Rightarrow> int \<times> error option \<Rightarrow> osfs \<Rightarrow> bool" where
  "append_done C L U s ns sid rec data off inc res s' \<longleftrightarrow>
     safe L (owning U [upload_dir sid]) s s'
     \<and> (\<exists>rec' data'. upload_at C L s' ns sid rec' data'
          \<and> (data' = data \<and> rec' = rec
             \<or> data' = data @ inc \<and> State rec = StageActive \<and> State rec' = StageActive \<and> off = int (length data))
          \<and> (snd res = None \<longrightarrow> data' = data @ inc \<and> off = int (length data))
          \<and> (fst res = int (length data') \<or> fst res = 0 \<and> snd res \<noteq> None \<and> data' = data))"

lemma append_refused:
  assumes "safe L (owning U [upload_dir sid]) s s'" "upload_at C L s' ns sid rec data"
    and "res = (0, Some err) \<or> res = (int (length data), Some err)"
  shows "append_done C L U s ns sid rec data off inc res s'"
  unfolding append_done_def using assms by (intro conjI exI [of _ rec] exI [of _ data]) auto

lemma appended_done:
  assumes "safe L (owning U [upload_dir sid]) s s1" "appended C L U s1 ns sid rec data inc res s'"
    and "State rec = StageActive" "off = int (length data)"
  shows "append_done C L U s ns sid rec data off inc res s'"
proof -
  obtain rec' data' where "upload_at C L s' ns sid rec' data'" "State rec' = StageActive" "fst res = int (length data')"
      "data' = data @ inc \<or> data' = data \<and> rec' = rec" "snd res = None \<longrightarrow> data' = data @ inc"
    using assms(2) by (auto simp: appended_def)
  moreover have "safe L (owning U [upload_dir sid]) s s'"
    using assms(2) safe_trans [OF assms(1), of s'] by (simp add: appended_def)
  ultimately show ?thesis
    unfolding append_done_def using assms(3,4) by (intro conjI exI [of _ rec'] exI [of _ data']) auto
qed

lemma runs_Append:
  fixes off :: int
  assumes L: "digest_lib_ok L" and C: "codec_ok C" and ok: "os_ok L (owning U []) s"
    and up: "upload_at C L s ns sid rec data" and ub: "unblocked s"
    and e: "dated (oss_stage st) e" "context_ok e" and len: "length (data @ fst (io_Copy r)) < 2 ^ 63"
  shows "runs (osStage_Append C L (OsStores_Use st ns) e sid off r) s
    (\<lambda>res s'. append_done C L U s ns sid rec data off (fst (io_Copy r)) res s'
       \<and> (quiet s \<longrightarrow> live e \<longrightarrow> State rec = StageActive \<longrightarrow> off = int (length data) \<longrightarrow> unexpired (oss_stage st) e rec \<longrightarrow>
           snd (io_Copy r) = None \<longrightarrow>
           append_marshals C L (normalized (oss_stage st)) e rec (data @ fst (io_Copy r)) \<longrightarrow> snd res = None))"
    (is "runs _ _ ?Q")
proof -
  let ?W = "owning U [upload_dir sid]"
  have rec: "recorded C L s ns sid rec data" using up by (simp add: upload_at_def)
  note offd = recordedD(4) [OF rec]
  have op: "runs (osStage_lock C L (OsStores_Use st ns) e sid False) s
      (\<lambda>r s'. still s s' \<and> (case r of Inl err \<Rightarrow> \<not> (quiet s \<and> live e) | Inr l \<Rightarrow> opened sid rec (oss_stage st) e l))"
    unfolding osStage_lock_def by (rule runs_mono [OF runs_openOsStage [OF ok rec ub]]) (auto simp: OsStores_Use_def split: sum.splits)
  have refused: "?Q (int (length data), Some err) s'" if "safe L ?W s s'" "upload_at C L s' ns sid rec data"
      "quiet s \<longrightarrow> live e \<longrightarrow> State rec = StageActive \<longrightarrow> off = int (length data) \<longrightarrow> \<not> unexpired (oss_stage st) e rec" for err s'
    using append_refused [OF that(1,2), of "(int (length data), Some err)" err] that(3) by simp
  have copy: "runs (case stageHashRestore L (Algorithm rec) (Hash rec) of
         Inl err \<Rightarrow> ret (int (length data), Some err)
       | Inr h \<Rightarrow>
           chk (os_Open (blob_at sid)) (\<lambda>err. (int (length data), Some err)) (\<lambda>f.
           chk file_call (\<lambda>err. (int (length data), Some err)) (\<lambda>_.
             append_copy C L l (env_after 1 (ol_ctx l)) r f h))) s1 ?Q"
    if l: "opened sid rec (oss_stage st) e l" and s1: "safe L ?W s s1" "upload_at C L s1 ns sid rec data"
      "holds_alone s1 (blob_at sid) data" and act: "State rec = StageActive" "off = int (length data)" for l s1
  proof -
    obtain k where k: "ol_ctx l = env_after k e" using l by (auto simp: opened_def)
    obtain f where f: "sole s1 f (blob_at sid)" "fs_data s1 f = data" using s1(3) by (auto simp: holds_alone_def)
    have rest: "stageHashRestore L (Algorithm rec) (Hash rec) = Inr (dl_Write L (dl_Hash L (Algorithm rec)) data)"
      by (rule describes_restore [OF recordedD(5) [OF rec]])
    have q: "quiet s1 = quiet s" by (rule safeD(5) [OF s1(1)])
    have no: "?Q (int (length data), Some err) s'" if "still s1 s'" "\<not> quiet s1" for err s'
      using refused [of s'] s1(1,2) that q by (auto elim!: stillE)
    note looks = look_Open [OF soleD(1) [OF f(1)]] look_file_call [where s = s1]
    have go: "runs (append_copy C L l (env_after 1 (ol_ctx l)) r f (dl_Write L (dl_Hash L (Algorithm rec)) data)) s2 ?Q"
      if "still s1 s2" for s2
    proof -
      obtain n where n: "s2 = s1\<lparr>fs_sys := n\<rparr>" using \<open>still s1 s2\<close> by (rule stillE)
      have s2: "os_ok L (owning U []) s2" "recorded C L s2 ns sid rec data" "sole s2 f (blob_at sid)" "fs_data s2 f = data"
        "safe L ?W s s2" "quiet s2 = quiet s"
        using n safeD(1) [OF s1(1)] s1 f q by (simp_all add: upload_at_def)
      note cp = runs_append_copy [OF L C s2(1,2) act(1) s2(3,4) _ _ _ dated_after [OF dated_after [OF e(1)]]
          context_ok_after [OF context_ok_after [OF e(2)]] len, where l = l]
      show ?thesis
        unfolding k
        by (rule runs_mono [OF cp]) (use l appended_done [OF s2(5) _ act] s2(6) in \<open>auto simp: opened_def\<close>)
    qed
    show ?thesis
      unfolding rest sum.case
      by (rule runs_looks [OF still_refl looks(1)], rule no, assumption+, clarify,
          rule runs_looks [OF _ looks(2)], assumption, rule no, assumption+) (rule go)
  qed
  show ?thesis
    unfolding osStage_Append_def
  proof (rule runs_look [OF op], goal_cases)
    case (1 err s')
    then have "append_done C L U s ns sid rec data off (fst (io_Copy r)) (0, Some err) s'"
      using up still_safe [OF 1(1), of L ?W] ok by (intro append_refused) (auto elim!: stillE)
    then show ?case using 1 by blast
  next
    case (2 l s1)
    then have l: "ol_id l = sid" "ol_record l = rec" "ol_config l = normalized (oss_stage st)" by (simp_all add: opened_def)
    obtain k where k: "ol_ctx l = env_after k e" using 2 by (auto simp: opened_def)
    have s1: "safe L ?W s s1" "upload_at C L s1 ns sid rec data" "os_ok L (owning U []) s1" "quiet s1 = quiet s"
      using up still_safe [OF 2(1), of L ?W] ok 2(1) by (auto elim!: stillE)
    show ?case
    proof (cases "checkExpiry l")
      case (Some err)
      then have "\<not> unexpired (oss_stage st) e rec" by (auto simp: checkExpiry_def l k unexpired_def split: if_splits)
      then show ?thesis using Some refused [OF s1(1,2)] offd by (simp add: l runs_ret Let_def)
    next
      case None
      show ?thesis
      proof (cases "State rec = StageActive \<and> off = int (length data)")
        case False
        then show ?thesis using None refused [OF s1(1,2)] offd by (auto simp: l runs_ret Let_def)
      next
        case True
        have tail: "runs (chk (recoverTail l) (\<lambda>err. (int (length data), Some err)) (\<lambda>_. case stageHashRestore L (Algorithm rec) (Hash rec) of
             Inl err \<Rightarrow> ret (int (length data), Some err)
           | Inr h \<Rightarrow>
               chk (os_Open (blob_at sid)) (\<lambda>err. (int (length data), Some err)) (\<lambda>f.
               chk file_call (\<lambda>err. (int (length data), Some err)) (\<lambda>_.
                 append_copy C L l (env_after 1 (ol_ctx l)) r f h)))) s1 ?Q"
        proof (rule runs_step [OF runs_recoverTail [OF s1(3,2) l(1,2)]], goal_cases)
          case (1 err s2)
          then have "safe L ?W s s2" by (intro safe_trans [OF s1(1) safe_covers [OF covers_upload(1)]]) blast
          moreover have "\<not> (quiet s \<and> live e)" using 1 s1(4) k live_env_after [of e k] by auto
          ultimately show ?case using 1 by (intro refused) auto
        next
          case (2 x s2)
          then have "safe L ?W s s2" by (intro safe_trans [OF s1(1) safe_covers [OF covers_upload(1)]]) blast
          then show ?case using 2 True \<open>opened sid rec (oss_stage st) e l\<close> by (intro copy) auto
        qed
        then show ?thesis
          unfolding l Let_def None option.case offd
          by (simp only: conjunct1 [OF True] conjunct2 [OF True] not_True_eq_False if_False simp_thms)
      qed
    qed
  qed
qed

end
