(* ===== verification/OsCommit.thy ===== *)
theory OsCommit
  imports OsAppend
begin

text \<open>
  Committing an upload: the entry is prepared in the upload's own directory, its blob is linked into the
  shared tree, and one rename publishes it; the receipt replaces the manifest afterwards. Whatever fails,
  the namespaces show what they showed or the whole entry, and the upload can be committed again.
\<close>

section \<open>Directories\<close>

lemma grown_refl [simp]: "grown s s"
  by (simp add: grown_def)

lemma grown_trans: "grown s s1 \<Longrightarrow> grown s1 s2 \<Longrightarrow> grown s s2"
  by (auto simp: grown_def)

lemma still_grown: "still s s' \<Longrightarrow> grown s s'"
  by (auto simp: grown_def elim!: stillE)

lemma add_dir_files: "fs_files (add_dir p s) = fs_files s"
  by (simp add: add_dir_def)

lemma runs_Mkdir:
  assumes "os_ok L W s" "is_dir s (butlast p)" "dir_place p" "\<not> exists_at s p"
  shows "runs (os_Mkdir p) s (\<lambda>r s'. safe L W s s' \<and> grown s s' \<and> (case r of
     Inl err \<Rightarrow> \<not> quiet s \<and> \<not> errors_Is err FsErrExist | Inr _ \<Rightarrow> is_dir s' p \<and> (\<forall>q. is_dir s' q \<longrightarrow> q = p \<or> is_dir s q)))"
  unfolding os_Mkdir_def
  using safe_add_dir [OF safe_refl [OF assms(1)] assms(4) _ assms(3)] safe_refl [OF assms(1)] assms(2,4)
  by (intro runs_sys) (auto simp: fs_simps grown_def add_dir_files)

lemma runs_mkdir_components:
  assumes "os_ok L W s" "is_dir s current" "dir_place (current @ rest)" "\<forall>q. prefix q (current @ rest) \<longrightarrow> file_at s q = None"
    and "\<forall>c \<in> set rest. c \<notin> {'''', ''.'', ''..''}"
  shows "runs (mkdir_components current rest) s (\<lambda>r s'. safe L W s s' \<and> grown s s' \<and> (case r of
     Inl err \<Rightarrow> \<not> quiet s | Inr _ \<Rightarrow> is_dir s' (current @ rest)))"
  using assms
proof (induction rest arbitrary: current s)
  case Nil
  then show ?case by (simp add: runs_ret safe_refl)
next
  case (Cons c rest)
  let ?cur = "current @ [c]"
  let ?Q = "\<lambda>r s'. safe L W s s' \<and> grown s s' \<and> (case r of Inl err \<Rightarrow> \<not> quiet s | Inr _ \<Rightarrow> is_dir s' (current @ c # rest))"
  have go: "runs (mkdir_components ?cur rest) s1 ?Q" if s1: "safe L W s s1" "grown s s1" "is_dir s1 ?cur" for s1
  proof (rule runs_mono [OF Cons.IH [of s1 ?cur]], goal_cases)
    case (6 r s2)
    then show ?case
      using safe_trans [OF s1(1)] grown_trans [OF s1(2)] safeD(5) [OF s1(1)] by (auto split: sum.splits)
  qed (use s1 Cons.prems safeD(1) in \<open>auto simp: grown_def\<close>)
  have nf: "file_at s ?cur = None" using Cons.prems(4) by (simp add: prefix_def)
  have dp: "dir_place ?cur" using Cons.prems(3) dir_place_prefix [of ?cur "current @ c # rest"] by (simp add: prefix_def)
  have made: "runs (chk (os_Stat ?cur) Inl (\<lambda>info. case info of
      FileNode _ \<Rightarrow> ret (Inl ErrStageFormat)
    | DirNode _ \<Rightarrow> chk (osStageSyncDir current) Inl (\<lambda>_. mkdir_components ?cur rest))) s1 ?Q"
    if s1: "safe L W s s1" "grown s s1" "is_dir s1 ?cur" for s1
  proof (rule runs_step [OF runs_Stat], goal_cases)
    case (1 err s2)
    then show ?case using s1 safeD(5) [OF s1(1)] by (auto simp: exists_at_def grown_def elim!: stillE)
  next
    case (2 x s2)
    then obtain n where n: "s2 = s1\<lparr>fs_sys := n\<rparr>" by (auto elim!: stillE)
    have "file_at s1 ?cur = None" "is_dir s1 current" using nf s1(2) Cons.prems(2) by (auto simp: grown_def)
    then obtain t where t: "x = DirNode t" using 2 by (cases x) auto
    have "runs (chk (osStageSyncDir current) Inl (\<lambda>_. mkdir_components ?cur rest)) s2 ?Q"
    proof (rule runs_look [OF runs_SyncDir], goal_cases)
      case (1 err s3)
      then show ?case
        using n s1 safeD(5) [OF s1(1)] \<open>is_dir s1 current\<close> by (auto simp: grown_def elim!: stillE)
    next
      case (2 y s3)
      then show ?case using n s1 by (intro go) (auto simp: grown_def elim!: stillE)
    qed
    then show ?case using t by simp
  qed
  have c: "c \<noteq> ''.''" "c \<noteq> ''..''" "c \<noteq> ''''" using Cons.prems(5) by auto
  show ?case
    unfolding mkdir_components.simps Let_def
  proof (simp only: c simp_thms if_False, rule runs_bindI [OF runs_Stat], goal_cases)
    case (1 info s1)
    then obtain n where n: "s1 = s\<lparr>fs_sys := n\<rparr>" by (auto elim!: stillE)
    have s1: "safe L W s s1" "grown s s1" using n Cons.prems(1) by (simp_all add: safe_refl grown_def)
    consider (dir) t where "info = Inr (DirNode t)" "is_dir s ?cur" | (none) "info = Inl FsErrNotExist" "\<not> exists_at s ?cur"
      | (fails) m where "info = Inl (ErrorString m)" "\<not> quiet s"
      using 1 nf by (cases info) (auto split: node.splits)
    then show ?case
    proof cases
      case dir
      then show ?thesis using go [OF s1] n by simp
    next
      case none
      have dir: "is_dir s1 (butlast ?cur)" "\<not> exists_at s1 ?cur" using none n Cons.prems(2) by simp_all
      have "runs (bind (os_Mkdir ?cur) (\<lambda>r. case r of
          Inl err \<Rightarrow> if \<not> errors_Is err FsErrExist then ret (Inl err) else
            chk (os_Stat ?cur) Inl (\<lambda>info. case info of FileNode _ \<Rightarrow> ret (Inl ErrStageFormat)
              | DirNode _ \<Rightarrow> chk (osStageSyncDir current) Inl (\<lambda>_. mkdir_components ?cur rest))
        | Inr _ \<Rightarrow> chk (os_Stat ?cur) Inl (\<lambda>info. case info of FileNode _ \<Rightarrow> ret (Inl ErrStageFormat)
              | DirNode _ \<Rightarrow> chk (osStageSyncDir current) Inl (\<lambda>_. mkdir_components ?cur rest)))) s1 ?Q"
      proof (rule runs_bindI [OF runs_Mkdir [OF safeD(1) [OF s1(1)] dir(1) dp dir(2)]], goal_cases)
        case (1 r s2)
        then have s2: "safe L W s s2" "grown s s2" using safe_trans [OF s1(1)] grown_trans [OF s1(2)] by auto
        show ?case
        proof (cases r)
          case (Inl err)
          then show ?thesis using 1 s2 safeD(5) [OF s1(1)] by (simp add: runs_ret)
        next
          case (Inr x)
          then show ?thesis using 1 made [OF s2] by simp
        qed
      qed
      then show ?thesis using none by simp
    next
      case fails
      then show ?thesis using s1 by (simp add: runs_ret)
    qed
  qed
qed

lemma runs_osStageMkdir:
  assumes ok: "os_ok L W s" and root: "is_dir s []" and p: "dir_place p" "p \<noteq> []" "hd p \<in> {''share'', ''repos''}"
    and c: "\<forall>c \<in> set p. c \<notin> {'''', ''.'', ''..''}"
  shows "runs (osStageMkdir p) s (\<lambda>r s'. safe L W s s' \<and> grown s s' \<and> (case r of Inl err \<Rightarrow> \<not> quiet s | Inr _ \<Rightarrow> is_dir s' p))"
proof -
  have "file_at s q = None" if "prefix q p" for q
    by (rule no_file_above [OF os_okD(2) [OF ok] that, of "hd p"]) (use p in auto)
  then show ?thesis
    unfolding osStageMkdir_def using runs_mkdir_components [OF ok root, of p] p(1) c by (simp cong: sum.case_cong)
qed

lemma hex_component: "list_all is_hex v \<Longrightarrow> v \<noteq> [] \<Longrightarrow> v \<notin> {'''', ''.'', ''..''}"
  by (auto simp: is_hex_def is_digit_def)

lemma algorithm_component: "a \<in> set algorithms \<Longrightarrow> a \<notin> {'''', ''.'', ''..''}"
  by (auto simp: algorithms_def algo_defs)

lemma namespace_component: "namespaceSegment ns \<notin> {'''', ''.'', ''..''}"
  using namespaceSegment_last [of ns] by auto

lemma digest_components:
  assumes "digest_lib_ok L" "dl_Validate L d = None"
  shows "\<forall>c \<in> set (butlast (entry_path L ns d)). c \<notin> {'''', ''.'', ''..''}"
    "\<forall>c \<in> set (butlast (pathToBlob L d)). c \<notin> {'''', ''.'', ''..''}"
proof -
  let ?v = "dl_Encoded L d"
  note v = Validate_parts [OF assms]
  have "list_all is_hex (take 2 ?v)" "list_all is_hex (take 2 (drop 2 ?v))"
    using v(3) by (auto simp: list_all_iff dest: in_set_takeD in_set_dropD)
  moreover have "take 2 ?v \<noteq> []" "take 2 (drop 2 ?v) \<noteq> []" using v(4) by auto
  ultimately have h: "take 2 ?v \<notin> {'''', ''.'', ''..''}" "take 2 (drop 2 ?v) \<notin> {'''', ''.'', ''..''}"
    using hex_component by blast+
  have "butlast (entry_path L ns d) = [''repos'', namespaceSegment ns, dl_Algorithm L d, take 2 ?v, take 2 (drop 2 ?v)]"
    "butlast (pathToBlob L d) = [''share'', dl_Algorithm L d, take 2 ?v, take 2 (drop 2 ?v)]"
    by (simp_all add: entry_path_def pathToBlob_def Let_def Digest_Encoded_def Digest_Algorithm_def)
  then show "\<forall>c \<in> set (butlast (entry_path L ns d)). c \<notin> {'''', ''.'', ''..''}"
    "\<forall>c \<in> set (butlast (pathToBlob L d)). c \<notin> {'''', ''.'', ''..''}"
    using h algorithm_component [OF v(1)] namespace_component [of ns] by simp_all
qed

lemma butlast_places: "dir_place (butlast (entry_path L ns d))" "hd (butlast (entry_path L ns d)) = ''repos''" "butlast (entry_path L ns d) \<noteq> []"
  "dir_place (butlast (pathToBlob L d))" "hd (butlast (pathToBlob L d)) = ''share''" "butlast (pathToBlob L d) \<noteq> []"
  by (simp_all add: entry_path_def pathToBlob_def Let_def dir_place_def)

lemma runs_entry_dirs:
  assumes "digest_lib_ok L" "dl_Validate L d = None" "os_ok L W s" "is_dir s []"
  shows "runs (osStageMkdir (butlast (entry_path L ns d))) s (\<lambda>r s'. safe L W s s' \<and> grown s s' \<and> (case r of
     Inl err \<Rightarrow> \<not> quiet s | Inr _ \<Rightarrow> is_dir s' (butlast (entry_path L ns d))))"
  by (rule runs_osStageMkdir [OF assms(3,4) butlast_places(1,3) _ digest_components(1) [OF assms(1,2)]]) (simp add: butlast_places)

lemma runs_share_dirs:
  assumes "digest_lib_ok L" "dl_Validate L d = None" "os_ok L W s" "is_dir s []"
  shows "runs (osStageMkdir (butlast (pathToBlob L d))) s (\<lambda>r s'. safe L W s s' \<and> grown s s' \<and> (case r of
     Inl err \<Rightarrow> \<not> quiet s | Inr _ \<Rightarrow> is_dir s' (butlast (pathToBlob L d))))"
  by (rule runs_osStageMkdir [OF assms(3,4) butlast_places(4,6) _ digest_components(2) [OF assms(1,2)]]) (simp add: butlast_places)

section \<open>Preparing the entry\<close>

abbreviation publish_at :: "string \<Rightarrow> path" where
  "publish_at sid \<equiv> upload_dir sid @ [''publish'']"

lemma publish_staged_dir: "publish_at sid \<in> set (sc_own W) \<Longrightarrow> staged_dir W (publish_at sid)"
  by (auto simp: staged_dir_def upload_dir_def)

lemma runs_Link:
  assumes "os_ok L W s" "file_at s p = Some i" "\<not> exists_at s q" "is_dir s (butlast q)" "file_place q" "\<not> kept_place W q" "\<not> framed W p"
  shows "runs (os_Link p q) s (\<lambda>r s'. safe L W s s' \<and> is_dir s' = is_dir s \<and> fs_data s' = fs_data s \<and> (case r of
     Inl err \<Rightarrow> \<not> quiet s \<and> file_at s' = file_at s | Inr _ \<Rightarrow> file_at s' = (file_at s)(q \<mapsto> i)))"
  unfolding os_Link_def
  using safe_add_name [OF safe_refl [OF assms(1)] assms(3-6,2,7)] safe_refl [OF assms(1)] assms(2-4)
  by (intro runs_sys) (auto simp: fs_simps)

lemma runs_Link_shared:
  assumes "digest_lib_ok L" "os_ok L W s" "dl_Validate L d = None" "names_bytes L d (fs_data s i)" "fs_data s i \<in> sc_bytes W"
    and "file_at s p = Some i" "\<not> framed W p" "\<not> exists_at s (pathToBlob L d)" "is_dir s (butlast (pathToBlob L d))"
  shows "runs (os_Link p (pathToBlob L d)) s (\<lambda>r s'. safe L W s s' \<and> is_dir s' = is_dir s \<and> fs_data s' = fs_data s \<and> (case r of
     Inl err \<Rightarrow> \<not> quiet s \<and> file_at s' = file_at s | Inr _ \<Rightarrow> file_at s' = (file_at s)(pathToBlob L d \<mapsto> i)))"
  unfolding os_Link_def
  using safe_share [OF assms(1) safe_refl [OF assms(2)] assms(3-5,8,9,6,7)] safe_refl [OF assms(2)] assms(6,8,9)
  by (intro runs_sys) (auto simp: fs_simps)

lemma butlast_upload [simp]: "butlast (upload_dir sid @ [a, b]) = upload_dir sid @ [a]"
  by (simp add: butlast_append)

text \<open>The labels of the entry, in a new directory of the upload.\<close>

lemma runs_publish_labels:
  assumes ok: "os_ok L (owning U []) s" and d: "is_dir s (publish_at sid)" "\<forall>f. \<not> exists_at s (publish_at sid @ [f])"
  shows "runs (publish_labels (publish_at sid) ls) s (\<lambda>r s'. safe L (owning U [publish_at sid]) s s' \<and> is_dir s' = is_dir s \<and> (case r of
     Inl err \<Rightarrow> \<not> quiet s
   | Inr _ \<Rightarrow> labelled (publish_at sid) (writeLabels ls) s' \<and> \<not> exists_at s' (publish_at sid @ [''blob''])))" (is "runs _ _ ?Q")
proof -
  let ?W = "owning U [publish_at sid]" and ?p = "publish_at sid @ [''labels'']"
  have st: "staged_dir ?W (publish_at sid)" by (rule publish_staged_dir) (simp add: owning_def)
  have okW: "os_ok L ?W s" using ok by simp
  have pl: "file_place ?p" "\<not> kept_place ?W ?p" using staged_places [OF st] by blast+
  have fin: "runs (chk file_call Inl (\<lambda>_. chk file_call Inl (\<lambda>_. ret (Inr ())))) s2 ?Q"
    if s2: "safe L ?W s s2" "is_dir s2 = is_dir s" "labelled (publish_at sid) (writeLabels ls) s2" "\<not> exists_at s2 (publish_at sid @ [''blob''])" for s2
  proof -
    have q: "quiet s2 = quiet s" by (rule safeD(5) [OF s2(1)])
    have no: "?Q (Inl err) s'" if "still s2 s'" "\<not> quiet s2" for err s'
      using that s2 q by (auto elim!: stillE)
    have yes: "runs (ret (Inr ())) s' ?Q" if "still s2 s'" for s'
      using that s2 by (auto simp: runs_ret labelled_def elim!: stillE)
    show ?thesis
      by (rule runs_looks [OF still_refl look_file_call], erule (1) no, rule runs_looks [OF _ look_file_call], assumption,
          erule (1) no, erule yes)
  qed
  show ?thesis
    unfolding publish_labels_def
  proof (rule runs_step [OF runs_CreateExcl [OF okW _ _ pl]], goal_cases)
    case (4 f s1)
    then have s1: "safe L ?W s s1" "is_dir s1 = is_dir s" "sole s1 f ?p" "fs_data s1 f = []" "file_at s1 = (file_at s)(?p \<mapsto> f)" by auto
    show ?case
    proof (rule runs_step [OF runs_file_Write [OF safeD(1) [OF s1(1)] s1(3) pl(2)]], goal_cases)
      case (1 err s2)
      then show ?case using safe_trans [OF s1(1)] s1(2) safeD(5) [OF s1(1)] by auto
    next
      case (2 x s2)
      then show ?case
        using safe_trans [OF s1(1)] s1 d by (intro fin) (auto simp: labelled_def exists_at_def)
    qed
  qed (use d in auto)
qed

lemma upload_not_shared [simp]: "upload_dir sid @ r \<noteq> pathToBlob L d" "pathToBlob L d \<noteq> upload_dir sid @ r"
  by (simp_all add: upload_dir_def pathToBlob_def Let_def)

lemma shared_no_dir: "layout s \<Longrightarrow> \<not> is_dir s (pathToBlob L d)"
  by (auto dest!: layoutD(2) simp: dir_place_def)

text \<open>The blob of the entry: a link to the shared one, or the file of the upload, which becomes the shared one.\<close>

lemma runs_publish_blob:
  assumes L: "digest_lib_ok L" "dl_Validate L d = None" and ok: "os_ok L (owning U []) s" and root: "is_dir s []"
    and pub: "labelled (publish_at sid) lb s" "\<not> exists_at s (publish_at sid @ [''blob''])"
    and blob: "holds s (blob_at sid) data" "names_bytes L d data" "data \<in> U"
  shows "runs (publish_blob (blob_at sid) (publish_at sid) (pathToBlob L d)) s
    (\<lambda>r s'. safe L (owning U [publish_at sid, blob_at sid]) s s' \<and> holds s' (blob_at sid) data \<and> (\<forall>q. is_dir s q \<longrightarrow> is_dir s' q)
      \<and> (case r of Inl err \<Rightarrow> \<not> quiet s | Inr _ \<Rightarrow> complete L (publish_at sid) lb d s'))" (is "runs _ _ ?Q")
proof -
  let ?W = "owning U [publish_at sid, blob_at sid]" and ?sh = "pathToBlob L d" and ?pb = "publish_at sid @ [''blob'']"
  have st: "staged_dir ?W (publish_at sid)" by (rule publish_staged_dir) (simp add: owning_def)
  have pl: "file_place ?pb" "\<not> kept_place ?W ?pb" using staged_places [OF st] by blast+
  have nfr: "\<not> framed ?W ?sh" "\<not> framed ?W (blob_at sid)" by (simp_all add: framed_owning)
  have okW: "os_ok L ?W s" using ok by simp
  obtain i where i: "file_at s (blob_at sid) = Some i" "fs_data s i = data" using blob(1) by (auto simp: holds_def)
  have main: "runs (bind (osStageRegular ?sh) (\<lambda>r. case r of
      Inr _ \<Rightarrow> chk (os_Link ?sh ?pb) Inl (\<lambda>_. ret (Inr ()))
    | Inl err \<Rightarrow> if \<not> errors_Is err ErrNotExist then ret (Inl err) else
        chk (os_Link (blob_at sid) ?pb) Inl (\<lambda>_. chk (os_Link (blob_at sid) ?sh) Inl (\<lambda>_.
          chk (osStageSyncDir (butlast ?sh)) Inl (\<lambda>_. ret (Inr ())))))) s1 ?Q"
    if g: "safe L ?W s s1" "grown s s1" "is_dir s1 (butlast ?sh)" for s1
  proof (rule runs_bindI [OF runs_Regular], goal_cases)
    case (1 r s2)
    then obtain n where n: "s2 = s1\<lparr>fs_sys := n\<rparr>" by (auto elim!: stillE)
    have s2: "safe L ?W s s2" "grown s s2" "is_dir s2 (butlast ?sh)" "quiet s2 = quiet s"
      using g n grown_trans safeD(5) [OF g(1)] by (auto simp: grown_def)
    have ok2: "os_ok L ?W s2" by (rule safeD(1) [OF s2(1)])
    have nd: "\<not> is_dir s2 ?pb" using layoutD(2) [OF os_okD(2) [OF ok2], of ?pb] by (auto simp: dir_place_def upload_dir_def)
    have f2: "file_at s2 (blob_at sid) = Some i" "fs_data s2 i = data" "labelled (publish_at sid) lb s2" "\<not> exists_at s2 ?pb" "is_dir s2 (butlast ?pb)"
      using s2(2) i pub nd by (auto simp: grown_def labelled_def exists_at_def)
    have h2: "holds s2 (blob_at sid) data" "\<forall>q. is_dir s q \<longrightarrow> is_dir s2 q" using f2 s2(2) by (auto simp: holds_def grown_def)
    have nsd: "\<not> is_dir s2 ?sh" by (rule shared_no_dir [OF os_okD(2) [OF ok2]])
    show ?case
    proof (cases r)
      case (Inr x)
      then obtain j where j: "file_at s2 ?sh = Some j" using 1 n by auto
      have "runs (chk (os_Link ?sh ?pb) Inl (\<lambda>_. ret (Inr ()))) s2 ?Q"
        by (rule runs_step [OF runs_Link [OF ok2 j f2(4,5) pl nfr(1)]])
          (use safe_trans [OF s2(1)] s2(4) f2 h2(2) j in \<open>auto simp: runs_ret holds_def complete_def labelled_def\<close>)
      then show ?thesis using Inr by simp
    next
      case (Inl err)
      show ?thesis
      proof (cases "errors_Is err ErrNotExist")
        case True
        then have ns: "\<not> exists_at s2 ?sh" using 1 Inl n by auto
        have "runs (chk (os_Link (blob_at sid) ?pb) Inl (\<lambda>_. chk (os_Link (blob_at sid) ?sh) Inl (\<lambda>_.
          chk (osStageSyncDir (butlast ?sh)) Inl (\<lambda>_. ret (Inr ()))))) s2 ?Q"
        proof (rule runs_step [OF runs_Link [OF ok2 f2(1,4,5) pl nfr(2)]], goal_cases)
          case (1 err s3)
          then show ?case using safe_trans [OF s2(1)] s2(4) f2 h2(2) by (auto simp: holds_def)
        next
          case (2 x s3)
          then have s3: "safe L ?W s s3" "is_dir s3 = is_dir s2" "fs_data s3 = fs_data s2" "file_at s3 = (file_at s2)(?pb \<mapsto> i)"
            using safe_trans [OF s2(1)] by auto
          have f3: "file_at s3 (blob_at sid) = Some i" "\<not> exists_at s3 ?sh" "is_dir s3 (butlast ?sh)"
              "names_bytes L d (fs_data s3 i)" "fs_data s3 i \<in> sc_bytes ?W"
            using s3 f2 ns s2(3) blob(2,3) by (auto simp: exists_at_def)
          show ?case
          proof (rule runs_step [OF runs_Link_shared [OF L(1) safeD(1) [OF s3(1)] L(2) f3(4,5,1) nfr(2) f3(2,3)]], goal_cases)
            case (1 err s4)
            then show ?case using safe_trans [OF s3(1)] safeD(5) [OF s3(1)] f3(1) f2(2) s3(2,3) h2(2) by (auto simp: holds_def)
          next
            case (2 y s4)
            then have s4: "safe L ?W s s4" "holds s4 (blob_at sid) data" "complete L (publish_at sid) lb d s4" "is_dir s4 (butlast ?sh)"
                "\<forall>q. is_dir s q \<longrightarrow> is_dir s4 q"
              using safe_trans [OF s3(1)] f3 f2 s3 h2(2) by (auto simp: holds_def complete_def labelled_def)
            then show ?case
              by (intro runs_look [OF runs_SyncDir])
                (use safeD(5) [OF s4(1)] in \<open>auto simp: runs_ret complete_def labelled_def elim!: stillE\<close>)
          qed
        qed
        then show ?thesis using True Inl by simp
      next
        case False
        then show ?thesis using 1 Inl s2 h2 nsd n by (auto simp: runs_ret)
      qed
    qed
  qed
  show ?thesis
    unfolding publish_blob_def Let_def
  proof (rule runs_step [OF runs_share_dirs [OF L okW root]], goal_cases)
    case (1 err s1)
    then show ?case using i by (auto simp: holds_def grown_def)
  next
    case (2 x s1)
    then have "safe L ?W s s1" "grown s s1" "is_dir s1 (butlast ?sh)" by auto
    from main [OF this] show ?case by (simp only: simp_thms upload_not_shared not_False_eq_True not_True_eq_False if_True if_False)
  qed
qed

section \<open>Publishing it\<close>

lemma ready_touch: "ready L W s0 ps lb ns d s \<Longrightarrow> ready L W s0 ps lb ns d (tick (touch p t s))"
  using safe_touch [of L W s0 s p t] by (simp add: ready_def complete_def labelled_def)

lemma returns_publish_move:
  assumes L: "digest_lib_ok L" "dl_Validate L d = None" and st: "staged_dir W ps"
  shows "returns (\<lambda>s. ready L W s0 ps lb ns d s \<and> is_dir s (butlast (entry_path L ns d))) (publish_move e ps (entry_path L ns d))
    (\<lambda>r s. case r of Inl err \<Rightarrow> bad L W s0 s | Inr _ \<Rightarrow> published L W s0 ns d lb s)" (is "returns ?P _ ?Q")
proof -
  let ?q = "entry_path L ns d"
  have ex: "safe L W s0 s \<and> exists_at s ps" if "?P s" for s
    using that by (auto simp: ready_def complete_def labelled_def exists_at_def)
  have ch: "returns (\<lambda>s. ?P s \<and> (True \<longrightarrow> \<not> exists_at s ?q)) (os_Chtimes ps (time_Now e 0))
      (\<lambda>r s. case r of Inl err \<Rightarrow> bad L W s0 s | Inr _ \<Rightarrow> ?P s \<and> (True \<longrightarrow> \<not> exists_at s ?q))"
    by (rule returns_Chtimes) (use ex ready_touch in auto)
  have move: "returns (\<lambda>s. ?P s \<and> (True \<longrightarrow> \<not> exists_at s ?q))
      (chk (os_Chtimes ps (time_Now e 0)) Inl (\<lambda>_. chk (os_Rename ps ?q) Inl (\<lambda>_. ret (Inr ())))) ?Q"
    by (rule returns_step [OF ch], simp, rule returns_step [OF rename_entry [OF L st]])
      (auto simp: returns_def ret_def bad_def ready_def)
  have rm: "returns ?P (chk (os_RemoveAll ?q) Inl (\<lambda>_.
      chk (os_Chtimes ps (time_Now e 0)) Inl (\<lambda>_. chk (os_Rename ps ?q) Inl (\<lambda>_. ret (Inr ()))))) ?Q"
    by (rule returns_step [OF remove_leftover [OF L st]], simp, rule returns_pre [OF move]) simp
  have nf: "file_at s ?q \<noteq> Some i" if "?P s" for s i
    using layoutD(1) [OF safeD(3), of L W s0 s ?q i] that by (auto simp: ready_def file_place_def)
  show ?thesis
    unfolding publish_move_def Let_def
  proof (rule returns_bind [OF returns_Stat [of ?P L W s0]], goal_cases)
    case 1
    then show ?case by (simp add: ready_def)
  next
    case 2
    then show ?case by (rule stable_ticked [OF stable_ready_dir])
  next
    case (3 r)
    show ?case
    proof (rule returnsI)
      fix s
      assume s: "case r of Inl err \<Rightarrow> ?P s \<and> (err = FsErrNotExist \<and> \<not> exists_at s ?q \<or> (\<exists>m. err = ErrorString m) \<and> \<not> quiet s0)
        | Inr st \<Rightarrow> ?P s \<and> (case st of FileNode i \<Rightarrow> file_at s ?q = Some i | DirNode _ \<Rightarrow> is_dir s ?q)"
      consider t where "r = Inr (DirNode t)" "?P s" | "r = Inl FsErrNotExist" "?P s" "\<not> exists_at s ?q"
        | m where "r = Inl (ErrorString m)" "bad L W s0 s"
        using s nf by (cases r) (auto simp: bad_def ready_def split: node.splits)
      then show "\<exists>x s'. (case r of
           Inl err \<Rightarrow> if \<not> errors_Is err FsErrNotExist then ret (Inl err)
             else chk (os_Chtimes ps (time_Now e 0)) Inl (\<lambda>_. chk (os_Rename ps ?q) Inl (\<lambda>_. ret (Inr ())))
         | Inr (FileNode x) \<Rightarrow> ret (Inl ErrStageFormat)
         | Inr (DirNode x) \<Rightarrow> chk (os_RemoveAll ?q) Inl (\<lambda>_.
             chk (os_Chtimes ps (time_Now e 0)) Inl (\<lambda>_. chk (os_Rename ps ?q) Inl (\<lambda>_. ret (Inr ()))))) s = Some (x, s') \<and> ?Q x s'"
        by cases (use returnsD [OF rm] returnsD [OF move] in \<open>auto simp: ret_def\<close>)
    qed
  qed
qed

lemma runs_publish_move:
  assumes "digest_lib_ok L" "dl_Validate L d = None" "os_ok L (owning U []) s" "complete L (publish_at sid) lb d s"
    and "file_at s (entry_path L ns d @ [''blob'']) = None" "is_dir s (butlast (entry_path L ns d))"
  shows "runs (publish_move e (publish_at sid) (entry_path L ns d)) s (\<lambda>r s'. case r of
     Inl err \<Rightarrow> safe L (owning U [publish_at sid]) s s' \<and> \<not> quiet s
   | Inr _ \<Rightarrow> published L (owning U [publish_at sid]) s ns d lb s')"
proof -
  let ?W = "owning U [publish_at sid]"
  have st: "staged_dir ?W (publish_at sid)" by (rule publish_staged_dir) (simp add: owning_def)
  show ?thesis
    by (rule runs_mono [OF runs_returns [OF returns_publish_move [OF assms(1,2) st]]])
      (use assms(3-6) in \<open>auto simp: ready_def bad_def safe_refl split: sum.splits\<close>)
qed

lemma published_from: "safe L W s s1 \<Longrightarrow> published L W s1 ns d lb s' \<Longrightarrow> published L W s ns d lb s'"
  unfolding published_def safe_def using keeps_trans [of W s s1 s'] by auto

lemma published_covers: "covers qs ps \<Longrightarrow> published L (owning U ps) s ns d lb s' \<Longrightarrow> published L (owning U qs) s ns d lb s'"
  unfolding published_def using keeps_covers [of qs ps U s s'] os_ok_owns [of L U] by auto

lemma covers_self: "covers [p, q] [p]" "covers [p, q] [q]"
  by (simp_all add: covers_def)

lemma runs_commit_publish:
  fixes m :: meta
  assumes L: "digest_lib_ok L" "dl_Validate L d = None" and ok: "os_ok L (owning U []) s" and root: "is_dir s []"
    and pub: "is_dir s (publish_at sid)" "\<forall>f. \<not> exists_at s (publish_at sid @ [f])"
    and blob: "holds s (blob_at sid) data" "names_bytes L d data" "data \<in> U"
    and dest: "os_view L s ns d = None" "is_dir s (butlast (entry_path L ns d))" and m: "Digest m = d"
  shows "runs (commit_publish L e sid (publish_at sid) (entry_path L ns d) m) s (\<lambda>r s'. holds s' (blob_at sid) data \<and> (case r of
     Inl err \<Rightarrow> safe L (owning U [publish_at sid, blob_at sid]) s s' \<and> \<not> (quiet s \<and> live e)
   | Inr _ \<Rightarrow> published L (owning U [publish_at sid, blob_at sid]) s ns d (writeLabels (Labels m)) s'))" (is "runs _ _ ?Q")
proof -
  let ?W = "owning U [publish_at sid, blob_at sid]" and ?W1 = "owning U [publish_at sid]" and ?lb = "writeLabels (Labels m)"
  have move: "runs (publish_move e (publish_at sid) (entry_path L ns d)) s3 ?Q"
    if s3: "safe L ?W s s3" "holds s3 (blob_at sid) data" "complete L (publish_at sid) ?lb d s3" "is_dir s3 (butlast (entry_path L ns d))" for s3
  proof -
    have nb: "file_at s3 (entry_path L ns d @ [''blob'']) = None"
      using dest(1) safeD(4) [OF s3(1)] view_None [OF L(2), of s3 ns] by simp
    have ok3: "os_ok L (owning U []) s3" using safeD(1) [OF s3(1)] by simp
    show ?thesis
    proof (rule runs_mono [OF runs_publish_move [OF L ok3 s3(3) nb s3(4)]], goal_cases)
      case (1 r s4)
      then have k: "keeps ?W1 s3 s4" by (auto simp: published_def safe_def split: sum.splits)
      have "holds s4 (blob_at sid) data" by (rule keepsD(2) [OF k _ s3(2)]) simp
      then show ?case
        using 1 safe_trans [OF s3(1) safe_covers [OF covers_self(1)]] safeD(5) [OF s3(1)]
          published_from [OF s3(1) published_covers [OF covers_self(1)]] by (auto split: sum.splits)
    qed
  qed
  show ?thesis
    unfolding commit_publish_def m
  proof (rule runs_step [OF runs_publish_labels [OF ok pub]], goal_cases)
    case (1 err s1)
    then have "safe L ?W1 s s1" "\<not> quiet s" by auto
    then show ?case
      using safe_covers [OF covers_self(1)] keepsD(2) [OF safe_keeps, of L ?W1 s s1 "blob_at sid" data] blob(1) by simp
  next
    case (2 x s1)
    then have s1: "safe L ?W1 s s1" "is_dir s1 = is_dir s" "labelled (publish_at sid) ?lb s1" "\<not> exists_at s1 (publish_at sid @ [''blob''])"
      by auto
    have h1: "holds s1 (blob_at sid) data" by (rule keepsD(2) [OF safe_keeps [OF s1(1)] _ blob(1)]) simp
    have ok1: "os_ok L (owning U []) s1" "is_dir s1 []" using safeD(1) [OF s1(1)] s1(2) root by simp_all
    show ?case
    proof (rule runs_step [OF runs_publish_blob [OF L ok1 s1(3,4) h1 blob(2,3)]], goal_cases)
      case (1 err s2)
      then show ?case
        using safe_trans [OF safe_covers [OF covers_self(1) s1(1)]] safeD(5) [OF s1(1)] by auto
    next
      case (2 y s2)
      then have s2: "safe L ?W s s2" "holds s2 (blob_at sid) data" "complete L (publish_at sid) ?lb d s2" "is_dir s2 (butlast (entry_path L ns d))"
        using safe_trans [OF safe_covers [OF covers_self(1) s1(1)]] s1(2) dest(2) by auto
      have pd: "is_dir s2 (publish_at sid)" using s2(3) by (simp add: complete_def labelled_def)
      show ?case
      proof (rule runs_look [OF runs_SyncDir], goal_cases)
        case (1 err s3)
        then show ?case using s2 pd safeD(5) [OF s2(1)] by (auto elim!: stillE)
      next
        case (2 z s3)
        then have s3: "safe L ?W s s3" "holds s3 (blob_at sid) data" "complete L (publish_at sid) ?lb d s3" "is_dir s3 (butlast (entry_path L ns d))"
          using s2 by (auto simp: complete_def labelled_def elim!: stillE)
        then show ?case using move [OF s3] by (cases "ctx_Err e 0") (auto simp: runs_ret live_def)
      qed
    qed
  qed
qed

end
