(* ===== verification/OsReceipt.thy ===== *)
theory OsReceipt
  imports OsCommit
begin

text \<open>
  The commit of an upload, whole: the state \<open>committing\<close> is recorded first, the entry is published, and the receipt is
  written last. Whatever fails, the upload stands as it was or further on, with its bytes as long as they are
  needed, and the commit can be tried again.
\<close>

section \<open>The receipt\<close>

lemma look_sync_close: "runs sync_close (s\<lparr>fs_sys := n\<rparr>) (\<lambda>r s'. still s s' \<and> (case r of Inl err \<Rightarrow> \<not> quiet s | Inr _ \<Rightarrow> True))"
  unfolding sync_close_def
  by (rule runs_bindI [OF look_file_call], rule runs_bindI [OF runs_file_call])
    (auto simp: runs_ret elim!: stillE split: sum.splits)

lemma look_sync_files:
  "\<forall>f \<in> set fs. file_at s (dir @ [f]) \<noteq> None \<Longrightarrow>
     runs (sync_files dir fs) (s\<lparr>fs_sys := n\<rparr>) (\<lambda>r s'. still s s' \<and> (case r of Inl err \<Rightarrow> \<not> quiet s | Inr _ \<Rightarrow> True))"
proof (induction fs arbitrary: n)
  case Nil
  then show ?case by (simp add: runs_ret)
next
  case (Cons f fs)
  then obtain i where i: "file_at s (dir @ [f]) = Some i" by auto
  have go: "runs (sync_files dir fs) s' (\<lambda>r s'. still s s' \<and> (case r of Inl err \<Rightarrow> \<not> quiet s | Inr _ \<Rightarrow> True))" if "still s s'" for s'
    using that Cons by (auto elim!: stillE)
  have st: "still s (s\<lparr>fs_sys := n\<rparr>)" by simp
  show ?case
    unfolding sync_files.simps
    by (rule runs_looks [OF st look_Open [OF i]], simp, rule runs_looks [OF _ look_sync_close], assumption, simp, erule go)
qed

text \<open>A record that fits an upload of \<open>data\<close>, on disk or not.\<close>

definition record_fits :: "'h digest_lib \<Rightarrow> string \<Rightarrow> string \<Rightarrow> stageRecord \<Rightarrow> bytes \<Rightarrow> bool" where
  "record_fits L ns sid rec data \<longleftrightarrow>
     ID rec = sid \<and> plain_record rec \<and> describes L rec data \<and> record_shape rec ns \<and> commit_shape L rec data"

lemma recorded_fits: "recorded C L s ns sid rec data \<Longrightarrow> record_fits L ns sid rec data"
  by (simp add: recorded_def record_fits_def)

lemma receipt_fits:
  fixes m :: meta
  assumes "record_fits L ns sid rl data" "State rl = StageCommitting" "Digest m = Digest (Commit rl)" "Size m = Offset rl" "x \<noteq> 0"
  shows "record_fits L ns sid (rl\<lparr>State := StageCommitted, Result := m, ExpiresAt := x\<rparr>) data"
  using assms
  by (auto simp: record_fits_def plain_record_def describes_def record_shape_def commit_shape_def ascii_def stage_states)

text \<open>An upload whose manifest is \<open>rec\<close> or, if \<open>done\<close>, the receipt.\<close>

definition receipt_at ::
  "manifest_codec \<Rightarrow> 'h digest_lib \<Rightarrow> osfs \<Rightarrow> string \<Rightarrow> string \<Rightarrow> stageRecord \<Rightarrow> bytes \<Rightarrow> bool \<Rightarrow> bool" where
  "receipt_at C L s ns sid rec data received \<longleftrightarrow>
     (\<exists>rec'. upload_at C L s ns sid rec' data
        \<and> (rec' = rec \<and> \<not> received \<or> State rec' = StageCommitted \<and> Digest (Commit rec') = Digest (Commit rec)))"

lemma receipt_atI: "upload_at C L s ns sid rec data \<Longrightarrow> receipt_at C L s ns sid rec data False"
  by (auto simp: receipt_at_def)

lemma receipt_at_weaken: "receipt_at C L s ns sid rec data b \<Longrightarrow> receipt_at C L s ns sid rec data False"
  by (auto simp: receipt_at_def)

lemma receipt_upd [simp]: "receipt_at C L (s\<lparr>fs_sys := n\<rparr>) = receipt_at C L s"
  by (simp add: receipt_at_def fun_eq_iff)

lemma receipt_at_keeps:
  assumes "receipt_at C L s ns sid rec data b" "keeps (owning U [publish_at sid]) s s'"
  shows "receipt_at C L s' ns sid rec data b"
proof -
  have "upload_at C L s' ns sid r data" if "upload_at C L s ns sid r data" for r
    by (rule upload_at_keeps [OF that assms(2)]) simp_all
  then show ?thesis using assms(1) unfolding receipt_at_def by blast
qed

lemma receipt_written:
  assumes "digest_lib_ok L" "codec_ok C" "recorded C L s ns sid rd data" "record_fits L ns sid r data"
    and "State r = StageCommitted" "Digest (Commit r) = Digest (Commit rd)"
    and "cd_Marshal C r = Inr b" "length b \<le> manifest_limit" "written L U sid b s True s'"
  shows "receipt_at C L s' ns sid rd data True"
proof -
  obtain l l' where "recorded C L s' ns sid (relabelled r l l') data"
    by (rule recorded_written [OF assms(1-3) _ _ _ _ _ assms(7-9)]) (use assms(4) in \<open>auto simp: record_fits_def\<close>)
  then show ?thesis
    using assms(5,6) unfolding receipt_at_def
    by (intro exI [of _ "relabelled r l l'"]) (simp add: upload_at_def upload_file_def stage_states)
qed

lemma receipt_committed_keeps:
  assumes "receipt_at C L s ns sid rec data True" "keeps (owning U [blob_at sid]) s s'"
  shows "receipt_at C L s' ns sid rec data True"
proof -
  obtain r where r: "upload_at C L s ns sid r data" "State r = StageCommitted" "Digest (Commit r) = Digest (Commit rec)"
    using assms(1) by (auto simp: receipt_at_def)
  have "recorded C L s' ns sid r data"
    by (rule recorded_keeps [OF _ assms(2)]) (use r(1) in \<open>simp_all add: upload_at_def\<close>)
  then show ?thesis
    using r(2,3) unfolding receipt_at_def by (intro exI [of _ r]) (simp add: upload_at_def upload_file_def stage_states)
qed

text \<open>The receipt of a commit, at whatever time, fits in a manifest.\<close>

definition receipt_marshals :: "manifest_codec \<Rightarrow> StageConfig \<Rightarrow> env \<Rightarrow> stageRecord \<Rightarrow> meta \<Rightarrow> bool" where
  "receipt_marshals C cfg e rl m \<longleftrightarrow>
     (\<forall>k. marshals C (rl\<lparr>State := StageCommitted, Result := m, ExpiresAt := cfg_clock cfg (env_after k e) 0 + Retention cfg\<rparr>))"

lemma receipt_marshalsD:
  "receipt_marshals C cfg e rl m \<Longrightarrow>
     marshals C (rl\<lparr>State := StageCommitted, Result := m, ExpiresAt := cfg_clock cfg e 0 + Retention cfg\<rparr>)"
  unfolding receipt_marshals_def by (metis env_after_0)

lemma receipt_marshals_after [simp]: "receipt_marshals C cfg e rl m \<Longrightarrow> receipt_marshals C cfg (env_after k e) rl m"
  by (simp add: receipt_marshals_def env_after_twice)

lemma runs_commit_receipt:
  fixes m :: meta
  assumes L: "digest_lib_ok L" and C: "codec_ok C" and ok: "os_ok L (owning U []) s"
    and up: "upload_at C L s ns sid rd data"
    and l: "ol_id l = sid" "ol_record l = rl" "record_fits L ns sid rl data" "State rl = StageCommitting"
      "Digest (Commit rl) = Digest (Commit rd)"
    and m: "Digest m = Digest (Commit rl)" "Size m = Offset rl"
    and t: "cfg_clock (ol_config l) e 0 + Retention (ol_config l) \<noteq> 0"
    and dest: "\<forall>f \<in> set durable. file_at s (destination @ [f]) \<noteq> None" "is_dir s destination" "is_dir s (butlast destination)"
  shows "runs (commit_receipt C l e destination m durable) s (\<lambda>r s'. safe L (owning U [upload_dir sid]) s s'
    \<and> receipt_at C L s' ns sid rd data (\<not> isl r)
    \<and> (case r of
         Inl err \<Rightarrow> \<not> (quiet s \<and> live e \<and> receipt_marshals C (ol_config l) e rl m)
       | Inr y \<Rightarrow> fst y = m))" (is "runs _ _ ?Q")
proof -
  let ?W = "owning U [upload_dir sid]"
  let ?rec = "rl\<lparr>State := StageCommitted, Result := m, ExpiresAt := cfg_clock (ol_config l) e 0 + Retention (ol_config l)\<rparr>"
  have rec: "recorded C L s ns sid rd data" using up by (simp add: upload_at_def)
  note dirs = recorded_dirs [OF os_okD(1) [OF ok] rec]
  have no: "?Q (Inl err) s'" if "still s s'" "\<not> quiet s" for err s'
    using that still_safe [OF that(1), of L ?W] ok up by (auto simp: receipt_atI elim!: stillE)
  have fin: "runs (chk (remove_if_there (blob_at sid)) Inl (\<lambda>_. chk (osStageSyncDir (upload_dir sid)) Inl (\<lambda>_. ret (Inr (m, ?rec))))) s2 ?Q"
    if s2: "safe L ?W s s2" "receipt_at C L s2 ns sid rd data True" "is_dir s2 (upload_dir sid)" for s2
  proof (rule runs_step [OF runs_remove_if_there [where W = "owning U [blob_at sid]" and L = L]], goal_cases)
    case 1
    then show ?case using safeD(1) [OF s2(1)] by simp
  next
    case 2
    then show ?case by (simp add: own_not_kept)
  next
    case 3
    then show ?case using not_upload_dir [OF safeD(3) [OF s2(1)]] by auto
  next
    case (4 err s3)
    then show ?case
      using safe_trans [OF s2(1) safe_covers [OF covers_upload(1)]] receipt_at_weaken [OF receipt_committed_keeps [OF s2(2) safe_keeps]]
        safeD(5) [OF s2(1)] by auto
  next
    case (5 x s3)
    then have s3: "safe L ?W s s3" "receipt_at C L s3 ns sid rd data True" "is_dir s3 (upload_dir sid)"
      using safe_trans [OF s2(1) safe_covers [OF covers_upload(1)]] receipt_committed_keeps [OF s2(2) safe_keeps] s2(3) by auto
    show ?case
      by (rule runs_look [OF runs_SyncDir])
        (use s3 safeD(5) [OF s3(1)] in \<open>auto simp: runs_ret intro: receipt_at_weaken elim!: stillE\<close>)
  qed
  have wr: "runs (bind (osStageWriteRecord C e (upload_dir sid) ?rec) (\<lambda>(_, err). case err of
           Some err \<Rightarrow> ret (Inl err)
         | None \<Rightarrow> chk (remove_if_there (blob_at sid)) Inl (\<lambda>_. chk (osStageSyncDir (upload_dir sid)) Inl (\<lambda>_. ret (Inr (m, ?rec)))))) s1 ?Q"
    if "still s s1" for s1
  proof -
    obtain n where n: "s1 = s\<lparr>fs_sys := n\<rparr>" using \<open>still s s1\<close> by (rule stillE)
    have s1: "os_ok L (owning U []) s1" "is_dir s1 (upload_dir sid)" "recorded C L s1 ns sid rd data" "upload_at C L s1 ns sid rd data"
      using n ok dirs(1) rec up by simp_all
    show ?thesis
    proof (rule runs_bindI [OF runs_WriteRecord [OF s1(1,2)]], goal_cases)
      case (1 pe s2)
      obtain p err where pe: "pe = (p, err)" by (cases pe)
      obtain b where b: "p \<longrightarrow> cd_Marshal C ?rec = Inr b \<and> length b \<le> manifest_limit" "written L U sid b s1 p s2"
          "\<not> p \<longrightarrow> err \<noteq> None" "quiet s1 \<longrightarrow> live e \<longrightarrow> marshals C ?rec \<longrightarrow> p \<and> err = None"
        using 1 unfolding pe by blast
      have w: "safe L (owning U [next_at sid, manifest_at sid]) s s2" using written_safe [OF b(2)] n by (auto simp: safe_def keeps_def)
      then have sf: "safe L ?W s s2" by (rule safe_covers [rotated]) simp
      have at: "receipt_at C L s2 ns sid rd data p"
      proof (cases p)
        case True
        then show ?thesis
          using receipt_written [OF L C s1(3) receipt_fits [OF l(3,4) m t]] b l(5) by simp
      next
        case False
        then have k: "keeps (owning U [next_at sid]) s1 s2" using b(2) by (simp add: written_def safe_keeps)
        have "upload_at C L s2 ns sid rd data" by (rule upload_at_keeps [OF s1(4) k]) simp_all
        then show ?thesis using False by (simp add: receipt_atI)
      qed
      have d2: "is_dir s2 (upload_dir sid)"
        using at recorded_dirs(1) [OF safeD(2) [OF sf]] by (auto simp: receipt_at_def upload_at_def)
      show ?case
      proof (cases err)
        case None
        then show ?thesis using fin [OF sf _ d2] at b(3) by (auto simp: pe)
      next
        case (Some x)
        then show ?thesis
          using sf receipt_at_weaken [OF at] b(4) n receipt_marshalsD [of C "ol_config l" e rl m] by (auto simp: pe runs_ret)
      qed
    qed
  qed
  note looks = look_sync_files [OF dest(1)] look_SyncDir [OF dest(2)] look_SyncDir [OF dest(3)]
  show ?thesis
    unfolding commit_receipt_def Let_def l(1,2) Meta_Clone_id
    by (rule runs_looks [OF still_refl looks(1)], erule (1) no, rule runs_looks [OF _ looks(2)], assumption, erule (1) no,
        rule runs_looks [OF _ looks(3)], assumption, erule (1) no, erule wr)
qed

section \<open>A new entry\<close>

lemma runs_RemoveAll:
  assumes "os_ok L W s" "\<not> kept_place W p" "p \<noteq> []"
  shows "runs (os_RemoveAll p) s (\<lambda>r s'. safe L W s s' \<and> (\<forall>q. is_dir s q \<and> \<not> prefix p q \<longrightarrow> is_dir s' q)
    \<and> (case r of Inl err \<Rightarrow> \<not> quiet s | Inr _ \<Rightarrow> \<not> exists_at s' p))"
  unfolding os_RemoveAll_def
  using safe_refl [OF assms(1)] safe_del_tree [OF safe_refl [OF assms(1)] assms(2,3)]
  by (intro runs_sys) (auto simp: fs_simps kept_def exists_at_def)

text \<open>
  Nothing shown has changed, or one entry is new: the one that the commit is about, with the labels of the
  commit and bytes that its digest names.
\<close>

definition commit_moved :: "'h digest_lib \<Rightarrow> scope \<Rightarrow> osfs \<Rightarrow> string \<Rightarrow> string \<Rightarrow> bytes \<Rightarrow> osfs \<Rightarrow> bool" where
  "commit_moved L W s ns d lb s' \<longleftrightarrow> safe L W s s' \<or> os_view L s ns d = None \<and> published L W s ns d lb s'"

lemma commit_movedD:
  assumes "commit_moved L W s ns d lb s'"
  shows "os_ok L W s'" "keeps W s s'" "quiet s' = quiet s"
  using assms by (auto simp: commit_moved_def published_def safe_def quiet_def)

lemma commit_moved_safe:
  "safe L W s s1 \<Longrightarrow> commit_moved L W s1 ns d lb s' \<Longrightarrow> commit_moved L W s ns d lb s'"
  "commit_moved L W s ns d lb s1 \<Longrightarrow> safe L W s1 s' \<Longrightarrow> commit_moved L W s ns d lb s'"
  unfolding commit_moved_def using safe_trans [of L W s s1 s'] published_from [of L W s s1 ns d lb s'] published_trans [of L W s ns d lb s1 s']
    safeD(4) [of L W s s1] by auto

lemma commit_moved_covers: "covers qs ps \<Longrightarrow> commit_moved L (owning U ps) s ns d lb s' \<Longrightarrow> commit_moved L (owning U qs) s ns d lb s'"
  unfolding commit_moved_def using safe_covers published_covers by blast

lemma runs_publish_dir:
  assumes ok: "os_ok L (owning U []) s" and d: "is_dir s (upload_dir sid)"
  shows "runs (chk (os_RemoveAll (publish_at sid)) Inl (\<lambda>_. os_Mkdir (publish_at sid))) s
    (\<lambda>r s'. safe L (owning U [publish_at sid]) s s' \<and> (\<forall>q. is_dir s q \<and> \<not> prefix (publish_at sid) q \<longrightarrow> is_dir s' q)
      \<and> (case r of Inl err \<Rightarrow> \<not> quiet s | Inr _ \<Rightarrow> is_dir s' (publish_at sid) \<and> (\<forall>f. \<not> exists_at s' (publish_at sid @ [f]))))"
    (is "runs _ _ ?Q")
proof -
  let ?W = "owning U [publish_at sid]" and ?p = "publish_at sid"
  have okW: "os_ok L ?W s" and nk: "\<not> kept_place ?W ?p" using ok by (simp_all add: own_not_kept)
  have dp: "dir_place ?p" by (simp add: dir_place_def upload_dir_def)
  show ?thesis
  proof (rule runs_step [OF runs_RemoveAll [OF okW nk]], goal_cases)
    case (3 x s1)
    then have s1: "safe L ?W s s1" "\<forall>q. is_dir s q \<and> \<not> prefix ?p q \<longrightarrow> is_dir s1 q" "\<not> exists_at s1 ?p" by auto
    have d1: "is_dir s1 (butlast ?p)" using s1(2) d by simp
    have no: "\<not> exists_at s1 (?p @ [f])" for f
    proof
      assume "exists_at s1 (?p @ [f])"
      from parent_exists [OF safeD(2) [OF s1(1)] this, of ?p] show False
        using s1(3) by (simp add: exists_at_def strict_prefix_def)
    qed
    show ?case
      by (rule runs_mono [OF runs_Mkdir [OF safeD(1) [OF s1(1)] d1 dp s1(3)]])
        (use safe_trans [OF s1(1)] safeD(5) [OF s1(1)] s1(2) no in \<open>auto simp: grown_def exists_at_def split: sum.splits\<close>)
  qed auto
qed

lemma chk_assoc: "chk (chk m Inl k) h f = chk m h (\<lambda>x. chk (k x) h f)"
  by (rule ext) (simp add: chk_def bind_def ret_def split: option.splits prod.splits sum.splits)

lemma published_entry:
  assumes "dl_Validate L d = None" "published L W s0 ns d lb s"
  shows "\<forall>f \<in> set [''blob'', ''labels'']. file_at s (entry_path L ns d @ [f]) \<noteq> None"
    "is_dir s (entry_path L ns d)" "is_dir s (butlast (entry_path L ns d))"
proof -
  have v: "\<exists>b. os_view L s ns d = Some (b, Some lb)" using assms(2) by (auto simp: published_def)
  then show f: "\<forall>f \<in> set [''blob'', ''labels'']. file_at s (entry_path L ns d @ [f]) \<noteq> None"
    using assms(1) by (auto simp: os_view_def show_entry_def split: option.splits)
  then obtain i where i: "file_at s (entry_path L ns d @ [''blob'']) = Some i" by auto
  have t: "tree_ok s" using assms(2) by (auto simp: published_def os_ok_def)
  note p = parent_exists [OF t exists_file [OF i]]
  show "is_dir s (entry_path L ns d)" by (rule p) (simp add: strict_prefix_def)
  show "is_dir s (butlast (entry_path L ns d))"
    by (rule p) (auto simp: strict_prefix_def entry_path_def Let_def prefix_def)
qed

lemma runs_commit_new:
  fixes m :: meta
  assumes L: "digest_lib_ok L" "dl_Validate L d = None" and C: "codec_ok C" and ok: "os_ok L (owning U []) s"
    and up: "upload_at C L s ns sid rd data" "State rd = StageCommitting"
    and l: "ol_id l = sid" "ol_record l = rl" "record_fits L ns sid rl data" "State rl = StageCommitting" "Commit rl = m"
      "Digest (Commit rd) = d" and m: "Digest m = d" "Size m = Offset rl"
    and data: "names_bytes L d data" "data \<in> U"
    and dest: "os_view L s ns d = None" "is_dir s (butlast (entry_path L ns d))"
    and t: "\<And>k. cfg_clock (ol_config l) (env_after k e) 0 + Retention (ol_config l) \<noteq> 0"
  shows "runs (commit_new C L l e (entry_path L ns d) m) s (\<lambda>r s'. commit_moved L (owning U [upload_dir sid]) s ns d (writeLabels (Labels m)) s'
    \<and> receipt_at C L s' ns sid rd data (\<not> isl r)
    \<and> (case r of
         Inl err \<Rightarrow> \<not> (quiet s \<and> live e \<and> receipt_marshals C (ol_config l) e rl m)
       | Inr y \<Rightarrow> fst y = m \<and> os_view L s' ns d \<noteq> None))" (is "runs _ _ ?Q")
proof -
  let ?W = "owning U [upload_dir sid]" and ?p = "publish_at sid" and ?q = "entry_path L ns d" and ?lb = "writeLabels (Labels m)"
  have rec: "recorded C L s ns sid rd data" using up by (simp add: upload_at_def)
  note dirs = recorded_dirs [OF os_okD(1) [OF ok] rec]
  have cov: "covers [upload_dir sid] [?p]" by simp
  have body: "runs (chk (commit_publish L e sid ?p ?q m) Inl (\<lambda>_. commit_receipt C l (env_after 1 e) ?q m [''blob'', ''labels''])) s1 ?Q"
    if s1: "safe L ?W s s1" "upload_at C L s1 ns sid rd data" "is_dir s1 ?p" "\<forall>f. \<not> exists_at s1 (?p @ [f])" "is_dir s1 (butlast ?q)" for s1
  proof -
    have q: "quiet s1 = quiet s" and v1: "os_view L s1 ns d = None" using safeD(4,5) [OF s1(1)] dest(1) by simp_all
    have ok1: "os_ok L (owning U []) s1" using safeD(1) [OF s1(1)] by simp
    have root: "is_dir s1 []" using recorded_dirs(3) [OF os_okD(1) [OF ok1]] s1(2) by (auto simp: upload_at_def)
    have h1: "holds s1 (blob_at sid) data" using s1(2) up(2) by (simp add: upload_at_def upload_file_def)
    have cv: "covers [upload_dir sid] [?p, blob_at sid]" by simp
    have still_up: "upload_at C L s2 ns sid rd data" if "keeps (owning U [?p, blob_at sid]) s1 s2" "holds s2 (blob_at sid) data" for s2
      using recorded_keeps [of C L s1 ns sid rd data, OF _ that(1)] that(2) s1(2) up(2) by (auto simp: upload_at_def upload_file_def stage_states)
    show ?thesis
    proof (rule runs_step [OF runs_commit_publish [OF L ok1 root s1(3,4) h1 data v1 s1(5) m(1)]], goal_cases)
      case (1 err s2)
      then have "safe L (owning U [?p, blob_at sid]) s1 s2" "holds s2 (blob_at sid) data" "\<not> (quiet s1 \<and> live e)" by auto
      then show ?case
        using safe_trans [OF s1(1) safe_covers [OF cv]] receipt_atI [OF still_up [OF safe_keeps]] q by (auto simp: commit_moved_def)
    next
      case (2 x s2)
      then have s2: "published L (owning U [?p, blob_at sid]) s1 ns d ?lb s2" "holds s2 (blob_at sid) data" by auto
      have pb: "published L ?W s ns d ?lb s2" by (rule published_from [OF s1(1) published_covers [OF cv s2(1)]])
      have ok2: "os_ok L (owning U []) s2" "quiet s2 = quiet s" using pb by (auto simp: published_def quiet_def os_ok_def)
      have up2: "upload_at C L s2 ns sid rd data" using s2 by (intro still_up) (auto simp: published_def)
      note ent = published_entry [OF L(2) pb]
      have eq: "Digest (Commit rl) = Digest (Commit rd)" "Digest m = Digest (Commit rl)" using l(5,6) m(1) by simp_all
      note rc = runs_commit_receipt [OF L(1) C ok2(1) up2 l(1-4) eq m(2) t [of 1] ent]
      show ?case
      proof (rule runs_mono [OF rc], goal_cases)
        case (1 r s3)
        then have "published L ?W s ns d ?lb s3" using published_trans [OF pb] by auto
        moreover from this have "os_view L s3 ns d \<noteq> None" by (auto simp: published_def)
        ultimately show ?case using 1 dest(1) ok2(2) by (auto simp: commit_moved_def split: sum.splits)
      qed
    qed
  qed
  have tidy: "runs (deferred (chk (commit_publish L e sid ?p ?q m) Inl (\<lambda>_. commit_receipt C l (env_after 1 e) ?q m [''blob'', ''labels'']))
      (\<lambda>_. drop_tree ?p)) s1 ?Q"
    if "safe L ?W s s1" "upload_at C L s1 ns sid rd data" "is_dir s1 ?p" "\<forall>f. \<not> exists_at s1 (?p @ [f])" "is_dir s1 (butlast ?q)" for s1
    unfolding runs_deferred
  proof (rule runs_mono [OF body [OF that]], goal_cases)
    case (1 r s2)
    then have mv: "commit_moved L ?W s ns d ?lb s2" by auto
    have "os_ok L (owning U [?p]) s2" "\<not> kept_place (owning U [?p]) ?p"
      using commit_movedD(1) [OF mv] by (simp_all add: own_not_kept)
    then show ?case
    proof (rule runs_mono [OF runs_drop_tree], goal_cases)
      case (2 x s3)
      then have s3: "safe L ?W s2 s3" "receipt_at C L s3 ns sid rd data (\<not> isl r)"
        using safe_covers [OF cov] receipt_at_keeps [OF _ safe_keeps] 1 by auto
      then show ?case using 1 commit_moved_safe(2) [OF mv s3(1)] safeD(4) [OF s3(1)] by (auto split: sum.splits)
    qed simp
  qed
  have opened_dir: "safe L ?W s s1 \<and> upload_at C L s1 ns sid rd data" if "safe L (owning U [?p]) s s1" for s1
    using safe_covers [OF cov that] upload_at_keeps [OF up(1) safe_keeps [OF that]] by simp
  show ?thesis
    unfolding commit_new_def Let_def l(1) chk_assoc [symmetric]
  proof (rule runs_step [OF runs_publish_dir [OF ok dirs(1)]], goal_cases)
    case (1 err s1)
    then have "safe L ?W s s1" "upload_at C L s1 ns sid rd data" using opened_dir by auto
    then show ?case using 1 by (auto simp: commit_moved_def receipt_atI)
  next
    case (2 x s1)
    then have "safe L ?W s s1" "upload_at C L s1 ns sid rd data" using opened_dir by auto
    then show ?case using 2 dest(2) by (intro tidy) (auto simp: upload_dir_def entry_path_def Let_def)
  qed
qed

section \<open>An entry that stands\<close>

lemma runs_with_info: "runs (with_info i m) s Q = runs m (i, s) (\<lambda>r x. Q r (snd x))"
  by (auto simp: runs_def with_info_def split: option.splits)

lemma runs_on_store: "runs (on_store m) (i, s) Q = runs m s (\<lambda>r s'. Q r (i, s'))"
  by (auto simp: runs_def on_store_def split: option.splits)

lemma runs_Info_Size: "runs (Info_Size e) (os_info L t d b, s) Q = Q (Inr (int (length b))) (sized_info L t d b, s)"
  by (simp add: runs_def Info_Size_def os_info_def sized_info_def NewLazyInfo_def go_run)

lemma runs_infoMeta:
  assumes "runs (os_labels L t d e) s (\<lambda>r s'. case r of
     Inl err \<Rightarrow> \<forall>i. Q (Inl err) (i, s') | Inr l \<Rightarrow> \<forall>i. Q (Inr \<lparr>Digest = d, Labels = l, Size = int (length b)\<rparr>) (i, s'))"
  shows "runs (infoMeta e) (sized_info L t d b, s) Q"
proof -
  obtain r s' where "os_labels L t d e s = Some (r, s')" "case r of
     Inl err \<Rightarrow> \<forall>i. Q (Inl err) (i, s') | Inr l \<Rightarrow> \<forall>i. Q (Inr \<lparr>Digest = d, Labels = l, Size = int (length b)\<rparr>) (i, s')"
    using runsD [OF assms] by blast
  then show ?thesis
    by (cases r)
      (simp_all add: runs_def infoMeta_def Info_Size_def Info_Labels_def Info_Digest_def os_info_def sized_info_def NewLazyInfo_def go_run)
qed

lemma view_files:
  assumes "tree_ok s" "dl_Validate L d = None" "os_view L s ns d = Some x"
  shows "file_at s (entry_path L ns d @ [''blob'']) \<noteq> None" "is_dir s (entry_path L ns d)" "is_dir s (butlast (entry_path L ns d))"
proof -
  show f: "file_at s (entry_path L ns d @ [''blob'']) \<noteq> None" using view_None [OF assms(2), of s ns] assms(3) by simp
  then obtain i where i: "file_at s (entry_path L ns d @ [''blob'']) = Some i" by auto
  note p = parent_exists [OF assms(1) exists_file [OF i]]
  show "is_dir s (entry_path L ns d)" by (rule p) (simp add: strict_prefix_def)
  show "is_dir s (butlast (entry_path L ns d))"
    by (rule p) (auto simp: strict_prefix_def entry_path_def Let_def prefix_def)
qed

lemma view_labels:
  "dl_Validate L d = None \<Longrightarrow> os_view L s ns d = Some x \<Longrightarrow> file_at s (entry_path L ns d @ [''labels'']) = None \<longleftrightarrow> snd x = None"
  by (auto simp: os_view_def show_entry_def split: option.splits)

lemma runs_commit_existing:
  assumes L: "digest_lib_ok L" "dl_Validate L d = None" and C: "codec_ok C" and ok: "os_ok L (owning U []) s"
    and up: "upload_at C L s ns sid rd data"
    and l: "ol_id l = sid" "ol_record l = rl" "record_fits L ns sid rl data" "State rl = StageCommitting"
      "Digest (Commit rl) = d" "Digest (Commit rd) = d"
    and x: "os_view L s ns d = Some x"
    and t: "\<And>k. cfg_clock (ol_config l) (env_after k e) 0 + Retention (ol_config l) \<noteq> 0"
  shows "runs (commit_existing C L (OsStores_Use st ns) l e (entry_path L ns d) d) s (\<lambda>r s'.
    safe L (owning U [upload_dir sid]) s s' \<and> receipt_at C L s' ns sid rd data (\<not> isl r)
    \<and> (case r of Inl err \<Rightarrow> True | Inr y \<Rightarrow> Digest (fst y) = d \<and> Size (fst y) = Offset rl))" (is "runs _ _ ?Q")
proof -
  let ?W = "owning U [upload_dir sid]" and ?U = "owning U []" and ?q = "entry_path L ns d" and ?t = "OsStores_Use st ns"
  have wide: "safe L ?W s s1" "upload_at C L s1 ns sid rd data" "os_view L s1 ns d = Some x" "os_ok L ?U s1" if "safe L ?U s s1" for s1
    using safe_covers [OF _ that, of "[upload_dir sid]"] upload_at_keeps [OF up safe_keeps [OF that]] safeD(1,4) [OF that] x by simp_all
  have no: "?Q (Inl err) s1" if "safe L ?U s s1" for err s1
    using wide [OF that] by (simp add: receipt_atI)
  have rc: "runs (commit_receipt C l (env_after 1 e) ?q m (if b then [''blob'', ''labels''] else [''blob''])) s1 ?Q"
    if s1: "safe L ?U s s1" "b \<longrightarrow> file_at s1 (?q @ [''labels'']) \<noteq> None" and m: "Digest m = d" "Size m = Offset rl" for s1 b and m :: meta
  proof -
    note f = view_files [OF safeD(2) [OF s1(1)] L(2) wide(3) [OF s1(1)]]
    have eq: "Digest (Commit rl) = Digest (Commit rd)" "Digest m = Digest (Commit rl)" using l m by simp_all
    have dur: "\<forall>f \<in> set (if b then [''blob'', ''labels''] else [''blob'']). file_at s1 (?q @ [f]) \<noteq> None" using f(1) s1(2) by simp
    note rc = runs_commit_receipt [OF L(1) C wide(4,2) [OF s1(1)] l(1-4) eq m(2) t [of 1] dur f(2,3)]
    show ?thesis
      by (rule runs_mono [OF rc]) (use safe_trans [OF wide(1) [OF s1(1)]] m in \<open>auto split: sum.splits\<close>)
  qed
  have meta: "runs (chk (infoMeta e) Inl (\<lambda>m. on_store (commit_receipt C l (env_after 1 e) ?q m (if b then [''blob'', ''labels''] else [''blob'']))))
      (sized_info L ?t d (fst x), s2) (\<lambda>r y. ?Q r (snd y))"
    if s2: "safe L ?U s s2" "b \<longrightarrow> file_at s2 (?q @ [''labels'']) \<noteq> None" and sz: "int (length (fst x)) = Offset rl" for s2 b
    unfolding runs_chk_iff
  proof (rule runs_infoMeta, rule runs_mono [OF runs_returns [OF returns_labels [OF L(2) wide(3) [OF s2(1)]] safe_refl [OF wide(4) [OF s2(1)]]]], goal_cases)
    case (1 r s3)
    then have s3: "safe L ?U s s3" "os_view L s3 = os_view L s2" using safe_trans [OF s2(1)] safeD(4) by auto
    have "b \<longrightarrow> file_at s3 (?q @ [''labels'']) \<noteq> None"
      using s2(2) view_labels [OF L(2) wide(3) [OF s2(1)]] view_labels [OF L(2) wide(3) [OF s3(1)]] by simp
    then show ?case
      using no [OF s3(1)] rc [OF s3(1), of b] sz by (auto simp: runs_on_store split: sum.splits if_splits)
  qed
  have stat: "runs (OsStore_Stat L ?t e d) s (\<lambda>r s1. safe L ?U s s1 \<and> (case r of
      Inl err \<Rightarrow> True | Inr i \<Rightarrow> i = os_info L ?t d (fst x)))"
    unfolding OsStore_Stat_def
    by (rule runs_step [OF runs_returns [OF returns_open [OF L(1)] safe_refl [OF ok]]]) (use x in \<open>auto simp: runs_ret\<close>)
  show ?thesis
    unfolding commit_existing_def l(2)
  proof (rule runs_step [OF stat], goal_cases)
    case (1 err s1)
    then show ?case using no by blast
  next
    case (2 i s1)
    then have s1: "safe L ?U s s1" "i = os_info L ?t d (fst x)" by auto
    have opt: "runs (osStageOptionalRegular (?q @ [''labels''])) s1 (\<lambda>r s2. safe L ?U s s2 \<and> (case r of
        Inl err \<Rightarrow> True | Inr b \<Rightarrow> b \<longrightarrow> file_at s2 (?q @ [''labels'']) \<noteq> None))"
      by (rule runs_mono [OF runs_OptionalRegular]) (use s1 in \<open>auto elim!: stillE split: sum.splits\<close>)
    show ?case
      unfolding s1(2) runs_with_info runs_chk_iff runs_Info_Size sum.case
    proof (cases "int (length (fst x)) = Offset rl")
      case True
      have "runs (chk (on_store (osStageOptionalRegular (?q @ [''labels'']))) Inl (\<lambda>hasLabels.
            chk (infoMeta e) Inl (\<lambda>m. on_store (commit_receipt C l (env_after 1 e) ?q m
                (if hasLabels then [''blob'', ''labels''] else [''blob'']))))) (sized_info L ?t d (fst x), s1) (\<lambda>r y. ?Q r (snd y))"
        unfolding runs_chk_iff [of "on_store _"] runs_on_store
      proof (rule runs_mono [OF opt], goal_cases)
        case (1 r s2)
        show ?case
        proof (cases r)
          case (Inr b)
          then show ?thesis using 1 meta [OF _ _ True, of s2 b] by simp
        qed (use 1 no in auto)
      qed
      then show "runs (if int (length (fst x)) \<noteq> Offset rl then ret (Inl ErrStageFormat)
          else chk (on_store (osStageOptionalRegular (?q @ [''labels'']))) Inl (\<lambda>hasLabels.
            chk (infoMeta e) Inl (\<lambda>m. on_store (commit_receipt C l (env_after 1 e) ?q m
                (if hasLabels then [''blob'', ''labels''] else [''blob'']))))) (sized_info L ?t d (fst x), s1) (\<lambda>r y. ?Q r (snd y))"
        using True by simp
    next
      case False
      then show "runs (if int (length (fst x)) \<noteq> Offset rl then ret (Inl ErrStageFormat)
          else chk (on_store (osStageOptionalRegular (?q @ [''labels'']))) Inl (\<lambda>hasLabels.
            chk (infoMeta e) Inl (\<lambda>m. on_store (commit_receipt C l (env_after 1 e) ?q m
                (if hasLabels then [''blob'', ''labels''] else [''blob'']))))) (sized_info L ?t d (fst x), s1) (\<lambda>r y. ?Q r (snd y))"
        using no [OF s1(1)] by (simp add: runs_ret)
    qed
  qed
qed

section \<open>The commit under the lock of the blob\<close>

definition committed ::
  "manifest_codec \<Rightarrow> 'h digest_lib \<Rightarrow> bytes set \<Rightarrow> osfs \<Rightarrow> string \<Rightarrow> stageRecord \<Rightarrow> stageRecord \<Rightarrow> bytes
   \<Rightarrow> StageConfig \<Rightarrow> env \<Rightarrow> error + (meta \<times> stageRecord) \<Rightarrow> osfs \<Rightarrow> bool" where
  "committed C L U s ns rd rl data cfg e r s' \<longleftrightarrow>
     (let m = Commit rl; d = Digest m
      in commit_moved L (owning U [upload_dir (ID rl)]) s ns d (writeLabels (Labels m)) s'
         \<and> receipt_at C L s' ns (ID rl) rd data (\<not> isl r)
         \<and> (case r of
              Inl err \<Rightarrow> \<not> (quiet s \<and> live e \<and> os_view L s ns d = None
                \<and> receipt_marshals C cfg e rl m)
            | Inr y \<Rightarrow> Digest (fst y) = d \<and> Size (fst y) = Offset rl \<and> os_view L s' ns d \<noteq> None))"

lemma committed_from:
  assumes "safe L (owning U [upload_dir (ID rl)]) s s1" "committed C L U s1 ns rd rl data cfg (env_after k e) r s'"
  shows "committed C L U s ns rd rl data cfg e r s'"
  using assms(2) commit_moved_safe(1) [OF assms(1)] safeD(4,5) [OF assms(1)] by (auto simp: committed_def Let_def split: sum.splits)

lemma committed_refused:
  assumes "safe L (owning U [upload_dir (ID rl)]) s s'" "upload_at C L s' ns (ID rl) rd data" "\<not> (quiet s \<and> live e)"
  shows "committed C L U s ns rd rl data cfg e (Inl err) s'"
  using assms by (auto simp: committed_def Let_def commit_moved_def receipt_atI)

text \<open>What the commit of a locked upload starts from: the record in memory and the one on disk agree but for labels.\<close>

definition commit_ready ::
  "'h digest_lib \<Rightarrow> bytes set \<Rightarrow> string \<Rightarrow> osLockedStage \<Rightarrow> stageRecord \<Rightarrow> stageRecord \<Rightarrow> bytes \<Rightarrow> StageConfig \<Rightarrow> bool" where
  "commit_ready L U ns l rd rl data cfg \<longleftrightarrow>
     ol_id l = ID rl \<and> ol_record l = rl \<and> ol_config l = normalized cfg \<and> record_fits L ns (ID rl) rl data \<and> State rl = StageCommitting
     \<and> State rd = StageCommitting \<and> Offset rd = Offset rl \<and> Digest (Commit rd) = Digest (Commit rl) \<and> data \<in> U"

lemma commit_readyD:
  assumes "digest_lib_ok L" "commit_ready L U ns l rd rl data cfg"
  shows "dl_Validate L (Digest (Commit rl)) = None" "names_bytes L (Digest (Commit rl)) data" "Size (Commit rl) = Offset rl"
proof -
  have d: "Digest (Commit rl) = data_digest L (Algorithm rl) data" "Algorithm rl \<in> set algorithms" "Size (Commit rl) = Offset rl"
    using assms(2) by (auto simp: commit_ready_def record_fits_def commit_shape_def describes_def)
  then show "dl_Validate L (Digest (Commit rl)) = None" "names_bytes L (Digest (Commit rl)) data" "Size (Commit rl) = Offset rl"
    using Validate_data_digest [OF assms(1)] by (simp_all add: names_bytes_data_digest [OF assms(1)])
qed

lemma runs_commit_locked:
  assumes L: "digest_lib_ok L" and C: "codec_ok C" and ok: "os_ok L (owning U []) s"
    and up: "upload_at C L s ns (ID rl) rd data" and rdy: "commit_ready L U ns l rd rl data cfg" and e: "dated cfg e"
  shows "runs (commit_locked C L (OsStores_Use st ns) l e) s (committed C L U s ns rd rl data (normalized cfg) e)" (is "runs _ _ ?Q")
proof -
  let ?m = "Commit rl" and ?d = "Digest (Commit rl)" and ?W = "owning U [upload_dir (ID rl)]" and ?U = "owning U []"
  let ?q = "entry_path L ns ?d" and ?t = "OsStores_Use st ns"
  note v = commit_readyD [OF L rdy]
  have l: "ol_id l = ID rl" "ol_record l = rl" "ol_config l = normalized cfg" "record_fits L ns (ID rl) rl data" "State rl = StageCommitting"
      "State rd = StageCommitting" "Digest (Commit rd) = ?d" "data \<in> U"
    using rdy by (simp_all add: commit_ready_def)
  have t: "cfg_clock (ol_config l) (env_after k e) 0 + Retention (ol_config l) \<noteq> 0" for k
    unfolding l(3) by (rule dated_expiry(2) [OF dated_after [OF e]])
  have wide: "safe L ?W s s1" "upload_at C L s1 ns (ID rl) rd data" "os_ok L ?U s1" if "safe L ?U s s1" for s1
    using safe_covers [OF _ that, of "[upload_dir (ID rl)]"] upload_at_keeps [OF up safe_keeps [OF that]] safeD(1) [OF that] by simp_all
  have no: "?Q (Inl err) s1" if "safe L ?U s s1" "\<not> quiet s" for err s1
    using committed_refused [OF wide(1,2) [OF that(1)]] that(2) by simp
  have go: "runs (bind (osStageRegular (?q @ [''blob''])) (\<lambda>r. case r of
              Inr _ \<Rightarrow> commit_existing C L ?t l e ?q ?d
            | Inl err \<Rightarrow> if \<not> errors_Is err ErrNotExist then ret (Inl err) else commit_new C L l e ?q ?m)) s1 ?Q"
    if s1: "safe L ?U s s1" "is_dir s1 (butlast ?q)" for s1
  proof (rule runs_bindI [OF runs_Regular], goal_cases)
    case (1 r s2)
    then obtain n where n: "s2 = s1\<lparr>fs_sys := n\<rparr>" by (auto elim!: stillE)
    have s2: "safe L ?U s s2" "is_dir s2 (butlast ?q)" "quiet s2 = quiet s" using n s1 safeD(5) [OF s1(1)] by simp_all
    have f: "case r of Inl err \<Rightarrow> err = ErrNotExist \<and> \<not> exists_at s2 (?q @ [''blob'']) \<or> \<not> errors_Is err ErrNotExist \<and> (is_dir s2 (?q @ [''blob'']) \<or> \<not> quiet s2)
        | Inr _ \<Rightarrow> file_at s2 (?q @ [''blob'']) \<noteq> None"
      using 1 n by (simp split: sum.splits)
    have nd: "\<not> is_dir s2 (?q @ [''blob''])" using layoutD(2) [OF safeD(3) [OF s2(1)], of "?q @ [''blob'']"] by (auto simp: dir_place_def)
    note w = wide [OF s2(1)]
    show ?case
    proof (cases r)
      case (Inr x)
      then obtain y where y: "os_view L s2 ns ?d = Some y" using f view_None [OF v(1), of s2 ns] by auto
      have "runs (commit_existing C L ?t l e ?q ?d) s2 ?Q"
      proof (rule runs_mono [OF runs_commit_existing [OF L v(1) C w(3,2) l(1,2,4,5) refl l(7) y t]], goal_cases)
        case (1 r s3)
        then have "safe L ?W s s3" "os_view L s3 ns ?d = Some y" using safe_trans [OF w(1)] safeD(4) [of L ?W s2 s3] y by auto
        then show ?case using 1 y safeD(4) [OF s2(1)] by (auto simp: committed_def commit_moved_def Let_def split: sum.splits)
      qed
      then show ?thesis using Inr by simp
    next
      case (Inl err)
      show ?thesis
      proof (cases "errors_Is err ErrNotExist")
        case True
        then have y: "os_view L s2 ns ?d = None" using f Inl view_None [OF v(1), of s2 ns] by (auto simp: exists_at_def)
        have "runs (commit_new C L l e ?q ?m) s2 ?Q"
        proof (rule runs_mono [OF runs_commit_new [OF L v(1) C w(3,2) l(6,1,2,4,5) refl l(7) refl v(3,2) l(8) y s2(2) t]], goal_cases)
          case (1 r s3)
          then have "committed C L U s2 ns rd rl data (normalized cfg) (env_after 0 e) r s3"
            using y v(3) l(3) by (auto simp: committed_def env_after_0 Let_def split: sum.splits)
          then show ?case by (rule committed_from [OF w(1)])
        qed
        then show ?thesis using True Inl by simp
      next
        case False
        then show ?thesis using f Inl nd s2(3) no [OF s2(1)] by (auto simp: runs_ret)
      qed
    qed
  qed
  have root: "is_dir s []" using up recorded_dirs(3) [OF os_okD(1) [OF ok]] unfolding upload_at_def by blast
  show ?thesis
    unfolding commit_locked_def Let_def l(2) pathToRepo_Use append_Nil2
  proof (rule runs_step [OF runs_entry_dirs [OF L v(1) ok root]], goal_cases)
    case (1 err s1)
    then show ?case using no by auto
  next
    case (2 x s1)
    then have s1: "safe L ?U s s1" "is_dir s1 (butlast ?q)" by auto
    show ?case
    proof (rule runs_bindI [OF runs_Stat], goal_cases)
      case (1 r s2)
      then obtain n where n: "s2 = s1\<lparr>fs_sys := n\<rparr>" by (auto elim!: stillE)
      have s2: "safe L ?U s s2" "is_dir s2 (butlast ?q)" "quiet s2 = quiet s" using n s1 safeD(5) [OF s1(1)] by simp_all
      have f: "case r of Inl err \<Rightarrow> err = FsErrNotExist \<and> \<not> exists_at s2 ?q \<or> (\<exists>m. err = ErrorString m) \<and> \<not> quiet s2
          | Inr (FileNode i) \<Rightarrow> file_at s2 ?q = Some i | Inr (DirNode _) \<Rightarrow> is_dir s2 ?q"
        using 1 n by (auto split: sum.splits node.splits)
      have nf: "file_at s2 ?q = None"
        using layoutD(1) [OF safeD(3) [OF s2(1)], of ?q] by (cases "file_at s2 ?q") (auto simp: file_place_def)
      consider (dir) tm where "r = Inr (DirNode tm)" | (none) "r = Inl FsErrNotExist" | (fails) m where "r = Inl (ErrorString m)" "\<not> quiet s2"
        using f nf by (cases r) (auto split: node.splits)
      then show ?case by cases (use go [OF s2(1,2)] no [OF s2(1)] s2(3) in \<open>auto simp: runs_ret\<close>)
    qed
  qed
qed

text \<open>\<open>recoverTail\<close> looks at the state and the offset of the record only.\<close>

lemma recoverTail_alike:
  "State r = State (ol_record l) \<Longrightarrow> Offset r = Offset (ol_record l) \<Longrightarrow> recoverTail (l\<lparr>ol_record := r\<rparr>) = recoverTail l"
  by (simp add: recoverTail_def tail_links_def Let_def cong: if_cong option.case_cong)

lemma runs_recoverCommit:
  assumes L: "digest_lib_ok L" and C: "codec_ok C" and ok: "os_ok L (owning U []) s" and ub: "unblocked s"
    and up: "upload_at C L s ns (ID rl) rd data" and rdy: "commit_ready L U ns l rd rl data cfg" and e: "dated cfg e"
  shows "runs (recoverCommit C L (OsStores_Use st ns) l e) s (committed C L U s ns rd rl data (normalized cfg) e)" (is "runs _ _ ?Q")
proof (cases "ctx_Err e 0")
  case (Some err)
  then have "?Q (Inl err) s"
    using up ok by (intro committed_refused) (auto simp: safe_refl live_def)
  then show ?thesis using Some by (simp add: recoverCommit_def runs_ret)
next
  case None
  let ?W = "owning U [upload_dir (ID rl)]" and ?l = "l\<lparr>ol_ctx := env_after 1 e\<rparr>"
  have l: "ol_id l = ID rl" "ol_record l = rl" "State rd = State rl" "Offset rd = Offset rl"
    using rdy by (simp_all add: commit_ready_def)
  have alike: "recoverTail (?l\<lparr>ol_record := rd\<rparr>) = recoverTail ?l" by (rule recoverTail_alike) (use l in simp_all)
  have "runs (recoverTail (?l\<lparr>ol_record := rd\<rparr>)) s (\<lambda>r s'. safe L (owning U [blob_at (ID rl)]) s s' \<and> upload_at C L s' ns (ID rl) rd data
    \<and> (case r of Inl err \<Rightarrow> \<not> (quiet s \<and> live (env_after 1 e)) | Inr _ \<Rightarrow> True))"
    by (rule runs_mono [OF runs_recoverTail [OF ok up]]) (use l in \<open>auto split: sum.splits\<close>)
  then have tail: "runs (recoverTail ?l) s (\<lambda>r s'. safe L ?W s s' \<and> upload_at C L s' ns (ID rl) rd data
    \<and> (case r of Inl err \<Rightarrow> \<not> (quiet s \<and> live e) | Inr _ \<Rightarrow> True))"
    unfolding alike
    by (rule runs_mono) (use safe_covers [OF covers_upload(1)] live_env_after [of e 1] in \<open>auto split: sum.splits\<close>)
  show ?thesis
    unfolding recoverCommit_def None option.case
  proof (rule runs_step [OF tail], goal_cases)
    case (1 err s1)
    then show ?case by (intro committed_refused) auto
  next
    case (2 x s1)
    then have s1: "safe L ?W s s1" "upload_at C L s1 ns (ID rl) rd data" by auto
    have ok1: "safe L (owning U []) s1 s1" "unblocked s1"
      using safeD(1) [OF s1(1)] s1(1) ub by (auto simp: safe_refl safe_def unblocked_def)
    note lock = runs_returns [OF returns_lockBlob [OF stable_safe ok1(2)] ok1(1)]
    have wide: "safe L ?W s s2" "upload_at C L s2 ns (ID rl) rd data" "os_ok L (owning U []) s2" if "safe L (owning U []) s1 s2" for s2
      using safe_trans [OF s1(1) safe_covers [OF _ that, of "[upload_dir (ID rl)]"]] upload_at_keeps [OF s1(2) safe_keeps [OF that]]
        safeD(1) [OF that] by simp_all
    show ?case
    proof (rule runs_step [OF lock], goal_cases)
      case (1 err s2)
      then show ?case
        using wide(1,2) [of s2] safeD(5) [OF s1(1)] live_env_after [of e 2] by (intro committed_refused) auto
    next
      case (2 k s2)
      then have s2: "safe L (owning U []) s1 s2" by simp
      show ?case
        by (rule runs_mono [OF runs_commit_locked [OF L C wide(3,2) [OF s2] rdy dated_after [OF e]]])
          (rule committed_from [OF wide(1) [OF s2]])
    qed
  qed
qed

section \<open>Commit\<close>

lemma ascii_simps [simp]: "ascii []" "ascii (c # s) \<longleftrightarrow> byte_val c < 128 \<and> ascii s" "ascii (s @ t) \<longleftrightarrow> ascii s \<and> ascii t"
  by (simp_all add: ascii_def)

lemma hex_ascii: "list_all is_hex s \<Longrightarrow> ascii s"
  by (auto simp: ascii_def list_all_iff is_hex_def is_digit_def)

lemma digest_ascii:
  assumes "digest_lib_ok L" "dl_Validate L d = None"
  shows "ascii d"
proof -
  note v = Validate_parts [OF assms]
  have "ascii (dl_Algorithm L d @ '':'' @ dl_Encoded L d)"
    using v(1) hex_ascii [OF v(3)] by (auto simp: algorithms_def algo_defs)
  then show ?thesis unfolding v(2) .
qed

lemma prepared_simps:
  fixes m p :: meta
  assumes "record_fits L ns sid rec data" "prepareCommit L rec m = Inr p"
  shows "Digest p = data_digest L (Algorithm rec) data" "Size p = Offset rec" "Labels p = Labels m"
  using assms prepareCommit_described [of L rec data ns m]
  by (auto simp: record_fits_def Let_def split: if_splits sum.splits)

lemma committing_fits:
  fixes p :: meta
  assumes "digest_lib_ok L" "record_fits L ns sid rec data" "Digest p = data_digest L (Algorithm rec) data" "Size p = Offset rec"
  shows "record_fits L ns sid (rec\<lparr>State := StageCommitting, Commit := p\<rparr>) data"
proof -
  have "ascii (Digest p)"
    unfolding assms(3)
    by (rule digest_ascii [OF assms(1) Validate_data_digest [OF assms(1)]]) (use assms(2) in \<open>simp add: record_fits_def describes_def\<close>)
  then show ?thesis
    using assms(2-4) by (auto simp: record_fits_def plain_record_def describes_def record_shape_def commit_shape_def stage_states)
qed

lemma runs_commit_active:
  fixes p :: meta and rec :: stageRecord
  defines "rl \<equiv> rec\<lparr>State := StageCommitting, Commit := p\<rparr>"
  assumes L: "digest_lib_ok L" and C: "codec_ok C" and ok: "os_ok L (owning U []) s"
    and up: "upload_at C L s ns sid rec data" "State rec = StageActive"
    and l: "ol_id l = sid" "ol_record l = rec" and p: "Digest p = data_digest L (Algorithm rec) data" "Size p = Offset rec"
  shows "runs (commit_active C l p) s (\<lambda>r s'. safe L (owning U [upload_dir sid]) s s' \<and> (case r of
     Inl err \<Rightarrow> (upload_at C L s' ns sid rec data \<or> (\<exists>a b. upload_at C L s' ns sid (relabelled rl a b) data))
        \<and> \<not> (quiet s \<and> live (ol_ctx l) \<and> marshals C rl)
   | Inr l' \<Rightarrow> l' = l\<lparr>ol_record := rl\<rparr> \<and> (\<exists>a b. upload_at C L s' ns sid (relabelled rl a b) data)))" (is "runs _ _ ?Q")
proof -
  let ?W = "owning U [upload_dir sid]"
  have rec: "recorded C L s ns sid rec data" using up by (simp add: upload_at_def)
  have fits: "record_fits L ns sid rl data" unfolding rl_def by (rule committing_fits [OF L recorded_fits [OF rec] p])
  show ?thesis
    unfolding commit_active_def Let_def
  proof (rule runs_step [OF runs_recoverTail [OF ok up(1) l]], goal_cases)
    case (1 err s1)
    then show ?case using safe_covers [OF covers_upload(1)] by auto
  next
    case (2 x s1)
    then have s1: "safe L ?W s s1" "upload_at C L s1 ns sid rec data" "holds_alone s1 (blob_at sid) data"
      using safe_covers [OF covers_upload(1)] up(2) by auto
    have ok1: "os_ok L (owning U []) s1" "recorded C L s1 ns sid rec data" "quiet s1 = quiet s"
      using safeD(1,5) [OF s1(1)] s1(2) by (simp_all add: upload_at_def)
    note dir = recorded_dirs(1) [OF os_okD(1) [OF ok1(1)] ok1(2)]
    have "runs (bind (osStageWriteRecord C (env_after 1 (ol_ctx l)) (upload_dir sid) rl) (\<lambda>(_, err).
             case err of Some err \<Rightarrow> ret (Inl err) | None \<Rightarrow> ret (Inr (l\<lparr>ol_record := rl\<rparr>)))) s1 ?Q"
    proof (rule runs_bindI [OF runs_WriteRecord [OF ok1(1) dir]], goal_cases)
      case (1 pe s2)
      obtain q err where pe: "pe = (q, err)" by (cases pe)
      obtain b where b: "q \<longrightarrow> cd_Marshal C rl = Inr b \<and> length b \<le> manifest_limit" "written L U sid b s1 q s2"
          "\<not> q \<longrightarrow> err \<noteq> None" "quiet s1 \<longrightarrow> live (env_after 1 (ol_ctx l)) \<longrightarrow> marshals C rl \<longrightarrow> q \<and> err = None"
        using 1 unfolding pe by blast
      have cov: "covers [upload_dir sid] [next_at sid, manifest_at sid]" by simp
      have sf: "safe L ?W s s2" by (rule safe_trans [OF s1(1) safe_covers [OF cov written_safe [OF b(2)]]])
      have k: "keeps (owning U [next_at sid, manifest_at sid]) s1 s2" by (rule safe_keeps [OF written_safe [OF b(2)]])
      have at: "if q then \<exists>a b. upload_at C L s2 ns sid (relabelled rl a b) data else upload_at C L s2 ns sid rec data"
      proof (cases q)
        case True
        then have w: "cd_Marshal C rl = Inr b" "length b \<le> manifest_limit" "written L U sid b s1 True s2" using b by simp_all
        obtain a a' where a: "recorded C L s2 ns sid (relabelled rl a a') data"
          by (rule recorded_written [OF L C ok1(2) _ _ _ _ _ w]) (use fits in \<open>auto simp: record_fits_def\<close>)
        have "holds s2 (blob_at sid) data" by (rule keepsD(2) [OF k _ holds_alone_holds [OF s1(3)]]) simp
        then have "upload_at C L s2 ns sid (relabelled rl a a') data"
          using a by (simp add: upload_at_def upload_file_def rl_def stage_states)
        then show ?thesis using True by auto
      next
        case False
        then have "keeps (owning U [next_at sid]) s1 s2" using b(2) by (simp add: written_def safe_keeps)
        from upload_at_keeps [OF s1(2) this] show ?thesis using False by simp
      qed
      show ?case
        using sf at b(3,4) ok1(3) live_env_after [of "ol_ctx l" 1] by (cases err) (auto simp: pe runs_ret split: if_splits)
    qed
    moreover have "l\<lparr>ol_record := (ol_record l)\<lparr>State := StageCommitting, Commit := p\<rparr>\<rparr> = l\<lparr>ol_record := rl\<rparr>" by (simp add: l rl_def)
    ultimately show ?case by (simp add: l)
  qed
qed

text \<open>All that can have happened in a \<open>Commit\<close> with the metadata \<open>m\<close> of an upload of \<open>data\<close>.\<close>

definition commit_outcome ::
  "manifest_codec \<Rightarrow> 'h digest_lib \<Rightarrow> bytes set \<Rightarrow> osfs \<Rightarrow> string \<Rightarrow> string \<Rightarrow> stageRecord \<Rightarrow> bytes \<Rightarrow> meta
   \<Rightarrow> error + meta \<Rightarrow> osfs \<Rightarrow> bool" where
  "commit_outcome C L U s ns sid rec data m r s' \<longleftrightarrow>
     (let d = data_digest L (Algorithm rec) data;
          labels = (if State rec = StageActive then Labels m else Labels (Commit rec))
      in commit_moved L (owning U [upload_dir sid]) s ns d (writeLabels labels) s'
         \<and> (\<exists>rec'. upload_at C L s' ns sid rec' data
              \<and> (rec' = rec \<or> State rec \<in> {StageActive, StageCommitting} \<and> State rec' \<in> {StageCommitting, StageCommitted})
              \<and> (case r of Inl _ \<Rightarrow> True
                 | Inr y \<Rightarrow> State rec' = StageCommitted \<and> Digest y = d \<and> Size y = int (length data)
                     \<and> (os_view L s' ns d \<noteq> None \<or> State rec = StageCommitted)))
         \<and> (Digest m \<notin> {'''', d} \<longrightarrow> isl r \<and> safe L (owning U []) s s'))"

lemma commit_refused:
  assumes "safe L (owning U []) s s'" "upload_at C L s ns sid rec data"
  shows "commit_outcome C L U s ns sid rec data m (Inl err) s'"
proof -
  have "upload_at C L s' ns sid rec data" by (rule upload_at_keeps [OF assms(2) safe_keeps [OF assms(1)]]) simp_all
  moreover have "safe L (owning U [upload_dir sid]) s s'" by (rule safe_covers [OF _ assms(1)]) simp
  ultimately show ?thesis using assms(1) by (auto simp: commit_outcome_def commit_moved_def Let_def)
qed

lemma prepared_digest:
  assumes "digest_lib_ok L" "record_fits L ns sid rec data"
  shows "(\<exists>p. prepareCommit L rec m = Inr p) \<longleftrightarrow> Digest m \<in> {'''', data_digest L (Algorithm rec) data}"
proof -
  have "dl_Validate L (data_digest L (Algorithm rec) data) = None"
    by (rule Validate_data_digest [OF assms(1)]) (use assms(2) in \<open>simp add: record_fits_def describes_def\<close>)
  then have "Sanitize L (data_digest L (Algorithm rec) data) = Inr (data_digest L (Algorithm rec) data)"
    by (rule Sanitize_valid [OF assms(1)])
  then show ?thesis
    using prepareCommit_described [of L rec data ns m] assms(2)
    by (auto simp: record_fits_def Let_def Sanitize_def ToLower_valid [OF assms(1)] split: option.splits)
qed

lemma committed_done:
  assumes c: "committed C L U s1 ns rd rl data cfg e r s'" and s1: "safe L (owning U [upload_dir (ID rl)]) s s1"
    and m: "Digest m \<in> {'''', data_digest L (Algorithm rec) data}"
    and st: "State rec \<in> {StageActive, StageCommitting}" "State rd = StageCommitting"
    and rl: "Digest (Commit rl) = data_digest L (Algorithm rec) data" "Offset rl = int (length data)"
      "Labels (Commit rl) = (if State rec = StageActive then Labels m else Labels (Commit rec))"
  shows "commit_outcome C L U s ns (ID rl) rec data m (case r of Inl err \<Rightarrow> Inl err | Inr y \<Rightarrow> Inr (fst y)) s'"
proof -
  note mv = commit_moved_safe(1) [OF s1]
  obtain rec' where "upload_at C L s' ns (ID rl) rec' data" "rec' = rd \<and> isl r \<or> State rec' = StageCommitted"
    using c by (auto simp: committed_def receipt_at_def Let_def)
  then show ?thesis
    using c m st rl mv unfolding commit_outcome_def committed_def Let_def
    by (intro conjI exI [of _ rec']) (auto split: sum.splits)
qed

text \<open>The records that a commit without failures writes.\<close>

definition committing :: "'h digest_lib \<Rightarrow> stageRecord \<Rightarrow> bytes \<Rightarrow> labels \<Rightarrow> stageRecord" where
  "committing L rec data labels =
     rec\<lparr>State := StageCommitting,
         Commit := \<lparr>Digest = data_digest L (Algorithm rec) data, Labels = labels, Size = int (length data)\<rparr>\<rparr>"

definition commit_marshals :: "manifest_codec \<Rightarrow> StageConfig \<Rightarrow> env \<Rightarrow> stageRecord \<Rightarrow> bool" where
  "commit_marshals C cfg e rl \<longleftrightarrow> marshals C rl \<and> receipt_marshals C cfg e rl (Commit rl)"

lemma commit_marshals_after [simp]: "commit_marshals C cfg e rl \<Longrightarrow> commit_marshals C cfg (env_after k e) rl"
  by (simp add: commit_marshals_def)

lemma runs_finish:
  fixes m :: meta
  assumes L: "digest_lib_ok L" and C: "codec_ok C" and ok: "os_ok L (owning U []) s1" and ub: "unblocked s1"
    and up: "upload_at C L s1 ns (ID rl) rd data" and rdy: "commit_ready L U ns l rd rl data cfg" and e: "dated cfg e'"
    and s1: "safe L (owning U [upload_dir (ID rl)]) s s1"
    and m: "Digest m \<in> {'''', data_digest L (Algorithm rec) data}" and st: "State rec \<in> {StageActive, StageCommitting}"
    and rl: "Digest (Commit rl) = data_digest L (Algorithm rec) data" "Offset rl = int (length data)"
      "Labels (Commit rl) = (if State rec = StageActive then Labels m else Labels (Commit rec))"
  shows "runs (chk (recoverCommit C L (OsStores_Use stores ns) l e') Inl (\<lambda>r. ret (Inr (fst r)))) s1
    (\<lambda>r s'. commit_outcome C L U s ns (ID rl) rec data m r s'
      \<and> (quiet s \<longrightarrow> live e' \<longrightarrow> os_view L s ns (Digest (Commit rl)) = None \<longrightarrow> commit_marshals C (normalized cfg) e' rl \<longrightarrow> \<not> isl r))"
  unfolding runs_chk_iff
proof (rule runs_mono [OF runs_recoverCommit [OF L C ok ub up rdy e]], goal_cases)
  case (1 r s')
  have "State rd = StageCommitting" using rdy by (simp add: commit_ready_def)
  from committed_done [OF 1 s1 m st this rl] show ?case
    using 1 safeD(4,5) [OF s1] by (auto simp: committed_def commit_marshals_def Let_def runs_ret split: sum.splits)
qed

lemma runs_Commit:
  fixes m :: meta
  assumes L: "digest_lib_ok L" and C: "codec_ok C" and ok: "os_ok L (owning U []) s"
    and up: "upload_at C L s ns sid rec data" and ub: "unblocked s" and e: "dated (oss_stage st) e" and U: "data \<in> U"
  shows "runs (osStage_Commit C L (OsStores_Use st ns) e sid m) s
    (\<lambda>r s'. commit_outcome C L U s ns sid rec data m r s'
      \<and> (quiet s \<longrightarrow> live e \<longrightarrow> State rec = StageActive \<longrightarrow> unexpired (oss_stage st) e rec \<longrightarrow>
          Digest m \<in> {'''', data_digest L (Algorithm rec) data} \<longrightarrow> os_view L s ns (data_digest L (Algorithm rec) data) = None \<longrightarrow>
          commit_marshals C (normalized (oss_stage st)) e (committing L rec data (Labels m)) \<longrightarrow> \<not> isl r))" (is "runs _ _ ?Q")
proof -
  let ?W = "owning U [upload_dir sid]" and ?d = "data_digest L (Algorithm rec) data"
  have rec: "recorded C L s ns sid rec data" using up by (simp add: upload_at_def)
  note fits = recorded_fits [OF rec] and r = recordedD [OF rec]
  have cs: "State rec \<in> {StageCommitting, StageCommitted} \<Longrightarrow> Digest (Commit rec) = ?d \<and> Size (Commit rec) = Offset rec"
    "State rec = StageCommitted \<Longrightarrow> Digest (Result rec) = ?d \<and> Size (Result rec) = Offset rec"
    using r(7) by (auto simp: commit_shape_def)
  have op: "runs (osStage_lock C L (OsStores_Use st ns) e sid False) s
      (\<lambda>r s'. still s s' \<and> (case r of Inl err \<Rightarrow> \<not> (quiet s \<and> live e) | Inr l \<Rightarrow> opened sid rec (oss_stage st) e l))"
    unfolding osStage_lock_def by (rule runs_mono [OF runs_openOsStage [OF ok rec ub]]) (auto simp: OsStores_Use_def split: sum.splits)
  show ?thesis
    unfolding osStage_Commit_def
  proof (rule runs_look [OF op], goal_cases)
    case (1 err s1)
    then show ?case using commit_refused [OF still_safe [OF 1(1) ok] up] by blast
  next
    case (2 l s1)
    then have l: "ol_id l = sid" "ol_record l = rec" "ol_config l = normalized (oss_stage st)" by (simp_all add: opened_def)
    obtain k where k: "ol_ctx l = env_after k e" using 2 by (auto simp: opened_def)
    have s0: "safe L (owning U []) s s1" using still_safe [OF 2(1) ok] .
    have s1: "safe L ?W s s1" "upload_at C L s1 ns sid rec data" "os_ok L (owning U []) s1" "unblocked s1"
      using safe_covers [OF _ s0, of "[upload_dir sid]"] 2(1) up ok ub by (auto elim!: stillE)
    have refused: "?Q (Inl err) s1" if "State rec = StageActive \<longrightarrow> unexpired (oss_stage st) e rec \<longrightarrow> Digest m \<notin> {'''', ?d}" for err
      using commit_refused [OF s0 up] that by blast
    show ?case
    proof (cases "checkExpiry l")
      case (Some err)
      then have "\<not> unexpired (oss_stage st) e rec" by (auto simp: checkExpiry_def l k unexpired_def split: if_splits)
      then show ?thesis using Some refused by (simp add: runs_ret)
    next
      case None
      show ?thesis
      proof (cases "prepareCommit L rec m")
        case (Inl err)
        then have "Digest m \<notin> {'''', ?d}" using prepared_digest [OF L fits, of m] by auto
        then show ?thesis using refused None Inl by (simp add: runs_ret Let_def l)
      next
        case (Inr p)
        note p = prepared_simps [OF fits Inr]
        have m: "Digest m \<in> {'''', ?d}" using prepared_digest [OF L fits, of m] Inr by auto
        have d: "dated (oss_stage st) (env_after j (ol_ctx l))" for j unfolding k by (intro dated_after e)
        consider (aborted) "State rec = StageAborted" | (active) "State rec = StageActive"
          | (conflict) "State rec \<in> {StageCommitting, StageCommitted}" "\<not> stageCommitMatches p (Commit rec)"
          | (again) "State rec = StageCommitted" "stageCommitMatches p (Commit rec)"
          | (finish) "State rec = StageCommitting" "stageCommitMatches p (Commit rec)"
          using r(6) by (auto simp: record_shape_def)
        then show ?thesis
        proof cases
          case aborted
          then show ?thesis using refused None by (simp add: runs_ret Let_def l stage_states)
        next
          case conflict
          then show ?thesis using refused None Inr by (auto simp: runs_ret Let_def l stage_states)
        next
          case again
          then have "commit_outcome C L U s ns sid rec data m (Inr (Result rec)) s1"
            using cs(2) m s1(1,2) r(4) by (auto simp: commit_outcome_def commit_moved_def Let_def stage_states)
          then show ?thesis using again None Inr by (simp add: runs_ret Let_def l stage_states)
        next
          case finish
          have rdy: "commit_ready L U ns l rec rec data (oss_stage st)"
            using finish l fits U r(1) by (simp add: commit_ready_def)
          note fin = runs_finish [where rec = rec and m = m and s = s and stores = st, OF L C s1(3,4) _ rdy d [of 0]]
          show ?thesis
            unfolding None option.case Let_def l(2) Inr sum.case
            by (simp only: finish stage_states char.inject list.inject simp_thms if_True if_False)
              (rule runs_mono [OF fin], use s1 m r cs(1) finish in \<open>auto simp: stage_states\<close>)
        next
          case active
          let ?rl = "rec\<lparr>State := StageCommitting, Commit := p\<rparr>"
          have rl: "?rl = committing L rec data (Labels m)" using p r(4) by (cases p) (simp add: committing_def)
          have lv: "live e \<Longrightarrow> live (env_after j (ol_ctx l))" "live e \<Longrightarrow> live (ol_ctx l)" for j unfolding k by simp_all
          have "runs (chk (commit_active C l p) Inl (\<lambda>l. chk (recoverCommit C L (OsStores_Use st ns) l (env_after 3 (ol_ctx l))) Inl
              (\<lambda>r. ret (Inr (fst r))))) s1 ?Q"
          proof (rule runs_step [OF runs_commit_active [OF L C s1(3,2) active l(1,2) p(1,2)]], goal_cases)
            case (1 err s2)
            then obtain r' where r': "upload_at C L s2 ns sid r' data" "r' = rec \<or> State r' = StageCommitting" by auto
            have "safe L ?W s s2" using 1 safe_trans [OF s1(1)] by auto
            then have "commit_outcome C L U s ns sid rec data m (Inl err) s2"
              using r' active m by (auto simp: commit_outcome_def commit_moved_def Let_def)
            moreover have "\<not> (quiet s \<and> live e \<and> commit_marshals C (normalized (oss_stage st)) e ?rl)"
              using 1 safeD(5) [OF s1(1)] lv(2) by (auto simp: commit_marshals_def)
            ultimately show ?case using rl by auto
          next
            case (2 l' s2)
            then obtain a b where s2: "safe L ?W s s2" "l' = l\<lparr>ol_record := ?rl\<rparr>" "upload_at C L s2 ns sid (relabelled ?rl a b) data"
              using safe_trans [OF s1(1)] by auto
            have rdy: "commit_ready L U ns l' (relabelled ?rl a b) ?rl data (oss_stage st)"
              using s2(2) l committing_fits [OF L fits p(1,2)] U r(1) by (simp add: commit_ready_def)
            have ok2: "os_ok L (owning U []) s2" "unblocked s2"
              using safeD(1) [OF s2(1)] s2(1) ub by (simp_all add: safe_def unblocked_def)
            note fin = runs_finish [where rec = rec and m = m and s = s and stores = st, OF L C ok2 _ rdy d [of 3]]
            have ctx: "ol_ctx l' = ol_ctx l" using s2(2) by simp
            show ?case
              unfolding ctx by (rule runs_mono [OF fin]) (use s2 m r p active rl [symmetric] lv(1) k in auto)
          qed
          then show ?thesis
            unfolding None option.case Let_def l(2) Inr sum.case
            by (simp only: active stage_states char.inject list.inject simp_thms if_True if_False)
        qed
      qed
    qed
  qed
qed

end
