(* ===== verification/OsBegin.thy ===== *)
theory OsBegin
  imports OsReceipt
begin

text \<open>
  The other operations on uploads: \<open>Begin\<close>, whose result is an upload without bytes, \<open>Stat\<close> and \<open>Resume\<close>, which
  report what is recorded, and \<open>Abort\<close>, after which an upload is never published.
\<close>

section \<open>A new record\<close>

lemma ascii_segment: "ascii (namespaceSegment ns)"
  unfolding ascii_def list_all_iff
proof
  fix c
  assume "c \<in> set (namespaceSegment ns)"
  then have "plain_char c \<or> c = CHR ''~''" by (rule namespaceSegment_chars)
  then show "byte_val c < 128" by (auto simp: plain_char_def is_lower_def is_upper_def is_digit_def)
qed

lemma newStageRecord_algorithm:
  "newStageRecord L rnd ns algo cfg e = Inr r \<Longrightarrow> (if algo = '''' then Canonical else algo) \<in> set algorithms"
  by (auto simp: newStageRecord_def stageHashRestore_def algorithms_def Let_def split: if_splits sum.splits)

lemma new_record_fits:
  assumes "digest_lib_ok L" "newStageRecord L (Inr b) ns algo (normalized cfg) e = Inr r" "length b = 16" "dated cfg e"
  shows "record_fits L ns (ID r) r []" "State r = StageActive" "ID r = hex_encode b"
proof -
  have t: "cfg_clock (normalized cfg) e 0 + TTL (normalized (normalized cfg)) \<noteq> 0"
    using dated_clock(2) [OF assms(4), of 0] normalized_simps(2) [of "normalized cfg"] by linarith
  obtain r' where r': "newStageRecord L (Inr b) ns algo (normalized cfg) e = Inr r'" "describes L r' []" "record_shape r' ns"
      "State r' = StageActive" "ID r' = hex_encode b"
    using newStageRecord_described [OF assms(1) newStageRecord_algorithm [OF assms(2)] assms(3) t, of ns] .
  then have r: "r' = r" using assms(2) by simp
  have alg: "ascii (Algorithm r)" using r'(2) r by (auto simp: describes_def algorithms_def algo_defs)
  have z: "Digest (Commit r) = ''''" "Digest (Result r) = ''''" "Size (Commit r) = 0" "Size (Result r) = 0"
    using assms(2) by (auto simp: newStageRecord_def zero_meta_def Let_def split: if_splits sum.splits)
  have "plain_record r"
    using r'(2-5) r alg z ascii_segment [of ns] hex_ascii is_hex_hex_encode
    by (auto simp: plain_record_def describes_def record_shape_def int64_def stage_states list_all_iff)
  then show "record_fits L ns (ID r) r []" "State r = StageActive" "ID r = hex_encode b"
    using r' r by (simp_all add: record_fits_def commit_shape_def stage_states)
qed

section \<open>Begin\<close>

text \<open>The first manifest of an upload whose files are there.\<close>

lemma recorded_first:
  assumes "digest_lib_ok L" "codec_ok C" "record_fits L ns sid r data" "file_at s (upload_dir sid @ [''lock'']) \<noteq> None"
    and "cd_Marshal C r = Inr b" "length b \<le> manifest_limit" "written L U sid b s True s'"
  obtains l l' where "recorded C L s' ns sid (relabelled r l l') data"
proof -
  have r: "plain_record r" "describes L r data" "record_shape r ns" "commit_shape L r data" "ID r = sid"
    using assms(3) by (simp_all add: record_fits_def)
  obtain l l' where l: "parse_record C L b = Inr (relabelled r l l')"
    using parse_written [OF assms(1,2) r(1-4) assms(5,6)] .
  have "file_at s' (upload_dir sid @ [''lock'']) = file_at s (upload_dir sid @ [''lock''])"
    by (rule keepsD(1) [OF safe_keeps [OF written_safe [OF assms(7)]]]) simp
  then have "recorded C L s' ns sid (relabelled r l l') data"
    using r assms(4,6,7) l by (auto simp: recorded_def relabelled_same written_def)
  then show thesis by (rule that)
qed

lemma own_file: "f \<noteq> ''publish'' \<Longrightarrow> file_place (upload_dir sid @ [f])" "\<not> kept_place (owning U [upload_dir sid]) (upload_dir sid @ r)"
  by (simp_all add: upload_place kept_place_def framed_owning)

lemma runs_new_files:
  assumes "os_ok L (owning U []) s" "is_dir s (upload_dir sid)" "\<forall>f. \<not> exists_at s (upload_dir sid @ [f])"
  shows "runs (new_files (upload_dir sid) [''lock'', ''blob'']) s (\<lambda>r s'. safe L (owning U [upload_dir sid]) s s' \<and> is_dir s' = is_dir s
    \<and> (case r of Inl err \<Rightarrow> \<not> quiet s
       | Inr _ \<Rightarrow> file_at s' (upload_dir sid @ [''lock'']) \<noteq> None \<and> holds_alone s' (blob_at sid) []))" (is "runs _ _ ?Q")
proof -
  let ?W = "owning U [upload_dir sid]"
  have ok: "os_ok L ?W s" using assms(1) by simp
  have create: "runs (os_CreateExcl (upload_dir sid @ [f])) s1 (\<lambda>r s2. safe L ?W s1 s2 \<and> is_dir s2 = is_dir s1 \<and> (case r of
      Inl err \<Rightarrow> \<not> quiet s1 | Inr i \<Rightarrow> sole s2 i (upload_dir sid @ [f]) \<and> fs_data s2 i = [] \<and> file_at s2 = (file_at s1)(upload_dir sid @ [f] \<mapsto> i)))"
    if "os_ok L ?W s1" "is_dir s1 (upload_dir sid)" "\<not> exists_at s1 (upload_dir sid @ [f])" "f \<noteq> ''publish''" for s1 f
    by (rule runs_CreateExcl) (use that own_file in auto)
  show ?thesis
    unfolding new_files.simps
  proof (rule runs_step [OF create [OF ok assms(2)]], goal_cases)
    case (4 i s1)
    then have s1: "safe L ?W s s1" "is_dir s1 = is_dir s" "file_at s1 = (file_at s)(upload_dir sid @ [''lock''] \<mapsto> i)" by auto
    show ?case
    proof (rule runs_looks [OF still_refl look_sync_close], goal_cases)
      case (1 err s2)
      then show ?case using s1 safeD(5) [OF s1(1)] by (auto elim!: stillE)
    next
      case (2 x s2)
      then have s2: "safe L ?W s s2" "is_dir s2 = is_dir s" "file_at s2 = (file_at s)(upload_dir sid @ [''lock''] \<mapsto> i)"
        using s1 by (auto elim!: stillE)
      show ?case
      proof (rule runs_step [OF create [OF safeD(1) [OF s2(1)]]], goal_cases)
        case (4 err s3)
        then show ?case using safe_trans [OF s2(1)] safeD(5) [OF s2(1)] s2(2) by auto
      next
        case (5 j s3)
        then have s3: "safe L ?W s s3" "is_dir s3 = is_dir s" "sole s3 j (blob_at sid)" "fs_data s3 j = []"
            "file_at s3 (upload_dir sid @ [''lock'']) \<noteq> None"
          using safe_trans [OF s2(1)] s2(2,3) by auto
        have "holds_alone s3 (blob_at sid) []" using s3(3,4) unfolding holds_alone_def by blast
        then show ?case
          by (intro runs_looks [OF still_refl look_sync_close])
            (use s3 safeD(5) [OF s3(1)] in \<open>auto simp: runs_ret elim!: stillE\<close>)
      qed (use s2 assms(2,3) in \<open>auto simp: exists_at_def\<close>)
    qed
  qed (use assms in auto)
qed

lemma runs_begin_upload:
  assumes L: "digest_lib_ok L" and C: "codec_ok C" and ok: "os_ok L (owning U []) s" and ub: "unblocked s"
    and rec: "record_fits L ns sid rec []" "State rec = StageActive"
    and d: "is_dir s (upload_dir sid)" "is_dir s [''uploads'']" "\<forall>f. \<not> exists_at s (upload_dir sid @ [f])"
  shows "runs (begin_upload C e rec) s (\<lambda>r s'. safe L (owning U [upload_dir sid]) s s' \<and> (case r of
     Inl err \<Rightarrow> \<not> (quiet s \<and> live e \<and> marshals C rec)
   | Inr x \<Rightarrow> x = sid \<and> (\<exists>a b. upload_at C L s' ns sid (relabelled rec a b) [])))" (is "runs _ _ ?Q")
proof -
  let ?W = "owning U [upload_dir sid]"
  have sid: "ID rec = sid" using rec by (simp add: record_fits_def)
  have wr: "runs (bind (osStageWriteRecord C e' (upload_dir sid) rec) (\<lambda>(_, err). case err of
           Some err \<Rightarrow> ret (Inl err)
         | None \<Rightarrow> chk (osStageSyncDir [''uploads'']) Inl (\<lambda>_. ret (Inr sid)))) s2 ?Q"
    if s2: "safe L ?W s s2" "is_dir s2 = is_dir s" "file_at s2 (upload_dir sid @ [''lock'']) \<noteq> None" "holds_alone s2 (blob_at sid) []"
      and e': "live e \<longrightarrow> live e'" for s2 e'
  proof -
    have ok2: "os_ok L (owning U []) s2" "is_dir s2 (upload_dir sid)" "quiet s2 = quiet s" using safeD(1,5) [OF s2(1)] s2(2) d by simp_all
    show ?thesis
    proof (rule runs_bindI [OF runs_WriteRecord [OF ok2(1,2)]], goal_cases)
      case (1 pe s3)
      obtain q err where pe: "pe = (q, err)" by (cases pe)
      obtain b where b: "q \<longrightarrow> cd_Marshal C rec = Inr b \<and> length b \<le> manifest_limit" "written L U sid b s2 q s3"
          "\<not> q \<longrightarrow> err \<noteq> None" "quiet s2 \<longrightarrow> live e' \<longrightarrow> marshals C rec \<longrightarrow> q \<and> err = None"
        using 1 unfolding pe by blast
      have cov: "covers [upload_dir sid] [next_at sid, manifest_at sid]" by simp
      have s3: "safe L ?W s s3" by (rule safe_trans [OF s2(1) safe_covers [OF cov written_safe [OF b(2)]]])
      show ?case
      proof (cases err)
        case (Some x)
        then show ?thesis using s3 b(4) ok2(3) e' by (auto simp: pe runs_ret)
      next
        case None
        then have w: "cd_Marshal C rec = Inr b" "length b \<le> manifest_limit" "written L U sid b s2 True s3" using b by auto
        obtain a a' where a: "recorded C L s3 ns sid (relabelled rec a a') []" using recorded_first [OF L C rec(1) s2(3) w] .
        have "holds_alone s3 (blob_at sid) []" by (rule keepsD(3) [OF safe_keeps [OF written_safe [OF b(2)]] _ s2(4)]) simp
        then have up: "upload_at C L s3 ns sid (relabelled rec a a') []"
          using a rec(2) by (auto simp: upload_at_def upload_file_def stage_states)
        note ud = recorded_dirs(2) [OF safeD(2) [OF s3] a]
        have "runs (chk (osStageSyncDir [''uploads'']) Inl (\<lambda>_. ret (Inr sid))) s3 ?Q"
        proof (rule runs_look [OF runs_SyncDir], goal_cases)
          case (2 y s4)
          then have "upload_at C L s4 ns sid (relabelled rec a a') []" "safe L ?W s s4" using s3 up by (auto elim!: stillE)
          then show ?case by (auto simp: runs_ret)
        qed (use s3 ud safeD(5) [OF s3] in \<open>auto elim!: stillE\<close>)
        then show ?thesis using None by (simp add: pe)
      qed
    qed
  qed
  have dir: "is_dir s1 (upload_dir sid)" "os_ok L (owning U []) s1" "safe L ?W s s1" "\<forall>f. \<not> exists_at s1 (upload_dir sid @ [f])"
      "unblocked s1" "is_dir s1 = is_dir s" if "still s s1" for s1
    using that d ok ub still_safe [OF that, of L ?W] by (auto elim!: stillE)
  show ?thesis
    unfolding begin_upload_def Let_def sid
  proof (rule runs_look [OF runs_OpenDir], goal_cases)
    case (1 err s1)
    then show ?case using d(1) dir(3) by auto
  next
    case (2 x s1)
    note s1 = dir [OF 2(1)]
    have q1: "quiet s1 = quiet s" by (rule safeD(5) [OF s1(3)])
    show ?case
    proof (rule runs_step [OF runs_new_files [OF s1(2,1,4)]], goal_cases)
      case (1 err s2)
      then show ?case using safe_trans [OF s1(3)] q1 by auto
    next
      case (2 y s2)
      then have s2: "safe L ?W s s2" "is_dir s2 = is_dir s" "file_at s2 (upload_dir sid @ [''lock'']) \<noteq> None" "holds_alone s2 (blob_at sid) []"
        using safe_trans [OF s1(3)] s1(6) by auto
      have ub2: "unblocked s2" using s2(1) ub by (simp add: safe_def unblocked_def)
      show ?case
      proof (rule runs_look [OF runs_Lock [OF ub2]], goal_cases)
        case (1 err s3)
        then show ?case using s2(1) safeD(5) [OF s2(1)] by (auto elim!: stillE)
      next
        case (2 k s3)
        then show ?case using s2 by (intro wr) (auto elim!: stillE)
      qed
    qed
  qed
qed

lemma runs_Mkdir_exists: "exists_at s p \<Longrightarrow> runs (os_Mkdir p) s (\<lambda>r s'. still s s' \<and> isl r)"
  unfolding os_Mkdir_def by (rule runs_sys) auto

definition begun ::
  "manifest_codec \<Rightarrow> 'h digest_lib \<Rightarrow> bytes set \<Rightarrow> osfs \<Rightarrow> string \<Rightarrow> string \<Rightarrow> error + string \<Rightarrow> osfs \<Rightarrow> bool" where
  "begun C L U s ns sid r s' \<longleftrightarrow>
     safe L (owning U (if exists_at s (upload_dir sid) then [] else [upload_dir sid])) s s'
     \<and> (case r of
          Inl err \<Rightarrow> True
        | Inr x \<Rightarrow> x = sid \<and> \<not> exists_at s (upload_dir sid) \<and> (\<exists>rec. upload_at C L s' ns sid rec [] \<and> State rec = StageActive))"

text \<open>The directory \<open>uploads\<close> of the root. Nothing but the directories on the way to it is made.\<close>

definition dirs_within :: "path \<Rightarrow> osfs \<Rightarrow> osfs \<Rightarrow> bool" where
  "dirs_within p s s' \<longleftrightarrow> (\<forall>q. is_dir s' q \<longrightarrow> is_dir s q \<or> prefix q p)"

lemma dirs_within_still: "still s s' \<Longrightarrow> dirs_within p s s'"
  by (auto simp: dirs_within_def elim!: stillE)

lemma dirs_within_trans: "dirs_within p s s1 \<Longrightarrow> dirs_within p s1 s' \<Longrightarrow> dirs_within p s s'"
  unfolding dirs_within_def by blast

lemma runs_conj: "runs m s P \<Longrightarrow> runs m s Q \<Longrightarrow> runs m s (\<lambda>r s'. P r s' \<and> Q r s')"
  by (auto simp: runs_def)

lemma within_Stat: "runs (os_Stat p) s (\<lambda>_. dirs_within w s)" "runs (osStageSyncDir p) s (\<lambda>_. dirs_within w s)"
  "runs (os_OpenDir p) s (\<lambda>_. dirs_within w s)" "prefix p w \<Longrightarrow> runs (os_Mkdir p) s (\<lambda>_. dirs_within w s)"
  by (rule runs_mono [OF runs_Stat], simp add: dirs_within_still, rule runs_mono [OF runs_SyncDir], simp add: dirs_within_still,
      rule runs_mono [OF runs_OpenDir], simp add: dirs_within_still, unfold os_Mkdir_def, rule runs_sys)
    (auto simp: dirs_within_def fs_simps)

lemma within_uploads_dir: "runs (osStageMkdir [''uploads'']) s (\<lambda>_. dirs_within [''uploads''] s)" (is "runs _ _ ?Q")
proof -
  let ?made = "chk (os_Stat [''uploads'']) Inl (\<lambda>info. case info of
      FileNode _ \<Rightarrow> ret (Inl ErrStageFormat)
    | DirNode _ \<Rightarrow> chk (osStageSyncDir []) Inl (\<lambda>_. ret (Inr ())))"
  have made: "runs ?made s1 ?Q" if s1: "dirs_within [''uploads''] s s1" for s1
  proof (rule runs_step [OF within_Stat(1) [of _ _ "[''uploads'']"]], goal_cases)
    case (2 info s2)
    then have s2: "dirs_within [''uploads''] s s2" by (rule dirs_within_trans [OF s1])
    have "runs (chk (osStageSyncDir []) Inl (\<lambda>_. ret (Inr ()))) s2 ?Q"
      by (rule runs_step [OF within_Stat(2) [of _ _ "[''uploads'']"]]) (simp_all add: runs_ret dirs_within_trans [OF s2])
    then show ?case using s2 by (cases info) (simp_all add: runs_ret)
  qed (rule dirs_within_trans [OF s1])
  have "runs (bind (os_Stat [''uploads'']) (\<lambda>info. case info of
       Inr (DirNode _) \<Rightarrow> ret (Inr ())
     | Inr (FileNode _) \<Rightarrow> ret (Inl ErrStageFormat)
     | Inl err \<Rightarrow>
         if \<not> errors_Is err FsErrNotExist then ret (Inl err)
         else bind (os_Mkdir [''uploads'']) (\<lambda>r. case r of
                Inl err \<Rightarrow> if \<not> errors_Is err FsErrExist then ret (Inl err) else ?made
              | Inr _ \<Rightarrow> ?made))) s ?Q"
  proof (rule runs_bindI [OF within_Stat(1) [of _ _ "[''uploads'']"]], goal_cases)
    case (1 info s1)
    note s1 = this
    have mk: "runs (bind (os_Mkdir [''uploads'']) (\<lambda>r. case r of
        Inl err \<Rightarrow> if \<not> errors_Is err FsErrExist then ret (Inl err) else ?made
      | Inr _ \<Rightarrow> ?made)) s1 ?Q"
    proof (rule runs_bindI [OF within_Stat(4) [of _ "[''uploads'']"]], goal_cases)
      case (2 r s2)
      then have "dirs_within [''uploads''] s s2" by (rule dirs_within_trans [OF s1])
      then show ?case using made [of s2] by (auto simp: runs_ret split: sum.splits)
    qed simp
    show ?case using mk s1 by (auto simp: runs_ret split: sum.splits node.splits)
  qed
  then show ?thesis by (simp add: osStageMkdir_def Let_def)
qed

lemma runs_uploads_dir:
  assumes ok: "os_ok L (owning U []) s"
  shows "runs (chk (os_MkdirAll []) Inl (\<lambda>_. chk (os_OpenDir []) Inl (\<lambda>_. osStageMkdir [''uploads'']))) s
    (\<lambda>r s'. safe L (owning U []) s s' \<and> (case r of Inl err \<Rightarrow> \<not> quiet s
       | Inr _ \<Rightarrow> grown s s' \<and> dirs_within [''uploads''] s s' \<and> is_dir s' [''uploads'']))" (is "runs _ _ ?Q")
proof -
  let ?U = "owning U []"
  have nf: "file_at s1 q = None" if "os_ok L ?U s1" "prefix q [''uploads'']" for s1 q
    using layoutD(1) [OF os_okD(2) [OF that(1)], of q] that(2)
    by (cases "file_at s1 q") (auto simp: file_place_def prefix_Cons split: if_splits)
  have all: "runs (os_MkdirAll []) s (\<lambda>r s'. case r of Inl err \<Rightarrow> bad L ?U s s' | Inr _ \<Rightarrow> safe L ?U s s' \<and> grown s s' \<and> is_dir s' [])"
    by (rule runs_returns [OF returns_MkdirAll [where P = "\<lambda>x. x = s"] refl])
      (use ok nf in \<open>auto simp: safe_refl dir_place_def\<close>)
  have new: "runs (os_MkdirAll []) s (\<lambda>_. dirs_within [''uploads''] s)"
    unfolding os_MkdirAll_def
    by (rule runs_sys) (auto simp: dirs_within_def fs_simps set_steps dest!: in_set_takeD)
  show ?thesis
  proof (rule runs_step [OF runs_conj [OF all new]], goal_cases)
    case (1 err s1)
    then show ?case by (simp add: bad_def)
  next
    case (2 x s1)
    then have s1: "safe L ?U s s1" "grown s s1" "is_dir s1 []" "dirs_within [''uploads''] s s1" by auto
    show ?case
    proof (rule runs_look [OF runs_OpenDir], goal_cases)
      case (1 err s2)
      then show ?case using s1 safeD(5) [OF s1(1)] by (auto elim!: stillE)
    next
      case (2 y s2)
      then have s2: "safe L ?U s s2" "grown s s2" "is_dir s2 []" "dirs_within [''uploads''] s s2"
        using s1 grown_trans [OF s1(2) still_grown] dirs_within_trans [OF s1(4) dirs_within_still] by (auto elim!: stillE)
      have "\<forall>q. prefix q ([] @ [''uploads'']) \<longrightarrow> file_at s2 q = None" using nf [OF safeD(1) [OF s2(1)]] by simp
      then have "runs (osStageMkdir [''uploads'']) s2 (\<lambda>r s'. safe L ?U s2 s' \<and> grown s2 s' \<and> (case r of
          Inl err \<Rightarrow> \<not> quiet s2 | Inr _ \<Rightarrow> is_dir s' [''uploads'']))"
        unfolding osStageMkdir_def
        by (intro runs_mono [OF runs_mkdir_components [OF safeD(1) [OF s2(1)] s2(3)]]) (auto simp: dir_place_def split: sum.splits)
      from runs_conj [OF this within_uploads_dir] show ?case
        by (rule runs_mono)
          (use safe_trans [OF s2(1)] grown_trans [OF s2(2)] dirs_within_trans [OF s2(4)] safeD(5) [OF s2(1)] in \<open>auto split: sum.splits\<close>)
    qed
  qed
qed

text \<open>What a \<open>Begin\<close> without failures needs: a name that is free, a known algorithm, a record that fits.\<close>

definition can_begin ::
  "manifest_codec \<Rightarrow> 'h digest_lib \<Rightarrow> osfs \<Rightarrow> StageConfig \<Rightarrow> string \<Rightarrow> bytes \<Rightarrow> env \<Rightarrow> string \<Rightarrow> bool" where
  "can_begin C L s cfg ns b e algo \<longleftrightarrow>
     quiet s \<and> live e \<and> \<not> exists_at s (upload_dir (hex_encode b)) \<and> (if algo = '''' then Canonical else algo) \<in> set algorithms
     \<and> (\<forall>rec. newStageRecord L (Inr b) ns algo (normalized cfg) e = Inr rec \<longrightarrow> marshals C rec)"

lemma new_record_exists:
  assumes "digest_lib_ok L" "dated cfg e" "length b = 16" "(if algo = '''' then Canonical else algo) \<in> set algorithms"
  shows "\<exists>rec. newStageRecord L (Inr b) ns algo (normalized cfg) e = Inr rec"
proof -
  have t: "cfg_clock (normalized cfg) e 0 + TTL (normalized (normalized cfg)) \<noteq> 0"
    using dated_clock(2) [OF assms(2), of 0] normalized_simps(2) [of "normalized cfg"] by linarith
  show ?thesis using newStageRecord_described [OF assms(1,4,3) t, of ns] by blast
qed

lemma runs_made_upload:
  assumes L: "digest_lib_ok L" and C: "codec_ok C" and ok: "os_ok L (owning U []) s" and ub: "unblocked s"
    and rec: "record_fits L ns sid rec []" "State rec = StageActive" and u: "is_dir s [''uploads'']" "\<not> exists_at s (upload_dir sid)"
  shows "runs (chk (os_Mkdir (upload_dir sid)) Inl (\<lambda>_. deferred (begin_upload C e rec)
        (\<lambda>r. case r of Inl _ \<Rightarrow> drop_tree (upload_dir sid) | Inr _ \<Rightarrow> ret ()))) s
    (\<lambda>r s'. safe L (owning U [upload_dir sid]) s s' \<and> (case r of
       Inl err \<Rightarrow> \<not> (quiet s \<and> live e \<and> marshals C rec)
     | Inr x \<Rightarrow> x = sid \<and> (\<exists>r. upload_at C L s' ns sid r [] \<and> State r = StageActive)))" (is "runs _ _ ?Q")
proof -
  let ?W = "owning U [upload_dir sid]" and ?d = "upload_dir sid"
  have dp: "dir_place ?d" and bl: "butlast ?d = [''uploads'']" by (simp_all add: upload_dir_def dir_place_def)
  have okW: "os_ok L ?W s" using ok by simp
  have none: "\<not> exists_at s (?d @ [f])" for f
  proof
    assume "exists_at s (?d @ [f])"
    from parent_exists [OF os_okD(1) [OF ok] this, of ?d] u(2) show False by (simp add: exists_at_def strict_prefix_def)
  qed
  show ?thesis
  proof (rule runs_step [OF runs_Mkdir [OF okW _ dp u(2)]], goal_cases)
    case (3 x s1)
    then have s1: "safe L ?W s s1" "grown s s1" "is_dir s1 ?d" "\<forall>q. is_dir s1 q \<longrightarrow> q = ?d \<or> is_dir s q" by auto
    have s1': "os_ok L (owning U []) s1" "unblocked s1" "is_dir s1 [''uploads'']" "\<forall>f. \<not> exists_at s1 (?d @ [f])"
      using safeD(1) [OF s1(1)] s1 ub u(1) none by (auto simp: safe_def unblocked_def grown_def exists_at_def)
    show ?case
      unfolding runs_deferred
    proof (rule runs_mono [OF runs_begin_upload [OF L C s1'(1,2) rec s1(3) s1'(3,4)]], goal_cases)
      case (1 r s2)
      then have s2: "safe L ?W s s2" using safe_trans [OF s1(1)] by blast
      show ?case
      proof (cases r)
        case (Inl err)
        have nk: "\<not> kept_place ?W ?d" by (simp add: own_not_kept)
        have "runs (drop_tree ?d) s2 (\<lambda>_. ?Q (Inl err))"
          by (rule runs_mono [OF runs_drop_tree [OF safeD(1) [OF s2] nk]])
            (use 1 Inl safe_trans [OF s2] safeD(5) [OF s1(1)] in auto)
        then show ?thesis using Inl by simp
      next
        case (Inr x)
        then obtain a b where "upload_at C L s2 ns sid (relabelled rec a b) []" "x = sid" using 1 by auto
        then show ?thesis using Inr s2 rec(2) by (auto simp: runs_ret intro!: exI [of _ "relabelled rec a b"])
      qed
    qed
  qed (use u bl in auto)
qed

lemma runs_Begin:
  assumes L: "digest_lib_ok L" and C: "codec_ok C" and ok: "os_ok L (owning U []) s" and ub: "unblocked s"
    and e: "dated (oss_stage st) e" and b: "length b = 16"
  shows "runs (OsStore_Begin C L (Inr b) (OsStores_Use st ns) e algo) s (\<lambda>r s'. begun C L U s ns (hex_encode b) r s'
    \<and> (can_begin C L s (oss_stage st) ns b e algo \<longrightarrow> \<not> isl r))" (is "runs _ _ ?Q")
proof -
  let ?U = "owning U []" and ?d = "upload_dir (hex_encode b)" and ?nr = "newStageRecord L (Inr b) ns algo (normalized (oss_stage st)) e"
  have no: "?Q (Inl err) s1" if "safe L ?U s s1" "\<not> can_begin C L s (oss_stage st) ns b e algo" for err s1
    using that safe_covers [OF _ that(1), of "[?d]"] by (simp add: begun_def)
  have us: "os_stage (OsStores_Use st ns) = oss_stage st" "os_namespace (OsStores_Use st ns) = ns" by (simp_all add: OsStores_Use_def)
  consider (ctx) err where "ctx_Err e 0 = Some err" | (rec) err where "?nr = Inl err" "ctx_Err e 0 = None"
    | (go) rec where "?nr = Inr rec" "ctx_Err e 0 = None"
    by (cases "ctx_Err e 0"; cases ?nr) auto
  then show ?thesis
  proof cases
    case ctx
    then have "\<not> can_begin C L s (oss_stage st) ns b e algo" by (auto simp: can_begin_def live_def)
    then show ?thesis using ctx no [OF safe_refl [OF ok]] by (simp add: OsStore_Begin_def Let_def runs_ret)
  next
    case rec
    then have "\<not> can_begin C L s (oss_stage st) ns b e algo"
      using new_record_exists [OF L e b, of algo ns] unfolding can_begin_def by fastforce
    then show ?thesis using rec no [OF safe_refl [OF ok]] by (simp add: OsStore_Begin_def us Let_def runs_ret)
  next
    case go
    note fit = new_record_fits [OF L go(1) b e]
    have "runs (chk (chk (os_MkdirAll []) Inl (\<lambda>_. chk (os_OpenDir []) Inl (\<lambda>_. osStageMkdir [''uploads'']))) Inl (\<lambda>_.
        chk (os_Mkdir ?d) Inl (\<lambda>_. deferred (begin_upload C (env_after 1 e) rec)
          (\<lambda>r. case r of Inl _ \<Rightarrow> drop_tree ?d | Inr _ \<Rightarrow> ret ())))) s ?Q"
    proof (rule runs_step [OF runs_uploads_dir [OF ok]], goal_cases)
      case (1 err s1)
      then show ?case by (intro no) (auto simp: can_begin_def)
    next
      case (2 x s1)
      then have s1: "safe L ?U s s1" "grown s s1" "dirs_within [''uploads''] s s1" "is_dir s1 [''uploads'']" by auto
      have ok1: "os_ok L ?U s1" "unblocked s1" using safeD(1) [OF s1(1)] s1(1) ub by (simp_all add: safe_def unblocked_def)
      have same: "exists_at s1 ?d \<longleftrightarrow> exists_at s ?d"
        using s1(2,3) by (auto simp: grown_def dirs_within_def exists_at_def upload_dir_def prefix_Cons)
      show ?case
      proof (cases "exists_at s ?d")
        case True
        then have ex: "exists_at s1 ?d" using same by simp
        show ?thesis
          by (rule runs_step [OF runs_Mkdir_exists [OF ex]])
            (use safe_still [OF s1(1)] True in \<open>auto simp: begun_def can_begin_def\<close>)
      next
        case False
        then have ex: "\<not> exists_at s1 ?d" using same by simp
        show ?thesis
        proof (rule runs_mono [OF runs_made_upload [OF L C ok1 fit(1,2) [unfolded fit(3)] s1(4) ex]], goal_cases)
          case (1 r s2)
          then have "safe L (owning U [?d]) s s2" using safe_trans [OF safe_covers [OF _ s1(1), of "[?d]"]] by auto
          then show ?case
            using 1 False go(1) safeD(5) [OF s1(1)] by (auto simp: begun_def can_begin_def split: sum.splits)
        qed
      qed
    qed
    then show ?thesis
      unfolding OsStore_Begin_def Let_def us go sum.case option.case fit(3) chk_assoc .
  qed
qed

section \<open>Stat and Resume\<close>

lemma runs_stage_open:
  assumes "os_ok L (owning U []) s" "recorded C L s ns sid rec data" "unblocked s"
  shows "runs (osStage_lock C L (OsStores_Use st ns) e sid once) s
      (\<lambda>r s'. still s s' \<and> (case r of Inl err \<Rightarrow> \<not> (quiet s \<and> live e) | Inr l \<Rightarrow> opened sid rec (oss_stage st) e l))"
  unfolding osStage_lock_def by (rule runs_mono [OF runs_openOsStage [OF assms]]) (auto simp: OsStores_Use_def split: sum.splits)

lemma runs_looked_at:
  assumes ok: "os_ok L (owning U []) s" and up: "upload_at C L s ns sid rec data" and ub: "unblocked s"
    and f: "\<And>l. opened sid rec (oss_stage st) e l \<Longrightarrow> f l = x"
  shows "runs (chk (osStage_lock C L (OsStores_Use st ns) e sid False) Inl (\<lambda>l.
      case checkExpiry l of Some err \<Rightarrow> ret (Inl err) | None \<Rightarrow> chk (recoverTail l) Inl (\<lambda>_. ret (Inr (f l))))) s
    (\<lambda>r s'. safe L (owning U [upload_dir sid]) s s' \<and> upload_at C L s' ns sid rec data
      \<and> (case r of Inl err \<Rightarrow> \<not> (quiet s \<and> live e \<and> unexpired (oss_stage st) e rec) | Inr y \<Rightarrow> y = x))" (is "runs _ _ ?Q")
proof -
  let ?W = "owning U [upload_dir sid]"
  have rec: "recorded C L s ns sid rec data" using up by (simp add: upload_at_def)
  show ?thesis
  proof (rule runs_look [OF runs_stage_open [OF ok rec ub]], goal_cases)
    case (1 err s1)
    then show ?case using up ok still_safe [OF 1(1), of L ?W] by (auto elim!: stillE)
  next
    case (2 l s1)
    then have l: "ol_id l = sid" "ol_record l = rec" "ol_config l = normalized (oss_stage st)" by (simp_all add: opened_def)
    obtain k where k: "ol_ctx l = env_after k e" using 2 by (auto simp: opened_def)
    have s1: "safe L ?W s s1" "upload_at C L s1 ns sid rec data" "os_ok L (owning U []) s1"
      using 2(1) up ok still_safe [OF 2(1), of L ?W] by (auto elim!: stillE)
    show ?case
    proof (cases "checkExpiry l")
      case (Some err)
      then have "\<not> unexpired (oss_stage st) e rec" by (auto simp: checkExpiry_def l k unexpired_def split: if_splits)
      then show ?thesis using Some s1 by (simp add: runs_ret)
    next
      case None
      have "runs (chk (recoverTail l) Inl (\<lambda>_. ret (Inr (f l)))) s1 ?Q"
        by (rule runs_step [OF runs_recoverTail [OF s1(3,2) l(1,2)]])
          (use safe_trans [OF s1(1) safe_covers [OF covers_upload(1)]] safeD(5) [OF s1(1)] k f [OF 2(2)] in \<open>auto simp: runs_ret\<close>)
      then show ?thesis using None by simp
    qed
  qed
qed

lemma runs_Stat_upload:
  assumes "os_ok L (owning U []) s" "upload_at C L s ns sid rec data" "unblocked s"
  shows "runs (osStage_Stat C L (OsStores_Use st ns) e sid) s
    (\<lambda>r s'. safe L (owning U [upload_dir sid]) s s' \<and> upload_at C L s' ns sid rec data
      \<and> (case r of Inl err \<Rightarrow> \<not> (quiet s \<and> live e \<and> unexpired (oss_stage st) e rec) | Inr i \<Rightarrow> i = stage_info rec))"
  unfolding osStage_Stat_def by (rule runs_looked_at [OF assms]) (simp add: opened_def)

lemma runs_Resume:
  assumes "os_ok L (owning U []) s" "upload_at C L s ns sid rec data" "unblocked s"
  shows "runs (OsStore_Resume C L (OsStores_Use st ns) e sid) s
    (\<lambda>r s'. safe L (owning U [upload_dir sid]) s s' \<and> upload_at C L s' ns sid rec data
      \<and> (case r of Inl err \<Rightarrow> \<not> (quiet s \<and> live e \<and> unexpired (oss_stage st) e rec) | Inr x \<Rightarrow> x = sid))"
  unfolding OsStore_Resume_def by (rule runs_looked_at [OF assms]) simp

section \<open>Abort\<close>

lemma aborted_fits:
  assumes "record_fits L ns sid rec data" "x \<noteq> 0"
  shows "record_fits L ns sid (rec\<lparr>State := StageAborted, ExpiresAt := x\<rparr>) data"
  using assms by (auto simp: record_fits_def plain_record_def describes_def record_shape_def commit_shape_def stage_states)

text \<open>A closed upload keeps its manifest when its file goes.\<close>

lemma closed_keeps:
  assumes "upload_at C L s ns sid rec data" "State rec \<in> {StageCommitted, StageAborted}" "keeps (owning U [blob_at sid]) s s'"
  shows "upload_at C L s' ns sid rec data"
proof -
  have "recorded C L s' ns sid rec data"
    by (rule recorded_keeps [OF _ assms(3)]) (use assms(1) in \<open>simp_all add: upload_at_def\<close>)
  then show ?thesis using assms(2) by (auto simp: upload_at_def upload_file_def stage_states)
qed

lemma runs_stage_clean:
  assumes ok: "os_ok L (owning U []) s" and up: "upload_at C L s ns sid rec data" "State rec \<in> {StageCommitted, StageAborted}"
  shows "runs (chk (remove_if_there (blob_at sid)) Some (\<lambda>_. chk (osStageSyncDir (upload_dir sid)) Some (\<lambda>_. ret None))) s
    (\<lambda>r s'. safe L (owning U [upload_dir sid]) s s' \<and> upload_at C L s' ns sid rec data \<and> (r \<noteq> None \<longrightarrow> \<not> quiet s))" (is "runs _ _ ?Q")
proof (rule runs_step [OF runs_remove_if_there [where W = "owning U [blob_at sid]" and L = L]], goal_cases)
  case 1
  then show ?case using ok by simp
next
  case 2
  then show ?case by (simp add: own_not_kept)
next
  case 3
  then show ?case using not_upload_dir [OF os_okD(2) [OF ok]] by auto
next
  case (4 err s1)
  then show ?case using safe_covers [OF covers_upload(1)] closed_keeps [OF up safe_keeps] by auto
next
  case (5 x s1)
  then have s1: "safe L (owning U [blob_at sid]) s s1" "is_dir s1 = is_dir s" by auto
  have rec: "recorded C L s ns sid rec data" using up by (simp add: upload_at_def)
  note up1 = closed_keeps [OF up safe_keeps [OF s1(1)]]
  have d: "is_dir s1 (upload_dir sid)" using s1(2) recorded_dirs(1) [OF os_okD(1) [OF ok] rec] by simp
  show ?case
    by (rule runs_look [OF runs_SyncDir])
      (use up1 d safe_covers [OF covers_upload(1) s1(1)] safeD(5) [OF s1(1)] in \<open>auto simp: runs_ret elim!: stillE\<close>)
qed

text \<open>All that can have happened in an \<open>Abort\<close>: only a commit that was under way is completed.\<close>

definition abort_outcome ::
  "manifest_codec \<Rightarrow> 'h digest_lib \<Rightarrow> bytes set \<Rightarrow> osfs \<Rightarrow> string \<Rightarrow> string \<Rightarrow> stageRecord \<Rightarrow> bytes \<Rightarrow> env
   \<Rightarrow> error option \<Rightarrow> osfs \<Rightarrow> bool" where
  "abort_outcome C L U s ns sid rec data e r s' \<longleftrightarrow>
     (if State rec = StageCommitting
      then commit_moved L (owning U [upload_dir sid]) s ns (data_digest L (Algorithm rec) data) (writeLabels (Labels (Commit rec))) s'
      else safe L (owning U [upload_dir sid]) s s')
     \<and> (\<exists>rec'. upload_at C L s' ns sid rec' data
          \<and> (rec' = rec \<or> State rec = StageActive \<and> State rec' = StageAborted \<or> State rec = StageCommitting \<and> State rec' = StageCommitted)
          \<and> (r = None \<longrightarrow> quiet s \<and> live e \<longrightarrow> State rec' \<in> {StageAborted, StageCommitted}))"

lemma abort_same:
  assumes "safe L (owning U [upload_dir sid]) s s'" "upload_at C L s' ns sid rec data"
    and "r = None \<longrightarrow> quiet s \<and> live e \<longrightarrow> State rec \<in> {StageAborted, StageCommitted}"
  shows "abort_outcome C L U s ns sid rec data e r s'"
  using assms by (auto simp: abort_outcome_def commit_moved_def)

lemma runs_abort_active:
  assumes L: "digest_lib_ok L" and C: "codec_ok C" and ok: "os_ok L (owning U []) s"
    and up: "upload_at C L s ns sid rec data" "State rec = StageActive" and x: "x \<noteq> 0"
  shows "runs (bind (osStageWriteRecord C e (upload_dir sid) (rec\<lparr>State := StageAborted, ExpiresAt := x\<rparr>)) (\<lambda>(_, err). case err of
      Some err \<Rightarrow> ret (Some err)
    | None \<Rightarrow> chk (remove_if_there (blob_at sid)) Some (\<lambda>_. chk (osStageSyncDir (upload_dir sid)) Some (\<lambda>_. ret None)))) s
    (\<lambda>r s'. abort_outcome C L U s ns sid rec data e r s')" (is "runs _ _ ?Q")
proof -
  let ?W = "owning U [upload_dir sid]" and ?r = "rec\<lparr>State := StageAborted, ExpiresAt := x\<rparr>"
  have rec: "recorded C L s ns sid rec data" using up by (simp add: upload_at_def)
  note dir = recorded_dirs(1) [OF os_okD(1) [OF ok] rec]
  have fits: "record_fits L ns sid ?r data" by (rule aborted_fits [OF recorded_fits [OF rec] x])
  show ?thesis
  proof (rule runs_bindI [OF runs_WriteRecord [OF ok dir]], goal_cases)
    case (1 pe s1)
    obtain q err where pe: "pe = (q, err)" by (cases pe)
    obtain b where b: "q \<longrightarrow> cd_Marshal C ?r = Inr b \<and> length b \<le> manifest_limit" "written L U sid b s q s1" "\<not> q \<longrightarrow> err \<noteq> None"
      using 1 unfolding pe by blast
    have cov: "covers [upload_dir sid] [next_at sid, manifest_at sid]" by simp
    have s1: "safe L ?W s s1" by (rule safe_covers [OF cov written_safe [OF b(2)]])
    have at: "\<exists>r'. upload_at C L s1 ns sid r' data \<and> (if q then State r' = StageAborted else r' = rec)"
    proof (cases q)
      case True
      then have w: "cd_Marshal C ?r = Inr b" "length b \<le> manifest_limit" "written L U sid b s True s1" using b by simp_all
      have lk: "file_at s (upload_dir sid @ [''lock'']) \<noteq> None" using rec by (simp add: recorded_def)
      obtain a a' where a: "recorded C L s1 ns sid (relabelled ?r a a') data" using recorded_first [OF L C fits lk w] .
      then have "upload_at C L s1 ns sid (relabelled ?r a a') data" by (simp add: upload_at_def upload_file_def stage_states)
      then show ?thesis using True by (intro exI [of _ "relabelled ?r a a'"]) simp
    next
      case False
      then have "keeps (owning U [next_at sid]) s s1" using b(2) by (simp add: written_def safe_keeps)
      from upload_at_keeps [OF up(1) this] show ?thesis using False by simp
    qed
    show ?case
    proof (cases err)
      case (Some y)
      then show ?thesis using s1 at up(2) by (auto simp: pe runs_ret abort_outcome_def stage_states split: if_splits)
    next
      case None
      then obtain r' where r': "upload_at C L s1 ns sid r' data" "State r' = StageAborted" using at b(3) by auto
      then have cl: "State r' \<in> {StageCommitted, StageAborted}" by simp
      have "os_ok L (owning U []) s1" using safeD(1) [OF s1] by simp
      from runs_stage_clean [OF this r'(1) cl] show ?thesis
        unfolding pe None prod.case option.case
        by (rule runs_mono) (use safe_trans [OF s1] r'(2) up(2) in \<open>auto simp: abort_outcome_def stage_states\<close>)
    qed
  qed
qed

lemma runs_Abort:
  assumes L: "digest_lib_ok L" and C: "codec_ok C" and ok: "os_ok L (owning U []) s"
    and up: "upload_at C L s ns sid rec data" and ub: "unblocked s" and e: "dated (oss_stage st) e" and U: "data \<in> U"
  shows "runs (osStage_Abort C L (OsStores_Use st ns) e sid) s (abort_outcome C L U s ns sid rec data e)" (is "runs _ _ ?Q")
proof -
  let ?W = "owning U [upload_dir sid]"
  have rec: "recorded C L s ns sid rec data" using up by (simp add: upload_at_def)
  note fits = recorded_fits [OF rec] and r = recordedD [OF rec]
  show ?thesis
    unfolding osStage_Abort_def
  proof (rule runs_bindI [OF runs_stage_open [OF ok rec ub]], goal_cases)
    case (1 x s1)
    then have st: "still s s1" by simp
    have s1: "safe L ?W s s1" "upload_at C L s1 ns sid rec data" "os_ok L (owning U []) s1" "unblocked s1" "quiet s1 = quiet s"
      using st up ok ub still_safe [OF st, of L ?W] by (auto elim!: stillE)
    show ?case
    proof (cases x)
      case (Inl err)
      then have "\<not> (quiet s \<and> live e)" using 1 by simp
      then show ?thesis using Inl abort_same [OF s1(1,2)] by (auto simp: runs_ret)
    next
      case (Inr l)
      then have l: "ol_id l = sid" "ol_record l = rec" "ol_config l = normalized (oss_stage st)" using 1 by (simp_all add: opened_def)
      obtain k where k: "ol_ctx l = env_after k e" using 1 Inr by (auto simp: opened_def)
      have d: "dated (oss_stage st) (ol_ctx l)" unfolding k by (rule dated_after [OF e])
      have from1: "?Q y s2" if "abort_outcome C L U s1 ns sid rec data (ol_ctx l) y s2" for y s2
        using that safe_trans [OF s1(1)] commit_moved_safe(1) [OF s1(1)] s1(5) live_env_after [of e k] unfolding k
        by (auto simp: abort_outcome_def split: if_splits)
      consider (committing) "State rec = StageCommitting" | (active) "State rec = StageActive" | (closed) "State rec \<in> {StageCommitted, StageAborted}"
        using r(6) by (auto simp: record_shape_def)
      then show ?thesis
      proof cases
        case committing
        have rdy: "commit_ready L U ns l rec rec data (oss_stage st)"
          using committing l fits U r(1) by (simp add: commit_ready_def)
        have "Digest (Commit rec) = data_digest L (Algorithm rec) data" using committing r(7) by (simp add: commit_shape_def)
        moreover have "runs (recoverCommit C L (OsStores_Use st ns) l (ol_ctx l)) s1 (committed C L U s1 ns rec rec data (normalized (oss_stage st)) (ol_ctx l))"
          by (rule runs_recoverCommit [OF L C s1(3,4) _ rdy d]) (use s1(2) r(1) in simp)
        ultimately have "runs (chk (recoverCommit C L (OsStores_Use st ns) l (ol_ctx l)) Some (\<lambda>_. ret None)) s1 ?Q"
          unfolding runs_chk_iff
        proof (elim runs_mono, goal_cases)
          case (1 y s2)
          then have "abort_outcome C L U s1 ns sid rec data (ol_ctx l) (case y of Inl err \<Rightarrow> Some err | Inr _ \<Rightarrow> None) s2"
            using committing r(1) by (auto simp: committed_def receipt_at_def abort_outcome_def Let_def split: sum.splits)
          from from1 [OF this] show ?case by (auto simp: runs_ret split: sum.splits)
        qed
        then show ?thesis using Inr l(2) committing by (simp add: Let_def)
      next
        case active
        have nz: "cfg_clock (ol_config l) (ol_ctx l) 0 + Retention (ol_config l) \<noteq> 0" unfolding l(3) by (rule dated_expiry(2) [OF d])
        have ne: "StageActive \<noteq> StageCommitting" "StageActive \<noteq> StageCommitted" "StageActive \<noteq> StageAborted" by (simp_all add: stage_states)
        show ?thesis
          unfolding Inr sum.case Let_def l(2)
          by (simp only: active ne if_False simp_thms)
            (rule runs_mono [OF runs_abort_active [OF L C s1(3,2) active nz, of "ol_ctx l"]], rule from1)
      next
        case closed
        from runs_stage_clean [OF s1(3,2) closed] have "runs (chk (remove_if_there (blob_at sid)) Some
            (\<lambda>_. chk (osStageSyncDir (upload_dir sid)) Some (\<lambda>_. ret None))) s1 ?Q"
          by (rule runs_mono) (use closed safe_trans [OF s1(1)] in \<open>auto intro!: abort_same\<close>)
        then show ?thesis using Inr l(2) closed by (auto simp: Let_def stage_states)
      qed
    qed
  qed
qed

end
