(* ===== verification/OsSweep.thy ===== *)
theory OsSweep
  imports OsWalk OsBegin
begin

text \<open>
  What walks over a directory store do. The locale \<open>tree_walk\<close> is the contract between a walk and its callback:
  \<open>J V\<close> holds when of the files the walk looks for, \<open>T\<close>, exactly those in \<open>V\<close> have been dealt with, and \<open>F\<close> when the
  callback has stopped the walk.
\<close>

section \<open>Listings\<close>

definition below :: "path \<Rightarrow> path set" where
  "below p = {q. prefix p q}"

lemma below_disjoint: "c \<noteq> c' \<Longrightarrow> below (p @ [c]) \<inter> below (p @ [c']) = {}"
  by (auto simp: below_def prefix_def)

lemma strict_prefix_step: "strict_prefix p q \<Longrightarrow> \<exists>c r. q = p @ c # r"
  by (metis append_Nil2 list.exhaust prefix_def strict_prefix_def)

lemma below_split: "below p = insert p (\<Union>c. below (p @ [c]))"
proof -
  have "\<exists>c. prefix (p @ [c]) q" if "prefix p q" "q \<noteq> p" for q
    using strict_prefix_step [of p q] that by (auto simp: strict_prefix_def prefix_def)
  then show ?thesis by (auto simp: below_def dest: append_prefixD)
qed

lemma not_below_child [simp]: "p \<notin> below (p @ [c])"
  by (auto simp: below_def prefix_def)

lemma child_not_self [simp]: "p @ [c] \<noteq> p"
  by simp

lemma map_of_not_None: "map_of xs k \<noteq> None \<longleftrightarrow> k \<in> fst ` set xs"
  by (simp add: map_of_eq_None_iff)

lemma set_dir_entries:
  "(c, d) \<in> set (dir_entries s p) \<longleftrightarrow> (if d then is_dir s (p @ [c]) else file_at s (p @ [c]) \<noteq> None)"
proof -
  have ends: "fst x \<noteq> [] \<and> butlast (fst x) = p \<and> c = List.last (fst x) \<longleftrightarrow> fst x = p @ [c]" for x :: "path \<times> 'z"
    by (metis append_butlast_last_id butlast_snoc last_snoc snoc_eq_iff_butlast)
  show ?thesis
    unfolding is_dir_def map_of_not_None
    by (auto simp: dir_entries_def image_iff ends [symmetric] Bex_def split: if_splits)
qed

lemma distinct_names:
  assumes "distinct (map fst xs)"
  shows "distinct (map (\<lambda>x. List.last (fst x)) (filter (\<lambda>x. fst x \<noteq> [] \<and> butlast (fst x) = p) xs))"
  using assms
proof (induction xs)
  case (Cons a xs)
  have "List.last (fst a) \<noteq> List.last (fst x)" if "x \<in> set xs" "fst x \<noteq> []" "fst a \<noteq> []" "butlast (fst x) = butlast (fst a)" for x
  proof
    assume "List.last (fst a) = List.last (fst x)"
    then have "fst a = fst x" using that(2-4) by (metis append_butlast_last_id)
    then show False using that(1) Cons.prems by (auto simp: image_iff)
  qed
  then show ?case using Cons by auto
qed simp

lemma distinct_dir_entries:
  assumes "tree_ok s"
  shows "distinct (map fst (dir_entries s p))"
proof -
  let ?at = "\<lambda>xs. filter (\<lambda>x. fst x \<noteq> [] \<and> butlast (fst x) = p) xs" and ?name = "\<lambda>x. List.last (fst x)"
  have "c \<notin> ?name ` set (?at (fs_dirs s))" if c: "c \<in> ?name ` set (?at (fs_files s))" for c
  proof
    assume "c \<in> ?name ` set (?at (fs_dirs s))"
    then have "(c, True) \<in> set (dir_entries s p)" by (force simp: dir_entries_def)
    moreover have "(c, False) \<in> set (dir_entries s p)" using c by (force simp: dir_entries_def)
    ultimately show False using tree_okD(2) [OF assms] by (auto simp: set_dir_entries simp del: set_map)
  qed
  moreover have "distinct (map ?name (?at (fs_files s)))" "distinct (map ?name (?at (fs_dirs s)))"
    using distinct_names assms by (auto simp: tree_ok_def)
  ultimately show ?thesis unfolding dir_entries_def by (auto simp: comp_def)
qed

lemma distinct_sort_key: "distinct (map f xs) \<Longrightarrow> distinct (map f (sort_key g xs))"
  by (metis distinct_map distinct_sort set_sort)

lemma returns_on_fs: "(\<And>x. returns (\<lambda>s. P (s, x)) m (\<lambda>r s. Q r (s, x))) \<Longrightarrow> returns P (on_fs m) Q"
  unfolding returns_def on_fs_def by (fastforce split: option.splits)

section \<open>The contract of a callback\<close>

locale tree_walk =
  fixes J :: "path set \<Rightarrow> osfs \<times> 'x \<Rightarrow> bool" and T :: "path \<Rightarrow> bool" and F :: "walk_result \<Rightarrow> osfs \<times> 'x \<Rightarrow> bool"
    and fn :: "'x walk_fn" and root :: path and s0 :: osfs and b :: nat
  assumes tree: "J V (s, x) \<Longrightarrow> tree_ok s \<and> (\<forall>q. q \<notin> V \<longrightarrow> file_at s q = file_at s0 q)
      \<and> (\<forall>p. is_dir s p \<longrightarrow> prefix root p \<longrightarrow> length p \<le> b) \<and> fs_fault s = fs_fault s0"
    and target: "T q \<Longrightarrow> file_at s0 q \<noteq> None"
    and looked: "J V (s, x) \<Longrightarrow> J V (tick s, x)"
    and idle: "J V a \<Longrightarrow> (\<And>q. q \<in> W \<Longrightarrow> \<not> T q) \<Longrightarrow> J (V \<union> W) a"
    and visit: "prefix root p \<Longrightarrow> p \<notin> V \<Longrightarrow> (if d then length p \<le> b else file_at s0 p \<noteq> None) \<Longrightarrow>
      returns (J V) (fn p d None) (\<lambda>r a. if r = WalkOn then J (insert p V) a else r \<noteq> SkipDir \<and> F r a)"
    and told: "errors_Is err FsErrNotExist \<or> \<not> quiet s0 \<Longrightarrow>
      returns (J V) (fn p d (Some err))
        (\<lambda>r a. if r = WalkOn then J V a \<and> errors_Is err FsErrNotExist else r \<noteq> SkipDir \<and> F r a)"
begin

definition walked :: "path set \<Rightarrow> walk_result \<Rightarrow> osfs \<times> 'x \<Rightarrow> bool" where
  "walked V r a \<longleftrightarrow> (if r = WalkOn then J V a else r \<noteq> SkipDir \<and> F r a)"

text \<open>An entry of a directory as a walk needs it.\<close>

definition child_ok :: "path \<Rightarrow> string \<times> bool \<Rightarrow> bool" where
  "child_ok p x \<longleftrightarrow>
     (if snd x then Suc (length p) \<le> b
      else file_at s0 (p @ [fst x]) \<noteq> None \<and> (\<forall>q. T q \<longrightarrow> \<not> strict_prefix (p @ [fst x]) q))"

lemma walked_fun: "walked V = (\<lambda>r a. if r = WalkOn then J V a else r \<noteq> SkipDir \<and> F r a)"
  by (intro ext) (simp add: walked_def)

lemma walked_on [simp]: "walked V WalkOn = J V"
  by (simp add: walked_fun)

lemma none_below:
  assumes "J V (s, x)" "\<not> is_dir s p" "T q" "strict_prefix p q" "q \<notin> V"
  shows False
proof -
  have "exists_at s q" using tree [OF assms(1)] target [OF assms(3)] assms(5) by (simp add: exists_at_def)
  then show False using parent_exists [of s q p] tree [OF assms(1)] assms(2,4) by blast
qed

lemma listed:
  assumes "prefix root p" "below p \<inter> V \<subseteq> {p}"
  shows "returns (J V) (on_fs (os_ReadDir p)) (\<lambda>r a. J V a \<and> (case r of
      Inl err \<Rightarrow> if errors_Is err FsErrNotExist then \<forall>q. T q \<longrightarrow> \<not> strict_prefix p q else \<not> quiet s0
    | Inr es \<Rightarrow> distinct (map fst es) \<and> (\<forall>q. T q \<longrightarrow> strict_prefix p q \<longrightarrow> (\<exists>x \<in> set es. q \<in> below (p @ [fst x])))
        \<and> (\<forall>x \<in> set es. child_ok p x)))"
proof (rule returns_on_fs, unfold os_ReadDir_def, rule returns_sys, goal_cases)
  case (1 x s)
  note t = tree [OF 1(1)]
  have out: "q \<notin> V" if "strict_prefix p q" for q
    using that assms(2) by (auto simp: below_def strict_prefix_def)
  show ?case
  proof (cases "is_dir s p")
    case False
    then show ?thesis using looked [OF 1(1)] none_below [OF 1(1) False] out by auto
  next
    case True
    have "\<exists>x \<in> set (dir_entries s p). q \<in> below (p @ [fst x])" if q: "T q" "strict_prefix p q" for q
    proof -
      obtain c r where r: "q = p @ c # r" using strict_prefix_step [OF q(2)] by blast
      have e: "exists_at s q" using t target [OF q(1)] out [OF q(2)] by (simp add: exists_at_def)
      then have "exists_at s (p @ [c])"
        using parent_exists [of s q "p @ [c]"] t r by (cases r) (auto simp: strict_prefix_def exists_at_def)
      then have "(c, False) \<in> set (dir_entries s p) \<or> (c, True) \<in> set (dir_entries s p)"
        by (auto simp: set_dir_entries exists_at_def)
      then show ?thesis using r by (force simp: below_def)
    qed
    moreover have "child_ok p (c, d)" if "(c, d) \<in> set (dir_entries s p)" for c d
    proof (cases d)
      case True
      then have "is_dir s (p @ [c])" using that by (simp add: set_dir_entries)
      then have "length (p @ [c]) \<le> b" using t assms(1) by (meson prefix_prefix)
      then show ?thesis using True by (simp add: child_ok_def)
    next
      case False
      then have f: "file_at s (p @ [c]) \<noteq> None" using that by (simp add: set_dir_entries)
      then have "\<not> is_dir s (p @ [c])" using tree_okD(2) t by blast
      moreover have "q \<notin> V" if "strict_prefix (p @ [c]) q" for q
        using that by (intro out) (auto simp: strict_prefix_def prefix_def)
      ultimately show ?thesis
        using f t out [of "p @ [c]"] none_below [OF 1(1), of "p @ [c]"] False
        by (auto simp: child_ok_def strict_prefix_def)
    qed
    ultimately show ?thesis using looked [OF 1(1)] True distinct_dir_entries [of s p] t by (simp add: split_paired_Ball_Sigma Ball_def)
  qed
next
  case (2 x s f)
  then show ?case using looked [OF 2(1)] tree [OF 2(1)] fault_not_quiet [OF 2(2)] by (auto simp: quiet_def)
qed

lemma entries_walked:
  assumes "\<And>V c d. (c, d) \<in> set es \<Longrightarrow> V \<inter> below (p @ [c]) = {} \<Longrightarrow>
      returns (J V) (walk (p @ [c]) d) (walked (V \<union> below (p @ [c])))"
    and "distinct (map fst es)" "\<And>x. x \<in> set es \<Longrightarrow> V \<inter> below (p @ [fst x]) = {}"
  shows "returns (J V) (walk_entries walk p es) (walked (V \<union> (\<Union>x \<in> set es. below (p @ [fst x]))))"
  using assms
proof (induction es arbitrary: V)
  case Nil
  then show ?case by (simp add: returns_def ret_def walked_def)
next
  case (Cons y es)
  obtain c d where y: "y = (c, d)" by (cases y)
  let ?V = "V \<union> below (p @ [c])"
  have rest: "returns (J ?V) (walk_entries walk p es) (walked (?V \<union> (\<Union>x \<in> set es. below (p @ [fst x]))))"
  proof (rule Cons.IH)
    show "?V \<inter> below (p @ [fst x]) = {}" if "x \<in> set es" for x
    proof -
      have "fst x \<noteq> c" using that Cons.prems(2) y by auto
      then show ?thesis using below_disjoint [of c "fst x" p] Cons.prems(3) [of x] that by auto
    qed
  qed (use Cons.prems y in auto)
  have first: "returns (J V) (walk (p @ [c]) d) (walked ?V)"
    by (rule Cons.prems(1)) (use Cons.prems(3) [of y] y in auto)
  show ?case
    unfolding y walk_entries.simps
  proof (rule returns_bind [OF first], goal_cases)
    case (1 r)
    show ?case
    proof (cases r)
      case WalkOn
      then show ?thesis using rest by (simp add: Un_assoc)
    qed (auto simp: walked_def returns_def ret_def)
  qed
qed

lemma walk_dir_walked:
  assumes "prefix root p" "V \<inter> below p = {}"
    and "if d then length p \<le> b \<and> b + 2 \<le> n + length p else 1 \<le> n \<and> file_at s0 p \<noteq> None \<and> (\<forall>q. T q \<longrightarrow> \<not> strict_prefix p q)"
  shows "returns (J V) (walk_dir n fn p d) (walked (V \<union> below p))"
  using assms
proof (induction n arbitrary: p V d)
  case 0
  then show ?case by (auto split: if_splits)
next
  case (Suc n)
  let ?V = "insert p V"
  have self: "p \<in> below p" by (simp add: below_def)
  have "p \<notin> V" using Suc.prems(2) self by blast
  then have vis: "returns (J V) (fn p d None) (walked ?V)"
    unfolding walked_fun by (intro visit Suc.prems(1)) (use Suc.prems(3) in \<open>auto split: if_splits\<close>)
  have rest: "J (V \<union> below p) a" if "J ?V a" "\<forall>q. T q \<longrightarrow> \<not> strict_prefix p q" for a
  proof -
    have "J (?V \<union> (below p - {p})) a"
      by (rule idle [OF that(1)]) (use that(2) in \<open>auto simp: below_def strict_prefix_def\<close>)
    moreover have "?V \<union> (below p - {p}) = V \<union> below p" using self by auto
    ultimately show ?thesis by simp
  qed
  show ?case
    unfolding walk_dir.simps
  proof (rule returns_bind [OF vis], goal_cases)
    case (1 r)
    show ?case
    proof (cases "r \<noteq> WalkOn \<or> \<not> d")
      case True
      then show ?thesis using rest Suc.prems(3) by (auto simp: walked_def returns_def ret_def split: if_splits)
    next
      case False
      then have d: "d" "r = WalkOn" by auto
      have pre: "below p \<inter> ?V \<subseteq> {p}" using Suc.prems(2) by auto
      have "returns (J ?V) (bind (on_fs (os_ReadDir p)) (\<lambda>dirs. case dirs of
             Inl err \<Rightarrow> bind (fn p d (Some err)) (\<lambda>r. ret (if r = SkipDir \<and> d then WalkOn else r))
           | Inr es \<Rightarrow> walk_entries (walk_dir n fn) p (sort_key fst es))) (walked (V \<union> below p))"
      proof (rule returns_bind [OF listed [OF Suc.prems(1) pre]], goal_cases)
        case (1 dirs)
        show ?case
        proof (cases dirs)
          case (Inl err)
          show ?thesis
          proof (cases "errors_Is err FsErrNotExist \<and> (\<forall>q. T q \<longrightarrow> \<not> strict_prefix p q) \<or> \<not> errors_Is err FsErrNotExist \<and> \<not> quiet s0")
            case True
            then have "returns (J ?V) (fn p d (Some err)) (walked (V \<union> below p))"
              by (intro returns_post [OF told]) (use rest in \<open>auto simp: walked_def\<close>)
            moreover have "returns (walked (V \<union> below p) r) (ret (if r = SkipDir \<and> d then WalkOn else r)) (walked (V \<union> below p))" for r
              by (auto simp: returns_def ret_def walked_def split: if_splits)
            ultimately have "returns (J ?V) (bind (fn p d (Some err)) (\<lambda>r. ret (if r = SkipDir \<and> d then WalkOn else r))) (walked (V \<union> below p))"
              by (rule returns_bind)
            then show ?thesis using Inl by (auto elim: returns_pre)
          qed (auto simp: Inl returns_def split: if_splits)
        next
          case (Inr es)
          show ?thesis
          proof (cases "distinct (map fst es) \<and> (\<forall>q. T q \<longrightarrow> strict_prefix p q \<longrightarrow> (\<exists>x \<in> set es. q \<in> below (p @ [fst x])))
              \<and> (\<forall>x \<in> set es. child_ok p x)")
            case True
            let ?es = "sort_key fst es"
            have sub: "returns (J W) (walk_dir n fn (p @ [c]) d') (walked (W \<union> below (p @ [c])))"
              if "(c, d') \<in> set ?es" "W \<inter> below (p @ [c]) = {}" for W c d'
            proof (rule Suc.IH)
              have "child_ok p (c, d')" using True that(1) by auto
              then show "if d' then length (p @ [c]) \<le> b \<and> b + 2 \<le> n + length (p @ [c])
                  else 1 \<le> n \<and> file_at s0 (p @ [c]) \<noteq> None \<and> (\<forall>q. T q \<longrightarrow> \<not> strict_prefix (p @ [c]) q)"
                using Suc.prems(3) d by (auto simp: child_ok_def split: if_splits)
            qed (use Suc.prems(1) that(2) in auto)
            have dis: "?V \<inter> below (p @ [fst x]) = {}" for x :: "string \<times> bool"
              using Suc.prems(2) by (auto simp: below_split [of p])
            have all: "returns (J ?V) (walk_entries (walk_dir n fn) p ?es) (walked (?V \<union> (\<Union>x \<in> set ?es. below (p @ [fst x]))))"
              by (rule entries_walked [OF sub]) (use True dis distinct_sort_key in auto)
            have "J (V \<union> below p) a" if "J (?V \<union> (\<Union>x \<in> set es. below (p @ [fst x]))) a" for a
            proof -
              let ?W = "below p - {p} - (\<Union>x \<in> set es. below (p @ [fst x]))"
              have "J (?V \<union> (\<Union>x \<in> set es. below (p @ [fst x])) \<union> ?W) a"
                by (rule idle [OF that]) (use True in \<open>auto simp: below_def strict_prefix_def\<close>)
              moreover have "?V \<union> (\<Union>x \<in> set es. below (p @ [fst x])) \<union> ?W = V \<union> below p"
                using self by (auto simp: below_split [of p])
              ultimately show ?thesis by simp
            qed
            then show ?thesis
              using Inr by (auto intro: returns_conseq [OF all] simp: walked_def split: if_splits)
          qed (auto simp: Inr returns_def)
        qed
      qed
      then show ?thesis unfolding d(2) walked_on by (simp add: d(1) cong: sum.case_cong)
    qed
  qed
qed

lemma WalkDir_walked:
  assumes "b + 2 \<le> n + length root"  "1 \<le> n"
  shows "returns (J {}) (WalkDir n fn root) (\<lambda>err a.
     \<exists>r. walked (below root) r a \<and> err = (case r of WalkErr err \<Rightarrow> Some err | _ \<Rightarrow> None))"
proof -
  have stat: "returns (J {}) (on_fs (os_Stat root)) (\<lambda>r a. J {} a \<and> (case r of
      Inl err \<Rightarrow> if errors_Is err FsErrNotExist then \<forall>q. T q \<longrightarrow> \<not> prefix root q else \<not> quiet s0
    | Inr (DirNode _) \<Rightarrow> length root \<le> b
    | Inr (FileNode _) \<Rightarrow> file_at s0 root \<noteq> None \<and> (\<forall>q. T q \<longrightarrow> \<not> strict_prefix root q)))"
  proof (rule returns_on_fs, unfold os_Stat_def, rule returns_sys, goal_cases)
    case (1 x s)
    note t = tree [OF 1(1)]
    have no: "\<not> strict_prefix root q" if "\<not> is_dir s root" "T q" for q
      using none_below [OF 1(1) that(1,2)] by auto
    have none: "\<not> prefix root q" if "\<not> is_dir s root" "file_at s root = None" "T q" for q
      using no [OF that(1,3)] target [OF that(3)] t that(2) by (auto simp: strict_prefix_def)
    have plain: "\<not> is_dir s root" if "file_at s root = Some i" for i
      using tree_okD(2) [of s root] t that by blast
    show ?case
    proof (cases "file_at s root")
      case None
      then show ?thesis
        using looked [OF 1(1)] t none by (cases "map_of (fs_dirs s) root") (simp_all add: is_dir_def)
    next
      case (Some i)
      then show ?thesis using looked [OF 1(1)] t no [OF plain [OF Some]] by auto
    qed
  next
    case (2 x s f)
    then show ?case using looked [OF 2(1)] tree [OF 2(1)] fault_not_quiet [OF 2(2)] by (auto simp: quiet_def)
  qed
  show ?thesis
    unfolding WalkDir_def
  proof (rule returns_bind [OF stat], rule returns_bind [where R = "walked (below root)"], goal_cases)
    case (1 info)
    show ?case
    proof (cases info)
      case (Inl err)
      show ?thesis
      proof (cases "if errors_Is err FsErrNotExist then \<forall>q. T q \<longrightarrow> \<not> prefix root q else \<not> quiet s0")
        case True
        have "J (below root) a" if "J {} a" "errors_Is err FsErrNotExist" for a
          using idle [OF that(1), of "below root"] True that(2) by (auto simp: below_def)
        moreover have "returns (J {}) (fn root False (Some err))
            (\<lambda>r a. if r = WalkOn then J {} a \<and> errors_Is err FsErrNotExist else r \<noteq> SkipDir \<and> F r a)"
          by (rule told) (use True in \<open>auto split: if_splits\<close>)
        ultimately have "returns (J {}) (fn root False (Some err)) (walked (below root))"
          by (elim returns_post) (auto simp: walked_def split: if_splits)
        then show ?thesis using Inl by (auto elim: returns_pre)
      qed (auto simp: Inl returns_def)
    next
      case (Inr st)
      have "returns (\<lambda>a. J {} a \<and> C) (walk_dir n fn root d) (walked (below root))"
        if "C \<Longrightarrow> if d then length root \<le> b \<and> b + 2 \<le> n + length root
            else 1 \<le> n \<and> file_at s0 root \<noteq> None \<and> (\<forall>q. T q \<longrightarrow> \<not> strict_prefix root q)" for C d
        using walk_dir_walked [of root "{}" d n] that by (cases C) (auto simp: returns_def)
      then show ?thesis using Inr assms by (auto split: node.splits)
    qed
  next
    case (2 info r)
    then show ?case by (auto simp: returns_def ret_def)
  qed
qed

lemma WalkDir_ends:
  assumes "b + 2 \<le> n + length root" "1 \<le> n" "J {} a"
  obtains err s' x' r where "WalkDir n fn root a = Some (err, (s', x'))" "err = (case r of WalkErr err \<Rightarrow> Some err | _ \<Rightarrow> None)"
    "r = WalkOn \<Longrightarrow> J (below root) (s', x')" "r \<noteq> WalkOn \<Longrightarrow> r \<noteq> SkipDir \<and> F r (s', x')"
proof -
  obtain err s' x' r where "WalkDir n fn root a = Some (err, (s', x'))" "walked (below root) r (s', x')"
      "err = (case r of WalkErr err \<Rightarrow> Some err | _ \<Rightarrow> None)"
    using returnsD [OF WalkDir_walked [OF assms(1,2)] assms(3)] by force
  then show thesis by (intro that [of err s' x' r]) (auto simp: walked_def split: if_splits)
qed

end

section \<open>Digests in paths\<close>

lemma unique_split:
  assumes "xs @ c # ys = xs' @ c # ys'" "c \<notin> set xs'" "c \<notin> set ys'"
  shows "xs = xs' \<and> ys = ys'"
  using assms by (auto simp: append_eq_append_conv2 append_eq_Cons_conv Cons_eq_append_conv)

lemma digest_no_colon:
  assumes "digest_lib_ok L" "dl_Validate L d = None"
  shows "CHR '':'' \<notin> set (dl_Algorithm L d)" "CHR '':'' \<notin> set (dl_Encoded L d)"
  using Validate_parts(1,3) [OF assms]
  by (auto simp: algorithms_def algo_defs list_all_iff is_hex_def is_digit_def dest!: bspec)

lemma parts_digest_Some:
  assumes "digest_lib_ok L" "parts_digest L ([a, x, y, z] @ r) = Some d"
  shows "dl_Validate L d = None" "dl_Algorithm L d = a" "take 2 (dl_Encoded L d) = x" "take 2 (drop 2 (dl_Encoded L d)) = y"
    "drop 4 (dl_Encoded L d) = z"
proof -
  have d: "d = a @ '':'' @ x @ y @ z" "length x = 2" "length y = 2" and v: "dl_Validate L d = None"
    using assms(2) by (auto simp: parts_digest_def Let_def Sanitize_def numeral_2_eq_2 numeral_3_eq_3 split: if_splits sum.splits option.splits)
  show "dl_Validate L d = None" by (rule v)
  have "a @ CHR '':'' # (x @ y @ z) = dl_Algorithm L d @ CHR '':'' # dl_Encoded L d"
    using Validate_parts(2) [OF assms(1) v] d(1) by simp
  from unique_split [OF this digest_no_colon [OF assms(1) v]] have e: "a = dl_Algorithm L d" "x @ y @ z = dl_Encoded L d" by simp_all
  show "dl_Algorithm L d = a" using e by simp
  show "take 2 (dl_Encoded L d) = x" "take 2 (drop 2 (dl_Encoded L d)) = y" "drop 4 (dl_Encoded L d) = z"
    unfolding e(2) [symmetric] using d(2,3) by simp_all
qed

lemma parts_digest_valid:
  assumes "digest_lib_ok L" "dl_Validate L d = None"
  shows "parts_digest L ([dl_Algorithm L d, take 2 (dl_Encoded L d), take 2 (drop 2 (dl_Encoded L d)), drop 4 (dl_Encoded L d)] @ r) = Some d"
proof -
  let ?v = "dl_Encoded L d"
  have "take 2 ?v @ take 2 (drop 2 ?v) @ drop 4 ?v = ?v"
    using append_take_drop_id [of 2 ?v] append_take_drop_id [of 2 "drop 2 ?v"] by simp
  then have "dl_Algorithm L d @ '':'' @ take 2 ?v @ take 2 (drop 2 ?v) @ drop 4 ?v = d"
    using Validate_parts(2) [OF assms] by simp
  moreover have "length (take 2 ?v) = 2" "length (take 2 (drop 2 ?v)) = 2" using Validate_parts(4) [OF assms] by simp_all
  ultimately show ?thesis
    using Sanitize_valid [OF assms] by (simp add: parts_digest_def Let_def numeral_2_eq_2 numeral_3_eq_3)
qed

lemma shared_path:
  assumes "digest_lib_ok L" "length p = 5" "hd p = ''share''"
  shows "parts_digest L (drop 1 p) = Some d \<longleftrightarrow> dl_Validate L d = None \<and> p = pathToBlob L d"
proof -
  obtain a x y z where p: "p = [''share'', a, x, y, z]"
    using assms(2,3) by (auto simp: length_Suc_conv eval_nat_numeral)
  show ?thesis
    using parts_digest_Some [OF assms(1), of a x y z "[]" d] parts_digest_valid [OF assms(1), of d "[]"]
    by (auto simp: p pathToBlob_def Let_def Digest_Encoded_def Digest_Algorithm_def)
qed

section \<open>The sweep\<close>

lemma make_dirs_mtime: "fs_mtime (make_dirs ps s) = fs_mtime s"
  by (induction ps arbitrary: s) (simp_all add: add_dir_def touch_now_def touch_def)

lemma tick_mtime [simp]: "fs_mtime (tick s) = fs_mtime s"
  by (simp add: tick_def)

definition same_files :: "osfs \<Rightarrow> osfs \<Rightarrow> bool" where
  "same_files s s' \<longleftrightarrow> fs_files s' = fs_files s \<and> fs_mtime s' = fs_mtime s"

lemma same_files_trans: "same_files s s' \<Longrightarrow> same_files s' s'' \<Longrightarrow> same_files s s''"
  by (simp add: same_files_def)

lemma same_files_still: "still s s' \<Longrightarrow> same_files s s'"
  by (auto simp: same_files_def elim: stillE)

lemma runs_MkdirAll_files: "runs (os_MkdirAll p) s (\<lambda>_. same_files s)"
  unfolding os_MkdirAll_def by (rule runs_sys) (auto simp: same_files_def make_dirs_files make_dirs_mtime tick_def)

lemma runs_lockBlob_files:
  assumes "unblocked s"
  shows "runs (lockBlob e d) s (\<lambda>_. same_files s)"
proof -
  have lock: "runs (OsFileLock_Lock e) s1 (\<lambda>_. same_files s1)" if ub: "unblocked s1" for s1
  proof (cases "ctx_Err e 0")
    case None
    obtain n where "fs_sys s1 \<le> n" "fs_try s1 n \<noteq> Inr False" using ub by (auto simp: unblocked_def)
    from try_loop_returns [OF this, of e 1 lockRetryMin "[]"] None show ?thesis
      by (auto simp: OsFileLock_Lock_def tryLockContext_def runs_def bind_def ret_def same_files_def split: sum.splits)
  next
    case (Some err)
    then show ?thesis by (auto simp: OsFileLock_Lock_def tryLockContext_def run_simps same_files_def)
  qed
  have new: "runs (OsFileLocker_New d) s (\<lambda>_ s1. same_files s s1 \<and> unblocked s1)"
    unfolding OsFileLocker_New_def os_MkdirAll_def
    by (rule runs_step [where R = "\<lambda>_ s1. same_files s s1 \<and> unblocked s1"], rule runs_sys)
      (use assms in \<open>auto simp: same_files_def make_dirs_files make_dirs_mtime tick_def unblocked_def fs_simps run_simps\<close>)
  show ?thesis
    unfolding lockBlob_def
    by (rule runs_step [OF new], simp, rule runs_step [OF lock]) (auto intro: same_files_trans simp: run_simps)
qed

text \<open>A shared blob that is alone and old: what the sweep is for.\<close>

definition garbage :: "'h digest_lib \<Rightarrow> osfs \<Rightarrow> time \<Rightarrow> path set" where
  "garbage L s before =
     {p. \<exists>d i. dl_Validate L d = None \<and> p = pathToBlob L d \<and> file_at s p = Some i \<and> links s i \<le> 1 \<and> fs_mtime s i < before}"

lemma finite_garbage: "finite (garbage L s before)"
proof -
  have "garbage L s before \<subseteq> fst ` set (fs_files s)"
    by (auto simp: garbage_def dest!: map_of_SomeD intro: rev_image_eqI)
  then show ?thesis by (rule finite_subset) simp
qed

text \<open>The tree without the names in \<open>G\<close>.\<close>

definition without :: "path set \<Rightarrow> osfs \<Rightarrow> osfs \<Rightarrow> bool" where
  "without G s0 s \<longleftrightarrow> fs_files s = filter (\<lambda>x. fst x \<notin> G) (fs_files s0) \<and> fs_mtime s = fs_mtime s0"

lemma without_file_at: "without G s0 s \<Longrightarrow> file_at s q = (if q \<in> G then None else file_at s0 q)"
proof -
  have "map_of (filter (\<lambda>x. fst x \<notin> G) xs) q = (if q \<in> G then None else map_of xs q)" for xs :: "(path \<times> nat) list"
    by (induction xs) auto
  then show "without G s0 s \<Longrightarrow> ?thesis" by (simp add: without_def)
qed

lemma without_links:
  assumes "without G s0 s" "G \<subseteq> garbage L s0 before" "tree_ok s0" "file_at s0 p = Some i" "p \<notin> G"
  shows "links s i = links s0 i"
proof -
  have out: "fst x \<notin> G" if "x \<in> set (fs_files s0)" "snd x = i" for x
  proof
    assume g: "fst x \<in> G"
    have x: "file_at s0 (fst x) = Some i"
      by (rule map_of_is_SomeI [OF tree_okD(3) [OF assms(3)]]) (use that in auto)
    have "links s0 i \<le> 1" using g assms(2) x by (auto simp: garbage_def)
    moreover have "fst x \<noteq> p" using g assms(5) by auto
    ultimately show False using links_two [OF assms(3) x assms(4)] by simp
  qed
  have both: "filter P (filter Q xs) = filter P xs" if "\<And>x. x \<in> set xs \<Longrightarrow> P x \<Longrightarrow> Q x" for P Q and xs :: "(path \<times> nat) list"
    using that by (induction xs) auto
  have "filter (\<lambda>x. snd x = i) (filter (\<lambda>x. fst x \<notin> G) (fs_files s0)) = filter (\<lambda>x. snd x = i) (fs_files s0)"
    by (rule both) (rule out)
  then show ?thesis using assms(1) by (simp add: links_def without_def)
qed

lemma without_same: "without G s0 s \<Longrightarrow> same_files s s' \<Longrightarrow> without G s0 s'"
  by (simp add: without_def same_files_def)

lemma without_insert: "without G s0 s \<Longrightarrow> fs_files s' = filter (\<lambda>x. fst x \<noteq> p) (fs_files s) \<Longrightarrow> fs_mtime s' = fs_mtime s \<Longrightarrow>
    without (insert p G) s0 s'"
  by (auto simp: without_def intro: filter_cong)

text \<open>\<open>tryCleanup\<close> takes the shared name away, or nothing.\<close>

lemma del_name_files: "fs_files (del_name p s) = filter (\<lambda>x. fst x \<noteq> p) (fs_files s)" "fs_mtime (del_name p s) = fs_mtime s"
  by (simp_all add: del_name_def touch_now_def touch_def)

lemma runs_nlink:
  assumes "tree_ok s" "file_at s p = Some i"
  shows "runs (nlink p) s (\<lambda>r s'. still s s' \<and> (case r of Inl err \<Rightarrow> \<not> quiet s | Inr n \<Rightarrow> n = links s i))"
  unfolding nlink_def
proof (rule runs_step [OF runs_Stat])
  fix err s'
  assume "still s s' \<and> (case Inl err of Inl err \<Rightarrow> err = FsErrNotExist \<and> \<not> exists_at s p \<or> (\<exists>m. err = ErrorString m) \<and> \<not> quiet s
     | Inr (FileNode i) \<Rightarrow> file_at s p = Some i | Inr (DirNode _) \<Rightarrow> is_dir s p)"
  then show "still s s' \<and> (case Inl err of Inl err \<Rightarrow> \<not> quiet s | Inr n \<Rightarrow> n = links s i)"
    using assms(2) by (auto simp: exists_at_def)
next
  fix x s'
  assume "still s s' \<and> (case Inr x of Inl err \<Rightarrow> err = FsErrNotExist \<and> \<not> exists_at s p \<or> (\<exists>m. err = ErrorString m) \<and> \<not> quiet s
     | Inr (FileNode i) \<Rightarrow> file_at s p = Some i | Inr (DirNode _) \<Rightarrow> is_dir s p)"
  then show "runs (bind (gets (\<lambda>s. case x of FileNode i \<Rightarrow> links s i | DirNode _ \<Rightarrow> 2)) (\<lambda>n. ret (Inr n))) s'
      (\<lambda>r s'. still s s' \<and> (case r of Inl err \<Rightarrow> \<not> quiet s | Inr n \<Rightarrow> n = links s i))"
    using assms tree_okD(2) [OF assms] by (cases x) (auto simp: run_simps elim!: stillE)
qed

lemma runs_tryCleanup:
  assumes "digest_lib_ok L" "dl_Validate L d = None" "os_ok L U s" "unblocked s" "file_at s (pathToBlob L d) = Some i"
  shows "runs (tryCleanup L t e d) s (\<lambda>r s'. safe L U s s' \<and> fs_mtime s' = fs_mtime s \<and> (case r of
      Inl err \<Rightarrow> fs_files s' = fs_files s \<and> \<not> (quiet s \<and> live e)
    | Inr removed \<Rightarrow> (removed \<longleftrightarrow> links s i \<le> 1) \<and>
        fs_files s' = (if removed then filter (\<lambda>x. fst x \<noteq> pathToBlob L d) (fs_files s) else fs_files s)))"
    (is "runs _ _ ?Q")
proof -
  let ?pb = "pathToBlob L d"
  have same: "file_at s1 ?pb = Some i" "links s1 = links s" if "same_files s s1" for s1
    using that assms(5) by (simp_all add: same_files_def links_def fun_eq_iff)
  have safe: "runs (tryCleanup L t e d) s (\<lambda>_. safe L U s)"
    by (rule runs_mono [OF runs_returns [OF returns_tryCleanup [OF assms(1,2,4)] safe_refl [OF assms(3)]]]) simp
  have remove: "runs (os_Remove ?pb) s1 (\<lambda>r s'. fs_mtime s' = fs_mtime s \<and> (case r of
        Inl err \<Rightarrow> fs_files s' = fs_files s \<and> \<not> quiet s1 \<and> \<not> errors_Is err FsErrNotExist
      | Inr _ \<Rightarrow> fs_files s' = filter (\<lambda>x. fst x \<noteq> ?pb) (fs_files s)))" if "same_files s s1" for s1
    unfolding os_Remove_def
    by (rule runs_sys) (use same [OF that] that in \<open>auto simp: same_files_def del_name_files\<close>)
  have lock: "runs (lockBlob e d) s1 (\<lambda>r s'. safe L U s s' \<and> same_files s s' \<and> (case r of Inl err \<Rightarrow> \<not> (quiet s \<and> live e) | Inr _ \<Rightarrow> True))"
    if "still s s1" for s1
  proof -
    have s1: "safe L U s s1" "unblocked s1" "same_files s s1"
      using that safe_refl [OF assms(3)] assms(4) by (auto elim!: stillE simp: same_files_def)
    have "stable L U s (safe L U s)" by (rule stable_safe)
    from runs_conj [OF runs_returns [OF returns_lockBlob [OF this assms(4)] s1(1)] runs_lockBlob_files [OF s1(2)]]
    show ?thesis by (rule runs_mono) (use same_files_trans [OF s1(3)] in \<open>auto split: sum.splits\<close>)
  qed
  have "runs (tryCleanup L t e d) s (\<lambda>r s'. fs_mtime s' = fs_mtime s \<and> (case r of
      Inl err \<Rightarrow> fs_files s' = fs_files s \<and> \<not> (quiet s \<and> live e)
    | Inr removed \<Rightarrow> (removed \<longleftrightarrow> links s i \<le> 1) \<and>
        fs_files s' = (if removed then filter (\<lambda>x. fst x \<noteq> ?pb) (fs_files s) else fs_files s)))" (is "runs _ _ ?R")
    unfolding tryCleanup_def Let_def
  proof (rule runs_step [OF runs_nlink [OF os_okD(1) [OF assms(3)] assms(5)]], goal_cases)
    case (1 err s1)
    then show ?case using same_files_still [of s s1] by (auto simp: same_files_def)
  next
    case (2 n s1)
    then have n: "still s s1" "n = links s i" by auto
    show ?case
    proof (cases "n > 1")
      case True
      then show ?thesis using n same_files_still [OF n(1)] by (auto simp: run_simps same_files_def)
    next
      case False
      have "runs (chk (lockBlob e d) (\<lambda>err. Inl (Wrapped ''lock blob'' err)) (\<lambda>k.
           chk (nlink ?pb) (\<lambda>err. Inl (Wrapped ''nlink'' err)) (\<lambda>n.
             if n > 1 then ret (Inr False)
             else
               bind (os_Remove ?pb) (\<lambda>r. case r of
                 Inl err \<Rightarrow> if errors_Is err FsErrNotExist then ret (Inr True)
                             else ret (Inl (Wrapped ''remove blob'' err))
               | Inr _ \<Rightarrow> ret (Inr True))))) s1 ?R"
      proof (rule runs_step [OF lock [OF n(1)]], goal_cases)
        case (1 err s2)
        then show ?case by (auto simp: same_files_def)
      next
        case (2 k s2)
        then have s2: "safe L U s s2" "same_files s s2" by auto
        have q: "quiet s2 = quiet s" by (rule safeD(5) [OF s2(1)])
        show ?case
        proof (rule runs_step [OF runs_nlink [OF safeD(2) [OF s2(1)] same(1) [OF s2(2)]]], goal_cases)
          case (1 err s3)
          then show ?case using same_files_trans [OF s2(2) same_files_still [of s2 s3]] q by (auto simp: same_files_def)
        next
          case (2 m s3)
          then have m: "m = n" "same_files s s3" "quiet s3 = quiet s"
            using n(2) same(2) [OF s2(2)] same_files_trans [OF s2(2) same_files_still [of s2 s3]] q by (auto elim!: stillE)
          have "runs (bind (os_Remove ?pb) (\<lambda>r. case r of
                 Inl err \<Rightarrow> if errors_Is err FsErrNotExist then ret (Inr True) else ret (Inl (Wrapped ''remove blob'' err))
               | Inr _ \<Rightarrow> ret (Inr True))) s3 ?R"
            by (rule runs_bindI [OF remove [OF m(2)]]) (use m(3) n(2) False in \<open>auto simp: run_simps split: sum.splits\<close>)
          then show ?case using False m(1) by simp
        qed
      qed
      then show ?thesis using False by simp
    qed
  qed
  from runs_conj [OF safe this] show ?thesis by (rule runs_mono) simp
qed

text \<open>
  The state of a sweep that has dealt with \<open>V\<close>: names of garbage in \<open>V\<close> are gone, all of them when nothing fails, and they
  are counted.
\<close>

definition sweep_inv ::
  "'h digest_lib \<Rightarrow> scope \<Rightarrow> osfs \<Rightarrow> (nat \<Rightarrow> env) \<Rightarrow> time \<Rightarrow> path set \<Rightarrow> osfs \<times> sweeping \<Rightarrow> bool" where
  "sweep_inv L U s0 es before V a \<longleftrightarrow>
     digest_lib_ok L \<and> unblocked s0 \<and> os_ok L U s0 \<and> safe L U s0 (fst a)
     \<and> (\<exists>G \<subseteq> V \<inter> garbage L s0 before. (quiet s0 \<and> (\<forall>k. live (es k)) \<longrightarrow> G = V \<inter> garbage L s0 before)
          \<and> without G s0 (fst a) \<and> sw_removed (snd a) = int (card G))"

definition sweep_stopped ::
  "'h digest_lib \<Rightarrow> scope \<Rightarrow> osfs \<Rightarrow> (nat \<Rightarrow> env) \<Rightarrow> time \<Rightarrow> walk_result \<Rightarrow> osfs \<times> sweeping \<Rightarrow> bool" where
  "sweep_stopped L U s0 es before r a \<longleftrightarrow>
     (\<exists>V. sweep_inv L U s0 es before V a) \<and> (\<exists>err. r = WalkErr err) \<and> \<not> (quiet s0 \<and> (\<forall>k. live (es k)))"

lemma sweep_idle:
  assumes "sweep_inv L U s0 es before V a" "\<And>q. q \<in> W \<Longrightarrow> q \<notin> garbage L s0 before"
  shows "sweep_inv L U s0 es before (V \<union> W) a"
proof -
  have "(V \<union> W) \<inter> garbage L s0 before = V \<inter> garbage L s0 before" using assms(2) by blast
  then show ?thesis using assms(1) unfolding sweep_inv_def by simp
qed

lemma sweep_calls [simp]:
  "sweep_inv L U s0 es before V (s, w\<lparr>sw_calls := n\<rparr>) = sweep_inv L U s0 es before V (s, w)"
  by (simp add: sweep_inv_def)

lemma sweep_files:
  assumes "sweep_inv L U s0 es before V (s, w)" "q \<notin> V"
  shows "file_at s q = file_at s0 q"
proof -
  obtain G where "G \<subseteq> V" "without G s0 s" using assms(1) unfolding sweep_inv_def by auto
  then show ?thesis using without_file_at [of G s0 s q] assms(2) by auto
qed

lemma runs_result: "runs m s Q \<Longrightarrow> m s = Some (r, s') \<Longrightarrow> Q r s'"
  by (auto simp: runs_def)

lemma runs_sweep_blob:
  assumes "digest_lib_ok L" "dl_Validate L d = None" "os_ok L U s" "unblocked s" "file_at s (pathToBlob L d) = Some i"
  shows "runs (sweep_blob L t e before (pathToBlob L d) d) s (\<lambda>(r, removed) s'. safe L U s s' \<and> fs_mtime s' = fs_mtime s
    \<and> fs_files s' = (if removed then filter (\<lambda>x. fst x \<noteq> pathToBlob L d) (fs_files s) else fs_files s)
    \<and> (removed \<longrightarrow> r = WalkOn \<and> links s i \<le> 1 \<and> fs_mtime s i < before)
    \<and> (quiet s \<and> live e \<longrightarrow> r = WalkOn \<and> removed = (links s i \<le> 1 \<and> fs_mtime s i < before))
    \<and> (r = WalkOn \<or> (\<exists>err. r = WalkErr err)))" (is "runs _ _ (\<lambda>(r, removed). ?Q r removed)")
proof -
  have plain: "\<not> is_dir s (pathToBlob L d)" using tree_okD(2) [OF os_okD(1) [OF assms(3)] assms(5)] by simp
  note rf = safe_refl [OF assms(3)]
  show ?thesis
    unfolding sweep_blob_def Let_def
  proof (rule runs_step [OF runs_Stat], goal_cases)
    case (1 err s1)
    then have "still s s1" "\<not> quiet s" using assms(5) by (auto simp: exists_at_def)
    then show ?case using rf by (auto elim!: stillE)
  next
    case (2 info s1)
    then have s1: "still s s1" "info = FileNode i" using assms(5) plain by (auto split: node.splits)
    have more: "os_ok L U s1" "unblocked s1" "file_at s1 (pathToBlob L d) = Some i" "links s1 = links s" "fs_mtime s1 = fs_mtime s"
        "quiet s1 = quiet s" "safe L U s s1" "fs_files s1 = fs_files s"
      using s1(1) assms(3-5) rf by (auto elim!: stillE)
    show ?case
    proof (cases "fs_mtime s i < before")
      case False
      then show ?thesis using s1(2) more rf by (simp add: run_simps node_mtime_def)
    next
      case True
      have "runs (chk (tryCleanup L t e d) (\<lambda>err. (if errors_Is err FsErrNotExist then WalkOn else WalkErr err, False))
          (\<lambda>removed. ret (WalkOn, removed))) s1 (\<lambda>(r, removed). ?Q r removed)"
      proof (rule runs_step [OF runs_tryCleanup [OF assms(1,2) more(1-3)]], goal_cases)
        case (1 err s2)
        then show ?case using more safe_trans [OF more(7), of s2] by (auto simp: True)
      next
        case (2 removed s2)
        then show ?case using more safe_trans [OF more(7), of s2] True by (auto simp: run_simps)
      qed
      then show ?thesis using True s1(2) more(5) by (simp add: run_simps node_mtime_def)
    qed
  qed
qed

text \<open>One blob.\<close>

lemma sweep_one:
  assumes inv: "sweep_inv L U s0 es before V (s, w)" and p: "p \<notin> V" "p = pathToBlob L d" "dl_Validate L d = None" "file_at s0 p \<noteq> None"
    and run: "sweep_blob L t (env_after 1 (es k)) before p d s = Some ((r, removed), s')"
  shows "sweep_inv L U s0 es before V (s', w\<lparr>sw_removed := sw_removed w + (if removed then 1 else 0)\<rparr>) \<or> r = WalkOn"
    and "r = WalkOn \<Longrightarrow> sweep_inv L U s0 es before (insert p V) (s', w\<lparr>sw_removed := sw_removed w + (if removed then 1 else 0)\<rparr>)"
    and "r = WalkOn \<or> (\<exists>err. r = WalkErr err) \<and> \<not> (quiet s0 \<and> live (es k))"
proof -
  have L: "digest_lib_ok L" and ub: "unblocked s0" and ok0: "os_ok L U s0" and sf: "safe L U s0 s"
    using inv by (simp_all add: sweep_inv_def)
  obtain G where G: "G \<subseteq> V \<inter> garbage L s0 before" "quiet s0 \<and> (\<forall>k. live (es k)) \<longrightarrow> G = V \<inter> garbage L s0 before"
      "without G s0 s" "sw_removed w = int (card G)"
    using inv by (auto simp: sweep_inv_def)
  obtain i where i: "file_at s0 p = Some i" using p(4) by auto
  have here: "file_at s (pathToBlob L d) = Some i" using sweep_files [OF inv p(1)] i p(2) by simp
  have ubs: "unblocked s" using sf ub by (simp add: safe_def unblocked_def)
  have lk: "links s i = links s0 i"
    using without_links [OF G(3) _ os_okD(1) [OF ok0] i, of L before] G(1) p(1) by auto
  have mt: "fs_mtime s = fs_mtime s0" using G(3) by (simp add: without_def)
  have gp: "p \<in> garbage L s0 before \<longleftrightarrow> links s0 i \<le> 1 \<and> fs_mtime s0 i < before"
    using i p(2,3) by (auto simp: garbage_def)
  have "sweep_blob L t (env_after 1 (es k)) before (pathToBlob L d) d s = Some ((r, removed), s')" using run p(2) by simp
  note q = runs_result [OF runs_sweep_blob [OF L p(3) safeD(1) [OF sf] ubs here] this, unfolded prod.case lk mt gp [symmetric] p(2) [symmetric]]
  have s': "safe L U s s'" "fs_mtime s' = fs_mtime s"
      "fs_files s' = (if removed then filter (\<lambda>x. fst x \<noteq> p) (fs_files s) else fs_files s)"
      "removed \<longrightarrow> r = WalkOn \<and> p \<in> garbage L s0 before"
      "quiet s \<and> live (env_after 1 (es k)) \<longrightarrow> r = WalkOn \<and> removed = (p \<in> garbage L s0 before)"
      "r = WalkOn \<or> (\<exists>err. r = WalkErr err)"
    using q unfolding mt by blast+
  show "r = WalkOn \<or> (\<exists>err. r = WalkErr err) \<and> \<not> (quiet s0 \<and> live (es k))" using s'(5,6) safeD(5) [OF sf] by auto
  let ?w = "w\<lparr>sw_removed := sw_removed w + (if removed then 1 else 0)\<rparr>"
  have sf': "safe L U s0 s'" by (rule safe_trans [OF sf s'(1)])
  have left: "\<exists>H \<subseteq> V' \<inter> garbage L s0 before. (quiet s0 \<and> (\<forall>k. live (es k)) \<longrightarrow> H = V' \<inter> garbage L s0 before)
      \<and> without H s0 s' \<and> sw_removed ?w = int (card H)"
    if V': "V' = insert p V \<or> V' = V \<and> \<not> removed \<and> r \<noteq> WalkOn" for V'
  proof (cases removed)
    case True
    have fin: "finite G" "p \<notin> G" using G(1) p(1) finite_subset [OF _ finite_garbage [of L s0 before], of G] by auto
    have "without (insert p G) s0 s'" by (rule without_insert [OF G(3)]) (use s'(2,3) True in simp_all)
    then show ?thesis
      using True G fin s'(4) V' by (intro exI [of _ "insert p G"]) auto
  next
    case False
    have "without G s0 s'" using G(3) s'(2,3) False by (simp add: without_def)
    moreover have "quiet s0 \<and> (\<forall>k. live (es k)) \<longrightarrow> G = V' \<inter> garbage L s0 before"
      using G(2) s'(5) safeD(5) [OF sf] V' False by auto
    ultimately show ?thesis using False G(1,4) V' by (intro exI [of _ G]) auto
  qed
  show "sweep_inv L U s0 es before V (s', ?w) \<or> r = WalkOn"
    using left [of V] s'(4) L ub ok0 sf' unfolding sweep_inv_def fst_conv snd_conv by blast
  show "sweep_inv L U s0 es before (insert p V) (s', ?w)"
    using left [of "insert p V"] L ub ok0 sf' unfolding sweep_inv_def fst_conv snd_conv by blast
qed

lemma sweep_visited:
  assumes "prefix [''share''] p" "p \<notin> V" "if d then length p \<le> 4 else file_at s0 p \<noteq> None"
  shows "returns (sweep_inv L U s0 es before V) (sweep_visit L t es before p d None)
    (\<lambda>r a. if r = WalkOn then sweep_inv L U s0 es before (insert p V) a
           else r \<noteq> SkipDir \<and> sweep_stopped L U s0 es before r a)"
    (is "returns _ _ ?Q")
proof (rule returnsI)
  fix a
  assume a: "sweep_inv L U s0 es before V a"
  obtain s w where sw: "a = (s, w)" by (cases a)
  let ?e = "es (sw_calls w)" and ?w = "w\<lparr>sw_calls := Suc (sw_calls w)\<rparr>"
  have L: "digest_lib_ok L" using a by (simp add: sweep_inv_def)
  have inv: "sweep_inv L U s0 es before V (s, ?w)" using a sw by simp
  show "\<exists>r b. sweep_visit L t es before p d None a = Some (r, b) \<and> ?Q r b"
  proof (cases "ctx_Err ?e 0")
    case (Some c)
    then have "\<not> live ?e" by (auto simp: live_def)
    then have "sweep_stopped L U s0 es before (WalkErr c) (s, ?w)" using inv by (auto simp: sweep_stopped_def)
    then show ?thesis using Some by (simp add: sw sweep_visit_def Let_def)
  next
    case None
    have hd: "hd p = ''share''" using assms(1) by (cases p) simp_all
    show ?thesis
    proof (cases "\<exists>x. \<not> d \<and> length p = 5 \<and> parts_digest L (drop 1 p) = Some x")
      case False
      have "p \<notin> garbage L s0 before"
      proof
        assume "p \<in> garbage L s0 before"
        then obtain x where x: "dl_Validate L x = None" "p = pathToBlob L x" by (auto simp: garbage_def)
        then have five: "length p = 5" by simp
        then have "d" using False shared_path [OF L five hd, of x] x by blast
        then show False using assms(3) five by simp
      qed
      then have "sweep_inv L U s0 es before (insert p V) (s, ?w)" using sweep_idle [OF inv, of "{p}"] by simp
      then show ?thesis
        using False None by (cases "parts_digest L (drop 1 p)") (auto simp: sw sweep_visit_def Let_def)
    next
      case True
      then obtain x where x: "\<not> d" "length p = 5" "parts_digest L (drop 1 p) = Some x" by blast
      then have v: "dl_Validate L x = None" "p = pathToBlob L x" using shared_path [OF L x(2) hd, of x] by simp_all
      have f0: "file_at s0 p \<noteq> None" using assms(3) x(1) by simp
      then obtain i where "file_at s (pathToBlob L x) = Some i" using sweep_files [OF inv assms(2)] v(2) by auto
      moreover have "os_ok L U s" "unblocked s" using a sw by (auto simp: sweep_inv_def safe_def unblocked_def)
      ultimately obtain r removed s' where run: "sweep_blob L t (env_after 1 ?e) before p x s = Some ((r, removed), s')"
        using runsD [OF runs_sweep_blob [OF L v(1)], of U s i t "env_after 1 ?e" before] v(2) by auto
      note one = sweep_one [OF inv assms(2) v(2,1) f0 run]
      let ?b = "(s', ?w\<lparr>sw_removed := sw_removed ?w + (if removed then 1 else 0)\<rparr>)"
      have "sweep_visit L t es before p d None a = Some (r, ?b)"
        using None x run by (simp add: sw sweep_visit_def Let_def)
      moreover have "?Q r ?b" using one by (auto simp: sweep_stopped_def)
      ultimately show ?thesis by blast
    qed
  qed
qed

lemma sweep_told:
  assumes "errors_Is err FsErrNotExist \<or> \<not> quiet s0"
  shows "returns (sweep_inv L U s0 es before V) (sweep_visit L t es before p d (Some err))
    (\<lambda>r a. if r = WalkOn then sweep_inv L U s0 es before V a \<and> errors_Is err FsErrNotExist
           else r \<noteq> SkipDir \<and> sweep_stopped L U s0 es before r a)"
proof (rule returnsI)
  fix a
  assume a: "sweep_inv L U s0 es before V a"
  obtain s w where sw: "a = (s, w)" by (cases a)
  show "\<exists>r b. sweep_visit L t es before p d (Some err) a = Some (r, b) \<and>
      (if r = WalkOn then sweep_inv L U s0 es before V b \<and> errors_Is err FsErrNotExist
       else r \<noteq> SkipDir \<and> sweep_stopped L U s0 es before r b)"
  proof (cases "ctx_Err (es (sw_calls w)) 0")
    case (Some c)
    then have "\<not> live (es (sw_calls w))" by (auto simp: live_def)
    then show ?thesis using Some a by (auto simp: sw sweep_visit_def Let_def sweep_stopped_def)
  next
    case None
    then show ?thesis using a assms by (auto simp: sw sweep_visit_def Let_def sweep_stopped_def)
  qed
qed

interpretation sweep: tree_walk "sweep_inv L U s0 es before" "\<lambda>q. q \<in> garbage L s0 before" "sweep_stopped L U s0 es before"
    "sweep_visit L t es before" "[''share'']" s0 4 for L U s0 es before t
proof
  show "tree_ok s \<and> (\<forall>q. q \<notin> V \<longrightarrow> file_at s q = file_at s0 q)
      \<and> (\<forall>p. is_dir s p \<longrightarrow> prefix [''share''] p \<longrightarrow> length p \<le> 4) \<and> fs_fault s = fs_fault s0"
    if "sweep_inv L U s0 es before V (s, x)" for V s x
  proof -
    have sf: "safe L U s0 s" using that by (simp add: sweep_inv_def)
    have "length p \<le> 4" if "is_dir s p" "prefix [''share''] p" for p
      using layoutD(2) [OF safeD(3) [OF sf] that(1)] that(2) by (cases p) (auto simp: dir_place_def)
    then show ?thesis using safeD(2) [OF sf] sweep_files [OF that] sf by (auto simp: safe_def)
  qed
  show "file_at s0 q \<noteq> None" if "q \<in> garbage L s0 before" for q using that by (auto simp: garbage_def)
  show "sweep_inv L U s0 es before V (tick s, x)" if "sweep_inv L U s0 es before V (s, x)" for V s x
    using that by (auto simp: sweep_inv_def without_def)
qed (rule sweep_idle sweep_visited sweep_told; assumption)+

text \<open>
  What \<open>Reclaim\<close> has done: it has taken some garbage away and nothing else, counted it, and without failures has
  taken all of it.
\<close>

definition reclaim_done ::
  "'h digest_lib \<Rightarrow> scope \<Rightarrow> osfs \<Rightarrow> time \<Rightarrow> bool \<Rightarrow> int \<times> error option \<Rightarrow> osfs \<Rightarrow> bool" where
  "reclaim_done L U s before calm res s' \<longleftrightarrow>
     safe L U s s' \<and> (\<exists>G \<subseteq> garbage L s before.
       (\<forall>q. file_at s' q = (if q \<in> G then None else file_at s q)) \<and> fst res = int (card G)
       \<and> (snd res = None \<and> calm \<longrightarrow> G = garbage L s before) \<and> (snd res \<noteq> None \<longrightarrow> \<not> calm))"

lemma runs_Reclaim:
  assumes "digest_lib_ok L" "os_ok L U s" "unblocked s" "0 < grace" "5 \<le> n"
  shows "runs (OsStores_Reclaim n L st e es grace) s
    (reclaim_done L U s (cfg_clock (oss_stage st) e 0 - grace) (quiet s \<and> (\<forall>k. live (es k))))"
proof -
  let ?before = "cfg_clock (oss_stage st) e 0 - grace" and ?w = "\<lparr>sw_calls = 0, sw_removed = 0\<rparr>"
  let ?J = "sweep_inv L U s es ?before" and ?t = "OsStores_Use st ''''"
  have "without {} s s" by (simp add: without_def)
  then have J: "?J {} (s, ?w)" using assms(1-3) safe_refl [OF assms(2)] unfolding sweep_inv_def by auto
  obtain err s' w r where run: "WalkDir n (sweep_visit L ?t es ?before) [''share''] (s, ?w) = Some (err, (s', w))"
      and r: "err = (case r of WalkErr err \<Rightarrow> Some err | _ \<Rightarrow> None)" "r = WalkOn \<Longrightarrow> ?J (below [''share'']) (s', w)"
        "r \<noteq> WalkOn \<Longrightarrow> r \<noteq> SkipDir \<and> sweep_stopped L U s es ?before r (s', w)"
    by (rule sweep.WalkDir_ends [OF _ _ J, of n ?t]) (use assms(5) in simp_all)
  have sub: "garbage L s ?before \<subseteq> below [''share'']"
    by (auto simp: garbage_def below_def pathToBlob_def Let_def)
  obtain V where V: "?J V (s', w)" "r = WalkOn \<longrightarrow> V = below [''share'']" "r \<noteq> WalkOn \<longrightarrow> err \<noteq> None \<and> \<not> (quiet s \<and> (\<forall>k. live (es k)))"
    using r by (cases "r = WalkOn") (auto simp: sweep_stopped_def)
  obtain G where G: "G \<subseteq> V \<inter> garbage L s ?before" "quiet s \<and> (\<forall>k. live (es k)) \<longrightarrow> G = V \<inter> garbage L s ?before"
      "without G s s'" "sw_removed w = int (card G)" and sf: "safe L U s s'"
    using V(1) by (auto simp: sweep_inv_def)
  have "G = garbage L s ?before" if "quiet s \<and> (\<forall>k. live (es k))"
    using G(2) V(2,3) that sub by auto
  moreover have "err = None" if "r = WalkOn" using r(1) that by simp
  ultimately have "reclaim_done L U s ?before (quiet s \<and> (\<forall>k. live (es k))) (sw_removed w, err) s'"
    unfolding reclaim_done_def
    using sf G(1,4) without_file_at [OF G(3)] V(3) by (intro conjI exI [of _ G]) auto
  then show ?thesis using run assms(4) by (simp add: OsStores_Reclaim_def runs_def Let_def)
qed

end
