(* ===== verification/OsInventory.thy ===== *)
theory OsInventory
  imports OsSweep
begin

text \<open>
  What \<open>Walk\<close> and \<open>Namespaces\<close> of a directory store yield, whichever calls fail: an enumeration that does not end
  with an error, and that its consumer does not leave, is complete, and nothing comes twice.
\<close>

section \<open>The blobs of a namespace\<close>

abbreviation blob_name :: "'h digest_lib \<Rightarrow> string \<Rightarrow> string \<Rightarrow> path" where
  "blob_name L ns d \<equiv> entry_path L ns d @ [''blob'']"

definition shown :: "'h digest_lib \<Rightarrow> osfs \<Rightarrow> string \<Rightarrow> string \<Rightarrow> bool" where
  "shown L s ns d \<longleftrightarrow> dl_Validate L d = None \<and> file_at s (blob_name L ns d) \<noteq> None"

lemma dom_view: "dom (os_view L s ns) = {d. shown L s ns d}"
proof -
  have "os_view L s ns d \<noteq> None \<longleftrightarrow> shown L s ns d" for d
    by (cases "file_at s (blob_name L ns d)") (simp_all add: os_view_def shown_def)
  then show ?thesis by (simp add: dom_def)
qed

lemma entry_name:
  assumes "digest_lib_ok L" "prefix [''repos'', namespaceSegment ns] p" "length p = 7" "p ! 6 = ''blob''"
  shows "parts_digest L (drop 2 p) = Some d \<longleftrightarrow> dl_Validate L d = None \<and> p = blob_name L ns d"
proof -
  obtain a x y z where p: "p = [''repos'', namespaceSegment ns, a, x, y, z, ''blob'']"
    using assms(2-4) by (auto simp: prefix_def length_Suc_conv eval_nat_numeral)
  show ?thesis
    using parts_digest_Some [OF assms(1), of a x y z "[''blob'']" d] parts_digest_valid [OF assms(1), of d "[''blob'']"]
    by (auto simp: p entry_path_def Let_def eval_nat_numeral)
qed

text \<open>The state of a walk that has dealt with \<open>V\<close>: the blobs in \<open>V\<close> were yielded, each once.\<close>

definition walk_inv ::
  "'h digest_lib \<Rightarrow> scope \<Rightarrow> osfs \<Rightarrow> OsStore \<Rightarrow> string \<Rightarrow> path set \<Rightarrow> osfs \<times> walking \<Rightarrow> bool" where
  "walk_inv L U s0 t ns V a \<longleftrightarrow>
     digest_lib_ok L \<and> os_ok L U s0 \<and> os_repo t = [''repos'', namespaceSegment ns] \<and> still s0 (fst a)
     \<and> (\<exists>ds. wk_out (snd a) = map (\<lambda>d. Inr (walk_info L t d)) ds \<and> distinct ds
          \<and> set ds = {d. shown L s0 ns d \<and> blob_name L ns d \<in> V})"

definition walk_stopped ::
  "'h digest_lib \<Rightarrow> scope \<Rightarrow> osfs \<Rightarrow> OsStore \<Rightarrow> string \<Rightarrow> (nat \<Rightarrow> env) \<Rightarrow> (nat \<Rightarrow> bool) \<Rightarrow> walk_result \<Rightarrow> osfs \<times> walking \<Rightarrow> bool" where
  "walk_stopped L U s0 t ns es yield r a \<longleftrightarrow>
     (\<exists>V. walk_inv L U s0 t ns V a)
     \<and> (case r of
          SkipAll \<Rightarrow> wk_out (snd a) \<noteq> [] \<and> \<not> yield (length (wk_out (snd a)) - 1)
        | WalkErr err \<Rightarrow> \<not> (quiet s0 \<and> (\<forall>k. live (es k)))
        | _ \<Rightarrow> False)"

definition listed_blob :: "'h digest_lib \<Rightarrow> osfs \<Rightarrow> string \<Rightarrow> path \<Rightarrow> bool" where
  "listed_blob L s0 ns q \<longleftrightarrow> (\<exists>d. shown L s0 ns d \<and> q = blob_name L ns d)"

lemma walk_idle:
  assumes "walk_inv L U s0 t ns V a" "\<And>q. q \<in> W \<Longrightarrow> \<not> listed_blob L s0 ns q"
  shows "walk_inv L U s0 t ns (V \<union> W) a"
proof -
  have "{d. shown L s0 ns d \<and> blob_name L ns d \<in> V \<union> W} = {d. shown L s0 ns d \<and> blob_name L ns d \<in> V}"
    using assms(2) by (auto simp: listed_blob_def)
  then show ?thesis using assms(1) unfolding walk_inv_def by simp
qed

lemma walk_calls [simp]: "walk_inv L U s0 t ns V (s, w\<lparr>wk_calls := n\<rparr>) = walk_inv L U s0 t ns V (s, w)"
  by (simp add: walk_inv_def)

lemma walk_one:
  assumes inv: "walk_inv L U s0 t ns V (s, w)" and p: "p \<notin> V" "p = blob_name L ns d" "shown L s0 ns d"
  shows "walk_inv L U s0 t ns (insert p V) (s, w\<lparr>wk_out := wk_out w @ [Inr (walk_info L t d)]\<rparr>)"
proof -
  have L: "digest_lib_ok L" using inv by (simp add: walk_inv_def)
  obtain ds where ds: "wk_out w = map (\<lambda>d. Inr (walk_info L t d)) ds" "distinct ds"
      "set ds = {d. shown L s0 ns d \<and> blob_name L ns d \<in> V}"
    using inv by (auto simp: walk_inv_def)
  have "d' = d" if "blob_name L ns d' = p" "shown L s0 ns d'" for d'
    using that p entry_path_inj [OF L, of d' d ns ns] by (auto simp: shown_def)
  then have "set (ds @ [d]) = {d. shown L s0 ns d \<and> blob_name L ns d \<in> insert p V}"
    using ds(3) p(2,3) by auto
  moreover have "distinct (ds @ [d])" using ds(2,3) p(1,2) by auto
  ultimately show ?thesis
    using inv ds(1) unfolding walk_inv_def by (auto intro!: exI [of _ "ds @ [d]"])
qed

lemma walk_visited:
  assumes "prefix [''repos'', namespaceSegment ns] p" "p \<notin> V" "if d then length p \<le> 6 else file_at s0 p \<noteq> None"
  shows "returns (walk_inv L U s0 t ns V) (walk_visit L t es yield p d None)
    (\<lambda>r a. if r = WalkOn then walk_inv L U s0 t ns (insert p V) a
           else r \<noteq> SkipDir \<and> walk_stopped L U s0 t ns es yield r a)"
    (is "returns _ _ ?Q")
proof (rule returnsI)
  fix a
  assume a: "walk_inv L U s0 t ns V a"
  obtain s w where sw: "a = (s, w)" by (cases a)
  let ?e = "es (wk_calls w)" and ?w = "w\<lparr>wk_calls := Suc (wk_calls w)\<rparr>"
  have L: "digest_lib_ok L" and repo: "os_repo t = [''repos'', namespaceSegment ns]" using a by (simp_all add: walk_inv_def)
  have inv: "walk_inv L U s0 t ns V (s, ?w)" using a sw by simp
  have stop: "walk_stopped L U s0 t ns es yield (WalkErr c) b" if "ctx_Err ?e k = Some c" "walk_inv L U s0 t ns W b" for b c k W
  proof -
    have "\<not> live ?e" using that(1) by (auto simp: live_def)
    then show ?thesis using that(2) by (auto simp: walk_stopped_def)
  qed
  show "\<exists>r b. walk_visit L t es yield p d None a = Some (r, b) \<and> ?Q r b"
  proof (cases "ctx_Err ?e 0")
    case (Some c)
    then show ?thesis using stop [OF Some inv] by (simp add: sw walk_visit_def Let_def)
  next
    case None
    show ?thesis
    proof (cases "\<exists>x. \<not> d \<and> length p = 7 \<and> p ! 6 = ''blob'' \<and> parts_digest L (drop 2 p) = Some x")
      case False
      have "\<not> listed_blob L s0 ns p"
      proof
        assume "listed_blob L s0 ns p"
        then obtain x where x: "dl_Validate L x = None" "p = blob_name L ns x" by (auto simp: listed_blob_def shown_def)
        then have seven: "length p = 7" "p ! 6 = ''blob''" by (simp_all add: nth_append)
        then have "d" using False entry_name [OF L assms(1) seven, of x] x by blast
        then show False using assms(3) seven by simp
      qed
      then have "walk_inv L U s0 t ns (insert p V) (s, ?w)" using walk_idle [OF inv, of "{p}"] by simp
      moreover have "walk_visit L t es yield p d None a = Some (WalkOn, (s, ?w))"
        using False None assms(3) by (cases "parts_digest L (drop 2 p)") (auto simp: sw walk_visit_def Let_def repo numeral_2_eq_2)
      ultimately show ?thesis by simp
    next
      case True
      then obtain x where x: "\<not> d" "length p = 7" "p ! 6 = ''blob''" "parts_digest L (drop 2 p) = Some x" by blast
      then have v: "dl_Validate L x = None" "p = blob_name L ns x" using entry_name [OF L assms(1) x(2,3), of x] by simp_all
      then have "shown L s0 ns x" using assms(3) x(1) by (simp add: shown_def)
      note one = walk_one [OF inv assms(2) v(2) this]
      let ?b = "(s, ?w\<lparr>wk_out := wk_out ?w @ [Inr (walk_info L t x)]\<rparr>)"
      let ?r = "if \<not> yield (length (wk_out w)) then SkipAll else (case ctx_Err ?e 1 of None \<Rightarrow> WalkOn | Some c \<Rightarrow> WalkErr c)"
      have "walk_visit L t es yield p d None a = Some (?r, ?b)"
        using None x by (simp add: sw walk_visit_def Let_def repo numeral_2_eq_2)
      moreover have "?Q ?r ?b"
        using one stop [OF _ one, of 1] by (auto simp: walk_stopped_def split: option.splits)
      ultimately show ?thesis by blast
    qed
  qed
qed

lemma walk_told:
  assumes "errors_Is err FsErrNotExist \<or> \<not> quiet s0"
  shows "returns (walk_inv L U s0 t ns V) (walk_visit L t es yield p d (Some err))
    (\<lambda>r a. if r = WalkOn then walk_inv L U s0 t ns V a \<and> errors_Is err FsErrNotExist
           else r \<noteq> SkipDir \<and> walk_stopped L U s0 t ns es yield r a)"
proof (rule returnsI)
  fix a
  assume a: "walk_inv L U s0 t ns V a"
  obtain s w where sw: "a = (s, w)" by (cases a)
  have "\<not> live (es (wk_calls w))" if "ctx_Err (es (wk_calls w)) 0 = Some c" for c using that by (auto simp: live_def)
  then show "\<exists>r b. walk_visit L t es yield p d (Some err) a = Some (r, b) \<and>
      (if r = WalkOn then walk_inv L U s0 t ns V b \<and> errors_Is err FsErrNotExist
       else r \<noteq> SkipDir \<and> walk_stopped L U s0 t ns es yield r b)"
    using a assms by (cases "ctx_Err (es (wk_calls w)) 0") (auto simp: sw walk_visit_def Let_def walk_stopped_def)
qed

interpretation inventory: tree_walk "walk_inv L U s0 t ns" "listed_blob L s0 ns" "walk_stopped L U s0 t ns es yield"
    "walk_visit L t es yield" "[''repos'', namespaceSegment ns]" s0 6 for L U s0 t ns es yield
proof
  show "tree_ok s \<and> (\<forall>q. q \<notin> V \<longrightarrow> file_at s q = file_at s0 q)
      \<and> (\<forall>p. is_dir s p \<longrightarrow> prefix [''repos'', namespaceSegment ns] p \<longrightarrow> length p \<le> 6) \<and> fs_fault s = fs_fault s0"
    if "walk_inv L U s0 t ns V (s, x)" for V s x
  proof -
    have ok: "os_ok L U s0" and st: "still s0 s" using that by (simp_all add: walk_inv_def)
    have "length p \<le> 6" if "is_dir s0 p" "prefix [''repos'', namespaceSegment ns] p" for p
      using layoutD(2) [OF os_okD(2) [OF ok] that(1)] that(2) by (cases p) (auto simp: dir_place_def)
    then show ?thesis using os_okD(1) [OF ok] st by (auto elim!: stillE)
  qed
  show "file_at s0 q \<noteq> None" if "listed_blob L s0 ns q" for q using that by (auto simp: listed_blob_def shown_def)
  show "walk_inv L U s0 t ns V (tick s, x)" if "walk_inv L U s0 t ns V (s, x)" for V s x
    using that still_trans [of s0 s "tick s"] by (simp add: walk_inv_def)
qed (rule walk_idle walk_visited walk_told; assumption)+

text \<open>
  What \<open>Walk\<close> has yielded: distinct blobs of the namespace, and all of them, or not all because the consumer left, or
  an error at the end.
\<close>

definition walk_done ::
  "'h digest_lib \<Rightarrow> osfs \<Rightarrow> OsStore \<Rightarrow> string \<Rightarrow> (nat \<Rightarrow> bool) \<Rightarrow> bool \<Rightarrow> (error + osfs blobInfo) list \<Rightarrow> osfs \<Rightarrow> bool" where
  "walk_done L s t ns yield calm out s' \<longleftrightarrow>
     still s s' \<and> (\<exists>ds fin. out = map (\<lambda>d. Inr (walk_info L t d)) ds @ fin \<and> distinct ds \<and> set ds \<subseteq> dom (os_view L s ns)
       \<and> (fin = [] \<and> set ds = dom (os_view L s ns) \<or> fin = [] \<and> ds \<noteq> [] \<and> \<not> yield (length ds - 1)
          \<or> (\<exists>err. fin = [Inl err]) \<and> \<not> calm))"

lemma runs_Walk:
  assumes "digest_lib_ok L" "os_ok L U s" "6 \<le> n"
  shows "runs (OsStore_Walk n L (OsStores_Use st ns) es yield) s
    (walk_done L s (OsStores_Use st ns) ns yield (quiet s \<and> (\<forall>k. live (es k))))"
proof -
  let ?t = "OsStores_Use st ns" and ?w = "\<lparr>wk_calls = 0, wk_out = []\<rparr>"
  let ?J = "walk_inv L U s ?t ns" and ?root = "[''repos'', namespaceSegment ns]"
  have repo: "os_repo ?t = ?root" by (simp add: OsStores_Use_def)
  have J: "?J {} (s, ?w)" using assms(1,2) repo by (simp add: walk_inv_def)
  obtain err s' w r where run: "WalkDir n (walk_visit L ?t es yield) ?root (s, ?w) = Some (err, (s', w))"
      and r: "err = (case r of WalkErr err \<Rightarrow> Some err | _ \<Rightarrow> None)" "r = WalkOn \<Longrightarrow> ?J (below ?root) (s', w)"
        "r \<noteq> WalkOn \<Longrightarrow> r \<noteq> SkipDir \<and> walk_stopped L U s ?t ns es yield r (s', w)"
    by (rule inventory.WalkDir_ends [OF _ _ J, of n es yield]) (use assms(3) in simp_all)
  have all: "blob_name L ns d \<in> below ?root" for d by (simp add: below_def entry_path_def Let_def)
  obtain V where V: "?J V (s', w)" "r = WalkOn \<longrightarrow> V = below ?root" using r(2,3) by (cases "r = WalkOn") (auto simp: walk_stopped_def)
  obtain ds where ds: "wk_out w = map (\<lambda>d. Inr (walk_info L ?t d)) ds" "distinct ds" "still s s'"
      "set ds = {d. shown L s ns d \<and> blob_name L ns d \<in> V}"
    using V(1) by (auto simp: walk_inv_def)
  have "walk_done L s ?t ns yield (quiet s \<and> (\<forall>k. live (es k))) (wk_out w @ (case err of None \<Rightarrow> [] | Some err \<Rightarrow> [Inl err])) s'"
    unfolding walk_done_def
  proof (intro conjI exI)
    show "set ds \<subseteq> dom (os_view L s ns)" using ds(4) by (auto simp: dom_view)
    let ?fin = "case err of None \<Rightarrow> [] | Some err \<Rightarrow> [Inl err]"
    show "?fin = [] \<and> set ds = dom (os_view L s ns) \<or> ?fin = [] \<and> ds \<noteq> [] \<and> \<not> yield (length ds - 1)
        \<or> (\<exists>err. ?fin = [Inl err]) \<and> \<not> (quiet s \<and> (\<forall>k. live (es k)))"
      using r(1,3) ds(1,4) V(2) all by (cases r) (auto simp: walk_stopped_def dom_view)
  qed (use ds in simp_all)
  then show ?thesis using run by (simp add: OsStore_Walk_def runs_def repo)
qed

section \<open>The namespaces\<close>

definition inhabited :: "'h digest_lib \<Rightarrow> osfs \<Rightarrow> string set" where
  "inhabited L s = {ns. os_view L s ns \<noteq> Map.empty}"

text \<open>The enumeration after the entries named in \<open>N\<close>, and after it has returned.\<close>

definition ns_inv :: "'h digest_lib \<Rightarrow> osfs \<Rightarrow> string set \<Rightarrow> osfs \<times> listing \<Rightarrow> bool" where
  "ns_inv L s0 N a \<longleftrightarrow>
     still s0 (fst a) \<and> (\<exists>nss. ls_out (snd a) = map Inr nss \<and> distinct nss
       \<and> set nss = {ns \<in> inhabited L s0. namespaceSegment ns \<in> N})"

definition ns_left :: "'h digest_lib \<Rightarrow> osfs \<Rightarrow> (nat \<Rightarrow> bool) \<Rightarrow> bool \<Rightarrow> osfs \<times> listing \<Rightarrow> bool" where
  "ns_left L s0 yield calm a \<longleftrightarrow>
     still s0 (fst a) \<and> (\<exists>nss fin. ls_out (snd a) = map Inr nss @ fin \<and> distinct nss \<and> set nss \<subseteq> inhabited L s0
       \<and> (fin = [] \<and> nss \<noteq> [] \<and> \<not> yield (length nss - 1) \<or> (\<exists>err. fin = [Inl err]) \<and> \<not> calm))"

lemma returns_ns_look:
  "returns (ns_inv L s0 N) (ns_look e) (\<lambda>c a. ns_inv L s0 N a \<and> (c \<noteq> None \<longrightarrow> \<not> live e))"
  by (auto simp: returns_def ns_look_def ns_inv_def live_def)

lemma returns_ns_fails:
  assumes "\<not> calm"
  shows "returns (ns_inv L s0 N) (bind (ns_yield yield (Inl err)) (\<lambda>_. ret x)) (\<lambda>r a. r = x \<and> ns_left L s0 yield calm a)"
  using assms by (auto simp: returns_def ns_yield_def bind_def ret_def ns_inv_def ns_left_def)

lemma returns_ns_yield:
  assumes "ns \<in> inhabited L s0" "namespaceSegment ns \<notin> N"
  shows "returns (ns_inv L s0 N) (ns_yield yield (Inr ns))
    (\<lambda>r a. ns_inv L s0 (insert (namespaceSegment ns) N) a \<and> (\<not> r \<longrightarrow> ns_left L s0 yield calm a))"
proof (rule returnsI)
  fix a
  assume a: "ns_inv L s0 N a"
  obtain s l where sl: "a = (s, l)" by (cases a)
  obtain nss where n: "ls_out l = map Inr nss" "distinct nss" "set nss = {ns \<in> inhabited L s0. namespaceSegment ns \<in> N}" "still s0 s"
    using a sl by (auto simp: ns_inv_def)
  have d: "distinct (nss @ [ns])" using n(2,3) assms(2) by auto
  have "set (nss @ [ns]) = {x \<in> inhabited L s0. namespaceSegment x \<in> insert (namespaceSegment ns) N}"
    using n(3) assms by (auto simp: namespaceSegment_inj)
  then have "ns_inv L s0 (insert (namespaceSegment ns) N) (s, l\<lparr>ls_out := ls_out l @ [Inr ns]\<rparr>)"
    unfolding ns_inv_def using n(1,4) d by (intro conjI exI [of _ "nss @ [ns]"]) simp_all
  moreover have "ns_left L s0 yield calm (s, l\<lparr>ls_out := ls_out l @ [Inr ns]\<rparr>)" if "\<not> yield (length (ls_out l))"
    unfolding ns_left_def using n d that assms(1) by (intro conjI exI [of _ "nss @ [ns]"] exI [of _ "[]"]) auto
  ultimately show "\<exists>r b. ns_yield yield (Inr ns) a = Some (r, b) \<and>
      ns_inv L s0 (insert (namespaceSegment ns) N) b \<and> (\<not> r \<longrightarrow> ns_left L s0 yield calm b)"
    by (simp add: sl ns_yield_def)
qed

text \<open>The walk for one entry says whether its namespace has a blob.\<close>

lemma returns_ns_walk:
  assumes "digest_lib_ok L" "os_ok L U s0" "6 \<le> n"
  shows "returns (ns_inv L s0 N) (on_fs (OsStore_Walk n L (OsStores_Use i ns) es (\<lambda>_. False)))
    (\<lambda>out a. ns_inv L s0 N a \<and> (case out of
        [] \<Rightarrow> ns \<notin> inhabited L s0
      | Inl err # _ \<Rightarrow> \<not> (quiet s0 \<and> (\<forall>k. live (es k)))
      | Inr _ # _ \<Rightarrow> ns \<in> inhabited L s0))"
proof (rule returns_on_fs, rule returnsI)
  fix l s
  assume a: "ns_inv L s0 N (s, l)"
  then have st: "still s0 s" by (simp add: ns_inv_def)
  then have ok: "os_ok L U s" "quiet s = quiet s0" "os_view L s = os_view L s0" using assms(2) by (auto elim!: stillE)
  obtain out s' where w: "OsStore_Walk n L (OsStores_Use i ns) es (\<lambda>_. False) s = Some (out, s')"
      "walk_done L s (OsStores_Use i ns) ns (\<lambda>_. False) (quiet s \<and> (\<forall>k. live (es k))) out s'"
    using runsD [OF runs_Walk [OF assms(1) ok(1) assms(3), of i ns es "\<lambda>_. False"]] by blast
  obtain ds fin where d: "out = map (\<lambda>d. Inr (walk_info L (OsStores_Use i ns) d)) ds @ fin" "set ds \<subseteq> dom (os_view L s0 ns)"
      "fin = [] \<and> set ds = dom (os_view L s0 ns) \<or> fin = [] \<and> ds \<noteq> [] \<or> (\<exists>err. fin = [Inl err]) \<and> \<not> (quiet s0 \<and> (\<forall>k. live (es k)))"
  proof -
    from w(2) have "\<exists>ds fin. out = map (\<lambda>d. Inr (walk_info L (OsStores_Use i ns) d)) ds @ fin \<and> distinct ds \<and> set ds \<subseteq> dom (os_view L s0 ns)
       \<and> (fin = [] \<and> set ds = dom (os_view L s0 ns) \<or> fin = [] \<and> ds \<noteq> [] \<and> \<not> (\<lambda>_. False) (length ds - 1)
          \<or> (\<exists>err. fin = [Inl err]) \<and> \<not> (quiet s0 \<and> (\<forall>k. live (es k))))"
      unfolding walk_done_def ok(2,3) by (rule conjunct2)
    then show thesis by (elim exE conjE) (rule that, assumption+, simp)
  qed
  have inh: "ns \<in> inhabited L s0 \<longleftrightarrow> dom (os_view L s0 ns) \<noteq> {}" by (simp add: inhabited_def)
  have "ns_inv L s0 N (s', l)"
    using a w(2) still_trans [OF st, of s'] by (simp add: ns_inv_def walk_done_def)
  moreover have "case out of [] \<Rightarrow> ns \<notin> inhabited L s0 | Inl err # _ \<Rightarrow> \<not> (quiet s0 \<and> (\<forall>k. live (es k)))
      | Inr _ # _ \<Rightarrow> ns \<in> inhabited L s0"
  proof (cases ds)
    case Nil
    then show ?thesis using d inh by auto
  next
    case (Cons x xs)
    then have "dom (os_view L s0 ns) \<noteq> {}" using d(2) by auto
    then show ?thesis using d(1) Cons inh by simp
  qed
  ultimately show "\<exists>out s'. OsStore_Walk n L (OsStores_Use i ns) es (\<lambda>_. False) s = Some (out, s') \<and> ns_inv L s0 N (s', l) \<and>
      (case out of [] \<Rightarrow> ns \<notin> inhabited L s0 | Inl err # _ \<Rightarrow> \<not> (quiet s0 \<and> (\<forall>k. live (es k)))
       | Inr _ # _ \<Rightarrow> ns \<in> inhabited L s0)"
    using w(1) by blast
qed

lemma ns_skip:
  assumes "ns_inv L s0 N a" "\<And>ns. namespaceSegment ns = name \<Longrightarrow> ns \<notin> inhabited L s0"
  shows "ns_inv L s0 (insert name N) a"
proof -
  have "{ns \<in> inhabited L s0. namespaceSegment ns \<in> insert name N} = {ns \<in> inhabited L s0. namespaceSegment ns \<in> N}"
    using assms(2) by auto
  then show ?thesis using assms(1) by (simp add: ns_inv_def)
qed

lemma returns_ns_entries:
  assumes "digest_lib_ok L" "os_ok L U s0" "6 \<le> n" "calm = (quiet s0 \<and> live e \<and> (\<forall>name k. live (ws name k)))"
    and "distinct (map fst es)" "N \<inter> fst ` set es = {}"
    and "\<And>name ns. (name, False) \<in> set es \<Longrightarrow> namespaceSegment ns = name \<Longrightarrow> ns \<notin> inhabited L s0"
  shows "returns (ns_inv L s0 N) (ns_entries n L i e ws yield es)
    (\<lambda>r a. if r then ns_left L s0 yield calm a else ns_inv L s0 (N \<union> fst ` set es) a)"
  using assms(5-7)
proof (induction es arbitrary: N)
  case Nil
  then show ?case by (auto simp: returns_def ret_def)
next
  case (Cons x es)
  obtain name d where x: "x = (name, d)" by (cases x)
  let ?Q = "\<lambda>r a. if r then ns_left L s0 yield calm a else ns_inv L s0 (N \<union> fst ` set (x # es)) a"
  let ?fails = "\<lambda>err. bind (ns_yield yield (Inl err)) (\<lambda>_. ret True)"
  have on: "returns (ns_inv L s0 (insert name N)) (ns_entries n L i e ws yield es) ?Q"
  proof (rule returns_post [OF Cons.IH])
    show "distinct (map fst es)" "insert name N \<inter> fst ` set es = {}" using Cons.prems(1,2) x by auto
    show "ns \<notin> inhabited L s0" if "(name', False) \<in> set es" "namespaceSegment ns = name'" for name' ns
      using Cons.prems(3) [OF _ that(2)] that(1) by simp
  qed (simp add: x split: if_splits)
  have skip: "returns (\<lambda>a. ns_inv L s0 N a \<and> C) (ns_entries n L i e ws yield es) ?Q"
    if "C \<Longrightarrow> \<forall>ns. namespaceSegment ns = name \<longrightarrow> ns \<notin> inhabited L s0" for C
    by (rule returns_pre [OF on]) (use ns_skip that in blast)
  have fails: "returns (\<lambda>a. ns_inv L s0 N' a \<and> C) (?fails err) ?Q" if "C \<Longrightarrow> \<not> calm" for C N' err
  proof (cases C)
    case True
    show ?thesis by (rule returns_conseq [OF returns_ns_fails [OF that [OF True]]]) auto
  qed (simp add: returns_def)
  have new: "name \<notin> N" using Cons.prems(2) x by auto
  show ?case
    unfolding x ns_entries.simps Let_def
  proof (rule returns_bind [OF returns_ns_look], unfold x [symmetric], goal_cases)
    case (1 c)
    show ?case
    proof (cases c)
      case (Some err)
      then show ?thesis using fails [of "\<not> live e"] assms(4) by simp
    next
      case None
      show ?thesis
      proof (cases "d \<and> (\<exists>ns. namespaceSegment ns = name)")
        case False
        have "\<forall>ns. namespaceSegment ns = name \<longrightarrow> ns \<notin> inhabited L s0"
          using False Cons.prems(3) [of name] x by auto
        moreover have "namespaceSegment ns \<noteq> name" if "d" "namespaceID name = Inr ns" for ns using that False by blast
        ultimately show ?thesis using None skip [of True] by (cases "namespaceID name") auto
      next
        case True
        then obtain ns where ns: "d" "namespaceSegment ns = name" by blast
        then have id: "namespaceID name = Inr ns" by auto
        have walk: "returns (ns_inv L s0 N)
            (bind (on_fs (OsStore_Walk n L (OsStores_Use i ns) (ws name) (\<lambda>_. False))) (\<lambda>out. case out of
                        [] \<Rightarrow> ns_entries n L i e ws yield es
                      | Inl err # _ \<Rightarrow> ?fails err
                      | Inr _ # _ \<Rightarrow>
                          bind (ns_yield yield (Inr ns)) (\<lambda>go_on.
                            if \<not> go_on then ret True
                            else bind (ns_look e) (\<lambda>c. case c of Some err \<Rightarrow> ?fails err | None \<Rightarrow> ns_entries n L i e ws yield es)))) ?Q"
        proof (rule returns_bind [OF returns_ns_walk [OF assms(1-3)]], goal_cases)
          case (1 out)
          have found: "returns (\<lambda>a. ns_inv L s0 N a \<and> ns \<in> inhabited L s0) (bind (ns_yield yield (Inr ns)) (\<lambda>go_on.
                            if \<not> go_on then ret True
                            else bind (ns_look e) (\<lambda>c. case c of Some err \<Rightarrow> ?fails err | None \<Rightarrow> ns_entries n L i e ws yield es))) ?Q"
          proof (cases "ns \<in> inhabited L s0")
            case True
            have y: "returns (ns_inv L s0 N) (ns_yield yield (Inr ns))
                (\<lambda>r a. ns_inv L s0 (insert name N) a \<and> (\<not> r \<longrightarrow> ns_left L s0 yield calm a))"
              using returns_ns_yield [OF True, of N yield calm] new ns(2) by simp
            have "returns (ns_inv L s0 (insert name N)) (bind (ns_look e) (\<lambda>c. case c of Some err \<Rightarrow> ?fails err | None \<Rightarrow> ns_entries n L i e ws yield es)) ?Q"
            proof (rule returns_bind [OF returns_ns_look], goal_cases)
              case (1 c)
              then show ?case using fails [of "\<not> live e" "insert name N"] on assms(4) by (cases c) simp_all
            qed
            then have "returns (\<lambda>a. ns_inv L s0 (insert name N) a \<and> (\<not> r \<longrightarrow> ns_left L s0 yield calm a)) (if \<not> r then ret True
                else bind (ns_look e) (\<lambda>c. case c of Some err \<Rightarrow> ?fails err | None \<Rightarrow> ns_entries n L i e ws yield es)) ?Q" for r
              by (cases r) (auto simp: returns_def ret_def)
            from returns_bind [OF y this] show ?thesis using True by (simp add: returns_def)
          qed (simp add: returns_def)
          show ?case
          proof (cases out)
            case Nil
            have "\<forall>ns'. namespaceSegment ns' = name \<longrightarrow> ns' \<notin> inhabited L s0" if "ns \<notin> inhabited L s0"
              using ns(2) that by (auto simp: namespaceSegment_inj)
            from skip [OF this] show ?thesis by (simp only: Nil list.case)
          next
            case (Cons y ys)
            then show ?thesis
              using found fails [of "\<not> (quiet s0 \<and> (\<forall>k. live (ws name k)))" N] assms(4) by (cases y) (auto simp only: list.case sum.case)
          qed
        qed
        show ?thesis using None ns id walk by simp
      qed
    qed
  qed
qed

lemma returns_dir_ReadDir:
  "returns (ns_inv L s0 N) (on_fs (dir_ReadDir left)) (\<lambda>(es, err) a. ns_inv L s0 N a \<and> (\<exists>k. es = take k left)
    \<and> (case err of None \<Rightarrow> left \<noteq> [] \<and> es = take 128 left
       | Some err \<Rightarrow> if errors_Is err EOF then left = [] else \<not> quiet s0))"
proof (rule returns_on_fs, rule returnsI)
  fix l s
  assume a: "ns_inv L s0 N (s, l)"
  then have st: "still s0 s" by (simp add: ns_inv_def)
  have t: "ns_inv L s0 N (tick s, l)" using a still_trans [OF st, of "tick s"] by (simp add: ns_inv_def)
  have q: "quiet s = quiet s0" using st by (auto elim: stillE)
  show "\<exists>r s'. dir_ReadDir left s = Some (r, s') \<and> (case r of (es, err) \<Rightarrow> \<lambda>a. ns_inv L s0 N a \<and> (\<exists>k. es = take k left)
    \<and> (case err of None \<Rightarrow> left \<noteq> [] \<and> es = take 128 left
       | Some err \<Rightarrow> if errors_Is err EOF then left = [] else \<not> quiet s0)) (s', l)"
  proof (cases "fs_fault s (fs_sys s)")
    case None
    then show ?thesis using t by (auto simp: dir_ReadDir_def)
  next
    case (Some f)
    then show ?thesis using t fault_not_quiet [OF Some] q by (auto simp: dir_ReadDir_def take_take)
  qed
qed

lemma returns_absurd: "\<not> C \<Longrightarrow> returns (\<lambda>a. P a \<and> C) m Q"
  by (simp add: returns_def)

lemma returns_ns_batches:
  assumes "digest_lib_ok L" "os_ok L U s0" "6 \<le> n" "calm = (quiet s0 \<and> live e \<and> (\<forall>name k. live (ws name k)))"
    and "distinct (map fst left)" "N \<inter> fst ` set left = {}"
    and "\<And>name ns. (name, False) \<in> set left \<Longrightarrow> namespaceSegment ns = name \<Longrightarrow> ns \<notin> inhabited L s0"
  shows "returns (ns_inv L s0 N) (ns_batches n L i e ws yield left)
    (\<lambda>_ a. ns_inv L s0 (N \<union> fst ` set left) a \<or> ns_left L s0 yield calm a)"
  using assms(5-7)
proof (induction "length left" arbitrary: left N rule: less_induct)
  case less
  let ?Q = "\<lambda>_ a. ns_inv L s0 (N \<union> fst ` set left) a \<or> ns_left L s0 yield calm a"
  let ?onward = "if left = [] then ret () else ns_batches n L i e ws yield (drop 128 left)"
  have fails: "returns (ns_inv L s0 N') (bind (ns_yield yield (Inl err)) (\<lambda>_. ret ())) ?Q" if "\<not> calm" for N' err
    by (rule returns_post [OF returns_ns_fails [OF that]]) simp
  have parts: "set (take k left) \<subseteq> set left" "set (drop k left) \<subseteq> set left" for k
    by (rule set_take_subset, rule set_drop_subset)
  have apart: "fst ` set (take k left) \<inter> fst ` set (drop k left) = {}" for k
    using set_take_disj_set_drop_if_distinct [OF less.prems(1), of k k] by (simp add: take_map drop_map)
  have batch: "returns (ns_inv L s0 N) (ns_entries n L i e ws yield (take k left))
      (\<lambda>r a. if r then ns_left L s0 yield calm a else ns_inv L s0 (N \<union> fst ` set (take k left)) a)" for k
  proof (rule returns_ns_entries [OF assms(1-4)])
    show "distinct (map fst (take k left))" using less.prems(1) by (simp add: take_map [symmetric] distinct_take)
    show "N \<inter> fst ` set (take k left) = {}" using less.prems(2) parts(1) by blast
    show "ns \<notin> inhabited L s0" if "(name, False) \<in> set (take k left)" "namespaceSegment ns = name" for name ns
      using less.prems(3) [OF _ that(2)] that(1) parts(1) by blast
  qed
  have onward: "returns (ns_inv L s0 (N \<union> fst ` set (take 128 left))) (ns_batches n L i e ws yield (drop 128 left)) ?Q" if "left \<noteq> []"
  proof -
    have "N \<union> fst ` set (take 128 left) \<union> fst ` set (drop 128 left) = N \<union> fst ` set left"
      by (metis Un_assoc append_take_drop_id image_Un set_append)
    moreover have "returns (ns_inv L s0 (N \<union> fst ` set (take 128 left))) (ns_batches n L i e ws yield (drop 128 left))
        (\<lambda>_ a. ns_inv L s0 (N \<union> fst ` set (take 128 left) \<union> fst ` set (drop 128 left)) a \<or> ns_left L s0 yield calm a)"
    proof (rule less.hyps)
      show "length (drop 128 left) < length left" using that by (cases left) simp_all
      show "distinct (map fst (drop 128 left))" using less.prems(1) by (simp add: drop_map [symmetric] distinct_drop)
      show "(N \<union> fst ` set (take 128 left)) \<inter> fst ` set (drop 128 left) = {}"
        using less.prems(2) parts(2) [of 128] apart [of 128] by blast
      show "ns \<notin> inhabited L s0" if "(name, False) \<in> set (drop 128 left)" "namespaceSegment ns = name" for name ns
        using less.prems(3) [OF _ that(2)] that(1) parts(2) by blast
    qed
    ultimately show ?thesis by simp
  qed
  show ?case
    unfolding ns_batches.simps [of _ _ _ _ _ _ left] Let_def
  proof (rule returns_bind [OF returns_ns_look], goal_cases)
    case (1 c)
    show ?case
    proof (cases c)
      case (Some err)
      then show ?thesis using fails [of N err] assms(4) by (cases "live e") (simp_all add: returns_def)
    next
      case None
      have "returns (ns_inv L s0 N) (bind (on_fs (dir_ReadDir left)) (\<lambda>(entries, readErr).
             bind (ns_entries n L i e ws yield entries) (\<lambda>returned.
               if returned then ret ()
               else (case readErr of
                       None \<Rightarrow> ?onward
                     | Some err \<Rightarrow> if errors_Is err EOF then ret () else bind (ns_yield yield (Inl err)) (\<lambda>_. ret ()))))) ?Q"
      proof (rule returns_bind [OF returns_dir_ReadDir], goal_cases)
        case (1 x)
        obtain es readErr where x: "x = (es, readErr)" by (cases x)
        show ?case
        proof (cases "(\<exists>k. es = take k left) \<and> (case readErr of None \<Rightarrow> left \<noteq> [] \<and> es = take 128 left
            | Some err \<Rightarrow> if errors_Is err EOF then left = [] else \<not> quiet s0)")
          case True
          then obtain k where k: "es = take k left" by blast
          have "returns (ns_inv L s0 N) (bind (ns_entries n L i e ws yield es) (\<lambda>returned.
               if returned then ret ()
               else (case readErr of
                       None \<Rightarrow> ?onward
                     | Some err \<Rightarrow> if errors_Is err EOF then ret () else bind (ns_yield yield (Inl err)) (\<lambda>_. ret ())))) ?Q"
            unfolding k
          proof (rule returns_bind [OF batch], goal_cases)
            case (1 returned)
            show ?case
            proof (cases returned)
              case False
              have "returns (ns_inv L s0 (N \<union> fst ` set es)) (case readErr of
                       None \<Rightarrow> ?onward
                     | Some err \<Rightarrow> if errors_Is err EOF then ret () else bind (ns_yield yield (Inl err)) (\<lambda>_. ret ())) ?Q"
              proof (cases readErr)
                case None
                then show ?thesis using onward True by simp
              next
                case (Some err)
                then show ?thesis
                  using True k fails [of "N \<union> fst ` set es" err] assms(4) by (cases "errors_Is err EOF") (simp_all add: returns_def ret_def)
              qed
              then show ?thesis using False k by simp
            qed (simp add: returns_def ret_def)
          qed
          then show ?thesis unfolding x prod.case by (rule returns_pre) (erule conjunct1)
        next
          case False
          then show ?thesis unfolding x prod.case by (rule returns_absurd)
        qed
      qed
      then show ?thesis unfolding None option.case by (rule returns_pre) (erule conjunct1)
    qed
  qed
qed

definition namespaces_done ::
  "'h digest_lib \<Rightarrow> osfs \<Rightarrow> (nat \<Rightarrow> bool) \<Rightarrow> bool \<Rightarrow> (error + string) list \<Rightarrow> osfs \<Rightarrow> bool" where
  "namespaces_done L s yield calm out s' \<longleftrightarrow>
     still s s' \<and> (\<exists>nss fin. out = map Inr nss @ fin \<and> distinct nss \<and> set nss \<subseteq> inhabited L s
       \<and> (fin = [] \<and> set nss = inhabited L s \<or> fin = [] \<and> nss \<noteq> [] \<and> \<not> yield (length nss - 1)
          \<or> (\<exists>err. fin = [Inl err]) \<and> \<not> calm))"

lemma inhabited_dir:
  assumes "os_ok L U s" "ns \<in> inhabited L s"
  shows "is_dir s [''repos'', namespaceSegment ns]" "is_dir s [''repos'']"
proof -
  obtain d where "d \<in> dom (os_view L s ns)" using assms(2) by (fastforce simp: inhabited_def)
  then have "exists_at s (blob_name L ns d)" by (auto simp: dom_view shown_def exists_at_def)
  then show "is_dir s [''repos'', namespaceSegment ns]" "is_dir s [''repos'']"
    by (auto intro!: parent_exists [OF os_okD(1) [OF assms(1)]] simp: entry_path_def Let_def)
qed

lemma runs_Namespaces:
  assumes "digest_lib_ok L" "os_ok L U s" "6 \<le> n"
  shows "runs (OsStores_Namespaces n L st e ws yield) s
    (namespaces_done L s yield (quiet s \<and> live e \<and> (\<forall>name k. live (ws name k))))"
proof -
  let ?calm = "quiet s \<and> live e \<and> (\<forall>name k. live (ws name k))"
  have bad: "namespaces_done L s yield ?calm [Inl err] s'" if "\<not> ?calm" "still s s'" for err s'
    using that unfolding namespaces_done_def by (intro conjI exI [of _ "[]"] exI [of _ "[Inl err]"]) auto
  show ?thesis
  proof (cases "ctx_Err e 0")
    case (Some c)
    then have "\<not> live e" by (auto simp: live_def)
    then show ?thesis using Some bad [of s c] by (simp add: OsStores_Namespaces_def run_simps)
  next
    case None
    have "runs (bind (os_OpenDir [''repos'']) (\<lambda>r. case r of
            Inl err \<Rightarrow> ret (if \<not> errors_Is err FsErrNotExist then [Inl err] else [])
          | Inr _ \<Rightarrow> (\<lambda>s.
              case ns_batches n L st (env_after 1 e) ws yield (dir_entries s [''repos'']) (s, \<lparr>ls_looks = 0, ls_out = []\<rparr>) of
                None \<Rightarrow> None
              | Some (_, (s', l)) \<Rightarrow> Some (ls_out l, s')))) s (namespaces_done L s yield ?calm)"
    proof (rule runs_bindI [where R = "\<lambda>r s'. still s s' \<and> (case r of
        Inl err \<Rightarrow> if errors_Is err FsErrNotExist then \<not> is_dir s [''repos''] else \<not> quiet s | Inr _ \<Rightarrow> True)"])
      have "file_at s [''repos''] = None"
      proof (rule ccontr)
        assume "file_at s [''repos''] \<noteq> None"
        then show False using layoutD(1) [OF os_okD(2) [OF assms(2)], of "[''repos'']"] by (auto simp: file_place_def)
      qed
      then show "runs (os_OpenDir [''repos'']) s (\<lambda>r s'. still s s' \<and> (case r of
          Inl err \<Rightarrow> if errors_Is err FsErrNotExist then \<not> is_dir s [''repos''] else \<not> quiet s | Inr _ \<Rightarrow> True))"
        unfolding os_OpenDir_def by (intro runs_sys) auto
    next
      fix r s1
      assume s1: "still s s1 \<and> (case r of
          Inl err \<Rightarrow> if errors_Is err FsErrNotExist then \<not> is_dir s [''repos''] else \<not> quiet s | Inr _ \<Rightarrow> True)"
      show "runs (case r of
            Inl err \<Rightarrow> ret (if \<not> errors_Is err FsErrNotExist then [Inl err] else [])
          | Inr _ \<Rightarrow> (\<lambda>s.
              case ns_batches n L st (env_after 1 e) ws yield (dir_entries s [''repos'']) (s, \<lparr>ls_looks = 0, ls_out = []\<rparr>) of
                None \<Rightarrow> None
              | Some (_, (s', l)) \<Rightarrow> Some (ls_out l, s'))) s1 (namespaces_done L s yield ?calm)"
      proof (cases r)
        case (Inl err)
        show ?thesis
        proof (cases "errors_Is err FsErrNotExist")
          case True
          then have "inhabited L s = {}" using s1 Inl inhabited_dir(2) [OF assms(2)] by auto
          then show ?thesis using True s1 Inl by (simp add: run_simps namespaces_done_def)
        next
          case False
          then show ?thesis using s1 Inl bad [of s1 err] by (simp add: run_simps)
        qed
      next
        case (Inr u)
        let ?left = "dir_entries s1 [''repos'']" and ?l = "\<lparr>ls_looks = 0, ls_out = []\<rparr>"
        have left: "?left = dir_entries s [''repos'']" using s1 by (auto simp: dir_entries_def elim!: stillE)
        have e: "live (env_after 1 e) \<longrightarrow> live e"
          using None by (auto simp: live_def env_after_def gr0_conv_Suc) (metis None Suc_pred less_Suc_eq_0_disj not_gr_zero plus_1_eq_Suc)
        have "returns (ns_inv L s {}) (ns_batches n L st (env_after 1 e) ws yield ?left)
          (\<lambda>_ a. ns_inv L s ({} \<union> fst ` set ?left) a \<or> ns_left L s yield ?calm a)"
        proof (rule returns_ns_batches [OF assms])
          show "?calm = (quiet s \<and> live (env_after 1 e) \<and> (\<forall>name k. live (ws name k)))" using e by auto
          show "distinct (map fst ?left)" unfolding left by (rule distinct_dir_entries [OF os_okD(1) [OF assms(2)]])
          show "ns \<notin> inhabited L s" if "(name, False) \<in> set ?left" "namespaceSegment ns = name" for name ns
            using inhabited_dir(1) [OF assms(2), of ns] that tree_okD(2) [OF os_okD(1) [OF assms(2)]]
            unfolding left set_dir_entries by auto
        qed simp
        moreover have "ns_inv L s {} (s1, ?l)" using s1 by (simp add: ns_inv_def)
        ultimately obtain y s2 l where run: "ns_batches n L st (env_after 1 e) ws yield ?left (s1, ?l) = Some (y, (s2, l))"
            and post: "ns_inv L s (fst ` set ?left) (s2, l) \<or> ns_left L s yield ?calm (s2, l)"
          using returnsD by fastforce
        have "namespaceSegment ns \<in> fst ` set ?left" if "ns \<in> inhabited L s" for ns
          using inhabited_dir(1) [OF assms(2) that] unfolding left by (force simp: set_dir_entries intro: rev_image_eqI [of "(namespaceSegment ns, True)"])
        then have all: "{ns \<in> inhabited L s. namespaceSegment ns \<in> fst ` set ?left} = inhabited L s" by auto
        have "namespaces_done L s yield ?calm (ls_out l) s2"
          using post
        proof
          assume "ns_inv L s (fst ` set ?left) (s2, l)"
          then obtain nss where "still s s2" "ls_out l = map Inr nss" "distinct nss" "set nss = inhabited L s"
            unfolding ns_inv_def all by auto
          then show ?thesis unfolding namespaces_done_def by (intro conjI exI [of _ nss] exI [of _ "[]"]) simp_all
        next
          assume "ns_left L s yield ?calm (s2, l)"
          then show ?thesis unfolding ns_left_def namespaces_done_def fst_conv snd_conv by blast
        qed
        then show ?thesis using Inr run by (simp add: runs_def)
      qed
    qed
    then show ?thesis unfolding OsStores_Namespaces_def None by (simp only: option.case)
  qed
qed

end
