(* ===== verification/OsUploads.thy ===== *)
theory OsUploads
  imports OsRun OsInventory
begin

text \<open>
  Histories of a directory store with uploads: beginning, appending, looking, committing and aborting, on any
  number of uploads, between sweeps and all the other operations and with any system call failing. What is known of
  an upload is what its client was told: the bytes whose offset \<open>Append\<close> has returned.
\<close>

section \<open>Histories\<close>

text \<open>The bytes of an upload after an \<open>Append\<close> of \<open>inc\<close>, judged by the offset that it returned.\<close>

definition accepted :: "bytes \<Rightarrow> bytes \<Rightarrow> int \<times> error option \<Rightarrow> bytes" where
  "accepted data inc res = (if fst res = int (length (data @ inc)) then data @ inc else data)"

text \<open>The uploads that were begun: the namespace and the accepted bytes of each.\<close>

type_synonym uploads = "string \<Rightarrow> (string \<times> bytes) option"

inductive up_reach :: "manifest_codec \<Rightarrow> 'h digest_lib \<Rightarrow> bytes set \<Rightarrow> OsStores \<Rightarrow> osfs \<Rightarrow> uploads \<Rightarrow> bool" for C L U st where
  start: "fresh_root s \<Longrightarrow> up_reach C L U st s Map.empty"
| change: "up_reach C L U st s T \<Longrightarrow> weather s s' \<Longrightarrow> up_reach C L U st s' T"
| operation: "up_reach C L U st s T \<Longrightarrow> unblocked s \<Longrightarrow> within L U st s op \<Longrightarrow> os_exec L st op s = Some (r, s') \<Longrightarrow>
    up_reach C L U st s' T"
| begins: "up_reach C L U st s T \<Longrightarrow> unblocked s \<Longrightarrow> dated (oss_stage st) e \<Longrightarrow> length b = 16 \<Longrightarrow>
    OsStore_Begin C L (Inr b) (OsStores_Use st ns) e algo s = Some (r, s') \<Longrightarrow>
    up_reach C L U st s' (case r of Inl _ \<Rightarrow> T | Inr sid \<Rightarrow> T(sid \<mapsto> (ns, [])))"
| appends: "up_reach C L U st s T \<Longrightarrow> T sid = Some (ns, data) \<Longrightarrow> unblocked s \<Longrightarrow> dated (oss_stage st) e \<Longrightarrow> context_ok e \<Longrightarrow>
    length (data @ fst (io_Copy r)) < 2 ^ 63 \<Longrightarrow> osStage_Append C L (OsStores_Use st ns) e sid off r s = Some (res, s') \<Longrightarrow>
    up_reach C L U st s' (T(sid \<mapsto> (ns, accepted data (fst (io_Copy r)) res)))"
| stats: "up_reach C L U st s T \<Longrightarrow> T sid = Some (ns, data) \<Longrightarrow> unblocked s \<Longrightarrow>
    osStage_Stat C L (OsStores_Use st ns) e sid s = Some (i, s') \<Longrightarrow> up_reach C L U st s' T"
| resumes: "up_reach C L U st s T \<Longrightarrow> T sid = Some (ns, data) \<Longrightarrow> unblocked s \<Longrightarrow>
    OsStore_Resume C L (OsStores_Use st ns) e sid s = Some (x, s') \<Longrightarrow> up_reach C L U st s' T"
| commits: "up_reach C L U st s T \<Longrightarrow> T sid = Some (ns, data) \<Longrightarrow> unblocked s \<Longrightarrow> dated (oss_stage st) e \<Longrightarrow> data \<in> U \<Longrightarrow>
    osStage_Commit C L (OsStores_Use st ns) e sid m s = Some (y, s') \<Longrightarrow> up_reach C L U st s' T"
| aborts: "up_reach C L U st s T \<Longrightarrow> T sid = Some (ns, data) \<Longrightarrow> unblocked s \<Longrightarrow> dated (oss_stage st) e \<Longrightarrow> data \<in> U \<Longrightarrow>
    osStage_Abort C L (OsStores_Use st ns) e sid s = Some (err, s') \<Longrightarrow> up_reach C L U st s' T"
| reclaims: "up_reach C L U st s T \<Longrightarrow> unblocked s \<Longrightarrow> 5 \<le> n \<Longrightarrow> OsStores_Reclaim n L st e es grace s = Some (y, s') \<Longrightarrow>
    up_reach C L U st s' T"

section \<open>The invariant\<close>

definition up_ok :: "manifest_codec \<Rightarrow> 'h digest_lib \<Rightarrow> bytes set \<Rightarrow> osfs \<Rightarrow> uploads \<Rightarrow> bool" where
  "up_ok C L U s T \<longleftrightarrow>
     os_ok L (owning U []) s \<and> (\<forall>sid ns data. T sid = Some (ns, data) \<longrightarrow> (\<exists>rec. upload_at C L s ns sid rec data))"

lemma over_owning: "over U = owning U []"
  by (simp add: over_def owning_def)

lemma other_upload:
  assumes "keeps (owning U [upload_dir sid]) s s'" "upload_at C L s ns' sid' rec data" "sid' \<noteq> sid"
  shows "upload_at C L s' ns' sid' rec data"
  by (rule upload_at_keeps [OF assms(2,1)]) (use assms(3) in \<open>simp_all add: framed_owning upload_dir_def\<close>)

text \<open>A step on one upload leaves the others.\<close>

lemma up_ok_step:
  assumes "up_ok C L U s T" "os_ok L (owning U []) s'" "keeps (owning U [upload_dir sid]) s s'" "upload_at C L s' ns sid rec data"
  shows "up_ok C L U s' (T(sid \<mapsto> (ns, data)))"
  using assms other_upload [OF assms(3)] unfolding up_ok_def by (metis fun_upd_apply option.inject prod.inject)

lemma up_ok_same:
  assumes "up_ok C L U s T" "T sid = Some (ns, data)" "os_ok L (owning U []) s'" "keeps (owning U [upload_dir sid]) s s'"
    and "upload_at C L s' ns sid rec data"
  shows "up_ok C L U s' T"
  using up_ok_step [OF assms(1,3-5)] assms(2) by (simp add: map_upd_triv)

lemma up_ok_safe:
  assumes "up_ok C L U s T" "safe L (owning U [upload_dir sid]) s s'" "upload_at C L s' ns sid rec data"
  shows "up_ok C L U s' (T(sid \<mapsto> (ns, data)))"
  using up_ok_step [OF assms(1) _ safe_keeps [OF assms(2)] assms(3)] safeD(1) [OF assms(2)] by simp

lemma up_ok_frame:
  assumes "up_ok C L U s T" "os_ok L (owning U []) s'" "keeps (owning U []) s s'"
  shows "up_ok C L U s' T"
proof -
  have "upload_at C L s' ns sid rec data" if "upload_at C L s ns sid rec data" for ns sid rec data
    by (rule upload_at_keeps [OF that assms(3)]) simp_all
  then show ?thesis using assms(1,2) unfolding up_ok_def by blast
qed

lemma upload_at_weather: "weather s s' \<Longrightarrow> upload_at C L s' = upload_at C L s"
proof -
  assume w: "weather s s'"
  have f: "file_at s' = file_at s" "fs_data s' = fs_data s" using weather_simps [OF w] by (simp_all add: fun_eq_iff)
  have sl: "sole s' = sole s" by (intro ext) (simp only: sole_def f)
  have h: "holds s' = holds s" "holds_alone s' = holds_alone s" by (intro ext, simp only: holds_def holds_alone_def f sl)+
  show ?thesis by (intro ext) (simp only: upload_at_def recorded_def upload_file_def f h)
qed

lemma commit_keeps:
  assumes "commit_outcome C L U s ns sid rec data m r s'"
  shows "os_ok L (owning U []) s' \<and> keeps (owning U [upload_dir sid]) s s' \<and> (\<exists>rec'. upload_at C L s' ns sid rec' data)"
proof -
  obtain d lb where "commit_moved L (owning U [upload_dir sid]) s ns d lb s'" "\<exists>rec'. upload_at C L s' ns sid rec' data"
    using assms by (auto simp: commit_outcome_def Let_def)
  then show ?thesis using commit_movedD(1,2) [of L "owning U [upload_dir sid]" s ns d lb s'] by simp
qed

lemma abort_keeps:
  assumes "abort_outcome C L U s ns sid rec data e r s'"
  shows "os_ok L (owning U []) s' \<and> keeps (owning U [upload_dir sid]) s s' \<and> (\<exists>rec'. upload_at C L s' ns sid rec' data)"
proof -
  obtain d lb where "commit_moved L (owning U [upload_dir sid]) s ns d lb s'" "\<exists>rec'. upload_at C L s' ns sid rec' data"
    using assms by (auto simp: abort_outcome_def commit_moved_def split: if_splits)
  then show ?thesis using commit_movedD(1,2) [of L "owning U [upload_dir sid]" s ns d lb s'] by simp
qed

lemma append_accepted:
  assumes "append_done C L U s ns sid rec data off inc res s'"
  shows "\<exists>rec'. upload_at C L s' ns sid rec' (accepted data inc res)"
proof -
  obtain rec' data' where a: "upload_at C L s' ns sid rec' data'" "data' = data \<or> data' = data @ inc"
      "fst res = int (length data') \<or> fst res = 0 \<and> data' = data"
    using assms by (auto simp: append_done_def)
  have "inc = []" if "fst res = int (length (data @ inc))" "data' = data"
  proof -
    have "int (length data) + int (length inc) \<le> int (length data)"
      using a(3) that(1) unfolding that(2) length_append of_nat_add by (elim disjE conjE) linarith+
    then show ?thesis by simp
  qed
  moreover have "fst res = int (length (data @ inc))" if "data' \<noteq> data" using a(2,3) that by auto
  ultimately have "accepted data inc res = data'" using a(2) unfolding accepted_def by (metis append_Nil2)
  then show ?thesis using a(1) by blast
qed

lemma up_ok_begin:
  assumes ok: "up_ok C L U s T" and b: "begun C L U s ns sid r s'"
  shows "up_ok C L U s' (case r of Inl _ \<Rightarrow> T | Inr x \<Rightarrow> T(x \<mapsto> (ns, [])))"
proof -
  have no: "T sid = None" if new: "\<not> exists_at s (upload_dir sid)"
  proof (cases "T sid")
    case (Some a)
    then obtain n data where "T sid = Some (n, data)" by (cases a) auto
    then obtain rec where "upload_at C L s n sid rec data" using ok unfolding up_ok_def by blast
    then have "is_dir s (upload_dir sid)" using recorded_dirs(1) [OF os_okD(1)] ok by (auto simp: up_ok_def upload_at_def)
    then show ?thesis using new by (simp add: exists_at_def)
  qed
  show ?thesis
  proof (cases "exists_at s (upload_dir sid)")
    case True
    then have "safe L (owning U []) s s'" "\<exists>err. r = Inl err" using b by (auto simp: begun_def split: sum.splits)
    then show ?thesis using up_ok_frame [OF ok safeD(1) safe_keeps] by auto
  next
    case False
    then have s: "safe L (owning U [upload_dir sid]) s s'" using b by (simp add: begun_def)
    have ok': "os_ok L (owning U []) s'" using safeD(1) [OF s] by simp
    show ?thesis
    proof (cases r)
      case (Inl err)
      have "upload_at C L s' n x rec data" if "T x = Some (n, data)" "upload_at C L s n x rec data" for n x rec data
        using other_upload [OF safe_keeps [OF s] that(2)] no [OF False] that(1) by (cases "x = sid") simp_all
      then show ?thesis using ok ok' Inl unfolding up_ok_def by (metis sum.case(1))
    next
      case (Inr x)
      then obtain rec where "upload_at C L s' ns sid rec []" "x = sid" using b by (auto simp: begun_def)
      then show ?thesis using up_ok_step [OF ok ok' safe_keeps [OF s]] Inr by simp
    qed
  qed
qed

lemma up_okD: "up_ok C L U s T \<Longrightarrow> T sid = Some (ns, data) \<Longrightarrow> os_ok L (owning U []) s \<and> (\<exists>rec. upload_at C L s ns sid rec data)"
  unfolding up_ok_def by blast

lemma ok_view:
  assumes "os_ok L (owning U []) s" "os_view L s ns d = Some x"
  shows "names_bytes L d (fst x) \<and> fst x \<in> U"
proof -
  have valid: "dl_Validate L d = None" using assms(2) by (auto simp: os_view_def split: if_splits)
  obtain i where i: "file_at s (entry_path L ns d @ [''blob'']) = Some i" "fs_data s i = fst x"
    using assms(2) valid by (cases "file_at s (entry_path L ns d @ [''blob''])") (auto simp: os_view_def)
  show ?thesis using os_okD(3) [OF assms(1) valid os_okD(4) [OF assms(1) valid i(1)]] i(2) by simp
qed

lemma up_reach_ok:
  assumes L: "digest_lib_ok L" and C: "codec_ok C" and r: "up_reach C L U st s T"
  shows "up_ok C L U s T"
  using r
proof induction
  case (start s)
  then show ?case using os_ok_start [of s L U] by (simp add: up_ok_def over_owning)
next
  case (change s T s')
  then show ?case
    using os_ok_weather [OF change(2), of L U] upload_at_weather [OF change(2), of C L] by (simp add: up_ok_def over_owning)
next
  case (operation s T op r s')
  have "well_left L U s s'"
    by (rule os_exec_ok [OF L _ operation(2-4)]) (use operation(5) in \<open>simp add: up_ok_def over_owning\<close>)
  then show ?case using up_ok_frame [OF operation(5)] by (simp add: well_left_def over_owning)
next
  case (begins s T e b ns algo r s')
  have "os_ok L (owning U []) s" using begins(6) by (simp add: up_ok_def)
  from runsD [OF runs_Begin [OF L C this begins(2-4), of ns algo]] begins(5) have "begun C L U s ns (hex_encode b) r s'" by auto
  then show ?case by (rule up_ok_begin [OF begins(6)])
next
  case (appends s T sid ns data e r off res s')
  then obtain rec where up: "os_ok L (owning U []) s" "upload_at C L s ns sid rec data" using up_okD by blast
  from runsD [OF runs_Append [OF L C up appends(3-6), of off]] appends(7)
  have a: "append_done C L U s ns sid rec data off (fst (io_Copy r)) res s'" by auto
  obtain rec' where "upload_at C L s' ns sid rec' (accepted data (fst (io_Copy r)) res)" using append_accepted [OF a] by blast
  moreover have "safe L (owning U [upload_dir sid]) s s'" using a by (simp add: append_done_def)
  ultimately show ?case using up_ok_safe [OF appends(8)] by blast
next
  case (stats s T sid ns data e i s')
  then obtain rec where up: "os_ok L (owning U []) s" "upload_at C L s ns sid rec data" using up_okD by blast
  from runsD [OF runs_Stat_upload [OF up stats(3), of st e]] stats(4) have "safe L (owning U [upload_dir sid]) s s'" "upload_at C L s' ns sid rec data" by auto
  then show ?case using up_ok_safe [OF stats(5)] stats(2) by (metis map_upd_triv)
next
  case (resumes s T sid ns data e x s')
  then obtain rec where up: "os_ok L (owning U []) s" "upload_at C L s ns sid rec data" using up_okD by blast
  from runsD [OF runs_Resume [OF up resumes(3), of st e]] resumes(4) have "safe L (owning U [upload_dir sid]) s s'" "upload_at C L s' ns sid rec data" by auto
  then show ?case using up_ok_safe [OF resumes(5)] resumes(2) by (metis map_upd_triv)
next
  case (commits s T sid ns data e m y s')
  then obtain rec where up: "os_ok L (owning U []) s" "upload_at C L s ns sid rec data" using up_okD by blast
  from runsD [OF runs_Commit [OF L C up commits(3-5), of m]] commits(6) have "commit_outcome C L U s ns sid rec data m y s'" by auto
  then show ?case using commit_keeps up_ok_same [OF commits(7,2)] by blast
next
  case (aborts s T sid ns data e err s')
  then obtain rec where up: "os_ok L (owning U []) s" "upload_at C L s ns sid rec data" using up_okD by blast
  from runsD [OF runs_Abort [OF L C up aborts(3-5)]] aborts(6) have "abort_outcome C L U s ns sid rec data e err s'" by auto
  then show ?case using abort_keeps up_ok_same [OF aborts(7,2)] by blast
next
  case (reclaims s T n e es grace y s')
  have ok: "os_ok L (owning U []) s" using reclaims(5) by (simp add: up_ok_def)
  have "safe L (owning U []) s s'"
  proof (cases "0 < grace")
    case True
    from runs_result [OF runs_Reclaim [OF L ok reclaims(2) True reclaims(3)] reclaims(4)] show ?thesis
      by (simp add: reclaim_done_def)
  next
    case False
    then show ?thesis using reclaims(4) safe_refl [OF ok] by (simp add: OsStores_Reclaim_def)
  qed
  then show ?case using up_ok_frame [OF reclaims(5) safeD(1) safe_keeps] by blast
qed

section \<open>An example\<close>

text \<open>A codec for the records of a list, and an upload of two bytes with it.\<close>

definition table_codec :: "stageRecord list \<Rightarrow> manifest_codec" where
  "table_codec rs =
     \<lparr>cd_Marshal = (\<lambda>r. if r \<in> set rs then Inr (replicate (length (takeWhile (\<lambda>x. x \<noteq> r) rs)) (CHR ''x''))
                       else Inl (ErrorString ''not in the table'')),
      cd_Decode = (\<lambda>b. if length b < length rs then Inr (rs ! length b, False) else Inl (ErrorString ''not in the table''))\<rparr>"

lemma table_codec_ok: "codec_ok (table_codec rs)"
  unfolding codec_ok_def
proof (intro allI impI)
  fix r b
  assume m: "cd_Marshal (table_codec rs) r = Inr b"
  let ?n = "length (takeWhile (\<lambda>x. x \<noteq> r) rs)"
  have r: "r \<in> set rs" and b: "length b = ?n" using m by (auto simp: table_codec_def split: if_splits)
  have n: "?n < length rs" using r by (metis (mono_tags, lifting) length_takeWhile_le le_neq_implies_less takeWhile_eq_all_conv takeWhile_eq_take take_all)
  have "rs ! ?n = r" using nth_length_takeWhile [OF n] by simp
  moreover have "relabelled r (Labels (Commit r)) (Labels (Result r)) = r" by (simp add: relabelled_def)
  ultimately have "cd_Decode (table_codec rs) b = Inr (relabelled r (Labels (Commit r)) (Labels (Result r)), False)"
    using b n by (simp add: table_codec_def)
  then show "\<exists>l l'. cd_Decode (table_codec rs) b = Inr (relabelled r l l', False)
      \<and> same_text (Labels (Commit r)) l \<and> same_text (Labels (Result r)) l'"
    by (intro exI [of _ "Labels (Commit r)"] exI [of _ "Labels (Result r)"]) (simp add: same_text_def)
qed

lemma table_marshals: "r \<in> set rs \<Longrightarrow> length rs \<le> 4 \<Longrightarrow> marshals (table_codec rs) r"
  using length_takeWhile_le [of "\<lambda>x. x \<noteq> r" rs] by (auto simp: marshals_def table_codec_def manifest_limit_def)

lemma table_record: "upload_at (table_codec rs) L s ns sid rec data \<Longrightarrow> rec \<in> set rs \<and> Offset rec = int (length data)"
  by (auto simp: upload_at_def recorded_def describes_def parse_record_def table_codec_def Let_def split: if_splits option.splits sum.splits)

definition ex_rand :: bytes where "ex_rand = replicate 16 (CHR ''x'')"

abbreviation ex_sid :: string where "ex_sid \<equiv> hex_encode ex_rand"

definition ex_begun :: stageRecord where
  "ex_begun = \<lparr>Version = 1, ID = ex_sid, Namespace = namespaceSegment ''a'', Algorithm = Canonical, Offset = 0, Hash = be_bytes 8 0,
     State = StageActive, ExpiresAt = 1 + 24 * hour, Commit = zero_meta, Result = zero_meta\<rparr>"

definition ex_appended :: stageRecord where
  "ex_appended = ex_begun\<lparr>Offset := 2, Hash := ''hi'' @ be_bytes 8 2\<rparr>"

definition ex_committing :: stageRecord where
  "ex_committing = committing example_lib ex_appended ''hi'' None"

definition ex_receipt :: stageRecord where
  "ex_receipt = ex_committing\<lparr>State := StageCommitted, Result := Commit ex_committing, ExpiresAt := 1 + 24 * hour\<rparr>"

definition ex_codec :: manifest_codec where
  "ex_codec = table_codec [ex_begun, ex_appended, ex_committing, ex_receipt]"

lemmas ex_codec_ok = table_codec_ok [of "[ex_begun, ex_appended, ex_committing, ex_receipt]", folded ex_codec_def]

lemma ex_marshals: "r \<in> {ex_begun, ex_appended, ex_committing, ex_receipt} \<Longrightarrow> marshals ex_codec r"
  unfolding ex_codec_def by (rule table_marshals) auto

lemma ex_record: "upload_at ex_codec L s ns sid rec data \<Longrightarrow>
    rec \<in> {ex_begun, ex_appended, ex_committing, ex_receipt} \<and> Offset rec = int (length data)"
  unfolding ex_codec_def by (drule table_record) auto

lemma ex_config [simp]:
  "TTL (normalized (oss_stage example_os)) = 24 * hour" "Retention (normalized (oss_stage example_os)) = 24 * hour"
  "cfg_clock (normalized (oss_stage example_os)) (env_after k (background 1)) n = 1" "dated (oss_stage example_os) (background 1)"
  by (simp_all add: example_os_def NewOsStores_def normalized_def cfg_clock_def hour_def minute_def dated_def background_def)

lemma ex_new_record: "newStageRecord example_lib (Inr ex_rand) ''a'' '''' (normalized (oss_stage example_os)) (background 1) = Inr ex_begun"
  by (simp add: newStageRecord_def stageHashRestore_def stageHashState_def example_lib_def ex_begun_def Let_def Canonical_def
      example_os_def NewOsStores_def normalized_def cfg_clock_def hour_def minute_def background_def)

lemma ex_begin:
  "\<exists>s. OsStore_Begin ex_codec example_lib (Inr ex_rand) (OsStores_Use example_os ''a'') (background 1) '''' (os_new (\<lambda>_. None)) = Some (Inr ex_sid, s)
    \<and> up_reach ex_codec example_lib {''hi''} example_os s [ex_sid \<mapsto> (''a'', [])] \<and> quiet s \<and> os_view example_lib s = (\<lambda>ns d. None)
    \<and> upload_at ex_codec example_lib s ''a'' ex_sid ex_begun []"
proof -
  let ?s = "os_new (\<lambda>_. None)" and ?C = ex_codec and ?L = example_lib
  have len: "length ex_rand = 16" by (simp add: ex_rand_def)
  have none: "\<not> exists_at ?s p" for p by (simp add: exists_at_def is_dir_def os_new_def)
  have can: "can_begin ?C ?L ?s (oss_stage example_os) ''a'' ex_rand (background 1) ''''"
    using none ex_marshals [of ex_begun] by (simp add: can_begin_def os_new_facts ex_new_record)
  have ok: "os_ok ?L (owning {''hi''} []) ?s" using os_new_facts(6) by (simp add: over_owning)
  obtain r s where run: "OsStore_Begin ?C ?L (Inr ex_rand) (OsStores_Use example_os ''a'') (background 1) '''' ?s = Some (r, s)"
      "begun ?C ?L {''hi''} ?s ''a'' ex_sid r s" "\<not> isl r"
    using runsD [OF runs_Begin [OF example_lib_ok ex_codec_ok ok os_new_facts(2) ex_config(4) len, of "''a''" "''''"]] can by blast
  then have r: "r = Inr ex_sid" by (auto simp: begun_def split: sum.splits)
  obtain rec where rec: "upload_at ?C ?L s ''a'' ex_sid rec []" "State rec = StageActive"
    using run(2) r by (auto simp: begun_def)
  have "rec = ex_begun" using ex_record [OF rec(1)] by (auto simp: ex_appended_def ex_committing_def ex_receipt_def committing_def)
  moreover have s: "quiet s = quiet ?s" "os_view ?L s = os_view ?L ?s"
    using run(2) safeD(4,5) [of ?L _ ?s s] by (auto simp: begun_def)
  moreover have "up_reach ?C ?L {''hi''} example_os s [ex_sid \<mapsto> (''a'', [])]"
    using up_reach.begins [OF up_reach.start [OF os_new_facts(1)] os_new_facts(2) ex_config(4) len run(1)] r by simp
  ultimately show ?thesis
    using run(1) rec(1) r os_new_facts(3) by (intro exI [of _ s]) (simp add: fun_eq_iff os_new_facts)
qed

lemma ex_unexpired: "unexpired (oss_stage example_os) (background 1) ex_begun" "unexpired (oss_stage example_os) (background 1) ex_appended"
  by (simp_all add: unexpired_def expired_def ex_begun_def ex_appended_def hour_def minute_def)

lemma ex_append_marshals: "append_marshals ex_codec example_lib (normalized (oss_stage example_os)) (background 1) ex_begun ''hi''"
  unfolding append_marshals_def
proof (intro allI impI)
  fix k h
  assume "checkpoint_ok example_lib (Algorithm ex_begun) ''hi'' h"
  then have "h = ''hi'' @ be_bytes 8 2" by (simp add: checkpoint_ok_def example_lib_def numeral_2_eq_2)
  then have "ex_begun\<lparr>Offset := int (length ''hi''), ExpiresAt := cfg_clock (normalized (oss_stage example_os)) (env_after k (background 1)) 0
      + TTL (normalized (oss_stage example_os)), Hash := h\<rparr> = ex_appended"
    by (simp add: ex_appended_def ex_begun_def)
  then show "marshals ex_codec (ex_begun\<lparr>Offset := int (length ''hi''), ExpiresAt := cfg_clock (normalized (oss_stage example_os))
      (env_after k (background 1)) 0 + TTL (normalized (oss_stage example_os)), Hash := h\<rparr>)"
    using ex_marshals [of ex_appended] by simp
qed

lemma ex_commit_marshals:
  "commit_marshals ex_codec (normalized (oss_stage example_os)) (background 1) (committing example_lib ex_appended ''hi'' None)"
  using ex_marshals [of ex_committing] ex_marshals [of ex_receipt]
  by (simp add: commit_marshals_def receipt_marshals_def ex_receipt_def ex_committing_def)

lemma upload_unique:
  assumes "upload_at C L s ns sid rec data" "upload_at C L s ns' sid rec' data'"
  shows "rec' = rec"
proof -
  obtain b b' where "holds s (manifest_at sid) b" "parse_record C L b = Inr rec" "holds s (manifest_at sid) b'" "parse_record C L b' = Inr rec'"
    using assms by (auto simp: upload_at_def recorded_def)
  then show ?thesis using holds_fun by fastforce
qed

abbreviation ex_read :: reader where "ex_read \<equiv> bytes_Reader ''hi''"

lemma ex_append:
  "\<exists>s s'. OsStore_Begin ex_codec example_lib (Inr ex_rand) (OsStores_Use example_os ''a'') (background 1) '''' (os_new (\<lambda>_. None)) = Some (Inr ex_sid, s)
    \<and> osStage_Append ex_codec example_lib (OsStores_Use example_os ''a'') (background 1) ex_sid 0 ex_read s = Some ((2, None), s')
    \<and> up_reach ex_codec example_lib {''hi''} example_os s' [ex_sid \<mapsto> (''a'', ''hi'')] \<and> quiet s' \<and> os_view example_lib s' = (\<lambda>ns d. None)
    \<and> upload_at ex_codec example_lib s' ''a'' ex_sid ex_appended ''hi''"
proof -
  let ?C = ex_codec and ?L = example_lib
  obtain s where s: "OsStore_Begin ?C ?L (Inr ex_rand) (OsStores_Use example_os ''a'') (background 1) '''' (os_new (\<lambda>_. None)) = Some (Inr ex_sid, s)"
      "up_reach ?C ?L {''hi''} example_os s [ex_sid \<mapsto> (''a'', [])]" "quiet s" "os_view ?L s = (\<lambda>ns d. None)"
      "upload_at ?C ?L s ''a'' ex_sid ex_begun []"
    using ex_begin by blast
  have ok: "os_ok ?L (owning {''hi''} []) s" using up_reach_ok [OF example_lib_ok ex_codec_ok s(2)] by (simp add: up_ok_def)
  have len: "length ([] @ fst (io_Copy ex_read)) < 2 ^ 63" by simp
  have live: "context_ok (background 1)" by (rule live_context_ok) simp
  have act: "State ex_begun = StageActive" by (simp add: ex_begun_def)
  from runsD [OF runs_Append [OF example_lib_ok ex_codec_ok ok s(5) quiet_unblocked [OF s(3)] ex_config(4) live len, of 0]]
  obtain res s' where a: "osStage_Append ?C ?L (OsStores_Use example_os ''a'') (background 1) ex_sid 0 ex_read s = Some (res, s')"
      "append_done ?C ?L {''hi''} s ''a'' ex_sid ex_begun [] 0 ''hi'' res s'" "snd res = None"
    using s(3) act ex_unexpired(1) ex_append_marshals by auto
  then obtain rec' where r: "upload_at ?C ?L s' ''a'' ex_sid rec' ''hi''" "fst res = 2" "safe ?L (owning {''hi''} [upload_dir ex_sid]) s s'"
      "State rec' = StageActive"
    using act by (auto simp: append_done_def)
  have rec: "rec' = ex_appended"
    using ex_record [OF r(1)] r(4) by (auto simp: ex_begun_def ex_committing_def ex_receipt_def committing_def stage_states)
  have up: "up_reach ?C ?L {''hi''} example_os s' [ex_sid \<mapsto> (''a'', ''hi'')]"
    using up_reach.appends [OF s(2) _ quiet_unblocked [OF s(3)] ex_config(4) live len a(1)] r(2) by (simp add: accepted_def)
  have res: "res = (2, None)" using a(3) r(2) by (cases res) simp
  show ?thesis
    using s a(1) res up safeD(4,5) [OF r(3)] r(1) rec by (intro exI [of _ s] exI [of _ s']) simp
qed

section \<open>Properties\<close>

text \<open>
  C8. In every state that a history with failures reaches, each upload that was begun has on disk exactly the bytes
  whose offset its client was given: the manifest describes them, the file begins with them, and \<open>Stat\<close> returns,
  with their number unless a call fails, the context ends or the upload has expired. Every entry that is
  shown holds bytes its digest names.
\<close>

theorem os_uploads_exact:
  assumes "digest_lib_ok L" "codec_ok C" "up_reach C L U st s T" "T sid = Some (ns, data)" "unblocked s"
  shows "\<exists>rec i s'. upload_at C L s ns sid rec data
    \<and> osStage_Stat C L (OsStores_Use st ns) e sid s = Some (i, s') \<and> up_reach C L U st s' T
    \<and> (case i of
         Inl err \<Rightarrow> \<not> (quiet s \<and> live e \<and> unexpired (oss_stage st) e rec)
       | Inr info \<Rightarrow> si_Offset info = int (length data))
    \<and> (\<forall>ns' d x. os_view L s ns' d = Some x \<longrightarrow> names_bytes L d (fst x) \<and> fst x \<in> U)"
proof -
  obtain rec where up: "os_ok L (owning U []) s" "upload_at C L s ns sid rec data"
    using up_okD [OF up_reach_ok [OF assms(1-3)] assms(4)] by blast
  obtain i s' where i: "osStage_Stat C L (OsStores_Use st ns) e sid s = Some (i, s')"
      "case i of Inl err \<Rightarrow> \<not> (quiet s \<and> live e \<and> unexpired (oss_stage st) e rec) | Inr x \<Rightarrow> x = stage_info rec"
    using runsD [OF runs_Stat_upload [OF up assms(5), of st e]] by blast
  have "Offset rec = int (length data)" using up(2) recordedD(4) by (auto simp: upload_at_def)
  moreover have "names_bytes L d (fst x) \<and> fst x \<in> U" if "os_view L s ns' d = Some x" for ns' d x
    using ok_view [OF up(1) that] by simp
  ultimately show ?thesis
    using up(2) i up_reach.stats [OF assms(3-5) i(1)]
    by (intro exI [of _ rec] exI [of _ i] exI [of _ s']) (auto simp: stage_info_def split: sum.splits)
qed

theorem os_uploads_exact_witness:
  "\<exists>s i s'. up_reach ex_codec example_lib {''hi''} example_os s [ex_sid \<mapsto> (''a'', ''hi'')]
    \<and> osStage_Stat ex_codec example_lib (OsStores_Use example_os ''a'') (background 1) ex_sid s = Some (Inr i, s') \<and> si_Offset i = 2"
proof -
  obtain s where s: "up_reach ex_codec example_lib {''hi''} example_os s [ex_sid \<mapsto> (''a'', ''hi'')]" "quiet s"
      "upload_at ex_codec example_lib s ''a'' ex_sid ex_appended ''hi''"
    using ex_append by blast
  obtain rec i s' where i: "upload_at ex_codec example_lib s ''a'' ex_sid rec ''hi''"
      "osStage_Stat ex_codec example_lib (OsStores_Use example_os ''a'') (background 1) ex_sid s = Some (i, s')"
      "case i of Inl err \<Rightarrow> \<not> (quiet s \<and> live (background 1) \<and> unexpired (oss_stage example_os) (background 1) rec)
       | Inr info \<Rightarrow> si_Offset info = int (length ''hi'')"
    using os_uploads_exact [OF example_lib_ok ex_codec_ok s(1) _ quiet_unblocked [OF s(2)], of ex_sid "''a''" "''hi''" "background 1"] by auto
  then have "rec = ex_appended" using upload_unique [OF s(3)] by blast
  then obtain info where "i = Inr info" "si_Offset info = 2" using i(3) s(2) ex_unexpired(2) by (cases i) auto
  then show ?thesis using s(1) i(2) by blast
qed





end
