(* ===== verification/OsCensus.thy ===== *)
theory OsCensus
  imports OsUploads
begin

text \<open>
  The sweep and the enumerations of a directory store, in every state that a history of operations, uploads, sweeps
  and failures reaches.
\<close>

lemma up_reach_os_ok:
  assumes "digest_lib_ok L" "codec_ok C" "up_reach C L U st s T"
  shows "os_ok L (over U) s"
  using up_reach_ok [OF assms] by (simp add: up_ok_def over_owning)

lemma os_reach_up: "os_reach L U st s \<Longrightarrow> up_reach C L U st s Map.empty"
  by (induction rule: os_reach.induct) (auto intro: up_reach.intros)

text \<open>A store with one blob, on a day without failures.\<close>

lemma census_example:
  "\<exists>s. up_reach ex_codec example_lib {''hi''} example_os s Map.empty \<and> quiet s
    \<and> os_view example_lib s = (\<lambda>ns d. None)(''a'' := Map.empty(hi_digest \<mapsto> (''hi'', Some (writeLabels None))))"
proof -
  obtain s where s: "os_reach example_lib {''hi''} example_os s"
      "os_view example_lib s = (\<lambda>ns d. None)(''a'' := Map.empty(hi_digest \<mapsto> (''hi'', Some (writeLabels None))))"
    using os_add_example by blast
  have "os_view example_lib (mended s) = os_view example_lib s" by (simp add: os_view_def mended_def fun_eq_iff)
  moreover have "up_reach ex_codec example_lib {''hi''} example_os (mended s) Map.empty"
    by (rule up_reach.change [OF os_reach_up [OF s(1)] mended_facts(1)])
  ultimately show ?thesis using s(2) mended_facts(2) by metis
qed

text \<open>
  C9. \<open>Reclaim\<close> returns, whichever calls fail, and has removed only garbage: shared blobs that nothing else links and that are
  older than the grace. No other name on disk has changed, every namespace shows what it showed, uploads are as
  they were, and the count that it returns is the number of blobs removed. Without failures it removes all garbage.
\<close>

theorem os_reclaim_exact:
  assumes "digest_lib_ok L" "codec_ok C" "up_reach C L U st s T" "unblocked s" "0 < grace" "5 \<le> n"
  shows "\<exists>G err s'. OsStores_Reclaim n L st e es grace s = Some ((int (card G), err), s') \<and> up_reach C L U st s' T
    \<and> G \<subseteq> garbage L s (cfg_clock (oss_stage st) e 0 - grace)
    \<and> (\<forall>q. file_at s' q = (if q \<in> G then None else file_at s q)) \<and> os_view L s' = os_view L s
    \<and> (quiet s \<and> (\<forall>k. live (es k)) \<longrightarrow> err = None \<and> G = garbage L s (cfg_clock (oss_stage st) e 0 - grace))"
proof -
  let ?before = "cfg_clock (oss_stage st) e 0 - grace" and ?calm = "quiet s \<and> (\<forall>k. live (es k))"
  obtain res s' where r: "OsStores_Reclaim n L st e es grace s = Some (res, s')" "reclaim_done L (over U) s ?before ?calm res s'"
    using runsD [OF runs_Reclaim [OF assms(1) up_reach_os_ok [OF assms(1-3)] assms(4-6), of st e es]] by blast
  then obtain G where "safe L (over U) s s'" "G \<subseteq> garbage L s ?before" "\<forall>q. file_at s' q = (if q \<in> G then None else file_at s q)"
      "fst res = int (card G)" "snd res = None \<and> ?calm \<longrightarrow> G = garbage L s ?before" "snd res \<noteq> None \<longrightarrow> \<not> ?calm"
    by (auto simp: reclaim_done_def)
  then show ?thesis
    using r(1) safeD(4) [of L "over U" s s'] up_reach.reclaims [OF assms(3,4,6) r(1)]
    by (intro exI [of _ G] exI [of _ "snd res"] exI [of _ s']) (auto simp: prod_eq_iff)
qed

theorem os_reclaim_exact_witness:
  "\<exists>s s' G. up_reach ex_codec example_lib {''hi''} example_os s Map.empty
    \<and> OsStores_Reclaim 5 example_lib example_os (background 9) (\<lambda>_. background 9) 3 s = Some ((int (card G), None), s')
    \<and> G = garbage example_lib s (cfg_clock (oss_stage example_os) (background 9) 0 - 3)
    \<and> os_view example_lib s' ''a'' hi_digest = Some (''hi'', Some (writeLabels None))"
proof -
  obtain s where s: "up_reach ex_codec example_lib {''hi''} example_os s Map.empty" "quiet s"
      "os_view example_lib s = (\<lambda>ns d. None)(''a'' := Map.empty(hi_digest \<mapsto> (''hi'', Some (writeLabels None))))"
    using census_example by blast
  show ?thesis
    using os_reclaim_exact [OF example_lib_ok ex_codec_ok s(1) quiet_unblocked [OF s(2)], of 3 5 "background 9" "\<lambda>_. background 9"] s
    by auto
qed

text \<open>
  C18. \<open>Walk\<close> of a namespace yields exactly the blobs that the namespace shows, each once. Whichever calls fail it returns and
  changes nothing, and what it yields are distinct blobs of the namespace; unless its last item is an error, or
  its consumer left it, nothing is missing. Without failures there is no error.
\<close>

theorem os_walk_exact:
  assumes "digest_lib_ok L" "codec_ok C" "up_reach C L U st s T" "6 \<le> n"
  shows "\<exists>ds fin s'. OsStore_Walk n L (OsStores_Use st ns) es yield s = Some (map (\<lambda>d. Inr (walk_info L (OsStores_Use st ns) d)) ds @ fin, s')
    \<and> still s s' \<and> distinct ds \<and> set ds \<subseteq> dom (os_view L s ns)
    \<and> (fin = [] \<and> set ds = dom (os_view L s ns) \<or> fin = [] \<and> ds \<noteq> [] \<and> \<not> yield (length ds - 1)
       \<or> (\<exists>err. fin = [Inl err]) \<and> \<not> (quiet s \<and> (\<forall>k. live (es k))))"
proof -
  obtain out s' where r: "OsStore_Walk n L (OsStores_Use st ns) es yield s = Some (out, s')"
      "walk_done L s (OsStores_Use st ns) ns yield (quiet s \<and> (\<forall>k. live (es k))) out s'"
    using runsD [OF runs_Walk [OF assms(1) up_reach_os_ok [OF assms(1-3)] assms(4), of st ns es yield]] by blast
  from r(2) show ?thesis
    unfolding walk_done_def
  proof (elim conjE exE)
    fix ds fin
    assume "out = map (\<lambda>d. Inr (walk_info L (OsStores_Use st ns) d)) ds @ fin" "distinct ds" "set ds \<subseteq> dom (os_view L s ns)" "still s s'"
      "fin = [] \<and> set ds = dom (os_view L s ns) \<or> fin = [] \<and> ds \<noteq> [] \<and> \<not> yield (length ds - 1)
       \<or> (\<exists>err. fin = [Inl err]) \<and> \<not> (quiet s \<and> (\<forall>k. live (es k)))"
    then show ?thesis using r(1) by (intro exI [of _ ds] exI [of _ fin] exI [of _ s'] conjI) simp_all
  qed
qed

theorem os_walk_exact_witness:
  "\<exists>s s'. up_reach ex_codec example_lib {''hi''} example_os s Map.empty
    \<and> OsStore_Walk 6 example_lib (OsStores_Use example_os ''a'') (\<lambda>_. background 1) (\<lambda>_. True) s
        = Some ([Inr (walk_info example_lib (OsStores_Use example_os ''a'') hi_digest)], s')"
proof -
  obtain s where s: "up_reach ex_codec example_lib {''hi''} example_os s Map.empty" "quiet s"
      "os_view example_lib s = (\<lambda>ns d. None)(''a'' := Map.empty(hi_digest \<mapsto> (''hi'', Some (writeLabels None))))"
    using census_example by blast
  obtain ds s' where w: "OsStore_Walk 6 example_lib (OsStores_Use example_os ''a'') (\<lambda>_. background 1) (\<lambda>_. True) s
        = Some (map (\<lambda>d. Inr (walk_info example_lib (OsStores_Use example_os ''a'') d)) ds, s')" "distinct ds" "set ds = {hi_digest}"
    using os_walk_exact [OF example_lib_ok ex_codec_ok s(1), of 6 "''a''" "\<lambda>_. background 1" "\<lambda>_. True"] s(2,3) by auto
  then have "ds = [hi_digest]" by (cases ds; cases "tl ds") (auto simp: insert_ident)
  then show ?thesis using s(1) w(1) by auto
qed

text \<open>
  C19. \<open>Namespaces\<close> yields exactly the namespaces that show a blob, each once, under the same proviso: whichever calls fail it
  returns and changes nothing, and nothing is missing unless its last item is an error or its consumer left it.
\<close>

theorem os_namespaces_exact:
  assumes "digest_lib_ok L" "codec_ok C" "up_reach C L U st s T" "6 \<le> n"
  shows "\<exists>nss fin s'. OsStores_Namespaces n L st e ws yield s = Some (map Inr nss @ fin, s') \<and> still s s'
    \<and> distinct nss \<and> set nss \<subseteq> {ns. os_view L s ns \<noteq> Map.empty}
    \<and> (fin = [] \<and> set nss = {ns. os_view L s ns \<noteq> Map.empty} \<or> fin = [] \<and> nss \<noteq> [] \<and> \<not> yield (length nss - 1)
       \<or> (\<exists>err. fin = [Inl err]) \<and> \<not> (quiet s \<and> live e \<and> (\<forall>name k. live (ws name k))))"
proof -
  obtain out s' where r: "OsStores_Namespaces n L st e ws yield s = Some (out, s')"
      "namespaces_done L s yield (quiet s \<and> live e \<and> (\<forall>name k. live (ws name k))) out s'"
    using runsD [OF runs_Namespaces [OF assms(1) up_reach_os_ok [OF assms(1-3)] assms(4), of st e ws yield]] by blast
  from r(2) show ?thesis
    unfolding namespaces_done_def inhabited_def
  proof (elim conjE exE)
    fix nss fin
    assume "out = map Inr nss @ fin" "distinct nss" "set nss \<subseteq> {ns. os_view L s ns \<noteq> Map.empty}" "still s s'"
      "fin = [] \<and> set nss = {ns. os_view L s ns \<noteq> Map.empty} \<or> fin = [] \<and> nss \<noteq> [] \<and> \<not> yield (length nss - 1)
       \<or> (\<exists>err. fin = [Inl err]) \<and> \<not> (quiet s \<and> live e \<and> (\<forall>name k. live (ws name k)))"
    then show ?thesis using r(1) by (intro exI [of _ nss] exI [of _ fin] exI [of _ s'] conjI) simp_all
  qed
qed

theorem os_namespaces_exact_witness:
  "\<exists>s s'. up_reach ex_codec example_lib {''hi''} example_os s Map.empty
    \<and> OsStores_Namespaces 6 example_lib example_os (background 1) (\<lambda>_ _. background 1) (\<lambda>_. True) s = Some ([Inr ''a''], s')"
proof -
  obtain s where s: "up_reach ex_codec example_lib {''hi''} example_os s Map.empty" "quiet s"
      "os_view example_lib s = (\<lambda>ns d. None)(''a'' := Map.empty(hi_digest \<mapsto> (''hi'', Some (writeLabels None))))"
    using census_example by blast
  have one: "{ns. os_view example_lib s ns \<noteq> Map.empty} = {''a''}" using s(3) by auto
  obtain nss s' where w: "OsStores_Namespaces 6 example_lib example_os (background 1) (\<lambda>_ _. background 1) (\<lambda>_. True) s
        = Some (map Inr nss, s')" "distinct nss" "set nss = {''a''}"
    using os_namespaces_exact [OF example_lib_ok ex_codec_ok s(1), of 6 "background 1" "\<lambda>_ _. background 1" "\<lambda>_. True"] s(2)
    unfolding one by auto
  then have "nss = [''a'']" by (cases nss; cases "tl nss") (auto simp: insert_ident)
  then show ?thesis using s(1) w(1) by auto
qed

end
