(* ===== verification/Spec2Isabelle.thy ===== *)
theory Spec2Isabelle
  imports MemRace Decorators HttpWire HttpOrigin CacheFollow OsCensus
begin

text \<open>
  \<^bold>\<open>A verification of flob\<close>, a content-addressable blob store in Go.

  \<^bold>\<open>The program.\<close> A \<open>Store\<close> keeps blobs under their digests, with labels; a \<open>Stores\<close> is a pool of them, one
  per namespace. Backends implement the interface (memory, the file system, S3, a client over HTTP),
  decorators wrap it (fallback, duplicates, existence, digests, tracing, metering, a read-through
  cache), and an HTTP handler serves it, behind an OIDC policy. Large blobs are uploaded through
  stages, and a \<open>Fill\<close> writes a blob while others read it.

  \<^bold>\<open>Conventions.\<close> A Go function on a state is a function in the monad \<open>go\<close> of \<open>Prelude\<close>, where \<open>None\<close> says that
  it does not return, be it a loop without end, a lock held for ever, or a panic. Errors are values of
  \<open>error\<close>. Contexts and clocks are an \<open>env\<close>, which answers each look separately. A reader that is only
  read once is the list of what its reads deliver (\<open>Stages\<close>); one that seeks is a \<open>source\<close> (\<open>CacheTap\<close>).
  Parameters stand for code outside the repository: the go-digest library with its hashes
  (\<open>digest_lib\<close>, with what the code relies on in \<open>digest_lib_ok\<close>), go-jose (\<open>jose\<close>, \<open>jose_ok\<close>), \<open>url.Parse\<close>, date
  formats, the network. Byte counts are \<open>int\<close> with \<open>wrap64\<close> where a sum may overflow; the reference
  counts of the in-memory pool are 64-bit words.

  \<^bold>\<open>Theories, and the files under \<open>src/\<close> they model.\<close>
  \<^item> \<open>Prelude\<close>, \<open>GoStd\<close>: errors, environments, the monad with its total-correctness rules; the string,
    number and base64 functions of Go.
  \<^item> \<open>Namespaces\<close> (\<open>namespace.go\<close>), \<open>Digests\<close> (\<open>digest.go\<close>), \<open>LabelSet\<close> (\<open>labels.go\<close>), \<open>BlobInfo\<close> (\<open>info.go\<close>).
    Namespace segments are safe and invertible, an \<open>Info\<close> memoises.
  \<^item> \<open>Stages\<close>, \<open>StoreApi\<close> (\<open>store.go\<close>): stage records with their hash checkpoints; the interface as a
    record of operations and the search for capabilities through decorators.
  \<^item> \<open>Contract\<close>: the documented contract of a store as the locale \<open>blob_store\<close>, over a view from digests
    to bytes and labels; decorators, server and cache are proved against it.
  \<^item> \<open>Fill\<close> (\<open>fill.go\<close>): the tracker as a step relation of one writer, any number of followers, and abort
    and commit from anywhere; what followers read, who wakes them, and when the fill is released.
  \<^item> \<open>MemStore\<close>, \<open>MemSpec\<close>, \<open>MemStage\<close>, \<open>MemRun\<close>, \<open>MemContract\<close> (\<open>mem.go\<close>, the in-memory part of \<open>reclaim.go\<close>): all
    operations on an explicit heap of blobs and entries with reference counts; the invariant, what each
    operation answers and does, every run from an empty pool, and the interpretation \<open>mem\<close> of the
    contract.
  \<^item> \<open>MemRace\<close>: publish, erase and link again as goroutines that interleave at every lock and atomic
    step; counts at rest, no underflow, no deadlock.
  \<^item> \<open>Decorators\<close> (\<open>util.go\<close>, \<open>cmd/configs/otel.go\<close>): the wrappers, against the contract.
  \<^item> \<open>HttpTypes\<close>, \<open>ServeContent\<close>: headers, status codes and \<open>http.ServeContent\<close> of the Go library.
  \<^item> \<open>Oidc\<close>, \<open>Policy\<close> (\<open>auth/\<close>): the key cache as a step relation, token verification, and the policy;
    exactly what a policy allows and with which error it refuses.
  \<^item> \<open>HttpServer\<close> (\<open>http.go\<close>, \<open>http_authorizer.go\<close>), \<open>RangeReader\<close> and \<open>HttpStore\<close> (\<open>http.go\<close>), \<open>HttpWire\<close>: the handler over
    any store that keeps the contract, the ranged reader over any server, the client, and both ends
    together, where the locale \<open>served_store\<close> is interpreted on the in-memory store.
  \<^item> \<open>HttpOrigin\<close> (\<open>http_client.go\<close>, \<open>http_auth.go\<close>): targets, failover, redirects, and where credentials go.
  \<^item> \<open>CacheTap\<close>, \<open>CacheFlight\<close>, \<open>CacheOpen\<close>, \<open>CacheFollow\<close> (\<open>cache.go\<close>): the tap that forwards what the first caller
    reads, the registry of flights, the goroutines of \<open>openOrigin\<close> as a step relation, and the
    followers of a fill. The locales \<open>blob_source\<close> and \<open>two_sources\<close> state what a reader of a blob is, and are
    interpreted on the reader of the in-memory store and on that of a fill; \<open>cached\<close> is a cache of
    two stores that keep the contract.

  \<^item> \<open>OsFs\<close>, \<open>OsTree\<close>: the file system under \<open>os.go\<close>, with names of inodes, hard links, directories and the
    system calls on them. The state says for every call whether it fails and how much it has done before;
    a crash is a state in which all later calls fail.
  \<^item> \<open>LabelFile\<close> (\<open>labels.go\<close>), \<open>OsStore\<close> (\<open>os.go\<close>, \<open>lock.go\<close>, \<open>nlink_linux.go\<close>): the labels file, and the operations of a
    directory store as sequences of calls.
  \<^item> \<open>OsInv\<close>, \<open>OsCalls\<close>, \<open>OsPublish\<close>, \<open>OsSpec\<close>, \<open>OsOps\<close>: the invariant of the tree, rules for each call, and what every
    operation has done when it returns, failed or not. \<open>OsRun\<close>: histories of operations with failures,
    crashes and changing weather, and the properties from every state they reach.
  \<^item> \<open>OsStage\<close> (the uploads of \<open>os.go\<close>): manifests, upload directories and their locks, \<open>Begin\<close>, \<open>Resume\<close>, \<open>Stat\<close>, \<open>Append\<close>,
    \<open>Commit\<close>, \<open>Abort\<close> and the pruning of expired and orphaned uploads.
  \<^item> \<open>OsUpload\<close>, \<open>OsAppend\<close>, \<open>OsCommit\<close>, \<open>OsReceipt\<close>, \<open>OsBegin\<close>: what each of these has done when it returns, failed or not;
    \<open>upload_at\<close> relates a manifest and a staged file to the bytes a client has sent. \<open>OsUploads\<close>: histories in
    which uploads and the operations of a store alternate under failures, with a table of what every
    client was promised, and the properties of uploads from every state they reach.
  \<^item> \<open>OsWalk\<close> (\<open>Walk\<close> and \<open>Namespaces\<close> of \<open>os.go\<close>, \<open>OsStores.Reclaim\<close> of \<open>reclaim.go\<close>): \<open>filepath.WalkDir\<close> of the Go library and
    what is built on it. \<open>OsSweep\<close>, \<open>OsInventory\<close>: the locale \<open>tree_walk\<close>, the contract of a walk with its callback,
    interpreted on the sweep and on the inventory; \<open>OsCensus\<close>: their properties in every reachable state.

  \<^bold>\<open>Bounds and fuel.\<close> \<open>publish_loop\<close> of the in-memory store is a partial function, whose \<open>None\<close> is a loop without
  end, and is proved to return under the invariant; \<open>MemRace\<close> has its turns as steps. \<open>client_Do\<close> takes a unit of fuel
  for each message of a redirect chain: ten are enough, as the redirect policy of the code refuses the
  tenth redirect. \<open>read_all\<close> takes a unit for each read: one more than the length of the blob is enough.
  \<open>walk_dir\<close> takes one for each level of the tree: the layout has five below \<open>share\<close> and seven below \<open>repos\<close>.

  \<^bold>\<open>Assumed of hashes.\<close> Theorems on whole runs speak of a set \<open>U\<close> of byte strings without collisions, the
  only way in which the strength of a digest enters.

  \<^bold>\<open>Assumed of the file system.\<close> The roots are absolute and have no symbolic links below them; \<open>Sync\<close> and \<open>Close\<close> are
  calls that may fail and change nothing, so that there is no loss of power. Locks are answered from
  outside, and \<open>unblocked\<close> says that none is held for ever; the lock files below \<open>locks\<close> are not in the tree.
  \<open>quiet\<close> is a world without failures, \<open>weather\<close> a change of it. One operation runs at a time on the tree.
  Manifests are JSON through the parameter \<open>manifest_codec\<close>; \<open>codec_ok\<close> says that decoding gives back what was
  encoded, with labels that are equal when they are ASCII. \<open>dated\<close> says that the clock is past the zero time of Go, and
  \<open>context_ok\<close> that the error of a context is never \<open>io.EOF\<close>. The pruning of uploads is modelled, without theorems.

  \<^bold>\<open>Not modelled.\<close> \<open>Adopt\<close> of \<open>os.go\<close>, the S3 store (\<open>s3.go\<close>, \<open>sigv4.go\<close>) and its sweep in \<open>reclaim.go\<close>. Left out for good: the timeouts of the default transport and the
  deadline around all attempts in \<open>http_client.go\<close>, the set-up of OpenTelemetry, flags, YAML and terminal
  output in \<open>cmd/\<close>, test support. The memory model of Go is sequentially consistent here, as the code
  synchronises through mutexes, channels and atomics.
\<close>

end
